(* ===== verification/Prelude.thy ===== *)
theory Prelude
  imports Main "HOL-Library.Word" "HOL-Library.Monad_Syntax" "HOL-Library.Multiset"
begin

text \<open>
  Shared vocabulary of the development: the Rust types that every crate uses
  (\<open>std::cmp::Ordering\<close>, the machine integers), the fixed-capacity vector whose overflow is a
  panic, and the generic facts on lists, folds and the option monad that the components share.
  A Rust panic (an \<open>unwrap\<close> of \<open>None\<close>, an index out of range, an \<open>unreachable!\<close>, an assertion)
  is the value \<open>None\<close> of an option result throughout.
\<close>

section \<open>Types of the Rust standard library\<close>

type_synonym u8 = "8 word"
type_synonym u16 = "16 word"
type_synonym u32 = "32 word"
type_synonym u64 = "64 word"

datatype ordering = Less | Equal | Greater

text \<open>\<open>Ord::cmp\<close> on a type with a total order.\<close>

definition cmp :: "'a::linorder \<Rightarrow> 'a \<Rightarrow> ordering" where
  "cmp a b = (if a < b then Less else if a = b then Equal else Greater)"

text \<open>\<open>Ordering::then_with\<close> and \<open>Ordering::reverse\<close>.\<close>

definition then_with :: "ordering \<Rightarrow> ordering \<Rightarrow> ordering" where
  "then_with o1 o2 = (if o1 = Equal then o2 else o1)"

text \<open>\<open>u64::saturating_sub\<close>: subtraction that stops at zero.\<close>

definition saturating_sub :: "'a::len word \<Rightarrow> 'a word \<Rightarrow> 'a word" where
  "saturating_sub a b = (if a \<le> b then 0 else a - b)"

text \<open>An unsigned subtraction, which panics below zero.\<close>

definition usize_sub :: "nat \<Rightarrow> nat \<Rightarrow> nat option" where
  "usize_sub a b = (if b \<le> a then Some (a - b) else None)"

text \<open>\<open>Vec::resize(n, 0)\<close> when it grows or shrinks the vector.\<close>

definition resize :: "nat \<Rightarrow> 'a \<Rightarrow> 'a list \<Rightarrow> 'a list" where
  "resize n v xs = take n xs @ replicate (n - length xs) v"

text \<open>A checked assertion: \<open>assert!\<close>, or a capacity check whose failure is a panic.\<close>

definition require :: "bool \<Rightarrow> unit option" where
  "require b = (if b then Some () else None)"

named_theorems cmp_simps \<open>case analysis of comparisons\<close>
named_theorems panic_free \<open>facts that an operation returns\<close>

section \<open>Comparisons\<close>

lemma cmp_Less_iff [cmp_simps, simp]: "cmp a b = Less \<longleftrightarrow> a < b"
  by (auto simp: cmp_def)

lemma cmp_Equal_iff [cmp_simps, simp]: "cmp a b = Equal \<longleftrightarrow> a = b"
  by (auto simp: cmp_def)

lemma cmp_Greater_iff [cmp_simps, simp]: "cmp a b = Greater \<longleftrightarrow> b < a"
  by (auto simp: cmp_def)

lemma cmp_refl [simp]: "cmp a a = Equal"
  by (simp add: cmp_def)

lemma require_Some [simp]: "require b = Some u \<longleftrightarrow> b"
  by (cases u) (auto simp: require_def)

lemma require_True [simp]: "require True = Some ()"
  by (simp add: require_def)

lemma require_False [simp]: "require False = None"
  by (simp add: require_def)

lemma bind_require: "require b \<bind> f = (if b then f () else None)"
  by (simp add: require_def)

section \<open>Words\<close>

lemma saturating_sub_le: "a \<le> b \<Longrightarrow> saturating_sub a b = 0"
  by (simp add: saturating_sub_def)

lemma unat_saturating_sub: "unat (saturating_sub a b) = unat a - unat b"
  by (auto simp: saturating_sub_def unat_sub word_le_nat_alt)

lemma unat_less_exp: "unat (w :: 'a::len word) < 2 ^ LENGTH('a)"
  by (rule unsigned_less)

lemma unat_minus_one_word: "unat (- 1 :: 'a::len word) = 2 ^ LENGTH('a) - 1"
  by (simp add: unsigned_minus_1_eq_mask mask_eq_exp_minus_1)

lemma unat_ucast_up:
  fixes w :: "'a::len word"
  assumes "LENGTH('a) \<le> LENGTH('b::len)"
  shows "unat (ucast w :: 'b word) = unat w"
proof -
  have "unat w < 2 ^ LENGTH('b)"
    using unat_less_exp [of w] power_increasing [OF assms, of "2 :: nat"] by linarith
  then show ?thesis
    by (simp add: unsigned_ucast_eq take_bit_nat_eq_self)
qed

lemma word_Suc_greater:
  fixes v :: "'a::len word"
  assumes "v \<noteq> - 1"
  shows "v < v + 1"
proof -
  from assms have "unat v < unat (- 1 :: 'a word)"
    by (simp add: word_order.not_eq_extremum word_less_nat_alt)
  then have "Suc (unat v) < 2 ^ LENGTH('a)"
    by (simp add: unat_minus_one_word)
  then show ?thesis
    by (simp add: word_less_nat_alt unat_word_ariths)
qed

unbundle bit_operations_syntax

text \<open>Two words packed into one, the first in the upper half: the shape of several sort keys.\<close>

lemma unat_shift_or:
  fixes hi :: u32 and lo :: "'b::len word"
  assumes "LENGTH('b) \<le> 32"
  shows "unat (push_bit 32 (ucast hi) OR ucast lo :: u64) = unat hi * 2 ^ 32 + unat lo"
proof -
  let ?hi = "push_bit 32 (ucast hi) :: u64" and ?lo = "ucast lo :: u64"
  have small: "unat lo < 2 ^ 32"
    using unat_less_exp [of lo] power_increasing [OF assms, of "2 :: nat"] by linarith
  have big: "unat hi * 2 ^ 32 < 2 ^ 64" using unat_less_exp [of hi] by simp
  have uhi: "unat ?hi = unat hi * 2 ^ 32"
    using big by (simp add: push_bit_eq_mult unat_word_ariths unat_ucast_up)
  have ulo: "unat ?lo = unat lo" using assms by (simp add: unat_ucast_up)
  have "?hi AND ?lo = 0"
  proof (rule bit_eqI)
    fix n
    show "bit (?hi AND ?lo) n \<longleftrightarrow> bit (0 :: u64) n"
      using assms by (auto simp: bit_simps dest: bit_imp_le_length)
  qed
  then have "?hi OR ?lo = ?hi + ?lo" by (simp add: disjunctive_add_eq_or)
  moreover have "unat ?hi + unat ?lo < 2 ^ 64"
    using unat_less_exp [of hi] small by (simp add: uhi ulo)
  ultimately show ?thesis by (simp add: unat_word_ariths uhi ulo)
qed

section \<open>Lists\<close>

lemma length_resize [simp]: "length (resize n v xs) = n"
  by (simp add: resize_def)

lemma nth_resize: "i < n \<Longrightarrow> resize n v xs ! i = (if i < length xs then xs ! i else v)"
  by (auto simp: resize_def nth_append)

lemma drop_eq_Cons_nth: "i < length xs \<Longrightarrow> drop i xs = xs ! i # drop (Suc i) xs"
  by (rule Cons_nth_drop_Suc [symmetric])

lemma list_ex_zip:
  "list_ex (\<lambda>(l, r). P l r) (zip xs ys) \<longleftrightarrow> (\<exists>i < min (length xs) (length ys). P (xs ! i) (ys ! i))"
  by (auto simp: list_ex_iff set_zip)

lemma list_all_zip:
  "list_all (\<lambda>(l, r). P l r) (zip xs ys) \<longleftrightarrow> (\<forall>i < min (length xs) (length ys). P (xs ! i) (ys ! i))"
  by (auto simp: list_all_iff set_zip)

lemma last_snoc_update: "xs \<noteq> [] \<Longrightarrow> xs[length xs - 1 := x] = butlast xs @ [x]"
  by (cases xs rule: rev_cases) auto

text \<open>Measures for recursion into a child of a node, in the shapes the termination prover asks for.\<close>

lemma size_last_less [termination_simp]: "xs \<noteq> [] \<Longrightarrow> size (last xs) < Suc (n + size_list size xs)"
  using size_list_estimation' [of "last xs" xs "size (last xs)" size] by simp

lemma size_hd_less [termination_simp]: "xs \<noteq> [] \<Longrightarrow> size (hd xs) < Suc (n + size_list size xs)"
  using size_list_estimation' [of "hd xs" xs "size (hd xs)" size] by simp

end
