(* ===== verification/Clock.thy ===== *)
theory Clock
  imports Prelude
begin

text \<open>
  The crate \<open>clock\<close>: replica identifiers, Lamport timestamps and the version vector
  \<open>Global\<close> that records, per replica, the highest timestamp a buffer has seen. Sequence
  numbers are 32-bit and replica identifiers 16-bit machine words; \<open>tick\<close> and \<open>observe\<close>
  increment with wrap-around, as the release build does; the \<open>debug_assert_ne\<close> of \<open>Global::observe\<close> on the
  largest replica identifier is left out.
\<close>

unbundle bit_operations_syntax

section \<open>Replica identifiers and Lamport timestamps\<close>

datatype replica_id = ReplicaId (as_u16: u16)

definition LOCAL :: replica_id where "LOCAL = ReplicaId 0"
definition REMOTE_SERVER :: replica_id where "REMOTE_SERVER = ReplicaId 1"
definition AGENT :: replica_id where "AGENT = ReplicaId 2"
definition LOCAL_BRANCH :: replica_id where "LOCAL_BRANCH = ReplicaId 3"
definition FIRST_COLLAB_ID :: replica_id where "FIRST_COLLAB_ID = ReplicaId 8"

text \<open>The derived \<open>Ord\<close> of \<open>ReplicaId\<close> compares the wrapped integers.\<close>

instantiation replica_id :: linorder
begin

definition less_eq_replica_id :: "replica_id \<Rightarrow> replica_id \<Rightarrow> bool" where
  "less_eq_replica_id a b \<longleftrightarrow> as_u16 a \<le> as_u16 b"

definition less_replica_id :: "replica_id \<Rightarrow> replica_id \<Rightarrow> bool" where
  "less_replica_id a b \<longleftrightarrow> as_u16 a < as_u16 b"

instance
  by standard (auto simp: less_eq_replica_id_def less_replica_id_def replica_id.expand)

end

definition is_remote :: "replica_id \<Rightarrow> bool" where
  "is_remote r \<longleftrightarrow> r = REMOTE_SERVER \<or> FIRST_COLLAB_ID \<le> r"

datatype lamport = Lamport (lvalue: u32) (replica_id: replica_id)

text \<open>\<open>Ord for Lamport\<close>: the sequence number first, the replica to break ties.\<close>

definition lamport_cmp :: "lamport \<Rightarrow> lamport \<Rightarrow> ordering" where
  "lamport_cmp a b = then_with (cmp (lvalue a) (lvalue b)) (cmp (replica_id a) (replica_id b))"

instantiation lamport :: linorder
begin

definition less_eq_lamport :: "lamport \<Rightarrow> lamport \<Rightarrow> bool" where
  "less_eq_lamport a b \<longleftrightarrow> lamport_cmp a b \<noteq> Greater"

definition less_lamport :: "lamport \<Rightarrow> lamport \<Rightarrow> bool" where
  "less_lamport a b \<longleftrightarrow> lamport_cmp a b = Less"

instance
  by standard
    (auto simp: less_eq_lamport_def less_lamport_def lamport_cmp_def then_with_def cmp_def lamport.expand
      split: if_splits)

end

definition lamport_MIN :: lamport where
  "lamport_MIN = Lamport 0 (ReplicaId 0)"

definition lamport_MAX :: lamport where
  "lamport_MAX = Lamport (- 1) (ReplicaId (- 1))"

definition lamport_new :: "replica_id \<Rightarrow> lamport" where
  "lamport_new r = Lamport 1 r"

definition as_u64 :: "lamport \<Rightarrow> u64" where
  "as_u64 t = push_bit 32 (ucast (lvalue t)) OR ucast (as_u16 (replica_id t))"

text \<open>\<open>tick\<close> returns the current timestamp and the advanced clock.\<close>

definition tick :: "lamport \<Rightarrow> lamport \<times> lamport" where
  "tick c = (c, Lamport (lvalue c + 1) (replica_id c))"

definition lamport_observe :: "lamport \<Rightarrow> lamport \<Rightarrow> lamport" where
  "lamport_observe c t = Lamport (max (lvalue c) (lvalue t) + 1) (replica_id c)"

section \<open>Version vectors\<close>

datatype global = Global (global_values: "u32 list")

definition global_new :: global where
  "global_new = Global []"

definition replica_index :: "replica_id \<Rightarrow> nat" where
  "replica_index r = unat (as_u16 r)"

definition get :: "global \<Rightarrow> replica_id \<Rightarrow> u32" where
  "get g r = (if replica_index r < length (global_values g)
              then global_values g ! replica_index r else 0)"

definition observe :: "global \<Rightarrow> lamport \<Rightarrow> global" where
  "observe g t =
     (if 0 < lvalue t then
        let new_len = replica_index (replica_id t) + 1;
            vs = (if length (global_values g) < new_len
                  then resize new_len 0 (global_values g) else global_values g);
            ix = replica_index (replica_id t)
        in Global (vs[ix := max (vs ! ix) (lvalue t)])
      else g)"

text \<open>The loops over \<open>self.values.iter_mut().zip(&other.values)\<close>.\<close>

fun join_loop :: "u32 list \<Rightarrow> u32 list \<Rightarrow> u32 list" where
  "join_loop (l # ls) (r # rs) = max l r # join_loop ls rs"
| "join_loop ls _ = ls"

definition join :: "global \<Rightarrow> global \<Rightarrow> global" where
  "join g h =
     (let vs = (if length (global_values g) < length (global_values h)
                then resize (length (global_values h)) 0 (global_values g) else global_values g)
      in Global (join_loop vs (global_values h)))"

definition meet_entry :: "u32 \<Rightarrow> u32 \<Rightarrow> u32" where
  "meet_entry l r = (if l = 0 then r else if r = 0 then l else min l r)"

fun meet_loop :: "nat \<Rightarrow> nat \<Rightarrow> u32 list \<Rightarrow> u32 list \<Rightarrow> u32 list \<times> nat" where
  "meet_loop ix new_len (l # ls) (r # rs) =
     (let l' = meet_entry l r;
          (ls', n) = meet_loop (Suc ix) (if l' \<noteq> 0 then ix + 1 else new_len) ls rs
      in (l' # ls', n))"
| "meet_loop ix new_len ls _ = (ls, new_len)"

definition meet :: "global \<Rightarrow> global \<Rightarrow> global" where
  "meet g h =
     (let vs = (if length (global_values g) < length (global_values h)
                then resize (length (global_values h)) 0 (global_values g) else global_values g);
          (vs', new_len) = meet_loop 0 0 vs (global_values h)
      in if length (global_values h) = length vs' then Global (take new_len vs') else Global vs')"

definition observed :: "global \<Rightarrow> lamport \<Rightarrow> bool" where
  "observed g t \<longleftrightarrow> lvalue t \<le> get g (replica_id t)"

text \<open>\<open>iter\<close>: one timestamp per slot, the slot's index cast to a 16-bit replica.\<close>

definition iter_global :: "global \<Rightarrow> lamport list" where
  "iter_global g = map (\<lambda>(i, v). Lamport v (ReplicaId (of_nat i))) (enumerate 0 (global_values g))"

definition observed_any :: "global \<Rightarrow> global \<Rightarrow> bool" where
  "observed_any g h \<longleftrightarrow>
     list_ex (\<lambda>(l, r). 0 < lvalue r \<and> lvalue r \<le> lvalue l) (zip (iter_global g) (iter_global h))"

definition observed_all :: "global \<Rightarrow> global \<Rightarrow> bool" where
  "observed_all g h \<longleftrightarrow>
     (if length (global_values g) < length (global_values h) then False
      else list_all (\<lambda>(l, r). lvalue r \<le> lvalue l) (zip (iter_global g) (iter_global h)))"

definition changed_since :: "global \<Rightarrow> global \<Rightarrow> bool" where
  "changed_since g h \<longleftrightarrow>
     length (global_values h) < length (global_values g) \<or>
     list_ex (\<lambda>(l, r). r < l) (zip (global_values g) (global_values h))"

text \<open>\<open>Iterator::max_by_key\<close> keeps the last of several maximal elements.\<close>

fun max_by_key :: "('a \<Rightarrow> 'b::linorder) \<Rightarrow> 'a list \<Rightarrow> 'a option" where
  "max_by_key f [] = None"
| "max_by_key f (x # xs) =
     (case max_by_key f xs of None \<Rightarrow> Some x
      | Some y \<Rightarrow> if f y < f x then Some x else Some y)"

definition most_recent :: "global \<Rightarrow> lamport option" where
  "most_recent g = max_by_key lvalue (iter_global g)"

definition global_from_iter :: "lamport list \<Rightarrow> global" where
  "global_from_iter ts = foldl observe global_new ts"

section \<open>Lamport timestamps: order and monotonicity\<close>

lemma lamport_MIN_least: "lamport_MIN \<le> t"
  by (cases t, cases "replica_id t")
    (auto simp: lamport_MIN_def less_eq_lamport_def lamport_cmp_def then_with_def cmp_def
      less_replica_id_def less_eq_replica_id_def not_less word_gt_0)

lemma less_lamport_iff:
  "a < b \<longleftrightarrow> lvalue a < lvalue b \<or> lvalue a = lvalue b \<and> replica_id a < replica_id b"
  by (auto simp: less_lamport_def lamport_cmp_def then_with_def cmp_def)

lemma lamport_MIN_le [simp]: "lamport_MIN \<le> t"
  by (auto simp: less_eq_lamport_def lamport_cmp_def lamport_MIN_def then_with_def cmp_def
      less_replica_id_def word_neq_0_conv [symmetric] not_less
      intro: replica_id.expand split: if_splits)

lemma lamport_le_MAX [simp]: "t \<le> lamport_MAX"
  by (auto simp: less_eq_lamport_def lamport_cmp_def lamport_MAX_def then_with_def cmp_def
      less_replica_id_def word_order.not_eq_extremum [symmetric]
      intro: replica_id.expand split: if_splits)

lemma word_max_Suc_greater:
  fixes a b :: "'a::len word"
  assumes "a \<noteq> - 1" and "b \<noteq> - 1"
  shows "a < max a b + 1" and "b < max a b + 1"
proof -
  have "max a b < max a b + 1"
    using assms by (intro word_Suc_greater) (auto simp: max_def)
  then show "a < max a b + 1" and "b < max a b + 1"
    by (auto intro: le_less_trans [of _ "max a b"])
qed

lemma lamport_observe_greater:
  assumes "lvalue c \<noteq> - 1" and "lvalue t \<noteq> - 1"
  shows "c < lamport_observe c t" and "t < lamport_observe c t"
  using word_max_Suc_greater [OF assms] by (auto simp: less_lamport_iff lamport_observe_def)

lemma tick_greater: "lvalue c \<noteq> - 1 \<Longrightarrow> fst (tick c) < snd (tick c)"
  by (simp add: tick_def less_lamport_iff word_Suc_greater)

text \<open>The 64-bit key packs the two fields without overlap.\<close>

lemma unat_as_u64: "unat (as_u64 t) = unat (lvalue t) * 2 ^ 32 + unat (as_u16 (replica_id t))"
  by (simp add: as_u64_def unat_shift_or)

lemma as_u64_less_iff: "as_u64 a < as_u64 b \<longleftrightarrow> a < b"
proof -
  have ra: "unat (as_u16 (replica_id a)) < 2 ^ 32" and rb: "unat (as_u16 (replica_id b)) < 2 ^ 32"
    using unat_less_exp [of "as_u16 (replica_id a)"] unat_less_exp [of "as_u16 (replica_id b)"] by simp_all
  show ?thesis
    using ra rb
    by (auto simp: word_less_nat_alt less_lamport_iff less_replica_id_def unat_as_u64 word_unat_eq_iff)
qed

section \<open>Version vectors: pointwise behaviour\<close>

text \<open>
  \<open>Global\<close> derives \<open>Eq\<close> on the raw vector, so equality of version vectors means equality of
  what they observed only while no vector ends in a zero. That is the invariant.
\<close>

definition canonical :: "global \<Rightarrow> bool" where
  "canonical g \<longleftrightarrow>
     (global_values g \<noteq> [] \<longrightarrow> last (global_values g) \<noteq> 0) \<and> length (global_values g) \<le> 2 ^ 16"

lemma replica_index_less [simp]: "replica_index r < 2 ^ 16"
  using unat_less_exp [of "as_u16 r"] by (simp add: replica_index_def)

lemma replica_index_inject [simp]: "replica_index r = replica_index r' \<longleftrightarrow> r = r'"
  by (auto simp: replica_index_def word_unat_eq_iff [symmetric] intro: replica_id.expand)

lemma replica_of_index: "i < 2 ^ 16 \<Longrightarrow> \<exists>r. replica_index r = i"
  by (rule exI [of _ "ReplicaId (of_nat i)"])
    (simp add: replica_index_def unat_of_nat)

lemma get_new [simp]: "get global_new r = 0"
  by (simp add: get_def global_new_def)

lemma get_nth: "replica_index r < length vs \<Longrightarrow> get (Global vs) r = vs ! replica_index r"
  by (simp add: get_def)

lemma get_beyond: "length vs \<le> replica_index r \<Longrightarrow> get (Global vs) r = 0"
  by (simp add: get_def)

lemma get_resize [simp]: "length vs \<le> n \<Longrightarrow> get (Global (resize n 0 vs)) r = get (Global vs) r"
  by (auto simp: get_def nth_resize)

lemma canonical_new [simp]: "canonical global_new"
  by (simp add: canonical_def global_new_def)

lemma canonical_get_last:
  assumes "canonical g" and "global_values g \<noteq> []"
  obtains r where "replica_index r = length (global_values g) - 1" and "get g r \<noteq> 0"
proof -
  from assms have "length (global_values g) - 1 < 2 ^ 16"
    by (cases "global_values g") (auto simp: canonical_def)
  then obtain r where r: "replica_index r = length (global_values g) - 1"
    using replica_of_index by blast
  with assms have "get g r \<noteq> 0"
    by (simp add: get_def canonical_def last_conv_nth)
  with r show ?thesis by (rule that)
qed

lemma canonical_length_le:
  assumes "canonical g" and "\<And>r. get g r \<le> get h r"
  shows "length (global_values g) \<le> length (global_values h)"
proof (cases "global_values g = []")
  case False
  with assms(1) obtain r where "replica_index r = length (global_values g) - 1" and "get g r \<noteq> 0"
    by (rule canonical_get_last)
  with assms(2) [of r] have "replica_index r < length (global_values h)"
    by (auto simp: get_def split: if_splits)
  with \<open>replica_index r = _\<close> show ?thesis by simp
qed simp

lemma canonical_eqI:
  assumes "canonical g" and "canonical h" and "\<And>r. get g r = get h r"
  shows "g = h"
proof -
  have len: "length (global_values g) = length (global_values h)"
    using canonical_length_le [of g h] canonical_length_le [of h g] assms by (simp add: le_antisym)
  have "global_values g = global_values h"
  proof (rule nth_equalityI [OF len])
    fix i assume i: "i < length (global_values g)"
    then obtain r where "replica_index r = i"
      using replica_of_index [of i] assms(1) by (auto simp: canonical_def)
    with i len assms(3) [of r] show "global_values g ! i = global_values h ! i"
      by (simp add: get_def)
  qed
  then show ?thesis by (rule global.expand)
qed

lemma get_observe:
  "get (observe g t) r = (if r = replica_id t then max (get g r) (lvalue t) else get g r)"
  by (auto simp: observe_def get_def Let_def nth_resize nth_list_update max_def
      word_neq_0_conv [symmetric])

lemma length_join_loop [simp]: "length (join_loop ls rs) = length ls"
  by (induction ls rs rule: join_loop.induct) auto

lemma nth_join_loop:
  "i < length ls \<Longrightarrow> join_loop ls rs ! i = (if i < length rs then max (ls ! i) (rs ! i) else ls ! i)"
  by (induction ls rs arbitrary: i rule: join_loop.induct) (auto simp: nth_Cons split: nat.splits)

lemma get_join: "get (join g h) r = max (get g r) (get h r)"
  by (auto simp: join_def get_def Let_def nth_join_loop nth_resize)

lemma meet_loop_fst:
  "length (fst (meet_loop ix n ls rs)) = length ls"
  "i < length ls \<Longrightarrow> fst (meet_loop ix n ls rs) ! i =
     (if i < length rs then meet_entry (ls ! i) (rs ! i) else ls ! i)"
  by (induction ix n ls rs arbitrary: i rule: meet_loop.induct)
    (auto simp: Let_def nth_Cons split: prod.splits nat.splits)

declare meet_loop.simps(1) [simp del]

text \<open>The second result of the loop is one past the last slot that is not zero.\<close>

lemma meet_loop_snd:
  assumes "length ls = length rs"
  shows "snd (meet_loop ix n ls rs) = n \<and> (\<forall>x \<in> set (fst (meet_loop ix n ls rs)). x = 0) \<or>
    (\<exists>k < length ls. snd (meet_loop ix n ls rs) = ix + k + 1 \<and>
       fst (meet_loop ix n ls rs) ! k \<noteq> 0 \<and>
       (\<forall>j. k < j \<longrightarrow> j < length ls \<longrightarrow> fst (meet_loop ix n ls rs) ! j = 0))"
  using assms
proof (induction ls rs arbitrary: ix n rule: list_induct2)
  case (Cons l ls r rs)
  define l' where "l' = meet_entry l r"
  define n' where "n' = (if l' \<noteq> 0 then ix + 1 else n)"
  obtain ls' m where rest: "meet_loop (Suc ix) n' ls rs = (ls', m)"
    by (cases "meet_loop (Suc ix) n' ls rs")
  have loop: "meet_loop ix n (l # ls) (r # rs) = (l' # ls', m)"
    using rest by (simp add: meet_loop.simps(1) Let_def l'_def n'_def)
  have len: "length ls' = length ls"
    using meet_loop_fst(1) [of "Suc ix" n' ls rs] by (simp add: rest)
  from Cons.IH [of "Suc ix" n'] consider
      "m = n'" "\<forall>x \<in> set ls'. x = 0"
    | k where "k < length ls" "m = Suc ix + k + 1" "ls' ! k \<noteq> 0"
        "\<forall>j. k < j \<longrightarrow> j < length ls \<longrightarrow> ls' ! j = 0"
    by (auto simp: rest)
  then show ?case
  proof cases
    case 1
    show ?thesis
    proof (cases "l' = 0")
      case False
      with 1 len show ?thesis
        by (intro disjI2 exI [of _ 0]) (auto simp: loop n'_def nth_Cons split: nat.splits)
    qed (use 1 in \<open>simp add: loop n'_def\<close>)
  next
    case 2
    then show ?thesis
      by (intro disjI2 exI [of _ "Suc k"]) (auto simp: loop nth_Cons split: nat.splits)
  qed
qed simp

lemma meet_truncate:
  assumes "length ls = length rs"
  defines "vs \<equiv> fst (meet_loop 0 0 ls rs)" and "m \<equiv> snd (meet_loop 0 0 ls rs)"
  shows "get (Global (take m vs)) r = get (Global vs) r"
    and "take m vs \<noteq> [] \<Longrightarrow> last (take m vs) \<noteq> 0"
proof -
  have len: "length vs = length ls" by (simp add: vs_def meet_loop_fst)
  from meet_loop_snd [OF assms(1), of 0 0]
  consider "m = 0" "\<forall>x \<in> set vs. x = 0"
    | k where "k < length vs" "m = Suc k" "vs ! k \<noteq> 0"
        "\<forall>j. k < j \<longrightarrow> j < length vs \<longrightarrow> vs ! j = 0"
    by (auto simp: vs_def m_def meet_loop_fst)
  note cs = this
  show "get (Global (take m vs)) r = get (Global vs) r"
    using cs by cases (auto simp: get_def)
  show "last (take m vs) \<noteq> 0" if "take m vs \<noteq> []"
    using cs that by cases (auto simp: take_Suc_conv_app_nth)
qed

lemma get_meet: "get (meet g h) r = meet_entry (get g r) (get h r)"
proof -
  define vs where "vs = (if length (global_values g) < length (global_values h)
    then resize (length (global_values h)) 0 (global_values g) else global_values g)"
  obtain ms m where loop: "meet_loop 0 0 vs (global_values h) = (ms, m)"
    by (cases "meet_loop 0 0 vs (global_values h)")
  have len: "length ms = length vs"
    using meet_loop_fst(1) [of 0 0 vs "global_values h"] by (simp add: loop)
  have nth: "i < length vs \<Longrightarrow> ms ! i =
      (if i < length (global_values h) then meet_entry (vs ! i) (global_values h ! i) else vs ! i)" for i
    using meet_loop_fst(2) [of i vs 0 0 "global_values h"] by (simp add: loop)
  have "get (meet g h) r = get (Global ms) r"
    using meet_truncate(1) [of vs "global_values h" r] len
    by (simp add: meet_def Let_def vs_def [symmetric] loop)
  also have "\<dots> = meet_entry (get (Global vs) r) (get h r)"
    using len nth by (auto simp: get_def meet_entry_def vs_def split: if_splits)
  also have "get (Global vs) r = get g r"
    by (simp add: vs_def)
  finally show ?thesis .
qed

section \<open>Version vectors: the canonical form is kept\<close>

lemma canonical_observe: "canonical g \<Longrightarrow> canonical (observe g t)"
proof (cases "0 < lvalue t")
  case True
  assume g: "canonical g"
  let ?ix = "replica_index (replica_id t)"
  define vs where "vs = (if length (global_values g) < ?ix + 1
    then resize (?ix + 1) 0 (global_values g) else global_values g)"
  define ws where "ws = vs[?ix := max (vs ! ?ix) (lvalue t)]"
  have obs: "observe g t = Global ws"
    using True by (simp add: observe_def Let_def vs_def ws_def)
  have ix: "?ix < length vs" by (simp add: vs_def)
  have "last ws \<noteq> 0"
  proof (cases "length vs = ?ix + 1")
    case eq: True
    then have "last ws = max (vs ! ?ix) (lvalue t)"
      using ix by (subst last_conv_nth) (auto simp: ws_def)
    with True show ?thesis by (auto simp: max_def)
  next
    case False
    with ix have big: "vs = global_values g" "?ix < length vs - 1"
      by (auto simp: vs_def split: if_splits)
    then have "last ws = last vs"
      by (subst last_conv_nth, force simp: ws_def, subst last_conv_nth) (auto simp: ws_def)
    with g big show ?thesis by (auto simp: canonical_def)
  qed
  moreover have "length ws \<le> 2 ^ 16"
    using g replica_index_less [of "replica_id t"]
    by (auto simp: ws_def vs_def canonical_def Suc_le_eq simp del: replica_index_less)
  ultimately show ?thesis by (simp add: obs canonical_def)
qed (simp add: observe_def)

lemma canonical_from_iter [simp]: "canonical (global_from_iter ts)"
proof -
  have "canonical g \<Longrightarrow> canonical (foldl observe g ts)" for g
    by (induction ts arbitrary: g) (auto intro: canonical_observe)
  then show ?thesis by (simp add: global_from_iter_def)
qed

lemma canonical_join:
  assumes g: "canonical g" and h: "canonical h"
  shows "canonical (join g h)"
proof -
  define vs where "vs = (if length (global_values g) < length (global_values h)
    then resize (length (global_values h)) 0 (global_values g) else global_values g)"
  define ws where "ws = join_loop vs (global_values h)"
  have len: "length ws = max (length (global_values g)) (length (global_values h))"
    by (auto simp: ws_def vs_def)
  have "last ws \<noteq> 0" if "ws \<noteq> []"
  proof -
    from that have n: "length vs - 1 < length vs" by (cases vs) (simp_all add: ws_def)
    have "last ws = ws ! (length ws - 1)" using that by (rule last_conv_nth)
    also have "\<dots> = (if length vs - 1 < length (global_values h)
        then max (vs ! (length vs - 1)) (global_values h ! (length vs - 1)) else vs ! (length vs - 1))"
      using nth_join_loop [OF n, of "global_values h"] by (simp add: ws_def)
    finally have lst: "last ws = \<dots>" .
    show ?thesis
    proof (cases "length (global_values g) < length (global_values h)")
      case True
      then have "global_values h ! (length vs - 1) \<noteq> 0"
        using h by (auto simp: canonical_def vs_def last_conv_nth)
      with True lst show ?thesis by (auto simp: vs_def max_def)
    next
      case False
      then have "global_values g ! (length vs - 1) \<noteq> 0"
        using g that by (auto simp: canonical_def vs_def ws_def last_conv_nth)
      with False lst show ?thesis by (auto simp: vs_def max_def)
    qed
  qed
  with g h len show ?thesis
    by (auto simp: canonical_def join_def Let_def vs_def [symmetric] ws_def [symmetric])
qed

lemma canonical_meet:
  assumes g: "canonical g" and h: "canonical h"
  shows "canonical (meet g h)"
proof -
  define vs where "vs = (if length (global_values g) < length (global_values h)
    then resize (length (global_values h)) 0 (global_values g) else global_values g)"
  obtain ms m where loop: "meet_loop 0 0 vs (global_values h) = (ms, m)"
    by (cases "meet_loop 0 0 vs (global_values h)")
  have len: "length ms = length vs"
    using meet_loop_fst(1) [of 0 0 vs "global_values h"] by (simp add: loop)
  have eq: "meet g h = (if length (global_values h) = length ms then Global (take m ms) else Global ms)"
    by (simp add: meet_def Let_def vs_def [symmetric] loop)
  have bound: "length vs \<le> 2 ^ 16"
    using g h by (auto simp: vs_def canonical_def)
  show ?thesis
  proof (cases "length (global_values h) = length vs")
    case True
    with meet_truncate(2) [of vs "global_values h"] len bound show ?thesis
      by (simp add: eq loop canonical_def)
  next
    case False
    then have vs: "vs = global_values g" "length (global_values h) < length vs"
      by (auto simp: vs_def split: if_splits)
    then have ne: "vs \<noteq> []" "ms \<noteq> []" using len by auto
    have "ms ! (length vs - 1) = vs ! (length vs - 1)"
      using meet_loop_fst(2) [of "length vs - 1" vs 0 0 "global_values h"] vs(2) ne(1)
      by (auto simp: loop split: if_splits)
    then have "last ms = last vs"
      using ne len by (simp add: last_conv_nth)
    with g vs(1) ne len False bound show ?thesis
      by (simp add: eq canonical_def)
  qed
qed

section \<open>Comparing version vectors\<close>

lemma map_lvalue_iter: "map lvalue (iter_global g) = global_values g"
  by (simp add: iter_global_def comp_def case_prod_beta)

lemma length_iter_global [simp]: "length (iter_global g) = length (global_values g)"
  by (simp add: iter_global_def)

lemma lvalue_iter_nth: "i < length (global_values g) \<Longrightarrow> lvalue (iter_global g ! i) = global_values g ! i"
  by (metis length_iter_global map_lvalue_iter nth_map)

text \<open>A quantifier over replicas is a quantifier over the slots of the vectors.\<close>

definition slot :: "u32 list \<Rightarrow> nat \<Rightarrow> u32" where
  "slot vs i = (if i < length vs then vs ! i else 0)"

lemma get_slot: "get g r = slot (global_values g) (replica_index r)"
  by (simp add: get_def slot_def)

lemma slot_nth: "i < length vs \<Longrightarrow> slot vs i = vs ! i"
  by (simp add: slot_def)

lemma slot_pos_less: "0 < slot vs i \<Longrightarrow> i < length vs"
  by (simp add: slot_def split: if_splits)

lemma ex_replica_iff_ex_slot:
  "(\<exists>r. P (get g r) (get h r)) \<longleftrightarrow>
   (\<exists>i < 2 ^ 16. P (slot (global_values g) i) (slot (global_values h) i))"
proof
  assume "\<exists>r. P (get g r) (get h r)"
  then show "\<exists>i < 2 ^ 16. P (slot (global_values g) i) (slot (global_values h) i)"
    using replica_index_less by (metis get_slot)
next
  assume "\<exists>i < 2 ^ 16. P (slot (global_values g) i) (slot (global_values h) i)"
  then show "\<exists>r. P (get g r) (get h r)"
    using replica_of_index by (metis get_slot)
qed

lemma changed_since_iff:
  assumes "canonical g"
  shows "changed_since g h \<longleftrightarrow> (\<exists>r. get h r < get g r)"
proof (cases "length (global_values h) < length (global_values g)")
  case True
  then have "\<not> (\<forall>r. get g r \<le> get h r)"
    using canonical_length_le [OF assms, of h] by force
  with True show ?thesis by (auto simp: changed_since_def not_le)
next
  case False
  have "changed_since g h \<longleftrightarrow> (\<exists>i < length (global_values g). global_values h ! i < global_values g ! i)"
    using False by (auto simp: changed_since_def list_ex_zip)
  also have "\<dots> \<longleftrightarrow> (\<exists>i < 2 ^ 16. slot (global_values h) i < slot (global_values g) i)"
  proof
    assume "\<exists>i < length (global_values g). global_values h ! i < global_values g ! i"
    with False assms show "\<exists>i < 2 ^ 16. slot (global_values h) i < slot (global_values g) i"
      by (metis canonical_def leI less_le_trans slot_nth)
  next
    assume "\<exists>i < 2 ^ 16. slot (global_values h) i < slot (global_values g) i"
    then obtain i where i: "slot (global_values h) i < slot (global_values g) i" by blast
    then have "i < length (global_values g)"
      by (intro slot_pos_less) (metis word_gt_0 word_not_simps(1))
    with i False show "\<exists>i < length (global_values g). global_values h ! i < global_values g ! i"
      by (intro exI [of _ i]) (simp add: slot_nth)
  qed
  also have "\<dots> \<longleftrightarrow> (\<exists>r. get h r < get g r)"
    using ex_replica_iff_ex_slot [of "\<lambda>a b. b < a" g h] by simp
  finally show ?thesis .
qed

lemma observed_all_changed: "observed_all g h \<longleftrightarrow> \<not> changed_since h g"
  by (auto simp: observed_all_def changed_since_def list_all_zip list_ex_zip lvalue_iter_nth not_less)
    (metis less_le_trans not_le)

lemma observed_all_iff:
  assumes "canonical h"
  shows "observed_all g h \<longleftrightarrow> (\<forall>r. get h r \<le> get g r)"
  using changed_since_iff [OF assms, of g] by (auto simp: observed_all_changed not_less)

lemma observed_any_iff:
  assumes "canonical h"
  shows "observed_any g h \<longleftrightarrow> (\<exists>r. 0 < get h r \<and> get h r \<le> get g r)"
proof -
  let ?gs = "global_values g" and ?hs = "global_values h"
  have "observed_any g h \<longleftrightarrow> (\<exists>i < min (length ?gs) (length ?hs). 0 < ?hs ! i \<and> ?hs ! i \<le> ?gs ! i)"
    unfolding observed_any_def list_ex_zip by (metis length_iter_global lvalue_iter_nth min_less_iff_conj)
  also have "\<dots> \<longleftrightarrow> (\<exists>i < 2 ^ 16. 0 < slot ?hs i \<and> slot ?hs i \<le> slot ?gs i)"
  proof
    assume "\<exists>i < min (length ?gs) (length ?hs). 0 < ?hs ! i \<and> ?hs ! i \<le> ?gs ! i"
    with assms show "\<exists>i < 2 ^ 16. 0 < slot ?hs i \<and> slot ?hs i \<le> slot ?gs i"
      by (metis canonical_def less_le_trans min_less_iff_conj slot_nth)
  next
    assume "\<exists>i < 2 ^ 16. 0 < slot ?hs i \<and> slot ?hs i \<le> slot ?gs i"
    then obtain i where i: "0 < slot ?hs i" "slot ?hs i \<le> slot ?gs i" by blast
    then have "i < length ?hs" "i < length ?gs"
      by (auto intro: slot_pos_less less_le_trans)
    with i show "\<exists>i < min (length ?gs) (length ?hs). 0 < ?hs ! i \<and> ?hs ! i \<le> ?gs ! i"
      by (intro exI [of _ i]) (simp add: slot_nth)
  qed
  also have "\<dots> \<longleftrightarrow> (\<exists>r. 0 < get h r \<and> get h r \<le> get g r)"
    using ex_replica_iff_ex_slot [of "\<lambda>a b. 0 < a \<and> a \<le> b" h g] by simp
  finally show ?thesis .
qed

lemma max_by_key_Some:
  "xs \<noteq> [] \<Longrightarrow> \<exists>y. max_by_key f xs = Some y \<and> y \<in> set xs \<and> (\<forall>x \<in> set xs. f x \<le> f y)"
proof (induction xs)
  case (Cons x xs)
  then show ?case by (cases "xs = []") (auto split: option.splits)
qed simp

section \<open>The interface of a version vector\<close>

text \<open>
  What the buffer relies on: a lookup per replica, an observation of one timestamp, and a join
  that merges the knowledge of two replicas, all on states that keep an invariant. The lemmas
  are the facts a causal delivery argument uses.
\<close>

locale version_vector =
  fixes inv :: "'v \<Rightarrow> bool"
    and look :: "'v \<Rightarrow> replica_id \<Rightarrow> u32"
    and obs :: "'v \<Rightarrow> lamport \<Rightarrow> 'v"
    and jn :: "'v \<Rightarrow> 'v \<Rightarrow> 'v"
    and dominates :: "'v \<Rightarrow> 'v \<Rightarrow> bool"
  assumes inv_obs: "inv v \<Longrightarrow> inv (obs v t)"
    and inv_jn: "inv v \<Longrightarrow> inv w \<Longrightarrow> inv (jn v w)"
    and look_obs: "inv v \<Longrightarrow>
      look (obs v t) r = (if r = replica_id t then max (look v r) (lvalue t) else look v r)"
    and look_jn: "inv v \<Longrightarrow> inv w \<Longrightarrow> look (jn v w) r = max (look v r) (look w r)"
    and dominates_iff: "inv v \<Longrightarrow> inv w \<Longrightarrow> dominates v w \<longleftrightarrow> (\<forall>r. look w r \<le> look v r)"
    and ext: "inv v \<Longrightarrow> inv w \<Longrightarrow> (\<And>r. look v r = look w r) \<Longrightarrow> v = w"
begin

lemma jn_commute: "inv v \<Longrightarrow> inv w \<Longrightarrow> jn v w = jn w v"
  by (rule ext) (auto simp: look_jn inv_jn max.commute)

lemma jn_assoc: "inv u \<Longrightarrow> inv v \<Longrightarrow> inv w \<Longrightarrow> jn (jn u v) w = jn u (jn v w)"
  by (rule ext) (auto simp: look_jn inv_jn max.assoc)

lemma jn_idem: "inv v \<Longrightarrow> jn v v = v"
  by (rule ext) (auto simp: look_jn inv_jn)

lemma jn_least:
  "inv u \<Longrightarrow> inv v \<Longrightarrow> inv w \<Longrightarrow> dominates u (jn v w) \<longleftrightarrow> dominates u v \<and> dominates u w"
  by (auto simp: dominates_iff look_jn inv_jn)

lemma dominates_antisym: "inv v \<Longrightarrow> inv w \<Longrightarrow> dominates v w \<Longrightarrow> dominates w v \<Longrightarrow> v = w"
  by (rule ext) (auto simp: dominates_iff intro: order.antisym)

lemma obs_commute: "inv v \<Longrightarrow> obs (obs v t) t' = obs (obs v t') t"
  by (rule ext) (auto simp: look_obs inv_obs max.commute max.left_commute)

lemma obs_jn: "inv v \<Longrightarrow> inv w \<Longrightarrow> jn (obs v t) w = obs (jn v w) t"
  by (rule ext) (auto simp: look_obs look_jn inv_obs inv_jn max.commute max.left_commute)

end

interpretation vv: version_vector canonical get observe join observed_all
  by unfold_locales
    (auto simp: canonical_observe canonical_join get_observe get_join observed_all_iff
      intro: canonical_eqI)

section \<open>Properties\<close>

text \<open>
  C29 The version vectors a buffer can build (from observed timestamps, joins and meets) always keep
  the canonical form, no trailing zero and at most \<open>2 ^ 16\<close> slots; in that form the derived \<open>Eq\<close>
  on the raw vector is equality of what was observed from every replica.
\<close>

theorem global_canonical:
  assumes "canonical g" and "canonical h"
  shows "canonical (observe g t) \<and> canonical (join g h) \<and> canonical (meet g h) \<and>
    canonical (global_from_iter ts) \<and> (g = h \<longleftrightarrow> (\<forall>r. get g r = get h r))"
  using assms canonical_eqI canonical_observe canonical_join canonical_meet by auto

theorem global_canonical_witness:
  "canonical (global_from_iter [Lamport 3 (ReplicaId 2)]) \<and> canonical (global_from_iter []) \<and>
   canonical (meet (global_from_iter [Lamport 3 (ReplicaId 2)]) (global_from_iter []))"
  using global_canonical [of "global_from_iter [Lamport 3 (ReplicaId 2)]" "global_from_iter []"
      "Lamport 1 (ReplicaId 0)" "[]"]
  by simp

text \<open>
  C28 \<open>Global::join\<close> is the least upper bound of the order \<open>observed_all\<close>: it is commutative,
  associative and idempotent, and a vector dominates the join exactly when it dominates both parts.
\<close>

theorem join_least_upper_bound:
  assumes "canonical f" and "canonical g" and "canonical h"
  shows "join f g = join g f \<and> join (join f g) h = join f (join g h) \<and> join f f = f \<and>
    (observed_all h (join f g) \<longleftrightarrow> observed_all h f \<and> observed_all h g) \<and>
    (observed_all f g \<and> observed_all g f \<longrightarrow> f = g)"
  using assms vv.jn_commute vv.jn_assoc vv.jn_idem vv.jn_least vv.dominates_antisym by simp

theorem join_least_upper_bound_witness:
  "join (global_from_iter [Lamport 3 (ReplicaId 2)]) (global_from_iter [Lamport 5 (ReplicaId 0)]) =
   join (global_from_iter [Lamport 5 (ReplicaId 0)]) (global_from_iter [Lamport 3 (ReplicaId 2)])"
  using join_least_upper_bound [of "global_from_iter [Lamport 3 (ReplicaId 2)]"
      "global_from_iter [Lamport 5 (ReplicaId 0)]" global_new]
  by simp

text \<open>
  C30 The comparisons of two version vectors, computed slot by slot over vectors of different
  length, mean what their names say of every replica; \<open>meet\<close> takes the smaller of two observed
  numbers and the only one where a replica was observed on one side.
\<close>

theorem version_comparisons:
  assumes "canonical g" and "canonical h"
  shows "(changed_since g h \<longleftrightarrow> (\<exists>r. get h r < get g r)) \<and>
    (observed_all g h \<longleftrightarrow> (\<forall>r. get h r \<le> get g r)) \<and>
    (observed_any g h \<longleftrightarrow> (\<exists>r. 0 < get h r \<and> get h r \<le> get g r)) \<and>
    get (join g h) r = max (get g r) (get h r) \<and>
    get (meet g h) r = (if get g r = 0 then get h r else if get h r = 0 then get g r
                        else min (get g r) (get h r)) \<and>
    get (observe g t) r = (if r = replica_id t then max (get g r) (lvalue t) else get g r)"
  using assms by (simp add: changed_since_iff observed_all_iff observed_any_iff get_join get_meet
      meet_entry_def get_observe)

theorem version_comparisons_witness:
  "get (meet (global_from_iter [Lamport 3 (ReplicaId 2)]) (global_from_iter [Lamport 5 (ReplicaId 0)]))
     (ReplicaId 2) = 3"
proof -
  let ?g = "global_from_iter [Lamport 3 (ReplicaId 2)]" and ?h = "global_from_iter [Lamport 5 (ReplicaId 0)]"
  have g: "get ?g (ReplicaId 2) = 3" and h: "get ?h (ReplicaId 2) = 0"
    by (simp_all add: global_from_iter_def get_observe)
  show ?thesis
    using version_comparisons [OF canonical_from_iter canonical_from_iter,
        of "[Lamport 3 (ReplicaId 2)]" "[Lamport 5 (ReplicaId 0)]" "ReplicaId 2" lamport_MIN]
    unfolding g h by simp
qed

text \<open>
  C39 Lamport clocks respect causality while the 32-bit counter has not reached its maximum: the
  clock after an observation is later than both the clock and the observed timestamp, and every
  later tick is later than them too.
\<close>

theorem lamport_causality:
  assumes "lvalue c \<noteq> - 1" and "lvalue t \<noteq> - 1"
  shows "t < fst (tick (lamport_observe c t)) \<and> c < fst (tick (lamport_observe c t)) \<and>
    fst (tick c) < snd (tick c) \<and> replica_id (lamport_observe c t) = replica_id c"
  using lamport_observe_greater [OF assms] tick_greater [OF assms(1)]
  by (simp add: tick_def lamport_observe_def)

theorem lamport_causality_witness:
  "Lamport 7 (ReplicaId 9) < fst (tick (lamport_observe (lamport_new LOCAL) (Lamport 7 (ReplicaId 9))))"
  using lamport_causality [of "lamport_new LOCAL" "Lamport 7 (ReplicaId 9)"]
  by (simp add: lamport_new_def)

text \<open>
  C40 The packed 64-bit form of a timestamp orders timestamps exactly as \<open>Ord for Lamport\<close> does,
  and \<open>MIN\<close> and \<open>MAX\<close> bound every timestamp.
\<close>

theorem as_u64_order_embedding:
  "(as_u64 a < as_u64 b \<longleftrightarrow> a < b) \<and> (as_u64 a = as_u64 b \<longleftrightarrow> a = b) \<and>
   lamport_MIN \<le> a \<and> a \<le> lamport_MAX"
  using as_u64_less_iff [of a b] as_u64_less_iff [of b a]
  by (metis lamport_MIN_le lamport_le_MAX linorder_less_linear order_less_irrefl)

end
