(* ===== verification/Sum_Tree.thy ===== *)
theory Sum_Tree
  imports Prelude
begin

text \<open>
  The crate \<open>sum_tree\<close>, file \<open>sum_tree.rs\<close>: the B+ tree that every text data structure of the
  editor is built on. Leaves hold items with one summary each, internal nodes hold children with
  one summary each, and every node caches the sum of its summaries. The traits \<open>Item\<close> and
  \<open>Summary\<close> are a record of operations passed to each definition, \<open>Dimension\<close> is another, and a
  \<open>SeekTarget\<close> is the comparison closure. \<open>Arc\<close> sharing is not visible in the model: every
  mutation goes through \<open>Arc::make_mut\<close>, so trees are values. A full \<open>ArrayVec\<close>, an \<open>unwrap\<close> of
  \<open>None\<close> and an \<open>unreachable!\<close> are \<open>None\<close>. Heights are natural numbers where the source has a \<open>u8\<close>.
\<close>

section \<open>The traits\<close>

definition TREE_BASE :: nat where
  "TREE_BASE = 6"

text \<open>\<open>Item\<close> together with the \<open>Summary\<close> it is summarised by, for one context \<open>cx\<close>.\<close>

record ('t, 's) item_ops =
  szero :: 's
  sadd :: "'s \<Rightarrow> 's \<Rightarrow> 's"
  ssummary :: "'t \<Rightarrow> 's"

record ('s, 'd) dim_ops =
  dzero :: 'd
  dadd :: "'d \<Rightarrow> 's \<Rightarrow> 'd"

definition from_summary_dim :: "('s, 'd) dim_ops \<Rightarrow> 's \<Rightarrow> 'd" where
  "from_summary_dim D s = dadd D (dzero D) s"

text \<open>A summary is its own dimension; the unit type and triples are dimensions.\<close>

definition summary_dim :: "('t, 's) item_ops \<Rightarrow> ('s, 's) dim_ops" where
  "summary_dim ops = \<lparr>dzero = szero ops, dadd = sadd ops\<rparr>"

definition unit_dim :: "('s, unit) dim_ops" where
  "unit_dim = \<lparr>dzero = (), dadd = (\<lambda>_ _. ())\<rparr>"

definition dimensions :: "('s, 'a) dim_ops \<Rightarrow> ('s, 'b) dim_ops \<Rightarrow> ('s, 'c) dim_ops \<Rightarrow> ('s, 'a \<times> 'b \<times> 'c) dim_ops" where
  "dimensions A B C = \<lparr>dzero = (dzero A, dzero B, dzero C),
     dadd = (\<lambda>(a, b, c) s. (dadd A a s, dadd B b s, dadd C c s))\<rparr>"

datatype bias = Left | Right

fun invert_bias :: "bias \<Rightarrow> bias" where
  "invert_bias Left = Right"
| "invert_bias Right = Left"

section \<open>Nodes\<close>

datatype ('t, 's) node =
    Internal nat 's "'s list" "('t, 's) node list"
  | Leaf 's "'t list" "'s list"

fun is_leaf :: "('t, 's) node \<Rightarrow> bool" where
  "is_leaf (Leaf _ _ _) = True"
| "is_leaf (Internal _ _ _ _) = False"

fun height :: "('t, 's) node \<Rightarrow> nat" where
  "height (Internal h _ _ _) = h"
| "height (Leaf _ _ _) = 0"

fun summary :: "('t, 's) node \<Rightarrow> 's" where
  "summary (Internal _ s _ _) = s"
| "summary (Leaf s _ _) = s"

fun child_summaries :: "('t, 's) node \<Rightarrow> 's list" where
  "child_summaries (Internal _ _ css _) = css"
| "child_summaries (Leaf _ _ iss) = iss"

fun child_trees :: "('t, 's) node \<Rightarrow> ('t, 's) node list option" where
  "child_trees (Internal _ _ _ cts) = Some cts"
| "child_trees (Leaf _ _ _) = None"

fun items :: "('t, 's) node \<Rightarrow> 't list option" where
  "items (Leaf _ is _) = Some is"
| "items (Internal _ _ _ _) = None"

fun is_underflowing :: "('t, 's) node \<Rightarrow> bool" where
  "is_underflowing (Internal _ _ _ cts) \<longleftrightarrow> length cts < TREE_BASE"
| "is_underflowing (Leaf _ is _) \<longleftrightarrow> length is < TREE_BASE"

fun is_empty :: "('t, 's) node \<Rightarrow> bool" where
  "is_empty (Internal _ _ _ _) = False"
| "is_empty (Leaf _ is _) \<longleftrightarrow> is = []"

text \<open>Collecting into, pushing onto or extending an \<open>ArrayVec\<close> of capacity \<open>2 * TREE_BASE\<close>.\<close>

definition array_vec :: "'a list \<Rightarrow> 'a list option" where
  "array_vec xs = (if length xs \<le> 2 * TREE_BASE then Some xs else None)"

definition sum_of :: "('t, 's) item_ops \<Rightarrow> 's list \<Rightarrow> 's" where
  "sum_of ops ss = foldl (sadd ops) (szero ops) ss"

section \<open>Appending trees\<close>

definition tree_new :: "('t, 's) item_ops \<Rightarrow> ('t, 's) node" where
  "tree_new ops = Leaf (szero ops) [] []"

definition from_summary :: "'s \<Rightarrow> ('t, 's) node" where
  "from_summary s = Leaf s [] []"

definition from_child_trees ::
  "('t, 's) item_ops \<Rightarrow> ('t, 's) node \<Rightarrow> ('t, 's) node \<Rightarrow> ('t, 's) node option" where
  "from_child_trees ops left right =
     do { css \<leftarrow> array_vec [summary left, summary right];
          cts \<leftarrow> array_vec [left, right];
          Some (Internal (height left + 1) (sum_of ops css) css cts) }"

text \<open>
  \<open>push_tree_recursive\<close> mutates \<open>self\<close> and may return a second tree of the same height that did
  not fit: the model returns both. The height difference is an unsigned subtraction.
\<close>

fun push_tree_recursive ::
  "('t, 's) item_ops \<Rightarrow> ('t, 's) node \<Rightarrow> ('t, 's) node \<Rightarrow> (('t, 's) node \<times> ('t, 's) node option) option" where
  "push_tree_recursive ops (Internal h s css cts) other =
     do {
       _ \<leftarrow> require (height other \<le> h);
       (css', cts', ss_app, ts_app) \<leftarrow>
         (if h - height other = 0 then
            do { ts \<leftarrow> child_trees other;
                 ss_app \<leftarrow> array_vec (child_summaries other);
                 ts_app \<leftarrow> array_vec ts;
                 Some (css, cts, ss_app, ts_app) }
          else if h - height other = 1 \<and> \<not> is_underflowing other then
            Some (css, cts, [summary other], [other])
          else if cts = [] \<or> css = [] then None
          else
            do { (last_child, split) \<leftarrow> push_tree_recursive ops (last cts) other;
                 Some (butlast css @ [summary last_child], butlast cts @ [last_child],
                   case split of None \<Rightarrow> [] | Some t \<Rightarrow> [summary t],
                   case split of None \<Rightarrow> [] | Some t \<Rightarrow> [t]) });
       let child_count = length cts' + length ts_app;
       if 2 * TREE_BASE < child_count then
         do { let midpoint = (child_count + child_count mod 2) div 2;
              left_summaries \<leftarrow> array_vec (take midpoint (css' @ ss_app));
              right_summaries \<leftarrow> array_vec (drop midpoint (css' @ ss_app));
              left_trees \<leftarrow> array_vec (take midpoint (cts' @ ts_app));
              right_trees \<leftarrow> array_vec (drop midpoint (cts' @ ts_app));
              Some (Internal h (sum_of ops left_summaries) left_summaries left_trees,
                    Some (Internal h (sum_of ops right_summaries) right_summaries right_trees)) }
       else
         do { css'' \<leftarrow> array_vec (css' @ ss_app);
              cts'' \<leftarrow> array_vec (cts' @ ts_app);
              Some (Internal h (sadd ops s (summary other)) css'' cts'', None) }
     }"
| "push_tree_recursive ops (Leaf s is iss) other =
     do {
       other_items \<leftarrow> items other;
       let child_count = length is + length other_items;
       if 2 * TREE_BASE < child_count then
         do { let midpoint = (child_count + child_count mod 2) div 2;
              left_items \<leftarrow> array_vec (take midpoint (is @ other_items));
              right_items \<leftarrow> array_vec (drop midpoint (is @ other_items));
              left_summaries \<leftarrow> array_vec (take midpoint (iss @ child_summaries other));
              right_summaries \<leftarrow> array_vec (drop midpoint (iss @ child_summaries other));
              Some (Leaf (sum_of ops left_summaries) left_items left_summaries,
                    Some (Leaf (sum_of ops right_summaries) right_items right_summaries)) }
       else
         do { is' \<leftarrow> array_vec (is @ other_items);
              iss' \<leftarrow> array_vec (iss @ child_summaries other);
              Some (Leaf (sadd ops s (summary other)) is' iss', None) }
     }"

definition div_ceil_2 :: "nat \<Rightarrow> nat" where
  "div_ceil_2 n = (n + 1) div 2"

text \<open>
  \<open>merge_into_right\<close> and \<open>append_large\<close> mutate \<open>large\<close> and may return a tree that goes in front
  of it: the model returns \<open>large\<close> and that tree.
\<close>

fun merge_into_right ::
  "('t, 's) item_ops \<Rightarrow> ('t, 's) node \<Rightarrow> ('t, 's) node \<Rightarrow> (('t, 's) node \<times> ('t, 's) node option) option" where
  "merge_into_right ops (Internal _ small_summary small_css small_cts) (Internal h s css cts) =
     (let total = length cts + length small_cts in
      if total \<le> 2 * TREE_BASE then
        do { all_trees \<leftarrow> array_vec (small_cts @ cts);
             all_summaries \<leftarrow> array_vec (small_css @ css);
             Some (Internal h (sadd ops small_summary s) all_summaries all_trees, None) }
      else
        do { let midpoint = div_ceil_2 total;
             left_trees \<leftarrow> array_vec (take midpoint (small_cts @ cts));
             cts' \<leftarrow> array_vec (drop midpoint (small_cts @ cts));
             left_summaries \<leftarrow> array_vec (take midpoint (small_css @ css));
             css' \<leftarrow> array_vec (drop midpoint (small_css @ css));
             Some (Internal h (sum_of ops css') css' cts',
                   Some (Internal h (sum_of ops left_summaries) left_summaries left_trees)) })"
| "merge_into_right ops (Leaf small_summary small_items small_iss) (Leaf s is iss) =
     (let total = length small_items + length is in
      if total \<le> 2 * TREE_BASE then
        do { all_items \<leftarrow> array_vec (small_items @ is);
             all_summaries \<leftarrow> array_vec (small_iss @ iss);
             Some (Leaf (sadd ops small_summary s) all_items all_summaries, None) }
      else
        do { let midpoint = div_ceil_2 total;
             left_items \<leftarrow> array_vec (take midpoint (small_items @ is));
             is' \<leftarrow> array_vec (drop midpoint (small_items @ is));
             left_summaries \<leftarrow> array_vec (take midpoint (small_iss @ iss));
             iss' \<leftarrow> array_vec (drop midpoint (small_iss @ iss));
             Some (Leaf (sum_of ops iss') is' iss',
                   Some (Leaf (sum_of ops left_summaries) left_items left_summaries)) })"
| "merge_into_right ops _ _ = None"

fun append_large ::
  "('t, 's) item_ops \<Rightarrow> ('t, 's) node \<Rightarrow> ('t, 's) node \<Rightarrow> (('t, 's) node \<times> ('t, 's) node option) option" where
  "append_large ops small (Leaf s is iss) =
     (if height small = 0 then
        if \<not> is_underflowing small then Some (Leaf s is iss, Some small)
        else merge_into_right ops small (Leaf s is iss)
      else None)"
| "append_large ops small (Internal h s css cts) =
     (if height small = h then
        if \<not> is_underflowing small then Some (Internal h s css cts, Some small)
        else merge_into_right ops small (Internal h s css cts)
      else if cts = [] \<or> css = [] then None
      else
        do {
          let s' = sadd ops (summary small) s;
          (first, res) \<leftarrow> append_large ops small (hd cts);
          let css' = summary first # tl css;
          let cts' = first # tl cts;
          case res of
            None \<Rightarrow> Some (Internal h s' css' cts', None)
          | Some tree \<Rightarrow>
              if length cts' < 2 * TREE_BASE then
                do { css'' \<leftarrow> array_vec (summary tree # css');
                     cts'' \<leftarrow> array_vec (tree # cts');
                     Some (Internal h s' css'' cts'', None) }
              else
                do { _ \<leftarrow> require (TREE_BASE \<le> length css');
                     new_css \<leftarrow> array_vec (summary tree # take TREE_BASE css');
                     new_cts \<leftarrow> array_vec (tree # take TREE_BASE cts');
                     Some (Internal h (sum_of ops (drop TREE_BASE css')) (drop TREE_BASE css')
                             (drop TREE_BASE cts'),
                           Some (Internal h (sum_of ops new_css) new_css new_cts)) }
        })"

definition tree_append ::
  "('t, 's) item_ops \<Rightarrow> ('t, 's) node \<Rightarrow> ('t, 's) node \<Rightarrow> ('t, 's) node option" where
  "tree_append ops self other =
     (if is_empty self then Some other
      else if \<not> is_leaf other \<or> items other \<noteq> Some [] then
        (if height self < height other then
           do { (other', res) \<leftarrow> append_large ops self other;
                case res of Some tree \<Rightarrow> from_child_trees ops tree other' | None \<Rightarrow> Some other' }
         else
           do { (self', split) \<leftarrow> push_tree_recursive ops self other;
                case split of Some t \<Rightarrow> from_child_trees ops self' t | None \<Rightarrow> Some self' })
      else Some self)"

definition tree_push :: "('t, 's) item_ops \<Rightarrow> ('t, 's) node \<Rightarrow> 't \<Rightarrow> ('t, 's) node option" where
  "tree_push ops self item =
     (let s = ssummary ops item in tree_append ops self (Leaf s [item] [s]))"

definition from_item :: "('t, 's) item_ops \<Rightarrow> 't \<Rightarrow> ('t, 's) node option" where
  "from_item ops item = tree_push ops (tree_new ops) item"

section \<open>Building trees from sequences\<close>

text \<open>
  The first loop of \<open>from_iter\<close> cuts the items into leaves of \<open>2 * TREE_BASE\<close>; the sum of a leaf
  starts from its first summary. The items taken after the first are \<open>2 * TREE_BASE - 1\<close> at most.
\<close>

fun leaf_nodes :: "('t, 's) item_ops \<Rightarrow> 't list \<Rightarrow> ('t, 's) node list" where
  "leaf_nodes ops [] = []"
| "leaf_nodes ops (x # xs) =
     (let is = x # take (2 * TREE_BASE - 1) xs;
          iss = map (ssummary ops) is
      in Leaf (foldl (sadd ops) (ssummary ops x) (tl iss)) is iss
         # leaf_nodes ops (drop (2 * TREE_BASE - 1) xs))"

text \<open>
  The inner loop of a level: \<open>current_parent_node\<close> collects children, starting from the zero
  summary, until it is full. The last one may hold fewer.
\<close>

fun parents_loop ::
  "('t, 's) item_ops \<Rightarrow> nat \<Rightarrow> ('s \<times> 's list \<times> ('t, 's) node list) option \<Rightarrow>
   ('t, 's) node list \<Rightarrow> ('t, 's) node list" where
  "parents_loop ops h None [] = []"
| "parents_loop ops h (Some (s, css, cts)) [] = [Internal h s css cts]"
| "parents_loop ops h cur (child # nodes) =
     (let (s, css, cts) = (case cur of None \<Rightarrow> (szero ops, [], []) | Some p \<Rightarrow> p);
          s' = sadd ops s (summary child);
          css' = css @ [summary child];
          cts' = cts @ [child]
      in if length cts' = 2 * TREE_BASE
         then Internal h s' css' cts' # parents_loop ops h None nodes
         else parents_loop ops h (Some (s', css', cts')) nodes)"

lemma TREE_BASE_simps [simp]: "2 * TREE_BASE = 12" "TREE_BASE * 2 = 12" "TREE_BASE \<noteq> 0"
  by (simp_all add: TREE_BASE_def)

lemma parents_loop_length:
  "length (parents_loop ops h cur nodes) \<le> length nodes + (if cur = None then 0 else 1)"
proof (induction nodes arbitrary: cur)
  case Nil
  then show ?case by (cases cur) auto
next
  case (Cons n nodes)
  have "length (parents_loop ops h None nodes) \<le> length nodes"
    and "length (parents_loop ops h (Some p) nodes) \<le> Suc (length nodes)" for p
    using Cons.IH [of None] Cons.IH [of "Some p"] by simp_all
  then show ?case
    by (cases cur) (auto simp: Let_def le_SucI)
qed

lemma parents_loop_shorter:
  assumes "1 < length nodes"
  shows "length (parents_loop ops h None nodes) < length nodes"
proof -
  obtain a b ns where nodes: "nodes = a # b # ns"
    using assms by (cases nodes; cases "tl nodes") auto
  have "length (parents_loop ops h (Some p) ns) < Suc (Suc (length ns))" for p
    using parents_loop_length [of ops h "Some p" ns] by simp
  then show ?thesis
    by (simp add: nodes Let_def)
qed

text \<open>The loop over the levels, while more than one node is left.\<close>

function levels_loop ::
  "('t, 's) item_ops \<Rightarrow> nat \<Rightarrow> ('t, 's) node list \<Rightarrow> ('t, 's) node list" where
  "levels_loop ops h nodes =
     (if 1 < length nodes then levels_loop ops (h + 1) (parents_loop ops (h + 1) None nodes)
      else nodes)"
  by pat_completeness auto
termination
  by (relation "measure (\<lambda>(ops, h, nodes). length nodes)") (auto simp: parents_loop_shorter)

declare levels_loop.simps [simp del]

definition tree_from_iter :: "('t, 's) item_ops \<Rightarrow> 't list \<Rightarrow> ('t, 's) node" where
  "tree_from_iter ops xs =
     (case rev (levels_loop ops 0 (leaf_nodes ops xs)) of [] \<Rightarrow> tree_new ops | n # _ \<Rightarrow> n)"

text \<open>
  \<open>from_par_iter\<close>: the chunks of each level are built independently, in order, and a parent's
  sum starts from its first child.
\<close>

fun par_parents :: "('t, 's) item_ops \<Rightarrow> nat \<Rightarrow> ('t, 's) node list \<Rightarrow> ('t, 's) node list" where
  "par_parents ops h [] = []"
| "par_parents ops h (n # ns) =
     (let cts = n # take (2 * TREE_BASE - 1) ns;
          css = map summary cts
      in Internal h (foldl (sadd ops) (summary n) (tl css)) css cts
         # par_parents ops h (drop (2 * TREE_BASE - 1) ns))"

lemma par_parents_length: "length (par_parents ops h ns) \<le> length ns"
proof (induction ops h ns rule: par_parents.induct)
  case (2 ops h n ns)
  have "length (par_parents ops h (drop (2 * TREE_BASE - 1) ns)) \<le> length (drop (2 * TREE_BASE - 1) ns)"
    by (rule "2.IH") simp_all
  also have "\<dots> \<le> length ns" by simp
  finally show ?case by (simp add: Let_def)
qed simp

lemma par_parents_shorter: "1 < length nodes \<Longrightarrow> length (par_parents ops h nodes) < length nodes"
proof (cases nodes)
  case (Cons n ns)
  assume "1 < length nodes"
  with Cons have "length (drop (2 * TREE_BASE - 1) ns) < length ns" by simp
  then show ?thesis
    using par_parents_length [of ops h "drop (2 * TREE_BASE - 1) ns"]
    by (simp add: Cons Let_def)
qed simp

function par_levels ::
  "('t, 's) item_ops \<Rightarrow> nat \<Rightarrow> ('t, 's) node list \<Rightarrow> ('t, 's) node list" where
  "par_levels ops h nodes =
     (if 1 < length nodes then par_levels ops (h + 1) (par_parents ops (h + 1) nodes) else nodes)"
  by pat_completeness auto
termination
  by (relation "measure (\<lambda>(ops, h, nodes). length nodes)") (auto simp: par_parents_shorter)

declare par_levels.simps [simp del]

definition tree_from_par_iter :: "('t, 's) item_ops \<Rightarrow> 't list \<Rightarrow> ('t, 's) node" where
  "tree_from_par_iter ops xs =
     (case rev (par_levels ops 0 (leaf_nodes ops xs)) of [] \<Rightarrow> tree_new ops | n # _ \<Rightarrow> n)"

definition tree_extend :: "('t, 's) item_ops \<Rightarrow> ('t, 's) node \<Rightarrow> 't list \<Rightarrow> ('t, 's) node option" where
  "tree_extend ops self xs = tree_append ops self (tree_from_iter ops xs)"

definition tree_par_extend :: "('t, 's) item_ops \<Rightarrow> ('t, 's) node \<Rightarrow> 't list \<Rightarrow> ('t, 's) node option" where
  "tree_par_extend ops self xs = tree_append ops self (tree_from_par_iter ops xs)"

section \<open>The ends of a tree\<close>

fun leftmost_leaf :: "('t, 's) node \<Rightarrow> ('t, 's) node option" where
  "leftmost_leaf (Leaf s is iss) = Some (Leaf s is iss)"
| "leftmost_leaf (Internal h s css cts) = (if cts = [] then None else leftmost_leaf (hd cts))"

fun rightmost_leaf :: "('t, 's) node \<Rightarrow> ('t, 's) node option" where
  "rightmost_leaf (Leaf s is iss) = Some (Leaf s is iss)"
| "rightmost_leaf (Internal h s css cts) = (if cts = [] then None else rightmost_leaf (last cts))"

text \<open>\<open>slice::first\<close> and \<open>slice::last\<close>.\<close>

definition first_opt :: "'a list \<Rightarrow> 'a option" where
  "first_opt xs = (if xs = [] then None else Some (hd xs))"

definition last_opt :: "'a list \<Rightarrow> 'a option" where
  "last_opt xs = (if xs = [] then None else Some (last xs))"

definition tree_first :: "('t, 's) node \<Rightarrow> 't option option" where
  "tree_first t = do { l \<leftarrow> leftmost_leaf t; is \<leftarrow> items l; Some (first_opt is) }"

definition tree_last :: "('t, 's) node \<Rightarrow> 't option option" where
  "tree_last t = do { l \<leftarrow> rightmost_leaf t; is \<leftarrow> items l; Some (last_opt is) }"

definition last_summary :: "('t, 's) node \<Rightarrow> 's option option" where
  "last_summary t = do { l \<leftarrow> rightmost_leaf t; Some (last_opt (child_summaries l)) }"

fun update_last_recursive ::
  "('t, 's) item_ops \<Rightarrow> ('t \<Rightarrow> 't) \<Rightarrow> ('t, 's) node \<Rightarrow> (('t, 's) node \<times> 's option) option" where
  "update_last_recursive ops f (Internal h s css cts) =
     (if css = [] \<or> cts = [] then None
      else do { (child, res) \<leftarrow> update_last_recursive ops f (last cts);
                child_sum \<leftarrow> res;
                let css' = butlast css @ [child_sum];
                Some (Internal h (sum_of ops css') css' (butlast cts @ [child]),
                      Some (sum_of ops css')) })"
| "update_last_recursive ops f (Leaf s is iss) =
     (if is = [] \<or> iss = [] then Some (Leaf s is iss, None)
      else let item = f (last is);
               iss' = butlast iss @ [ssummary ops item]
           in Some (Leaf (sum_of ops iss') (butlast is @ [item]) iss', Some (sum_of ops iss')))"

definition update_last :: "('t, 's) item_ops \<Rightarrow> ('t \<Rightarrow> 't) \<Rightarrow> ('t, 's) node \<Rightarrow> ('t, 's) node option" where
  "update_last ops f t = map_option fst (update_last_recursive ops f t)"

fun update_first_recursive ::
  "('t, 's) item_ops \<Rightarrow> ('t \<Rightarrow> 't) \<Rightarrow> ('t, 's) node \<Rightarrow> (('t, 's) node \<times> 's option) option" where
  "update_first_recursive ops f (Internal h s css cts) =
     (if css = [] \<or> cts = [] then None
      else do { (child, res) \<leftarrow> update_first_recursive ops f (hd cts);
                child_sum \<leftarrow> res;
                let css' = child_sum # tl css;
                Some (Internal h (sum_of ops css') css' (child # tl cts), Some (sum_of ops css')) })"
| "update_first_recursive ops f (Leaf s is iss) =
     (if is = [] \<or> iss = [] then Some (Leaf s is iss, None)
      else let item = f (hd is);
               iss' = ssummary ops item # tl iss
           in Some (Leaf (sum_of ops iss') (item # tl is) iss', Some (sum_of ops iss')))"

definition update_first :: "('t, 's) item_ops \<Rightarrow> ('t \<Rightarrow> 't) \<Rightarrow> ('t, 's) node \<Rightarrow> ('t, 's) node option" where
  "update_first ops f t = map_option fst (update_first_recursive ops f t)"

definition extent :: "('s, 'd) dim_ops \<Rightarrow> ('t, 's) node \<Rightarrow> 'd" where
  "extent D t = dadd D (dzero D) (summary t)"

section \<open>Seeking without a cursor\<close>

text \<open>
  \<open>seek_past\<close> is the test that moves a seek beyond the end of a child, \<open>target_in_child\<close> the
  test that stops in it; \<open>tgt\<close> is the closure \<open>SeekTarget::cmp\<close>.
\<close>

definition seek_past :: "bias \<Rightarrow> ordering \<Rightarrow> bool" where
  "seek_past b c \<longleftrightarrow> c = Greater \<or> (c = Equal \<and> b = Right)"

definition target_in_child :: "bias \<Rightarrow> ordering \<Rightarrow> bool" where
  "target_in_child b c \<longleftrightarrow> c = Less \<or> (c = Equal \<and> b = Left)"

text \<open>\<open>find_iterate\<close> mutates \<open>position\<close>: the model returns it with the item found and its end.\<close>

fun find_in_items ::
  "('s, 'd) dim_ops \<Rightarrow> ('d \<Rightarrow> ordering) \<Rightarrow> bias \<Rightarrow> bool \<Rightarrow> 'd \<Rightarrow> 't list \<Rightarrow> 's list \<Rightarrow> 'd \<times> ('t \<times> 'd) option" where
  "find_in_items D tgt b exact pos (x # xs) (s # ss) =
     (let child_end = dadd D pos s;
          comparison = tgt child_end
      in if (if exact then comparison = Equal else target_in_child b comparison)
         then (pos, Some (x, child_end))
         else find_in_items D tgt b exact child_end xs ss)"
| "find_in_items D tgt b exact pos _ _ = (pos, None)"

fun find_iterate ::
    "('s, 'd) dim_ops \<Rightarrow> ('d \<Rightarrow> ordering) \<Rightarrow> bias \<Rightarrow> bool \<Rightarrow> 'd \<Rightarrow> ('t, 's) node \<Rightarrow> 'd \<times> ('t \<times> 'd) option"
  and find_in_children ::
    "('s, 'd) dim_ops \<Rightarrow> ('d \<Rightarrow> ordering) \<Rightarrow> bias \<Rightarrow> bool \<Rightarrow> 'd \<Rightarrow> ('t, 's) node list \<Rightarrow> 's list \<Rightarrow>
     'd \<times> ('t \<times> 'd) option" where
  "find_iterate D tgt b exact pos (Internal h s css cts) = find_in_children D tgt b exact pos cts css"
| "find_iterate D tgt b exact pos (Leaf s is iss) = find_in_items D tgt b exact pos is iss"
| "find_in_children D tgt b exact pos (c # cs) (s # ss) =
     (let child_end = dadd D pos s
      in if target_in_child b (tgt child_end) then find_iterate D tgt b exact pos c
         else find_in_children D tgt b exact child_end cs ss)"
| "find_in_children D tgt b exact pos _ _ = (pos, None)"

definition find_with ::
  "bool \<Rightarrow> ('s, 'd) dim_ops \<Rightarrow> ('d \<Rightarrow> ordering) \<Rightarrow> bias \<Rightarrow> ('t, 's) node \<Rightarrow> 'd \<times> 'd \<times> 't option" where
  "find_with exact D tgt b t =
     (let tree_end = dadd D (dzero D) (summary t)
      in if seek_past b (tgt tree_end) then (tree_end, tree_end, None)
         else case find_iterate D tgt b exact (dzero D) t of
           (pos, Some (item, child_end)) \<Rightarrow> (pos, child_end, Some item)
         | (pos, None) \<Rightarrow> (pos, pos, None))"

definition find_exact ::
  "('s, 'd) dim_ops \<Rightarrow> ('d \<Rightarrow> ordering) \<Rightarrow> bias \<Rightarrow> ('t, 's) node \<Rightarrow> 'd \<times> 'd \<times> 't option" where
  "find_exact D tgt b t = find_with True D tgt b t"

definition find_item ::
  "('s, 'd) dim_ops \<Rightarrow> ('d \<Rightarrow> ordering) \<Rightarrow> bias \<Rightarrow> ('t, 's) node \<Rightarrow> 'd \<times> 'd \<times> 't option" where
  "find_item D tgt b t = find_with False D tgt b t"

text \<open>\<open>find_with_prev\<close> also keeps the last item before the position.\<close>

fun find_prev_in_items ::
  "('s, 'd) dim_ops \<Rightarrow> ('d \<Rightarrow> ordering) \<Rightarrow> bias \<Rightarrow> 't option \<Rightarrow> 'd \<Rightarrow> 't list \<Rightarrow> 's list \<Rightarrow>
   'd \<times> ('t option \<times> 't \<times> 'd) option" where
  "find_prev_in_items D tgt b prev pos (x # xs) (s # ss) =
     (let child_end = dadd D pos s
      in if target_in_child b (tgt child_end) then (pos, Some (prev, x, child_end))
         else find_prev_in_items D tgt b (Some x) child_end xs ss)"
| "find_prev_in_items D tgt b prev pos _ _ = (pos, None)"

fun find_with_prev_iterate ::
    "('s, 'd) dim_ops \<Rightarrow> ('d \<Rightarrow> ordering) \<Rightarrow> bias \<Rightarrow> 't option \<Rightarrow> 'd \<Rightarrow> ('t, 's) node \<Rightarrow>
     ('d \<times> ('t option \<times> 't \<times> 'd) option) option"
  and find_prev_in_children ::
    "('s, 'd) dim_ops \<Rightarrow> ('d \<Rightarrow> ordering) \<Rightarrow> bias \<Rightarrow> 't option \<Rightarrow> 'd \<Rightarrow> ('t, 's) node list \<Rightarrow> 's list \<Rightarrow>
     ('d \<times> ('t option \<times> 't \<times> 'd) option) option" where
  "find_with_prev_iterate D tgt b prev pos (Internal h s css cts) =
     find_prev_in_children D tgt b prev pos cts css"
| "find_with_prev_iterate D tgt b prev pos (Leaf s is iss) =
     Some (find_prev_in_items D tgt b prev pos is iss)"
| "find_prev_in_children D tgt b prev pos (c # cs) (s # ss) =
     (let child_end = dadd D pos s
      in if target_in_child b (tgt child_end) then find_with_prev_iterate D tgt b prev pos c
         else do { prev' \<leftarrow> tree_last c; find_prev_in_children D tgt b prev' child_end cs ss })"
| "find_prev_in_children D tgt b prev pos _ _ = Some (pos, None)"

definition find_with_prev ::
  "('s, 'd) dim_ops \<Rightarrow> ('d \<Rightarrow> ordering) \<Rightarrow> bias \<Rightarrow> ('t, 's) node \<Rightarrow>
   ('d \<times> 'd \<times> ('t option \<times> 't) option) option" where
  "find_with_prev D tgt b t =
     (let tree_end = dadd D (dzero D) (summary t)
      in if seek_past b (tgt tree_end) then Some (tree_end, tree_end, None)
         else do { r \<leftarrow> find_with_prev_iterate D tgt b None (dzero D) t;
                   Some (case r of
                       (pos, Some (prev, item, child_end)) \<Rightarrow> (pos, child_end, Some (prev, item))
                     | (pos, None) \<Rightarrow> (pos, pos, None)) })"

end
