(* ===== verification/Cursor.thy ===== *)
theory Cursor
  imports Sum_Tree
begin

text \<open>
  The crate \<open>sum_tree\<close>, file \<open>cursor.rs\<close>: the cursor that walks a tree along a dimension with an
  explicit stack of at most 16 entries, and the iterators over it. The stack is a list with its
  top first. The loops are \<open>partial_function (option)\<close>: \<open>None\<close> is a panic or a loop that does not
  end, so a result \<open>Some\<close> shows that the operation returns.
\<close>

section \<open>State\<close>

record ('t, 's, 'd) stack_entry =
  se_tree :: "('t, 's) node"
  se_index :: nat
  se_position :: 'd

record ('t, 's, 'd) cursor =
  cu_tree :: "('t, 's) node"
  cu_stack :: "('t, 's, 'd) stack_entry list"
  cu_position :: 'd
  cu_did_seek :: bool
  cu_at_end :: bool

definition STACK_CAPACITY :: nat where
  "STACK_CAPACITY = 16"

definition push_entry :: "'e \<Rightarrow> 'e list \<Rightarrow> 'e list option" where
  "push_entry e stk = (if length stk < STACK_CAPACITY then Some (e # stk) else None)"

definition cursor_new :: "('s, 'd) dim_ops \<Rightarrow> ('t, 's) node \<Rightarrow> ('t, 's, 'd) cursor" where
  "cursor_new D t = \<lparr>cu_tree = t, cu_stack = [], cu_position = dzero D, cu_did_seek = False,
     cu_at_end = is_empty t\<rparr>"

definition cursor_reset :: "('s, 'd) dim_ops \<Rightarrow> ('t, 's, 'd) cursor \<Rightarrow> ('t, 's, 'd) cursor" where
  "cursor_reset D c = c\<lparr>cu_did_seek := False, cu_at_end := is_empty (cu_tree c), cu_stack := [],
     cu_position := dzero D\<rparr>"

definition assert_did_seek :: "('t, 's, 'd) cursor \<Rightarrow> unit option" where
  "assert_did_seek c = require (cu_did_seek c)"

section \<open>Reading at the cursor\<close>

definition cursor_item :: "('t, 's, 'd) cursor \<Rightarrow> 't option option" where
  "cursor_item c = do {
     _ \<leftarrow> assert_did_seek c;
     case cu_stack c of
       [] \<Rightarrow> Some None
     | e # _ \<Rightarrow>
         (case se_tree e of
            Leaf _ is _ \<Rightarrow>
              if se_index e = length is then Some None
              else if se_index e < length is then Some (Some (is ! se_index e)) else None
          | Internal _ _ _ _ \<Rightarrow> None) }"

definition cursor_item_summary :: "('t, 's, 'd) cursor \<Rightarrow> 's option option" where
  "cursor_item_summary c = do {
     _ \<leftarrow> assert_did_seek c;
     case cu_stack c of
       [] \<Rightarrow> Some None
     | e # _ \<Rightarrow>
         (case se_tree e of
            Leaf _ _ iss \<Rightarrow>
              if se_index e = length iss then Some None
              else if se_index e < length iss then Some (Some (iss ! se_index e)) else None
          | Internal _ _ _ _ \<Rightarrow> None) }"

definition cursor_end :: "('s, 'd) dim_ops \<Rightarrow> ('t, 's, 'd) cursor \<Rightarrow> 'd option" where
  "cursor_end D c = do {
     s \<leftarrow> cursor_item_summary c;
     Some (case s of Some s \<Rightarrow> dadd D (cu_position c) s | None \<Rightarrow> cu_position c) }"

text \<open>The loops over the stack without its top; \<open>len() - 1\<close> is an unsigned subtraction.\<close>

fun next_leaf_loop :: "('t, 's, 'd) stack_entry list \<Rightarrow> ('t, 's) node option option" where
  "next_leaf_loop [] = Some None"
| "next_leaf_loop (e # es) = do {
     cts \<leftarrow> child_trees (se_tree e);
     _ \<leftarrow> require (1 \<le> length cts);
     if se_index e < length cts - 1
     then do { l \<leftarrow> leftmost_leaf (cts ! (se_index e + 1)); Some (Some l) }
     else next_leaf_loop es }"

fun prev_leaf_loop :: "('t, 's, 'd) stack_entry list \<Rightarrow> ('t, 's) node option option" where
  "prev_leaf_loop [] = Some None"
| "prev_leaf_loop (e # es) =
     (if se_index e \<noteq> 0
      then do { cts \<leftarrow> child_trees (se_tree e);
                _ \<leftarrow> require (se_index e - 1 < length cts);
                l \<leftarrow> rightmost_leaf (cts ! (se_index e - 1));
                Some (Some l) }
      else prev_leaf_loop es)"

definition cursor_next_item :: "('t, 's, 'd) cursor \<Rightarrow> 't option option" where
  "cursor_next_item c = do {
     _ \<leftarrow> assert_did_seek c;
     case cu_stack c of
       e # es \<Rightarrow> do {
         is \<leftarrow> items (se_tree e);
         _ \<leftarrow> require (1 \<le> length is);
         if se_index e = length is - 1
         then do { l \<leftarrow> next_leaf_loop es;
                   case l of None \<Rightarrow> Some None
                   | Some leaf \<Rightarrow> do { js \<leftarrow> items leaf; x \<leftarrow> first_opt js; Some (Some x) } }
         else do { _ \<leftarrow> require (se_index e + 1 < length is); Some (Some (is ! (se_index e + 1))) } }
     | [] \<Rightarrow> if cu_at_end c then Some None else tree_first (cu_tree c) }"

definition cursor_prev_item :: "('t, 's, 'd) cursor \<Rightarrow> 't option option" where
  "cursor_prev_item c = do {
     _ \<leftarrow> assert_did_seek c;
     case cu_stack c of
       e # es \<Rightarrow>
         if se_index e = 0
         then do { l \<leftarrow> prev_leaf_loop es;
                   case l of None \<Rightarrow> Some None
                   | Some leaf \<Rightarrow> do { js \<leftarrow> items leaf; x \<leftarrow> last_opt js; Some (Some x) } }
         else do { is \<leftarrow> items (se_tree e);
                   _ \<leftarrow> require (se_index e - 1 < length is);
                   Some (Some (is ! (se_index e - 1))) }
     | [] \<Rightarrow> if cu_at_end c then tree_last (cu_tree c) else Some None }"

section \<open>Searching forward and backward\<close>

text \<open>
  The inner loops of \<open>search_forward\<close>: skip the summaries the filter rejects, moving the index,
  the position of the entry and the position of the cursor.
\<close>

fun skip_rejected ::
  "('s, 'd) dim_ops \<Rightarrow> ('s \<Rightarrow> bool) \<Rightarrow> nat \<Rightarrow> 'd \<Rightarrow> 'd \<Rightarrow> 's list \<Rightarrow> nat \<times> 'd \<times> 'd" where
  "skip_rejected D f i ep p [] = (i, ep, p)"
| "skip_rejected D f i ep p (s # ss) =
     (if f s then (i, ep, p) else skip_rejected D f (i + 1) (dadd D ep s) (dadd D p s) ss)"

partial_function (option) forward_loop ::
  "('s, 'd) dim_ops \<Rightarrow> ('s \<Rightarrow> bool) \<Rightarrow> ('t, 's, 'd) cursor \<Rightarrow> bool \<Rightarrow> ('t, 's, 'd) cursor option" where
  "forward_loop D f c descend =
     (case cu_stack c of
        [] \<Rightarrow> Some (c\<lparr>cu_at_end := True\<rparr>)
      | e # es \<Rightarrow>
          (case se_tree e of
             Internal h s css cts \<Rightarrow>
               (let i0 = (if descend then se_index e else se_index e + 1);
                    ep0 = (if descend then se_position e else cu_position c);
                    r = skip_rejected D f i0 ep0 (cu_position c) (drop i0 css);
                    i = fst r; ep = fst (snd r); p = snd (snd r)
                in if i < length cts
                   then do { stk \<leftarrow> push_entry \<lparr>se_tree = cts ! i, se_index = 0, se_position = p\<rparr>
                                       (e\<lparr>se_index := i, se_position := ep\<rparr> # es);
                             forward_loop D f (c\<lparr>cu_stack := stk, cu_position := p\<rparr>) True }
                   else forward_loop D f (c\<lparr>cu_stack := es, cu_position := p\<rparr>) False)
           | Leaf s is iss \<Rightarrow>
               do { _ \<leftarrow> require (descend \<or> se_index e < length iss);
                    let i0 = (if descend then se_index e else se_index e + 1);
                        ep0 = (if descend then se_position e else dadd D (se_position e) (iss ! se_index e));
                        p0 = (if descend then cu_position c else dadd D (cu_position c) (iss ! se_index e));
                        r = skip_rejected D f i0 ep0 p0 (drop i0 iss);
                        i = fst r; ep = fst (snd r); p = snd (snd r)
                    in if i < length iss
                       then Some (c\<lparr>cu_stack := e\<lparr>se_index := i, se_position := ep\<rparr> # es, cu_position := p\<rparr>)
                       else forward_loop D f (c\<lparr>cu_stack := es, cu_position := p\<rparr>) False }))"

declare forward_loop.simps [code]

definition search_forward ::
  "('s, 'd) dim_ops \<Rightarrow> ('s \<Rightarrow> bool) \<Rightarrow> ('t, 's, 'd) cursor \<Rightarrow> ('t, 's, 'd) cursor option" where
  "search_forward D f c =
     (if cu_stack c = [] then
        (if \<not> cu_at_end c
         then do { stk \<leftarrow> push_entry \<lparr>se_tree = cu_tree c, se_index = 0, se_position = dzero D\<rparr> [];
                   forward_loop D f (c\<lparr>cu_stack := stk, cu_did_seek := True\<rparr>) True }
         else forward_loop D f (c\<lparr>cu_did_seek := True\<rparr>) False)
      else forward_loop D f c False)"

definition cursor_next :: "('s, 'd) dim_ops \<Rightarrow> ('t, 's, 'd) cursor \<Rightarrow> ('t, 's, 'd) cursor option" where
  "cursor_next D c = search_forward D (\<lambda>_. True) c"

partial_function (option) backward_loop ::
  "('s, 'd) dim_ops \<Rightarrow> ('s \<Rightarrow> bool) \<Rightarrow> ('t, 's, 'd) cursor \<Rightarrow> bool \<Rightarrow> ('t, 's, 'd) cursor option" where
  "backward_loop D f c descending =
     (case cu_stack c of
        [] \<Rightarrow> Some c
      | e # es \<Rightarrow>
          (let p0 = (case es of [] \<Rightarrow> dzero D | parent # _ \<Rightarrow> se_position parent)
           in if \<not> descending \<and> se_index e = 0
              then backward_loop D f (c\<lparr>cu_stack := es, cu_position := p0\<rparr>) False
              else
                (let i = (if descending then se_index e else se_index e - 1);
                     css = child_summaries (se_tree e)
                 in do { _ \<leftarrow> require (i < length css);
                         let p = foldl (dadd D) p0 (take i css);
                             e' = e\<lparr>se_index := i, se_position := p\<rparr>;
                             accept = f (css ! i)
                         in (case se_tree e of
                               Internal h s css' cts \<Rightarrow>
                                 if accept
                                 then do { _ \<leftarrow> require (i < length cts \<and> 1 \<le> length (child_summaries (cts ! i)));
                                           stk \<leftarrow> push_entry \<lparr>se_tree = cts ! i,
                                                    se_index = length (child_summaries (cts ! i)) - 1,
                                                    se_position = dzero D\<rparr> (e' # es);
                                           backward_loop D f (c\<lparr>cu_stack := stk, cu_position := p\<rparr>) True }
                                 else backward_loop D f (c\<lparr>cu_stack := e' # es, cu_position := p\<rparr>) False
                             | Leaf s is iss \<Rightarrow>
                                 if accept then Some (c\<lparr>cu_stack := e' # es, cu_position := p\<rparr>)
                                 else backward_loop D f (c\<lparr>cu_stack := e' # es, cu_position := p\<rparr>) False) })))"

declare backward_loop.simps [code]

definition search_backward ::
  "('s, 'd) dim_ops \<Rightarrow> ('s \<Rightarrow> bool) \<Rightarrow> ('t, 's, 'd) cursor \<Rightarrow> ('t, 's, 'd) cursor option" where
  "search_backward D f c =
     (let c1 = (if \<not> cu_did_seek c then c\<lparr>cu_did_seek := True, cu_at_end := True\<rparr> else c)
      in if cu_at_end c1
         then (let c2 = c1\<lparr>cu_position := dzero D, cu_at_end := is_empty (cu_tree c1)\<rparr>
               in if \<not> is_empty (cu_tree c1)
                  then do { stk \<leftarrow> push_entry \<lparr>se_tree = cu_tree c1,
                                      se_index = length (child_summaries (cu_tree c1)),
                                      se_position = from_summary_dim D (summary (cu_tree c1))\<rparr> (cu_stack c2);
                            backward_loop D f (c2\<lparr>cu_stack := stk\<rparr>) False }
                  else backward_loop D f c2 False)
         else backward_loop D f c1 False)"

definition cursor_prev :: "('s, 'd) dim_ops \<Rightarrow> ('t, 's, 'd) cursor \<Rightarrow> ('t, 's, 'd) cursor option" where
  "cursor_prev D c = search_backward D (\<lambda>_. True) c"

section \<open>Seeking\<close>

text \<open>
  The trait \<open>SeekAggregate\<close>: what a seek does with the items and whole subtrees it passes.
  \<open>begin_leaf\<close> has an empty body in all three implementations.
\<close>

record ('g, 't, 's) seek_aggregate =
  agg_end_leaf :: "'g \<Rightarrow> 'g option"
  agg_push_item :: "'g \<Rightarrow> 't \<Rightarrow> 's \<Rightarrow> 'g option"
  agg_push_tree :: "'g \<Rightarrow> ('t, 's) node \<Rightarrow> 's \<Rightarrow> 'g option"

fun seek_children ::
  "('s, 'd) dim_ops \<Rightarrow> ('d \<Rightarrow> ordering) \<Rightarrow> bias \<Rightarrow> ('g, 't, 's) seek_aggregate \<Rightarrow> 'd \<Rightarrow> 'g \<Rightarrow> nat \<Rightarrow>
   ('t, 's) node list \<Rightarrow> 's list \<Rightarrow> ('d \<times> 'g \<times> nat \<times> ('t, 's) node option) option" where
  "seek_children D tgt b A pos g i (c # cs) (s # ss) =
     (let child_end = dadd D pos s
      in if seek_past b (tgt child_end)
         then do { g' \<leftarrow> agg_push_tree A g c s; seek_children D tgt b A child_end g' (i + 1) cs ss }
         else Some (pos, g, i, Some c))"
| "seek_children D tgt b A pos g i _ _ = Some (pos, g, i, None)"

fun seek_items ::
  "('s, 'd) dim_ops \<Rightarrow> ('d \<Rightarrow> ordering) \<Rightarrow> bias \<Rightarrow> ('g, 't, 's) seek_aggregate \<Rightarrow> 'd \<Rightarrow> 'g \<Rightarrow> nat \<Rightarrow>
   't list \<Rightarrow> 's list \<Rightarrow> ('d \<times> 'g \<times> nat \<times> bool) option" where
  "seek_items D tgt b A pos g i (x # xs) (s # ss) =
     (let child_end = dadd D pos s
      in if seek_past b (tgt child_end)
         then do { g' \<leftarrow> agg_push_item A g x s; seek_items D tgt b A child_end g' (i + 1) xs ss }
         else Some (pos, g, i, True))"
| "seek_items D tgt b A pos g i _ _ = Some (pos, g, i, False)"

text \<open>The loop \<open>'outer\<close>: it returns when it breaks in a leaf or when the stack is empty.\<close>

partial_function (option) seek_loop ::
  "('s, 'd) dim_ops \<Rightarrow> ('d \<Rightarrow> ordering) \<Rightarrow> bias \<Rightarrow> ('g, 't, 's) seek_aggregate \<Rightarrow>
   ('t, 's, 'd) cursor \<Rightarrow> bool \<Rightarrow> 'g \<Rightarrow> (('t, 's, 'd) cursor \<times> 'g) option" where
  "seek_loop D tgt b A c ascending g =
     (case cu_stack c of
        [] \<Rightarrow> Some (c, g)
      | e # es \<Rightarrow>
          (case se_tree e of
             Internal h s css cts \<Rightarrow>
               (let i0 = (if ascending then se_index e + 1 else se_index e)
                in do { _ \<leftarrow> require (i0 \<le> length cts \<and> i0 \<le> length css);
                        r \<leftarrow> seek_children D tgt b A (cu_position c) g i0 (drop i0 cts) (drop i0 css);
                        let pos = fst r; g' = fst (snd r); i = fst (snd (snd r))
                        in (case snd (snd (snd r)) of
                              Some child \<Rightarrow>
                                do { stk \<leftarrow> push_entry \<lparr>se_tree = child, se_index = 0, se_position = pos\<rparr>
                                       (e\<lparr>se_index := i,
                                          se_position := (if ascending \<or> i \<noteq> i0 then pos else se_position e)\<rparr> # es);
                                     seek_loop D tgt b A (c\<lparr>cu_stack := stk, cu_position := pos\<rparr>) False g' }
                            | None \<Rightarrow> seek_loop D tgt b A (c\<lparr>cu_stack := es, cu_position := pos\<rparr>) True g') })
           | Leaf s is iss \<Rightarrow>
               do { _ \<leftarrow> require (se_index e \<le> length is \<and> se_index e \<le> length iss);
                    r \<leftarrow> seek_items D tgt b A (cu_position c) g (se_index e)
                          (drop (se_index e) is) (drop (se_index e) iss);
                    g' \<leftarrow> agg_end_leaf A (fst (snd r));
                    let pos = fst r; i = fst (snd (snd r))
                    in if snd (snd (snd r))
                       then Some (c\<lparr>cu_stack := e\<lparr>se_index := i\<rparr> # es, cu_position := pos\<rparr>, g')
                       else seek_loop D tgt b A (c\<lparr>cu_stack := es, cu_position := pos\<rparr>) True g' }))"

declare seek_loop.simps [code]

definition seek_internal ::
  "('s, 'd) dim_ops \<Rightarrow> ('d \<Rightarrow> ordering) \<Rightarrow> bias \<Rightarrow> ('g, 't, 's) seek_aggregate \<Rightarrow>
   ('t, 's, 'd) cursor \<Rightarrow> 'g \<Rightarrow> (('t, 's, 'd) cursor \<times> 'g \<times> bool) option" where
  "seek_internal D tgt b A c g = do {
     _ \<leftarrow> require (tgt (cu_position c) \<noteq> Less);
     c1 \<leftarrow> (if \<not> cu_did_seek c
            then do { stk \<leftarrow> push_entry \<lparr>se_tree = cu_tree c, se_index = 0, se_position = dzero D\<rparr> (cu_stack c);
                      Some (c\<lparr>cu_did_seek := True, cu_stack := stk\<rparr>) }
            else Some c);
     (c2, g') \<leftarrow> seek_loop D tgt b A c1 False g;
     let c3 = c2\<lparr>cu_at_end := (cu_stack c2 = [])\<rparr>;
     e \<leftarrow> (if b = Left
           then do { s \<leftarrow> cursor_item_summary c3;
                     Some (case s of Some s \<Rightarrow> dadd D (cu_position c3) s | None \<Rightarrow> cu_position c3) }
           else Some (cu_position c3));
     Some (c3, g', tgt e = Equal) }"

text \<open>The three aggregates: nothing, the slice of items passed, a dimension of what is passed.\<close>

definition unit_aggregate :: "(unit, 't, 's) seek_aggregate" where
  "unit_aggregate = \<lparr>agg_end_leaf = Some, agg_push_item = (\<lambda>g _ _. Some g),
     agg_push_tree = (\<lambda>g _ _. Some g)\<rparr>"

record ('t, 's) slice_state =
  sl_tree :: "('t, 's) node"
  sl_items :: "'t list"
  sl_sums :: "'s list"
  sl_summary :: 's

definition slice_end_leaf :: "('t, 's) item_ops \<Rightarrow> ('t, 's) slice_state \<Rightarrow> ('t, 's) slice_state option" where
  "slice_end_leaf ops g = do {
     t \<leftarrow> tree_append ops (sl_tree g) (Leaf (sl_summary g) (sl_items g) (sl_sums g));
     Some \<lparr>sl_tree = t, sl_items = [], sl_sums = [], sl_summary = szero ops\<rparr> }"

definition slice_push_item ::
  "('t, 's) item_ops \<Rightarrow> ('t, 's) slice_state \<Rightarrow> 't \<Rightarrow> 's \<Rightarrow> ('t, 's) slice_state option" where
  "slice_push_item ops g x s = do {
     is \<leftarrow> array_vec (sl_items g @ [x]);
     ss \<leftarrow> array_vec (sl_sums g @ [s]);
     Some (g\<lparr>sl_items := is, sl_sums := ss, sl_summary := sadd ops (sl_summary g) s\<rparr>) }"

definition slice_push_tree ::
  "('t, 's) item_ops \<Rightarrow> ('t, 's) slice_state \<Rightarrow> ('t, 's) node \<Rightarrow> 's \<Rightarrow> ('t, 's) slice_state option" where
  "slice_push_tree ops g t s = do {
     t' \<leftarrow> tree_append ops (sl_tree g) t;
     Some (g\<lparr>sl_tree := t'\<rparr>) }"

definition slice_aggregate :: "('t, 's) item_ops \<Rightarrow> (('t, 's) slice_state, 't, 's) seek_aggregate" where
  "slice_aggregate ops = \<lparr>agg_end_leaf = slice_end_leaf ops, agg_push_item = slice_push_item ops,
     agg_push_tree = slice_push_tree ops\<rparr>"

definition summary_aggregate :: "('s, 'e) dim_ops \<Rightarrow> ('e, 't, 's) seek_aggregate" where
  "summary_aggregate E = \<lparr>agg_end_leaf = Some, agg_push_item = (\<lambda>g _ s. Some (dadd E g s)),
     agg_push_tree = (\<lambda>g _ s. Some (dadd E g s))\<rparr>"

definition cursor_seek_forward ::
  "('s, 'd) dim_ops \<Rightarrow> ('d \<Rightarrow> ordering) \<Rightarrow> bias \<Rightarrow> ('t, 's, 'd) cursor \<Rightarrow> (('t, 's, 'd) cursor \<times> bool) option" where
  "cursor_seek_forward D tgt b c = do {
     (c', _, found) \<leftarrow> seek_internal D tgt b unit_aggregate c ();
     Some (c', found) }"

definition cursor_seek ::
  "('s, 'd) dim_ops \<Rightarrow> ('d \<Rightarrow> ordering) \<Rightarrow> bias \<Rightarrow> ('t, 's, 'd) cursor \<Rightarrow> (('t, 's, 'd) cursor \<times> bool) option" where
  "cursor_seek D tgt b c = do {
     (c', _, found) \<leftarrow> seek_internal D tgt b unit_aggregate (cursor_reset D c) ();
     Some (c', found) }"

definition cursor_slice ::
  "('t, 's) item_ops \<Rightarrow> ('s, 'd) dim_ops \<Rightarrow> ('d \<Rightarrow> ordering) \<Rightarrow> bias \<Rightarrow> ('t, 's, 'd) cursor \<Rightarrow>
   (('t, 's, 'd) cursor \<times> ('t, 's) node) option" where
  "cursor_slice ops D tgt b c = do {
     (c', g, _) \<leftarrow> seek_internal D tgt b (slice_aggregate ops) c
        \<lparr>sl_tree = tree_new ops, sl_items = [], sl_sums = [], sl_summary = szero ops\<rparr>;
     Some (c', sl_tree g) }"

text \<open>The target \<open>End\<close> lies beyond every position.\<close>

definition end_target :: "'d \<Rightarrow> ordering" where
  "end_target _ = Greater"

definition cursor_suffix ::
  "('t, 's) item_ops \<Rightarrow> ('s, 'd) dim_ops \<Rightarrow> ('t, 's, 'd) cursor \<Rightarrow>
   (('t, 's, 'd) cursor \<times> ('t, 's) node) option" where
  "cursor_suffix ops D c = cursor_slice ops D end_target Right c"

definition cursor_summary ::
  "('s, 'd) dim_ops \<Rightarrow> ('s, 'e) dim_ops \<Rightarrow> ('d \<Rightarrow> ordering) \<Rightarrow> bias \<Rightarrow> ('t, 's, 'd) cursor \<Rightarrow>
   (('t, 's, 'd) cursor \<times> 'e) option" where
  "cursor_summary D E tgt b c = do {
     (c', g, _) \<leftarrow> seek_internal D tgt b (summary_aggregate E) c (dzero E);
     Some (c', g) }"

section \<open>Iterators\<close>

text \<open>\<open>Iterator for Cursor\<close> and \<open>FilterCursor\<close>: the item and the advanced cursor.\<close>

definition cursor_iter_next ::
  "('s, 'd) dim_ops \<Rightarrow> ('t, 's, 'd) cursor \<Rightarrow> (('t, 's, 'd) cursor \<times> 't option) option" where
  "cursor_iter_next D c = do {
     c1 \<leftarrow> (if \<not> cu_did_seek c then cursor_next D c else Some c);
     x \<leftarrow> cursor_item c1;
     case x of
       Some y \<Rightarrow> do { c2 \<leftarrow> cursor_next D c1; Some (c2, Some y) }
     | None \<Rightarrow> Some (c1, None) }"

definition filter_cursor_next ::
  "('s, 'd) dim_ops \<Rightarrow> ('s \<Rightarrow> bool) \<Rightarrow> ('t, 's, 'd) cursor \<Rightarrow> (('t, 's, 'd) cursor \<times> 't option) option" where
  "filter_cursor_next D f c = do {
     c1 \<leftarrow> (if \<not> cu_did_seek c then search_forward D f c else Some c);
     x \<leftarrow> cursor_item c1;
     case x of
       Some y \<Rightarrow> do { c2 \<leftarrow> search_forward D f c1; Some (c2, Some y) }
     | None \<Rightarrow> Some (c1, None) }"

text \<open>\<open>SumTree::items\<close>: a cursor over the unit dimension collects every item.\<close>

partial_function (option) items_loop ::
  "('t, 's, unit) cursor \<Rightarrow> 't list \<Rightarrow> 't list option" where
  "items_loop c acc = do {
     x \<leftarrow> cursor_item c;
     case x of
       None \<Rightarrow> Some acc
     | Some y \<Rightarrow> do { c' \<leftarrow> cursor_next unit_dim c; items_loop c' (acc @ [y]) } }"

declare items_loop.simps [code]

definition tree_items :: "('t, 's) node \<Rightarrow> 't list option" where
  "tree_items t = do { c \<leftarrow> cursor_next unit_dim (cursor_new unit_dim t); items_loop c [] }"

text \<open>\<open>Iter\<close>: a stack of nodes and indices without positions.\<close>

record ('t, 's) tree_iter =
  it_tree :: "('t, 's) node"
  it_stack :: "(('t, 's) node \<times> nat) list"

definition iter_new :: "('t, 's) node \<Rightarrow> ('t, 's) tree_iter" where
  "iter_new t = \<lparr>it_tree = t, it_stack = []\<rparr>"

partial_function (option) iter_loop ::
  "(('t, 's) node \<times> nat) list \<Rightarrow> bool \<Rightarrow> ((('t, 's) node \<times> nat) list \<times> 't option) option" where
  "iter_loop stk descend =
     (case stk of
        [] \<Rightarrow> Some ([], None)
      | e # es \<Rightarrow>
          (let i = (if descend then snd e else snd e + 1)
           in (case fst e of
                 Internal h s css cts \<Rightarrow>
                   if i < length cts
                   then do { stk' \<leftarrow> push_entry (cts ! i, 0) ((fst e, i) # es); iter_loop stk' True }
                   else iter_loop es False
               | Leaf s is iss \<Rightarrow>
                   if i < length is then Some ((fst e, i) # es, Some (is ! i))
                   else iter_loop es False)))"

declare iter_loop.simps [code]

definition iter_next :: "('t, 's) tree_iter \<Rightarrow> (('t, 's) tree_iter \<times> 't option) option" where
  "iter_next it = do {
     (stk, x) \<leftarrow>
       (if it_stack it = []
        then do { stk \<leftarrow> push_entry (it_tree it, 0) []; iter_loop stk True }
        else iter_loop (it_stack it) False);
     Some (it\<lparr>it_stack := stk\<rparr>, x) }"

text \<open>The lower bound that \<open>size_hint\<close> reports.\<close>

definition iter_size_hint :: "('t, 's) tree_iter \<Rightarrow> nat" where
  "iter_size_hint it =
     (case it_stack it of
        e # _ \<Rightarrow> length (child_summaries (fst e)) - snd e
      | [] \<Rightarrow> length (child_summaries (it_tree it)))"

definition iter_last :: "('t, 's) tree_iter \<Rightarrow> 't option option" where
  "iter_last it = do { l \<leftarrow> rightmost_leaf (it_tree it); tree_last l }"

end
