(* ===== verification/Sum_Tree_Append.thy ===== *)
theory Sum_Tree_Append
  imports Sum_Tree
begin

text \<open>
  Correctness of building and appending trees (\<open>sum_tree.rs\<close>). The view of a tree is the list
  \<open>flat t\<close> of its items; the invariant \<open>wf_tree\<close> says that every cached summary is the sum of
  what is below it, that no node overflows its \<open>ArrayVec\<close>, that all leaves are at the same depth
  and that only the root may be an empty leaf. Nodes may be underfull: \<open>from_iter\<close> leaves an
  underfull node at the right edge of each level, so minimum occupancy is no invariant.
\<close>

section \<open>View and invariant\<close>

fun flat :: "('t, 's) node \<Rightarrow> 't list" where
  "flat (Leaf s is iss) = is"
| "flat (Internal h s css cts) = concat (map flat cts)"

fun wf_tree :: "('t, 's) item_ops \<Rightarrow> ('t, 's) node \<Rightarrow> bool" where
  "wf_tree ops (Leaf s is iss) \<longleftrightarrow>
     iss = map (ssummary ops) is \<and> s = sum_of ops iss \<and> length is \<le> 2 * TREE_BASE"
| "wf_tree ops (Internal h s css cts) \<longleftrightarrow>
     cts \<noteq> [] \<and> length cts \<le> 2 * TREE_BASE \<and> css = map summary cts \<and> s = sum_of ops css \<and>
     (\<forall>c \<in> set cts. wf_tree ops c \<and> \<not> is_empty c \<and> height c + 1 = h)"

definition children_ok :: "('t, 's) item_ops \<Rightarrow> nat \<Rightarrow> ('t, 's) node list \<Rightarrow> bool" where
  "children_ok ops h cts \<longleftrightarrow> (\<forall>c \<in> set cts. wf_tree ops c \<and> \<not> is_empty c \<and> height c + 1 = h)"

definition item_sums :: "('t, 's) item_ops \<Rightarrow> ('t, 's) node list \<Rightarrow> 's list" where
  "item_sums ops cts = map (ssummary ops) (concat (map flat cts))"

lemma wf_Internal:
  "wf_tree ops (Internal h s css cts) \<longleftrightarrow>
     cts \<noteq> [] \<and> length cts \<le> 2 * TREE_BASE \<and> css = map summary cts \<and> s = sum_of ops css \<and>
     children_ok ops h cts"
  by (simp add: children_ok_def)

lemma children_ok_append [simp]:
  "children_ok ops h (xs @ ys) \<longleftrightarrow> children_ok ops h xs \<and> children_ok ops h ys"
  by (auto simp: children_ok_def)

lemma children_ok_Cons [simp]:
  "children_ok ops h (c # cs) \<longleftrightarrow> wf_tree ops c \<and> \<not> is_empty c \<and> height c + 1 = h \<and> children_ok ops h cs"
  by (auto simp: children_ok_def)

lemma children_ok_Nil [simp]: "children_ok ops h []"
  by (simp add: children_ok_def)

lemma children_ok_take: "children_ok ops h xs \<Longrightarrow> children_ok ops h (take n xs)"
  by (auto simp: children_ok_def dest: in_set_takeD)

lemma children_ok_drop: "children_ok ops h xs \<Longrightarrow> children_ok ops h (drop n xs)"
  by (auto simp: children_ok_def dest: in_set_dropD)

lemma item_sums_simps [simp]:
  "item_sums ops [] = []"
  "item_sums ops (c # cs) = map (ssummary ops) (flat c) @ item_sums ops cs"
  "item_sums ops (xs @ ys) = item_sums ops xs @ item_sums ops ys"
  by (simp_all add: item_sums_def)

lemma flat_nonempty: "wf_tree ops t \<Longrightarrow> \<not> is_empty t \<Longrightarrow> flat t \<noteq> []"
proof (induction t)
  case (Internal h s css cts)
  then obtain c cs where cts: "cts = c # cs" by (cases cts) auto
  with Internal have "flat c \<noteq> []" by auto
  with cts show ?case by simp
qed auto

lemma is_empty_flat: "wf_tree ops t \<Longrightarrow> is_empty t \<longleftrightarrow> flat t = []"
  using flat_nonempty [of ops t] by (cases t) auto

lemma item_sums_nonempty: "children_ok ops h cts \<Longrightarrow> cts \<noteq> [] \<Longrightarrow> item_sums ops cts \<noteq> []"
  by (cases cts) (auto simp: dest: flat_nonempty)

lemma height_0_leaf: "wf_tree ops t \<Longrightarrow> height t = 0 \<longleftrightarrow> is_leaf t"
  by (cases t) (auto simp: neq_Nil_conv)

lemma wf_new [simp]: "wf_tree ops (tree_new ops)"
  by (simp add: tree_new_def sum_of_def)

lemma flat_new [simp]: "flat (tree_new ops) = []"
  by (simp add: tree_new_def)

lemma is_empty_new [simp]: "is_empty (tree_new ops)"
  by (simp add: tree_new_def)

lemma array_vec_Some: "length xs \<le> 12 \<Longrightarrow> array_vec xs = Some xs"
  by (simp add: array_vec_def)

text \<open>
  What appending a tree yields: the grown tree and, if it did not fit, a second tree of the same
  height on its right (\<open>grown_right\<close>) or on its left (\<open>grown_left\<close>).
\<close>

definition same_level :: "('t, 's) item_ops \<Rightarrow> nat \<Rightarrow> ('t, 's) node \<Rightarrow> bool" where
  "same_level ops h t \<longleftrightarrow> wf_tree ops t \<and> \<not> is_empty t \<and> height t = h"

definition grown_right ::
  "('t, 's) item_ops \<Rightarrow> nat \<Rightarrow> 't list \<Rightarrow> ('t, 's) node \<times> ('t, 's) node option \<Rightarrow> bool" where
  "grown_right ops h xs = (\<lambda>(t, r). same_level ops h t \<and>
     (case r of None \<Rightarrow> flat t = xs | Some u \<Rightarrow> same_level ops h u \<and> flat t @ flat u = xs))"

definition grown_left ::
  "('t, 's) item_ops \<Rightarrow> nat \<Rightarrow> 't list \<Rightarrow> ('t, 's) node \<times> ('t, 's) node option \<Rightarrow> bool" where
  "grown_left ops h xs = (\<lambda>(t, r). same_level ops h t \<and>
     (case r of None \<Rightarrow> flat t = xs | Some u \<Rightarrow> same_level ops h u \<and> flat u @ flat t = xs))"

lemma midpoint_div_ceil: "((n :: nat) + n mod 2) div 2 = div_ceil_2 n"
  unfolding div_ceil_2_def by (cases "even n") (auto elim!: evenE oddE)

lemma div_ceil_2_bounds:
  assumes "12 < n" and "n \<le> 24"
  shows "0 < div_ceil_2 n" and "div_ceil_2 n \<le> 12" and "n - div_ceil_2 n \<le> 12" and "div_ceil_2 n < n"
  using assms by (auto simp: div_ceil_2_def)

section \<open>The laws of a summary\<close>

text \<open>
  What the tree needs of a \<open>Summary\<close>: addition is associative and the zero summary is neutral on
  the left. It need not be neutral on the right, and for the key summaries of \<open>tree_map.rs\<close>
  (whose addition keeps the right argument) it is not; the tree never adds the zero summary to a
  sum.
\<close>

locale summary_laws =
  fixes ops :: "('t, 's) item_ops"
  assumes add_assoc: "sadd ops (sadd ops a b) c = sadd ops a (sadd ops b c)"
    and add_zero_left: "sadd ops (szero ops) a = a"
begin

lemma foldl_add_assoc: "foldl (sadd ops) (sadd ops a b) ss = sadd ops a (foldl (sadd ops) b ss)"
  by (induction ss arbitrary: b) (simp_all add: add_assoc)

lemma add_sum_of: "ss \<noteq> [] \<Longrightarrow> sadd ops a (sum_of ops ss) = foldl (sadd ops) a ss"
  by (cases ss) (simp_all add: sum_of_def add_zero_left foldl_add_assoc)

lemma sum_of_append: "ys \<noteq> [] \<Longrightarrow> sum_of ops (xs @ ys) = sadd ops (sum_of ops xs) (sum_of ops ys)"
  by (simp add: add_sum_of) (simp add: sum_of_def)

lemma sum_of_single [simp]: "sum_of ops [s] = s"
  by (simp add: sum_of_def add_zero_left)

lemma sum_of_Cons: "ss \<noteq> [] \<Longrightarrow> sum_of ops (s # ss) = sadd ops s (sum_of ops ss)"
  using sum_of_append [of ss "[s]"] by simp

lemma foldl_sum_of: "foldl (sadd ops) s ss = sum_of ops (s # ss)"
  by (simp add: sum_of_def add_zero_left)

lemma sum_of_children:
  assumes "children_ok ops h cts"
    and "\<And>c. c \<in> set cts \<Longrightarrow> summary c = sum_of ops (map (ssummary ops) (flat c))"
  shows "sum_of ops (map summary cts) = sum_of ops (item_sums ops cts)"
  using assms
proof (induction cts)
  case (Cons c cs)
  show ?case
  proof (cases "cs = []")
    case False
    have "sum_of ops (map summary (c # cs)) = sadd ops (summary c) (sum_of ops (map summary cs))"
      using False by (simp add: sum_of_Cons)
    also have "\<dots> = sadd ops (sum_of ops (map (ssummary ops) (flat c))) (sum_of ops (item_sums ops cs))"
      using Cons by simp
    also have "\<dots> = sum_of ops (item_sums ops (c # cs))"
      using item_sums_nonempty [of ops h cs] Cons.prems(1) False by (simp add: sum_of_append)
    finally show ?thesis .
  qed (use Cons.prems in simp)
qed simp

theorem wf_summary: "wf_tree ops t \<Longrightarrow> summary t = sum_of ops (map (ssummary ops) (flat t))"
proof (induction t)
  case (Internal h s css cts)
  then have "sum_of ops (map summary cts) = sum_of ops (item_sums ops cts)"
    by (intro sum_of_children [of h]) (auto simp: children_ok_def)
  with Internal.prems show ?case by (simp add: item_sums_def)
qed simp

lemma sum_of_map_summary: "children_ok ops h cts \<Longrightarrow> sum_of ops (map summary cts) = sum_of ops (item_sums ops cts)"
  by (intro sum_of_children [of h]) (auto simp: children_ok_def intro: wf_summary)

lemma wf_InternalI:
  assumes "cts \<noteq> []" and "length cts \<le> 12" and "children_ok ops h cts" and "css = map summary cts"
    and "s = sum_of ops (item_sums ops cts)"
  shows "wf_tree ops (Internal h s css cts)"
  using assms by (simp add: wf_Internal sum_of_map_summary del: wf_tree.simps)

lemma wf_LeafI:
  assumes "length is \<le> 12" and "iss = map (ssummary ops) is" and "s = sum_of ops iss"
  shows "wf_tree ops (Leaf s is iss)"
  using assms by simp

lemma same_level_Internal:
  assumes "cts \<noteq> []" and "length cts \<le> 12" and "children_ok ops h cts"
  shows "same_level ops h (Internal h (sum_of ops (map summary cts)) (map summary cts) cts)"
  using assms by (simp add: same_level_def wf_Internal del: wf_tree.simps)

lemma same_level_Leaf:
  assumes "is \<noteq> []" and "length is \<le> 12"
  shows "same_level ops 0 (Leaf (sum_of ops (map (ssummary ops) is)) is (map (ssummary ops) is))"
  using assms by (simp add: same_level_def)

text \<open>Cutting a list of children or of items that overflows one node into two nodes.\<close>

lemma split_children:
  fixes cts :: "('t, 's) node list"
  assumes "children_ok ops h cts" and "12 < length cts" and "length cts \<le> 24"
  defines "m \<equiv> div_ceil_2 (length cts)"
  shows "same_level ops h (Internal h (sum_of ops (map summary (take m cts))) (map summary (take m cts)) (take m cts))"
    and "same_level ops h (Internal h (sum_of ops (map summary (drop m cts))) (map summary (drop m cts)) (drop m cts))"
  using assms(1,2) div_ceil_2_bounds [OF assms(2,3)]
  by (auto simp: m_def intro!: same_level_Internal children_ok_take children_ok_drop)

lemma split_items:
  fixes xs :: "'t list"
  assumes "12 < length xs" and "length xs \<le> 24"
  defines "m \<equiv> div_ceil_2 (length xs)"
  shows "same_level ops 0 (Leaf (sum_of ops (map (ssummary ops) (take m xs))) (take m xs) (map (ssummary ops) (take m xs)))"
    and "same_level ops 0 (Leaf (sum_of ops (map (ssummary ops) (drop m xs))) (drop m xs) (map (ssummary ops) (drop m xs)))"
  using assms(1) div_ceil_2_bounds [OF assms(1,2)]
  by (auto simp: m_def intro!: same_level_Leaf)

lemma split_arrays:
  fixes xs :: "'a list"
  assumes "12 < length xs" and "length xs \<le> 24"
  shows "array_vec (take (div_ceil_2 (length xs)) xs) = Some (take (div_ceil_2 (length xs)) xs)"
    and "array_vec (drop (div_ceil_2 (length xs)) xs) = Some (drop (div_ceil_2 (length xs)) xs)"
  using div_ceil_2_bounds [OF assms] by (auto intro!: array_vec_Some)

lemma split_arrays_map:
  fixes xs :: "'a list"
  assumes "12 < length xs" and "length xs \<le> 24"
  shows "array_vec (map f (take (div_ceil_2 (length xs)) xs)) = Some (map f (take (div_ceil_2 (length xs)) xs))"
    and "array_vec (map f (drop (div_ceil_2 (length xs)) xs)) = Some (map f (drop (div_ceil_2 (length xs)) xs))"
  using div_ceil_2_bounds [OF assms] by (auto intro!: array_vec_Some)

text \<open>Packing the old children and the appended ones, as both ends of the tree do.\<close>

lemma pack_children:
  assumes "children_ok ops h (as @ bs)" and "as \<noteq> []" and "length as \<le> 12" and "length bs \<le> 12"
    and "s = sum_of ops (item_sums ops (as @ bs))"
  shows "\<exists>r. (if 2 * TREE_BASE < length as + length bs then
         do { let midpoint = (length as + length bs + (length as + length bs) mod 2) div 2;
              left_summaries \<leftarrow> array_vec (take midpoint (map summary as @ map summary bs));
              right_summaries \<leftarrow> array_vec (drop midpoint (map summary as @ map summary bs));
              left_trees \<leftarrow> array_vec (take midpoint (as @ bs));
              right_trees \<leftarrow> array_vec (drop midpoint (as @ bs));
              Some (Internal h (sum_of ops left_summaries) left_summaries left_trees,
                    Some (Internal h (sum_of ops right_summaries) right_summaries right_trees)) }
       else
         do { css'' \<leftarrow> array_vec (map summary as @ map summary bs);
              cts'' \<leftarrow> array_vec (as @ bs);
              Some (Internal h s css'' cts'', None) }) = Some r \<and>
     grown_right ops h (concat (map flat (as @ bs))) r"
proof (cases "2 * TREE_BASE < length as + length bs")
  case True
  let ?xs = "as @ bs"
  have len: "12 < length ?xs" "length ?xs \<le> 24" using True assms(3,4) by auto
  note arrays = split_arrays [OF len] split_arrays_map [OF len, of summary]
  note halves = split_children [OF assms(1) len]
  have "concat (map flat (take (div_ceil_2 (length ?xs)) ?xs)) @
      concat (map flat (drop (div_ceil_2 (length ?xs)) ?xs)) = concat (map flat ?xs)"
    by (metis append_take_drop_id concat_append map_append)
  with True arrays halves show ?thesis
    by (simp add: midpoint_div_ceil grown_right_def Let_def take_map drop_map flip: map_append)
next
  case False
  have "wf_tree ops (Internal h s (map summary (as @ bs)) (as @ bs))"
    using False assms by (intro wf_InternalI) auto
  with False show ?thesis
    by (simp add: array_vec_Some grown_right_def same_level_def)
qed

section \<open>Appending on the right\<close>

lemma pack_items:
  assumes "is \<noteq> []" and "length is \<le> 12" and "length js \<le> 12"
  shows "\<exists>r. push_tree_recursive ops
      (Leaf (sum_of ops (map (ssummary ops) is)) is (map (ssummary ops) is))
      (Leaf (sum_of ops (map (ssummary ops) js)) js (map (ssummary ops) js)) = Some r \<and>
    (js \<noteq> [] \<longrightarrow> grown_right ops 0 (is @ js) r)"
proof (cases "2 * TREE_BASE < length is + length js")
  case True
  let ?xs = "is @ js"
  have len: "12 < length ?xs" "length ?xs \<le> 24" using True assms by auto
  note arrays = split_arrays [OF len] split_arrays_map [OF len, of "ssummary ops"]
  from True arrays split_items [OF len] show ?thesis
    by (simp add: midpoint_div_ceil grown_right_def Let_def take_map drop_map
        del: take_append drop_append flip: map_append)
next
  case False
  then show ?thesis
    using assms
    by (auto simp: array_vec_Some grown_right_def same_level_def sum_of_append)
qed

lemma last_child_ok:
  assumes "children_ok ops h cts" and "cts \<noteq> []"
  shows "same_level ops (h - 1) (last cts)" and "0 < h" and "children_ok ops h (butlast cts)"
    and "concat (map flat (butlast cts)) @ flat (last cts) = concat (map flat cts)"
proof -
  obtain cs c where "cts = cs @ [c]" using assms(2) by (cases cts rule: rev_cases) auto
  with assms show "same_level ops (h - 1) (last cts)" and "0 < h" and "children_ok ops h (butlast cts)"
    and "concat (map flat (butlast cts)) @ flat (last cts) = concat (map flat cts)"
    by (auto simp: same_level_def)
qed

lemma same_level_child: "same_level ops (h - 1) c \<Longrightarrow> 0 < h \<Longrightarrow> children_ok ops h [c]"
  by (simp add: same_level_def)

theorem push_tree_recursive_correct:
  assumes "same_level ops (height t) t" and "same_level ops (height other) other"
    and "height other \<le> height t"
  shows "\<exists>r. push_tree_recursive ops t other = Some r \<and>
    grown_right ops (height t) (flat t @ flat other) r"
  using assms
proof (induction t)
  case (Leaf s its iss)
  then obtain s' js jss where "other = Leaf s' js jss"
    by (cases other) (auto simp: same_level_def neq_Nil_conv)
  with Leaf pack_items [of its js] show ?case
    by (auto simp: same_level_def)
next
  case (Internal h s css cts)
  define delta where "delta = h - height other"
  have ok: "children_ok ops h cts" and ne: "cts \<noteq> []" and len: "length cts \<le> 12"
    and css: "css = map summary cts" and s: "s = sum_of ops (item_sums ops cts)"
    using Internal.prems(1) by (auto simp: same_level_def wf_Internal sum_of_map_summary simp del: wf_tree.simps)
  have other: "wf_tree ops other" "\<not> is_empty other" "summary other = sum_of ops (map (ssummary ops) (flat other))"
    using Internal.prems(2) by (auto simp: same_level_def wf_summary)
  have flat_ne: "flat other \<noteq> []" using other flat_nonempty by blast
  have "\<exists>as bs. (if h - height other = 0 then
            do { ts \<leftarrow> child_trees other;
                 ss_app \<leftarrow> array_vec (child_summaries other);
                 ts_app \<leftarrow> array_vec ts;
                 Some (css, cts, ss_app, ts_app) }
          else if h - height other = 1 \<and> \<not> is_underflowing other then
            Some (css, cts, [summary other], [other])
          else if cts = [] \<or> css = [] then None
          else
            do { (last_child, split) \<leftarrow> push_tree_recursive ops (last cts) other;
                 Some (butlast css @ [summary last_child], butlast cts @ [last_child],
                   case split of None \<Rightarrow> [] | Some t \<Rightarrow> [summary t],
                   case split of None \<Rightarrow> [] | Some t \<Rightarrow> [t]) })
      = Some (map summary as, as, map summary bs, bs) \<and>
     children_ok ops h (as @ bs) \<and> as \<noteq> [] \<and> length as \<le> 12 \<and> length bs \<le> 12 \<and>
     concat (map flat (as @ bs)) = concat (map flat cts) @ flat other" (is "\<exists>as bs. ?step = _ \<and> _")
  proof -
    consider (flat0) "delta = 0" | (child) "delta = 1" "\<not> is_underflowing other"
      | (deep) "delta \<noteq> 0" "\<not> (delta = 1 \<and> \<not> is_underflowing other)" by blast
    then show ?thesis
    proof cases
      case flat0
      have "0 < h" using last_child_ok [OF ok ne] by simp
      then obtain s' css' cts' where o: "other = Internal h s' css' cts'"
        using flat0 Internal.prems(3) by (cases other) (auto simp: delta_def)
      with other(1) have "children_ok ops h cts'" "length cts' \<le> 12" "css' = map summary cts'"
        by (auto simp: wf_Internal simp del: wf_tree.simps)
      with o ok ne len css show ?thesis
        by (intro exI [of _ cts] exI [of _ cts']) (simp add: array_vec_Some)
    next
      case child
      then have "height other + 1 = h" using Internal.prems(3) by (simp add: delta_def)
      with child other ok ne len css show ?thesis
        by (intro exI [of _ cts] exI [of _ "[other]"]) (simp add: delta_def)
    next
      case deep
      have "height other \<le> h - 1" using deep(1) by (simp add: delta_def)
      moreover note lst = last_child_ok [OF ok ne]
      ultimately obtain t' r where rec: "push_tree_recursive ops (last cts) other = Some (t', r)"
        and grown: "grown_right ops (h - 1) (flat (last cts) @ flat other) (t', r)"
        using Internal.IH [of "last cts"] Internal.prems(2) ne by (auto simp: same_level_def)
      define bs where "bs = (case r of None \<Rightarrow> [] | Some u \<Rightarrow> [u])"
      have "?step = Some (map summary (butlast cts @ [t']), butlast cts @ [t'], map summary bs, bs)"
        using deep rec ne css by (auto simp: delta_def bs_def map_butlast split: option.splits)
      moreover have "children_ok ops h ((butlast cts @ [t']) @ bs)"
        using lst grown by (auto simp: bs_def grown_right_def same_level_def split: option.splits)
      moreover have "concat (map flat ((butlast cts @ [t']) @ bs)) = concat (map flat cts) @ flat other"
        using lst(4) grown
        by (auto simp: bs_def grown_right_def simp flip: append_assoc split: option.splits)
          (metis append_assoc)
      ultimately show ?thesis
        using len ne
        by (intro exI [of _ "butlast cts @ [t']"] exI [of _ bs]) (auto simp: bs_def split: option.splits)
    qed
  qed
  then obtain as bs where step: "?step = Some (map summary as, as, map summary bs, bs)"
    and as: "children_ok ops h (as @ bs)" "as \<noteq> []" "length as \<le> 12" "length bs \<le> 12"
    and fl: "concat (map flat (as @ bs)) = concat (map flat cts) @ flat other" by blast
  have "sadd ops s (summary other) = sum_of ops (item_sums ops (as @ bs))"
    using fl flat_ne by (simp add: s other(3) item_sums_def sum_of_append)
  note packed = pack_children [OF as this, unfolded fl]
  have le: "height other \<le> h" using Internal.prems(3) by simp
  show ?case
    using packed
    by (simp only: push_tree_recursive.simps bind_require le if_True step bind.bind_lunit prod.case
        flat.simps height.simps Let_def)
qed

section \<open>Appending on the left\<close>

lemma merge_into_right_Leaf:
  assumes "is \<noteq> []" and "js \<noteq> []" and "length is \<le> 12" and "length js \<le> 12"
  shows "\<exists>r. merge_into_right ops
      (Leaf (sum_of ops (map (ssummary ops) is)) is (map (ssummary ops) is))
      (Leaf (sum_of ops (map (ssummary ops) js)) js (map (ssummary ops) js)) = Some r \<and>
    grown_left ops 0 (is @ js) r"
proof (cases "length is + length js \<le> 2 * TREE_BASE")
  case False
  let ?xs = "is @ js"
  have len: "12 < length ?xs" "length ?xs \<le> 24" using False assms by auto
  note arrays = split_arrays [OF len] split_arrays_map [OF len, of "ssummary ops"]
  from False arrays split_items [OF len] show ?thesis
    by (simp add: grown_left_def Let_def take_map drop_map del: take_append drop_append flip: map_append)
next
  case True
  with assms show ?thesis
    by (auto simp: array_vec_Some grown_left_def same_level_def sum_of_append)
qed

lemma merge_into_right_Internal:
  assumes "children_ok ops h as" and "children_ok ops h bs" and "as \<noteq> []" and "bs \<noteq> []"
    and "length as \<le> 12" and "length bs \<le> 12"
  shows "\<exists>r. merge_into_right ops
      (Internal h (sum_of ops (map summary as)) (map summary as) as)
      (Internal h (sum_of ops (map summary bs)) (map summary bs) bs) = Some r \<and>
    grown_left ops h (concat (map flat (as @ bs))) r"
proof (cases "length bs + length as \<le> 2 * TREE_BASE")
  case False
  let ?xs = "as @ bs"
  have len: "12 < length ?xs" "length ?xs \<le> 24" using False assms by auto
  have ok: "children_ok ops h ?xs" using assms by simp
  note arrays = split_arrays [OF len] split_arrays_map [OF len, of summary]
  have "concat (map flat (take (div_ceil_2 (length ?xs)) ?xs)) @
      concat (map flat (drop (div_ceil_2 (length ?xs)) ?xs)) = concat (map flat ?xs)"
    by (metis append_take_drop_id concat_append map_append)
  with False arrays split_children [OF ok len] show ?thesis
    by (simp add: grown_left_def Let_def take_map drop_map add.commute [of "length bs"]
        del: take_append drop_append flip: map_append)
next
  case True
  have "sum_of ops (map summary as @ map summary bs) =
      sadd ops (sum_of ops (map summary as)) (sum_of ops (map summary bs))"
    using assms by (simp add: sum_of_append)
  with True assms show ?thesis
    by (simp add: array_vec_Some grown_left_def same_level_def wf_Internal del: wf_tree.simps)
qed

lemma merge_into_right_correct:
  assumes "same_level ops h small" and "same_level ops h large"
  shows "\<exists>r. merge_into_right ops small large = Some r \<and> grown_left ops h (flat small @ flat large) r"
proof (cases "h = 0")
  case True
  with assms obtain s its iss s' js jss where "small = Leaf s its iss" "large = Leaf s' js jss"
    by (cases small; cases large) (auto simp: same_level_def neq_Nil_conv)
  with assms True merge_into_right_Leaf [of its js] show ?thesis
    by (auto simp: same_level_def simp del: merge_into_right.simps)
next
  case False
  with assms obtain s as ass s' bs bss where "small = Internal h s ass as" "large = Internal h s' bss bs"
    by (cases small; cases large) (auto simp: same_level_def)
  with assms merge_into_right_Internal [of h as bs] show ?thesis
    by (auto simp: same_level_def wf_Internal simp del: merge_into_right.simps wf_tree.simps)
qed

lemma drop_base_ok:
  assumes "length cts = 12" and "children_ok ops h (u # cts)"
  shows "same_level ops h (Internal h (sum_of ops (map summary (drop TREE_BASE cts)))
      (map summary (drop TREE_BASE cts)) (drop TREE_BASE cts))"
    and "same_level ops h (Internal h (sum_of ops (map summary (u # take TREE_BASE cts)))
      (map summary (u # take TREE_BASE cts)) (u # take TREE_BASE cts))"
proof -
  show "same_level ops h (Internal h (sum_of ops (map summary (drop TREE_BASE cts)))
      (map summary (drop TREE_BASE cts)) (drop TREE_BASE cts))"
    using assms by (intro same_level_Internal children_ok_drop) (auto simp: TREE_BASE_def)
  show "same_level ops h (Internal h (sum_of ops (map summary (u # take TREE_BASE cts)))
      (map summary (u # take TREE_BASE cts)) (u # take TREE_BASE cts))"
    using assms children_ok_take [of ops h cts TREE_BASE]
    by (intro same_level_Internal) (auto simp: TREE_BASE_def)
qed

theorem append_large_correct:
  assumes "same_level ops (height small) small" and "same_level ops (height large) large"
    and "height small \<le> height large"
  shows "\<exists>r. append_large ops small large = Some r \<and>
    grown_left ops (height large) (flat small @ flat large) r"
  using assms(2,3)
proof (induction large)
  case (Leaf s its iss)
  with assms(1) merge_into_right_correct [of 0 small "Leaf s its iss"] show ?case
    by (auto simp: grown_left_def)
next
  case (Internal h s css cts)
  show ?case
  proof (cases "height small = h")
    case True
    with assms(1) Internal.prems merge_into_right_correct [of h small "Internal h s css cts"] show ?thesis
      by (auto simp: grown_left_def)
  next
    case False
    have ok: "children_ok ops h cts" and ne: "cts \<noteq> []" and len: "length cts \<le> 12"
      and css: "css = map summary cts" and s: "s = sum_of ops (item_sums ops cts)"
      using Internal.prems(1)
      by (auto simp: same_level_def wf_Internal sum_of_map_summary simp del: wf_tree.simps)
    obtain c cs where cts: "cts = c # cs" using ne by (cases cts) auto
    have c: "same_level ops (h - 1) c" "0 < h" and cs: "children_ok ops h cs"
      using ok by (auto simp: cts same_level_def)
    have le: "height small \<le> h - 1" using False Internal.prems(2) by simp
    obtain c' r where rec: "append_large ops small c = Some (c', r)"
      and grown: "grown_left ops (h - 1) (flat small @ flat c) (c', r)"
      using Internal.IH [of c] c le by (auto simp: cts same_level_def)
    have c': "children_ok ops h (c' # cs)"
      using grown c(2) cs by (auto simp: grown_left_def same_level_def)
    have s': "sadd ops (summary small) s = sum_of ops (map (ssummary ops) (flat small @ concat (map flat cts)))"
      using assms(1) item_sums_nonempty [OF ok ne]
      by (simp add: s wf_summary same_level_def sum_of_append item_sums_def)
    show ?thesis
    proof (cases r)
      case None
      then have "wf_tree ops (Internal h (sadd ops (summary small) s) (map summary (c' # cs)) (c' # cs))"
        using c' len grown by (intro wf_InternalI) (auto simp: cts s' item_sums_def grown_left_def)
      with None rec False css grown show ?thesis
        by (auto simp: cts grown_left_def same_level_def)
    next
      case (Some u)
      have ok': "children_ok ops h (u # c' # cs)"
        using grown Some c' c(2) by (auto simp: grown_left_def same_level_def)
      have fl: "flat small @ flat c @ concat (map flat cs) = flat u @ flat c' @ concat (map flat cs)"
        using grown Some by (simp add: grown_left_def flip: append_assoc)
      show ?thesis
      proof (cases "length cts < 12")
        case True
        have "sadd ops (summary small) s = sum_of ops (item_sums ops (u # c' # cs))"
          by (simp only: s' item_sums_def cts list.map concat.simps fl)
        then have "wf_tree ops (Internal h (sadd ops (summary small) s) (map summary (u # c' # cs)) (u # c' # cs))"
          using ok' True by (intro wf_InternalI) (simp_all add: cts)
        with True Some rec False css fl show ?thesis
          by (auto simp: cts grown_left_def same_level_def array_vec_Some)
      next
        case full: False
        have twelve: "length (c' # cs) = 12" using full len by (simp add: cts)
        note halves = drop_base_ok [OF twelve ok']
        have "concat (map flat (take TREE_BASE (c' # cs))) @ concat (map flat (drop TREE_BASE (c' # cs))) =
            concat (map flat (c' # cs))"
          by (metis append_take_drop_id concat_append map_append)
        with full Some rec False css fl halves twelve show ?thesis
          by (simp add: cts grown_left_def array_vec_Some TREE_BASE_def take_map drop_map)
      qed
    qed
  qed
qed

section \<open>Appending, pushing and building\<close>

lemma from_child_trees_correct:
  assumes "same_level ops h l" and "same_level ops h r"
  shows "\<exists>t. from_child_trees ops l r = Some t \<and> wf_tree ops t \<and> flat t = flat l @ flat r \<and> height t = Suc h"
  using assms by (simp add: from_child_trees_def array_vec_Some same_level_def)

theorem tree_append_correct:
  assumes "wf_tree ops t" and "wf_tree ops u"
  shows "\<exists>v. tree_append ops t u = Some v \<and> wf_tree ops v \<and> flat v = flat t @ flat u \<and>
    height v \<le> Suc (max (height t) (height u))"
proof -
  have nonempty: "\<not> is_empty u \<longleftrightarrow> \<not> is_leaf u \<or> items u \<noteq> Some []" by (cases u) auto
  consider (left) "is_empty t" | (right) "\<not> is_empty t" "is_empty u"
    | (large) "\<not> is_empty t" "\<not> is_empty u" "height t < height u"
    | (push) "\<not> is_empty t" "\<not> is_empty u" "\<not> height t < height u" by blast
  then show ?thesis
  proof cases
    case left
    with assms show ?thesis by (auto simp: tree_append_def is_empty_flat)
  next
    case right
    then have "tree_append ops t u = Some t"
      by (cases u) (auto simp: tree_append_def)
    with right assms show ?thesis by (simp add: is_empty_flat)
  next
    case large
    obtain u' r where step: "append_large ops t u = Some (u', r)"
      and grown: "grown_left ops (height u) (flat t @ flat u) (u', r)"
      using append_large_correct [of t u] large assms by (auto simp: same_level_def)
    have eq: "tree_append ops t u =
        (case r of Some tree \<Rightarrow> from_child_trees ops tree u' | None \<Rightarrow> Some u')"
      using large step nonempty by (simp add: tree_append_def)
    show ?thesis
    proof (cases r)
      case None
      with eq grown show ?thesis by (simp add: grown_left_def same_level_def)
    next
      case (Some v)
      with eq grown from_child_trees_correct [of "height u" v u'] show ?thesis
        by (auto simp: grown_left_def)
    qed
  next
    case push
    obtain t' r where step: "push_tree_recursive ops t u = Some (t', r)"
      and grown: "grown_right ops (height t) (flat t @ flat u) (t', r)"
      using push_tree_recursive_correct [of t u] push assms by (auto simp: same_level_def)
    have eq: "tree_append ops t u =
        (case r of Some tree \<Rightarrow> from_child_trees ops t' tree | None \<Rightarrow> Some t')"
      using push step nonempty by (simp add: tree_append_def)
    show ?thesis
    proof (cases r)
      case None
      with eq grown show ?thesis by (simp add: grown_right_def same_level_def)
    next
      case (Some v)
      with eq grown from_child_trees_correct [of "height t" t' v] show ?thesis
        by (auto simp: grown_right_def)
    qed
  qed
qed

lemma tree_append_SomeE:
  assumes "wf_tree ops t" and "wf_tree ops u"
  obtains v where "tree_append ops t u = Some v" and "wf_tree ops v" and "flat v = flat t @ flat u"
    and "height v \<le> Suc (max (height t) (height u))"
  using tree_append_correct [OF assms] by blast

lemma tree_push_correct:
  assumes "wf_tree ops t"
  shows "\<exists>v. tree_push ops t x = Some v \<and> wf_tree ops v \<and> flat v = flat t @ [x] \<and>
    height v \<le> Suc (height t)"
  using tree_append_correct [OF assms, of "Leaf (ssummary ops x) [x] [ssummary ops x]"]
  by (simp add: tree_push_def Let_def)

lemma leaf_nodes_correct:
  "children_ok ops 1 (leaf_nodes ops xs) \<and> concat (map flat (leaf_nodes ops xs)) = xs"
proof (induction xs rule: length_induct)
  case (1 xs)
  show ?case
  proof (cases xs)
    case (Cons y ys)
    then have "length (drop 11 ys) < length xs" by simp
    with "1.IH" have "children_ok ops 1 (leaf_nodes ops (drop 11 ys))"
      and "concat (map flat (leaf_nodes ops (drop 11 ys))) = drop 11 ys" by blast+
    then show ?thesis by (simp add: Cons Let_def foldl_sum_of)
  qed simp
qed

definition current_ok :: "nat \<Rightarrow> ('s \<times> 's list \<times> ('t, 's) node list) option \<Rightarrow> bool" where
  "current_ok h cur \<longleftrightarrow> (case cur of None \<Rightarrow> True | Some (s, css, cts) \<Rightarrow>
     cts \<noteq> [] \<and> length cts < 12 \<and> children_ok ops h cts \<and> css = map summary cts \<and> s = sum_of ops css)"

definition current_children :: "('s \<times> 's list \<times> ('t, 's) node list) option \<Rightarrow> ('t, 's) node list" where
  "current_children cur = (case cur of None \<Rightarrow> [] | Some (s, css, cts) \<Rightarrow> cts)"

lemma parents_loop_correct:
  assumes "children_ok ops h nodes" and "current_ok h cur"
  shows "children_ok ops (Suc h) (parents_loop ops h cur nodes) \<and>
    concat (map flat (parents_loop ops h cur nodes)) = concat (map flat (current_children cur @ nodes))"
  using assms
proof (induction nodes arbitrary: cur)
  case Nil
  then show ?case
    by (cases cur) (auto simp: current_ok_def current_children_def wf_Internal simp del: wf_tree.simps)
next
  case (Cons n nodes)
  define cts where "cts = current_children cur @ [n]"
  define s where "s = sum_of ops (map summary cts)"
  have loop: "parents_loop ops h cur (n # nodes) =
      (if length cts = 12 then Internal h s (map summary cts) cts # parents_loop ops h None nodes
       else parents_loop ops h (Some (s, map summary cts, cts)) nodes)"
    using Cons.prems(2)
    by (cases cur) (auto simp: current_ok_def current_children_def cts_def s_def sum_of_append
        sum_of_def add_zero_left Let_def)
  have cts: "cts \<noteq> []" "length cts \<le> 12" "children_ok ops h cts"
    using Cons.prems by (cases cur; auto simp: current_ok_def current_children_def cts_def)+
  show ?case
  proof (cases "length cts = 12")
    case True
    have "same_level ops h (Internal h s (map summary cts) cts)"
      unfolding s_def by (rule same_level_Internal) (use cts in auto)
    with True Cons.IH [of None] Cons.prems(1) show ?thesis
      by (auto simp: loop current_ok_def current_children_def same_level_def cts_def
          simp del: parents_loop.simps)
  next
    case False
    have "current_ok h (Some (s, map summary cts, cts))"
      using False cts by (simp add: current_ok_def s_def)
    with False Cons.IH [of "Some (s, map summary cts, cts)"] Cons.prems(1) show ?thesis
      by (simp add: loop current_children_def cts_def del: parents_loop.simps)
  qed
qed

lemma levels_loop_correct:
  assumes "children_ok ops (Suc h) nodes"
  shows "length (levels_loop ops h nodes) \<le> 1 \<and> (\<exists>k. children_ok ops (Suc k) (levels_loop ops h nodes)) \<and>
    concat (map flat (levels_loop ops h nodes)) = concat (map flat nodes)"
  using assms
proof (induction nodes arbitrary: h rule: length_induct)
  case (1 nodes)
  show ?case
  proof (cases "1 < length nodes")
    case True
    let ?ps = "parents_loop ops (h + 1) None nodes"
    have ps: "children_ok ops (Suc (h + 1)) ?ps" "concat (map flat ?ps) = concat (map flat nodes)"
      using parents_loop_correct [of "h + 1" nodes None] "1.prems"
      by (auto simp: current_ok_def current_children_def)
    with "1.IH" parents_loop_shorter [OF True] show ?thesis
      using True by (subst (1 2 3) levels_loop.simps) auto
  next
    case False
    with "1.prems" show ?thesis by (subst (1 2 3) levels_loop.simps) auto
  qed
qed

theorem tree_from_iter_correct:
  "wf_tree ops (tree_from_iter ops xs) \<and> flat (tree_from_iter ops xs) = xs"
proof -
  define ns where "ns = levels_loop ops 0 (leaf_nodes ops xs)"
  have "children_ok ops (Suc 0) (leaf_nodes ops xs)" using leaf_nodes_correct [of xs] by simp
  from levels_loop_correct [OF this] obtain k where ns: "length ns \<le> 1" "children_ok ops (Suc k) ns"
    "concat (map flat ns) = xs"
    using leaf_nodes_correct [of xs] by (auto simp: ns_def)
  have tree: "tree_from_iter ops xs = (case rev ns of [] \<Rightarrow> tree_new ops | n # _ \<Rightarrow> n)"
    by (simp add: tree_from_iter_def ns_def)
  from ns(1) consider "ns = []" | n where "ns = [n]" by (cases ns) auto
  then show ?thesis
  proof cases
    case 1
    then have "tree_from_iter ops xs = tree_new ops" by (simp add: tree)
    with 1 ns(3) show ?thesis by simp
  next
    case 2
    then have "tree_from_iter ops xs = n" by (simp add: tree)
    with 2 ns show ?thesis by simp
  qed
qed

text \<open>The parallel construction yields the same tree, node for node.\<close>

lemma par_parents_chunk:
  assumes "cts \<noteq> []"
  shows "par_parents ops h cts =
    Internal h (sum_of ops (map summary (take 12 cts))) (map summary (take 12 cts)) (take 12 cts)
    # par_parents ops h (drop 12 cts)"
  using assms by (cases cts) (simp_all add: Let_def foldl_sum_of)

lemma parents_loop_current:
  assumes "cts \<noteq> []" and "length cts < 12"
  shows "parents_loop ops h (Some (sum_of ops (map summary cts), map summary cts, cts)) nodes =
    par_parents ops h (cts @ nodes)"
  using assms
proof (induction nodes arbitrary: cts rule: length_induct)
  case (1 nodes)
  show ?case
  proof (cases nodes)
    case Nil
    with "1.prems" par_parents_chunk [of cts h] show ?thesis by simp
  next
    case (Cons n ns)
    have s: "sadd ops (sum_of ops (map summary cts)) (summary n) = sum_of ops (map summary (cts @ [n]))"
      by (simp add: sum_of_append)
    show ?thesis
    proof (cases "length cts = 11")
      case full: True
      have rest: "parents_loop ops h None ns = par_parents ops h ns"
      proof (cases ns)
        case (Cons m ms)
        have "parents_loop ops h (Some (sum_of ops (map summary [m]), map summary [m], [m])) ms =
            par_parents ops h ([m] @ ms)"
          using "1.IH" [rule_format, of ms "[m]"] \<open>nodes = n # ns\<close> Cons by simp
        then show ?thesis by (simp add: Cons Let_def add_zero_left)
      qed simp
      with full Cons show ?thesis
        by (subst par_parents_chunk) (simp_all add: Let_def s)
    next
      case False
      with Cons "1.prems" have "parents_loop ops h (Some (sum_of ops (map summary (cts @ [n])),
          map summary (cts @ [n]), cts @ [n])) ns = par_parents ops h ((cts @ [n]) @ ns)"
        by (intro "1.IH" [rule_format]) auto
      with False Cons show ?thesis by (simp add: Let_def s)
    qed
  qed
qed

lemma parents_loop_par: "parents_loop ops h None nodes = par_parents ops h nodes"
proof (cases nodes)
  case (Cons n ns)
  with parents_loop_current [of "[n]" h ns] show ?thesis
    by (simp add: Let_def add_zero_left)
qed simp

lemma levels_loop_par: "levels_loop ops h nodes = par_levels ops h nodes"
proof (induction nodes arbitrary: h rule: length_induct)
  case (1 nodes)
  show ?case
  proof (cases "1 < length nodes")
    case True
    with "1.IH" par_parents_shorter [OF True] show ?thesis
      by (subst levels_loop.simps, subst par_levels.simps) (simp add: parents_loop_par)
  qed (simp add: levels_loop.simps [of ops h nodes] par_levels.simps [of ops h nodes])
qed

lemma tree_from_par_iter_eq: "tree_from_par_iter ops xs = tree_from_iter ops xs"
  by (simp add: tree_from_par_iter_def tree_from_iter_def levels_loop_par)

lemma tree_extend_correct:
  assumes "wf_tree ops t"
  shows "\<exists>v. tree_extend ops t xs = Some v \<and> wf_tree ops v \<and> flat v = flat t @ xs"
  using tree_append_correct [OF assms, of "tree_from_iter ops xs"] tree_from_iter_correct [of xs]
  by (auto simp: tree_extend_def)

lemma from_item_correct: "\<exists>v. from_item ops x = Some v \<and> wf_tree ops v \<and> flat v = [x]"
  using tree_push_correct [of "tree_new ops" x] by (auto simp: from_item_def)

end

end
