(* ===== verification/Sum_Tree_Access.thy ===== *)
theory Sum_Tree_Access
  imports Sum_Tree_Append
begin

text \<open>
  Correctness of reading and updating a tree without a cursor (\<open>sum_tree.rs\<close>): its first and last
  items, updates at the two ends, and the \<open>find\<close> family, which descends by summaries and is shown
  equal to a scan of all items.
\<close>

section \<open>The ends of a tree\<close>

lemma leftmost_leaf_correct:
  assumes "wf_tree ops t"
  shows "\<exists>s is iss. leftmost_leaf t = Some (Leaf s is iss) \<and> first_opt is = first_opt (flat t)"
  using assms
proof (induction t)
  case (Internal h s css cts)
  then obtain c cs where cts: "cts = c # cs" by (cases cts) auto
  with Internal have c: "wf_tree ops c" "\<not> is_empty c" by auto
  from c have "flat c \<noteq> []" by (rule flat_nonempty)
  moreover obtain s its iss where "leftmost_leaf c = Some (Leaf s its iss)" "first_opt its = first_opt (flat c)"
    using Internal.IH [of c] c cts by auto
  ultimately show ?case by (auto simp: cts first_opt_def)
qed simp

lemma rightmost_leaf_correct:
  assumes "wf_tree ops t"
  shows "\<exists>s is. rightmost_leaf t = Some (Leaf s is (map (ssummary ops) is)) \<and> last_opt is = last_opt (flat t)"
  using assms
proof (induction t)
  case (Internal h s css cts)
  then obtain cs c where cts: "cts = cs @ [c]" by (cases cts rule: rev_cases) auto
  with Internal have c: "wf_tree ops c" "\<not> is_empty c" by auto
  from c have "flat c \<noteq> []" by (rule flat_nonempty)
  moreover obtain s its where "rightmost_leaf c = Some (Leaf s its (map (ssummary ops) its))"
      "last_opt its = last_opt (flat c)"
    using Internal.IH [of c] c cts by auto
  ultimately show ?case by (auto simp: cts last_opt_def)
qed simp

lemma tree_first_correct: "wf_tree ops t \<Longrightarrow> tree_first t = Some (first_opt (flat t))"
  using leftmost_leaf_correct [of ops t] by (auto simp: tree_first_def)

lemma tree_last_correct: "wf_tree ops t \<Longrightarrow> tree_last t = Some (last_opt (flat t))"
  using rightmost_leaf_correct [of ops t] by (auto simp: tree_last_def)

lemma last_summary_correct:
  "wf_tree ops t \<Longrightarrow> last_summary t = Some (map_option (ssummary ops) (last_opt (flat t)))"
  using rightmost_leaf_correct [of ops t]
  by (auto simp: last_summary_def last_opt_def last_map split: if_splits)

text \<open>Updating an item at one end: the reference is the update of the list of items.\<close>

definition map_last :: "('a \<Rightarrow> 'a) \<Rightarrow> 'a list \<Rightarrow> 'a list" where
  "map_last f xs = (if xs = [] then [] else butlast xs @ [f (last xs)])"

definition map_first :: "('a \<Rightarrow> 'a) \<Rightarrow> 'a list \<Rightarrow> 'a list" where
  "map_first f xs = (case xs of [] \<Rightarrow> [] | x # xs' \<Rightarrow> f x # xs')"

lemma map_last_append: "ys \<noteq> [] \<Longrightarrow> map_last f (xs @ ys) = xs @ map_last f ys"
  by (simp add: map_last_def butlast_append)

lemma map_first_append: "xs \<noteq> [] \<Longrightarrow> map_first f (xs @ ys) = map_first f xs @ ys"
  by (cases xs) (auto simp: map_first_def)

lemma update_last_recursive_correct:
  assumes "wf_tree ops t"
  shows "\<exists>t' r. update_last_recursive ops f t = Some (t', r) \<and> wf_tree ops t' \<and> height t' = height t \<and>
    flat t' = map_last f (flat t) \<and> is_empty t' = is_empty t \<and>
    r = (if is_empty t then None else Some (summary t'))"
  using assms
proof (induction t)
  case (Leaf s its iss)
  then show ?case
    by (cases its rule: rev_cases) (auto simp: map_last_def Let_def)
next
  case (Internal h s css cts)
  then obtain cs c where cts: "cts = cs @ [c]" by (cases cts rule: rev_cases) auto
  with Internal have c: "wf_tree ops c" "\<not> is_empty c" and css: "css = map summary cs @ [summary c]"
    by auto
  obtain c' where c': "update_last_recursive ops f c = Some (c', Some (summary c'))" "wf_tree ops c'"
      "height c' = height c" "flat c' = map_last f (flat c)" "\<not> is_empty c'"
    using Internal.IH [of c] c cts by auto
  have "flat c \<noteq> []" using c by (rule flat_nonempty)
  with c' Internal.prems show ?case
    by (simp add: cts css map_last_append Let_def)
qed

lemma update_first_recursive_correct:
  assumes "wf_tree ops t"
  shows "\<exists>t' r. update_first_recursive ops f t = Some (t', r) \<and> wf_tree ops t' \<and> height t' = height t \<and>
    flat t' = map_first f (flat t) \<and> is_empty t' = is_empty t \<and>
    r = (if is_empty t then None else Some (summary t'))"
  using assms
proof (induction t)
  case (Leaf s its iss)
  then show ?case
    by (cases its) (auto simp: map_first_def Let_def)
next
  case (Internal h s css cts)
  then obtain c cs where cts: "cts = c # cs" by (cases cts) auto
  with Internal have c: "wf_tree ops c" "\<not> is_empty c" and css: "css = summary c # map summary cs"
    by auto
  obtain c' where c': "update_first_recursive ops f c = Some (c', Some (summary c'))" "wf_tree ops c'"
      "height c' = height c" "flat c' = map_first f (flat c)" "\<not> is_empty c'"
    using Internal.IH [of c] c cts by auto
  have "flat c \<noteq> []" using c by (rule flat_nonempty)
  with c' Internal.prems show ?case
    by (simp add: cts css map_first_append Let_def)
qed

lemma update_last_correct:
  "wf_tree ops t \<Longrightarrow> \<exists>t'. update_last ops f t = Some t' \<and> wf_tree ops t' \<and> flat t' = map_last f (flat t)"
  using update_last_recursive_correct [of ops t f] by (auto simp: update_last_def)

lemma update_first_correct:
  "wf_tree ops t \<Longrightarrow> \<exists>t'. update_first ops f t = Some t' \<and> wf_tree ops t' \<and> flat t' = map_first f (flat t)"
  using update_first_recursive_correct [of ops t f] by (auto simp: update_first_def)

section \<open>Dimensions and monotone targets\<close>

text \<open>The positions reached after each item of a list, from a start position.\<close>

fun ends :: "('s, 'd) dim_ops \<Rightarrow> 'd \<Rightarrow> 's list \<Rightarrow> 'd list" where
  "ends D p [] = []"
| "ends D p (s # ss) = dadd D p s # ends D (dadd D p s) ss"

lemma length_ends [simp]: "length (ends D p ss) = length ss"
  by (induction ss arbitrary: p) auto

lemma ends_append: "ends D p (xs @ ys) = ends D p xs @ ends D (foldl (dadd D) p xs) ys"
  by (induction xs arbitrary: p) auto

lemma ends_Nil_iff [simp]: "ends D p ss = [] \<longleftrightarrow> ss = []"
  by (cases ss) auto

lemma last_ends: "ss \<noteq> [] \<Longrightarrow> last (ends D p ss) = foldl (dadd D) p ss"
  by (induction ss arbitrary: p) auto

lemma nth_ends: "i < length ss \<Longrightarrow> ends D p ss ! i = foldl (dadd D) p (take (Suc i) ss)"
proof (induction ss arbitrary: p i)
  case (Cons s ss)
  then show ?case by (cases i) auto
qed simp

text \<open>
  A target is monotone along a list of items when a position it lies beyond is preceded only by
  positions it lies beyond.
\<close>

definition mono_target :: "('s, 'd) dim_ops \<Rightarrow> ('d \<Rightarrow> ordering) \<Rightarrow> bias \<Rightarrow> 'd \<Rightarrow> 's list \<Rightarrow> bool" where
  "mono_target D tgt b p ss \<longleftrightarrow>
     sorted_wrt (\<lambda>x y. seek_past b (tgt y) \<longrightarrow> seek_past b (tgt x)) (ends D p ss)"

lemma mono_target_append:
  "mono_target D tgt b p (xs @ ys) \<Longrightarrow>
   mono_target D tgt b p xs \<and> mono_target D tgt b (foldl (dadd D) p xs) ys"
  by (simp add: mono_target_def ends_append sorted_wrt_append)

lemma mono_target_all_past:
  assumes "mono_target D tgt b p ss" and "ss \<noteq> []" and "seek_past b (tgt (foldl (dadd D) p ss))"
  shows "\<forall>e \<in> set (ends D p ss). seek_past b (tgt e)"
proof -
  obtain es where es: "ends D p ss = es @ [foldl (dadd D) p ss]"
    using assms(2) last_ends [of ss D p] length_ends [of D p ss]
    by (metis append_butlast_last_id length_0_conv)
  with assms show ?thesis by (auto simp: mono_target_def sorted_wrt_append)
qed

lemma target_in_child_iff: "target_in_child b c \<longleftrightarrow> \<not> seek_past b c"
  by (cases c; cases b) (auto simp: target_in_child_def seek_past_def)

locale dimension_laws = summary_laws ops
  for ops :: "('t, 's) item_ops" +
  fixes D :: "('s, 'd) dim_ops"
  assumes dadd_sadd: "dadd D d (sadd ops a b) = dadd D (dadd D d a) b"
begin

lemma dadd_sum_of: "ss \<noteq> [] \<Longrightarrow> dadd D d (sum_of ops ss) = foldl (dadd D) d ss"
proof (induction ss rule: rev_nonempty_induct)
  case (snoc s ss)
  then show ?case by (simp add: sum_of_append dadd_sadd)
qed simp

lemma dadd_summary:
  assumes "wf_tree ops t" and "\<not> is_empty t"
  shows "dadd D d (summary t) = foldl (dadd D) d (map (ssummary ops) (flat t))"
  using flat_nonempty [OF assms] assms(1) by (simp add: wf_summary dadd_sum_of)

section \<open>Finding by summaries is a scan of the items\<close>

lemma find_in_items_past:
  assumes "length xs = length ss" and "\<forall>e \<in> set (ends D p ss). seek_past b (tgt e)"
  shows "find_in_items D tgt b False p (xs @ ys) (ss @ tt) =
    find_in_items D tgt b False (foldl (dadd D) p ss) ys tt"
  using assms
  by (induction xs ss arbitrary: p rule: list_induct2) (auto simp: Let_def target_in_child_iff)

lemma find_in_items_stops:
  assumes "length xs = length ss" and "xs \<noteq> []" and "\<not> seek_past b (tgt (foldl (dadd D) p ss))"
  shows "find_in_items D tgt b False p (xs @ ys) (ss @ tt) = find_in_items D tgt b False p xs ss"
  using assms
proof (induction xs ss arbitrary: p rule: list_induct2)
  case (Cons x xs s ss)
  then show ?case by (cases "xs = []") (auto simp: Let_def target_in_child_iff)
qed simp

abbreviation node_sums :: "('t, 's) node \<Rightarrow> 's list" where
  "node_sums t \<equiv> map (ssummary ops) (flat t)"

lemma find_in_children_scan:
  assumes "children_ok ops h cts" and "mono_target D tgt b p (item_sums ops cts)"
    and "\<And>c q. c \<in> set cts \<Longrightarrow> mono_target D tgt b q (node_sums c) \<Longrightarrow>
      find_iterate D tgt b False q c = find_in_items D tgt b False q (flat c) (node_sums c)"
  shows "find_in_children D tgt b False p cts (map summary cts) =
    find_in_items D tgt b False p (concat (map flat cts)) (item_sums ops cts)"
  using assms
proof (induction cts arbitrary: p)
  case (Cons c cts)
  from Cons.prems(1) have c: "wf_tree ops c" "\<not> is_empty c" by auto
  have ne: "flat c \<noteq> []" using c by (rule flat_nonempty)
  have end_c: "dadd D p (summary c) = foldl (dadd D) p (node_sums c)" by (rule dadd_summary [OF c])
  from Cons.prems(2) have mono: "mono_target D tgt b p (node_sums c)"
      "mono_target D tgt b (foldl (dadd D) p (node_sums c)) (item_sums ops cts)"
    using mono_target_append by fastforce+
  show ?case
  proof (cases "seek_past b (tgt (foldl (dadd D) p (node_sums c)))")
    case True
    then have "\<forall>e \<in> set (ends D p (node_sums c)). seek_past b (tgt e)"
      using mono_target_all_past [OF mono(1)] ne by simp
    with Cons.IH Cons.prems mono True show ?thesis
      by (simp add: Let_def target_in_child_iff end_c find_in_items_past)
  next
    case False
    with Cons.prems(3) [of c] mono ne show ?thesis
      by (simp add: Let_def target_in_child_iff end_c find_in_items_stops)
  qed
qed simp

lemma find_iterate_scan:
  assumes "wf_tree ops t" and "mono_target D tgt b p (node_sums t)"
  shows "find_iterate D tgt b False p t = find_in_items D tgt b False p (flat t) (node_sums t)"
  using assms
proof (induction t arbitrary: p)
  case (Internal h s css cts)
  then have ok: "children_ok ops h cts" and css: "css = map summary cts"
    by (auto simp: children_ok_def)
  have "find_in_children D tgt b False p cts (map summary cts) =
      find_in_items D tgt b False p (concat (map flat cts)) (item_sums ops cts)"
    using Internal.prems(2) ok
    by (intro find_in_children_scan [of h] Internal.IH) (auto simp: item_sums_def children_ok_def)
  then show ?case by (simp add: css item_sums_def)
qed simp

text \<open>The same for \<open>find_with_prev\<close>, which also reports the item before.\<close>

lemma find_prev_past:
  assumes "length xs = length ss" and "\<forall>e \<in> set (ends D p ss). seek_past b (tgt e)"
  shows "find_prev_in_items D tgt b prev p (xs @ ys) (ss @ tt) =
    find_prev_in_items D tgt b (if xs = [] then prev else Some (last xs)) (foldl (dadd D) p ss) ys tt"
  using assms
  by (induction xs ss arbitrary: p prev rule: list_induct2) (auto simp: Let_def target_in_child_iff)

lemma find_prev_stops:
  assumes "length xs = length ss" and "xs \<noteq> []" and "\<not> seek_past b (tgt (foldl (dadd D) p ss))"
  shows "find_prev_in_items D tgt b prev p (xs @ ys) (ss @ tt) = find_prev_in_items D tgt b prev p xs ss"
  using assms
proof (induction xs ss arbitrary: p prev rule: list_induct2)
  case (Cons x xs s ss)
  then show ?case by (cases "xs = []") (auto simp: Let_def target_in_child_iff)
qed simp

lemma find_prev_in_children_scan:
  assumes "children_ok ops h cts" and "mono_target D tgt b p (item_sums ops cts)"
    and "\<And>c q prev. c \<in> set cts \<Longrightarrow> mono_target D tgt b q (node_sums c) \<Longrightarrow>
      find_with_prev_iterate D tgt b prev q c =
        Some (find_prev_in_items D tgt b prev q (flat c) (node_sums c))"
  shows "find_prev_in_children D tgt b prev p cts (map summary cts) =
    Some (find_prev_in_items D tgt b prev p (concat (map flat cts)) (item_sums ops cts))"
  using assms
proof (induction cts arbitrary: p prev)
  case (Cons c cts)
  from Cons.prems(1) have c: "wf_tree ops c" "\<not> is_empty c" by auto
  have ne: "flat c \<noteq> []" using c by (rule flat_nonempty)
  have end_c: "dadd D p (summary c) = foldl (dadd D) p (node_sums c)" by (rule dadd_summary [OF c])
  have lst: "tree_last c = Some (Some (last (flat c)))"
    using tree_last_correct [OF c(1)] ne by (simp add: last_opt_def)
  from Cons.prems(2) have mono: "mono_target D tgt b p (node_sums c)"
      "mono_target D tgt b (foldl (dadd D) p (node_sums c)) (item_sums ops cts)"
    using mono_target_append by fastforce+
  show ?case
  proof (cases "seek_past b (tgt (foldl (dadd D) p (node_sums c)))")
    case True
    then have "\<forall>e \<in> set (ends D p (node_sums c)). seek_past b (tgt e)"
      using mono_target_all_past [OF mono(1)] ne by simp
    with Cons.IH [OF _ mono(2)] Cons.prems(1,3) True ne lst show ?thesis
      by (simp add: Let_def target_in_child_iff end_c find_prev_past)
  next
    case False
    with Cons.prems(3) [of c] mono ne show ?thesis
      by (simp add: Let_def target_in_child_iff end_c find_prev_stops)
  qed
qed simp

lemma find_with_prev_iterate_scan:
  assumes "wf_tree ops t" and "mono_target D tgt b p (node_sums t)"
  shows "find_with_prev_iterate D tgt b prev p t =
    Some (find_prev_in_items D tgt b prev p (flat t) (node_sums t))"
  using assms
proof (induction t arbitrary: p prev)
  case (Internal h s css cts)
  then have ok: "children_ok ops h cts" and css: "css = map summary cts"
    by (auto simp: children_ok_def)
  have "find_prev_in_children D tgt b prev p cts (map summary cts) =
      Some (find_prev_in_items D tgt b prev p (concat (map flat cts)) (item_sums ops cts))"
    using Internal.prems(2) ok
    by (intro find_prev_in_children_scan [of h] Internal.IH) (auto simp: item_sums_def children_ok_def)
  then show ?case by (simp add: css item_sums_def)
qed simp

end

section \<open>The position a seek reaches\<close>

text \<open>
  The number of items a seek passes: those up to the first whose end the target does not lie
  beyond.
\<close>

definition seek_len :: "('s, 'd) dim_ops \<Rightarrow> ('d \<Rightarrow> ordering) \<Rightarrow> bias \<Rightarrow> 'd \<Rightarrow> 's list \<Rightarrow> nat" where
  "seek_len D tgt b p ss = length (takeWhile (\<lambda>e. seek_past b (tgt e)) (ends D p ss))"

lemma seek_len_Cons:
  "seek_len D tgt b p (s # ss) =
    (if seek_past b (tgt (dadd D p s)) then Suc (seek_len D tgt b (dadd D p s) ss) else 0)"
  by (simp add: seek_len_def)

lemma seek_len_Nil [simp]: "seek_len D tgt b p [] = 0"
  by (simp add: seek_len_def)

lemma seek_len_le: "seek_len D tgt b p ss \<le> length ss"
  unfolding seek_len_def by (metis length_ends length_takeWhile_le)

lemma seek_len_past: "i < seek_len D tgt b p ss \<Longrightarrow> seek_past b (tgt (ends D p ss ! i))"
  unfolding seek_len_def by (metis nth_mem set_takeWhileD takeWhile_nth)

lemma seek_len_stops:
  "seek_len D tgt b p ss < length ss \<Longrightarrow> \<not> seek_past b (tgt (ends D p ss ! seek_len D tgt b p ss))"
  unfolding seek_len_def by (metis length_ends nth_length_takeWhile)

lemma find_in_items_seek_len:
  assumes "length xs = length ss"
  shows "find_in_items D tgt b False p xs ss =
    (let k = seek_len D tgt b p ss in
     (foldl (dadd D) p (take k ss),
      if k < length xs then Some (xs ! k, foldl (dadd D) p (take (Suc k) ss)) else None))"
  using assms
  by (induction xs ss arbitrary: p rule: list_induct2)
    (auto simp: Let_def target_in_child_iff seek_len_Cons)

lemma find_prev_in_items_seek_len:
  assumes "length xs = length ss"
  shows "find_prev_in_items D tgt b prev p xs ss =
    (let k = seek_len D tgt b p ss in
     (foldl (dadd D) p (take k ss),
      if k < length xs
      then Some (if k = 0 then prev else Some (xs ! (k - 1)), xs ! k, foldl (dadd D) p (take (Suc k) ss))
      else None))"
  using assms
proof (induction xs ss arbitrary: p prev rule: list_induct2)
  case (Cons x xs s ss)
  then show ?case
    by (auto simp: Let_def target_in_child_iff seek_len_Cons nth_Cons' gr0_conv_Suc)
qed simp

text \<open>
  Where the comparison with the target only falls along the items (the case of every ordered
  dimension), the target is monotone for both biases.
\<close>

fun rank :: "ordering \<Rightarrow> nat" where
  "rank Less = 0"
| "rank Equal = 1"
| "rank Greater = 2"

definition antitone_target :: "('s, 'd) dim_ops \<Rightarrow> ('d \<Rightarrow> ordering) \<Rightarrow> 'd \<Rightarrow> 's list \<Rightarrow> bool" where
  "antitone_target D tgt p ss \<longleftrightarrow> sorted_wrt (\<lambda>x y. rank (tgt y) \<le> rank (tgt x)) (ends D p ss)"

lemma antitone_mono_target: "antitone_target D tgt p ss \<Longrightarrow> mono_target D tgt b p ss"
  unfolding antitone_target_def mono_target_def
proof (rule sorted_wrt_mono_rel [rotated])
  fix x y assume "rank (tgt y) \<le> rank (tgt x)"
  then show "seek_past b (tgt y) \<longrightarrow> seek_past b (tgt x)"
    by (cases "tgt x"; cases "tgt y") (auto simp: seek_past_def)
qed

lemma antitone_target_append:
  "antitone_target D tgt p (xs @ ys) \<longleftrightarrow>
   antitone_target D tgt p xs \<and> antitone_target D tgt (foldl (dadd D) p xs) ys \<and>
   (\<forall>x \<in> set (ends D p xs). \<forall>y \<in> set (ends D (foldl (dadd D) p xs) ys). rank (tgt y) \<le> rank (tgt x))"
  by (auto simp: antitone_target_def ends_append sorted_wrt_append)

text \<open>The exact search: it finds an item only at a position equal to the target.\<close>

lemma find_exact_skip:
  assumes "length xs = length ss" and "\<forall>e \<in> set (ends D p ss). tgt e \<noteq> Equal"
  shows "find_in_items D tgt b True p (xs @ ys) (ss @ tt) =
    find_in_items D tgt b True (foldl (dadd D) p ss) ys tt"
  using assms by (induction xs ss arbitrary: p rule: list_induct2) (auto simp: Let_def)

lemma find_exact_hit:
  assumes "length xs = length ss" and "\<exists>e \<in> set (ends D p ss). tgt e = Equal"
  shows "find_in_items D tgt b True p (xs @ ys) (ss @ tt) = find_in_items D tgt b True p xs ss"
  using assms by (induction xs ss arbitrary: p rule: list_induct2) (auto simp: Let_def)

lemma find_exact_none:
  assumes "length xs = length ss" and "\<forall>e \<in> set (ends D p ss). tgt e \<noteq> Equal"
  shows "snd (find_in_items D tgt b True p xs ss) = None"
  using assms by (induction xs ss arbitrary: p rule: list_induct2) (auto simp: Let_def)

lemma antitone_after_stop:
  assumes "antitone_target D tgt p (xs @ ys)" and "xs \<noteq> []" and "\<not> seek_past Left (tgt (foldl (dadd D) p xs))"
    and "\<forall>e \<in> set (ends D p xs). tgt e \<noteq> Equal"
  shows "\<forall>e \<in> set (ends D (foldl (dadd D) p xs) ys). tgt e \<noteq> Equal"
proof
  fix e assume e: "e \<in> set (ends D (foldl (dadd D) p xs) ys)"
  have lst: "foldl (dadd D) p xs \<in> set (ends D p xs)"
    using assms(2) last_ends [of xs D p] last_in_set [of "ends D p xs"] by simp
  with assms(3,4) have "tgt (foldl (dadd D) p xs) = Less"
    by (cases "tgt (foldl (dadd D) p xs)") (auto simp: seek_past_def)
  moreover have "rank (tgt e) \<le> rank (tgt (foldl (dadd D) p xs))"
    using assms(1) e lst by (auto simp: antitone_target_append)
  ultimately show "tgt e \<noteq> Equal" by (cases "tgt e") auto
qed

lemma find_exact_seek_len:
  assumes "length xs = length ss" and "antitone_target D tgt p ss"
  shows "map_option fst (snd (find_in_items D tgt Left True p xs ss)) =
    (let k = seek_len D tgt Left p ss in
     if k < length xs \<and> tgt (ends D p ss ! k) = Equal then Some (xs ! k) else None)"
  using assms
proof (induction xs ss arbitrary: p rule: list_induct2)
  case (Cons x xs s ss)
  have anti: "antitone_target D tgt (dadd D p s) ss"
    using Cons.prems antitone_target_append [of D tgt p "[s]" ss] by simp
  show ?case
  proof (cases "tgt (dadd D p s)")
    case Less
    have "\<forall>e \<in> set (ends D (dadd D p s) ss). tgt e \<noteq> Equal"
      using antitone_after_stop [of D tgt p "[s]" ss] Cons.prems Less by (simp add: seek_past_def)
    with find_exact_none [OF Cons.hyps, of D "dadd D p s" tgt Left] Less show ?thesis
      by (simp add: Let_def seek_len_Cons seek_past_def)
  next
    case Equal
    then show ?thesis by (simp add: Let_def seek_len_Cons seek_past_def)
  next
    case Greater
    with Cons.IH [OF anti] show ?thesis by (simp add: Let_def seek_len_Cons seek_past_def)
  qed
qed simp

context dimension_laws
begin

lemma find_exact_children_scan:
  assumes "children_ok ops h cts" and "antitone_target D tgt p (item_sums ops cts)"
    and "\<And>c q. c \<in> set cts \<Longrightarrow> antitone_target D tgt q (map (ssummary ops) (flat c)) \<Longrightarrow>
      snd (find_iterate D tgt Left True q c) =
      snd (find_in_items D tgt Left True q (flat c) (map (ssummary ops) (flat c)))"
  shows "snd (find_in_children D tgt Left True p cts (map summary cts)) =
    snd (find_in_items D tgt Left True p (concat (map flat cts)) (item_sums ops cts))"
  using assms
proof (induction cts arbitrary: p)
  case (Cons c cts)
  let ?ss = "map (ssummary ops) (flat c)" and ?q = "foldl (dadd D) p (map (ssummary ops) (flat c))"
  from Cons.prems(1) have c: "wf_tree ops c" "\<not> is_empty c" by auto
  have ne: "flat c \<noteq> []" using c by (rule flat_nonempty)
  have end_c: "dadd D p (summary c) = ?q" by (rule dadd_summary [OF c])
  have anti: "antitone_target D tgt p ?ss" "antitone_target D tgt ?q (item_sums ops cts)"
    using Cons.prems(2) by (auto simp: antitone_target_append)
  have len: "length (concat (map flat cts)) = length (item_sums ops cts)" by (simp add: item_sums_def)
  show ?case
  proof (cases "seek_past Left (tgt ?q)")
    case True
    then have "\<forall>e \<in> set (ends D p ?ss). tgt e \<noteq> Equal"
      using mono_target_all_past [OF antitone_mono_target [OF anti(1)]] ne
      by (fastforce simp: seek_past_def)
    with Cons.IH [OF _ anti(2)] Cons.prems(1,3) True show ?thesis
      by (simp add: Let_def target_in_child_iff end_c find_exact_skip)
  next
    case stop: False
    then have descend: "snd (find_in_children D tgt Left True p (c # cts) (map summary (c # cts))) =
        snd (find_in_items D tgt Left True p (flat c) ?ss)"
      using Cons.prems(3) [of c p] anti(1) by (simp add: Let_def target_in_child_iff end_c)
    show ?thesis
    proof (cases "\<exists>e \<in> set (ends D p ?ss). tgt e = Equal")
      case True
      then show ?thesis by (subst descend) (simp add: find_exact_hit)
    next
      case False
      then have "\<forall>e \<in> set (ends D ?q (item_sums ops cts)). tgt e \<noteq> Equal"
        using antitone_after_stop [of D tgt p ?ss "item_sums ops cts"] Cons.prems(2) stop ne by simp
      then have "snd (find_in_items D tgt Left True ?q (concat (map flat cts)) (item_sums ops cts)) = None"
        by (rule find_exact_none [OF len])
      with False show ?thesis
        by (subst descend) (simp add: find_exact_skip find_exact_none)
    qed
  qed
qed simp

lemma find_exact_iterate_scan:
  assumes "wf_tree ops t" and "antitone_target D tgt p (map (ssummary ops) (flat t))"
  shows "snd (find_iterate D tgt Left True p t) =
    snd (find_in_items D tgt Left True p (flat t) (map (ssummary ops) (flat t)))"
  using assms
proof (induction t arbitrary: p)
  case (Internal h s css cts)
  then have ok: "children_ok ops h cts" and css: "css = map summary cts"
    by (auto simp: children_ok_def)
  have "snd (find_in_children D tgt Left True p cts (map summary cts)) =
      snd (find_in_items D tgt Left True p (concat (map flat cts)) (item_sums ops cts))"
    using Internal.prems(2) ok
    by (intro find_exact_children_scan [of h] Internal.IH) (auto simp: item_sums_def children_ok_def)
  then show ?case by (simp add: css item_sums_def)
qed simp

lemma seek_past_end:
  assumes "wf_tree ops t" and "\<not> is_empty t" and "mono_target D tgt b p (map (ssummary ops) (flat t))"
    and "seek_past b (tgt (dadd D p (summary t)))"
  shows "seek_len D tgt b p (map (ssummary ops) (flat t)) = length (flat t)"
proof -
  let ?ss = "map (ssummary ops) (flat t)"
  have "\<forall>e \<in> set (ends D p ?ss). seek_past b (tgt e)"
    using assms flat_nonempty [OF assms(1,2)]
    by (intro mono_target_all_past) (simp_all add: dadd_summary)
  then have "takeWhile (\<lambda>e. seek_past b (tgt e)) (ends D p ?ss) = ends D p ?ss"
    by (simp add: takeWhile_eq_all_conv)
  then show ?thesis by (simp only: seek_len_def length_ends length_map)
qed

theorem find_item_correct:
  assumes "wf_tree ops t" and "\<not> is_empty t"
    and "mono_target D tgt b (dzero D) (map (ssummary ops) (flat t))"
  shows "find_item D tgt b t =
    (let ss = map (ssummary ops) (flat t);
         k = seek_len D tgt b (dzero D) ss;
         pos = (\<lambda>i. foldl (dadd D) (dzero D) (take i ss))
     in if k < length (flat t) then (pos k, pos (Suc k), Some (flat t ! k)) else (pos k, pos k, None))"
  using seek_past_end [OF assms] find_iterate_scan [OF assms(1,3)] dadd_summary [OF assms(1,2)]
  by (auto simp: find_item_def find_with_def Let_def find_in_items_seek_len)

theorem find_with_prev_correct:
  assumes "wf_tree ops t" and "\<not> is_empty t"
    and "mono_target D tgt b (dzero D) (map (ssummary ops) (flat t))"
  shows "find_with_prev D tgt b t =
    (let ss = map (ssummary ops) (flat t);
         k = seek_len D tgt b (dzero D) ss;
         pos = (\<lambda>i. foldl (dadd D) (dzero D) (take i ss))
     in Some (if k < length (flat t)
              then (pos k, pos (Suc k), Some (if k = 0 then None else Some (flat t ! (k - 1)), flat t ! k))
              else (pos k, pos k, None)))"
  using seek_past_end [OF assms] find_with_prev_iterate_scan [OF assms(1,3)] dadd_summary [OF assms(1,2)]
  by (auto simp: find_with_prev_def Let_def find_prev_in_items_seek_len)

theorem find_exact_correct:
  assumes "wf_tree ops t" and "\<not> is_empty t"
    and "antitone_target D tgt (dzero D) (map (ssummary ops) (flat t))"
  shows "snd (snd (find_exact D tgt Left t)) =
    (let ss = map (ssummary ops) (flat t);
         k = seek_len D tgt Left (dzero D) ss
     in if k < length (flat t) \<and> tgt (ends D (dzero D) ss ! k) = Equal then Some (flat t ! k) else None)"
proof -
  let ?ss = "map (ssummary ops) (flat t)"
  have res: "snd (snd (find_exact D tgt Left t)) =
      (if seek_past Left (tgt (dadd D (dzero D) (summary t))) then None
       else map_option fst (snd (find_iterate D tgt Left True (dzero D) t)))"
    by (auto simp: find_exact_def find_with_def Let_def split: prod.splits option.splits)
  show ?thesis
    using seek_past_end [OF assms(1,2) antitone_mono_target [OF assms(3)]]
      find_exact_iterate_scan [OF assms(1,3)] find_exact_seek_len [OF _ assms(3), of "flat t"]
    by (simp add: res Let_def)
qed

end

end
