(* ===== verification/Cursor_Seek.thy ===== *)
theory Cursor_Seek
  imports Cursor Sum_Tree_Access
begin

text \<open>
  Correctness of seeking (\<open>cursor.rs\<close>). A cursor over a tree stands at an index into the list of
  its items; \<open>cursor_at\<close> relates the stack, the position and the flags to that index. A seek with
  a monotone target moves the index by \<open>seek_len\<close> and hands the items it passes to its aggregate,
  whole subtrees at a time where it can.
\<close>

section \<open>Stacks and the items around them\<close>

fun frame_children :: "('t, 's, 'd) stack_entry \<Rightarrow> ('t, 's) node list" where
  "frame_children e = (case se_tree e of Internal h s css cts \<Rightarrow> cts | Leaf s is iss \<Rightarrow> [])"

declare frame_children.simps [simp del]

lemma frame_children_Internal [simp]: "se_tree e = Internal h s css cts \<Longrightarrow> frame_children e = cts"
  by (simp add: frame_children.simps)

text \<open>The items before and after the subtree that the frames of a stack lead to.\<close>

fun items_before :: "('t, 's, 'd) stack_entry list \<Rightarrow> 't list" where
  "items_before [] = []"
| "items_before (e # es) = items_before es @ concat (map flat (take (se_index e) (frame_children e)))"

fun items_after :: "('t, 's, 'd) stack_entry list \<Rightarrow> 't list" where
  "items_after [] = []"
| "items_after (e # es) = concat (map flat (drop (Suc (se_index e)) (frame_children e))) @ items_after es"

definition position_of :: "('t, 's) item_ops \<Rightarrow> ('s, 'd) dim_ops \<Rightarrow> 't list \<Rightarrow> 'd" where
  "position_of ops D xs = foldl (dadd D) (dzero D) (map (ssummary ops) xs)"

lemma position_of_append:
  "position_of ops D (xs @ ys) = foldl (dadd D) (position_of ops D xs) (map (ssummary ops) ys)"
  by (simp add: position_of_def)

lemma position_of_Nil [simp]: "position_of ops D [] = dzero D"
  by (simp add: position_of_def)

text \<open>The frames of a stack lead from the root to a subtree.\<close>

fun frames_ok ::
  "('t, 's) item_ops \<Rightarrow> ('s, 'd) dim_ops \<Rightarrow> ('t, 's) node \<Rightarrow> ('t, 's) node \<Rightarrow>
   ('t, 's, 'd) stack_entry list \<Rightarrow> bool" where
  "frames_ok ops D root t [] \<longleftrightarrow> t = root"
| "frames_ok ops D root t (e # es) \<longleftrightarrow>
     (\<exists>h s css cts. se_tree e = Internal h s css cts \<and> se_index e < length cts \<and> t = cts ! se_index e) \<and>
     se_position e = position_of ops D (items_before (e # es)) \<and> frames_ok ops D root (se_tree e) es"

lemma frames_wf:
  assumes "frames_ok ops D root t es" and "wf_tree ops root"
  shows "wf_tree ops t" and "es \<noteq> [] \<Longrightarrow> \<not> is_empty t" and "height t + length es = height root"
proof -
  have "wf_tree ops t \<and> (es \<noteq> [] \<longrightarrow> \<not> is_empty t) \<and> height t + length es = height root"
    using assms
  proof (induction es arbitrary: t)
    case (Cons e es)
    then obtain h s css cts where e: "se_tree e = Internal h s css cts" "se_index e < length cts"
        "t = cts ! se_index e" by auto
    with Cons have "wf_tree ops (Internal h s css cts)" "h + length es = height root"
      by (metis frames_ok.simps(2), metis frames_ok.simps(2) height.simps(1))
    moreover from e have "t \<in> set cts" by simp
    ultimately show ?case by auto
  qed simp
  then show "wf_tree ops t" and "es \<noteq> [] \<Longrightarrow> \<not> is_empty t" and "height t + length es = height root"
    by auto
qed

lemma concat_split_nth:
  "i < length cts \<Longrightarrow> concat (map flat cts) =
     concat (map flat (take i cts)) @ flat (cts ! i) @ concat (map flat (drop (Suc i) cts))"
  by (metis concat.simps(2) concat_append id_take_nth_drop list.simps(9) map_append)

lemma frames_flat:
  "frames_ok ops D root t es \<Longrightarrow> flat root = items_before es @ flat t @ items_after es"
proof (induction es arbitrary: t)
  case (Cons e es)
  then obtain h s css cts where e: "se_tree e = Internal h s css cts" "se_index e < length cts"
      "t = cts ! se_index e" and "frames_ok ops D root (se_tree e) es" by auto
  from Cons.IH [OF this(4)] show ?case
    using concat_split_nth [OF e(2)] by (simp add: e(1,3))
qed simp

text \<open>A stack at rest: a leaf entry on top, at an item.\<close>

definition leaf_stack ::
  "('t, 's) item_ops \<Rightarrow> ('s, 'd) dim_ops \<Rightarrow> ('t, 's) node \<Rightarrow> nat \<Rightarrow> ('t, 's, 'd) stack_entry list \<Rightarrow> bool" where
  "leaf_stack ops D root k stk \<longleftrightarrow>
     (\<exists>e es s is iss. stk = e # es \<and> se_tree e = Leaf s is iss \<and> se_index e < length is \<and>
        frames_ok ops D root (se_tree e) es \<and> k = length (items_before es) + se_index e)"

definition cursor_at ::
  "('t, 's) item_ops \<Rightarrow> ('s, 'd) dim_ops \<Rightarrow> ('t, 's) node \<Rightarrow> nat \<Rightarrow> ('t, 's, 'd) cursor \<Rightarrow> bool" where
  "cursor_at ops D root k c \<longleftrightarrow>
     cu_tree c = root \<and> cu_did_seek c \<and> k \<le> length (flat root) \<and>
     cu_position c = position_of ops D (take k (flat root)) \<and>
     (if k < length (flat root) then \<not> cu_at_end c \<and> leaf_stack ops D root k (cu_stack c)
      else cu_at_end c \<and> cu_stack c = [])"

definition cursor_fresh :: "('s, 'd) dim_ops \<Rightarrow> ('t, 's) node \<Rightarrow> ('t, 's, 'd) cursor \<Rightarrow> bool" where
  "cursor_fresh D root c \<longleftrightarrow>
     cu_tree c = root \<and> \<not> cu_did_seek c \<and> cu_stack c = [] \<and> cu_position c = dzero D \<and>
     cu_at_end c = is_empty root"

lemma cursor_fresh_new: "cursor_fresh D t (cursor_new D t)"
  by (simp add: cursor_fresh_def cursor_new_def)

lemma cursor_fresh_reset: "cu_tree c = t \<Longrightarrow> cursor_fresh D t (cursor_reset D c)"
  by (simp add: cursor_fresh_def cursor_reset_def)

text \<open>The stack never overflows on a tree of height 15 or less.\<close>

definition shallow :: "('t, 's) node \<Rightarrow> bool" where
  "shallow t \<longleftrightarrow> height t < STACK_CAPACITY"

text \<open>The trees a cursor walks.\<close>

definition walkable :: "('t, 's) item_ops \<Rightarrow> ('t, 's) node \<Rightarrow> bool" where
  "walkable ops t \<longleftrightarrow> wf_tree ops t \<and> shallow t"

lemma push_entry_frames:
  assumes "frames_ok ops D root t (e # es)" and "wf_tree ops root" and "shallow root"
  shows "push_entry x (e # es) = Some (x # e # es)"
  using frames_wf(3) [OF assms(1,2)] assms(3) by (simp add: push_entry_def shallow_def)

section \<open>Reading at the cursor\<close>

lemma leaf_stack_item:
  assumes "leaf_stack ops D root k stk" and "wf_tree ops root"
  obtains e es s "is" where "stk = e # es" and "se_tree e = Leaf s is (map (ssummary ops) is)"
    and "se_index e < length is" and "frames_ok ops D root (se_tree e) es"
    and "k = length (items_before es) + se_index e" and "k < length (flat root)"
    and "flat root ! k = is ! se_index e"
    and "drop k (flat root) = drop (se_index e) is @ items_after es"
    and "take k (flat root) = items_before es @ take (se_index e) is"
proof -
  from assms(1) obtain e es s its iss where e: "stk = e # es" "se_tree e = Leaf s its iss"
      "se_index e < length its" "frames_ok ops D root (se_tree e) es"
      "k = length (items_before es) + se_index e"
    by (auto simp: leaf_stack_def)
  have fl: "flat root = items_before es @ its @ items_after es"
    using frames_flat [OF e(4)] e(2) by simp
  have "iss = map (ssummary ops) its"
    using frames_wf(1) [OF e(4) assms(2)] e(2) by simp
  with e fl show ?thesis
    by (intro that [of e es s its]) (auto simp: nth_append)
qed

lemma cursor_item_at:
  assumes "cursor_at ops D root k c" and "wf_tree ops root"
  shows "cursor_item c = Some (if k < length (flat root) then Some (flat root ! k) else None)"
proof (cases "k < length (flat root)")
  case True
  with assms(1) have "leaf_stack ops D root k (cu_stack c)" "cu_did_seek c"
    by (auto simp: cursor_at_def)
  then show ?thesis
    using True by (elim leaf_stack_item [OF _ assms(2)]) (auto simp: cursor_item_def assert_did_seek_def)
qed (use assms in \<open>simp add: cursor_at_def cursor_item_def assert_did_seek_def\<close>)

lemma cursor_item_summary_at:
  assumes "cursor_at ops D root k c" and "wf_tree ops root"
  shows "cursor_item_summary c =
    Some (if k < length (flat root) then Some (ssummary ops (flat root ! k)) else None)"
proof (cases "k < length (flat root)")
  case True
  with assms(1) have "leaf_stack ops D root k (cu_stack c)" "cu_did_seek c"
    by (auto simp: cursor_at_def)
  then show ?thesis
    using True by (elim leaf_stack_item [OF _ assms(2)]) (auto simp: cursor_item_summary_def assert_did_seek_def)
qed (use assms in \<open>simp add: cursor_at_def cursor_item_summary_def assert_did_seek_def\<close>)

lemma cursor_end_at:
  assumes "cursor_at ops D root k c" and "wf_tree ops root"
  shows "cursor_end D c = Some (position_of ops D (take (Suc k) (flat root)))"
proof (cases "k < length (flat root)")
  case True
  then have "take (Suc k) (flat root) = take k (flat root) @ [flat root ! k]"
    by (rule take_Suc_conv_app_nth)
  with True assms show ?thesis
    by (simp add: cursor_end_def cursor_item_summary_at [OF assms] position_of_append)
      (simp add: cursor_at_def)
next
  case False
  with assms show ?thesis
    by (simp add: cursor_end_def cursor_item_summary_at [OF assms]) (simp add: cursor_at_def)
qed

section \<open>What a seek hands to its aggregate\<close>

text \<open>
  The contract of an aggregate: \<open>R g xs buf\<close> says that \<open>g\<close> has taken in \<open>xs\<close> and holds the items
  \<open>buf\<close> of the leaf it is in. A leaf has at most 12 items, and the subtrees handed over are lower
  than the bound \<open>H\<close>.
\<close>

locale seek_aggregate_laws =
  fixes ops :: "('t, 's) item_ops" and A :: "('g, 't, 's) seek_aggregate"
    and R :: "'g \<Rightarrow> 't list \<Rightarrow> 't list \<Rightarrow> bool" and H :: nat
  assumes push_tree: "R g xs [] \<Longrightarrow> wf_tree ops t \<Longrightarrow> \<not> is_empty t \<Longrightarrow> height t < H \<Longrightarrow>
      \<exists>g'. agg_push_tree A g t (summary t) = Some g' \<and> R g' (xs @ flat t) []"
    and push_item: "R g xs buf \<Longrightarrow> length buf < 12 \<Longrightarrow>
      \<exists>g'. agg_push_item A g x (ssummary ops x) = Some g' \<and> R g' xs (buf @ [x])"
    and end_leaf: "R g xs buf \<Longrightarrow> length buf \<le> 12 \<Longrightarrow>
      \<exists>g'. agg_end_leaf A g = Some g' \<and> R g' (xs @ buf) []"

text \<open>The outcome of the loop of a seek that stops at index \<open>n\<close> having passed \<open>xs\<close>.\<close>

definition seek_done ::
  "('t, 's) item_ops \<Rightarrow> ('s, 'd) dim_ops \<Rightarrow> ('g \<Rightarrow> 't list \<Rightarrow> 't list \<Rightarrow> bool) \<Rightarrow> ('t, 's) node \<Rightarrow>
   ('t, 's, 'd) cursor \<Rightarrow> nat \<Rightarrow> 't list \<Rightarrow> (('t, 's, 'd) cursor \<times> 'g) option \<Rightarrow> bool" where
  "seek_done ops D R root c n xs r \<longleftrightarrow>
     (\<exists>stk g. r = Some (c\<lparr>cu_stack := stk, cu_position := position_of ops D (take n (flat root))\<rparr>, g) \<and>
        (if n < length (flat root) then leaf_stack ops D root n stk else stk = []) \<and> R g xs [])"

lemma seek_done_update [simp]:
  "seek_done ops D R root (c\<lparr>cu_stack := stk, cu_position := p\<rparr>) n xs r = seek_done ops D R root c n xs r"
  by (simp add: seek_done_def)

lemma seek_len_append:
  "seek_len D tgt b p (xs @ ys) =
    (if seek_len D tgt b p xs = length xs then length xs + seek_len D tgt b (foldl (dadd D) p xs) ys
     else seek_len D tgt b p xs)"
  by (induction xs arbitrary: p) (auto simp: seek_len_Cons)

lemma frames_take:
  assumes "frames_ok ops D root t es"
  shows "take (length (items_before es)) (flat root) = items_before es"
    and "k \<le> length (flat t) \<Longrightarrow> take (length (items_before es) + k) (flat root) = items_before es @ take k (flat t)"
    and "length (items_before es) + length (flat t) \<le> length (flat root)"
  using frames_flat [OF assms] by auto

locale cursor_seeking = dimension_laws ops D + seek_aggregate_laws ops A R H
  for ops :: "('t, 's) item_ops" and D :: "('s, 'd) dim_ops"
    and A :: "('g, 't, 's) seek_aggregate" and R :: "'g \<Rightarrow> 't list \<Rightarrow> 't list \<Rightarrow> bool" and H +
  fixes tgt :: "'d \<Rightarrow> ordering" and b :: bias and root :: "('t, 's) node"
  assumes root_height: "height root \<le> H"
begin

abbreviation sums :: "'t list \<Rightarrow> 's list" where
  "sums \<equiv> map (ssummary ops)"

abbreviation passed :: "'d \<Rightarrow> 't list \<Rightarrow> nat" where
  "passed p xs \<equiv> seek_len D tgt b p (sums xs)"

abbreviation outcome where
  "outcome \<equiv> seek_done ops D R root"

lemma seek_items_spec:
  assumes "R g xs buf" and "length buf + length its \<le> 12"
  shows "\<exists>g'. seek_items D tgt b A p g i its (sums its) =
      Some (foldl (dadd D) p (sums (take (passed p its) its)), g', i + passed p its, passed p its < length its) \<and>
    R g' xs (buf @ take (passed p its) its)"
  using assms
proof (induction its arbitrary: p g i buf)
  case (Cons x its)
  show ?case
  proof (cases "seek_past b (tgt (dadd D p (ssummary ops x)))")
    case True
    obtain g1 where g1: "agg_push_item A g x (ssummary ops x) = Some g1" "R g1 xs (buf @ [x])"
      using push_item [OF Cons.prems(1)] Cons.prems(2) by auto
    with Cons.IH [OF g1(2), of "dadd D p (ssummary ops x)" "i + 1"] Cons.prems(2) True show ?thesis
      by (auto simp: Let_def seek_len_Cons)
  qed (use Cons.prems in \<open>auto simp: Let_def seek_len_Cons\<close>)
qed auto

lemma seek_children_spec:
  assumes "children_ok ops h cts" and "mono_target D tgt b p (item_sums ops cts)" and "R g xs []" and "h \<le> H"
  shows "\<exists>j g'. j \<le> length cts \<and> seek_children D tgt b A p g i cts (map summary cts) =
      Some (foldl (dadd D) p (item_sums ops (take j cts)), g', i + j,
            if j < length cts then Some (cts ! j) else None) \<and>
    R g' (xs @ concat (map flat (take j cts))) [] \<and>
    seek_len D tgt b p (item_sums ops (take j cts)) = length (item_sums ops (take j cts)) \<and>
    (j < length cts \<longrightarrow>
      passed (foldl (dadd D) p (item_sums ops (take j cts))) (flat (cts ! j)) < length (flat (cts ! j)))"
  using assms
proof (induction cts arbitrary: p g i xs)
  case (Cons c cts)
  from Cons.prems(1,4) have c: "wf_tree ops c" "\<not> is_empty c" and low: "height c < H" by auto
  let ?q = "foldl (dadd D) p (sums (flat c))"
  have end_c: "dadd D p (summary c) = ?q" by (rule dadd_summary [OF c])
  have mono: "mono_target D tgt b p (sums (flat c))" "mono_target D tgt b ?q (item_sums ops cts)"
    using Cons.prems(2) mono_target_append by fastforce+
  show ?case
  proof (cases "seek_past b (tgt ?q)")
    case True
    obtain g1 where g1: "agg_push_tree A g c (summary c) = Some g1" "R g1 (xs @ flat c) []"
      using push_tree [OF Cons.prems(3) c low] by auto
    have all: "passed p (flat c) = length (flat c)"
      using seek_past_end [OF c mono(1)] True end_c by simp
    obtain j g' where "j \<le> length cts" "seek_children D tgt b A ?q g1 (i + 1) cts (map summary cts) =
          Some (foldl (dadd D) ?q (item_sums ops (take j cts)), g', i + 1 + j,
            if j < length cts then Some (cts ! j) else None)"
        "R g' ((xs @ flat c) @ concat (map flat (take j cts))) []"
        "seek_len D tgt b ?q (item_sums ops (take j cts)) = length (item_sums ops (take j cts))"
        "j < length cts \<longrightarrow>
          passed (foldl (dadd D) ?q (item_sums ops (take j cts))) (flat (cts ! j)) < length (flat (cts ! j))"
      using Cons.IH [OF _ mono(2) g1(2) Cons.prems(4), of "i + 1"] Cons.prems(1) by auto
    then show ?thesis
      using True g1 all
      by (intro exI [of _ "Suc j"] exI [of _ g']) (simp add: Let_def end_c seek_len_append)
  next
    case False
    have ne: "flat c \<noteq> []" using c by (rule flat_nonempty)
    have "passed p (flat c) < length (flat c)"
    proof (rule ccontr)
      assume "\<not> ?thesis"
      then have "passed p (flat c) = length (flat c)"
        using seek_len_le [of D tgt b p "sums (flat c)"] by simp
      then have "seek_past b (tgt (ends D p (sums (flat c)) ! (length (flat c) - 1)))"
        using ne by (intro seek_len_past) simp
      with False ne show False by (simp add: nth_ends)
    qed
    with False Cons.prems(3) show ?thesis
      by (intro exI [of _ 0] exI [of _ g]) (simp add: Let_def end_c)
  qed
qed simp

text \<open>One round of the loop at an internal entry, given that the search succeeds inside a child.\<close>

lemma seek_loop_children:
  assumes e: "se_tree e = Internal h s css cts" and fr: "frames_ok ops D root (se_tree e) es"
    and stk: "cu_stack c = e # es" and i0: "i0 = (if asc then se_index e + 1 else se_index e)" "i0 \<le> length cts"
    and pos: "cu_position c = position_of ops D (items_before es @ concat (map flat (take i0 cts)))"
    and epos: "\<not> asc \<Longrightarrow> se_position e = cu_position c"
    and mono: "mono_target D tgt b (cu_position c) (item_sums ops (drop i0 cts))"
    and R: "R g xs []"
    and k: "k = passed (cu_position c) (concat (map flat (drop i0 cts)))"
    and child: "\<And>t c e es g xs. t \<in> set cts \<Longrightarrow> frames_ok ops D root t es \<Longrightarrow> es \<noteq> [] \<Longrightarrow>
      cu_position c = position_of ops D (items_before es) \<Longrightarrow>
      cu_stack c = \<lparr>se_tree = t, se_index = 0, se_position = cu_position c\<rparr> # es \<Longrightarrow>
      mono_target D tgt b (cu_position c) (sums (flat t)) \<Longrightarrow> R g xs [] \<Longrightarrow>
      passed (cu_position c) (flat t) < length (flat t) \<Longrightarrow>
      outcome c (length (items_before es) + passed (cu_position c) (flat t))
        (xs @ take (passed (cu_position c) (flat t)) (flat t)) (seek_loop D tgt b A c False g)"
    and walk: "walkable ops root"
  shows "if k < length (concat (map flat (drop i0 cts)))
    then outcome c (length (items_before es @ concat (map flat (take i0 cts))) + k)
      (xs @ take k (concat (map flat (drop i0 cts)))) (seek_loop D tgt b A c asc g)
    else \<exists>g'. seek_loop D tgt b A c asc g =
        seek_loop D tgt b A (c\<lparr>cu_stack := es, cu_position := position_of ops D (items_before es @ concat (map flat cts))\<rparr>) True g' \<and>
      R g' (xs @ concat (map flat (drop i0 cts))) []"
proof -
  have wf_root: "wf_tree ops root" and shallow_root: "shallow root"
    using walk by (auto simp: walkable_def)
  let ?rest = "concat (map flat (drop i0 cts))" and ?p = "cu_position c"
  have wf: "wf_tree ops (se_tree e)" by (rule frames_wf(1) [OF fr wf_root])
  then have ok: "children_ok ops h cts" and css: "css = map summary cts"
    by (auto simp: e children_ok_def)
  have low: "h \<le> H" using frames_wf(3) [OF fr wf_root] root_height e by simp
  obtain j g' where j: "j \<le> length (drop i0 cts)"
      "seek_children D tgt b A ?p g i0 (drop i0 cts) (map summary (drop i0 cts)) =
        Some (foldl (dadd D) ?p (item_sums ops (take j (drop i0 cts))), g', i0 + j,
              if j < length (drop i0 cts) then Some (drop i0 cts ! j) else None)"
      "R g' (xs @ concat (map flat (take j (drop i0 cts)))) []"
      "seek_len D tgt b ?p (item_sums ops (take j (drop i0 cts))) = length (item_sums ops (take j (drop i0 cts)))"
      "j < length (drop i0 cts) \<longrightarrow> passed (foldl (dadd D) ?p (item_sums ops (take j (drop i0 cts))))
         (flat (drop i0 cts ! j)) < length (flat (drop i0 cts ! j))"
    using seek_children_spec [OF children_ok_drop [OF ok] mono R low, of i0] by blast
  let ?mid = "concat (map flat (take j (drop i0 cts)))"
  let ?q = "foldl (dadd D) ?p (sums ?mid)"
  have tk: "concat (map flat (take (i0 + j) cts)) = concat (map flat (take i0 cts)) @ ?mid"
    by (simp add: take_add)
  have q: "?q = position_of ops D (items_before es @ concat (map flat (take (i0 + j) cts)))"
    by (simp add: pos tk position_of_def)
  show ?thesis
  proof (cases "j < length (drop i0 cts)")
    case False
    with j(1) have jl: "j = length (drop i0 cts)" by simp
    then have "k = length ?rest" using j(4) by (simp add: k item_sums_def)
    moreover have "seek_loop D tgt b A c asc g = seek_loop D tgt b A (c\<lparr>cu_stack := es, cu_position := ?q\<rparr>) True g'"
      using j(2) jl i0 by (subst seek_loop.simps) (simp add: stk e css Let_def drop_map item_sums_def)
    moreover have "?q = position_of ops D (items_before es @ concat (map flat cts))"
      using q jl i0 by simp
    ultimately show ?thesis using j(3) jl by auto
  next
    case True
    let ?t = "cts ! (i0 + j)"
    have nth: "drop i0 cts ! j = ?t" using i0 by simp
    have inr: "i0 + j < length cts" using True by simp
    let ?e = "e\<lparr>se_index := i0 + j, se_position := ?q\<rparr>"
    let ?c = "c\<lparr>cu_stack := \<lparr>se_tree = ?t, se_index = 0, se_position = ?q\<rparr> # ?e # es, cu_position := ?q\<rparr>"
    have before: "items_before (?e # es) = items_before es @ concat (map flat (take (i0 + j) cts))"
      using e by (simp add: frame_children.simps)
    have fr': "frames_ok ops D root ?t (?e # es)"
      using fr e inr q before by (simp del: items_before.simps)
    have pe: "push_entry x (?e # es) = Some (x # ?e # es)" for x
      by (rule push_entry_frames [OF fr' wf_root shallow_root])
    have e0: "e\<lparr>se_index := i0, se_position := cu_position c\<rparr> = e\<lparr>se_index := i0\<rparr>" if "\<not> asc"
      using epos [OF that] by (cases e) simp
    have loop: "seek_loop D tgt b A c asc g = seek_loop D tgt b A ?c False g'"
    proof (cases "asc \<or> 0 < j")
      case a: True
      with True show ?thesis
        by (subst seek_loop.simps)
          (simp add: stk e css Let_def drop_map i0(1) [symmetric] i0(2) j(2) nth item_sums_def pe)
    next
      case False
      then have "se_index e = i0" by (simp add: i0(1))
      with False True pe j(2) show ?thesis
        by (subst seek_loop.simps) (simp add: stk e css Let_def drop_map nth item_sums_def e0)
    qed
    have split: "drop i0 cts = take j (drop i0 cts) @ ?t # drop (Suc j) (drop i0 cts)"
      using True nth id_take_nth_drop by metis
    have monot: "mono_target D tgt b ?q (sums (flat ?t))"
    proof -
      have "item_sums ops (drop i0 cts) = (sums ?mid @ sums (flat ?t)) @ item_sums ops (drop (Suc j) (drop i0 cts))"
        using arg_cong [OF split, of "item_sums ops"] by (simp add: item_sums_def)
      then show ?thesis using mono mono_target_append by metis
    qed
    have lt: "passed ?q (flat ?t) < length (flat ?t)"
      using j(5) True nth by (simp add: item_sums_def)
    have rest: "?rest = ?mid @ flat ?t @ concat (map flat (drop (Suc j) (drop i0 cts)))"
      using arg_cong [OF split, of "\<lambda>x. concat (map flat x)"] by simp
    have kk: "k = length ?mid + passed ?q (flat ?t)"
    proof -
      have "passed ?p ?mid = length ?mid" using j(4) by (simp add: item_sums_def)
      with lt show ?thesis by (simp only: k rest map_append seek_len_append length_map) simp
    qed
    have "outcome ?c (length (items_before (?e # es)) + passed ?q (flat ?t))
        ((xs @ ?mid) @ take (passed ?q (flat ?t)) (flat ?t)) (seek_loop D tgt b A ?c False g')"
      using child [of ?t "?e # es" ?c g' "xs @ ?mid"] fr' inr q before monot lt j(3)
      by (simp del: items_before.simps frames_ok.simps)
    moreover have "k < length ?rest" using kk lt by (simp add: rest)
    moreover have "take k ?rest = ?mid @ take (passed ?q (flat ?t)) (flat ?t)"
      using kk lt by (simp add: rest)
    moreover have "length (items_before (?e # es)) + passed ?q (flat ?t) =
        length (items_before es @ concat (map flat (take i0 cts))) + k"
      using before tk kk by simp
    ultimately show ?thesis by (simp add: loop del: items_before.simps)
  qed
qed

lemma seek_loop_leaf:
  assumes e: "se_tree e = Leaf s its iss" and fr: "frames_ok ops D root (se_tree e) es"
    and stk: "cu_stack c = e # es" and i: "se_index e \<le> length its"
    and pos: "cu_position c = position_of ops D (items_before es @ take (se_index e) its)"
    and R: "R g xs []" and k: "k = passed (cu_position c) (drop (se_index e) its)"
    and walk: "walkable ops root"
  shows "if k < length (drop (se_index e) its)
    then outcome c (length (items_before es @ take (se_index e) its) + k)
      (xs @ take k (drop (se_index e) its)) (seek_loop D tgt b A c False g)
    else \<exists>g'. seek_loop D tgt b A c False g =
        seek_loop D tgt b A (c\<lparr>cu_stack := es, cu_position := position_of ops D (items_before es @ its)\<rparr>) True g' \<and>
      R g' (xs @ drop (se_index e) its) []"
proof -
  have wf_root: "wf_tree ops root" using walk by (simp add: walkable_def)
  let ?rest = "drop (se_index e) its" and ?q = "foldl (dadd D) (cu_position c) (sums (take k (drop (se_index e) its)))"
  have "wf_tree ops (se_tree e)" by (rule frames_wf(1) [OF fr wf_root])
  then have iss: "iss = sums its" and len: "length its \<le> 12" by (auto simp: e TREE_BASE_def)
  obtain g1 where g1: "seek_items D tgt b A (cu_position c) g (se_index e) ?rest (sums ?rest) =
      Some (?q, g1, se_index e + k, k < length ?rest)" "R g1 xs (take k ?rest)"
  proof -
    have "length [] + length ?rest \<le> 12" using len by simp
    from seek_items_spec [OF R this, of "cu_position c" "se_index e"] that show thesis by (auto simp: k)
  qed
  obtain g' where g': "agg_end_leaf A g1 = Some g'" "R g' (xs @ take k ?rest) []"
  proof -
    have "length (take k ?rest) \<le> 12" using len by simp
    from end_leaf [OF g1(2) this] that show thesis by auto
  qed
  have q: "?q = position_of ops D (items_before es @ take (se_index e) its @ take k ?rest)"
    by (simp add: pos position_of_def)
  have step: "seek_loop D tgt b A c False g =
      (if k < length ?rest then Some (c\<lparr>cu_stack := e\<lparr>se_index := se_index e + k\<rparr> # es, cu_position := ?q\<rparr>, g')
       else seek_loop D tgt b A (c\<lparr>cu_stack := es, cu_position := ?q\<rparr>) True g')"
    using g1(1) g'(1) i by (subst seek_loop.simps) (simp add: stk e iss Let_def drop_map)
  show ?thesis
  proof (cases "k < length ?rest")
    case True
    then have "leaf_stack ops D root (length (items_before es) + (se_index e + k)) (e\<lparr>se_index := se_index e + k\<rparr> # es)"
      using fr e by (auto simp: leaf_stack_def)
    moreover have "take (length (items_before es) + (se_index e + k)) (flat root) =
        items_before es @ take (se_index e) its @ take k ?rest"
      using frames_take(2) [OF fr, of "se_index e + k"] True e by (simp add: take_add)
    moreover have "length (items_before es) + (se_index e + k) < length (flat root)"
      using frames_take(3) [OF fr] True e by simp
    ultimately show ?thesis
      using True g'(2) i by (auto simp: step seek_done_def q add.assoc)
  next
    case False
    then have "take (se_index e) its @ take k ?rest = its" by simp
    with False g'(2) q show ?thesis by (simp add: step) (metis False linorder_not_less take_all)
  qed
qed

text \<open>A search entered because its target lies inside a subtree stops there.\<close>

lemma seek_descend:
  assumes "wf_tree ops t" and "frames_ok ops D root t es" and "es \<noteq> []"
    and "cu_position c = position_of ops D (items_before es)"
    and "cu_stack c = \<lparr>se_tree = t, se_index = 0, se_position = cu_position c\<rparr> # es"
    and "mono_target D tgt b (cu_position c) (sums (flat t))" and "R g xs []"
    and "passed (cu_position c) (flat t) < length (flat t)" and "walkable ops root"
  shows "outcome c (length (items_before es) + passed (cu_position c) (flat t))
    (xs @ take (passed (cu_position c) (flat t)) (flat t)) (seek_loop D tgt b A c False g)"
  using assms
proof (induction t arbitrary: c es g xs)
  case (Leaf s its iss)
  with seek_loop_leaf [of "\<lparr>se_tree = Leaf s its iss, se_index = 0, se_position = cu_position c\<rparr>" s its iss es c g xs]
  show ?case by simp
next
  case (Internal h s css cts)
  let ?e = "\<lparr>se_tree = Internal h s css cts, se_index = 0, se_position = cu_position c\<rparr>"
  have "\<And>t. t \<in> set cts \<Longrightarrow> wf_tree ops t" using Internal.prems(1) by simp
  with Internal.IH Internal.prems(2-9)
    seek_loop_children [where e = ?e and h = h and s = s and css = css and cts = cts and es = es and c = c
      and asc = False and g = g and xs = xs and ?i0.0 = 0 and k = "passed (cu_position c) (flat (Internal h s css cts))"]
  show ?case by (simp add: item_sums_def)
qed

text \<open>Leaving a subtree upwards, the search goes on among the items after it.\<close>

lemma seek_ascend:
  assumes "frames_ok ops D root t es" and "cu_stack c = es"
    and "cu_position c = position_of ops D (items_before es @ flat t)"
    and "mono_target D tgt b (cu_position c) (sums (items_after es))" and "R g xs []"
    and "k = passed (cu_position c) (items_after es)" and walk: "walkable ops root"
  shows "outcome c (length (items_before es @ flat t) + k) (xs @ take k (items_after es))
    (seek_loop D tgt b A c True g)"
  using assms(1-6)
proof (induction es arbitrary: t c g xs k)
  case Nil
  then have "seek_loop D tgt b A c True g = Some (c, g)"
    by (subst seek_loop.simps) simp
  moreover from Nil have "t = root" by simp
  ultimately show ?case using Nil by (auto simp: seek_done_def intro!: exI [of _ "[]"])
next
  case (Cons e es)
  from Cons.prems(1) obtain h s css cts where e: "se_tree e = Internal h s css cts" "se_index e < length cts"
      "t = cts ! se_index e" and fr: "frames_ok ops D root (se_tree e) es" by auto
  let ?i = "Suc (se_index e)"
  let ?rest = "concat (map flat (drop ?i cts))"
  have wfc: "\<And>t. t \<in> set cts \<Longrightarrow> wf_tree ops t"
    using frames_wf(1) [OF fr] walk by (simp add: e walkable_def)
  have tk: "items_before es @ concat (map flat (take ?i cts)) = items_before (e # es) @ flat t"
    using e by (simp add: take_Suc_conv_app_nth)
  have after: "items_after (e # es) = ?rest @ items_after es" using e by simp
  have mono: "mono_target D tgt b (cu_position c) (item_sums ops (drop ?i cts))"
      "mono_target D tgt b (foldl (dadd D) (cu_position c) (sums ?rest)) (sums (items_after es))"
    using mono_target_append [of D tgt b "cu_position c" "sums ?rest" "sums (items_after es)"] Cons.prems(4)
    by (auto simp: after item_sums_def simp del: items_after.simps)
  let ?k = "passed (cu_position c) ?rest"
  have round: "if ?k < length ?rest
    then outcome c (length (items_before es @ concat (map flat (take ?i cts))) + ?k)
      (xs @ take ?k ?rest) (seek_loop D tgt b A c True g)
    else \<exists>g'. seek_loop D tgt b A c True g =
        seek_loop D tgt b A (c\<lparr>cu_stack := es, cu_position := position_of ops D (items_before es @ concat (map flat cts))\<rparr>) True g' \<and>
      R g' (xs @ ?rest) []"
    using Cons.prems(2,3,5) tk mono(1) e wfc walk
    by (intro seek_loop_children [OF e(1) fr] seek_descend) simp_all
  show ?case
  proof (cases "?k < length ?rest")
    case True
    then have "k = ?k" using Cons.prems(6) after by (simp add: seek_len_append)
    with True round tk after show ?thesis by simp
  next
    case False
    then have all: "?k = length ?rest"
      using seek_len_le [of D tgt b "cu_position c" "sums ?rest"] by simp
    let ?q = "position_of ops D (items_before es @ concat (map flat cts))"
    have q: "?q = foldl (dadd D) (cu_position c) (sums ?rest)"
      using Cons.prems(3) tk [symmetric] by (simp add: position_of_def flip: foldl_append map_append concat_append)
    have k: "k = length ?rest + passed ?q (items_after es)"
      using Cons.prems(6) all by (simp add: after seek_len_append q del: items_after.simps)
    from round False obtain g' where g': "seek_loop D tgt b A c True g =
        seek_loop D tgt b A (c\<lparr>cu_stack := es, cu_position := ?q\<rparr>) True g'" "R g' (xs @ ?rest) []"
      by auto
    have "outcome c (length (items_before es @ flat (se_tree e)) + passed ?q (items_after es))
        ((xs @ ?rest) @ take (passed ?q (items_after es)) (items_after es)) (seek_loop D tgt b A c True g)"
      using Cons.IH [OF fr, of "c\<lparr>cu_stack := es, cu_position := ?q\<rparr>" g' "xs @ ?rest"] g' mono(2) q e(1) by simp
    moreover have "length (items_before es @ flat (se_tree e)) + passed ?q (items_after es) =
        length (items_before (e # es) @ flat t) + k"
      using k tk [symmetric] e(1) concat_append [of "map flat (take ?i cts)" "map flat (drop ?i cts)"]
      by (simp flip: map_append)
    ultimately have "outcome c (length (items_before (e # es) @ flat t) + k)
        ((xs @ ?rest) @ take (passed ?q (items_after es)) (items_after es)) (seek_loop D tgt b A c True g)"
      by (simp only:)
    then show ?thesis by (simp add: after k del: items_before.simps items_after.simps)
  qed
qed

lemma seek_loop_from_leaf:
  assumes "leaf_stack ops D root k (cu_stack c)" and pos: "cu_position c = position_of ops D (take k (flat root))"
    and mono: "mono_target D tgt b (cu_position c) (sums (drop k (flat root)))" and R: "R g xs []"
    and n: "n = passed (cu_position c) (drop k (flat root))" and walk: "walkable ops root"
  shows "outcome c (k + n) (xs @ take n (drop k (flat root))) (seek_loop D tgt b A c False g)"
  using assms(1)
proof (rule leaf_stack_item)
  show "wf_tree ops root" using walk by (simp add: walkable_def)
next
  fix e es s its
  assume e: "cu_stack c = e # es" "se_tree e = Leaf s its (sums its)" "se_index e < length its"
    "frames_ok ops D root (se_tree e) es" "k = length (items_before es) + se_index e"
    "drop k (flat root) = drop (se_index e) its @ items_after es"
    "take k (flat root) = items_before es @ take (se_index e) its"
  let ?rest = "drop (se_index e) its" and ?q = "position_of ops D (items_before es @ its)"
  let ?m = "passed (cu_position c) ?rest"
  have round: "if ?m < length ?rest
    then outcome c (length (items_before es @ take (se_index e) its) + ?m)
      (xs @ take ?m ?rest) (seek_loop D tgt b A c False g)
    else \<exists>g'. seek_loop D tgt b A c False g =
        seek_loop D tgt b A (c\<lparr>cu_stack := es, cu_position := ?q\<rparr>) True g' \<and> R g' (xs @ ?rest) []"
    using e pos R walk by (intro seek_loop_leaf [OF e(2) e(4)]) auto
  show ?thesis
  proof (cases "?m < length ?rest")
    case True
    then have "n = ?m" using n e(6) by (simp add: seek_len_append)
    with True round e show ?thesis by simp
  next
    case False
    then have all: "?m = length ?rest"
      using seek_len_le [of D tgt b "cu_position c" "sums ?rest"] by simp
    have q: "?q = foldl (dadd D) (cu_position c) (sums ?rest)"
      by (simp add: pos e(7) position_of_def flip: foldl_append map_append)
    have nn: "n = length ?rest + passed ?q (items_after es)"
      using n all e(6) by (simp add: seek_len_append q)
    have mono2: "mono_target D tgt b ?q (sums (items_after es))"
      using mono mono_target_append [of D tgt b _ "sums ?rest"] by (simp add: e(6) q)
    from round False obtain g' where g': "seek_loop D tgt b A c False g =
        seek_loop D tgt b A (c\<lparr>cu_stack := es, cu_position := ?q\<rparr>) True g'" "R g' (xs @ ?rest) []"
      by auto
    have "outcome c (length (items_before es @ its) + passed ?q (items_after es))
        ((xs @ ?rest) @ take (passed ?q (items_after es)) (items_after es)) (seek_loop D tgt b A c False g)"
      using seek_ascend [OF e(4), of "c\<lparr>cu_stack := es, cu_position := ?q\<rparr>" g' "xs @ ?rest"] g' mono2 e(2) walk by simp
    moreover have "length (items_before es @ its) + passed ?q (items_after es) = k + n"
      using nn e(3,5) by simp
    ultimately have "outcome c (k + n)
        ((xs @ ?rest) @ take (passed ?q (items_after es)) (items_after es)) (seek_loop D tgt b A c False g)"
      by (simp only:)
    then show ?thesis by (simp add: e(6) nn)
  qed
qed

lemma seek_loop_from_root:
  assumes "cu_stack c = [\<lparr>se_tree = root, se_index = 0, se_position = dzero D\<rparr>]" and "cu_position c = dzero D"
    and mono: "mono_target D tgt b (dzero D) (sums (flat root))" and R: "R g xs []"
    and n: "n = passed (dzero D) (flat root)" and walk: "walkable ops root"
  shows "outcome c n (xs @ take n (flat root)) (seek_loop D tgt b A c False g)"
proof -
  let ?e = "\<lparr>se_tree = root, se_index = 0, se_position = dzero D\<rparr>"
  have fr: "frames_ok ops D root (se_tree ?e) []" by simp
  have round: "if n < length (flat root)
    then outcome c n (xs @ take n (flat root)) (seek_loop D tgt b A c False g)
    else \<exists>g'. seek_loop D tgt b A c False g =
        seek_loop D tgt b A (c\<lparr>cu_stack := [], cu_position := position_of ops D (flat root)\<rparr>) True g' \<and>
      R g' (xs @ flat root) []"
  proof (cases root)
    case (Leaf s its iss)
    with assms seek_loop_leaf [of "\<lparr>se_tree = Leaf s its iss, se_index = 0, se_position = dzero D\<rparr>" s its iss "[]" c g xs n]
    show ?thesis by (cases "n < length (flat root)") simp_all
  next
    case (Internal h s css cts)
    then have "\<And>t. t \<in> set cts \<Longrightarrow> wf_tree ops t" using walk by (simp add: walkable_def)
    with assms Internal seek_descend
      seek_loop_children [where e = "\<lparr>se_tree = Internal h s css cts, se_index = 0, se_position = dzero D\<rparr>" and h = h and s = s and css = css and cts = cts and es = "[]" and c = c
        and asc = False and g = g and xs = xs and ?i0.0 = 0 and k = n]
    show ?thesis by (cases "n < length (flat root)") (simp_all add: item_sums_def)
  qed
  show ?thesis
  proof (cases "n < length (flat root)")
    case False
    then have all: "n = length (flat root)" using n seek_len_le [of D tgt b "dzero D" "sums (flat root)"] by simp
    from round False obtain g' where g': "seek_loop D tgt b A c False g =
        seek_loop D tgt b A (c\<lparr>cu_stack := [], cu_position := position_of ops D (flat root)\<rparr>) True g'"
        "R g' (xs @ flat root) []" by auto
    with all walk seek_ascend [of root "[]" "c\<lparr>cu_stack := [], cu_position := position_of ops D (flat root)\<rparr>" g' "xs @ flat root"]
    show ?thesis by (simp add: mono_target_def)
  qed (use round in simp)
qed

end

text \<open>A cursor that can be moved from index \<open>k\<close>: at rest there, or new, at the start.\<close>

definition cursor_ready ::
  "('t, 's) item_ops \<Rightarrow> ('s, 'd) dim_ops \<Rightarrow> ('t, 's) node \<Rightarrow> nat \<Rightarrow> ('t, 's, 'd) cursor \<Rightarrow> bool" where
  "cursor_ready ops D root k c \<longleftrightarrow> cursor_at ops D root k c \<or> cursor_fresh D root c \<and> k = 0"

lemma cursor_ready_position:
  "cursor_ready ops D root k c \<Longrightarrow> cu_position c = position_of ops D (take k (flat root))"
  by (auto simp: cursor_ready_def cursor_at_def cursor_fresh_def)

context cursor_seeking
begin

lemma seek_start:
  assumes ready: "cursor_ready ops D root k c" and R: "R g xs []"
    and mono: "mono_target D tgt b (cu_position c) (sums (drop k (flat root)))"
    and n: "n = passed (cu_position c) (drop k (flat root))" and walk: "walkable ops root"
  shows "\<exists>c1. (if \<not> cu_did_seek c
            then do { stk \<leftarrow> push_entry \<lparr>se_tree = cu_tree c, se_index = 0, se_position = dzero D\<rparr> (cu_stack c);
                      Some (c\<lparr>cu_did_seek := True, cu_stack := stk\<rparr>) }
            else Some c) = Some c1 \<and> cu_tree c1 = root \<and> cu_did_seek c1 \<and>
    outcome c1 (k + n) (xs @ take n (drop k (flat root))) (seek_loop D tgt b A c1 False g)"
  using ready unfolding cursor_ready_def
proof (elim disjE)
  assume c: "cursor_at ops D root k c"
  show ?thesis
  proof (cases "k < length (flat root)")
    case True
    then show ?thesis
      using c seek_loop_from_leaf [OF _ _ mono R n walk] by (auto simp: cursor_at_def)
  next
    case False
    with c have "cu_stack c = []" "cu_did_seek c" "cu_tree c = root" "k = length (flat root)"
      by (auto simp: cursor_at_def)
    moreover from this have "seek_loop D tgt b A c False g = Some (c, g)"
      by (subst seek_loop.simps) simp
    ultimately show ?thesis
      using c R n by (auto simp: seek_done_def cursor_at_def intro!: exI [of _ "[]"])
  qed
next
  assume "cursor_fresh D root c \<and> k = 0"
  then show ?thesis
    using mono R n walk
      seek_loop_from_root [of "c\<lparr>cu_did_seek := True, cu_stack := [\<lparr>se_tree = root, se_index = 0, se_position = dzero D\<rparr>]\<rparr>" g xs n]
    by (auto simp: cursor_fresh_def push_entry_def STACK_CAPACITY_def)
qed

theorem seek_internal_correct:
  assumes ready: "cursor_ready ops D root k c" and R: "R g xs []"
    and mono: "mono_target D tgt b (cu_position c) (sums (drop k (flat root)))"
    and ge: "tgt (cu_position c) \<noteq> Less"
    and n: "n = k + passed (cu_position c) (drop k (flat root))" and walk: "walkable ops root"
  shows "\<exists>c' g'. seek_internal D tgt b A c g =
      Some (c', g', tgt (position_of ops D (take (if b = Left then Suc n else n) (flat root))) = Equal) \<and>
    cursor_at ops D root n c' \<and> R g' (xs @ take (n - k) (drop k (flat root))) []"
proof -
  have wf_root: "wf_tree ops root" using walk by (simp add: walkable_def)
  obtain c1 where c1: "(if \<not> cu_did_seek c
            then do { stk \<leftarrow> push_entry \<lparr>se_tree = cu_tree c, se_index = 0, se_position = dzero D\<rparr> (cu_stack c);
                      Some (c\<lparr>cu_did_seek := True, cu_stack := stk\<rparr>) }
            else Some c) = Some c1" "cu_tree c1 = root" "cu_did_seek c1"
      "outcome c1 n (xs @ take (n - k) (drop k (flat root))) (seek_loop D tgt b A c1 False g)"
    using seek_start [OF ready R mono refl walk] by (auto simp: n)
  then obtain stk g' where loop: "seek_loop D tgt b A c1 False g =
        Some (c1\<lparr>cu_stack := stk, cu_position := position_of ops D (take n (flat root))\<rparr>, g')"
      "if n < length (flat root) then leaf_stack ops D root n stk else stk = []"
      "R g' (xs @ take (n - k) (drop k (flat root))) []"
    by (auto simp: seek_done_def)
  let ?c = "c1\<lparr>cu_stack := stk, cu_position := position_of ops D (take n (flat root)), cu_at_end := (stk = [])\<rparr>"
  have "k \<le> length (flat root)" using ready by (auto simp: cursor_ready_def cursor_at_def)
  then have "n \<le> length (flat root)"
    using n seek_len_le [of D tgt b "cu_position c" "sums (drop k (flat root))"] by simp
  moreover from loop(2) have "n < length (flat root) \<Longrightarrow> stk \<noteq> []" by (auto simp: leaf_stack_def)
  ultimately have at: "cursor_at ops D root n ?c"
    using c1(2,3) loop(2) by (auto simp: cursor_at_def)
  obtain y where y: "cursor_item_summary ?c = Some y"
    using cursor_item_summary_at [OF at wf_root] by blast
  have "(case y of None \<Rightarrow> cu_position ?c | Some s \<Rightarrow> dadd D (cu_position ?c) s) =
      position_of ops D (take (Suc n) (flat root))"
    using cursor_end_at [OF at wf_root] y by (simp add: cursor_end_def)
  with y have "seek_internal D tgt b A c g =
      Some (?c, g', tgt (position_of ops D (take (if b = Left then Suc n else n) (flat root))) = Equal)"
    using ge by (cases y) (simp_all add: seek_internal_def c1(1) loop(1) Let_def)
  with at loop(3) show ?thesis by blast
qed

end

section \<open>The three aggregates meet the contract\<close>

interpretation nothing: seek_aggregate_laws ops unit_aggregate "\<lambda>_ _ _. True" H for ops H
  by unfold_locales (auto simp: unit_aggregate_def)

text \<open>A slice under construction: a tree of the items passed and the open leaf.\<close>

definition slice_holds :: "('t, 's) item_ops \<Rightarrow> ('t, 's) slice_state \<Rightarrow> 't list \<Rightarrow> 't list \<Rightarrow> bool" where
  "slice_holds ops g xs buf \<longleftrightarrow>
     wf_tree ops (sl_tree g) \<and> flat (sl_tree g) = xs \<and> sl_items g = buf \<and>
     sl_sums g = map (ssummary ops) buf \<and> sl_summary g = sum_of ops (sl_sums g)"

text \<open>
  The nodes of a tree may be underfull, so the number of appends bounds the height of a slice only
  through the number of its items.
\<close>

definition low_slice_holds :: "('t, 's) item_ops \<Rightarrow> nat \<Rightarrow> ('t, 's) slice_state \<Rightarrow> 't list \<Rightarrow> 't list \<Rightarrow> bool" where
  "low_slice_holds ops H g xs buf \<longleftrightarrow> slice_holds ops g xs buf \<and> height (sl_tree g) \<le> H + length xs"

lemma slice_holds_new:
  "slice_holds ops \<lparr>sl_tree = tree_new ops, sl_items = [], sl_sums = [], sl_summary = szero ops\<rparr> [] []"
  by (simp add: slice_holds_def sum_of_def)

context summary_laws
begin

lemma slice_push_tree_holds:
  assumes "slice_holds ops g xs []" and "wf_tree ops t"
  shows "\<exists>g'. slice_push_tree ops g t (summary t) = Some g' \<and> slice_holds ops g' (xs @ flat t) []"
  using tree_append_correct [of "sl_tree g" t] assms
  by (auto simp: slice_push_tree_def slice_holds_def)

lemma slice_push_item_holds:
  assumes "slice_holds ops g xs buf" and "length buf < 12"
  shows "\<exists>g'. slice_push_item ops g x (ssummary ops x) = Some g' \<and> slice_holds ops g' xs (buf @ [x])"
  using assms by (simp add: slice_push_item_def slice_holds_def array_vec_Some sum_of_append)

lemma slice_end_leaf_holds:
  assumes "slice_holds ops g xs buf" and "length buf \<le> 12"
  shows "\<exists>g'. slice_end_leaf ops g = Some g' \<and> slice_holds ops g' (xs @ buf) []"
proof -
  let ?l = "Leaf (sl_summary g) (sl_items g) (sl_sums g)"
  have "wf_tree ops ?l" using assms by (simp add: slice_holds_def TREE_BASE_def)
  with tree_append_correct [of "sl_tree g" ?l] assms(1) obtain v
    where "tree_append ops (sl_tree g) ?l = Some v" "wf_tree ops v" "flat v = xs @ buf"
    by (auto simp: slice_holds_def)
  then show ?thesis by (simp add: slice_end_leaf_def slice_holds_def sum_of_def)
qed

lemma low_slicing: "seek_aggregate_laws ops (slice_aggregate ops) (low_slice_holds ops H) H"
proof
  fix g xs t
  assume R: "low_slice_holds ops H g xs []" and t: "wf_tree ops t" "\<not> is_empty t" "height t < H"
  then have wf: "wf_tree ops (sl_tree g)" by (simp add: low_slice_holds_def slice_holds_def)
  from flat_nonempty [OF t(1,2)] obtain y ys where "flat t = y # ys" by (cases "flat t") auto
  with tree_append_correct [OF wf t(1)] R t(3) show "\<exists>g'. agg_push_tree (slice_aggregate ops) g t (summary t) = Some g' \<and> low_slice_holds ops H g' (xs @ flat t) []"
    by (auto simp: slice_aggregate_def slice_push_tree_def low_slice_holds_def slice_holds_def)
next
  fix g xs buf x
  assume "low_slice_holds ops H g xs buf" "length buf < 12"
  then show "\<exists>g'. agg_push_item (slice_aggregate ops) g x (ssummary ops x) = Some g' \<and> low_slice_holds ops H g' xs (buf @ [x])"
    by (simp add: slice_aggregate_def low_slice_holds_def slice_push_item_def slice_holds_def array_vec_Some sum_of_append)
next
  fix g xs buf
  assume R: "low_slice_holds ops H g xs buf" and buf: "length buf \<le> 12"
  show "\<exists>g'. agg_end_leaf (slice_aggregate ops) g = Some g' \<and> low_slice_holds ops H g' (xs @ buf) []"
  proof -
    let ?l = "Leaf (sl_summary g) (sl_items g) (sl_sums g)"
    have l: "wf_tree ops ?l" "wf_tree ops (sl_tree g)" "sl_items g = buf" and low: "height (sl_tree g) \<le> H + length xs"
      using R buf by (auto simp: low_slice_holds_def slice_holds_def TREE_BASE_def)
    obtain g' where g': "slice_end_leaf ops g = Some g'" "slice_holds ops g' (xs @ buf) []"
      using slice_end_leaf_holds [OF _ buf] R by (auto simp: low_slice_holds_def)
    have "height (sl_tree g') \<le> H + length (xs @ buf)"
    proof (cases "buf = []")
      case True
      with g'(1) l(3) low show ?thesis by (auto simp: slice_end_leaf_def tree_append_def split: if_splits)
    next
      case False
      then obtain y ys where "buf = y # ys" by (cases buf) auto
      with tree_append_correct [OF l(2,1)] g'(1) low show ?thesis by (auto simp: slice_end_leaf_def)
    qed
    with g' show ?thesis by (auto simp: slice_aggregate_def low_slice_holds_def)
  qed
qed

end

sublocale summary_laws \<subseteq> slicing: seek_aggregate_laws ops "slice_aggregate ops" "slice_holds ops" H for H
  by unfold_locales
    (simp_all add: slice_aggregate_def slice_push_tree_holds slice_push_item_holds slice_end_leaf_holds)

definition summary_holds :: "('t, 's) item_ops \<Rightarrow> ('s, 'e) dim_ops \<Rightarrow> 'e \<Rightarrow> 't list \<Rightarrow> 't list \<Rightarrow> bool" where
  "summary_holds ops E g xs buf \<longleftrightarrow> g = position_of ops E (xs @ buf)"

sublocale dimension_laws \<subseteq> summing: seek_aggregate_laws ops "summary_aggregate D" "summary_holds ops D" H for H
  by unfold_locales
    (simp_all add: summary_aggregate_def summary_holds_def position_of_append dadd_summary)

section \<open>Seeking, slicing and summing\<close>

context dimension_laws
begin

theorem cursor_seek_forward_correct:
  assumes "cursor_ready ops D t k c" and "walkable ops t"
    and "mono_target D tgt b (cu_position c) (map (ssummary ops) (drop k (flat t)))"
    and "tgt (cu_position c) \<noteq> Less"
    and n: "n = k + seek_len D tgt b (cu_position c) (map (ssummary ops) (drop k (flat t)))"
  shows "\<exists>c'. cursor_seek_forward D tgt b c =
      Some (c', tgt (position_of ops D (take (if b = Left then Suc n else n) (flat t))) = Equal) \<and>
    cursor_at ops D t n c'"
proof -
  have "cursor_seeking ops D unit_aggregate (\<lambda>_ _ _. True) (height t) t" by unfold_locales simp
  from cursor_seeking.seek_internal_correct
    [where g = "()" and xs = "[]", OF this assms(1) TrueI assms(3,4) n assms(2)]
  show ?thesis by (auto simp: cursor_seek_forward_def)
qed

theorem cursor_seek_correct:
  assumes "cu_tree c = t" and "walkable ops t"
    and "mono_target D tgt b (dzero D) (map (ssummary ops) (flat t))" and "tgt (dzero D) \<noteq> Less"
    and n: "n = seek_len D tgt b (dzero D) (map (ssummary ops) (flat t))"
  shows "\<exists>c'. cursor_seek D tgt b c =
      Some (c', tgt (position_of ops D (take (if b = Left then Suc n else n) (flat t))) = Equal) \<and>
    cursor_at ops D t n c'"
proof -
  have "cursor_ready ops D t 0 (cursor_reset D c)"
    using assms(1) by (simp add: cursor_ready_def cursor_fresh_reset)
  from cursor_seek_forward_correct [OF this assms(2), of tgt b n] assms(3,4) n
  show ?thesis
    using cursor_ready_position [OF \<open>cursor_ready ops D t 0 (cursor_reset D c)\<close>]
    by (simp add: cursor_seek_def cursor_seek_forward_def)
qed

theorem cursor_slice_correct:
  assumes "cursor_ready ops D t k c" and "walkable ops t"
    and "mono_target D tgt b (cu_position c) (map (ssummary ops) (drop k (flat t)))"
    and "tgt (cu_position c) \<noteq> Less"
    and n: "n = k + seek_len D tgt b (cu_position c) (map (ssummary ops) (drop k (flat t)))"
  shows "\<exists>c' u. cursor_slice ops D tgt b c = Some (c', u) \<and> cursor_at ops D t n c' \<and>
    wf_tree ops u \<and> flat u = take (n - k) (drop k (flat t))"
proof -
  have "cursor_seeking ops D (slice_aggregate ops) (slice_holds ops) (height t) t" by unfold_locales simp
  from cursor_seeking.seek_internal_correct [OF this assms(1) slice_holds_new assms(3,4) n assms(2)]
  show ?thesis by (auto simp: cursor_slice_def slice_holds_def)
qed

theorem cursor_slice_height:
  assumes "cursor_ready ops D t k c" and "walkable ops t"
    and "mono_target D tgt b (cu_position c) (map (ssummary ops) (drop k (flat t)))"
    and "tgt (cu_position c) \<noteq> Less" and "cursor_slice ops D tgt b c = Some (c', u)"
  shows "height u \<le> height t + length (flat u)"
proof -
  have "cursor_seeking ops D (slice_aggregate ops) (low_slice_holds ops (height t)) (height t) t"
    by (intro cursor_seeking.intro dimension_laws_axioms low_slicing cursor_seeking_axioms.intro order.refl)
  moreover have "low_slice_holds ops (height t) \<lparr>sl_tree = tree_new ops, sl_items = [], sl_sums = [], sl_summary = szero ops\<rparr> [] []"
    using slice_holds_new [of ops] by (simp add: low_slice_holds_def tree_new_def)
  ultimately show ?thesis
    using cursor_seeking.seek_internal_correct [OF _ assms(1) _ assms(3,4) refl assms(2)] assms(5)
    by (fastforce simp: cursor_slice_def low_slice_holds_def slice_holds_def)
qed

lemma summing_laws: "seek_aggregate_laws ops (summary_aggregate D) (summary_holds ops D) H" ..

lemma end_target_past: "seek_len D end_target b p ss = length ss"
  by (induction ss arbitrary: p) (simp_all add: seek_len_Cons end_target_def seek_past_def)

lemma end_target_mono: "mono_target D end_target b p ss"
  by (simp add: mono_target_def end_target_def seek_past_def sorted_wrt_iff_nth_less)

theorem cursor_suffix_correct:
  assumes "cursor_ready ops D t k c" and "walkable ops t"
  shows "\<exists>c' u. cursor_suffix ops D c = Some (c', u) \<and> cursor_at ops D t (length (flat t)) c' \<and>
    wf_tree ops u \<and> flat u = drop k (flat t)"
proof -
  have k: "k \<le> length (flat t)" using assms(1) by (auto simp: cursor_ready_def cursor_at_def)
  with cursor_slice_correct [OF assms end_target_mono [where b = Right]]
  show ?thesis by (auto simp: cursor_suffix_def end_target_past end_target_def)
qed

end

text \<open>The dimension that a summary adds up need not be the one the cursor moves along.\<close>

theorem cursor_summary_correct:
  assumes "dimension_laws ops D" and "dimension_laws ops E"
    and "cursor_ready ops D t k c" and "walkable ops t"
    and "mono_target D tgt b (cu_position c) (map (ssummary ops) (drop k (flat t)))"
    and "tgt (cu_position c) \<noteq> Less"
    and n: "n = k + seek_len D tgt b (cu_position c) (map (ssummary ops) (drop k (flat t)))"
  shows "\<exists>c'. cursor_summary D E tgt b c = Some (c', position_of ops E (take (n - k) (drop k (flat t)))) \<and>
    cursor_at ops D t n c'"
proof -
  from assms(1) have "cursor_seeking ops D (summary_aggregate E) (summary_holds ops E) (height t) t"
    by (intro cursor_seeking.intro dimension_laws.summing_laws [OF assms(2)] cursor_seeking_axioms.intro order.refl)
  from cursor_seeking.seek_internal_correct
    [where g = "dzero E" and xs = "[]", OF this assms(3) _ assms(5,6) n assms(4)]
  show ?thesis by (auto simp: cursor_summary_def summary_holds_def)
qed

end
