(* ===== verification/Cursor_Step.thy ===== *)
theory Cursor_Step
  imports Cursor_Seek
begin

text \<open>
  Correctness of stepping (\<open>cursor.rs\<close>): \<open>next\<close>, \<open>prev\<close>, their filtered forms \<open>search_forward\<close> and
  \<open>search_backward\<close>, the peeks at the neighbouring items and the iterators built on them. A filter
  prunes whole subtrees, which is right when it accepts a sum as soon as it accepts a part of it.
\<close>

section \<open>Matching items\<close>

text \<open>The index of the first match, and one more than the index of the last match (0 for none).\<close>

definition first_match :: "('a \<Rightarrow> bool) \<Rightarrow> 'a list \<Rightarrow> nat" where
  "first_match P xs = length (takeWhile (\<lambda>x. \<not> P x) xs)"

definition last_match :: "('a \<Rightarrow> bool) \<Rightarrow> 'a list \<Rightarrow> nat" where
  "last_match P xs = length (dropWhile (\<lambda>x. \<not> P x) (rev xs))"

lemma first_match_le: "first_match P xs \<le> length xs"
  by (simp add: first_match_def length_takeWhile_le)

lemma first_match_Nil [simp]: "first_match P [] = 0"
  by (simp add: first_match_def)

lemma first_match_none: "first_match P xs = length xs \<longleftrightarrow> (\<forall>x \<in> set xs. \<not> P x)"
  unfolding first_match_def
  by (metis (full_types) set_takeWhileD takeWhile_eq_all_conv take_all_iff takeWhile_eq_take order_refl)

lemma first_match_noneI: "\<not> first_match P xs < length xs \<Longrightarrow> \<forall>x \<in> set xs. \<not> P x"
  using first_match_le [of P xs] first_match_none [of P xs] by simp

lemma concat_drop_split:
  "concat (map g (drop i xs)) = concat (map g (take n (drop i xs))) @ concat (map g (drop (i + n) xs))"
  by (metis append_take_drop_id concat_append drop_drop map_append add.commute)

lemma first_match_append:
  "first_match P (xs @ ys) =
    (if first_match P xs = length xs then length xs + first_match P ys else first_match P xs)"
  by (induction xs) (auto simp: first_match_def)

lemma first_match_nth: "first_match P xs < length xs \<Longrightarrow> P (xs ! first_match P xs)"
  using nth_length_takeWhile [of "\<lambda>x. \<not> P x" xs] by (simp add: first_match_def)

lemma last_match_le: "last_match P xs \<le> length xs"
  unfolding last_match_def by (metis length_dropWhile_le length_rev)

lemma last_match_append:
  "last_match P (xs @ ys) =
    (if last_match P ys = 0 then last_match P xs else length xs + last_match P ys)"
  unfolding last_match_def by (auto simp: dropWhile_append)

lemma last_match_Nil [simp]: "last_match P [] = 0"
  by (simp add: last_match_def)

lemma last_match_none: "last_match P xs = 0 \<longleftrightarrow> (\<forall>x \<in> set xs. \<not> P x)"
  by (simp add: last_match_def dropWhile_eq_Nil_conv)

lemma last_match_snoc: "last_match P (xs @ [x]) = (if P x then Suc (length xs) else last_match P xs)"
  by (simp add: last_match_def)

lemma first_match_True [simp]: "first_match (\<lambda>_. True) xs = 0"
  by (cases xs) (simp_all add: first_match_def)

lemma last_match_True [simp]: "last_match (\<lambda>_. True) xs = length xs"
  by (cases xs rule: rev_cases) (simp_all add: last_match_def)

lemma skip_rejected_spec:
  "skip_rejected D f i p p ss =
    (i + first_match f ss, foldl (dadd D) p (take (first_match f ss) ss),
     foldl (dadd D) p (take (first_match f ss) ss))"
  by (induction ss arbitrary: i p) (auto simp: first_match_def)

lemma skip_rejected_index [simp]: "fst (skip_rejected D f i ep p ss) = i + first_match f ss"
  by (induction ss arbitrary: i ep p) (auto simp: first_match_def)

lemma skip_rejected_position [simp]:
  "snd (snd (skip_rejected D f i ep p ss)) = foldl (dadd D) p (take (first_match f ss) ss)"
  by (induction ss arbitrary: i ep p) (auto simp: first_match_def)

lemma skip_rejected_entry [simp]:
  "fst (snd (skip_rejected D f i ep p ss)) = foldl (dadd D) ep (take (first_match f ss) ss)"
  by (induction ss arbitrary: i ep p) (auto simp: first_match_def)

section \<open>Filters on summaries\<close>

text \<open>A cursor that has been moved back before the first item.\<close>

definition cursor_before :: "('s, 'd) dim_ops \<Rightarrow> ('t, 's) node \<Rightarrow> ('t, 's, 'd) cursor \<Rightarrow> bool" where
  "cursor_before D root c \<longleftrightarrow>
     cu_tree c = root \<and> cu_did_seek c \<and> cu_stack c = [] \<and> cu_position c = dzero D \<and>
     cu_at_end c = is_empty root"

text \<open>Where a forward step starts to look: after the current item, or at the first.\<close>

definition forward_start ::
  "('t, 's) item_ops \<Rightarrow> ('s, 'd) dim_ops \<Rightarrow> ('t, 's) node \<Rightarrow> nat \<Rightarrow> ('t, 's, 'd) cursor \<Rightarrow> bool" where
  "forward_start ops D root m c \<longleftrightarrow>
     (\<exists>k. cursor_at ops D root k c \<and> m = min (Suc k) (length (flat root))) \<or>
     (cursor_fresh D root c \<or> cursor_before D root c) \<and> m = 0"

text \<open>Where a backward step starts to look: before the current item, or at the last.\<close>

definition backward_start ::
  "('t, 's) item_ops \<Rightarrow> ('s, 'd) dim_ops \<Rightarrow> ('t, 's) node \<Rightarrow> nat \<Rightarrow> ('t, 's, 'd) cursor \<Rightarrow> bool" where
  "backward_start ops D root m c \<longleftrightarrow>
     cursor_at ops D root m c \<or> cursor_fresh D root c \<and> m = length (flat root) \<or>
     cursor_before D root c \<and> m = 0"

locale filtered_cursor = dimension_laws ops D
  for ops :: "('t, 's) item_ops" and D :: "('s, 'd) dim_ops" +
  fixes f :: "'s \<Rightarrow> bool" and root :: "('t, 's) node"
  assumes filter_sum: "f a \<or> f b \<Longrightarrow> f (sadd ops a b)"
begin

abbreviation accepts :: "'t \<Rightarrow> bool" where
  "accepts x \<equiv> f (ssummary ops x)"

lemma filter_sum_of: "s \<in> set ss \<Longrightarrow> f s \<Longrightarrow> f (sum_of ops ss)"
proof (induction ss rule: rev_induct)
  case (snoc a ss)
  show ?case
  proof (cases "ss = []")
    case False
    with snoc have "f (sum_of ops ss) \<or> f a" by auto
    then show ?thesis by (simp add: sum_of_append filter_sum)
  qed (use snoc in simp)
qed simp

lemma filter_prunes:
  assumes "wf_tree ops t" and "\<not> f (summary t)"
  shows "\<forall>x \<in> set (flat t). \<not> accepts x"
  using assms(2) filter_sum_of [of _ "map (ssummary ops) (flat t)"] wf_summary [OF assms(1)] by auto

lemma filter_prunes_children:
  assumes "children_ok ops h cts" and "j \<le> first_match f (map summary cts)"
  shows "\<forall>x \<in> set (concat (map flat (take j cts))). \<not> accepts x"
proof
  fix x assume "x \<in> set (concat (map flat (take j cts)))"
  then obtain t where t: "t \<in> set (take j cts)" "x \<in> set (flat t)" by auto
  from t(1) assms(2) have "summary t \<in> set (take j (map summary cts))" by (simp add: take_map)
  with assms(2) have "summary t \<in> set (takeWhile (\<lambda>s. \<not> f s) (map summary cts))"
    unfolding first_match_def by (metis set_take_subset_set_take subsetD takeWhile_eq_take)
  then have "\<not> f (summary t)" by (auto dest: set_takeWhileD)
  moreover have "wf_tree ops t" using t(1) assms(1) by (auto simp: children_ok_def dest: in_set_takeD)
  ultimately show "\<not> accepts x" using filter_prunes t(2) by blast
qed

lemma position_of_children:
  assumes "children_ok ops h cts"
  shows "foldl (dadd D) p (map summary cts) = foldl (dadd D) p (item_sums ops cts)"
  using assms by (induction cts arbitrary: p) (auto simp: dadd_summary)

section \<open>Forward\<close>

text \<open>The outcome of the forward loop on the items \<open>ys\<close> that follow the items \<open>base\<close>.\<close>

definition forward_to where
  "forward_to c es base ys r \<longleftrightarrow>
     (let m = first_match accepts ys in
      if m < length ys
      then \<exists>stk. r = Some (c\<lparr>cu_stack := stk, cu_position := position_of ops D (base @ take m ys)\<rparr>) \<and>
             leaf_stack ops D root (length base + m) stk
      else r = forward_loop D f (c\<lparr>cu_stack := es, cu_position := position_of ops D (base @ ys)\<rparr>) False)"

lemma forward_to_update [simp]:
  "forward_to (c\<lparr>cu_stack := stk, cu_position := p\<rparr>) es base ys r = forward_to c es base ys r"
  by (simp add: forward_to_def)

lemma forward_to_append:
  assumes "\<forall>y \<in> set ys. \<not> accepts y" and "forward_to c es (base @ ys) zs r"
  shows "forward_to c es base (ys @ zs) r"
proof -
  from assms(1) have "first_match accepts ys = length ys" by (simp add: first_match_none)
  with assms(2) show ?thesis by (auto simp: forward_to_def first_match_append Let_def add.assoc)
qed

lemma forward_to_found:
  assumes "first_match accepts ys < length ys" and "forward_to c es' base ys r"
  shows "forward_to c es base (ys @ zs) r"
  using assms by (auto simp: forward_to_def first_match_append Let_def)

lemma forward_leaf:
  assumes e: "se_tree e = Leaf s its iss" and fr: "frames_ok ops D root (se_tree e) es"
    and stk: "cu_stack c = e # es"
    and i0: "i0 = (if d then se_index e else se_index e + 1)" "i0 \<le> length its"
    and pos: "cu_position c = position_of ops D (items_before es @ take (se_index e) its)"
    and wf: "wf_tree ops root"
  shows "forward_to c es (items_before es @ take i0 its) (drop i0 its) (forward_loop D f c d)"
proof -
  have iss: "iss = map (ssummary ops) its" using frames_wf(1) [OF fr wf] by (simp add: e)
  then have len: "length iss = length its" by simp
  have req: "d \<or> se_index e < length its" using i0 by (cases d) auto
  let ?m = "first_match accepts (drop i0 its)"
  let ?p = "position_of ops D (items_before es @ take i0 its)"
  have m: "first_match f (drop i0 iss) = ?m" by (simp add: iss first_match_def drop_map takeWhile_map comp_def)
  have p: "(if d then cu_position c else dadd D (cu_position c) (iss ! se_index e)) = ?p"
    using i0 by (auto simp: pos iss take_Suc_conv_app_nth position_of_append)
  have q: "foldl (dadd D) ?p (take ?m (drop i0 iss)) =
      position_of ops D (items_before es @ take i0 its @ take ?m (drop i0 its))"
    by (simp add: iss drop_map take_map position_of_append)
  have q_all: "foldl (dadd D) ?p (drop i0 iss) = position_of ops D (items_before es @ its)"
    by (simp add: iss drop_map flip: position_of_append)
  let ?ep = "if d then se_position e else dadd D (se_position e) (iss ! se_index e)"
  have step: "forward_loop D f c d =
      (if i0 + ?m < length its
       then Some (c\<lparr>cu_stack := e\<lparr>se_index := i0 + ?m, se_position := foldl (dadd D) ?ep (take ?m (drop i0 iss))\<rparr> # es,
                    cu_position := position_of ops D (items_before es @ take i0 its @ take ?m (drop i0 its))\<rparr>)
       else forward_loop D f (c\<lparr>cu_stack := es,
              cu_position := position_of ops D (items_before es @ take i0 its @ take ?m (drop i0 its))\<rparr>) False)"
  proof (cases d)
    case True
    then have "se_index e = i0" "cu_position c = ?p" using i0(1) p by simp_all
    with True show ?thesis
      by (subst forward_loop.simps) (simp add: stk e Let_def m q q_all len)
  next
    case False
    then have "Suc (se_index e) = i0" "dadd D (cu_position c) (iss ! se_index e) = ?p" using i0(1) p by simp_all
    with False req show ?thesis
      by (subst forward_loop.simps) (simp add: stk e Let_def m q q_all len)
  qed
  show ?thesis
  proof (cases "?m < length (drop i0 its)")
    case True
    then have "leaf_stack ops D root (length (items_before es @ take i0 its) + ?m)
        (e\<lparr>se_index := i0 + ?m, se_position := x\<rparr> # es)" for x
      using fr e i0(2) by (auto simp: leaf_stack_def)
    with True show ?thesis by (auto simp: forward_to_def step Let_def)
  next
    case False
    then have "?m = length (drop i0 its)" using first_match_le [of accepts "drop i0 its"] by simp
    then show ?thesis by (auto simp: forward_to_def step Let_def)
  qed
qed

text \<open>One round at an internal entry: the children up to the first accepted summary are skipped.\<close>

lemma forward_round:
  assumes e: "se_tree e = Internal h s css cts" and fr: "frames_ok ops D root (se_tree e) es"
    and stk: "cu_stack c = e # es"
    and i0: "i0 = (if d then se_index e else se_index e + 1)" "i0 \<le> length cts"
    and pos: "cu_position c = position_of ops D (items_before es @ concat (map flat (take i0 cts)))"
    and epos: "d \<Longrightarrow> se_position e = cu_position c" and walk: "walkable ops root"
    and m: "m = first_match f (map summary (drop i0 cts))"
  defines "q \<equiv> position_of ops D (items_before es @ concat (map flat (take (i0 + m) cts)))"
  shows "if i0 + m < length cts
    then frames_ok ops D root (cts ! (i0 + m)) (e\<lparr>se_index := i0 + m, se_position := q\<rparr> # es) \<and>
      forward_loop D f c d = forward_loop D f
        (c\<lparr>cu_stack := \<lparr>se_tree = cts ! (i0 + m), se_index = 0, se_position = q\<rparr> #
             e\<lparr>se_index := i0 + m, se_position := q\<rparr> # es, cu_position := q\<rparr>) True
    else forward_loop D f c d = forward_loop D f (c\<lparr>cu_stack := es, cu_position := q\<rparr>) False"
proof -
  have wf: "wf_tree ops root" and sh: "shallow root" using walk by (auto simp: walkable_def)
  have ok: "children_ok ops h cts" and css: "css = map summary cts"
    using frames_wf(1) [OF fr wf] by (auto simp: e children_ok_def)
  have q: "foldl (dadd D) (cu_position c) (take m (drop i0 css)) = q"
    using position_of_children [OF children_ok_take [OF children_ok_drop [OF ok]], of "cu_position c" m i0]
    by (simp add: css q_def pos take_add drop_map take_map item_sums_def position_of_append)
  have mm: "first_match f (drop i0 css) = m" by (simp add: m css drop_map)
  have ep: "(if d then se_position e else cu_position c) = cu_position c" using epos by simp
  let ?e = "e\<lparr>se_index := i0 + m, se_position := q\<rparr>"
  have fr': "frames_ok ops D root (cts ! (i0 + m)) (?e # es)" if "i0 + m < length cts"
    using that fr e by (simp add: q_def frame_children.simps)
  have pe: "push_entry x (?e # es) = Some (x # ?e # es)" if "i0 + m < length cts" for x
    by (rule push_entry_frames [OF fr' [OF that] wf sh])
  show ?thesis
  proof (cases d)
    case True
    then have "se_index e = i0" using i0(1) by simp
    with True epos pe fr' show ?thesis
      by (subst (1 3) forward_loop.simps) (auto simp: stk e Let_def mm q)
  next
    case False
    then have "Suc (se_index e) = i0" using i0(1) by simp
    with False pe fr' show ?thesis
      by (subst (1 3) forward_loop.simps) (auto simp: stk e Let_def mm q)
  qed
qed

lemma forward_children:
  assumes "se_tree e = Internal h s css cts" and "frames_ok ops D root (se_tree e) es"
    and "cu_stack c = e # es"
    and "i0 = (if d then se_index e else se_index e + 1)" and "i0 \<le> length cts"
    and "cu_position c = position_of ops D (items_before es @ concat (map flat (take i0 cts)))"
    and "d \<Longrightarrow> se_position e = cu_position c" and walk: "walkable ops root"
    and child: "\<And>t c es. t \<in> set cts \<Longrightarrow> frames_ok ops D root t es \<Longrightarrow>
      cu_position c = position_of ops D (items_before es) \<Longrightarrow>
      cu_stack c = \<lparr>se_tree = t, se_index = 0, se_position = cu_position c\<rparr> # es \<Longrightarrow>
      forward_to c es (items_before es) (flat t) (forward_loop D f c True)"
  shows "forward_to c es (items_before es @ concat (map flat (take i0 cts)))
    (concat (map flat (drop i0 cts))) (forward_loop D f c d)"
  using assms(1-7)
proof (induction "length cts - i0" arbitrary: c e d i0 rule: less_induct)
  case less
  let ?m = "first_match f (map summary (drop i0 cts))"
  let ?q = "position_of ops D (items_before es @ concat (map flat (take (i0 + ?m) cts)))"
  let ?e = "e\<lparr>se_index := i0 + ?m, se_position := ?q\<rparr>" and ?t = "cts ! (i0 + ?m)"
  let ?mid = "concat (map flat (take ?m (drop i0 cts)))"
  note round = forward_round [OF less.prems(1-6) _ walk refl]
  have ok: "children_ok ops h cts"
    using frames_wf(1) [OF less.prems(2)] walk by (auto simp: less.prems(1) children_ok_def walkable_def)
  have skipped: "\<forall>x \<in> set ?mid. \<not> accepts x"
    by (rule filter_prunes_children [OF children_ok_drop [OF ok] order_refl])
  have tk: "concat (map flat (take (i0 + ?m) cts)) = concat (map flat (take i0 cts)) @ ?mid"
    by (simp add: take_add)
  have rest: "concat (map flat (drop i0 cts)) = ?mid @ concat (map flat (drop (i0 + ?m) cts))"
    by (rule concat_drop_split)
  have "forward_to c es ((items_before es @ concat (map flat (take i0 cts))) @ ?mid)
      (concat (map flat (drop (i0 + ?m) cts))) (forward_loop D f c d)"
  proof (cases "i0 + ?m < length cts")
    case False
    with round less.prems(7) have "forward_loop D f c d = forward_loop D f (c\<lparr>cu_stack := es, cu_position := ?q\<rparr>) False"
      by auto
    with False show ?thesis by (simp add: forward_to_def flip: concat_append map_append)
  next
    case True
    let ?c = "c\<lparr>cu_stack := \<lparr>se_tree = ?t, se_index = 0, se_position = ?q\<rparr> # ?e # es, cu_position := ?q\<rparr>"
    from round True less.prems(7) have fr: "frames_ok ops D root ?t (?e # es)"
      and loop: "forward_loop D f c d = forward_loop D f ?c True" by auto
    have before: "items_before (?e # es) = items_before es @ concat (map flat (take (i0 + ?m) cts))"
      using less.prems(1) by (simp add: frame_children.simps)
    let ?base = "(items_before es @ concat (map flat (take i0 cts))) @ ?mid"
    have base: "items_before (?e # es) = ?base"
      by (rule trans [OF before]) (simp add: tk)
    have "forward_to c (?e # es) (items_before (?e # es)) (flat ?t) (forward_loop D f c d)"
      using child [of ?t "?e # es" ?c] fr True before loop
      by (simp del: items_before.simps frames_ok.simps)
    then have sub: "forward_to c (?e # es) ?base (flat ?t) (forward_loop D f c d)"
      unfolding base .
    have drop: "concat (map flat (drop (i0 + ?m) cts)) = flat ?t @ concat (map flat (drop (Suc (i0 + ?m)) cts))"
      by (simp only: drop_eq_Cons_nth [OF True] list.map concat.simps)
    show ?thesis
    proof (cases "first_match accepts (flat ?t) < length (flat ?t)")
      case found: True
      from forward_to_found [OF found sub] show ?thesis by (simp only: drop)
    next
      case none: False
      then have none_in: "\<forall>x \<in> set (flat ?t). \<not> accepts x" by (rule first_match_noneI)
      let ?c' = "c\<lparr>cu_stack := ?e # es, cu_position := position_of ops D (?base @ flat ?t)\<rparr>"
      have next_round: "forward_loop D f c d = forward_loop D f ?c' False"
        using sub none by (simp add: forward_to_def Let_def)
      have base': "?base @ flat ?t = items_before es @ concat (map flat (take (Suc (i0 + ?m)) cts))"
        using True by (simp only: take_Suc_conv_app_nth map_append concat_append tk) simp
      have "forward_to ?c' es (items_before es @ concat (map flat (take (Suc (i0 + ?m)) cts)))
          (concat (map flat (drop (Suc (i0 + ?m)) cts))) (forward_loop D f ?c' False)"
        using less.prems(1,2) True base' by (intro less.hyps [of "Suc (i0 + ?m)" ?e ?c' False]) simp_all
      then have "forward_to c es (?base @ flat ?t) (concat (map flat (drop (Suc (i0 + ?m)) cts)))
          (forward_loop D f c d)"
        unfolding next_round base' by simp
      from forward_to_append [OF none_in this] show ?thesis by (simp only: drop)
    qed
  qed
  from forward_to_append [OF skipped this] show ?case by (simp only: rest)
qed

lemma forward_descend:
  assumes "wf_tree ops t" and "frames_ok ops D root t es" and "walkable ops root"
    and "cu_position c = position_of ops D (items_before es)"
    and "cu_stack c = \<lparr>se_tree = t, se_index = 0, se_position = cu_position c\<rparr> # es"
  shows "forward_to c es (items_before es) (flat t) (forward_loop D f c True)"
  using assms
proof (induction t arbitrary: c es)
  case (Leaf s its iss)
  with forward_leaf [of "\<lparr>se_tree = Leaf s its iss, se_index = 0, se_position = cu_position c\<rparr>" s its iss es c 0 True]
  show ?case by (simp add: walkable_def)
next
  case (Internal h s css cts)
  have wfc: "t \<in> set cts \<Longrightarrow> wf_tree ops t" for t using Internal.prems(1) by simp
  have "forward_to c es (items_before es @ concat (map flat (take 0 cts)))
      (concat (map flat (drop 0 cts))) (forward_loop D f c True)"
    using Internal.prems(2-) Internal.IH wfc
    by (intro forward_children
        [where e = "\<lparr>se_tree = Internal h s css cts, se_index = 0, se_position = cu_position c\<rparr>"]) simp_all
  then show ?case by simp
qed

lemma forward_ascend:
  assumes "frames_ok ops D root t es" and "cu_stack c = es"
    and "cu_position c = position_of ops D (items_before es @ flat t)" and walk: "walkable ops root"
  shows "forward_to c [] (items_before es @ flat t) (items_after es) (forward_loop D f c False)"
  using assms(1-3)
proof (induction es arbitrary: t c)
  case Nil
  then show ?case by (simp add: forward_to_def) (metis cursor.surjective cursor.update_convs(2,3))
next
  case (Cons e es)
  from Cons.prems(1) obtain h s css cts where e: "se_tree e = Internal h s css cts" "se_index e < length cts"
      "t = cts ! se_index e" and fr: "frames_ok ops D root (se_tree e) es" by auto
  let ?i = "Suc (se_index e)" let ?rest = "concat (map flat (drop ?i cts))"
  have wfc: "t \<in> set cts \<Longrightarrow> wf_tree ops t" for t
    using frames_wf(1) [OF fr] walk by (simp add: e walkable_def)
  have tk: "items_before es @ concat (map flat (take ?i cts)) = items_before (e # es) @ flat t"
    using e by (simp add: take_Suc_conv_app_nth)
  have after: "items_after (e # es) = ?rest @ items_after es" using e by simp
  have round: "forward_to c es (items_before es @ concat (map flat (take ?i cts))) ?rest (forward_loop D f c False)"
    using Cons.prems e fr walk wfc tk
    by (intro forward_children [OF e(1) fr] forward_descend) simp_all
  show ?case
  proof (cases "first_match accepts ?rest < length ?rest")
    case True
    from forward_to_found [OF this round] tk after show ?thesis by simp
  next
    case False
    then have none: "\<forall>x \<in> set ?rest. \<not> accepts x" by (rule first_match_noneI)
    let ?c = "c\<lparr>cu_stack := es, cu_position := position_of ops D (items_before es @ concat (map flat cts))\<rparr>"
    have cts: "concat (map flat (take ?i cts)) @ ?rest = concat (map flat cts)"
      by (metis append_take_drop_id concat_append map_append)
    have "forward_loop D f c False = forward_loop D f ?c False"
      using round False cts by (simp add: forward_to_def Let_def)
    moreover have "forward_to c [] ((items_before es @ concat (map flat (take ?i cts))) @ ?rest) (items_after es)
        (forward_loop D f ?c False)"
      using Cons.IH [OF fr, of ?c] e(1) cts by simp
    ultimately show ?thesis
      using forward_to_append [OF none, of c "[]" "items_before es @ concat (map flat (take ?i cts))" "items_after es"]
        tk after by (simp del: items_before.simps items_after.simps)
  qed
qed

lemma forward_loop_Nil: "cu_stack c = [] \<Longrightarrow> forward_loop D f c d = Some (c\<lparr>cu_at_end := True\<rparr>)"
  by (subst forward_loop.simps) simp

lemma forward_to_result:
  assumes "forward_to c [] (take m (flat root)) (drop m (flat root)) r"
    and "cu_tree c = root" and "cu_did_seek c" and "\<not> cu_at_end c" and "m \<le> length (flat root)"
  shows "\<exists>c'. r = Some c' \<and> cursor_at ops D root (m + first_match accepts (drop m (flat root))) c'"
proof (cases "first_match accepts (drop m (flat root)) < length (drop m (flat root))")
  case True
  with assms show ?thesis
    by (auto simp: forward_to_def Let_def cursor_at_def take_add)
next
  case False
  then have "m + first_match accepts (drop m (flat root)) = length (flat root)"
    using first_match_le [of accepts "drop m (flat root)"] assms(5) by simp
  with False assms show ?thesis
    by (auto simp: forward_to_def Let_def cursor_at_def forward_loop_Nil)
qed

theorem search_forward_correct:
  assumes start: "forward_start ops D root m c" and walk: "walkable ops root"
  shows "\<exists>c'. search_forward D f c = Some c' \<and>
    cursor_at ops D root (m + first_match accepts (drop m (flat root))) c'"
proof -
  have wf: "wf_tree ops root" using walk by (simp add: walkable_def)
  consider (mid) k where "cursor_at ops D root k c" "k < length (flat root)" "m = Suc k"
    | (finished) "cu_tree c = root" "cu_stack c = []" "cu_at_end c" "m = length (flat root)"
        "cu_position c = position_of ops D (flat root)"
    | (init) "cu_tree c = root" "cu_stack c = []" "\<not> cu_at_end c" "m = 0" "cu_position c = dzero D"
    using start is_empty_flat [OF wf]
    by (auto simp: forward_start_def cursor_at_def cursor_before_def cursor_fresh_def min_def split: if_splits)
  then show ?thesis
  proof cases
    case mid
    then have c: "leaf_stack ops D root k (cu_stack c)" "cu_tree c = root" "cu_did_seek c" "\<not> cu_at_end c"
        "cu_position c = position_of ops D (take k (flat root))"
      by (auto simp: cursor_at_def)
    from c(1) show ?thesis
    proof (rule leaf_stack_item [OF _ wf])
      fix e es s its
      assume e: "cu_stack c = e # es" "se_tree e = Leaf s its (map (ssummary ops) its)" "se_index e < length its"
        "frames_ok ops D root (se_tree e) es" "k = length (items_before es) + se_index e"
        "take k (flat root) = items_before es @ take (se_index e) its"
      let ?ys = "drop (Suc (se_index e)) its" and ?base = "items_before es @ take (Suc (se_index e)) its"
      have fl: "flat root = items_before es @ its @ items_after es" using frames_flat [OF e(4)] e(2) by simp
      have base: "?base = take m (flat root)" "?ys @ items_after es = drop m (flat root)"
        using fl e(3,5) mid(3) by simp_all
      have leaf: "forward_to c es ?base ?ys (forward_loop D f c False)"
        using e c(5) wf by (intro forward_leaf [OF e(2) e(4)]) simp_all
      have "forward_to c [] ?base (?ys @ items_after es) (forward_loop D f c False)"
      proof (cases "first_match accepts ?ys < length ?ys")
        case False
        let ?c = "c\<lparr>cu_stack := es, cu_position := position_of ops D (items_before es @ its)\<rparr>"
        have "forward_loop D f c False = forward_loop D f ?c False"
          using leaf False by (simp add: forward_to_def Let_def)
        moreover have "forward_to c [] (?base @ ?ys) (items_after es) (forward_loop D f ?c False)"
          using forward_ascend [OF e(4), of ?c] walk e(2) by simp
        ultimately show ?thesis using forward_to_append [OF first_match_noneI [OF False]] by simp
      qed (use forward_to_found leaf in blast)
      then show ?thesis
        using forward_to_result [of c m] base c mid by (simp add: search_forward_def e(1))
    qed
  next
    case finished
    then show ?thesis
      by (auto simp: search_forward_def forward_loop_Nil cursor_at_def)
  next
    case init
    let ?c = "c\<lparr>cu_stack := [\<lparr>se_tree = root, se_index = 0, se_position = dzero D\<rparr>], cu_did_seek := True\<rparr>"
    have "forward_to ?c [] (take 0 (flat root)) (drop 0 (flat root)) (forward_loop D f ?c True)"
      using forward_descend [OF wf, of "[]" ?c] init walk by simp
    from forward_to_result [OF this] init show ?thesis
      by (simp add: search_forward_def push_entry_def STACK_CAPACITY_def)
  qed
qed

section \<open>Backward\<close>

text \<open>The outcome of the backward loop on the items \<open>ys\<close> that follow the items \<open>base\<close>.\<close>

definition backward_to where
  "backward_to c es base ys r \<longleftrightarrow>
     (let n = last_match accepts ys in
      if n \<noteq> 0
      then \<exists>stk. r = Some (c\<lparr>cu_stack := stk, cu_position := position_of ops D (base @ take (n - 1) ys)\<rparr>) \<and>
             leaf_stack ops D root (length base + (n - 1)) stk
      else r = backward_loop D f (c\<lparr>cu_stack := es, cu_position := position_of ops D base\<rparr>) False)"

lemma backward_to_update [simp]:
  "backward_to (c\<lparr>cu_stack := stk, cu_position := p\<rparr>) es base ys r = backward_to c es base ys r"
  by (simp add: backward_to_def)

lemma backward_to_append:
  assumes "\<forall>z \<in> set zs. \<not> accepts z" and "backward_to c es base ys r"
  shows "backward_to c es base (ys @ zs) r"
proof -
  from assms(1) have "last_match accepts zs = 0" by (simp add: last_match_none)
  then show ?thesis
    using assms(2) last_match_le [of accepts ys] by (auto simp: backward_to_def last_match_append Let_def)
qed

lemma backward_to_found:
  assumes "last_match accepts ys \<noteq> 0" and "backward_to c es' (base @ xs) ys r"
  shows "backward_to c es base (xs @ ys) r"
  using assms by (auto simp: backward_to_def last_match_append Let_def add.assoc)

lemma frames_base:
  "frames_ok ops D root t es \<Longrightarrow>
   (case es of [] \<Rightarrow> dzero D | e # _ \<Rightarrow> se_position e) = position_of ops D (items_before es)"
  by (cases es) (auto simp del: items_before.simps(2))

lemma backward_pop:
  assumes "frames_ok ops D root (se_tree e) es" and "cu_stack c = e # es" and "se_index e = 0"
  shows "backward_to c es (items_before es) [] (backward_loop D f c False)"
  using frames_base [OF assms(1)] assms(2,3)
  by (subst backward_loop.simps) (simp add: backward_to_def)

lemma child_summaries_nonempty: "wf_tree ops t \<Longrightarrow> \<not> is_empty t \<Longrightarrow> child_summaries t \<noteq> []"
  by (cases t) auto

lemma backward_leaf:
  assumes "se_tree e = Leaf s its iss" and "frames_ok ops D root (se_tree e) es"
    and "cu_stack c = e # es" and "m = (if d then se_index e + 1 else se_index e)" and "m \<le> length its"
    and wf: "wf_tree ops root"
  shows "backward_to c es (items_before es) (take m its) (backward_loop D f c d)"
  using assms(1-5)
proof (induction m arbitrary: c e d)
  case 0
  then show ?case using backward_pop [of e es c] by (simp split: if_splits)
next
  case (Suc i)
  let ?p = "position_of ops D (items_before es @ take i its)"
  let ?e = "e\<lparr>se_index := i, se_position := ?p\<rparr>"
  have iss: "iss = map (ssummary ops) its" using frames_wf(1) [OF Suc.prems(2) wf] by (simp add: Suc.prems(1))
  have i: "se_index e = (if d then i else Suc i)" "i < length its"
    using Suc.prems(4,5) by (auto split: if_splits)
  have summ: "length iss = length its" "iss ! i = ssummary ops (its ! i)" using iss i(2) by simp_all
  have p: "foldl (dadd D) (position_of ops D (items_before es)) (take i iss) = ?p"
    by (simp add: iss take_map position_of_append)
  have step: "backward_loop D f c d =
      (if accepts (its ! i) then Some (c\<lparr>cu_stack := ?e # es, cu_position := ?p\<rparr>)
       else backward_loop D f (c\<lparr>cu_stack := ?e # es, cu_position := ?p\<rparr>) False)"
    using i frames_base [OF Suc.prems(2)]
    by (subst backward_loop.simps) (simp add: Suc.prems(1,3) Let_def p summ split: if_splits)
  have tk: "take (Suc i) its = take i its @ [its ! i]" using i(2) by (rule take_Suc_conv_app_nth)
  show ?case
  proof (cases "accepts (its ! i)")
    case True
    then have "leaf_stack ops D root (length (items_before es) + i) (?e # es)"
      using Suc.prems(1,2) i(2) by (auto simp: leaf_stack_def)
    with True i(2) show ?thesis
      by (auto simp: tk backward_to_def step last_match_snoc Let_def)
  next
    case False
    have "backward_to (c\<lparr>cu_stack := ?e # es, cu_position := ?p\<rparr>) es (items_before es) (take i its)
        (backward_loop D f (c\<lparr>cu_stack := ?e # es, cu_position := ?p\<rparr>) False)"
      using Suc.prems(1,2) i(2) by (intro Suc.IH [of ?e]) simp_all
    with False backward_to_append [of "[its ! i]"] show ?thesis by (simp add: tk step)
  qed
qed

lemma backward_children:
  assumes "se_tree e = Internal h s css cts" and "frames_ok ops D root (se_tree e) es"
    and "cu_stack c = e # es" and "m = (if d then se_index e + 1 else se_index e)" and "m \<le> length cts"
    and walk: "walkable ops root"
    and child: "\<And>t c es p. t \<in> set cts \<Longrightarrow> frames_ok ops D root t es \<Longrightarrow>
      cu_stack c = \<lparr>se_tree = t, se_index = length (child_summaries t) - 1, se_position = p\<rparr> # es \<Longrightarrow>
      backward_to c es (items_before es) (flat t) (backward_loop D f c True)"
  shows "backward_to c es (items_before es) (concat (map flat (take m cts))) (backward_loop D f c d)"
  using assms(1-5)
proof (induction m arbitrary: c e d)
  case 0
  then show ?case using backward_pop [of e es c] by (simp split: if_splits)
next
  case (Suc i)
  have wf: "wf_tree ops root" and sh: "shallow root" using walk by (auto simp: walkable_def)
  have ok: "children_ok ops h cts" and css: "css = map summary cts"
    using frames_wf(1) [OF Suc.prems(2) wf] by (auto simp: Suc.prems(1) children_ok_def)
  have i: "se_index e = (if d then i else Suc i)" "i < length cts"
    using Suc.prems(4,5) by (auto split: if_splits)
  have summ: "length css = length cts" "css ! i = summary (cts ! i)" using css i(2) by simp_all
  let ?mid = "concat (map flat (take i cts))" and ?t = "cts ! i"
  let ?p = "position_of ops D (items_before es @ ?mid)"
  let ?e = "e\<lparr>se_index := i, se_position := ?p\<rparr>"
  have t: "?t \<in> set cts" "wf_tree ops ?t" "\<not> is_empty ?t" using i(2) ok by (auto simp: children_ok_def)
  have ne: "Suc 0 \<le> length (child_summaries ?t)" using child_summaries_nonempty [OF t(2,3)] by (simp add: Suc_le_eq)
  have p: "foldl (dadd D) (position_of ops D (items_before es)) (take i css) = ?p"
    using position_of_children [OF children_ok_take [OF ok]]
    by (simp add: css take_map position_of_append item_sums_def)
  have before: "items_before (?e # es) = items_before es @ ?mid"
    using Suc.prems(1) by (simp add: frame_children.simps)
  have fr: "frames_ok ops D root ?t (?e # es)"
    using Suc.prems(1,2) i(2) before by (simp del: items_before.simps)
  have pe: "push_entry x (?e # es) = Some (x # ?e # es)" for x
    by (rule push_entry_frames [OF fr wf sh])
  let ?new = "\<lparr>se_tree = ?t, se_index = length (child_summaries ?t) - 1, se_position = dzero D\<rparr>"
  have step: "backward_loop D f c d =
      (if f (summary ?t) then backward_loop D f (c\<lparr>cu_stack := ?new # ?e # es, cu_position := ?p\<rparr>) True
       else backward_loop D f (c\<lparr>cu_stack := ?e # es, cu_position := ?p\<rparr>) False)"
    using i frames_base [OF Suc.prems(2)] ne
    by (subst backward_loop.simps) (simp add: Suc.prems(1,3) Let_def p summ pe split: if_splits)
  have tk: "concat (map flat (take (Suc i) cts)) = ?mid @ flat ?t"
    using i(2) by (simp add: take_Suc_conv_app_nth)
  have earlier: "backward_to c es (items_before es) ?mid
      (backward_loop D f (c\<lparr>cu_stack := ?e # es, cu_position := ?p\<rparr>) False)"
    using Suc.IH [of ?e "c\<lparr>cu_stack := ?e # es, cu_position := ?p\<rparr>" False] Suc.prems(1,2) i(2) by simp
  show ?case
  proof (cases "last_match accepts (flat ?t) = 0")
    case none: True
    have "backward_loop D f c d = backward_loop D f (c\<lparr>cu_stack := ?e # es, cu_position := ?p\<rparr>) False"
    proof (cases "f (summary ?t)")
      case True
      with child [OF t(1) fr, of "c\<lparr>cu_stack := ?new # ?e # es, cu_position := ?p\<rparr>" "dzero D"] none
      show ?thesis by (simp add: step backward_to_def Let_def before del: items_before.simps)
    qed (simp add: step)
    with earlier none backward_to_append [of "flat ?t"] show ?thesis
      by (simp add: tk last_match_none)
  next
    case found: False
    then have "f (summary ?t)" using filter_prunes [OF t(2)] by (auto simp: last_match_none)
    with child [OF t(1) fr, of "c\<lparr>cu_stack := ?new # ?e # es, cu_position := ?p\<rparr>" "dzero D"]
    have "backward_to c (?e # es) (items_before es @ ?mid) (flat ?t) (backward_loop D f c d)"
      by (simp add: step before del: items_before.simps)
    from backward_to_found [OF found this] show ?thesis by (simp add: tk)
  qed
qed

lemma backward_descend:
  assumes "wf_tree ops t" and "\<not> is_empty t" and "frames_ok ops D root t es" and "walkable ops root"
    and "cu_stack c = \<lparr>se_tree = t, se_index = length (child_summaries t) - 1, se_position = p\<rparr> # es"
  shows "backward_to c es (items_before es) (flat t) (backward_loop D f c True)"
  using assms
proof (induction t arbitrary: c es p)
  case (Leaf s its iss)
  then have "backward_to c es (items_before es) (take (length its) its) (backward_loop D f c True)"
    by (intro backward_leaf
        [where e = "\<lparr>se_tree = Leaf s its iss, se_index = length (child_summaries (Leaf s its iss)) - 1, se_position = p\<rparr>"])
      (auto simp: walkable_def Suc_le_eq)
  then show ?case by simp
next
  case (Internal h s css cts)
  have wfc: "t \<in> set cts \<Longrightarrow> wf_tree ops t \<and> \<not> is_empty t" for t using Internal.prems(1) by simp
  have "backward_to c es (items_before es) (concat (map flat (take (length cts) cts))) (backward_loop D f c True)"
    using Internal.prems Internal.IH wfc
    by (intro backward_children
        [where e = "\<lparr>se_tree = Internal h s css cts, se_index = length (child_summaries (Internal h s css cts)) - 1, se_position = p\<rparr>"])
      (auto simp: Suc_le_eq)
  then show ?case by simp
qed

lemma backward_ascend:
  assumes "frames_ok ops D root t es" and "cu_stack c = es"
    and "cu_position c = position_of ops D (items_before es)" and walk: "walkable ops root"
  shows "backward_to c [] [] (items_before es) (backward_loop D f c False)"
  using assms(1-3)
proof (induction es arbitrary: t c)
  case Nil
  then show ?case by (simp add: backward_to_def) (metis cursor.surjective cursor.update_convs(2,3))
next
  case (Cons e es)
  from Cons.prems(1) obtain h s css cts where e: "se_tree e = Internal h s css cts" "se_index e < length cts"
      "t = cts ! se_index e" and fr: "frames_ok ops D root (se_tree e) es" by auto
  let ?ys = "concat (map flat (take (se_index e) cts))"
  have wfc: "t \<in> set cts \<Longrightarrow> wf_tree ops t \<and> \<not> is_empty t" for t
    using frames_wf(1) [OF fr] walk by (simp add: e walkable_def)
  have round: "backward_to c es (items_before es) ?ys (backward_loop D f c False)"
    using Cons.prems e fr walk wfc
    by (intro backward_children [OF e(1) fr] backward_descend) auto
  have before: "items_before (e # es) = items_before es @ ?ys" using e by simp
  show ?case
  proof (cases "last_match accepts ?ys = 0")
    case True
    let ?c = "c\<lparr>cu_stack := es, cu_position := position_of ops D (items_before es)\<rparr>"
    have "backward_loop D f c False = backward_loop D f ?c False"
      using round True by (simp add: backward_to_def Let_def)
    moreover have "backward_to c [] [] (items_before es) (backward_loop D f ?c False)"
      using Cons.IH [OF fr, of ?c] by simp
    moreover have "\<forall>x \<in> set ?ys. \<not> accepts x" by (rule iffD1 [OF last_match_none True])
    ultimately show ?thesis
      using backward_to_append [of ?ys c "[]" "[]" "items_before es"] by (simp add: before del: items_before.simps)
  next
    case False
    with round backward_to_found [of ?ys c es "[]"] before show ?thesis by (simp del: items_before.simps)
  qed
qed

lemma backward_loop_Nil: "cu_stack c = [] \<Longrightarrow> backward_loop D f c d = Some c"
  by (subst backward_loop.simps) simp

text \<open>The cursor after a backward search among the first \<open>m\<close> items.\<close>

abbreviation backward_result where
  "backward_result m c' \<equiv>
     (let n = last_match accepts (take m (flat root)) in
      if n = 0 then cursor_before D root c' else cursor_at ops D root (n - 1) c')"

lemma backward_to_result:
  assumes "backward_to c [] [] (take m (flat root)) r"
    and "cu_tree c = root" and "cu_did_seek c" and "cu_at_end c = is_empty root" and "wf_tree ops root"
  shows "\<exists>c'. r = Some c' \<and> backward_result m c'"
proof (cases "last_match accepts (take m (flat root)) = 0")
  case True
  with assms(1) have "r = backward_loop D f (c\<lparr>cu_stack := [], cu_position := dzero D\<rparr>) False"
    by (simp add: backward_to_def)
  with True assms(2-4) show ?thesis by (auto simp: backward_loop_Nil cursor_before_def)
next
  case False
  let ?n = "last_match accepts (take m (flat root))"
  have n: "?n \<le> m" "?n \<le> length (flat root)"
    using last_match_le [of accepts "take m (flat root)"] by auto
  with False have "flat root \<noteq> []" "?n - 1 < length (flat root)" by auto
  moreover from this have "\<not> is_empty root" using is_empty_flat [OF assms(5)] by simp
  moreover have "?n - 1 \<le> m" using n(1) by linarith
  then have "take (?n - 1) (take m (flat root)) = take (?n - 1) (flat root)" by (simp add: min_absorb1)
  ultimately show ?thesis
    using False assms(1-4) by (auto simp: backward_to_def Let_def cursor_at_def)
qed

theorem search_backward_correct:
  assumes start: "backward_start ops D root m c" and walk: "walkable ops root"
  shows "\<exists>c'. search_backward D f c = Some c' \<and> backward_result m c'"
proof -
  have wf: "wf_tree ops root" using walk by (simp add: walkable_def)
  consider (mid) "cursor_at ops D root m c" "m < length (flat root)"
    | (tail) "cu_tree c = root" "cu_stack c = []" "cu_at_end c \<or> \<not> cu_did_seek c" "m = length (flat root)"
    | (init) "cursor_before D root c" "m = 0" "\<not> is_empty root"
    using start is_empty_flat [OF wf]
    by (auto simp: backward_start_def cursor_at_def cursor_fresh_def cursor_before_def split: if_splits)
  then show ?thesis
  proof cases
    case mid
    then have c: "leaf_stack ops D root m (cu_stack c)" "cu_tree c = root" "cu_did_seek c" "\<not> cu_at_end c"
      by (auto simp: cursor_at_def)
    from c(1) show ?thesis
    proof (rule leaf_stack_item [OF _ wf])
      fix e es s its
      assume e: "cu_stack c = e # es" "se_tree e = Leaf s its (map (ssummary ops) its)" "se_index e < length its"
        "frames_ok ops D root (se_tree e) es" "take m (flat root) = items_before es @ take (se_index e) its"
      let ?ys = "take (se_index e) its"
      have leaf: "backward_to c es (items_before es) ?ys (backward_loop D f c False)"
        using e wf by (intro backward_leaf [OF e(2) e(4)]) simp_all
      have "backward_to c [] [] (items_before es @ ?ys) (backward_loop D f c False)"
      proof (cases "last_match accepts ?ys = 0")
        case True
        let ?c = "c\<lparr>cu_stack := es, cu_position := position_of ops D (items_before es)\<rparr>"
        have "backward_loop D f c False = backward_loop D f ?c False"
          using leaf True by (simp add: backward_to_def Let_def)
        moreover have "backward_to c [] [] (items_before es) (backward_loop D f ?c False)"
          using backward_ascend [OF e(4), of ?c] walk by simp
        ultimately show ?thesis
          using backward_to_append [OF iffD1 [OF last_match_none True]] by simp
      next
        case False
        with leaf backward_to_found [of ?ys c es "[]"] show ?thesis by simp
      qed
      moreover have "\<not> is_empty root" using mid(2) is_empty_flat [OF wf] by auto
      ultimately show ?thesis
        using backward_to_result [of c m] c wf by (simp add: search_backward_def e(5))
    qed
  next
    case tail
    let ?c = "c\<lparr>cu_did_seek := True, cu_at_end := is_empty root\<rparr>"
    show ?thesis
    proof (cases "is_empty root")
      case True
      then have "flat root = []" using is_empty_flat [OF wf] by simp
      with tail True show ?thesis
        by (auto simp: search_backward_def backward_loop_Nil cursor_before_def)
    next
      case False
      let ?e = "\<lparr>se_tree = root, se_index = length (child_summaries root),
        se_position = from_summary_dim D (summary root)\<rparr>"
      let ?c = "c\<lparr>cu_stack := [?e], cu_position := dzero D, cu_did_seek := True, cu_at_end := False\<rparr>"
      have run: "search_backward D f c = backward_loop D f ?c False"
        using tail False by (cases c) (auto simp: search_backward_def Let_def push_entry_def STACK_CAPACITY_def)
      have "backward_to ?c [] [] (flat root) (backward_loop D f ?c False)"
      proof (cases root)
        case (Leaf s its iss)
        then have "length iss = length its" using wf by simp
        then have "backward_to ?c [] [] (take (length its) its) (backward_loop D f ?c False)"
          using Leaf wf by (intro backward_leaf [where e = ?e and es = "[]" and s = s and iss = iss, unfolded items_before.simps]) simp_all
        then show ?thesis by (simp only: Leaf flat.simps take_all order_refl)
      next
        case (Internal h s css cts)
        have wfc: "t \<in> set cts \<Longrightarrow> wf_tree ops t \<and> \<not> is_empty t" for t using wf by (simp add: Internal)
        have "length css = length cts" using wf by (simp add: Internal)
        then have "backward_to ?c [] [] (concat (map flat (take (length cts) cts))) (backward_loop D f ?c False)"
          using Internal wfc walk
          by (intro backward_children [where e = ?e and es = "[]" and s = s and css = css and h = h,
              unfolded items_before.simps] backward_descend) simp_all
        then show ?thesis by (simp only: Internal flat.simps take_all order_refl)
      qed
      with backward_to_result [of ?c m] tail False wf show ?thesis by (simp add: run)
    qed
  next
    case init
    then show ?thesis
      by (auto simp: search_backward_def cursor_before_def backward_loop_Nil)
  qed
qed

end

section \<open>Stepping by one item\<close>

context dimension_laws
begin

lemma unfiltered: "filtered_cursor ops D (\<lambda>_. True)"
  by unfold_locales simp

theorem cursor_next_correct:
  assumes "forward_start ops D t m c" and "walkable ops t"
  shows "\<exists>c'. cursor_next D c = Some c' \<and> cursor_at ops D t m c'"
  using filtered_cursor.search_forward_correct [OF unfiltered assms] by (simp add: cursor_next_def)

theorem cursor_prev_correct:
  assumes "backward_start ops D t m c" and "walkable ops t"
  shows "\<exists>c'. cursor_prev D c = Some c' \<and>
    (if m = 0 then cursor_before D t c' else cursor_at ops D t (m - 1) c')"
proof -
  have "m \<le> length (flat t)" using assms(1) by (auto simp: backward_start_def cursor_at_def)
  then have "min (length (flat t)) m = m" by simp
  with filtered_cursor.search_backward_correct [OF unfiltered assms] show ?thesis
    by (simp add: cursor_prev_def Let_def)
qed

end

section \<open>Peeking at the neighbours\<close>

lemma next_leaf_loop_correct:
  assumes "frames_ok ops D root t es" and "wf_tree ops root"
  shows "if items_after es = [] then next_leaf_loop es = Some None
    else \<exists>s is iss. next_leaf_loop es = Some (Some (Leaf s is iss)) \<and> first_opt is = Some (hd (items_after es))"
  using assms(1)
proof (induction es arbitrary: t)
  case (Cons e es)
  from Cons.prems obtain h s css cts where e: "se_tree e = Internal h s css cts" "se_index e < length cts"
      and fr: "frames_ok ops D root (se_tree e) es" by auto
  have wf: "\<And>c. c \<in> set cts \<Longrightarrow> wf_tree ops c \<and> \<not> is_empty c"
    using frames_wf(1) [OF fr assms(2)] by (simp add: e)
  show ?case
  proof (cases "Suc (se_index e) < length cts")
    case True
    let ?c = "cts ! Suc (se_index e)"
    have c: "wf_tree ops ?c" "\<not> is_empty ?c" using True wf by auto
    have ne: "flat ?c \<noteq> []" by (rule flat_nonempty [OF c])
    have after: "items_after (e # es) = flat ?c @ concat (map flat (drop (Suc (Suc (se_index e))) cts)) @ items_after es"
      using e True by (simp add: drop_eq_Cons_nth)
    have run: "next_leaf_loop (e # es) = do { l \<leftarrow> leftmost_leaf ?c; Some (Some l) }"
      using e True by simp linarith
    have "first_opt (flat ?c) = Some (hd (flat ?c))" using ne by (simp add: first_opt_def)
    with leftmost_leaf_correct [OF c(1)] ne show ?thesis
      unfolding run after by auto
  next
    case False
    with e have "items_after (e # es) = items_after es" "next_leaf_loop (e # es) = next_leaf_loop es" by auto
    with Cons.IH [OF fr] show ?thesis by (simp only:)
  qed
qed simp

lemma prev_leaf_loop_correct:
  assumes "frames_ok ops D root t es" and "wf_tree ops root"
  shows "if items_before es = [] then prev_leaf_loop es = Some None
    else \<exists>s is iss. prev_leaf_loop es = Some (Some (Leaf s is iss)) \<and> last_opt is = Some (last (items_before es))"
  using assms(1)
proof (induction es arbitrary: t)
  case (Cons e es)
  from Cons.prems obtain h s css cts where e: "se_tree e = Internal h s css cts" "se_index e < length cts"
      and fr: "frames_ok ops D root (se_tree e) es" by auto
  have wf: "\<And>c. c \<in> set cts \<Longrightarrow> wf_tree ops c \<and> \<not> is_empty c"
    using frames_wf(1) [OF fr assms(2)] by (simp add: e)
  show ?case
  proof (cases "se_index e")
    case (Suc i)
    let ?c = "cts ! i"
    have c: "wf_tree ops ?c" "\<not> is_empty ?c" using Suc wf e(2) by auto
    have ne: "flat ?c \<noteq> []" by (rule flat_nonempty [OF c])
    have before: "items_before (e # es) = (items_before es @ concat (map flat (take i cts))) @ flat ?c"
      using e Suc by (simp add: take_Suc_conv_app_nth)
    have run: "prev_leaf_loop (e # es) = do { l \<leftarrow> rightmost_leaf ?c; Some (Some l) }"
      using e Suc by simp
    have "last_opt (flat ?c) = Some (last (flat ?c))" using ne by (simp add: last_opt_def)
    with rightmost_leaf_correct [OF c(1)] ne show ?thesis
      unfolding run before by auto
  next
    case 0
    then have "items_before (e # es) = items_before es" "prev_leaf_loop (e # es) = prev_leaf_loop es" by simp_all
    with Cons.IH [OF fr] show ?thesis by (simp only:)
  qed
qed simp

lemma cursor_next_item_at:
  assumes "cursor_at ops D root k c" and "wf_tree ops root"
  shows "cursor_next_item c = Some (if Suc k < length (flat root) then Some (flat root ! Suc k) else None)"
proof (cases "k < length (flat root)")
  case True
  with assms(1) have "leaf_stack ops D root k (cu_stack c)" and seek: "cu_did_seek c"
    by (auto simp: cursor_at_def)
  then show ?thesis
  proof (elim leaf_stack_item [OF _ assms(2)])
    fix e es s its
    assume e: "cu_stack c = e # es" "se_tree e = Leaf s its (map (ssummary ops) its)" "se_index e < length its"
      "frames_ok ops D root (se_tree e) es" "drop k (flat root) = drop (se_index e) its @ items_after es"
    have rest: "drop (Suc k) (flat root) = drop (Suc (se_index e)) its @ items_after es"
      using e(3) arg_cong [OF e(5), of tl] by (simp add: drop_Suc tl_drop drop_eq_Cons_nth)
    have hd: "Suc k < length (flat root) \<Longrightarrow> flat root ! Suc k = hd (drop (Suc k) (flat root))"
      by (simp add: hd_drop_conv_nth)
    show ?thesis
    proof (cases "Suc (se_index e) < length its")
      case True
      then have "drop (Suc k) (flat root) \<noteq> []" "hd (drop (Suc k) (flat root)) = its ! Suc (se_index e)"
        unfolding rest by (auto simp: hd_append hd_drop_conv_nth)
      with True seek hd show ?thesis
        by (auto simp: cursor_next_item_def assert_did_seek_def e(1,2) bind_require)
    next
      case False
      with e(3) have "drop (Suc k) (flat root) = items_after es" "se_index e = length its - 1" by (auto simp: rest)
      with next_leaf_loop_correct [OF e(4) assms(2)] e(3) seek hd show ?thesis
        by (auto simp: cursor_next_item_def assert_did_seek_def e(1,2) bind_require split: if_splits)
    qed
  qed
qed (use assms in \<open>simp add: cursor_at_def cursor_next_item_def assert_did_seek_def\<close>)

lemma cursor_prev_item_at:
  assumes "cursor_at ops D root k c" and "wf_tree ops root"
  shows "cursor_prev_item c = Some (if k = 0 then None else Some (flat root ! (k - 1)))"
proof (cases "k < length (flat root)")
  case True
  with assms(1) have "leaf_stack ops D root k (cu_stack c)" and seek: "cu_did_seek c"
    by (auto simp: cursor_at_def)
  then show ?thesis
  proof (elim leaf_stack_item [OF _ assms(2)])
    fix e es s its
    assume e: "cu_stack c = e # es" "se_tree e = Leaf s its (map (ssummary ops) its)" "se_index e < length its"
      "frames_ok ops D root (se_tree e) es" "k = length (items_before es) + se_index e"
    have fl: "flat root = items_before es @ its @ items_after es" using frames_flat [OF e(4)] e(2) by simp
    show ?thesis
    proof (cases "se_index e")
      case 0
      with prev_leaf_loop_correct [OF e(4) assms(2)] e(5) fl seek show ?thesis
        by (auto simp: cursor_prev_item_def assert_did_seek_def e(1) last_conv_nth nth_append split: if_splits)
    next
      case (Suc i)
      with e(3,5) fl seek show ?thesis
        by (simp add: cursor_prev_item_def assert_did_seek_def e(1,2) nth_append)
    qed
  qed
next
  case False
  with assms(1) have "k = length (flat root)" "cu_stack c = []" "cu_at_end c" "cu_did_seek c" "cu_tree c = root"
    by (auto simp: cursor_at_def)
  then show ?thesis
    using tree_last_correct [OF assms(2)]
    by (auto simp: cursor_prev_item_def assert_did_seek_def last_opt_def last_conv_nth)
qed

end
