(* ===== verification/Cursor_Iter.thy ===== *)
theory Cursor_Iter
  imports Cursor_Step
begin

text \<open>
  Iteration over a tree (\<open>cursor.rs\<close> and \<open>SumTree::items\<close>): every iterator yields the items in
  order; the position-free \<open>Iter\<close> is shown to follow the steps of a cursor.
\<close>

section \<open>Collecting all items\<close>

context summary_laws
begin

lemma unit_dimension: "dimension_laws ops unit_dim"
  by unfold_locales (simp add: unit_dim_def)

lemma items_loop_correct:
  assumes "cursor_at ops unit_dim t k c" and "walkable ops t"
  shows "items_loop c acc = Some (acc @ drop k (flat t))"
  using assms(1)
proof (induction "length (flat t) - k" arbitrary: k c acc)
  case 0
  have "wf_tree ops t" using assms(2) by (simp add: walkable_def)
  from cursor_item_at [OF 0(2) this] 0 show ?case
    by (subst items_loop.simps) simp
next
  case (Suc n)
  have wf: "wf_tree ops t" using assms(2) by (simp add: walkable_def)
  from Suc(2) have k: "k < length (flat t)" by simp
  have "forward_start ops unit_dim t (Suc k) c"
    using Suc(3) k by (auto simp: forward_start_def)
  then obtain c' where c': "cursor_next unit_dim c = Some c'" "cursor_at ops unit_dim t (Suc k) c'"
    using dimension_laws.cursor_next_correct [OF unit_dimension _ assms(2)] by blast
  have "items_loop c acc = items_loop c' (acc @ [flat t ! k])"
    using cursor_item_at [OF Suc(3) wf] k c'(1) by (subst items_loop.simps) simp
  also have "\<dots> = Some ((acc @ [flat t ! k]) @ drop (Suc k) (flat t))"
    using Suc(1) [of "Suc k" c'] Suc(2) c'(2) by simp
  finally show ?case using k by (simp add: drop_eq_Cons_nth)
qed

theorem tree_items_correct:
  assumes "walkable ops t"
  shows "tree_items t = Some (flat t)"
proof -
  have "forward_start ops unit_dim t 0 (cursor_new unit_dim t)"
    by (simp add: forward_start_def cursor_fresh_new)
  then obtain c where "cursor_next unit_dim (cursor_new unit_dim t) = Some c" "cursor_at ops unit_dim t 0 c"
    using dimension_laws.cursor_next_correct [OF unit_dimension _ assms] by blast
  with items_loop_correct [OF _ assms] show ?thesis by (simp add: tree_items_def)
qed

end

section \<open>The filtered iterator\<close>

text \<open>\<open>collect\<close> on the iterator of a filtered cursor.\<close>

partial_function (option) filter_collect ::
  "('s, 'd) dim_ops \<Rightarrow> ('s \<Rightarrow> bool) \<Rightarrow> ('t, 's, 'd) cursor \<Rightarrow> 't list \<Rightarrow> 't list option" where
  "filter_collect D f c acc = do {
     r \<leftarrow> filter_cursor_next D f c;
     case snd r of None \<Rightarrow> Some acc | Some x \<Rightarrow> filter_collect D f (fst r) (acc @ [x]) }"

declare filter_collect.simps [code]

lemma filter_first_match: "filter P (drop (first_match P xs) xs) = filter P xs"
  by (induction xs) (auto simp: first_match_def)

context filtered_cursor
begin

text \<open>A filtered cursor is always new, or at an accepted item, or at the end.\<close>

abbreviation at_accepted where
  "at_accepted k c \<equiv> cursor_at ops D root k c \<and> (k < length (flat root) \<longrightarrow> accepts (flat root ! k))"

lemma search_forward_accepted:
  assumes "forward_start ops D root m c" and "walkable ops root" and "m \<le> length (flat root)"
  shows "\<exists>c' k. search_forward D f c = Some c' \<and> at_accepted k c' \<and> m \<le> k \<and>
    filter accepts (drop m (flat root)) = filter accepts (drop k (flat root))"
proof -
  let ?m = "first_match accepts (drop m (flat root))"
  obtain c' where c': "search_forward D f c = Some c'" "cursor_at ops D root (m + ?m) c'"
    using search_forward_correct [OF assms(1,2)] by blast
  have "accepts (flat root ! (m + ?m))" if "m + ?m < length (flat root)"
    using first_match_nth [of accepts "drop m (flat root)"] that by simp
  moreover have "filter accepts (drop m (flat root)) = filter accepts (drop (m + ?m) (flat root))"
    using filter_first_match [of accepts "drop m (flat root)"] by (simp add: add.commute)
  ultimately show ?thesis using c' by (intro exI [of _ c'] exI [of _ "m + ?m"]) simp
qed

lemma filter_collect_at:
  assumes "at_accepted k c" and "walkable ops root"
  shows "filter_collect D f c acc = Some (acc @ filter accepts (drop k (flat root)))"
  using assms(1)
proof (induction "length (flat root) - k" arbitrary: k c acc rule: less_induct)
  case less
  have wf: "wf_tree ops root" using assms(2) by (simp add: walkable_def)
  have at: "cursor_at ops D root k c" and seek: "cu_did_seek c" using less.prems by (auto simp: cursor_at_def)
  show ?case
  proof (cases "k < length (flat root)")
    case False
    with at seek cursor_item_at [OF at wf] show ?thesis
      by (subst filter_collect.simps) (simp add: filter_cursor_next_def)
  next
    case True
    have "forward_start ops D root (Suc k) c" using at True by (auto simp: forward_start_def)
    from search_forward_accepted [OF this assms(2)] True obtain c' j where
      c': "search_forward D f c = Some c'" "at_accepted j c'" "Suc k \<le> j"
        "filter accepts (drop (Suc k) (flat root)) = filter accepts (drop j (flat root))" by auto
    have "filter_collect D f c acc = filter_collect D f c' (acc @ [flat root ! k])"
      using cursor_item_at [OF at wf] True seek c'(1)
      by (subst filter_collect.simps) (simp add: filter_cursor_next_def)
    also have "\<dots> = Some ((acc @ [flat root ! k]) @ filter accepts (drop j (flat root)))"
      using less.hyps [of j c'] c' True by simp
    finally show ?thesis using True less.prems c'(4) by (simp add: drop_eq_Cons_nth)
  qed
qed

theorem filter_collect_correct:
  assumes "walkable ops root"
  shows "filter_collect D f (cursor_new D root) [] = Some (filter accepts (flat root))"
proof -
  have wf: "wf_tree ops root" using assms(1) by (simp add: walkable_def)
  have "forward_start ops D root 0 (cursor_new D root)" by (simp add: forward_start_def cursor_fresh_new)
  from search_forward_accepted [OF this assms] obtain c k where c: "search_forward D f (cursor_new D root) = Some c"
      "at_accepted k c" "filter accepts (flat root) = filter accepts (drop k (flat root))" by auto
  have seek: "cu_did_seek c" "\<not> cu_did_seek (cursor_new D root)" using c(2) by (auto simp: cursor_at_def cursor_new_def)
  have "filter_cursor_next D f (cursor_new D root) = filter_cursor_next D f c"
    using c(1) seek by (simp add: filter_cursor_next_def)
  then have "filter_collect D f (cursor_new D root) [] = filter_collect D f c []"
    by (subst (1 2) filter_collect.simps) simp
  with filter_collect_at [OF c(2) assms] c(3) show ?thesis by simp
qed

end

section \<open>The position-free iterator\<close>

text \<open>An iterator's stack is a cursor's stack with the positions removed.\<close>

definition strip :: "('t, 's, 'd) stack_entry \<Rightarrow> ('t, 's) node \<times> nat" where
  "strip e = (se_tree e, se_index e)"

lemma strip_simps [simp]:
  "fst (strip e) = se_tree e" "snd (strip e) = se_index e"
  "strip (e\<lparr>se_position := p\<rparr>) = strip e" "strip (e\<lparr>se_index := i\<rparr>) = (se_tree e, i)"
  "strip \<lparr>se_tree = t, se_index = i, se_position = p\<rparr> = (t, i)"
  by (simp_all add: strip_def)

definition top_item :: "('t, 's, 'd) stack_entry list \<Rightarrow> 't option" where
  "top_item stk =
     (case stk of [] \<Rightarrow> None
      | e # _ \<Rightarrow> (case se_tree e of Leaf s is iss \<Rightarrow> Some (is ! se_index e) | Internal _ _ _ _ \<Rightarrow> None))"

lemma top_item_Leaf [simp]:
  "top_item [] = None" "se_tree e = Leaf s is iss \<Longrightarrow> top_item (e # es) = Some (is ! se_index e)"
  by (simp_all add: top_item_def)

abbreviation stack_wf :: "('t, 's) item_ops \<Rightarrow> ('t, 's, 'd) stack_entry list \<Rightarrow> bool" where
  "stack_wf ops stk \<equiv> \<forall>e \<in> set stk. wf_tree ops (se_tree e)"

lemma push_entry_Some: "push_entry e es = Some stk \<longleftrightarrow> stk = e # es \<and> length es < STACK_CAPACITY"
  by (auto simp: push_entry_def)

lemma iter_loop_Nil [simp]: "iter_loop [] d = Some ([], None)"
  by (subst iter_loop.simps) simp

lemma iter_loop_simulates:
  assumes "forward_loop D f c d = Some c'" and "f = (\<lambda>_. True)" and "stack_wf ops (cu_stack c)"
  shows "iter_loop (map strip (cu_stack c)) d = Some (map strip (cu_stack c'), top_item (cu_stack c'))"
  using assms(2,3)
proof (induction rule: forward_loop.raw_induct [OF _ assms(1), consumes 0, case_names step])
  case (step loop D f c d c')
  have IH: "iter_loop (map strip (cu_stack c2)) b = Some (map strip (cu_stack c3), top_item (cu_stack c3))"
    if "loop D f c2 b = Some c3" and "stack_wf ops (cu_stack c2)" for c2 b c3
    using step(1) [OF that(1) step.prems(1) that(2)] .
  show ?case
  proof (cases "cu_stack c")
    case Nil
    with step(2) show ?thesis by (subst iter_loop.simps) (auto simp: top_item_def)
  next
    case (Cons e es)
    then have es: "stack_wf ops es" and e: "wf_tree ops (se_tree e)" using step.prems(2) by simp_all
    have pop': "iter_loop (map strip es) False = Some (map strip (cu_stack c'), top_item (cu_stack c'))"
      if "loop D (\<lambda>_. True) (c\<lparr>cu_stack := es\<rparr>) False = Some c'"
      using IH [OF that [folded step.prems(1)]] es by simp
    have pop: "iter_loop (map strip es) False = Some (map strip (cu_stack c'), top_item (cu_stack c'))"
      if "loop D f (c\<lparr>cu_stack := es, cu_position := p\<rparr>) False = Some c'" for p
      using IH [OF that] es by simp
    show ?thesis
    proof (cases "se_tree e")
      case (Leaf s its iss)
      then have len: "length iss = length its" using e by simp
      have "strip e = (Leaf s its iss, se_index e)" using Leaf by (simp add: strip_def)
      with step(2) Cons Leaf len step.prems(1) pop pop' show ?thesis
        by (subst iter_loop.simps)
          (auto simp: Let_def bind_require top_item_Leaf split: if_splits)
    next
      case (Internal h s css cts)
      then have wf: "\<And>t. t \<in> set cts \<Longrightarrow> wf_tree ops t" and len: "length css = length cts" using e by auto
      have push: "iter_loop ((cts ! i, 0) # (Internal h s css cts, i) # map strip es) True =
          Some (map strip (cu_stack c'), top_item (cu_stack c'))"
        if "loop D (\<lambda>_. True) (c\<lparr>cu_stack := \<lparr>se_tree = cts ! i, se_index = 0, se_position = p\<rparr> # e' # es\<rparr>) True = Some c'"
          "i < length cts" "strip e' = (Internal h s css cts, i)" for i p e'
      proof -
        have "se_tree e' = se_tree e" using strip_simps(1) [of e'] that(3) Internal by simp
        with IH [OF that(1) [folded step.prems(1)]] that(2,3) es e wf show ?thesis by simp
      qed
      have "strip e = (Internal h s css cts, se_index e)" using Internal by (simp add: strip_def)
      with step(2) Cons Internal len step.prems(1) push pop' show ?thesis
        by (subst iter_loop.simps) (auto simp: Let_def push_entry_def split: if_splits)
    qed
  qed
qed

definition iter_at :: "('t, 's) item_ops \<Rightarrow> ('t, 's) node \<Rightarrow> nat \<Rightarrow> ('t, 's) tree_iter \<Rightarrow> bool" where
  "iter_at ops root k it \<longleftrightarrow>
     it_tree it = root \<and> k < length (flat root) \<and>
     (\<exists>stk :: ('t, 's, unit) stack_entry list. it_stack it = map strip stk \<and> leaf_stack ops unit_dim root k stk)"

text \<open>An iterator about to yield the item at index \<open>m\<close>; with an empty stack it starts over.\<close>

definition iter_ready :: "('t, 's) item_ops \<Rightarrow> ('t, 's) node \<Rightarrow> nat \<Rightarrow> ('t, 's) tree_iter \<Rightarrow> bool" where
  "iter_ready ops root m it \<longleftrightarrow>
     (\<exists>k. iter_at ops root k it \<and> m = Suc k) \<or> it_tree it = root \<and> it_stack it = [] \<and> m = 0"

lemma frames_stack_wf:
  assumes "frames_ok ops D root t es" and "wf_tree ops root"
  shows "stack_wf ops es"
  using assms(1)
proof (induction es arbitrary: t)
  case (Cons e es)
  then have "frames_ok ops D root (se_tree e) es" by simp
  with Cons.IH frames_wf(1) [OF this assms(2)] show ?case by simp
qed simp

lemma leaf_stack_wf: "leaf_stack ops D root k stk \<Longrightarrow> wf_tree ops root \<Longrightarrow> stack_wf ops stk"
  using frames_stack_wf frames_wf(1) by (fastforce simp: leaf_stack_def)

lemma leaf_stack_top_item:
  "leaf_stack ops D root k stk \<Longrightarrow> wf_tree ops root \<Longrightarrow> top_item stk = Some (flat root ! k)"
  by (elim leaf_stack_item) auto

context summary_laws
begin

lemma iter_follows_cursor:
  fixes c :: "('t, 's, unit) cursor"
  assumes "forward_loop unit_dim (\<lambda>_. True) c d = Some c'" and "stack_wf ops (cu_stack c)"
    and at: "cursor_at ops unit_dim root m c'" and "wf_tree ops root" and "it_tree it = root"
    and run: "iter_next it = do { (stk, x) \<leftarrow> iter_loop (map strip (cu_stack c)) d; Some (it\<lparr>it_stack := stk\<rparr>, x) }"
  shows "\<exists>it'. iter_next it = Some (it', if m < length (flat root) then Some (flat root ! m) else None) \<and>
    (if m < length (flat root) then iter_at ops root m it' else it_tree it' = root \<and> it_stack it' = [])"
proof -
  have sim: "iter_loop (map strip (cu_stack c)) d = Some (map strip (cu_stack c'), top_item (cu_stack c'))"
    by (rule iter_loop_simulates [OF assms(1) refl assms(2)])
  show ?thesis
  proof (cases "m < length (flat root)")
    case True
    then have leaf: "leaf_stack ops unit_dim root m (cu_stack c')" using at by (simp add: cursor_at_def)
    with True assms(4,5) show ?thesis
      by (auto simp: run sim iter_at_def leaf_stack_top_item)
  qed (use at assms(5) in \<open>simp add: run sim cursor_at_def\<close>)
qed

theorem iter_next_correct:
  assumes "iter_ready ops root m it" and "walkable ops root"
  shows "\<exists>it'. iter_next it = Some (it', if m < length (flat root) then Some (flat root ! m) else None) \<and>
    (if m < length (flat root) then iter_at ops root m it' else it_tree it' = root \<and> it_stack it' = [])"
  using assms(1) unfolding iter_ready_def
proof (elim disjE exE conjE)
  have wf: "wf_tree ops root" using assms(2) by (simp add: walkable_def)
  fix k assume "iter_at ops root k it" and m: "m = Suc k"
  then obtain stk :: "('t, 's, unit) stack_entry list" where k: "k < length (flat root)" "it_tree it = root"
      "it_stack it = map strip stk" and leaf: "leaf_stack ops unit_dim root k stk" by (auto simp: iter_at_def)
  let ?c = "\<lparr>cu_tree = root, cu_stack = stk, cu_position = (), cu_did_seek = True, cu_at_end = False\<rparr>"
  from leaf have ne: "stk \<noteq> []" by (auto simp: leaf_stack_def)
  have "forward_start ops unit_dim root m ?c"
    using k leaf m by (auto simp: forward_start_def cursor_at_def)
  then obtain c' where "search_forward unit_dim (\<lambda>_. True) ?c = Some c'" and at: "cursor_at ops unit_dim root m c'"
    using dimension_laws.cursor_next_correct [OF unit_dimension _ assms(2)] by (auto simp: cursor_next_def)
  then have "forward_loop unit_dim (\<lambda>_. True) ?c False = Some c'" using ne by (simp add: search_forward_def)
  from iter_follows_cursor [OF this _ at wf k(2)] leaf_stack_wf [OF leaf wf] k(3) ne show ?thesis
    by (simp add: iter_next_def)
next
  have wf: "wf_tree ops root" using assms(2) by (simp add: walkable_def)
  assume it: "it_tree it = root" "it_stack it = []" "m = 0"
  show ?thesis
  proof (cases "is_empty root")
    case True
    then obtain s iss where "root = Leaf s [] iss" using wf by (cases root) auto
    then show ?thesis using it
      by (simp add: iter_next_def push_entry_def STACK_CAPACITY_def iter_loop.simps [of "[_]"])
  next
    case False
    let ?e = "\<lparr>se_tree = root, se_index = 0, se_position = ()\<rparr>"
    let ?c = "\<lparr>cu_tree = root, cu_stack = [?e], cu_position = (), cu_did_seek = True, cu_at_end = False\<rparr>"
    have "forward_start ops unit_dim root m (cursor_new unit_dim root)"
      using it by (simp add: forward_start_def cursor_fresh_new)
    then obtain c' where "search_forward unit_dim (\<lambda>_. True) (cursor_new unit_dim root) = Some c'"
        and at: "cursor_at ops unit_dim root m c'"
      using dimension_laws.cursor_next_correct [OF unit_dimension _ assms(2)] by (auto simp: cursor_next_def)
    then have "forward_loop unit_dim (\<lambda>_. True) ?c True = Some c'"
      using False by (simp add: search_forward_def cursor_new_def push_entry_def STACK_CAPACITY_def)
    from iter_follows_cursor [OF this _ at wf it(1)] wf it show ?thesis
      by (simp add: iter_next_def push_entry_def STACK_CAPACITY_def)
  qed
qed

end

text \<open>\<open>collect\<close> on the iterator.\<close>

partial_function (option) iter_collect :: "('t, 's) tree_iter \<Rightarrow> 't list \<Rightarrow> 't list option" where
  "iter_collect it acc = do {
     r \<leftarrow> iter_next it;
     case snd r of None \<Rightarrow> Some acc | Some x \<Rightarrow> iter_collect (fst r) (acc @ [x]) }"

declare iter_collect.simps [code]

context summary_laws
begin

lemma iter_collect_ready:
  assumes "iter_ready ops root m it" and "walkable ops root"
  shows "iter_collect it acc = Some (acc @ drop m (flat root))"
  using assms(1)
proof (induction "length (flat root) - m" arbitrary: m it acc rule: less_induct)
  case less
  obtain it' where it': "iter_next it = Some (it', if m < length (flat root) then Some (flat root ! m) else None)"
      "if m < length (flat root) then iter_at ops root m it' else it_tree it' = root \<and> it_stack it' = []"
    using iter_next_correct [OF less.prems assms(2)] by blast
  show ?case
  proof (cases "m < length (flat root)")
    case True
    then have "iter_ready ops root (Suc m) it'" using it'(2) by (simp add: iter_ready_def)
    with less.hyps [of "Suc m" it'] True it'(1) show ?thesis
      by (subst iter_collect.simps) (simp add: drop_eq_Cons_nth)
  qed (subst iter_collect.simps, simp add: it'(1))
qed

theorem iter_collect_correct:
  assumes "walkable ops root"
  shows "iter_collect (iter_new root) [] = Some (flat root)"
  using iter_collect_ready [of root 0 "iter_new root"] assms by (simp add: iter_ready_def iter_new_def)

text \<open>The reported lower bound exceeds what is left by one when the item just yielded ends the tree.\<close>

lemma iter_size_hint_at_last:
  assumes "iter_at ops root k it" and "Suc k = length (flat root)" and "wf_tree ops root"
  shows "iter_size_hint it = 1"
proof -
  from assms(1) obtain stk :: "('t, 's, unit) stack_entry list" where
    "it_stack it = map strip stk" "leaf_stack ops unit_dim root k stk" by (auto simp: iter_at_def)
  then show ?thesis
  proof (elim leaf_stack_item [OF _ assms(3)])
    fix e :: "('t, 's, unit) stack_entry" and es s its
    assume e: "it_stack it = map strip stk" "stk = e # es" "se_tree e = Leaf s its (map (ssummary ops) its)"
      "se_index e < length its" "drop k (flat root) = drop (se_index e) its @ items_after es"
    have "length (drop k (flat root)) = 1" using assms(2) by simp
    then have "length (drop (se_index e) its @ items_after es) = 1" by (simp only: e(5))
    with e(4) have "length its - se_index e = 1" by simp
    with e(1-3) show ?thesis by (simp add: iter_size_hint_def)
  qed
qed

end

end
