(* ===== verification/Keyed_Tree.thy ===== *)
theory Keyed_Tree
  imports Cursor_Iter
begin

text \<open>
  Trees of keyed items (\<open>sum_tree.rs\<close>, \<open>impl<T: KeyedItem> SumTree<T>\<close>): insertion or replacement,
  removal, batches of edits and lookup by key, each a walk of a cursor along the key dimension.
  The operations refine operations on the sorted list of items.
\<close>

section \<open>Model\<close>

text \<open>An ordered dimension is a seek target by comparison with itself.\<close>

definition key_target :: "'k::linorder \<Rightarrow> 'k \<Rightarrow> ordering" where
  "key_target k cursor_location = cmp k cursor_location"

datatype ('t, 'k) edit = Insert 't | Remove 'k

fun edit_key :: "('t \<Rightarrow> 'k) \<Rightarrow> ('t, 'k) edit \<Rightarrow> 'k" where
  "edit_key key (Insert item) = key item"
| "edit_key key (Remove k) = k"

text \<open>The step that takes the current item out when it has the given key.\<close>

definition take_matching ::
  "('s, 'k) dim_ops \<Rightarrow> ('t \<Rightarrow> 'k::linorder) \<Rightarrow> 'k \<Rightarrow> ('t, 's, 'k) cursor \<Rightarrow> 't option \<Rightarrow>
   (('t, 's, 'k) cursor \<times> 't option) option" where
  "take_matching D key k c item =
     (case item of
        Some y \<Rightarrow> if key y = k then do { c' \<leftarrow> cursor_next D c; Some (c', Some y) } else Some (c, None)
      | None \<Rightarrow> Some (c, None))"

definition insert_or_replace ::
  "('t, 's) item_ops \<Rightarrow> ('s, 'k) dim_ops \<Rightarrow> ('t \<Rightarrow> 'k::linorder) \<Rightarrow> ('t, 's) node \<Rightarrow> 't \<Rightarrow>
   (('t, 's) node \<times> 't option) option" where
  "insert_or_replace ops D key self item = do {
     (c, new_tree) \<leftarrow> cursor_slice ops D (key_target (key item)) Left (cursor_new D self);
     cursor_item \<leftarrow> cursor_item c;
     (c, replaced) \<leftarrow> take_matching D key (key item) c cursor_item;
     new_tree \<leftarrow> tree_push ops new_tree item;
     (c, suffix) \<leftarrow> cursor_suffix ops D c;
     new_tree \<leftarrow> tree_append ops new_tree suffix;
     Some (new_tree, replaced) }"

definition tree_remove ::
  "('t, 's) item_ops \<Rightarrow> ('s, 'k) dim_ops \<Rightarrow> ('t \<Rightarrow> 'k::linorder) \<Rightarrow> ('t, 's) node \<Rightarrow> 'k \<Rightarrow>
   (('t, 's) node \<times> 't option) option" where
  "tree_remove ops D key self k = do {
     (c, new_tree) \<leftarrow> cursor_slice ops D (key_target k) Left (cursor_new D self);
     item \<leftarrow> cursor_item c;
     (c, removed) \<leftarrow> take_matching D key k c item;
     (c, suffix) \<leftarrow> cursor_suffix ops D c;
     new_tree \<leftarrow> tree_append ops new_tree suffix;
     Some (new_tree, removed) }"

text \<open>The state of the loop of \<open>edit\<close>.\<close>

record ('t, 's, 'k) edit_state =
  ed_cursor :: "('t, 's, 'k) cursor"
  ed_new_tree :: "('t, 's) node"
  ed_buffered :: "'t list"
  ed_removed :: "'t list"

definition edit_step ::
  "('t, 's) item_ops \<Rightarrow> ('s, 'k) dim_ops \<Rightarrow> ('t \<Rightarrow> 'k::linorder) \<Rightarrow> ('t, 'k) edit \<Rightarrow>
   ('t, 's, 'k) edit_state \<Rightarrow> ('t, 's, 'k) edit_state option" where
  "edit_step ops D key e st = do {
     let new_key = edit_key key e;
     old_item \<leftarrow> cursor_item (ed_cursor st);
     (st, old_item) \<leftarrow>
       (if (case old_item of Some y \<Rightarrow> key y < new_key | None \<Rightarrow> False)
        then do { new_tree \<leftarrow> tree_extend ops (ed_new_tree st) (ed_buffered st);
                  (c, slice) \<leftarrow> cursor_slice ops D (key_target new_key) Left (ed_cursor st);
                  new_tree \<leftarrow> tree_append ops new_tree slice;
                  old_item \<leftarrow> cursor_item c;
                  Some (st\<lparr>ed_cursor := c, ed_new_tree := new_tree, ed_buffered := []\<rparr>, old_item) }
        else Some (st, old_item));
     (c, taken) \<leftarrow> take_matching D key new_key (ed_cursor st) old_item;
     Some (st\<lparr>ed_cursor := c,
              ed_removed := ed_removed st @ (case taken of Some y \<Rightarrow> [y] | None \<Rightarrow> []),
              ed_buffered := ed_buffered st @ (case e of Insert item \<Rightarrow> [item] | Remove _ \<Rightarrow> [])\<rparr>) }"

fun edit_loop ::
  "('t, 's) item_ops \<Rightarrow> ('s, 'k) dim_ops \<Rightarrow> ('t \<Rightarrow> 'k::linorder) \<Rightarrow> ('t, 'k) edit list \<Rightarrow>
   ('t, 's, 'k) edit_state \<Rightarrow> ('t, 's, 'k) edit_state option" where
  "edit_loop ops D key [] st = Some st"
| "edit_loop ops D key (e # es) st = do { st \<leftarrow> edit_step ops D key e st; edit_loop ops D key es st }"

text \<open>
  \<open>sort_unstable_by_key\<close> leaves the order of equal keys open; \<open>sort_key\<close> is one of its results, and
  the only one when the keys are distinct.
\<close>

definition tree_edit ::
  "('t, 's) item_ops \<Rightarrow> ('s, 'k) dim_ops \<Rightarrow> ('t \<Rightarrow> 'k::linorder) \<Rightarrow> ('t, 's) node \<Rightarrow> ('t, 'k) edit list \<Rightarrow>
   (('t, 's) node \<times> 't list) option" where
  "tree_edit ops D key self edits =
     (if edits = [] then Some (self, [])
      else do {
        (c, _) \<leftarrow> cursor_seek D (key_target (dzero D)) Left (cursor_new D self);
        st \<leftarrow> edit_loop ops D key (sort_key (edit_key key) edits)
                \<lparr>ed_cursor = c, ed_new_tree = tree_new ops, ed_buffered = [], ed_removed = []\<rparr>;
        new_tree \<leftarrow> tree_extend ops (ed_new_tree st) (ed_buffered st);
        (c, suffix) \<leftarrow> cursor_suffix ops D (ed_cursor st);
        new_tree \<leftarrow> tree_append ops new_tree suffix;
        Some (new_tree, ed_removed st) })"

definition tree_get :: "('s, 'k) dim_ops \<Rightarrow> ('t, 's) node \<Rightarrow> 'k::linorder \<Rightarrow> 't option" where
  "tree_get D self k = snd (snd (find_exact D (key_target k) Left self))"

section \<open>Reference operations on sorted lists\<close>

definition keys_before :: "('t \<Rightarrow> 'k::linorder) \<Rightarrow> 'k \<Rightarrow> 't list \<Rightarrow> 't list" where
  "keys_before key k xs = takeWhile (\<lambda>x. key x < k) xs"

definition keys_from :: "('t \<Rightarrow> 'k::linorder) \<Rightarrow> 'k \<Rightarrow> 't list \<Rightarrow> 't list" where
  "keys_from key k xs = dropWhile (\<lambda>x. key x < k) xs"

text \<open>The items from a key on, less the first when it has that key, and that item.\<close>

definition matching :: "('t \<Rightarrow> 'k::linorder) \<Rightarrow> 'k \<Rightarrow> 't list \<Rightarrow> 't option" where
  "matching key k xs = (case keys_from key k xs of y # _ \<Rightarrow> if key y = k then Some y else None | [] \<Rightarrow> None)"

definition keys_after :: "('t \<Rightarrow> 'k::linorder) \<Rightarrow> 'k \<Rightarrow> 't list \<Rightarrow> 't list" where
  "keys_after key k xs = (if matching key k xs = None then keys_from key k xs else tl (keys_from key k xs))"

definition list_insert :: "('t \<Rightarrow> 'k::linorder) \<Rightarrow> 't \<Rightarrow> 't list \<Rightarrow> 't list" where
  "list_insert key x xs = keys_before key (key x) xs @ x # keys_after key (key x) xs"

definition list_remove :: "('t \<Rightarrow> 'k::linorder) \<Rightarrow> 'k \<Rightarrow> 't list \<Rightarrow> 't list" where
  "list_remove key k xs = keys_before key k xs @ keys_after key k xs"

definition edit_items :: "('t, 'k) edit \<Rightarrow> 't list" where
  "edit_items e = (case e of Insert item \<Rightarrow> [item] | Remove _ \<Rightarrow> [])"

fun list_edit :: "('t \<Rightarrow> 'k::linorder) \<Rightarrow> ('t, 'k) edit list \<Rightarrow> 't list \<Rightarrow> 't list" where
  "list_edit key [] xs = xs"
| "list_edit key (e # es) xs =
     keys_before key (edit_key key e) xs @ edit_items e @ list_edit key es (keys_after key (edit_key key e) xs)"

fun list_edit_removed :: "('t \<Rightarrow> 'k::linorder) \<Rightarrow> ('t, 'k) edit list \<Rightarrow> 't list \<Rightarrow> 't list" where
  "list_edit_removed key [] xs = []"
| "list_edit_removed key (e # es) xs =
     (case matching key (edit_key key e) xs of Some y \<Rightarrow> [y] | None \<Rightarrow> []) @
     list_edit_removed key es (keys_after key (edit_key key e) xs)"

lemma keys_split: "keys_before key k xs @ keys_from key k xs = xs"
  by (simp add: keys_before_def keys_from_def)

lemma keys_from_drop: "keys_from key k xs = drop (length (keys_before key k xs)) xs"
  by (simp add: keys_before_def keys_from_def dropWhile_eq_drop)

abbreviation keys_sorted :: "('t \<Rightarrow> 'k::linorder) \<Rightarrow> 't list \<Rightarrow> bool" where
  "keys_sorted key xs \<equiv> sorted_wrt (\<lambda>x y. key x < key y) xs"

lemma keys_before_iff: "keys_sorted key xs \<Longrightarrow> x \<in> set (keys_before key k xs) \<longleftrightarrow> x \<in> set xs \<and> key x < k"
  by (induction xs) (auto simp: keys_before_def)

lemma keys_from_iff: "keys_sorted key xs \<Longrightarrow> x \<in> set (keys_from key k xs) \<longleftrightarrow> x \<in> set xs \<and> k \<le> key x"
  by (induction xs) (auto simp: keys_from_def)

lemma keys_from_sorted: "keys_sorted key xs \<Longrightarrow> keys_sorted key (keys_from key k xs)"
  unfolding keys_from_drop by (rule sorted_wrt_drop)

lemma keys_before_sorted: "keys_sorted key xs \<Longrightarrow> keys_sorted key (keys_before key k xs)"
  unfolding keys_before_def by (metis sorted_wrt_take takeWhile_eq_take)

lemma keys_after_sorted: "keys_sorted key xs \<Longrightarrow> keys_sorted key (keys_after key k xs)"
  using keys_from_sorted [of key xs k] by (cases "keys_from key k xs") (auto simp: keys_after_def)

text \<open>The first item from a key on is the only one that can have it.\<close>

lemma keys_from_Cons:
  assumes "keys_sorted key xs" and "keys_from key k xs = y # ys"
  shows "y \<in> set xs" and "k \<le> key y" and "\<And>x. x \<in> set ys \<Longrightarrow> key y < key x"
    and "\<And>x. x \<in> set ys \<longleftrightarrow> x \<in> set xs \<and> key y < key x"
proof -
  have in_from: "x \<in> set xs \<and> k \<le> key x \<longleftrightarrow> x = y \<or> x \<in> set ys" for x
    using keys_from_iff [OF assms(1), of x k] assms(2) by auto
  have later: "\<forall>x \<in> set ys. key y < key x" using keys_from_sorted [OF assms(1), of k] assms(2) by simp
  show "y \<in> set xs" "k \<le> key y" using in_from [of y] by auto
  show "x \<in> set ys \<Longrightarrow> key y < key x" for x using later by blast
  show "x \<in> set ys \<longleftrightarrow> x \<in> set xs \<and> key y < key x" for x
    using in_from [of x] in_from [of y] later by auto
qed

lemma keys_after_iff:
  assumes "keys_sorted key xs"
  shows "x \<in> set (keys_after key k xs) \<longleftrightarrow> x \<in> set xs \<and> k < key x"
proof (cases "keys_from key k xs")
  case Nil
  with keys_from_iff [OF assms, of x k] show ?thesis by (auto simp: keys_after_def matching_def)
next
  case (Cons y ys)
  note c = keys_from_Cons [OF assms Cons]
  show ?thesis
  proof (cases "key y = k")
    case True
    with c(4) [of x] Cons show ?thesis by (simp add: keys_after_def matching_def)
  next
    case False
    with c(2) have "k < key y" by simp
    moreover have "x \<in> set ys \<Longrightarrow> k < key x" using c(3) [of x] \<open>k < key y\<close> by (meson less_trans)
    ultimately show ?thesis
      using keys_from_iff [OF assms, of x k] Cons False by (auto simp: keys_after_def matching_def)
  qed
qed

lemma matching_iff:
  assumes "keys_sorted key xs"
  shows "matching key k xs = Some y \<longleftrightarrow> y \<in> set xs \<and> key y = k"
proof (cases "keys_from key k xs")
  case Nil
  with keys_from_iff [OF assms, of y k] show ?thesis by (auto simp: matching_def)
next
  case (Cons z zs)
  note c = keys_from_Cons [OF assms Cons]
  have "y \<in> set zs \<Longrightarrow> key y \<noteq> k" using c(2) c(3) [of y] by auto
  then have "y \<in> set xs \<and> key y = k \<longleftrightarrow> y = z \<and> key z = k"
    using keys_from_iff [OF assms, of y k] c(1) Cons by auto
  then show ?thesis using Cons by (auto simp: matching_def)
qed

lemma list_insert_sorted: "keys_sorted key xs \<Longrightarrow> keys_sorted key (list_insert key x xs)"
  by (auto simp: list_insert_def sorted_wrt_append keys_before_sorted keys_after_sorted
      keys_before_iff keys_after_iff)

lemma set_list_insert:
  "keys_sorted key xs \<Longrightarrow> set (list_insert key x xs) = insert x {y \<in> set xs. key y \<noteq> key x}"
  by (auto simp: list_insert_def keys_before_iff keys_after_iff)

lemma list_remove_sorted: "keys_sorted key xs \<Longrightarrow> keys_sorted key (list_remove key k xs)"
  by (force simp: list_remove_def sorted_wrt_append keys_before_sorted keys_after_sorted
      keys_before_iff keys_after_iff)

lemma set_list_remove: "keys_sorted key xs \<Longrightarrow> set (list_remove key k xs) = {y \<in> set xs. key y \<noteq> k}"
  by (auto simp: list_remove_def keys_before_iff keys_after_iff)

text \<open>A batch of edits with distinct keys, in order.\<close>

lemma list_edit_bound:
  assumes "keys_sorted key xs" and "sorted_wrt (\<lambda>a b. edit_key key a < edit_key key b) es"
    and "\<forall>x \<in> set xs. k < key x" and "\<forall>e \<in> set es. k < edit_key key e"
  shows "\<forall>x \<in> set (list_edit key es xs). k < key x"
  using assms
proof (induction es arbitrary: xs)
  case (Cons e es)
  have "\<forall>x \<in> set (list_edit key es (keys_after key (edit_key key e) xs)). k < key x"
    using Cons.prems by (intro Cons.IH) (auto simp: keys_after_sorted keys_after_iff)
  then show ?case using Cons.prems by (auto simp: keys_before_iff edit_items_def split: edit.splits)
qed simp

lemma list_edit_sorted:
  assumes "keys_sorted key xs" and "sorted_wrt (\<lambda>a b. edit_key key a < edit_key key b) es"
  shows "keys_sorted key (list_edit key es xs)"
  using assms
proof (induction es arbitrary: xs)
  case (Cons e es)
  let ?k = "edit_key key e" and ?ys = "keys_after key (edit_key key e) xs"
  have "keys_sorted key (list_edit key es ?ys)" using Cons by (simp add: keys_after_sorted)
  moreover have "\<forall>x \<in> set (list_edit key es ?ys). ?k < key x"
    using Cons.prems by (intro list_edit_bound) (auto simp: keys_after_sorted keys_after_iff)
  ultimately show ?case
    using Cons.prems
    by (auto simp: sorted_wrt_append keys_before_sorted keys_before_iff edit_items_def intro: less_trans
        split: edit.splits)
qed simp

lemma set_list_edit:
  assumes "keys_sorted key xs" and "sorted_wrt (\<lambda>a b. edit_key key a < edit_key key b) es"
  shows "set (list_edit key es xs) =
    {x \<in> set xs. key x \<notin> edit_key key ` set es} \<union> {x. Insert x \<in> set es}"
  using assms
proof (induction es arbitrary: xs)
  case (Cons e es)
  let ?k = "edit_key key e"
  have IH: "set (list_edit key es (keys_after key ?k xs)) =
      {x \<in> set (keys_after key ?k xs). key x \<notin> edit_key key ` set es} \<union> {x. Insert x \<in> set es}"
    using Cons by (simp add: keys_after_sorted)
  have "\<forall>e' \<in> set es. ?k < edit_key key e'" using Cons.prems(2) by simp
  then have "\<not> edit_key key e' < ?k" if "e' \<in> set es" for e' using that by force
  with IH Cons.prems(1) show ?case
    by (auto simp: keys_before_iff keys_after_iff edit_items_def split: edit.splits)
qed simp

lemma keys_sorted_weak: "keys_sorted key xs \<Longrightarrow> sorted (map key xs)"
  by (induction xs) (auto intro: less_imp_le)

section \<open>The contract of a key and the refinement\<close>

locale keyed_tree = dimension_laws ops D
  for ops :: "('t, 's) item_ops" and D :: "('s, 'k::linorder) dim_ops" +
  fixes key :: "'t \<Rightarrow> 'k"
  assumes key_dimension: "k \<le> key x \<Longrightarrow> dadd D k (ssummary ops x) = key x"
    and zero_key: "dzero D \<le> key x"
begin

text \<open>The trees the operations work on.\<close>

definition keyed :: "('t, 's) node \<Rightarrow> bool" where
  "keyed t \<longleftrightarrow> walkable ops t \<and> sorted (map key (flat t))"

lemma keyed_wf: "keyed t \<Longrightarrow> wf_tree ops t" and keyed_walkable: "keyed t \<Longrightarrow> walkable ops t"
  by (auto simp: keyed_def walkable_def)

lemma ends_keys:
  assumes "sorted (map key xs)" and "\<forall>x \<in> set xs. p \<le> key x"
  shows "ends D p (map (ssummary ops) xs) = map key xs"
  using assms by (induction xs arbitrary: p) (auto simp: key_dimension)

lemma foldl_keys:
  assumes "sorted (map key xs)" and "\<forall>x \<in> set xs. p \<le> key x"
  shows "foldl (dadd D) p (map (ssummary ops) xs) = (if xs = [] then p else key (last xs))"
  using last_ends [of "map (ssummary ops) xs" D p] ends_keys [OF assms] by (simp add: last_map split: if_splits)

lemma position_keys:
  assumes "sorted (map key xs)"
  shows "position_of ops D xs = (if xs = [] then dzero D else key (last xs))"
  using foldl_keys [OF assms, of "dzero D"] zero_key by (simp add: position_of_def)

lemma position_le:
  assumes "sorted (map key xs)" and "x \<in> set (drop j xs)"
  shows "position_of ops D (take j xs) \<le> key x"
proof -
  have "sorted (map key (take j xs @ drop j xs))" using assms(1) by simp
  then have "sorted (map key (take j xs))" and le: "\<forall>a \<in> set (take j xs). key a \<le> key x"
    using assms(2) by (simp_all only: map_append sorted_append) auto
  then show ?thesis using zero_key by (auto simp: position_keys)
qed

lemma sorted_drop_keys: "sorted (map key xs) \<Longrightarrow> sorted (map key (drop j xs))"
  by (metis drop_map sorted_wrt_drop)

lemma key_ends:
  assumes "sorted (map key xs)"
  shows "ends D (position_of ops D (take j xs)) (map (ssummary ops) (drop j xs)) = map key (drop j xs)"
  using position_le [OF assms] by (intro ends_keys sorted_drop_keys assms) auto

lemma key_mono_target:
  assumes "sorted (map key xs)"
  shows "mono_target D (key_target k) b (position_of ops D (take j xs)) (map (ssummary ops) (drop j xs))"
  unfolding mono_target_def key_ends [OF assms]
  using sorted_drop_keys [OF assms, of j]
  by (auto simp: seek_past_def key_target_def sorted_wrt_map elim!: sorted_wrt_mono_rel [rotated])

lemma key_seek_len:
  assumes "sorted (map key xs)"
  shows "seek_len D (key_target k) Left (position_of ops D (take j xs)) (map (ssummary ops) (drop j xs)) =
    length (keys_before key k (drop j xs))"
  unfolding seek_len_def key_ends [OF assms]
  by (simp add: keys_before_def takeWhile_map comp_def seek_past_def key_target_def)

text \<open>A slice up to a key takes the items with smaller keys.\<close>

lemma slice_to_key:
  assumes c: "cursor_ready ops D t j c" and t: "keyed t" and k: "cu_position c \<le> k"
  shows "\<exists>c' u. cursor_slice ops D (key_target k) Left c = Some (c', u) \<and>
    cursor_at ops D t (j + length (keys_before key k (drop j (flat t)))) c' \<and>
    wf_tree ops u \<and> flat u = keys_before key k (drop j (flat t))"
proof -
  have srt: "sorted (map key (flat t))" using t by (simp add: keyed_def)
  have pos: "cu_position c = position_of ops D (take j (flat t))" by (rule cursor_ready_position [OF c])
  let ?n = "length (keys_before key k (drop j (flat t)))"
  have "take ?n (drop j (flat t)) = keys_before key k (drop j (flat t))"
    unfolding keys_before_def by (rule takeWhile_eq_take [symmetric])
  with cursor_slice_correct [OF c keyed_walkable [OF t], of "key_target k" Left "j + ?n"] k
    key_mono_target [OF srt, of k Left j] key_seek_len [OF srt, of k j]
  show ?thesis by (auto simp: pos key_target_def)
qed

text \<open>Taking the matching item moves to the items after the key.\<close>

lemma take_matching_correct:
  assumes c: "cursor_at ops D t j c" and t: "keyed t"
    and j: "drop j (flat t) = keys_from key k xs"
  shows "\<exists>c' j'. (do { item \<leftarrow> cursor_item c; take_matching D key k c item }) = Some (c', matching key k xs) \<and>
    cursor_at ops D t j' c' \<and> drop j' (flat t) = keys_after key k xs \<and> j \<le> j'"
proof -
  note item = cursor_item_at [OF c keyed_wf [OF t]]
  show ?thesis
  proof (cases "keys_from key k xs")
    case Nil
    with j have "length (flat t) \<le> j" by simp
    with item c j Nil show ?thesis
      by (intro exI [of _ c] exI [of _ j]) (simp add: take_matching_def matching_def keys_after_def)
  next
    case (Cons y ys)
    then have lt: "j < length (flat t)" and y: "flat t ! j = y" "drop (Suc j) (flat t) = ys"
      using j by (metis drop_all list.distinct(1) linorder_not_less,
          metis drop_all hd_drop_conv_nth list.distinct(1) list.sel(1) linorder_not_less,
          metis drop_Suc list.sel(3) tl_drop)
    show ?thesis
    proof (cases "key y = k")
      case True
      have "forward_start ops D t (Suc j) c" using c lt by (auto simp: forward_start_def)
      then obtain c' where c': "cursor_next D c = Some c'" "cursor_at ops D t (Suc j) c'"
        using cursor_next_correct keyed_walkable [OF t] by blast
      with item lt y Cons True show ?thesis
        by (intro exI [of _ c'] exI [of _ "Suc j"]) (simp add: take_matching_def matching_def keys_after_def)
    next
      case False
      with item lt y Cons c j show ?thesis
        by (intro exI [of _ c] exI [of _ j]) (simp add: take_matching_def matching_def keys_after_def)
    qed
  qed
qed

lemma cursor_new_ready: "cursor_ready ops D t 0 (cursor_new D t)"
  by (simp add: cursor_ready_def cursor_fresh_new)

theorem insert_or_replace_correct:
  assumes t: "keyed t"
  shows "\<exists>t'. insert_or_replace ops D key t x = Some (t', matching key (key x) (flat t)) \<and>
    wf_tree ops t' \<and> flat t' = list_insert key x (flat t)"
proof -
  obtain c u where u: "cursor_slice ops D (key_target (key x)) Left (cursor_new D t) = Some (c, u)"
      "cursor_at ops D t (length (keys_before key (key x) (flat t))) c"
      "wf_tree ops u" "flat u = keys_before key (key x) (flat t)"
    using slice_to_key [OF cursor_new_ready t, of "key x"] zero_key by (auto simp: cursor_new_def)
  obtain c' j where c': "(do { item \<leftarrow> cursor_item c; take_matching D key (key x) c item }) =
        Some (c', matching key (key x) (flat t))"
      "cursor_at ops D t j c'" "drop j (flat t) = keys_after key (key x) (flat t)"
    using take_matching_correct [OF u(2) t keys_from_drop [symmetric]] by blast
  obtain v where v: "tree_push ops u x = Some v" "wf_tree ops v" "flat v = flat u @ [x]"
    using tree_push_correct [OF u(3)] by blast
  obtain c'' w where w: "cursor_suffix ops D c' = Some (c'', w)" "wf_tree ops w" "flat w = drop j (flat t)"
    using cursor_suffix_correct [of t j c'] c'(2) keyed_walkable [OF t] by (auto simp: cursor_ready_def)
  obtain z where z: "tree_append ops v w = Some z" "wf_tree ops z" "flat z = flat v @ flat w"
    using tree_append_correct [OF v(2) w(2)] by blast
  from c'(1) obtain i where "cursor_item c = Some i" "take_matching D key (key x) c i = Some (c', matching key (key x) (flat t))"
    by (auto simp: bind_eq_Some_conv)
  with u v w z c'(3) show ?thesis by (simp add: insert_or_replace_def list_insert_def)
qed

theorem tree_remove_correct:
  assumes t: "keyed t" and k: "dzero D \<le> k"
  shows "\<exists>t'. tree_remove ops D key t k = Some (t', matching key k (flat t)) \<and>
    wf_tree ops t' \<and> flat t' = list_remove key k (flat t)"
proof -
  obtain c u where u: "cursor_slice ops D (key_target k) Left (cursor_new D t) = Some (c, u)"
      "cursor_at ops D t (length (keys_before key k (flat t))) c"
      "wf_tree ops u" "flat u = keys_before key k (flat t)"
    using slice_to_key [OF cursor_new_ready t, of k] k by (auto simp: cursor_new_def)
  obtain c' j where c': "(do { item \<leftarrow> cursor_item c; take_matching D key k c item }) = Some (c', matching key k (flat t))"
      "cursor_at ops D t j c'" "drop j (flat t) = keys_after key k (flat t)"
    using take_matching_correct [OF u(2) t keys_from_drop [symmetric]] by blast
  obtain c'' w where w: "cursor_suffix ops D c' = Some (c'', w)" "wf_tree ops w" "flat w = drop j (flat t)"
    using cursor_suffix_correct [of t j c'] c'(2) keyed_walkable [OF t] by (auto simp: cursor_ready_def)
  obtain z where z: "tree_append ops u w = Some z" "wf_tree ops z" "flat z = flat u @ flat w"
    using tree_append_correct [OF u(3) w(2)] by blast
  from c'(1) obtain i where "cursor_item c = Some i" "take_matching D key k c i = Some (c', matching key k (flat t))"
    by (auto simp: bind_eq_Some_conv)
  with u w z c'(3) show ?thesis by (simp add: tree_remove_def list_remove_def)
qed

text \<open>The state of \<open>edit\<close> at index \<open>j\<close>: what is built, what is buffered and what is still to come.\<close>

definition edit_at where
  "edit_at t j out removed st \<longleftrightarrow>
     cursor_at ops D t j (ed_cursor st) \<and> wf_tree ops (ed_new_tree st) \<and>
     flat (ed_new_tree st) @ ed_buffered st = out \<and> ed_removed st = removed"

lemma keys_before_Nil_iff:
  "keys_before key k xs = [] \<longleftrightarrow> (case xs of [] \<Rightarrow> True | y # _ \<Rightarrow> \<not> key y < k)"
  by (cases xs) (auto simp: keys_before_def)

lemma edit_step_correct:
  fixes e :: "('t, 'k) edit"
  assumes st: "edit_at t j out removed st" and t: "keyed t"
  defines "k \<equiv> edit_key key e" and "xs \<equiv> drop j (flat t)"
  shows "\<exists>st' j'. edit_step ops D key e st = Some st' \<and> drop j' (flat t) = keys_after key k xs \<and>
    edit_at t j' (out @ keys_before key k xs @ edit_items e)
      (removed @ (case matching key k xs of Some y \<Rightarrow> [y] | None \<Rightarrow> [])) st'"
proof -
  have c: "cursor_at ops D t j (ed_cursor st)" and wf: "wf_tree ops (ed_new_tree st)"
    and out: "flat (ed_new_tree st) @ ed_buffered st = out" and rem: "ed_removed st = removed"
    using st by (auto simp: edit_at_def)
  have j: "j \<le> length (flat t)" using c by (simp add: cursor_at_def)
  have srt: "sorted (map key (flat t))" using t by (simp add: keyed_def)
  let ?old = "if j < length (flat t) then Some (flat t ! j) else None"
  have item: "cursor_item (ed_cursor st) = Some ?old" by (rule cursor_item_at [OF c keyed_wf [OF t]])
  let ?skip = "case ?old of Some y \<Rightarrow> key y < k | None \<Rightarrow> False"
  have skip_iff: "?skip \<longleftrightarrow> keys_before key k xs \<noteq> []"
  proof (cases "j < length (flat t)")
    case True
    then show ?thesis by (simp add: xs_def keys_before_Nil_iff drop_eq_Cons_nth)
  qed (simp add: xs_def keys_before_Nil_iff)
  obtain st1 j1 old1 where st1: "cursor_item (ed_cursor st1) = Some old1"
      "drop j1 (flat t) = keys_from key k xs" "edit_at t j1 (out @ keys_before key k xs) removed st1"
    and step1: "(if ?skip
        then do { new_tree \<leftarrow> tree_extend ops (ed_new_tree st) (ed_buffered st);
                  (c, slice) \<leftarrow> cursor_slice ops D (key_target k) Left (ed_cursor st);
                  new_tree \<leftarrow> tree_append ops new_tree slice;
                  old_item \<leftarrow> cursor_item c;
                  Some (st\<lparr>ed_cursor := c, ed_new_tree := new_tree, ed_buffered := []\<rparr>, old_item) }
        else Some (st, ?old)) = Some (st1, old1)"
  proof (cases ?skip)
    case False
    with skip_iff have "keys_before key k xs = []" by simp
    moreover from this have "keys_from key k xs = xs" using keys_split [of key k xs] by simp
    ultimately show thesis using that [of st ?old j] item st False by (simp add: xs_def)
  next
    case True
    then have lt: "j < length (flat t)" and ky: "key (flat t ! j) < k" by (auto split: if_splits)
    have "flat t ! j \<in> set (drop j (flat t))" using lt by (simp add: drop_eq_Cons_nth)
    from position_le [OF srt this] ky have "position_of ops D (take j (flat t)) \<le> k" by simp
    then have "cu_position (ed_cursor st) \<le> k" using c by (simp add: cursor_at_def)
    then obtain c1 u where u: "cursor_slice ops D (key_target k) Left (ed_cursor st) = Some (c1, u)"
        "cursor_at ops D t (j + length (keys_before key k xs)) c1" "wf_tree ops u" "flat u = keys_before key k xs"
      using slice_to_key [OF _ t, of j "ed_cursor st" k] c by (auto simp: cursor_ready_def xs_def)
    obtain v where v: "tree_extend ops (ed_new_tree st) (ed_buffered st) = Some v" "wf_tree ops v" "flat v = out"
      using tree_extend_correct [OF wf, of "ed_buffered st"] out by blast
    obtain w where w: "tree_append ops v u = Some w" "wf_tree ops w" "flat w = out @ keys_before key k xs"
      using tree_append_correct [OF v(2) u(3)] v(3) u(4) by auto
    obtain i where i: "cursor_item c1 = Some i"
      using cursor_item_at [OF u(2) keyed_wf [OF t]] by blast
    have "drop (j + length (keys_before key k xs)) (flat t) = keys_from key k xs"
      by (simp add: keys_from_drop xs_def add.commute)
    with True u v w i rem show thesis
      using that [of "st\<lparr>ed_cursor := c1, ed_new_tree := w, ed_buffered := []\<rparr>" i] by (simp add: edit_at_def)
  qed
  from st1(3) have c1: "cursor_at ops D t j1 (ed_cursor st1)" by (simp add: edit_at_def)
  obtain c2 j2 where c2: "take_matching D key k (ed_cursor st1) old1 = Some (c2, matching key k xs)"
      "cursor_at ops D t j2 c2" "drop j2 (flat t) = keys_after key k xs"
    using take_matching_correct [OF c1 t st1(2)] st1(1) by auto
  let ?st = "st1\<lparr>ed_cursor := c2,
      ed_removed := ed_removed st1 @ (case matching key k xs of Some y \<Rightarrow> [y] | None \<Rightarrow> []),
      ed_buffered := ed_buffered st1 @ edit_items e\<rparr>"
  have "edit_step ops D key e st = Some ?st"
    unfolding edit_step_def Let_def item bind.bind_lunit k_def [symmetric]
    by (simp only: step1 bind.bind_lunit prod.case c2(1) edit_items_def)
  moreover have "edit_at t j2 (out @ keys_before key k xs @ edit_items e)
      (removed @ (case matching key k xs of Some y \<Rightarrow> [y] | None \<Rightarrow> [])) ?st"
    using st1(3) c2(2) by (simp add: edit_at_def)
  ultimately show ?thesis using c2(3) by blast
qed

lemma edit_loop_correct:
  assumes "edit_at t j out removed st" and "keyed t"
  shows "\<exists>st' j'. edit_loop ops D key es st = Some st' \<and>
    (\<exists>out' removed'. edit_at t j' out' removed' st' \<and>
       out' @ drop j' (flat t) = out @ list_edit key es (drop j (flat t)) \<and>
       removed' = removed @ list_edit_removed key es (drop j (flat t)))"
  using assms(1)
proof (induction es arbitrary: j out removed st)
  case (Cons e es)
  obtain st1 j1 where step: "edit_step ops D key e st = Some st1"
      "drop j1 (flat t) = keys_after key (edit_key key e) (drop j (flat t))"
      "edit_at t j1 (out @ keys_before key (edit_key key e) (drop j (flat t)) @ edit_items e)
        (removed @ (case matching key (edit_key key e) (drop j (flat t)) of Some y \<Rightarrow> [y] | None \<Rightarrow> [])) st1"
    using edit_step_correct [OF Cons.prems assms(2)] by blast
  from Cons.IH [OF step(3)] step(1,2) show ?case by simp
qed auto

theorem tree_edit_correct:
  assumes t: "keyed t" and ne: "edits \<noteq> []"
  shows "\<exists>t'. tree_edit ops D key t edits =
      Some (t', list_edit_removed key (sort_key (edit_key key) edits) (flat t)) \<and>
    wf_tree ops t' \<and> flat t' = list_edit key (sort_key (edit_key key) edits) (flat t)"
proof -
  have srt: "sorted (map key (flat t))" using t by (simp add: keyed_def)
  have none: "keys_before key (dzero D) (flat t) = []"
    using zero_key by (cases "flat t") (auto simp: keys_before_def not_less)
  have len0: "seek_len D (key_target (dzero D)) Left (dzero D) (map (ssummary ops) (flat t)) = 0"
    using key_seek_len [OF srt, of "dzero D" 0] none by simp
  obtain c r where c: "cursor_seek D (key_target (dzero D)) Left (cursor_new D t) = Some (c, r)"
      "cursor_at ops D t 0 c"
    using cursor_seek_correct [OF _ keyed_walkable [OF t], of "cursor_new D t" "key_target (dzero D)" Left 0]
      key_mono_target [OF srt, of "dzero D" Left 0] len0
    by (auto simp: cursor_new_def key_target_def)
  let ?st = "\<lparr>ed_cursor = c, ed_new_tree = tree_new ops, ed_buffered = [], ed_removed = []\<rparr>"
  have "edit_at t 0 [] [] ?st" using c(2) by (simp add: edit_at_def)
  from edit_loop_correct [OF this t, of "sort_key (edit_key key) edits"]
  obtain st j out where st: "edit_loop ops D key (sort_key (edit_key key) edits) ?st = Some st"
      "edit_at t j out (list_edit_removed key (sort_key (edit_key key) edits) (flat t)) st"
      "out @ drop j (flat t) = list_edit key (sort_key (edit_key key) edits) (flat t)" by auto
  then have at: "cursor_at ops D t j (ed_cursor st)" "wf_tree ops (ed_new_tree st)"
      "flat (ed_new_tree st) @ ed_buffered st = out"
      "ed_removed st = list_edit_removed key (sort_key (edit_key key) edits) (flat t)"
    by (auto simp: edit_at_def)
  obtain v where v: "tree_extend ops (ed_new_tree st) (ed_buffered st) = Some v" "wf_tree ops v" "flat v = out"
    using tree_extend_correct [OF at(2), of "ed_buffered st"] at(3) by blast
  obtain c' w where w: "cursor_suffix ops D (ed_cursor st) = Some (c', w)" "wf_tree ops w" "flat w = drop j (flat t)"
    using cursor_suffix_correct [of t j "ed_cursor st"] at(1) keyed_walkable [OF t] by (auto simp: cursor_ready_def)
  obtain z where z: "tree_append ops v w = Some z" "wf_tree ops z" "flat z = out @ drop j (flat t)"
    using tree_append_correct [OF v(2) w(2)] v(3) w(3) by auto
  show ?thesis using ne c(1) st(1,3) at(4) v(1) w(1) z by (simp add: tree_edit_def)
qed

theorem tree_get_correct:
  assumes t: "keyed t"
  shows "tree_get D t k = matching key k (flat t)"
proof (cases "is_empty t")
  case True
  then have "flat t = []" using is_empty_flat [OF keyed_wf [OF t]] by simp
  moreover obtain s iss where "t = Leaf s [] iss" using True keyed_wf [OF t] by (cases t) auto
  ultimately show ?thesis
    by (simp add: tree_get_def find_exact_def find_with_def Let_def matching_def keys_from_def)
next
  case False
  have srt: "sorted (map key (flat t))" using t by (simp add: keyed_def)
  have e: "ends D (dzero D) (map (ssummary ops) (flat t)) = map key (flat t)"
    using key_ends [OF srt, of 0] by simp
  have anti: "antitone_target D (key_target k) (dzero D) (map (ssummary ops) (flat t))"
    unfolding antitone_target_def e sorted_wrt_map
    using srt unfolding sorted_wrt_map
    by (rule sorted_wrt_mono_rel [rotated]) (auto simp: key_target_def cmp_def)
  let ?n = "length (keys_before key k (flat t))"
  have n: "seek_len D (key_target k) Left (dzero D) (map (ssummary ops) (flat t)) = ?n"
    using key_seek_len [OF srt, of k 0] by simp
  have "tree_get D t k = (if ?n < length (flat t) \<and> key (flat t ! ?n) = k then Some (flat t ! ?n) else None)"
    using find_exact_correct [OF keyed_wf [OF t] False anti]
    by (auto simp: tree_get_def Let_def n e key_target_def)
  also have "\<dots> = matching key k (flat t)"
    by (cases "?n < length (flat t)") (simp_all add: matching_def keys_from_drop drop_eq_Cons_nth)
  finally show ?thesis .
qed

end

end
