(* ===== verification/Tree_Map.thy ===== *)
theory Tree_Map
  imports Keyed_Tree "HOL-Library.Option_ord"
begin

text \<open>
  The crate \<open>sum_tree\<close>, file \<open>tree_map.rs\<close>: ordered maps and sets over a tree of entries. The
  summary of a subtree is its greatest key, so addition keeps the right argument. A lazy iterator
  is the list of what it yields.
\<close>

section \<open>Model\<close>

record ('k, 'v) map_entry =
  me_key :: 'k
  me_value :: 'v

type_synonym 'k map_key = "'k option"
type_synonym ('k, 'v) tree_map = "(('k, 'v) map_entry, 'k map_key) node"

definition entry_key :: "('k, 'v) map_entry \<Rightarrow> 'k map_key" where
  "entry_key e = Some (me_key e)"

definition map_ops :: "(('k, 'v) map_entry, 'k map_key) item_ops" where
  "map_ops = \<lparr>szero = None, sadd = (\<lambda>_ summary. summary), ssummary = entry_key\<rparr>"

text \<open>\<open>MapKeyRef\<close> as a dimension, and \<open>MapKey\<close> as a dimension of itself.\<close>

definition map_dim :: "('k map_key, 'k map_key) dim_ops" where
  "map_dim = \<lparr>dzero = None, dadd = (\<lambda>_ summary. summary)\<rparr>"

definition entry :: "'k \<times> 'v \<Rightarrow> ('k, 'v) map_entry" where
  "entry kv = \<lparr>me_key = fst kv, me_value = snd kv\<rparr>"

definition pair_of :: "('k, 'v) map_entry \<Rightarrow> 'k \<times> 'v" where
  "pair_of e = (me_key e, me_value e)"

definition map_new :: "('k, 'v) tree_map" where
  "map_new = tree_new map_ops"

definition from_ordered_entries :: "('k \<times> 'v) list \<Rightarrow> ('k, 'v) tree_map" where
  "from_ordered_entries entries = tree_from_iter map_ops (map entry entries)"

definition map_is_empty :: "('k, 'v) tree_map \<Rightarrow> bool" where
  "map_is_empty m = is_empty m"

definition map_get :: "('k::linorder, 'v) tree_map \<Rightarrow> 'k \<Rightarrow> 'v option" where
  "map_get m key =
     (case snd (snd (find_item map_dim (key_target (Some key)) Left m)) of
        Some item \<Rightarrow> if Some key = entry_key item then Some (me_value item) else None
      | None \<Rightarrow> None)"

definition contains_key :: "('k::linorder, 'v) tree_map \<Rightarrow> 'k \<Rightarrow> bool" where
  "contains_key m key = (map_get m key \<noteq> None)"

definition map_insert_or_replace ::
  "('k::linorder, 'v) tree_map \<Rightarrow> 'k \<Rightarrow> 'v \<Rightarrow> (('k, 'v) tree_map \<times> 'v option) option" where
  "map_insert_or_replace m key value = do {
     (m, replaced) \<leftarrow> insert_or_replace map_ops map_dim entry_key m (entry (key, value));
     Some (m, map_option me_value replaced) }"

definition map_insert :: "('k::linorder, 'v) tree_map \<Rightarrow> 'k \<Rightarrow> 'v \<Rightarrow> ('k, 'v) tree_map option" where
  "map_insert m key value = do {
     (m, _) \<leftarrow> insert_or_replace map_ops map_dim entry_key m (entry (key, value));
     Some m }"

definition map_extend :: "('k::linorder, 'v) tree_map \<Rightarrow> ('k \<times> 'v) list \<Rightarrow> ('k, 'v) tree_map option" where
  "map_extend m entries = do {
     (m, _) \<leftarrow> tree_edit map_ops map_dim entry_key m (map (Insert \<circ> entry) entries);
     Some m }"

definition map_clear :: "('k, 'v) tree_map \<Rightarrow> ('k, 'v) tree_map" where
  "map_clear m = map_new"

definition map_remove :: "('k::linorder, 'v) tree_map \<Rightarrow> 'k \<Rightarrow> (('k, 'v) tree_map \<times> 'v option) option" where
  "map_remove m key = do {
     (c, new_tree) \<leftarrow> cursor_slice map_ops map_dim (key_target (Some key)) Left (cursor_new map_dim m);
     e \<leftarrow> cursor_end map_dim c;
     (c, removed) \<leftarrow>
       (if key_target (Some key) e = Equal
        then do { item \<leftarrow> cursor_item c; item \<leftarrow> item; c \<leftarrow> cursor_next map_dim c; Some (c, Some (me_value item)) }
        else Some (c, None));
     (c, suffix) \<leftarrow> cursor_suffix map_ops map_dim c;
     new_tree \<leftarrow> tree_append map_ops new_tree suffix;
     Some (new_tree, removed) }"

text \<open>\<open>MapSeekTargetAdaptor\<close>: a comparison of keys as a target; the start precedes every key.\<close>

definition adaptor_target :: "('k \<Rightarrow> ordering) \<Rightarrow> 'k map_key \<Rightarrow> ordering" where
  "adaptor_target cmp_cursor cursor_location =
     (case cursor_location of Some key \<Rightarrow> cmp_cursor key | None \<Rightarrow> Greater)"

definition remove_range ::
  "('k::linorder, 'v) tree_map \<Rightarrow> ('k \<Rightarrow> ordering) \<Rightarrow> ('k \<Rightarrow> ordering) \<Rightarrow> ('k, 'v) tree_map option" where
  "remove_range m start stop = do {
     (c, new_tree) \<leftarrow> cursor_slice map_ops map_dim (adaptor_target start) Left (cursor_new map_dim m);
     (c, _) \<leftarrow> cursor_seek map_dim (adaptor_target stop) Left c;
     (c, suffix) \<leftarrow> cursor_suffix map_ops map_dim c;
     tree_append map_ops new_tree suffix }"

definition closest :: "('k::linorder, 'v) tree_map \<Rightarrow> 'k \<Rightarrow> ('k \<times> 'v) option option" where
  "closest m key = do {
     (c, _) \<leftarrow> cursor_seek map_dim (key_target (Some key)) Right (cursor_new map_dim m);
     c \<leftarrow> cursor_prev map_dim c;
     item \<leftarrow> cursor_item c;
     Some (map_option pair_of item) }"

text \<open>What the iterator of a cursor yields.\<close>

partial_function (option) cursor_collect ::
  "('s, 'd) dim_ops \<Rightarrow> ('t, 's, 'd) cursor \<Rightarrow> 't list \<Rightarrow> 't list option" where
  "cursor_collect D c acc = do {
     r \<leftarrow> cursor_iter_next D c;
     case snd r of None \<Rightarrow> Some acc | Some x \<Rightarrow> cursor_collect D (fst r) (acc @ [x]) }"

declare cursor_collect.simps [code]

definition map_iter_from :: "('k::linorder, 'v) tree_map \<Rightarrow> 'k \<Rightarrow> ('k \<times> 'v) list option" where
  "map_iter_from m from_key = do {
     (c, _) \<leftarrow> cursor_seek map_dim (key_target (Some from_key)) Left (cursor_new map_dim m);
     xs \<leftarrow> cursor_collect map_dim c [];
     Some (map pair_of xs) }"

text \<open>The closure of \<open>update\<close> changes the value and returns a result.\<close>

definition map_update ::
  "('k::linorder, 'v) tree_map \<Rightarrow> 'k \<Rightarrow> ('v \<Rightarrow> 'v \<times> 'r) \<Rightarrow> (('k, 'v) tree_map \<times> 'r option) option" where
  "map_update m key f = do {
     (c, new_tree) \<leftarrow> cursor_slice map_ops map_dim (key_target (Some key)) Left (cursor_new map_dim m);
     e \<leftarrow> cursor_end map_dim c;
     (c, new_tree, result) \<leftarrow>
       (if key_target (Some key) e = Equal
        then do { item \<leftarrow> cursor_item c;
                  updated \<leftarrow> item;
                  let (value, result) = f (me_value updated);
                  new_tree \<leftarrow> tree_push map_ops new_tree (updated\<lparr>me_value := value\<rparr>);
                  c \<leftarrow> cursor_next map_dim c;
                  Some (c, new_tree, Some result) }
        else Some (c, new_tree, None));
     (c, suffix) \<leftarrow> cursor_suffix map_ops map_dim c;
     new_tree \<leftarrow> tree_append map_ops new_tree suffix;
     Some (new_tree, result) }"

partial_function (option) retain_loop ::
  "('k \<Rightarrow> 'v \<Rightarrow> bool) \<Rightarrow> (('k, 'v) map_entry, 'k map_key, 'k map_key) cursor \<Rightarrow> ('k, 'v) tree_map \<Rightarrow>
   ('k, 'v) tree_map option" where
  "retain_loop predicate c new_map = do {
     item \<leftarrow> cursor_item c;
     case item of
       None \<Rightarrow> Some new_map
     | Some x \<Rightarrow> do {
         new_map \<leftarrow> (if predicate (me_key x) (me_value x) then tree_push map_ops new_map x else Some new_map);
         c \<leftarrow> cursor_next map_dim c;
         retain_loop predicate c new_map } }"

declare retain_loop.simps [code]

definition map_retain :: "('k, 'v) tree_map \<Rightarrow> ('k \<Rightarrow> 'v \<Rightarrow> bool) \<Rightarrow> ('k, 'v) tree_map option" where
  "map_retain m predicate = do {
     c \<leftarrow> cursor_next map_dim (cursor_new map_dim m);
     retain_loop predicate c map_new }"

definition map_iter :: "('k, 'v) tree_map \<Rightarrow> ('k \<times> 'v) list option" where
  "map_iter m = do { xs \<leftarrow> iter_collect (iter_new m) []; Some (map pair_of xs) }"

definition map_values :: "('k, 'v) tree_map \<Rightarrow> 'v list option" where
  "map_values m = do { xs \<leftarrow> iter_collect (iter_new m) []; Some (map me_value xs) }"

definition map_first_entry :: "('k, 'v) tree_map \<Rightarrow> ('k \<times> 'v) option option" where
  "map_first_entry m = do { item \<leftarrow> tree_first m; Some (map_option pair_of item) }"

definition map_last_entry :: "('k, 'v) tree_map \<Rightarrow> ('k \<times> 'v) option option" where
  "map_last_entry m = do { item \<leftarrow> tree_last m; Some (map_option pair_of item) }"

definition insert_tree ::
  "('k::linorder, 'v) tree_map \<Rightarrow> ('k, 'v) tree_map \<Rightarrow> ('k, 'v) tree_map option" where
  "insert_tree m other = do {
     entries \<leftarrow> map_iter other;
     (m, _) \<leftarrow> tree_edit map_ops map_dim entry_key m (map (Insert \<circ> entry) entries);
     Some m }"

text \<open>\<open>TreeSet\<close> is a map to the unit value.\<close>

type_synonym 'k tree_set = "('k, unit) tree_map"

definition set_from_ordered_entries :: "'k list \<Rightarrow> 'k tree_set" where
  "set_from_ordered_entries entries = from_ordered_entries (map (\<lambda>key. (key, ())) entries)"

definition set_is_empty :: "'k tree_set \<Rightarrow> bool" where
  "set_is_empty s = map_is_empty s"

definition set_insert :: "'k::linorder tree_set \<Rightarrow> 'k \<Rightarrow> 'k tree_set option" where
  "set_insert s key = map_insert s key ()"

definition set_remove :: "'k::linorder tree_set \<Rightarrow> 'k \<Rightarrow> ('k tree_set \<times> bool) option" where
  "set_remove s key = do { (s, removed) \<leftarrow> map_remove s key; Some (s, removed \<noteq> None) }"

definition set_extend :: "'k::linorder tree_set \<Rightarrow> 'k list \<Rightarrow> 'k tree_set option" where
  "set_extend s keys = map_extend s (map (\<lambda>key. (key, ())) keys)"

definition set_contains :: "'k::linorder tree_set \<Rightarrow> 'k \<Rightarrow> bool" where
  "set_contains s key = (map_get s key \<noteq> None)"

definition set_iter :: "'k tree_set \<Rightarrow> 'k list option" where
  "set_iter s = do { xs \<leftarrow> map_iter s; Some (map fst xs) }"

definition set_iter_from :: "'k::linorder tree_set \<Rightarrow> 'k \<Rightarrow> 'k list option" where
  "set_iter_from s key = do { xs \<leftarrow> map_iter_from s key; Some (map fst xs) }"

section \<open>Entries are keyed items\<close>

lemma map_summary: "ssummary map_ops = entry_key" and map_zero: "dzero map_dim = None"
  by (simp_all add: map_ops_def map_dim_def)

interpretation mk: keyed_tree map_ops map_dim entry_key
  by unfold_locales (auto simp: map_ops_def map_dim_def)

text \<open>A well-formed map: a tree of entries whose keys increase strictly.\<close>

definition map_ok :: "('k::linorder, 'v) tree_map \<Rightarrow> bool" where
  "map_ok m \<longleftrightarrow> wf_tree map_ops m \<and> keys_sorted me_key (flat m)"

definition contents :: "('k, 'v) tree_map \<Rightarrow> 'k \<rightharpoonup> 'v" where
  "contents m = map_of (map pair_of (flat m))"

lemma entry_key_sorted: "keys_sorted entry_key xs \<longleftrightarrow> keys_sorted me_key xs"
  by (simp add: entry_key_def)

lemma map_ok_keyed: "map_ok m \<Longrightarrow> shallow m \<Longrightarrow> mk.keyed m"
  by (simp add: map_ok_def mk.keyed_def walkable_def keys_sorted_weak entry_key_sorted)

lemma keys_sorted_distinct: "keys_sorted me_key xs \<Longrightarrow> distinct (map fst (map pair_of xs))"
  by (induction xs) (auto simp: pair_of_def)

lemma entry_pair [simp]: "entry (pair_of e) = e" and pair_entry [simp]: "pair_of (entry p) = p"
  by (simp_all add: entry_def pair_of_def)

lemma me_entry [simp]: "me_key (entry p) = fst p" "me_value (entry p) = snd p"
  by (simp_all add: entry_def)

lemma entry_inject [simp]: "entry p = entry q \<longleftrightarrow> p = q"
  by (metis pair_entry)

lemma pair_image: "p \<in> pair_of ` S \<longleftrightarrow> entry p \<in> S"
  by (metis entry_pair pair_entry image_iff)

lemma contents_iff:
  assumes "map_ok m"
  shows "contents m k = Some v \<longleftrightarrow> entry (k, v) \<in> set (flat m)"
  using assms keys_sorted_distinct [of "flat m"]
  by (simp add: contents_def map_ok_def map_of_eq_Some_iff pair_image)

lemma contents_eqI:
  assumes "map_ok m" and "\<And>v. entry (k, v) \<in> set (flat m) \<longleftrightarrow> f = Some v"
  shows "contents m k = f"
proof -
  have "contents m k = Some v \<longleftrightarrow> f = Some v" for v
    using contents_iff [OF assms(1)] assms(2) by simp
  then show ?thesis by (metis not_Some_eq)
qed

lemma matching_contents:
  assumes "map_ok m"
  shows "map_option me_value (matching entry_key (Some k) (flat m)) = contents m k"
proof (rule contents_eqI [OF assms, symmetric])
  fix v
  have srt: "keys_sorted entry_key (flat m)" using assms by (simp add: map_ok_def entry_key_sorted)
  have "entry (k, v) \<in> set (flat m) \<longleftrightarrow> (\<exists>y \<in> set (flat m). me_key y = k \<and> me_value y = v)"
    by (metis entry_pair me_entry pair_of_def fst_conv snd_conv)
  also have "\<dots> \<longleftrightarrow> (\<exists>y. matching entry_key (Some k) (flat m) = Some y \<and> me_value y = v)"
    unfolding matching_iff [OF srt] by (auto simp: entry_key_def)
  finally show "entry (k, v) \<in> set (flat m) \<longleftrightarrow> map_option me_value (matching entry_key (Some k) (flat m)) = Some v"
    by auto
qed

section \<open>Lookup, insertion and removal\<close>

lemma map_ok_new: "map_ok map_new" and contents_new: "contents map_new = Map.empty"
  by (simp_all add: map_ok_def map_new_def contents_def)

lemma map_okI: "wf_tree map_ops m \<Longrightarrow> keys_sorted entry_key (flat m) \<Longrightarrow> map_ok m"
  by (simp add: map_ok_def entry_key_sorted)

lemma map_ok_sorted: "map_ok m \<Longrightarrow> keys_sorted entry_key (flat m)"
  by (simp add: map_ok_def entry_key_sorted)

lemma map_get_correct:
  assumes "map_ok m"
  shows "map_get m k = contents m k"
proof -
  have wf: "wf_tree map_ops m" using assms by (simp add: map_ok_def)
  have srt: "sorted (map entry_key (flat m))" using keys_sorted_weak [OF map_ok_sorted [OF assms]] .
  let ?n = "length (keys_before entry_key (Some k) (flat m))"
  have found: "snd (snd (find_item map_dim (key_target (Some k)) Left m)) =
      (if ?n < length (flat m) then Some (flat m ! ?n) else None)"
  proof (cases "is_empty m")
    case True
    then obtain s iss where "m = Leaf s [] iss" using wf by (cases m) auto
    then show ?thesis by (simp add: find_item_def find_with_def Let_def)
  next
    case False
    with mk.find_item_correct [OF wf False, of "key_target (Some k)" Left]
      mk.key_mono_target [OF srt, of "Some k" Left 0] mk.key_seek_len [OF srt, of "Some k" 0]
    show ?thesis by (simp add: Let_def)
  qed
  have "map_get m k = map_option me_value (matching entry_key (Some k) (flat m))"
    unfolding map_get_def found
    by (cases "?n < length (flat m)") (simp_all add: matching_def keys_from_drop drop_eq_Cons_nth)
  then show ?thesis by (simp add: matching_contents [OF assms])
qed

lemma insert_or_replace_map:
  assumes "map_ok m" and "shallow m"
  shows "\<exists>m'. insert_or_replace map_ops map_dim entry_key m (entry (k, v)) =
      Some (m', matching entry_key (Some k) (flat m)) \<and>
    map_ok m' \<and> contents m' = (contents m)(k \<mapsto> v)"
proof -
  have srt: "keys_sorted entry_key (flat m)" by (rule map_ok_sorted [OF assms(1)])
  have key: "entry_key (entry (k, v)) = Some k" by (simp add: entry_key_def)
  obtain m' where m': "insert_or_replace map_ops map_dim entry_key m (entry (k, v)) =
        Some (m', matching entry_key (Some k) (flat m))" "wf_tree map_ops m'"
      "flat m' = list_insert entry_key (entry (k, v)) (flat m)"
    using mk.insert_or_replace_correct [OF map_ok_keyed [OF assms], of "entry (k, v)"] key by auto
  have ok: "map_ok m'" using m'(2,3) list_insert_sorted [OF srt] by (simp add: map_okI)
  moreover have "contents m' j = ((contents m)(k \<mapsto> v)) j" for j
  proof (rule contents_eqI [OF ok])
    fix w
    show "entry (j, w) \<in> set (flat m') \<longleftrightarrow> ((contents m)(k \<mapsto> v)) j = Some w"
      using contents_iff [OF assms(1), of j w]
      by (auto simp: m'(3) set_list_insert [OF srt] entry_key_def)
  qed
  ultimately show ?thesis using m'(1) by auto
qed

lemma map_insert_correct:
  assumes "map_ok m" and "shallow m"
  shows "\<exists>m'. map_insert m k v = Some m' \<and> map_ok m' \<and> contents m' = (contents m)(k \<mapsto> v)"
  using insert_or_replace_map [OF assms, of k v] by (auto simp: map_insert_def)

lemma map_insert_or_replace_correct:
  assumes "map_ok m" and "shallow m"
  shows "\<exists>m'. map_insert_or_replace m k v = Some (m', contents m k) \<and> map_ok m' \<and>
    contents m' = (contents m)(k \<mapsto> v)"
  using insert_or_replace_map [OF assms, of k v] matching_contents [OF assms(1), of k]
  by (auto simp: map_insert_or_replace_def)

text \<open>The end of the item the cursor stops at is the key exactly when the item has the key.\<close>

lemma end_is_key:
  assumes at: "cursor_at map_ops map_dim m (length (keys_before entry_key (Some k) (flat m))) c"
    and ok: "map_ok m"
  shows "\<exists>e. cursor_end map_dim c = Some e \<and>
    (key_target (Some k) e = Equal \<longleftrightarrow> matching entry_key (Some k) (flat m) \<noteq> None)"
proof -
  have wf: "wf_tree map_ops m" using ok by (simp add: map_ok_def)
  have srt: "sorted (map entry_key (flat m))" using keys_sorted_weak [OF map_ok_sorted [OF ok]] .
  let ?bs = "keys_before entry_key (Some k) (flat m)"
  let ?n = "length ?bs"
  have tk: "take ?n (flat m) = ?bs" unfolding keys_before_def by (rule takeWhile_eq_take [symmetric])
  have srt': "sorted (map entry_key (take i (flat m)))" for i using srt by (metis sorted_wrt_take take_map)
  have "key_target (Some k) (position_of map_ops map_dim (take (Suc ?n) (flat m))) = Equal \<longleftrightarrow>
      matching entry_key (Some k) (flat m) \<noteq> None"
  proof (cases "?n < length (flat m)")
    case True
    then have "take (Suc ?n) (flat m) = ?bs @ [flat m ! ?n]" using tk by (simp add: take_Suc_conv_app_nth)
    then have "position_of map_ops map_dim (take (Suc ?n) (flat m)) = entry_key (flat m ! ?n)"
      using mk.position_keys [OF srt' [of "Suc ?n"]] by simp
    with True show ?thesis
      by (auto simp: key_target_def matching_def keys_from_drop drop_eq_Cons_nth)
  next
    case False
    then have all: "?bs = flat m" using tk by simp
    then have "\<forall>x \<in> set (flat m). entry_key x < Some k"
      unfolding keys_before_def by (metis set_takeWhileD)
    moreover have "position_of map_ops map_dim (flat m) = (if flat m = [] then None else entry_key (last (flat m)))"
      using mk.position_keys [OF srt] by (simp add: map_dim_def)
    ultimately show ?thesis
      using all by (auto simp: key_target_def matching_def keys_from_drop dest: last_in_set)
  qed
  with cursor_end_at [OF at wf] show ?thesis by blast
qed

lemma slice_map:
  assumes "map_ok m" and "shallow m"
  shows "\<exists>c u. cursor_slice map_ops map_dim (key_target (Some k)) Left (cursor_new map_dim m) = Some (c, u) \<and>
    cursor_at map_ops map_dim m (length (keys_before entry_key (Some k) (flat m))) c \<and>
    wf_tree map_ops u \<and> flat u = keys_before entry_key (Some k) (flat m)"
  using mk.slice_to_key [OF mk.cursor_new_ready map_ok_keyed [OF assms], of "Some k"]
  by (simp add: cursor_new_def map_dim_def)

lemma map_remove_eq:
  assumes "map_ok m" and "shallow m"
  shows "map_remove m k = do {
    (t, r) \<leftarrow> tree_remove map_ops map_dim entry_key m (Some k); Some (t, map_option me_value r) }"
proof -
  obtain c u where c: "cursor_slice map_ops map_dim (key_target (Some k)) Left (cursor_new map_dim m) = Some (c, u)"
      "cursor_at map_ops map_dim m (length (keys_before entry_key (Some k) (flat m))) c"
    using slice_map [OF assms] by blast
  obtain e where e: "cursor_end map_dim c = Some e"
      "key_target (Some k) e = Equal \<longleftrightarrow> matching entry_key (Some k) (flat m) \<noteq> None"
    using end_is_key [OF c(2) assms(1)] by blast
  obtain c' where "(do { item \<leftarrow> cursor_item c; take_matching map_dim entry_key (Some k) c item }) =
      Some (c', matching entry_key (Some k) (flat m))"
    using mk.take_matching_correct [OF c(2) map_ok_keyed [OF assms] keys_from_drop [symmetric]] by blast
  then obtain i where i: "cursor_item c = Some i"
      "take_matching map_dim entry_key (Some k) c i = Some (c', matching entry_key (Some k) (flat m))"
    by (auto simp: bind_eq_Some_conv)
  show ?thesis
  proof (cases "matching entry_key (Some k) (flat m)")
    case None
    with i(2) have "c' = c" by (auto simp: take_matching_def bind_eq_Some_conv split: option.splits if_splits)
    with None e i c(1) show ?thesis
      by (simp add: map_remove_def tree_remove_def split: Option.bind_split prod.split)
  next
    case (Some y)
    with i(2) have "i = Some y" "cursor_next map_dim c = Some c'"
      by (auto simp: take_matching_def bind_eq_Some_conv split: option.splits if_splits)
    with Some e i c(1) show ?thesis
      by (simp add: map_remove_def tree_remove_def split: Option.bind_split prod.split)
  qed
qed

lemma map_remove_correct:
  assumes "map_ok m" and "shallow m"
  shows "\<exists>m'. map_remove m k = Some (m', contents m k) \<and> map_ok m' \<and> contents m' = (contents m)(k := None)"
proof -
  have srt: "keys_sorted entry_key (flat m)" by (rule map_ok_sorted [OF assms(1)])
  obtain m' where m': "tree_remove map_ops map_dim entry_key m (Some k) = Some (m', matching entry_key (Some k) (flat m))"
      "wf_tree map_ops m'" "flat m' = list_remove entry_key (Some k) (flat m)"
    using mk.tree_remove_correct [OF map_ok_keyed [OF assms], of "Some k"] by (auto simp: map_dim_def)
  have ok: "map_ok m'" using m'(2,3) list_remove_sorted [OF srt] by (simp add: map_okI)
  moreover have "contents m' j = ((contents m)(k := None)) j" for j
  proof (rule contents_eqI [OF ok])
    fix w
    show "entry (j, w) \<in> set (flat m') \<longleftrightarrow> ((contents m)(k := None)) j = Some w"
      using contents_iff [OF assms(1), of j w]
      by (auto simp: m'(3) set_list_remove [OF srt] entry_key_def)
  qed
  ultimately show ?thesis
    using m'(1) matching_contents [OF assms(1), of k] by (auto simp: map_remove_eq [OF assms])
qed

section \<open>The contract of an ordered map\<close>

text \<open>
  What a client of the map relies on. \<open>room\<close> is the height limit of the cursor that every
  mutation walks with.
\<close>

locale ordered_map =
  fixes ok :: "'m \<Rightarrow> bool" and room :: "'m \<Rightarrow> bool" and lookup :: "'m \<Rightarrow> 'k \<Rightarrow> 'v option"
    and put :: "'m \<Rightarrow> 'k \<Rightarrow> 'v \<Rightarrow> 'm option" and del :: "'m \<Rightarrow> 'k \<Rightarrow> ('m \<times> 'v option) option"
  assumes put_law: "ok m \<Longrightarrow> room m \<Longrightarrow> \<exists>m'. put m k v = Some m' \<and> ok m' \<and> lookup m' = (lookup m)(k \<mapsto> v)"
    and del_law: "ok m \<Longrightarrow> room m \<Longrightarrow>
      \<exists>m'. del m k = Some (m', lookup m k) \<and> ok m' \<and> lookup m' = (lookup m)(k := None)"
begin

lemma put_E:
  assumes "ok m" and "room m"
  obtains m' where "put m k v = Some m'" and "ok m'" and "lookup m' = (lookup m)(k \<mapsto> v)"
  using put_law [OF assms] by blast

text \<open>The last write to a key wins, writes to distinct keys commute, a removal undoes a fresh write.\<close>

lemma put_put:
  assumes "ok m" and "put m k v = Some m1" and "put m1 k w = Some m2" and "room m" and "room m1"
  shows "lookup m2 = (lookup m)(k \<mapsto> w)"
  using put_law [OF assms(1,4), of k v] put_law [OF _ assms(5), of k w] assms(2,3) by auto

lemma put_commute:
  assumes "ok m" and "room m" and "j \<noteq> k"
    and "put m j u = Some m1" and "put m1 k v = Some m2" and "room m1"
    and "put m k v = Some m3" and "put m3 j u = Some m4" and "room m3"
  shows "lookup m2 = lookup m4"
proof -
  from put_law [OF assms(1,2), of j u] put_law [OF _ assms(6), of k v] assms(4,5)
  have "lookup m2 = (lookup m)(j \<mapsto> u, k \<mapsto> v)" by auto
  moreover from put_law [OF assms(1,2), of k v] put_law [OF _ assms(9), of j u] assms(7,8)
  have "lookup m4 = (lookup m)(k \<mapsto> v, j \<mapsto> u)" by auto
  ultimately show ?thesis using assms(3) by (simp add: fun_upd_twist)
qed

lemma put_del:
  assumes "ok m" and "room m" and "put m k v = Some m1" and "room m1"
  shows "\<exists>m2. del m1 k = Some (m2, Some v) \<and> ok m2 \<and> lookup m2 = (lookup m)(k := None)"
  using put_law [OF assms(1,2), of k v] del_law [OF _ assms(4), of k] assms(3) by auto

end

lemma map_get_contents: "map_ok m \<Longrightarrow> map_get m = contents m"
  by (rule ext) (rule map_get_correct)

interpretation tm: ordered_map map_ok shallow map_get map_insert map_remove
proof
  fix m :: "('a::linorder, 'b) tree_map" and k v
  assume m: "map_ok m" "shallow m"
  from map_insert_correct [OF m, of k v]
  show "\<exists>m'. map_insert m k v = Some m' \<and> map_ok m' \<and> map_get m' = (map_get m)(k \<mapsto> v)"
    by (auto simp: map_get_contents m)
  from map_remove_correct [OF m, of k]
  show "\<exists>m'. map_remove m k = Some (m', map_get m k) \<and> map_ok m' \<and> map_get m' = (map_get m)(k := None)"
    by (auto simp: map_get_contents m)
qed

section \<open>Updating, retaining and batches\<close>

lemma map_update_correct:
  assumes ok: "map_ok m" and sh: "shallow m"
  shows "\<exists>m'. map_update m k f = Some (m', map_option (snd \<circ> f) (contents m k)) \<and> map_ok m' \<and>
    contents m' = (case contents m k of Some v \<Rightarrow> (contents m)(k \<mapsto> fst (f v)) | None \<Rightarrow> contents m)"
proof -
  have srt: "keys_sorted entry_key (flat m)" by (rule map_ok_sorted [OF ok])
  have walk: "walkable map_ops m" using mk.keyed_walkable [OF map_ok_keyed [OF assms]] .
  obtain c u where c: "cursor_slice map_ops map_dim (key_target (Some k)) Left (cursor_new map_dim m) = Some (c, u)"
      "cursor_at map_ops map_dim m (length (keys_before entry_key (Some k) (flat m))) c"
      "wf_tree map_ops u" "flat u = keys_before entry_key (Some k) (flat m)"
    using slice_map [OF assms] by blast
  obtain e where e: "cursor_end map_dim c = Some e"
      "key_target (Some k) e = Equal \<longleftrightarrow> matching entry_key (Some k) (flat m) \<noteq> None"
    using end_is_key [OF c(2) ok] by blast
  obtain c' j where c': "(do { item \<leftarrow> cursor_item c; take_matching map_dim entry_key (Some k) c item }) =
      Some (c', matching entry_key (Some k) (flat m))"
      "cursor_at map_ops map_dim m j c'" "drop j (flat m) = keys_after entry_key (Some k) (flat m)"
    using mk.take_matching_correct [OF c(2) map_ok_keyed [OF assms] keys_from_drop [symmetric]] by blast
  from c'(1) obtain i where i: "cursor_item c = Some i"
      "take_matching map_dim entry_key (Some k) c i = Some (c', matching entry_key (Some k) (flat m))"
    by (auto simp: bind_eq_Some_conv)
  obtain c'' w where w: "cursor_suffix map_ops map_dim c' = Some (c'', w)" "wf_tree map_ops w"
      "flat w = keys_after entry_key (Some k) (flat m)"
    using mk.cursor_suffix_correct [OF _ walk, of j c'] c'(2,3) by (auto simp: cursor_ready_def)
  show ?thesis
  proof (cases "matching entry_key (Some k) (flat m)")
    case None
    with i(2) have "c' = c" by (auto simp: take_matching_def bind_eq_Some_conv split: option.splits if_splits)
    moreover obtain z where z: "tree_append map_ops u w = Some z" "wf_tree map_ops z" "flat z = flat u @ flat w"
      using mk.tree_append_correct [OF c(3) w(2)] by blast
    moreover have "flat z = flat m"
      using z(3) c(4) w(3) None keys_split [of entry_key "Some k" "flat m"] by (simp add: keys_after_def)
    moreover from this have "map_ok z" "contents z = contents m"
      using z(2) srt by (simp_all add: map_okI contents_def)
    ultimately show ?thesis
      using None e i c(1) w(1) matching_contents [OF ok, of k] by (simp add: map_update_def)
  next
    case (Some y)
    with i(2) have iy: "i = Some y" "cursor_next map_dim c = Some c'"
      by (auto simp: take_matching_def bind_eq_Some_conv split: option.splits if_splits)
    have "entry_key y = Some k" using matching_iff [OF srt, of "Some k" y] Some by simp
    then have y: "me_key y = k" by (simp add: entry_key_def)
    let ?v = "fst (f (me_value y))" let ?y = "y\<lparr>me_value := ?v\<rparr>"
    have ye: "?y = entry (k, ?v)" using y by (cases y) (simp add: entry_def)
    obtain u' where u': "tree_push map_ops u ?y = Some u'" "wf_tree map_ops u'" "flat u' = flat u @ [?y]"
      using mk.tree_push_correct [OF c(3)] by blast
    obtain z where z: "tree_append map_ops u' w = Some z" "wf_tree map_ops z" "flat z = flat u' @ flat w"
      using mk.tree_append_correct [OF u'(2) w(2)] by blast
    have fz: "flat z = list_insert entry_key (entry (k, ?v)) (flat m)"
      using z(3) u'(3) c(4) w(3) ye by (simp add: list_insert_def entry_key_def)
    have okz: "map_ok z" using z(2) fz list_insert_sorted [OF srt] by (simp add: map_okI)
    have cz: "contents z = (contents m)(k \<mapsto> ?v)"
    proof
      fix j show "contents z j = ((contents m)(k \<mapsto> ?v)) j"
        using contents_iff [OF ok, of j]
        by (intro contents_eqI [OF okz]) (auto simp: fz set_list_insert [OF srt] entry_key_def)
    qed
    have "contents m k = Some (me_value y)" using matching_contents [OF ok, of k] Some by simp
    with Some e i iy c(1) w(1) u'(1) z(1) okz cz show ?thesis
      by (cases "f (me_value y)") (simp add: map_update_def)
  qed
qed

lemma retain_loop_correct:
  fixes m :: "('k::linorder, 'v) tree_map"
  assumes "cursor_at map_ops map_dim m j c" and "walkable map_ops m" and "wf_tree map_ops acc"
  shows "\<exists>m'. retain_loop P c acc = Some m' \<and> wf_tree map_ops m' \<and>
    flat m' = flat acc @ filter (\<lambda>x. P (me_key x) (me_value x)) (drop j (flat m))"
  using assms(1,3)
proof (induction "length (flat m) - j" arbitrary: j c acc)
  case 0
  have "wf_tree map_ops m" using assms(2) by (simp add: walkable_def)
  from cursor_item_at [OF 0(2) this] 0 show ?case by (subst retain_loop.simps) simp
next
  case (Suc n)
  have wf: "wf_tree map_ops m" using assms(2) by (simp add: walkable_def)
  from Suc(2) have lt: "j < length (flat m)" by simp
  let ?x = "flat m ! j" let ?keep = "P (me_key (flat m ! j)) (me_value (flat m ! j))"
  have "forward_start map_ops map_dim m (Suc j) c" using Suc(3) lt by (auto simp: forward_start_def)
  then obtain c' where c': "cursor_next map_dim c = Some c'" "cursor_at map_ops map_dim m (Suc j) c'"
    using mk.cursor_next_correct [OF _ assms(2)] by blast
  obtain acc' where acc': "(if ?keep then tree_push map_ops acc ?x else Some acc) = Some acc'"
      "wf_tree map_ops acc'" "flat acc' = flat acc @ (if ?keep then [?x] else [])"
    using mk.tree_push_correct [OF Suc(4), of ?x] Suc(4) by (cases ?keep) auto
  have "retain_loop P c acc = retain_loop P c' acc'"
    using cursor_item_at [OF Suc(3) wf] lt c'(1) acc'(1) by (subst retain_loop.simps) simp
  moreover have "n = length (flat m) - Suc j" using Suc(2) by simp
  ultimately show ?case
    using Suc(1) [of "Suc j" c' acc'] c'(2) acc'(2,3) lt
    by (cases ?keep) (simp_all add: drop_eq_Cons_nth)
qed

lemma map_retain_correct:
  assumes "map_ok m" and "shallow m"
  shows "\<exists>m'. map_retain m P = Some m' \<and> map_ok m' \<and>
    flat m' = filter (\<lambda>x. P (me_key x) (me_value x)) (flat m)"
proof -
  have walk: "walkable map_ops m" using mk.keyed_walkable [OF map_ok_keyed [OF assms]] .
  have "forward_start map_ops map_dim m 0 (cursor_new map_dim m)" by (simp add: forward_start_def cursor_fresh_new)
  then obtain c where c: "cursor_next map_dim (cursor_new map_dim m) = Some c" "cursor_at map_ops map_dim m 0 c"
    using mk.cursor_next_correct [OF _ walk] by blast
  from retain_loop_correct [OF c(2) walk, of map_new P] c(1) show ?thesis
    using map_ok_sorted [OF assms(1)]
    by (auto simp: map_retain_def map_new_def intro!: map_okI sorted_wrt_filter)
qed

text \<open>A batch of entries with distinct keys.\<close>

lemma distinct_sort_key_strict:
  assumes "distinct (map g xs)"
  shows "sorted_wrt (\<lambda>a b. g a < g b) (sort_key g xs)"
proof -
  have "distinct (map g (sort_key g xs))" using assms by (simp add: distinct_map)
  with sorted_sort_key [of g xs] have "sorted_wrt (<) (map g (sort_key g xs))"
    by (simp only: strict_sorted_iff)
  then show ?thesis by (simp add: sorted_wrt_map)
qed

lemma map_extend_correct:
  assumes ok: "map_ok m" and sh: "shallow m" and dist: "distinct (map fst kvs)" and ne: "kvs \<noteq> []"
  shows "\<exists>m'. map_extend m kvs = Some m' \<and> map_ok m' \<and> contents m' = contents m ++ map_of kvs"
proof -
  let ?es = "map (Insert \<circ> entry) kvs :: (('a, 'b) map_entry, 'a option) edit list"
  have srt: "keys_sorted entry_key (flat m)" by (rule map_ok_sorted [OF ok])
  have keys: "map (edit_key entry_key) ?es = map (\<lambda>p. Some (fst p)) kvs" by (simp add: entry_key_def)
  have "distinct (map (edit_key entry_key) ?es)"
    using dist unfolding keys by (simp add: distinct_map inj_on_def)
  note ses = distinct_sort_key_strict [OF this]
  obtain m' where m': "tree_edit map_ops map_dim entry_key m ?es =
        Some (m', list_edit_removed entry_key (sort_key (edit_key entry_key) ?es) (flat m))"
      "wf_tree map_ops m'" "flat m' = list_edit entry_key (sort_key (edit_key entry_key) ?es) (flat m)"
    using mk.tree_edit_correct [OF map_ok_keyed [OF ok sh], of ?es] ne by auto
  have okm: "map_ok m'" using m'(2,3) list_edit_sorted [OF srt ses] by (simp add: map_okI)
  have "contents m' j = (contents m ++ map_of kvs) j" for j
  proof (rule contents_eqI [OF okm])
    fix w
    have "entry (j, w) \<in> set (flat m') \<longleftrightarrow>
        entry (j, w) \<in> set (flat m) \<and> j \<notin> fst ` set kvs \<or> (j, w) \<in> set kvs"
      by (auto simp: m'(3) set_list_edit [OF srt ses] entry_key_def image_iff)
    moreover have "(j, w) \<in> set kvs \<longleftrightarrow> map_of kvs j = Some w" using dist by simp
    moreover have "j \<notin> fst ` set kvs \<longleftrightarrow> map_of kvs j = None" by (simp add: map_of_eq_None_iff)
    ultimately show "entry (j, w) \<in> set (flat m') \<longleftrightarrow> (contents m ++ map_of kvs) j = Some w"
      using contents_iff [OF ok, of j w] by (auto simp: map_add_Some_iff)
  qed
  with m'(1) okm show ?thesis by (auto simp: map_extend_def)
qed

section \<open>Ranges and neighbours\<close>

lemma seek_map:
  assumes "map_ok m" and "shallow m"
  shows "\<exists>c r. cursor_seek map_dim (key_target (Some k)) b (cursor_new map_dim m) = Some (c, r) \<and>
    cursor_at map_ops map_dim m
      (seek_len map_dim (key_target (Some k)) b None (map entry_key (flat m))) c"
proof -
  have srt: "sorted (map entry_key (flat m))" using keys_sorted_weak [OF map_ok_sorted [OF assms(1)]] .
  have walk: "walkable map_ops m" using mk.keyed_walkable [OF map_ok_keyed [OF assms]] .
  have mono: "mono_target map_dim (key_target (Some k)) b (dzero map_dim) (map (ssummary map_ops) (flat m))"
    using mk.key_mono_target [OF srt, of "Some k" b 0] by simp
  have ge: "key_target (Some k) (dzero map_dim) \<noteq> Less" by (simp add: key_target_def map_dim_def)
  have tree: "cu_tree (cursor_new map_dim m) = m" by (simp add: cursor_new_def)
  from mk.cursor_seek_correct [OF tree walk mono ge refl] show ?thesis
    by (auto simp: map_summary map_zero)
qed

lemma map_ends: "map_ok m \<Longrightarrow> ends map_dim None (map entry_key (flat m)) = map entry_key (flat m)"
  using mk.key_ends [OF keys_sorted_weak [OF map_ok_sorted], of m 0] by (simp add: map_ops_def map_dim_def)

lemma takeWhile_sorted_filter:
  assumes "keys_sorted key xs" and "\<And>x y. P y \<Longrightarrow> key x < key y \<Longrightarrow> P x"
  shows "takeWhile P xs = filter P xs"
  using assms(1)
proof (induction xs)
  case (Cons x xs)
  have "\<not> P x \<Longrightarrow> \<forall>y \<in> set xs. \<not> P y" using Cons.prems assms(2) by auto
  then show ?case using Cons by (cases "P x") (auto simp: filter_empty_conv)
qed simp

lemma dropWhile_sorted_filter:
  assumes "keys_sorted key xs" and "\<And>x y. P y \<Longrightarrow> key x < key y \<Longrightarrow> P x"
  shows "dropWhile P xs = filter (\<lambda>x. \<not> P x) xs"
  using assms(1)
proof (induction xs)
  case (Cons x xs)
  have "\<not> P x \<Longrightarrow> \<forall>y \<in> set xs. \<not> P y" using Cons.prems assms(2) by auto
  then show ?case using Cons by (cases "P x") (auto simp: filter_id_conv)
qed simp

lemma closest_correct:
  assumes ok: "map_ok m" and sh: "shallow m"
  shows "closest m k = Some (map_option pair_of (last_opt (filter (\<lambda>e. me_key e \<le> k) (flat m))))"
proof -
  have wf: "wf_tree map_ops m" using ok by (simp add: map_ok_def)
  have walk: "walkable map_ops m" using mk.keyed_walkable [OF map_ok_keyed [OF assms]] .
  let ?le = "filter (\<lambda>e. me_key e \<le> k) (flat m)"
  have tw: "takeWhile (\<lambda>e. me_key e \<le> k) (flat m) = ?le"
    using ok by (intro takeWhile_sorted_filter [of me_key]) (auto simp: map_ok_def)
  have past: "seek_past Right (key_target (Some k) (Some j)) \<longleftrightarrow> j \<le> k" for j
    by (auto simp: seek_past_def key_target_def)
  have n: "seek_len map_dim (key_target (Some k)) Right None (map entry_key (flat m)) = length ?le"
    unfolding seek_len_def map_ends [OF ok] tw [symmetric]
    by (simp add: takeWhile_map comp_def entry_key_def past)
  have pre: "take (length ?le) (flat m) = ?le" using tw by (metis takeWhile_eq_take)
  obtain c r where c: "cursor_seek map_dim (key_target (Some k)) Right (cursor_new map_dim m) = Some (c, r)"
      "cursor_at map_ops map_dim m (length ?le) c"
    using seek_map [OF assms, of k Right] n by auto
  then have "backward_start map_ops map_dim m (length ?le) c" by (simp add: backward_start_def)
  then obtain c' where c': "cursor_prev map_dim c = Some c'"
      "if length ?le = 0 then cursor_before map_dim m c' else cursor_at map_ops map_dim m (length ?le - 1) c'"
    using mk.cursor_prev_correct [OF _ walk] by blast
  have "cursor_item c' = Some (last_opt ?le)"
  proof (cases "?le = []")
    case True
    with c'(2) show ?thesis
      by (simp add: cursor_before_def cursor_item_def assert_did_seek_def last_opt_def)
  next
    case False
    then have pos: "0 < length ?le" by (rule length_greater_0_conv [THEN iffD2])
    then have lt: "length ?le - 1 < length (flat m)"
      using length_filter_le [of "\<lambda>e. me_key e \<le> k" "flat m"] by linarith
    have "take (length ?le) (flat m) ! (length ?le - 1) = last ?le"
      unfolding pre by (rule last_conv_nth [OF False, symmetric])
    then have "flat m ! (length ?le - 1) = last ?le" using pos by (simp only: nth_take diff_less zero_less_one)
    moreover have "cursor_at map_ops map_dim m (length ?le - 1) c'" using c'(2) pos by (simp only: less_irrefl if_False split: if_splits)
    ultimately show ?thesis using cursor_item_at [OF _ wf, of map_dim "length ?le - 1" c'] lt False by (simp only: last_opt_def if_True if_False)
  qed
  with c(1) c'(1) show ?thesis by (simp add: closest_def)
qed

context dimension_laws
begin

lemma cursor_collect_at:
  assumes "cursor_at ops D t j c" and "walkable ops t"
  shows "cursor_collect D c acc = Some (acc @ drop j (flat t))"
  using assms(1)
proof (induction "length (flat t) - j" arbitrary: j c acc)
  case 0
  have "wf_tree ops t" using assms(2) by (simp add: walkable_def)
  with cursor_item_at [OF 0(2)] 0 show ?case
    by (subst cursor_collect.simps) (simp add: cursor_iter_next_def cursor_at_def)
next
  case (Suc n)
  have wf: "wf_tree ops t" using assms(2) by (simp add: walkable_def)
  from Suc(2) have lt: "j < length (flat t)" by simp
  have "forward_start ops D t (Suc j) c" using Suc(3) lt by (auto simp: forward_start_def)
  then obtain c' where c': "cursor_next D c = Some c'" "cursor_at ops D t (Suc j) c'"
    using cursor_next_correct [OF _ assms(2)] by blast
  have "cu_did_seek c" using Suc(3) by (simp add: cursor_at_def)
  then have "cursor_collect D c acc = cursor_collect D c' (acc @ [flat t ! j])"
    using cursor_item_at [OF Suc(3) wf] lt c'(1)
    by (subst cursor_collect.simps) (simp add: cursor_iter_next_def)
  moreover have "n = length (flat t) - Suc j" using Suc(2) by simp
  ultimately show ?case using Suc(1) [of "Suc j" c'] c'(2) lt by (simp add: drop_eq_Cons_nth)
qed

end

lemma seek_left_filter:
  assumes "map_ok m"
  shows "drop (seek_len map_dim (key_target (Some k)) Left None (map entry_key (flat m))) (flat m) =
    filter (\<lambda>e. k \<le> me_key e) (flat m)"
proof -
  have past: "seek_past Left (key_target (Some k) (Some j)) \<longleftrightarrow> j < k" for j
    by (auto simp: seek_past_def key_target_def)
  have "dropWhile (\<lambda>e. me_key e < k) (flat m) = filter (\<lambda>e. \<not> me_key e < k) (flat m)"
    using assms by (intro dropWhile_sorted_filter [of me_key]) (auto simp: map_ok_def)
  then show ?thesis
    unfolding seek_len_def map_ends [OF assms]
    by (simp add: takeWhile_map comp_def entry_key_def past not_less flip: dropWhile_eq_drop)
qed

lemma map_iter_from_correct:
  assumes ok: "map_ok m" and sh: "shallow m"
  shows "map_iter_from m k = Some (map pair_of (filter (\<lambda>e. k \<le> me_key e) (flat m)))"
proof -
  have walk: "walkable map_ops m" using mk.keyed_walkable [OF map_ok_keyed [OF assms]] .
  obtain c r where c: "cursor_seek map_dim (key_target (Some k)) Left (cursor_new map_dim m) = Some (c, r)"
      "cursor_at map_ops map_dim m
        (seek_len map_dim (key_target (Some k)) Left None (map entry_key (flat m))) c"
    using seek_map [OF assms] by blast
  with mk.cursor_collect_at [OF c(2) walk, of "[]"] show ?thesis
    by (simp add: map_iter_from_def seek_left_filter [OF ok])
qed

lemma adaptor_key: "adaptor_target (cmp a) = key_target (Some a)"
  by (auto simp: fun_eq_iff adaptor_target_def key_target_def cmp_def split: option.splits)

lemma remove_range_correct:
  assumes ok: "map_ok m" and sh: "shallow m"
  shows "\<exists>m'. remove_range m (cmp a) (cmp b) = Some m' \<and> wf_tree map_ops m' \<and>
    flat m' = filter (\<lambda>e. me_key e < a) (flat m) @ filter (\<lambda>e. b \<le> me_key e) (flat m)"
proof -
  have walk: "walkable map_ops m" using mk.keyed_walkable [OF map_ok_keyed [OF assms]] .
  obtain c u where c: "cursor_slice map_ops map_dim (key_target (Some a)) Left (cursor_new map_dim m) = Some (c, u)"
      "cursor_at map_ops map_dim m (length (keys_before entry_key (Some a) (flat m))) c"
      "wf_tree map_ops u" "flat u = keys_before entry_key (Some a) (flat m)"
    using slice_map [OF assms] by blast
  have "cursor_reset map_dim c = cursor_reset map_dim (cursor_new map_dim m)"
    using c(2) by (cases c) (simp add: cursor_at_def cursor_new_def cursor_reset_def)
  then have same: "cursor_seek map_dim T B c = cursor_seek map_dim T B (cursor_new map_dim m)" for T B
    by (simp add: cursor_seek_def)
  obtain c' r where c': "cursor_seek map_dim (key_target (Some b)) Left c = Some (c', r)"
      "cursor_at map_ops map_dim m
        (seek_len map_dim (key_target (Some b)) Left None (map entry_key (flat m))) c'"
    using seek_map [OF assms, of b Left] by (auto simp: same)
  obtain c'' w where w: "cursor_suffix map_ops map_dim c' = Some (c'', w)" "wf_tree map_ops w"
      "flat w = filter (\<lambda>e. b \<le> me_key e) (flat m)"
    using mk.cursor_suffix_correct [OF _ walk, of _ c'] c'(2) seek_left_filter [OF ok, of b]
    by (fastforce simp: cursor_ready_def)
  have "keys_before entry_key (Some a) (flat m) = filter (\<lambda>e. me_key e < a) (flat m)"
    using ok by (auto simp: keys_before_def entry_key_def map_ok_def intro!: takeWhile_sorted_filter [of me_key])
  with mk.tree_append_correct [OF c(3) w(2)] c(1,4) c'(1) w(1,3) show ?thesis
    by (auto simp: remove_range_def adaptor_key)
qed

section \<open>Iteration, ends and sets\<close>

lemma map_iter_correct:
  fixes m :: "('k::linorder, 'v) tree_map"
  shows "walkable map_ops m \<Longrightarrow> map_iter m = Some (map pair_of (flat m))"
  using mk.iter_collect_correct [of m] by (simp add: map_iter_def)

lemma map_values_correct:
  fixes m :: "('k::linorder, 'v) tree_map"
  shows "walkable map_ops m \<Longrightarrow> map_values m = Some (map me_value (flat m))"
  using mk.iter_collect_correct [of m] by (simp add: map_values_def)

lemma map_first_entry_correct: "map_ok m \<Longrightarrow> map_first_entry m = Some (map_option pair_of (first_opt (flat m)))"
  using tree_first_correct [of map_ops m] by (simp add: map_first_entry_def map_ok_def)

lemma map_last_entry_correct: "map_ok m \<Longrightarrow> map_last_entry m = Some (map_option pair_of (last_opt (flat m)))"
  using tree_last_correct [of map_ops m] by (simp add: map_last_entry_def map_ok_def)

lemma from_ordered_entries_correct:
  assumes "sorted_wrt (<) (map fst kvs)"
  shows "map_ok (from_ordered_entries kvs) \<and> contents (from_ordered_entries kvs) = map_of kvs"
  using mk.tree_from_iter_correct [of "map entry kvs"] assms
  by (simp add: map_ok_def contents_def from_ordered_entries_def sorted_wrt_map comp_def)

lemma insert_tree_correct:
  assumes "map_ok m" and "shallow m" and "map_ok other" and "shallow other" and "flat other \<noteq> []"
  shows "\<exists>m'. insert_tree m other = Some m' \<and> map_ok m' \<and> contents m' = contents m ++ contents other"
proof -
  have "map_iter other = Some (map pair_of (flat other))"
    using mk.keyed_walkable [OF map_ok_keyed [OF assms(3,4)]] by (rule map_iter_correct)
  moreover have "distinct (map fst (map pair_of (flat other)))"
    using assms(3) by (intro keys_sorted_distinct) (simp add: map_ok_def)
  ultimately show ?thesis
    using map_extend_correct [OF assms(1,2), of "map pair_of (flat other)"] assms(5)
    by (auto simp: insert_tree_def map_extend_def contents_def)
qed

lemma set_insert_correct:
  assumes "map_ok s" and "shallow s"
  shows "\<exists>s'. set_insert s k = Some s' \<and> map_ok s' \<and> (\<forall>j. set_contains s' j \<longleftrightarrow> j = k \<or> set_contains s j)"
  using tm.put_law [OF assms, of k "()"] by (auto simp: set_insert_def set_contains_def)

lemma set_remove_correct:
  assumes "map_ok s" and "shallow s"
  shows "\<exists>s'. set_remove s k = Some (s', set_contains s k) \<and> map_ok s' \<and>
    (\<forall>j. set_contains s' j \<longleftrightarrow> j \<noteq> k \<and> set_contains s j)"
  using tm.del_law [OF assms, of k] by (auto simp: set_remove_def set_contains_def)

end
