(* ===== verification/Sum_Tree_Theorems.thy ===== *)
theory Sum_Tree_Theorems
  imports Tree_Map Cursor_Iter
begin

text \<open>
  The contract of the crate \<open>sum_tree\<close>, for every item type whose summaries satisfy the laws of
  \<open>Summary\<close> and \<open>Dimension\<close>: what may be built, what a seek finds, how a cursor moves, and what
  the ordered maps and sets on top promise. The instance used in the examples sums numbers, as
  the unit tests of the crate do.
\<close>

definition number_ops :: "(nat, nat) item_ops" where
  "number_ops = \<lparr>szero = 0, sadd = (+), ssummary = (\<lambda>x. x)\<rparr>"

definition number_dim :: "(nat, nat) dim_ops" where
  "number_dim = summary_dim number_ops"

interpretation number: dimension_laws number_ops number_dim
  by unfold_locales (simp_all add: number_ops_def number_dim_def summary_dim_def)

definition three :: "(nat, nat) node" where
  "three = Leaf 60 [10, 20, 30] [10, 20, 30]"

lemma three_walkable: "walkable number_ops three" and three_wf: "wf_tree number_ops three"
  and three_flat: "flat three = [10, 20, 30]" and three_nonempty: "\<not> is_empty three"
  by (simp_all add: walkable_def three_def shallow_def STACK_CAPACITY_def number_ops_def sum_of_def TREE_BASE_def)

lemma three_target:
  "mono_target number_dim (cmp n) b (dzero number_dim) (map (ssummary number_ops) (flat three))"
  "cmp n (dzero number_dim) \<noteq> Less"
  by (auto simp: mono_target_def three_flat number_dim_def number_ops_def summary_dim_def seek_past_def cmp_def)

section \<open>The height of a built tree\<close>

text \<open>\<open>from_iter\<close> fills every node but the last of a level, so a level is a twelfth of the one below.\<close>

context summary_laws
begin

lemma leaf_nodes_count: "12 * length (leaf_nodes ops xs) \<le> length xs + 11"
proof (induction xs rule: length_induct)
  case (1 xs)
  show ?case
  proof (cases xs)
    case (Cons y ys)
    then have "length (drop 11 ys) < length xs" by simp
    with "1.IH" have "12 * length (leaf_nodes ops (drop 11 ys)) \<le> length (drop 11 ys) + 11" by blast
    then show ?thesis by (cases "11 \<le> length ys") (simp_all add: Cons Let_def)
  qed simp
qed

lemma parents_loop_count:
  assumes "length (current_children cur) < 12" and "cur = None \<or> current_children cur \<noteq> []"
  shows "12 * length (parents_loop ops h cur nodes) \<le> length (current_children cur) + length nodes + 11"
  using assms
proof (induction nodes arbitrary: cur)
  case Nil
  then show ?case by (cases cur) (auto simp: current_children_def Suc_le_eq)
next
  case (Cons n nodes)
  obtain s css cts where cur: "(case cur of None \<Rightarrow> (szero ops, [], []) | Some p \<Rightarrow> p) = (s, css, cts)"
      "current_children cur = cts"
    by (cases cur) (auto simp: current_children_def)
  show ?case
  proof (cases "length (cts @ [n]) = 12")
    case True
    with Cons.IH [of None] cur show ?thesis by (simp add: Let_def current_children_def)
  next
    case False
    let ?cur = "Some (sadd ops s (summary n), css @ [summary n], cts @ [n])"
    have "length (current_children ?cur) < 12" "?cur = None \<or> current_children ?cur \<noteq> []"
      using False Cons.prems(1) cur(2) by (simp_all add: current_children_def)
    from Cons.IH [OF this] False cur show ?thesis by (simp add: Let_def current_children_def)
  qed
qed

lemma levels_loop_height:
  assumes "children_ok ops (Suc h) nodes" and "length nodes \<le> 12 ^ j"
  shows "\<forall>n \<in> set (levels_loop ops h nodes). height n \<le> h + j"
  using assms
proof (induction j arbitrary: h nodes)
  case 0
  then show ?case by (subst levels_loop.simps) (auto simp: children_ok_def)
next
  case (Suc j)
  show ?case
  proof (cases "1 < length nodes")
    case True
    let ?ps = "parents_loop ops (h + 1) None nodes"
    have "children_ok ops (Suc (h + 1)) ?ps"
      using parents_loop_correct [of "h + 1" nodes None] Suc.prems(1) by (simp add: current_ok_def)
    moreover have "length ?ps \<le> 12 ^ j"
      using parents_loop_count [of None "h + 1" nodes] Suc.prems(2) by (simp add: current_children_def)
    ultimately have "\<forall>n \<in> set (levels_loop ops (h + 1) ?ps). height n \<le> h + 1 + j" by (rule Suc.IH)
    with True show ?thesis by (subst levels_loop.simps) simp
  next
    case False
    with Suc.prems(1) show ?thesis by (subst levels_loop.simps) (auto simp: children_ok_def)
  qed
qed

lemma tree_from_iter_height:
  assumes "length xs \<le> 12 ^ Suc j"
  shows "height (tree_from_iter ops xs) \<le> j"
proof -
  have "children_ok ops (Suc 0) (leaf_nodes ops xs)"
    using leaf_nodes_correct [of xs] by simp
  moreover have "length (leaf_nodes ops xs) \<le> 12 ^ j" using leaf_nodes_count [of xs] assms by simp
  ultimately have "\<forall>n \<in> set (levels_loop ops 0 (leaf_nodes ops xs)). height n \<le> 0 + j"
    by (rule levels_loop_height)
  then show ?thesis
    by (auto simp: tree_from_iter_def tree_new_def split: list.splits)
qed

end

section \<open>Building trees\<close>

text \<open>The trees that the constructors and the appending and updating operations produce.\<close>

inductive built :: "('t, 's) item_ops \<Rightarrow> ('t, 's) node \<Rightarrow> bool" for ops :: "('t, 's) item_ops" where
  built_new: "built ops (tree_new ops)"
| built_item: "from_item ops x = Some t \<Longrightarrow> built ops t"
| built_iter: "built ops (tree_from_iter ops xs)"
| built_par_iter: "built ops (tree_from_par_iter ops xs)"
| built_push: "built ops t \<Longrightarrow> tree_push ops t x = Some u \<Longrightarrow> built ops u"
| built_append: "built ops t \<Longrightarrow> built ops u \<Longrightarrow> tree_append ops t u = Some v \<Longrightarrow> built ops v"
| built_extend: "built ops t \<Longrightarrow> tree_extend ops t xs = Some u \<Longrightarrow> built ops u"
| built_par_extend: "built ops t \<Longrightarrow> tree_par_extend ops t xs = Some u \<Longrightarrow> built ops u"
| built_update_last: "built ops t \<Longrightarrow> update_last ops f t = Some u \<Longrightarrow> built ops u"
| built_update_first: "built ops t \<Longrightarrow> update_first ops f t = Some u \<Longrightarrow> built ops u"

lemma built_wf:
  assumes "summary_laws ops" and "built ops t"
  shows "wf_tree ops t"
  using assms(2)
proof (induction rule: built.induct)
  case built_new
  show ?case by (simp add: tree_new_def sum_of_def)
next
  case (built_item x t)
  with summary_laws.from_item_correct [OF assms(1), of x] show ?case by auto
next
  case (built_iter xs)
  with summary_laws.tree_from_iter_correct [OF assms(1)] show ?case by blast
next
  case (built_par_iter xs)
  with summary_laws.tree_from_iter_correct [OF assms(1), of xs] show ?case
    by (simp add: summary_laws.tree_from_par_iter_eq [OF assms(1)])
next
  case (built_push t x u)
  with summary_laws.tree_push_correct [OF assms(1), of t x] show ?case by auto
next
  case (built_append t u v)
  with summary_laws.tree_append_correct [OF assms(1), of t u] show ?case by auto
next
  case (built_extend t xs u)
  with summary_laws.tree_extend_correct [OF assms(1), of t xs] show ?case by auto
next
  case (built_par_extend t xs u)
  with summary_laws.tree_extend_correct [OF assms(1), of t xs] show ?case
    by (auto simp: tree_par_extend_def tree_extend_def summary_laws.tree_from_par_iter_eq [OF assms(1)])
next
  case (built_update_last t f u)
  with update_last_correct [of ops t f] show ?case by auto
next
  case (built_update_first t f u)
  with update_first_correct [of ops t f] show ?case by auto
qed

text \<open>
  C6 Every tree that the constructors, \<open>push\<close>, \<open>append\<close>, \<open>extend\<close> and the updates of the first and
  last item can produce is balanced, within the capacity of its nodes, and caches in every node
  the sum of the summaries below it, so its summary is the sum over its items; and none of these
  operations can panic on it.
\<close>

theorem sum_tree_invariant:
  assumes "summary_laws ops" and "built ops t" and "built ops u"
  shows "wf_tree ops t \<and> summary t = sum_of ops (map (ssummary ops) (flat t)) \<and>
    tree_append ops t u \<noteq> None \<and> tree_push ops t x \<noteq> None \<and> tree_extend ops t xs \<noteq> None \<and>
    update_last ops f t \<noteq> None \<and> update_first ops f t \<noteq> None"
  using built_wf [OF assms(1,2)] built_wf [OF assms(1,3)] summary_laws.wf_summary [OF assms(1), of t]
    summary_laws.tree_append_correct [OF assms(1), of t u] summary_laws.tree_push_correct [OF assms(1), of t x]
    summary_laws.tree_extend_correct [OF assms(1), of t xs] update_last_correct [of ops t f]
    update_first_correct [of ops t f]
  by auto

theorem sum_tree_invariant_witness:
  "summary (tree_from_iter number_ops [10, 20, 30]) = 60 \<and>
   tree_append number_ops (tree_from_iter number_ops [10, 20, 30]) (tree_new number_ops) \<noteq> None"
  using sum_tree_invariant [OF number.summary_laws_axioms built_iter [of number_ops "[10, 20, 30]"] built_new]
    number.tree_from_iter_correct [of "[10, 20, 30]"]
  by (simp add: sum_of_def number_ops_def)

text \<open>
  C7 Appending two trees of any heights concatenates their items, whichever side is taller, and
  grows the taller height by one level at most; \<open>push\<close> appends one item and the updates change
  only the last or first item.
\<close>

theorem sum_tree_append_concatenates:
  assumes "summary_laws ops" and "wf_tree ops t" and "wf_tree ops u"
  shows "(\<exists>v. tree_append ops t u = Some v \<and> wf_tree ops v \<and> flat v = flat t @ flat u \<and>
      height v \<le> Suc (max (height t) (height u))) \<and>
    (\<exists>v. tree_push ops t x = Some v \<and> wf_tree ops v \<and> flat v = flat t @ [x]) \<and>
    (\<exists>v. update_last ops f t = Some v \<and> wf_tree ops v \<and> flat v = map_last f (flat t)) \<and>
    (\<exists>v. update_first ops f t = Some v \<and> wf_tree ops v \<and> flat v = map_first f (flat t))"
  using summary_laws.tree_append_correct [OF assms] summary_laws.tree_push_correct [OF assms(1,2), of x]
    update_last_correct [OF assms(2), of f] update_first_correct [OF assms(2), of f]
  by auto

theorem sum_tree_append_concatenates_witness:
  "\<exists>v. tree_append number_ops three three = Some v \<and> flat v = [10, 20, 30, 10, 20, 30]"
  using sum_tree_append_concatenates [OF number.summary_laws_axioms three_wf three_wf, of 0 id]
  by (auto simp: three_flat)

text \<open>
  C26 Building a tree from a sequence keeps the sequence, the parallel construction gives the very
  same tree as the sequential one, and reading the items back with the cursor or with the
  iterator returns the sequence: a round trip. A cursor's stack of 16 entries suffices for every tree built
  this way from at most \<open>12 ^ 16\<close> items.
\<close>

theorem sum_tree_from_iter_roundtrip:
  assumes "summary_laws ops" and "length xs \<le> 12 ^ 16"
  shows "tree_items (tree_from_iter ops xs) = Some xs \<and>
    iter_collect (iter_new (tree_from_iter ops xs)) [] = Some xs \<and>
    tree_from_par_iter ops xs = tree_from_iter ops xs"
proof -
  have "walkable ops (tree_from_iter ops xs)" "flat (tree_from_iter ops xs) = xs"
    using summary_laws.tree_from_iter_correct [OF assms(1)] summary_laws.tree_from_iter_height [OF assms(1), of xs 15] assms(2)
    by (simp_all add: walkable_def shallow_def STACK_CAPACITY_def)
  then show ?thesis
    using summary_laws.tree_items_correct [OF assms(1)] summary_laws.iter_collect_correct [OF assms(1)]
      summary_laws.tree_from_par_iter_eq [OF assms(1)]
    by metis
qed

theorem sum_tree_from_iter_roundtrip_witness:
  "tree_items (tree_from_iter number_ops [10, 20, 30]) = Some [10, 20, 30]"
  using sum_tree_from_iter_roundtrip [OF number.summary_laws_axioms, of "[10, 20, 30]"] by simp

section \<open>Finding and seeking\<close>

text \<open>
  C9 \<open>find\<close> and \<open>find_with_prev\<close>, which descend by the cached summaries and skip whole subtrees,
  return what a left-to-right scan of the items returns: the first item whose end the target does
  not lie beyond, its start and end positions, and the item before it.
\<close>

theorem find_is_scan:
  assumes "dimension_laws ops D" and "wf_tree ops t" and "\<not> is_empty t"
    and "mono_target D tgt b (dzero D) (map (ssummary ops) (flat t))"
    and "k = seek_len D tgt b (dzero D) (map (ssummary ops) (flat t))"
  shows "find_item D tgt b t =
      (if k < length (flat t)
       then (position_of ops D (take k (flat t)), position_of ops D (take (Suc k) (flat t)), Some (flat t ! k))
       else (position_of ops D (flat t), position_of ops D (flat t), None)) \<and>
    find_with_prev D tgt b t =
      Some (if k < length (flat t)
       then (position_of ops D (take k (flat t)), position_of ops D (take (Suc k) (flat t)),
             Some (if k = 0 then None else Some (flat t ! (k - 1)), flat t ! k))
       else (position_of ops D (flat t), position_of ops D (flat t), None))"
proof -
  have "k \<le> length (flat t)" using assms(5) seek_len_le [of D tgt b "dzero D" "map (ssummary ops) (flat t)"] by simp
  then show ?thesis
    using dimension_laws.find_item_correct [OF assms(1-4)] dimension_laws.find_with_prev_correct [OF assms(1-4)] assms(5)
    by (auto simp: Let_def position_of_def take_map)
qed

theorem find_is_scan_witness: "find_item number_dim (cmp 25) Left three = (10, 30, Some 20)"
proof -
  have k: "1 = seek_len number_dim (cmp 25) Left (dzero number_dim) (map (ssummary number_ops) (flat three))"
    by (simp add: seek_len_def three_flat number_dim_def number_ops_def summary_dim_def seek_past_def)
  show ?thesis
    using find_is_scan [OF number.dimension_laws_axioms three_wf three_nonempty three_target(1) k]
    by (simp add: three_flat position_of_def number_dim_def number_ops_def summary_dim_def)
qed

text \<open>
  C8 Seeking a fresh cursor to a target, taking the slice it passes and then the suffix, splits the
  tree at the target: both parts are well-formed trees, together they are the items of the tree,
  the slice holds exactly the items the target lies beyond, and the position reached is the
  position after them.
\<close>

theorem slice_suffix_split:
  assumes "dimension_laws ops D" and "walkable ops t"
    and "mono_target D tgt b (dzero D) (map (ssummary ops) (flat t))" and "tgt (dzero D) \<noteq> Less"
  shows "\<exists>c u c' v. cursor_slice ops D tgt b (cursor_new D t) = Some (c, u) \<and> cursor_suffix ops D c = Some (c', v) \<and>
    wf_tree ops u \<and> wf_tree ops v \<and> flat u @ flat v = flat t \<and>
    length (flat u) = seek_len D tgt b (dzero D) (map (ssummary ops) (flat t)) \<and>
    cu_position c = position_of ops D (flat u)"
proof -
  let ?n = "seek_len D tgt b (dzero D) (map (ssummary ops) (flat t))"
  have "cursor_ready ops D t 0 (cursor_new D t)" by (simp add: cursor_ready_def cursor_fresh_new)
  from dimension_laws.cursor_slice_correct [OF assms(1) this assms(2), of tgt b ?n] assms(3,4)
  obtain c u where c: "cursor_slice ops D tgt b (cursor_new D t) = Some (c, u)" "cursor_at ops D t ?n c"
      "wf_tree ops u" "flat u = take ?n (flat t)"
    by (auto simp: cursor_new_def)
  then have "cursor_ready ops D t ?n c" by (simp add: cursor_ready_def)
  from dimension_laws.cursor_suffix_correct [OF assms(1) this assms(2)] obtain c' v where
    "cursor_suffix ops D c = Some (c', v)" "wf_tree ops v" "flat v = drop ?n (flat t)" by blast
  with c seek_len_le [of D tgt b "dzero D" "map (ssummary ops) (flat t)"] show ?thesis
    by (auto simp: cursor_at_def)
qed

theorem slice_suffix_split_witness:
  "\<exists>c u c' v. cursor_slice number_ops number_dim (cmp 30) Right (cursor_new number_dim three) = Some (c, u) \<and>
    cursor_suffix number_ops number_dim c = Some (c', v) \<and> flat u @ flat v = [10, 20, 30] \<and> length (flat u) = 2"
proof -
  have "seek_len number_dim (cmp 30) Right (dzero number_dim) (map (ssummary number_ops) (flat three)) = 2"
    by (simp add: seek_len_def three_flat number_dim_def number_ops_def summary_dim_def seek_past_def)
  with slice_suffix_split [OF number.dimension_laws_axioms three_walkable three_target(1) [of 30 Right] three_target(2) [of 30]]
  show ?thesis by (auto simp: three_flat)
qed

text \<open>
  Seeking and summarising: \<open>seek\<close> from any state of the cursor stops at the item a scan finds
  and reports whether the target was hit exactly, and \<open>summary\<close> returns the measure, in any
  dimension, of exactly the items passed.
\<close>

theorem seek_and_summary:
  assumes "dimension_laws ops D" and "dimension_laws ops E" and "walkable ops t" and "cu_tree c = t"
    and "mono_target D tgt b (dzero D) (map (ssummary ops) (flat t))" and "tgt (dzero D) \<noteq> Less"
    and n: "n = seek_len D tgt b (dzero D) (map (ssummary ops) (flat t))"
  shows "(\<exists>c'. cursor_seek D tgt b c =
        Some (c', tgt (position_of ops D (take (if b = Left then Suc n else n) (flat t))) = Equal) \<and>
      cursor_item c' = Some (if n < length (flat t) then Some (flat t ! n) else None) \<and>
      cu_position c' = position_of ops D (take n (flat t))) \<and>
    (\<exists>c'. cursor_summary D E tgt b (cursor_new D t) = Some (c', position_of ops E (take n (flat t))))"
proof -
  have wf: "wf_tree ops t" using assms(3) by (simp add: walkable_def)
  have "cursor_ready ops D t 0 (cursor_new D t)" by (simp add: cursor_ready_def cursor_fresh_new)
  from cursor_summary_correct [OF assms(1,2) this assms(3), of tgt b n] assms(5,6) n
  have "\<exists>c'. cursor_summary D E tgt b (cursor_new D t) = Some (c', position_of ops E (take n (flat t)))"
    by (auto simp: cursor_new_def)
  with dimension_laws.cursor_seek_correct [OF assms(1,4,3,5,6) n] show ?thesis
    using cursor_item_at [OF _ wf] by (fastforce simp: cursor_at_def)
qed

section \<open>Walking\<close>





text \<open>
  A filtered cursor yields exactly the items whose summary the filter accepts, in order, when
  the filter accepts a sum as soon as it accepts a part (so that skipping a subtree by its
  cached summary loses nothing).
\<close>

theorem filter_cursor_is_filter:
  assumes "dimension_laws ops D" and "\<And>a b. f a \<or> f b \<Longrightarrow> f (sadd ops a b)" and "walkable ops t"
  shows "filter_collect D f (cursor_new D t) [] = Some (filter (\<lambda>x. f (ssummary ops x)) (flat t))"
proof -
  have "filtered_cursor ops D f" using assms(1,2) by (simp add: filtered_cursor_def filtered_cursor_axioms_def)
  from filtered_cursor.filter_collect_correct [OF this assms(3)] show ?thesis .
qed

section \<open>Keyed trees and maps\<close>

text \<open>One edit on the sorted list of items.\<close>

definition apply_edit :: "('t \<Rightarrow> 'k::linorder) \<Rightarrow> 't list \<Rightarrow> ('t, 'k) edit \<Rightarrow> 't list" where
  "apply_edit key xs e = (case e of Insert x \<Rightarrow> list_insert key x xs | Remove k \<Rightarrow> list_remove key k xs)"

lemma apply_edit_sorted: "keys_sorted key xs \<Longrightarrow> keys_sorted key (apply_edit key xs e)"
  by (simp add: apply_edit_def list_insert_sorted list_remove_sorted split: edit.split)

lemma set_apply_edit:
  "keys_sorted key xs \<Longrightarrow>
   set (apply_edit key xs e) = {x \<in> set xs. key x \<noteq> edit_key key e} \<union> {x. Insert x = e}"
  by (auto simp: apply_edit_def set_list_insert set_list_remove split: edit.split)

lemma apply_edits:
  assumes "keys_sorted key xs" and "distinct (map (edit_key key) es)"
  shows "keys_sorted key (foldl (apply_edit key) xs es) \<and>
    set (foldl (apply_edit key) xs es) =
      {x \<in> set xs. key x \<notin> edit_key key ` set es} \<union> {x. Insert x \<in> set es}"
  using assms
proof (induction es arbitrary: xs)
  case (Cons e es)
  from Cons.IH [OF apply_edit_sorted [OF Cons.prems(1)], of e] Cons.prems show ?case
    by (auto simp: set_apply_edit)
qed simp

lemma keys_sorted_eqI:
  assumes "keys_sorted key xs" and "keys_sorted key ys" and "set xs = set ys"
  shows "xs = ys"
proof -
  have sd: "sorted (map key zs) \<and> distinct (map key zs)" if "keys_sorted key zs" for zs
    using that by (induction zs) (auto simp: less_le)
  have inj: "inj_on key (set xs \<union> set ys)" using sd [OF assms(1)] assms(3) by (simp add: distinct_map)
  have "map key xs = map key ys"
    using sd [OF assms(1)] sd [OF assms(2)] assms(3) by (metis set_map sorted_distinct_set_unique)
  with inj show ?thesis by (simp add: inj_on_map_eq_map)
qed

lemma set_list_edit_removed:
  assumes "keys_sorted key xs" and "sorted_wrt (\<lambda>a b. edit_key key a < edit_key key b) es"
  shows "set (list_edit_removed key es xs) = {x \<in> set xs. key x \<in> edit_key key ` set es}"
  using assms
proof (induction es arbitrary: xs)
  case (Cons e es)
  let ?k = "edit_key key e" and ?ys = "keys_after key (edit_key key e) xs"
  have "set (list_edit_removed key es ?ys) = {x \<in> set ?ys. key x \<in> edit_key key ` set es}"
    using Cons by (simp add: keys_after_sorted)
  moreover have "set (case matching key ?k xs of Some y \<Rightarrow> [y] | None \<Rightarrow> []) = {x \<in> set xs. key x = ?k}"
    using matching_iff [OF Cons.prems(1), of ?k] by (cases "matching key ?k xs") (auto dest: sym)
  ultimately show ?case using Cons.prems by (auto simp: keys_after_iff)
qed simp

lemma list_edit_sequential:
  assumes "keys_sorted key xs" and "distinct (map (edit_key key) es)"
  shows "list_edit key (sort_key (edit_key key) es) xs = foldl (apply_edit key) xs es"
proof -
  have "sorted_wrt (\<lambda>a b. edit_key key a < edit_key key b) (sort_key (edit_key key) es)"
    using distinct_sort_key_strict [OF assms(2)] by (simp add: sorted_wrt_map)
  with apply_edits [OF assms] list_edit_sorted [OF assms(1)] set_list_edit [OF assms(1)] show ?thesis
    by (intro keys_sorted_eqI [of key]) auto
qed

text \<open>
  C31 \<open>SumTree::edit\<close> applies a batch of insertions and removals with distinct keys, given in any
  order, as if each had been applied by itself to the sorted list of items; and \<open>get\<close> finds an
  item by its key.
\<close>

theorem edit_is_sequential:
  assumes "keyed_tree ops D key" and "walkable ops t" and "keys_sorted key (flat t)" and "edits \<noteq> []"
    and "distinct (map (edit_key key) edits)"
  shows "(\<exists>t' removed. tree_edit ops D key t edits = Some (t', removed) \<and>
      wf_tree ops t' \<and> flat t' = foldl (apply_edit key) (flat t) edits \<and>
      set removed = {x \<in> set (flat t). key x \<in> edit_key key ` set edits}) \<and>
    tree_get D t k = matching key k (flat t)"
proof -
  have keyed: "keyed_tree.keyed ops key t"
    using assms(1-3) keys_sorted_weak by (simp add: keyed_tree.keyed_def)
  have strict: "sorted_wrt (\<lambda>a b. edit_key key a < edit_key key b) (sort_key (edit_key key) edits)"
    using distinct_sort_key_strict [OF assms(5)] by (simp add: sorted_wrt_map)
  obtain t' where "tree_edit ops D key t edits = Some (t', list_edit_removed key (sort_key (edit_key key) edits) (flat t))"
      "wf_tree ops t'" "flat t' = list_edit key (sort_key (edit_key key) edits) (flat t)"
    using keyed_tree.tree_edit_correct [OF assms(1) keyed assms(4)] by blast
  with list_edit_sequential [OF assms(3,5)] set_list_edit_removed [OF assms(3) strict]
    keyed_tree.tree_get_correct [OF assms(1) keyed] show ?thesis by auto
qed

theorem edit_is_sequential_witness:
  "\<exists>t' removed. tree_edit map_ops map_dim entry_key
      (Leaf (Some 5) [entry (1 :: nat, ''a''), entry (5, ''e'')] [Some 1, Some 5])
      [Insert (entry (3, ''c'')), Remove (Some 1)] = Some (t', removed) \<and>
    flat t' = [entry (3, ''c''), entry (5, ''e'')]"
proof -
  let ?m = "Leaf (Some 5) [entry (1 :: nat, ''a''), entry (5, ''e'')] [Some 1, Some 5]"
  let ?es = "[Insert (entry (3 :: nat, ''c'')), Remove (Some 1)]"
  have "walkable map_ops ?m"
    by (simp add: walkable_def shallow_def STACK_CAPACITY_def map_ops_def sum_of_def TREE_BASE_def entry_key_def entry_def)
  moreover have "keys_sorted entry_key (flat ?m)" "distinct (map (edit_key entry_key) ?es)"
    by (simp_all add: entry_key_def entry_def)
  moreover have "foldl (apply_edit entry_key) (flat ?m) ?es = [entry (3, ''c''), entry (5, ''e'')]"
    by (simp add: apply_edit_def list_insert_def list_remove_def keys_before_def keys_after_def matching_def
        keys_from_def entry_key_def entry_def)
  ultimately show ?thesis
    using edit_is_sequential [OF mk.keyed_tree_axioms, of ?m ?es] by fastforce
qed

text \<open>
  C15 \<open>TreeMap\<close> refines a finite map: \<open>insert\<close>, \<open>remove\<close>, \<open>update\<close> and \<open>extend\<close> by entries with
  distinct keys return, keep the keys strictly sorted, report the previous value, and change what
  \<open>get\<close> answers exactly as the corresponding operation on maps.
\<close>

theorem tree_map_refines_map:
  assumes "map_ok m" and "shallow m" and "distinct (map fst kvs)" and "kvs \<noteq> []"
  shows "(\<exists>m'. map_insert_or_replace m k v = Some (m', map_get m k) \<and> map_ok m' \<and> map_get m' = (map_get m)(k \<mapsto> v)) \<and>
    (\<exists>m'. map_remove m k = Some (m', map_get m k) \<and> map_ok m' \<and> map_get m' = (map_get m)(k := None)) \<and>
    (\<exists>m'. map_update m k f = Some (m', map_option (snd \<circ> f) (map_get m k)) \<and> map_ok m' \<and>
       map_get m' = (case map_get m k of Some w \<Rightarrow> (map_get m)(k \<mapsto> fst (f w)) | None \<Rightarrow> map_get m)) \<and>
    (\<exists>m'. map_extend m kvs = Some m' \<and> map_ok m' \<and> map_get m' = map_get m ++ map_of kvs)"
proof -
  have get: "map_get n = contents n" if "map_ok n" for n
    using map_get_correct [OF that] by auto
  have k: "map_get m k = contents m k" using get [OF assms(1)] by simp
  show ?thesis
    using map_insert_or_replace_correct [OF assms(1,2), of k v] map_remove_correct [OF assms(1,2), of k]
      map_update_correct [OF assms(1,2), of k f] map_extend_correct [OF assms]
    unfolding k get [OF assms(1)] by (metis (no_types, lifting) get)
qed

definition two_map :: "(nat, nat) tree_map" where
  "two_map = Leaf (Some 5) [entry (1, 10), entry (5, 50)] [Some 1, Some 5]"

lemma two_map_ok: "map_ok two_map" and two_map_shallow: "shallow two_map"
  by (simp_all add: map_ok_def two_map_def map_ops_def sum_of_def TREE_BASE_def entry_key_def entry_def
      shallow_def STACK_CAPACITY_def)

lemma two_map_get: "map_get two_map k = (if k = 1 then Some 10 else if k = 5 then Some 50 else None)"
  using map_get_correct [OF two_map_ok, of k] by (simp add: contents_def two_map_def entry_def pair_of_def)

theorem tree_map_refines_map_witness:
  "\<exists>m'. map_insert_or_replace two_map 5 55 = Some (m', Some 50) \<and> map_get m' 5 = Some 55 \<and> map_get m' 1 = Some 10"
  using tree_map_refines_map [OF two_map_ok two_map_shallow, of "[(7, 70)]" 5 55 "\<lambda>v. (v, ())"]
  by (auto simp: two_map_get)

text \<open>
  C33 Ordered queries and bulk removal: \<open>iter\<close> lists the entries in key order, \<open>iter_from\<close> those
  from a key on, \<open>closest\<close> is the last entry not above a key, \<open>retain\<close> keeps exactly the entries
  that satisfy the predicate, and \<open>remove_range\<close> with its bounds in order removes exactly the
  keys in the half-open range.
\<close>

theorem tree_map_ordered_queries:
  assumes "map_ok m" and "shallow m" and "a \<le> b"
  shows "map_iter m = Some (map pair_of (flat m)) \<and>
    map_iter_from m k = Some (map pair_of (filter (\<lambda>e. k \<le> me_key e) (flat m))) \<and>
    closest m k = Some (map_option pair_of (last_opt (filter (\<lambda>e. me_key e \<le> k) (flat m)))) \<and>
    (\<exists>m'. map_retain m P = Some m' \<and> map_ok m' \<and> flat m' = filter (\<lambda>x. P (me_key x) (me_value x)) (flat m)) \<and>
    (\<exists>m'. remove_range m (cmp a) (cmp b) = Some m' \<and> map_ok m' \<and>
       flat m' = filter (\<lambda>e. \<not> (a \<le> me_key e \<and> me_key e < b)) (flat m))"
proof -
  have walk: "walkable map_ops m" using mk.keyed_walkable [OF map_ok_keyed [OF assms(1,2)]] .
  have srt: "keys_sorted entry_key (flat m)" by (rule map_ok_sorted [OF assms(1)])
  have split: "filter (\<lambda>e. me_key e < a) xs @ filter (\<lambda>e. b \<le> me_key e) xs =
      filter (\<lambda>e. \<not> (a \<le> me_key e \<and> me_key e < b)) xs"
    if "keys_sorted entry_key xs" for xs :: "('a, 'b) map_entry list"
    using that
  proof (induction xs)
    case (Cons x xs)
    then have above: "\<forall>y \<in> set xs. me_key x < me_key y" by (auto simp: entry_key_def)
    show ?case
    proof (cases "me_key x < a")
      case False
      then have "filter (\<lambda>e. me_key e < a) xs = []" using above by (auto simp: filter_empty_conv)
      with False Cons assms(3) show ?thesis by auto
    qed (use Cons assms(3) in auto)
  qed simp
  obtain m' where m': "remove_range m (cmp a) (cmp b) = Some m'" "wf_tree map_ops m'"
      "flat m' = filter (\<lambda>e. \<not> (a \<le> me_key e \<and> me_key e < b)) (flat m)"
    using remove_range_correct [OF assms(1,2), of a b] split [OF srt] by auto
  then have "map_ok m'" using assms(1) by (auto simp: map_ok_def sorted_wrt_filter)
  with m' show ?thesis
    using map_iter_correct [OF walk] map_iter_from_correct [OF assms(1,2)] closest_correct [OF assms(1,2)]
      map_retain_correct [OF assms(1,2)] by blast
qed

theorem tree_map_ordered_queries_witness:
  "closest two_map 4 = Some (Some (1, 10)) \<and> (\<exists>m'. remove_range two_map (cmp 2) (cmp 9) = Some m' \<and> flat m' = [entry (1, 10)])"
proof -
  have "flat two_map = [entry (1, 10), entry (5, 50)]" by (simp add: two_map_def)
  then show ?thesis
    using tree_map_ordered_queries [OF two_map_ok two_map_shallow, of 2 9 4]
    by (auto simp: entry_def pair_of_def last_opt_def)
qed

end
