(* ===== verification/Undo_Map.thy ===== *)
theory Undo_Map
  imports Clock Tree_Map "HOL-Library.Product_Lexorder"
begin

text \<open>
  The crate \<open>text\<close>, file \<open>undo_map.rs\<close>: how often each edit has been undone, keyed by the edit and
  the undo operation, so that the counts of concurrent undo operations can be merged. An edit is
  undone when the greatest count recorded for it is odd.
\<close>

section \<open>Model\<close>

text \<open>\<open>UndoMapKey\<close> with its derived order: the edit first, then the undo operation.\<close>

type_synonym undo_map_key = "lamport \<times> lamport"

record undo_map_entry =
  um_key :: undo_map_key
  um_undo_count :: u32

type_synonym undo_map = "(undo_map_entry, undo_map_key) node"

definition undo_ops :: "(undo_map_entry, undo_map_key) item_ops" where
  "undo_ops = \<lparr>szero = (lamport_MIN, lamport_MIN), sadd = max, ssummary = um_key\<rparr>"

definition undo_dim :: "(undo_map_key, undo_map_key) dim_ops" where
  "undo_dim = summary_dim undo_ops"

text \<open>An undo operation; \<open>counts\<close> lists the entries of its hash map in some order.\<close>

record undo_operation =
  undo_timestamp :: lamport
  undo_version :: global
  undo_counts :: "(lamport \<times> u32) list"

definition undo_map_new :: undo_map where
  "undo_map_new = tree_new undo_ops"

definition undo_entry :: "lamport \<Rightarrow> lamport \<times> u32 \<Rightarrow> undo_map_entry" where
  "undo_entry undo_id ec = \<lparr>um_key = (fst ec, undo_id), um_undo_count = snd ec\<rparr>"

definition undo_map_insert :: "undo_map \<Rightarrow> undo_operation \<Rightarrow> undo_map option" where
  "undo_map_insert m undo = do {
     (m, _) \<leftarrow> tree_edit undo_ops undo_dim um_key m
                (map (\<lambda>ec. Insert (undo_entry (undo_timestamp undo) ec)) (undo_counts undo));
     Some m }"

text \<open>The loop over the entries of one edit from the cursor on; \<open>keep\<close> selects the undo operations.\<close>

partial_function (option) count_loop ::
  "lamport \<Rightarrow> (lamport \<Rightarrow> bool) \<Rightarrow> (undo_map_entry, undo_map_key, undo_map_key) cursor \<Rightarrow> u32 \<Rightarrow> u32 option" where
  "count_loop edit_id keep c undo_count = do {
     r \<leftarrow> cursor_iter_next undo_dim c;
     case snd r of
       None \<Rightarrow> Some undo_count
     | Some e \<Rightarrow>
         if fst (um_key e) \<noteq> edit_id then Some undo_count
         else count_loop edit_id keep (fst r)
           (if keep (snd (um_key e)) then max undo_count (um_undo_count e) else undo_count) }"

declare count_loop.simps [code]

definition undo_count :: "undo_map \<Rightarrow> lamport \<Rightarrow> u32 option" where
  "undo_count m edit_id = do {
     (c, _) \<leftarrow> cursor_seek undo_dim (key_target (edit_id, lamport_MIN)) Left (cursor_new undo_dim m);
     count_loop edit_id (\<lambda>_. True) c 0 }"

definition is_undone :: "undo_map \<Rightarrow> lamport \<Rightarrow> bool option" where
  "is_undone m edit_id = do { n \<leftarrow> undo_count m edit_id; Some (n mod 2 = 1) }"

definition was_undone :: "undo_map \<Rightarrow> lamport \<Rightarrow> global \<Rightarrow> bool option" where
  "was_undone m edit_id version = do {
     (c, _) \<leftarrow> cursor_seek undo_dim (key_target (edit_id, lamport_MIN)) Left (cursor_new undo_dim m);
     n \<leftarrow> count_loop edit_id (observed version) c 0;
     Some (n mod 2 = 1) }"

section \<open>Entries are keyed items\<close>

lemma undo_key_least: "(lamport_MIN, lamport_MIN) \<le> (k :: undo_map_key)"
  using lamport_MIN_least by (cases k) (auto simp: less_eq_prod_def less_le)

interpretation uk: keyed_tree undo_ops undo_dim um_key
  by unfold_locales
    (auto simp: undo_ops_def undo_dim_def summary_dim_def undo_key_least max_def max.assoc less_eq_prod_def
      simp del: less_eq_prod_def intro: undo_key_least antisym)

text \<open>The invariant of the map and the counts it records.\<close>

definition undo_ok :: "undo_map \<Rightarrow> bool" where
  "undo_ok m \<longleftrightarrow> wf_tree undo_ops m \<and> keys_sorted um_key (flat m)"

definition recorded :: "undo_map \<Rightarrow> undo_map_key \<rightharpoonup> u32" where
  "recorded m = map_of (map (\<lambda>e. (um_key e, um_undo_count e)) (flat m))"

lemma undo_ok_keyed: "undo_ok m \<Longrightarrow> shallow m \<Longrightarrow> uk.keyed m"
  by (simp add: undo_ok_def uk.keyed_def walkable_def keys_sorted_weak)

lemma undo_ok_new: "undo_ok undo_map_new" and recorded_new: "recorded undo_map_new = Map.empty"
  by (simp_all add: undo_ok_def undo_map_new_def recorded_def)

lemma recorded_iff:
  assumes "undo_ok m"
  shows "recorded m k = Some c \<longleftrightarrow> \<lparr>um_key = k, um_undo_count = c\<rparr> \<in> set (flat m)"
proof -
  have "keys_sorted um_key xs \<Longrightarrow> distinct (map um_key xs)" for xs :: "undo_map_entry list" by (induction xs) auto
  then have "distinct (map fst (map (\<lambda>e. (um_key e, um_undo_count e)) (flat m)))"
    using assms by (simp add: undo_ok_def comp_def)
  then have "recorded m k = Some c \<longleftrightarrow> (k, c) \<in> (\<lambda>e. (um_key e, um_undo_count e)) ` set (flat m)"
    by (simp add: recorded_def map_of_eq_Some_iff)
  also have "\<dots> \<longleftrightarrow> \<lparr>um_key = k, um_undo_count = c\<rparr> \<in> set (flat m)"
  proof
    assume "(k, c) \<in> (\<lambda>e. (um_key e, um_undo_count e)) ` set (flat m)"
    then obtain e where "e \<in> set (flat m)" "\<lparr>um_key = k, um_undo_count = c\<rparr> = e" by auto
    then show "\<lparr>um_key = k, um_undo_count = c\<rparr> \<in> set (flat m)" by simp
  next
    assume "\<lparr>um_key = k, um_undo_count = c\<rparr> \<in> set (flat m)"
    from imageI [OF this, of "\<lambda>e. (um_key e, um_undo_count e)"]
    show "(k, c) \<in> (\<lambda>e. (um_key e, um_undo_count e)) ` set (flat m)" by simp
  qed
  finally show ?thesis .
qed

section \<open>Recording an undo operation\<close>

definition counts_of :: "undo_operation \<Rightarrow> undo_map_key \<rightharpoonup> u32" where
  "counts_of undo = (\<lambda>(edit_id, undo_id).
     if undo_id = undo_timestamp undo then map_of (undo_counts undo) edit_id else None)"

lemma undo_map_insert_correct:
  assumes ok: "undo_ok m" and sh: "shallow m" and dist: "distinct (map fst (undo_counts undo))"
  shows "\<exists>m'. undo_map_insert m undo = Some m' \<and> undo_ok m' \<and> recorded m' = recorded m ++ counts_of undo"
proof (cases "undo_counts undo = []")
  case True
  then have "counts_of undo = Map.empty" by (auto simp: counts_of_def fun_eq_iff)
  with True ok show ?thesis by (simp add: undo_map_insert_def tree_edit_def)
next
  case False
  let ?ts = "undo_timestamp undo" and ?cs = "undo_counts undo"
  let ?es = "map (\<lambda>ec. Insert (undo_entry ?ts ec)) ?cs :: (undo_map_entry, undo_map_key) edit list"
  have srt: "keys_sorted um_key (flat m)" using ok by (simp add: undo_ok_def)
  have "map (edit_key um_key) ?es = map (\<lambda>e. (e, ?ts)) (map fst ?cs)" by (simp add: undo_entry_def)
  then have "distinct (map (edit_key um_key) ?es)"
    using dist by (simp add: distinct_map inj_on_def)
  note ses = distinct_sort_key_strict [OF this]
  obtain m' where m': "tree_edit undo_ops undo_dim um_key m ?es =
        Some (m', list_edit_removed um_key (sort_key (edit_key um_key) ?es) (flat m))"
      "wf_tree undo_ops m'" "flat m' = list_edit um_key (sort_key (edit_key um_key) ?es) (flat m)"
    using uk.tree_edit_correct [OF undo_ok_keyed [OF ok sh], of ?es] False by auto
  have okm: "undo_ok m'" using m'(2,3) list_edit_sorted [OF srt ses] by (simp add: undo_ok_def)
  have set_m': "set (flat m') =
      {x \<in> set (flat m). um_key x \<notin> (\<lambda>ec. (fst ec, ?ts)) ` set ?cs} \<union> undo_entry ?ts ` set ?cs"
  proof -
    have keys: "edit_key um_key ` set ?es = (\<lambda>ec. (fst ec, ?ts)) ` set ?cs"
      by (simp add: image_image undo_entry_def)
    have new: "{x. Insert x \<in> set ?es} = undo_entry ?ts ` set ?cs" by auto
    show ?thesis unfolding m'(3) set_list_edit [OF srt ses] set_sort keys new ..
  qed
  have "recorded m' k = Some c \<longleftrightarrow> (recorded m ++ counts_of undo) k = Some c" for k c
  proof -
    obtain e u where k: "k = (e, u)" by (cases k)
    have "recorded m' k = Some c \<longleftrightarrow>
        \<lparr>um_key = k, um_undo_count = c\<rparr> \<in> set (flat m) \<and> \<not> (u = ?ts \<and> e \<in> fst ` set ?cs) \<or>
        u = ?ts \<and> (e, c) \<in> set ?cs"
      by (auto simp: recorded_iff [OF okm] set_m' k undo_entry_def image_iff) force+
    also have "\<dots> \<longleftrightarrow> recorded m k = Some c \<and> counts_of undo k = None \<or> counts_of undo k = Some c"
      using dist by (auto simp: recorded_iff [OF ok] k counts_of_def map_of_eq_None_iff)
    finally show ?thesis by (auto simp: map_add_Some_iff)
  qed
  then have "recorded m' = recorded m ++ counts_of undo" by (metis (no_types) ext not_Some_eq)
  with m'(1) okm show ?thesis by (simp add: undo_map_insert_def)
qed

section \<open>Counting\<close>

lemma fold_max_append: "fold max (xs @ ys) (n :: u32) = fold max ys (fold max xs n)"
  by simp

lemma count_loop_correct:
  assumes "cursor_at undo_ops undo_dim m j c" and "walkable undo_ops m"
  shows "count_loop e keep c n = Some (fold max (map um_undo_count (filter (\<lambda>x. keep (snd (um_key x)))
    (takeWhile (\<lambda>x. fst (um_key x) = e) (drop j (flat m))))) n)"
  using assms(1)
proof (induction "length (flat m) - j" arbitrary: j c n)
  case 0
  have "wf_tree undo_ops m" using assms(2) by (simp add: walkable_def)
  with cursor_item_at [OF 0(2)] 0 show ?case
    by (subst count_loop.simps) (simp add: cursor_iter_next_def cursor_at_def)
next
  case (Suc k)
  have wf: "wf_tree undo_ops m" using assms(2) by (simp add: walkable_def)
  from Suc(2) have lt: "j < length (flat m)" by simp
  have seek: "cu_did_seek c" using Suc(3) by (simp add: cursor_at_def)
  have "forward_start undo_ops undo_dim m (Suc j) c" using Suc(3) lt by (auto simp: forward_start_def)
  then obtain c' where c': "cursor_next undo_dim c = Some c'" "cursor_at undo_ops undo_dim m (Suc j) c'"
    using uk.cursor_next_correct [OF _ assms(2)] by blast
  have run: "count_loop e keep c n =
      (if fst (um_key (flat m ! j)) \<noteq> e then Some n
       else count_loop e keep c' (if keep (snd (um_key (flat m ! j))) then max n (um_undo_count (flat m ! j)) else n))"
    using cursor_item_at [OF Suc(3) wf] lt c'(1) seek
    by (subst count_loop.simps) (simp add: cursor_iter_next_def)
  have "k = length (flat m) - Suc j" using Suc(2) by simp
  from Suc(1) [OF this c'(2)] lt show ?case
    by (simp add: run drop_eq_Cons_nth max.commute)
qed

text \<open>From the least key of an edit on, the entries of the edit come first.\<close>

lemma entries_of_edit:
  assumes "keys_sorted um_key xs"
  shows "takeWhile (\<lambda>x. fst (um_key x) = e) (keys_from um_key (e, lamport_MIN) xs) =
    filter (\<lambda>x. fst (um_key x) = e) xs"
proof -
  have less: "k < (e, lamport_MIN) \<longleftrightarrow> fst k < e" for k :: undo_map_key
    by (cases k) (auto simp: less_prod_def leD [OF lamport_MIN_least])
  have "takeWhile (\<lambda>x. fst (um_key x) = e) (dropWhile (\<lambda>x. fst (um_key x) < e) xs) =
      filter (\<lambda>x. fst (um_key x) = e) xs"
    using assms
  proof (induction xs)
    case (Cons x xs)
    have later: "fst (um_key x) \<le> fst (um_key y)" if "y \<in> set xs" for y
      using Cons.prems that by (auto simp: less_prod_def)
    consider "fst (um_key x) < e" | "fst (um_key x) = e" | "e < fst (um_key x)" by (rule linorder_cases)
    then show ?case
    proof cases
      case 2
      then have "\<not> fst (um_key y) < e" if "y \<in> set xs" for y using later [OF that] by simp
      then have "dropWhile (\<lambda>x. fst (um_key x) < e) xs = xs" by (cases xs) auto
      with 2 Cons show ?thesis by simp
    next
      case 3
      then have "filter (\<lambda>x. fst (um_key x) = e) xs = []"
        using later by (force simp: filter_empty_conv)
      with 3 show ?thesis by auto
    qed (use Cons in auto)
  qed simp
  then show ?thesis by (simp add: keys_from_def less)
qed

lemma seek_edit:
  assumes ok: "undo_ok m" and sh: "shallow m"
  shows "\<exists>c r. cursor_seek undo_dim (key_target (e, lamport_MIN)) Left (cursor_new undo_dim m) = Some (c, r) \<and>
    cursor_at undo_ops undo_dim m (length (keys_before um_key (e, lamport_MIN) (flat m))) c"
proof -
  have walk: "walkable undo_ops m" using uk.keyed_walkable [OF undo_ok_keyed [OF ok sh]] .
  have srt: "sorted (map um_key (flat m))" using keys_sorted_weak ok by (auto simp: undo_ok_def)
  have mono: "mono_target undo_dim (key_target (e, lamport_MIN)) Left (dzero undo_dim) (map (ssummary undo_ops) (flat m))"
    using uk.key_mono_target [OF srt, of "(e, lamport_MIN)" Left 0] by simp
  have "dzero undo_dim \<le> (e, lamport_MIN)"
    using undo_key_least by (simp add: undo_dim_def undo_ops_def summary_dim_def)
  then have ge: "key_target (e, lamport_MIN) (dzero undo_dim) \<noteq> Less" by (simp add: key_target_def not_less)
  have tree: "cu_tree (cursor_new undo_dim m) = m" by (simp add: cursor_new_def)
  from uk.cursor_seek_correct [OF tree walk mono ge refl] uk.key_seek_len [OF srt, of "(e, lamport_MIN)" 0]
  show ?thesis by auto
qed

text \<open>The counts recorded for an edit by the undo operations that \<open>keep\<close> selects.\<close>

definition counts_for :: "undo_map \<Rightarrow> lamport \<Rightarrow> (lamport \<Rightarrow> bool) \<Rightarrow> u32 set" where
  "counts_for m edit_id keep = {c. \<exists>undo_id. recorded m (edit_id, undo_id) = Some c \<and> keep undo_id}"

lemma fold_max_Max: "fold max (xs :: u32 list) n = Max (insert n (set xs))"
  using Max.set_eq_fold [of n xs] by simp

lemma count_loop_counts:
  assumes ok: "undo_ok m" and sh: "shallow m"
    and c: "cursor_at undo_ops undo_dim m (length (keys_before um_key (e, lamport_MIN) (flat m))) c"
  shows "count_loop e keep c 0 = Some (Max (insert 0 (counts_for m e keep)))"
proof -
  have walk: "walkable undo_ops m" using uk.keyed_walkable [OF undo_ok_keyed [OF ok sh]] .
  have srt: "keys_sorted um_key (flat m)" using ok by (simp add: undo_ok_def)
  let ?xs = "filter (\<lambda>x. keep (snd (um_key x))) (filter (\<lambda>x. fst (um_key x) = e) (flat m))"
  have "set (map um_undo_count ?xs) = counts_for m e keep"
  proof (intro set_eqI iffI)
    fix n assume "n \<in> set (map um_undo_count ?xs)"
    then obtain x where x: "x \<in> set (flat m)" "fst (um_key x) = e" "keep (snd (um_key x))" "n = um_undo_count x"
      by auto
    then have "\<lparr>um_key = (e, snd (um_key x)), um_undo_count = n\<rparr> = x" by (cases x) auto
    with x(1) have "recorded m (e, snd (um_key x)) = Some n" by (simp add: recorded_iff [OF ok])
    with x(3) show "n \<in> counts_for m e keep" by (auto simp: counts_for_def)
  next
    fix n assume "n \<in> counts_for m e keep"
    then obtain u where "\<lparr>um_key = (e, u), um_undo_count = n\<rparr> \<in> set (flat m)" "keep u"
      by (auto simp: counts_for_def recorded_iff [OF ok])
    then show "n \<in> set (map um_undo_count ?xs)" by (force simp: image_iff)
  qed
  then show ?thesis
    using count_loop_correct [OF c walk, of e keep 0] entries_of_edit [OF srt, of e]
    by (simp add: keys_from_drop [symmetric] fold_max_Max)
qed

lemma undo_count_correct:
  assumes "undo_ok m" and "shallow m"
  shows "undo_count m e = Some (Max (insert 0 (counts_for m e (\<lambda>_. True))))"
  using seek_edit [OF assms, of e] count_loop_counts [OF assms] by (auto simp: undo_count_def)

lemma was_undone_correct:
  assumes "undo_ok m" and "shallow m"
  shows "was_undone m e version = Some (Max (insert 0 (counts_for m e (observed version))) mod 2 = 1)"
  using seek_edit [OF assms, of e] count_loop_counts [OF assms] by (auto simp: was_undone_def)

section \<open>Convergence\<close>

text \<open>
  Replicas receive the same operations in different orders. Where the effects of operations with
  different identities commute, the order does not matter.
\<close>

locale commuting_effects =
  fixes merge :: "'v \<Rightarrow> 'o \<Rightarrow> 'v" and ident :: "'o \<Rightarrow> 'i"
  assumes merge_commute: "ident a \<noteq> ident b \<Longrightarrow> merge (merge v a) b = merge (merge v b) a"
begin

lemma foldl_merge_late:
  assumes "ident a \<notin> ident ` set xs"
  shows "foldl merge (merge v a) xs = merge (foldl merge v xs) a"
  using assms by (induction xs arbitrary: v) (auto simp: merge_commute [of a])

lemma foldl_merge_order:
  assumes "mset xs = mset ys" and "distinct (map ident xs)"
  shows "foldl merge v xs = foldl merge v ys"
  using assms
proof (induction xs arbitrary: ys v)
  case (Cons x xs)
  then obtain as bs where ys: "ys = as @ x # bs" by (metis list.set_intros(1) mset_eq_setD split_list)
  with Cons.prems have m: "mset xs = mset (as @ bs)" by simp
  then have "set as \<subseteq> set xs" by (metis mset_eq_setD set_append Un_upper1)
  then have "ident x \<notin> ident ` set as" using Cons.prems(2) by auto
  with Cons.IH [OF m, of "merge v x"] Cons.prems(2) show ?case
    by (simp add: ys foldl_merge_late)
qed simp

end

interpretation undo_merge: commuting_effects "\<lambda>r undo. r ++ counts_of undo" undo_timestamp
proof
  fix a b :: undo_operation and v
  assume "undo_timestamp a \<noteq> undo_timestamp b"
  then have "dom (counts_of a) \<inter> dom (counts_of b) = {}" by (auto simp: counts_of_def split: if_splits)
  then show "v ++ counts_of a ++ counts_of b = v ++ counts_of b ++ counts_of a"
    by (metis map_add_assoc map_add_comm)
qed

text \<open>A replica that applies a sequence of undo operations, within the height the cursor can walk.\<close>

inductive undo_run :: "undo_map \<Rightarrow> undo_operation list \<Rightarrow> undo_map \<Rightarrow> bool" where
  undo_run_Nil: "undo_run m [] m"
| undo_run_Cons: "shallow m \<Longrightarrow> undo_map_insert m u = Some m1 \<Longrightarrow> undo_run m1 us m2 \<Longrightarrow> undo_run m (u # us) m2"

inductive_cases undo_run_ConsE: "undo_run m (u # us) m2"

lemma undo_run_recorded:
  assumes "undo_run m us m'" and "undo_ok m" and "\<forall>u \<in> set us. distinct (map fst (undo_counts u))"
  shows "undo_ok m' \<and> recorded m' = foldl (\<lambda>r undo. r ++ counts_of undo) (recorded m) us"
  using assms
proof (induction rule: undo_run.induct)
  case (undo_run_Cons m u m1 us m2)
  then have "undo_ok m1 \<and> recorded m1 = recorded m ++ counts_of u"
    using undo_map_insert_correct [of m u] by auto
  with undo_run_Cons show ?case by simp
qed simp

lemma undo_runs_agree:
  assumes "undo_run m us m1" and "undo_run m vs m2" and "undo_ok m" and "mset us = mset vs"
    and "distinct (map undo_timestamp us)" and "\<forall>u \<in> set us. distinct (map fst (undo_counts u))"
  shows "undo_ok m1 \<and> undo_ok m2 \<and> recorded m1 = recorded m2"
proof -
  have "set us = set vs" using assms(4) by (rule mset_eq_setD)
  with undo_run_recorded [OF assms(1,3)] undo_run_recorded [OF assms(2,3)] assms(6)
    undo_merge.foldl_merge_order [OF assms(4,5), of "recorded m"]
  show ?thesis by simp
qed

end
