(* ===== verification/Operation_Queue.thy ===== *)
theory Operation_Queue
  imports Clock Tree_Map
begin

text \<open>
  The crate \<open>text\<close>, file \<open>operation_queue.rs\<close>: operations that cannot be applied yet, ordered by
  their Lamport timestamps. The trait \<open>Operation\<close> is the timestamp function.

  Adding summaries is total here, as it is for every other tree: the two assertions of the source, that a sum is formed in
  the order of the keys and that a position does not move back, are stated beside the model and shown of
  every pair of neighbouring runs of a well-formed queue, but that the tree code adds no other summaries is not shown.
  In the source the first fails for an operation with the least timestamp, which is added to the zero summary; no clock issues that timestamp.
\<close>

section \<open>Model\<close>

record operation_summary =
  os_key :: lamport
  os_len :: nat

type_synonym 'o operation_queue = "('o, operation_summary) node"

definition operation_ops :: "('o \<Rightarrow> lamport) \<Rightarrow> ('o, operation_summary) item_ops" where
  "operation_ops ts = \<lparr>szero = \<lparr>os_key = lamport_MIN, os_len = 0\<rparr>,
     sadd = (\<lambda>a b. \<lparr>os_key = os_key b, os_len = os_len a + os_len b\<rparr>),
     ssummary = (\<lambda>op. \<lparr>os_key = ts op, os_len = 1\<rparr>)\<rparr>"

definition operation_dim :: "(operation_summary, lamport) dim_ops" where
  "operation_dim = \<lparr>dzero = lamport_MIN, dadd = (\<lambda>_ summary. os_key summary)\<rparr>"

text \<open>The assertions that adding two summaries and adding a summary to a position make.\<close>

definition add_assertion :: "operation_summary \<Rightarrow> operation_summary \<Rightarrow> bool" where
  "add_assertion a b \<longleftrightarrow> os_key a < os_key b"

definition position_assertion :: "lamport \<Rightarrow> operation_summary \<Rightarrow> bool" where
  "position_assertion position s \<longleftrightarrow> position \<le> os_key s"

definition queue_new :: "('o \<Rightarrow> lamport) \<Rightarrow> 'o operation_queue" where
  "queue_new ts = tree_new (operation_ops ts)"

definition queue_len :: "'o operation_queue \<Rightarrow> nat" where
  "queue_len q = os_len (summary q)"

definition queue_is_empty :: "'o operation_queue \<Rightarrow> bool" where
  "queue_is_empty q = (queue_len q = 0)"

text \<open>\<open>Vec::dedup_by_key\<close> drops an element whose key is that of its predecessor.\<close>

fun dedup_by_key :: "('a \<Rightarrow> 'b) \<Rightarrow> 'a list \<Rightarrow> 'a list" where
  "dedup_by_key f (x # y # ys) =
     (if f x = f y then dedup_by_key f (x # ys) else x # dedup_by_key f (y # ys))"
| "dedup_by_key f xs = xs"

definition queue_insert :: "('o \<Rightarrow> lamport) \<Rightarrow> 'o operation_queue \<Rightarrow> 'o list \<Rightarrow> 'o operation_queue option" where
  "queue_insert ts q ops = do {
     (q, _) \<leftarrow> tree_edit (operation_ops ts) operation_dim ts q
                (map Insert (dedup_by_key ts (sort_key ts ops)));
     Some q }"

text \<open>\<open>drain\<close> returns the old queue and leaves an empty one.\<close>

definition queue_drain :: "('o \<Rightarrow> lamport) \<Rightarrow> 'o operation_queue \<Rightarrow> 'o operation_queue \<times> 'o operation_queue" where
  "queue_drain ts q = (queue_new ts, q)"

definition queue_iter :: "'o operation_queue \<Rightarrow> 'o list option" where
  "queue_iter q = iter_collect (iter_new q) []"

section \<open>Operations are keyed items\<close>

interpretation oq: keyed_tree "operation_ops ts" operation_dim ts for ts
  by unfold_locales (auto simp: operation_ops_def operation_dim_def lamport_MIN_least)

definition queue_ok :: "('o \<Rightarrow> lamport) \<Rightarrow> 'o operation_queue \<Rightarrow> bool" where
  "queue_ok ts q \<longleftrightarrow> wf_tree (operation_ops ts) q \<and> keys_sorted ts (flat q)"

lemma queue_ok_keyed: "queue_ok ts q \<Longrightarrow> shallow q \<Longrightarrow> oq.keyed ts q"
  by (simp add: queue_ok_def oq.keyed_def walkable_def keys_sorted_weak)

lemma sum_len: "os_len (sum_of (operation_ops ts) (map (ssummary (operation_ops ts)) xs)) = length xs"
  by (induction xs rule: rev_induct) (simp_all add: sum_of_def operation_ops_def)

lemma queue_len_correct: "queue_ok ts q \<Longrightarrow> queue_len q = length (flat q)"
  using oq.wf_summary [of ts q] sum_len [of ts "flat q"] by (simp add: queue_len_def queue_ok_def)

section \<open>Inserting\<close>

lemma dedup_keys: "sorted (map f xs) \<Longrightarrow> sorted_wrt (<) (map f (dedup_by_key f xs))"
proof (induction f xs rule: dedup_by_key.induct)
  case (1 f x y ys)
  have sub: "set (dedup_by_key f zs) \<subseteq> set zs" for zs
    by (induction f zs rule: dedup_by_key.induct) auto
  show ?case
  proof (cases "f x = f y")
    case False
    have "f x < f z" if "z \<in> set (dedup_by_key f (y # ys))" for z
    proof -
      have "f x < f y" using 1(3) False by (simp add: less_le)
      moreover have "f y \<le> f z" using 1(3) sub [of "y # ys"] that by auto
      ultimately show ?thesis by simp
    qed
    with 1 False show ?thesis by simp
  qed (use 1 in auto)
qed simp_all

lemma dedup_image: "sorted (map f xs) \<Longrightarrow> f ` set (dedup_by_key f xs) = f ` set xs"
  by (induction f xs rule: dedup_by_key.induct) auto

lemma dedup_subset: "set (dedup_by_key f xs) \<subseteq> set xs"
  by (induction f xs rule: dedup_by_key.induct) auto

lemma queue_insert_correct:
  assumes ok: "queue_ok ts q" and sh: "shallow q"
  shows "\<exists>q'. queue_insert ts q ops = Some q' \<and> queue_ok ts q' \<and>
    (\<exists>new. set new \<subseteq> set ops \<and> ts ` set new = ts ` set ops \<and> inj_on ts (set new) \<and>
       set (flat q') = {op \<in> set (flat q). ts op \<notin> ts ` set ops} \<union> set new)"
proof (cases "ops = []")
  case True
  with ok show ?thesis by (auto simp: queue_insert_def tree_edit_def)
next
  case False
  let ?new = "dedup_by_key ts (sort_key ts ops)"
  let ?es = "map Insert ?new :: ('a, lamport) edit list"
  have srt: "keys_sorted ts (flat q)" using ok by (simp add: queue_ok_def)
  have strict: "sorted_wrt (<) (map ts ?new)" by (intro dedup_keys sorted_sort_key)
  have keys: "map (edit_key ts) ?es = map ts ?new" by (simp add: comp_def)
  have "distinct (map (edit_key ts) ?es)" unfolding keys using strict by (simp only: strict_sorted_iff)
  note ses = distinct_sort_key_strict [OF this]
  have img: "ts ` set ?new = ts ` set ops" using dedup_image [of ts "sort_key ts ops"] by simp
  have ne: "?es \<noteq> []" using img False by auto
  obtain q' where q': "tree_edit (operation_ops ts) operation_dim ts q ?es =
        Some (q', list_edit_removed ts (sort_key (edit_key ts) ?es) (flat q))"
      "wf_tree (operation_ops ts) q'" "flat q' = list_edit ts (sort_key (edit_key ts) ?es) (flat q)"
    using oq.tree_edit_correct [OF queue_ok_keyed [OF ok sh] ne] by auto
  have keyset: "edit_key ts ` set ?es = ts ` set ops" using img by (simp add: image_image)
  have "set (flat q') = {op \<in> set (flat q). ts op \<notin> ts ` set ops} \<union> {x. Insert x \<in> set ?es}"
    unfolding q'(3) set_list_edit [OF srt ses] set_sort keyset ..
  moreover have "{x. Insert x \<in> set ?es} = set ?new" by auto
  moreover have "inj_on ts (set ?new)"
    using strict by (simp only: strict_sorted_iff distinct_map)
  moreover have "set ?new \<subseteq> set ops" using dedup_subset [of ts "sort_key ts ops"] by simp
  moreover have "queue_ok ts q'" using q'(2,3) list_edit_sorted [OF srt ses] by (simp add: queue_ok_def)
  ultimately show ?thesis using q'(1) img by (auto simp: queue_insert_def intro!: exI [of _ ?new])
qed

text \<open>
  The sums and the positions of two neighbouring runs of a well-formed queue pass the assertions; for the zero
  summary, the sum of no items, this needs that no operation has the least timestamp.
\<close>

lemma queue_assertions:
  assumes "queue_ok ts q" and "flat q = as @ xs @ ys @ bs" and "ys \<noteq> []" and "xs \<noteq> [] \<or> lamport_MIN \<notin> ts ` set (flat q)"
  shows "add_assertion (sum_of (operation_ops ts) (map (ssummary (operation_ops ts)) xs))
      (sum_of (operation_ops ts) (map (ssummary (operation_ops ts)) ys))"
    and "position_assertion (position_of (operation_ops ts) operation_dim (as @ xs))
      (sum_of (operation_ops ts) (map (ssummary (operation_ops ts)) ys))"
proof -
  have key: "os_key (sum_of (operation_ops ts) (map (ssummary (operation_ops ts)) zs)) = (if zs = [] then lamport_MIN else ts (last zs))" for zs
    by (cases zs rule: rev_cases) (simp_all add: sum_of_def operation_ops_def)
  have pos: "position_of (operation_ops ts) operation_dim zs = (if zs = [] then lamport_MIN else ts (last zs))" for zs
    by (cases zs rule: rev_cases) (simp_all add: position_of_def operation_ops_def operation_dim_def)
  have "keys_sorted ts (as @ xs @ ys @ bs)" using assms(1,2) by (simp add: queue_ok_def)
  then have lt: "\<forall>x \<in> set (as @ xs). \<forall>y \<in> set ys. ts x < ts y" by (auto simp: sorted_wrt_append)
  have last: "last ys \<in> set ys" using assms(3) by simp
  have "lamport_MIN < ts (last ys)" if "lamport_MIN \<notin> ts ` set (flat q)"
    using that last lamport_MIN_least [of "ts (last ys)"] unfolding assms(2) by (force simp: less_le)
  moreover have "ts x < ts (last ys)" if "x \<in> set (as @ xs)" for x using lt last that by blast
  ultimately show "add_assertion (sum_of (operation_ops ts) (map (ssummary (operation_ops ts)) xs))
      (sum_of (operation_ops ts) (map (ssummary (operation_ops ts)) ys))"
    using assms(3,4) last_in_set [of xs] by (auto simp: add_assertion_def key)
  show "position_assertion (position_of (operation_ops ts) operation_dim (as @ xs))
      (sum_of (operation_ops ts) (map (ssummary (operation_ops ts)) ys))"
    using assms(3) lamport_MIN_least [of "ts (last ys)"] lt last last_in_set [of "as @ xs"]
    by (simp add: position_assertion_def key pos less_imp_le del: set_append last_append)
qed

end
