(* ===== verification/Locator.thy ===== *)
theory Locator
  imports Sum_Tree_Access "HOL-Library.List_Lexorder"
begin

text \<open>
  The crate \<open>text\<close>, file \<open>locator.rs\<close>: identifiers of positions in an ordered collection, such that
  there is always another between two of them. A locator is a vector of 64-bit integers with
  the derived lexicographic order.
\<close>

section \<open>Model\<close>

type_synonym locator = "u64 list"

definition locator_min :: locator where
  "locator_min = [0]"

definition locator_max :: locator where
  "locator_max = [- 1]"

text \<open>\<open>copy_from_slice\<close> panics when the lengths differ.\<close>

definition locator_assign :: "locator \<Rightarrow> locator \<Rightarrow> locator option" where
  "locator_assign self other = do {
     _ \<leftarrow> require (length (resize (length other) 0 self) = length other);
     Some other }"

text \<open>The digit between two digits, and the loop over the two padded sequences of digits.\<close>

definition mid_digit :: "u64 \<Rightarrow> u64 \<Rightarrow> u64" where
  "mid_digit l r = l + drop_bit 48 (saturating_sub r l)"

definition next_digit :: "u64 \<Rightarrow> locator \<Rightarrow> u64" where
  "next_digit pad ds = (case ds of [] \<Rightarrow> pad | d # _ \<Rightarrow> d)"

lemma mid_digit_pad: "mid_digit 0 (- 1) = 65535"
  by (simp add: mid_digit_def saturating_sub_def mask_eq_exp_minus_1)

function between_loop :: "locator \<Rightarrow> locator \<Rightarrow> locator" where
  "between_loop lhs rhs =
     (let l = next_digit 0 lhs; r = next_digit (- 1) rhs; mid = mid_digit l r
      in if l < mid then [mid] else mid # between_loop (tl lhs) (tl rhs))"
  by pat_completeness auto
termination
proof (relation "measure (\<lambda>(lhs, rhs). length lhs + length rhs)", goal_cases)
  case (2 lhs rhs l r mid)
  then have "\<not> (lhs = [] \<and> rhs = [])" by (auto simp: next_digit_def mid_digit_pad)
  then show ?case by (cases lhs; cases rhs) auto
qed simp

declare between_loop.simps [simp del]

definition between :: "locator \<Rightarrow> locator \<Rightarrow> locator" where
  "between lhs rhs = between_loop lhs rhs"

definition locator_len :: "locator \<Rightarrow> nat" where
  "locator_len l = length l"

text \<open>A locator is its own summary, and addition keeps the right argument.\<close>

definition locator_ops :: "(locator, locator) item_ops" where
  "locator_ops = \<lparr>szero = locator_min, sadd = (\<lambda>_ summary. summary), ssummary = (\<lambda>l. l)\<rparr>"

section \<open>Digits\<close>

lemma locator_assign_correct: "locator_assign self other = Some other"
  by (simp add: locator_assign_def)

lemma unat_drop_bit_le: "unat (drop_bit n (w :: 'a::len word)) \<le> unat w"
  by (simp only: unat_drop_bit_eq) (simp add: drop_bit_eq_div)

lemma unat_mid_digit: "l \<le> r \<Longrightarrow> unat (mid_digit l r) = unat l + (unat r - unat l) div 2 ^ 48"
proof -
  assume le: "l \<le> r"
  let ?d = "drop_bit 48 (saturating_sub r l)"
  have d: "unat ?d = (unat r - unat l) div 2 ^ 48"
    by (simp only: unat_drop_bit_eq unat_saturating_sub) (simp add: drop_bit_eq_div)
  have "unat l + unat ?d \<le> unat r"
    using le unat_drop_bit_le [of 48 "saturating_sub r l"] by (simp add: unat_saturating_sub word_le_nat_alt)
  then have "unat l + unat ?d < 2 ^ 64" using unat_less_exp [of r] by simp
  then show ?thesis using d by (simp add: mid_digit_def unat_word_ariths)
qed

lemma mid_digit_above: "r \<le> l \<Longrightarrow> mid_digit l r = l"
  by (simp add: mid_digit_def saturating_sub_def)

lemma mid_digit_ge: "l \<le> mid_digit l r"
proof (cases "l \<le> r")
  case True
  then show ?thesis by (simp add: word_le_nat_alt unat_mid_digit)
qed (simp add: mid_digit_above)

lemma mid_digit_less:
  assumes "l < r"
  shows "mid_digit l r < r"
proof -
  have "(unat r - unat l) div 2 ^ 48 < unat r - unat l"
    using assms by (simp add: word_less_nat_alt div_less_dividend)
  then have "unat (mid_digit l r) < unat r"
    using unat_mid_digit [OF less_imp_le [OF assms]] by linarith
  then show ?thesis by (simp only: word_less_nat_alt)
qed

section \<open>A locator between two others\<close>

lemma between_loop_Nil: "between_loop [] [] = [65535]"
  by (subst between_loop.simps) (simp add: next_digit_def mid_digit_pad)

lemma between_loop_stop:
  "next_digit 0 lhs < mid_digit (next_digit 0 lhs) (next_digit (- 1) rhs) \<Longrightarrow>
   between_loop lhs rhs = [mid_digit (next_digit 0 lhs) (next_digit (- 1) rhs)]"
  by (subst between_loop.simps) (simp add: Let_def)

lemma between_loop_step:
  assumes "\<not> next_digit 0 lhs < mid_digit (next_digit 0 lhs) (next_digit (- 1) rhs)"
  shows "between_loop lhs rhs = next_digit 0 lhs # between_loop (tl lhs) (tl rhs)"
    and "lhs \<noteq> [] \<or> rhs \<noteq> []"
proof -
  have "mid_digit (next_digit 0 lhs) (next_digit (- 1) rhs) = next_digit 0 lhs"
    using assms mid_digit_ge [of "next_digit 0 lhs" "next_digit (- 1) rhs"] by simp
  then show "between_loop lhs rhs = next_digit 0 lhs # between_loop (tl lhs) (tl rhs)"
    by (subst between_loop.simps) (simp add: Let_def)
  show "lhs \<noteq> [] \<or> rhs \<noteq> []" using assms by (auto simp: next_digit_def mid_digit_pad)
qed

lemma next_digit_Cons [simp]: "next_digit p (d # ds) = d" and next_digit_Nil [simp]: "next_digit p [] = p"
  by (simp_all add: next_digit_def)

lemma between_loop_greater: "lhs < between_loop lhs rhs"
proof (induction lhs rhs rule: between_loop.induct)
  case (1 lhs rhs)
  show ?case
  proof (cases "next_digit 0 lhs < mid_digit (next_digit 0 lhs) (next_digit (- 1) rhs)")
    case True
    with between_loop_stop [OF True] show ?thesis by (cases lhs) simp_all
  next
    case False
    with 1 [OF refl refl refl] between_loop_step(1) [OF False] show ?thesis by (cases lhs) simp_all
  qed
qed

lemma between_loop_last: "between_loop lhs rhs \<noteq> [] \<and> last (between_loop lhs rhs) \<noteq> 0"
proof (induction lhs rhs rule: between_loop.induct)
  case (1 lhs rhs)
  show ?case
  proof (cases "next_digit 0 lhs < mid_digit (next_digit 0 lhs) (next_digit (- 1) rhs)")
    case True
    with between_loop_stop [OF True] show ?thesis by auto
  next
    case False
    with 1 [OF refl refl refl] between_loop_step(1) [OF False] show ?thesis by simp
  qed
qed

lemma between_loop_length: "length (between_loop lhs rhs) \<le> Suc (max (length lhs) (length rhs))"
proof (induction lhs rhs rule: between_loop.induct)
  case (1 lhs rhs)
  show ?case
  proof (cases "next_digit 0 lhs < mid_digit (next_digit 0 lhs) (next_digit (- 1) rhs)")
    case True
    with between_loop_stop [OF True] show ?thesis by simp
  next
    case False
    with 1 [OF refl refl refl] between_loop_step [OF False] show ?thesis by (cases lhs; cases rhs) auto
  qed
qed

text \<open>Once a digit of the left locator is smaller, every continuation stays below the right one.\<close>

lemma between_loop_less:
  assumes "lhs < rhs" and "last rhs \<noteq> 0"
  shows "between_loop lhs rhs < rhs"
  using assms
proof (induction lhs rhs rule: between_loop.induct)
  case (1 lhs rhs)
  from "1.prems"(1) obtain r rs where rhs: "rhs = r # rs" by (cases rhs) auto
  let ?l = "next_digit 0 lhs"
  have le: "?l \<le> r" using "1.prems"(1) rhs by (cases lhs) auto
  show ?case
  proof (cases "?l < mid_digit ?l (next_digit (- 1) rhs)")
    case True
    then have "?l < r" using le mid_digit_above [of r ?l] rhs by (cases "?l = r") auto
    with between_loop_stop [OF True] mid_digit_less [of ?l r] rhs show ?thesis by simp
  next
    case False
    note step = between_loop_step(1) [OF False]
    show ?thesis
    proof (cases "?l = r")
      case True
      have "tl lhs < rs" "last rs \<noteq> 0"
        using "1.prems" rhs True by (cases lhs; cases rs; auto)+
      with "1.IH" [OF refl refl refl False] step rhs True show ?thesis by simp
    qed (use le step rhs in simp)
  qed
qed

theorem between_correct:
  assumes "lhs < rhs" and "last rhs \<noteq> 0"
  shows "lhs < between lhs rhs \<and> between lhs rhs < rhs \<and> last (between lhs rhs) \<noteq> 0 \<and>
    length (between lhs rhs) \<le> Suc (max (length lhs) (length rhs))"
  using between_loop_greater between_loop_less [OF assms] between_loop_last between_loop_length
  by (simp add: between_def)

section \<open>Dense identifiers\<close>

text \<open>
  What an ordered collection relies on: a new identifier fits between any two, so any number of
  items can be inserted between two items without renumbering.
\<close>

locale dense_identifiers =
  fixes valid :: "'i::linorder \<Rightarrow> bool" and fresh :: "'i \<Rightarrow> 'i \<Rightarrow> 'i"
  assumes fresh_between: "a < b \<Longrightarrow> valid b \<Longrightarrow> a < fresh a b \<and> fresh a b < b \<and> valid (fresh a b)"
begin

text \<open>Items typed one after the other: each new identifier lies between the previous one and the next item.\<close>

fun typed :: "nat \<Rightarrow> 'i \<Rightarrow> 'i \<Rightarrow> 'i list" where
  "typed 0 a b = []"
| "typed (Suc n) a b = fresh a b # typed n (fresh a b) b"

lemma typed_ordered:
  assumes "a < b" and "valid b"
  shows "length (typed n a b) = n \<and> sorted_wrt (<) (typed n a b) \<and>
    (\<forall>i \<in> set (typed n a b). a < i \<and> i < b \<and> valid i)"
  using assms(1)
proof (induction n arbitrary: a)
  case (Suc n)
  have f: "a < fresh a b" "fresh a b < b" "valid (fresh a b)" using fresh_between [OF Suc.prems assms(2)] by auto
  with Suc.IH [OF f(2)] show ?case by (auto intro: less_trans)
qed simp

text \<open>Typing backwards: each new identifier lies between the previous item and the last new one.\<close>

fun prepended :: "nat \<Rightarrow> 'i \<Rightarrow> 'i \<Rightarrow> 'i list" where
  "prepended 0 a b = []"
| "prepended (Suc n) a b = prepended n a (fresh a b) @ [fresh a b]"

lemma prepended_ordered:
  assumes "a < b" and "valid b"
  shows "length (prepended n a b) = n \<and> sorted_wrt (<) (prepended n a b) \<and>
    (\<forall>i \<in> set (prepended n a b). a < i \<and> i < b \<and> valid i)"
  using assms
proof (induction n arbitrary: b)
  case (Suc n)
  have f: "a < fresh a b" "fresh a b < b" "valid (fresh a b)" using fresh_between [OF Suc.prems] by auto
  with Suc.IH [OF f(1,3)] show ?case by (auto simp: sorted_wrt_append intro: less_trans)
qed simp

end

interpretation loc: dense_identifiers "\<lambda>l. last l \<noteq> 0" between
  by unfold_locales (use between_correct in auto)

text \<open>Without the condition on the last digit there need not be anything between.\<close>

lemma no_room_above_trailing_zero: "[5] < between [5] [5, 0] \<and> [5, 0] < between [5] [5, 0]"
  by (simp add: between_def between_loop.simps [of "[_]"] between_loop.simps [of "[]"] mid_digit_def
      saturating_sub_def Let_def mask_eq_exp_minus_1)

lemma initial_locator: "between locator_min locator_max = [65535]"
  by (simp add: between_def locator_min_def locator_max_def between_loop_stop mid_digit_pad)

interpretation loc_dim: dimension_laws locator_ops "summary_dim locator_ops"
  by unfold_locales (simp_all add: locator_ops_def summary_dim_def)

end
