(* ===== verification/Rope_Points.thy ===== *)
theory Rope_Points
  imports Sum_Tree_Access
begin

text \<open>
  The crate \<open>rope\<close>, files \<open>point.rs\<close>, \<open>point_utf16.rs\<close>, \<open>offset_utf16.rs\<close> and \<open>unclipped.rs\<close>: positions
  in a text as a row and a column. The operations are polymorphic in the type of the coordinates:
  at \<open>u32\<close> they are the machine operations with wrap-around, at \<open>nat\<close> the ideal ones that the
  machine operations agree with while nothing overflows.
\<close>

unbundle bit_operations_syntax

section \<open>Characters\<close>

text \<open>A Rust \<open>char\<close> is a Unicode scalar value; a \<open>str\<close> is the sequence of its characters.\<close>

type_synonym rust_char = nat
type_synonym str = "rust_char list"

definition newline_char :: rust_char where
  "newline_char = 10"

definition len_utf8 :: "rust_char \<Rightarrow> nat" where
  "len_utf8 c = (if c < 0x80 then 1 else if c < 0x800 then 2 else if c < 0x10000 then 3 else 4)"

definition char_len_utf16 :: "rust_char \<Rightarrow> nat" where
  "char_len_utf16 c = (if c < 0x10000 then 1 else 2)"

definition str_len :: "str \<Rightarrow> nat" where
  "str_len s = sum_list (map len_utf8 s)"

section \<open>Points\<close>

datatype 'n point = Point (row: 'n) (column: 'n)

definition point_new :: "'n \<Rightarrow> 'n \<Rightarrow> 'n point" where
  "point_new r c = Point r c"

definition point_MAX :: "u32 point" where
  "point_MAX = Point (- 1) (- 1)"

definition row_range :: "'n \<times> 'n \<Rightarrow> ('n::zero) point \<times> 'n point" where
  "row_range r = (Point (fst r) 0, Point (snd r) 0)"

definition point_zero :: "'n::zero point" where
  "point_zero = point_new 0 0"

text \<open>\<open>str::split('\n')\<close>.\<close>

fun split_lines :: "str \<Rightarrow> str list" where
  "split_lines [] = [[]]"
| "split_lines (c # cs) =
     (if c = newline_char then [] # split_lines cs
      else (case split_lines cs of l # ls \<Rightarrow> (c # l) # ls | [] \<Rightarrow> [[c]]))"

fun parse_loop :: "nat \<Rightarrow> ('n::semiring_1) point \<Rightarrow> str list \<Rightarrow> 'n point" where
  "parse_loop i p [] = p"
| "parse_loop i p (line # ls) = parse_loop (i + 1) (Point (of_nat i) (of_nat (str_len line))) ls"

definition parse_str :: "str \<Rightarrow> ('n::semiring_1) point" where
  "parse_str s = parse_loop 0 point_zero (split_lines s)"

definition point_is_zero :: "('n::zero) point \<Rightarrow> bool" where
  "point_is_zero p \<longleftrightarrow> row p = 0 \<and> column p = 0"

definition point_add :: "('n::{zero,plus}) point \<Rightarrow> 'n point \<Rightarrow> 'n point" where
  "point_add p q =
     (if row q = 0 then point_new (row p) (column p + column q)
      else point_new (row p + row q) (column q))"

definition point_add_assign :: "('n::{zero,plus}) point \<Rightarrow> 'n point \<Rightarrow> 'n point" where
  "point_add_assign p q =
     (if row q = 0 then Point (row p) (column p + column q)
      else Point (row p + row q) (column q))"

text \<open>
  The difference; its \<open>debug_assert\<close> that the second point comes first is a premise of its laws, and the only calls are with
  such points, so that neither the subtraction of words nor that of numbers goes below zero.
\<close>

definition point_sub :: "('n::{zero,minus}) point \<Rightarrow> 'n point \<Rightarrow> 'n point" where
  "point_sub p q =
     (if row p = row q then point_new 0 (column p - column q)
      else point_new (row p - row q) (column p))"

text \<open>\<open>Ord for Point\<close> on 64-bit targets packs the coordinates into one word, on others it compares them.\<close>

definition pack :: "u32 \<Rightarrow> u32 \<Rightarrow> u64" where
  "pack r c = push_bit 32 (ucast r) OR ucast c"

definition point_cmp :: "u32 point \<Rightarrow> u32 point \<Rightarrow> ordering" where
  "point_cmp p q = cmp (pack (row p) (column p)) (pack (row q) (column q))"

definition point_cmp_32 :: "('n::linorder) point \<Rightarrow> 'n point \<Rightarrow> ordering" where
  "point_cmp_32 p q = (case cmp (row p) (row q) of Equal \<Rightarrow> cmp (column p) (column q) | c \<Rightarrow> c)"

instantiation point :: (linorder) linorder
begin

definition less_eq_point :: "'a point \<Rightarrow> 'a point \<Rightarrow> bool" where
  "less_eq_point p q \<longleftrightarrow> row p < row q \<or> row p = row q \<and> column p \<le> column q"

definition less_point :: "'a point \<Rightarrow> 'a point \<Rightarrow> bool" where
  "less_point p q \<longleftrightarrow> row p < row q \<or> row p = row q \<and> column p < column q"

instance
  by standard (auto simp: less_eq_point_def less_point_def point.expand)

end

definition point_saturating_sub :: "('n::{zero,minus,linorder}) point \<Rightarrow> 'n point \<Rightarrow> 'n point" where
  "point_saturating_sub p q = (if p < q then point_zero else point_sub p q)"

section \<open>UTF-16 points and offsets\<close>

datatype 'n point_utf16 = PointUtf16 (row_utf16: 'n) (column_utf16: 'n)

definition point_utf16_MAX :: "u32 point_utf16" where
  "point_utf16_MAX = PointUtf16 (- 1) (- 1)"

definition point_utf16_zero :: "'n::zero point_utf16" where
  "point_utf16_zero = PointUtf16 0 0"

definition point_utf16_is_zero :: "('n::zero) point_utf16 \<Rightarrow> bool" where
  "point_utf16_is_zero p \<longleftrightarrow> row_utf16 p = 0 \<and> column_utf16 p = 0"

definition point_utf16_add :: "('n::{zero,plus}) point_utf16 \<Rightarrow> 'n point_utf16 \<Rightarrow> 'n point_utf16" where
  "point_utf16_add p q =
     (if row_utf16 q = 0 then PointUtf16 (row_utf16 p) (column_utf16 p + column_utf16 q)
      else PointUtf16 (row_utf16 p + row_utf16 q) (column_utf16 q))"

definition point_utf16_sub :: "('n::{zero,minus}) point_utf16 \<Rightarrow> 'n point_utf16 \<Rightarrow> 'n point_utf16" where
  "point_utf16_sub p q =
     (if row_utf16 p = row_utf16 q then PointUtf16 0 (column_utf16 p - column_utf16 q)
      else PointUtf16 (row_utf16 p - row_utf16 q) (column_utf16 p))"

definition point_utf16_cmp :: "u32 point_utf16 \<Rightarrow> u32 point_utf16 \<Rightarrow> ordering" where
  "point_utf16_cmp p q = cmp (pack (row_utf16 p) (column_utf16 p)) (pack (row_utf16 q) (column_utf16 q))"

definition point_utf16_saturating_sub :: "u32 point_utf16 \<Rightarrow> u32 point_utf16 \<Rightarrow> u32 point_utf16" where
  "point_utf16_saturating_sub p q =
     (if point_utf16_cmp p q = Less then point_utf16_zero else point_utf16_sub p q)"

text \<open>Both kinds of points obey the same laws: the conversion between them commutes with everything.\<close>

definition as_point :: "'n point_utf16 \<Rightarrow> 'n point" where
  "as_point p = Point (row_utf16 p) (column_utf16 p)"

datatype offset_utf16 = OffsetUtf16 (offset_value: nat)

definition offset_utf16_add :: "offset_utf16 \<Rightarrow> offset_utf16 \<Rightarrow> offset_utf16" where
  "offset_utf16_add a b = OffsetUtf16 (offset_value a + offset_value b)"

text \<open>Unsigned subtraction: \<open>None\<close> is the overflow panic of a debug build.\<close>

definition offset_utf16_sub :: "offset_utf16 \<Rightarrow> offset_utf16 \<Rightarrow> offset_utf16 option" where
  "offset_utf16_sub a b = do {
     _ \<leftarrow> require (offset_value b \<le> offset_value a);
     Some (OffsetUtf16 (offset_value a - offset_value b)) }"

text \<open>\<open>Unclipped\<close> wraps a dimension without changing its arithmetic.\<close>

datatype 'd unclipped = Unclipped (unclipped_value: 'd)

definition unclipped_dim :: "('s, 'd) dim_ops \<Rightarrow> ('s, 'd unclipped) dim_ops" where
  "unclipped_dim D = \<lparr>dzero = Unclipped (dzero D),
     dadd = (\<lambda>p summary. Unclipped (dadd D (unclipped_value p) summary))\<rparr>"

definition unclipped_map2 :: "('d \<Rightarrow> 'd \<Rightarrow> 'd) \<Rightarrow> 'd unclipped \<Rightarrow> 'd unclipped \<Rightarrow> 'd unclipped" where
  "unclipped_map2 f a b = Unclipped (f (unclipped_value a) (unclipped_value b))"

section \<open>The order\<close>

lemma unat_pack: "unat (pack r c) = unat r * 2 ^ 32 + unat c"
  by (simp add: pack_def unat_shift_or)

lemma pack_less_iff: "pack r c < pack r' c' \<longleftrightarrow> r < r' \<or> r = r' \<and> c < c'"
proof -
  have lt: "unat c < 2 ^ 32" "unat c' < 2 ^ 32" using unat_less_exp [of c] unat_less_exp [of c'] by simp_all
  consider "unat r < unat r'" | "unat r = unat r'" | "unat r' < unat r" by linarith
  then show ?thesis
  proof cases
    case 1
    then have "(unat r + 1) * 2 ^ 32 \<le> unat r' * 2 ^ 32" by (intro mult_right_mono) auto
    with 1 lt show ?thesis by (simp add: word_less_nat_alt unat_pack)
  next
    case 2
    then show ?thesis by (simp add: word_less_nat_alt unat_pack word_unat_eq_iff)
  next
    case 3
    then have "(unat r' + 1) * 2 ^ 32 \<le> unat r * 2 ^ 32" by (intro mult_right_mono) auto
    with 3 lt show ?thesis by (simp add: word_less_nat_alt unat_pack word_unat_eq_iff)
  qed
qed

lemma pack_eq_iff: "pack r c = pack r' c' \<longleftrightarrow> r = r' \<and> c = c'"
  using pack_less_iff [of r c r' c'] pack_less_iff [of r' c' r c]
  by (metis less_irrefl linorder_neqE)

lemma point_cmp_eq: "point_cmp p q = cmp p q" "point_cmp_32 p q = cmp p q"
  by (auto simp: point_cmp_def point_cmp_32_def cmp_def less_point_def pack_less_iff pack_eq_iff point.expand
      split: ordering.splits if_splits)

section \<open>Addition and subtraction\<close>

lemma point_add_assign_eq: "point_add_assign p q = point_add p q"
  by (simp add: point_add_assign_def point_add_def point_new_def)

text \<open>Wrapping subtraction and addition are inverse to each other at every pair of machine points.\<close>

lemma point_add_sub: "point_add q (point_sub p q) = (p :: u32 point)"
  by (cases p; cases q) (simp add: point_add_def point_sub_def point_new_def)

lemma point_sub_add: "point_sub (point_add p q) p = (q :: u32 point)"
  by (cases p; cases q) (simp add: point_add_def point_sub_def point_new_def)

lemma point_add_zero [simp]:
  "point_add p point_zero = (p :: 'n::monoid_add point)" "point_add point_zero p = p"
  by (cases p; simp add: point_add_def point_zero_def point_new_def)+

text \<open>Addition is associative unless the rows of the right summands wrap around to zero.\<close>

lemma point_add_assoc:
  fixes p q r :: "'n::monoid_add point"
  assumes "row q + row r = 0 \<Longrightarrow> row q = 0 \<and> row r = 0"
  shows "point_add (point_add p q) r = point_add p (point_add q r)"
  using assms by (cases p; cases q; cases r) (auto simp: point_add_def point_new_def add.assoc)

lemma point_add_mono:
  fixes p q r :: "nat point"
  assumes "q \<le> r"
  shows "point_add p q \<le> point_add p r"
  using assms by (cases p; cases q; cases r) (auto simp: point_add_def point_new_def less_eq_point_def)

text \<open>The machine addition is the ideal one while the results fit.\<close>

definition point_nat :: "u32 point \<Rightarrow> nat point" where
  "point_nat p = Point (unat (row p)) (unat (column p))"

definition point_utf16_nat :: "u32 point_utf16 \<Rightarrow> nat point_utf16" where
  "point_utf16_nat p = PointUtf16 (unat (row_utf16 p)) (unat (column_utf16 p))"

definition point_fits :: "nat point \<Rightarrow> bool" where
  "point_fits p \<longleftrightarrow> row p < 2 ^ 32 \<and> column p < 2 ^ 32"

lemma point_nat_le_iff: "point_nat p \<le> point_nat q \<longleftrightarrow> p \<le> q"
  by (auto simp: point_nat_def less_eq_point_def word_less_nat_alt word_le_nat_alt word_unat_eq_iff)

lemma point_nat_add:
  assumes "point_fits (point_add (point_nat p) (point_nat q))"
  shows "point_nat (point_add p q) = point_add (point_nat p) (point_nat q)"
  using assms
  by (cases p; cases q)
    (auto simp: point_fits_def point_nat_def point_add_def point_new_def unat_word_ariths unat_eq_zero split: if_splits)

section \<open>UTF-16 points, clipping and pairs\<close>

lemma as_point_hom:
  "as_point (point_utf16_add p q) = point_add (as_point p) (as_point q)"
  "as_point (point_utf16_sub u v) = point_sub (as_point u) (as_point v)"
  "as_point point_utf16_zero = point_zero"
  "point_utf16_cmp x y = point_cmp (as_point x) (as_point y)"
  by (simp_all add: as_point_def point_utf16_add_def point_add_def point_utf16_sub_def point_sub_def point_new_def
      point_utf16_zero_def point_zero_def point_utf16_cmp_def point_cmp_def)

lemma as_point_inject [simp]: "as_point p = as_point q \<longleftrightarrow> p = q"
  by (cases p; cases q) (simp add: as_point_def)

lemma offset_utf16_roundtrip: "offset_utf16_sub (offset_utf16_add a b) a = Some b"
  by (cases a; cases b) (simp add: offset_utf16_sub_def offset_utf16_add_def)

lemma unclipped_laws: "dimension_laws ops D \<Longrightarrow> dimension_laws ops (unclipped_dim D)"
  by (simp add: dimension_laws_def dimension_laws_axioms_def unclipped_dim_def)

text \<open>A text splits into one more line than it has newlines.\<close>

lemma split_lines_nonempty [simp]: "split_lines s \<noteq> []"
  by (induction s) (auto split: list.splits)

end
