(* ===== verification/Text_Summary.thy ===== *)
theory Text_Summary
  imports Rope_Points
begin

text \<open>
  The crate \<open>rope\<close>, file \<open>rope.rs\<close>, summaries of text: lengths in bytes, characters and UTF-16 units,
  lines, and the longest line, computed from a string and combined by addition. As for points, the
  32-bit counters are polymorphic: \<open>u32\<close> is the program, \<open>nat\<close> the ideal it agrees with on texts
  shorter than 4 GiB.
\<close>

section \<open>Model\<close>

record 'n text_summary =
  ts_len :: nat
  ts_chars :: nat
  ts_len_utf16 :: nat
  ts_lines :: "'n point"
  ts_first_line_chars :: 'n
  ts_last_line_chars :: 'n
  ts_last_line_len_utf16 :: 'n
  ts_longest_row :: 'n
  ts_longest_row_chars :: 'n

definition summary_zero :: "('n::zero) text_summary" where
  "summary_zero = \<lparr>ts_len = 0, ts_chars = 0, ts_len_utf16 = 0, ts_lines = point_zero,
     ts_first_line_chars = 0, ts_last_line_chars = 0, ts_last_line_len_utf16 = 0,
     ts_longest_row = 0, ts_longest_row_chars = 0\<rparr>"

definition lines_utf16 :: "'n text_summary \<Rightarrow> 'n point_utf16" where
  "lines_utf16 s = PointUtf16 (row (ts_lines s)) (ts_last_line_len_utf16 s)"

definition summary_newline :: "('n::{zero,one}) text_summary" where
  "summary_newline = \<lparr>ts_len = 1, ts_chars = 1, ts_len_utf16 = 1, ts_lines = point_new 1 0,
     ts_first_line_chars = 0, ts_last_line_chars = 0, ts_last_line_len_utf16 = 0,
     ts_longest_row = 0, ts_longest_row_chars = 0\<rparr>"

definition add_newline :: "('n::semiring_1) text_summary \<Rightarrow> 'n text_summary" where
  "add_newline s = s\<lparr>ts_len := ts_len s + 1,
     ts_len_utf16 := ts_len_utf16 s + (ts_len_utf16 s + 1),
     ts_last_line_chars := 0, ts_last_line_len_utf16 := 0,
     ts_lines := point_add_assign (ts_lines s) (point_new 1 0)\<rparr>"

text \<open>The body of the loop of \<open>From<&str>\<close>, in three steps.\<close>

definition count_char :: "('n::semiring_1) text_summary \<Rightarrow> rust_char \<Rightarrow> 'n text_summary" where
  "count_char s c =
     (let s = s\<lparr>ts_chars := ts_chars s + 1, ts_len_utf16 := ts_len_utf16 s + char_len_utf16 c\<rparr>
      in if c = newline_char
         then s\<lparr>ts_lines := point_add_assign (ts_lines s) (point_new 1 0),
                ts_last_line_len_utf16 := 0, ts_last_line_chars := 0\<rparr>
         else s\<lparr>ts_lines := Point (row (ts_lines s)) (column (ts_lines s) + of_nat (len_utf8 c)),
                ts_last_line_len_utf16 := ts_last_line_len_utf16 s + of_nat (char_len_utf16 c),
                ts_last_line_chars := ts_last_line_chars s + 1\<rparr>)"

definition update_first_line :: "('n::zero) text_summary \<Rightarrow> 'n text_summary" where
  "update_first_line s =
     (if row (ts_lines s) = 0 then s\<lparr>ts_first_line_chars := ts_last_line_chars s\<rparr> else s)"

definition update_longest :: "('n::ord) text_summary \<Rightarrow> 'n text_summary" where
  "update_longest s =
     (if ts_longest_row_chars s < ts_last_line_chars s
      then s\<lparr>ts_longest_row := row (ts_lines s), ts_longest_row_chars := ts_last_line_chars s\<rparr> else s)"

definition summary_step :: "('n::{semiring_1,linorder}) text_summary \<Rightarrow> rust_char \<Rightarrow> 'n text_summary" where
  "summary_step s c = update_longest (update_first_line (count_char s c))"

definition summary_from :: "str \<Rightarrow> ('n::{semiring_1,linorder}) text_summary" where
  "summary_from cs = (foldl summary_step summary_zero cs)\<lparr>ts_len := str_len cs\<rparr>"

text \<open>\<open>AddAssign for TextSummary\<close>: the longest row, the first and last lines, the totals.\<close>

definition join_longest :: "('n::{semiring_1,linorder}) text_summary \<Rightarrow> 'n text_summary \<Rightarrow> 'n text_summary" where
  "join_longest self other =
     (let joined_chars = ts_last_line_chars self + ts_first_line_chars other;
          self1 = (if ts_longest_row_chars self < joined_chars
                   then self\<lparr>ts_longest_row := row (ts_lines self), ts_longest_row_chars := joined_chars\<rparr>
                   else self)
      in if ts_longest_row_chars self1 < ts_longest_row_chars other
         then self1\<lparr>ts_longest_row := row (ts_lines self1) + ts_longest_row other,
                    ts_longest_row_chars := ts_longest_row_chars other\<rparr>
         else self1)"

definition join_lines :: "('n::{semiring_1,linorder}) text_summary \<Rightarrow> 'n text_summary \<Rightarrow> 'n text_summary" where
  "join_lines self other =
     (let self1 = (if row (ts_lines self) = 0
                   then self\<lparr>ts_first_line_chars := ts_first_line_chars self + ts_first_line_chars other\<rparr>
                   else self)
      in if row (ts_lines other) = 0
         then self1\<lparr>ts_last_line_chars := ts_last_line_chars self1 + ts_first_line_chars other,
                    ts_last_line_len_utf16 := ts_last_line_len_utf16 self1 + ts_last_line_len_utf16 other\<rparr>
         else self1\<lparr>ts_last_line_chars := ts_last_line_chars other,
                    ts_last_line_len_utf16 := ts_last_line_len_utf16 other\<rparr>)"

definition summary_add :: "('n::{semiring_1,linorder}) text_summary \<Rightarrow> 'n text_summary \<Rightarrow> 'n text_summary" where
  "summary_add self other =
     (let s = join_lines (join_longest self other) other
      in s\<lparr>ts_chars := ts_chars s + ts_chars other, ts_len := ts_len s + ts_len other,
           ts_len_utf16 := ts_len_utf16 s + ts_len_utf16 other,
           ts_lines := point_add_assign (ts_lines s) (ts_lines other)\<rparr>)"

section \<open>Addition is the summary of the concatenation\<close>

text \<open>What every summary of a text satisfies.\<close>

definition summary_ok :: "nat text_summary \<Rightarrow> bool" where
  "summary_ok s \<longleftrightarrow>
     ts_first_line_chars s \<le> ts_longest_row_chars s \<and> ts_last_line_chars s \<le> ts_longest_row_chars s \<and>
     (ts_first_line_chars s = ts_longest_row_chars s \<longrightarrow> ts_longest_row s = 0) \<and>
     (row (ts_lines s) = 0 \<longrightarrow>
        ts_first_line_chars s = ts_last_line_chars s \<and> ts_longest_row_chars s = ts_last_line_chars s \<and>
        ts_longest_row s = 0)"

lemmas summary_step_defs = summary_step_def update_longest_def update_first_line_def count_char_def Let_def
lemmas summary_add_defs = summary_add_def join_lines_def join_longest_def Let_def
lemmas point_defs = point_add_assign_def point_new_def point_zero_def

lemma summary_ok_zero: "summary_ok summary_zero"
  by (simp add: summary_ok_def summary_zero_def)

lemma summary_ok_step: "summary_ok s \<Longrightarrow> summary_ok (summary_step s c)"
  by (auto simp: summary_ok_def summary_step_defs point_defs)

lemma summary_ok_len [simp]: "summary_ok (s\<lparr>ts_len := n\<rparr>) = summary_ok s"
  by (simp add: summary_ok_def)

lemma summary_ok_fold: "summary_ok s \<Longrightarrow> summary_ok (foldl summary_step s cs)"
  by (induction cs arbitrary: s) (auto simp: summary_ok_step)

lemma summary_ok_from: "summary_ok (summary_from cs)"
  by (simp add: summary_from_def summary_ok_fold summary_ok_zero)

text \<open>Both operations field by field.\<close>

lemma summary_step_fields:
  fixes s :: "nat text_summary" and c :: rust_char
  defines "row' \<equiv> if c = newline_char then row (ts_lines s) + 1 else row (ts_lines s)"
    and "llc' \<equiv> if c = newline_char then 0 else ts_last_line_chars s + 1"
  shows "ts_len (summary_step s c) = ts_len s"
    and "ts_chars (summary_step s c) = ts_chars s + 1"
    and "ts_len_utf16 (summary_step s c) = ts_len_utf16 s + char_len_utf16 c"
    and "ts_lines (summary_step s c) =
      Point row' (if c = newline_char then 0 else column (ts_lines s) + len_utf8 c)"
    and "ts_first_line_chars (summary_step s c) = (if row' = 0 then llc' else ts_first_line_chars s)"
    and "ts_last_line_chars (summary_step s c) = llc'"
    and "ts_last_line_len_utf16 (summary_step s c) =
      (if c = newline_char then 0 else ts_last_line_len_utf16 s + char_len_utf16 c)"
    and "ts_longest_row (summary_step s c) = (if ts_longest_row_chars s < llc' then row' else ts_longest_row s)"
    and "ts_longest_row_chars (summary_step s c) = max (ts_longest_row_chars s) llc'"
  unfolding row'_def llc'_def by (auto simp: summary_step_defs point_defs)

lemma summary_add_fields:
  fixes a b :: "nat text_summary"
  defines "joined \<equiv> ts_last_line_chars a + ts_first_line_chars b"
  shows "ts_len (summary_add a b) = ts_len a + ts_len b"
    and "ts_chars (summary_add a b) = ts_chars a + ts_chars b"
    and "ts_len_utf16 (summary_add a b) = ts_len_utf16 a + ts_len_utf16 b"
    and "ts_lines (summary_add a b) = point_add (ts_lines a) (ts_lines b)"
    and "ts_first_line_chars (summary_add a b) =
      (if row (ts_lines a) = 0 then ts_first_line_chars a + ts_first_line_chars b else ts_first_line_chars a)"
    and "ts_last_line_chars (summary_add a b) = (if row (ts_lines b) = 0 then joined else ts_last_line_chars b)"
    and "ts_last_line_len_utf16 (summary_add a b) =
      (if row (ts_lines b) = 0 then ts_last_line_len_utf16 a + ts_last_line_len_utf16 b else ts_last_line_len_utf16 b)"
    and "ts_longest_row (summary_add a b) =
      (if max (ts_longest_row_chars a) joined < ts_longest_row_chars b then row (ts_lines a) + ts_longest_row b
       else if ts_longest_row_chars a < joined then row (ts_lines a) else ts_longest_row a)"
    and "ts_longest_row_chars (summary_add a b) =
      max (max (ts_longest_row_chars a) joined) (ts_longest_row_chars b)"
  unfolding joined_def by (auto simp: summary_add_defs point_add_assign_eq)

lemma summary_step_add:
  assumes a: "summary_ok a" and b: "summary_ok b"
  shows "summary_step (summary_add a b) c = summary_add a (summary_step b c)"
proof (rule text_summary.equality)
  note fields = summary_step_fields summary_add_fields point_add_def point_new_def
  show "ts_longest_row (summary_step (summary_add a b) c) = ts_longest_row (summary_add a (summary_step b c))"
    using a b by (auto simp: fields summary_ok_def)
  show "ts_longest_row_chars (summary_step (summary_add a b) c) = ts_longest_row_chars (summary_add a (summary_step b c))"
    using a b by (auto simp: fields summary_ok_def)
qed (use a b in \<open>auto simp: summary_step_fields summary_add_fields point_add_def point_new_def summary_ok_def\<close>)

lemma summary_add_len: "summary_add a (b\<lparr>ts_len := n\<rparr>) = (summary_add a b)\<lparr>ts_len := ts_len a + n\<rparr>"
  by (simp add: summary_add_defs)

lemma summary_add_zero:
  assumes "summary_ok a"
  shows "summary_add a summary_zero = a" and "summary_add summary_zero a = a"
proof -
  show "summary_add a summary_zero = a"
    using assms by (intro text_summary.equality) (auto simp: summary_add_fields summary_zero_def summary_ok_def point_zero_def point_new_def point_add_def point.expand)
  show "summary_add summary_zero a = a"
    using assms by (intro text_summary.equality) (auto simp: summary_add_fields summary_zero_def summary_ok_def point_zero_def point_new_def point_add_def point.expand)
qed

text \<open>Addition is associative as soon as the right summands are summaries of texts.\<close>

lemma summary_add_assoc:
  assumes "summary_ok a" and "summary_ok b"
  shows "summary_add (summary_add d a) b = summary_add d (summary_add a (b :: nat text_summary))"
proof (rule text_summary.equality)
  let ?l = "summary_add (summary_add d a) b" and ?r = "summary_add d (summary_add a b)"
  note fields = summary_ok_def summary_add_fields point_add_def point_new_def
  show "ts_longest_row_chars ?l = ts_longest_row_chars ?r"
    using assms unfolding fields by auto
  show "ts_longest_row ?l = ts_longest_row ?r"
  proof (cases "row (ts_lines a) = 0")
    case True
    then show ?thesis using assms unfolding fields max_def by auto
  next
    case False
    then show ?thesis using assms unfolding fields max_def by (cases "row (ts_lines b) = 0") auto
  qed
qed (auto simp: summary_add_fields point_add_def point_new_def)

lemma summary_add_fold:
  assumes "summary_ok a" and "summary_ok b"
  shows "foldl summary_step (summary_add a b) cs = summary_add a (foldl summary_step b cs)"
  using assms(2)
  by (induction cs arbitrary: b) (simp_all add: summary_step_add [OF assms(1)] summary_ok_step)

lemma summary_step_len: "summary_step (s\<lparr>ts_len := n\<rparr>) c = (summary_step s c)\<lparr>ts_len := n\<rparr>"
  by (auto simp: summary_step_defs)

theorem summary_from_append: "summary_from (cs @ ds) = summary_add (summary_from cs) (summary_from ds :: nat text_summary)"
proof -
  let ?a = "summary_from cs :: nat text_summary" and ?z = "foldl summary_step summary_zero cs :: nat text_summary"
  have len_step: "foldl summary_step (s\<lparr>ts_len := n\<rparr>) ds = (foldl summary_step s ds)\<lparr>ts_len := n\<rparr>"
    for s :: "nat text_summary" and n
    by (induction ds arbitrary: s) (simp_all add: summary_step_len)
  have "summary_add ?a (summary_from ds) =
      (foldl summary_step (summary_add ?a summary_zero) ds)\<lparr>ts_len := ts_len ?a + str_len ds\<rparr>"
    by (simp add: summary_from_def [of ds] summary_add_len summary_add_fold summary_ok_from summary_ok_zero)
  also have "\<dots> = (foldl summary_step ?z ds)\<lparr>ts_len := str_len cs + str_len ds\<rparr>"
    by (simp add: summary_add_zero(1) [OF summary_ok_from]) (simp add: summary_from_def len_step)
  also have "\<dots> = summary_from (cs @ ds)" by (simp add: summary_from_def str_len_def)
  finally show ?thesis ..
qed

section \<open>What a summary says\<close>

lemma split_lines_snoc:
  "split_lines (cs @ [c]) =
    (if c = newline_char then split_lines cs @ [[]]
     else butlast (split_lines cs) @ [last (split_lines cs) @ [c]])"
proof (induction cs)
  case (Cons d cs)
  then show ?case by (cases "split_lines cs") auto
qed simp

text \<open>The first of the longest lines.\<close>

definition longest_line :: "str list \<Rightarrow> nat \<Rightarrow> bool" where
  "longest_line ls i \<longleftrightarrow> i < length ls \<and> (\<forall>j < length ls. length (ls ! j) \<le> length (ls ! i)) \<and>
     (\<forall>j < i. length (ls ! j) < length (ls ! i))"

lemma longest_line_new:
  assumes "longest_line ls i"
  shows "longest_line (ls @ [[]]) i"
  using assms by (auto simp: longest_line_def nth_append less_Suc_eq)

text \<open>The lines after a character that is not a newline.\<close>

definition grow_last :: "str list \<Rightarrow> rust_char \<Rightarrow> str list" where
  "grow_last ls c = butlast ls @ [last ls @ [c]]"

lemma length_grow_last: "ls \<noteq> [] \<Longrightarrow> length (grow_last ls c) = length ls"
  by (simp add: grow_last_def)

lemma last_grow_last: "last (grow_last ls c) = last ls @ [c]"
  by (simp add: grow_last_def)

lemma hd_grow_last: "ls \<noteq> [] \<Longrightarrow> hd (grow_last ls c) = (if length ls = 1 then last ls @ [c] else hd ls)"
  by (cases ls) (auto simp: grow_last_def)

lemma length_nth_grow_last:
  "j < length ls \<Longrightarrow>
   length (grow_last ls c ! j) = (if j = length ls - 1 then length (last ls) + 1 else length (ls ! j))"
  by (auto simp: grow_last_def nth_append nth_butlast)

lemma longest_line_grow:
  assumes "longest_line ls i"
  shows "longest_line (grow_last ls c) (if length (ls ! i) < length (last ls) + 1 then length ls - 1 else i) \<and>
    length (grow_last ls c ! (if length (ls ! i) < length (last ls) + 1 then length ls - 1 else i)) =
      max (length (ls ! i)) (length (last ls) + 1)"
proof -
  have i: "i < length ls" "\<And>j. j < length ls \<Longrightarrow> length (ls ! j) \<le> length (ls ! i)"
    "\<And>j. j < i \<Longrightarrow> length (ls ! j) < length (ls ! i)"
    using assms by (auto simp: longest_line_def)
  then have ne: "ls \<noteq> []" by auto
  note facts = longest_line_def length_grow_last [OF ne] length_nth_grow_last
  show ?thesis
  proof (cases "length (ls ! i) < length (last ls) + 1")
    case True
    have le: "length (ls ! j) \<le> length (last ls)" if "j < length ls" for j
      using i(2) [OF that] True by linarith
    have "length (ls ! j) < Suc (length (last ls))" if "j < length ls - Suc 0" for j
      using le [of j] that by linarith
    with True le ne show ?thesis by (auto simp: facts max_def le_SucI)
  next
    case False
    then have "i \<noteq> length ls - 1" using ne by (auto simp: last_conv_nth)
    with False i show ?thesis by (auto simp: facts max_def)
  qed
qed

definition summarises :: "nat text_summary \<Rightarrow> str \<Rightarrow> bool" where
  "summarises s cs \<longleftrightarrow>
     ts_chars s = length cs \<and> ts_len_utf16 s = sum_list (map char_len_utf16 cs) \<and>
     ts_lines s = Point (length (split_lines cs) - 1) (str_len (last (split_lines cs))) \<and>
     ts_first_line_chars s = length (hd (split_lines cs)) \<and>
     ts_last_line_chars s = length (last (split_lines cs)) \<and>
     ts_last_line_len_utf16 s = sum_list (map char_len_utf16 (last (split_lines cs))) \<and>
     longest_line (split_lines cs) (ts_longest_row s) \<and>
     ts_longest_row_chars s = length (split_lines cs ! ts_longest_row s)"

lemma summarises_zero: "summarises summary_zero []"
  by (simp add: summarises_def summary_zero_def point_zero_def point_new_def str_len_def longest_line_def)

lemma summarises_step:
  assumes "summarises s cs"
  shows "summarises (summary_step s c) (cs @ [c])"
proof (cases "c = newline_char")
  case True
  let ?ls = "split_lines cs"
  have "longest_line (?ls @ [[]]) (ts_longest_row s)"
    using assms longest_line_new by (simp add: summarises_def)
  with assms True show ?thesis
    by (auto simp: summarises_def summary_step_fields split_lines_snoc str_len_def longest_line_def nth_append)
next
  case False
  let ?ls = "split_lines cs" and ?i = "ts_longest_row s"
  have split: "split_lines (cs @ [c]) = grow_last ?ls c" using False by (simp add: split_lines_snoc grow_last_def)
  have "longest_line ?ls ?i" using assms by (simp add: summarises_def)
  from longest_line_grow [OF this, of c] assms False show ?thesis
    by (simp add: summarises_def summary_step_fields split last_grow_last hd_grow_last length_grow_last str_len_def)
      (auto simp: le_Suc_eq neq_Nil_conv)
qed

lemma summarises_fold: "summarises (foldl summary_step summary_zero cs) cs"
  by (induction cs rule: rev_induct) (simp_all add: summarises_zero summarises_step)

theorem summary_from_summarises: "summarises (summary_from cs) cs \<and> ts_len (summary_from cs :: nat text_summary) = str_len cs"
  using summarises_fold [of cs] by (simp add: summary_from_def summarises_def)

section \<open>The machine summaries\<close>

text \<open>
  The 32-bit counters of the program hold the ideal values while the text is shorter than 4 GiB.
\<close>

definition machine_summary :: "nat text_summary \<Rightarrow> u32 text_summary" where
  "machine_summary s = \<lparr>ts_len = ts_len s, ts_chars = ts_chars s, ts_len_utf16 = ts_len_utf16 s,
     ts_lines = Point (of_nat (row (ts_lines s))) (of_nat (column (ts_lines s))),
     ts_first_line_chars = of_nat (ts_first_line_chars s), ts_last_line_chars = of_nat (ts_last_line_chars s),
     ts_last_line_len_utf16 = of_nat (ts_last_line_len_utf16 s),
     ts_longest_row = of_nat (ts_longest_row s), ts_longest_row_chars = of_nat (ts_longest_row_chars s)\<rparr>"

definition summary_fits :: "nat text_summary \<Rightarrow> bool" where
  "summary_fits s \<longleftrightarrow>
     row (ts_lines s) < 2 ^ 32 \<and> ts_first_line_chars s < 2 ^ 32 \<and> ts_last_line_chars s < 2 ^ 32 \<and>
     ts_longest_row_chars s < 2 ^ 32"

lemma of_nat_u32_less: "a < 2 ^ 32 \<Longrightarrow> b < 2 ^ 32 \<Longrightarrow> (of_nat a :: u32) < of_nat b \<longleftrightarrow> a < b"
  by (simp add: word_less_nat_alt unat_of_nat)

lemma of_nat_u32_zero: "a < 2 ^ 32 \<Longrightarrow> (of_nat a :: u32) = 0 \<longleftrightarrow> a = 0"
  by (simp add: word_unat_eq_iff unat_of_nat)

lemma machine_step:
  assumes "summary_fits s" and "summary_fits (summary_step s c)"
  shows "summary_step (machine_summary s) c = machine_summary (summary_step s c)"
proof (cases "c = newline_char")
  case True
  then show ?thesis
    using assms of_nat_u32_zero [of "row (ts_lines s) + 1"]
    by (auto simp: summary_step_defs machine_summary_def summary_fits_def point_defs of_nat_u32_less of_nat_u32_zero add.commute [of _ 1] split: if_splits)
next
  case False
  then show ?thesis
    using assms of_nat_u32_less [of "ts_longest_row_chars s" "ts_last_line_chars s + 1"]
    by (auto simp: summary_step_defs machine_summary_def summary_fits_def point_defs of_nat_u32_less of_nat_u32_zero add.commute [of _ 1] split: if_splits)
qed

lemma split_lines_lengths: "sum_list (map length (split_lines cs)) + length (split_lines cs) = length cs + 1"
proof (induction cs)
  case (Cons c cs)
  then show ?case by (cases "split_lines cs") auto
qed simp

lemma length_le_str_len: "length cs \<le> str_len cs"
  by (induction cs) (auto simp: str_len_def len_utf8_def)

lemma line_length: "l \<in> set (split_lines cs) \<Longrightarrow> length l \<le> length cs"
proof -
  assume "l \<in> set (split_lines cs)"
  then have "length l \<le> sum_list (map length (split_lines cs))" by (simp add: member_le_sum_list)
  moreover have "0 < length (split_lines cs)" by simp
  ultimately show ?thesis using split_lines_lengths [of cs] by linarith
qed

lemma summary_fits_text:
  assumes "summarises s cs" and "str_len cs < 2 ^ 32"
  shows "summary_fits s"
proof -
  have "length l < 2 ^ 32" if "l \<in> set (split_lines cs)" for l
    using line_length [OF that] length_le_str_len [of cs] assms(2) by linarith
  moreover have "length (split_lines cs) - 1 < 2 ^ 32"
    using split_lines_lengths [of cs] length_le_str_len [of cs] assms(2) by linarith
  ultimately show ?thesis using assms(1) by (simp add: summarises_def summary_fits_def longest_line_def)
qed

lemma machine_fold:
  assumes "str_len cs < 2 ^ 32"
  shows "foldl summary_step summary_zero cs = machine_summary (foldl summary_step summary_zero cs)"
  using assms
proof (induction cs rule: rev_induct)
  case Nil
  then show ?case by (simp add: machine_summary_def summary_zero_def point_zero_def point_new_def)
next
  case (snoc c cs)
  then have "str_len cs < 2 ^ 32" by (simp add: str_len_def)
  then have "summary_fits (foldl summary_step summary_zero cs)"
    and "foldl summary_step summary_zero cs = machine_summary (foldl summary_step summary_zero cs)"
    using summary_fits_text [OF summarises_fold] snoc.IH by blast+
  moreover have "summary_fits (summary_step (foldl summary_step summary_zero cs) c)"
    using summary_fits_text [OF summarises_fold snoc.prems] by simp
  ultimately show ?case using machine_step by simp
qed

lemma machine_from:
  assumes "str_len cs < 2 ^ 32"
  shows "summary_from cs = machine_summary (summary_from cs)"
  using machine_fold [OF assms] by (simp add: summary_from_def) (simp add: machine_summary_def)

lemma summary_from_fits: "str_len cs < 2 ^ 32 \<Longrightarrow> summary_fits (summary_from cs)"
  using summary_from_summarises summary_fits_text by blast

lemma machine_add:
  assumes "summary_fits a" and "summary_fits b" and "summary_fits (summary_add a b)"
  shows "summary_add (machine_summary a) (machine_summary b) = machine_summary (summary_add a b)"
proof -
  have "ts_last_line_chars a + ts_first_line_chars b < 2 ^ 32"
    using assms(3) by (simp add: summary_fits_def summary_add_fields)
  then have "(of_nat (ts_longest_row_chars a) :: u32) < of_nat (ts_last_line_chars a) + of_nat (ts_first_line_chars b) \<longleftrightarrow>
      ts_longest_row_chars a < ts_last_line_chars a + ts_first_line_chars b"
    and "(of_nat (ts_last_line_chars a) + of_nat (ts_first_line_chars b) :: u32) < of_nat (ts_longest_row_chars b) \<longleftrightarrow>
      ts_last_line_chars a + ts_first_line_chars b < ts_longest_row_chars b"
    using assms of_nat_u32_less [of "ts_longest_row_chars a" "ts_last_line_chars a + ts_first_line_chars b"]
      of_nat_u32_less [of "ts_last_line_chars a + ts_first_line_chars b" "ts_longest_row_chars b"]
    by (simp_all add: summary_fits_def)
  with assms(1,2) show ?thesis
    by (cases "ts_longest_row_chars a < ts_last_line_chars a + ts_first_line_chars b";
        cases "row (ts_lines a) = 0"; cases "row (ts_lines b) = 0")
      (simp_all add: summary_add_defs machine_summary_def summary_fits_def point_add_assign_def of_nat_u32_less of_nat_u32_zero)
qed

text \<open>Adding the machine summaries of two texts is the machine summary of their concatenation.\<close>

theorem machine_from_append:
  assumes "str_len cs + str_len ds < 2 ^ 32"
  shows "(summary_from (cs @ ds) :: u32 text_summary) = summary_add (summary_from cs) (summary_from ds)"
proof -
  have len: "str_len (cs @ ds) < 2 ^ 32" "str_len cs < 2 ^ 32" "str_len ds < 2 ^ 32"
    using assms by (simp_all add: str_len_def)
  have "machine_summary (summary_add (summary_from cs) (summary_from ds)) =
      summary_add (machine_summary (summary_from cs)) (machine_summary (summary_from ds))"
    using len summary_from_append [of cs ds] summary_from_fits [OF len(1)]
    by (simp add: machine_add summary_from_fits)
  then show ?thesis using len by (simp add: machine_from summary_from_append)
qed

text \<open>
  What the counters of a machine summary say, as numbers: for a text shorter than 4 GiB it is the ideal
  summary, so an ideal point of such a text is the reading of a machine point.
\<close>

definition text_nat :: "u32 text_summary \<Rightarrow> nat text_summary" where
  "text_nat s = \<lparr>ts_len = ts_len s, ts_chars = ts_chars s, ts_len_utf16 = ts_len_utf16 s, ts_lines = point_nat (ts_lines s),
     ts_first_line_chars = unat (ts_first_line_chars s), ts_last_line_chars = unat (ts_last_line_chars s),
     ts_last_line_len_utf16 = unat (ts_last_line_len_utf16 s),
     ts_longest_row = unat (ts_longest_row s), ts_longest_row_chars = unat (ts_longest_row_chars s)\<rparr>"

lemma split_line_str_len: "l \<in> set (split_lines cs) \<Longrightarrow> str_len l \<le> str_len cs"
proof (induction cs arbitrary: l)
  case (Cons c cs)
  then show ?case
    by (cases "split_lines cs") (auto simp: str_len_def split: if_splits intro: trans_le_add2)
qed simp

lemma utf16_le_len: "sum_list (map char_len_utf16 cs) \<le> str_len cs"
  by (induction cs) (auto simp: str_len_def char_len_utf16_def len_utf8_def)

lemma text_nat_from:
  assumes "str_len cs < 2 ^ 32"
  shows "text_nat (summary_from cs :: u32 text_summary) = summary_from cs"
proof -
  let ?s = "summary_from cs :: nat text_summary"
  have s: "summarises ?s cs" using summary_from_summarises by blast
  have fits: "summary_fits ?s" by (rule summary_from_fits [OF assms])
  have "last (split_lines cs) \<in> set (split_lines cs)" by simp
  from split_line_str_len [OF this] have last: "str_len (last (split_lines cs)) < 2 ^ 32" using assms by linarith
  then have col: "column (ts_lines ?s) < 2 ^ 32" "ts_last_line_len_utf16 ?s < 2 ^ 32"
    using s utf16_le_len [of "last (split_lines cs)"] by (auto simp: summarises_def)
  have "ts_longest_row ?s \<le> row (ts_lines ?s)" using s by (auto simp: summarises_def longest_line_def)
  then have "ts_longest_row ?s < 2 ^ 32" using fits by (simp add: summary_fits_def)
  with fits col show ?thesis
    by (cases "ts_lines ?s") (simp add: machine_from [OF assms] text_nat_def machine_summary_def summary_fits_def point_nat_def unat_of_nat)
qed

lemma point_nat_from:
  assumes "str_len cs < 2 ^ 32"
  shows "point_nat (ts_lines (summary_from cs)) = ts_lines (summary_from cs)"
    and "point_utf16_nat (lines_utf16 (summary_from cs)) = lines_utf16 (summary_from cs)"
proof -
  have "ts_lines (text_nat s) = point_nat (ts_lines s)" "lines_utf16 (text_nat s) = point_utf16_nat (lines_utf16 s)" for s
    by (simp_all add: text_nat_def lines_utf16_def point_utf16_nat_def point_nat_def)
  then show "point_nat (ts_lines (summary_from cs)) = ts_lines (summary_from cs)"
    and "point_utf16_nat (lines_utf16 (summary_from cs)) = lines_utf16 (summary_from cs)"
    using text_nat_from [OF assms] by metis+
qed

text \<open>\<open>Point::parse_str\<close> computes the \<open>lines\<close> field.\<close>

lemma parse_loop_last:
  "ls \<noteq> [] \<Longrightarrow> parse_loop i p ls = Point (of_nat (i + length ls - 1)) (of_nat (str_len (last ls)))"
  by (induction ls arbitrary: i p) (auto simp: neq_Nil_conv)

lemma parse_str_lines: "(parse_str cs :: nat point) = ts_lines (summary_from cs)"
  using summary_from_summarises [of cs] by (simp add: parse_str_def parse_loop_last summarises_def)

end
