(* ===== verification/Text_Dimension.thy ===== *)
theory Text_Dimension
  imports Text_Summary Cursor_Iter
begin

text \<open>
  The crate \<open>rope\<close>, file \<open>rope.rs\<close>: the dimensions by which a rope is measured and searched (bytes,
  UTF-16 units, points, UTF-16 points, whole summaries, and pairs of dimensions), each a homomorphic
  image of the summary of the text. The counters are ideal numbers; the source keeps rows, columns and the lengths of lines
  in a \<open>u32\<close>. For a text of less than 4 GiB both agree (\<open>text_nat_from\<close> and \<open>point_nat_from\<close> in \<open>Text_Summary\<close>), and the
  properties of ropes that show such a counter ask for that and speak of the machine summary.
\<close>

section \<open>Summaries of chunks\<close>

text \<open>
  The field of \<open>ChunkSummary\<close> is private: its values come from \<open>zero\<close>, from \<open>add_summary\<close> and from the
  summary of a chunk, so they are the summaries of texts, which is what the type says.
\<close>

typedef chunk_summary = "range (summary_from :: str \<Rightarrow> nat text_summary)"
  morphisms chunk_text Abs_chunk_summary
  by auto

setup_lifting type_definition_chunk_summary

lift_definition chunk_of :: "str \<Rightarrow> chunk_summary" is "summary_from"
  by simp

lift_definition chunk_zero :: chunk_summary is summary_zero
proof -
  have "summary_zero = (summary_from [] :: nat text_summary)"
    by (simp add: summary_from_def summary_zero_def str_len_def)
  then show "summary_zero \<in> range (summary_from :: str \<Rightarrow> nat text_summary)" by blast
qed

lift_definition chunk_add :: "chunk_summary \<Rightarrow> chunk_summary \<Rightarrow> chunk_summary" is summary_add
proof -
  fix a b :: "nat text_summary"
  assume "a \<in> range summary_from" and "b \<in> range summary_from"
  then obtain cs ds where "a = summary_from cs" "b = summary_from ds" by auto
  then have "summary_add a b = summary_from (cs @ ds)" by (simp add: summary_from_append)
  then show "summary_add a b \<in> range summary_from" by blast
qed

text \<open>Items are texts, measured by their summaries.\<close>

definition text_ops :: "(str, chunk_summary) item_ops" where
  "text_ops = \<lparr>szero = chunk_zero, sadd = chunk_add, ssummary = chunk_of\<rparr>"

section \<open>The dimensions\<close>

definition len_dim :: "(chunk_summary, nat) dim_ops" where
  "len_dim = \<lparr>dzero = 0, dadd = (\<lambda>d s. d + ts_len (chunk_text s))\<rparr>"

definition len_utf16_dim :: "(chunk_summary, offset_utf16) dim_ops" where
  "len_utf16_dim = \<lparr>dzero = OffsetUtf16 0,
     dadd = (\<lambda>d s. offset_utf16_add d (OffsetUtf16 (ts_len_utf16 (chunk_text s))))\<rparr>"

definition lines_dim :: "(chunk_summary, nat point) dim_ops" where
  "lines_dim = \<lparr>dzero = point_zero, dadd = (\<lambda>d s. point_add_assign d (ts_lines (chunk_text s)))\<rparr>"

definition lines_utf16_dim :: "(chunk_summary, nat point_utf16) dim_ops" where
  "lines_utf16_dim = \<lparr>dzero = point_utf16_zero, dadd = (\<lambda>d s. point_utf16_add d (lines_utf16 (chunk_text s)))\<rparr>"

definition text_summary_dim :: "(chunk_summary, nat text_summary) dim_ops" where
  "text_summary_dim = \<lparr>dzero = summary_zero, dadd = (\<lambda>d s. summary_add d (chunk_text s))\<rparr>"

text \<open>\<open>DimensionPair\<close>: the key is compared, the value is carried along and may be lost.\<close>

datatype ('k, 'v) dimension_pair = DimensionPair (pair_key: 'k) (pair_value: "'v option")

definition pair_dim :: "('s, 'k) dim_ops \<Rightarrow> ('s, 'v) dim_ops \<Rightarrow> ('s, ('k, 'v) dimension_pair) dim_ops" where
  "pair_dim K V = \<lparr>dzero = DimensionPair (dzero K) (Some (dzero V)),
     dadd = (\<lambda>p s. DimensionPair (dadd K (pair_key p) s)
       (case pair_value p of Some v \<Rightarrow> Some (dadd V v s) | None \<Rightarrow> None))\<rparr>"

definition pair_add_assign ::
  "('k \<Rightarrow> 'k2 \<Rightarrow> 'k) \<Rightarrow> ('v \<Rightarrow> 'v2 \<Rightarrow> 'v) \<Rightarrow> ('k, 'v) dimension_pair \<Rightarrow> ('k2, 'v2) dimension_pair \<Rightarrow> ('k, 'v) dimension_pair" where
  "pair_add_assign addk addv self rhs =
     DimensionPair (addk (pair_key self) (pair_key rhs))
       (case pair_value self of
          Some value \<Rightarrow> (case pair_value rhs of Some other_value \<Rightarrow> Some (addv value other_value) | None \<Rightarrow> None)
        | None \<Rightarrow> None)"

definition pair_sub ::
  "('k \<Rightarrow> 'k \<Rightarrow> 'r) \<Rightarrow> ('v \<Rightarrow> 'v \<Rightarrow> 'r2) \<Rightarrow> ('k, 'v) dimension_pair \<Rightarrow> ('k, 'v) dimension_pair \<Rightarrow> ('r, 'r2) dimension_pair" where
  "pair_sub subk subv self rhs =
     DimensionPair (subk (pair_key self) (pair_key rhs))
       (case (pair_value self, pair_value rhs) of (Some a, Some b) \<Rightarrow> Some (subv a b) | _ \<Rightarrow> None)"

definition pair_cmp :: "('k::linorder, 'v) dimension_pair \<Rightarrow> ('k, 'v) dimension_pair \<Rightarrow> ordering" where
  "pair_cmp self other = cmp (pair_key self) (pair_key other)"

definition pair_from_text_summary ::
  "(nat text_summary \<Rightarrow> 'k) \<Rightarrow> (nat text_summary \<Rightarrow> 'v) \<Rightarrow> nat text_summary \<Rightarrow> ('k, 'v) dimension_pair" where
  "pair_from_text_summary k v s = DimensionPair (k s) (Some (v s))"

section \<open>Text dimensions\<close>

text \<open>
  What the trait \<open>TextDimension\<close> promises: adding a chunk's summary to a position is adding the
  measure of its text, and the measure of a concatenation is the sum of the measures.
\<close>

locale text_dimension =
  fixes D :: "(chunk_summary, 'd) dim_ops"
    and from_text_summary :: "nat text_summary \<Rightarrow> 'd"
    and add_assign :: "'d \<Rightarrow> 'd \<Rightarrow> 'd"
  assumes dadd_eq: "dadd D d s = add_assign d (from_text_summary (chunk_text s))"
    and zero_eq: "dzero D = from_text_summary summary_zero"
    and from_add: "summary_ok a \<Longrightarrow> summary_ok b \<Longrightarrow>
      from_text_summary (summary_add a b) = add_assign (from_text_summary a) (from_text_summary b)"
    and assoc: "summary_ok a \<Longrightarrow> summary_ok b \<Longrightarrow>
      add_assign (add_assign d (from_text_summary a)) (from_text_summary b) =
      add_assign d (add_assign (from_text_summary a) (from_text_summary b))"
begin

lemma chunk_text_ok: "summary_ok (chunk_text s)"
  using chunk_text [of s] summary_ok_from by auto

lemma dadd_add: "dadd D d (chunk_add a b) = dadd D (dadd D d a) b"
  by (simp add: dadd_eq chunk_add.rep_eq from_add assoc chunk_text_ok)

lemma position_of_text:
  "position_of text_ops D chunks = from_text_summary (summary_from (concat chunks))"
proof (induction chunks rule: rev_induct)
  case Nil
  then show ?case by (simp add: zero_eq summary_from_def summary_zero_def str_len_def)
next
  case (snoc c chunks)
  then show ?case
    by (simp add: position_of_append text_ops_def dadd_eq chunk_of.rep_eq summary_from_append from_add summary_ok_from)
qed

end

text \<open>The summaries of texts with addition are the texts with concatenation.\<close>

lemma chunk_add_of: "chunk_add (chunk_of cs) (chunk_of ds) = chunk_of (cs @ ds)"
  by transfer (simp add: summary_from_append)

lemma chunk_zero_of: "chunk_zero = chunk_of []"
  by transfer (simp add: summary_from_def summary_zero_def str_len_def)

lemma chunk_of_cases: obtains cs where "s = chunk_of cs"
  using chunk_text [of s] by (metis chunk_of.rep_eq chunk_text_inject imageE)

interpretation rope_text: summary_laws text_ops
proof unfold_locales
  fix a b c :: chunk_summary
  obtain x y z where "a = chunk_of x" "b = chunk_of y" "c = chunk_of z" by (metis chunk_of_cases)
  then show "sadd text_ops (sadd text_ops a b) c = sadd text_ops a (sadd text_ops b c)"
    and "sadd text_ops (szero text_ops) a = a"
    by (simp_all add: text_ops_def chunk_add_of chunk_zero_of)
qed

sublocale text_dimension \<subseteq> dimension_laws text_ops D
  by unfold_locales (simp add: text_ops_def dadd_add)

section \<open>The dimensions of a rope\<close>

lemma offset_utf16_add_assoc: "offset_utf16_add (offset_utf16_add a b) c = offset_utf16_add a (offset_utf16_add b c)"
  by (simp add: offset_utf16_add_def)

lemma nat_point_add_assoc: "point_add (point_add p q) r = point_add p (point_add q (r :: nat point))"
  by (rule point_add_assoc) simp

lemma point_utf16_add_assoc:
  "point_utf16_add (point_utf16_add p q) r = point_utf16_add p (point_utf16_add q (r :: nat point_utf16))"
proof -
  have "as_point (point_utf16_add (point_utf16_add p q) r) = as_point (point_utf16_add p (point_utf16_add q r))"
    by (simp add: as_point_hom nat_point_add_assoc)
  then show ?thesis by simp
qed

interpretation len: text_dimension len_dim ts_len "(+)"
  by unfold_locales (simp_all add: len_dim_def summary_zero_def summary_add_fields)

interpretation len_utf16: text_dimension len_utf16_dim "\<lambda>s. OffsetUtf16 (ts_len_utf16 s)" offset_utf16_add
  by unfold_locales (simp_all add: len_utf16_dim_def summary_zero_def summary_add_fields offset_utf16_add_def)

interpretation lines: text_dimension lines_dim ts_lines point_add_assign
  by unfold_locales
    (simp_all add: lines_dim_def summary_zero_def summary_add_fields point_add_assign_eq nat_point_add_assoc)

lemma lines_utf16_add: "lines_utf16 (summary_add a b) = point_utf16_add (lines_utf16 a) (lines_utf16 (b :: nat text_summary))"
  by (auto simp: lines_utf16_def summary_add_fields point_utf16_add_def point_add_def point_new_def)

interpretation lines_utf16: text_dimension lines_utf16_dim lines_utf16 point_utf16_add
  by unfold_locales
    (simp_all add: lines_utf16_dim_def lines_utf16_add point_utf16_add_assoc, simp add: lines_utf16_def summary_zero_def
      point_utf16_zero_def point_zero_def point_new_def)

text \<open>The whole summary as a dimension: the position after some chunks is the summary of their text.\<close>

lemma text_summary_position: "position_of text_ops text_summary_dim chunks = summary_from (concat chunks)"
proof (induction chunks rule: rev_induct)
  case Nil
  then show ?case by (simp add: text_summary_dim_def summary_from_def summary_zero_def str_len_def)
next
  case (snoc c chunks)
  then show ?case
    by (simp add: position_of_append text_ops_def chunk_of.rep_eq summary_from_append)
      (simp add: text_summary_dim_def chunk_of.rep_eq)
qed

text \<open>Products of text dimensions are text dimensions.\<close>

lemma pair_text_dimension:
  assumes "text_dimension K k addk" and "text_dimension V v addv"
  shows "text_dimension (pair_dim K V) (pair_from_text_summary k v) (pair_add_assign addk addv)"
  using assms
  by (auto simp: text_dimension_def pair_dim_def pair_from_text_summary_def pair_add_assign_def split: option.splits)

lemma dimensions_text_dimension:
  assumes "text_dimension A a adda" and "text_dimension B b addb"
  shows "text_dimension (dimensions A B unit_dim) (\<lambda>s. (a s, b s, ()))
    (\<lambda>p q. (adda (fst p) (fst q), addb (fst (snd p)) (fst (snd q)), ()))"
  using assms by (auto simp: text_dimension_def dimensions_def unit_dim_def)

section \<open>Seeking and filtering in a rope\<close>

interpretation text_slice: cursor_seeking text_ops len_dim "slice_aggregate text_ops" "slice_holds text_ops" "height root" tgt b root
  for tgt b root by unfold_locales simp

text \<open>Chunks with some text: a sum is non-empty as soon as a part is.\<close>

interpretation nonempty: filtered_cursor text_ops len_dim "\<lambda>s. 0 < ts_len (chunk_text s)" root for root
  by unfold_locales (auto simp: text_ops_def chunk_add.rep_eq summary_add_fields)

end
