(* ===== verification/Text_Theorems.thy ===== *)
theory Text_Theorems
  imports Undo_Map Operation_Queue Locator Text_Dimension
begin

text \<open>
  The contracts of the data structures that the crates \<open>text\<close> and \<open>rope\<close> build on trees, clocks and
  points: undo counts, deferred operations, locators, points, text summaries and the dimensions of
  a rope.
\<close>

section \<open>The undo map\<close>

definition undo_at :: "u32 \<Rightarrow> u16 \<Rightarrow> (lamport \<times> u32) list \<Rightarrow> undo_operation" where
  "undo_at n r cs = \<lparr>undo_timestamp = Lamport n (ReplicaId r), undo_version = global_new, undo_counts = cs\<rparr>"

text \<open>
  C16 Replicas that record the same undo operations in any order agree: the maps are well-formed and
  give every edit the same undo count, so every edit is visible on both or undone on both.
\<close>

theorem undo_maps_converge:
  assumes "undo_run undo_map_new us m1" and "undo_run undo_map_new vs m2" and "mset us = mset vs"
    and "distinct (map undo_timestamp us)" and "\<forall>u \<in> set us. distinct (map fst (undo_counts u))"
    and "shallow m1" and "shallow m2"
  shows "undo_count m1 e = undo_count m2 e \<and> is_undone m1 e = is_undone m2 e \<and>
    was_undone m1 e version = was_undone m2 e version \<and> undo_count m1 e \<noteq> None"
proof -
  have ok: "undo_ok m1" "undo_ok m2" and "recorded m1 = recorded m2"
    using undo_runs_agree [OF assms(1,2) undo_ok_new assms(3-5)] by auto
  then have "counts_for m1 e keep = counts_for m2 e keep" for keep by (simp add: counts_for_def)
  then show ?thesis
    using undo_count_correct [OF ok(1) assms(6)] undo_count_correct [OF ok(2) assms(7)]
      was_undone_correct [OF ok(1) assms(6)] was_undone_correct [OF ok(2) assms(7)]
    by (simp add: is_undone_def)
qed

definition edit_a :: lamport where
  "edit_a = Lamport 1 (ReplicaId 8)"

definition first_undo :: undo_operation where
  "first_undo = undo_at 5 1 [(edit_a, 1)]"

definition then_redo :: undo_operation where
  "then_redo = undo_at 6 2 [(edit_a, 2)]"

definition both_orders :: "undo_map option \<times> undo_map option" where
  "both_orders = (undo_map_insert undo_map_new first_undo \<bind> (\<lambda>m. undo_map_insert m then_redo),
     undo_map_insert undo_map_new then_redo \<bind> (\<lambda>m. undo_map_insert m first_undo))"

lemma both_orders_eval:
  "both_orders = (Some undone_twice, Some undone_twice)" if
  "undone_twice = Leaf (edit_a, Lamport 6 (ReplicaId 2))
     [\<lparr>um_key = (edit_a, Lamport 5 (ReplicaId 1)), um_undo_count = 1\<rparr>,
      \<lparr>um_key = (edit_a, Lamport 6 (ReplicaId 2)), um_undo_count = 2\<rparr>]
     [(edit_a, Lamport 5 (ReplicaId 1)), (edit_a, Lamport 6 (ReplicaId 2))]"
  unfolding that by code_simp

theorem undo_maps_converge_witness:
  "\<exists>m1 m2. both_orders = (Some m1, Some m2) \<and> undo_count m1 edit_a = undo_count m2 edit_a \<and>
     is_undone m1 edit_a = is_undone m2 edit_a"
proof -
  obtain m1 m2 where m: "both_orders = (Some m1, Some m2)" "shallow m1" "shallow m2"
    using both_orders_eval [OF refl] by (auto simp: shallow_def STACK_CAPACITY_def)
  obtain n1 n2 where n: "undo_map_insert undo_map_new first_undo = Some n1" "undo_map_insert n1 then_redo = Some m1"
      "undo_map_insert undo_map_new then_redo = Some n2" "undo_map_insert n2 first_undo = Some m2"
    using m(1) by (auto simp: both_orders_def bind_eq_Some_conv)
  have "shallow n1" "shallow n2"
  proof -
    have "map_option shallow (undo_map_insert undo_map_new first_undo) = Some True" by code_simp
    moreover have "map_option shallow (undo_map_insert undo_map_new then_redo) = Some True" by code_simp
    ultimately show "shallow n1" "shallow n2" using n by simp_all
  qed
  moreover have "shallow undo_map_new" by code_simp
  ultimately have "undo_run undo_map_new [first_undo, then_redo] m1" "undo_run undo_map_new [then_redo, first_undo] m2"
    using n by (meson undo_run.intros)+
  from undo_maps_converge [OF this _ _ _ m(2,3), of edit_a global_new] show ?thesis
    using m(1) by (auto simp: first_undo_def then_redo_def undo_at_def)
qed

text \<open>
  An edit counts as undone in a version exactly when the greatest undo count that an undo
  operation observed by that version recorded for it is odd.
\<close>

theorem was_undone_parity:
  assumes "undo_ok m" and "shallow m"
  shows "was_undone m e version =
      Some (Max (insert 0 {c. \<exists>u. recorded m (e, u) = Some c \<and> observed version u}) mod 2 = 1) \<and>
    undo_count m e = Some (Max (insert 0 {c. \<exists>u. recorded m (e, u) = Some c}))"
  using was_undone_correct [OF assms, of e version] undo_count_correct [OF assms, of e] by (simp add: counts_for_def)

section \<open>The queue of deferred operations\<close>

text \<open>
  Inserting a batch into the queue of deferred operations keeps the queue strictly ordered by timestamp, keeps exactly one
  operation per timestamp with the new one replacing the old, and counts its length correctly, when the assertions
  in the addition of summaries are left aside.
\<close>

theorem operation_queue_insert:
  assumes "queue_ok ts q" and "shallow q"
  shows "\<exists>q'. queue_insert ts q ops = Some q' \<and> queue_ok ts q' \<and> queue_len q' = length (flat q') \<and>
    ts ` set (flat q') = ts ` set (flat q) \<union> ts ` set ops \<and> inj_on ts (set (flat q')) \<and>
    (\<forall>op \<in> set (flat q'). op \<in> set ops \<or> op \<in> set (flat q) \<and> ts op \<notin> ts ` set ops)"
proof -
  obtain q' new where q': "queue_insert ts q ops = Some q'" "queue_ok ts q'" "set new \<subseteq> set ops"
      "ts ` set new = ts ` set ops" "set (flat q') = {op \<in> set (flat q). ts op \<notin> ts ` set ops} \<union> set new"
    using queue_insert_correct [OF assms, of ops] by blast
  have "distinct (map ts xs)" if "keys_sorted ts xs" for xs using that by (induction xs) auto
  then have "inj_on ts (set (flat q'))" using q'(2) by (simp add: queue_ok_def distinct_map)
  moreover have "ts ` set (flat q') = ts ` set (flat q) \<union> ts ` set ops"
    unfolding q'(5) image_Un q'(4) by auto
  ultimately show ?thesis using q' queue_len_correct [OF q'(2)] by auto
qed

section \<open>Locators\<close>

text \<open>
  C27 \<open>Locator::between\<close> terminates and returns an identifier strictly between its arguments
  whenever the right one is greater and does not end in zero, which the result does not either;
  it grows by one digit at most. Repeated insertion before or after the last inserted item
  therefore never runs out of room.
\<close>

theorem locator_between:
  assumes "lhs < rhs" and "last rhs \<noteq> 0"
  shows "lhs < between lhs rhs \<and> between lhs rhs < rhs \<and> last (between lhs rhs) \<noteq> 0 \<and>
    length (between lhs rhs) \<le> Suc (max (length lhs) (length rhs)) \<and>
    length (loc.typed n lhs rhs) = n \<and> sorted_wrt (<) (lhs # loc.typed n lhs rhs @ [rhs]) \<and>
    length (loc.prepended n lhs rhs) = n \<and> sorted_wrt (<) (lhs # loc.prepended n lhs rhs @ [rhs])"
  using between_correct [OF assms] loc.typed_ordered [of lhs rhs n] loc.prepended_ordered [of lhs rhs n] assms
  by (auto simp: sorted_wrt_append)

theorem locator_between_witness:
  "locator_min < between locator_min locator_max \<and> between locator_min locator_max < locator_max"
proof -
  have "locator_min < locator_max" "last locator_max \<noteq> 0" by code_simp+
  from locator_between [OF this, of 0] show ?thesis by blast
qed

section \<open>Points\<close>

text \<open>
  The packed 64-bit comparison of points is the row-major order, for byte and for UTF-16
  columns, and subtraction undoes addition for all machine points, wrapped around or not.
\<close>

theorem point_arithmetic:
  "point_cmp p q = cmp p q \<and> point_cmp_32 p q = point_cmp p q \<and>
   point_utf16_cmp u v = cmp (as_point u) (as_point v) \<and>
   point_sub (point_add p q) p = q \<and> point_add q (point_sub p q) = p \<and>
   as_point (point_utf16_add u v) = point_add (as_point u) (as_point v) \<and>
   as_point (point_utf16_sub u v) = point_sub (as_point u) (as_point v)"
  by (simp add: point_cmp_eq point_sub_add point_add_sub as_point_hom)

text \<open>
  While the coordinates fit in 32 bits, machine addition of points agrees with addition on the
  natural numbers, is associative, and is monotone in its right argument.
\<close>

theorem point_add_no_wrap:
  assumes "point_fits (point_add (point_nat p) (point_nat q))" and "point_fits (point_add (point_nat q) (point_nat r))"
    and "point_fits (point_add (point_add (point_nat p) (point_nat q)) (point_nat r))"
    and "point_fits (point_add (point_nat p) (point_nat r))"
  shows "point_nat (point_add p q) = point_add (point_nat p) (point_nat q) \<and>
    point_add (point_add p q) r = point_add p (point_add q r) \<and>
    (q \<le> r \<longrightarrow> point_add p q \<le> point_add p r)"
proof (intro conjI impI)
  show "point_nat (point_add p q) = point_add (point_nat p) (point_nat q)" by (rule point_nat_add [OF assms(1)])
  have "row q + row r = 0 \<Longrightarrow> row q = 0 \<and> row r = 0"
  proof -
    assume "row q + row r = 0"
    then have "unat (row q + row r) = 0" by simp
    moreover have "unat (row q) + unat (row r) < 2 ^ 32"
      using assms(2) by (auto simp: point_fits_def point_add_def point_nat_def point_new_def split: if_splits)
    ultimately show ?thesis by (simp add: unat_word_ariths unat_eq_zero)
  qed
  then show "point_add (point_add p q) r = point_add p (point_add q r)" by (rule point_add_assoc)
  assume "q \<le> r"
  then have "point_add (point_nat p) (point_nat q) \<le> point_add (point_nat p) (point_nat r)"
    by (intro point_add_mono) (simp add: point_nat_le_iff)
  with point_nat_add [OF assms(1)] point_nat_add [OF assms(4)] show "point_add p q \<le> point_add p r"
    by (metis point_nat_le_iff)
qed

section \<open>Text summaries\<close>

text \<open>
  The one-pass summary of a text says what it means: bytes, characters, UTF-16 units, the number
  of line breaks, the lengths of the first and last line, and the first of the longest lines, all
  as computed from the list of lines; and \<open>Point::parse_str\<close> is its end point.
\<close>

theorem text_summary_meaning:
  "let ls = split_lines cs; s = summary_from cs in
     ts_len s = str_len cs \<and> ts_chars s = length cs \<and> ts_len_utf16 s = sum_list (map char_len_utf16 cs) \<and>
     ts_lines s = Point (length ls - 1) (str_len (last ls)) \<and>
     ts_first_line_chars s = length (hd ls) \<and> ts_last_line_chars s = length (last ls) \<and>
     ts_last_line_len_utf16 s = sum_list (map char_len_utf16 (last ls)) \<and>
     longest_line ls (ts_longest_row s) \<and> ts_longest_row_chars s = length (ls ! ts_longest_row s) \<and>
     parse_str cs = ts_lines s"
  using summary_from_summarises [of cs] by (simp add: Let_def summarises_def parse_str_lines)

text \<open>
  C17 Adding the 32-bit summaries of two texts gives the summary of their concatenation when the
  total length is below 4 GiB, so the summaries cached in a rope are those of its text.
\<close>

theorem text_summary_append:
  assumes "str_len cs + str_len ds < 2 ^ 32"
  shows "summary_add (summary_from cs) (summary_from ds) = (summary_from (cs @ ds) :: u32 text_summary)"
  using machine_from_append [OF assms] by simp

theorem text_summary_append_witness:
  "summary_add (summary_from [97, 10]) (summary_from [233, 10, 98]) = (summary_from [97, 10, 233, 10, 98] :: u32 text_summary)"
  using text_summary_append [of "[97, 10]" "[233, 10, 98]"] by (simp add: str_len_def len_utf8_def)

text \<open>
  Every way of measuring a rope agrees with the text: the position that a tree of chunks reaches
  after some chunks, in bytes, UTF-16 units, points, UTF-16 points, as a whole summary or in a pair
  of these, is that measure of the concatenated text.
\<close>

theorem rope_dimensions:
  "position_of text_ops len_dim chunks = str_len (concat chunks) \<and>
   position_of text_ops len_utf16_dim chunks = OffsetUtf16 (sum_list (map char_len_utf16 (concat chunks))) \<and>
   position_of text_ops lines_dim chunks = parse_str (concat chunks) \<and>
   position_of text_ops lines_utf16_dim chunks = lines_utf16 (summary_from (concat chunks)) \<and>
   position_of text_ops text_summary_dim chunks = summary_from (concat chunks) \<and>
   position_of text_ops (pair_dim lines_dim len_dim) chunks =
     DimensionPair (parse_str (concat chunks)) (Some (str_len (concat chunks)))"
proof -
  have "text_dimension (pair_dim lines_dim len_dim) (pair_from_text_summary ts_lines ts_len) (pair_add_assign point_add_assign (+))"
    by (rule pair_text_dimension [OF lines.text_dimension_axioms len.text_dimension_axioms])
  from text_dimension.position_of_text [OF this, of chunks] show ?thesis
    using len.position_of_text [of chunks] len_utf16.position_of_text [of chunks] lines.position_of_text [of chunks]
      lines_utf16.position_of_text [of chunks] text_summary_position [of chunks] summary_from_summarises [of "concat chunks"]
    by (simp add: pair_from_text_summary_def parse_str_lines summarises_def)
qed

text \<open>
  \<open>TextSummary::add_newline\<close> does not add a newline: on the summary of the text \<open>ab\<close> it differs
  from adding the summary that \<open>newline\<close> returns, since it adds the old UTF-16 length once more
  and leaves the number of characters unchanged.
\<close>

theorem add_newline_differs:
  "ts_len_utf16 (add_newline (summary_from [97, 98] :: u32 text_summary)) = 5 \<and>
   ts_len_utf16 (summary_add (summary_from [97, 98] :: u32 text_summary) summary_newline) = 3 \<and>
   ts_chars (add_newline (summary_from [97, 98] :: u32 text_summary)) = 2 \<and>
   ts_chars (summary_from [97, 98, 10] :: u32 text_summary) = 3 \<and>
   summary_newline = (summary_from [10] :: u32 text_summary)"
  by (simp add: summary_from_def summary_step_defs summary_zero_def add_newline_def summary_add_defs summary_newline_def
      point_defs str_len_def len_utf8_def char_len_utf16_def newline_char_def)

end
