(* ===== verification/Patch.thy ===== *)
theory Patch
  imports Sum_Tree_Access
begin

text \<open>
  The crate \<open>text\<close>, files \<open>patch.rs\<close> and \<open>subscription.rs\<close>: a patch is a list of edits, each replacing
  a range of the old text by a range of the new one. Positions are byte offsets (\<open>usize\<close>); an
  unsigned subtraction that would underflow is \<open>None\<close>, as is a failed assertion. Besides the
  operations, the theory shows what composing, inverting and looking up positions mean for the
  texts a patch stands between.
\<close>

section \<open>Edits\<close>

record text_edit =
  old_start :: nat
  old_end :: nat
  new_start :: nat
  new_end :: nat

definition make_edit :: "nat \<Rightarrow> nat \<Rightarrow> nat \<Rightarrow> nat \<Rightarrow> text_edit" where
  "make_edit os oe ns ne = \<lparr>old_start = os, old_end = oe, new_start = ns, new_end = ne\<rparr>"

definition edit_is_empty :: "text_edit \<Rightarrow> bool" where
  "edit_is_empty e \<longleftrightarrow> old_start e = old_end e \<and> new_start e = new_end e"

definition old_len :: "text_edit \<Rightarrow> nat option" where
  "old_len e = usize_sub (old_end e) (old_start e)"

definition new_len :: "text_edit \<Rightarrow> nat option" where
  "new_len e = usize_sub (new_end e) (new_start e)"

section \<open>Patches\<close>

type_synonym patch = "text_edit list"

definition patch_empty :: patch where
  "patch_empty = []"

text \<open>\<open>Patch::new\<close> in a debug build asserts that the edits are in order and do not touch.\<close>

fun edits_in_order :: "text_edit option \<Rightarrow> text_edit list \<Rightarrow> bool" where
  "edits_in_order last_edit [] = True"
| "edits_in_order last_edit (edit # edits) =
     ((case last_edit of
         Some l \<Rightarrow> old_end l < old_start edit \<and> new_end l < new_start edit
       | None \<Rightarrow> True) \<and> edits_in_order (Some edit) edits)"

definition patch_new :: "text_edit list \<Rightarrow> patch option" where
  "patch_new edits = do { _ \<leftarrow> require (edits_in_order None edits); Some edits }"

definition invert_edit :: "text_edit \<Rightarrow> text_edit" where
  "invert_edit e = make_edit (new_start e) (new_end e) (old_start e) (old_end e)"

definition patch_invert :: "patch \<Rightarrow> patch" where
  "patch_invert p = map invert_edit p"

definition patch_clear :: "patch \<Rightarrow> patch" where
  "patch_clear p = []"

definition patch_is_empty :: "patch \<Rightarrow> bool" where
  "patch_is_empty p = (p = [])"

definition push_maybe_empty :: "patch \<Rightarrow> text_edit \<Rightarrow> patch" where
  "push_maybe_empty p e =
     (if p = [] then p @ [e]
      else if old_start e \<le> old_end (last p)
      then butlast p @ [(last p)\<lparr>old_end := old_end e, new_end := new_end e\<rparr>]
      else p @ [e])"

definition patch_push :: "patch \<Rightarrow> text_edit \<Rightarrow> patch" where
  "patch_push p e = (if edit_is_empty e then p else push_maybe_empty p e)"

definition patch_retain :: "(text_edit \<Rightarrow> text_edit \<times> bool) \<Rightarrow> patch \<Rightarrow> patch" where
  "patch_retain f p = map fst (filter snd (map f p))"

section \<open>Composition\<close>

text \<open>
  The state of the loop of \<open>compose\<close>: the peekable iterators as the lists of edits left, whose
  heads are mutated through \<open>peek_mut\<close>, the positions reached, and the patch built so far.
\<close>

record compose_state =
  cs_olds :: "text_edit list"
  cs_news :: "text_edit list"
  cs_old :: nat
  cs_new :: nat
  cs_composed :: patch

text \<open>Advance both positions by the same amount, then past an edit that is pushed.\<close>

definition catch_up :: "nat \<Rightarrow> compose_state \<Rightarrow> compose_state" where
  "catch_up n s = s\<lparr>cs_old := cs_old s + n, cs_new := cs_new s + n\<rparr>"

definition push_piece :: "nat \<Rightarrow> nat \<Rightarrow> compose_state \<Rightarrow> compose_state" where
  "push_piece oe ne s = s\<lparr>cs_composed := patch_push (cs_composed s) (make_edit (cs_old s) oe (cs_new s) ne),
     cs_old := oe, cs_new := ne\<rparr>"

definition take_old :: "text_edit \<Rightarrow> compose_state \<Rightarrow> compose_state option" where
  "take_old old_edit s = do {
     catchup \<leftarrow> usize_sub (old_start old_edit) (cs_old s);
     let s = catch_up catchup s;
     ol \<leftarrow> old_len old_edit;
     nl \<leftarrow> new_len old_edit;
     Some ((push_piece (cs_old s + ol) (cs_new s + nl) s)\<lparr>cs_olds := tl (cs_olds s)\<rparr>) }"

definition take_new :: "text_edit \<Rightarrow> compose_state \<Rightarrow> compose_state option" where
  "take_new new_edit s = do {
     catchup \<leftarrow> usize_sub (new_start new_edit) (cs_new s);
     let s = catch_up catchup s;
     ol \<leftarrow> old_len new_edit;
     nl \<leftarrow> new_len new_edit;
     Some ((push_piece (cs_old s + ol) (cs_new s + nl) s)\<lparr>cs_news := tl (cs_news s)\<rparr>) }"

text \<open>Two edits that intersect: first up to where the later one starts, then up to where the earlier one ends.\<close>

definition align_edits ::
  "text_edit \<Rightarrow> text_edit \<Rightarrow> compose_state \<Rightarrow> (text_edit \<times> text_edit \<times> compose_state) option" where
  "align_edits old_edit new_edit s =
     (if new_start old_edit < old_start new_edit then do {
        catchup \<leftarrow> usize_sub (old_start old_edit) (cs_old s);
        let s = catch_up catchup s;
        overshoot \<leftarrow> usize_sub (old_start new_edit) (new_start old_edit);
        let oe = min (cs_old s + overshoot) (old_end old_edit);
        Some (old_edit\<lparr>old_start := oe, new_start := new_start old_edit + overshoot\<rparr>, new_edit,
              push_piece oe (cs_new s + overshoot) s) }
      else do {
        catchup \<leftarrow> usize_sub (new_start new_edit) (cs_new s);
        let s = catch_up catchup s;
        overshoot \<leftarrow> usize_sub (new_start old_edit) (old_start new_edit);
        let ne = min (cs_new s + overshoot) (new_end new_edit);
        Some (old_edit, new_edit\<lparr>old_start := old_start new_edit + overshoot, new_start := ne\<rparr>,
              push_piece (cs_old s + overshoot) ne s) })"

definition merge_edits :: "text_edit \<Rightarrow> text_edit \<Rightarrow> compose_state \<Rightarrow> compose_state option" where
  "merge_edits old_edit new_edit s = do {
     ol \<leftarrow> old_len old_edit;
     nol \<leftarrow> old_len new_edit;
     onl \<leftarrow> new_len old_edit;
     nl \<leftarrow> new_len new_edit;
     if old_end new_edit < new_end old_edit then
       let oe = cs_old s + min ol nol in
       Some ((push_piece oe (cs_new s + nl) s)
         \<lparr>cs_olds := old_edit\<lparr>old_start := oe, new_start := old_end new_edit\<rparr> # tl (cs_olds s),
          cs_news := tl (cs_news s)\<rparr>)
     else
       let ne = cs_new s + min onl nl in
       Some ((push_piece (cs_old s + ol) ne s)
         \<lparr>cs_news := new_edit\<lparr>old_start := new_end old_edit, new_start := ne\<rparr> # tl (cs_news s),
          cs_olds := tl (cs_olds s)\<rparr>) }"

text \<open>One iteration; \<open>Some None\<close> is the \<open>break\<close>.\<close>

definition compose_step :: "compose_state \<Rightarrow> compose_state option option" where
  "compose_step s =
     (case (cs_olds s, cs_news s) of
        ([], []) \<Rightarrow> Some None
      | (o1 # _, []) \<Rightarrow> map_option Some (take_old o1 s)
      | ([], n1 # _) \<Rightarrow> map_option Some (take_new n1 s)
      | (o1 # _, n1 # _) \<Rightarrow>
          if new_end o1 < old_start n1 then map_option Some (take_old o1 s)
          else if old_end n1 < new_start o1 then map_option Some (take_new n1 s)
          else do {
            (o1, n1, s) \<leftarrow> align_edits o1 n1 s;
            s \<leftarrow> merge_edits o1 n1 s;
            Some (Some s) })"

partial_function (option) compose_loop :: "compose_state \<Rightarrow> patch option" where
  "compose_loop s = do {
     r \<leftarrow> compose_step s;
     case r of None \<Rightarrow> Some (cs_composed s) | Some s' \<Rightarrow> compose_loop s' }"

declare compose_loop.simps [code]

definition patch_compose :: "patch \<Rightarrow> text_edit list \<Rightarrow> patch option" where
  "patch_compose p news = compose_loop \<lparr>cs_olds = p, cs_news = news, cs_old = 0, cs_new = 0, cs_composed = []\<rparr>"

section \<open>Positions\<close>







section \<open>What a patch means\<close>

text \<open>
  A patch explains how one text became another: outside the edited ranges both texts agree. The
  texts are given from the positions \<open>i\<close> and \<open>j\<close> on.
\<close>

fun explains :: "patch \<Rightarrow> nat \<Rightarrow> nat \<Rightarrow> 'a list \<Rightarrow> 'a list \<Rightarrow> bool" where
  "explains [] i j a b \<longleftrightarrow> a = b"
| "explains (e # es) i j a b \<longleftrightarrow>
     (\<exists>g x y a' b'. a = g @ x @ a' \<and> b = g @ y @ b' \<and>
        old_start e = i + length g \<and> old_end e = i + length g + length x \<and>
        new_start e = j + length g \<and> new_end e = j + length g + length y \<and>
        explains es (old_end e) (new_end e) a' b')"

lemma explains_ConsI:
  assumes "a = g @ x @ a'" and "b = g @ y @ b'"
    and "old_start e = i + length g" and "old_end e = i + length g + length x"
    and "new_start e = j + length g" and "new_end e = j + length g + length y"
    and "explains es (old_end e) (new_end e) a' b'"
  shows "explains (e # es) i j a b"
  unfolding explains.simps using assms by blast

lemma explains_ConsE:
  assumes "explains (e # es) i j a b"
  obtains g x y a' b' where "a = g @ x @ a'" and "b = g @ y @ b'"
    and "old_start e = i + length g" and "old_end e = i + length g + length x"
    and "new_start e = j + length g" and "new_end e = j + length g + length y"
    and "explains es (old_end e) (new_end e) a' b'"
  using assms by auto

declare explains.simps(2) [simp del]

lemma invert_edit_simps [simp]:
  "old_start (invert_edit e) = new_start e" "old_end (invert_edit e) = new_end e"
  "new_start (invert_edit e) = old_start e" "new_end (invert_edit e) = old_end e"
  by (simp_all add: invert_edit_def make_edit_def)

lemma make_edit_simps [simp]:
  "old_start (make_edit os oe ns ne) = os" "old_end (make_edit os oe ns ne) = oe"
  "new_start (make_edit os oe ns ne) = ns" "new_end (make_edit os oe ns ne) = ne"
  by (simp_all add: make_edit_def)

lemma explains_invertI: "explains p i j a b \<Longrightarrow> explains (patch_invert p) j i b a"
proof (induction p arbitrary: i j a b)
  case (Cons e p)
  from Cons.prems show ?case
  proof (rule explains_ConsE)
    fix g x y a' b'
    assume e: "a = g @ x @ a'" "b = g @ y @ b'" "old_start e = i + length g" "old_end e = i + length g + length x"
      "new_start e = j + length g" "new_end e = j + length g + length y" "explains p (old_end e) (new_end e) a' b'"
    from Cons.IH [OF e(7)] e show ?thesis
      by (auto simp: patch_invert_def intro: explains_ConsI [of _ g y b' _ x a'])
  qed
qed (simp add: patch_invert_def)

lemma invert_edit_invert [simp]: "invert_edit (invert_edit e) = e"
  by (simp add: invert_edit_def make_edit_def)

lemma patch_invert_invert [simp]: "patch_invert (patch_invert p) = p"
  by (simp add: patch_invert_def comp_def)

lemma explains_invert: "explains (patch_invert p) j i b a \<longleftrightarrow> explains p i j a b"
  using explains_invertI [of p i j a b] explains_invertI [of "patch_invert p" j i b a] by auto

lemma explains_append:
  assumes "explains es i j a b" and "explains fs (i + length a) (j + length b) a' b'"
  shows "explains (es @ fs) i j (a @ a') (b @ b')"
  using assms
proof (induction es arbitrary: i j a b)
  case Nil
  then have ab: "a = b" by simp
  show ?case
  proof (cases fs)
    case (Cons f fs')
    from Nil.prems(2) [unfolded Cons] show ?thesis
    proof (rule explains_ConsE)
      fix g x y a1 b1
      assume "a' = g @ x @ a1" "b' = g @ y @ b1" "old_start f = i + length a + length g"
        "old_end f = i + length a + length g + length x" "new_start f = j + length b + length g"
        "new_end f = j + length b + length g + length y" "explains fs' (old_end f) (new_end f) a1 b1"
      with ab show ?thesis by (auto simp: Cons intro: explains_ConsI [of _ "b @ g" x a1 _ y b1])
    qed
  qed (use Nil in simp)
next
  case (Cons e es)
  from Cons.prems(1) show ?case
  proof (rule explains_ConsE)
    fix g x y a1 b1
    assume e: "a = g @ x @ a1" "b = g @ y @ b1" "old_start e = i + length g" "old_end e = i + length g + length x"
      "new_start e = j + length g" "new_end e = j + length g + length y" "explains es (old_end e) (new_end e) a1 b1"
    have "explains (es @ fs) (old_end e) (new_end e) (a1 @ a') (b1 @ b')"
      using Cons.prems(2) e by (intro Cons.IH) (simp_all add: add.assoc)
    with e show ?thesis by (auto intro: explains_ConsI [of _ g x "a1 @ a'" _ y "b1 @ b'"])
  qed
qed

lemma explains_gap: "explains es i j a b \<Longrightarrow> explains es i j (a @ g) (b @ g)"
  using explains_append [of es i j a b "[]" g g] by simp

lemma explains_single:
  "explains [make_edit i (i + length x) j (j + length y)] i j x y"
  by (rule explains_ConsI [of _ "[]" x "[]" _ y "[]"]) simp_all

text \<open>Extending the last edit when it reaches the end of both texts.\<close>

lemma explains_extend:
  assumes "explains (es @ [l]) i j a b" and "old_end l = i + length a" and "new_end l = j + length b"
  shows "explains (es @ [l\<lparr>old_end := old_end l + length x, new_end := new_end l + length y\<rparr>]) i j (a @ x) (b @ y)"
  using assms
proof (induction es arbitrary: i j a b)
  case Nil
  from Nil.prems(1) have "explains (l # []) i j a b" by simp
  then show ?case
  proof (rule explains_ConsE)
    fix g u v a1 b1
    assume "a = g @ u @ a1" "b = g @ v @ b1" "old_start l = i + length g" "old_end l = i + length g + length u"
      "new_start l = j + length g" "new_end l = j + length g + length v" "explains [] (old_end l) (new_end l) a1 b1"
    with Nil.prems show ?thesis by (auto intro: explains_ConsI [of _ g "u @ x" "[]" _ "v @ y" "[]"])
  qed
next
  case (Cons e es)
  from Cons.prems(1) have "explains (e # es @ [l]) i j a b" by simp
  then show ?case
  proof (rule explains_ConsE)
    fix g u v a1 b1
    assume e: "a = g @ u @ a1" "b = g @ v @ b1" "old_start e = i + length g" "old_end e = i + length g + length u"
      "new_start e = j + length g" "new_end e = j + length g + length v" "explains (es @ [l]) (old_end e) (new_end e) a1 b1"
    have "explains (es @ [l\<lparr>old_end := old_end l + length x, new_end := new_end l + length y\<rparr>])
        (old_end e) (new_end e) (a1 @ x) (b1 @ y)"
      using Cons.prems(2,3) e by (intro Cons.IH) (simp_all add: add.assoc)
    with e show ?thesis by (auto intro: explains_ConsI [of _ g u "a1 @ x" _ v "b1 @ y"])
  qed
qed

lemma explains_last:
  assumes "explains (es @ [l]) i j a b"
  shows "old_end l \<le> i + length a \<and> new_end l \<le> j + length b \<and>
    i + length a - old_end l = j + length b - new_end l"
  using assms
proof (induction es arbitrary: i j a b)
  case Nil
  then show ?case by (auto elim: explains_ConsE)
next
  case (Cons e es)
  from Cons.prems have "explains (e # es @ [l]) i j a b" by simp
  then show ?case by (rule explains_ConsE) (drule Cons.IH, simp add: add.assoc)
qed

text \<open>Pushing the next piece, with or without coalescing.\<close>

lemma explains_push:
  assumes "explains p 0 0 a b"
  shows "explains (patch_push p (make_edit (length a) (length a + length x) (length b) (length b + length y))) 0 0 (a @ x) (b @ y)"
proof (cases "x = [] \<and> y = []")
  case True
  with assms show ?thesis by (simp add: patch_push_def edit_is_empty_def)
next
  case False
  let ?e = "make_edit (length a) (length a + length x) (length b) (length b + length y)"
  have ne: "\<not> edit_is_empty ?e" using False by (auto simp: edit_is_empty_def)
  show ?thesis
  proof (cases "p \<noteq> [] \<and> length a \<le> old_end (last p)")
    case True
    define q l where "q = butlast p" and "l = last p"
    have p: "p = q @ [l]" using True by (simp add: q_def l_def)
    have l: "old_end l = length a" "new_end l = length b"
      using explains_last [of q l 0 0 a b] assms True by (simp_all add: p)
    have "explains (q @ [l\<lparr>old_end := old_end l + length x, new_end := new_end l + length y\<rparr>]) 0 0 (a @ x) (b @ y)"
      using assms l by (intro explains_extend) (simp_all add: p)
    with ne l True show ?thesis by (simp add: patch_push_def push_maybe_empty_def p)
  next
    case False
    have "explains (p @ [?e]) 0 0 (a @ x) (b @ y)"
      using explains_append [OF assms, of "[?e]" x y] explains_single [of "length a" x "length b" y] by simp
    with ne False show ?thesis by (auto simp: patch_push_def push_maybe_empty_def)
  qed
qed

text \<open>Skipping a common prefix that no edit reaches into.\<close>

lemma explains_skip:
  assumes "explains es i j (g @ a) b" and "es = [] \<or> i + length g \<le> old_start (hd es)"
  shows "\<exists>b'. b = g @ b' \<and> explains es (i + length g) (j + length g) a b'"
proof (cases es)
  case Nil
  with assms show ?thesis by simp
next
  case (Cons e es')
  from assms(1) [unfolded Cons] show ?thesis
  proof (rule explains_ConsE)
    fix h x y a1 b1
    assume e: "g @ a = h @ x @ a1" "b = h @ y @ b1" "old_start e = i + length h" "old_end e = i + length h + length x"
      "new_start e = j + length h" "new_end e = j + length h + length y" "explains es' (old_end e) (new_end e) a1 b1"
    have "length g \<le> length h" using assms(2) Cons e(3) by simp
    then obtain h' where h: "h = g @ h'" using e(1) by (auto simp: append_eq_append_conv2)
    then have "explains es (i + length g) (j + length g) a (h' @ y @ b1)"
      unfolding Cons using e by (intro explains_ConsI [of _ h' x a1 _ y b1]) simp_all
    with e(2) h show ?thesis by simp
  qed
qed

lemma explains_skip_new:
  assumes "explains es i j a (g @ b)" and "es = [] \<or> j + length g \<le> new_start (hd es)"
  shows "\<exists>a'. a = g @ a' \<and> explains es (i + length g) (j + length g) a' b"
proof -
  have "patch_invert es = [] \<or> j + length g \<le> old_start (hd (patch_invert es))"
    using assms(2) by (cases es) (auto simp: patch_invert_def)
  from explains_skip [OF _ this, of i b a] assms(1) show ?thesis by (simp add: explains_invert)
qed

section \<open>Composition\<close>

text \<open>
  The invariant of the loop, for texts \<open>A\<close> and \<open>C\<close>: the composed patch explains the prefixes up to
  the current positions, and the edits left explain the rests through a middle text.
\<close>

definition compose_inv :: "'a list \<Rightarrow> 'a list \<Rightarrow> compose_state \<Rightarrow> bool" where
  "compose_inv A C s \<longleftrightarrow>
     (\<exists>a a' m b c c'. A = a @ a' \<and> C = c @ c' \<and> cs_old s = length a \<and> cs_new s = length c \<and>
        explains (cs_composed s) 0 0 a c \<and>
        explains (cs_olds s) (length a) m a' b \<and> explains (cs_news s) m (length c) b c')"

lemma compose_invI:
  assumes "A = a @ a'" and "C = c @ c'" and "cs_old s = length a" and "cs_new s = length c"
    and "explains (cs_composed s) 0 0 a c"
    and "explains (cs_olds s) (length a) m a' b" and "explains (cs_news s) m (length c) b c'"
  shows "compose_inv A C s"
  unfolding compose_inv_def using assms by blast

text \<open>Catching up over a common gap and pushing a piece moves the prefixes.\<close>

lemma advance:
  fixes s :: compose_state and a c g x y :: "'a list"
  assumes "explains (cs_composed s) 0 0 a c" and "cs_old s = length a" and "cs_new s = length c"
  defines "s' \<equiv> push_piece (length (a @ g @ x)) (length (c @ g @ y)) (catch_up (length g) s)"
  shows "explains (cs_composed s') 0 0 (a @ g @ x) (c @ g @ y)"
    and "cs_old s' = length (a @ g @ x)" and "cs_new s' = length (c @ g @ y)"
    and "cs_olds s' = cs_olds s" and "cs_news s' = cs_news s"
proof -
  have "explains (cs_composed s) 0 0 (a @ g) (c @ g)" by (rule explains_gap [OF assms(1)])
  from explains_push [OF this, of x y] assms(2,3)
  show "explains (cs_composed s') 0 0 (a @ g @ x) (c @ g @ y)"
    by (simp add: s'_def push_piece_def catch_up_def add.assoc)
qed (simp_all add: s'_def push_piece_def catch_up_def)

lemma take_old_correct:
  assumes "compose_inv A C s" and "cs_olds s = o1 # olds"
    and "cs_news s = [] \<or> new_end o1 \<le> old_start (hd (cs_news s))"
  shows "\<exists>s'. take_old o1 s = Some s' \<and> compose_inv A C s' \<and> cs_olds s' = olds \<and> cs_news s' = cs_news s"
proof -
  from assms(1) obtain a a' m b c c' where inv: "A = a @ a'" "C = c @ c'" "cs_old s = length a" "cs_new s = length c"
      "explains (cs_composed s) 0 0 a c" "explains (cs_olds s) (length a) m a' b" "explains (cs_news s) m (length c) b c'"
    by (auto simp: compose_inv_def)
  from inv(6) [unfolded assms(2)] show ?thesis
  proof (rule explains_ConsE)
    fix g x y a1 b1
    assume e: "a' = g @ x @ a1" "b = g @ y @ b1" "old_start o1 = length a + length g"
      "old_end o1 = length a + length g + length x" "new_start o1 = m + length g"
      "new_end o1 = m + length g + length y" "explains olds (old_end o1) (new_end o1) a1 b1"
    obtain c1 where c1: "c' = (g @ y) @ c1" "explains (cs_news s) (m + length (g @ y)) (length c + length (g @ y)) b1 c1"
      using explains_skip [of "cs_news s" m "length c" "g @ y" b1 c'] inv(7) e(2,6) assms(3) by auto
    let ?s = "push_piece (length (a @ g @ x)) (length (c @ g @ y)) (catch_up (length g) s)"
    note adv = advance [OF inv(5,3,4), of g x y]
    have "take_old o1 s = Some (?s\<lparr>cs_olds := olds\<rparr>)"
      using e inv(3,4) assms(2)
      by (simp add: take_old_def usize_sub_def old_len_def new_len_def Let_def catch_up_def push_piece_def add.assoc)
    moreover have "compose_inv A C (?s\<lparr>cs_olds := olds\<rparr>)"
      using adv e c1 inv(1,2) by (intro compose_invI [of _ "a @ g @ x" a1 _ "c @ g @ y" c1 _ "new_end o1" b1]) (simp_all add: add.assoc)
    ultimately show ?thesis using adv by simp
  qed
qed

lemma take_new_correct:
  assumes "compose_inv A C s" and "cs_news s = n1 # news"
    and "cs_olds s = [] \<or> old_end n1 \<le> new_start (hd (cs_olds s))"
  shows "\<exists>s'. take_new n1 s = Some s' \<and> compose_inv A C s' \<and> cs_news s' = news \<and> cs_olds s' = cs_olds s"
proof -
  from assms(1) obtain a a' m b c c' where inv: "A = a @ a'" "C = c @ c'" "cs_old s = length a" "cs_new s = length c"
      "explains (cs_composed s) 0 0 a c" "explains (cs_olds s) (length a) m a' b" "explains (cs_news s) m (length c) b c'"
    by (auto simp: compose_inv_def)
  from inv(7) [unfolded assms(2)] show ?thesis
  proof (rule explains_ConsE)
    fix g x y b1 c1
    assume e: "b = g @ x @ b1" "c' = g @ y @ c1" "old_start n1 = m + length g"
      "old_end n1 = m + length g + length x" "new_start n1 = length c + length g"
      "new_end n1 = length c + length g + length y" "explains news (old_end n1) (new_end n1) b1 c1"
    obtain a1 where a1: "a' = (g @ x) @ a1" "explains (cs_olds s) (length a + length (g @ x)) (m + length (g @ x)) a1 b1"
      using explains_skip_new [of "cs_olds s" "length a" m a' "g @ x" b1] inv(6) e(1,4) assms(3) by auto
    let ?s = "push_piece (length (a @ g @ x)) (length (c @ g @ y)) (catch_up (length g) s)"
    note adv = advance [OF inv(5,3,4), of g x y]
    have "take_new n1 s = Some (?s\<lparr>cs_news := news\<rparr>)"
      using e inv(3,4) assms(2)
      by (simp add: take_new_def usize_sub_def old_len_def new_len_def Let_def catch_up_def push_piece_def add.assoc)
    moreover have "compose_inv A C (?s\<lparr>cs_news := news\<rparr>)"
      using adv e a1 inv(1,2) by (intro compose_invI [of _ "a @ g @ x" a1 _ "c @ g @ y" c1 _ "old_end n1" b1]) (simp_all add: add.assoc)
    ultimately show ?thesis using adv by simp
  qed
qed

text \<open>After the alignment both edits start at the current positions.\<close>

definition aligned :: "'a list \<Rightarrow> 'a list \<Rightarrow> text_edit \<Rightarrow> text_edit \<Rightarrow> compose_state \<Rightarrow> bool" where
  "aligned A C o1 n1 s \<longleftrightarrow>
     (\<exists>a a' m b c c'. A = a @ a' \<and> C = c @ c' \<and> cs_old s = length a \<and> cs_new s = length c \<and>
        explains (cs_composed s) 0 0 a c \<and>
        old_start o1 = length a \<and> new_start o1 = m \<and> old_start n1 = m \<and> new_start n1 = length c \<and>
        explains (o1 # tl (cs_olds s)) (length a) m a' b \<and> explains (n1 # tl (cs_news s)) m (length c) b c')"

lemma alignedI:
  assumes "A = a @ a'" and "C = c @ c'" and "cs_old s = length a" and "cs_new s = length c"
    and "explains (cs_composed s) 0 0 a c"
    and "old_start o1 = length a" and "new_start o1 = m" and "old_start n1 = m" and "new_start n1 = length c"
    and "explains (o1 # tl (cs_olds s)) (length a) m a' b" and "explains (n1 # tl (cs_news s)) m (length c) b c'"
  shows "aligned A C o1 n1 s"
  unfolding aligned_def using assms by blast

text \<open>Splitting a replacement at a length measured on the other side.\<close>

lemma split_prefix:
  assumes "length u \<le> length y" and "y @ b1 = u @ b2"
  obtains y2 where "y = u @ y2" and "b2 = y2 @ b1"
proof (rule that [of "drop (length u) y"])
  have u: "u = take (length u) y" "b2 = drop (length u) y @ b1"
    using assms by (auto simp: append_eq_append_conv_if split: if_splits)
  from u(1) show "y = u @ drop (length u) y" by (metis append_take_drop_id)
  show "b2 = drop (length u) y @ b1" by (rule u(2))
qed

lemma split_middle:
  assumes "length g \<le> length h" and "length h \<le> length g + length y" and "g @ y @ b1 = h @ u @ b2"
  obtains y1 y2 where "h = g @ y1" and "y = y1 @ y2" and "y2 @ b1 = u @ b2"
proof -
  obtain y1 where h: "h = g @ y1" "y @ b1 = y1 @ u @ b2" using split_prefix [OF assms(1) assms(3) [symmetric]] by metis
  then have "length y1 \<le> length y" using assms(2) by simp
  from split_prefix [OF this h(2)] h(1) that show thesis by metis
qed

lemma align_edits_correct:
  assumes "compose_inv A C s" and "cs_olds s = o1 # olds" and "cs_news s = n1 # news"
    and "\<not> new_end o1 < old_start n1" and "\<not> old_end n1 < new_start o1"
  shows "\<exists>o2 n2 s'. align_edits o1 n1 s = Some (o2, n2, s') \<and> aligned A C o2 n2 s' \<and>
    cs_olds s' = cs_olds s \<and> cs_news s' = cs_news s"
proof -
  from assms(1) obtain a a' m b c c' where inv: "A = a @ a'" "C = c @ c'" "cs_old s = length a" "cs_new s = length c"
      "explains (cs_composed s) 0 0 a c" "explains (o1 # olds) (length a) m a' b" "explains (n1 # news) m (length c) b c'"
    unfolding compose_inv_def assms(2,3) by blast
  obtain g x y a1 b1 where e: "a' = g @ x @ a1" "b = g @ y @ b1" "old_start o1 = length a + length g"
      "old_end o1 = length a + length g + length x" "new_start o1 = m + length g"
      "new_end o1 = m + length g + length y" "explains olds (old_end o1) (new_end o1) a1 b1"
    using inv(6) by (rule explains_ConsE)
  obtain h u v b2 c2 where f: "b = h @ u @ b2" "c' = h @ v @ c2" "old_start n1 = m + length h"
      "old_end n1 = m + length h + length u" "new_start n1 = length c + length h"
      "new_end n1 = length c + length h + length v" "explains news (old_end n1) (new_end n1) b2 c2"
    using inv(7) by (rule explains_ConsE)
  have split: "g @ y @ b1 = h @ u @ b2" using e(2) f(1) by simp
  show ?thesis
  proof (cases "new_start o1 < old_start n1")
    case True
    then have "length g \<le> length h" "length h \<le> length g + length y" using e f assms(4) by simp_all
    then obtain y1 y2 where y: "h = g @ y1" "y = y1 @ y2" "y2 @ b1 = u @ b2"
      using split by (rule split_middle)
    define x1 x2 where "x1 = take (length y1) x" and "x2 = drop (length y1) x"
    have x: "x = x1 @ x2" "length x1 = min (length y1) (length x)" by (simp_all add: x1_def x2_def)
    let ?s = "push_piece (length (a @ g @ x1)) (length (c @ g @ y1)) (catch_up (length g) s)"
    let ?o = "o1\<lparr>old_start := length (a @ g @ x1), new_start := m + length h\<rparr>"
    note adv = advance [OF inv(5,3,4), of g x1 y1]
    have "explains (?o # olds) (length (a @ g @ x1)) (m + length h) (x2 @ a1) (y2 @ b1)"
      using e x(1) y by (intro explains_ConsI [of _ "[]" x2 a1 _ y2 b1]) simp_all
    moreover have "explains (n1 # news) (m + length h) (length (c @ g @ y1)) (y2 @ b1) (v @ c2)"
      using f y by (intro explains_ConsI [of _ "[]" u b2 _ v c2]) (simp_all add: add.assoc)
    ultimately have "aligned A C ?o n1 ?s"
      using adv e f x(1) y inv(1,2) assms(2,3)
      by (intro alignedI [of _ "a @ g @ x1" "x2 @ a1" _ "c @ g @ y1" "v @ c2" _ _ "m + length h" _ "y2 @ b1"]) simp_all
    moreover have "align_edits o1 n1 s = Some (?o, n1, ?s)"
      using True e f x(2) y inv(3,4)
      by (simp add: align_edits_def usize_sub_def Let_def catch_up_def add.assoc min_def)
    ultimately show ?thesis using adv by blast
  next
    case False
    then have "length h \<le> length g" "length g \<le> length h + length u" using e f assms(5) by simp_all
    then obtain u1 u2 where u: "g = h @ u1" "u = u1 @ u2" "u2 @ b2 = y @ b1"
      using split [symmetric] by (rule split_middle)
    define v1 v2 where "v1 = take (length u1) v" and "v2 = drop (length u1) v"
    have v: "v = v1 @ v2" "length v1 = min (length u1) (length v)" by (simp_all add: v1_def v2_def)
    let ?s = "push_piece (length (a @ h @ u1)) (length (c @ h @ v1)) (catch_up (length h) s)"
    let ?n = "n1\<lparr>old_start := m + length g, new_start := length (c @ h @ v1)\<rparr>"
    note adv = advance [OF inv(5,3,4), of h u1 v1]
    have "explains (o1 # olds) (length (a @ h @ u1)) (m + length g) (x @ a1) (u2 @ b2)"
      using e u by (intro explains_ConsI [of _ "[]" x a1 _ y b1]) (simp_all add: add.assoc)
    moreover have "explains (?n # news) (m + length g) (length (c @ h @ v1)) (u2 @ b2) (v2 @ c2)"
      using f u v(1) by (intro explains_ConsI [of _ "[]" u2 b2 _ v2 c2]) simp_all
    ultimately have "aligned A C o1 ?n ?s"
      using adv e f u v(1) inv(1,2) assms(2,3)
      by (intro alignedI [of _ "a @ h @ u1" "x @ a1" _ "c @ h @ v1" "v2 @ c2" _ _ "m + length g" _ "u2 @ b2"]) simp_all
    moreover have "align_edits o1 n1 s = Some (o1, ?n, ?s)"
      using False e f u v(2) inv(3,4)
      by (simp add: align_edits_def usize_sub_def Let_def catch_up_def add.assoc min_def)
    ultimately show ?thesis using adv by blast
  qed
qed

lemma catch_up_0 [simp]: "catch_up 0 s = s"
  by (simp add: catch_up_def)

lemma merge_edits_correct:
  assumes "aligned A C o1 n1 s" and "cs_olds s \<noteq> []" and "cs_news s \<noteq> []"
  shows "\<exists>s'. merge_edits o1 n1 s = Some s' \<and> compose_inv A C s' \<and>
    length (cs_olds s') + length (cs_news s') < length (cs_olds s) + length (cs_news s)"
proof -
  let ?olds = "tl (cs_olds s)" and ?news = "tl (cs_news s)"
  obtain a a' m b c c' where inv: "A = a @ a'" "C = c @ c'" "cs_old s = length a" "cs_new s = length c"
      "explains (cs_composed s) 0 0 a c" "old_start o1 = length a" "new_start o1 = m" "old_start n1 = m"
      "new_start n1 = length c"
      "explains (o1 # ?olds) (length a) m a' b" "explains (n1 # ?news) m (length c) b c'"
    using assms(1) unfolding aligned_def by blast
  obtain g x y a1 b1 where "a' = g @ x @ a1" "b = g @ y @ b1" "old_start o1 = length a + length g"
      "old_end o1 = length a + length g + length x" "new_start o1 = m + length g"
      "new_end o1 = m + length g + length y" "explains ?olds (old_end o1) (new_end o1) a1 b1"
    using inv(10) by (rule explains_ConsE)
  then have e: "a' = x @ a1" "b = y @ b1" "old_end o1 = length a + length x" "new_end o1 = m + length y"
      "explains ?olds (old_end o1) (new_end o1) a1 b1" using inv(6) by simp_all
  obtain h u v b2 c2 where "b = h @ u @ b2" "c' = h @ v @ c2" "old_start n1 = m + length h"
      "old_end n1 = m + length h + length u" "new_start n1 = length c + length h"
      "new_end n1 = length c + length h + length v" "explains ?news (old_end n1) (new_end n1) b2 c2"
    using inv(11) by (rule explains_ConsE)
  then have f: "b = u @ b2" "c' = v @ c2" "old_end n1 = m + length u" "new_end n1 = length c + length v"
      "explains ?news (old_end n1) (new_end n1) b2 c2" using inv(9) by simp_all
  have split: "y @ b1 = u @ b2" using e(2) f(1) by simp
  have lens: "length (cs_olds s) = Suc (length ?olds)" "length (cs_news s) = Suc (length ?news)"
    using assms(2,3) by simp_all
  note defs = merge_edits_def usize_sub_def old_len_def new_len_def Let_def min_def
  show ?thesis
  proof (cases "old_end n1 < new_end o1")
    case True
    then have "length u \<le> length y" using e f by simp
    then obtain y2 where y: "y = u @ y2" "b2 = y2 @ b1" using split by (rule split_prefix)
    define x1 x2 where "x1 = take (length u) x" and "x2 = drop (length u) x"
    have x: "x = x1 @ x2" "length x1 = min (length u) (length x)" by (simp_all add: x1_def x2_def)
    let ?s = "push_piece (length (a @ x1)) (length (c @ v)) s"
    let ?o = "o1\<lparr>old_start := length (a @ x1), new_start := old_end n1\<rparr>"
    note adv = advance [OF inv(5,3,4), of "[]" x1 v, simplified]
    have "explains (?o # ?olds) (length (a @ x1)) (old_end n1) (x2 @ a1) b2"
      using e f x(1) y by (intro explains_ConsI [of _ "[]" x2 a1 _ y2 b1]) simp_all
    then have "compose_inv A C (?s\<lparr>cs_olds := ?o # ?olds, cs_news := ?news\<rparr>)"
      using adv e f x(1) inv(1,2)
      by (intro compose_invI [of _ "a @ x1" "x2 @ a1" _ "c @ v" c2 _ "old_end n1" b2]) simp_all
    moreover have "merge_edits o1 n1 s = Some (?s\<lparr>cs_olds := ?o # ?olds, cs_news := ?news\<rparr>)"
      using True e f x(2) inv(3-9) by (simp add: defs)
    ultimately show ?thesis using lens by simp
  next
    case False
    then have "length y \<le> length u" using e f by simp
    then obtain u2 where u: "u = y @ u2" "b1 = u2 @ b2" using split [symmetric] by (rule split_prefix)
    define v1 v2 where "v1 = take (length y) v" and "v2 = drop (length y) v"
    have v: "v = v1 @ v2" "length v1 = min (length y) (length v)" by (simp_all add: v1_def v2_def)
    let ?s = "push_piece (length (a @ x)) (length (c @ v1)) s"
    let ?n = "n1\<lparr>old_start := new_end o1, new_start := length (c @ v1)\<rparr>"
    note adv = advance [OF inv(5,3,4), of "[]" x v1, simplified]
    have "explains (?n # ?news) (new_end o1) (length (c @ v1)) b1 (v2 @ c2)"
      using e f u v(1) by (intro explains_ConsI [of _ "[]" u2 b2 _ v2 c2]) simp_all
    then have "compose_inv A C (?s\<lparr>cs_news := ?n # ?news, cs_olds := ?olds\<rparr>)"
      using adv e f v(1) inv(1,2)
      by (intro compose_invI [of _ "a @ x" a1 _ "c @ v1" "v2 @ c2" _ "new_end o1" b1]) simp_all
    moreover have "merge_edits o1 n1 s = Some (?s\<lparr>cs_news := ?n # ?news, cs_olds := ?olds\<rparr>)"
      using False e f v(2) inv(3-9) by (simp add: defs)
    ultimately show ?thesis using lens by simp
  qed
qed

text \<open>Every iteration keeps the invariant and consumes an edit, so the loop ends.\<close>

lemma compose_step_correct:
  assumes "compose_inv A C s" and "cs_olds s \<noteq> [] \<or> cs_news s \<noteq> []"
  shows "\<exists>s'. compose_step s = Some (Some s') \<and> compose_inv A C s' \<and>
    length (cs_olds s') + length (cs_news s') < length (cs_olds s) + length (cs_news s)"
proof (cases "cs_olds s")
  case Nil
  with assms(2) obtain n1 news where n: "cs_news s = n1 # news" by (cases "cs_news s") auto
  with take_new_correct [OF assms(1) n] Nil show ?thesis by (auto simp: compose_step_def)
next
  case o: (Cons o1 olds)
  show ?thesis
  proof (cases "cs_news s")
    case Nil
    with take_old_correct [OF assms(1) o] o show ?thesis by (auto simp: compose_step_def)
  next
    case n: (Cons n1 news)
    consider (old) "new_end o1 < old_start n1" | (new) "\<not> new_end o1 < old_start n1" "old_end n1 < new_start o1"
      | (both) "\<not> new_end o1 < old_start n1" "\<not> old_end n1 < new_start o1" by blast
    then show ?thesis
    proof cases
      case old
      with take_old_correct [OF assms(1) o] o n show ?thesis by (auto simp: compose_step_def)
    next
      case new
      with take_new_correct [OF assms(1) n] o n show ?thesis by (auto simp: compose_step_def)
    next
      case both
      from align_edits_correct [OF assms(1) o n both] obtain o2 n2 s1 where
        s1: "align_edits o1 n1 s = Some (o2, n2, s1)" "aligned A C o2 n2 s1" "cs_olds s1 = cs_olds s" "cs_news s1 = cs_news s"
        by blast
      from merge_edits_correct [OF s1(2)] s1(3,4) o n obtain s2 where
        "merge_edits o2 n2 s1 = Some s2" "compose_inv A C s2"
        "length (cs_olds s2) + length (cs_news s2) < length (cs_olds s) + length (cs_news s)" by auto
      with both s1(1) o n show ?thesis by (simp add: compose_step_def)
    qed
  qed
qed

lemma compose_loop_correct:
  assumes "compose_inv A C s"
  shows "\<exists>p. compose_loop s = Some p \<and> explains p 0 0 A C"
  using assms
proof (induction "length (cs_olds s) + length (cs_news s)" arbitrary: s rule: less_induct)
  case less
  show ?case
  proof (cases "cs_olds s = [] \<and> cs_news s = []")
    case True
    then have "compose_loop s = Some (cs_composed s)" by (subst compose_loop.simps) (simp add: compose_step_def)
    moreover have "explains (cs_composed s) 0 0 A C"
      using less.prems True by (auto simp: compose_inv_def intro: explains_gap)
    ultimately show ?thesis by blast
  next
    case False
    with compose_step_correct [OF less.prems] obtain s' where s': "compose_step s = Some (Some s')" "compose_inv A C s'"
        "length (cs_olds s') + length (cs_news s') < length (cs_olds s) + length (cs_news s)" by auto
    then have "compose_loop s = compose_loop s'" by (subst compose_loop.simps) simp
    with less.hyps [OF s'(3,2)] show ?thesis by simp
  qed
qed

theorem patch_compose_correct:
  assumes "explains p 0 0 A B" and "explains q 0 0 B C"
  shows "\<exists>r. patch_compose p q = Some r \<and> explains r 0 0 A C"
  unfolding patch_compose_def
  by (rule compose_loop_correct, rule compose_invI [of _ "[]" A _ "[]" C _ 0 B]) (use assms in simp_all)

text \<open>
  \<open>push\<close> joins an edit with the one before it when they touch, so the edits of a composed patch are
  apart, which is what \<open>Patch::new\<close> asserts.
\<close>

definition apart :: "patch \<Rightarrow> bool" where
  "apart p \<longleftrightarrow> successively (\<lambda>e f. old_end e < old_start f) p"

lemma patch_push_apart: "apart p \<Longrightarrow> apart (patch_push p e)"
proof (cases p rule: rev_cases)
  case (snoc es l)
  then show "apart p \<Longrightarrow> apart (patch_push p e)"
    by (auto simp: apart_def patch_push_def push_maybe_empty_def successively_append_iff)
qed (simp add: apart_def patch_push_def push_maybe_empty_def)

lemma push_piece_apart: "apart (cs_composed s) \<Longrightarrow> apart (cs_composed (push_piece oe ne s))"
  by (simp add: push_piece_def patch_push_apart)

lemma compose_step_apart:
  assumes "compose_step s = Some (Some s')" and "apart (cs_composed s)"
  shows "apart (cs_composed s')"
  using assms
  by (auto simp: compose_step_def take_old_def take_new_def align_edits_def merge_edits_def Let_def catch_up_def
      split: list.splits if_splits option.splits Option.bind_splits intro!: push_piece_apart)

lemma compose_loop_apart: "compose_loop s = Some r \<Longrightarrow> apart (cs_composed s) \<Longrightarrow> apart r"
proof (induction rule: compose_loop.raw_induct [rotated, consumes 1, case_names step])
  case (step loop s r)
  then show ?case
    by (auto split: Option.bind_splits option.splits dest: compose_step_apart)
qed

lemma apart_in_order:
  assumes "explains p i j a b" and "apart p"
  shows "edits_in_order None p \<and> (\<forall>l. old_end l = i \<and> new_end l = j \<and> (p \<noteq> [] \<longrightarrow> i < old_start (hd p)) \<longrightarrow> edits_in_order (Some l) p)"
  using assms
proof (induction p arbitrary: i j a b)
  case (Cons e p)
  from Cons.prems(1) obtain g a' b' :: "'a list" where e: "old_start e = i + length g" "new_start e = j + length g"
      "explains p (old_end e) (new_end e) a' b'" by (blast elim: explains_ConsE)
  have "apart p" "p \<noteq> [] \<longrightarrow> old_end e < old_start (hd p)"
    using Cons.prems(2) by (auto simp: apart_def successively_Cons)
  with Cons.IH [OF e(3)] e show ?case by auto
qed simp

lemma patch_compose_in_order:
  assumes "patch_compose p q = Some r" and "explains r 0 0 A C"
  shows "edits_in_order None r"
proof -
  have "apart r" using compose_loop_apart [OF assms(1) [unfolded patch_compose_def]] by (simp add: apart_def)
  with apart_in_order [OF assms(2)] show ?thesis by blast
qed

section \<open>Looking up positions\<close>
















section \<open>Subscriptions\<close>

text \<open>
  A topic holds weak references to the patches of its subscribers. The store maps the address of
  a subscription to its patch while the subscriber is alive; \<open>publish\<close> drops the dead ones.
\<close>

record topic_state =
  tp_subscriptions :: "nat list"
  tp_patches :: "nat \<Rightarrow> patch option"

definition topic_new :: topic_state where
  "topic_new = \<lparr>tp_subscriptions = [], tp_patches = (\<lambda>_. None)\<rparr>"

definition subscribe :: "nat \<Rightarrow> topic_state \<Rightarrow> topic_state" where
  "subscribe addr t = t\<lparr>tp_subscriptions := tp_subscriptions t @ [addr], tp_patches := (tp_patches t)(addr := Some [])\<rparr>"

definition unsubscribe :: "nat \<Rightarrow> topic_state \<Rightarrow> topic_state" where
  "unsubscribe addr t = t\<lparr>tp_patches := (tp_patches t)(addr := None)\<rparr>"

definition consume :: "nat \<Rightarrow> topic_state \<Rightarrow> (topic_state \<times> patch) option" where
  "consume addr t =
     (case tp_patches t addr of
        Some p \<Rightarrow> Some (t\<lparr>tp_patches := (tp_patches t)(addr := Some [])\<rparr>, p)
      | None \<Rightarrow> None)"

fun publish_loop :: "text_edit list \<Rightarrow> nat list \<Rightarrow> (nat \<Rightarrow> patch option) \<Rightarrow> (nat list \<times> (nat \<Rightarrow> patch option)) option" where
  "publish_loop edits [] ps = Some ([], ps)"
| "publish_loop edits (addr # addrs) ps =
     (case ps addr of
        Some p \<Rightarrow> do {
          q \<leftarrow> patch_compose p edits;
          (kept, ps) \<leftarrow> publish_loop edits addrs (ps(addr := Some q));
          Some (addr # kept, ps) }
      | None \<Rightarrow> publish_loop edits addrs ps)"

definition publish :: "text_edit list \<Rightarrow> topic_state \<Rightarrow> topic_state option" where
  "publish edits t = do {
     (kept, ps) \<leftarrow> publish_loop edits (tp_subscriptions t) (tp_patches t);
     Some (t\<lparr>tp_subscriptions := kept, tp_patches := ps\<rparr>) }"

text \<open>Every live subscription explains how the text it last saw became the current one.\<close>

definition topic_inv :: "(nat \<Rightarrow> 'a list) \<Rightarrow> 'a list \<Rightarrow> topic_state \<Rightarrow> bool" where
  "topic_inv seen now t \<longleftrightarrow> distinct (tp_subscriptions t) \<and>
     (\<forall>addr p. tp_patches t addr = Some p \<longrightarrow> addr \<in> set (tp_subscriptions t) \<and> explains p 0 0 (seen addr) now)"

lemma publish_loop_correct:
  assumes "distinct addrs" and "explains edits 0 0 old new"
    and "\<forall>addr \<in> set addrs. \<forall>p. ps addr = Some p \<longrightarrow> explains p 0 0 (seen addr) old"
  shows "\<exists>ps'. publish_loop edits addrs ps = Some (filter (\<lambda>addr. ps addr \<noteq> None) addrs, ps') \<and>
    (\<forall>addr. addr \<notin> set addrs \<longrightarrow> ps' addr = ps addr) \<and>
    (\<forall>addr \<in> set addrs. (ps' addr = None \<longleftrightarrow> ps addr = None) \<and>
       (\<forall>p. ps' addr = Some p \<longrightarrow> explains p 0 0 (seen addr) new))"
  using assms
proof (induction addrs arbitrary: ps)
  case (Cons addr addrs)
  show ?case
  proof (cases "ps addr")
    case None
    from Cons.IH [OF _ Cons.prems(2), of ps] Cons.prems obtain ps' where
      "publish_loop edits addrs ps = Some (filter (\<lambda>a. ps a \<noteq> None) addrs, ps')"
      "\<forall>a. a \<notin> set addrs \<longrightarrow> ps' a = ps a"
      "\<forall>a \<in> set addrs. (ps' a = None \<longleftrightarrow> ps a = None) \<and> (\<forall>p. ps' a = Some p \<longrightarrow> explains p 0 0 (seen a) new)"
      by auto
    with None Cons.prems(1) show ?thesis by auto
  next
    case (Some p)
    then have "explains p 0 0 (seen addr) old" using Cons.prems(3) by simp
    from patch_compose_correct [OF this Cons.prems(2)] obtain q where
      q: "patch_compose p edits = Some q" "explains q 0 0 (seen addr) new" by blast
    define ps1 where "ps1 = ps(addr := Some q)"
    have "\<forall>a \<in> set addrs. \<forall>p. ps1 a = Some p \<longrightarrow> explains p 0 0 (seen a) old"
      using Cons.prems(1,3) by (auto simp: ps1_def)
    with Cons.IH [OF _ Cons.prems(2), of ps1] Cons.prems(1) obtain ps' where
      ps': "publish_loop edits addrs ps1 = Some (filter (\<lambda>a. ps1 a \<noteq> None) addrs, ps')"
        "\<forall>a. a \<notin> set addrs \<longrightarrow> ps' a = ps1 a"
        "\<forall>a \<in> set addrs. (ps' a = None \<longleftrightarrow> ps1 a = None) \<and> (\<forall>p. ps' a = Some p \<longrightarrow> explains p 0 0 (seen a) new)"
      by auto
    have "filter (\<lambda>a. ps1 a \<noteq> None) addrs = filter (\<lambda>a. ps a \<noteq> None) addrs"
      using Cons.prems(1) by (intro filter_cong) (auto simp: ps1_def)
    then have "publish_loop edits (addr # addrs) ps = Some (filter (\<lambda>a. ps a \<noteq> None) (addr # addrs), ps')"
      using Some q(1) ps'(1) by (simp add: ps1_def)
    with Some q(2) ps'(2,3) Cons.prems(1) show ?thesis by (intro exI [of _ ps']) (auto simp: ps1_def)
  qed
qed simp

lemma publish_correct:
  assumes "topic_inv seen old t" and "explains edits 0 0 old new"
  shows "\<exists>t'. publish edits t = Some t' \<and> topic_inv seen new t'"
proof -
  from publish_loop_correct [OF _ assms(2), of "tp_subscriptions t" "tp_patches t" seen] assms(1)
  obtain ps' where ps': "publish_loop edits (tp_subscriptions t) (tp_patches t) =
        Some (filter (\<lambda>addr. tp_patches t addr \<noteq> None) (tp_subscriptions t), ps')"
      "\<forall>addr. addr \<notin> set (tp_subscriptions t) \<longrightarrow> ps' addr = tp_patches t addr"
      "\<forall>addr \<in> set (tp_subscriptions t). (ps' addr = None \<longleftrightarrow> tp_patches t addr = None) \<and>
         (\<forall>p. ps' addr = Some p \<longrightarrow> explains p 0 0 (seen addr) new)"
    by (auto simp: topic_inv_def)
  have "addr \<in> set (tp_subscriptions t) \<and> tp_patches t addr \<noteq> None \<and> explains p 0 0 (seen addr) new"
    if "ps' addr = Some p" for addr p
  proof (cases "addr \<in> set (tp_subscriptions t)")
    case True
    with ps'(3) that show ?thesis by (metis option.distinct(1))
  next
    case False
    with ps'(2) that have "tp_patches t addr = Some p" by simp
    with assms(1) False show ?thesis by (auto simp: topic_inv_def)
  qed
  with ps'(1) assms(1) show ?thesis by (auto simp: publish_def topic_inv_def)
qed

lemma subscribe_correct:
  assumes "topic_inv seen now t" and "addr \<notin> set (tp_subscriptions t)"
  shows "topic_inv (seen(addr := now)) now (subscribe addr t)"
  using assms by (auto simp: topic_inv_def subscribe_def)

lemma consume_correct:
  assumes "topic_inv seen now t" and "tp_patches t addr \<noteq> None"
  shows "\<exists>t' p. consume addr t = Some (t', p) \<and> explains p 0 0 (seen addr) now \<and> topic_inv (seen(addr := now)) now t'"
  using assms by (auto simp: topic_inv_def consume_def)

section \<open>Changes that compose\<close>

text \<open>
  What a subscriber relies on: changes between states that can be composed one after the other.
\<close>

locale composable_changes =
  fixes means :: "'p \<Rightarrow> 't \<Rightarrow> 't \<Rightarrow> bool" and unchanged :: 'p and compose :: "'p \<Rightarrow> 'p \<Rightarrow> 'p option"
  assumes unchanged_means: "means unchanged t t"
    and compose_means: "means p a b \<Longrightarrow> means q b c \<Longrightarrow> \<exists>r. compose p q = Some r \<and> means r a c"
begin

fun history :: "'p list \<Rightarrow> 't \<Rightarrow> 't \<Rightarrow> bool" where
  "history [] a b \<longleftrightarrow> a = b"
| "history (p # ps) a c \<longleftrightarrow> (\<exists>b. means p a b \<and> history ps b c)"

fun compose_all :: "'p \<Rightarrow> 'p list \<Rightarrow> 'p option" where
  "compose_all p [] = Some p"
| "compose_all p (q # qs) = do { r \<leftarrow> compose p q; compose_all r qs }"

lemma compose_all_means:
  assumes "means p a b" and "history ps b c"
  shows "\<exists>r. compose_all p ps = Some r \<and> means r a c"
  using assms
proof (induction ps arbitrary: p b)
  case (Cons q qs)
  then obtain b' where "means q b b'" "history qs b' c" by auto
  with compose_means [OF Cons.prems(1)] Cons.IH show ?case by fastforce
qed simp

lemma history_composes:
  assumes "history ps a c"
  shows "\<exists>r. compose_all unchanged ps = Some r \<and> means r a c"
  using compose_all_means [OF unchanged_means assms] .

end

interpretation patches: composable_changes "\<lambda>p. explains p 0 0" patch_empty patch_compose
  by unfold_locales (simp_all add: patch_empty_def patch_compose_correct)

text \<open>A subscriber that consumes after a series of publications gets the composition of all of them.\<close>

fun publish_all :: "patch list \<Rightarrow> topic_state \<Rightarrow> topic_state option" where
  "publish_all [] t = Some t"
| "publish_all (q # qs) t = do { t \<leftarrow> publish q t; publish_all qs t }"

lemma publish_keeps_alive:
  assumes "topic_inv seen old t" and "explains q 0 0 old new" and "publish q t = Some t'"
  shows "tp_patches t' addr = None \<longleftrightarrow> tp_patches t addr = None"
proof -
  from publish_loop_correct [OF _ assms(2), of "tp_subscriptions t" "tp_patches t" seen] assms(1)
  obtain ps' where ps': "publish_loop q (tp_subscriptions t) (tp_patches t) =
        Some (filter (\<lambda>addr. tp_patches t addr \<noteq> None) (tp_subscriptions t), ps')"
      "\<forall>addr. addr \<notin> set (tp_subscriptions t) \<longrightarrow> ps' addr = tp_patches t addr"
      "\<forall>addr \<in> set (tp_subscriptions t). ps' addr = None \<longleftrightarrow> tp_patches t addr = None"
    by (auto simp: topic_inv_def)
  with assms(3) show ?thesis by (cases "addr \<in> set (tp_subscriptions t)") (auto simp: publish_def)
qed

lemma publish_all_correct:
  assumes "topic_inv seen old t" and "patches.history qs old new" and "tp_patches t addr \<noteq> None"
  shows "\<exists>t'. publish_all qs t = Some t' \<and> topic_inv seen new t' \<and> tp_patches t' addr \<noteq> None"
  using assms
proof (induction qs arbitrary: t old)
  case (Cons q qs)
  then obtain mid where mid: "explains q 0 0 old mid" "patches.history qs mid new" by auto
  from publish_correct [OF Cons.prems(1) mid(1)] obtain t1 where
    t1: "publish q t = Some t1" "topic_inv seen mid t1" by blast
  with Cons.IH [OF t1(2) mid(2)] publish_keeps_alive [OF Cons.prems(1) mid(1) t1(1)] Cons.prems(3) show ?case by simp
qed simp

section \<open>Everything that can happen to a topic\<close>

text \<open>
  The states of a topic, with the current text and the text each subscription saw when it was taken out or last
  consumed. The vector of the topic holds weak references, which keep the address of a dropped subscription from
  being used again until the next publication removes it: a new subscription has an address that is not in the vector.
\<close>

inductive topic_reachable :: "'a list \<Rightarrow> (nat \<Rightarrow> 'a list) \<Rightarrow> topic_state \<Rightarrow> bool" where
  new: "topic_reachable now (\<lambda>_. []) topic_new"
| subscribe: "topic_reachable now seen t \<Longrightarrow> addr \<notin> set (tp_subscriptions t) \<Longrightarrow>
    topic_reachable now (seen(addr := now)) (subscribe addr t)"
| unsubscribe: "topic_reachable now seen t \<Longrightarrow> topic_reachable now seen (unsubscribe addr t)"
| publish: "topic_reachable now seen t \<Longrightarrow> explains edits 0 0 now later \<Longrightarrow> publish edits t = Some t' \<Longrightarrow>
    topic_reachable later seen t'"
| consume: "topic_reachable now seen t \<Longrightarrow> consume addr t = Some (t', p) \<Longrightarrow>
    topic_reachable now (seen(addr := now)) t'"

lemma unsubscribe_correct: "topic_inv seen now t \<Longrightarrow> topic_inv seen now (unsubscribe addr t)"
  by (auto simp: topic_inv_def unsubscribe_def split: if_splits)

lemma topic_reachable_inv: "topic_reachable now seen t \<Longrightarrow> topic_inv seen now t"
proof (induction rule: topic_reachable.induct)
  case (new now)
  show ?case by (simp add: topic_inv_def topic_new_def)
next
  case (publish now seen t edits later t')
  with publish_correct show ?case by fastforce
next
  case (consume now seen t addr t' p)
  then have "tp_patches t addr \<noteq> None" by (auto simp: consume_def split: option.splits)
  from consume_correct [OF consume.IH this] consume.hyps(2) show ?case by (auto simp: fun_upd_def)
qed (blast intro: subscribe_correct unsubscribe_correct)+

lemma publish_all_reachable:
  assumes "topic_reachable old seen t" and "patches.history qs old new" and "publish_all qs t = Some t'"
  shows "topic_reachable new seen t'"
  using assms
proof (induction qs arbitrary: t old)
  case (Cons q qs)
  then obtain mid where mid: "explains q 0 0 old mid" "patches.history qs mid new" by auto
  from Cons.prems(3) obtain t1 where "publish q t = Some t1" "publish_all qs t1 = Some t'" by (auto split: bind_splits)
  with Cons.IH [OF topic_reachable.publish [OF Cons.prems(1) mid(1)] mid(2)] show ?case by blast
qed simp

lemma consume_keeps:
  assumes "topic_inv seen now t" and "consume addr t = Some (t', p)"
  shows "addr \<in> set (tp_subscriptions t') \<and> tp_patches t' addr = Some [] \<and>
    (\<forall>other. other \<noteq> addr \<longrightarrow> tp_patches t' other = tp_patches t other)"
  using assms by (auto simp: topic_inv_def consume_def split: option.splits)

section \<open>Theorems\<close>

text \<open>The texts of the examples: \<open>abcd\<close> becomes \<open>axd\<close>, then \<open>axyd\<close>.\<close>

lemma example_explains:
  "explains [make_edit 1 3 1 2] 0 0 [97, 98, 99, 100] [97, 120, 100 :: nat]"
  "explains [make_edit 2 2 2 3] 0 0 [97, 120, 100] [97, 120, 121, 100 :: nat]"
  by (rule explains_ConsI [of _ "[97]" "[98, 99]" "[100]" _ "[120]" "[100]"]; simp)
    (rule explains_ConsI [of _ "[97, 120]" "[]" "[100]" _ "[121]" "[100]"]; simp)

text \<open>
  C13 \<open>Patch::compose\<close> returns, without an underflow, for any two patches between texts \<open>A\<close>, \<open>B\<close>
  and \<open>C\<close>, and the result explains how \<open>A\<close> became \<open>C\<close>: outside its edits the texts agree, at the
  positions it gives, however the edits of the two patches overlap or touch. Its edits are in
  order and apart, so the assertions of \<open>Patch::new\<close> hold of it.
\<close>

theorem compose_explains:
  assumes "explains p 0 0 A B" and "explains q 0 0 B C"
  shows "\<exists>r. patch_compose p q = Some r \<and> explains r 0 0 A C \<and> patch_new r = Some r"
proof -
  from patch_compose_correct [OF assms] obtain r where r: "patch_compose p q = Some r" "explains r 0 0 A C" by blast
  with patch_compose_in_order [OF r] show ?thesis by (simp add: patch_new_def)
qed

theorem compose_explains_witness:
  "\<exists>r. patch_compose [make_edit 1 3 1 2] [make_edit 2 2 2 3] = Some r \<and>
     explains r 0 0 [97, 98, 99, 100] [97, 120, 121, 100 :: nat] \<and> patch_new r = Some r"
  using compose_explains [OF example_explains] .



text \<open>
  C34 Inverting a patch swaps the texts it explains, and inverting twice is the identity.
\<close>

theorem invert_swaps: "patch_invert (patch_invert p) = p \<and> (explains (patch_invert p) 0 0 B A \<longleftrightarrow> explains p 0 0 A B)"
  using explains_invert by simp

text \<open>
  C14 Whenever a topic has been used in any order (subscribing, dropping subscriptions, publishing, consuming),
  a live subscription that is consumed after any further series of publications yields a patch that explains
  how the text became the current one since that subscription was taken out or last consumed. None of the
  calls fails; the subscription stays attached and starts afresh, and the other subscribers' patches are left alone,
  so the same holds of the next round.
\<close>

theorem subscription_explains:
  assumes "topic_reachable old seen t" and "tp_patches t addr \<noteq> None" and "patches.history qs old new"
  shows "\<exists>t1 t2 p. publish_all qs t = Some t1 \<and> consume addr t1 = Some (t2, p) \<and> explains p 0 0 (seen addr) new \<and>
    topic_reachable new (seen(addr := new)) t2 \<and> topic_inv (seen(addr := new)) new t2 \<and>
    addr \<in> set (tp_subscriptions t2) \<and> tp_patches t2 addr = Some [] \<and>
    (\<forall>other. other \<noteq> addr \<longrightarrow> tp_patches t2 other = tp_patches t1 other)"
proof -
  obtain t1 where t1: "publish_all qs t = Some t1" "topic_inv seen new t1" "tp_patches t1 addr \<noteq> None"
    using publish_all_correct [OF topic_reachable_inv [OF assms(1)] assms(3,2)] by blast
  note reached = publish_all_reachable [OF assms(1,3) t1(1)]
  obtain t2 p where t2: "consume addr t1 = Some (t2, p)" "explains p 0 0 (seen addr) new" "topic_inv (seen(addr := new)) new t2"
    using consume_correct [OF t1(2,3)] by blast
  from topic_reachable.consume [OF reached t2(1)] t1(1) t2 consume_keeps [OF t1(2) t2(1)] show ?thesis by blast
qed

theorem subscription_explains_witness:
  "\<exists>t1 t2 p. publish_all [[make_edit 1 3 1 2]] (subscribe 7 topic_new) = Some t1 \<and> consume 7 t1 = Some (t2, p) \<and>
     explains p 0 0 [97, 98, 99, 100] [97, 120, 100 :: nat] \<and>
     (\<exists>t3 t4 q. publish_all [[make_edit 2 2 2 3]] t2 = Some t3 \<and> consume 7 t3 = Some (t4, q) \<and>
        explains q 0 0 [97, 120, 100] [97, 120, 121, 100 :: nat])"
proof -
  have start: "topic_reachable [97, 98, 99, 100 :: nat] ((\<lambda>_. [])(7 := [97, 98, 99, 100])) (subscribe 7 topic_new)"
    by (rule topic_reachable.subscribe [OF topic_reachable.new]) (simp add: topic_new_def)
  let ?saw = "((\<lambda>_. [])(7 := [97, 98, 99, 100 :: nat])) :: nat \<Rightarrow> nat list"
  have "tp_patches (subscribe 7 topic_new) 7 \<noteq> None" by (simp add: subscribe_def)
  moreover have "patches.history [[make_edit 1 3 1 2]] [97, 98, 99, 100] [97, 120, 100 :: nat]"
    using example_explains(1) by simp
  ultimately obtain t1 t2 p where first: "publish_all [[make_edit 1 3 1 2]] (subscribe 7 topic_new) = Some t1"
      "consume 7 t1 = Some (t2, p)" "explains p 0 0 (?saw 7) [97, 120, 100 :: nat]"
      "topic_reachable [97, 120, 100 :: nat] (?saw(7 := [97, 120, 100])) t2" "tp_patches t2 7 = Some []"
    using subscription_explains [OF start] by blast
  have "patches.history [[make_edit 2 2 2 3]] [97, 120, 100] [97, 120, 121, 100 :: nat]" using example_explains(2) by simp
  moreover have "tp_patches t2 7 \<noteq> None" using first(5) by simp
  ultimately obtain t3 t4 q where "publish_all [[make_edit 2 2 2 3]] t2 = Some t3" "consume 7 t3 = Some (t4, q)"
      "explains q 0 0 ((?saw(7 := [97, 120, 100])) 7) [97, 120, 121, 100 :: nat]"
    using subscription_explains [OF first(4)] by blast
  with first(1-3) show ?thesis by auto
qed

end
