(* ===== verification/Selection.thy ===== *)
theory Selection
  imports Sum_Tree_Access
begin

text \<open>
  The crate \<open>text\<close>, file \<open>selection.rs\<close>: a selection is a range with an orientation. Its head is the
  end the user moves, its tail the other; \<open>reversed\<close> says that the head is the start. The goal
  column of the editor is carried along unchanged, so its type is a parameter.
\<close>

section \<open>Model\<close>

record ('t, 'g) selection =
  sel_id :: nat
  sel_start :: 't
  sel_end :: 't
  reversed :: bool
  goal :: 'g

definition sel_head :: "('t, 'g) selection \<Rightarrow> 't" where
  "sel_head s = (if reversed s then sel_start s else sel_end s)"

definition sel_tail :: "('t, 'g) selection \<Rightarrow> 't" where
  "sel_tail s = (if reversed s then sel_end s else sel_start s)"

definition sel_map :: "('t \<Rightarrow> 'u) \<Rightarrow> ('t, 'g) selection \<Rightarrow> ('u, 'g) selection" where
  "sel_map f s = \<lparr>sel_id = sel_id s, sel_start = f (sel_start s), sel_end = f (sel_end s),
     reversed = reversed s, goal = goal s\<rparr>"

definition collapse_to :: "'t \<Rightarrow> 'g \<Rightarrow> ('t, 'g) selection \<Rightarrow> ('t, 'g) selection" where
  "collapse_to point new_goal s =
     s\<lparr>sel_start := point, sel_end := point, goal := new_goal, reversed := False\<rparr>"

definition sel_is_empty :: "('t, 'g) selection \<Rightarrow> bool" where
  "sel_is_empty s = (sel_start s = sel_end s)"

definition set_head :: "'t::linorder \<Rightarrow> 'g \<Rightarrow> ('t, 'g) selection \<Rightarrow> ('t, 'g) selection" where
  "set_head head new_goal s =
     (let s = (if cmp head (sel_tail s) = Less
               then (let s = (if \<not> reversed s then s\<lparr>sel_end := sel_start s, reversed := True\<rparr> else s)
                     in s\<lparr>sel_start := head\<rparr>)
               else (let s = (if reversed s then s\<lparr>sel_start := sel_end s, reversed := False\<rparr> else s)
                     in s\<lparr>sel_end := head\<rparr>))
      in s\<lparr>goal := new_goal\<rparr>)"

definition set_tail :: "'t::linorder \<Rightarrow> 'g \<Rightarrow> ('t, 'g) selection \<Rightarrow> ('t, 'g) selection" where
  "set_tail tail new_goal s =
     (let s = (if cmp tail (sel_head s) \<noteq> Greater
               then (let s = (if reversed s then s\<lparr>sel_end := sel_start s, reversed := False\<rparr> else s)
                     in s\<lparr>sel_start := tail\<rparr>)
               else (let s = (if \<not> reversed s then s\<lparr>sel_start := sel_end s, reversed := True\<rparr> else s)
                     in s\<lparr>sel_end := tail\<rparr>))
      in s\<lparr>goal := new_goal\<rparr>)"

definition set_head_tail :: "'t::linorder \<Rightarrow> 't \<Rightarrow> 'g \<Rightarrow> ('t, 'g) selection \<Rightarrow> ('t, 'g) selection" where
  "set_head_tail head tail new_goal s =
     (if head < tail then s\<lparr>reversed := True, sel_start := head, sel_end := tail, goal := new_goal\<rparr>
      else s\<lparr>reversed := False, sel_start := tail, sel_end := head, goal := new_goal\<rparr>)"

definition swap_head_tail :: "('t, 'g) selection \<Rightarrow> ('t, 'g) selection" where
  "swap_head_tail s =
     (if reversed s then s\<lparr>reversed := False\<rparr> else s\<lparr>sel_start := sel_end s, sel_end := sel_start s\<rparr>)"

definition sel_range :: "('t, 'g) selection \<Rightarrow> 't \<times> 't" where
  "sel_range s = (sel_start s, sel_end s)"

definition sel_equals :: "'t \<times> 't \<Rightarrow> ('t, 'g) selection \<Rightarrow> bool" where
  "sel_equals r s \<longleftrightarrow> sel_start s = fst r \<and> sel_end s = snd r"

section \<open>The order of the ends\<close>

definition sel_ok :: "('t::linorder, 'g) selection \<Rightarrow> bool" where
  "sel_ok s \<longleftrightarrow> sel_start s \<le> sel_end s"

lemmas sel_defs = sel_ok_def sel_head_def sel_tail_def set_head_def set_tail_def set_head_tail_def
  collapse_to_def swap_head_tail_def Let_def

lemma set_head_correct:
  assumes "sel_ok s"
  shows "sel_head (set_head h g s) = h \<and> sel_tail (set_head h g s) = sel_tail s \<and> sel_ok (set_head h g s)"
  using assms by (auto simp: sel_defs)

lemma set_tail_correct:
  assumes "sel_ok s"
  shows "sel_tail (set_tail t g s) = t \<and> sel_head (set_tail t g s) = sel_head s \<and> sel_ok (set_tail t g s)"
  using assms by (auto simp: sel_defs cmp_def)

text \<open>
  Moving the head or the tail of a selection, setting both or collapsing it keeps the start at or
  before the end whatever the new position, moves exactly the named end, and flips the
  orientation when the ends cross.
\<close>

theorem selection_ends:
  assumes "sel_ok s"
  shows "sel_ok (set_head h g s) \<and> sel_head (set_head h g s) = h \<and> sel_tail (set_head h g s) = sel_tail s \<and>
    sel_ok (set_tail t g s) \<and> sel_tail (set_tail t g s) = t \<and> sel_head (set_tail t g s) = sel_head s \<and>
    sel_ok (set_head_tail h t g s) \<and> sel_head (set_head_tail h t g s) = h \<and> sel_tail (set_head_tail h t g s) = t \<and>
    sel_ok (collapse_to h g s) \<and> sel_head (collapse_to h g s) = h \<and> sel_is_empty (collapse_to h g s)"
  using set_head_correct [OF assms, of h g] set_tail_correct [OF assms, of t g]
  by (auto simp: sel_defs sel_is_empty_def)

text \<open>
  \<open>swap_head_tail\<close> exchanges head and tail, but on a selection that is not reversed it does so by
  exchanging the ends without marking it reversed, so a non-empty one is left with its start after
  its end.
\<close>

theorem swap_head_tail_ends:
  assumes "sel_ok s"
  shows "sel_head (swap_head_tail s) = sel_tail s \<and> sel_tail (swap_head_tail s) = sel_head s \<and>
    (sel_ok (swap_head_tail s) \<longleftrightarrow> reversed s \<or> sel_is_empty s)"
  using assms by (auto simp: sel_defs sel_is_empty_def)

end
