(* ===== verification/Bitmap.thy ===== *)
theory Bitmap
  imports Prelude
begin

text \<open>
  Counting and selecting bits, as the crate \<open>rope\<close> does in \<open>chunk.rs\<close>: the intrinsics of the standard
  library, masks, and \<open>nth_set_bit\<close>, which finds the position of the n-th set bit without a loop.
  A bitmap is read as the list of its bits, so that shifting, masking and counting become
  dropping, taking and filtering.
\<close>

section \<open>Intrinsics\<close>

definition bits_of :: "'w::len word \<Rightarrow> bool list" where
  "bits_of w = map (bit w) [0..<LENGTH('w)]"

definition count_ones :: "'w::len word \<Rightarrow> nat" where
  "count_ones w = length (filter id (bits_of w))"

definition trailing_zeros :: "'w::len word \<Rightarrow> nat" where
  "trailing_zeros w = length (takeWhile Not (bits_of w))"

definition leading_zeros :: "'w::len word \<Rightarrow> nat" where
  "leading_zeros w = length (takeWhile Not (rev (bits_of w)))"

definition reverse_bits :: "'w::len word \<Rightarrow> 'w word" where
  "reverse_bits w = word_reverse w"

text \<open>A shift by the width or more panics in a debug build; \<open>unbounded_shl\<close> yields zero, as \<open>push_bit\<close> does.\<close>

definition shl :: "'w::len word \<Rightarrow> nat \<Rightarrow> 'w word option" where
  "shl w n = (if n < LENGTH('w) then Some (push_bit n w) else None)"

definition shr :: "'w::len word \<Rightarrow> nat \<Rightarrow> 'w word option" where
  "shr w n = (if n < LENGTH('w) then Some (drop_bit n w) else None)"

type_synonym bitmap = "128 word"

definition saturating_shl_mask :: "nat \<Rightarrow> bitmap" where
  "saturating_shl_mask offset = push_bit offset 1 - 1"

definition saturating_shr_mask :: "nat \<Rightarrow> bitmap" where
  "saturating_shr_mask offset = NOT (drop_bit offset (- 1))"

section \<open>Bitmaps as lists of bits\<close>

definition bitmap_of :: "bool list \<Rightarrow> 'w::len word" where
  "bitmap_of bs = horner_sum of_bool 2 bs"

lemma bit_bitmap_of: "bit (bitmap_of bs :: 'w::len word) n \<longleftrightarrow> n < LENGTH('w) \<and> n < length bs \<and> bs ! n"
  by (auto simp: bitmap_of_def bit_horner_sum_bit_word_iff)

lemma length_bits_of [simp]: "length (bits_of (w :: 'w::len word)) = LENGTH('w)"
  by (simp add: bits_of_def)

lemma bits_of_nth [simp]: "i < LENGTH('w) \<Longrightarrow> bits_of (w :: 'w::len word) ! i = bit w i"
  by (simp add: bits_of_def)

lemma bitmap_of_bits_of: "bitmap_of (bits_of w) = w"
  by (rule bit_eqI) (auto simp: bit_bitmap_of dest: bit_imp_le_length)

lemma bits_of_bitmap_of:
  assumes "length bs \<le> LENGTH('w)"
  shows "bits_of (bitmap_of bs :: 'w::len word) = bs @ replicate (LENGTH('w) - length bs) False"
  using assms by (intro nth_equalityI) (auto simp: bit_bitmap_of nth_append)

lemma bitmap_of_append:
  "bitmap_of (xs @ ys) = bitmap_of xs OR push_bit (length xs) (bitmap_of ys :: 'w::len word)"
  by (rule bit_eqI) (auto simp: bit_bitmap_of bit_simps nth_append)

lemma bitmap_of_padded: "bitmap_of (xs @ replicate n False) = bitmap_of xs"
  by (rule bit_eqI) (auto simp: bit_bitmap_of nth_append)

lemma bitmap_of_Nil [simp]: "bitmap_of [] = 0"
  by (simp add: bitmap_of_def)

lemma drop_bitmap_of:
  assumes "length bs \<le> LENGTH('w)"
  shows "drop_bit n (bitmap_of bs :: 'w::len word) = bitmap_of (drop n bs)"
  using assms by (intro bit_eqI) (auto simp: bit_bitmap_of bit_simps)

lemma low_mask: "push_bit n 1 - 1 = (mask n :: 'w::len word)"
  by (simp add: mask_eq_exp_minus_1)

lemma mask_bitmap_of: "bitmap_of bs AND (push_bit n 1 - 1) = (bitmap_of (take n bs) :: 'w::len word)"
  unfolding low_mask by (rule bit_eqI) (auto simp: bit_bitmap_of bit_simps)

lemma mask_bitmap_of_exp: "bitmap_of bs AND (2 ^ n - 1) = (bitmap_of (take n bs) :: 'w::len word)"
  using mask_bitmap_of [of bs n] by simp

lemma high_mask_bitmap_of:
  assumes "length bs \<le> 128"
  shows "bitmap_of bs AND saturating_shr_mask n = bitmap_of (replicate (128 - n) False @ drop (128 - n) bs)"
  using assms by (intro bit_eqI) (auto simp: bit_bitmap_of bit_simps nth_append saturating_shr_mask_def)

lemma count_ones_bitmap_of:
  "length bs \<le> LENGTH('w) \<Longrightarrow> count_ones (bitmap_of bs :: 'w::len word) = length (filter id bs)"
  by (simp add: count_ones_def bits_of_bitmap_of)

lemma takeWhile_Not_append_False:
  "takeWhile Not (bs @ replicate n False) = takeWhile Not bs @ (if True \<in> set bs then [] else replicate n False)"
  by (induction bs) (auto simp: takeWhile_eq_all_conv)

lemma takeWhile_Not_length: "length (takeWhile Not bs) < length bs \<longleftrightarrow> True \<in> set bs"
  by (induction bs) auto

lemma trailing_zeros_bitmap_of:
  assumes "length bs \<le> LENGTH('w)"
  shows "trailing_zeros (bitmap_of bs :: 'w::len word) =
    (if True \<in> set bs then length (takeWhile Not bs) else LENGTH('w))"
proof -
  have "True \<notin> set bs \<Longrightarrow> length (takeWhile Not bs) = length bs"
    using takeWhile_Not_length [of bs] length_takeWhile_le [of Not bs] by linarith
  with assms show ?thesis by (auto simp: trailing_zeros_def bits_of_bitmap_of takeWhile_Not_append_False)
qed

lemma takeWhile_Not_False_append: "takeWhile Not (replicate n False @ bs) = replicate n False @ takeWhile Not bs"
  by (induction n) auto

lemma leading_zeros_bitmap_of:
  assumes "length bs \<le> LENGTH('w)"
  shows "leading_zeros (bitmap_of bs :: 'w::len word) = LENGTH('w) - length bs + length (takeWhile Not (rev bs))"
  using assms by (simp add: leading_zeros_def bits_of_bitmap_of takeWhile_Not_False_append)

lemma leading_zeros_upto: "LENGTH('w) - leading_zeros (w :: 'w::len word) \<le> LENGTH('w)"
  by simp

lemma bitmap_of_zero_iff:
  "length bs \<le> LENGTH('w) \<Longrightarrow> (bitmap_of bs :: 'w::len word) = 0 \<longleftrightarrow> True \<notin> set bs"
  by (auto simp: bit_eq_iff bit_bitmap_of in_set_conv_nth)

lemmas bitmap_simps = mask_bitmap_of mask_bitmap_of_exp drop_bitmap_of count_ones_bitmap_of trailing_zeros_bitmap_of
  leading_zeros_bitmap_of bitmap_of_zero_iff

section \<open>Selecting a set bit\<close>

text \<open>
  \<open>nth_set_bit_u64\<close>: the bits are reversed, the numbers of set bits in ever larger fields are computed
  in parallel, and the field with the wanted bit is found by bisection without branches. The
  subtractions wrap; on the arguments the callers use none of them underflows.
\<close>

definition select_step :: "nat \<Rightarrow> u64 \<Rightarrow> u64 \<times> u64 \<Rightarrow> u64 \<times> u64" where
  "select_step k t sn =
     (let (s, n) = sn
      in (s - drop_bit k ((t - n) AND 256), n - (t AND drop_bit 8 (t - n))))"

definition field_counts :: "u64 \<Rightarrow> u64 \<times> u64 \<times> u64 \<times> u64" where
  "field_counts v =
     (let a = v - (drop_bit 1 v AND 0x5555555555555555);
          b = (a AND 0x3333333333333333) + (drop_bit 2 a AND 0x3333333333333333);
          c = (b + drop_bit 4 b) AND 0x0F0F0F0F0F0F0F0F;
          d = (c + drop_bit 8 c) AND 0x00FF00FF00FF00FF
      in (a, b, c, d))"

definition nth_set_bit_u64 :: "u64 \<Rightarrow> u64 \<Rightarrow> u64" where
  "nth_set_bit_u64 v n =
     (let v = reverse_bits v;
          (a, b, c, d) = field_counts v;
          (s, n) = select_step 3 (drop_bit 32 d + drop_bit 48 d) (64, n);
          (s, n) = select_step 4 (drop_bit (unat (s - 16)) d AND 0xff) (s, n);
          (s, n) = select_step 5 (drop_bit (unat (s - 8)) c AND 0xf) (s, n);
          (s, n) = select_step 6 (drop_bit (unat (s - 4)) b AND 0x7) (s, n);
          (s, n) = select_step 7 (drop_bit (unat (s - 2)) a AND 0x3) (s, n);
          t = drop_bit (unat (s - 1)) v AND 0x1;
          s = s - drop_bit 8 ((t - n) AND 256)
      in 65 - s - 1)"

definition nth_set_bit :: "bitmap \<Rightarrow> nat \<Rightarrow> nat" where
  "nth_set_bit v n =
     (let low = ucast v :: u64;
          high = ucast (drop_bit 64 v) :: u64;
          low_count = count_ones low
      in if low_count < n then 64 + unat (nth_set_bit_u64 high (of_nat (n - low_count)))
         else unat (nth_set_bit_u64 low (of_nat n)))"

text \<open>The fields of a word, each of the same width, are the digits of its value.\<close>

definition field :: "nat \<Rightarrow> u64 \<Rightarrow> nat \<Rightarrow> nat" where
  "field w x i = unat (take_bit w (drop_bit (w * i) x))"

lemma field_div_mod: "field w x i = unat x div (2 ^ w) ^ i mod 2 ^ w"
proof -
  have "field w x i = take_bit w (unat (drop_bit (w * i) x))" by (simp add: field_def unsigned_take_bit_eq)
  then show ?thesis by (simp only: unat_drop_bit_eq) (simp add: drop_bit_eq_div take_bit_eq_mod power_mult)
qed

lemma digits_sum:
  fixes x :: nat
  assumes "0 < B"
  shows "x mod B ^ n = (\<Sum>i<n. (x div B ^ i mod B) * B ^ i)"
proof (induction n)
  case (Suc n)
  have "x mod B ^ Suc n = B ^ n * (x div B ^ n mod B) + x mod B ^ n" 
    using mod_mult2_eq [of x "B ^ n" B] by (simp add: mult.commute)
  with Suc show ?case by simp
qed simp

lemma digit_of_sum:
  fixes d :: "nat \<Rightarrow> nat"
  assumes "\<forall>i<n. d i < B" and "k < n"
  shows "(\<Sum>i<n. d i * B ^ i) div B ^ k mod B = d k"
  using assms
proof (induction n arbitrary: k d)
  case (Suc n)
  have B: "0 < B" using Suc.prems by (metis gr_zeroI not_less_zero zero_less_Suc)
  have split: "(\<Sum>i<Suc n. d i * B ^ i) = d 0 + B * (\<Sum>i<n. d (Suc i) * B ^ i)"
    by (simp add: sum.lessThan_Suc_shift sum_distrib_left ac_simps del: sum.lessThan_Suc)
  show ?case
  proof (cases k)
    case 0
    with Suc.prems split show ?thesis by simp
  next
    case (Suc j)
    have "(\<Sum>i<Suc n. d i * B ^ i) div B ^ k = (\<Sum>i<n. d (Suc i) * B ^ i) div B ^ j"
      using B Suc.prems split by (simp add: Suc div_mult2_eq)
    with Suc.IH [of "\<lambda>i. d (Suc i)" j] Suc.prems Suc show ?thesis by simp
  qed
qed simp

lemma unat_fields:
  assumes "w * n = 64"
  shows "unat x = (\<Sum>i<n. field w x i * (2 ^ w) ^ i)"
proof -
  have "unat x = unat x mod (2 ^ w) ^ n"
    using unat_less_exp [of x] assms by (simp add: power_mult [symmetric])
  then show ?thesis using digits_sum [of "2 ^ w" "unat x" n] by (simp add: field_div_mod)
qed


lemma field_less: "field w x i < 2 ^ w"
  by (simp add: field_div_mod)

lemma unat_field_eqI:
  assumes "w * n = 64" and "\<forall>i<n. d i < 2 ^ w" and "unat x = (\<Sum>i<n. d i * (2 ^ w) ^ i)" and "i < n"
  shows "field w x i = d i"
  using digit_of_sum [OF assms(2,4)] assms(3) by (simp add: field_div_mod)

lemma digit_sum_less:
  fixes d :: "nat \<Rightarrow> nat"
  assumes "\<forall>i<n. d i < B"
  shows "(\<Sum>i<n. d i * B ^ i) < B ^ n"
  using assms
proof (induction n)
  case (Suc n)
  then have "(\<Sum>i<n. d i * B ^ i) < B ^ n" "d n + 1 \<le> B" by auto
  then have "(\<Sum>i<n. d i * B ^ i) + d n * B ^ n < (d n + 1) * B ^ n" by simp
  also have "\<dots> \<le> B * B ^ n" using \<open>d n + 1 \<le> B\<close> by (rule mult_le_mono1)
  finally show ?case by simp
qed simp

lemma field_add:
  assumes "w * n = 64" and "\<forall>i<n. field w x i + field w y i < 2 ^ w" and "i < n"
  shows "field w (x + y) i = field w x i + field w y i"
proof (rule unat_field_eqI [OF assms(1,2) _ assms(3)])
  let ?s = "\<Sum>i<n. (field w x i + field w y i) * (2 ^ w) ^ i"
  have "unat x + unat y = ?s"
    using unat_fields [OF assms(1)] by (simp add: sum.distrib [symmetric] distrib_right)
  moreover have "?s < 2 ^ 64"
    using digit_sum_less [OF assms(2)] assms(1) by (simp add: power_mult [symmetric])
  ultimately show "unat (x + y) = ?s" by (simp add: unat_word_ariths)
qed

lemma field_sub:
  assumes "w * n = 64" and "\<forall>i<n. field w y i \<le> field w x i" and "i < n"
  shows "field w (x - y) i = field w x i - field w y i"
proof (rule unat_field_eqI [OF assms(1) _ _ assms(3)])
  show "\<forall>i<n. field w x i - field w y i < 2 ^ w"
    using field_less by (meson diff_le_self le_less_trans)
  have le: "unat y \<le> unat x"
    unfolding unat_fields [OF assms(1)] using assms(2) by (intro sum_mono) simp
  have "(\<Sum>i<n. (field w x i - field w y i) * (2 ^ w) ^ i) + unat y = unat x"
    using assms(2) by (simp add: unat_fields [OF assms(1)] sum.distrib [symmetric] distrib_right [symmetric])
  with le show "unat (x - y) = (\<Sum>i<n. (field w x i - field w y i) * (2 ^ w) ^ i)"
    by (simp add: unat_sub word_le_nat_alt)
qed

lemma field_drop: "field w (drop_bit w x) i = field w x (Suc i)"
  by (simp add: field_def add.commute)

lemma field_and:
  assumes "\<forall>k<64. bit m k \<longleftrightarrow> k mod (2 * w) < w" and "2 * w * n = 64" and "i < n"
  shows "field (2 * w) (x AND m) i = field w x (2 * i)"
proof -
  have "take_bit (2 * w) (drop_bit (2 * w * i) (x AND m)) = take_bit w (drop_bit (w * (2 * i)) x)"
  proof (rule bit_eqI)
    fix j
    have "bit m (2 * w * i + j) \<longleftrightarrow> j < w" if "j < 2 * w" "2 * w * i + j < 64" for j
      using assms(1) that by simp
    then show "bit (take_bit (2 * w) (drop_bit (2 * w * i) (x AND m))) j \<longleftrightarrow> bit (take_bit w (drop_bit (w * (2 * i)) x)) j"
      by (auto simp: bit_simps mult.assoc mult.left_commute dest: bit_imp_le_length)
  qed
  then show ?thesis by (simp add: field_def)
qed

lemma field_double: "field (2 * w) x i = field w x (2 * i) + 2 ^ w * field w x (2 * i + 1)"
proof -
  let ?y = "unat x div (2 ^ w) ^ (2 * i)"
  have "field (2 * w) x i = ?y mod (2 ^ w * 2 ^ w)"
    by (simp add: field_div_mod power_mult [symmetric] power_add [symmetric] mult_2 [symmetric] ac_simps)
  also have "\<dots> = 2 ^ w * (?y div 2 ^ w mod 2 ^ w) + ?y mod 2 ^ w" by (rule mod_mult2_eq)
  also have "?y div 2 ^ w = unat x div (2 ^ w) ^ (2 * i + 1)" by (simp add: div_mult2_eq [symmetric] mult.commute)
  finally show ?thesis by (simp add: field_div_mod)
qed

text \<open>The number of set bits in a range of positions, and the counts in fields of 2, 4, 8 and 16 bits.\<close>

definition ones :: "u64 \<Rightarrow> nat \<Rightarrow> nat \<Rightarrow> nat" where
  "ones v i j = (\<Sum>k = i..<j. of_bool (bit v k))"

lemma ones_le: "ones v i j \<le> j - i"
proof -
  have "ones v i j \<le> (\<Sum>k = i..<j. 1)" unfolding ones_def by (rule sum_mono) simp
  then show ?thesis by simp
qed

lemma ones_split: "i \<le> j \<Longrightarrow> j \<le> k \<Longrightarrow> ones v i j + ones v j k = ones v i k"
  unfolding ones_def by (rule sum.atLeastLessThan_concat)

lemma ones_halves: "ones v (2 * w * i) (2 * w * i + 2 * w) =
    ones v (w * (2 * i)) (w * (2 * i) + w) + ones v (w * (2 * i + 1)) (w * (2 * i + 1) + w)"
  using ones_split [of "2 * w * i" "2 * w * i + w" "2 * w * i + 2 * w" v] by (simp add: algebra_simps)

lemma field_1: "field (Suc 0) v i = ones v i (Suc i)"
proof -
  have "take_bit (Suc 0) (drop_bit i v) = of_bool (bit v i)"
    by (rule bit_eqI) (auto simp: bit_simps bit_iff_odd_drop_bit [of v])
  then show ?thesis by (simp add: field_def ones_def)
qed

lemma masks:
  "\<forall>k<64. bit (0x5555555555555555 :: u64) k \<longleftrightarrow> k mod (2 * 1) < 1"
  "\<forall>k<64. bit (0x3333333333333333 :: u64) k \<longleftrightarrow> k mod (2 * 2) < 2"
  "\<forall>k<64. bit (0x0F0F0F0F0F0F0F0F :: u64) k \<longleftrightarrow> k mod (2 * 4) < 4"
  "\<forall>k<64. bit (0x00FF00FF00FF00FF :: u64) k \<longleftrightarrow> k mod (2 * 8) < 8"
proof -
  have all: "(\<forall>k<64. P k) = list_all P [0..<64]" for P :: "nat \<Rightarrow> bool" by (auto simp: list_all_iff)
  show
    "\<forall>k<64. bit (0x5555555555555555 :: u64) k \<longleftrightarrow> k mod (2 * 1) < 1"
    "\<forall>k<64. bit (0x3333333333333333 :: u64) k \<longleftrightarrow> k mod (2 * 2) < 2"
    "\<forall>k<64. bit (0x0F0F0F0F0F0F0F0F :: u64) k \<longleftrightarrow> k mod (2 * 4) < 4"
    "\<forall>k<64. bit (0x00FF00FF00FF00FF :: u64) k \<longleftrightarrow> k mod (2 * 8) < 8"
    unfolding all by (simp_all add: upt_conv_Cons)
qed


lemma counts_pairwise:
  assumes counts: "\<And>i. i < 2 * n \<Longrightarrow> field w x i = ones v (w * i) (w * i + w)"
    and width: "2 * w * n = 64" "2 * w < 2 ^ w" and m: "\<forall>k<64. bit m k \<longleftrightarrow> k mod (2 * w) < w" and "i < n"
  shows "field (2 * w) ((x + drop_bit w x) AND m) i = ones v (2 * w * i) (2 * w * i + 2 * w)"
proof -
  have le: "field w x i \<le> w" if "i \<le> 2 * n" for i
  proof (cases "i < 2 * n")
    case True
    with counts [OF this] ones_le [of v "w * i" "w * i + w"] show ?thesis by simp
  next
    case False
    with that width have "w * i = 64" by (simp add: ac_simps)
    then show ?thesis by (simp add: field_def drop_bit_word_beyond)
  qed
  have "field w (x + drop_bit w x) (2 * i) = field w x (2 * i) + field w (drop_bit w x) (2 * i)"
  proof (rule field_add [of w "2 * n"])
    show "\<forall>i<2 * n. field w x i + field w (drop_bit w x) i < 2 ^ w"
    proof (intro allI impI)
      fix i assume "i < 2 * n"
      with le [of i] le [of "Suc i"] width(2) show "field w x i + field w (drop_bit w x) i < 2 ^ w"
        by (simp add: field_drop)
    qed
  qed (use width \<open>i < n\<close> in simp_all)
  also have "\<dots> = ones v (w * (2 * i)) (w * (2 * i) + w) + ones v (w * (2 * i + 1)) (w * (2 * i + 1) + w)"
    using counts [of "2 * i"] counts [of "2 * i + 1"] \<open>i < n\<close> by (simp add: field_drop)
  finally show ?thesis using field_and [OF m width(1) \<open>i < n\<close>] ones_halves [of v w i] by simp
qed

lemma field_counts_correct:
  assumes "field_counts v = (a, b, c, d)"
  shows "\<And>i. i < 32 \<Longrightarrow> field 2 a i = ones v (2 * i) (2 * i + 2)"
    and "\<And>i. i < 16 \<Longrightarrow> field 4 b i = ones v (4 * i) (4 * i + 4)"
    and "\<And>i. i < 8 \<Longrightarrow> field 8 c i = ones v (8 * i) (8 * i + 8)"
    and "\<And>i. i < 4 \<Longrightarrow> field 16 d i = ones v (16 * i) (16 * i + 16)"
proof -
  have defs: "a = v - (drop_bit 1 v AND 0x5555555555555555)"
      "b = (a AND 0x3333333333333333) + (drop_bit 2 a AND 0x3333333333333333)"
      "c = (b + drop_bit 4 b) AND 0x0F0F0F0F0F0F0F0F"
      "d = (c + drop_bit 8 c) AND 0x00FF00FF00FF00FF"
    using assms by (auto simp: field_counts_def Let_def)
  show a: "field 2 a i = ones v (2 * i) (2 * i + 2)" if "i < 32" for i
  proof -
    have y: "field 2 (drop_bit 1 v AND 0x5555555555555555) i = field 1 v (2 * i + 1)" if "i < 32" for i
      using field_and [OF masks(1), of 32 i "drop_bit 1 v"] field_drop [of 1 v "2 * i"] that by simp
    have v: "field 2 v i = field 1 v (2 * i) + 2 * field 1 v (2 * i + 1)" for i
      using field_double [of 1 v i] by simp
    have "field 2 a i = field 1 v (2 * i) + field 1 v (2 * i + 1)"
      using field_sub [of 2 32 "drop_bit 1 v AND 0x5555555555555555" v i] that y v by (simp add: defs(1))
    then show ?thesis using ones_halves [of v 1 i] by (simp add: field_1)
  qed
  show b: "field 4 b i = ones v (4 * i) (4 * i + 4)" if "i < 16" for i
  proof -
    have f: "field 4 (a AND 0x3333333333333333) i = ones v (2 * (2 * i)) (2 * (2 * i) + 2)"
        "field 4 (drop_bit 2 a AND 0x3333333333333333) i = ones v (2 * (2 * i + 1)) (2 * (2 * i + 1) + 2)" if "i < 16" for i
      using field_and [OF masks(2), of 16 i] field_drop [of 2 a "2 * i"] a [of "2 * i"] a [of "2 * i + 1"] that by simp_all
    have "field 4 b i = ones v (2 * (2 * i)) (2 * (2 * i) + 2) + ones v (2 * (2 * i + 1)) (2 * (2 * i + 1) + 2)"
      unfolding defs(2) using f that ones_le
      by (subst field_add [of 4 16]) (auto intro!: le_less_trans [OF add_mono [OF ones_le ones_le]])
    then show ?thesis using ones_halves [of v 2 i] by simp
  qed
  show c: "field 8 c i = ones v (8 * i) (8 * i + 8)" if "i < 8" for i
    using counts_pairwise [of 8 4 b v, OF _ _ _ masks(3), of i] b that unfolding defs(3) by simp
  show "field 16 d i = ones v (16 * i) (16 * i + 16)" if "i < 4" for i
    using counts_pairwise [of 4 8 c v, OF _ _ _ masks(4), of i] c that unfolding defs(4) by simp
qed

text \<open>
  One step of the bisection. The first count has a second one above it in the word, which never
  reaches the bits that matter.
\<close>

lemma and_256: "x AND 256 = (if bit x 8 then 256 else 0 :: u64)"
proof -
  have e: "(256 :: u64) = 2 ^ 8" by simp
  have "x AND 2 ^ 8 = (if bit x 8 then 2 ^ 8 else 0 :: u64)"
    by (rule bit_eqI) (auto simp: bit_simps simp del: power_numeral)
  then show ?thesis unfolding e .
qed

lemma div_256: "x = r + 256 * q \<Longrightarrow> r < 256 \<Longrightarrow> x div 256 = (q :: nat)"
  by simp

lemma borrow:
  fixes t n :: u64
  assumes t: "unat t = lo + 65536 * hi" and small: "lo \<le> 64" "hi \<le> 64" "unat n \<le> 64"
  shows "unat (t - n) div 256 mod 256 = (if lo < unat n then 255 else 0) \<and>
    (hi \<noteq> 0 \<longrightarrow> unat (t - n) div 256 < 65536)"
proof -
  let ?n = "unat n"
  have sub: "unat (t - n) = (if ?n \<le> unat t then unat t - ?n else unat t + 2 ^ 64 - ?n)"
    by (simp add: unat_sub_if')
  consider (ge) "?n \<le> lo" | (lt) "lo < ?n" "hi = 0" | (borrow) h where "lo < ?n" "hi = Suc h" by (metis not0_implies_Suc not_le)
  then show ?thesis
  proof cases
    case ge
    then have "unat (t - n) = (lo - ?n) + 256 * (256 * hi)" by (simp add: sub t)
    then have "unat (t - n) div 256 = 256 * hi" by (rule div_256) (use small in simp)
    with ge small show ?thesis by simp
  next
    case lt
    then have "unat (t - n) = (256 - (?n - lo)) + 256 * (2 ^ 56 - 1)" using small by (simp add: sub t)
    then have "unat (t - n) div 256 = 2 ^ 56 - 1" by (rule div_256) (use small lt in simp)
    with lt show ?thesis by simp
  next
    case borrow
    then have "unat (t - n) = (256 - (?n - lo)) + 256 * (255 + 256 * h)" using small by (simp add: sub t)
    then have "unat (t - n) div 256 = 255 + 256 * h" by (rule div_256) (use small borrow in simp)
    with borrow small show ?thesis by simp
  qed
qed

lemma and_take_bit: "x AND take_bit k y = take_bit k x AND (y :: nat)"
  by (rule bit_eqI) (auto simp: bit_simps)

lemma borrow_mask:
  fixes t n :: u64
  assumes t: "unat t = lo + 65536 * hi" and small: "lo \<le> 64" "hi \<le> 64" "unat n \<le> 64"
  shows "(t - n) AND 256 = (if lo < unat n then 256 else 0)"
    and "t AND drop_bit 8 (t - n) = (if lo < unat n then of_nat lo else 0)"
proof -
  let ?y = "unat (t - n) div 256"
  have y: "?y mod 256 = (if lo < unat n then 255 else 0)" "hi \<noteq> 0 \<longrightarrow> ?y < 65536" using borrow [OF assms] by auto
  have "bit (t - n) 8 \<longleftrightarrow> bit (unat (t - n)) 8" by (simp add: bit_unsigned_iff)
  also have "\<dots> \<longleftrightarrow> odd (?y mod 256)" by (simp add: bit_iff_odd dvd_mod_iff)
  finally show "(t - n) AND 256 = (if lo < unat n then 256 else 0)" using y(1) by (simp add: and_256)
  have drop: "unat (drop_bit 8 (t - n)) = ?y" by (simp only: unat_drop_bit_eq) (simp add: drop_bit_eq_div)
  have "unat (t AND drop_bit 8 (t - n)) = (lo + 65536 * hi) AND ?y" by (simp only: unsigned_and_eq t drop)
  also have "\<dots> = lo AND ?y"
  proof (cases "hi = 0")
    case False
    with y(2) have "take_bit 16 ?y = ?y" by (simp add: take_bit_nat_eq_self)
    then have "(lo + 65536 * hi) AND ?y = take_bit 16 (lo + 65536 * hi) AND ?y" by (metis and_take_bit)
    also have "take_bit 16 (lo + 65536 * hi) = lo" using small by (simp add: take_bit_eq_mod)
    finally show ?thesis .
  qed simp
  also have "\<dots> = (if lo < unat n then lo else 0)"
  proof -
    have lo: "take_bit 8 lo = lo" using small by (simp add: take_bit_nat_eq_self)
    have "lo AND ?y = take_bit 8 lo AND ?y" by (simp only: lo)
    also have "\<dots> = lo AND take_bit 8 ?y" by (rule and_take_bit [symmetric])
    also have "take_bit 8 ?y = (if lo < unat n then 255 else 0)" using y(1) by (simp add: take_bit_eq_mod)
    finally show ?thesis using lo by (auto simp: take_bit_eq_mask mask_numeral)
  qed
  finally have "unat (t AND drop_bit 8 (t - n)) = (if lo < unat n then lo else 0)" .
  then show "t AND drop_bit 8 (t - n) = (if lo < unat n then of_nat lo else 0)"
    using small by (simp add: word_unat_eq_iff unat_of_nat)
qed

text \<open>
  The window \<open>[s - w, s)\<close> of the reversed word holds the bit looked for, as its \<open>n\<close>-th from the top.
\<close>

definition window :: "u64 \<Rightarrow> nat \<Rightarrow> nat \<Rightarrow> u64 \<times> u64 \<Rightarrow> bool" where
  "window r rank w sn \<longleftrightarrow>
     (let s = unat (fst sn); n = unat (snd sn)
      in w \<le> s \<and> s \<le> 64 \<and> w dvd s \<and> 1 \<le> n \<and> n \<le> ones r (s - w) s \<and> n + ones r s 64 = rank)"

lemma select_step_correct:
  assumes win: "window r rank (2 * h) (s, n)" and t: "unat t = ones r (unat s - h) (unat s) + 65536 * hi" "hi \<le> 64"
    and h: "drop_bit k 256 = (of_nat h :: u64)" "0 < h" "h \<le> 32"
  shows "window r rank h (select_step k t (s, n))"
proof -
  let ?s = "unat s" and ?n = "unat n"
  let ?lo = "ones r (?s - h) ?s"
  have w: "2 * h \<le> ?s" "?s \<le> 64" "2 * h dvd ?s" "1 \<le> ?n" "?n \<le> ones r (?s - 2 * h) ?s" "?n + ones r ?s 64 = rank"
    using win by (auto simp: window_def Let_def)
  have lo: "?lo \<le> h" using ones_le [of r "?s - h" ?s] w(1) by simp
  have n: "?n \<le> 64" using w(5) ones_le [of r "?s - 2 * h" ?s] w(1) h(3) by linarith
  have split: "ones r (?s - 2 * h) (?s - h) + ?lo = ones r (?s - 2 * h) ?s"
    by (rule ones_split) (use w(1) in simp_all)
  note m = borrow_mask [OF t(1) _ t(2) n]
  have dvd: "h dvd ?s" "h dvd ?s - h" using w(1,3) by (auto intro: dvd_mult_left dvd_diff_nat)
  show ?thesis
  proof (cases "?lo < ?n")
    case True
    then have step: "select_step k t (s, n) = (s - of_nat h, n - of_nat ?lo)"
      using m lo h by (simp add: select_step_def del: drop_bit_and)
    have "unat (of_nat h :: u64) = h" "unat (of_nat ?lo :: u64) = ?lo" using h(3) lo by (auto simp: unat_of_nat)
    then have vals: "unat (s - of_nat h) = ?s - h" "unat (n - of_nat ?lo) = ?n - ?lo"
      using w(1) True by (auto simp: unat_sub_if')
    have "ones r (?s - h) 64 = ?lo + ones r ?s 64" using ones_split [of "?s - h" ?s 64 r] w(2) by simp
    then have "?n - ?lo + ones r (?s - h) 64 = rank" using True w(6) by linarith
    moreover have "?n - ?lo \<le> ones r (?s - h - h) (?s - h)" using split w(5) by (simp add: mult_2)
    moreover have "h \<le> ?s - h" "?s - h \<le> 64" "1 \<le> ?n - ?lo" using w(1,2) True by linarith+
    ultimately show ?thesis unfolding step window_def Let_def fst_conv snd_conv vals using dvd(2) by blast
  next
    case False
    then have "select_step k t (s, n) = (s, n)" using m lo h by (simp add: select_step_def del: drop_bit_and)
    with w dvd False show ?thesis by (auto simp: window_def Let_def)
  qed
qed

lemma read_field:
  assumes "field w x i < 2 ^ k" and "k \<le> w"
  shows "unat (drop_bit (w * i) x AND mask k) = field w x i"
proof -
  have "unat (drop_bit (w * i) x AND mask k) = take_bit k (field w x i)"
    using assms(2) by (simp add: field_def take_bit_eq_mask [symmetric] unsigned_take_bit_eq min_def)
  with assms(1) show ?thesis by (simp add: take_bit_nat_eq_self)
qed

lemma read_count:
  assumes counts: "\<And>i. i < 64 div h \<Longrightarrow> field h x i = ones r (h * i) (h * i + h)"
    and win: "window r rank (2 * h) (s, n)" and "h < 2 ^ k" "k \<le> h" "0 < h"
  shows "unat (drop_bit (unat (s - of_nat h)) x AND mask k) = ones r (unat s - h) (unat s)"
proof -
  let ?s = "unat s"
  have w: "2 * h \<le> ?s" "?s \<le> 64" "2 * h dvd ?s" using win by (auto simp: window_def Let_def)
  then obtain q where q: "?s = 2 * h * q" by blast
  with w(1) \<open>0 < h\<close> have "0 < q" by (cases q) auto
  let ?i = "2 * q - 1"
  have i: "h * ?i = ?s - h" using q by (simp add: diff_mult_distrib2)
  have "h * Suc ?i \<le> 64" using i w by (simp add: algebra_simps)
  then have "Suc ?i \<le> 64 div h" using \<open>0 < h\<close> by (metis div_le_mono nonzero_mult_div_cancel_left less_not_refl2)
  then have "?i < 64 div h" by simp
  then have f: "field h x ?i = ones r (?s - h) ?s" using counts [of ?i] i w(1) \<open>0 < h\<close> by simp
  moreover have "field h x ?i < 2 ^ k" using f ones_le [of r "?s - h" ?s] assms(3) w(1) by simp
  moreover have "unat (s - of_nat h) = ?s - h" using w by (simp add: unat_sub_if' unat_of_nat)
  ultimately show ?thesis using read_field [of h x ?i k] assms(4) i by simp
qed

lemma window_init: "1 \<le> unat n \<Longrightarrow> unat n \<le> ones r 0 64 \<Longrightarrow> window r (unat n) 64 (64, n)"
  by (simp add: window_def ones_def)

lemma top_field:
  assumes "w * Suc i = 64"
  shows "unat (drop_bit (w * i) x) = field w x i"
proof -
  have "take_bit w (drop_bit (w * i) x) = drop_bit (w * i) x"
    using assms by (intro bit_eqI) (auto simp: bit_simps dest: bit_imp_le_length)
  then show ?thesis by (simp add: field_def)
qed

lemma first_count:
  assumes "\<And>i. i < 4 \<Longrightarrow> field 16 d i = ones r (16 * i) (16 * i + 16)"
  shows "unat (drop_bit 32 d + drop_bit 48 d) = ones r 32 64 + 65536 * ones r 48 64"
proof -
  have f: "field 16 d 2 = ones r 32 48" "field 16 d 3 = ones r 48 64" using assms [of 2] assms [of 3] by simp_all
  have le: "ones r 32 48 \<le> 16" "ones r 48 64 \<le> 16" using ones_le [of r 32 48] ones_le [of r 48 64] by simp_all
  have high: "unat (drop_bit 48 d) = ones r 48 64" using top_field [of 16 3 d] f by simp
  have low: "unat (drop_bit 32 d) = ones r 32 48 + 65536 * ones r 48 64"
    using top_field [of 32 1 d] field_double [of 16 d 1] f by simp
  have "ones r 32 48 + ones r 48 64 = ones r 32 64" by (rule ones_split) simp_all
  with low high le show ?thesis by (simp add: unat_word_ariths)
qed

lemma nth_set_bit_u64_window:
  assumes "1 \<le> unat n" and "unat n \<le> ones (reverse_bits v) 0 64"
  shows "\<exists>s n'. window (reverse_bits v) (unat n) 1 (s, n') \<and> nth_set_bit_u64 v n = 65 - s - 1"
proof -
  let ?r = "reverse_bits v" and ?w = "window (reverse_bits v) (unat n)"
  obtain a b c d where counts: "field_counts ?r = (a, b, c, d)" by (cases "field_counts ?r")
  note f = field_counts_correct [OF counts]
  define t1 where "t1 = drop_bit 32 d + drop_bit 48 d"
  obtain s1 n1 where 1: "select_step 3 t1 (64, n) = (s1, n1)" by fastforce
  have w1: "?w 32 (s1, n1)"
    using select_step_correct [of ?r "unat n" 32 64 n t1 "ones ?r 48 64" 3] window_init [OF assms]
      first_count [OF f(4)] ones_le [of ?r 48 64] by (simp add: t1_def 1 [symmetric])
  define t2 where "t2 = drop_bit (unat (s1 - 16)) d AND 0xff"
  obtain s2 n2 where 2: "select_step 4 t2 (s1, n1) = (s2, n2)" by fastforce
  have w2: "?w 16 (s2, n2)"
    using select_step_correct [of ?r "unat n" 16 s1 n1 t2 0 4] w1 read_count [of 16 d ?r "unat n" s1 n1 8] f(4)
    by (simp add: t2_def 2 [symmetric] mask_numeral)
  define t3 where "t3 = drop_bit (unat (s2 - 8)) c AND 0xf"
  obtain s3 n3 where 3: "select_step 5 t3 (s2, n2) = (s3, n3)" by fastforce
  have w3: "?w 8 (s3, n3)"
    using select_step_correct [of ?r "unat n" 8 s2 n2 t3 0 5] w2 read_count [of 8 c ?r "unat n" s2 n2 4] f(3)
    by (simp add: t3_def 3 [symmetric] mask_numeral)
  define t4 where "t4 = drop_bit (unat (s3 - 4)) b AND 0x7"
  obtain s4 n4 where 4: "select_step 6 t4 (s3, n3) = (s4, n4)" by fastforce
  have w4: "?w 4 (s4, n4)"
    using select_step_correct [of ?r "unat n" 4 s3 n3 t4 0 6] w3 read_count [of 4 b ?r "unat n" s3 n3 3] f(2)
    by (simp add: t4_def 4 [symmetric] mask_numeral)
  define t5 where "t5 = drop_bit (unat (s4 - 2)) a AND 0x3"
  obtain s5 n5 where 5: "select_step 7 t5 (s4, n4) = (s5, n5)" by fastforce
  have w5: "?w 2 (s5, n5)"
    using select_step_correct [of ?r "unat n" 2 s4 n4 t5 0 7] w4 read_count [of 2 a ?r "unat n" s4 n4 2] f(1)
    by (simp add: t5_def 5 [symmetric] mask_numeral)
  define t6 where "t6 = drop_bit (unat (s5 - 1)) ?r AND 0x1"
  obtain s6 n6 where 6: "select_step 8 t6 (s5, n5) = (s6, n6)" by fastforce
  have w6: "?w 1 (s6, n6)"
    using select_step_correct [of ?r "unat n" 1 s5 n5 t6 0 8] w5 read_count [of 1 ?r ?r "unat n" s5 n5 1] field_1
    by (simp add: t6_def 6 [symmetric] mask_numeral)
  have "s6 = s5 - drop_bit 8 ((t6 - n5) AND 256)" using 6 by (simp add: select_step_def)
  then have "nth_set_bit_u64 v n = 65 - s6 - 1"
    using 1 2 3 4 5 unfolding nth_set_bit_u64_def Let_def counts t1_def t2_def t3_def t4_def t5_def t6_def by simp
  with w6 show ?thesis by blast
qed

text \<open>The position found is that of a set bit with the right number of set bits below it.\<close>

definition selects :: "bool list \<Rightarrow> nat \<Rightarrow> nat \<Rightarrow> bool" where
  "selects bs n i \<longleftrightarrow> i < length bs \<and> bs ! i \<and> length (filter id (take i bs)) + 1 = n"

lemma selects_unique:
  assumes "selects bs n i" and "selects bs n j"
  shows "i = j"
proof -
  have less: "length (filter id (take i bs)) < length (filter id (take j bs))" if "i < j" "i < length bs" "bs ! i" for i j
  proof -
    have "take (Suc i) bs = take i bs @ [True]" using that by (simp add: take_Suc_conv_app_nth)
    moreover have "take j bs = take (Suc i) bs @ take (j - Suc i) (drop (Suc i) bs)"
      using take_add [of "Suc i" "j - Suc i" bs] that(1) by simp
    ultimately show ?thesis by simp
  qed
  from less [of i j] less [of j i] assms show ?thesis by (auto simp: selects_def) (meson nat_neq_iff)
qed

lemma bits_of_64: "bits_of (v :: u64) = map (bit v) [0..<64]"
  by (simp add: bits_of_def)

lemma ones_eq_filter: "ones v i j = length (filter id (map (bit v) [i..<j]))"
proof (induction j)
  case (Suc j)
  then show ?case by (cases "i \<le> j") (auto simp: ones_def)
qed (simp add: ones_def)

lemma bit_reverse_bits: "bit (reverse_bits (v :: u64)) i \<longleftrightarrow> i < 64 \<and> bit v (63 - i)"
  by (auto simp: reverse_bits_def bit_word_reverse_iff)

lemma ones_reverse: "j \<le> 64 \<Longrightarrow> ones (reverse_bits v) (64 - j) 64 = ones v 0 j"
proof (induction j)
  case (Suc j)
  have "ones (reverse_bits v) (64 - Suc j) 64 = ones (reverse_bits v) (64 - Suc j) (64 - j) + ones (reverse_bits v) (64 - j) 64"
    by (rule ones_split [symmetric]) simp_all
  also have "ones (reverse_bits v) (64 - Suc j) (64 - j) = of_bool (bit v j)"
  proof -
    have "{64 - Suc j..<64 - j} = {63 - j}" using Suc.prems by auto
    then show ?thesis using Suc.prems by (simp add: ones_def bit_reverse_bits)
  qed
  finally show ?case using Suc by (simp add: ones_def)
qed (simp add: ones_def)

lemma nth_set_bit_u64_selects:
  assumes "1 \<le> n" and "n \<le> count_ones v"
  shows "selects (bits_of v) n (unat (nth_set_bit_u64 v (of_nat n)))"
proof -
  let ?r = "reverse_bits v"
  have total: "count_ones v = ones ?r 0 64"
    using ones_reverse [of 64 v] by (simp add: count_ones_def bits_of_64 ones_eq_filter)
  then have "n \<le> 64" using assms(2) ones_le [of ?r 0 64] by simp
  then have n: "unat (of_nat n :: u64) = n" by (simp add: unat_of_nat)
  then obtain s n' where w: "window ?r n 1 (s, n')" and eq: "nth_set_bit_u64 v (of_nat n) = 65 - s - 1"
    using nth_set_bit_u64_window [of "of_nat n" v] assms total by auto
  let ?s = "unat s"
  have s: "1 \<le> ?s" "?s \<le> 64" "1 \<le> unat n'" "unat n' \<le> ones ?r (?s - 1) ?s" "unat n' + ones ?r ?s 64 = n"
    using w by (auto simp: window_def Let_def)
  have range: "{?s - 1..<?s} = {?s - 1}" using s(1) by auto
  have "ones ?r (?s - 1) ?s = of_bool (bit ?r (?s - 1))" unfolding ones_def range by simp
  with s(3,4) have bit: "bit ?r (?s - 1)" and one: "unat n' = 1" by (auto split: if_splits simp: of_bool_def)
  have "65 - s - 1 = 64 - s" by simp
  then have i: "unat (nth_set_bit_u64 v (of_nat n)) = 64 - ?s" using s(2) by (simp add: eq unat_sub_if')
  have "bit v (64 - ?s)" using bit s(1) by (simp add: bit_reverse_bits)
  moreover have "ones v 0 (64 - ?s) = n - 1" using ones_reverse [of "64 - ?s" v] s one by simp
  moreover have "take (64 - ?s) (bits_of v) = map (bit v) [0..<64 - ?s]" using s by (simp add: bits_of_64 take_map)
  ultimately show ?thesis unfolding i selects_def using s assms(1) by (auto simp: ones_eq_filter)
qed

lemma bits_of_halves:
  fixes v :: bitmap
  shows "bits_of v = bits_of (ucast v :: u64) @ bits_of (ucast (drop_bit 64 v) :: u64)"
  by (rule nth_equalityI) (auto simp: nth_append bit_simps)

lemma selects_append:
  "selects xs n i \<Longrightarrow> selects (xs @ ys) n i"
  "selects ys n i \<Longrightarrow> selects (xs @ ys) (n + length (filter id xs)) (length xs + i)"
  by (auto simp: selects_def nth_append)

theorem nth_set_bit_selects:
  fixes v :: bitmap
  assumes "1 \<le> n" and "n \<le> count_ones v"
  shows "selects (bits_of v) n (nth_set_bit v n)"
proof -
  let ?low = "ucast v :: u64" and ?high = "ucast (drop_bit 64 v) :: u64"
  have total: "count_ones v = count_ones ?low + count_ones ?high" by (simp add: count_ones_def bits_of_halves [of v])
  show ?thesis
  proof (cases "count_ones ?low < n")
    case True
    then have "selects (bits_of ?high) (n - count_ones ?low) (unat (nth_set_bit_u64 ?high (of_nat (n - count_ones ?low))))"
      using assms(2) total by (intro nth_set_bit_u64_selects) auto
    from selects_append(2) [OF this, of "bits_of ?low"] True show ?thesis
      by (simp add: nth_set_bit_def bits_of_halves [of v] count_ones_def)
  next
    case False
    with nth_set_bit_u64_selects [of n ?low] assms(1) show ?thesis
      by (auto simp: nth_set_bit_def bits_of_halves [of v] intro: selects_append(1))
  qed
qed

corollary nth_set_bit_bitmap_of:
  assumes "length bs \<le> 128" and "1 \<le> n" and "n \<le> length (filter id bs)"
  shows "selects bs n (nth_set_bit (bitmap_of bs) n)"
proof -
  let ?i = "nth_set_bit (bitmap_of bs) n" and ?pad = "replicate (128 - length bs) False"
  have "selects (bs @ ?pad) n ?i"
    using nth_set_bit_selects [of n "bitmap_of bs"] assms by (simp add: count_ones_bitmap_of bits_of_bitmap_of)
  then show ?thesis by (auto simp: selects_def nth_append split: if_splits)
qed

end
