(* ===== verification/Chunk.thy ===== *)
theory Chunk
  imports Text_Dimension Bitmap
begin

text \<open>
  The crate \<open>rope\<close>, file \<open>chunk.rs\<close>: up to 128 bytes of text with bitmaps, one bit per byte, that mark
  where characters start, how many UTF-16 units they take, and where newlines and tabs are. Every
  measure of a chunk is computed from the bitmaps by shifting, masking and counting bits. The text
  is the list of its characters; byte indices refer to its UTF-8 encoding. A panic (a full array,
  a shift by the width, a slice off a character boundary) is \<open>None\<close>.
\<close>

section \<open>UTF-8\<close>

definition utf8 :: "rust_char \<Rightarrow> nat list" where
  "utf8 c =
     (if c < 0x80 then [c]
      else if c < 0x800 then [0xC0 + c div 0x40, 0x80 + c mod 0x40]
      else if c < 0x10000 then [0xE0 + c div 0x1000, 0x80 + c div 0x40 mod 0x40, 0x80 + c mod 0x40]
      else [0xF0 + c div 0x40000, 0x80 + c div 0x1000 mod 0x40, 0x80 + c div 0x40 mod 0x40, 0x80 + c mod 0x40])"

definition as_bytes :: "str \<Rightarrow> nat list" where
  "as_bytes cs = concat (map utf8 cs)"

text \<open>\<open>util::is_utf8_char_boundary\<close>: the byte is not a continuation byte.\<close>

definition is_utf8_char_boundary :: "nat \<Rightarrow> bool" where
  "is_utf8_char_boundary b \<longleftrightarrow> b < 128 \<or> 192 \<le> b"

text \<open>\<open>str::split_at\<close>, \<open>str::is_char_boundary\<close> and its neighbours.\<close>

fun str_split_at :: "nat \<Rightarrow> str \<Rightarrow> (str \<times> str) option" where
  "str_split_at n [] = (if n = 0 then Some ([], []) else None)"
| "str_split_at n (c # cs) =
     (if n = 0 then Some ([], c # cs)
      else if len_utf8 c \<le> n then map_option (apfst (Cons c)) (str_split_at (n - len_utf8 c) cs)
      else None)"

definition str_is_char_boundary :: "str \<Rightarrow> nat \<Rightarrow> bool" where
  "str_is_char_boundary cs n \<longleftrightarrow> str_split_at n cs \<noteq> None"

fun str_floor_char_boundary :: "str \<Rightarrow> nat \<Rightarrow> nat" where
  "str_floor_char_boundary [] n = 0"
| "str_floor_char_boundary (c # cs) n =
     (if len_utf8 c \<le> n then len_utf8 c + str_floor_char_boundary cs (n - len_utf8 c) else 0)"

fun str_ceil_char_boundary :: "str \<Rightarrow> nat \<Rightarrow> nat" where
  "str_ceil_char_boundary [] n = 0"
| "str_ceil_char_boundary (c # cs) n =
     (if n = 0 then 0
      else if len_utf8 c \<le> n then len_utf8 c + str_ceil_char_boundary cs (n - len_utf8 c)
      else len_utf8 c)"

definition str_slice :: "str \<Rightarrow> nat \<Rightarrow> nat \<Rightarrow> str option" where
  "str_slice cs i j = do {
     _ \<leftarrow> require (i \<le> j);
     (left, _) \<leftarrow> str_split_at j cs;
     (_, middle) \<leftarrow> str_split_at i left;
     Some middle }"

definition MAX_BASE :: nat where
  "MAX_BASE = 128"

definition MIN_BASE :: nat where
  "MIN_BASE = MAX_BASE div 2"

section \<open>Chunks\<close>

record chunk =
  ck_chars :: bitmap
  ck_chars_utf16 :: bitmap
  ck_newlines :: bitmap
  ck_tabs :: bitmap
  ck_text :: str

definition chunk_empty :: chunk where
  "chunk_empty = \<lparr>ck_chars = 0, ck_chars_utf16 = 0, ck_newlines = 0, ck_tabs = 0, ck_text = []\<rparr>"

text \<open>The inner loop over eight bytes: bit \<open>ix\<close> of the result says whether the byte satisfies the test.\<close>

fun byte_bits :: "(nat \<Rightarrow> bool) \<Rightarrow> nat \<Rightarrow> nat list \<Rightarrow> u8 \<Rightarrow> u8" where
  "byte_bits P ix [] acc = acc"
| "byte_bits P ix (b # bs) acc = byte_bits P (ix + 1) bs (acc OR push_bit ix (of_bool (P b)))"

text \<open>The outer loop fills one array element per eight bytes; the rest of the array stays zero.\<close>

function group_bits :: "(nat \<Rightarrow> bool) \<Rightarrow> nat list \<Rightarrow> u8 list" where
  "group_bits P bs = (if bs = [] then [] else byte_bits P 0 (take 8 bs) 0 # group_bits P (drop 8 bs))"
  by pat_completeness auto
termination
  by (relation "measure (\<lambda>(P, bs). length bs)") (auto simp: length_greater_0_conv [symmetric] simp del: length_greater_0_conv)

declare group_bits.simps [simp del]

fun from_le_bytes :: "u8 list \<Rightarrow> bitmap" where
  "from_le_bytes [] = 0"
| "from_le_bytes (b # bs) = ucast b OR push_bit 8 (from_le_bytes bs)"

definition chunk_new :: "str \<Rightarrow> chunk option" where
  "chunk_new txt = do {
     _ \<leftarrow> require (str_len txt \<le> MAX_BASE);
     let bytes = as_bytes txt;
     let chars = from_le_bytes (group_bits is_utf8_char_boundary bytes);
     let chars_utf16 = from_le_bytes (group_bits (\<lambda>b. 240 \<le> b) bytes);
     Some \<lparr>ck_chars = chars, ck_chars_utf16 = push_bit 1 chars_utf16 OR chars,
           ck_newlines = from_le_bytes (group_bits (\<lambda>b. b = 10) bytes),
           ck_tabs = from_le_bytes (group_bits (\<lambda>b. b = 9) bytes), ck_text = txt\<rparr> }"

text \<open>A slice borrows the text; in the model it is a chunk.\<close>

definition chunk_append :: "chunk \<Rightarrow> chunk \<Rightarrow> chunk option" where
  "chunk_append self piece =
     (if ck_text piece = [] then Some self
      else do {
        let base_ix = str_len (ck_text self);
        c \<leftarrow> shl (ck_chars piece) base_ix;
        u \<leftarrow> shl (ck_chars_utf16 piece) base_ix;
        n \<leftarrow> shl (ck_newlines piece) base_ix;
        t \<leftarrow> shl (ck_tabs piece) base_ix;
        _ \<leftarrow> require (str_len (ck_text self) + str_len (ck_text piece) \<le> MAX_BASE);
        Some \<lparr>ck_chars = ck_chars self OR c, ck_chars_utf16 = ck_chars_utf16 self OR u,
              ck_newlines = ck_newlines self OR n, ck_tabs = ck_tabs self OR t,
              ck_text = ck_text self @ ck_text piece\<rparr> })"

definition chunk_prepend :: "chunk \<Rightarrow> chunk \<Rightarrow> chunk option" where
  "chunk_prepend self piece =
     (if ck_text piece = [] then Some self
      else if ck_text self = [] then chunk_new (ck_text piece)
      else do {
        let shift = str_len (ck_text piece);
        c \<leftarrow> shl (ck_chars self) shift;
        u \<leftarrow> shl (ck_chars_utf16 self) shift;
        n \<leftarrow> shl (ck_newlines self) shift;
        t \<leftarrow> shl (ck_tabs self) shift;
        _ \<leftarrow> require (str_len (ck_text piece) + str_len (ck_text self) \<le> MAX_BASE);
        Some \<lparr>ck_chars = ck_chars piece OR c, ck_chars_utf16 = ck_chars_utf16 piece OR u,
              ck_newlines = ck_newlines piece OR n, ck_tabs = ck_tabs piece OR t,
              ck_text = ck_text piece @ ck_text self\<rparr> })"

definition chunk_push_str :: "chunk \<Rightarrow> str \<Rightarrow> chunk option" where
  "chunk_push_str self txt = do { c \<leftarrow> chunk_new txt; chunk_append self c }"

definition chunk_prepend_str :: "chunk \<Rightarrow> str \<Rightarrow> chunk option" where
  "chunk_prepend_str self txt = do { c \<leftarrow> chunk_new txt; chunk_prepend self c }"

definition chunk_is_char_boundary :: "chunk \<Rightarrow> nat \<Rightarrow> bool" where
  "chunk_is_char_boundary c offset \<longleftrightarrow> push_bit offset 1 AND ck_chars c \<noteq> 0 \<or> offset = str_len (ck_text c)"

definition chunk_split_at :: "chunk \<Rightarrow> nat \<Rightarrow> (chunk \<times> chunk) option" where
  "chunk_split_at c mid =
     (if mid = MAX_BASE then Some (c, chunk_empty)
      else do {
        one \<leftarrow> shl 1 mid;
        let mask = one - 1;
        (left_text, right_text) \<leftarrow> str_split_at mid (ck_text c);
        rc \<leftarrow> shr (ck_chars c) mid;
        ru \<leftarrow> shr (ck_chars_utf16 c) mid;
        rn \<leftarrow> shr (ck_newlines c) mid;
        rt \<leftarrow> shr (ck_tabs c) mid;
        Some (\<lparr>ck_chars = ck_chars c AND mask, ck_chars_utf16 = ck_chars_utf16 c AND mask,
               ck_newlines = ck_newlines c AND mask, ck_tabs = ck_tabs c AND mask, ck_text = left_text\<rparr>,
              \<lparr>ck_chars = rc, ck_chars_utf16 = ru, ck_newlines = rn, ck_tabs = rt, ck_text = right_text\<rparr>) })"

definition chunk_slice :: "chunk \<Rightarrow> nat \<Rightarrow> nat \<Rightarrow> chunk option" where
  "chunk_slice c i j =
     (if i = MAX_BASE then Some chunk_empty
      else do {
        let i = (if chunk_is_char_boundary c i then i else str_ceil_char_boundary (ck_text c) i);
        let j = (if chunk_is_char_boundary c j then j
                 else if j < i then i else str_floor_char_boundary (ck_text c) j);
        let mask = push_bit j 1 - 1;
        cc \<leftarrow> shr (ck_chars c AND mask) i;
        cu \<leftarrow> shr (ck_chars_utf16 c AND mask) i;
        cn \<leftarrow> shr (ck_newlines c AND mask) i;
        ct \<leftarrow> shr (ck_tabs c AND mask) i;
        txt \<leftarrow> str_slice (ck_text c) i j;
        Some \<lparr>ck_chars = cc, ck_chars_utf16 = cu, ck_newlines = cn, ck_tabs = ct, ck_text = txt\<rparr> })"

section \<open>Measures\<close>

definition chunk_len :: "chunk \<Rightarrow> nat" where
  "chunk_len c = str_len (ck_text c)"

definition chunk_len_utf16 :: "chunk \<Rightarrow> nat" where
  "chunk_len_utf16 c = count_ones (ck_chars_utf16 c)"

text \<open>The column is an unsigned subtraction on \<open>u32\<close>.\<close>

definition chunk_lines :: "chunk \<Rightarrow> nat point option" where
  "chunk_lines c = do {
     let r = count_ones (ck_newlines c);
     _ \<leftarrow> require (str_len (ck_text c) \<le> 128 \<and> 128 - str_len (ck_text c) \<le> leading_zeros (ck_newlines c));
     Some (point_new r (leading_zeros (ck_newlines c) - (128 - str_len (ck_text c)))) }"

definition chunk_first_line_chars :: "chunk \<Rightarrow> nat" where
  "chunk_first_line_chars c = count_ones (ck_chars c AND saturating_shl_mask (trailing_zeros (ck_newlines c)))"

definition chunk_last_line_chars :: "chunk \<Rightarrow> nat" where
  "chunk_last_line_chars c = count_ones (ck_chars c AND saturating_shr_mask (leading_zeros (ck_newlines c)))"

definition chunk_last_line_len_utf16 :: "chunk \<Rightarrow> nat" where
  "chunk_last_line_len_utf16 c =
     count_ones (ck_chars_utf16 c AND saturating_shr_mask (leading_zeros (ck_newlines c)))"

lemma unat_drop_bit_less:
  assumes "w \<noteq> (0 :: 'w::len word)"
  shows "unat (drop_bit (Suc n) w) < unat w"
proof -
  have "unat (drop_bit (Suc n) w) = unat w div 2 ^ Suc n"
    by (simp only: unat_drop_bit_eq) (simp add: drop_bit_eq_div)
  also have "\<dots> < unat w"
    using assms one_less_power [of "2 :: nat" "Suc n"] by (intro div_less_dividend) (simp_all add: unat_gt_0)
  finally show ?thesis .
qed

text \<open>
  The loop of \<open>longest_row\<close>; it ends because the shifted bitmap has fewer bits set. The row lengths
  are kept as \<open>u8\<close> in the source, which holds every count of bits of a bitmap.
\<close>

function longest_row_loop ::
  "bitmap \<Rightarrow> bitmap \<Rightarrow> nat \<Rightarrow> nat \<Rightarrow> nat \<Rightarrow> nat \<Rightarrow> nat \<times> nat \<times> nat" where
  "longest_row_loop chars newlines total_chars r longest_row longest_row_chars =
     (if newlines \<noteq> 0 then
        let newline_ix = trailing_zeros newlines;
            row_chars = count_ones (chars AND (push_bit newline_ix 1 - 1));
            (lr, lrc) = (if longest_row_chars < row_chars then (r, row_chars) else (longest_row, longest_row_chars))
        in longest_row_loop (drop_bit 1 (drop_bit newline_ix chars)) (drop_bit 1 (drop_bit newline_ix newlines))
             (total_chars + row_chars + 1) (r + 1) lr lrc
      else
        let row_chars = count_ones chars
        in (total_chars + row_chars,
            if longest_row_chars < row_chars then (r, row_chars) else (longest_row, longest_row_chars)))"
  by pat_completeness auto
termination
  by (relation "measure (\<lambda>(chars, newlines, total_chars, r, lr, lrc). unat newlines)") (auto simp: unat_drop_bit_less)

declare longest_row_loop.simps [simp del]

definition chunk_longest_row :: "chunk \<Rightarrow> nat \<times> nat \<times> nat" where
  "chunk_longest_row c = longest_row_loop (ck_chars c) (ck_newlines c) 0 0 0 0"

definition chunk_text_summary :: "chunk \<Rightarrow> nat text_summary option" where
  "chunk_text_summary c = do {
     let (chars, longest_row, longest_row_chars) = chunk_longest_row c;
     lines \<leftarrow> chunk_lines c;
     Some \<lparr>ts_len = chunk_len c, ts_chars = chars, ts_len_utf16 = chunk_len_utf16 c, ts_lines = lines,
           ts_first_line_chars = chunk_first_line_chars c, ts_last_line_chars = chunk_last_line_chars c,
           ts_last_line_len_utf16 = chunk_last_line_len_utf16 c,
           ts_longest_row = longest_row, ts_longest_row_chars = longest_row_chars\<rparr> }"

section \<open>Marks\<close>

text \<open>
  What the bitmaps of a text should be: each character contributes one bit per byte. The invariant
  of a chunk is that its bitmaps are those of its text, which fits.
\<close>

definition char_mark :: "rust_char \<Rightarrow> bool list" where
  "char_mark c = True # replicate (len_utf8 c - 1) False"

definition utf16_mark :: "rust_char \<Rightarrow> bool list" where
  "utf16_mark c = (if c < 0x10000 then char_mark c else [True, True, False, False])"

definition byte_mark :: "rust_char \<Rightarrow> rust_char \<Rightarrow> bool list" where
  "byte_mark b c = (if c = b then [True] else replicate (len_utf8 c) False)"

definition marks :: "(rust_char \<Rightarrow> bool list) \<Rightarrow> str \<Rightarrow> bool list" where
  "marks f cs = concat (map f cs)"

definition chunk_ok :: "chunk \<Rightarrow> bool" where
  "chunk_ok c \<longleftrightarrow> str_len (ck_text c) \<le> 128 \<and> ck_chars c = bitmap_of (marks char_mark (ck_text c)) \<and>
     ck_chars_utf16 c = bitmap_of (marks utf16_mark (ck_text c)) \<and>
     ck_newlines c = bitmap_of (marks (byte_mark newline_char) (ck_text c)) \<and>
     ck_tabs c = bitmap_of (marks (byte_mark 9) (ck_text c))"

named_theorems mark_simps

lemma length_marked [mark_simps]:
  "length (char_mark c) = len_utf8 c" "length (utf16_mark c) = len_utf8 c"
  "b < 128 \<Longrightarrow> length (byte_mark b c) = len_utf8 c"
  by (auto simp: char_mark_def utf16_mark_def byte_mark_def len_utf8_def)

lemma marks_Nil [simp]: "marks f [] = []"
  by (simp add: marks_def)

lemma marks_Cons [simp]: "marks f (c # cs) = f c @ marks f cs"
  by (simp add: marks_def)

lemma marks_append [simp]: "marks f (xs @ ys) = marks f xs @ marks f ys"
  by (simp add: marks_def)

lemma str_len_simps [simp]: "str_len [] = 0" "str_len (c # cs) = len_utf8 c + str_len cs" "str_len (xs @ ys) = str_len xs + str_len ys"
  by (simp_all add: str_len_def)

lemma length_marks_gen: "(\<And>c. length (f c) = len_utf8 c) \<Longrightarrow> length (marks f cs) = str_len cs"
  by (induction cs) auto

lemma newline_small: "newline_char < 128"
  by (simp add: newline_char_def)

lemma length_marks [simp]:
  "length (marks char_mark cs) = str_len cs" "length (marks utf16_mark cs) = str_len cs"
  "b < 128 \<Longrightarrow> length (marks (byte_mark b) cs) = str_len cs"
  "length (marks (byte_mark newline_char) cs) = str_len cs"
  by (auto intro!: length_marks_gen simp: mark_simps newline_small)

lemma count_marks:
  "length (filter id (marks char_mark cs)) = length cs"
  "length (filter id (marks utf16_mark cs)) = sum_list (map char_len_utf16 cs)"
  "length (filter id (marks (byte_mark b) cs)) = length (filter ((=) b) cs)"
  by (induction cs) (auto simp: char_mark_def utf16_mark_def byte_mark_def char_len_utf16_def)

lemma len_utf8_pos: "0 < len_utf8 c"
  by (simp add: len_utf8_def)

section \<open>The bitmaps of a text\<close>

lemma mod_64_bounds: "\<not> 128 + c mod 64 < (128 :: nat)" "\<not> 192 \<le> 128 + c mod (64 :: nat)" "\<not> 240 \<le> 128 + c mod (64 :: nat)"
    "128 + c mod 64 \<noteq> (9 :: nat)" "128 + c mod 64 \<noteq> (10 :: nat)"
  using mod_less_divisor [of 64 c] by linarith+

lemma replicate_small: "replicate 2 x = [x, x]" "replicate 3 x = [x, x, x]" "replicate 4 x = [x, x, x, x]"
  by (simp_all add: eval_nat_numeral)

lemma utf8_marks:
  "map is_utf8_char_boundary (utf8 c) = char_mark c"
  "map (\<lambda>b. b = 10) (utf8 c) = byte_mark 10 c"
  "map (\<lambda>b. b = 9) (utf8 c) = byte_mark 9 c"
  "map (\<lambda>b. 240 \<le> b) (utf8 c) = (if c < 0x10000 then replicate (len_utf8 c) False else [True, False, False, False])"
proof -
  consider "c < 0x80" | "0x80 \<le> c" "c < 0x800" "c div 0x40 < 0x20" | "0x800 \<le> c" "c < 0x10000" "c div 0x1000 < 0x10"
    | "0x10000 \<le> c"
    by (meson not_le less_mult_imp_div_less [of c "0x20" "0x40", simplified] less_mult_imp_div_less [of c "0x10" "0x1000", simplified])
  note cases = this
  note facts = utf8_def is_utf8_char_boundary_def char_mark_def byte_mark_def len_utf8_def replicate_small mod_64_bounds
  show "map is_utf8_char_boundary (utf8 c) = char_mark c" by (cases rule: cases) (simp_all add: facts)
  show "map (\<lambda>b. b = 10) (utf8 c) = byte_mark 10 c" by (cases rule: cases) (simp_all add: facts)
  show "map (\<lambda>b. b = 9) (utf8 c) = byte_mark 9 c" by (cases rule: cases) (simp_all add: facts)
  show "map (\<lambda>b. 240 \<le> b) (utf8 c) = (if c < 0x10000 then replicate (len_utf8 c) False else [True, False, False, False])"
    by (cases rule: cases) (simp_all add: facts)
qed

lemma marks_as_bytes:
  "map is_utf8_char_boundary (as_bytes cs) = marks char_mark cs"
  "map (\<lambda>b. b = 10) (as_bytes cs) = marks (byte_mark newline_char) cs"
  "map (\<lambda>b. b = 9) (as_bytes cs) = marks (byte_mark 9) cs"
  by (induction cs) (simp_all add: as_bytes_def utf8_marks newline_char_def)

lemma length_as_bytes: "length (as_bytes cs) = str_len cs"
  using length_marks(1) [of cs] by (simp flip: marks_as_bytes(1))

lemma bit_byte_bits:
  "bit (byte_bits P ix bs acc) n \<longleftrightarrow> bit acc n \<or> n < 8 \<and> ix \<le> n \<and> n - ix < length bs \<and> P (bs ! (n - ix))"
proof (induction P ix bs acc rule: byte_bits.induct)
  case (2 P ix b bs acc)
  have "bit (push_bit ix (of_bool (P b)) :: u8) n \<longleftrightarrow> n < 8 \<and> n = ix \<and> P b"
    by (auto simp: bit_simps)
  moreover have "ix < n \<Longrightarrow> n - ix = Suc (n - Suc ix)" by simp
  ultimately show ?case using 2 by (cases "n = ix"; cases "ix < n") (auto simp: bit_simps)
qed simp

lemma byte_bits_bitmap: "byte_bits P 0 bs 0 = bitmap_of (map P bs)"
  by (rule bit_eqI) (auto simp: bit_byte_bits bit_bitmap_of)

lemma ucast_bitmap_of: "length bs \<le> 8 \<Longrightarrow> (ucast (bitmap_of bs :: u8) :: bitmap) = bitmap_of bs"
  by (rule bit_eqI) (auto simp: bit_bitmap_of bit_simps)

lemma from_le_bytes_group: "from_le_bytes (group_bits P bs) = bitmap_of (map P bs)"
proof (induction P bs rule: group_bits.induct)
  case (1 P bs)
  show ?case
  proof (cases "bs = []")
    case False
    have "from_le_bytes (group_bits P bs) = bitmap_of (map P (take 8 bs)) OR push_bit 8 (bitmap_of (map P (drop 8 bs)))"
      using 1 [OF False] False by (subst group_bits.simps) (simp add: byte_bits_bitmap ucast_bitmap_of)
    also have "\<dots> = bitmap_of (map P (take 8 bs) @ map P (drop 8 bs))"
    proof (cases "length bs < 8")
      case False
      then show ?thesis by (simp add: bitmap_of_append)
    qed simp
    also have "\<dots> = bitmap_of (map P bs)" by (simp flip: map_append)
    finally show ?thesis .
  qed (simp add: group_bits.simps)
qed

lemma bitmap_of_or:
  "length xs = length ys \<Longrightarrow> bitmap_of xs OR bitmap_of ys = (bitmap_of (map2 (\<or>) xs ys) :: 'w::len word)"
  by (rule bit_eqI) (auto simp: bit_bitmap_of bit_simps)

lemma push_bitmap_of: "push_bit 1 (bitmap_of xs) = (bitmap_of (False # xs) :: 'w::len word)"
  using bitmap_of_append [of "[False]" xs, where 'w = 'w] by (simp add: bitmap_of_def)

text \<open>Each character of four bytes has its second byte marked by the shifted bitmap.\<close>

lemma utf16_marks_shift:
  "map2 (\<or>) (False # map (\<lambda>b. 240 \<le> b) (as_bytes cs)) (marks char_mark cs @ [False]) = marks utf16_mark cs @ [False]"
proof (induction cs)
  case (Cons c cs)
  define s where "s = (if c < 0x10000 then replicate (len_utf8 c) False else [False, True, False, False])"
  have shift: "False # map (\<lambda>b. 240 \<le> b) (utf8 c) = s @ [False]"
    by (simp add: utf8_marks s_def) (metis replicate_append_same replicate_Suc)
  have "map2 (\<or>) (False # map (\<lambda>b. 240 \<le> b) (as_bytes (c # cs))) (marks char_mark (c # cs) @ [False]) =
      map2 (\<or>) (s @ False # map (\<lambda>b. 240 \<le> b) (as_bytes cs)) (char_mark c @ marks char_mark cs @ [False])"
    using shift by (simp add: as_bytes_def) (metis append.assoc append_Cons append_Nil)
  also have "\<dots> = map2 (\<or>) s (char_mark c) @ marks utf16_mark cs @ [False]"
    using Cons by (simp add: s_def length_marked len_utf8_def)
  also have "map2 (\<or>) s (char_mark c) = utf16_mark c"
    by (auto simp: s_def utf16_mark_def char_mark_def len_utf8_def replicate_small)
  finally show ?case by simp
qed (simp add: as_bytes_def)

theorem chunk_new_ok:
  assumes "str_len txt \<le> 128"
  shows "\<exists>c. chunk_new txt = Some c \<and> chunk_ok c \<and> ck_text c = txt"
proof -
  have "push_bit 1 (bitmap_of (map (\<lambda>b. 240 \<le> b) (as_bytes txt))) OR bitmap_of (marks char_mark txt) =
      (bitmap_of (False # map (\<lambda>b. 240 \<le> b) (as_bytes txt)) OR bitmap_of (marks char_mark txt @ [False]) :: bitmap)"
    unfolding push_bitmap_of using bitmap_of_padded [of "marks char_mark txt" 1, where 'a = 128] by simp
  also have "\<dots> = bitmap_of (marks utf16_mark txt @ [False])"
    by (subst bitmap_of_or) (simp_all only: utf16_marks_shift, simp add: length_as_bytes)
  also have "\<dots> = bitmap_of (marks utf16_mark txt)" using bitmap_of_padded [of "marks utf16_mark txt" 1, where 'a = 128] by simp
  finally show ?thesis
    using assms by (simp add: chunk_new_def MAX_BASE_def chunk_ok_def from_le_bytes_group marks_as_bytes Let_def)
qed

section \<open>Operations keep the bitmaps right\<close>

lemma str_split_at_Some: "str_split_at n cs = Some (l, r) \<Longrightarrow> cs = l @ r \<and> str_len l = n"
  by (induction n cs arbitrary: l r rule: str_split_at.induct) (auto split: if_splits)

lemma str_split_at_append [simp]: "str_split_at (str_len l) (l @ r) = Some (l, r)"
proof (induction l)
  case Nil
  then show ?case by (cases r) auto
next
  case (Cons c l)
  then show ?case using len_utf8_pos [of c] by auto
qed

lemma str_split_at_iff: "str_split_at n cs = Some (l, r) \<longleftrightarrow> cs = l @ r \<and> str_len l = n"
  using str_split_at_Some by fastforce

lemma str_len_zero [simp]: "str_len cs = 0 \<longleftrightarrow> cs = []" "0 < str_len cs \<longleftrightarrow> cs \<noteq> []"
  using len_utf8_pos by (cases cs; simp)+

lemma mark_boundary:
  "n < str_len cs \<Longrightarrow> marks char_mark cs ! n \<longleftrightarrow> str_is_char_boundary cs n"
proof (induction cs arbitrary: n)
  case (Cons c cs)
  show ?case
  proof (cases "n < len_utf8 c")
    case True
    then show ?thesis
      by (auto simp: nth_append length_marked str_is_char_boundary_def char_mark_def nth_Cons split: nat.splits)
  next
    case False
    then show ?thesis using Cons.IH [of "n - len_utf8 c"] Cons.prems len_utf8_pos [of c]
      by (auto simp: nth_append length_marked str_is_char_boundary_def)
  qed
qed simp

lemma single_bit_and: "push_bit n 1 AND w \<noteq> 0 \<longleftrightarrow> bit w n" for w :: "'w::len word"
proof -
  have "push_bit n 1 AND w = (if bit w n then push_bit n 1 else 0)"
    by (rule bit_eqI) (auto simp: bit_simps)
  moreover have "bit w n \<Longrightarrow> push_bit n 1 \<noteq> (0 :: 'w word)"
    by (metis bit_imp_le_length bit_push_bit_iff bit_0_eq bit_1_0 bot_apply bot_bool_def diff_self_eq_0 order_refl possible_bit_word)
  ultimately show ?thesis by auto
qed

lemma str_is_char_boundary_len: "str_is_char_boundary cs (str_len cs)"
  using str_split_at_append [of cs "[]"] by (simp add: str_is_char_boundary_def)

lemma str_is_char_boundary_le: "str_is_char_boundary cs n \<Longrightarrow> n \<le> str_len cs"
  using str_split_at_Some [of n cs] by (auto simp: str_is_char_boundary_def)

lemma chunk_is_char_boundary_correct:
  assumes "chunk_ok c"
  shows "chunk_is_char_boundary c n \<longleftrightarrow> str_is_char_boundary (ck_text c) n"
proof -
  have "bit (ck_chars c) n \<longleftrightarrow> n < str_len (ck_text c) \<and> marks char_mark (ck_text c) ! n"
    using assms by (auto simp: chunk_ok_def bit_bitmap_of)
  then show ?thesis
    unfolding chunk_is_char_boundary_def single_bit_and
    using mark_boundary [of n "ck_text c"] str_is_char_boundary_len [of "ck_text c"] str_is_char_boundary_le [of "ck_text c" n]
    by auto
qed

lemma chunk_ok_empty: "chunk_ok chunk_empty"
  by (simp add: chunk_ok_def chunk_empty_def)

lemma shl_bitmap: "n < 128 \<Longrightarrow> shl (w :: bitmap) n = Some (push_bit n w)"
  by (simp add: shl_def)

lemma shr_bitmap: "n < 128 \<Longrightarrow> shr (w :: bitmap) n = Some (drop_bit n w)"
  by (simp add: shr_def)

lemma chunk_append_ok:
  assumes "chunk_ok a" and "chunk_ok b" and "str_len (ck_text a) + str_len (ck_text b) \<le> 128"
  shows "\<exists>c. chunk_append a b = Some c \<and> chunk_ok c \<and> ck_text c = ck_text a @ ck_text b"
proof (cases "ck_text b = []")
  case False
  then have "str_len (ck_text a) < 128" using assms(3) str_len_zero(2) [of "ck_text b"] by linarith
  with assms False show ?thesis
    by (simp add: chunk_append_def Let_def shl_bitmap MAX_BASE_def chunk_ok_def bitmap_of_append)
qed (use assms in \<open>simp add: chunk_append_def\<close>)

lemma chunk_prepend_ok:
  assumes "chunk_ok a" and "chunk_ok b" and "str_len (ck_text a) + str_len (ck_text b) \<le> 128"
  shows "\<exists>c. chunk_prepend a b = Some c \<and> chunk_ok c \<and> ck_text c = ck_text b @ ck_text a"
proof (cases "ck_text b = [] \<or> ck_text a = []")
  case True
  with assms chunk_new_ok [of "ck_text b"] show ?thesis by (auto simp: chunk_prepend_def)
next
  case False
  then have "str_len (ck_text b) < 128" using assms(3) str_len_zero(2) [of "ck_text a"] by linarith
  with assms False show ?thesis
    by (simp add: chunk_prepend_def Let_def shl_bitmap MAX_BASE_def chunk_ok_def bitmap_of_append)
qed

lemma chunk_append_full:
  assumes "128 < str_len (ck_text a) + str_len (ck_text b)" and "ck_text a \<noteq> []" and "ck_text b \<noteq> []"
  shows "chunk_append a b = None" and "chunk_prepend a b = None"
  using assms by (auto simp: chunk_append_def chunk_prepend_def Let_def shl_def MAX_BASE_def bind_require add.commute)

lemma chunk_split_at_ok:
  assumes "chunk_ok c" and "ck_text c = l @ r"
  shows "\<exists>a b. chunk_split_at c (str_len l) = Some (a, b) \<and> chunk_ok a \<and> chunk_ok b \<and> ck_text a = l \<and> ck_text b = r"
proof (cases "str_len l = 128")
  case True
  moreover from this assms have "r = []" by (auto simp: chunk_ok_def)
  ultimately show ?thesis using assms chunk_ok_empty by (auto simp: chunk_split_at_def MAX_BASE_def chunk_empty_def)
next
  case False
  with assms have "str_len l < 128" by (auto simp: chunk_ok_def)
  with assms show ?thesis
    by (simp add: chunk_split_at_def Let_def MAX_BASE_def shl_bitmap shr_bitmap chunk_ok_def bitmap_simps)
qed

lemma str_slice_append: "str_slice (l @ m @ r) (str_len l) (str_len l + str_len m) = Some m"
  using str_split_at_append [of "l @ m" r] by (simp add: str_slice_def)

lemma chunk_slice_ok:
  assumes "chunk_ok c" and "ck_text c = l @ m @ r"
  shows "\<exists>s. chunk_slice c (str_len l) (str_len l + str_len m) = Some s \<and> chunk_ok s \<and> ck_text s = m"
proof (cases "str_len l = 128")
  case True
  moreover from this assms have "m = []" by (auto simp: chunk_ok_def)
  ultimately show ?thesis using assms chunk_ok_empty by (auto simp: chunk_slice_def MAX_BASE_def chunk_empty_def)
next
  case False
  with assms have l: "str_len l < 128" by (auto simp: chunk_ok_def)
  have b: "chunk_is_char_boundary c (str_len l)" "chunk_is_char_boundary c (str_len l + str_len m)"
    using str_split_at_append [of l "m @ r"] str_split_at_append [of "l @ m" r] assms
    by (auto simp: chunk_is_char_boundary_correct str_is_char_boundary_def)
  have "chunk_slice c (str_len l) (str_len l + str_len m) =
      Some \<lparr>ck_chars = bitmap_of (marks char_mark m), ck_chars_utf16 = bitmap_of (marks utf16_mark m),
        ck_newlines = bitmap_of (marks (byte_mark newline_char) m), ck_tabs = bitmap_of (marks (byte_mark 9) m), ck_text = m\<rparr>"
    using assms l b by (simp add: chunk_slice_def Let_def MAX_BASE_def shr_bitmap chunk_ok_def bitmap_simps str_slice_append)
  with assms show ?thesis by (auto simp: chunk_ok_def)
qed

section \<open>The measures of a chunk are those of its text\<close>

lemma split_lines_plain: "newline_char \<notin> set cs \<Longrightarrow> split_lines cs = [cs]"
  by (induction cs) auto

lemma split_lines_line: "newline_char \<notin> set l \<Longrightarrow> split_lines (l @ newline_char # r) = l # split_lines r"
  by (induction l) auto

lemma length_split_lines: "length (split_lines cs) = Suc (length (filter ((=) newline_char) cs))"
  by (induction cs) (auto split: list.splits)

lemma last_line_split:
  obtains p where "cs = p @ last (split_lines cs)" and "newline_char \<notin> set (last (split_lines cs))"
    and "p = [] \<or> last p = newline_char"
proof (induction cs arbitrary: thesis rule: rev_induct)
  case (snoc c cs)
  from snoc.IH obtain p where p: "cs = p @ last (split_lines cs)" "newline_char \<notin> set (last (split_lines cs))"
    "p = [] \<or> last p = newline_char" by blast
  show ?case
  proof (cases "c = newline_char")
    case True
    then show ?thesis by (intro snoc.prems [of "cs @ [c]"]) (simp_all add: split_lines_snoc)
  next
    case False
    then show ?thesis using p by (intro snoc.prems [of p]) (simp_all add: split_lines_snoc)
  qed
qed simp

lemma newline_mark: "byte_mark newline_char newline_char = [True]" "len_utf8 newline_char = 1"
  by (simp_all add: byte_mark_def newline_char_def len_utf8_def)

lemma marks_plain: "newline_char \<notin> set l \<Longrightarrow> marks (byte_mark newline_char) l = replicate (str_len l) False"
  by (induction l) (auto simp: byte_mark_def replicate_add)

lemma trailing_line:
  "length (takeWhile Not (rev (marks (byte_mark newline_char) cs))) = str_len (last (split_lines cs))"
proof -
  obtain p where p: "cs = p @ last (split_lines cs)" "newline_char \<notin> set (last (split_lines cs))"
    "p = [] \<or> last p = newline_char" by (rule last_line_split)
  have "marks (byte_mark newline_char) cs = marks (byte_mark newline_char) p @ replicate (str_len (last (split_lines cs))) False"
    using p(2) by (subst p(1)) (simp add: marks_plain)
  moreover have "takeWhile Not (rev (marks (byte_mark newline_char) p)) = []"
    using p(3) by (cases p rule: rev_cases) (auto simp: newline_mark)
  ultimately show ?thesis by (simp add: takeWhile_Not_False_append)
qed

lemma leading_line:
  "length (takeWhile Not (marks (byte_mark newline_char) cs)) = str_len (hd (split_lines cs)) \<and>
   (True \<in> set (marks (byte_mark newline_char) cs) \<longleftrightarrow> newline_char \<in> set cs)"
proof (cases "newline_char \<in> set cs")
  case True
  then obtain l r where cs: "cs = l @ newline_char # r" "newline_char \<notin> set l" by (meson split_list_first)
  then show ?thesis by (simp add: split_lines_line marks_plain newline_mark takeWhile_Not_False_append)
next
  case False
  then show ?thesis by (auto simp: split_lines_plain marks_plain)
qed

lemma chunk_okD:
  assumes "chunk_ok c"
  shows "str_len (ck_text c) \<le> 128" and "ck_chars c = bitmap_of (marks char_mark (ck_text c))"
    and "ck_chars_utf16 c = bitmap_of (marks utf16_mark (ck_text c))"
    and "ck_newlines c = bitmap_of (marks (byte_mark newline_char) (ck_text c))"
    and "ck_tabs c = bitmap_of (marks (byte_mark 9) (ck_text c))"
  using assms by (auto simp: chunk_ok_def)

lemma str_len_last_line: "str_len (last (split_lines cs)) \<le> str_len cs"
  by (rule last_line_split [of cs]) (metis le_add2 str_len_simps(3))

lemma last_line_drop:
  assumes "\<And>c. length (f c) = len_utf8 c"
  shows "drop (str_len cs - str_len (last (split_lines cs))) (marks f cs) = marks f (last (split_lines cs))"
proof -
  obtain p where p: "cs = p @ last (split_lines cs)" by (rule last_line_split)
  then have "str_len cs = str_len p + str_len (last (split_lines cs))" by (metis str_len_simps(3))
  moreover have "marks f cs = marks f p @ marks f (last (split_lines cs))" using p by (metis marks_append)
  ultimately show ?thesis by (simp add: length_marks_gen [OF assms])
qed

lemma chunk_lines_correct:
  assumes "chunk_ok c"
  shows "chunk_lines c = Some (Point (length (split_lines (ck_text c)) - 1) (str_len (last (split_lines (ck_text c)))))"
  using chunk_okD [OF assms] str_len_last_line [of "ck_text c"]
  by (simp add: chunk_lines_def Let_def count_ones_bitmap_of leading_zeros_bitmap_of count_marks trailing_line
      length_split_lines point_new_def bind_require)

lemma trailing_newlines:
  assumes "str_len cs \<le> 128"
  shows "trailing_zeros (bitmap_of (marks (byte_mark newline_char) cs) :: bitmap) =
    (if newline_char \<in> set cs then str_len (hd (split_lines cs)) else 128)"
  using assms leading_line [of cs] by (simp add: trailing_zeros_bitmap_of)

lemma first_line_chars_correct:
  assumes "chunk_ok c"
  shows "chunk_first_line_chars c = length (hd (split_lines (ck_text c)))"
proof (cases "newline_char \<in> set (ck_text c)")
  case True
  then obtain l r where cs: "ck_text c = l @ newline_char # r" "newline_char \<notin> set l" by (meson split_list_first)
  have "trailing_zeros (ck_newlines c) = str_len l"
    using chunk_okD(1,4) [OF assms] trailing_newlines [of "ck_text c"] True by (simp add: cs split_lines_line)
  with chunk_okD [OF assms] cs show ?thesis
    by (simp add: chunk_first_line_chars_def saturating_shl_mask_def bitmap_simps count_marks split_lines_line)
next
  case False
  then have "trailing_zeros (ck_newlines c) = 128" using chunk_okD [OF assms] trailing_newlines [of "ck_text c"] by simp
  then have "chunk_first_line_chars c = count_ones (bitmap_of (take 128 (marks char_mark (ck_text c))) :: bitmap)"
    unfolding chunk_first_line_chars_def saturating_shl_mask_def chunk_okD(2) [OF assms] by (simp only: mask_bitmap_of)
  with False chunk_okD(1) [OF assms] show ?thesis by (simp add: count_ones_bitmap_of count_marks split_lines_plain)
qed

lemma last_line_bits:
  assumes "chunk_ok c" and "\<And>x. length (f x) = len_utf8 x"
  shows "count_ones (bitmap_of (marks f (ck_text c)) AND saturating_shr_mask (leading_zeros (ck_newlines c))) =
    length (filter id (marks f (last (split_lines (ck_text c)))))"
proof -
  let ?l = "last (split_lines (ck_text c))"
  have len: "length (marks f (ck_text c)) \<le> 128" using chunk_okD(1) [OF assms(1)] by (simp add: length_marks_gen assms(2))
  have "128 - leading_zeros (ck_newlines c) = str_len (ck_text c) - str_len ?l"
    using chunk_okD [OF assms(1)] str_len_last_line [of "ck_text c"] by (simp add: leading_zeros_bitmap_of trailing_line)
  with len chunk_okD(1) [OF assms(1)] show ?thesis
    by (simp add: high_mask_bitmap_of last_line_drop assms(2) count_ones_bitmap_of length_marks_gen str_len_last_line)
qed

lemma last_line_correct:
  assumes "chunk_ok c"
  shows "chunk_last_line_chars c = length (last (split_lines (ck_text c)))"
    and "chunk_last_line_len_utf16 c = sum_list (map char_len_utf16 (last (split_lines (ck_text c))))"
  using last_line_bits [OF assms, of char_mark] last_line_bits [OF assms, of utf16_mark] chunk_okD(2,3) [OF assms]
  by (simp_all add: chunk_last_line_chars_def chunk_last_line_len_utf16_def length_marked count_marks)

text \<open>The first longest of some lines, as the loop finds it.\<close>

definition better_row :: "nat \<Rightarrow> nat \<Rightarrow> nat \<times> nat \<Rightarrow> nat \<times> nat" where
  "better_row r n best = (if snd best < n then (r, n) else best)"

fun best_row :: "nat \<Rightarrow> nat \<times> nat \<Rightarrow> str list \<Rightarrow> nat \<times> nat" where
  "best_row r best [] = best"
| "best_row r best (l # ls) = best_row (Suc r) (better_row r (length l) best) ls"

lemma best_row_snoc: "best_row r best (ls @ [l]) = better_row (r + length ls) (length l) (best_row r best ls)"
  by (induction ls arbitrary: r best) auto

lemma best_row_longest:
  assumes "ls \<noteq> []"
  shows "longest_line ls (fst (best_row 0 (0, 0) ls)) \<and> snd (best_row 0 (0, 0) ls) = length (ls ! fst (best_row 0 (0, 0) ls))"
  using assms
proof (induction ls rule: rev_induct)
  case (snoc l ls)
  show ?case
  proof (cases "ls = []")
    case True
    then show ?thesis by (simp add: better_row_def longest_line_def)
  next
    case False
    with snoc.IH show ?thesis
      by (auto simp: best_row_snoc better_row_def longest_line_def nth_append less_Suc_eq not_less)
  qed
qed simp

lemma longest_line_unique:
  assumes "longest_line ls i" and "longest_line ls j"
  shows "i = j"
  using assms unfolding longest_line_def by (metis leD linorder_neqE_nat)

lemma longest_row_loop_correct:
  assumes "str_len cs \<le> 128"
  shows "longest_row_loop (bitmap_of (marks char_mark cs)) (bitmap_of (marks (byte_mark newline_char) cs)) n r (fst best) (snd best) =
    (n + length cs, best_row r best (split_lines cs))"
  using assms
proof (induction "length cs" arbitrary: cs n r best rule: less_induct)
  case less
  let ?chars = "bitmap_of (marks char_mark cs) :: bitmap" and ?nl = "bitmap_of (marks (byte_mark newline_char) cs) :: bitmap"
  have nz: "?nl \<noteq> 0 \<longleftrightarrow> newline_char \<in> set cs" using less.prems leading_line [of cs] by (simp add: bitmap_of_zero_iff)
  show ?case
  proof (cases "newline_char \<in> set cs")
    case True
    then obtain l r' where cs: "cs = l @ newline_char # r'" "newline_char \<notin> set l" by (meson split_list_first)
    have tz: "trailing_zeros ?nl = str_len l"
      using less.prems trailing_newlines [of cs] True by (simp add: cs split_lines_line)
    have rc: "count_ones (?chars AND (push_bit (str_len l) 1 - 1)) = length l"
      using less.prems cs by (simp add: bitmap_simps count_marks)
    have rest: "drop_bit 1 (drop_bit (str_len l) ?chars) = bitmap_of (marks char_mark r')"
        "drop_bit 1 (drop_bit (str_len l) ?nl) = bitmap_of (marks (byte_mark newline_char) r')"
      using less.prems cs by (simp_all add: drop_bitmap_of newline_mark char_mark_def del: drop_bit_drop_bit)
    have "longest_row_loop ?chars ?nl n r (fst best) (snd best) =
        longest_row_loop (bitmap_of (marks char_mark r')) (bitmap_of (marks (byte_mark newline_char) r')) (n + length l + 1) (r + 1)
          (fst (better_row r (length l) best)) (snd (better_row r (length l) best))"
      using True nz unfolding longest_row_loop.simps [of ?chars ?nl] tz rc Let_def rest
      by (auto simp: better_row_def case_prod_unfold)
    also have "\<dots> = (n + length cs, best_row r best (split_lines cs))"
      using less.hyps [of r' "n + length l + 1" "r + 1" "better_row r (length l) best"] less.prems cs
      by (simp add: split_lines_line)
    finally show ?thesis .
  next
    case False
    then show ?thesis using nz less.prems
      by (subst longest_row_loop.simps) (simp add: Let_def count_ones_bitmap_of count_marks split_lines_plain better_row_def)
  qed
qed

theorem chunk_text_summary_correct:
  assumes "chunk_ok c"
  shows "chunk_text_summary c = Some (summary_from (ck_text c))"
proof -
  let ?cs = "ck_text c" and ?s = "summary_from (ck_text c) :: nat text_summary"
  let ?best = "best_row 0 (0, 0) (split_lines ?cs)"
  have row: "chunk_longest_row c = (length ?cs, ?best)"
    using longest_row_loop_correct [of ?cs 0 0 "(0, 0)"] chunk_okD [OF assms] by (simp add: chunk_longest_row_def)
  have s: "summarises ?s ?cs" "ts_len ?s = str_len ?cs" using summary_from_summarises [of ?cs] by auto
  have best1: "fst ?best = ts_longest_row ?s"
    using best_row_longest [of "split_lines ?cs"] s(1) longest_line_unique by (auto simp: summarises_def)
  then have best: "fst ?best = ts_longest_row ?s" "snd ?best = ts_longest_row_chars ?s"
    using best_row_longest [of "split_lines ?cs"] s(1) by (auto simp: summarises_def)
  have utf16: "chunk_len_utf16 c = sum_list (map char_len_utf16 ?cs)"
    using chunk_okD [OF assms] by (simp add: chunk_len_utf16_def count_ones_bitmap_of count_marks)
  show ?thesis
    using s best unfolding chunk_text_summary_def row Let_def
    by (simp add: chunk_lines_correct [OF assms] first_line_chars_correct [OF assms] last_line_correct [OF assms] utf16
        chunk_len_def summarises_def case_prod_unfold)
qed

end
