(* ===== verification/Chunk_Convert.thy ===== *)
theory Chunk_Convert
  imports Chunk
begin

text \<open>
  The crate \<open>rope\<close>, file \<open>chunk.rs\<close>: the conversions between byte offsets, UTF-16 offsets, points and
  UTF-16 points inside a chunk, clipping to valid positions, and the iterator over tabs. Where the
  source reports a position out of range with \<open>debug_panic!\<close>, the model follows the build without
  debug assertions, which logs the position and goes on; every other panic is \<open>None\<close>.
\<close>

section \<open>Byte offsets to other positions\<close>

definition chunk_offset_to_point :: "chunk \<Rightarrow> nat \<Rightarrow> nat point option" where
  "chunk_offset_to_point c offset = do {
     let mask = push_bit offset 1 - 1;
     let r = count_ones (ck_newlines c AND mask);
     let newline_ix = 128 - leading_zeros (ck_newlines c AND mask);
     col \<leftarrow> usize_sub offset newline_ix;
     Some (point_new r col) }"

definition chunk_offset_to_offset_utf16 :: "chunk \<Rightarrow> nat \<Rightarrow> offset_utf16" where
  "chunk_offset_to_offset_utf16 c offset = OffsetUtf16 (count_ones (ck_chars_utf16 c AND (push_bit offset 1 - 1)))"

definition chunk_offset_to_point_utf16 :: "chunk \<Rightarrow> nat \<Rightarrow> nat point_utf16 option" where
  "chunk_offset_to_point_utf16 c offset = do {
     let mask = saturating_shl_mask offset;
     let r = count_ones (ck_newlines c AND saturating_shl_mask offset);
     let newline_ix = 128 - leading_zeros (ck_newlines c AND mask);
     col \<leftarrow> (if newline_ix = MAX_BASE then Some 0
            else map_option count_ones (shr (ck_chars_utf16 c AND mask) newline_ix));
     Some (PointUtf16 r col) }"

text \<open>\<open>Chunk::floor_char_boundary\<close> looks for the start of a character among the bytes.\<close>

fun floor_loop :: "nat list \<Rightarrow> nat \<Rightarrow> nat" where
  "floor_loop bytes i =
     (if 0 < i then if is_utf8_char_boundary (bytes ! i) then i else floor_loop bytes (i - 1) else i)"

declare floor_loop.simps [simp del]

definition chunk_floor_char_boundary :: "chunk \<Rightarrow> nat \<Rightarrow> nat" where
  "chunk_floor_char_boundary c index =
     (if str_len (ck_text c) \<le> index then str_len (ck_text c) else floor_loop (as_bytes (ck_text c)) index)"

section \<open>Other positions to byte offsets\<close>

definition offset_range_for_row :: "chunk \<Rightarrow> nat \<Rightarrow> (nat \<times> nat) option" where
  "offset_range_for_row c r = do {
     let row_start = (if 0 < r then nth_set_bit (ck_newlines c) r + 1 else 0);
     row_len \<leftarrow> (if row_start = MAX_BASE then Some 0
                else do {
                  newlines \<leftarrow> shr (ck_newlines c) row_start;
                  rest \<leftarrow> usize_sub (str_len (ck_text c)) row_start;
                  Some (min (trailing_zeros newlines) rest) });
     Some (row_start, row_start + row_len) }"

definition chunk_point_to_offset :: "chunk \<Rightarrow> nat point \<Rightarrow> nat option" where
  "chunk_point_to_offset c p = do {
     lines \<leftarrow> chunk_lines c;
     if row lines < row p then Some (chunk_len c)
     else do {
       (row_start, row_end) \<leftarrow> offset_range_for_row c (row p);
       Some (if row_end - row_start < column p then row_end else row_start + column p) } }"

definition chunk_point_to_offset_utf16 :: "chunk \<Rightarrow> nat point \<Rightarrow> offset_utf16 option" where
  "chunk_point_to_offset_utf16 c p = do {
     lines \<leftarrow> chunk_lines c;
     if row lines < row p then Some (OffsetUtf16 (chunk_len_utf16 c))
     else do { offset \<leftarrow> chunk_point_to_offset c p; Some (chunk_offset_to_offset_utf16 c offset) } }"

definition chunk_point_to_point_utf16 :: "chunk \<Rightarrow> nat point \<Rightarrow> nat point_utf16 option" where
  "chunk_point_to_point_utf16 c p = do { offset \<leftarrow> chunk_point_to_offset c p; chunk_offset_to_point_utf16 c offset }"

definition chunk_offset_utf16_to_offset :: "chunk \<Rightarrow> offset_utf16 \<Rightarrow> nat option" where
  "chunk_offset_utf16_to_offset c target =
     (if offset_value target = 0 then Some 0
      else do {
        let ix = nth_set_bit (ck_chars_utf16 c) (offset_value target) + 1;
        if ix = MAX_BASE then Some MAX_BASE
        else do {
          chars_utf16 \<leftarrow> shr (ck_chars_utf16 c) ix;
          rest \<leftarrow> usize_sub (str_len (ck_text c)) ix;
          Some (ix + min (trailing_zeros chars_utf16) rest) } })"

text \<open>Step back to the closest character boundary.\<close>

fun back_to_boundary :: "str \<Rightarrow> nat \<Rightarrow> nat" where
  "back_to_boundary cs 0 = 0"
| "back_to_boundary cs (Suc n) = (if str_is_char_boundary cs (Suc n) then Suc n else back_to_boundary cs n)"

definition chunk_point_utf16_to_offset :: "chunk \<Rightarrow> nat point_utf16 \<Rightarrow> bool \<Rightarrow> nat option" where
  "chunk_point_utf16_to_offset c p clip = do {
     lines \<leftarrow> chunk_lines c;
     if row lines < row_utf16 p then Some (chunk_len c)
     else do {
       (row_start, row_end) \<leftarrow> offset_range_for_row c (row_utf16 p);
       line \<leftarrow> chunk_slice c row_start row_end;
       if chunk_last_line_len_utf16 line < column_utf16 p then Some row_end
       else if 0 < column_utf16 p then do {
         d \<leftarrow> chunk_offset_utf16_to_offset line (OffsetUtf16 (column_utf16 p));
         Some (back_to_boundary (ck_text c) (row_start + d)) }
       else Some row_start } }"

definition unclipped_point_utf16_to_point :: "chunk \<Rightarrow> nat point_utf16 unclipped \<Rightarrow> nat point option" where
  "unclipped_point_utf16_to_point c p = do {
     max_point \<leftarrow> chunk_lines c;
     let p = unclipped_value p;
     if row max_point < row_utf16 p then Some max_point
     else do {
       (row_start, row_end) \<leftarrow> offset_range_for_row c (row_utf16 p);
       line \<leftarrow> chunk_slice c row_start row_end;
       if column_utf16 p = 0 then Some (point_new (row_utf16 p) 0)
       else if chunk_len_utf16 line \<le> column_utf16 p then Some (point_new (row_utf16 p) (chunk_len line))
       else do {
         col \<leftarrow> chunk_offset_utf16_to_offset line (OffsetUtf16 (column_utf16 p));
         Some (point_new (row_utf16 p) (back_to_boundary (ck_text line) col)) } } }"

section \<open>Clipping\<close>

text \<open>Step to the closest character boundary in the direction of the bias.\<close>

partial_function (option) clip_loop :: "(nat \<Rightarrow> bool) \<Rightarrow> bias \<Rightarrow> nat \<Rightarrow> nat option" where
  "clip_loop stop b n =
     (if stop n then Some n
      else if b = Left then (if n = 0 then None else clip_loop stop b (n - 1))
      else clip_loop stop b (n + 1))"

declare clip_loop.simps [code]

text \<open>
  \<open>clip_point\<close> stops at boundaries of grapheme clusters, which the crate \<open>unicode_segmentation\<close> finds;
  \<open>grapheme txt n\<close> is what \<open>GraphemeCursor::is_boundary\<close> answers for the byte offset \<open>n\<close> in a text.
\<close>

definition chunk_clip_point :: "(str \<Rightarrow> nat \<Rightarrow> bool) \<Rightarrow> chunk \<Rightarrow> nat point \<Rightarrow> bias \<Rightarrow> nat point option" where
  "chunk_clip_point grapheme c p b = do {
     max_point \<leftarrow> chunk_lines c;
     if row max_point < row p then Some max_point
     else do {
       (row_start, row_end) \<leftarrow> offset_range_for_row c (row p);
       line \<leftarrow> chunk_slice c row_start row_end;
       if column p = 0 then Some p
       else if chunk_len line \<le> column p then Some (point_new (row p) (chunk_len line))
       else let bytes = as_bytes (ck_text line) in
         if bytes ! (column p - 1) < 128 \<and> bytes ! column p < 128 then Some (point_new (row p) (column p))
         else do {
           col \<leftarrow> clip_loop (\<lambda>n. chunk_is_char_boundary line n \<and> grapheme (ck_text line) n) b (column p);
           Some (point_new (row p) col) } } }"

definition chunk_clip_offset_utf16 :: "chunk \<Rightarrow> offset_utf16 \<Rightarrow> bias \<Rightarrow> offset_utf16 option" where
  "chunk_clip_offset_utf16 c target b =
     (if offset_value target = 0 then Some (OffsetUtf16 0)
      else if chunk_len_utf16 c \<le> offset_value target then Some (OffsetUtf16 (chunk_len_utf16 c))
      else do {
        offset \<leftarrow> chunk_offset_utf16_to_offset c target;
        offset \<leftarrow> clip_loop (str_is_char_boundary (ck_text c)) b offset;
        Some (chunk_offset_to_offset_utf16 c offset) })"

definition chunk_clip_point_utf16 :: "chunk \<Rightarrow> nat point_utf16 unclipped \<Rightarrow> bias \<Rightarrow> nat point_utf16 option" where
  "chunk_clip_point_utf16 c p b = do {
     max_point \<leftarrow> chunk_lines c;
     let p = unclipped_value p;
     if row max_point < row_utf16 p then Some (PointUtf16 (row max_point) (chunk_last_line_len_utf16 c))
     else do {
       (row_start, row_end) \<leftarrow> offset_range_for_row c (row_utf16 p);
       line \<leftarrow> chunk_slice c row_start row_end;
       col \<leftarrow> chunk_clip_offset_utf16 line (OffsetUtf16 (column_utf16 p)) b;
       Some (PointUtf16 (row_utf16 p) (offset_value col)) } }"

section \<open>Tabs\<close>

text \<open>The iterator holds the tabs not yet yielded and the starts of characters.\<close>

record tabs_iter =
  tabs_left :: bitmap
  tabs_chars :: bitmap

record tab_position =
  byte_offset :: nat
  char_offset :: nat

definition chunk_tabs :: "chunk \<Rightarrow> tabs_iter" where
  "chunk_tabs c = \<lparr>tabs_left = ck_tabs c, tabs_chars = ck_chars c\<rparr>"

definition tabs_next :: "tabs_iter \<Rightarrow> (tab_position \<times> tabs_iter) option" where
  "tabs_next it =
     (if tabs_left it = 0 then None
      else let tab_offset = trailing_zeros (tabs_left it);
               chars_mask = push_bit tab_offset 1 - 1;
               char_offset = count_ones (tabs_chars it AND chars_mask)
           in Some (\<lparr>byte_offset = tab_offset, char_offset = char_offset\<rparr>,
                    it\<lparr>tabs_left := tabs_left it XOR push_bit tab_offset 1\<rparr>))"

section \<open>Rows\<close>

lemma bits_before:
  obtains q where "bs = q @ replicate (length (takeWhile Not (rev bs))) False" and "q = [] \<or> last q"
    and "length (filter id q) = length (filter id bs)"
proof -
  let ?t = "takeWhile Not (rev bs)" and ?q = "rev (dropWhile Not (rev bs))"
  have t: "?t = replicate (length ?t) False"
    using set_takeWhileD [of _ Not "rev bs"] by (intro replicate_eqI [symmetric, THEN sym]) auto
  have bs: "bs = ?q @ rev ?t" by (metis rev_append rev_rev_ident takeWhile_dropWhile_id)
  then have "bs = ?q @ replicate (length ?t) False" by (metis t rev_replicate)
  moreover have "?q = [] \<or> last ?q"
    by (metis (full_types) hd_dropWhile last_rev rev_is_Nil_conv)
  moreover have "length (filter id ?q) = length (filter id bs)"
    using arg_cong [OF bs, of "\<lambda>x. length (filter id x)"] arg_cong [OF t, of "\<lambda>x. length (filter id x)"] by (simp add: rev_filter [symmetric])
  ultimately show ?thesis by (rule that)
qed

lemma selects_middle: "selects (q @ True # r) (Suc (length (filter id q))) (length q)"
  by (simp add: selects_def)

lemma filter_take_le: "length (filter P (take n xs)) \<le> length (filter P xs)"
  by (metis append_take_drop_id filter_append le_add1 length_append)

text \<open>The start of the row a bit is in, from the number of newlines before it.\<close>

lemma row_start:
  assumes "length bs \<le> 128" and "n \<le> length bs"
  shows "(if 0 < length (filter id (take n bs)) then nth_set_bit (bitmap_of bs) (length (filter id (take n bs))) + 1 else 0) =
    n - length (takeWhile Not (rev (take n bs)))"
proof -
  let ?k = "length (filter id (take n bs))" and ?t = "length (takeWhile Not (rev (take n bs)))"
  obtain q where q: "take n bs = q @ replicate ?t False" "q = [] \<or> last q" "length (filter id q) = ?k"
    by (rule bits_before)
  have len: "length q = n - ?t" using arg_cong [OF q(1), of length] assms(2) by simp
  show ?thesis
  proof (cases q rule: rev_cases)
    case Nil
    with q(3) len show ?thesis by simp
  next
    case (snoc q' b)
    with q(2) have q': "q = q' @ [True]" by simp
    have bs: "bs = q' @ True # replicate ?t False @ drop n bs"
      by (metis append.assoc append_Cons append_Nil append_take_drop_id q(1) q')
    have k: "?k = Suc (length (filter id q'))" using q(3) q' by simp
    have "selects (q' @ True # replicate ?t False @ drop n bs) ?k (length q')" unfolding k by (rule selects_middle)
    then have "selects bs ?k (length q')" using bs by metis
    moreover have "selects bs ?k (nth_set_bit (bitmap_of bs) ?k)"
      using assms(1) k filter_take_le [of id n bs] by (intro nth_set_bit_bitmap_of) simp_all
    ultimately have "nth_set_bit (bitmap_of bs) ?k = length q'" by (blast intro: selects_unique)
    with k snoc len show ?thesis by simp
  qed
qed

lemma min_trailing_zeros:
  assumes "length bs \<le> 128"
  shows "min (trailing_zeros (bitmap_of bs :: bitmap)) (length bs) = length (takeWhile Not bs)"
  using assms length_takeWhile_le [of Not bs] takeWhile_Not_length [of bs] by (auto simp: trailing_zeros_bitmap_of min_def)

lemma offset_range_bits:
  assumes "chunk_ok c" and "n \<le> str_len (ck_text c)" and "bs = marks (byte_mark newline_char) (ck_text c)"
    and "s = n - length (takeWhile Not (rev (take n bs)))"
  shows "offset_range_for_row c (length (filter id (take n bs))) = Some (s, s + length (takeWhile Not (drop s bs)))"
proof -
  have len: "length bs = str_len (ck_text c)" "length bs \<le> 128" using assms(1,3) by (auto simp: chunk_ok_def)
  have s: "(if 0 < length (filter id (take n bs)) then nth_set_bit (ck_newlines c) (length (filter id (take n bs))) + 1 else 0) = s"
    unfolding chunk_okD(4) [OF assms(1)] assms(3) [symmetric] assms(4) using row_start [OF len(2)] assms(2) len(1) by simp
  show ?thesis
  proof (cases "s = 128")
    case True
    then show ?thesis using len unfolding offset_range_for_row_def Let_def s by (simp add: MAX_BASE_def)
  next
    case False
    have "s \<le> length bs" using assms(2,4) len by simp
    with False len have "s < 128" "length (drop s bs) \<le> 128" by auto
    then show ?thesis
      using False len \<open>s \<le> length bs\<close> min_trailing_zeros [of "drop s bs"] chunk_okD(4) [OF assms(1)] assms(3)
      unfolding offset_range_for_row_def Let_def s
      by (simp add: MAX_BASE_def shr_bitmap drop_bitmap_of usize_sub_def)
  qed
qed

text \<open>A byte offset goes to the point with the newlines before it as row, and back.\<close>

lemma offset_to_point_bits:
  assumes "chunk_ok c" and "n \<le> str_len (ck_text c)" and "bs = marks (byte_mark newline_char) (ck_text c)"
  shows "chunk_offset_to_point c n =
    Some (Point (length (filter id (take n bs))) (length (takeWhile Not (rev (take n bs)))))"
proof -
  have len: "length bs = str_len (ck_text c)" "length bs \<le> 128" using assms(1,3) by (auto simp: chunk_ok_def)
  have le: "length (takeWhile Not (rev (take n bs))) \<le> n" using length_takeWhile_le [of Not "rev (take n bs)"] by simp
  have "128 - (128 - n + length (takeWhile Not (rev (take n bs)))) = n - length (takeWhile Not (rev (take n bs)))"
    using le assms(2) len by linarith
  then show ?thesis
    using le assms(2) len chunk_okD(4) [OF assms(1)] assms(3)
    by (simp add: chunk_offset_to_point_def Let_def mask_bitmap_of_exp count_ones_bitmap_of leading_zeros_bitmap_of
        usize_sub_def point_new_def)
qed

theorem point_roundtrip:
  assumes "chunk_ok c" and "n \<le> str_len (ck_text c)"
  shows "\<exists>p. chunk_offset_to_point c n = Some p \<and> chunk_point_to_offset c p = Some n"
proof -
  define bs where "bs = marks (byte_mark newline_char) (ck_text c)"
  have len: "length bs = str_len (ck_text c)" using assms(1) by (simp add: bs_def)
  let ?k = "length (filter id (take n bs))" and ?t = "length (takeWhile Not (rev (take n bs)))"
  have le: "?t \<le> n" using length_takeWhile_le [of Not "rev (take n bs)"] by simp
  obtain q where q: "take n bs = q @ replicate ?t False" by (rule bits_before)
  have "drop (n - ?t) bs = replicate ?t False @ drop n bs"
  proof -
    have "length q = n - ?t" using arg_cong [OF q, of length] assms(2) len by simp
    moreover have "bs = q @ replicate ?t False @ drop n bs" by (metis append.assoc append_take_drop_id q)
    ultimately show ?thesis by (metis append_eq_conv_conj)
  qed
  then have tail: "?t \<le> length (takeWhile Not (drop (n - ?t) bs))" by (simp add: takeWhile_Not_False_append)
  have row: "?k \<le> length (split_lines (ck_text c)) - 1"
  proof -
    have "?k \<le> length (filter id bs)" by (rule filter_take_le)
    then show ?thesis by (simp add: bs_def count_marks length_split_lines)
  qed
  show ?thesis
    using offset_to_point_bits [OF assms bs_def] offset_range_bits [OF assms bs_def refl] tail row le
    by (simp add: chunk_point_to_offset_def chunk_lines_correct [OF assms(1)])
qed

section \<open>Positions at character boundaries\<close>

definition utf16_len :: "str \<Rightarrow> nat" where
  "utf16_len cs = sum_list (map char_len_utf16 cs)"

lemma utf16_len_simps [simp]: "utf16_len [] = 0" "utf16_len (c # cs) = char_len_utf16 c + utf16_len cs"
    "utf16_len (xs @ ys) = utf16_len xs + utf16_len ys"
  by (simp_all add: utf16_len_def)

lemma take_marks: "(\<And>c. length (f c) = len_utf8 c) \<Longrightarrow> take (str_len l) (marks f (l @ r)) = marks f l"
  by (simp add: length_marks_gen)

lemma offset_to_point_prefix:
  assumes "chunk_ok c" and "ck_text c = l @ r"
  shows "chunk_offset_to_point c (str_len l) = Some (ts_lines (summary_from l))"
proof -
  have "summarises (summary_from l) l" using summary_from_summarises by blast
  moreover have "take (str_len l) (marks (byte_mark newline_char) (l @ r)) = marks (byte_mark newline_char) l"
    using take_marks [of "byte_mark newline_char" l r] by (simp add: length_marked newline_small)
  ultimately show ?thesis
    using offset_to_point_bits [OF assms(1) _ refl, of "str_len l"] assms(2)
    by (simp add: count_marks trailing_line length_split_lines summarises_def del: marks_append)
qed

lemma offset_to_offset_utf16_prefix:
  assumes "chunk_ok c" and "ck_text c = l @ r"
  shows "chunk_offset_to_offset_utf16 c (str_len l) = OffsetUtf16 (utf16_len l)"
  using chunk_okD [OF assms(1)] assms(2)
  by (simp add: chunk_offset_to_offset_utf16_def mask_bitmap_of_exp count_ones_bitmap_of count_marks utf16_len_def)

lemma offset_to_point_utf16_prefix:
  assumes "chunk_ok c" and "ck_text c = l @ r"
  shows "chunk_offset_to_point_utf16 c (str_len l) = Some (lines_utf16 (summary_from l))"
proof -
  let ?last = "last (split_lines l)" and ?nl = "marks (byte_mark newline_char)"
  have s: "summarises (summary_from l) l" using summary_from_summarises by blast
  have fit: "str_len l \<le> 128" using chunk_okD(1) [OF assms(1)] assms(2) by simp
  obtain p where p: "l = p @ ?last" by (rule last_line_split)
  then have lenp: "str_len l = str_len p + str_len ?last" by (metis str_len_simps(3))
  have mask: "ck_newlines c AND saturating_shl_mask (str_len l) = bitmap_of (?nl l)"
      "ck_chars_utf16 c AND saturating_shl_mask (str_len l) = bitmap_of (marks utf16_mark l)"
    using chunk_okD [OF assms(1)] assms(2) by (simp_all add: saturating_shl_mask_def mask_bitmap_of_exp)
  have ix: "128 - leading_zeros (bitmap_of (?nl l) :: bitmap) = str_len p"
    using fit lenp by (simp add: leading_zeros_bitmap_of trailing_line)
  have "(if str_len p = 128 then Some 0 else map_option count_ones (shr (bitmap_of (marks utf16_mark l) :: bitmap) (str_len p))) =
      Some (utf16_len ?last)"
  proof (cases "str_len p = 128")
    case True
    with fit lenp have "?last = []" by simp
    with True show ?thesis by simp
  next
    case False
    with fit lenp have small: "str_len p < 128" by simp
    have "drop (str_len p) (marks utf16_mark l) = marks utf16_mark ?last"
      by (subst p, subst marks_append) (simp add: length_marks)
    with small fit lenp show ?thesis
      by (simp add: shr_bitmap drop_bitmap_of count_ones_bitmap_of count_marks utf16_len_def)
  qed
  with s fit show ?thesis
    unfolding chunk_offset_to_point_utf16_def Let_def mask ix
    by (simp add: MAX_BASE_def count_ones_bitmap_of count_marks lines_utf16_def summarises_def length_split_lines utf16_len_def)
qed

section \<open>UTF-16 offsets\<close>

text \<open>Every mark of a character ends in its last set bit followed by zeros, and the next character starts with a set bit.\<close>

lemma utf16_mark_shape:
  obtains a k where "utf16_mark c = a @ True # replicate k False" and "Suc (length (filter id a)) = char_len_utf16 c"
proof (cases "c < 0x10000")
  case True
  then show ?thesis using that [of "[]" "len_utf8 c - 1"] by (simp add: utf16_mark_def char_mark_def char_len_utf16_def)
next
  case False
  then show ?thesis using that [of "[True]" 2] by (simp add: utf16_mark_def char_len_utf16_def replicate_small)
qed

lemma utf16_to_offset_bits:
  assumes "chunk_ok c" and "marks utf16_mark (ck_text c) = p @ True # replicate k False @ q" and "q = [] \<or> hd q"
  shows "chunk_offset_utf16_to_offset c (OffsetUtf16 (Suc (length (filter id p)))) = Some (length p + 1 + k)"
proof -
  let ?bs = "marks utf16_mark (ck_text c)" and ?t = "Suc (length (filter id p))"
  have len: "length ?bs = str_len (ck_text c)" "length ?bs \<le> 128" using chunk_okD(1) [OF assms(1)] by simp_all
  have "selects ?bs ?t (length p)" unfolding assms(2) by (rule selects_middle)
  moreover have "selects ?bs ?t (nth_set_bit (bitmap_of ?bs) ?t)"
    using len(2) by (intro nth_set_bit_bitmap_of) (simp_all add: assms(2))
  ultimately have sel: "nth_set_bit (ck_chars_utf16 c) ?t = length p"
    using selects_unique chunk_okD(3) [OF assms(1)] by metis
  have total: "str_len (ck_text c) = length p + 1 + k + length q" using len(1) by (simp add: assms(2))
  show ?thesis
  proof (cases "length p + 1 = 128")
    case True
    with total len have "k = 0" by simp
    with True sel show ?thesis by (simp add: chunk_offset_utf16_to_offset_def MAX_BASE_def)
  next
    case False
    have d: "drop (length p + 1) ?bs = replicate k False @ q" by (simp add: assms(2))
    have "takeWhile Not (replicate k False @ q) = replicate k False"
      using assms(3) by (cases q) (auto simp: takeWhile_Not_False_append)
    then have "min (trailing_zeros (bitmap_of (replicate k False @ q) :: bitmap)) (k + length q) = k"
      using min_trailing_zeros [of "replicate k False @ q"] total len by simp
    with False sel d total len chunk_okD(3) [OF assms(1)] show ?thesis
      by (simp add: chunk_offset_utf16_to_offset_def MAX_BASE_def shr_bitmap drop_bitmap_of usize_sub_def)
  qed
qed

lemma utf16_marks_start: "marks utf16_mark r = [] \<or> hd (marks utf16_mark r)"
  by (cases r) (auto simp: utf16_mark_def char_mark_def)

lemma offset_utf16_prefix:
  assumes "chunk_ok c" and "ck_text c = l @ r"
  shows "chunk_offset_utf16_to_offset c (OffsetUtf16 (utf16_len l)) = Some (str_len l)"
proof (cases l rule: rev_cases)
  case Nil
  then show ?thesis by (simp add: chunk_offset_utf16_to_offset_def)
next
  case (snoc l' x)
  obtain a k where ak: "utf16_mark x = a @ True # replicate k False" "Suc (length (filter id a)) = char_len_utf16 x"
    by (rule utf16_mark_shape)
  have shape: "marks utf16_mark (ck_text c) = (marks utf16_mark l' @ a) @ True # replicate k False @ marks utf16_mark r"
    using assms(2) snoc ak(1) by simp
  have "utf16_len l = Suc (length (filter id (marks utf16_mark l' @ a)))"
    using ak(2) snoc by (simp add: count_marks utf16_len_def)
  moreover have "length (marks utf16_mark l' @ a) + 1 + k = str_len l"
    using arg_cong [OF ak(1), of length] snoc by (simp add: length_marked)
  ultimately show ?thesis using utf16_to_offset_bits [OF assms(1) shape utf16_marks_start] by simp
qed

text \<open>In the middle of a surrogate pair, the conversion ends after the first byte of the character.\<close>

lemma offset_utf16_middle:
  assumes "chunk_ok c" and "ck_text c = l @ x # r" and "0x10000 \<le> x"
  shows "chunk_offset_utf16_to_offset c (OffsetUtf16 (utf16_len l + 1)) = Some (str_len l + 1)"
proof -
  have "marks utf16_mark (ck_text c) = marks utf16_mark l @ True # replicate 0 False @ [True, False, False] @ marks utf16_mark r"
    using assms(2,3) by (simp add: utf16_mark_def)
  from utf16_to_offset_bits [OF assms(1) this] show ?thesis by (simp add: count_marks utf16_len_def)
qed

section \<open>Rows of text\<close>

text \<open>A line of a text, with what is before and after it.\<close>

definition line_at :: "str \<Rightarrow> str \<Rightarrow> str \<Rightarrow> str \<Rightarrow> bool" where
  "line_at cs p l q \<longleftrightarrow> cs = p @ l @ q \<and> newline_char \<notin> set l \<and>
     (p = [] \<or> last p = newline_char) \<and> (q = [] \<or> hd q = newline_char)"

definition newlines_in :: "str \<Rightarrow> nat" where
  "newlines_in cs = length (filter ((=) newline_char) cs)"

lemma line_of_row:
  "r < length (split_lines cs) \<Longrightarrow> \<exists>p q. line_at cs p (split_lines cs ! r) q \<and> newlines_in p = r"
proof (induction "length cs" arbitrary: cs r rule: less_induct)
  case less
  show ?case
  proof (cases "newline_char \<in> set cs")
    case False
    with less.prems show ?thesis
      by (intro exI [of _ "[]"]) (simp add: split_lines_plain line_at_def newlines_in_def)
  next
    case True
    then obtain l cs' where cs: "cs = l @ newline_char # cs'" "newline_char \<notin> set l" by (meson split_list_first)
    show ?thesis
    proof (cases r)
      case 0
      with cs show ?thesis
        by (intro exI [of _ "[]"] exI [of _ "newline_char # cs'"]) (simp add: split_lines_line line_at_def newlines_in_def)
    next
      case (Suc r')
      with less.prems cs have "r' < length (split_lines cs')" by (simp add: split_lines_line)
      with less.hyps [of cs' r'] cs obtain p q where pq: "line_at cs' p (split_lines cs' ! r') q" "newlines_in p = r'"
        by auto
      have "filter ((=) newline_char) l = []" using cs(2) by (auto simp: filter_empty_conv)
      with pq cs Suc show ?thesis
        by (intro exI [of _ "l @ newline_char # p"] exI [of _ q]) (auto simp: split_lines_line line_at_def newlines_in_def)
    qed
  qed
qed

lemma line_at_last: obtains p where "line_at cs p (last (split_lines cs)) []" and "newlines_in p = length (split_lines cs) - 1"
proof -
  obtain p where p: "cs = p @ last (split_lines cs)" "newline_char \<notin> set (last (split_lines cs))"
    "p = [] \<or> last p = newline_char" by (rule last_line_split)
  have "filter ((=) newline_char) (last (split_lines cs)) = []" using p(2) by (auto simp: filter_empty_conv)
  then have "filter ((=) newline_char) cs = filter ((=) newline_char) p" by (metis append_Nil2 filter_append p(1))
  with p show ?thesis by (intro that [of p]) (auto simp: line_at_def newlines_in_def length_split_lines)
qed

lemma offset_range_line:
  assumes "chunk_ok c" and "line_at (ck_text c) p l q"
  shows "offset_range_for_row c (newlines_in p) = Some (str_len p, str_len p + str_len l)"
proof -
  let ?nl = "marks (byte_mark newline_char)"
  have cs: "ck_text c = p @ l @ q" "newline_char \<notin> set l" "p = [] \<or> last p = newline_char" "q = [] \<or> hd q = newline_char"
    using assms(2) by (auto simp: line_at_def)
  have take: "take (str_len p) (?nl (ck_text c)) = ?nl p" using cs(1) by simp
  have drop: "drop (str_len p) (?nl (ck_text c)) = ?nl l @ ?nl q" using cs(1) by simp
  have 0: "takeWhile Not (rev (?nl p)) = []" using cs(3) by (cases p rule: rev_cases) (auto simp: newline_mark)
  have "takeWhile Not (?nl q) = []" using cs(4) by (cases q) (auto simp: newline_mark)
  then have 1: "length (takeWhile Not (?nl l @ ?nl q)) = str_len l"
    using cs(2) by (simp add: marks_plain takeWhile_Not_False_append)
  have "offset_range_for_row c (length (filter id (take (str_len p) (?nl (ck_text c))))) =
      Some (str_len p, str_len p + length (takeWhile Not (drop (str_len p) (?nl (ck_text c)))))"
    by (rule offset_range_bits [OF assms(1) _ refl]) (simp_all only: take 0, simp_all add: cs(1))
  then show ?thesis by (simp only: take drop 1) (simp add: count_marks newlines_in_def)
qed

lemma line_slice:
  assumes "chunk_ok c" and "line_at (ck_text c) p l q"
  obtains line where "chunk_slice c (str_len p) (str_len p + str_len l) = Some line" and "chunk_ok line" and "ck_text line = l"
  using chunk_slice_ok [OF assms(1), of p l q] assms(2) by (auto simp: line_at_def)

lemma back_to_boundary_fix: "str_is_char_boundary cs n \<Longrightarrow> back_to_boundary cs n = n"
  by (cases n) auto

lemma prefix_boundary: "str_is_char_boundary (l @ r) (str_len l)"
  by (simp add: str_is_char_boundary_def)

lemma last_line_plain: "newline_char \<notin> set l \<Longrightarrow> last (split_lines l) = l"
  by (simp add: split_lines_plain)

text \<open>Splitting a text in the middle of a line.\<close>

lemma line_at_split:
  obtains p q where "line_at (l @ r) p (last (split_lines l) @ hd (split_lines r)) q"
    and "newlines_in p = length (split_lines l) - 1" and "l = p @ last (split_lines l)" and "r = hd (split_lines r) @ q"
proof -
  obtain p where p: "line_at l p (last (split_lines l)) []" "newlines_in p = length (split_lines l) - 1"
    by (rule line_at_last)
  obtain p' q where q: "line_at r p' (split_lines r ! 0) q" "newlines_in p' = 0"
    using line_of_row [of 0 r] by auto
  have "p' = []"
  proof (rule ccontr)
    assume "p' \<noteq> []"
    with q(1) have "newline_char \<in> set p'" by (metis last_in_set line_at_def)
    with q(2) show False by (auto simp: newlines_in_def filter_empty_conv)
  qed
  moreover have "split_lines r ! 0 = hd (split_lines r)" by (simp add: hd_conv_nth)
  ultimately show ?thesis using p q by (intro that [of p q]) (auto simp: line_at_def)
qed

theorem utf16_roundtrip:
  assumes "chunk_ok c" and "ck_text c = l @ r"
  shows "\<exists>p. chunk_offset_to_point_utf16 c (str_len l) = Some p \<and> chunk_point_utf16_to_offset c p clip = Some (str_len l)"
proof -
  let ?last = "last (split_lines l)"
  obtain p q where pq: "line_at (l @ r) p (?last @ hd (split_lines r)) q" "newlines_in p = length (split_lines l) - 1"
      "l = p @ ?last" "r = hd (split_lines r) @ q" by (rule line_at_split)
  then have at: "line_at (ck_text c) p (?last @ hd (split_lines r)) q" using assms(2) by simp
  obtain line where line: "chunk_slice c (str_len p) (str_len p + str_len (?last @ hd (split_lines r))) = Some line"
      "chunk_ok line" "ck_text line = ?last @ hd (split_lines r)"
    by (rule line_slice [OF assms(1) at])
  have s: "summarises (summary_from l) l" using summary_from_summarises by blast
  have pt: "lines_utf16 (summary_from l) = PointUtf16 (newlines_in p) (utf16_len ?last)"
    using s pq(2) by (simp add: lines_utf16_def summarises_def utf16_len_def)
  have rows: "\<not> length (split_lines (ck_text c)) - 1 < newlines_in p"
    using at by (auto simp: line_at_def length_split_lines newlines_in_def)
  have lens: "str_len l = str_len p + str_len ?last" using pq(3) by (metis str_len_simps(3))
  have width: "chunk_last_line_len_utf16 line = utf16_len (?last @ hd (split_lines r))"
    using last_line_correct(2) [OF line(2)] line(3) at by (simp add: split_lines_plain line_at_def utf16_len_def)
  have "chunk_point_utf16_to_offset c (PointUtf16 (newlines_in p) (utf16_len ?last)) clip = Some (str_len l)"
  proof (cases "utf16_len ?last = 0")
    case True
    then have "?last = []" by (cases ?last) (auto simp: char_len_utf16_def split: if_splits)
    with rows line width lens show ?thesis
      by (simp add: chunk_point_utf16_to_offset_def chunk_lines_correct [OF assms(1)] offset_range_line [OF assms(1) at])
  next
    case False
    have "chunk_offset_utf16_to_offset line (OffsetUtf16 (utf16_len ?last)) = Some (str_len ?last)"
      by (rule offset_utf16_prefix [OF line(2,3)])
    with False rows line width lens show ?thesis
      using prefix_boundary [of l r] assms(2)
      by (simp add: chunk_point_utf16_to_offset_def chunk_lines_correct [OF assms(1)] offset_range_line [OF assms(1) at]
          back_to_boundary_fix)
  qed
  with offset_to_point_utf16_prefix [OF assms] pt show ?thesis by simp
qed

section \<open>Clipping finds the closest valid position\<close>

lemma clip_loop_left:
  assumes "stop 0"
  shows "\<exists>m \<le> n. clip_loop stop Left n = Some m \<and> stop m \<and> (\<forall>k. m < k \<and> k \<le> n \<longrightarrow> \<not> stop k)"
proof (induction n)
  case 0
  with assms show ?case by (simp add: clip_loop.simps)
next
  case (Suc n)
  show ?case
  proof (cases "stop (Suc n)")
    case True
    then show ?thesis by (intro exI [of _ "Suc n"]) (auto simp: clip_loop.simps)
  next
    case False
    with Suc obtain m where "m \<le> n" "clip_loop stop Left n = Some m" "stop m" "\<forall>k. m < k \<and> k \<le> n \<longrightarrow> \<not> stop k" by blast
    with False show ?thesis by (intro exI [of _ m]) (auto simp: clip_loop.simps [of _ _ "Suc n"] le_Suc_eq)
  qed
qed

lemma clip_loop_right:
  assumes "stop N" and "n \<le> N"
  shows "\<exists>m \<ge> n. clip_loop stop Right n = Some m \<and> m \<le> N \<and> stop m \<and> (\<forall>k. n \<le> k \<and> k < m \<longrightarrow> \<not> stop k)"
  using assms(2)
proof (induction "N - n" arbitrary: n)
  case 0
  with assms(1) show ?case by (intro exI [of _ n]) (auto simp: clip_loop.simps)
next
  case (Suc d)
  show ?case
  proof (cases "stop n")
    case True
    with Suc.prems show ?thesis by (intro exI [of _ n]) (auto simp: clip_loop.simps)
  next
    case False
    have "d = N - Suc n" "Suc n \<le> N" using Suc.hyps(2) by linarith+
    from Suc.hyps(1) [OF this] obtain m where m: "Suc n \<le> m" "clip_loop stop Right (Suc n) = Some m" "m \<le> N"
        "stop m" "\<forall>k. Suc n \<le> k \<and> k < m \<longrightarrow> \<not> stop k" by blast
    have "\<not> stop k" if "n \<le> k" "k < m" for k using that False m(5) by (cases "k = n") auto
    with False m show ?thesis by (intro exI [of _ m]) (auto simp: clip_loop.simps [of _ _ n])
  qed
qed

lemma utf16_position:
  assumes "t \<le> utf16_len cs"
  shows "(\<exists>l r. cs = l @ r \<and> utf16_len l = t) \<or> (\<exists>l x r. cs = l @ x # r \<and> 0x10000 \<le> x \<and> t = utf16_len l + 1)"
  using assms
proof (induction cs arbitrary: t)
  case (Cons c cs)
  show ?case
  proof (cases "char_len_utf16 c \<le> t")
    case True
    then have "t - char_len_utf16 c \<le> utf16_len cs" using Cons.prems by simp
    from Cons.IH [OF this] show ?thesis
    proof (elim disjE exE conjE)
      fix l r
      assume "cs = l @ r" "utf16_len l = t - char_len_utf16 c"
      with True show ?thesis by (intro disjI1 exI [of _ "c # l"] exI [of _ r]) simp
    next
      fix l x r
      assume "cs = l @ x # r" "0x10000 \<le> x" "t - char_len_utf16 c = utf16_len l + 1"
      with True show ?thesis by (intro disjI2 exI [of _ "c # l"] exI [of _ x] exI [of _ r]) simp
    qed
  next
    case False
    show ?thesis
    proof (cases "t = 0")
      case False
      with \<open>\<not> char_len_utf16 c \<le> t\<close> have "0x10000 \<le> c" "t = 1" by (auto simp: char_len_utf16_def split: if_splits)
      then show ?thesis by (intro disjI2 exI [of _ "[]"]) simp
    qed (auto intro: exI [of _ "[]"])
  qed
qed auto

lemma str_split_at_inside: "0 < k \<Longrightarrow> k < len_utf8 x \<Longrightarrow> \<not> str_is_char_boundary (l @ x # r) (str_len l + k)"
  unfolding str_is_char_boundary_def by (induction l) auto

text \<open>The position a prefix of the text ends at, for the three ways of measuring it.\<close>

definition prefix_of :: "str \<Rightarrow> str \<Rightarrow> bool" where
  "prefix_of l cs \<longleftrightarrow> (\<exists>r. cs = l @ r)"

lemma prefix_ofE: assumes "prefix_of l cs" obtains r where "cs = l @ r"
  using assms by (auto simp: prefix_of_def)

lemma prefix_around:
  assumes "prefix_of l1 (l @ x # r)"
  shows "utf16_len l1 \<le> utf16_len l \<or> utf16_len l + char_len_utf16 x \<le> utf16_len l1"
proof -
  from assms obtain r1 where "l @ x # r = l1 @ r1" by (auto simp: prefix_of_def)
  then consider u where "l = l1 @ u" | u where "l1 = l @ u" "x # r = u @ r1"
    by (auto simp: append_eq_append_conv2)
  then show ?thesis
  proof cases
    case 2
    then show ?thesis by (cases u) auto
  qed simp
qed

definition closest_boundary :: "bias \<Rightarrow> str \<Rightarrow> nat \<Rightarrow> nat \<Rightarrow> bool" where
  "closest_boundary b cs t m \<longleftrightarrow> (\<exists>l. prefix_of l cs \<and> utf16_len l = m) \<and>
     (if b = Left then m \<le> t \<and> (\<forall>l. prefix_of l cs \<and> utf16_len l \<le> t \<longrightarrow> utf16_len l \<le> m)
      else min t (utf16_len cs) \<le> m \<and> (\<forall>l. prefix_of l cs \<and> t \<le> utf16_len l \<longrightarrow> m \<le> utf16_len l))"

lemma closest_boundary_exact:
  assumes "prefix_of l cs"
  shows "closest_boundary b cs (utf16_len l) (utf16_len l)"
  using assms by (auto simp: closest_boundary_def)

lemma prefix_utf16_le: "prefix_of l cs \<Longrightarrow> utf16_len l \<le> utf16_len cs"
  by (auto simp: prefix_of_def)

lemma closest_boundary_valid:
  assumes "closest_boundary b cs t m" and "prefix_of l cs" and "t = utf16_len l"
  shows "m = t"
proof -
  have "min t (utf16_len cs) = t" using prefix_utf16_le [OF assms(2)] assms(3) by simp
  with assms show ?thesis unfolding closest_boundary_def by (cases b) (auto intro: antisym)
qed

lemma chunk_len_utf16_correct: "chunk_ok c \<Longrightarrow> chunk_len_utf16 c = utf16_len (ck_text c)"
  using chunk_okD [of c] by (simp add: chunk_len_utf16_def count_ones_bitmap_of count_marks utf16_len_def)

lemma clip_offset_utf16_correct:
  assumes "chunk_ok c"
  shows "\<exists>m. chunk_clip_offset_utf16 c (OffsetUtf16 t) b = Some (OffsetUtf16 m) \<and> closest_boundary b (ck_text c) t m"
proof -
  let ?cs = "ck_text c"
  consider (zero) "t = 0" | (beyond) "0 < t" "utf16_len ?cs \<le> t" | (in_range) "0 < t" "t < utf16_len ?cs" by linarith
  then show ?thesis
  proof cases
    case zero
    then show ?thesis using closest_boundary_exact [of "[]" ?cs b] by (simp add: chunk_clip_offset_utf16_def prefix_of_def)
  next
    case beyond
    have "prefix_of ?cs ?cs" by (simp add: prefix_of_def)
    with beyond prefix_utf16_le [of _ ?cs] have "closest_boundary b ?cs t (utf16_len ?cs)"
      unfolding closest_boundary_def by (auto intro: order_trans)
    with beyond show ?thesis by (simp add: chunk_clip_offset_utf16_def chunk_len_utf16_correct [OF assms])
  next
    case in_range
    then have "t \<le> utf16_len ?cs" by simp
    from utf16_position [OF this] show ?thesis
    proof (elim disjE exE conjE)
      fix l r
      assume l: "?cs = l @ r" "utf16_len l = t"
      then have "clip_loop (str_is_char_boundary ?cs) b (str_len l) = Some (str_len l)"
        by (subst clip_loop.simps) (simp add: prefix_boundary)
      then show ?thesis
        using in_range l closest_boundary_exact [of l ?cs b] offset_utf16_prefix [OF assms l(1)] offset_to_offset_utf16_prefix [OF assms l(1)]
        by (auto simp: chunk_clip_offset_utf16_def chunk_len_utf16_correct [OF assms] prefix_of_def)
    next
      fix l x r
      assume l: "?cs = l @ x # r" "0x10000 \<le> x" "t = utf16_len l + 1"
      have x: "len_utf8 x = 4" "char_len_utf16 x = 2" using l(2) by (auto simp: len_utf8_def char_len_utf16_def)
      have inside: "\<not> str_is_char_boundary ?cs (str_len l + k)" if "0 < k" "k < 4" for k
        using str_split_at_inside [of k x l r] that l(1) x(1) by simp
      let ?m = "if b = Left then l else l @ [x]"
      have stop: "str_is_char_boundary ?cs (str_len l)" "str_is_char_boundary ?cs (str_len l + 4)"
        using prefix_boundary [of l "x # r"] prefix_boundary [of "l @ [x]" r] l(1) x(1) by simp_all
      have loop: "clip_loop (str_is_char_boundary ?cs) b (str_len l + 1) = Some (str_len ?m)"
      proof (cases b)
        case Left
        then show ?thesis using inside [of 1] stop(1) by (simp add: clip_loop.simps)
      next
        case Right
        then show ?thesis using inside [of 1] inside [of 2] inside [of 3] stop(2) x(1)
          by (simp add: clip_loop.simps numeral_eq_Suc)
      qed
      have "prefix_of ?m ?cs" using l(1) by (auto simp: prefix_of_def)
      then obtain r' where r': "?cs = ?m @ r'" by (rule prefix_ofE)
      have "closest_boundary b ?cs t (utf16_len ?m)"
        using \<open>prefix_of ?m ?cs\<close> prefix_around [of _ l x r] l x unfolding closest_boundary_def by (cases b) fastforce+
      with in_range loop l offset_utf16_middle [OF assms l(1,2)] offset_to_offset_utf16_prefix [OF assms r'] show ?thesis
        by (simp add: chunk_clip_offset_utf16_def chunk_len_utf16_correct [OF assms])
    qed
  qed
qed

section \<open>Clipping points\<close>

lemma split_lines_join: "split_lines (a @ newline_char # b) = split_lines a @ split_lines b"
proof (induction a)
  case (Cons x a)
  then show ?case by (cases "split_lines a") auto
qed simp

lemma newlines_plain: "newline_char \<notin> set l \<Longrightarrow> newlines_in l = 0"
  by (auto simp: newlines_in_def filter_empty_conv)

lemma newlines_in_append [simp]: "newlines_in (xs @ ys) = newlines_in xs + newlines_in ys"
  by (simp add: newlines_in_def)

lemma last_line_append:
  assumes "p = [] \<or> last p = newline_char" and "newline_char \<notin> set l"
  shows "last (split_lines (p @ l)) = l"
proof (cases p rule: rev_cases)
  case Nil
  then show ?thesis using assms(2) by (simp add: split_lines_plain)
next
  case (snoc p' b)
  with assms(1) have "p @ l = p' @ newline_char # l" by simp
  then show ?thesis using assms(2) by (simp only: split_lines_join) (simp add: split_lines_plain)
qed

text \<open>The point at the end of a prefix that ends within a known line.\<close>

lemma prefix_point:
  assumes "p = [] \<or> last p = newline_char" and "newline_char \<notin> set l"
  shows "ts_lines (summary_from (p @ l)) = Point (newlines_in p) (str_len l)"
    and "lines_utf16 (summary_from (p @ l)) = PointUtf16 (newlines_in p) (utf16_len l)"
proof -
  have s: "summarises (summary_from (p @ l)) (p @ l)" using summary_from_summarises by blast
  have "length (split_lines (p @ l)) - 1 = newlines_in p"
    using newlines_plain [OF assms(2)] by (simp add: length_split_lines newlines_in_def)
  with s show "ts_lines (summary_from (p @ l)) = Point (newlines_in p) (str_len l)"
      "lines_utf16 (summary_from (p @ l)) = PointUtf16 (newlines_in p) (utf16_len l)"
    by (simp_all add: summarises_def last_line_append [OF assms] lines_utf16_def utf16_len_def)
qed

lemma whole_point:
  assumes "chunk_ok c"
  shows "chunk_lines c = Some (ts_lines (summary_from (ck_text c)))"
    and "PointUtf16 (row (ts_lines (summary_from (ck_text c) :: nat text_summary))) (chunk_last_line_len_utf16 c) = lines_utf16 (summary_from (ck_text c))"
proof -
  have "summarises (summary_from (ck_text c)) (ck_text c)" using summary_from_summarises by blast
  then show "chunk_lines c = Some (ts_lines (summary_from (ck_text c)))"
      "PointUtf16 (row (ts_lines (summary_from (ck_text c) :: nat text_summary))) (chunk_last_line_len_utf16 c) = lines_utf16 (summary_from (ck_text c))"
    by (simp_all add: chunk_lines_correct [OF assms] last_line_correct [OF assms] summarises_def lines_utf16_def)
qed

lemma chunk_row:
  assumes "chunk_ok c" and "r \<le> row (ts_lines (summary_from (ck_text c) :: nat text_summary))"
  obtains p l q line where "line_at (ck_text c) p l q" and "newlines_in p = r"
    and "offset_range_for_row c r = Some (str_len p, str_len p + str_len l)"
    and "chunk_slice c (str_len p) (str_len p + str_len l) = Some line" and "chunk_ok line" and "ck_text line = l"
proof -
  have "r < length (split_lines (ck_text c))"
    using assms(2) summary_from_summarises [of "ck_text c"] by (simp add: summarises_def length_split_lines)
  then obtain p q where at: "line_at (ck_text c) p (split_lines (ck_text c) ! r) q" "newlines_in p = r"
    using line_of_row by blast
  obtain line where "chunk_slice c (str_len p) (str_len p + str_len (split_lines (ck_text c) ! r)) = Some line"
      "chunk_ok line" "ck_text line = split_lines (ck_text c) ! r"
    by (rule line_slice [OF assms(1) at(1)])
  with at offset_range_line [OF assms(1) at(1)] show ?thesis by (intro that) auto
qed

lemma line_at_prefix:
  assumes "line_at cs p l q" and "prefix_of l1 l"
  shows "prefix_of (p @ l1) cs" and "newline_char \<notin> set l1" and "p = [] \<or> last p = newline_char"
  using assms by (auto simp: line_at_def prefix_of_def)

lemma line_at_unique:
  assumes "chunk_ok c" and "line_at (ck_text c) p l q" and "line_at (ck_text c) p' l' q'" and "newlines_in p = newlines_in p'"
  shows "p = p' \<and> l = l'"
proof -
  have len: "str_len p = str_len p'" "str_len l = str_len l'"
    using offset_range_line [OF assms(1,2)] offset_range_line [OF assms(1,3)] assms(4) by simp_all
  have cs: "ck_text c = p @ l @ q" "ck_text c = p' @ l' @ q'" using assms(2,3) by (auto simp: line_at_def)
  have "Some (p, l @ q) = Some (p', l' @ q')" by (metis cs len(1) str_split_at_append)
  moreover from this have "Some (l, q) = Some (l', q')" by (metis len(2) option.inject prod.inject str_split_at_append)
  ultimately show ?thesis by simp
qed

text \<open>The row of a valid position is a row of the chunk, and its column measures a prefix of that line.\<close>

lemma valid_position:
  assumes "chunk_ok c" and "prefix_of l0 (ck_text c)"
  shows "newlines_in l0 \<le> row (ts_lines (summary_from (ck_text c) :: nat text_summary))"
    and "\<lbrakk>line_at (ck_text c) p l q; newlines_in p = newlines_in l0\<rbrakk> \<Longrightarrow> \<exists>l1. l0 = p @ l1 \<and> prefix_of l1 l"
proof -
  obtain r where r: "ck_text c = l0 @ r" using assms(2) by (rule prefix_ofE)
  show "newlines_in l0 \<le> row (ts_lines (summary_from (ck_text c) :: nat text_summary))"
    using summary_from_summarises [of "ck_text c"] r by (simp add: summarises_def length_split_lines newlines_in_def)
  assume at: "line_at (ck_text c) p l q" and n: "newlines_in p = newlines_in l0"
  obtain p0 q0 where p0: "line_at (l0 @ r) p0 (last (split_lines l0) @ hd (split_lines r)) q0"
      "newlines_in p0 = length (split_lines l0) - 1" "l0 = p0 @ last (split_lines l0)" by (rule line_at_split)
  have "newlines_in p0 = newlines_in p" using p0(2) n by (simp add: length_split_lines newlines_in_def)
  with line_at_unique [OF assms(1) at, of p0] p0(1) r have "p = p0" "l = last (split_lines l0) @ hd (split_lines r)" by auto
  with p0(3) show "\<exists>l1. l0 = p @ l1 \<and> prefix_of l1 l" by (metis prefix_of_def)
qed

lemma position_row:
  "row_utf16 (lines_utf16 (summary_from l :: nat text_summary)) = newlines_in l" "row (ts_lines (summary_from l :: nat text_summary)) = newlines_in l"
  using summary_from_summarises [of l] by (simp_all add: summarises_def lines_utf16_def length_split_lines newlines_in_def)

theorem clip_point_utf16_correct:
  assumes "chunk_ok c"
  shows "\<exists>l. chunk_clip_point_utf16 c (Unclipped p) b = Some (lines_utf16 (summary_from l)) \<and> prefix_of l (ck_text c) \<and>
    (\<forall>l0. prefix_of l0 (ck_text c) \<and> p = lines_utf16 (summary_from l0) \<longrightarrow> lines_utf16 (summary_from l) = p)"
proof (cases "row (ts_lines (summary_from (ck_text c) :: nat text_summary)) < row_utf16 p")
  case True
  moreover from this have "\<not> (prefix_of l0 (ck_text c) \<and> p = lines_utf16 (summary_from l0))" for l0
    using valid_position(1) [OF assms, of l0] position_row(1) [of l0] by auto
  ultimately show ?thesis using whole_point [OF assms]
    by (intro exI [of _ "ck_text c"]) (auto simp: chunk_clip_point_utf16_def prefix_of_def)
next
  case False
  then have "row_utf16 p \<le> row (ts_lines (summary_from (ck_text c) :: nat text_summary))" by simp
  then obtain pre l q line where at: "line_at (ck_text c) pre l q" "newlines_in pre = row_utf16 p"
      "offset_range_for_row c (row_utf16 p) = Some (str_len pre, str_len pre + str_len l)"
      "chunk_slice c (str_len pre) (str_len pre + str_len l) = Some line" "chunk_ok line" "ck_text line = l"
    by (rule chunk_row [OF assms])
  from clip_offset_utf16_correct [OF at(5), of "column_utf16 p" b] at(6) obtain m where
    m: "chunk_clip_offset_utf16 line (OffsetUtf16 (column_utf16 p)) b = Some (OffsetUtf16 m)" "closest_boundary b l (column_utf16 p) m"
    by auto
  then obtain l1 where l1: "prefix_of l1 l" "utf16_len l1 = m" by (auto simp: closest_boundary_def)
  note pre = line_at_prefix [OF at(1) l1(1)]
  have res: "chunk_clip_point_utf16 c (Unclipped p) b = Some (PointUtf16 (row_utf16 p) m)"
    using False at m whole_point(1) [OF assms] by (simp add: chunk_clip_point_utf16_def)
  have "PointUtf16 (row_utf16 p) m = p" if l0: "prefix_of l0 (ck_text c)" "p = lines_utf16 (summary_from l0)" for l0
  proof -
    have "newlines_in pre = newlines_in l0" using at(2) l0(2) position_row(1) [of l0] by simp
    from valid_position(2) [OF assms l0(1) at(1) this] obtain l2 where l2: "l0 = pre @ l2" "prefix_of l2 l" by blast
    note pre2 = line_at_prefix [OF at(1) l2(2)]
    have "column_utf16 p = utf16_len l2" using prefix_point(2) [OF pre2(3,2)] l0(2) l2(1) by simp
    with closest_boundary_valid [OF m(2) l2(2)] have "m = column_utf16 p" by simp
    then show ?thesis by (cases p) simp
  qed
  with res pre(1) prefix_point(2) [OF pre(3,2)] at(2) l1(2) show ?thesis by (intro exI [of _ "pre @ l1"]) simp
qed

text \<open>A position given in UTF-16 units, valid or not, becomes a valid point; a valid one becomes the point of the same prefix.\<close>

lemma back_to_boundary_prefix:
  "n \<le> str_len cs \<Longrightarrow> \<exists>l. prefix_of l cs \<and> back_to_boundary cs n = str_len l"
proof (induction n)
  case 0
  then show ?case by (intro exI [of _ "[]"]) (simp add: prefix_of_def)
next
  case (Suc n)
  show ?case
  proof (cases "str_is_char_boundary cs (Suc n)")
    case True
    then obtain l r where "str_split_at (Suc n) cs = Some (l, r)" by (auto simp: str_is_char_boundary_def)
    with True show ?thesis by (intro exI [of _ l]) (auto simp: prefix_of_def str_split_at_iff)
  next
    case False
    with Suc show ?thesis by auto
  qed
qed

lemma utf16_offset_in_range:
  assumes "chunk_ok c" and "t \<le> utf16_len (ck_text c)"
  shows "\<exists>n \<le> str_len (ck_text c). chunk_offset_utf16_to_offset c (OffsetUtf16 t) = Some n"
  using utf16_position [OF assms(2)]
proof (elim disjE exE conjE)
  fix l r
  assume "ck_text c = l @ r" "utf16_len l = t"
  with offset_utf16_prefix [OF assms(1)] show ?thesis by fastforce
next
  fix l x r
  assume "ck_text c = l @ x # r" "0x10000 \<le> x" "t = utf16_len l + 1"
  with offset_utf16_middle [OF assms(1)] len_utf8_pos [of x] show ?thesis by fastforce
qed

lemma utf16_len_zero: "utf16_len l = 0 \<longleftrightarrow> l = []"
  by (cases l) (auto simp: char_len_utf16_def)

lemma prefix_all:
  assumes "prefix_of l2 l" and "utf16_len l \<le> utf16_len l2"
  shows "l2 = l"
proof -
  from assms(1) obtain r2 where "l = l2 @ r2" by (rule prefix_ofE)
  with assms(2) utf16_len_zero [of r2] show ?thesis by simp
qed

definition unclip_column :: "chunk \<Rightarrow> nat \<Rightarrow> nat option" where
  "unclip_column line col =
     (if col = 0 then Some 0
      else if chunk_len_utf16 line \<le> col then Some (chunk_len line)
      else map_option (back_to_boundary (ck_text line)) (chunk_offset_utf16_to_offset line (OffsetUtf16 col)))"

lemma unclip_column_correct:
  assumes "chunk_ok line" and "ck_text line = l"
  shows "\<exists>l1. prefix_of l1 l \<and> unclip_column line col = Some (str_len l1) \<and>
    (\<forall>l2. prefix_of l2 l \<and> col = utf16_len l2 \<longrightarrow> str_len l2 = str_len l1)"
proof -
  consider (zero) "col = 0" | (beyond) "col \<noteq> 0" "utf16_len l \<le> col" | (inside) "col \<noteq> 0" "col < utf16_len l" by linarith
  then show ?thesis
  proof cases
    case zero
    then show ?thesis by (intro exI [of _ "[]"]) (simp add: prefix_of_def unclip_column_def utf16_len_zero)
  next
    case beyond
    have "\<forall>l2. prefix_of l2 l \<and> col = utf16_len l2 \<longrightarrow> str_len l2 = str_len l" using beyond(2) by (metis prefix_all)
    with beyond assms show ?thesis
      by (intro exI [of _ l]) (simp add: prefix_of_def unclip_column_def chunk_len_utf16_correct chunk_len_def)
  next
    case inside
    with utf16_offset_in_range [OF assms(1), of col] assms(2) obtain n where
      n: "n \<le> str_len l" "chunk_offset_utf16_to_offset line (OffsetUtf16 col) = Some n" by auto
    from back_to_boundary_prefix [OF n(1)] obtain l1 where l1: "prefix_of l1 l" "back_to_boundary l n = str_len l1" by blast
    have "str_len l2 = str_len l1" if l2: "prefix_of l2 l" "col = utf16_len l2" for l2
    proof -
      from l2(1) obtain r2 where r2: "l = l2 @ r2" by (rule prefix_ofE)
      with offset_utf16_prefix [OF assms(1), of l2 r2] assms(2) n(2) l2(2) have "n = str_len l2" by simp
      then show ?thesis using l1(2) prefix_boundary [of l2 r2] r2 by (simp add: back_to_boundary_fix)
    qed
    with inside n l1 assms show ?thesis
      by (intro exI [of _ l1]) (auto simp: unclip_column_def chunk_len_utf16_correct)
  qed
qed

theorem unclipped_point_correct:
  assumes "chunk_ok c"
  shows "\<exists>l. unclipped_point_utf16_to_point c (Unclipped p) = Some (ts_lines (summary_from l)) \<and> prefix_of l (ck_text c) \<and>
    (\<forall>l0. prefix_of l0 (ck_text c) \<and> p = lines_utf16 (summary_from l0) \<longrightarrow> ts_lines (summary_from l0 :: nat text_summary) = ts_lines (summary_from l))"
proof (cases "row (ts_lines (summary_from (ck_text c) :: nat text_summary)) < row_utf16 p")
  case True
  moreover from this have "\<not> (prefix_of l0 (ck_text c) \<and> p = lines_utf16 (summary_from l0))" for l0
    using valid_position(1) [OF assms, of l0] position_row(1) [of l0] by auto
  ultimately show ?thesis using whole_point [OF assms]
    by (intro exI [of _ "ck_text c"]) (auto simp: unclipped_point_utf16_to_point_def prefix_of_def)
next
  case False
  then have "row_utf16 p \<le> row (ts_lines (summary_from (ck_text c) :: nat text_summary))" by simp
  then obtain pre l q line where at: "line_at (ck_text c) pre l q" "newlines_in pre = row_utf16 p"
      "offset_range_for_row c (row_utf16 p) = Some (str_len pre, str_len pre + str_len l)"
      "chunk_slice c (str_len pre) (str_len pre + str_len l) = Some line" "chunk_ok line" "ck_text line = l"
    by (rule chunk_row [OF assms])
  from unclip_column_correct [OF at(5,6), of "column_utf16 p"] obtain l1 where
    l1: "prefix_of l1 l" "unclip_column line (column_utf16 p) = Some (str_len l1)"
      "\<forall>l2. prefix_of l2 l \<and> column_utf16 p = utf16_len l2 \<longrightarrow> str_len l2 = str_len l1" by blast
  have "unclipped_point_utf16_to_point c (Unclipped p) = map_option (Point (row_utf16 p)) (unclip_column line (column_utf16 p))"
    using False at whole_point(1) [OF assms]
    by (simp add: unclipped_point_utf16_to_point_def unclip_column_def point_new_def map_conv_bind_option comp_def)
  with l1(2) have res: "unclipped_point_utf16_to_point c (Unclipped p) = Some (Point (row_utf16 p) (str_len l1))" by simp
  note pre = line_at_prefix [OF at(1) l1(1)]
  have "ts_lines (summary_from l0 :: nat text_summary) = Point (row_utf16 p) (str_len l1)"
    if l0: "prefix_of l0 (ck_text c)" "p = lines_utf16 (summary_from l0)" for l0
  proof -
    have "newlines_in pre = newlines_in l0" using at(2) l0(2) position_row(1) [of l0] by simp
    from valid_position(2) [OF assms l0(1) at(1) this] obtain l2 where l2: "l0 = pre @ l2" "prefix_of l2 l" by blast
    note pre2 = line_at_prefix [OF at(1) l2(2)]
    have "column_utf16 p = utf16_len l2" using prefix_point(2) [OF pre2(3,2)] l0(2) l2(1) by simp
    with l1(3) l2(2) have "str_len l2 = str_len l1" by blast
    with prefix_point(1) [OF pre2(3,2)] l2(1) at(2) show ?thesis by simp
  qed
  with res pre(1) prefix_point(1) [OF pre(3,2)] at(2) show ?thesis by (intro exI [of _ "pre @ l1"]) simp
qed

text \<open>
  \<open>clip_point\<close>: what is needed of the grapheme segmentation is that the ends of a text are
  boundaries.
\<close>

definition segmentation :: "(str \<Rightarrow> nat \<Rightarrow> bool) \<Rightarrow> bool" where
  "segmentation grapheme \<longleftrightarrow> (\<forall>txt. grapheme txt 0 \<and> grapheme txt (str_len txt))"

lemma ascii_boundary:
  assumes "n < str_len cs" and "as_bytes cs ! n < 128"
  shows "str_is_char_boundary cs n"
proof -
  have "marks char_mark cs ! n"
    using assms by (simp flip: marks_as_bytes(1) add: length_as_bytes is_utf8_char_boundary_def)
  with mark_boundary [OF assms(1)] show ?thesis by simp
qed

lemma boundary_prefix: "str_is_char_boundary cs n \<Longrightarrow> \<exists>l. prefix_of l cs \<and> str_len l = n"
  by (auto simp: str_is_char_boundary_def str_split_at_iff prefix_of_def)

lemma clip_loop_stop: "stop n \<Longrightarrow> clip_loop stop b n = Some n"
  by (simp add: clip_loop.simps)

lemma clip_loop_total:
  assumes "stop 0" and "stop N" and "n \<le> N"
  shows "\<exists>m. clip_loop stop b n = Some m \<and> stop m"
  using clip_loop_left [of stop, OF assms(1), of n] clip_loop_right [of stop, OF assms(2,3)] by (cases b) auto

text \<open>A prefix of the text that ends at a boundary of grapheme clusters within its last line.\<close>

definition cluster_at :: "(str \<Rightarrow> nat \<Rightarrow> bool) \<Rightarrow> str \<Rightarrow> str \<Rightarrow> bool" where
  "cluster_at grapheme cs l0 \<longleftrightarrow>
     (\<exists>pre l1 q r. l0 = pre @ l1 \<and> line_at cs pre (l1 @ q) r \<and> grapheme (l1 @ q) (str_len l1))"

lemma cluster_at_prefix: "cluster_at grapheme cs l0 \<Longrightarrow> prefix_of l0 cs"
  by (auto simp: cluster_at_def line_at_def prefix_of_def)

text \<open>The column that \<open>clip_point\<close> picks in a line.\<close>

definition clip_column :: "(str \<Rightarrow> nat \<Rightarrow> bool) \<Rightarrow> chunk \<Rightarrow> bias \<Rightarrow> nat \<Rightarrow> nat option" where
  "clip_column grapheme line b col =
     (let l = ck_text line in
      if col = 0 then Some 0
      else if str_len l \<le> col then Some (str_len l)
      else if as_bytes l ! (col - 1) < 128 \<and> as_bytes l ! col < 128 then Some col
      else clip_loop (\<lambda>n. chunk_is_char_boundary line n \<and> grapheme l n) b col)"

lemma clip_column_correct:
  assumes "segmentation grapheme" and "chunk_ok line" and "ck_text line = l"
  shows "\<exists>l1. prefix_of l1 l \<and> clip_column grapheme line b col = Some (str_len l1) \<and>
    (\<forall>l2. prefix_of l2 l \<and> grapheme l (str_len l2) \<and> col = str_len l2 \<longrightarrow> str_len l1 = col)"
proof -
  let ?stop = "\<lambda>n. chunk_is_char_boundary line n \<and> grapheme l n"
  have stop: "?stop n \<longleftrightarrow> str_is_char_boundary l n \<and> grapheme l n" for n
    using chunk_is_char_boundary_correct [OF assms(2)] assms(3) by simp
  have le: "str_len l2 \<le> str_len l" if "prefix_of l2 l" for l2 using that by (auto simp: prefix_of_def)
  consider (zero) "col = 0" | (beyond) "col \<noteq> 0" "str_len l \<le> col"
    | (ascii) "col \<noteq> 0" "col < str_len l" "as_bytes l ! (col - 1) < 128" "as_bytes l ! col < 128"
    | (loop) "col \<noteq> 0" "col < str_len l" "\<not> (as_bytes l ! (col - 1) < 128 \<and> as_bytes l ! col < 128)" by linarith
  then show ?thesis
  proof cases
    case zero
    then show ?thesis by (intro exI [of _ "[]"]) (simp add: prefix_of_def clip_column_def)
  next
    case beyond
    then show ?thesis using le assms(3) by (intro exI [of _ l]) (auto simp: prefix_of_def clip_column_def intro: antisym)
  next
    case ascii
    with boundary_prefix [OF ascii_boundary [OF ascii(2,4)]] assms(3) show ?thesis by (auto simp: clip_column_def)
  next
    case loop
    have "?stop 0" "?stop (str_len l)"
      using assms(1) prefix_boundary [of "[]" l] str_is_char_boundary_len [of l] unfolding stop
      by (auto simp: segmentation_def)
    with loop clip_loop_total [of ?stop "str_len l" col b] obtain m where m: "clip_loop ?stop b col = Some m" "?stop m"
      by auto
    from m(2) boundary_prefix [of l m] stop obtain l1 where l1: "prefix_of l1 l" "str_len l1 = m" by auto
    have fixed: "m = col" if "prefix_of l2 l" "grapheme l (str_len l2)" "col = str_len l2" for l2
    proof -
      have "?stop col" unfolding stop using that prefix_boundary [of l2] by (auto elim: prefix_ofE)
      from clip_loop_stop [of ?stop, OF this, of b] m(1) show ?thesis by simp
    qed
    have "clip_column grapheme line b col = Some m"
      unfolding clip_column_def assms(3) Let_def m(1) using loop by (simp only: if_False not_le) simp
    with fixed l1 show ?thesis by blast
  qed
qed

theorem clip_point_correct:
  assumes "chunk_ok c" and "segmentation grapheme"
  shows "\<exists>l. chunk_clip_point grapheme c p b = Some (ts_lines (summary_from l)) \<and> prefix_of l (ck_text c) \<and>
    (\<forall>l0. cluster_at grapheme (ck_text c) l0 \<and> p = ts_lines (summary_from l0) \<longrightarrow> ts_lines (summary_from l) = p)"
proof (cases "row (ts_lines (summary_from (ck_text c) :: nat text_summary)) < row p")
  case True
  then have "\<not> (cluster_at grapheme (ck_text c) l0 \<and> p = ts_lines (summary_from l0))" for l0
    using valid_position(1) [OF assms(1), of l0] position_row(2) [of l0] cluster_at_prefix [of grapheme "ck_text c" l0] by auto
  with True show ?thesis using whole_point [OF assms(1)]
    by (intro exI [of _ "ck_text c"]) (auto simp: chunk_clip_point_def prefix_of_def)
next
  case False
  then have "row p \<le> row (ts_lines (summary_from (ck_text c) :: nat text_summary))" by simp
  then obtain pre l q line where at: "line_at (ck_text c) pre l q" "newlines_in pre = row p"
      "offset_range_for_row c (row p) = Some (str_len pre, str_len pre + str_len l)"
      "chunk_slice c (str_len pre) (str_len pre + str_len l) = Some line" "chunk_ok line" "ck_text line = l"
    by (rule chunk_row [OF assms(1)])
  from clip_column_correct [OF assms(2) at(5,6), of b "column p"] obtain l1 where
    l1: "prefix_of l1 l" "clip_column grapheme line b (column p) = Some (str_len l1)"
      "\<forall>l2. prefix_of l2 l \<and> grapheme l (str_len l2) \<and> column p = str_len l2 \<longrightarrow> str_len l1 = column p" by blast
  have "chunk_clip_point grapheme c p b = map_option (Point (row p)) (clip_column grapheme line b (column p))"
    using False at whole_point(1) [OF assms(1)]
    by (cases p) (simp add: chunk_clip_point_def clip_column_def point_new_def chunk_len_def Let_def map_conv_bind_option comp_def)
  with l1(2) have res: "chunk_clip_point grapheme c p b = Some (Point (row p) (str_len l1))" by simp
  note pre = line_at_prefix [OF at(1) l1(1)]
  have "Point (row p) (str_len l1) = p"
    if v: "line_at (ck_text c) pre' (l2 @ q') r'" "grapheme (l2 @ q') (str_len l2)" "p = ts_lines (summary_from (pre' @ l2))" for pre' l2 q' r'
  proof -
    have pre': "prefix_of l2 (l2 @ q')" by (simp add: prefix_of_def)
    note pt = prefix_point(1) [OF line_at_prefix(3,2) [OF v(1) pre']]
    then have "newlines_in pre = newlines_in pre'" "column p = str_len l2" using at(2) v(3) by simp_all
    with line_at_unique [OF assms(1) at(1) v(1)] l1(3) v(2) pre' have "str_len l1 = column p" by auto
    then show ?thesis by (cases p) simp
  qed
  then have "\<forall>l0. cluster_at grapheme (ck_text c) l0 \<and> p = ts_lines (summary_from l0) \<longrightarrow> Point (row p) (str_len l1) = p"
    unfolding cluster_at_def by blast
  with res pre(1) prefix_point(1) [OF pre(3,2)] at(2) show ?thesis by (intro exI [of _ "pre @ l1"]) simp
qed

section \<open>Boundaries and tabs\<close>

lemma floor_loop_back:
  assumes "i < str_len cs"
  shows "floor_loop (as_bytes cs) i = back_to_boundary cs i"
  using assms
proof (induction i)
  case (Suc i)
  have "is_utf8_char_boundary (as_bytes cs ! Suc i) \<longleftrightarrow> str_is_char_boundary cs (Suc i)"
    using mark_boundary [OF Suc.prems] Suc.prems by (simp flip: marks_as_bytes(1) add: length_as_bytes)
  with Suc show ?case by (simp add: floor_loop.simps [of _ "Suc i"])
qed (simp add: floor_loop.simps)

lemma boundary_Cons:
  "0 < m \<Longrightarrow> str_is_char_boundary (c # cs) m \<longleftrightarrow> len_utf8 c \<le> m \<and> str_is_char_boundary cs (m - len_utf8 c)"
  by (auto simp: str_is_char_boundary_def)

lemma boundary_0 [simp]: "str_is_char_boundary cs 0"
  using prefix_boundary [of "[]" cs] by simp

lemma back_Cons:
  "back_to_boundary (c # cs) n = (if len_utf8 c \<le> n then len_utf8 c + back_to_boundary cs (n - len_utf8 c) else 0)"
proof (induction n)
  case 0
  then show ?case using len_utf8_pos [of c] by simp
next
  case (Suc n)
  show ?case
  proof (cases "len_utf8 c \<le> n")
    case True
    then have "Suc n - len_utf8 c = Suc (n - len_utf8 c)" by simp
    with True Suc show ?thesis by (simp add: boundary_Cons)
  next
    case False
    then show ?thesis using Suc by (cases "len_utf8 c = Suc n") (auto simp: boundary_Cons)
  qed
qed

lemma str_floor_is_back: "n \<le> str_len cs \<Longrightarrow> str_floor_char_boundary cs n = back_to_boundary cs n"
  by (induction cs arbitrary: n) (auto simp: back_Cons)

lemma str_floor_all: "str_len cs \<le> n \<Longrightarrow> str_floor_char_boundary cs n = str_len cs"
  by (induction cs arbitrary: n) auto

text \<open>The loop over the bytes of a chunk finds what \<open>str::floor_char_boundary\<close> finds.\<close>

theorem chunk_floor_char_boundary_correct: "chunk_floor_char_boundary c n = str_floor_char_boundary (ck_text c) n"
  by (simp add: chunk_floor_char_boundary_def floor_loop_back str_floor_is_back str_floor_all)

fun tab_positions :: "nat \<Rightarrow> nat \<Rightarrow> str \<Rightarrow> tab_position list" where
  "tab_positions bytes chars [] = []"
| "tab_positions bytes chars (c # cs) =
     (if c = 9 then [\<lparr>byte_offset = bytes, char_offset = chars\<rparr>] else []) @ tab_positions (bytes + len_utf8 c) (chars + 1) cs"

text \<open>Collecting from the iterator; a bitmap has at most 128 tabs, so 129 calls always reach the end.\<close>

fun tabs_collect :: "nat \<Rightarrow> tabs_iter \<Rightarrow> tab_position list option" where
  "tabs_collect 0 it = None"
| "tabs_collect (Suc fuel) it =
     (case tabs_next it of None \<Rightarrow> Some [] | Some (p, it') \<Rightarrow> map_option (Cons p) (tabs_collect fuel it'))"

lemma tab_positions_append: "9 \<notin> set m \<Longrightarrow> tab_positions bs n (m @ cs) = tab_positions (bs + str_len m) (n + length m) cs"
  by (induction m arbitrary: bs n) (auto simp: add.assoc)

lemma tab_marks_plain: "9 \<notin> set m \<Longrightarrow> marks (byte_mark 9) m = replicate (str_len m) False"
  by (induction m) (auto simp: byte_mark_def replicate_add)

lemma clear_bit: "bitmap_of (xs @ True # ys) XOR push_bit (length xs) 1 = (bitmap_of (xs @ False # ys) :: 'w::len word)"
  by (rule bit_eqI) (auto simp: bit_bitmap_of bit_simps nth_append nth_Cons')

lemma tabs_next_step:
  assumes "str_len (l @ m @ 9 # r) \<le> 128" and "9 \<notin> set m"
    and "it = \<lparr>tabs_left = bitmap_of (replicate (str_len l) False @ marks (byte_mark 9) (m @ 9 # r)),
      tabs_chars = bitmap_of (marks char_mark (l @ m @ 9 # r))\<rparr>"
  shows "tabs_next it = Some (\<lparr>byte_offset = str_len (l @ m), char_offset = length (l @ m)\<rparr>,
    it\<lparr>tabs_left := bitmap_of (replicate (str_len (l @ m @ [9])) False @ marks (byte_mark 9) r)\<rparr>)"
proof -
  let ?n = "str_len l + str_len m" and ?q = "marks (byte_mark 9) r"
  have tab: "len_utf8 9 = 1" "byte_mark 9 9 = [True]" by (simp_all add: len_utf8_def byte_mark_def)
  have left: "tabs_left it = bitmap_of (replicate ?n False @ True # ?q)"
    using assms(2,3) by (simp add: tab_marks_plain tab replicate_add)
  have len: "?n + 1 + length ?q \<le> 128" using assms(1) tab by simp
  have tz: "trailing_zeros (tabs_left it) = ?n"
    using len unfolding left by (simp add: trailing_zeros_bitmap_of takeWhile_Not_False_append)
  have nz: "tabs_left it \<noteq> 0" using len unfolding left by (simp add: bitmap_of_zero_iff)
  have chars: "count_ones (tabs_chars it AND (push_bit ?n 1 - 1)) = length (l @ m)"
    using assms(1,3) by (simp add: bitmap_simps count_marks)
  have clear: "tabs_left it XOR push_bit ?n 1 = bitmap_of (replicate (?n + 1) False @ ?q)"
    using clear_bit [of "replicate ?n False" ?q, where 'w = 128] unfolding left by (simp add: replicate_app_Cons_same)
  show ?thesis unfolding tabs_next_def tz chars clear Let_def using nz tab by simp
qed

theorem tabs_correct:
  assumes "chunk_ok c"
  shows "tabs_collect 129 (chunk_tabs c) = Some (tab_positions 0 0 (ck_text c))"
proof -
  have "tabs_collect fuel \<lparr>tabs_left = bitmap_of (replicate (str_len l) False @ marks (byte_mark 9) cs),
      tabs_chars = bitmap_of (marks char_mark (l @ cs))\<rparr> = Some (tab_positions (str_len l) (length l) cs)"
    if "str_len (l @ cs) \<le> 128" "length cs < fuel" for fuel l cs
    using that
  proof (induction fuel arbitrary: l cs)
    case (Suc fuel)
    show ?case
    proof (cases "9 \<in> set cs")
      case True
      then obtain m r where cs: "cs = m @ 9 # r" "9 \<notin> set m" by (meson split_list_first)
      have step: "tabs_next \<lparr>tabs_left = bitmap_of (replicate (str_len l) False @ marks (byte_mark 9) cs),
          tabs_chars = bitmap_of (marks char_mark (l @ cs))\<rparr> =
        Some (\<lparr>byte_offset = str_len (l @ m), char_offset = length (l @ m)\<rparr>,
          \<lparr>tabs_left = bitmap_of (replicate (str_len (l @ m @ [9])) False @ marks (byte_mark 9) r),
           tabs_chars = bitmap_of (marks char_mark ((l @ m @ [9]) @ r))\<rparr>)"
        using tabs_next_step [of l m r] Suc.prems(1) cs by simp
      have "tabs_collect fuel \<lparr>tabs_left = bitmap_of (replicate (str_len (l @ m @ [9])) False @ marks (byte_mark 9) r),
          tabs_chars = bitmap_of (marks char_mark ((l @ m @ [9]) @ r))\<rparr> =
        Some (tab_positions (str_len (l @ m @ [9])) (length (l @ m @ [9])) r)"
        using Suc.prems cs by (intro Suc.IH) simp_all
      then show ?thesis unfolding tabs_collect.simps step using cs by (simp add: tab_positions_append add.assoc)
    next
      case False
      then have "(bitmap_of (replicate (str_len l) False @ marks (byte_mark 9) cs) :: bitmap) = 0"
        using Suc.prems(1) by (simp add: bitmap_of_zero_iff tab_marks_plain)
      then show ?thesis using tab_positions_append [of cs "str_len l" "length l" "[]"] False by (simp add: tabs_next_def)
    qed
  qed simp
  from this [of "[]" "ck_text c" 129] chunk_okD [OF assms] length_le_str_len [of "ck_text c"] show ?thesis
    by (simp add: chunk_tabs_def)
qed

end
