(* ===== verification/Chunk_Theorems.thy ===== *)
theory Chunk_Theorems
  imports Chunk_Convert
begin

text \<open>
  The properties of chunks and their bitmaps, each with an application to a concrete chunk.
\<close>

section \<open>An example\<close>

text \<open>The text \<open>a\<close>, newline, a character of four bytes, \<open>b\<close>.\<close>

definition sample :: str where
  "sample = [97, 10, 0x1F600, 98]"

definition sample_chunk :: chunk where
  "sample_chunk = the (chunk_new sample)"

lemma sample_facts: "chunk_ok sample_chunk" "ck_text sample_chunk = sample" "str_len sample = 7" "chunk_new sample = Some sample_chunk"
proof -
  show len: "str_len sample = 7" by (simp add: sample_def len_utf8_def)
  with chunk_new_ok [of sample] show "chunk_ok sample_chunk" "ck_text sample_chunk = sample" "chunk_new sample = Some sample_chunk"
    by (auto simp: sample_chunk_def)
qed

text \<open>A segmentation in which every character boundary is a boundary of clusters.\<close>

definition every_character :: "str \<Rightarrow> nat \<Rightarrow> bool" where
  "every_character cs n = True"

section \<open>Properties\<close>

text \<open>
  C25 \<open>nth_set_bit\<close>, which counts bits in parallel and selects without branching, returns for every
  128-bit map and every rank from one to the number of set bits the position of a set bit that has
  exactly the smaller ranks below it.
\<close>

theorem nth_set_bit_position:
  assumes "1 \<le> n" and "n \<le> count_ones v"
  shows "bit v (nth_set_bit v n) \<and> nth_set_bit v n < 128 \<and>
    count_ones (v AND (push_bit (nth_set_bit v n) 1 - 1)) = n - 1"
proof -
  let ?i = "nth_set_bit v n"
  have sel: "selects (bits_of v) n ?i" by (rule nth_set_bit_selects [OF assms])
  then have i: "?i < 128" "bit v ?i" by (auto simp: selects_def)
  have "v AND (push_bit ?i 1 - 1) = bitmap_of (take ?i (bits_of v))"
    using mask_bitmap_of [of "bits_of v" ?i, where 'w = 128] by (simp only: bitmap_of_bits_of)
  then have "count_ones (v AND (push_bit ?i 1 - 1)) = length (filter id (take ?i (bits_of v)))"
    by (simp add: count_ones_bitmap_of)
  with sel i assms(1) show ?thesis by (simp add: selects_def)
qed

theorem nth_set_bit_position_witness: "bit (5 :: bitmap) (nth_set_bit 5 2)"
proof -
  have "count_ones (5 :: bitmap) = 2" by code_simp
  with nth_set_bit_position [of 2 5] show ?thesis by simp
qed

text \<open>
  C24 The bitmaps of a chunk always describe its text: a new chunk, one appended or prepended to, and
  the pieces of a split and of a slice at character boundaries have the bitmaps of their texts; an
  append or prepend that would exceed 128 bytes panics.
\<close>

theorem chunk_bitmaps:
  assumes "chunk_ok a" and "chunk_ok b"
  shows "(str_len cs \<le> 128 \<longrightarrow> (\<exists>c. chunk_new cs = Some c \<and> chunk_ok c \<and> ck_text c = cs)) \<and>
    (str_len (ck_text a) + str_len (ck_text b) \<le> 128 \<longrightarrow>
       (\<exists>c. chunk_append a b = Some c \<and> chunk_ok c \<and> ck_text c = ck_text a @ ck_text b) \<and>
       (\<exists>c. chunk_prepend a b = Some c \<and> chunk_ok c \<and> ck_text c = ck_text b @ ck_text a)) \<and>
    (128 < str_len (ck_text a) + str_len (ck_text b) \<longrightarrow> chunk_append a b = None \<and> chunk_prepend a b = None) \<and>
    (ck_text a = l @ m @ r \<longrightarrow>
       (\<exists>x y. chunk_split_at a (str_len l) = Some (x, y) \<and> chunk_ok x \<and> chunk_ok y \<and> ck_text x = l \<and> ck_text y = m @ r) \<and>
       (\<exists>s. chunk_slice a (str_len l) (str_len l + str_len m) = Some s \<and> chunk_ok s \<and> ck_text s = m))"
proof -
  have "chunk_append a b = None \<and> chunk_prepend a b = None" if "128 < str_len (ck_text a) + str_len (ck_text b)"
  proof (rule conjI; rule chunk_append_full [OF that])
    show "ck_text a \<noteq> []" "ck_text b \<noteq> []" "ck_text a \<noteq> []" "ck_text b \<noteq> []"
      using that chunk_okD(1) [OF assms(1)] chunk_okD(1) [OF assms(2)] by auto
  qed
  with chunk_new_ok [of cs] chunk_append_ok [OF assms] chunk_prepend_ok [OF assms] chunk_split_at_ok [OF assms(1), of l "m @ r"]
    chunk_slice_ok [OF assms(1), of l m r] show ?thesis by blast
qed

theorem chunk_bitmaps_witness:
  "\<exists>s. chunk_slice sample_chunk 2 6 = Some s \<and> chunk_ok s \<and> ck_text s = [0x1F600]"
  using chunk_bitmaps [OF sample_facts(1,1), of "[]" "[97, 10]" "[0x1F600]" "[98]"] sample_facts
  by (simp add: sample_def len_utf8_def numeral_2_eq_2)

text \<open>
  C23 The summary a chunk computes from its bitmaps, with every row, the longest row and the UTF-16
  lengths, is the summary that the pass over its characters computes.
\<close>

theorem chunk_summary_of_text:
  assumes "chunk_new cs = Some c"
  shows "chunk_text_summary c = Some (summary_from cs)"
proof -
  have "str_len cs \<le> 128" using assms by (auto simp: chunk_new_def bind_require MAX_BASE_def split: if_splits)
  with chunk_new_ok [of cs] assms have "chunk_ok c" "ck_text c = cs" by auto
  with chunk_text_summary_correct [of c] show ?thesis by simp
qed

theorem chunk_summary_of_text_witness: "chunk_text_summary sample_chunk = Some (summary_from sample)"
  by (rule chunk_summary_of_text [OF sample_facts(4)])

text \<open>
  At every character boundary of a chunk the conversions of its byte offset give the UTF-16
  offset, the point and the UTF-16 point of the text before it, and the conversions back return
  that byte offset; for points this holds at every byte.
\<close>

theorem chunk_positions:
  assumes "chunk_ok c" and "ck_text c = l @ r"
  shows "chunk_offset_to_point c (str_len l) = Some (ts_lines (summary_from l)) \<and>
    chunk_point_to_offset c (ts_lines (summary_from l)) = Some (str_len l) \<and>
    chunk_offset_to_offset_utf16 c (str_len l) = OffsetUtf16 (ts_len_utf16 (summary_from l :: nat text_summary)) \<and>
    chunk_offset_utf16_to_offset c (OffsetUtf16 (ts_len_utf16 (summary_from l :: nat text_summary))) = Some (str_len l) \<and>
    chunk_offset_to_point_utf16 c (str_len l) = Some (lines_utf16 (summary_from l)) \<and>
    chunk_point_utf16_to_offset c (lines_utf16 (summary_from l)) clip = Some (str_len l) \<and>
    (n \<le> str_len (ck_text c) \<longrightarrow> (\<exists>p. chunk_offset_to_point c n = Some p \<and> chunk_point_to_offset c p = Some n))"
proof -
  have len: "ts_len_utf16 (summary_from l :: nat text_summary) = utf16_len l"
    using summary_from_summarises [of l] by (simp add: summarises_def utf16_len_def)
  have "chunk_point_to_offset c (ts_lines (summary_from l)) = Some (str_len l)"
    using point_roundtrip [OF assms(1), of "str_len l"] offset_to_point_prefix [OF assms] assms(2) by auto
  moreover have "chunk_point_utf16_to_offset c (lines_utf16 (summary_from l)) clip = Some (str_len l)"
    using utf16_roundtrip [OF assms, of clip] offset_to_point_utf16_prefix [OF assms] by auto
  ultimately show ?thesis
    using offset_to_point_prefix [OF assms] offset_to_offset_utf16_prefix [OF assms] offset_utf16_prefix [OF assms]
      offset_to_point_utf16_prefix [OF assms] point_roundtrip [OF assms(1), of n] len by simp
qed

text \<open>
  Clipping returns for every position, in range or not: a UTF-16 offset goes to the closest
  character boundary on the side of the bias, points go to the position of a prefix of the text,
  and a position that is valid already is kept. For points in bytes this assumes of the grapheme
  segmentation that the ends of a text are boundaries, and valid means at a boundary of clusters.
\<close>

theorem chunk_clipping:
  assumes "chunk_ok c" and "segmentation grapheme"
  shows "(\<exists>m. chunk_clip_offset_utf16 c (OffsetUtf16 t) b = Some (OffsetUtf16 m) \<and> closest_boundary b (ck_text c) t m) \<and>
    (\<exists>l. chunk_clip_point_utf16 c (Unclipped u) b = Some (lines_utf16 (summary_from l)) \<and> prefix_of l (ck_text c) \<and>
       (\<forall>l0. prefix_of l0 (ck_text c) \<and> u = lines_utf16 (summary_from l0) \<longrightarrow> lines_utf16 (summary_from l) = u)) \<and>
    (\<exists>l. unclipped_point_utf16_to_point c (Unclipped u) = Some (ts_lines (summary_from l)) \<and> prefix_of l (ck_text c) \<and>
       (\<forall>l0. prefix_of l0 (ck_text c) \<and> u = lines_utf16 (summary_from l0) \<longrightarrow>
          ts_lines (summary_from l0 :: nat text_summary) = ts_lines (summary_from l))) \<and>
    (\<exists>l. chunk_clip_point grapheme c p b = Some (ts_lines (summary_from l)) \<and> prefix_of l (ck_text c) \<and>
       (\<forall>l0. cluster_at grapheme (ck_text c) l0 \<and> p = ts_lines (summary_from l0) \<longrightarrow> ts_lines (summary_from l) = p))"
  using clip_offset_utf16_correct [OF assms(1), of t b] clip_point_utf16_correct [OF assms(1), of u b]
    unclipped_point_correct [OF assms(1), of u] clip_point_correct [OF assms, of p b] by blast

text \<open>
  Iterating over the tabs of a chunk yields every tab of its text in order, with its byte offset
  and the number of characters before it, and ends.
\<close>

theorem chunk_tabs_positions:
  assumes "chunk_ok c"
  shows "tabs_collect 129 (chunk_tabs c) = Some (tab_positions 0 0 (ck_text c))"
  by (rule tabs_correct [OF assms])

end
