(* ===== verification/Rope.thy ===== *)
theory Rope
  imports Chunk_Convert Cursor_Iter
begin

text \<open>
  The crate \<open>rope\<close>, file \<open>rope.rs\<close>: a text as a tree of chunks. This theory has the operations that
  build and extend a rope. The tree's items are chunks with their bitmaps; the summary of an item
  is computed from the bitmaps, as in the source.
\<close>

section \<open>Trees of chunks\<close>

definition chunk_item_summary :: "chunk \<Rightarrow> chunk_summary" where
  "chunk_item_summary c = Abs_chunk_summary (the (chunk_text_summary c))"

definition rope_ops :: "(chunk, chunk_summary) item_ops" where
  "rope_ops = \<lparr>szero = chunk_zero, sadd = chunk_add, ssummary = chunk_item_summary\<rparr>"

type_synonym rope = "(chunk, chunk_summary) node"

definition rope_new :: rope where
  "rope_new = tree_new rope_ops"

definition rope_summary :: "rope \<Rightarrow> nat text_summary" where
  "rope_summary r = chunk_text (summary r)"

definition rope_len :: "rope \<Rightarrow> nat" where
  "rope_len r = extent len_dim r"

definition rope_is_empty :: "rope \<Rightarrow> bool" where
  "rope_is_empty r \<longleftrightarrow> rope_len r = 0"

definition max_point :: "rope \<Rightarrow> nat point" where
  "max_point r = extent lines_dim r"

definition max_point_utf16 :: "rope \<Rightarrow> nat point_utf16" where
  "max_point_utf16 r = extent lines_utf16_dim r"

section \<open>Pushing text\<close>

text \<open>
  How much goes into the last chunk: all if it fits, otherwise enough to reach the minimum, rounded up to a
  character boundary.
\<close>

definition split_ix :: "(nat \<Rightarrow> bool) \<Rightarrow> nat \<Rightarrow> nat \<Rightarrow> nat option" where
  "split_ix is_boundary last_len len =
     (if last_len + len \<le> MAX_BASE then Some len
      else clip_loop is_boundary Right (min (MIN_BASE - last_len) len))"

definition push_into_last :: "str \<Rightarrow> chunk \<Rightarrow> (chunk \<times> str) option" where
  "push_into_last s last_chunk = do {
     ix \<leftarrow> split_ix (str_is_char_boundary s) (str_len (ck_text last_chunk)) (str_len s);
     (suffix, remainder) \<leftarrow> str_split_at ix s;
     c \<leftarrow> chunk_push_str last_chunk suffix;
     Some (c, remainder) }"

text \<open>The loop that cuts a text into chunks.\<close>

partial_function (option) split_chunks :: "str \<Rightarrow> str list option" where
  "split_chunks s =
     (if s = [] then Some []
      else do {
        (piece, remainder) \<leftarrow> str_split_at (back_to_boundary s (min MAX_BASE (str_len s))) s;
        pieces \<leftarrow> split_chunks remainder;
        Some (piece # pieces) })"

declare split_chunks.simps [code]

definition NUM_CHUNKS :: nat where
  "NUM_CHUNKS = 4"

definition PARALLEL_THRESHOLD :: nat where
  "PARALLEL_THRESHOLD = 84 * (2 * TREE_BASE)"

definition push_large :: "rope \<Rightarrow> str \<Rightarrow> rope option" where
  "push_large r s = do {
     new_chunks \<leftarrow> split_chunks s;
     cs \<leftarrow> those (map chunk_new new_chunks);
     if PARALLEL_THRESHOLD \<le> length new_chunks then tree_par_extend rope_ops r cs
     else tree_extend rope_ops r cs }"

text \<open>
  \<open>update_last\<close> runs its closure on the last chunk if there is one; the closure changes the chunk and the text
  that is left to push.
\<close>

definition rope_push :: "rope \<Rightarrow> str \<Rightarrow> rope option" where
  "rope_push r s = do {
     last_item \<leftarrow> tree_last r;
     (r, s) \<leftarrow> (case last_item of
        None \<Rightarrow> Some (r, s)
      | Some last_chunk \<Rightarrow> do {
          (c, remainder) \<leftarrow> push_into_last s last_chunk;
          r \<leftarrow> update_last rope_ops (\<lambda>_. c) r;
          Some (r, remainder) });
     if s = [] then Some r
     else if NUM_CHUNKS * MAX_BASE - NUM_CHUNKS * 4 < str_len s then push_large r s
     else do {
       new_chunks \<leftarrow> split_chunks s;
       _ \<leftarrow> require (length new_chunks \<le> NUM_CHUNKS);
       cs \<leftarrow> those (map chunk_new new_chunks);
       tree_extend rope_ops r cs } }"

definition push_chunk_into_last :: "chunk \<Rightarrow> chunk \<Rightarrow> (chunk \<times> chunk) option" where
  "push_chunk_into_last piece last_chunk = do {
     ix \<leftarrow> split_ix (chunk_is_char_boundary piece) (str_len (ck_text last_chunk)) (chunk_len piece);
     (suffix, remainder) \<leftarrow> chunk_split_at piece ix;
     c \<leftarrow> chunk_append last_chunk suffix;
     Some (c, remainder) }"

definition push_chunk :: "rope \<Rightarrow> chunk \<Rightarrow> rope option" where
  "push_chunk r piece = do {
     last_item \<leftarrow> tree_last r;
     (r, piece) \<leftarrow> (case last_item of
        None \<Rightarrow> Some (r, piece)
      | Some last_chunk \<Rightarrow> do {
          (c, remainder) \<leftarrow> push_chunk_into_last piece last_chunk;
          r \<leftarrow> update_last rope_ops (\<lambda>_. c) r;
          Some (r, remainder) });
     if ck_text piece \<noteq> [] then tree_push rope_ops r piece else Some r }"

definition rope_append :: "rope \<Rightarrow> rope \<Rightarrow> rope option" where
  "rope_append self other = do {
     first_item \<leftarrow> tree_first other;
     last_item \<leftarrow> tree_last self;
     case first_item of
       None \<Rightarrow> tree_append rope_ops self other
     | Some first_chunk \<Rightarrow>
         if (case last_item of Some c \<Rightarrow> str_len (ck_text c) < MIN_BASE | None \<Rightarrow> False) \<or> str_len (ck_text first_chunk) < MIN_BASE
         then do {
           self \<leftarrow> push_chunk self first_chunk;
           chunks \<leftarrow> cursor_next unit_dim (cursor_new unit_dim other);
           chunks \<leftarrow> cursor_next unit_dim chunks;
           (_, suffix) \<leftarrow> cursor_suffix rope_ops unit_dim chunks;
           tree_append rope_ops self suffix }
         else tree_append rope_ops self other }"

definition rope_from :: "str \<Rightarrow> rope option" where
  "rope_from s = rope_push rope_new s"

fun rope_from_iter :: "rope \<Rightarrow> str list \<Rightarrow> rope option" where
  "rope_from_iter r [] = Some r"
| "rope_from_iter r (s # ss) = do { r \<leftarrow> rope_push r s; rope_from_iter r ss }"

definition push_front :: "rope \<Rightarrow> str \<Rightarrow> rope option" where
  "push_front r s =
     (if s = [] then Some r
      else if rope_is_empty r then rope_push r s
      else do {
        first_item \<leftarrow> tree_first r;
        if (case first_item of Some c \<Rightarrow> str_len (ck_text c) + str_len s \<le> MAX_BASE | None \<Rightarrow> False)
        then do {
          c \<leftarrow> first_item;
          c' \<leftarrow> chunk_prepend_str c s;
          update_first rope_ops (\<lambda>_. c') r }
        else do { front \<leftarrow> rope_from s; rope_append front r } })"

section \<open>What a rope holds\<close>

definition rope_str :: "rope \<Rightarrow> str" where
  "rope_str r = concat (map ck_text (flat r))"

text \<open>
  The invariant: chunks describe their text and are not empty, and all but the last have at least the
  minimal size, less what a character boundary may cost.
\<close>

definition chunks_ok :: "chunk list \<Rightarrow> bool" where
  "chunks_ok cs \<longleftrightarrow> (\<forall>c \<in> set cs. chunk_ok c \<and> ck_text c \<noteq> []) \<and> (\<forall>c \<in> set (butlast cs). MIN_BASE \<le> str_len (ck_text c) + 3)"

definition rope_ok :: "rope \<Rightarrow> bool" where
  "rope_ok r \<longleftrightarrow> wf_tree rope_ops r \<and> chunks_ok (flat r)"

interpretation rope_chunks: summary_laws rope_ops
  using rope_text.summary_laws_axioms by (simp add: summary_laws_def rope_ops_def text_ops_def)

section \<open>Boundaries are close\<close>

lemma len_utf8_le: "len_utf8 c \<le> 4"
  by (simp add: len_utf8_def)

lemma back_to_boundary_le: "back_to_boundary cs n \<le> n"
  by (induction n) auto

lemma back_to_boundary_near: "n \<le> str_len cs \<Longrightarrow> n \<le> back_to_boundary cs n + 3"
proof (induction cs arbitrary: n)
  case (Cons c cs)
  show ?case
  proof (cases "len_utf8 c \<le> n")
    case True
    then have "n - len_utf8 c \<le> str_len cs" using Cons.prems by simp
    from Cons.IH [OF this] True show ?thesis by (simp add: back_Cons)
  qed (use len_utf8_le [of c] in \<open>simp add: back_Cons\<close>)
qed simp

lemma boundary_above: "n \<le> str_len cs \<Longrightarrow> \<exists>m. n \<le> m \<and> m \<le> n + 3 \<and> m \<le> str_len cs \<and> str_is_char_boundary cs m"
proof (induction cs arbitrary: n)
  case (Cons c cs)
  show ?case
  proof (cases "len_utf8 c \<le> n")
    case True
    have "n - len_utf8 c \<le> str_len cs" using Cons.prems by simp
    from Cons.IH [OF this] obtain m where
      "n - len_utf8 c \<le> m" "m \<le> n - len_utf8 c + 3" "m \<le> str_len cs" "str_is_char_boundary cs m" by blast
    with True len_utf8_pos [of c] show ?thesis by (intro exI [of _ "len_utf8 c + m"]) (auto simp: boundary_Cons)
  next
    case False
    show ?thesis
    proof (cases "n = 0")
      case False
      with \<open>\<not> len_utf8 c \<le> n\<close> len_utf8_le [of c] len_utf8_pos [of c] show ?thesis
        by (intro exI [of _ "len_utf8 c"]) (auto simp: boundary_Cons)
    qed (auto intro: exI [of _ 0])
  qed
qed (auto intro: exI [of _ 0])

lemma split_ix_spec:
  assumes "last_len \<le> 128" and "\<And>n. is_boundary n \<longleftrightarrow> str_is_char_boundary s n"
  shows "\<exists>l r. split_ix is_boundary last_len (str_len s) = Some (str_len l) \<and> s = l @ r \<and>
    last_len + str_len l \<le> 128 \<and> (r \<noteq> [] \<longrightarrow> 64 \<le> last_len + str_len l \<and> (last_len < 64 \<longrightarrow> 62 \<le> str_len r) \<and> (64 \<le> last_len \<longrightarrow> l = []))"
proof (cases "last_len + str_len s \<le> 128")
  case True
  then show ?thesis by (intro exI [of _ s] exI [of _ "[]"]) (simp add: split_ix_def MAX_BASE_def)
next
  case False
  define n where "n = 64 - last_len"
  have min: "min (MIN_BASE - last_len) (str_len s) = n" using False by (simp add: n_def MIN_BASE_def MAX_BASE_def)
  have "n \<le> str_len s" using False by (simp add: n_def)
  from boundary_above [OF this] obtain N where N: "n \<le> N" "N \<le> n + 3" "N \<le> str_len s" "str_is_char_boundary s N" by blast
  have bd: "is_boundary = str_is_char_boundary s" using assms(2) by auto
  from clip_loop_right [of "str_is_char_boundary s", OF N(4,1)] obtain m where
    m: "n \<le> m" "clip_loop (str_is_char_boundary s) Right n = Some m" "m \<le> N" "str_is_char_boundary s m"
      "\<forall>k. n \<le> k \<and> k < m \<longrightarrow> \<not> str_is_char_boundary s k" by blast
  then obtain l r where lr: "s = l @ r" "str_len l = m" by (auto simp: str_is_char_boundary_def str_split_at_iff)
  have "m = 0" if "64 \<le> last_len" using m(5) that by (auto simp: n_def)
  moreover have "split_ix is_boundary last_len (str_len s) = Some m"
    unfolding split_ix_def min bd using False m(2) by (simp add: MAX_BASE_def)
  ultimately show ?thesis using lr m(1,3) N(2) assms(1) False
    by (intro exI [of _ l] exI [of _ r]) (cases "64 \<le> last_len"; auto simp: n_def)
qed

section \<open>Cutting a text\<close>

lemma split_chunks_spec:
  "\<exists>ps. split_chunks s = Some ps \<and> concat ps = s \<and> (\<forall>p \<in> set ps. p \<noteq> [] \<and> str_len p \<le> 128) \<and>
    (\<forall>p \<in> set (butlast ps). 125 \<le> str_len p)"
proof (induction "length s" arbitrary: s rule: less_induct)
  case less
  show ?case
  proof (cases "s = []")
    case True
    then show ?thesis by (simp add: split_chunks.simps)
  next
    case False
    let ?n = "min 128 (str_len s)"
    let ?ix = "back_to_boundary s ?n"
    have near: "?n \<le> ?ix + 3" "?ix \<le> ?n" by (rule back_to_boundary_near, simp, rule back_to_boundary_le)
    from back_to_boundary_prefix [of ?n s] obtain p r where p: "s = p @ r" "str_len p = ?ix"
      by (auto simp: prefix_of_def)
    have p_ne: "p \<noteq> []"
    proof
      assume "p = []"
      with p near have "str_len s \<le> 3" by (simp add: min_def split: if_splits)
      then have "?n = str_len s" by simp
      then have "?ix = str_len s" using back_to_boundary_fix [OF str_is_char_boundary_len [of s]] by simp
      with \<open>p = []\<close> p False show False by simp
    qed
    then have "length r < length s" using p(1) by simp
    from less [OF this] obtain ps where ps: "split_chunks r = Some ps" "concat ps = r"
      "\<forall>p \<in> set ps. p \<noteq> [] \<and> str_len p \<le> 128" "\<forall>p \<in> set (butlast ps). 125 \<le> str_len p" by blast
    have "str_split_at ?ix s = Some (p, r)" using p by (simp add: str_split_at_iff)
    then have "split_chunks s = Some (p # ps)"
      using False ps(1) by (subst split_chunks.simps) (simp add: MAX_BASE_def)
    moreover have "125 \<le> str_len p" if "ps \<noteq> []"
    proof -
      have "r \<noteq> []" using that ps(2,3) by (cases ps) auto
      have "str_len s \<noteq> ?ix" using p \<open>r \<noteq> []\<close> by auto
      then have "\<not> str_len s \<le> 128"
        using back_to_boundary_fix [OF str_is_char_boundary_len [of s]] by (auto simp: min_def)
      with near p(2) show ?thesis by simp
    qed
    moreover have "str_len p \<le> 128" using p(2) near(2) by simp
    ultimately show ?thesis using p(1) p_ne ps by auto
  qed
qed

lemma split_chunks_count:
  assumes "\<forall>p \<in> set (butlast ps). 125 \<le> str_len p" and "\<forall>p \<in> set ps. p \<noteq> []" and "str_len (concat ps) \<le> 496"
  shows "length ps \<le> 4"
proof (cases ps rule: rev_cases)
  case (snoc qs q)
  have "125 * length qs \<le> str_len (concat qs)" if "\<forall>p \<in> set qs. 125 \<le> str_len p" for qs
    using that by (induction qs) auto
  with assms(1,3) snoc have "125 * length qs \<le> 496" by fastforce
  then show ?thesis using snoc by simp
qed simp


section \<open>The operations extend the text\<close>

text \<open>What each editing operation promises: it returns a rope that satisfies the invariant and holds the text.\<close>

definition holds :: "rope option \<Rightarrow> str \<Rightarrow> bool" where
  "holds result cs \<longleftrightarrow> (\<exists>r. result = Some r \<and> rope_ok r \<and> rope_str r = cs)"

lemma chunks_ok_Nil [simp]: "chunks_ok []"
  by (simp add: chunks_ok_def)

lemma chunks_ok_append:
  "chunks_ok (xs @ ys) \<longleftrightarrow> chunks_ok xs \<and> chunks_ok ys \<and> (xs \<noteq> [] \<and> ys \<noteq> [] \<longrightarrow> 61 \<le> str_len (ck_text (last xs)))"
proof (cases ys)
  case (Cons y ys')
  have "set xs = set (butlast xs @ [last xs])" if "xs \<noteq> []" using that by simp
  with Cons show ?thesis by (cases xs rule: rev_cases) (auto simp: chunks_ok_def MIN_BASE_def MAX_BASE_def butlast_append)
qed simp

lemma chunks_ok_single: "chunks_ok [c] \<longleftrightarrow> chunk_ok c \<and> ck_text c \<noteq> []"
  by (auto simp: chunks_ok_def)

lemma new_chunks_ok:
  assumes "\<forall>p \<in> set ps. p \<noteq> [] \<and> str_len p \<le> 128" and "\<forall>p \<in> set (butlast ps). 125 \<le> str_len p"
  shows "\<exists>cs. those (map chunk_new ps) = Some cs \<and> map ck_text cs = ps \<and> chunks_ok cs"
  using assms
proof (induction ps)
  case (Cons p ps)
  then obtain cs where cs: "those (map chunk_new ps) = Some cs" "map ck_text cs = ps" "chunks_ok cs"
    by (auto split: if_splits)
  from Cons.prems chunk_new_ok [of p] obtain c where c: "chunk_new p = Some c" "chunk_ok c" "ck_text c = p" by auto
  have "61 \<le> str_len p" if "cs \<noteq> []" using that cs(2) Cons.prems(2) by auto
  with c cs Cons.prems(1) chunks_ok_append [of "[c]" cs] show ?case by (auto simp: chunks_ok_single)
qed simp

lemma extend_holds:
  assumes "rope_ok r" and "chunks_ok cs" and "cs = [] \<or> flat r = [] \<or> 61 \<le> str_len (ck_text (last (flat r)))"
  shows "holds (tree_extend rope_ops r cs) (rope_str r @ concat (map ck_text cs))"
    and "holds (tree_par_extend rope_ops r cs) (rope_str r @ concat (map ck_text cs))"
proof -
  show extend: "holds (tree_extend rope_ops r cs) (rope_str r @ concat (map ck_text cs))"
    using rope_chunks.tree_extend_correct [of r cs] assms
    by (auto simp: holds_def rope_ok_def rope_str_def chunks_ok_append)
  then show "holds (tree_par_extend rope_ops r cs) (rope_str r @ concat (map ck_text cs))"
    by (simp add: tree_extend_def tree_par_extend_def rope_chunks.tree_from_par_iter_eq)
qed

lemma update_last_holds:
  assumes "rope_ok r" and "flat r = cs @ [c]" and "chunk_ok c'" and "ck_text c' \<noteq> []"
  shows "\<exists>r'. update_last rope_ops (\<lambda>_. c') r = Some r' \<and> rope_ok r' \<and> flat r' = cs @ [c']"
  using update_last_correct [of rope_ops r "\<lambda>_. c'"] assms
  by (auto simp: rope_ok_def map_last_def chunks_ok_append chunks_ok_single)

lemma push_into_last_spec:
  assumes "chunk_ok c" and "ck_text c \<noteq> []"
  shows "\<exists>c' l rest. push_into_last s c = Some (c', rest) \<and> chunk_ok c' \<and> ck_text c' = ck_text c @ l \<and> s = l @ rest \<and>
    (rest \<noteq> [] \<longrightarrow> 64 \<le> str_len (ck_text c'))"
proof -
  obtain l rest where ix: "split_ix (str_is_char_boundary s) (str_len (ck_text c)) (str_len s) = Some (str_len l)" "s = l @ rest"
      "str_len (ck_text c) + str_len l \<le> 128" "rest \<noteq> [] \<longrightarrow> 64 \<le> str_len (ck_text c) + str_len l"
    using split_ix_spec [of "str_len (ck_text c)" "str_is_char_boundary s" s] chunk_okD(1) [OF assms(1)] by blast
  from ix(3) chunk_new_ok [of l] obtain n where n: "chunk_new l = Some n" "chunk_ok n" "ck_text n = l" by auto
  from chunk_append_ok [OF assms(1) n(2)] ix(3) n(3) obtain c' where
    "chunk_append c n = Some c'" "chunk_ok c'" "ck_text c' = ck_text c @ l" by auto
  with ix n show ?thesis by (auto simp: push_into_last_def chunk_push_str_def)
qed

text \<open>The two ways to add what does not fit into the last chunk.\<close>

lemma push_rest_holds:
  assumes "rope_ok r" and "flat r = [] \<or> 61 \<le> str_len (ck_text (last (flat r)))"
  shows "holds (push_large r s) (rope_str r @ s)"
    and "str_len s \<le> 496 \<Longrightarrow>
      holds (do { new_chunks \<leftarrow> split_chunks s; _ \<leftarrow> require (length new_chunks \<le> NUM_CHUNKS);
        cs \<leftarrow> those (map chunk_new new_chunks); tree_extend rope_ops r cs }) (rope_str r @ s)"
proof -
  obtain ps where ps: "split_chunks s = Some ps" "concat ps = s" "\<forall>p \<in> set ps. p \<noteq> [] \<and> str_len p \<le> 128"
      "\<forall>p \<in> set (butlast ps). 125 \<le> str_len p" using split_chunks_spec [of s] by blast
  obtain cs where cs: "those (map chunk_new ps) = Some cs" "map ck_text cs = ps" "chunks_ok cs"
    using new_chunks_ok [OF ps(3,4)] by blast
  show "holds (push_large r s) (rope_str r @ s)"
    using extend_holds [OF assms(1) cs(3)] assms(2) ps cs by (simp add: push_large_def)
  assume "str_len s \<le> 496"
  with split_chunks_count [OF ps(4)] ps have "length ps \<le> 4" by blast
  with extend_holds(1) [OF assms(1) cs(3)] assms(2) ps(1,2) cs(1,2)
  show "holds (do { new_chunks \<leftarrow> split_chunks s; _ \<leftarrow> require (length new_chunks \<le> NUM_CHUNKS);
      cs \<leftarrow> those (map chunk_new new_chunks); tree_extend rope_ops r cs }) (rope_str r @ s)"
    by (simp add: bind_require NUM_CHUNKS_def)
qed

theorem rope_push_holds:
  assumes "rope_ok r"
  shows "holds (rope_push r s) (rope_str r @ s)"
proof (cases "flat r" rule: rev_cases)
  case Nil
  then show ?thesis
    using tree_last_correct [of rope_ops r] assms push_rest_holds [OF assms, of s]
    by (auto simp: rope_push_def rope_ok_def last_opt_def holds_def NUM_CHUNKS_def MAX_BASE_def)
next
  case (snoc cs c)
  have c: "chunk_ok c" "ck_text c \<noteq> []" using assms snoc by (auto simp: rope_ok_def chunks_ok_def)
  obtain c' l rest where push: "push_into_last s c = Some (c', rest)" "chunk_ok c'" "ck_text c' = ck_text c @ l"
      "s = l @ rest" "rest \<noteq> [] \<longrightarrow> 64 \<le> str_len (ck_text c')" using push_into_last_spec [OF c, of s] by blast
  from update_last_holds [OF assms snoc push(2)] push(3) c(2) obtain r' where
    r': "update_last rope_ops (\<lambda>_. c') r = Some r'" "rope_ok r'" "flat r' = cs @ [c']" by auto
  have str: "rope_str r' @ rest = rope_str r @ s" using push(3,4) r'(3) snoc by (simp add: rope_str_def)
  have last: "tree_last r = Some (Some c)"
    using tree_last_correct [of rope_ops r] assms snoc by (simp add: rope_ok_def last_opt_def)
  show ?thesis
  proof (cases "rest = []")
    case True
    with last push(1) r' str show ?thesis by (simp add: rope_push_def holds_def)
  next
    case False
    with push(5) r'(3) have "flat r' = [] \<or> 61 \<le> str_len (ck_text (last (flat r')))" by simp
    from push_rest_holds [OF r'(2) this, of rest] False last push(1) r'(1) str show ?thesis
      by (simp add: rope_push_def NUM_CHUNKS_def MAX_BASE_def)
  qed
qed


text \<open>
  A slice of a chunk may be pushed even when it is empty. When the slice is long enough to be followed by other chunks, so
  is what becomes the last chunk.
\<close>

lemma push_chunk_into_last_spec:
  assumes "chunk_ok c" and "chunk_ok piece"
  shows "\<exists>c' rest l. push_chunk_into_last piece c = Some (c', rest) \<and> chunk_ok c' \<and> chunk_ok rest \<and>
    ck_text c' = ck_text c @ l \<and> ck_text piece = l @ ck_text rest \<and>
    (ck_text rest \<noteq> [] \<longrightarrow> 64 \<le> str_len (ck_text c') \<and> (61 \<le> str_len (ck_text piece) \<longrightarrow> 61 \<le> str_len (ck_text rest)))"
proof -
  have bd: "chunk_is_char_boundary piece n \<longleftrightarrow> str_is_char_boundary (ck_text piece) n" for n
    by (rule chunk_is_char_boundary_correct [OF assms(2)])
  obtain l r where ix: "split_ix (chunk_is_char_boundary piece) (str_len (ck_text c)) (str_len (ck_text piece)) = Some (str_len l)"
      "ck_text piece = l @ r" "str_len (ck_text c) + str_len l \<le> 128"
      "r \<noteq> [] \<longrightarrow> 64 \<le> str_len (ck_text c) + str_len l \<and> (str_len (ck_text c) < 64 \<longrightarrow> 62 \<le> str_len r) \<and>
         (64 \<le> str_len (ck_text c) \<longrightarrow> l = [])"
    using split_ix_spec [OF chunk_okD(1) [OF assms(1)] bd] by blast
  from chunk_split_at_ok [OF assms(2) ix(2)] obtain a b where
    ab: "chunk_split_at piece (str_len l) = Some (a, b)" "chunk_ok a" "chunk_ok b" "ck_text a = l" "ck_text b = r" by blast
  from chunk_append_ok [OF assms(1) ab(2)] ix(3) ab(4) obtain c' where
    c': "chunk_append c a = Some c'" "chunk_ok c'" "ck_text c' = ck_text c @ l" by auto
  have "61 \<le> str_len r" if "r \<noteq> []" "61 \<le> str_len (ck_text piece)"
    using that ix(2,4) by (cases "str_len (ck_text c) < 64") auto
  with ix ab c' show ?thesis by (auto simp: push_chunk_into_last_def chunk_len_def)
qed

lemma push_chunk_holds:
  assumes "rope_ok r" and "chunk_ok piece"
  shows "\<exists>r'. push_chunk r piece = Some r' \<and> rope_ok r' \<and> rope_str r' = rope_str r @ ck_text piece \<and>
    (61 \<le> str_len (ck_text piece) \<longrightarrow> 61 \<le> str_len (ck_text (last (flat r'))))"
proof (cases "flat r" rule: rev_cases)
  case Nil
  then show ?thesis
    using tree_last_correct [of rope_ops r] assms rope_chunks.tree_push_correct [of r piece]
    by (auto simp: push_chunk_def rope_ok_def last_opt_def rope_str_def chunks_ok_single)
next
  case (snoc cs c)
  have c: "chunk_ok c" "ck_text c \<noteq> []" using assms snoc by (auto simp: rope_ok_def chunks_ok_def)
  obtain c' l rest where push: "push_chunk_into_last piece c = Some (c', rest)" "chunk_ok c'" "chunk_ok rest"
      "ck_text c' = ck_text c @ l" "ck_text piece = l @ ck_text rest"
      "ck_text rest \<noteq> [] \<longrightarrow> 64 \<le> str_len (ck_text c') \<and> (61 \<le> str_len (ck_text piece) \<longrightarrow> 61 \<le> str_len (ck_text rest))"
    using push_chunk_into_last_spec [OF c(1) assms(2)] by blast
  from update_last_holds [OF assms(1) snoc push(2)] push(4) c(2) obtain r' where
    r': "update_last rope_ops (\<lambda>_. c') r = Some r'" "rope_ok r'" "flat r' = cs @ [c']" by auto
  have last: "tree_last r = Some (Some c)"
    using tree_last_correct [of rope_ops r] assms snoc by (simp add: rope_ok_def last_opt_def)
  show ?thesis
  proof (cases "ck_text rest = []")
    case True
    with last push r' snoc show ?thesis by (simp add: push_chunk_def rope_str_def)
  next
    case False
    from rope_chunks.tree_push_correct [of r' rest] r'(2) obtain r'' where
      "tree_push rope_ops r' rest = Some r''" "wf_tree rope_ops r''" "flat r'' = flat r' @ [rest]"
      by (auto simp: rope_ok_def)
    moreover have "chunks_ok ((cs @ [c']) @ [rest])"
      using False push(3,6) r'(2,3) by (simp only: chunks_ok_append [of "cs @ [c']"] chunks_ok_single rope_ok_def) auto
    ultimately show ?thesis using False last push r' snoc by (simp add: push_chunk_def rope_str_def rope_ok_def)
  qed
qed

lemma append_holds:
  assumes "rope_ok r" and "wf_tree rope_ops u" and "chunks_ok (flat u)"
    and "flat u = [] \<or> flat r = [] \<or> 61 \<le> str_len (ck_text (last (flat r)))"
  shows "holds (tree_append rope_ops r u) (rope_str r @ concat (map ck_text (flat u)))"
  using rope_chunks.tree_append_correct [of r u] assms
  by (auto simp: holds_def rope_ok_def rope_str_def chunks_ok_append)

lemma skip_first_chunk:
  assumes "wf_tree rope_ops u" and "shallow u" and "flat u = c # cs"
  shows "\<exists>c1 c2 c3 v. cursor_next unit_dim (cursor_new unit_dim u) = Some c1 \<and> cursor_next unit_dim c1 = Some c2 \<and>
    cursor_suffix rope_ops unit_dim c2 = Some (c3, v) \<and> wf_tree rope_ops v \<and> flat v = cs"
proof -
  have walk: "walkable rope_ops u" using assms by (simp add: walkable_def)
  note steps = dimension_laws.cursor_next_correct [OF rope_chunks.unit_dimension _ walk]
  obtain c1 where c1: "cursor_next unit_dim (cursor_new unit_dim u) = Some c1" "cursor_at rope_ops unit_dim u 0 c1"
    using steps [of 0 "cursor_new unit_dim u"] by (auto simp: forward_start_def cursor_fresh_new)
  then have "forward_start rope_ops unit_dim u 1 c1" using assms(3) by (auto simp: forward_start_def)
  from steps [OF this] obtain c2 where c2: "cursor_next unit_dim c1 = Some c2" "cursor_at rope_ops unit_dim u 1 c2" by blast
  then have "cursor_ready rope_ops unit_dim u 1 c2" by (simp add: cursor_ready_def)
  from dimension_laws.cursor_suffix_correct [OF rope_chunks.unit_dimension this walk] c1 c2 assms(3) show ?thesis by auto
qed

theorem rope_append_holds:
  assumes "rope_ok r" and "rope_ok u" and "shallow u"
  shows "holds (rope_append r u) (rope_str r @ rope_str u)"
proof (cases "flat u")
  case Nil
  with assms append_holds [of r u] tree_first_correct [of rope_ops u] tree_last_correct [of rope_ops r] show ?thesis
    by (simp add: rope_append_def rope_ok_def first_opt_def rope_str_def)
next
  case (Cons c cs)
  have u: "wf_tree rope_ops u" "chunks_ok (flat u)" "wf_tree rope_ops r" "chunk_ok c"
    using assms Cons by (auto simp: rope_ok_def chunks_ok_def)
  have ends: "tree_first u = Some (Some c)" "tree_last r = Some (last_opt (flat r))"
    using tree_first_correct [OF u(1)] tree_last_correct [OF u(3)] Cons by (simp_all add: first_opt_def)
  let ?small = "(case last_opt (flat r) of Some c \<Rightarrow> str_len (ck_text c) < MIN_BASE | None \<Rightarrow> False) \<or> str_len (ck_text c) < MIN_BASE"
  show ?thesis
  proof (cases ?small)
    case True
    obtain r' where r': "push_chunk r c = Some r'" "rope_ok r'" "rope_str r' = rope_str r @ ck_text c"
        "61 \<le> str_len (ck_text c) \<longrightarrow> 61 \<le> str_len (ck_text (last (flat r')))"
      using push_chunk_holds [OF assms(1) u(4)] by blast
    obtain c1 c2 c3 v where v: "cursor_next unit_dim (cursor_new unit_dim u) = Some c1" "cursor_next unit_dim c1 = Some c2"
        "cursor_suffix rope_ops unit_dim c2 = Some (c3, v)" "wf_tree rope_ops v" "flat v = cs"
      using skip_first_chunk [OF u(1) assms(3) Cons] by blast
    have cs: "chunks_ok cs" "cs \<noteq> [] \<longrightarrow> 61 \<le> str_len (ck_text c)"
      using u(2) Cons chunks_ok_append [of "[c]" cs] by auto
    have "rope_append r u = tree_append rope_ops r' v" using True ends r'(1) v by (simp add: rope_append_def)
    with append_holds [OF r'(2) v(4)] v(5) cs r'(3,4) Cons show ?thesis by (auto simp: rope_str_def)
  next
    case False
    then have "flat r = [] \<or> 61 \<le> str_len (ck_text (last (flat r)))"
      by (auto simp: last_opt_def MIN_BASE_def MAX_BASE_def split: if_splits)
    with append_holds [OF assms(1) u(1,2)] False ends show ?thesis by (simp add: rope_append_def rope_str_def)
  qed
qed

lemma rope_new_ok: "rope_ok rope_new" "rope_str rope_new = []"
  by (simp_all add: rope_ok_def rope_new_def rope_str_def)

lemma rope_from_holds: "holds (rope_from s) s"
  using rope_push_holds [OF rope_new_ok(1), of s] by (simp add: rope_from_def rope_new_ok(2))

lemma rope_from_iter_holds: "rope_ok r \<Longrightarrow> holds (rope_from_iter r ss) (rope_str r @ concat ss)"
proof (induction ss arbitrary: r)
  case (Cons s ss)
  then obtain r' where "rope_push r s = Some r'" "rope_ok r'" "rope_str r' = rope_str r @ s"
    using rope_push_holds [of r s] by (auto simp: holds_def)
  with Cons.IH [of r'] show ?case by simp
qed (simp add: holds_def)

section \<open>What a rope knows of its text\<close>

lemma chunk_item_summary_ok: "chunk_ok c \<Longrightarrow> chunk_item_summary c = chunk_of (ck_text c)"
  by (simp add: chunk_item_summary_def chunk_text_summary_correct flip: chunk_of.rep_eq) (simp add: chunk_text_inverse)

lemma rope_summaries: "\<forall>c \<in> set cs. chunk_ok c \<Longrightarrow> map (ssummary rope_ops) cs = map (ssummary text_ops) (map ck_text cs)"
  by (simp add: rope_ops_def text_ops_def chunk_item_summary_ok)

lemma rope_position_of: "\<forall>c \<in> set cs. chunk_ok c \<Longrightarrow> position_of rope_ops D cs = position_of text_ops D (map ck_text cs)"
  by (simp add: position_of_def rope_summaries)

lemma sum_of_texts: "sum_of text_ops (map (ssummary text_ops) ss) = chunk_of (concat ss)"
  by (induction ss rule: rev_induct) (simp_all add: sum_of_def text_ops_def chunk_zero_of chunk_add_of)

lemma rope_summary_correct: "rope_ok r \<Longrightarrow> summary r = chunk_of (rope_str r)"
  using rope_chunks.wf_summary [of r] sum_of_texts [of "map ck_text (flat r)"]
  by (simp add: rope_ok_def chunks_ok_def rope_summaries rope_str_def) (simp add: sum_of_def rope_ops_def text_ops_def)

lemma rope_extent:
  assumes "rope_ok r" and "text_dimension D m add"
  shows "extent D r = m (summary_from (rope_str r))"
  using text_dimension.position_of_text [OF assms(2), of "[rope_str r]"] rope_summary_correct [OF assms(1)]
  by (simp add: extent_def position_of_def text_ops_def)

lemma rope_measures:
  assumes "rope_ok r"
  shows "rope_summary r = summary_from (rope_str r)" and "rope_len r = str_len (rope_str r)"
    and "rope_is_empty r \<longleftrightarrow> rope_str r = []"
    and "max_point r = ts_lines (summary_from (rope_str r))"
    and "max_point_utf16 r = lines_utf16 (summary_from (rope_str r))"
proof -
  show "rope_summary r = summary_from (rope_str r)"
    using assms by (simp add: rope_summary_def rope_summary_correct chunk_of.rep_eq)
  show "rope_len r = str_len (rope_str r)"
    using rope_extent [OF assms len.text_dimension_axioms] summary_from_summarises [of "rope_str r"]
    by (simp add: rope_len_def summarises_def)
  then show "rope_is_empty r \<longleftrightarrow> rope_str r = []" by (simp add: rope_is_empty_def)
  show "max_point r = ts_lines (summary_from (rope_str r))"
    using rope_extent [OF assms lines.text_dimension_axioms] by (simp add: max_point_def)
  show "max_point_utf16 r = lines_utf16 (summary_from (rope_str r))"
    using rope_extent [OF assms lines_utf16.text_dimension_axioms] by (simp add: max_point_utf16_def)
qed

lemma push_front_holds:
  assumes "rope_ok r" and "shallow r"
  shows "holds (push_front r s) (s @ rope_str r)"
proof (cases "s = [] \<or> rope_str r = []")
  case True
  then show ?thesis
    using assms rope_push_holds [OF assms(1), of s] rope_measures(3) [OF assms(1)]
    by (auto simp: push_front_def holds_def)
next
  case False
  then obtain c cs where flat: "flat r = c # cs" by (cases "flat r") (auto simp: rope_str_def)
  have first: "tree_first r = Some (Some c)"
    using tree_first_correct [of rope_ops r] assms flat by (simp add: rope_ok_def first_opt_def)
  have c: "chunk_ok c" "ck_text c \<noteq> []" using assms(1) flat by (auto simp: rope_ok_def chunks_ok_def)
  show ?thesis
  proof (cases "str_len (ck_text c) + str_len s \<le> 128")
    case True
    then obtain n where n: "chunk_new s = Some n" "chunk_ok n" "ck_text n = s" using chunk_new_ok [of s] by auto
    with chunk_prepend_ok [OF c(1) n(2)] True obtain c' where
      c': "chunk_prepend c n = Some c'" "chunk_ok c'" "ck_text c' = s @ ck_text c" by auto
    have "chunks_ok (c' # cs)" "rope_str r = ck_text c @ concat (map ck_text cs)"
      using assms(1) c' c flat chunks_ok_append [of "[c]" cs] chunks_ok_append [of "[c']" cs]
      by (auto simp: rope_ok_def chunks_ok_single rope_str_def)
    with update_first_correct [of rope_ops r "\<lambda>_. c'"] assms(1) flat False True first n c' rope_measures(3) [OF assms(1)]
    show ?thesis
      by (auto simp: push_front_def holds_def rope_ok_def rope_str_def map_first_def chunk_prepend_str_def MAX_BASE_def)
  next
    case wide: False
    obtain front where "rope_from s = Some front" "rope_ok front" "rope_str front = s"
      using rope_from_holds [of s] by (auto simp: holds_def)
    with rope_append_holds [OF _ assms, of front] wide False first rope_measures(3) [OF assms(1)] show ?thesis
      by (simp add: push_front_def MAX_BASE_def)
  qed
qed

end
