(* ===== verification/Rope_Convert.thy ===== *)
theory Rope_Convert
  imports Rope
begin

text \<open>
  The crate \<open>rope\<close>, file \<open>rope.rs\<close>: character boundaries of a rope, the conversions between its
  positions and clipping. Each operation finds the chunk a position lies in by the summaries of the
  tree and asks the chunk; it is shown to answer for the whole text.
\<close>

section \<open>The order of UTF-16 positions\<close>

instantiation point_utf16 :: (linorder) linorder
begin

definition less_eq_point_utf16 :: "'a point_utf16 \<Rightarrow> 'a point_utf16 \<Rightarrow> bool" where
  "less_eq_point_utf16 p q \<longleftrightarrow> as_point p \<le> as_point q"

definition less_point_utf16 :: "'a point_utf16 \<Rightarrow> 'a point_utf16 \<Rightarrow> bool" where
  "less_point_utf16 p q \<longleftrightarrow> as_point p < as_point q"

instance
  by standard (auto simp: less_eq_point_utf16_def less_point_utf16_def order.strict_iff_order)

end

instantiation offset_utf16 :: linorder
begin

definition less_eq_offset_utf16 :: "offset_utf16 \<Rightarrow> offset_utf16 \<Rightarrow> bool" where
  "less_eq_offset_utf16 a b \<longleftrightarrow> offset_value a \<le> offset_value b"

definition less_offset_utf16 :: "offset_utf16 \<Rightarrow> offset_utf16 \<Rightarrow> bool" where
  "less_offset_utf16 a b \<longleftrightarrow> offset_value a < offset_value b"

instance
  by standard (auto simp: less_eq_offset_utf16_def less_offset_utf16_def offset_utf16.expand)

end

section \<open>Character boundaries\<close>

text \<open>A dimension as the target of a seek, alone or as the first of a pair.\<close>

definition at_first :: "'k::linorder \<Rightarrow> 'k \<times> 'x \<Rightarrow> ordering" where
  "at_first t pos = cmp t (fst pos)"

definition rope_is_char_boundary :: "rope \<Rightarrow> nat \<Rightarrow> bool option" where
  "rope_is_char_boundary r offset =
     (if is_empty r then Some (offset = 0)
      else case find_item len_dim (cmp offset) Left r of (start, _, item) \<Rightarrow> do {
        chunk_offset \<leftarrow> usize_sub offset start;
        Some (case item of Some chunk \<Rightarrow> chunk_is_char_boundary chunk chunk_offset | None \<Rightarrow> False) })"

definition rope_floor_char_boundary :: "rope \<Rightarrow> nat \<Rightarrow> nat option" where
  "rope_floor_char_boundary r index =
     (if rope_len r \<le> index then Some (rope_len r)
      else case find_item len_dim (cmp index) Left r of (start, _, item) \<Rightarrow> do {
        chunk_offset \<leftarrow> usize_sub index start;
        Some (case item of
            Some chunk \<Rightarrow> start + str_floor_char_boundary (ck_text chunk) chunk_offset
          | None \<Rightarrow> rope_len r) })"

definition rope_ceil_char_boundary :: "rope \<Rightarrow> nat \<Rightarrow> nat option" where
  "rope_ceil_char_boundary r index =
     (if rope_len r < index then Some (rope_len r)
      else case find_item len_dim (cmp index) Left r of (start, _, item) \<Rightarrow> do {
        chunk_offset \<leftarrow> usize_sub index start;
        Some (case item of
            Some chunk \<Rightarrow> start + str_ceil_char_boundary (ck_text chunk) chunk_offset
          | None \<Rightarrow> rope_len r) })"

definition rope_clip_offset :: "rope \<Rightarrow> nat \<Rightarrow> bias \<Rightarrow> nat option" where
  "rope_clip_offset r offset b =
     (case b of Left \<Rightarrow> rope_floor_char_boundary r offset | Right \<Rightarrow> rope_ceil_char_boundary r offset)"

section \<open>Conversions\<close>

definition rope_offset_to_offset_utf16 :: "rope \<Rightarrow> nat \<Rightarrow> offset_utf16 option" where
  "rope_offset_to_offset_utf16 r offset =
     (if ts_len (rope_summary r) \<le> offset then Some (OffsetUtf16 (ts_len_utf16 (rope_summary r)))
      else case find_item (dimensions len_dim len_utf16_dim unit_dim) (at_first offset) Left r of ((s0, s1, _), _, item) \<Rightarrow> do {
        overshoot \<leftarrow> usize_sub offset s0;
        Some (offset_utf16_add s1 (case item of
            Some chunk \<Rightarrow> chunk_offset_to_offset_utf16 chunk overshoot
          | None \<Rightarrow> OffsetUtf16 0)) })"

definition rope_offset_utf16_to_offset :: "rope \<Rightarrow> offset_utf16 \<Rightarrow> nat option" where
  "rope_offset_utf16_to_offset r offset =
     (if OffsetUtf16 (ts_len_utf16 (rope_summary r)) \<le> offset then Some (ts_len (rope_summary r))
      else case find_item (dimensions len_utf16_dim len_dim unit_dim) (at_first offset) Left r of ((s0, s1, _), _, item) \<Rightarrow> do {
        overshoot \<leftarrow> offset_utf16_sub offset s0;
        d \<leftarrow> (case item of Some chunk \<Rightarrow> chunk_offset_utf16_to_offset chunk overshoot | None \<Rightarrow> Some 0);
        Some (s1 + d) })"

definition rope_offset_to_point :: "rope \<Rightarrow> nat \<Rightarrow> nat point option" where
  "rope_offset_to_point r offset =
     (if ts_len (rope_summary r) \<le> offset then Some (ts_lines (rope_summary r))
      else case find_item (dimensions len_dim lines_dim unit_dim) (at_first offset) Left r of ((s0, s1, _), _, item) \<Rightarrow> do {
        overshoot \<leftarrow> usize_sub offset s0;
        d \<leftarrow> (case item of Some chunk \<Rightarrow> chunk_offset_to_point chunk overshoot | None \<Rightarrow> Some point_zero);
        Some (point_add s1 d) })"

definition rope_offset_to_point_utf16 :: "rope \<Rightarrow> nat \<Rightarrow> nat point_utf16 option" where
  "rope_offset_to_point_utf16 r offset =
     (if ts_len (rope_summary r) \<le> offset then Some (lines_utf16 (rope_summary r))
      else case find_item (dimensions len_dim lines_utf16_dim unit_dim) (at_first offset) Left r of ((s0, s1, _), _, item) \<Rightarrow> do {
        overshoot \<leftarrow> usize_sub offset s0;
        d \<leftarrow> (case item of Some chunk \<Rightarrow> chunk_offset_to_point_utf16 chunk overshoot | None \<Rightarrow> Some point_utf16_zero);
        Some (point_utf16_add s1 d) })"

definition rope_point_to_point_utf16 :: "rope \<Rightarrow> nat point \<Rightarrow> nat point_utf16 option" where
  "rope_point_to_point_utf16 r p =
     (if ts_lines (rope_summary r) \<le> p then Some (lines_utf16 (rope_summary r))
      else case find_item (dimensions lines_dim lines_utf16_dim unit_dim) (at_first p) Left r of ((s0, s1, _), _, item) \<Rightarrow> do {
        let overshoot = point_sub p s0;
        d \<leftarrow> (case item of Some chunk \<Rightarrow> chunk_point_to_point_utf16 chunk overshoot | None \<Rightarrow> Some point_utf16_zero);
        Some (point_utf16_add s1 d) })"

definition rope_point_to_offset :: "rope \<Rightarrow> nat point \<Rightarrow> nat option" where
  "rope_point_to_offset r p =
     (if ts_lines (rope_summary r) \<le> p then Some (ts_len (rope_summary r))
      else case find_item (dimensions lines_dim len_dim unit_dim) (at_first p) Left r of ((s0, s1, _), _, item) \<Rightarrow> do {
        let overshoot = point_sub p s0;
        d \<leftarrow> (case item of Some chunk \<Rightarrow> chunk_point_to_offset chunk overshoot | None \<Rightarrow> Some 0);
        Some (s1 + d) })"

definition rope_point_utf16_to_offset_impl :: "rope \<Rightarrow> nat point_utf16 \<Rightarrow> bool \<Rightarrow> nat option" where
  "rope_point_utf16_to_offset_impl r p clip =
     (if lines_utf16 (rope_summary r) \<le> p then Some (ts_len (rope_summary r))
      else case find_item (dimensions lines_utf16_dim len_dim unit_dim) (at_first p) Left r of ((s0, s1, _), _, item) \<Rightarrow> do {
        let overshoot = point_utf16_sub p s0;
        d \<leftarrow> (case item of Some chunk \<Rightarrow> chunk_point_utf16_to_offset chunk overshoot clip | None \<Rightarrow> Some 0);
        Some (s1 + d) })"

definition rope_point_utf16_to_offset :: "rope \<Rightarrow> nat point_utf16 \<Rightarrow> nat option" where
  "rope_point_utf16_to_offset r p = rope_point_utf16_to_offset_impl r p False"

definition rope_unclipped_point_utf16_to_offset :: "rope \<Rightarrow> nat point_utf16 unclipped \<Rightarrow> nat option" where
  "rope_unclipped_point_utf16_to_offset r p = rope_point_utf16_to_offset_impl r (unclipped_value p) True"

definition rope_unclipped_point_utf16_to_point :: "rope \<Rightarrow> nat point_utf16 unclipped \<Rightarrow> nat point option" where
  "rope_unclipped_point_utf16_to_point r p =
     (if lines_utf16 (rope_summary r) \<le> unclipped_value p then Some (ts_lines (rope_summary r))
      else case find_item (dimensions lines_utf16_dim lines_dim unit_dim) (at_first (unclipped_value p)) Left r of
        ((s0, s1, _), _, item) \<Rightarrow> do {
        let overshoot = Unclipped (point_utf16_sub (unclipped_value p) s0);
        d \<leftarrow> (case item of Some chunk \<Rightarrow> unclipped_point_utf16_to_point chunk overshoot | None \<Rightarrow> Some point_zero);
        Some (point_add s1 d) })"

text \<open>Three conversions look for the chunk with a cursor.\<close>

definition seek_chunk ::
  "(chunk_summary, 'd) dim_ops \<Rightarrow> ('d \<Rightarrow> ordering) \<Rightarrow> bias \<Rightarrow> rope \<Rightarrow> ('d \<times> chunk option) option" where
  "seek_chunk D tgt b r = do {
     (cursor, _) \<leftarrow> cursor_seek D tgt b (cursor_new D r);
     item \<leftarrow> cursor_item cursor;
     Some (cu_position cursor, item) }"

definition rope_point_utf16_to_point :: "rope \<Rightarrow> nat point_utf16 \<Rightarrow> nat point option" where
  "rope_point_utf16_to_point r p =
     (if lines_utf16 (rope_summary r) \<le> p then Some (ts_lines (rope_summary r))
      else do {
        ((s0, s1, _), item) \<leftarrow> seek_chunk (dimensions lines_utf16_dim lines_dim unit_dim) (at_first p) Left r;
        let overshoot = point_utf16_sub p s0;
        d \<leftarrow> (case item of
            Some chunk \<Rightarrow> do { offset \<leftarrow> chunk_point_utf16_to_offset chunk overshoot False; chunk_offset_to_point chunk offset }
          | None \<Rightarrow> Some point_zero);
        Some (point_add s1 d) })"

definition rope_point_to_offset_utf16 :: "rope \<Rightarrow> nat point \<Rightarrow> offset_utf16 option" where
  "rope_point_to_offset_utf16 r p =
     (if ts_lines (rope_summary r) \<le> p then Some (OffsetUtf16 (ts_len_utf16 (rope_summary r)))
      else do {
        ((s0, s1, _), item) \<leftarrow> seek_chunk (dimensions lines_dim len_utf16_dim unit_dim) (at_first p) Left r;
        let overshoot = point_sub p s0;
        d \<leftarrow> (case item of Some chunk \<Rightarrow> chunk_point_to_offset_utf16 chunk overshoot | None \<Rightarrow> Some (OffsetUtf16 0));
        Some (offset_utf16_add s1 d) })"

definition rope_point_utf16_to_offset_utf16_impl :: "rope \<Rightarrow> nat point_utf16 \<Rightarrow> bool \<Rightarrow> offset_utf16 option" where
  "rope_point_utf16_to_offset_utf16_impl r p clip =
     (if lines_utf16 (rope_summary r) \<le> p then Some (OffsetUtf16 (ts_len_utf16 (rope_summary r)))
      else do {
        ((s0, s1, _), item) \<leftarrow> seek_chunk (dimensions lines_utf16_dim len_utf16_dim unit_dim) (at_first p) Left r;
        let overshoot = point_utf16_sub p s0;
        d \<leftarrow> (case item of
            Some chunk \<Rightarrow> map_option (chunk_offset_to_offset_utf16 chunk) (chunk_point_utf16_to_offset chunk overshoot clip)
          | None \<Rightarrow> Some (OffsetUtf16 0));
        Some (offset_utf16_add s1 d) })"

definition rope_point_utf16_to_offset_utf16 :: "rope \<Rightarrow> nat point_utf16 \<Rightarrow> offset_utf16 option" where
  "rope_point_utf16_to_offset_utf16 r p = rope_point_utf16_to_offset_utf16_impl r p False"

section \<open>Clipping\<close>

definition rope_clip_offset_utf16 :: "rope \<Rightarrow> offset_utf16 \<Rightarrow> bias \<Rightarrow> offset_utf16 option" where
  "rope_clip_offset_utf16 r offset b =
     (case find_item len_utf16_dim (cmp offset) Right r of
        (start, _, Some chunk) \<Rightarrow> do {
          overshoot \<leftarrow> offset_utf16_sub offset start;
          map_option (offset_utf16_add start) (chunk_clip_offset_utf16 chunk overshoot b) }
      | (_, _, None) \<Rightarrow> Some (OffsetUtf16 (ts_len_utf16 (rope_summary r))))"

definition rope_clip_point :: "(str \<Rightarrow> nat \<Rightarrow> bool) \<Rightarrow> rope \<Rightarrow> nat point \<Rightarrow> bias \<Rightarrow> nat point option" where
  "rope_clip_point grapheme r p b =
     (case find_item lines_dim (cmp p) Right r of
        (start, _, Some chunk) \<Rightarrow>
          map_option (point_add start) (chunk_clip_point grapheme chunk (point_sub p start) b)
      | (_, _, None) \<Rightarrow> Some (ts_lines (rope_summary r)))"

definition rope_clip_point_utf16 :: "rope \<Rightarrow> nat point_utf16 unclipped \<Rightarrow> bias \<Rightarrow> nat point_utf16 option" where
  "rope_clip_point_utf16 r p b =
     (case find_item lines_utf16_dim (cmp (unclipped_value p)) Right r of
        (start, _, Some chunk) \<Rightarrow>
          map_option (point_utf16_add start) (chunk_clip_point_utf16 chunk (Unclipped (point_utf16_sub (unclipped_value p) start)) b)
      | (_, _, None) \<Rightarrow> Some (lines_utf16 (rope_summary r)))"

definition rope_line_len :: "(str \<Rightarrow> nat \<Rightarrow> bool) \<Rightarrow> rope \<Rightarrow> nat \<Rightarrow> nat option" where
  "rope_line_len grapheme r line_row = map_option column (rope_clip_point grapheme r (point_new line_row (2 ^ 32 - 1)) Left)"


section \<open>Finding the chunk of a position\<close>

text \<open>A target lies beyond a position, to the right of it for a seek with bias \<open>Left\<close>.\<close>

definition beyond :: "bias \<Rightarrow> 'k::linorder \<Rightarrow> 'k \<Rightarrow> bool" where
  "beyond b t e \<longleftrightarrow> (if b = Left then e < t else e \<le> t)"

lemma seek_past_cmp: "seek_past b (cmp t e) \<longleftrightarrow> beyond b t e"
  by (cases b) (auto simp: seek_past_def beyond_def cmp_def)

lemma beyond_trans: "beyond b t e \<Longrightarrow> e' \<le> e \<Longrightarrow> beyond b t e'"
  by (auto simp: beyond_def split: if_splits)

text \<open>The text before a chunk, the chunk and the text after it.\<close>

definition chunk_in :: "rope \<Rightarrow> str \<Rightarrow> chunk \<Rightarrow> str \<Rightarrow> bool" where
  "chunk_in r p c q \<longleftrightarrow> rope_str r = p @ ck_text c @ q \<and> chunk_ok c \<and> ck_text c \<noteq> []"

text \<open>
  A dimension that orders the prefixes of a text: a longer prefix has the larger key. The result of
  a search for a target is then the first chunk that the target does not lie beyond the end of.
\<close>

locale text_position = text_dimension D from_text_summary add_assign
  for D :: "(chunk_summary, 'd) dim_ops" and from_text_summary add_assign +
  fixes key :: "'d \<Rightarrow> 'k::linorder"
  assumes key_strict: "r \<noteq> [] \<Longrightarrow> key (from_text_summary (summary_from l)) < key (from_text_summary (summary_from (l @ r)))"
begin

abbreviation at :: "str \<Rightarrow> 'd" where
  "at l \<equiv> from_text_summary (summary_from l)"

lemma key_mono: "key (at l) \<le> key (at (l @ r))"
  using key_strict [of r l] by (cases "r = []") auto

lemma rope_dimension: "dimension_laws rope_ops D"
  using dimension_laws_axioms rope_chunks.summary_laws_axioms
  by (simp add: dimension_laws_def dimension_laws_axioms_def rope_ops_def text_ops_def)

lemma rope_at: "rope_ok r \<Longrightarrow> position_of rope_ops D (take k (flat r)) = at (concat (map ck_text (take k (flat r))))"
  using rope_position_of [of "take k (flat r)" D] position_of_text [of "map ck_text (take k (flat r))"]
  by (auto simp: rope_ok_def chunks_ok_def dest: in_set_takeD)

lemma rope_ends:
  assumes "rope_ok r" and "i < length (flat r)"
  shows "ends D (dzero D) (map (ssummary rope_ops) (flat r)) ! i = at (concat (map ck_text (take (Suc i) (flat r))))"
  using rope_at [OF assms(1), of "Suc i"] assms(2) by (simp add: nth_ends position_of_def take_map)

lemma rope_target:
  assumes "rope_ok r"
  shows "mono_target D (\<lambda>pos. cmp t (key pos)) b (dzero D) (map (ssummary rope_ops) (flat r))"
  unfolding mono_target_def sorted_wrt_iff_nth_less
proof (intro allI impI)
  fix i j
  assume ij: "i < j" "j < length (ends D (dzero D) (map (ssummary rope_ops) (flat r)))"
  then have "take (Suc j) (flat r) = take (Suc i) (flat r) @ take (j - i) (drop (Suc i) (flat r))"
    using take_add [of "Suc i" "j - i" "flat r"] by simp
  then have le: "key (at (concat (map ck_text (take (Suc i) (flat r))))) \<le> key (at (concat (map ck_text (take (Suc j) (flat r)))))"
    using key_mono by simp
  assume "seek_past b (cmp t (key (ends D (dzero D) (map (ssummary rope_ops) (flat r)) ! j)))"
  with le ij show "seek_past b (cmp t (key (ends D (dzero D) (map (ssummary rope_ops) (flat r)) ! i)))"
    by (auto simp: rope_ends [OF assms] seek_past_cmp intro: beyond_trans)
qed

text \<open>What a search yields: the position before the chunk, and the chunk.\<close>

lemma search_in_rope:
  assumes "rope_ok r" and k: "k = seek_len D (\<lambda>pos. cmp t (key pos)) b (dzero D) (map (ssummary rope_ops) (flat r))"
  obtains (inside) p c q where "k < length (flat r)" and "flat r ! k = c" and "p = concat (map ck_text (take k (flat r)))"
      and "chunk_in r p c q" and "\<not> beyond b t (key (at (p @ ck_text c)))" and "p = [] \<or> beyond b t (key (at p))"
  | (outside) "k = length (flat r)" and "rope_str r = [] \<or> beyond b t (key (at (rope_str r)))"
proof -
  let ?tgt = "\<lambda>pos. cmp t (key pos)" and ?ss = "map (ssummary rope_ops) (flat r)"
  have past: "beyond b t (key (at (concat (map ck_text (take (Suc i) (flat r))))))" if "i < k" for i
    using seek_len_past [of i D ?tgt b "dzero D" ?ss] that seek_len_le [of D ?tgt b "dzero D" ?ss]
    by (simp add: k rope_ends [OF assms(1)] seek_past_cmp)
  have before: "k = 0 \<or> beyond b t (key (at (concat (map ck_text (take k (flat r))))))"
    using past [of "k - 1"] by (cases k) auto
  show ?thesis
  proof (cases "k < length (flat r)")
    case True
    let ?c = "flat r ! k" and ?p = "concat (map ck_text (take k (flat r)))"
    have split: "take (Suc k) (flat r) = take k (flat r) @ [?c]" using True by (rule take_Suc_conv_app_nth)
    have "\<not> beyond b t (key (at (?p @ ck_text ?c)))"
      using seek_len_stops [of D ?tgt b "dzero D" ?ss] True split
      by (simp add: k [symmetric] rope_ends [OF assms(1)] seek_past_cmp)
    moreover have "chunk_in r ?p ?c (concat (map ck_text (drop (Suc k) (flat r))))"
      using assms(1) True id_take_nth_drop [OF True]
      by (auto simp: chunk_in_def rope_str_def rope_ok_def chunks_ok_def) (metis concat.simps(2) concat_append list.simps(9) map_append)
    ultimately show ?thesis using before True by (intro inside) auto
  next
    case False
    then have "k = length (flat r)" using seek_len_le [of D ?tgt b "dzero D" ?ss] k by simp
    with before show ?thesis by (intro outside) (auto simp: rope_str_def)
  qed
qed

lemma empty_rope:
  assumes "rope_ok r" and "rope_str r = []"
  shows "flat r = []" and "find_item D tgt b r = (at [], at [], None)"
proof -
  show flat: "flat r = []" using assms by (cases "flat r") (auto simp: rope_ok_def chunks_ok_def rope_str_def)
  then have "is_empty r" using assms(1) is_empty_flat [of rope_ops r] by (simp add: rope_ok_def)
  then obtain s iss where r: "r = Leaf s [] iss" using flat by (cases r) auto
  have "dzero D = at []" by (simp add: zero_eq summary_from_def summary_zero_def str_len_def)
  moreover have "dadd D (dzero D) (summary r) = at []"
    using rope_extent [OF assms(1) text_dimension_axioms] assms(2) by (simp add: extent_def)
  ultimately show "find_item D tgt b r = (at [], at [], None)"
    unfolding find_item_def find_with_def by (simp add: r Let_def)
qed

text \<open>\<open>find\<close> returns the position before the chunk and the chunk, or the end of the rope and nothing.\<close>

lemma find_in_rope:
  assumes "rope_ok r"
  obtains (inside) p c q where "find_item D (\<lambda>pos. cmp t (key pos)) b r = (at p, at (p @ ck_text c), Some c)"
      and "chunk_in r p c q" and "\<not> beyond b t (key (at (p @ ck_text c)))" and "p = [] \<or> beyond b t (key (at p))"
  | (outside) "find_item D (\<lambda>pos. cmp t (key pos)) b r = (at (rope_str r), at (rope_str r), None)"
      and "rope_str r = [] \<or> beyond b t (key (at (rope_str r)))"
proof (cases "rope_str r = []")
  case True
  then show ?thesis using empty_rope(2) [OF assms True] by (intro outside) simp_all
next
  case False
  let ?k = "seek_len D (\<lambda>pos. cmp t (key pos)) b (dzero D) (map (ssummary rope_ops) (flat r))"
  have wf: "wf_tree rope_ops r" "\<not> is_empty r"
    using assms False is_empty_flat [of rope_ops r] by (auto simp: rope_ok_def rope_str_def)
  have pos: "foldl (dadd D) (dzero D) (take i (map (ssummary rope_ops) (flat r))) = at (concat (map ck_text (take i (flat r))))" for i
    using rope_at [OF assms, of i] by (simp add: position_of_def take_map)
  note found = dimension_laws.find_item_correct [OF rope_dimension wf rope_target [OF assms, of t b]]
  show ?thesis
  proof (cases rule: search_in_rope [OF assms refl, of t b, case_names inside outside])
    case (inside p c q)
    then have "find_item D (\<lambda>pos. cmp t (key pos)) b r = (at p, at (p @ ck_text c), Some c)"
      unfolding found Let_def pos by (simp add: take_Suc_conv_app_nth)
    with inside that(1) show ?thesis by blast
  next
    case outside
    then have "find_item D (\<lambda>pos. cmp t (key pos)) b r = (at (rope_str r), at (rope_str r), None)"
      unfolding found Let_def pos by (simp add: rope_str_def)
    with outside that(2) show ?thesis by blast
  qed
qed

text \<open>A cursor that seeks the target stops at the same chunk.\<close>

lemma seek_in_rope:
  assumes "rope_ok r" and "shallow r" and "key (at []) \<le> t"
  shows "seek_chunk D (\<lambda>pos. cmp t (key pos)) b r =
    (case find_item D (\<lambda>pos. cmp t (key pos)) b r of (start, _, item) \<Rightarrow> Some (start, item))"
proof -
  let ?tgt = "\<lambda>pos. cmp t (key pos)"
  let ?k = "seek_len D ?tgt b (dzero D) (map (ssummary rope_ops) (flat r))"
  have wf: "walkable rope_ops r" "wf_tree rope_ops r" using assms(1,2) by (simp_all add: rope_ok_def walkable_def)
  have zero: "dzero D = at []" by (simp add: zero_eq summary_from_def summary_zero_def str_len_def)
  have "?tgt (dzero D) \<noteq> Less" using assms(3) by (auto simp: zero cmp_def)
  from dimension_laws.cursor_seek_correct [OF rope_dimension _ wf(1) rope_target [OF assms(1), of t b] this refl, of "cursor_new D r"]
  obtain c where c: "cursor_seek D ?tgt b (cursor_new D r) = Some (c, ?tgt (position_of rope_ops D (take (if b = Left then Suc ?k else ?k) (flat r))) = Equal)"
      "cursor_at rope_ops D r ?k c" by (auto simp: cursor_new_def)
  have pos: "cu_position c = position_of rope_ops D (take ?k (flat r))" using c(2) by (simp add: cursor_at_def)
  show ?thesis
  proof (cases "rope_str r = []")
    case True
    from empty_rope [OF assms(1) True] c pos cursor_item_at [OF c(2) wf(2)] show ?thesis
      by (simp add: seek_chunk_def zero)
  next
    case False
    then have "\<not> is_empty r" using is_empty_flat [OF wf(2)] by (auto simp: rope_str_def)
    from dimension_laws.find_item_correct [OF rope_dimension wf(2) this rope_target [OF assms(1), of t b]] c(1) pos
      cursor_item_at [OF c(2) wf(2)] show ?thesis
      by (simp add: seek_chunk_def Let_def position_of_def take_map)
  qed
qed

text \<open>The chunk found for the position after a proper prefix of the text is one the prefix ends in.\<close>

lemma find_prefix:
  assumes "rope_ok r" and "rope_str r = l @ q" and "q \<noteq> []"
  obtains p c l1 r1 where "find_item D (\<lambda>pos. cmp (key (at l)) (key pos)) Left r = (at p, at (p @ ck_text c), Some c)"
    and "chunk_ok c" and "l = p @ l1" and "ck_text c = l1 @ r1"
proof (cases rule: find_in_rope [OF assms(1), of "key (at l)" Left, case_names inside outside])
  case (inside p c q1)
  have eq: "(p @ ck_text c) @ q1 = l @ q" using inside(2) assms(2) by (simp add: chunk_in_def)
  have "key (at l) \<le> key (at (p @ ck_text c))" using inside(3) by (simp add: beyond_def)
  moreover from eq obtain us where "p @ ck_text c = l @ us \<or> (p @ ck_text c) @ us = l"
    unfolding append_eq_append_conv2 by blast
  ultimately obtain r1 where r1: "p @ ck_text c = l @ r1"
    using key_strict [of us "p @ ck_text c"] by (cases "us = []") auto
  obtain l1 where "l = p @ l1"
  proof (cases "p = []")
    case False
    then have "key (at p) < key (at l)" using inside(4) by (simp add: beyond_def)
    with r1 key_mono [of l] show ?thesis by (auto simp: append_eq_append_conv2 dest: leD intro: that)
  qed (auto intro: that)
  with r1 inside(1,2) that [of p c l1 r1] show ?thesis by (simp add: chunk_in_def)
next
  case outside
  with assms key_strict [OF assms(3), of l] show ?thesis by (simp add: beyond_def)
qed

text \<open>A valid position before the end of the chunk that was found is one in the chunk.\<close>

lemma valid_in_chunk:
  assumes "cs = p @ m @ q" and "prefix_of l0 cs"
    and "key (at l0) < key (at (p @ m))" and "p = [] \<or> key (at p) \<le> key (at l0)"
  obtains l1 where "l0 = p @ l1" and "prefix_of l1 m"
proof -
  obtain z where z: "(p @ m) @ q = l0 @ z" using assms(1,2) by (auto simp: prefix_of_def)
  then obtain v where "p @ m = l0 @ v \<or> (p @ m) @ v = l0"
    unfolding append_eq_append_conv2 by blast
  with assms(3) key_mono [of "p @ m" v] have v: "p @ m = l0 @ v" by auto
  then obtain w where w: "p = l0 @ w \<or> p @ w = l0 \<and> m = w @ v" unfolding append_eq_append_conv2 by blast
  show ?thesis
  proof (cases "\<exists>w. p @ w = l0 \<and> m = w @ v")
    case True
    then show ?thesis using that by (auto simp: prefix_of_def)
  next
    case False
    with w have "p = l0 @ w" by blast
    with assms(4) key_strict [of w l0] have "w = [] \<or> p = []" by auto
    with \<open>p = l0 @ w\<close> v False show ?thesis by auto
  qed
qed

lemma seek_prefix:
  assumes "rope_ok r" and "rope_str r = l @ q" and "q \<noteq> []" and "shallow r"
  obtains p c l1 r1 where "seek_chunk D (\<lambda>pos. cmp (key (at l)) (key pos)) Left r = Some (at p, Some c)"
    and "chunk_ok c" and "l = p @ l1" and "ck_text c = l1 @ r1"
proof (rule find_prefix [OF assms(1-3)])
  fix p c l1 r1
  assume found: "find_item D (\<lambda>pos. cmp (key (at l)) (key pos)) Left r = (at p, at (p @ ck_text c), Some c)"
    and "chunk_ok c" "l = p @ l1" "ck_text c = l1 @ r1"
  moreover have "key (at []) \<le> key (at l)" using key_mono [of "[]" l] by simp
  ultimately show thesis using that seek_in_rope [OF assms(1,4)] by simp
qed

end

section \<open>The keys of a rope\<close>

lemma utf16_len_append [simp]: "utf16_len (a @ b) = utf16_len a + utf16_len b"
  by (induction a) simp_all

lemma char_len_utf16_pos: "0 < char_len_utf16 c"
  by (simp add: char_len_utf16_def)

lemma utf16_len_pos: "cs \<noteq> [] \<Longrightarrow> 0 < utf16_len cs"
  using char_len_utf16_pos by (cases cs) auto

lemma measures:
  "ts_len (summary_from l :: nat text_summary) = str_len l"
  "ts_len_utf16 (summary_from l :: nat text_summary) = utf16_len l"
  using summary_from_summarises [of l] by (simp_all add: summarises_def utf16_len_def)

lemma lines_positive:
  assumes "r \<noteq> []"
  shows "point_zero < ts_lines (summary_from r :: nat text_summary)" and "point_utf16_zero < lines_utf16 (summary_from r :: nat text_summary)"
proof -
  obtain p l where pl: "r = p @ l" "p = [] \<or> last p = newline_char" "newline_char \<notin> set l"
    by (metis last_line_split)
  have "0 < newlines_in p \<or> l \<noteq> []" using assms pl by (cases p rule: rev_cases) (auto simp: newlines_in_def)
  then show "point_zero < ts_lines (summary_from r :: nat text_summary)" "point_utf16_zero < lines_utf16 (summary_from r :: nat text_summary)"
    using prefix_point [OF pl(2,3)] utf16_len_pos [of l]
    by (auto simp: pl(1) less_point_utf16_def less_point_def as_point_def point_zero_def point_utf16_zero_def point_new_def)
qed

lemma point_add_strict: "point_zero < q \<Longrightarrow> (p :: nat point) < point_add p q"
  by (cases p; cases q) (auto simp: point_add_def point_new_def less_point_def point_zero_def)

lemma point_utf16_add_strict: "point_utf16_zero < q \<Longrightarrow> (p :: nat point_utf16) < point_utf16_add p q"
  using point_add_strict [of "as_point q" "as_point p"] by (simp add: less_point_utf16_def as_point_hom)

lemma lines_append: "ts_lines (summary_from (l @ r)) = point_add (ts_lines (summary_from l)) (ts_lines (summary_from r :: nat text_summary))"
    "lines_utf16 (summary_from (l @ r)) = point_utf16_add (lines_utf16 (summary_from l)) (lines_utf16 (summary_from r :: nat text_summary))"
  by (simp_all add: summary_from_append summary_add_fields lines_utf16_add point_add_assign_eq)

interpretation len_key: text_position len_dim ts_len "(+)" "\<lambda>n. n"
  by unfold_locales (simp add: measures)

interpretation len_utf16_key: text_position len_utf16_dim "\<lambda>s. OffsetUtf16 (ts_len_utf16 s)" offset_utf16_add "\<lambda>n. n"
  by unfold_locales (simp add: measures less_offset_utf16_def utf16_len_pos)

interpretation lines_key: text_position lines_dim ts_lines point_add_assign "\<lambda>p. p"
  by unfold_locales (simp add: lines_append point_add_strict lines_positive)

interpretation lines_utf16_key: text_position lines_utf16_dim lines_utf16 point_utf16_add "\<lambda>p. p"
  by unfold_locales (simp add: lines_append point_utf16_add_strict lines_positive)

text \<open>The first dimension of a pair is the key.\<close>

lemma first_key:
  assumes "text_position A a adda (\<lambda>k. k)" and "text_dimension B b addb"
  shows "text_position (dimensions A B unit_dim) (\<lambda>s. (a s, b s, ())) (\<lambda>p q. (adda (fst p) (fst q), addb (fst (snd p)) (fst (snd q)), ())) fst"
  using assms dimensions_text_dimension [of A a adda B b addb]
  by (simp add: text_position_def text_position_axioms_def)

lemma find_pair:
  assumes "text_position A a adda (\<lambda>k. k)" and "text_dimension B b addb" and "rope_ok r" and "rope_str r = l @ q" and "q \<noteq> []"
  obtains p c l1 r1 e where "find_item (dimensions A B unit_dim) (at_first (a (summary_from l))) Left r =
      ((a (summary_from p), b (summary_from p), ()), e, Some c)"
    and "chunk_ok c" and "l = p @ l1" and "ck_text c = l1 @ r1"
proof (rule text_position.find_prefix [OF first_key [OF assms(1,2)] assms(3-5)])
  fix p c l1 r1
  assume "find_item (dimensions A B unit_dim) (\<lambda>pos. cmp (fst (a (summary_from l), b (summary_from l), ())) (fst pos)) Left r =
      ((a (summary_from p), b (summary_from p), ()), (a (summary_from (p @ ck_text c)), b (summary_from (p @ ck_text c)), ()), Some c)"
    and "chunk_ok c" "l = p @ l1" "ck_text c = l1 @ r1"
  then show thesis unfolding fst_conv at_first_def [symmetric, abs_def] by (rule that)
qed

lemma seek_pair:
  assumes "text_position A a adda (\<lambda>k. k)" and "text_dimension B b addb" and "rope_ok r" and "rope_str r = l @ q" and "q \<noteq> []"
    and "shallow r"
  obtains p c l1 r1 where "seek_chunk (dimensions A B unit_dim) (at_first (a (summary_from l))) Left r =
      Some ((a (summary_from p), b (summary_from p), ()), Some c)"
    and "chunk_ok c" and "l = p @ l1" and "ck_text c = l1 @ r1"
proof (rule text_position.seek_prefix [OF first_key [OF assms(1,2)] assms(3-6)])
  fix p c l1 r1
  assume "seek_chunk (dimensions A B unit_dim) (\<lambda>pos. cmp (fst (a (summary_from l), b (summary_from l), ())) (fst pos)) Left r =
      Some ((a (summary_from p), b (summary_from p), ()), Some c)"
    and "chunk_ok c" "l = p @ l1" "ck_text c = l1 @ r1"
  then show thesis unfolding fst_conv at_first_def [symmetric, abs_def] by (rule that)
qed

section \<open>Conversions of valid positions\<close>

lemma point_sub_add_nat: "point_sub (point_add p q) p = (q :: nat point)"
  by (cases p; cases q) (simp add: point_add_def point_sub_def point_new_def)

lemma point_utf16_sub_add_nat: "point_utf16_sub (point_utf16_add p q) p = (q :: nat point_utf16)"
  by (cases p; cases q) (simp add: point_utf16_add_def point_utf16_sub_def)

lemmas position_simps = measures lines_append point_sub_add_nat point_utf16_sub_add_nat offset_utf16_add_def offset_utf16_sub_def bind_require usize_sub_def

text \<open>What a chunk answers for a prefix of its text.\<close>

lemma chunk_at_prefix:
  assumes "chunk_ok c" and "ck_text c = l @ r"
  shows "chunk_offset_to_point c (str_len l) = Some (ts_lines (summary_from l))"
    and "chunk_point_to_offset c (ts_lines (summary_from l)) = Some (str_len l)"
    and "chunk_offset_to_offset_utf16 c (str_len l) = OffsetUtf16 (utf16_len l)"
    and "chunk_offset_utf16_to_offset c (OffsetUtf16 (utf16_len l)) = Some (str_len l)"
    and "chunk_offset_to_point_utf16 c (str_len l) = Some (lines_utf16 (summary_from l))"
    and "chunk_point_utf16_to_offset c (lines_utf16 (summary_from l)) clip = Some (str_len l)"
    and "chunk_point_to_offset_utf16 c (ts_lines (summary_from l)) = Some (OffsetUtf16 (utf16_len l))"
    and "chunk_point_to_point_utf16 c (ts_lines (summary_from l)) = Some (lines_utf16 (summary_from l))"
    and "unclipped_point_utf16_to_point c (Unclipped (lines_utf16 (summary_from l))) = Some (ts_lines (summary_from l))"
proof -
  show to_point: "chunk_offset_to_point c (str_len l) = Some (ts_lines (summary_from l))"
    by (rule offset_to_point_prefix [OF assms])
  then show to_offset: "chunk_point_to_offset c (ts_lines (summary_from l)) = Some (str_len l)"
    using point_roundtrip [OF assms(1), of "str_len l"] assms(2) by auto
  show to_utf16: "chunk_offset_to_offset_utf16 c (str_len l) = OffsetUtf16 (utf16_len l)"
    by (rule offset_to_offset_utf16_prefix [OF assms])
  show "chunk_offset_utf16_to_offset c (OffsetUtf16 (utf16_len l)) = Some (str_len l)"
    by (rule offset_utf16_prefix [OF assms])
  show to_utf16_point: "chunk_offset_to_point_utf16 c (str_len l) = Some (lines_utf16 (summary_from l))"
    by (rule offset_to_point_utf16_prefix [OF assms])
  then show "chunk_point_utf16_to_offset c (lines_utf16 (summary_from l)) clip = Some (str_len l)"
    using utf16_roundtrip [OF assms, of clip] by auto
  have pre: "prefix_of l (ck_text c)" using assms(2) by (simp add: prefix_of_def)
  have "newlines_in l \<le> row (ts_lines (summary_from (ck_text c) :: nat text_summary))" by (rule valid_position(1) [OF assms(1) pre])
  then show "chunk_point_to_offset_utf16 c (ts_lines (summary_from l)) = Some (OffsetUtf16 (utf16_len l))"
    by (simp add: chunk_point_to_offset_utf16_def whole_point(1) [OF assms(1)] position_row to_offset to_utf16)
  show "chunk_point_to_point_utf16 c (ts_lines (summary_from l)) = Some (lines_utf16 (summary_from l))"
    by (simp add: chunk_point_to_point_utf16_def to_offset to_utf16_point)
  show "unclipped_point_utf16_to_point c (Unclipped (lines_utf16 (summary_from l))) = Some (ts_lines (summary_from l))"
    using unclipped_point_correct [OF assms(1), of "lines_utf16 (summary_from l)"] pre by metis
qed

text \<open>Positions at or beyond the end of the rope are converted to its end.\<close>

lemma key_below_end:
  assumes "q \<noteq> []"
  shows "\<not> ts_lines (summary_from (l @ q)) \<le> ts_lines (summary_from l :: nat text_summary)"
    and "\<not> lines_utf16 (summary_from (l @ q)) \<le> lines_utf16 (summary_from l :: nat text_summary)"
    and "\<not> OffsetUtf16 (utf16_len (l @ q)) \<le> OffsetUtf16 (utf16_len l)"
    and "\<not> str_len (l @ q) \<le> str_len l"
  using lines_key.key_strict [OF assms, of l] lines_utf16_key.key_strict [OF assms, of l] assms utf16_len_pos [OF assms]
  by (simp_all add: not_le less_offset_utf16_def)

lemma rope_offset_to_offset_utf16_prefix:
  assumes "rope_ok r" and "rope_str r = l @ q"
  shows "rope_offset_to_offset_utf16 r (str_len l) = Some (OffsetUtf16 (utf16_len l))"
proof (cases "q = []")
  case False
  show ?thesis
  proof (rule find_pair [OF len_key.text_position_axioms len_utf16.text_dimension_axioms assms(1,2) False], goal_cases)
    case (1 p c l1 r1 e)
    note chunk = 1(2,4)
    show ?case
      using 1(1,3) chunk_at_prefix(3) [OF chunk] key_below_end [OF False, of l] assms(2)
      by (simp add: rope_offset_to_offset_utf16_def rope_measures(1) [OF assms(1)] position_simps)
  qed
qed (use assms in \<open>simp add: rope_offset_to_offset_utf16_def rope_measures(1) measures\<close>)

lemma rope_offset_utf16_to_offset_prefix:
  assumes "rope_ok r" and "rope_str r = l @ q"
  shows "rope_offset_utf16_to_offset r (OffsetUtf16 (utf16_len l)) = Some (str_len l)"
proof (cases "q = []")
  case False
  show ?thesis
  proof (rule find_pair [OF len_utf16_key.text_position_axioms len.text_dimension_axioms assms(1,2) False], goal_cases)
    case (1 p c l1 r1 e)
    note chunk = 1(2,4)
    show ?case
      using 1(1,3) chunk_at_prefix(4) [OF chunk] key_below_end [OF False, of l] assms(2)
      by (simp add: rope_offset_utf16_to_offset_def rope_measures(1) [OF assms(1)] position_simps)
  qed
qed (use assms in \<open>simp add: rope_offset_utf16_to_offset_def rope_measures(1) measures\<close>)

lemma rope_offset_to_point_prefix:
  assumes "rope_ok r" and "rope_str r = l @ q"
  shows "rope_offset_to_point r (str_len l) = Some (ts_lines (summary_from l))"
proof (cases "q = []")
  case False
  show ?thesis
  proof (rule find_pair [OF len_key.text_position_axioms lines.text_dimension_axioms assms(1,2) False], goal_cases)
    case (1 p c l1 r1 e)
    note chunk = 1(2,4)
    show ?case
      using 1(1,3) chunk_at_prefix(1) [OF chunk] key_below_end [OF False, of l] assms(2)
      by (simp add: rope_offset_to_point_def rope_measures(1) [OF assms(1)] position_simps)
  qed
qed (use assms in \<open>simp add: rope_offset_to_point_def rope_measures(1) measures\<close>)

lemma rope_offset_to_point_utf16_prefix:
  assumes "rope_ok r" and "rope_str r = l @ q"
  shows "rope_offset_to_point_utf16 r (str_len l) = Some (lines_utf16 (summary_from l))"
proof (cases "q = []")
  case False
  show ?thesis
  proof (rule find_pair [OF len_key.text_position_axioms lines_utf16.text_dimension_axioms assms(1,2) False], goal_cases)
    case (1 p c l1 r1 e)
    note chunk = 1(2,4)
    show ?case
      using 1(1,3) chunk_at_prefix(5) [OF chunk] key_below_end [OF False, of l] assms(2)
      by (simp add: rope_offset_to_point_utf16_def rope_measures(1) [OF assms(1)] position_simps)
  qed
qed (use assms in \<open>simp add: rope_offset_to_point_utf16_def rope_measures(1) measures\<close>)

lemma rope_point_to_point_utf16_prefix:
  assumes "rope_ok r" and "rope_str r = l @ q"
  shows "rope_point_to_point_utf16 r (ts_lines (summary_from l)) = Some (lines_utf16 (summary_from l))"
proof (cases "q = []")
  case False
  show ?thesis
  proof (rule find_pair [OF lines_key.text_position_axioms lines_utf16.text_dimension_axioms assms(1,2) False], goal_cases)
    case (1 p c l1 r1 e)
    note chunk = 1(2,4)
    show ?case
      using 1(1,3) chunk_at_prefix(8) [OF chunk] key_below_end [OF False, of l] assms(2)
      by (simp add: rope_point_to_point_utf16_def rope_measures(1) [OF assms(1)] position_simps)
  qed
qed (use assms in \<open>simp add: rope_point_to_point_utf16_def rope_measures(1) measures\<close>)

lemma rope_point_to_offset_prefix:
  assumes "rope_ok r" and "rope_str r = l @ q"
  shows "rope_point_to_offset r (ts_lines (summary_from l)) = Some (str_len l)"
proof (cases "q = []")
  case False
  show ?thesis
  proof (rule find_pair [OF lines_key.text_position_axioms len.text_dimension_axioms assms(1,2) False], goal_cases)
    case (1 p c l1 r1 e)
    note chunk = 1(2,4)
    show ?case
      using 1(1,3) chunk_at_prefix(2) [OF chunk] key_below_end [OF False, of l] assms(2)
      by (simp add: rope_point_to_offset_def rope_measures(1) [OF assms(1)] position_simps)
  qed
qed (use assms in \<open>simp add: rope_point_to_offset_def rope_measures(1) measures\<close>)

lemma rope_point_utf16_to_offset_impl_prefix:
  assumes "rope_ok r" and "rope_str r = l @ q"
  shows "rope_point_utf16_to_offset_impl r (lines_utf16 (summary_from l)) clip = Some (str_len l)"
proof (cases "q = []")
  case False
  show ?thesis
  proof (rule find_pair [OF lines_utf16_key.text_position_axioms len.text_dimension_axioms assms(1,2) False], goal_cases)
    case (1 p c l1 r1 e)
    note chunk = 1(2,4)
    show ?case
      using 1(1,3) chunk_at_prefix(6) [OF chunk] key_below_end [OF False, of l] assms(2)
      by (simp add: rope_point_utf16_to_offset_impl_def rope_measures(1) [OF assms(1)] position_simps)
  qed
qed (use assms in \<open>simp add: rope_point_utf16_to_offset_impl_def rope_measures(1) measures\<close>)

lemma rope_unclipped_point_utf16_to_point_prefix:
  assumes "rope_ok r" and "rope_str r = l @ q"
  shows "rope_unclipped_point_utf16_to_point r (Unclipped (lines_utf16 (summary_from l))) = Some (ts_lines (summary_from l))"
proof (cases "q = []")
  case False
  show ?thesis
  proof (rule find_pair [OF lines_utf16_key.text_position_axioms lines.text_dimension_axioms assms(1,2) False], goal_cases)
    case (1 p c l1 r1 e)
    note chunk = 1(2,4)
    show ?case
      using 1(1,3) chunk_at_prefix(9) [OF chunk] key_below_end [OF False, of l] assms(2)
      by (simp add: rope_unclipped_point_utf16_to_point_def rope_measures(1) [OF assms(1)] position_simps)
  qed
qed (use assms in \<open>simp add: rope_unclipped_point_utf16_to_point_def rope_measures(1) measures\<close>)

lemma rope_point_utf16_to_point_prefix:
  assumes "rope_ok r" and "rope_str r = l @ q" and "shallow r"
  shows "rope_point_utf16_to_point r (lines_utf16 (summary_from l)) = Some (ts_lines (summary_from l))"
proof (cases "q = []")
  case False
  show ?thesis
  proof (rule seek_pair [OF lines_utf16_key.text_position_axioms lines.text_dimension_axioms assms(1,2) False assms(3)], goal_cases)
    case (1 p c l1 r1)
    note chunk = 1(2,4)
    show ?case
      using 1(1,3) chunk_at_prefix(6) [OF chunk] chunk_at_prefix(1) [OF chunk] key_below_end [OF False, of l] assms(2)
      by (simp add: rope_point_utf16_to_point_def rope_measures(1) [OF assms(1)] position_simps)
  qed
qed (use assms in \<open>simp add: rope_point_utf16_to_point_def rope_measures(1) measures\<close>)

lemma rope_point_to_offset_utf16_prefix:
  assumes "rope_ok r" and "rope_str r = l @ q" and "shallow r"
  shows "rope_point_to_offset_utf16 r (ts_lines (summary_from l)) = Some (OffsetUtf16 (utf16_len l))"
proof (cases "q = []")
  case False
  show ?thesis
  proof (rule seek_pair [OF lines_key.text_position_axioms len_utf16.text_dimension_axioms assms(1,2) False assms(3)], goal_cases)
    case (1 p c l1 r1)
    note chunk = 1(2,4)
    show ?case
      using 1(1,3) chunk_at_prefix(7) [OF chunk] key_below_end [OF False, of l] assms(2)
      by (simp add: rope_point_to_offset_utf16_def rope_measures(1) [OF assms(1)] position_simps)
  qed
qed (use assms in \<open>simp add: rope_point_to_offset_utf16_def rope_measures(1) measures\<close>)

lemma rope_point_utf16_to_offset_utf16_impl_prefix:
  assumes "rope_ok r" and "rope_str r = l @ q" and "shallow r"
  shows "rope_point_utf16_to_offset_utf16_impl r (lines_utf16 (summary_from l)) clip = Some (OffsetUtf16 (utf16_len l))"
proof (cases "q = []")
  case False
  show ?thesis
  proof (rule seek_pair [OF lines_utf16_key.text_position_axioms len_utf16.text_dimension_axioms assms(1,2) False assms(3)], goal_cases)
    case (1 p c l1 r1)
    note chunk = 1(2,4)
    show ?case
      using 1(1,3) chunk_at_prefix(6) [OF chunk] chunk_at_prefix(3) [OF chunk] key_below_end [OF False, of l] assms(2)
      by (simp add: rope_point_utf16_to_offset_utf16_impl_def rope_measures(1) [OF assms(1)] position_simps)
  qed
qed (use assms in \<open>simp add: rope_point_utf16_to_offset_utf16_impl_def rope_measures(1) measures\<close>)

section \<open>Character boundaries of the whole text\<close>

lemma boundary_in_chunk:
  "k \<le> str_len cs \<Longrightarrow> str_is_char_boundary (p @ cs @ q) (str_len p + k) \<longleftrightarrow> str_is_char_boundary cs k"
proof (induction p)
  case Nil
  then show ?case
  proof (induction cs arbitrary: k)
    case (Cons c cs)
    then show ?case by (cases "k = 0") (auto simp: boundary_Cons)
  qed simp
next
  case (Cons c p)
  then show ?case using len_utf8_pos [of c] by (auto simp: boundary_Cons)
qed

lemma floor_in_chunk:
  "k \<le> str_len cs \<Longrightarrow> str_floor_char_boundary (p @ cs @ q) (str_len p + k) = str_len p + str_floor_char_boundary cs k"
proof (induction p)
  case Nil
  then show ?case
  proof (induction cs arbitrary: k)
    case Nil
    then show ?case using len_utf8_pos [of "hd q"] by (cases q) auto
  qed auto
qed auto

lemma ceil_0 [simp]: "str_ceil_char_boundary cs 0 = 0"
  by (cases cs) simp_all

lemma ceil_in_chunk:
  "k \<le> str_len cs \<Longrightarrow> str_ceil_char_boundary (p @ cs @ q) (str_len p + k) = str_len p + str_ceil_char_boundary cs k"
proof (induction p)
  case Nil
  then show ?case
    by (induction cs arbitrary: k) auto
next
  case (Cons c p)
  then show ?case using len_utf8_pos [of c] by auto
qed

lemma find_offset:
  assumes "rope_ok r"
  obtains (inside) p c q where "find_item len_dim (cmp n) Left r = (str_len p, str_len (p @ ck_text c), Some c)"
      and "chunk_ok c" and "rope_str r = p @ ck_text c @ q" and "n \<le> str_len (p @ ck_text c)" and "p = [] \<or> str_len p < n"
  | (outside) "find_item len_dim (cmp n) Left r = (str_len (rope_str r), str_len (rope_str r), None)"
      and "rope_str r = [] \<or> str_len (rope_str r) < n"
  by (rule len_key.find_in_rope [OF assms, of n Left]) (auto simp: measures beyond_def chunk_in_def)

theorem rope_is_char_boundary_correct:
  assumes "rope_ok r"
  shows "rope_is_char_boundary r n = Some (str_is_char_boundary (rope_str r) n)"
proof (cases "is_empty r")
  case True
  then have "rope_str r = []" using assms is_empty_flat [of rope_ops r] by (simp add: rope_ok_def rope_str_def)
  with True show ?thesis by (auto simp: rope_is_char_boundary_def str_is_char_boundary_def)
next
  case False
  then have ne: "rope_str r \<noteq> []"
    using assms is_empty_flat [of rope_ops r] by (cases "flat r") (auto simp: rope_ok_def rope_str_def chunks_ok_def)
  show ?thesis
  proof (cases rule: find_offset [OF assms, of n, case_names inside outside])
    case (inside p c q)
    then have "str_len p \<le> n" by auto
    then obtain k where "n = str_len p + k" using le_Suc_ex by blast
    with inside False boundary_in_chunk [of k "ck_text c" p q] show ?thesis
      by (simp add: rope_is_char_boundary_def usize_sub_def bind_require chunk_is_char_boundary_correct)
  next
    case outside
    with ne False str_is_char_boundary_le [of "rope_str r" n] show ?thesis
      by (auto simp: rope_is_char_boundary_def usize_sub_def bind_require)
  qed
qed

lemma ceil_all: "str_len cs \<le> n \<Longrightarrow> str_ceil_char_boundary cs n = str_len cs"
  by (induction cs arbitrary: n) auto

theorem rope_clip_offset_correct:
  assumes "rope_ok r"
  shows "rope_floor_char_boundary r n = Some (str_floor_char_boundary (rope_str r) n)"
    and "rope_ceil_char_boundary r n = Some (str_ceil_char_boundary (rope_str r) n)"
proof -
  note len = rope_measures(2) [OF assms]
  have "rope_floor_char_boundary r n = Some (str_floor_char_boundary (rope_str r) n) \<and>
    rope_ceil_char_boundary r n = Some (str_ceil_char_boundary (rope_str r) n)"
  proof (cases rule: find_offset [OF assms, of n, case_names inside outside])
    case (inside p c q)
    then have "str_len p \<le> n" by auto
    then obtain k where k: "n = str_len p + k" using le_Suc_ex by blast
    with inside have "k \<le> str_len (ck_text c)" by simp
    from floor_in_chunk [OF this, of p q] ceil_in_chunk [OF this, of p q] show ?thesis
      using inside k len str_floor_all [of "rope_str r" n] ceil_all [of "rope_str r" n]
      by (simp add: rope_floor_char_boundary_def rope_ceil_char_boundary_def usize_sub_def bind_require)
  next
    case outside
    with len str_floor_all [of "rope_str r" n] ceil_all [of "rope_str r" n] show ?thesis
      by (auto simp: rope_floor_char_boundary_def rope_ceil_char_boundary_def usize_sub_def bind_require)
  qed
  then show "rope_floor_char_boundary r n = Some (str_floor_char_boundary (rope_str r) n)"
      "rope_ceil_char_boundary r n = Some (str_ceil_char_boundary (rope_str r) n)" by simp_all
qed

section \<open>Clipping of any position\<close>

lemma closest_in_chunk:
  assumes "closest_boundary b cs t m" and "t < utf16_len cs"
  shows "closest_boundary b (p @ cs @ q) (utf16_len p + t) (utf16_len p + m)"
proof -
  obtain l where l: "prefix_of l cs" "utf16_len l = m" using assms(1) by (auto simp: closest_boundary_def)
  then have pre: "prefix_of (p @ l) (p @ cs @ q)" by (auto simp: prefix_of_def)
  have cases: "(\<exists>u. l0 = p @ u \<and> prefix_of u cs) \<or> utf16_len (p @ cs) \<le> utf16_len l0 \<or> (\<exists>u. u \<noteq> [] \<and> p = l0 @ u)"
    if "prefix_of l0 (p @ cs @ q)" for l0
  proof -
    from that obtain z where z: "p @ cs @ q = l0 @ z" by (auto simp: prefix_of_def)
    then obtain u where u: "p = l0 @ u \<and> u @ cs @ q = z \<or> p @ u = l0 \<and> cs @ q = u @ z"
      by (auto simp: append_eq_append_conv2)
    from u show ?thesis
    proof (elim disjE conjE)
      assume "p @ u = l0" "cs @ q = u @ z"
      then show ?thesis by (auto simp: append_eq_append_conv2 prefix_of_def)
    next
      assume "p = l0 @ u"
      then show ?thesis by (cases "u = []") (auto simp: prefix_of_def)
    qed
  qed
  have all: "utf16_len l \<le> utf16_len cs" using l(1) by (rule prefix_utf16_le)
  have shorter: "utf16_len l0 < utf16_len p" if "u \<noteq> []" "p = l0 @ u" for l0 u using that utf16_len_pos [of u] by simp
  show ?thesis
  proof (cases b)
    case Left
    have "utf16_len l0 \<le> utf16_len p + m" if "prefix_of l0 (p @ cs @ q)" "utf16_len l0 \<le> utf16_len p + t" for l0
      using cases [OF that(1)] that(2) assms Left shorter [of _ l0] by (fastforce simp: closest_boundary_def)
    moreover have "m \<le> t" using assms(1) Left by (simp add: closest_boundary_def)
    ultimately show ?thesis using Left pre l(2) unfolding closest_boundary_def by auto
  next
    case Right
    have "prefix_of [] cs" by (simp add: prefix_of_def)
    then have zero: "m = 0" if "t = 0" using assms(1) Right that by (auto simp: closest_boundary_def)
    have "utf16_len p + m \<le> utf16_len l0" if "prefix_of l0 (p @ cs @ q)" "utf16_len p + t \<le> utf16_len l0" for l0
      using cases [OF that(1)] that(2) assms Right shorter [of _ l0] all l(2) by (fastforce simp: closest_boundary_def)
    moreover have "t \<le> m" using assms Right by (simp add: closest_boundary_def min_def split: if_splits)
    ultimately show ?thesis using Right pre l(2) unfolding closest_boundary_def by auto
  qed
qed

theorem rope_clip_offset_utf16_correct:
  assumes "rope_ok r"
  shows "\<exists>m. rope_clip_offset_utf16 r (OffsetUtf16 t) b = Some (OffsetUtf16 m) \<and> closest_boundary b (rope_str r) t m"
proof (cases rule: len_utf16_key.find_in_rope [OF assms, of "OffsetUtf16 t" Right, case_names inside outside])
  case (inside p c q)
  then have in': "rope_str r = p @ ck_text c @ q" "chunk_ok c" "t < utf16_len (p @ ck_text c)" "utf16_len p \<le> t"
    by (auto simp: chunk_in_def beyond_def less_eq_offset_utf16_def measures)
  obtain k where k: "t = utf16_len p + k" using in'(4) le_Suc_ex by blast
  obtain m where m: "chunk_clip_offset_utf16 c (OffsetUtf16 k) b = Some (OffsetUtf16 m)" "closest_boundary b (ck_text c) k m"
    using clip_offset_utf16_correct [OF in'(2)] by blast
  have "k < utf16_len (ck_text c)" using in'(3) k by simp
  from closest_in_chunk [OF m(2) this, of p q] m(1) inside(1) in'(1) k show ?thesis
    by (simp add: rope_clip_offset_utf16_def position_simps)
next
  case outside
  have "utf16_len (rope_str r) \<le> t" using outside(2) by (auto simp: beyond_def less_eq_offset_utf16_def measures)
  then have "closest_boundary b (rope_str r) t (utf16_len (rope_str r))"
    using prefix_utf16_le [of _ "rope_str r"] by (auto simp: closest_boundary_def prefix_of_def intro: order_trans)
  with outside(1) show ?thesis by (simp add: rope_clip_offset_utf16_def rope_measures(1) [OF assms] measures)
qed

theorem rope_clip_point_utf16_correct:
  assumes "rope_ok r"
  shows "\<exists>l. rope_clip_point_utf16 r (Unclipped u) b = Some (lines_utf16 (summary_from l)) \<and> prefix_of l (rope_str r) \<and>
    (\<forall>l0. prefix_of l0 (rope_str r) \<and> u = lines_utf16 (summary_from l0) \<longrightarrow> lines_utf16 (summary_from l) = u)"
proof (cases rule: lines_utf16_key.find_in_rope [OF assms, of u Right, case_names inside outside])
  case (inside p c q)
  then have in': "rope_str r = p @ ck_text c @ q" "chunk_ok c" "u < lines_utf16 (summary_from (p @ ck_text c))"
      "p = [] \<or> lines_utf16 (summary_from p) \<le> u"
    by (auto simp: chunk_in_def beyond_def)
  let ?v = "point_utf16_sub u (lines_utf16 (summary_from p))"
  obtain l where l: "chunk_clip_point_utf16 c (Unclipped ?v) b = Some (lines_utf16 (summary_from l))" "prefix_of l (ck_text c)"
      "\<forall>l0. prefix_of l0 (ck_text c) \<and> ?v = lines_utf16 (summary_from l0) \<longrightarrow> lines_utf16 (summary_from l) = ?v"
    using clip_point_utf16_correct [OF in'(2), of ?v b] by blast
  have "lines_utf16 (summary_from (p @ l)) = u" if l0: "prefix_of l0 (rope_str r)" "u = lines_utf16 (summary_from l0)" for l0
  proof (rule lines_utf16_key.valid_in_chunk [OF in'(1) l0(1)])
    fix l1
    assume "l0 = p @ l1" "prefix_of l1 (ck_text c)"
    with l(3) l0(2) show ?thesis by (simp add: position_simps)
  qed (use in'(3,4) l0(2) in simp_all)
  moreover have "prefix_of (p @ l) (rope_str r)" using l(2) in'(1) by (auto simp: prefix_of_def)
  ultimately show ?thesis using l(1) inside(1)
    by (intro exI [of _ "p @ l"]) (auto simp: rope_clip_point_utf16_def lines_append)
next
  case outside
  have "lines_utf16 (summary_from (rope_str r)) = u" if l0: "prefix_of l0 (rope_str r)" "u = lines_utf16 (summary_from l0)" for l0
    using l0 outside(2) lines_utf16_key.key_mono [of l0] by (auto simp: prefix_of_def beyond_def intro: antisym)
  with outside(1) show ?thesis
    by (intro exI [of _ "rope_str r"]) (auto simp: rope_clip_point_utf16_def rope_measures(1) [OF assms] prefix_of_def)
qed

text \<open>
  \<open>clip_point\<close> keeps a position that is at a boundary of clusters in its chunk, since it looks at the clusters
  of one chunk only.
\<close>

theorem rope_clip_point_correct:
  assumes "rope_ok r" and "segmentation grapheme"
  shows "\<exists>l. rope_clip_point grapheme r u b = Some (ts_lines (summary_from l)) \<and> prefix_of l (rope_str r) \<and>
    (\<forall>l0. prefix_of l0 (rope_str r) \<and> u = ts_lines (summary_from l0) \<and>
       (\<forall>p c q l1. chunk_in r p c q \<and> l0 = p @ l1 \<longrightarrow> cluster_at grapheme (ck_text c) l1) \<longrightarrow> ts_lines (summary_from l) = u)"
proof (cases rule: lines_key.find_in_rope [OF assms(1), of u Right, case_names inside outside])
  case (inside p c q)
  then have in': "rope_str r = p @ ck_text c @ q" "chunk_ok c" "u < ts_lines (summary_from (p @ ck_text c))"
      "p = [] \<or> ts_lines (summary_from p) \<le> u"
    by (auto simp: chunk_in_def beyond_def)
  let ?v = "point_sub u (ts_lines (summary_from p))"
  obtain l where l: "chunk_clip_point grapheme c ?v b = Some (ts_lines (summary_from l))" "prefix_of l (ck_text c)"
      "\<forall>l0. cluster_at grapheme (ck_text c) l0 \<and> ?v = ts_lines (summary_from l0) \<longrightarrow> ts_lines (summary_from l) = ?v"
    using clip_point_correct [OF in'(2) assms(2), of ?v b] by blast
  have "ts_lines (summary_from (p @ l)) = u" if l0: "prefix_of l0 (rope_str r)" "u = ts_lines (summary_from l0)"
      and "\<forall>p c q l1. chunk_in r p c q \<and> l0 = p @ l1 \<longrightarrow> cluster_at grapheme (ck_text c) l1" for l0
  proof (rule lines_key.valid_in_chunk [OF in'(1) l0(1)])
    fix l1
    assume l1: "l0 = p @ l1" "prefix_of l1 (ck_text c)"
    with that(3) inside(2) have "cluster_at grapheme (ck_text c) l1" by blast
    with l(3) l1 l0(2) show ?thesis by (simp add: position_simps)
  qed (use in'(3,4) l0(2) in simp_all)
  moreover have "prefix_of (p @ l) (rope_str r)" using l(2) in'(1) by (auto simp: prefix_of_def)
  ultimately show ?thesis using l(1) inside(1)
    by (intro exI [of _ "p @ l"]) (auto simp: rope_clip_point_def lines_append)
next
  case outside
  have "ts_lines (summary_from (rope_str r)) = u" if l0: "prefix_of l0 (rope_str r)" "u = ts_lines (summary_from l0)" for l0
    using l0 outside(2) lines_key.key_mono [of l0] by (auto simp: prefix_of_def beyond_def intro: antisym)
  with outside(1) show ?thesis
    by (intro exI [of _ "rope_str r"]) (auto simp: rope_clip_point_def rope_measures(1) [OF assms(1)] prefix_of_def)
qed

section \<open>The length of a line\<close>

text \<open>A line whose newline is in the text is the last line of the text before the newline.\<close>

lemma nth_line:
  assumes "cs = a @ newline_char # b"
  shows "split_lines cs ! newlines_in a = last (split_lines a)"
proof -
  have "length (split_lines a) = Suc (newlines_in a)" by (simp add: length_split_lines newlines_in_def)
  moreover from this have "last (split_lines a) = split_lines a ! newlines_in a" by (simp add: last_conv_nth)
  ultimately show ?thesis by (simp add: assms split_lines_join nth_append)
qed

lemma point_of: "ts_lines (summary_from l) = Point (newlines_in l) (str_len (last (split_lines l)))"
  using summary_from_summarises [of l] by (simp add: summarises_def length_split_lines newlines_in_def)

text \<open>Clipping a column beyond the end of a line needs no clusters.\<close>

lemma clip_long_column:
  assumes "chunk_ok c" and "n < newlines_in (ck_text c)" and "str_len (ck_text c) \<le> col" and "0 < col"
  obtains l q where "chunk_clip_point grapheme c (Point n col) b = Some (ts_lines (summary_from l))"
    and "ck_text c = l @ newline_char # q" and "newlines_in l = n"
proof -
  have "n \<le> row (ts_lines (summary_from (ck_text c) :: nat text_summary))" using assms(2) by (simp add: point_of)
  then obtain p l q line where at: "line_at (ck_text c) p l q" "newlines_in p = n"
      "offset_range_for_row c n = Some (str_len p, str_len p + str_len l)"
      "chunk_slice c (str_len p) (str_len p + str_len l) = Some line" "chunk_ok line" "ck_text line = l"
    by (rule chunk_row [OF assms(1)])
  have parts: "ck_text c = p @ l @ q" "newline_char \<notin> set l" "p = [] \<or> last p = newline_char" "q = [] \<or> hd q = newline_char"
    using at(1) by (auto simp: line_at_def)
  have "newlines_in q \<noteq> 0" using assms(2) parts(1,2) at(2) newlines_plain by simp
  then obtain q' where q': "q = newline_char # q'" using parts(4) by (cases q) (auto simp: newlines_in_def)
  have "\<not> row (ts_lines (summary_from (ck_text c) :: nat text_summary)) < n" using assms(2) by (simp add: point_of)
  with at whole_point(1) [OF assms(1)] assms(3,4) parts(1) prefix_point(1) [OF parts(3,2)] have
    "chunk_clip_point grapheme c (Point n col) b = Some (ts_lines (summary_from (p @ l)))"
    by (simp add: chunk_clip_point_def chunk_len_def point_new_def)
  then show ?thesis using that [of "p @ l" q'] parts(1,2) q' at(2) newlines_plain by simp
qed

text \<open>Rows beyond the last have the length of the last line.\<close>

theorem rope_line_len_correct:
  assumes "rope_ok r" and "str_len (rope_str r) < 2 ^ 32 - 1"
  shows "rope_line_len grapheme r n = Some (str_len (split_lines (rope_str r) ! min n (newlines_in (rope_str r))))"
proof -
  let ?M = "2 ^ 32 - 1 :: nat" and ?cs = "rope_str r"
  have len: "length (split_lines ?cs) = Suc (newlines_in ?cs)" by (simp add: length_split_lines newlines_in_def)
  show ?thesis
  proof (cases rule: lines_key.find_in_rope [OF assms(1), of "point_new n ?M" Right, case_names inside outside])
    case (inside p c q)
    then have in': "?cs = p @ ck_text c @ q" "chunk_ok c" "Point n ?M < ts_lines (summary_from (p @ ck_text c))"
        "p = [] \<or> ts_lines (summary_from p) \<le> Point n ?M"
      by (auto simp: chunk_in_def beyond_def point_new_def)
    let ?v = "point_sub (Point n ?M) (ts_lines (summary_from p))"
    have last: "str_len (last (split_lines l)) \<le> str_len l" for l by (rule str_len_last_line)
    have bound: "str_len p + str_len (ck_text c) < ?M" using assms(2) in'(1) by simp
    have below: "n < newlines_in p + newlines_in (ck_text c)" "newlines_in p \<le> n"
      using in'(3,4) bound last [of "p @ ck_text c"] by (auto simp: point_of less_point_def less_eq_point_def newlines_in_def)
    have v: "row ?v = n - newlines_in p" "str_len (ck_text c) \<le> column ?v" "0 < column ?v"
      using below bound last [of p] by (auto simp: point_of point_sub_def point_new_def)
    with below obtain l q' where l: "chunk_clip_point grapheme c ?v Left = Some (ts_lines (summary_from l))"
        "ck_text c = l @ newline_char # q'" "newlines_in l = n - newlines_in p"
      using clip_long_column [OF in'(2), of "row ?v" "column ?v" grapheme Left] by (metis less_diff_conv2 add.commute point.collapse)
    then have "rope_line_len grapheme r n = Some (column (ts_lines (summary_from (p @ l) :: nat text_summary)))"
      using inside(1) by (simp add: rope_line_len_def rope_clip_point_def lines_append point_new_def)
    moreover have "newlines_in (p @ l) = n" "newlines_in (p @ l) \<le> newlines_in ?cs" using below l(2,3) in'(1) by simp_all
    moreover have "split_lines ?cs ! newlines_in (p @ l) = last (split_lines (p @ l))"
      by (rule nth_line) (use in'(1) l(2) in simp)
    ultimately show ?thesis by (simp add: point_of min_def)
  next
    case outside
    have "newlines_in ?cs \<le> n"
      using outside(2) by (auto simp: beyond_def point_of point_new_def less_eq_point_def newlines_in_def)
    with outside(1) len show ?thesis
      by (simp add: rope_line_len_def rope_clip_point_def rope_measures(1) [OF assms(1)] point_of min_def last_conv_nth)
  qed
qed

end
