(* ===== verification/Rope_Cursor.thy ===== *)
theory Rope_Cursor
  imports Rope_Convert
begin

text \<open>
  The crate \<open>rope\<close>, file \<open>rope.rs\<close>: the cursor over a rope, which slices the text and measures it, and the
  operations on ranges of a rope built on it.
\<close>

section \<open>The measure of a chunk\<close>

text \<open>\<open>TextDimension::from_chunk\<close> for each dimension.\<close>

definition len_from_chunk :: "chunk \<Rightarrow> nat option" where
  "len_from_chunk c = Some (chunk_len c)"

definition len_utf16_from_chunk :: "chunk \<Rightarrow> offset_utf16 option" where
  "len_utf16_from_chunk c = Some (OffsetUtf16 (chunk_len_utf16 c))"

definition lines_from_chunk :: "chunk \<Rightarrow> nat point option" where
  "lines_from_chunk c = chunk_lines c"

definition lines_utf16_from_chunk :: "chunk \<Rightarrow> nat point_utf16 option" where
  "lines_utf16_from_chunk c = do {
     lines \<leftarrow> chunk_lines c;
     Some (PointUtf16 (row lines) (chunk_last_line_len_utf16 c)) }"

definition text_summary_from_chunk :: "chunk \<Rightarrow> nat text_summary option" where
  "text_summary_from_chunk c = chunk_text_summary c"

definition dimensions_from_chunk :: "(chunk \<Rightarrow> 'a option) \<Rightarrow> (chunk \<Rightarrow> 'b option) \<Rightarrow> chunk \<Rightarrow> ('a \<times> 'b \<times> unit) option" where
  "dimensions_from_chunk f g c = do { a \<leftarrow> f c; b \<leftarrow> g c; Some (a, b, ()) }"

definition pair_from_chunk ::
  "(chunk \<Rightarrow> 'k option) \<Rightarrow> (chunk \<Rightarrow> 'v option) \<Rightarrow> chunk \<Rightarrow> ('k, 'v) dimension_pair option" where
  "pair_from_chunk f g c = do { k \<leftarrow> f c; v \<leftarrow> g c; Some (DimensionPair k (Some v)) }"

section \<open>The cursor\<close>

record rope_cursor =
  rc_rope :: rope
  rc_chunks :: "(chunk, chunk_summary, nat) cursor"
  rc_offset :: nat

definition rope_cursor_new :: "rope \<Rightarrow> nat \<Rightarrow> rope_cursor option" where
  "rope_cursor_new r offset = do {
     (chunks, _) \<leftarrow> cursor_seek len_dim (cmp offset) Right (cursor_new len_dim r);
     Some \<lparr>rc_rope = r, rc_chunks = chunks, rc_offset = offset\<rparr> }"

definition rope_cursor_seek_forward :: "rope_cursor \<Rightarrow> nat \<Rightarrow> rope_cursor option" where
  "rope_cursor_seek_forward self end_offset = do {
     _ \<leftarrow> require (rc_offset self \<le> end_offset);
     _ \<leftarrow> require (end_offset \<le> rope_len (rc_rope self));
     (chunks, _) \<leftarrow> cursor_seek_forward len_dim (cmp end_offset) Right (rc_chunks self);
     Some (self\<lparr>rc_chunks := chunks, rc_offset := end_offset\<rparr>) }"

text \<open>The part of the current chunk between the cursor and \<open>end_offset\<close>, and the part of the last one before it.\<close>

definition start_piece :: "rope_cursor \<Rightarrow> nat \<Rightarrow> chunk \<Rightarrow> chunk option" where
  "start_piece self end_offset start_chunk = do {
     start_ix \<leftarrow> usize_sub (rc_offset self) (cu_position (rc_chunks self));
     chunk_end \<leftarrow> cursor_end len_dim (rc_chunks self);
     end_ix \<leftarrow> usize_sub (min end_offset chunk_end) (cu_position (rc_chunks self));
     chunk_slice start_chunk start_ix end_ix }"

definition end_piece :: "(chunk, chunk_summary, nat) cursor \<Rightarrow> nat \<Rightarrow> chunk \<Rightarrow> chunk option" where
  "end_piece chunks end_offset end_chunk = do {
     end_ix \<leftarrow> usize_sub end_offset (cu_position chunks);
     chunk_slice end_chunk 0 end_ix }"

definition rope_cursor_slice :: "rope_cursor \<Rightarrow> nat \<Rightarrow> (rope_cursor \<times> rope) option" where
  "rope_cursor_slice self end_offset = do {
     _ \<leftarrow> require (rc_offset self \<le> end_offset);
     _ \<leftarrow> require (end_offset \<le> rope_len (rc_rope self));
     item \<leftarrow> cursor_item (rc_chunks self);
     slice \<leftarrow> (case item of
         Some start_chunk \<Rightarrow> start_piece self end_offset start_chunk \<bind> push_chunk rope_new
       | None \<Rightarrow> Some rope_new);
     chunk_end \<leftarrow> cursor_end len_dim (rc_chunks self);
     (chunks, slice) \<leftarrow>
       (if chunk_end < end_offset then do {
          chunks \<leftarrow> cursor_next len_dim (rc_chunks self);
          (chunks, middle) \<leftarrow> cursor_slice rope_ops len_dim (cmp end_offset) Right chunks;
          slice \<leftarrow> rope_append slice middle;
          item \<leftarrow> cursor_item chunks;
          slice \<leftarrow> (case item of
              Some end_chunk \<Rightarrow> end_piece chunks end_offset end_chunk \<bind> push_chunk slice
            | None \<Rightarrow> Some slice);
          Some (chunks, slice) }
        else Some (rc_chunks self, slice));
     Some (self\<lparr>rc_chunks := chunks, rc_offset := end_offset\<rparr>, slice) }"

definition rope_cursor_summary ::
  "(chunk_summary, 'd) dim_ops \<Rightarrow> (chunk \<Rightarrow> 'd option) \<Rightarrow> ('d \<Rightarrow> 'd \<Rightarrow> 'd) \<Rightarrow> rope_cursor \<Rightarrow> nat \<Rightarrow> (rope_cursor \<times> 'd) option" where
  "rope_cursor_summary D from_chunk add_assign self end_offset = do {
     _ \<leftarrow> require (rc_offset self \<le> end_offset);
     _ \<leftarrow> require (end_offset \<le> rope_len (rc_rope self));
     item \<leftarrow> cursor_item (rc_chunks self);
     sum \<leftarrow> (case item of
         Some start_chunk \<Rightarrow>
           map_option (add_assign (dzero D)) (start_piece self end_offset start_chunk \<bind> from_chunk)
       | None \<Rightarrow> Some (dzero D));
     chunk_end \<leftarrow> cursor_end len_dim (rc_chunks self);
     (chunks, sum) \<leftarrow>
       (if chunk_end < end_offset then do {
          chunks \<leftarrow> cursor_next len_dim (rc_chunks self);
          (chunks, middle) \<leftarrow> cursor_summary len_dim D (cmp end_offset) Right chunks;
          let sum = add_assign sum middle;
          item \<leftarrow> cursor_item chunks;
          sum \<leftarrow> (case item of
              Some end_chunk \<Rightarrow> map_option (add_assign sum) (end_piece chunks end_offset end_chunk \<bind> from_chunk)
            | None \<Rightarrow> Some sum);
          Some (chunks, sum) }
        else Some (rc_chunks self, sum));
     Some (self\<lparr>rc_chunks := chunks, rc_offset := end_offset\<rparr>, sum) }"

definition rope_cursor_suffix :: "rope_cursor \<Rightarrow> rope option" where
  "rope_cursor_suffix self = map_option snd (rope_cursor_slice self (extent len_dim (rc_rope self)))"

section \<open>Ranges of a rope\<close>

definition rope_replace :: "rope \<Rightarrow> nat \<times> nat \<Rightarrow> str \<Rightarrow> rope option" where
  "rope_replace self rng s = do {
     cursor \<leftarrow> rope_cursor_new self 0;
     (cursor, before) \<leftarrow> rope_cursor_slice cursor (fst rng);
     new_rope \<leftarrow> rope_append rope_new before;
     cursor \<leftarrow> rope_cursor_seek_forward cursor (snd rng);
     new_rope \<leftarrow> rope_push new_rope s;
     after \<leftarrow> rope_cursor_suffix cursor;
     rope_append new_rope after }"

definition rope_slice :: "rope \<Rightarrow> nat \<times> nat \<Rightarrow> rope option" where
  "rope_slice self rng = do {
     cursor \<leftarrow> rope_cursor_new self 0;
     cursor \<leftarrow> rope_cursor_seek_forward cursor (fst rng);
     map_option snd (rope_cursor_slice cursor (snd rng)) }"

definition rope_slice_rows :: "rope \<Rightarrow> nat \<times> nat \<Rightarrow> rope option" where
  "rope_slice_rows self rng = do {
     start_offset \<leftarrow> rope_point_to_offset self (point_new (fst rng) 0);
     end_offset \<leftarrow> rope_point_to_offset self (point_new (snd rng) 0);
     rope_slice self (start_offset, end_offset) }"

section \<open>Where a cursor is\<close>

text \<open>The offset at which a chunk starts.\<close>

definition chunk_start :: "rope \<Rightarrow> nat \<Rightarrow> nat" where
  "chunk_start r k = str_len (concat (map ck_text (take k (flat r))))"

text \<open>A cursor at an offset is in the chunk around it; at the end of a chunk it may not have moved on yet.\<close>

definition rope_cursor_ok :: "rope \<Rightarrow> nat \<Rightarrow> rope_cursor \<Rightarrow> bool" where
  "rope_cursor_ok r n c \<longleftrightarrow> rc_rope c = r \<and> rc_offset c = n \<and>
     (\<exists>k. cursor_at rope_ops len_dim r k (rc_chunks c) \<and> chunk_start r k \<le> n \<and> n \<le> chunk_start r (Suc k))"

lemma chunk_start_position: "rope_ok r \<Longrightarrow> position_of rope_ops len_dim (take k (flat r)) = chunk_start r k"
  using len_key.rope_at [of r k] by (simp add: chunk_start_def measures)

lemma chunk_start_all: "length (flat r) \<le> k \<Longrightarrow> chunk_start r k = str_len (rope_str r)"
  by (simp add: chunk_start_def rope_str_def)

lemma chunk_start_0 [simp]: "chunk_start r 0 = 0"
  by (simp add: chunk_start_def)

lemma cursor_at_start:
  assumes "rope_ok r" and "cursor_at rope_ops len_dim r k c"
  shows "cu_position c = chunk_start r k" and "cursor_end len_dim c = Some (chunk_start r (Suc k))"
    and "cursor_item c = Some (if k < length (flat r) then Some (flat r ! k) else None)"
  using assms chunk_start_position [OF assms(1)] cursor_end_at [OF assms(2)] cursor_item_at [OF assms(2)]
  by (auto simp: cursor_at_def rope_ok_def)

lemma target_from:
  assumes "rope_ok r"
  shows "mono_target len_dim (cmp n) b (chunk_start r k) (map (ssummary rope_ops) (drop k (flat r)))"
proof -
  have "map (ssummary rope_ops) (flat r) = map (ssummary rope_ops) (take k (flat r)) @ map (ssummary rope_ops) (drop k (flat r))"
    by (simp flip: map_append)
  with len_key.rope_target [OF assms, of n b] mono_target_append show ?thesis
    by (metis chunk_start_position [OF assms] position_of_def)
qed

lemma seek_from_bias:
  assumes "rope_ok r" and "k \<le> length (flat r)"
    and j: "j = seek_len len_dim (cmp n) b (chunk_start r k) (map (ssummary rope_ops) (drop k (flat r)))"
  shows "k + j \<le> length (flat r)" and "j = 0 \<or> beyond b n (chunk_start r (k + j))"
    and "k + j < length (flat r) \<Longrightarrow> \<not> beyond b n (chunk_start r (Suc (k + j)))"
proof -
  let ?ss = "map (ssummary rope_ops) (drop k (flat r))"
  have ends: "ends len_dim (chunk_start r k) ?ss ! i = chunk_start r (Suc (k + i))" if "i < length ?ss" for i
  proof -
    have "take (Suc (k + i)) (flat r) = take k (flat r) @ take (Suc i) (drop k (flat r))"
      using take_add [of k "Suc i" "flat r"] by simp
    with that show ?thesis
      by (simp add: nth_ends chunk_start_position [OF assms(1), symmetric] position_of_append take_map)
  qed
  show le: "k + j \<le> length (flat r)" using seek_len_le [of len_dim "cmp n" b "chunk_start r k" ?ss] assms(2) by (simp add: j)
  show "j = 0 \<or> beyond b n (chunk_start r (k + j))"
  proof (cases j)
    case (Suc i)
    with seek_len_past [of i len_dim "cmp n" b "chunk_start r k" ?ss] ends [of i] le show ?thesis
      by (simp add: j [symmetric] seek_past_cmp)
  qed simp
  assume "k + j < length (flat r)"
  then have "j < length (flat r) - k" by simp
  with seek_len_stops [of len_dim "cmp n" b "chunk_start r k" ?ss] ends [of j] show "\<not> beyond b n (chunk_start r (Suc (k + j)))"
    by (simp add: j [symmetric] seek_past_cmp)
qed

lemma seek_from:
  assumes "rope_ok r" and "k \<le> length (flat r)" and "chunk_start r k \<le> n"
    and j: "j = seek_len len_dim (cmp n) Right (chunk_start r k) (map (ssummary rope_ops) (drop k (flat r)))"
  shows "k + j \<le> length (flat r)" and "chunk_start r (k + j) \<le> n" and "k + j < length (flat r) \<Longrightarrow> n < chunk_start r (Suc (k + j))"
  using seek_from_bias [OF assms(1,2) j] assms(3) by (auto simp: beyond_def)

lemma in_chunk_after_seek:
  assumes "rope_ok r" and "k \<le> length (flat r)" and "chunk_start r k \<le> n" and "n \<le> str_len (rope_str r)"
    and "j = seek_len len_dim (cmp n) Right (chunk_start r k) (map (ssummary rope_ops) (drop k (flat r)))"
  shows "n \<le> chunk_start r (Suc (k + j))"
  using seek_from [OF assms(1-3,5)] assms(4) chunk_start_all [of r "Suc (k + j)"] by (cases "k + j < length (flat r)") auto

theorem rope_cursor_new_ok:
  assumes "rope_ok r" and "shallow r" and "n \<le> str_len (rope_str r)"
  shows "\<exists>c. rope_cursor_new r n = Some c \<and> rope_cursor_ok r n c"
proof -
  let ?j = "seek_len len_dim (cmp n) Right (chunk_start r 0) (map (ssummary rope_ops) (drop 0 (flat r)))"
  have walk: "walkable rope_ops r" using assms by (simp add: walkable_def rope_ok_def)
  have "cmp n (dzero len_dim) \<noteq> Less" by (simp add: len_dim_def cmp_def)
  with dimension_laws.cursor_seek_correct [OF len_key.rope_dimension _ walk, of "cursor_new len_dim r" "cmp n" Right ?j]
    target_from [OF assms(1), of n Right 0] seek_from [OF assms(1), of 0 n ?j] in_chunk_after_seek [OF assms(1) _ _ assms(3), of 0 ?j]
  show ?thesis by (auto simp: rope_cursor_new_def rope_cursor_ok_def cursor_new_def len_dim_def)
qed

theorem rope_cursor_seek_forward_ok:
  assumes "rope_ok r" and "shallow r" and "rope_cursor_ok r n c" and "n \<le> e" and "e \<le> str_len (rope_str r)"
  shows "\<exists>c'. rope_cursor_seek_forward c e = Some c' \<and> rope_cursor_ok r e c'"
proof -
  obtain k where k: "rc_rope c = r" "rc_offset c = n" "cursor_at rope_ops len_dim r k (rc_chunks c)" "chunk_start r k \<le> n"
    using assms(3) by (auto simp: rope_cursor_ok_def)
  let ?j = "seek_len len_dim (cmp e) Right (chunk_start r k) (map (ssummary rope_ops) (drop k (flat r)))"
  have walk: "walkable rope_ops r" using assms by (simp add: walkable_def rope_ok_def)
  note pos = cursor_at_start(1) [OF assms(1) k(3)]
  have le: "chunk_start r k \<le> e" "k \<le> length (flat r)" using k(3,4) assms(4) by (auto simp: cursor_at_def)
  have "cursor_ready rope_ops len_dim r k (rc_chunks c)" using k(3) by (simp add: cursor_ready_def)
  moreover have "cmp e (cu_position (rc_chunks c)) \<noteq> Less" using le(1) pos by (auto simp: cmp_def)
  ultimately obtain c' found where "cursor_seek_forward len_dim (cmp e) Right (rc_chunks c) = Some (c', found)"
      "cursor_at rope_ops len_dim r (k + ?j) c'"
    using dimension_laws.cursor_seek_forward_correct [OF len_key.rope_dimension _ walk, of k "rc_chunks c" "cmp e" Right "k + ?j"]
      target_from [OF assms(1), of e Right k] pos by auto
  with seek_from [OF assms(1) le(2,1) refl] in_chunk_after_seek [OF assms(1) le(2,1) assms(5) refl] k(1,2) assms(4,5) rope_measures(2) [OF assms(1)]
  show ?thesis by (auto simp: rope_cursor_seek_forward_def rope_cursor_ok_def bind_require)
qed

section \<open>Slicing\<close>

lemma prefix_by_len:
  assumes "x @ y = a @ b" and "str_len x \<le> str_len a"
  obtains u where "a = x @ u" and "y = u @ b"
proof -
  from assms(1) obtain u where u: "x = a @ u \<and> u @ y = b \<or> x @ u = a \<and> y = u @ b" by (auto simp: append_eq_append_conv2)
  show ?thesis
  proof (cases "x = a @ u \<and> u @ y = b")
    case True
    with assms(2) have "u = []" by simp
    with True that [of "[]"] show ?thesis by simp
  next
    case False
    with u that [of u] show ?thesis by blast
  qed
qed

lemma chunk_at:
  assumes "rope_ok r" and "k < length (flat r)"
  obtains p q where "rope_str r = p @ ck_text (flat r ! k) @ q" and "str_len p = chunk_start r k"
    and "str_len (p @ ck_text (flat r ! k)) = chunk_start r (Suc k)" and "chunk_ok (flat r ! k)"
    and "p = concat (map ck_text (take k (flat r)))"
proof (rule that)
  show "rope_str r = concat (map ck_text (take k (flat r))) @ ck_text (flat r ! k) @ concat (map ck_text (drop (Suc k) (flat r)))"
    using id_take_nth_drop [OF assms(2)] unfolding rope_str_def by (metis concat.simps(2) concat_append list.simps(9) map_append)
  show "chunk_ok (flat r ! k)" using assms by (simp add: rope_ok_def chunks_ok_def)
qed (use assms(2) in \<open>auto simp: chunk_start_def take_Suc_conv_app_nth\<close>)

lemma start_piece_spec:
  assumes "rope_ok r" and "rope_str r = a @ m @ b" and "cursor_at rope_ops len_dim r k (rc_chunks c)" and "k < length (flat r)"
    and "rc_offset c = str_len a" and "chunk_start r k \<le> str_len a" and "str_len a \<le> chunk_start r (Suc k)"
  obtains piece where "start_piece c (str_len (a @ m)) (flat r ! k) = Some piece" and "chunk_ok piece"
    and "str_len (a @ m) \<le> chunk_start r (Suc k) \<Longrightarrow> ck_text piece = m"
    and "chunk_start r (Suc k) < str_len (a @ m) \<Longrightarrow>
      \<exists>m2. m = ck_text piece @ m2 \<and> a @ ck_text piece = concat (map ck_text (take (Suc k) (flat r)))"
proof -
  obtain p q where p: "rope_str r = p @ ck_text (flat r ! k) @ q" "str_len p = chunk_start r k"
      "str_len (p @ ck_text (flat r ! k)) = chunk_start r (Suc k)" "chunk_ok (flat r ! k)" "p = concat (map ck_text (take k (flat r)))"
    using chunk_at [OF assms(1,4)] by blast
  note at = cursor_at_start [OF assms(1,3)]
  have "p @ (ck_text (flat r ! k) @ q) = a @ (m @ b)" using assms(2) p(1) by simp
  then obtain a1 where a1: "a = p @ a1" "ck_text (flat r ! k) @ q = a1 @ m @ b"
    using prefix_by_len assms(6) p(2) by metis
  show ?thesis
  proof (cases "str_len (a @ m) \<le> chunk_start r (Suc k)")
    case True
    then have "str_len (a1 @ m) \<le> str_len (ck_text (flat r ! k))" using a1(1) p(2,3) by simp
    with a1(2) obtain u where u: "ck_text (flat r ! k) = a1 @ m @ u" using prefix_by_len [of "a1 @ m" b] by (metis append.assoc)
    obtain piece where piece: "chunk_slice (flat r ! k) (str_len a1) (str_len a1 + str_len m) = Some piece" "chunk_ok piece" "ck_text piece = m"
      using chunk_slice_ok [OF p(4) u] by blast
    have "start_piece c (str_len (a @ m)) (flat r ! k) = Some piece"
      using piece(1) True a1(1) p(2) at(1,2) assms(5) by (simp add: start_piece_def usize_sub_def)
    with piece that True show ?thesis by simp
  next
    case False
    have "str_len a1 \<le> str_len (ck_text (flat r ! k))" using a1(1) p(2,3) assms(7) by simp
    with a1(2) obtain u where u: "ck_text (flat r ! k) = a1 @ u" "m @ b = u @ q" using prefix_by_len [of a1 "m @ b"] by metis
    then have "str_len u \<le> str_len m" using False a1(1) p(3) by simp
    with u(2) obtain m2 where m2: "m = u @ m2" using prefix_by_len [of u q m b] by metis
    obtain piece where piece: "chunk_slice (flat r ! k) (str_len a1) (str_len a1 + str_len u) = Some piece" "chunk_ok piece" "ck_text piece = u"
      using chunk_slice_ok [OF p(4), of a1 u "[]"] u(1) by auto
    have "chunk_start r (Suc k) - chunk_start r k = str_len a1 + str_len u" using p(2,3) u(1) by simp
    then have "start_piece c (str_len (a @ m)) (flat r ! k) = Some piece"
      using piece(1) False a1(1) p(2,3) u(1) at(1,2) assms(5) by (simp add: start_piece_def usize_sub_def min_def)
    moreover have "a @ u = concat (map ck_text (take (Suc k) (flat r)))"
      using a1(1) u(1) p(5) assms(4) by (simp add: take_Suc_conv_app_nth)
    ultimately show ?thesis using piece m2 that False by simp
  qed
qed

lemma end_piece_spec:
  assumes "rope_ok r" and "rope_str r = x @ y" and "cursor_at rope_ops len_dim r k c" and "k < length (flat r)"
    and "chunk_start r k \<le> str_len x" and "str_len x \<le> chunk_start r (Suc k)"
  obtains piece where "end_piece c (str_len x) (flat r ! k) = Some piece" and "chunk_ok piece"
    and "x = concat (map ck_text (take k (flat r))) @ ck_text piece"
proof -
  obtain p q where p: "rope_str r = p @ ck_text (flat r ! k) @ q" "str_len p = chunk_start r k"
      "str_len (p @ ck_text (flat r ! k)) = chunk_start r (Suc k)" "chunk_ok (flat r ! k)" "p = concat (map ck_text (take k (flat r)))"
    using chunk_at [OF assms(1,4)] by blast
  have "p @ (ck_text (flat r ! k) @ q) = x @ y" using assms(2) p(1) by simp
  then obtain u where u: "x = p @ u" "ck_text (flat r ! k) @ q = u @ y" using prefix_by_len assms(5) p(2) by metis
  then have "str_len u \<le> str_len (ck_text (flat r ! k))" using p(3) assms(6) by simp
  with u(2) obtain v where v: "ck_text (flat r ! k) = [] @ u @ v" using prefix_by_len [of u y] by (metis append_Nil)
  obtain piece where "chunk_slice (flat r ! k) 0 (str_len u) = Some piece" "chunk_ok piece" "ck_text piece = u"
    using chunk_slice_ok [OF p(4) v] by auto
  with that [of piece] u(1) p(2,5) cursor_at_start(1) [OF assms(1,3)] show ?thesis by (simp add: end_piece_def usize_sub_def)
qed

lemma chunks_ok_take_drop: "chunks_ok cs \<Longrightarrow> chunks_ok (take j (drop k cs))"
  by (metis append_take_drop_id chunks_ok_append)

text \<open>What a slice of the chunks between two indices is.\<close>

lemma middle_spec:
  assumes "rope_ok r" and "shallow r" and "cursor_at rope_ops len_dim r k c" and "chunk_start r k \<le> e" and "e \<le> str_len (rope_str r)"
  obtains c' u k' where "cursor_slice rope_ops len_dim (cmp e) Right c = Some (c', u)" and "cursor_at rope_ops len_dim r k' c'"
    and "k \<le> k'" and "chunk_start r k' \<le> e" and "e \<le> chunk_start r (Suc k')"
    and "rope_ok u" and "concat (map ck_text (take k' (flat r))) = concat (map ck_text (take k (flat r))) @ rope_str u"
    and "k' = length (flat r) \<Longrightarrow> e = str_len (rope_str r)"
proof -
  let ?j = "seek_len len_dim (cmp e) Right (chunk_start r k) (map (ssummary rope_ops) (drop k (flat r)))"
  have walk: "walkable rope_ops r" using assms by (simp add: walkable_def rope_ok_def)
  note pos = cursor_at_start(1) [OF assms(1,3)]
  have k: "k \<le> length (flat r)" using assms(3) by (simp add: cursor_at_def)
  have ready: "cursor_ready rope_ops len_dim r k c" using assms(3) by (simp add: cursor_ready_def)
  have "cmp e (cu_position c) \<noteq> Less" using assms(4) pos by (auto simp: cmp_def)
  with dimension_laws.cursor_slice_correct [OF len_key.rope_dimension ready walk, of "cmp e" Right "k + ?j"]
    target_from [OF assms(1), of e Right k] pos obtain c' u where
    u: "cursor_slice rope_ops len_dim (cmp e) Right c = Some (c', u)" "cursor_at rope_ops len_dim r (k + ?j) c'"
      "wf_tree rope_ops u" "flat u = take ?j (drop k (flat r))" by auto
  note seek = seek_from [OF assms(1) k assms(4) refl]
  show ?thesis
  proof (rule that [of c' u "k + ?j"])
    show "rope_ok u" using u(3,4) assms(1) chunks_ok_take_drop by (simp add: rope_ok_def)
    show "concat (map ck_text (take (k + ?j) (flat r))) = concat (map ck_text (take k (flat r))) @ rope_str u"
      by (simp add: take_add rope_str_def u(4))
    show "e \<le> chunk_start r (Suc (k + ?j))" by (rule in_chunk_after_seek [OF assms(1) k assms(4,5) refl])
    show "e = str_len (rope_str r)" if "k + ?j = length (flat r)"
      using seek(2) assms(5) chunk_start_all [of r "k + ?j"] that by simp
  qed (use u seek in simp_all)
qed

text \<open>
  A cursor's stack holds 16 entries. The crate does not keep nodes filled, so that the slices of a
  rope are low enough for a cursor is a condition.
\<close>

definition slices_fit :: "rope \<Rightarrow> bool" where
  "slices_fit r \<longleftrightarrow> shallow r \<and>
     (\<forall>k c e c' u. cursor_at rope_ops len_dim r k c \<and> cursor_slice rope_ops len_dim (cmp e) Right c = Some (c', u) \<longrightarrow> shallow u) \<and>
     (\<forall>n c e c' u. rope_cursor_ok r n c \<and> rope_cursor_slice c e = Some (c', u) \<longrightarrow> shallow u)"

lemma push_chunk_new:
  assumes "chunk_ok c"
  shows "\<exists>u. push_chunk rope_new c = Some u \<and> rope_ok u \<and> rope_str u = ck_text c"
  using push_chunk_holds [OF rope_new_ok(1) assms] rope_new_ok(2) by auto

text \<open>The last chunk of a range, if the range does not end at the end of the rope.\<close>

lemma end_part:
  assumes "rope_ok r" and "rope_str r = x @ y" and "cursor_at rope_ops len_dim r k c"
    and "chunk_start r k \<le> str_len x" and "str_len x \<le> chunk_start r (Suc k)"
  obtains (chunk) last_chunk piece where "cursor_item c = Some (Some last_chunk)" and "end_piece c (str_len x) last_chunk = Some piece"
      and "chunk_ok piece" and "x = concat (map ck_text (take k (flat r))) @ ck_text piece"
  | (none) "cursor_item c = Some None" and "x = concat (map ck_text (take k (flat r)))"
proof (cases "k < length (flat r)")
  case True
  from end_piece_spec [OF assms(1-3) True assms(4,5)] chunk cursor_at_start(3) [OF assms(1,3)] True show ?thesis by auto
next
  case False
  then have "str_len x = str_len (rope_str r)" using assms(4,5) chunk_start_all [of r k] chunk_start_all [of r "Suc k"] by simp
  then have "x = rope_str r" using assms(2) by simp
  with False none cursor_at_start(3) [OF assms(1,3)] show ?thesis by (simp add: rope_str_def)
qed

text \<open>The first part of a range that goes beyond the chunk the cursor is in.\<close>

lemma long_range:
  assumes "rope_ok r" and "shallow r" and "rope_str r = a @ m @ b" and "cursor_at rope_ops len_dim r k (rc_chunks c)"
    and "rc_offset c = str_len a" and "chunk_start r k \<le> str_len a" and "str_len a \<le> chunk_start r (Suc k)"
    and "chunk_start r (Suc k) < str_len (a @ m)"
  obtains start_chunk piece c1 m2 where "cursor_item (rc_chunks c) = Some (Some start_chunk)"
    and "start_piece c (str_len (a @ m)) start_chunk = Some piece" and "chunk_ok piece"
    and "m = ck_text piece @ m2" and "a @ ck_text piece = concat (map ck_text (take (Suc k) (flat r)))"
    and "cursor_next len_dim (rc_chunks c) = Some c1" and "cursor_at rope_ops len_dim r (Suc k) c1"
proof -
  have walk: "walkable rope_ops r" using assms(1,2) by (simp add: walkable_def rope_ok_def)
  have k: "k < length (flat r)" using assms(3,8) chunk_start_all [of r "Suc k"] by (cases "k < length (flat r)") auto
  have "forward_start rope_ops len_dim r (Suc k) (rc_chunks c)" using assms(4) k by (auto simp: forward_start_def)
  with dimension_laws.cursor_next_correct [OF len_key.rope_dimension _ walk] obtain c1 where
    c1: "cursor_next len_dim (rc_chunks c) = Some c1" "cursor_at rope_ops len_dim r (Suc k) c1" by blast
  obtain piece where piece: "start_piece c (str_len (a @ m)) (flat r ! k) = Some piece" "chunk_ok piece"
      "\<exists>m2. m = ck_text piece @ m2 \<and> a @ ck_text piece = concat (map ck_text (take (Suc k) (flat r)))"
    using start_piece_spec [OF assms(1,3,4) k assms(5-7)] assms(8) by blast
  then obtain m2 where "m = ck_text piece @ m2" "a @ ck_text piece = concat (map ck_text (take (Suc k) (flat r)))" by blast
  moreover have "cursor_item (rc_chunks c) = Some (Some (flat r ! k))" using cursor_at_start(3) [OF assms(1,4)] k by simp
  ultimately show ?thesis using that piece(1,2) c1 by blast
qed

text \<open>A range within the chunk the cursor is in, or at the end of the rope.\<close>

lemma short_range:
  assumes "rope_ok r" and "rope_str r = a @ m @ b" and "cursor_at rope_ops len_dim r k (rc_chunks c)"
    and "rc_offset c = str_len a" and "chunk_start r k \<le> str_len a" and "str_len a \<le> chunk_start r (Suc k)"
    and "str_len (a @ m) \<le> chunk_start r (Suc k)"
  obtains (chunk) start_chunk piece where "cursor_item (rc_chunks c) = Some (Some start_chunk)"
      and "start_piece c (str_len (a @ m)) start_chunk = Some piece" and "chunk_ok piece" and "ck_text piece = m"
  | (none) "cursor_item (rc_chunks c) = Some None" and "m = []"
proof (cases "k < length (flat r)")
  case True
  with start_piece_spec [OF assms(1-3) True assms(4-6)] assms(7) chunk cursor_at_start(3) [OF assms(1,3)] show ?thesis by auto
next
  case False
  then have "m = []" using assms(2,5) chunk_start_all [of r k] by simp
  with False none cursor_at_start(3) [OF assms(1,3)] show ?thesis by simp
qed

theorem rope_cursor_slice_ok:
  assumes "rope_ok r" and "slices_fit r" and "rope_str r = a @ m @ b" and "rope_cursor_ok r (str_len a) c"
  shows "\<exists>c' u. rope_cursor_slice c (str_len (a @ m)) = Some (c', u) \<and> rope_cursor_ok r (str_len (a @ m)) c' \<and>
    rope_ok u \<and> rope_str u = m"
proof -
  obtain k where k: "rc_rope c = r" "rc_offset c = str_len a" "cursor_at rope_ops len_dim r k (rc_chunks c)"
      "chunk_start r k \<le> str_len a" "str_len a \<le> chunk_start r (Suc k)" using assms(4) by (auto simp: rope_cursor_ok_def)
  define e where e: "e = str_len (a @ m)"
  have in_rope: "e \<le> str_len (rope_str r)" "str_len a \<le> e" and len: "rope_len r = str_len (rope_str r)"
    using assms(3) e rope_measures(2) [OF assms(1)] by simp_all
  have sh: "shallow r" using assms(2) by (simp add: slices_fit_def)
  note start = k(1,2) in_rope len cursor_at_start(2) [OF assms(1) k(3)]
  have "\<exists>c' u. rope_cursor_slice c e = Some (c', u) \<and> rope_cursor_ok r e c' \<and> rope_ok u \<and> rope_str u = m"
  proof (cases "chunk_start r (Suc k) < e")
    case False
    then have stay: "rope_cursor_ok r e (c\<lparr>rc_chunks := rc_chunks c, rc_offset := e\<rparr>)"
      using k in_rope(2) by (auto simp: rope_cursor_ok_def intro!: exI [of _ k])
    from False have "e \<le> chunk_start r (Suc k)" by simp
    then show ?thesis
    proof (cases rule: short_range [OF assms(1,3) k(3) k(2,4,5), folded e, consumes 1, case_names chunk none])
      case (chunk sc piece)
      with push_chunk_new [of piece] start False stay show ?thesis by (auto simp: rope_cursor_slice_def bind_require)
    next
      case none
      with start False stay rope_new_ok show ?thesis by (auto simp: rope_cursor_slice_def bind_require)
    qed
  next
    case True
    obtain sc piece c1 m2 where first: "cursor_item (rc_chunks c) = Some (Some sc)" "start_piece c e sc = Some piece" "chunk_ok piece"
        "m = ck_text piece @ m2" "a @ ck_text piece = concat (map ck_text (take (Suc k) (flat r)))"
        "cursor_next len_dim (rc_chunks c) = Some c1" "cursor_at rope_ops len_dim r (Suc k) c1"
      using long_range [OF assms(1) sh assms(3) k(3) k(2,4,5), folded e, OF True] by metis
    obtain s1 where s1: "push_chunk rope_new piece = Some s1" "rope_ok s1" "rope_str s1 = ck_text piece"
      using push_chunk_new [OF first(3)] by blast
    from True have "chunk_start r (Suc k) \<le> e" by simp
    from middle_spec [OF assms(1) sh first(7) this in_rope(1)] obtain c2 u k2 where
      u: "cursor_slice rope_ops len_dim (cmp e) Right c1 = Some (c2, u)" "cursor_at rope_ops len_dim r k2 c2"
        "chunk_start r k2 \<le> e" "e \<le> chunk_start r (Suc k2)" "rope_ok u"
        "concat (map ck_text (take k2 (flat r))) = concat (map ck_text (take (Suc k) (flat r))) @ rope_str u" by metis
    have "shallow u" using assms(2) first(7) u(1) by (auto simp: slices_fit_def)
    from rope_append_holds [OF s1(2) u(5) this] s1(3) obtain s2 where
      s2: "rope_append s1 u = Some s2" "rope_ok s2" "rope_str s2 = ck_text piece @ rope_str u" by (auto simp: holds_def)
    have upto: "concat (map ck_text (take k2 (flat r))) = a @ rope_str s2" using u(6) first(5) s2(3) by (metis append.assoc)
    have "rope_str r = (a @ m) @ b" using assms(3) by simp
    then show ?thesis
    proof (cases rule: end_part [OF assms(1) _ u(2), of "a @ m", folded e, OF _ u(3,4), consumes 1, case_names chunk none])
      case (chunk lc p2)
      then obtain s3 where "push_chunk s2 p2 = Some s3" "rope_ok s3" "rope_str s3 = rope_str s2 @ ck_text p2"
        using push_chunk_holds [OF s2(2)] by blast
      with start True first(1-3,6,7) s1(1) u(1-4) s2(1) chunk upto show ?thesis
        by (auto simp: rope_cursor_slice_def rope_cursor_ok_def bind_require)
    next
      case none
      with start True first(1-3,6,7) s1(1) u(1-4) s2 upto show ?thesis
        by (auto simp: rope_cursor_slice_def rope_cursor_ok_def bind_require)
    qed
  qed
  then show ?thesis by (simp only: e)
qed

section \<open>Measuring a range\<close>

interpretation whole: text_dimension text_summary_dim "\<lambda>s. s" summary_add
  by unfold_locales (simp_all add: text_summary_dim_def summary_add_assoc)

text \<open>What \<open>from_chunk\<close> promises: the measure of the chunk's text.\<close>

locale chunk_dimension = text_dimension D from_text_summary add_assign
  for D :: "(chunk_summary, 'd) dim_ops" and from_text_summary add_assign +
  fixes from_chunk :: "chunk \<Rightarrow> 'd option"
  assumes from_chunk: "chunk_ok c \<Longrightarrow> from_chunk c = Some (from_text_summary (summary_from (ck_text c)))"
begin

abbreviation measure_of :: "str \<Rightarrow> 'd" where
  "measure_of l \<equiv> from_text_summary (summary_from l)"

lemma measure_append: "add_assign (measure_of a) (measure_of b) = measure_of (a @ b)"
  by (simp add: summary_from_append from_add summary_ok_from)

lemma measure_zero: "dzero D = measure_of []"
  by (simp add: zero_eq summary_from_def summary_zero_def str_len_def)

lemma rope_measure_laws: "dimension_laws rope_ops D"
  using dimension_laws_axioms rope_chunks.summary_laws_axioms
  by (simp add: dimension_laws_def dimension_laws_axioms_def rope_ops_def text_ops_def)

text \<open>The measure of the chunks a cursor passes.\<close>

lemma middle_measure:
  assumes "rope_ok r" and "shallow r" and "cursor_at rope_ops len_dim r k c" and "chunk_start r k \<le> e" and "e \<le> str_len (rope_str r)"
  obtains c' mid k' where "cursor_summary len_dim D (cmp e) Right c = Some (c', measure_of mid)" and "cursor_at rope_ops len_dim r k' c'"
    and "chunk_start r k' \<le> e" and "e \<le> chunk_start r (Suc k')"
    and "concat (map ck_text (take k' (flat r))) = concat (map ck_text (take k (flat r))) @ mid"
proof -
  let ?j = "seek_len len_dim (cmp e) Right (chunk_start r k) (map (ssummary rope_ops) (drop k (flat r)))"
  have walk: "walkable rope_ops r" using assms by (simp add: walkable_def rope_ok_def)
  note pos = cursor_at_start(1) [OF assms(1,3)]
  have k: "k \<le> length (flat r)" using assms(3) by (simp add: cursor_at_def)
  have ready: "cursor_ready rope_ops len_dim r k c" using assms(3) by (simp add: cursor_ready_def)
  have "cmp e (cu_position c) \<noteq> Less" using assms(4) pos by (auto simp: cmp_def)
  with cursor_summary_correct [OF len_key.rope_dimension rope_measure_laws ready walk, of "cmp e" Right "k + ?j"]
    target_from [OF assms(1), of e Right k] pos obtain c' where
    c': "cursor_summary len_dim D (cmp e) Right c = Some (c', position_of rope_ops D (take ?j (drop k (flat r))))"
      "cursor_at rope_ops len_dim r (k + ?j) c'" by auto
  have "position_of rope_ops D (take ?j (drop k (flat r))) = measure_of (concat (map ck_text (take ?j (drop k (flat r)))))"
    using assms(1) rope_position_of [of "take ?j (drop k (flat r))" D] position_of_text
    by (auto simp: rope_ok_def chunks_ok_def dest!: in_set_takeD in_set_dropD)
  with c' seek_from [OF assms(1) k assms(4) refl] in_chunk_after_seek [OF assms(1) k assms(4,5) refl] show ?thesis
    by (intro that [of c' "concat (map ck_text (take ?j (drop k (flat r))))" "k + ?j"]) (simp_all add: take_add)
qed

theorem rope_cursor_summary_ok:
  assumes "rope_ok r" and "shallow r" and "rope_str r = a @ m @ b" and "rope_cursor_ok r (str_len a) c"
  shows "\<exists>c'. rope_cursor_summary D from_chunk add_assign c (str_len (a @ m)) = Some (c', measure_of m) \<and>
    rope_cursor_ok r (str_len (a @ m)) c'"
proof -
  obtain k where k: "rc_rope c = r" "rc_offset c = str_len a" "cursor_at rope_ops len_dim r k (rc_chunks c)"
      "chunk_start r k \<le> str_len a" "str_len a \<le> chunk_start r (Suc k)" using assms(4) by (auto simp: rope_cursor_ok_def)
  define e where e: "e = str_len (a @ m)"
  have in_rope: "e \<le> str_len (rope_str r)" "str_len a \<le> e" and len: "rope_len r = str_len (rope_str r)"
    using assms(3) e rope_measures(2) [OF assms(1)] by simp_all
  note start = k(1,2) in_rope len cursor_at_start(2) [OF assms(1) k(3)]
  note measure = measure_zero measure_append from_chunk
  have "\<exists>c'. rope_cursor_summary D from_chunk add_assign c e = Some (c', measure_of m) \<and> rope_cursor_ok r e c'"
  proof (cases "chunk_start r (Suc k) < e")
    case False
    then have stay: "rope_cursor_ok r e (c\<lparr>rc_chunks := rc_chunks c, rc_offset := e\<rparr>)"
      using k in_rope(2) by (auto simp: rope_cursor_ok_def intro!: exI [of _ k])
    from False have "e \<le> chunk_start r (Suc k)" by simp
    then show ?thesis
    proof (cases rule: short_range [OF assms(1,3) k(3) k(2,4,5), folded e, consumes 1, case_names chunk none])
      case (chunk sc piece)
      with start False stay show ?thesis by (auto simp: rope_cursor_summary_def bind_require measure)
    next
      case none
      with start False stay show ?thesis by (auto simp: rope_cursor_summary_def bind_require measure)
    qed
  next
    case True
    obtain sc piece c1 m2 where first: "cursor_item (rc_chunks c) = Some (Some sc)" "start_piece c e sc = Some piece" "chunk_ok piece"
        "m = ck_text piece @ m2" "a @ ck_text piece = concat (map ck_text (take (Suc k) (flat r)))"
        "cursor_next len_dim (rc_chunks c) = Some c1" "cursor_at rope_ops len_dim r (Suc k) c1"
      using long_range [OF assms(1-3) k(3) k(2,4,5), folded e, OF True] by metis
    from True have "chunk_start r (Suc k) \<le> e" by simp
    from middle_measure [OF assms(1,2) first(7) this in_rope(1)] obtain c2 mid k2 where
      u: "cursor_summary len_dim D (cmp e) Right c1 = Some (c2, measure_of mid)" "cursor_at rope_ops len_dim r k2 c2"
        "chunk_start r k2 \<le> e" "e \<le> chunk_start r (Suc k2)"
        "concat (map ck_text (take k2 (flat r))) = concat (map ck_text (take (Suc k) (flat r))) @ mid" by metis
    have upto: "concat (map ck_text (take k2 (flat r))) = a @ ck_text piece @ mid" using u(5) first(5) by (metis append.assoc)
    have "rope_str r = (a @ m) @ b" using assms(3) by simp
    then show ?thesis
    proof (cases rule: end_part [OF assms(1) _ u(2), of "a @ m", folded e, OF _ u(3,4), consumes 1, case_names chunk none])
      case (chunk lc p2)
      with upto have "m = ck_text piece @ mid @ ck_text p2" by simp
      with start True first(1-3,6,7) u(1-4) chunk(1-3) show ?thesis
        by (auto simp: rope_cursor_summary_def rope_cursor_ok_def bind_require measure)
    next
      case none
      with upto have "m = ck_text piece @ mid" by simp
      with start True first(1-3,6,7) u(1-4) none(1) show ?thesis
        by (auto simp: rope_cursor_summary_def rope_cursor_ok_def bind_require measure)
    qed
  qed
  then show ?thesis by (simp only: e)
qed

end

interpretation len_chunk: chunk_dimension len_dim ts_len "(+)" len_from_chunk
  by unfold_locales (simp add: len_from_chunk_def chunk_len_def measures)

interpretation len_utf16_chunk: chunk_dimension len_utf16_dim "\<lambda>s. OffsetUtf16 (ts_len_utf16 s)" offset_utf16_add len_utf16_from_chunk
  by unfold_locales (simp add: len_utf16_from_chunk_def chunk_len_utf16_correct measures)

interpretation lines_chunk: chunk_dimension lines_dim ts_lines point_add_assign lines_from_chunk
  by unfold_locales (simp add: lines_from_chunk_def whole_point)

interpretation lines_utf16_chunk: chunk_dimension lines_utf16_dim lines_utf16 point_utf16_add lines_utf16_from_chunk
  by unfold_locales (simp add: lines_utf16_from_chunk_def whole_point)

interpretation whole_chunk: chunk_dimension text_summary_dim "\<lambda>s. s" summary_add text_summary_from_chunk
  by unfold_locales (simp add: text_summary_from_chunk_def chunk_text_summary_correct)

lemma dimensions_chunk_dimension:
  assumes "chunk_dimension A a adda f" and "chunk_dimension B b addb g"
  shows "chunk_dimension (dimensions A B unit_dim) (\<lambda>s. (a s, b s, ()))
    (\<lambda>p q. (adda (fst p) (fst q), addb (fst (snd p)) (fst (snd q)), ())) (dimensions_from_chunk f g)"
  using assms dimensions_text_dimension [of A a adda B b addb]
  by (simp add: chunk_dimension_def chunk_dimension_axioms_def dimensions_from_chunk_def)

lemma pair_chunk_dimension:
  assumes "chunk_dimension K k addk f" and "chunk_dimension V v addv g"
  shows "chunk_dimension (pair_dim K V) (pair_from_text_summary k v) (pair_add_assign addk addv) (pair_from_chunk f g)"
  using assms pair_text_dimension [of K k addk V v addv]
  by (simp add: chunk_dimension_def chunk_dimension_axioms_def pair_from_chunk_def pair_from_text_summary_def)

section \<open>Operations on ranges\<close>

lemma rope_cursor_suffix_ok:
  assumes "rope_ok r" and "slices_fit r" and "rope_str r = a @ b" and "rope_cursor_ok r (str_len a) c"
  shows "\<exists>u. rope_cursor_suffix c = Some u \<and> rope_ok u \<and> rope_str u = b \<and> shallow u"
proof -
  have "rc_rope c = r" using assms(4) by (simp add: rope_cursor_ok_def)
  then have "extent len_dim (rc_rope c) = str_len (a @ b)"
    using rope_measures(2) [OF assms(1)] assms(3) by (simp add: rope_len_def)
  with rope_cursor_slice_ok [OF assms(1,2) _ assms(4), of b "[]"] assms(2,3,4) show ?thesis
    by (fastforce simp: rope_cursor_suffix_def slices_fit_def)
qed

theorem rope_slice_holds:
  assumes "rope_ok r" and "slices_fit r" and "rope_str r = a @ m @ b"
  shows "holds (rope_slice r (str_len a, str_len (a @ m))) m"
proof -
  have sh: "shallow r" using assms(2) by (simp add: slices_fit_def)
  obtain c where c: "rope_cursor_new r 0 = Some c" "rope_cursor_ok r 0 c" using rope_cursor_new_ok [OF assms(1) sh] by blast
  obtain c' where c': "rope_cursor_seek_forward c (str_len a) = Some c'" "rope_cursor_ok r (str_len a) c'"
    using rope_cursor_seek_forward_ok [OF assms(1) sh c(2), of "str_len a"] assms(3) by auto
  with c(1) rope_cursor_slice_ok [OF assms c'(2)] show ?thesis by (auto simp: rope_slice_def holds_def)
qed

theorem rope_replace_holds:
  assumes "rope_ok r" and "slices_fit r" and "rope_str r = a @ m @ b"
  shows "holds (rope_replace r (str_len a, str_len (a @ m)) s) (a @ s @ b)"
proof -
  have sh: "shallow r" using assms(2) by (simp add: slices_fit_def)
  obtain c where c: "rope_cursor_new r 0 = Some c" "rope_cursor_ok r (str_len []) c" using rope_cursor_new_ok [OF assms(1) sh] by force
  obtain c1 u where u: "rope_cursor_slice c (str_len a) = Some (c1, u)" "rope_cursor_ok r (str_len a) c1" "rope_ok u" "rope_str u = a"
    using rope_cursor_slice_ok [OF assms(1,2) _ c(2), of a "m @ b"] assms(3) by auto
  have "shallow u" using assms(2) c(2) u(1) by (fastforce simp: slices_fit_def)
  from rope_append_holds [OF rope_new_ok(1) u(3) this] rope_new_ok(2) u(4) obtain n1 where
    n1: "rope_append rope_new u = Some n1" "rope_ok n1" "rope_str n1 = a" by (auto simp: holds_def)
  obtain c2 where c2: "rope_cursor_seek_forward c1 (str_len (a @ m)) = Some c2" "rope_cursor_ok r (str_len (a @ m)) c2"
    using rope_cursor_seek_forward_ok [OF assms(1) sh u(2), of "str_len (a @ m)"] assms(3) by auto
  obtain n2 where n2: "rope_push n1 s = Some n2" "rope_ok n2" "rope_str n2 = a @ s"
    using rope_push_holds [OF n1(2), of s] n1(3) by (auto simp: holds_def)
  have "rope_str r = (a @ m) @ b" using assms(3) by simp
  from rope_cursor_suffix_ok [OF assms(1,2) this c2(2)] obtain v where
    v: "rope_cursor_suffix c2 = Some v" "rope_ok v" "rope_str v = b" "shallow v" by blast
  show ?thesis
    using rope_append_holds [OF n2(2) v(2,4)] c(1) u(1) n1(1) c2(1) n2(1,3) v(1,3) by (simp add: rope_replace_def)
qed

text \<open>Errors: a range that goes backwards or beyond the end panics.\<close>

lemma rope_cursor_range_errors:
  assumes "e < rc_offset c \<or> rope_len (rc_rope c) < e"
  shows "rope_cursor_slice c e = None" and "rope_cursor_summary D from_chunk add_assign c e = None" and "rope_cursor_seek_forward c e = None"
  using assms by (auto simp: rope_cursor_slice_def rope_cursor_summary_def rope_cursor_seek_forward_def bind_require)

text \<open>Rows: the start of a row is the position after its preceding newline, or the end of the rope.\<close>

lemma row_start_position:
  assumes "rope_ok r" and "rope_str r = a @ b" and "a = [] \<or> last a = newline_char"
  shows "rope_point_to_offset r (point_new (newlines_in a) 0) = Some (str_len a)"
  using rope_point_to_offset_prefix [OF assms(1,2)] prefix_point(1) [OF assms(3), of "[]"] by (simp add: point_new_def)

theorem rope_slice_rows_holds:
  assumes "rope_ok r" and "slices_fit r" and "rope_str r = a @ m @ b"
    and "a = [] \<or> last a = newline_char" and "a @ m = [] \<or> last (a @ m) = newline_char"
  shows "holds (rope_slice_rows r (newlines_in a, newlines_in (a @ m))) m"
  using row_start_position [OF assms(1), of a "m @ b"] row_start_position [OF assms(1), of "a @ m" b] rope_slice_holds [OF assms(1-3)]
    assms(3-5) by (simp add: rope_slice_rows_def)

section \<open>A rope of one chunk\<close>

text \<open>The condition on slices holds for instance when a rope has one chunk.\<close>

lemma push_chunk_new_height: "push_chunk rope_new c = Some u \<Longrightarrow> height u = 0"
  by (auto simp: push_chunk_def rope_new_def tree_new_def tree_last_def last_opt_def tree_push_def tree_append_def Let_def split: if_splits)

lemma one_chunk_slice:
  assumes "rope_ok r" and "length (flat r) \<le> 1" and c: "rope_cursor_ok r n c" and u: "rope_cursor_slice c e = Some (c', u)"
  shows "height u = 0"
proof -
  obtain k where k: "rc_rope c = r" "cursor_at rope_ops len_dim r k (rc_chunks c)" using c by (auto simp: rope_cursor_ok_def)
  have "chunk_start r (Suc k) = str_len (rope_str r)" using assms(2) by (simp add: chunk_start_all)
  then show ?thesis using u k(1) cursor_at_start(2,3) [OF assms(1) k(2)] rope_measures(2) [OF assms(1)] push_chunk_new_height
    by (auto simp: rope_cursor_slice_def bind_require rope_new_def tree_new_def bind_eq_Some_conv split: if_splits option.splits)
qed

lemma one_chunk_fits:
  assumes "rope_ok r" and "height r \<le> 12" and "length (flat r) \<le> 1"
  shows "slices_fit r"
proof -
  have sh: "shallow r" using assms(2) by (simp add: shallow_def STACK_CAPACITY_def)
  have walk: "walkable rope_ops r" using assms(1) sh by (simp add: walkable_def rope_ok_def)
  have "shallow u" if c: "cursor_at rope_ops len_dim r k c" and u: "cursor_slice rope_ops len_dim (cmp e) Right c = Some (c', u)" for k c e c' u
  proof -
    have ready: "cursor_ready rope_ops len_dim r k c" using c by (simp add: cursor_ready_def)
    show ?thesis
    proof (cases "cmp e (cu_position c) = Less")
      case True
      then show ?thesis using u by (simp add: cursor_slice_def seek_internal_def bind_require)
    next
      case False
      from cursor_at_start(1) [OF assms(1) c] target_from [OF assms(1), of e Right k] False
        dimension_laws.cursor_slice_correct [OF len_key.rope_dimension ready walk _ _ refl, of "cmp e" Right] u
      have "length (flat u) \<le> 1" using assms(3) by auto
      with dimension_laws.cursor_slice_height [OF len_key.rope_dimension ready walk _ False u] cursor_at_start(1) [OF assms(1) c]
        target_from [OF assms(1), of e Right k] assms(2) show ?thesis by (simp add: shallow_def STACK_CAPACITY_def)
    qed
  qed
  with sh one_chunk_slice [OF assms(1,3)] show ?thesis by (auto simp: slices_fit_def shallow_def STACK_CAPACITY_def)
qed

end
