(* ===== verification/Rope_Chunks.thy ===== *)
theory Rope_Chunks
  imports Rope_Cursor
begin

text \<open>
  The crate \<open>rope\<close>, file \<open>rope.rs\<close>: the iterators over the chunks, bytes and lines of a range of a rope, in
  both directions, and the comparisons with a string built on them. An operation of an iterator returns
  the iterator after the step; an outer \<open>None\<close> is a panic.
\<close>

section \<open>Chunks\<close>

record chunks_iter =
  ch_cursor :: "(chunk, chunk_summary, nat) cursor"
  ch_start :: nat
  ch_end :: nat
  ch_offset :: nat
  ch_reversed :: bool

definition chunks_new :: "rope \<Rightarrow> nat \<times> nat \<Rightarrow> bool \<Rightarrow> chunks_iter option" where
  "chunks_new r rng reversed = do {
     let offset = (if reversed then snd rng else fst rng);
     (cursor, _) \<leftarrow> cursor_seek len_dim (cmp offset) (if reversed then Left else Right) (cursor_new len_dim r);
     chunk_offset \<leftarrow> usize_sub offset (cu_position cursor);
     item \<leftarrow> cursor_item cursor;
     _ \<leftarrow> (case item of Some chunk \<Rightarrow> require (chunk_is_char_boundary chunk chunk_offset) | None \<Rightarrow> Some ());
     Some \<lparr>ch_cursor = cursor, ch_start = fst rng, ch_end = snd rng, ch_offset = offset, ch_reversed = reversed\<rparr> }"

definition offset_is_valid :: "chunks_iter \<Rightarrow> bool" where
  "offset_is_valid it =
     (if ch_reversed it then \<not> (ch_offset it \<le> ch_start it \<or> ch_end it < ch_offset it)
      else \<not> (ch_offset it < ch_start it \<or> ch_end it \<le> ch_offset it))"

text \<open>The part of the current chunk that lies ahead, relative to the start of the chunk.\<close>

definition peek_range :: "chunks_iter \<Rightarrow> (nat \<times> nat) option" where
  "peek_range it = do {
     let chunk_start = cu_position (ch_cursor it);
     if ch_reversed it then do {
       slice_start \<leftarrow> usize_sub (max chunk_start (ch_start it)) chunk_start;
       slice_end \<leftarrow> usize_sub (ch_offset it) chunk_start;
       Some (slice_start, slice_end) }
     else do {
       slice_start \<leftarrow> usize_sub (ch_offset it) chunk_start;
       chunk_end \<leftarrow> cursor_end len_dim (ch_cursor it);
       slice_end \<leftarrow> usize_sub (min chunk_end (ch_end it)) chunk_start;
       Some (slice_start, slice_end) } }"

definition chunks_peek :: "chunks_iter \<Rightarrow> str option option" where
  "chunks_peek it =
     (if \<not> offset_is_valid it then Some None
      else do {
        item \<leftarrow> cursor_item (ch_cursor it);
        case item of
          None \<Rightarrow> Some None
        | Some chunk \<Rightarrow> do {
            (i, j) \<leftarrow> peek_range it;
            piece \<leftarrow> str_slice (ck_text chunk) i j;
            Some (Some piece) } })"

record chunk_bitmaps =
  cb_text :: str
  cb_chars :: bitmap
  cb_tabs :: bitmap
  cb_newlines :: bitmap

definition peek_with_bitmaps :: "chunks_iter \<Rightarrow> chunk_bitmaps option option" where
  "peek_with_bitmaps it =
     (if \<not> offset_is_valid it then Some None
      else do {
        item \<leftarrow> cursor_item (ch_cursor it);
        case item of
          None \<Rightarrow> Some None
        | Some chunk \<Rightarrow> do {
            (i, j) \<leftarrow> peek_range it;
            piece \<leftarrow> str_slice (ck_text chunk) i j;
            shifted_tabs \<leftarrow> shr (ck_tabs chunk) i;
            shifted_chars \<leftarrow> shr (ck_chars chunk) i;
            shifted_newlines \<leftarrow> shr (ck_newlines chunk) i;
            Some (Some \<lparr>cb_text = piece, cb_chars = shifted_chars, cb_tabs = shifted_tabs, cb_newlines = shifted_newlines\<rparr>) } })"

text \<open>Moving past the piece that was read.\<close>

definition chunks_advance :: "chunks_iter \<Rightarrow> nat \<Rightarrow> chunks_iter option" where
  "chunks_advance it len =
     (if ch_reversed it then do {
        offset \<leftarrow> usize_sub (ch_offset it) len;
        cursor \<leftarrow> (if offset \<le> cu_position (ch_cursor it) then cursor_prev len_dim (ch_cursor it) else Some (ch_cursor it));
        Some (it\<lparr>ch_offset := offset, ch_cursor := cursor\<rparr>) }
      else do {
        let offset = ch_offset it + len;
        chunk_end \<leftarrow> cursor_end len_dim (ch_cursor it);
        cursor \<leftarrow> (if chunk_end \<le> offset then cursor_next len_dim (ch_cursor it) else Some (ch_cursor it));
        Some (it\<lparr>ch_offset := offset, ch_cursor := cursor\<rparr>) })"

definition chunks_next :: "chunks_iter \<Rightarrow> (chunks_iter \<times> str option) option" where
  "chunks_next it = do {
     p \<leftarrow> chunks_peek it;
     case p of
       None \<Rightarrow> Some (it, None)
     | Some chunk \<Rightarrow> do { it' \<leftarrow> chunks_advance it (str_len chunk); Some (it', Some chunk) } }"

definition chunk_bitmaps_next :: "chunks_iter \<Rightarrow> (chunks_iter \<times> chunk_bitmaps option) option" where
  "chunk_bitmaps_next it = do {
     p \<leftarrow> peek_with_bitmaps it;
     case p of
       None \<Rightarrow> Some (it, None)
     | Some bitmaps \<Rightarrow> do { it' \<leftarrow> chunks_advance it (str_len (cb_text bitmaps)); Some (it', Some bitmaps) } }"

definition chunks_seek :: "chunks_iter \<Rightarrow> nat \<Rightarrow> chunks_iter option" where
  "chunks_seek it offset = do {
     _ \<leftarrow> require (ch_start it \<le> ch_end it);
     let offset = max (ch_start it) (min offset (ch_end it));
     chunk_end \<leftarrow> cursor_end len_dim (ch_cursor it);
     cursor \<leftarrow>
       (if ch_reversed it then
          if chunk_end < offset then map_option fst (cursor_seek_forward len_dim (cmp offset) Left (ch_cursor it))
          else if offset \<le> cu_position (ch_cursor it) then map_option fst (cursor_seek len_dim (cmp offset) Left (ch_cursor it))
          else Some (ch_cursor it)
        else
          if chunk_end \<le> offset then map_option fst (cursor_seek_forward len_dim (cmp offset) Right (ch_cursor it))
          else if offset < cu_position (ch_cursor it) then map_option fst (cursor_seek len_dim (cmp offset) Right (ch_cursor it))
          else Some (ch_cursor it));
     Some (it\<lparr>ch_cursor := cursor, ch_offset := offset\<rparr>) }"

definition chunks_set_range :: "chunks_iter \<Rightarrow> nat \<times> nat \<Rightarrow> chunks_iter option" where
  "chunks_set_range it rng = chunks_seek (it\<lparr>ch_start := fst rng, ch_end := snd rng\<rparr>) (fst rng)"

text \<open>A loop over the iterator, which ends when it yields nothing.\<close>

partial_function (option) chunks_collect :: "chunks_iter \<Rightarrow> str list option" where
  "chunks_collect it = do {
     (it', p) \<leftarrow> chunks_next it;
     case p of
       None \<Rightarrow> Some []
     | Some chunk \<Rightarrow> do { rest \<leftarrow> chunks_collect it'; Some (chunk # rest) } }"

declare chunks_collect.simps [code]

definition rope_chunks_in_range :: "rope \<Rightarrow> nat \<times> nat \<Rightarrow> chunks_iter option" where
  "rope_chunks_in_range r rng = chunks_new r rng False"

definition rope_reversed_chunks_in_range :: "rope \<Rightarrow> nat \<times> nat \<Rightarrow> chunks_iter option" where
  "rope_reversed_chunks_in_range r rng = chunks_new r rng True"

definition rope_all_chunks :: "rope \<Rightarrow> chunks_iter option" where
  "rope_all_chunks r = rope_chunks_in_range r (0, rope_len r)"

text \<open>The characters from an offset on, and those before it in reverse.\<close>

definition rope_chars_at :: "rope \<Rightarrow> nat \<Rightarrow> str option" where
  "rope_chars_at r start_offset = do {
     it \<leftarrow> rope_chunks_in_range r (start_offset, rope_len r);
     pieces \<leftarrow> chunks_collect it;
     Some (concat pieces) }"

definition rope_chars :: "rope \<Rightarrow> str option" where
  "rope_chars r = rope_chars_at r 0"

definition rope_reversed_chars_at :: "rope \<Rightarrow> nat \<Rightarrow> str option" where
  "rope_reversed_chars_at r start_offset = do {
     it \<leftarrow> rope_reversed_chunks_in_range r (0, start_offset);
     pieces \<leftarrow> chunks_collect it;
     Some (concat (map rev pieces)) }"

section \<open>Comparing with a string\<close>

definition str_starts_with :: "str \<Rightarrow> str \<Rightarrow> bool" where
  "str_starts_with cs p \<longleftrightarrow> take (length p) cs = p"

definition str_ends_with :: "str \<Rightarrow> str \<Rightarrow> bool" where
  "str_ends_with cs p \<longleftrightarrow> str_starts_with (rev cs) (rev p)"

text \<open>\<open>str::get\<close> of a range: nothing if the range is not valid.\<close>

partial_function (option) starts_with_loop :: "chunks_iter \<Rightarrow> str \<Rightarrow> bool option" where
  "starts_with_loop it remaining = do {
     (it', p) \<leftarrow> chunks_next it;
     case p of
       None \<Rightarrow> Some (remaining = [])
     | Some chunk \<Rightarrow>
         (case str_slice chunk 0 (min (str_len remaining) (str_len chunk)) of
            None \<Rightarrow> Some False
          | Some chunk \<Rightarrow>
              if str_starts_with remaining chunk then
                (let remaining = drop (length chunk) remaining
                 in if remaining = [] then Some True else starts_with_loop it' remaining)
              else Some False) }"

declare starts_with_loop.simps [code]

definition rope_starts_with :: "rope \<Rightarrow> str \<Rightarrow> bool option" where
  "rope_starts_with r pat =
     (if rope_len r < str_len pat then Some False
      else do { it \<leftarrow> rope_chunks_in_range r (0, rope_len r); starts_with_loop it pat })"

partial_function (option) ends_with_loop :: "chunks_iter \<Rightarrow> str \<Rightarrow> bool option" where
  "ends_with_loop it remaining = do {
     (it', p) \<leftarrow> chunks_next it;
     case p of
       None \<Rightarrow> Some (remaining = [])
     | Some chunk \<Rightarrow>
         (case str_slice chunk (str_len chunk - min (str_len remaining) (str_len chunk)) (str_len chunk) of
            None \<Rightarrow> Some False
          | Some chunk \<Rightarrow>
              if str_ends_with remaining chunk then
                (let remaining = take (length remaining - length chunk) remaining
                 in if remaining = [] then Some True else ends_with_loop it' remaining)
              else Some False) }"

declare ends_with_loop.simps [code]

definition rope_ends_with :: "rope \<Rightarrow> str \<Rightarrow> bool option" where
  "rope_ends_with r pat =
     (if rope_len r < str_len pat then Some False
      else do { it \<leftarrow> rope_reversed_chunks_in_range r (0, rope_len r); ends_with_loop it pat })"

text \<open>\<open>equals_str\<close>: the pieces ahead, one after the other, against a string.\<close>

partial_function (option) equals_forward_loop :: "chunks_iter \<Rightarrow> str \<Rightarrow> nat \<Rightarrow> bool option" where
  "equals_forward_loop it other offset = do {
     (it', p) \<leftarrow> chunks_next it;
     case p of
       None \<Rightarrow> Some (offset = str_len other)
     | Some chunk \<Rightarrow>
         if str_len other \<le> offset then Some False
         else do {
           rest \<leftarrow> str_slice other offset (str_len other);
           if str_starts_with rest chunk then equals_forward_loop it' other (offset + str_len chunk) else Some False } }"

declare equals_forward_loop.simps [code]

partial_function (option) equals_backward_loop :: "chunks_iter \<Rightarrow> str \<Rightarrow> nat \<Rightarrow> bool option" where
  "equals_backward_loop it other offset = do {
     (it', p) \<leftarrow> chunks_next it;
     case p of
       None \<Rightarrow> Some (offset = 0)
     | Some chunk \<Rightarrow> do {
         rest \<leftarrow> str_slice other 0 offset;
         if str_ends_with rest chunk
         then do { offset \<leftarrow> usize_sub offset (str_len chunk); equals_backward_loop it' other offset }
         else Some False } }"

declare equals_backward_loop.simps [code]

definition equals_str :: "chunks_iter \<Rightarrow> str \<Rightarrow> bool option" where
  "equals_str it other =
     (if ch_reversed it then equals_backward_loop it other (str_len other) else equals_forward_loop it other 0)"

section \<open>Moving by lines\<close>

definition str_find_newline :: "str \<Rightarrow> nat option" where
  "str_find_newline cs =
     (if newline_char \<in> set cs then Some (str_len (takeWhile (\<lambda>c. c \<noteq> newline_char) cs)) else None)"

definition str_rfind_newline :: "str \<Rightarrow> nat option" where
  "str_rfind_newline cs =
     (if newline_char \<in> set cs then Some (str_len (rev (tl (dropWhile (\<lambda>c. c \<noteq> newline_char) (rev cs))))) else None)"

definition has_row :: "chunk_summary \<Rightarrow> bool" where
  "has_row s \<longleftrightarrow> 0 < row (ts_lines (chunk_text s))"

definition chunks_next_line :: "chunks_iter \<Rightarrow> (chunks_iter \<times> bool) option" where
  "chunks_next_line it = do {
     _ \<leftarrow> require (\<not> ch_reversed it);
     p \<leftarrow> chunks_peek it;
     (it, found) \<leftarrow>
       (case p of
          None \<Rightarrow> Some (it, False)
        | Some chunk \<Rightarrow> do {
            (it, found) \<leftarrow>
              (case str_find_newline chunk of
                 Some newline_ix \<Rightarrow>
                   (let offset = ch_offset it + newline_ix + 1 in Some (it\<lparr>ch_offset := offset\<rparr>, offset \<le> ch_end it))
               | None \<Rightarrow> do {
                   cursor \<leftarrow> search_forward len_dim has_row (ch_cursor it);
                   let it = it\<lparr>ch_cursor := cursor, ch_offset := cu_position cursor\<rparr>;
                   p \<leftarrow> chunks_peek it;
                   case p \<bind> str_find_newline of
                     Some newline_ix \<Rightarrow>
                       (let offset = ch_offset it + newline_ix + 1 in Some (it\<lparr>ch_offset := offset\<rparr>, offset \<le> ch_end it))
                   | None \<Rightarrow> do {
                       chunk_end \<leftarrow> cursor_end len_dim (ch_cursor it);
                       Some (it\<lparr>ch_offset := chunk_end\<rparr>, False) } });
            chunk_end \<leftarrow> cursor_end len_dim (ch_cursor it);
            it \<leftarrow> (if ch_offset it = chunk_end then map_option fst (chunks_next it) else Some it);
            Some (it, found) });
     it \<leftarrow>
       (if ch_end it < ch_offset it then do {
          let offset = min (ch_offset it) (ch_end it);
          (cursor, _) \<leftarrow> cursor_seek len_dim (cmp offset) Right (ch_cursor it);
          Some (it\<lparr>ch_offset := offset, ch_cursor := cursor\<rparr>) }
        else Some it);
     Some (it, found) }"

text \<open>The two searches of \<open>prev_line\<close>: in the chunk before the offset, and in the chunks before it.\<close>

definition prev_line_in_chunk :: "chunks_iter \<Rightarrow> chunk \<Rightarrow> (chunks_iter \<times> bool) option" where
  "prev_line_in_chunk it chunk = do {
     end_ix \<leftarrow> usize_sub (ch_offset it) (cu_position (ch_cursor it));
     last_ix \<leftarrow> usize_sub end_ix 1;
     last_byte \<leftarrow> (if last_ix < str_len (ck_text chunk) then Some (as_bytes (ck_text chunk) ! last_ix) else None);
     let end_ix = (if last_byte = 10 then last_ix else end_ix);
     before \<leftarrow> str_slice (ck_text chunk) 0 end_ix;
     Some (case str_rfind_newline before of
         None \<Rightarrow> (it, False)
       | Some newline_ix \<Rightarrow>
           (let it = it\<lparr>ch_offset := cu_position (ch_cursor it) + newline_ix + 1\<rparr> in (it, offset_is_valid it))) }"

definition prev_line_before :: "chunks_iter \<Rightarrow> (chunks_iter \<times> bool) option" where
  "prev_line_before it = do {
     cursor \<leftarrow> search_backward len_dim has_row (ch_cursor it);
     let it = it\<lparr>ch_cursor := cursor, ch_offset := cu_position cursor\<rparr>;
     item \<leftarrow> cursor_item cursor;
     case item \<bind> (\<lambda>chunk. str_rfind_newline (ck_text chunk)) of
       None \<Rightarrow> Some (it, False)
     | Some newline_ix \<Rightarrow> do {
         let it = it\<lparr>ch_offset := ch_offset it + newline_ix + 1\<rparr>;
         if offset_is_valid it then do {
           chunk_end \<leftarrow> cursor_end len_dim cursor;
           cursor \<leftarrow> (if ch_offset it = chunk_end then cursor_next len_dim cursor else Some cursor);
           Some (it\<lparr>ch_cursor := cursor\<rparr>, True) }
         else Some (it, False) } }"

definition chunks_prev_line :: "chunks_iter \<Rightarrow> (chunks_iter \<times> bool) option" where
  "chunks_prev_line it = do {
     _ \<leftarrow> require (\<not> ch_reversed it);
     let initial_offset = ch_offset it;
     cursor \<leftarrow> (if ch_offset it = cu_position (ch_cursor it) then cursor_prev len_dim (ch_cursor it) else Some (ch_cursor it));
     let it = it\<lparr>ch_cursor := cursor\<rparr>;
     item \<leftarrow> cursor_item cursor;
     (it, found) \<leftarrow> (case item of None \<Rightarrow> Some (it, False) | Some chunk \<Rightarrow> prev_line_in_chunk it chunk);
     if found then Some (it, True)
     else do {
       (it, found) \<leftarrow> prev_line_before it;
       if found then Some (it, True)
       else do {
         item \<leftarrow> cursor_item (ch_cursor it);
         it \<leftarrow>
           (if \<not> offset_is_valid it \<or> item = None then do {
              (cursor, _) \<leftarrow> cursor_seek len_dim (cmp (ch_start it)) Right (ch_cursor it);
              Some (it\<lparr>ch_offset := ch_start it, ch_cursor := cursor\<rparr>) }
            else Some it);
         Some (it, ch_offset it < initial_offset \<and> ch_offset it = 0) } } }"

section \<open>Lines\<close>

record lines_iter =
  li_chunks :: chunks_iter
  li_current_line :: str
  li_done :: bool
  li_reversed :: bool

definition chunks_lines :: "chunks_iter \<Rightarrow> lines_iter" where
  "chunks_lines it = \<lparr>li_chunks = it, li_current_line = [], li_done = False, li_reversed = ch_reversed it\<rparr>"

partial_function (option) lines_loop :: "lines_iter \<Rightarrow> (lines_iter \<times> str) option" where
  "lines_loop it = do {
     p \<leftarrow> chunks_peek (li_chunks it);
     case p of
       None \<Rightarrow> Some (it\<lparr>li_done := True\<rparr>, li_current_line it)
     | Some chunk \<Rightarrow>
         if li_reversed it then do {
           let chunk_line = last (split_lines chunk);
           if 1 < length (split_lines chunk) then do {
             i \<leftarrow> usize_sub (ch_offset (li_chunks it)) (str_len chunk_line);
             j \<leftarrow> usize_sub i 1;
             chunks \<leftarrow> chunks_seek (li_chunks it) j;
             if li_current_line it = [] then Some (it\<lparr>li_chunks := chunks\<rparr>, chunk_line)
             else Some (it\<lparr>li_chunks := chunks, li_current_line := chunk_line @ li_current_line it\<rparr>,
                        chunk_line @ li_current_line it) }
           else do {
             (chunks, _) \<leftarrow> chunks_next (li_chunks it);
             lines_loop (it\<lparr>li_current_line := chunk_line @ li_current_line it, li_chunks := chunks\<rparr>) } }
         else do {
           let chunk_line = hd (split_lines chunk);
           if 1 < length (split_lines chunk) then do {
             chunks \<leftarrow> chunks_seek (li_chunks it) (ch_offset (li_chunks it) + str_len chunk_line + 1);
             if li_current_line it = [] then Some (it\<lparr>li_chunks := chunks\<rparr>, chunk_line)
             else Some (it\<lparr>li_chunks := chunks, li_current_line := li_current_line it @ chunk_line\<rparr>,
                        li_current_line it @ chunk_line) }
           else do {
             (chunks, _) \<leftarrow> chunks_next (li_chunks it);
             lines_loop (it\<lparr>li_current_line := li_current_line it @ chunk_line, li_chunks := chunks\<rparr>) } } }"

declare lines_loop.simps [code]

definition lines_next :: "lines_iter \<Rightarrow> (lines_iter \<times> str option) option" where
  "lines_next it =
     (if li_done it then Some (it, None)
      else do { (it', line) \<leftarrow> lines_loop (it\<lparr>li_current_line := []\<rparr>); Some (it', Some line) })"

definition lines_seek :: "lines_iter \<Rightarrow> nat \<Rightarrow> lines_iter option" where
  "lines_seek it offset = do {
     chunks \<leftarrow> chunks_seek (li_chunks it) offset;
     Some (it\<lparr>li_chunks := chunks, li_current_line := [], li_done := False\<rparr>) }"

partial_function (option) lines_collect :: "lines_iter \<Rightarrow> str list option" where
  "lines_collect it = do {
     (it', p) \<leftarrow> lines_next it;
     case p of
       None \<Rightarrow> Some []
     | Some line \<Rightarrow> do { rest \<leftarrow> lines_collect it'; Some (line # rest) } }"

declare lines_collect.simps [code]

section \<open>Bytes\<close>

record bytes_iter =
  by_cursor :: "(chunk, chunk_summary, nat) cursor"
  by_start :: nat
  by_end :: nat
  by_reversed :: bool

definition bytes_new :: "rope \<Rightarrow> nat \<times> nat \<Rightarrow> bool \<Rightarrow> bytes_iter option" where
  "bytes_new r rng reversed = do {
     (cursor, _) \<leftarrow>
       (if reversed then cursor_seek len_dim (cmp (snd rng)) Left (cursor_new len_dim r)
        else cursor_seek len_dim (cmp (fst rng)) Right (cursor_new len_dim r));
     Some \<lparr>by_cursor = cursor, by_start = fst rng, by_end = snd rng, by_reversed = reversed\<rparr> }"

definition bytes_peek :: "bytes_iter \<Rightarrow> nat list option option" where
  "bytes_peek it = do {
     item \<leftarrow> cursor_item (by_cursor it);
     case item of
       None \<Rightarrow> Some None
     | Some chunk \<Rightarrow> do {
         chunk_end \<leftarrow> cursor_end len_dim (by_cursor it);
         if by_reversed it \<and> chunk_end \<le> by_start it then Some None
         else do {
           let chunk_start = cu_position (by_cursor it);
           if by_end it \<le> chunk_start then Some None
           else do {
             let i = by_start it - chunk_start;
             j \<leftarrow> usize_sub (by_end it) chunk_start;
             let j = min (str_len (ck_text chunk)) j;
             _ \<leftarrow> require (i \<le> j);
             Some (Some (take (j - i) (drop i (as_bytes (ck_text chunk))))) } } } }"

definition bytes_step :: "bytes_iter \<Rightarrow> bytes_iter option" where
  "bytes_step it = do {
     cursor \<leftarrow> (if by_reversed it then cursor_prev len_dim (by_cursor it) else cursor_next len_dim (by_cursor it));
     Some (it\<lparr>by_cursor := cursor\<rparr>) }"

definition bytes_next :: "bytes_iter \<Rightarrow> (bytes_iter \<times> nat list option) option" where
  "bytes_next it = do {
     p \<leftarrow> bytes_peek it;
     case p of
       None \<Rightarrow> Some (it, None)
     | Some bytes \<Rightarrow> do { it' \<leftarrow> bytes_step it; Some (it', Some bytes) } }"

text \<open>\<open>io::Read\<close>: the bytes that fit into a buffer of the given size.\<close>

definition bytes_read :: "bytes_iter \<Rightarrow> nat \<Rightarrow> (bytes_iter \<times> nat list) option" where
  "bytes_read it buf_len = do {
     p \<leftarrow> bytes_peek it;
     case p of
       None \<Rightarrow> Some (it, [])
     | Some chunk \<Rightarrow> do {
         let len = min buf_len (length chunk);
         (it, buf) \<leftarrow>
           (if by_reversed it then do {
              e \<leftarrow> usize_sub (by_end it) len;
              Some (it\<lparr>by_end := e\<rparr>, rev (drop (length chunk - len) chunk)) }
            else Some (it\<lparr>by_start := by_start it + len\<rparr>, take len chunk));
         it \<leftarrow> (if len = length chunk then bytes_step it else Some it);
         Some (it, buf) } }"

section \<open>Walking forwards\<close>

text \<open>The part of a range that lies in one chunk.\<close>

lemma chunk_part:
  assumes "rope_ok r" and "rope_str r = a @ m @ b" and "k < length (flat r)"
    and "chunk_start r k \<le> str_len a" and "str_len a \<le> chunk_start r (Suc k)"
  obtains a1 p m1 u where "ck_text (flat r ! k) = a1 @ p @ u" and "m = p @ m1" and "str_len a = chunk_start r k + str_len a1"
    and "min (chunk_start r (Suc k)) (str_len (a @ m)) = str_len (a @ p)" and "m1 = [] \<or> u = []"
    and "chunk_start r (Suc k) = str_len (a @ p @ u)"
proof -
  obtain x q where x: "rope_str r = x @ ck_text (flat r ! k) @ q" "str_len x = chunk_start r k"
      "str_len (x @ ck_text (flat r ! k)) = chunk_start r (Suc k)"
    using chunk_at [OF assms(1,3)] by blast
  have "x @ (ck_text (flat r ! k) @ q) = a @ (m @ b)" using assms(2) x(1) by simp
  then obtain a1 where a1: "a = x @ a1" "ck_text (flat r ! k) @ q = a1 @ m @ b"
    using prefix_by_len assms(4) x(2) by metis
  have "str_len a1 \<le> str_len (ck_text (flat r ! k))" using a1(1) x(2,3) assms(5) by simp
  with a1(2) obtain c1 where c1: "ck_text (flat r ! k) = a1 @ c1" "m @ b = c1 @ q" using prefix_by_len [of a1 "m @ b"] by metis
  show ?thesis
  proof (cases "str_len c1 \<le> str_len m")
    case True
    with c1(2) obtain m1 where "m = c1 @ m1" using prefix_by_len [of c1 q m b] by metis
    with that [of a1 c1 "[]" m1] a1(1) c1(1) x(2,3) show ?thesis by simp
  next
    case False
    with c1(2) obtain u where "c1 = m @ u" using prefix_by_len [of m b c1 q] by (metis nat_le_linear)
    with that [of a1 m u "[]"] a1(1) c1(1) x(2,3) show ?thesis by simp
  qed
qed

definition forward_at :: "rope \<Rightarrow> str \<Rightarrow> str \<Rightarrow> chunks_iter \<Rightarrow> bool" where
  "forward_at r a m it \<longleftrightarrow> \<not> ch_reversed it \<and> ch_offset it = str_len a \<and> ch_end it = str_len (a @ m) \<and>
     ch_start it \<le> str_len a \<and> (\<exists>b. rope_str r = a @ m @ b) \<and>
     (\<exists>k. cursor_at rope_ops len_dim r k (ch_cursor it) \<and> chunk_start r k \<le> str_len a \<and>
        (k < length (flat r) \<longrightarrow> str_len a < chunk_start r (Suc k)))"

lemma chunk_start_step: "k < length (flat r) \<Longrightarrow> chunk_start r (Suc k) = chunk_start r k + str_len (ck_text (flat r ! k))"
  by (simp add: chunk_start_def take_Suc_conv_app_nth)

lemma chunk_nonempty: "rope_ok r \<Longrightarrow> k < length (flat r) \<Longrightarrow> ck_text (flat r ! k) \<noteq> []"
  by (auto simp: rope_ok_def chunks_ok_def)

theorem forward_step:
  assumes "rope_ok r" and "shallow r" and "forward_at r a m it" and "m \<noteq> []"
  obtains p m1 it' where "m = p @ m1" and "p \<noteq> []" and "chunks_peek it = Some (Some p)"
    and "chunks_advance it (str_len p) = Some it'" and "forward_at r (a @ p) m1 it'"
proof -
  obtain b k where it: "\<not> ch_reversed it" "ch_offset it = str_len a" "ch_end it = str_len (a @ m)" "ch_start it \<le> str_len a"
      "rope_str r = a @ m @ b" "cursor_at rope_ops len_dim r k (ch_cursor it)" "chunk_start r k \<le> str_len a"
      "k < length (flat r) \<longrightarrow> str_len a < chunk_start r (Suc k)" using assms(3) by (auto simp: forward_at_def)
  have k: "k < length (flat r)"
  proof (rule ccontr)
    assume "\<not> ?thesis"
    then show False using it(5,7) assms(4) chunk_start_all [of r k] by simp
  qed
  have walk: "walkable rope_ops r" using assms(1,2) by (simp add: walkable_def rope_ok_def)
  note at = cursor_at_start [OF assms(1) it(6)]
  have "str_len a \<le> chunk_start r (Suc k)" using it(8) k by simp
  from chunk_part [OF assms(1) it(5) k it(7) this] obtain a1 p m1 u where
    part: "ck_text (flat r ! k) = a1 @ p @ u" "m = p @ m1" "str_len a = chunk_start r k + str_len a1"
      "min (chunk_start r (Suc k)) (str_len (a @ m)) = str_len (a @ p)" "m1 = [] \<or> u = []" "chunk_start r (Suc k) = str_len (a @ p @ u)" by metis
  have p: "p \<noteq> []" using part(2,5,6) it(8) k assms(4) by auto
  have "min (chunk_start r (Suc k)) (str_len (a @ m)) - chunk_start r k = str_len a1 + str_len p"
    and "chunk_start r k \<le> min (chunk_start r (Suc k)) (str_len (a @ m))" using part(3,4) by simp_all
  then have peek: "chunks_peek it = Some (Some p)"
    using it(1-4) at k part(1,3) assms(4) str_slice_append [of a1 p u]
    by (simp add: chunks_peek_def offset_is_valid_def peek_range_def usize_sub_def Let_def del: min_le_iff_disj min.bounded_iff)
  show ?thesis
  proof (cases "u = []")
    case True
    have "forward_start rope_ops len_dim r (Suc k) (ch_cursor it)" using it(6) k by (auto simp: forward_start_def)
    with dimension_laws.cursor_next_correct [OF len_key.rope_dimension _ walk] obtain c1 where
      c1: "cursor_next len_dim (ch_cursor it) = Some c1" "cursor_at rope_ops len_dim r (Suc k) c1" by blast
    have "Suc k < length (flat r) \<longrightarrow> str_len (a @ p) < chunk_start r (Suc (Suc k))"
      using chunk_start_step [of "Suc k" r] chunk_nonempty [OF assms(1), of "Suc k"] part(6) True by auto
    then have "forward_at r (a @ p) m1 (it\<lparr>ch_offset := str_len a + str_len p, ch_cursor := c1\<rparr>)"
      using it(1,3,4,5) part(2,6) True c1(2) by (auto simp: forward_at_def intro!: exI [of _ "Suc k"])
    with that part(2) p peek show ?thesis
      using it(1,2) at(2) part(6) True c1(1) by (simp add: chunks_advance_def)
  next
    case False
    then have "forward_at r (a @ p) m1 (it\<lparr>ch_offset := str_len a + str_len p, ch_cursor := ch_cursor it\<rparr>)"
      using it part(2,5,6) k by (auto simp: forward_at_def intro!: exI [of _ k])
    with that part(2) p peek show ?thesis
      using it(1,2) at(2) part(6) False by (simp add: chunks_advance_def)
  qed
qed

lemma forward_end: "forward_at r a [] it \<Longrightarrow> chunks_peek it = Some None"
  by (auto simp: forward_at_def chunks_peek_def offset_is_valid_def)

theorem forward_collect:
  assumes "rope_ok r" and "shallow r" and "forward_at r a m it"
  shows "\<exists>ps. chunks_collect it = Some ps \<and> concat ps = m \<and> [] \<notin> set ps"
  using assms(3)
proof (induction "length m" arbitrary: a m it rule: less_induct)
  case less
  show ?case
  proof (cases "m = []")
    case True
    with less.prems forward_end show ?thesis by (subst chunks_collect.simps) (simp add: chunks_next_def)
  next
    case False
    from forward_step [OF assms(1,2) less.prems False] obtain p m1 it' where
      step: "m = p @ m1" "p \<noteq> []" "chunks_peek it = Some (Some p)" "chunks_advance it (str_len p) = Some it'"
        "forward_at r (a @ p) m1 it'" by metis
    have "length m1 < length m" using step(1,2) by simp
    from less.hyps [OF this step(5)] obtain ps where "chunks_collect it' = Some ps" "concat ps = m1" "[] \<notin> set ps" by blast
    with step show ?thesis by (subst chunks_collect.simps) (simp add: chunks_next_def)
  qed
qed

section \<open>Seeking\<close>

text \<open>The chunk that a seek with a bias ends up in.\<close>

definition in_chunk :: "bias \<Rightarrow> rope \<Rightarrow> nat \<Rightarrow> nat \<Rightarrow> bool" where
  "in_chunk b r n k \<longleftrightarrow>
     (if b = Right then chunk_start r k \<le> n \<and> (k < length (flat r) \<longrightarrow> n < chunk_start r (Suc k))
      else (k = 0 \<or> chunk_start r k < n) \<and> n \<le> chunk_start r (Suc k))"

lemma seek_in_chunk:
  assumes "rope_ok r" and "n \<le> str_len (rope_str r)" and "k \<le> length (flat r)" and "k = 0 \<or> beyond b n (chunk_start r k)"
    and "j = seek_len len_dim (cmp n) b (chunk_start r k) (map (ssummary rope_ops) (drop k (flat r)))"
  shows "in_chunk b r n (k + j)"
proof (cases "k + j < length (flat r)")
  case True
  with seek_from_bias [OF assms(1,3,5)] assms(4) show ?thesis by (cases b) (auto simp: in_chunk_def beyond_def)
next
  case False
  then have "chunk_start r (Suc (k + j)) = str_len (rope_str r)" by (simp add: chunk_start_all)
  with seek_from_bias(2) [OF assms(1,3,5)] assms(2,4) False show ?thesis by (cases b) (auto simp: in_chunk_def beyond_def)
qed

lemma seek_at:
  assumes "rope_ok r" and "shallow r" and "n \<le> str_len (rope_str r)" and "cu_tree c = r"
  obtains c' found k where "cursor_seek len_dim (cmp n) b c = Some (c', found)" and "cursor_at rope_ops len_dim r k c'"
    and "in_chunk b r n k"
proof -
  let ?j = "seek_len len_dim (cmp n) b (chunk_start r 0) (map (ssummary rope_ops) (drop 0 (flat r)))"
  have walk: "walkable rope_ops r" using assms by (simp add: walkable_def rope_ok_def)
  have "cmp n (dzero len_dim) \<noteq> Less" by (simp add: len_dim_def cmp_def)
  with dimension_laws.cursor_seek_correct [OF len_key.rope_dimension assms(4) walk, of "cmp n" b ?j] target_from [OF assms(1), of n b 0]
  obtain c' found where "cursor_seek len_dim (cmp n) b c = Some (c', found)" "cursor_at rope_ops len_dim r ?j c'"
    by (auto simp: len_dim_def)
  with that [of c' found ?j] seek_in_chunk [OF assms(1,3), of 0 b ?j] show ?thesis by simp
qed

lemma seek_forward_at:
  assumes "rope_ok r" and "shallow r" and "n \<le> str_len (rope_str r)" and "cursor_at rope_ops len_dim r k c"
    and "beyond b n (chunk_start r k)"
  obtains c' found k' where "cursor_seek_forward len_dim (cmp n) b c = Some (c', found)" and "cursor_at rope_ops len_dim r k' c'"
    and "in_chunk b r n k'"
proof -
  let ?j = "seek_len len_dim (cmp n) b (chunk_start r k) (map (ssummary rope_ops) (drop k (flat r)))"
  have walk: "walkable rope_ops r" using assms by (simp add: walkable_def rope_ok_def)
  note pos = cursor_at_start(1) [OF assms(1,4)]
  have k: "k \<le> length (flat r)" using assms(4) by (simp add: cursor_at_def)
  have "cursor_ready rope_ops len_dim r k c" using assms(4) by (simp add: cursor_ready_def)
  moreover have "cmp n (cu_position c) \<noteq> Less" using assms(5) pos by (auto simp: cmp_def beyond_def split: if_splits)
  ultimately obtain c' found where "cursor_seek_forward len_dim (cmp n) b c = Some (c', found)"
      "cursor_at rope_ops len_dim r (k + ?j) c'"
    using dimension_laws.cursor_seek_forward_correct [OF len_key.rope_dimension _ walk, of k c "cmp n" b "k + ?j"]
      target_from [OF assms(1), of n b k] pos by auto
  with that [of c' found "k + ?j"] seek_in_chunk [OF assms(1,3) k, of b ?j] assms(5) show ?thesis by simp
qed

lemma chunk_start_mono: "k \<le> k' \<Longrightarrow> chunk_start r k \<le> chunk_start r k'"
  unfolding chunk_start_def by (metis le_add1 le_Suc_ex map_append concat_append str_len_simps(3) take_add)

text \<open>The three ways in which \<open>seek\<close> moves its cursor lead to the same chunk.\<close>

lemma chunks_seek_at:
  assumes "rope_ok r" and "shallow r" and "n \<le> str_len (rope_str r)" and "cursor_at rope_ops len_dim r k (ch_cursor it)"
    and "ch_start it \<le> n" and "n \<le> ch_end it" and b: "b = (if ch_reversed it then Left else Right)"
  obtains c k' where "chunks_seek it n = Some (it\<lparr>ch_cursor := c, ch_offset := n\<rparr>)" and "cursor_at rope_ops len_dim r k' c"
    and "in_chunk b r n k'"
proof -
  note at = cursor_at_start [OF assms(1,4)]
  have tree: "cu_tree (ch_cursor it) = r" using assms(4) by (simp add: cursor_at_def)
  have "chunk_start r k \<le> chunk_start r (Suc k)" by (rule chunk_start_mono) simp
  then consider (forward) "beyond b n (chunk_start r (Suc k))" "beyond b n (chunk_start r k)"
    | (restart) "\<not> beyond b n (chunk_start r (Suc k))" "\<not> beyond b n (chunk_start r k)"
    | (stay) "\<not> beyond b n (chunk_start r (Suc k))" "beyond b n (chunk_start r k)"
    using beyond_trans by blast
  then show ?thesis
  proof cases
    case forward
    from seek_forward_at [OF assms(1-4) forward(2)] obtain c found k' where
      "cursor_seek_forward len_dim (cmp n) b (ch_cursor it) = Some (c, found)" "cursor_at rope_ops len_dim r k' c" "in_chunk b r n k'" by metis
    with that forward(1) at assms(5,6) b show ?thesis
      by (simp add: chunks_seek_def bind_require beyond_def split: if_splits)
  next
    case restart
    from seek_at [OF assms(1-3) tree] obtain c found k' where
      "cursor_seek len_dim (cmp n) b (ch_cursor it) = Some (c, found)" "cursor_at rope_ops len_dim r k' c" "in_chunk b r n k'" by metis
    with that restart at assms(5,6) b show ?thesis
      by (simp add: chunks_seek_def bind_require beyond_def split: if_splits)
  next
    case stay
    then have "in_chunk b r n k" using b by (simp add: in_chunk_def beyond_def split: if_splits)
    with that [of "ch_cursor it" k] stay at assms(4-6) b show ?thesis
      by (simp add: chunks_seek_def bind_require beyond_def split: if_splits)
  qed
qed

section \<open>Walking backwards\<close>

lemma back_part:
  assumes "rope_ok r" and "rope_str r = a @ m @ b" and "k < length (flat r)"
    and "chunk_start r k < str_len (a @ m)" and "str_len (a @ m) \<le> chunk_start r (Suc k)" and "m \<noteq> []"
  obtains m1 p u v where "ck_text (flat r ! k) = u @ p @ v" and "m = m1 @ p" and "p \<noteq> []" and "m1 = [] \<or> u = []"
    and "str_len (a @ m1) = chunk_start r k + str_len u" and "max (chunk_start r k) (str_len a) = chunk_start r k + str_len u"
proof -
  obtain x q where x: "rope_str r = x @ ck_text (flat r ! k) @ q" "str_len x = chunk_start r k"
      "str_len (x @ ck_text (flat r ! k)) = chunk_start r (Suc k)"
    using chunk_at [OF assms(1,3)] by blast
  have "x @ (ck_text (flat r ! k) @ q) = (a @ m) @ b" using assms(2) x(1) by simp
  then obtain y where y: "a @ m = x @ y" "ck_text (flat r ! k) @ q = y @ b"
    using prefix_by_len [of x _ "a @ m" b] assms(4) x(2) by (metis less_imp_le)
  have "str_len y \<le> str_len (ck_text (flat r ! k))" using y(1) x(2,3) assms(5) by simp
  with y(2) obtain v where v: "ck_text (flat r ! k) = y @ v" using prefix_by_len [of y b] by metis
  show ?thesis
  proof (cases "str_len x \<le> str_len a")
    case True
    with y(1) obtain u where "a = x @ u" "y = u @ m" using prefix_by_len by metis
    with that [of u m v "[]"] v x(2) assms(6) show ?thesis by simp
  next
    case False
    with y(1) obtain m1 where "x = a @ m1" "m = m1 @ y" using prefix_by_len [of a m x y] by (metis nat_le_linear)
    moreover from this have "y \<noteq> []" using x(2) assms(4) by auto
    ultimately show ?thesis using that [of "[]" y v m1] v x(2) by simp
  qed
qed

definition backward_at :: "rope \<Rightarrow> str \<Rightarrow> str \<Rightarrow> chunks_iter \<Rightarrow> bool" where
  "backward_at r a m it \<longleftrightarrow> ch_reversed it \<and> ch_start it = str_len a \<and> ch_offset it = str_len (a @ m) \<and>
     str_len (a @ m) \<le> ch_end it \<and> (\<exists>b. rope_str r = a @ m @ b) \<and>
     (m \<noteq> [] \<longrightarrow> (\<exists>k. cursor_at rope_ops len_dim r k (ch_cursor it) \<and> in_chunk Left r (str_len (a @ m)) k))"

lemma in_chunk_inside: "in_chunk Left r n k \<Longrightarrow> 0 < n \<Longrightarrow> n \<le> str_len (rope_str r) \<Longrightarrow> k < length (flat r)"
  using chunk_start_all [of r k] by (cases "k < length (flat r)") (auto simp: in_chunk_def)

theorem backward_step:
  assumes "rope_ok r" and "shallow r" and "backward_at r a m it" and "m \<noteq> []"
  obtains p m1 it' where "m = m1 @ p" and "p \<noteq> []" and "chunks_peek it = Some (Some p)"
    and "chunks_advance it (str_len p) = Some it'" and "backward_at r a m1 it'"
proof -
  obtain b k where it: "ch_reversed it" "ch_start it = str_len a" "ch_offset it = str_len (a @ m)" "str_len (a @ m) \<le> ch_end it"
      "rope_str r = a @ m @ b" "cursor_at rope_ops len_dim r k (ch_cursor it)" "in_chunk Left r (str_len (a @ m)) k"
    using assms(3,4) by (auto simp: backward_at_def)
  have pos: "0 < str_len m" using assms(4) by simp
  have k: "k < length (flat r)" using in_chunk_inside [OF it(7)] it(5) pos by simp
  have walk: "walkable rope_ops r" using assms(1,2) by (simp add: walkable_def rope_ok_def)
  note at = cursor_at_start [OF assms(1) it(6)]
  have "chunk_start r k < str_len (a @ m)" "str_len (a @ m) \<le> chunk_start r (Suc k)"
    using it(7) pos by (auto simp: in_chunk_def)
  from back_part [OF assms(1) it(5) k this assms(4)] obtain m1 p u v where
    part: "ck_text (flat r ! k) = u @ p @ v" "m = m1 @ p" "p \<noteq> []" "m1 = [] \<or> u = []" "str_len (a @ m1) = chunk_start r k + str_len u"
      "max (chunk_start r k) (str_len a) = chunk_start r k + str_len u" by metis
  have "str_len (a @ m) - chunk_start r k = str_len u + str_len p" using part(2,5) by simp
  then have peek: "chunks_peek it = Some (Some p)"
    using it(1-4) at k pos part(1,6) str_slice_append [of u p v] \<open>chunk_start r k < str_len (a @ m)\<close>
    by (simp add: chunks_peek_def offset_is_valid_def peek_range_def usize_sub_def Let_def del: max.bounded_iff)
  show ?thesis
  proof (cases "u = []")
    case True
    have "backward_start rope_ops len_dim r k (ch_cursor it)" using it(6) by (simp add: backward_start_def)
    with dimension_laws.cursor_prev_correct [OF len_key.rope_dimension _ walk] obtain c1 where
      c1: "cursor_prev len_dim (ch_cursor it) = Some c1" "k \<noteq> 0 \<Longrightarrow> cursor_at rope_ops len_dim r (k - 1) c1" by metis
    have "cursor_at rope_ops len_dim r (k - 1) c1 \<and> in_chunk Left r (str_len (a @ m1)) (k - 1)" if "m1 \<noteq> []"
    proof -
      have "0 < str_len m1" using that by simp
      then have "k \<noteq> 0" using part(5) True by (intro notI) simp
      moreover from this have "chunk_start r (k - 1) < chunk_start r k"
        using chunk_start_step [of "k - 1" r] chunk_nonempty [OF assms(1), of "k - 1"] k by simp
      ultimately show ?thesis using c1(2) part(5) True by (simp add: in_chunk_def)
    qed
    then have "backward_at r a m1 (it\<lparr>ch_offset := str_len (a @ m1), ch_cursor := c1\<rparr>)"
      using it(1,2,4,5) part(2) by (auto simp: backward_at_def)
    with that [of m1 p] part(2,3) peek show ?thesis
      using it(1,3) at(1) part(5) True c1(1) by (simp add: chunks_advance_def usize_sub_def)
  next
    case False
    then have "m1 = []" using part(4) by simp
    moreover from this have "backward_at r a m1 (it\<lparr>ch_offset := str_len a, ch_cursor := ch_cursor it\<rparr>)"
      using it(1,2,4,5) by (auto simp: backward_at_def)
    ultimately show ?thesis using that [of "[]" p] part(2,3,5) peek it(1,3) at(1) False
      by (simp add: chunks_advance_def usize_sub_def)
  qed
qed

lemma backward_end: "backward_at r a [] it \<Longrightarrow> chunks_peek it = Some None"
  by (auto simp: backward_at_def chunks_peek_def offset_is_valid_def)

theorem backward_collect:
  assumes "rope_ok r" and "shallow r" and "backward_at r a m it"
  shows "\<exists>ps. chunks_collect it = Some ps \<and> concat (rev ps) = m \<and> [] \<notin> set ps"
  using assms(3)
proof (induction "length m" arbitrary: m it rule: less_induct)
  case less
  show ?case
  proof (cases "m = []")
    case True
    with less.prems backward_end show ?thesis by (subst chunks_collect.simps) (simp add: chunks_next_def)
  next
    case False
    from backward_step [OF assms(1,2) less.prems False] obtain p m1 it' where
      step: "m = m1 @ p" "p \<noteq> []" "chunks_peek it = Some (Some p)" "chunks_advance it (str_len p) = Some it'"
        "backward_at r a m1 it'" by metis
    have "length m1 < length m" using step(1,2) by simp
    from less.hyps [OF this step(5)] obtain ps where "chunks_collect it' = Some ps" "concat (rev ps) = m1" "[] \<notin> set ps" by blast
    with step show ?thesis by (subst chunks_collect.simps) (simp add: chunks_next_def)
  qed
qed

section \<open>Starting an iterator\<close>

text \<open>A boundary of the text in a chunk is a boundary of the chunk.\<close>

lemma prefix_in_chunk:
  assumes "rope_ok r" and "rope_str r = x @ y" and "k < length (flat r)" and "chunk_start r k \<le> str_len x"
    and "str_len x \<le> chunk_start r (Suc k)"
  shows "chunk_is_char_boundary (flat r ! k) (str_len x - chunk_start r k)"
proof -
  from chunk_part [OF assms(1) _ assms(3-5), of y "[]"] assms(2) obtain a1 p u where
    part: "ck_text (flat r ! k) = a1 @ p @ u" "str_len x = chunk_start r k + str_len a1" by (metis append_Nil2)
  have "chunk_ok (flat r ! k)" using chunk_at [OF assms(1,3)] by blast
  moreover have "str_is_char_boundary (a1 @ p @ u) (str_len a1)" by (simp add: str_is_char_boundary_def str_split_at_append)
  ultimately show ?thesis using part by (simp add: chunk_is_char_boundary_correct)
qed

lemma chunks_new_at:
  assumes "rope_ok r" and "shallow r" and "rope_str r = x @ y" and "str_len x = (if reversed then snd rng else fst rng)"
  obtains c k where "chunks_new r rng reversed =
      Some \<lparr>ch_cursor = c, ch_start = fst rng, ch_end = snd rng, ch_offset = str_len x, ch_reversed = reversed\<rparr>"
    and "cursor_at rope_ops len_dim r k c" and "in_chunk (if reversed then Left else Right) r (str_len x) k"
proof -
  let ?b = "if reversed then Left else Right"
  have "str_len x \<le> str_len (rope_str r)" using assms(3) by simp
  moreover have "cu_tree (cursor_new len_dim r) = r" by (simp add: cursor_new_def)
  ultimately obtain c found k where c: "cursor_seek len_dim (cmp (str_len x)) ?b (cursor_new len_dim r) = Some (c, found)"
      "cursor_at rope_ops len_dim r k c" "in_chunk ?b r (str_len x) k"
    using seek_at [OF assms(1,2), of "str_len x" "cursor_new len_dim r" ?b] by metis
  note at = cursor_at_start [OF assms(1) c(2)]
  have le: "chunk_start r k \<le> str_len x" using c(3) by (auto simp: in_chunk_def split: if_splits)
  have "chunk_is_char_boundary (flat r ! k) (str_len x - chunk_start r k)" if "k < length (flat r)"
    using prefix_in_chunk [OF assms(1,3) that le] c(3) that by (auto simp: in_chunk_def split: if_splits)
  with that [OF _ c(2,3)] c(1) at(1,3) le show ?thesis
    by (cases "k < length (flat r)") (simp_all add: chunks_new_def Let_def usize_sub_def require_def flip: assms(4))
qed

text \<open>An offset inside a character is refused.\<close>

lemma boundary_of_chunk:
  assumes "rope_ok r" and "k < length (flat r)" and "chunk_start r k \<le> i" and "chunk_is_char_boundary (flat r ! k) (i - chunk_start r k)"
  shows "str_is_char_boundary (rope_str r) i"
proof -
  obtain x q where x: "rope_str r = x @ ck_text (flat r ! k) @ q" "str_len x = chunk_start r k" "chunk_ok (flat r ! k)"
    using chunk_at [OF assms(1,2)] by blast
  have "str_is_char_boundary (ck_text (flat r ! k)) (i - chunk_start r k)"
    using assms(4) x(3) by (simp add: chunk_is_char_boundary_correct)
  then obtain l u where "str_split_at (i - chunk_start r k) (ck_text (flat r ! k)) = Some (l, u)"
    by (auto simp: str_is_char_boundary_def)
  from str_split_at_Some [OF this] have "rope_str r = (x @ l) @ u @ q" "i = str_len (x @ l)" using x(1,2) assms(3) by simp_all
  then show ?thesis by (simp add: str_is_char_boundary_def del: append_assoc str_len_simps(3))
qed

lemma chunks_new_inside:
  assumes "rope_ok r" and "shallow r" and "i \<le> str_len (rope_str r)" and "\<not> str_is_char_boundary (rope_str r) i"
    and i: "i = (if reversed then snd rng else fst rng)"
  shows "chunks_new r rng reversed = None"
proof -
  let ?b = "if reversed then Left else Right"
  have "cu_tree (cursor_new len_dim r) = r" by (simp add: cursor_new_def)
  from seek_at [OF assms(1-3) this] obtain c found k where
    c: "cursor_seek len_dim (cmp i) ?b (cursor_new len_dim r) = Some (c, found)" "cursor_at rope_ops len_dim r k c" "in_chunk ?b r i k" by metis
  have "0 < i" using assms(4) str_split_at_append [of "[]" "rope_str r"] by (cases i) (auto simp: str_is_char_boundary_def)
  moreover have "i \<noteq> str_len (rope_str r)" using assms(4) str_is_char_boundary_len [of "rope_str r"] by auto
  ultimately have k: "k < length (flat r)" using c(3) assms(3) in_chunk_inside [of r i k] chunk_start_all [of r k]
    by (cases "k < length (flat r)") (auto simp: in_chunk_def split: if_splits)
  have le: "chunk_start r k \<le> i" using c(3) by (auto simp: in_chunk_def split: if_splits)
  have "\<not> chunk_is_char_boundary (flat r ! k) (i - chunk_start r k)" using boundary_of_chunk [OF assms(1) k le] assms(4) by blast
  with c(1) cursor_at_start [OF assms(1) c(2)] k le show ?thesis
    by (simp add: chunks_new_def Let_def usize_sub_def require_def flip: i)
qed

text \<open>Two boundaries in order cut the text in three, and starting an iterator fails inside a character only.\<close>

lemma boundaries_split:
  assumes "str_is_char_boundary cs i" and "str_is_char_boundary cs j" and "i \<le> j"
  obtains a m b where "cs = a @ m @ b" and "str_len a = i" and "str_len (a @ m) = j"
proof -
  from assms(1) obtain a y where a: "cs = a @ y" "str_len a = i" by (auto simp: str_is_char_boundary_def str_split_at_iff)
  from assms(2) obtain x b where x: "cs = x @ b" "str_len x = j" by (auto simp: str_is_char_boundary_def str_split_at_iff)
  have "a @ y = x @ b" using a(1) x(1) by simp
  then obtain m where "x = a @ m" using prefix_by_len [of a y x b] a(2) x(2) assms(3) by metis
  with that [of a m b] a x show ?thesis by simp
qed

lemma chunks_new_iff:
  assumes "rope_ok r" and "shallow r" and "i \<le> str_len (rope_str r)"
  shows "chunks_new r (i, j) False = None \<longleftrightarrow> \<not> str_is_char_boundary (rope_str r) i"
    and "chunks_new r (h, i) True = None \<longleftrightarrow> \<not> str_is_char_boundary (rope_str r) i"
proof -
  have new: "chunks_new r rng rev = None \<longleftrightarrow> \<not> str_is_char_boundary (rope_str r) i" if i: "i = (if rev then snd rng else fst rng)" for rng rev
  proof (cases "str_is_char_boundary (rope_str r) i")
    case True
    then obtain x y where x: "rope_str r = x @ y" "str_len x = i" by (auto simp: str_is_char_boundary_def str_split_at_iff)
    have "str_len x = (if rev then snd rng else fst rng)" using x(2) i by simp
    from chunks_new_at [OF assms(1,2) x(1) this] True show ?thesis by (metis option.distinct(1))
  next
    case False
    from chunks_new_inside [OF assms(1,2,3) False i] False show ?thesis by simp
  qed
  show "chunks_new r (i, j) False = None \<longleftrightarrow> \<not> str_is_char_boundary (rope_str r) i"
    "chunks_new r (h, i) True = None \<longleftrightarrow> \<not> str_is_char_boundary (rope_str r) i" by (rule new; simp)+
qed

theorem rope_chunks_in_range_at:
  assumes "rope_ok r" and "shallow r" and "rope_str r = a @ m @ b"
  obtains it where "rope_chunks_in_range r (str_len a, str_len (a @ m)) = Some it" and "forward_at r a m it"
proof -
  from chunks_new_at [OF assms, of False "(str_len a, str_len (a @ m))"] obtain c k where
    "chunks_new r (str_len a, str_len (a @ m)) False =
        Some \<lparr>ch_cursor = c, ch_start = str_len a, ch_end = str_len (a @ m), ch_offset = str_len a, ch_reversed = False\<rparr>"
    "cursor_at rope_ops len_dim r k c" "in_chunk Right r (str_len a) k" by (metis (full_types) fst_conv snd_conv)
  with that assms(3) show ?thesis by (auto simp: rope_chunks_in_range_def forward_at_def in_chunk_def)
qed

theorem rope_reversed_chunks_in_range_at:
  assumes "rope_ok r" and "shallow r" and "rope_str r = a @ m @ b"
  obtains it where "rope_reversed_chunks_in_range r (str_len a, str_len (a @ m)) = Some it" and "backward_at r a m it"
    and "ch_end it = str_len (a @ m)"
proof -
  have "rope_str r = (a @ m) @ b" using assms(3) by simp
  from chunks_new_at [OF assms(1,2) this, of True "(str_len a, str_len (a @ m))"] obtain c k where
    "chunks_new r (str_len a, str_len (a @ m)) True =
        Some \<lparr>ch_cursor = c, ch_start = str_len a, ch_end = str_len (a @ m), ch_offset = str_len (a @ m), ch_reversed = True\<rparr>"
    "cursor_at rope_ops len_dim r k c" "in_chunk Left r (str_len (a @ m)) k" by (metis (full_types) fst_conv snd_conv)
  with that assms(3) show ?thesis by (auto simp: rope_reversed_chunks_in_range_def backward_at_def)
qed

theorem rope_chars_at_correct:
  assumes "rope_ok r" and "shallow r" and "rope_str r = a @ m"
  shows "rope_chars_at r (str_len a) = Some m"
proof -
  from rope_chunks_in_range_at [OF assms(1,2), of a m "[]"] assms(3) obtain it where
    "rope_chunks_in_range r (str_len a, str_len (a @ m)) = Some it" "forward_at r a m it" by auto
  with forward_collect [OF assms(1,2)] rope_measures(2) [OF assms(1)] assms(3) show ?thesis
    by (fastforce simp: rope_chars_at_def)
qed

lemma concat_map_rev: "concat (map rev xs) = rev (concat (rev xs))"
  by (induction xs) simp_all

theorem rope_reversed_chars_at_correct:
  assumes "rope_ok r" and "shallow r" and "rope_str r = m @ b"
  shows "rope_reversed_chars_at r (str_len m) = Some (rev m)"
proof -
  from rope_reversed_chunks_in_range_at [OF assms(1,2), of "[]" m b] assms(3) obtain it where
    "rope_reversed_chunks_in_range r (0, str_len m) = Some it" "backward_at r [] m it" by auto
  with backward_collect [OF assms(1,2)] show ?thesis
    by (fastforce simp: rope_reversed_chars_at_def concat_map_rev)
qed

section \<open>Comparing\<close>

lemma str_starts_with_iff: "str_starts_with cs p \<longleftrightarrow> (\<exists>t. cs = p @ t)"
  by (auto simp: str_starts_with_def) (metis append_take_drop_id)

lemma str_ends_with_iff: "str_ends_with cs p \<longleftrightarrow> (\<exists>t. cs = t @ p)"
  by (auto simp: str_ends_with_def str_starts_with_iff) (metis rev_append rev_rev_ident)

text \<open>A part of a string up to an offset, which need not be a boundary.\<close>

lemma str_slice_from_start: "str_slice cs 0 n = Some t \<longleftrightarrow> (\<exists>u. cs = t @ u \<and> str_len t = n)"
proof
  assume "str_slice cs 0 n = Some t"
  then show "\<exists>u. cs = t @ u \<and> str_len t = n"
    by (auto simp: str_slice_def Option.bind_eq_Some_conv dest!: str_split_at_Some)
next
  assume "\<exists>u. cs = t @ u \<and> str_len t = n"
  then show "str_slice cs 0 n = Some t" using str_slice_append [of "[]" t] by auto
qed

lemma str_slice_to_end: "str_slice cs n (str_len cs) = Some t \<longleftrightarrow> (\<exists>u. cs = u @ t \<and> str_len u = n)"
proof
  assume "str_slice cs n (str_len cs) = Some t"
  then show "\<exists>u. cs = u @ t \<and> str_len u = n"
    using str_split_at_append [of cs "[]"]
    by (auto simp: str_slice_def Option.bind_eq_Some_conv dest!: str_split_at_Some)
next
  assume "\<exists>u. cs = u @ t \<and> str_len u = n"
  then show "str_slice cs n (str_len cs) = Some t" using str_slice_append [of _ t "[]"] by auto
qed

lemma suffix_by_len:
  assumes "x @ y = a @ b" and "str_len y \<le> str_len b"
  obtains u where "b = u @ y" and "x = a @ u"
proof -
  have "str_len (x @ y) = str_len (a @ b)" using assms(1) by simp
  then have "str_len a \<le> str_len x" using assms(2) by simp
  with prefix_by_len [of a b x y] assms(1) that show ?thesis by metis
qed

text \<open>One piece of a text compared with what is left of the pattern.\<close>

lemma starts_with_piece:
  "str_starts_with (p @ m1) s =
    (case str_slice p 0 (min (str_len s) (str_len p)) of
       None \<Rightarrow> False
     | Some t \<Rightarrow> str_starts_with s t \<and> (drop (length t) s = [] \<or> str_starts_with m1 (drop (length t) s)))"
proof (cases "str_len s \<le> str_len p")
  case True
  have "str_starts_with (p @ m1) s \<longleftrightarrow> str_slice p 0 (str_len s) = Some s"
  proof
    assume "str_starts_with (p @ m1) s"
    then obtain t where "p @ m1 = s @ t" by (auto simp: str_starts_with_iff)
    with prefix_by_len [of s t p m1] True show "str_slice p 0 (str_len s) = Some s"
      by (metis str_slice_from_start)
  qed (auto simp: str_slice_from_start str_starts_with_iff)
  moreover have "t = s" if "str_slice p 0 (str_len s) = Some t" "str_starts_with s t" for t
    using that by (auto simp: str_slice_from_start str_starts_with_iff)
  ultimately show ?thesis using True by (auto simp: min_absorb1 str_starts_with_def split: option.splits)
next
  case False
  then have "str_slice p 0 (min (str_len s) (str_len p)) = Some p" by (simp add: min_absorb2 str_slice_from_start)
  moreover have "str_starts_with (p @ m1) s \<longleftrightarrow> str_starts_with s p \<and> str_starts_with m1 (drop (length p) s)"
  proof
    assume "str_starts_with (p @ m1) s"
    then obtain t where "p @ m1 = s @ t" by (auto simp: str_starts_with_iff)
    with prefix_by_len [of p m1 s t] False obtain u where "s = p @ u" "m1 = u @ t" by (metis nat_le_linear)
    then show "str_starts_with s p \<and> str_starts_with m1 (drop (length p) s)" by (auto simp: str_starts_with_iff)
  qed (auto simp: str_starts_with_iff)
  ultimately show ?thesis by (auto simp: str_starts_with_iff)
qed

theorem starts_with_loop_correct:
  assumes "rope_ok r" and "shallow r" and "forward_at r a m it"
  shows "starts_with_loop it s = Some (str_starts_with m s)"
  using assms(3)
proof (induction "length m" arbitrary: a m it s rule: less_induct)
  case less
  show ?case
  proof (cases "m = []")
    case True
    with less.prems forward_end show ?thesis
      by (subst starts_with_loop.simps) (auto simp add: chunks_next_def str_starts_with_def)
  next
    case False
    from forward_step [OF assms(1,2) less.prems False] obtain p m1 it' where
      step: "m = p @ m1" "p \<noteq> []" "chunks_peek it = Some (Some p)" "chunks_advance it (str_len p) = Some it'"
        "forward_at r (a @ p) m1 it'" by metis
    have "length m1 < length m" using step(1,2) by simp
    note IH = less.hyps [OF this step(5)]
    have "chunks_next it = Some (it', Some p)" using step by (simp add: chunks_next_def)
    then show ?thesis
      by (subst starts_with_loop.simps)
        (auto simp: step(1) starts_with_piece IH Let_def simp del: drop_eq_Nil split: option.split)
  qed
qed

theorem rope_starts_with_correct:
  assumes "rope_ok r" and "shallow r"
  shows "rope_starts_with r pat = Some (str_starts_with (rope_str r) pat)"
proof (cases "rope_len r < str_len pat")
  case True
  then have "\<not> str_starts_with (rope_str r) pat" using rope_measures(2) [OF assms(1)] by (auto simp: str_starts_with_iff)
  with True show ?thesis by (simp add: rope_starts_with_def)
next
  case False
  from rope_chunks_in_range_at [OF assms, of "[]" "rope_str r" "[]"] obtain it where
    "rope_chunks_in_range r (0, rope_len r) = Some it" "forward_at r [] (rope_str r) it" using rope_measures(2) [OF assms(1)] by auto
  with starts_with_loop_correct [OF assms] False show ?thesis by (simp add: rope_starts_with_def)
qed

lemma ends_with_piece:
  "str_ends_with (m1 @ p) s =
    (case str_slice p (str_len p - min (str_len s) (str_len p)) (str_len p) of
       None \<Rightarrow> False
     | Some t \<Rightarrow> str_ends_with s t \<and>
         (take (length s - length t) s = [] \<or> str_ends_with m1 (take (length s - length t) s)))"
proof (cases "str_len s \<le> str_len p")
  case True
  have "str_ends_with (m1 @ p) s \<longleftrightarrow> str_slice p (str_len p - str_len s) (str_len p) = Some s"
  proof
    assume "str_ends_with (m1 @ p) s"
    then obtain t where "t @ s = m1 @ p" by (auto simp: str_ends_with_iff)
    with suffix_by_len [of t s m1 p] True obtain u where "p = u @ s" by metis
    then show "str_slice p (str_len p - str_len s) (str_len p) = Some s"
      unfolding str_slice_to_end by (intro exI [of _ u]) simp
  qed (auto simp: str_slice_to_end str_ends_with_iff)
  moreover have "t = s" if t: "str_slice p (str_len p - str_len s) (str_len p) = Some t" "str_ends_with s t" for t
  proof -
    obtain u v where u: "p = u @ t" "str_len u = str_len p - str_len s" "s = v @ t"
      using t unfolding str_slice_to_end str_ends_with_iff by blast
    have "str_len v = 0" using u(2) True unfolding u(1,3) str_len_simps(3) by arith
    with u(3) show ?thesis by simp
  qed
  ultimately show ?thesis using True by (auto simp: min_absorb1 str_ends_with_iff split: option.splits)
next
  case False
  then have "str_slice p (str_len p - min (str_len s) (str_len p)) (str_len p) = Some p" by (simp add: min_absorb2 str_slice_to_end)
  moreover have "str_ends_with (m1 @ p) s \<longleftrightarrow> str_ends_with s p \<and> str_ends_with m1 (take (length s - length p) s)"
  proof
    assume "str_ends_with (m1 @ p) s"
    then obtain t where "m1 @ p = t @ s" by (auto simp: str_ends_with_iff)
    with suffix_by_len [of m1 p t s] False obtain u where "s = u @ p" "m1 = t @ u" by (metis nat_le_linear)
    then show "str_ends_with s p \<and> str_ends_with m1 (take (length s - length p) s)" by (auto simp: str_ends_with_iff)
  qed (auto simp: str_ends_with_iff)
  ultimately show ?thesis by (auto simp: str_ends_with_iff)
qed

theorem ends_with_loop_correct:
  assumes "rope_ok r" and "shallow r" and "backward_at r a m it"
  shows "ends_with_loop it s = Some (str_ends_with m s)"
  using assms(3)
proof (induction "length m" arbitrary: m it s rule: less_induct)
  case less
  show ?case
  proof (cases "m = []")
    case True
    with less.prems backward_end show ?thesis
      by (subst ends_with_loop.simps) (auto simp add: chunks_next_def str_ends_with_iff)
  next
    case False
    from backward_step [OF assms(1,2) less.prems False] obtain p m1 it' where
      step: "m = m1 @ p" "p \<noteq> []" "chunks_peek it = Some (Some p)" "chunks_advance it (str_len p) = Some it'"
        "backward_at r a m1 it'" by metis
    have "length m1 < length m" using step(1,2) by simp
    note IH = less.hyps [OF this step(5)]
    have "chunks_next it = Some (it', Some p)" using step by (simp add: chunks_next_def)
    then show ?thesis
      by (subst ends_with_loop.simps)
        (auto simp: step(1) ends_with_piece IH Let_def simp del: take_eq_Nil take_eq_Nil2 split: option.split)
  qed
qed

theorem rope_ends_with_correct:
  assumes "rope_ok r" and "shallow r"
  shows "rope_ends_with r pat = Some (str_ends_with (rope_str r) pat)"
proof (cases "rope_len r < str_len pat")
  case True
  then have "\<not> str_ends_with (rope_str r) pat" using rope_measures(2) [OF assms(1)] by (auto simp: str_ends_with_iff)
  with True show ?thesis by (simp add: rope_ends_with_def)
next
  case False
  from rope_reversed_chunks_in_range_at [OF assms, of "[]" "rope_str r" "[]"] obtain it where
    "rope_reversed_chunks_in_range r (0, rope_len r) = Some it" "backward_at r [] (rope_str r) it"
    using rope_measures(2) [OF assms(1)] by auto
  with ends_with_loop_correct [OF assms] False show ?thesis by (simp add: rope_ends_with_def)
qed

lemma equals_forward_correct:
  assumes "rope_ok r" and "shallow r" and "forward_at r a m it"
  shows "equals_forward_loop it (x @ y) (str_len x) = Some (m = y)"
  using assms(3)
proof (induction "length m" arbitrary: a m it x y rule: less_induct)
  case less
  show ?case
  proof (cases "m = []")
    case True
    with less.prems forward_end show ?thesis
      by (subst equals_forward_loop.simps) (auto simp add: chunks_next_def)
  next
    case False
    from forward_step [OF assms(1,2) less.prems False] obtain p m1 it' where
      step: "m = p @ m1" "p \<noteq> []" "chunks_peek it = Some (Some p)" "chunks_advance it (str_len p) = Some it'"
        "forward_at r (a @ p) m1 it'" by metis
    have nxt: "chunks_next it = Some (it', Some p)" using step by (simp add: chunks_next_def)
    have rest: "str_slice (x @ y) (str_len x) (str_len (x @ y)) = Some y" using str_slice_append [of x y "[]"] by simp
    show ?thesis
    proof (cases "str_starts_with y p")
      case True
      then obtain y1 where y: "y = p @ y1" by (auto simp: str_starts_with_iff)
      have "equals_forward_loop it' ((x @ p) @ y1) (str_len (x @ p)) = Some (m1 = y1)"
        using step(1,2) by (intro less.hyps [OF _ step(5)]) simp
      with nxt rest True step(2) y show ?thesis by (subst equals_forward_loop.simps) (simp add: step(1))
    next
      case False
      then have "m \<noteq> y" using step(1) by (auto simp: str_starts_with_iff)
      with nxt rest False step(2) show ?thesis by (subst equals_forward_loop.simps) simp
    qed
  qed
qed

lemma equals_backward_correct:
  assumes "rope_ok r" and "shallow r" and "backward_at r a m it"
  shows "equals_backward_loop it (y @ x) (str_len y) = Some (m = y)"
  using assms(3)
proof (induction "length m" arbitrary: m it x y rule: less_induct)
  case less
  show ?case
  proof (cases "m = []")
    case True
    with less.prems backward_end show ?thesis
      by (subst equals_backward_loop.simps) (auto simp add: chunks_next_def)
  next
    case False
    from backward_step [OF assms(1,2) less.prems False] obtain p m1 it' where
      step: "m = m1 @ p" "p \<noteq> []" "chunks_peek it = Some (Some p)" "chunks_advance it (str_len p) = Some it'"
        "backward_at r a m1 it'" by metis
    have nxt: "chunks_next it = Some (it', Some p)" using step by (simp add: chunks_next_def)
    have rest: "str_slice (y @ x) 0 (str_len y) = Some y" using str_slice_append [of "[]" y x] by simp
    show ?thesis
    proof (cases "str_ends_with y p")
      case True
      then obtain y1 where y: "y = y1 @ p" by (auto simp: str_ends_with_iff)
      have "equals_backward_loop it' (y1 @ p @ x) (str_len y1) = Some (m1 = y1)"
        using less.hyps [OF _ step(5), of y1 "p @ x"] step(1,2) by simp
      with nxt rest True y show ?thesis by (subst equals_backward_loop.simps) (simp add: step(1) usize_sub_def)
    next
      case False
      then have "m \<noteq> y" using step(1) by (auto simp: str_ends_with_iff)
      with nxt rest False show ?thesis by (subst equals_backward_loop.simps) simp
    qed
  qed
qed

theorem equals_str_correct:
  assumes "rope_ok r" and "shallow r" and "forward_at r a m it \<or> backward_at r a m it"
  shows "equals_str it other = Some (m = other)"
  using assms(3) equals_forward_correct [OF assms(1,2), of a m it "[]" other] equals_backward_correct [OF assms(1,2), of a m it other "[]"]
  by (auto simp: equals_str_def forward_at_def backward_at_def)

section \<open>The lines of a range\<close>

lemma forward_seek:
  assumes "rope_ok r" and "shallow r" and "forward_at r a (p @ m) it"
  obtains it' where "chunks_seek it (str_len (a @ p)) = Some it'" and "forward_at r (a @ p) m it'"
proof -
  obtain b k where it: "\<not> ch_reversed it" "ch_end it = str_len (a @ p @ m)" "ch_start it \<le> str_len a"
      "rope_str r = a @ (p @ m) @ b" "cursor_at rope_ops len_dim r k (ch_cursor it)"
    using assms(3) by (auto simp: forward_at_def)
  have "str_len (a @ p) \<le> str_len (rope_str r)" "ch_start it \<le> str_len (a @ p)" "str_len (a @ p) \<le> ch_end it" using it by simp_all
  from chunks_seek_at [OF assms(1,2) this(1) it(5) this(2,3) refl] it(1) obtain c k' where
    "chunks_seek it (str_len (a @ p)) = Some (it\<lparr>ch_cursor := c, ch_offset := str_len (a @ p)\<rparr>)"
    "cursor_at rope_ops len_dim r k' c" "in_chunk Right r (str_len (a @ p)) k'" by metis
  moreover from this it have "forward_at r (a @ p) m (it\<lparr>ch_cursor := c, ch_offset := str_len (a @ p)\<rparr>)"
    by (auto simp: forward_at_def in_chunk_def)
  ultimately show ?thesis using that by blast
qed

lemma backward_seek:
  assumes "rope_ok r" and "shallow r" and "backward_at r a (m @ p) it" and "p \<noteq> []"
  obtains it' where "chunks_seek it (str_len (a @ m)) = Some it'" and "backward_at r a m it'"
proof -
  obtain b k where it: "ch_reversed it" "ch_start it = str_len a" "str_len (a @ m @ p) \<le> ch_end it"
      "rope_str r = a @ (m @ p) @ b" "cursor_at rope_ops len_dim r k (ch_cursor it)"
    using assms(3,4) by (auto simp: backward_at_def)
  have "str_len (a @ m) \<le> str_len (rope_str r)" "ch_start it \<le> str_len (a @ m)" "str_len (a @ m) \<le> ch_end it" using it by simp_all
  from chunks_seek_at [OF assms(1,2) this(1) it(5) this(2,3) refl] it(1) obtain c k' where
    "chunks_seek it (str_len (a @ m)) = Some (it\<lparr>ch_cursor := c, ch_offset := str_len (a @ m)\<rparr>)"
    "cursor_at rope_ops len_dim r k' c" "in_chunk Left r (str_len (a @ m)) k'" by metis
  moreover from this it have "backward_at r a m (it\<lparr>ch_cursor := c, ch_offset := str_len (a @ m)\<rparr>)"
    by (auto simp: backward_at_def)
  ultimately show ?thesis using that by blast
qed

lemma newline_len: "len_utf8 newline_char = 1"
  by (simp add: newline_char_def len_utf8_def)

lemma split_lines_before: "split_lines (m @ newline_char # l) = split_lines m @ split_lines l"
proof (induction "length m" arbitrary: m rule: less_induct)
  case less
  show ?case
  proof (cases "newline_char \<in> set m")
    case True
    then obtain x y where m: "m = x @ newline_char # y" "newline_char \<notin> set x" by (metis split_list_first)
    with less.hyps [of y] show ?thesis by (simp add: split_lines_line)
  next
    case False
    then show ?thesis by (simp add: split_lines_line split_lines_plain)
  qed
qed

lemma many_lines: "1 < length (split_lines cs) \<longleftrightarrow> newline_char \<in> set cs"
  by (auto simp: length_split_lines filter_empty_conv)

lemma first_line_split:
  assumes "l @ newline_char # m' = p @ m1" and "newline_char \<notin> set l"
  obtains (inside) y where "p = l @ newline_char # y" | (plain) l1 where "l = p @ l1" and "m1 = l1 @ newline_char # m'" and "newline_char \<notin> set p"
  using assms by (auto simp: append_eq_append_conv2 Cons_eq_append_conv)

text \<open>One line is read: up to the next line break, or to the end of the range.\<close>

lemma lines_loop_forward:
  assumes "rope_ok r" and "shallow r" and "forward_at r a m (li_chunks it)" and "\<not> li_reversed it" and "newline_char \<notin> set l"
  shows "m = l \<Longrightarrow> \<exists>it'. lines_loop it = Some (it', li_current_line it @ l) \<and> li_done it'"
    and "m = l @ newline_char # m' \<Longrightarrow> \<exists>it'. lines_loop it = Some (it', li_current_line it @ l) \<and>
      forward_at r (a @ l @ [newline_char]) m' (li_chunks it') \<and> li_done it' = li_done it \<and> \<not> li_reversed it'"
  using assms(3-5)
proof (induction "length l" arbitrary: a m l it rule: less_induct)
  case less
  { case 1
    show ?case
    proof (cases "m = []")
      case True
      with 1 forward_end [of r a] show ?thesis by (subst lines_loop.simps) simp
    next
      case False
      from forward_step [OF assms(1,2) 1(2) False] obtain p m1 c where
        step: "m = p @ m1" "p \<noteq> []" "chunks_peek (li_chunks it) = Some (Some p)"
          "chunks_advance (li_chunks it) (str_len p) = Some c" "forward_at r (a @ p) m1 c" by metis
      let ?it = "it\<lparr>li_current_line := li_current_line it @ p, li_chunks := c\<rparr>"
      have "newline_char \<notin> set p" "newline_char \<notin> set m1" "length m1 < length l" using 1 step(1,2) by auto
      with less(1) [of m1 m1 "a @ p" ?it] step(5) 1(3) have
        "\<exists>it'. lines_loop ?it = Some (it', (li_current_line it @ p) @ m1) \<and> li_done it'" by simp
      with 1(1,3) step(1-4) \<open>newline_char \<notin> set p\<close> show ?thesis
        by (subst lines_loop.simps) (simp add: chunks_next_def split_lines_plain)
    qed
  next
    case 2
    then have "m \<noteq> []" by simp
    from forward_step [OF assms(1,2) 2(2) this] obtain p m1 c where
      step: "m = p @ m1" "p \<noteq> []" "chunks_peek (li_chunks it) = Some (Some p)"
        "chunks_advance (li_chunks it) (str_len p) = Some c" "forward_at r (a @ p) m1 c" by metis
    from 2(1) step(1) have "l @ newline_char # m' = p @ m1" by simp
    from this 2(4) show ?case
    proof (cases rule: first_line_split)
      case (inside y)
      have "forward_at r a ((l @ [newline_char]) @ m') (li_chunks it)" using 2(1,2) by simp
      from forward_seek [OF assms(1,2) this] obtain c' where
        "chunks_seek (li_chunks it) (str_len (a @ l @ [newline_char])) = Some c'" "forward_at r (a @ l @ [newline_char]) m' c'" by auto
      moreover have "ch_offset (li_chunks it) = str_len a" using 2(2) by (simp add: forward_at_def)
      ultimately show ?thesis using 2(3,4) step(3) inside many_lines [of p]
        by (subst lines_loop.simps) (simp add: split_lines_line newline_len Let_def)
    next
      case l1: (plain l1)
      let ?it = "it\<lparr>li_current_line := li_current_line it @ p, li_chunks := c\<rparr>"
      have "newline_char \<notin> set l1" "length l1 < length l" using 2 l1 step(2) by auto
      with less(2) [of l1 m1 "a @ p" ?it] step(5) 2(3) l1 have
        "\<exists>it'. lines_loop ?it = Some (it', (li_current_line it @ p) @ l1) \<and>
          forward_at r (a @ l @ [newline_char]) m' (li_chunks it') \<and> li_done it' = li_done it \<and> \<not> li_reversed it'" by simp
      with 2(3) l1 step(1-4) show ?thesis
        by (subst lines_loop.simps) (simp add: chunks_next_def split_lines_plain)
    qed }
qed

theorem lines_collect_forward:
  assumes "rope_ok r" and "shallow r" and "forward_at r a m (li_chunks it)" and "\<not> li_reversed it" and "\<not> li_done it"
  shows "lines_collect it = Some (split_lines m)"
  using assms(3-5)
proof (induction "length m" arbitrary: a m it rule: less_induct)
  case less
  let ?it = "it\<lparr>li_current_line := []\<rparr>"
  show ?case
  proof (cases "newline_char \<in> set m")
    case True
    then obtain l m' where m: "m = l @ newline_char # m'" "newline_char \<notin> set l" by (metis split_list_first)
    from lines_loop_forward(2) [OF assms(1,2) _ _ m(2), of a m ?it m'] less.prems m(1) obtain it' where
      it': "lines_loop ?it = Some (it', l)" "forward_at r (a @ l @ [newline_char]) m' (li_chunks it')" "\<not> li_done it'" "\<not> li_reversed it'" by auto
    have "lines_collect it' = Some (split_lines m')" using less.hyps [OF _ it'(2,4,3)] m(1) by simp
    with it'(1) less.prems(3) m show ?thesis by (subst lines_collect.simps) (simp add: lines_next_def split_lines_line)
  next
    case False
    from lines_loop_forward(1) [OF assms(1,2) _ _ False, of a m ?it] less.prems obtain it' where
      it': "lines_loop ?it = Some (it', m)" "li_done it'" by auto
    have "lines_collect it' = Some []" using it'(2) by (subst lines_collect.simps) (simp add: lines_next_def)
    with it'(1) less.prems(3) False show ?thesis by (subst lines_collect.simps) (simp add: lines_next_def split_lines_plain)
  qed
qed

lemma last_line_cases:
  assumes "m' @ newline_char # l = m1 @ p" and "newline_char \<notin> set l"
  obtains (inside) y where "p = y @ newline_char # l" | (plain) l1 where "l = l1 @ p" and "m1 = m' @ newline_char # l1" and "newline_char \<notin> set p"
  using assms by (auto simp: append_eq_append_conv2 Cons_eq_append_conv append_eq_Cons_conv)

lemma lines_loop_backward:
  assumes "rope_ok r" and "shallow r" and "backward_at r a m (li_chunks it)" and "li_reversed it" and "newline_char \<notin> set l"
  shows "m = l \<Longrightarrow> \<exists>it'. lines_loop it = Some (it', l @ li_current_line it) \<and> li_done it'"
    and "m = m' @ newline_char # l \<Longrightarrow> \<exists>it'. lines_loop it = Some (it', l @ li_current_line it) \<and>
      backward_at r a m' (li_chunks it') \<and> li_done it' = li_done it \<and> li_reversed it'"
  using assms(3-5)
proof (induction "length l" arbitrary: m l it rule: less_induct)
  case less
  { case 1
    show ?case
    proof (cases "m = []")
      case True
      with 1 backward_end [of r a] show ?thesis by (subst lines_loop.simps) simp
    next
      case False
      from backward_step [OF assms(1,2) 1(2) False] obtain p m1 c where
        step: "m = m1 @ p" "p \<noteq> []" "chunks_peek (li_chunks it) = Some (Some p)"
          "chunks_advance (li_chunks it) (str_len p) = Some c" "backward_at r a m1 c" by metis
      let ?it = "it\<lparr>li_current_line := p @ li_current_line it, li_chunks := c\<rparr>"
      have "newline_char \<notin> set p" "newline_char \<notin> set m1" "length m1 < length l" using 1 step(1,2) by auto
      with less(1) [of m1 m1 ?it] step(5) 1(3) have
        "\<exists>it'. lines_loop ?it = Some (it', m1 @ p @ li_current_line it) \<and> li_done it'" by simp
      moreover have "l = m1 @ p" using 1(1) step(1) by simp
      ultimately show ?thesis using 1(3) step(2-4) \<open>newline_char \<notin> set p\<close>
        by (subst lines_loop.simps) (simp add: chunks_next_def split_lines_plain)
    qed
  next
    case 2
    then have "m \<noteq> []" by simp
    from backward_step [OF assms(1,2) 2(2) this] obtain p m1 c where
      step: "m = m1 @ p" "p \<noteq> []" "chunks_peek (li_chunks it) = Some (Some p)"
        "chunks_advance (li_chunks it) (str_len p) = Some c" "backward_at r a m1 c" by metis
    from 2(1) step(1) have "m' @ newline_char # l = m1 @ p" by simp
    from this 2(4) show ?case
    proof (cases rule: last_line_cases)
      case (inside y)
      have "backward_at r a (m' @ newline_char # l) (li_chunks it)" using 2(1,2) by simp
      from backward_seek [OF assms(1,2) this] obtain c' where
        "chunks_seek (li_chunks it) (str_len (a @ m')) = Some c'" "backward_at r a m' c'" by auto
      moreover have "ch_offset (li_chunks it) = str_len (a @ m') + 1 + str_len l"
        using 2(1,2) by (simp add: backward_at_def newline_len)
      ultimately show ?thesis using 2(3,4) step(3) inside many_lines [of p]
        by (subst lines_loop.simps) (simp add: split_lines_before split_lines_plain newline_len Let_def usize_sub_def)
    next
      case l1: (plain l1)
      let ?it = "it\<lparr>li_current_line := p @ li_current_line it, li_chunks := c\<rparr>"
      have "newline_char \<notin> set l1" "length l1 < length l" using 2 l1 step(2) by auto
      with less(2) [of l1 m1 ?it] step(5) 2(3) l1 have
        "\<exists>it'. lines_loop ?it = Some (it', l1 @ p @ li_current_line it) \<and>
          backward_at r a m' (li_chunks it') \<and> li_done it' = li_done it \<and> li_reversed it'" by simp
      with 2(3) l1 step(1-4) show ?thesis
        by (subst lines_loop.simps) (simp add: chunks_next_def split_lines_plain)
    qed }
qed

theorem lines_collect_backward:
  assumes "rope_ok r" and "shallow r" and "backward_at r a m (li_chunks it)" and "li_reversed it" and "\<not> li_done it"
  shows "lines_collect it = Some (rev (split_lines m))"
  using assms(3-5)
proof (induction "length m" arbitrary: m it rule: less_induct)
  case less
  let ?it = "it\<lparr>li_current_line := []\<rparr>"
  show ?case
  proof (cases "newline_char \<in> set m")
    case True
    then obtain l m' where m: "m = m' @ newline_char # l" "newline_char \<notin> set l" by (metis split_list_last)
    from lines_loop_backward(2) [OF assms(1,2) _ _ m(2), of a m ?it m'] less.prems m(1) obtain it' where
      it': "lines_loop ?it = Some (it', l)" "backward_at r a m' (li_chunks it')" "\<not> li_done it'" "li_reversed it'" by auto
    have "lines_collect it' = Some (rev (split_lines m'))" using less.hyps [OF _ it'(2,4,3)] m(1) by simp
    with it'(1) less.prems(3) m show ?thesis
      by (subst lines_collect.simps) (simp add: lines_next_def split_lines_before split_lines_plain)
  next
    case False
    from lines_loop_backward(1) [OF assms(1,2) _ _ False, of a m ?it] less.prems obtain it' where
      it': "lines_loop ?it = Some (it', m)" "li_done it'" by auto
    have "lines_collect it' = Some []" using it'(2) by (subst lines_collect.simps) (simp add: lines_next_def)
    with it'(1) less.prems(3) False show ?thesis by (subst lines_collect.simps) (simp add: lines_next_def split_lines_plain)
  qed
qed

end
