(* ===== verification/Rope_Clip.thy ===== *)
theory Rope_Clip
  imports Rope_Convert
begin

text \<open>
  Which position clipping finds (\<open>chunk.rs\<close> and \<open>rope.rs\<close>, \<open>clip_point\<close> and \<open>clip_point_utf16\<close>). The row is that of the
  position, or the last one; a column beyond the end of the line becomes the end of the line; any other column
  becomes the closest one on the side of the bias, among the character boundaries of the line for UTF-16 columns
  and, for byte columns, among the boundaries of grapheme clusters of the part of the line that lies in the chunk
  of the position, which is all of the text that the code shows the segmentation.
\<close>

section \<open>In a chunk\<close>

text \<open>The end of a prefix of the line, no farther from the column than any boundary of clusters on that side.\<close>

definition closest_cluster :: "(str \<Rightarrow> nat \<Rightarrow> bool) \<Rightarrow> bias \<Rightarrow> str \<Rightarrow> nat \<Rightarrow> nat \<Rightarrow> bool" where
  "closest_cluster grapheme b l t m \<longleftrightarrow> (\<exists>x. prefix_of x l \<and> str_len x = m) \<and>
     (if b = Left then m \<le> t \<and> (\<forall>x. prefix_of x l \<and> grapheme l (str_len x) \<and> str_len x \<le> t \<longrightarrow> str_len x \<le> m)
      else min t (str_len l) \<le> m \<and> (\<forall>x. prefix_of x l \<and> grapheme l (str_len x) \<and> t \<le> str_len x \<longrightarrow> m \<le> str_len x))"

lemma closest_cluster_exact:
  assumes "prefix_of x l"
  shows "closest_cluster grapheme b l (str_len x) (str_len x)"
  using assms by (auto simp: closest_cluster_def)

lemma prefix_len_le: "prefix_of x l \<Longrightarrow> str_len x \<le> str_len l"
  by (auto simp: prefix_of_def)

lemma clip_column_closest:
  assumes "segmentation grapheme" and "chunk_ok line" and "ck_text line = l"
  shows "\<exists>m. clip_column grapheme line b col = Some m \<and> closest_cluster grapheme b l col m"
proof -
  let ?stop = "\<lambda>n. chunk_is_char_boundary line n \<and> grapheme l n"
  have stop: "?stop n \<longleftrightarrow> str_is_char_boundary l n \<and> grapheme l n" for n
    using chunk_is_char_boundary_correct [OF assms(2)] assms(3) by simp
  have ends: "?stop 0" "?stop (str_len l)"
    using assms(1) prefix_boundary [of "[]" l] str_is_char_boundary_len [of l] unfolding stop by (auto simp: segmentation_def)
  have valid: "?stop (str_len x)" if "prefix_of x l" "grapheme l (str_len x)" for x
    unfolding stop using that prefix_boundary [of x] by (auto elim: prefix_ofE)
  consider (zero) "col = 0" | (beyond) "col \<noteq> 0" "str_len l \<le> col"
    | (ascii) "col \<noteq> 0" "col < str_len l" "as_bytes l ! (col - 1) < 128" "as_bytes l ! col < 128"
    | (loop) "col \<noteq> 0" "col < str_len l" "\<not> (as_bytes l ! (col - 1) < 128 \<and> as_bytes l ! col < 128)" by linarith
  then show ?thesis
  proof cases
    case zero
    then show ?thesis using closest_cluster_exact [of "[]" l grapheme b] by (simp add: prefix_of_def clip_column_def)
  next
    case beyond
    have whole: "prefix_of l l" by (simp add: prefix_of_def)
    have "grapheme l (str_len l)" using assms(1) by (simp add: segmentation_def)
    with beyond whole prefix_len_le [of _ l] have "closest_cluster grapheme b l col (str_len l)"
      unfolding closest_cluster_def by (auto intro: order_trans)
    then show ?thesis using beyond assms(3) by (simp add: clip_column_def)
  next
    case ascii
    obtain x where x: "prefix_of x l" "str_len x = col" using boundary_prefix [OF ascii_boundary [OF ascii(2,4)]] by blast
    from closest_cluster_exact [OF x(1), of grapheme b] x(2) ascii assms(3) show ?thesis by (auto simp: clip_column_def)
  next
    case loop
    have res: "clip_column grapheme line b col = clip_loop ?stop b col"
      unfolding clip_column_def assms(3) Let_def using loop by (simp only: if_False not_le) simp
    show ?thesis
    proof (cases b)
      case Left
      obtain m where m: "m \<le> col" "clip_loop ?stop Left col = Some m" "?stop m" "\<forall>k. m < k \<and> k \<le> col \<longrightarrow> \<not> ?stop k"
        using clip_loop_left [of ?stop, OF ends(1), of col] by blast
      have "\<exists>x. prefix_of x l \<and> str_len x = m" using m(3) stop boundary_prefix by blast
      moreover have "str_len x \<le> m" if "prefix_of x l" "grapheme l (str_len x)" "str_len x \<le> col" for x
        using m(4) valid [OF that(1,2)] that(3) by (meson not_le)
      ultimately show ?thesis using Left m(1,2) res by (auto simp: closest_cluster_def)
    next
      case Right
      obtain m where m: "col \<le> m" "clip_loop ?stop Right col = Some m" "?stop m" "\<forall>k. col \<le> k \<and> k < m \<longrightarrow> \<not> ?stop k"
        using clip_loop_right [of ?stop, OF ends(2), of col] loop(2) by auto
      have "\<exists>x. prefix_of x l \<and> str_len x = m" using m(3) stop boundary_prefix by blast
      moreover have "m \<le> str_len x" if "prefix_of x l" "grapheme l (str_len x)" "col \<le> str_len x" for x
        using m(4) valid [OF that(1,2)] that(3) by (meson not_le)
      ultimately show ?thesis using Right m(1,2) res by (auto simp: closest_cluster_def)
    qed
  qed
qed

text \<open>Clipping within a row of the chunk clips the column to the line of that row.\<close>

lemma chunk_clip_in_row:
  assumes "chunk_ok c" and "segmentation grapheme" and "row p \<le> newlines_in (ck_text c)"
  shows "\<exists>m. chunk_clip_point grapheme c p b = Some (Point (row p) m) \<and>
    closest_cluster grapheme b (split_lines (ck_text c) ! row p) (column p) m"
proof -
  have le: "row p \<le> row (ts_lines (summary_from (ck_text c) :: nat text_summary))" using assms(3) position_row(2) by metis
  then have r: "row p < length (split_lines (ck_text c))" using assms(3) by (simp add: length_split_lines newlines_in_def)
  from line_of_row [OF r] obtain pre q where at: "line_at (ck_text c) pre (split_lines (ck_text c) ! row p) q" "newlines_in pre = row p" by blast
  let ?l = "split_lines (ck_text c) ! row p"
  obtain line where line: "chunk_slice c (str_len pre) (str_len pre + str_len ?l) = Some line" "chunk_ok line" "ck_text line = ?l"
    by (rule line_slice [OF assms(1) at(1)])
  have rng: "offset_range_for_row c (row p) = Some (str_len pre, str_len pre + str_len ?l)"
    using offset_range_line [OF assms(1) at(1)] at(2) by simp
  obtain m where m: "clip_column grapheme line b (column p) = Some m" "closest_cluster grapheme b ?l (column p) m"
    using clip_column_closest [OF assms(2) line(2,3)] by blast
  have "chunk_clip_point grapheme c p b = map_option (Point (row p)) (clip_column grapheme line b (column p))"
    using le rng line whole_point(1) [OF assms(1)]
    by (cases p) (simp add: chunk_clip_point_def clip_column_def point_new_def chunk_len_def Let_def map_conv_bind_option comp_def)
  with m show ?thesis by simp
qed

lemma chunk_clip_utf16_in_row:
  assumes "chunk_ok c" and "row_utf16 p \<le> newlines_in (ck_text c)"
  shows "\<exists>m. chunk_clip_point_utf16 c (Unclipped p) b = Some (PointUtf16 (row_utf16 p) m) \<and>
    closest_boundary b (split_lines (ck_text c) ! row_utf16 p) (column_utf16 p) m"
proof -
  have le: "row_utf16 p \<le> row (ts_lines (summary_from (ck_text c) :: nat text_summary))" using assms(2) position_row(2) by metis
  then have r: "row_utf16 p < length (split_lines (ck_text c))" using assms(2) by (simp add: length_split_lines newlines_in_def)
  from line_of_row [OF r] obtain pre q where at: "line_at (ck_text c) pre (split_lines (ck_text c) ! row_utf16 p) q" "newlines_in pre = row_utf16 p" by blast
  let ?l = "split_lines (ck_text c) ! row_utf16 p"
  obtain line where line: "chunk_slice c (str_len pre) (str_len pre + str_len ?l) = Some line" "chunk_ok line" "ck_text line = ?l"
    by (rule line_slice [OF assms(1) at(1)])
  have rng: "offset_range_for_row c (row_utf16 p) = Some (str_len pre, str_len pre + str_len ?l)"
    using offset_range_line [OF assms(1) at(1)] at(2) by simp
  obtain m where m: "chunk_clip_offset_utf16 line (OffsetUtf16 (column_utf16 p)) b = Some (OffsetUtf16 m)" "closest_boundary b ?l (column_utf16 p) m"
    using clip_offset_utf16_correct [OF line(2)] line(3) by metis
  with le rng line whole_point(1) [OF assms(1)] show ?thesis by (simp add: chunk_clip_point_utf16_def)
qed

section \<open>The line through a chunk\<close>

text \<open>The lines of a text in three parts, of which the middle one is a chunk.\<close>

lemma split_lines_two: "split_lines (a @ b) = butlast (split_lines a) @ (last (split_lines a) @ hd (split_lines b)) # tl (split_lines b)"
proof (induction a)
  case (Cons x a)
  then show ?case by (cases "split_lines a") auto
qed (cases "split_lines b"; simp)

lemma length_split: "length (split_lines cs) = Suc (newlines_in cs)"
  by (simp add: length_split_lines newlines_in_def)

lemma middle_line:
  assumes "n \<le> newlines_in c"
  shows "split_lines (p @ c @ q) ! (newlines_in p + n) =
    (if n = 0 then last (split_lines p) else []) @ split_lines c ! n @ (if n = newlines_in c then hd (split_lines q) else [])"
proof -
  have two: "split_lines (a @ b) ! (newlines_in a + k) = (if k = 0 then last (split_lines a) @ hd (split_lines b) else split_lines b ! k)" for a b k
    unfolding split_lines_two by (cases k; cases "split_lines b") (simp_all add: nth_append length_split)
  have hd: "hd (split_lines b) = split_lines b ! 0" for b by (simp add: hd_conv_nth)
  have "split_lines (c @ q) ! n = split_lines c ! n @ (if n = newlines_in c then hd (split_lines q) else [])"
  proof (cases "n = newlines_in c")
    case True
    have "last (split_lines c) = split_lines c ! newlines_in c" by (simp add: last_conv_nth length_split)
    with True two [of c q 0] show ?thesis by simp
  next
    case False
    with assms show ?thesis unfolding split_lines_two by (simp add: nth_append length_split nth_butlast)
  qed
  with two [of p "c @ q" n] show ?thesis by (auto simp: hd)
qed

lemma last_line: "last (split_lines cs) = split_lines cs ! newlines_in cs"
  by (simp add: last_conv_nth length_split)

text \<open>
  A position that lies in the chunk \<open>C\<close>: its line is the line of the chunk in the row relative to the chunk, between
  the rest of the line before the chunk and the rest after it, and the column is relative to the former.
\<close>

lemma in_chunk_line:
  fixes p :: "nat point"
  defines "start P \<equiv> ts_lines (summary_from P) :: nat point"
  assumes "P = [] \<or> start P \<le> p" and "p < start (P @ C)"
  obtains u w where "row (point_sub p (start P)) \<le> newlines_in C" and "row p \<le> newlines_in (P @ C @ Q)"
    and "split_lines (P @ C @ Q) ! row p = u @ split_lines C ! row (point_sub p (start P)) @ w"
    and "column p = str_len u + column (point_sub p (start P))"
    and "w = [] \<or> column (point_sub p (start P)) < str_len (split_lines C ! row (point_sub p (start P)))"
    and "\<And>m. point_add (start P) (Point (row (point_sub p (start P))) m) = Point (row p) (str_len u + m)"
    and "start P \<le> p"
proof -
  define n where "n = row p - newlines_in P"
  let ?u = "if n = 0 then last (split_lines P) else []" and ?w = "if n = newlines_in C then hd (split_lines Q) else []"
  have start: "start l = Point (newlines_in l) (str_len (last (split_lines l)))" for l by (simp add: start_def point_of)
  have "start [] \<le> p" by (cases p) (auto simp: start less_eq_point_def newlines_in_def)
  with assms(2) have le: "start P \<le> p" by auto
  then have lo: "newlines_in P < row p \<or> newlines_in P = row p \<and> str_len (last (split_lines P)) \<le> column p"
    by (simp add: start less_eq_point_def)
  have hi: "row p < newlines_in P + newlines_in C \<or>
      row p = newlines_in P + newlines_in C \<and> column p < str_len (last (split_lines (P @ C)))"
    using assms(3) by (simp add: start less_point_def)
  have rows: "newlines_in P + n = row p" "n \<le> newlines_in C" using lo hi unfolding n_def by linarith+
  have v: "row (point_sub p (start P)) = n" "column p = str_len ?u + column (point_sub p (start P))"
    using lo rows by (cases "n = 0"; simp add: start point_sub_def point_new_def)+
  have here: "column p < str_len ?u + str_len (split_lines C ! n)" if "n = newlines_in C"
  proof -
    have "column p < str_len (last (split_lines (P @ C)))" using hi rows that by linarith
    also have "last (split_lines (P @ C)) = ?u @ split_lines C ! n"
      using middle_line [of n C P "[]"] rows that by (simp add: last_line)
    finally show ?thesis by simp
  qed
  show ?thesis
  proof (rule that [of ?u ?w])
    show "split_lines (P @ C @ Q) ! row p = ?u @ split_lines C ! row (point_sub p (start P)) @ ?w"
      using middle_line [OF rows(2), of P Q] rows(1) v(1) by simp
    show "?w = [] \<or> column (point_sub p (start P)) < str_len (split_lines C ! row (point_sub p (start P)))"
      using here v by auto
    show "point_add (start P) (Point (row (point_sub p (start P))) m) = Point (row p) (str_len ?u + m)" for m
      using rows(1) v(1) by (auto simp: start point_add_def point_new_def)
  qed (use rows v le in auto)
qed

lemma in_chunk_line_utf16:
  fixes p :: "nat point_utf16"
  defines "start P \<equiv> lines_utf16 (summary_from P) :: nat point_utf16"
  assumes "P = [] \<or> start P \<le> p" and "p < start (P @ C)"
  obtains u w where "row_utf16 (point_utf16_sub p (start P)) \<le> newlines_in C" and "row_utf16 p \<le> newlines_in (P @ C @ Q)"
    and "split_lines (P @ C @ Q) ! row_utf16 p = u @ split_lines C ! row_utf16 (point_utf16_sub p (start P)) @ w"
    and "column_utf16 p = utf16_len u + column_utf16 (point_utf16_sub p (start P))"
    and "w = [] \<or> column_utf16 (point_utf16_sub p (start P)) < utf16_len (split_lines C ! row_utf16 (point_utf16_sub p (start P)))"
    and "\<And>m. point_utf16_add (start P) (PointUtf16 (row_utf16 (point_utf16_sub p (start P))) m) = PointUtf16 (row_utf16 p) (utf16_len u + m)"
proof -
  define n where "n = row_utf16 p - newlines_in P"
  let ?u = "if n = 0 then last (split_lines P) else []" and ?w = "if n = newlines_in C then hd (split_lines Q) else []"
  have start: "start l = PointUtf16 (newlines_in l) (utf16_len (last (split_lines l)))" for l
    using summary_from_summarises [of l] by (simp add: start_def lines_utf16_def summarises_def length_split utf16_len_def)
  have "start [] \<le> p" by (cases p) (auto simp: start less_eq_point_utf16_def as_point_def less_eq_point_def newlines_in_def utf16_len_def)
  with assms(2) have le: "start P \<le> p" by auto
  then have lo: "newlines_in P < row_utf16 p \<or> newlines_in P = row_utf16 p \<and> utf16_len (last (split_lines P)) \<le> column_utf16 p"
    by (simp add: start less_eq_point_utf16_def as_point_def less_eq_point_def)
  have hi: "row_utf16 p < newlines_in P + newlines_in C \<or>
      row_utf16 p = newlines_in P + newlines_in C \<and> column_utf16 p < utf16_len (last (split_lines (P @ C)))"
    using assms(3) by (simp add: start less_point_utf16_def as_point_def less_point_def)
  have rows: "newlines_in P + n = row_utf16 p" "n \<le> newlines_in C" using lo hi unfolding n_def by linarith+
  have v: "row_utf16 (point_utf16_sub p (start P)) = n" "column_utf16 p = utf16_len ?u + column_utf16 (point_utf16_sub p (start P))"
    using lo rows by (cases "n = 0"; simp add: start point_utf16_sub_def utf16_len_def)+
  have here: "column_utf16 p < utf16_len ?u + utf16_len (split_lines C ! n)" if "n = newlines_in C"
  proof -
    have "column_utf16 p < utf16_len (last (split_lines (P @ C)))" using hi rows that by linarith
    also have "last (split_lines (P @ C)) = ?u @ split_lines C ! n"
      using middle_line [of n C P "[]"] rows that by (simp add: last_line)
    finally show ?thesis by simp
  qed
  show ?thesis
  proof (rule that [of ?u ?w])
    show "split_lines (P @ C @ Q) ! row_utf16 p = ?u @ split_lines C ! row_utf16 (point_utf16_sub p (start P)) @ ?w"
      using middle_line [OF rows(2), of P Q] rows(1) v(1) by simp
    show "?w = [] \<or> column_utf16 (point_utf16_sub p (start P)) < utf16_len (split_lines C ! row_utf16 (point_utf16_sub p (start P)))"
      using here v by auto
    show "point_utf16_add (start P) (PointUtf16 (row_utf16 (point_utf16_sub p (start P))) m) = PointUtf16 (row_utf16 p) (utf16_len ?u + m)" for m
      using rows(1) v(1) by (auto simp: start point_utf16_add_def)
  qed (use rows v in auto)
qed


section \<open>UTF-16 points of a rope\<close>

definition clipped_utf16 :: "bias \<Rightarrow> str \<Rightarrow> nat point_utf16 \<Rightarrow> nat point_utf16 \<Rightarrow> bool" where
  "clipped_utf16 b cs p q \<longleftrightarrow>
     (if newlines_in cs < row_utf16 p then q = lines_utf16 (summary_from cs)
      else row_utf16 q = row_utf16 p \<and> closest_boundary b (split_lines cs ! row_utf16 p) (column_utf16 p) (column_utf16 q))"

lemma closest_boundary_beyond:
  assumes "utf16_len cs \<le> t"
  shows "closest_boundary b cs t m \<longleftrightarrow> m = utf16_len cs"
proof
  have whole: "prefix_of cs cs" by (simp add: prefix_of_def)
  show "m = utf16_len cs" if "closest_boundary b cs t m"
    using that whole assms prefix_utf16_le [of _ cs] unfolding closest_boundary_def by (cases b) (force intro: antisym)+
  show "closest_boundary b cs t m" if "m = utf16_len cs"
    using that whole assms prefix_utf16_le [of _ cs] unfolding closest_boundary_def by (auto intro: order_trans)
qed

theorem rope_clip_point_utf16_closest:
  assumes "rope_ok r"
  shows "\<exists>q. rope_clip_point_utf16 r (Unclipped p) b = Some q \<and> clipped_utf16 b (rope_str r) p q"
proof (cases rule: lines_utf16_key.find_in_rope [OF assms, of p Right, case_names inside outside])
  case (inside P c Q)
  then have in': "rope_str r = P @ ck_text c @ Q" "chunk_ok c" "p < lines_utf16 (summary_from (P @ ck_text c))"
      "P = [] \<or> lines_utf16 (summary_from P) \<le> p"
    by (auto simp: chunk_in_def beyond_def)
  let ?v = "point_utf16_sub p (lines_utf16 (summary_from P))"
  let ?l = "split_lines (ck_text c) ! row_utf16 ?v"
  obtain u w where uw: "row_utf16 ?v \<le> newlines_in (ck_text c)" "row_utf16 p \<le> newlines_in (rope_str r)"
      "split_lines (rope_str r) ! row_utf16 p = u @ ?l @ w" "column_utf16 p = utf16_len u + column_utf16 ?v"
      "w = [] \<or> column_utf16 ?v < utf16_len ?l"
      "\<And>m. point_utf16_add (lines_utf16 (summary_from P)) (PointUtf16 (row_utf16 ?v) m) = PointUtf16 (row_utf16 p) (utf16_len u + m)"
    using in_chunk_line_utf16 [OF in'(4,3), of Q] unfolding in'(1) by metis
  obtain m where m: "chunk_clip_point_utf16 c (Unclipped ?v) b = Some (PointUtf16 (row_utf16 ?v) m)" "closest_boundary b ?l (column_utf16 ?v) m"
    using chunk_clip_utf16_in_row [OF in'(2) uw(1)] by blast
  have "closest_boundary b (u @ ?l @ w) (column_utf16 p) (utf16_len u + m)"
  proof (cases "column_utf16 ?v < utf16_len ?l")
    case True
    from closest_in_chunk [OF m(2) True, of u w] show ?thesis by (simp add: uw(4))
  next
    case False
    with uw(5) have "w = []" by simp
    moreover have "m = utf16_len ?l" using False m(2) closest_boundary_beyond [of ?l] by (simp add: not_less)
    ultimately show ?thesis using False uw(4) closest_boundary_beyond [of "u @ ?l" "column_utf16 p"] by simp
  qed
  with m(1) inside(1) uw(2,3,6) show ?thesis by (simp add: rope_clip_point_utf16_def clipped_utf16_def)
next
  case outside
  let ?e = "lines_utf16 (summary_from (rope_str r)) :: nat point_utf16" and ?n = "newlines_in (rope_str r)"
  have e: "?e = PointUtf16 ?n (utf16_len (split_lines (rope_str r) ! ?n))"
    using summary_from_summarises [of "rope_str r"] by (simp add: lines_utf16_def summarises_def length_split utf16_len_def flip: last_line)
  have "?e \<le> p"
  proof (cases "rope_str r = []")
    case True
    then have "?e = PointUtf16 0 0" using e by (simp add: newlines_in_def utf16_len_def)
    then show ?thesis by (cases p) (auto simp: less_eq_point_utf16_def as_point_def less_eq_point_def)
  qed (use outside(2) in \<open>auto simp: beyond_def\<close>)
  then have "clipped_utf16 b (rope_str r) p ?e"
    using closest_boundary_beyond [of "split_lines (rope_str r) ! ?n" "column_utf16 p" b]
    by (auto simp: clipped_utf16_def e less_eq_point_utf16_def as_point_def less_eq_point_def)
  with outside(1) show ?thesis by (simp add: rope_clip_point_utf16_def rope_measures(1) [OF assms])
qed

section \<open>Points of a rope\<close>

definition clipped_point :: "(str \<Rightarrow> nat \<Rightarrow> bool) \<Rightarrow> bias \<Rightarrow> rope \<Rightarrow> nat point \<Rightarrow> nat point \<Rightarrow> bool" where
  "clipped_point grapheme b r p q \<longleftrightarrow>
     (let cs = rope_str r; n = min (row p) (newlines_in cs); line = split_lines cs ! n in
      if newlines_in cs < row p \<or> str_len line \<le> column p then q = Point n (str_len line)
      else \<exists>before c after m. flat r = before @ c # after \<and>
        (let start = ts_lines (summary_from (concat (map ck_text before))); v = point_sub p start;
             piece = split_lines (ck_text c) ! row v
         in start \<le> p \<and> row v \<le> newlines_in (ck_text c) \<and> column v < str_len piece \<and>
            closest_cluster grapheme b piece (column v) m \<and> q = point_add start (Point (row v) m)))"

lemma no_text_no_chunks: "rope_ok r \<Longrightarrow> set cs \<subseteq> set (flat r) \<Longrightarrow> concat (map ck_text cs) = [] \<Longrightarrow> cs = []"
  by (cases cs) (auto simp: rope_ok_def chunks_ok_def)

text \<open>The chunk that \<open>find\<close> returns, with the chunks around it.\<close>

context text_position
begin

lemma find_split:
  assumes "rope_ok r"
  obtains (inside) before c after where "flat r = before @ c # after" and "chunk_ok c"
      and "find_item D (\<lambda>pos. cmp t (key pos)) b r =
        (at (concat (map ck_text before)), at (concat (map ck_text before) @ ck_text c), Some c)"
      and "\<not> beyond b t (key (at (concat (map ck_text before) @ ck_text c)))"
      and "before = [] \<or> beyond b t (key (at (concat (map ck_text before))))"
  | (outside) "find_item D (\<lambda>pos. cmp t (key pos)) b r = (at (rope_str r), at (rope_str r), None)"
      and "rope_str r = [] \<or> beyond b t (key (at (rope_str r)))"
proof (cases "rope_str r = []")
  case True
  then show ?thesis using empty_rope(2) [OF assms True] by (intro outside) simp_all
next
  case False
  let ?k = "seek_len D (\<lambda>pos. cmp t (key pos)) b (dzero D) (map (ssummary rope_ops) (flat r))"
  have wf: "wf_tree rope_ops r" "\<not> is_empty r"
    using assms False is_empty_flat [of rope_ops r] by (auto simp: rope_ok_def rope_str_def)
  have pos: "foldl (dadd D) (dzero D) (take i (map (ssummary rope_ops) (flat r))) = at (concat (map ck_text (take i (flat r))))" for i
    using rope_at [OF assms, of i] by (simp add: position_of_def take_map)
  note found = dimension_laws.find_item_correct [OF rope_dimension wf rope_target [OF assms, of t b]]
  show ?thesis
  proof (cases rule: search_in_rope [OF assms refl, of t b, case_names inside outside])
    case (inside p c q)
    then have "find_item D (\<lambda>pos. cmp t (key pos)) b r = (at p, at (p @ ck_text c), Some c)"
      unfolding found Let_def pos using inside by (simp add: take_Suc_conv_app_nth)
    note found_at = this
    show ?thesis
    proof (rule that(1) [of "take ?k (flat r)" c "drop (Suc ?k) (flat r)"])
      show "flat r = take ?k (flat r) @ c # drop (Suc ?k) (flat r)" using inside(1,2) id_take_nth_drop by metis
      show "chunk_ok c" using inside(4) by (simp add: chunk_in_def)
      show "take ?k (flat r) = [] \<or> beyond b t (key (at (concat (map ck_text (take ?k (flat r))))))"
        using inside(3,6) no_text_no_chunks [OF assms set_take_subset, of ?k] by blast
    qed (use found_at inside(3,5) in simp_all)
  next
    case outside
    then have "find_item D (\<lambda>pos. cmp t (key pos)) b r = (at (rope_str r), at (rope_str r), None)"
      unfolding found Let_def pos by (simp add: rope_str_def)
    with outside that(2) show ?thesis by blast
  qed
qed

end

lemma closest_cluster_beyond:
  assumes "segmentation grapheme" and "str_len l \<le> t" and "closest_cluster grapheme b l t m"
  shows "m = str_len l"
proof -
  have whole: "prefix_of l l" "grapheme l (str_len l)" using assms(1) by (simp_all add: prefix_of_def segmentation_def)
  then show ?thesis using assms(2,3) prefix_len_le [of _ l] unfolding closest_cluster_def by (cases b) (force intro: antisym)+
qed

theorem rope_clip_point_closest:
  assumes "rope_ok r" and "segmentation grapheme"
  shows "\<exists>q. rope_clip_point grapheme r p b = Some q \<and> clipped_point grapheme b r p q"
proof (cases rule: lines_key.find_split [OF assms(1), of p Right, case_names inside outside])
  case (inside before c after)
  let ?P = "concat (map ck_text before)" and ?Q = "concat (map ck_text after)"
  let ?start = "ts_lines (summary_from ?P) :: nat point"
  have cs: "rope_str r = ?P @ ck_text c @ ?Q" by (simp add: rope_str_def inside(1))
  have in': "p < ts_lines (summary_from (?P @ ck_text c))" "?P = [] \<or> ?start \<le> p" using inside(4,5) by (auto simp: beyond_def)
  let ?v = "point_sub p ?start"
  let ?l = "split_lines (ck_text c) ! row ?v"
  obtain u w where uw: "row ?v \<le> newlines_in (ck_text c)" "row p \<le> newlines_in (rope_str r)"
      "split_lines (rope_str r) ! row p = u @ ?l @ w" "column p = str_len u + column ?v" "w = [] \<or> column ?v < str_len ?l"
      "\<And>m. point_add ?start (Point (row ?v) m) = Point (row p) (str_len u + m)" "?start \<le> p"
    using in_chunk_line [OF in'(2,1), of ?Q] unfolding cs by metis
  obtain m where m: "chunk_clip_point grapheme c ?v b = Some (Point (row ?v) m)" "closest_cluster grapheme b ?l (column ?v) m"
    using chunk_clip_in_row [OF inside(2) assms(2) uw(1)] by blast
  have res: "rope_clip_point grapheme r p b = Some (Point (row p) (str_len u + m))"
    using m(1) inside(3) uw(6) by (simp add: rope_clip_point_def)
  have n: "min (row p) (newlines_in (rope_str r)) = row p" using uw(2) by simp
  have "clipped_point grapheme b r p (Point (row p) (str_len u + m))"
  proof (cases "column ?v < str_len ?l")
    case True
    then have "\<not> str_len (u @ ?l @ w) \<le> column p" using uw(4) by simp
    with True inside(1) uw(1-3,6,7) m(2) show ?thesis
      unfolding clipped_point_def Let_def n
      by (simp del: split_paired_Ex) (intro exI [of _ before] exI [of _ c] conjI exI [of _ after] exI [of _ m]; simp)
  next
    case False
    with uw(5) have "w = []" by simp
    moreover have "m = str_len ?l" using closest_cluster_beyond [OF assms(2) _ m(2)] False by simp
    ultimately show ?thesis using False uw(2-4) unfolding clipped_point_def Let_def n by simp
  qed
  with res show ?thesis by blast
next
  case outside
  let ?e = "ts_lines (summary_from (rope_str r)) :: nat point" and ?n = "newlines_in (rope_str r)"
  have e: "?e = Point ?n (str_len (split_lines (rope_str r) ! ?n))" by (simp add: point_of last_line)
  have "?e \<le> p"
  proof (cases "rope_str r = []")
    case True
    then have "?e = Point 0 0" using e by (simp add: newlines_in_def)
    then show ?thesis by (cases p) (auto simp: less_eq_point_def)
  qed (use outside(2) in \<open>auto simp: beyond_def\<close>)
  then have "clipped_point grapheme b r p ?e" by (auto simp: clipped_point_def e less_eq_point_def Let_def)
  with outside(1) show ?thesis by (simp add: rope_clip_point_def rope_measures(1) [OF assms(1)])
qed

text \<open>In any case the result is on the side of the bias, unless a column beyond the end of its line is clipped to the end.\<close>

lemma clipped_point_side:
  assumes "clipped_point grapheme b r p q"
  shows "row q = min (row p) (newlines_in (rope_str r))" and "b = Left \<Longrightarrow> q \<le> p"
    and "b = Right \<Longrightarrow> row p \<le> newlines_in (rope_str r) \<Longrightarrow> column p \<le> str_len (split_lines (rope_str r) ! row p) \<Longrightarrow> p \<le> q"
proof -
  have "row q = min (row p) (newlines_in (rope_str r)) \<and> (b = Left \<longrightarrow> q \<le> p) \<and>
    (b = Right \<longrightarrow> row p \<le> newlines_in (rope_str r) \<longrightarrow> column p \<le> str_len (split_lines (rope_str r) ! row p) \<longrightarrow> p \<le> q)"
  proof (cases "newlines_in (rope_str r) < row p \<or> str_len (split_lines (rope_str r) ! min (row p) (newlines_in (rope_str r))) \<le> column p")
    case True
    then have "q = Point (min (row p) (newlines_in (rope_str r))) (str_len (split_lines (rope_str r) ! min (row p) (newlines_in (rope_str r))))"
      using assms by (simp add: clipped_point_def Let_def)
    with True show ?thesis by (auto simp: less_eq_point_def min_def)
  next
    case False
    then obtain start v m piece where m: "start \<le> p" "v = point_sub p start" "column v < str_len piece"
        "closest_cluster grapheme b piece (column v) m" "q = point_add start (Point (row v) m)"
      using assms unfolding clipped_point_def Let_def by (simp only: if_False) blast
    have p: "p = point_add start (Point (row v) (column v))"
      using m(1,2) by (cases p; cases start) (auto simp: point_add_def point_sub_def point_new_def less_eq_point_def)
    have "row q = row p" by (subst p) (simp add: m(5) point_add_def point_new_def)
    moreover have "q \<le> p" if "b = Left"
    proof -
      have "m \<le> column v" using m(4) that by (simp add: closest_cluster_def)
      then have "Point (row v) m \<le> Point (row v) (column v)" by (simp add: less_eq_point_def)
      from point_add_mono [OF this, of start] show ?thesis using p m(5) by simp
    qed
    moreover have "p \<le> q" if "b = Right"
    proof -
      have "column v \<le> m" using m(3,4) that by (simp add: closest_cluster_def)
      then have "Point (row v) (column v) \<le> Point (row v) m" by (simp add: less_eq_point_def)
      from point_add_mono [OF this, of start] show ?thesis using p m(5) by simp
    qed
    ultimately show ?thesis using False by simp
  qed
  then show "row q = min (row p) (newlines_in (rope_str r))" and "b = Left \<Longrightarrow> q \<le> p"
    and "b = Right \<Longrightarrow> row p \<le> newlines_in (rope_str r) \<Longrightarrow> column p \<le> str_len (split_lines (rope_str r) ! row p) \<Longrightarrow> p \<le> q"
    by blast+
qed
end
