(* ===== verification/Rope_Theorems.thy ===== *)
theory Rope_Theorems
  imports Rope_Chunks Rope_Clip Chunk_Theorems
begin

text \<open>
  The properties of ropes: what the editing operations, conversions, cursors and iterators of a rope
  have to do with its text. Each is applied to a concrete rope.
\<close>

section \<open>An example\<close>

definition sample_rope :: rope where
  "sample_rope = Leaf (chunk_item_summary sample_chunk) [sample_chunk] [chunk_item_summary sample_chunk]"

lemma sample_rope_facts:
  "rope_ok sample_rope" "rope_str sample_rope = sample" "shallow sample_rope" "slices_fit sample_rope"
proof -
  have flat: "flat sample_rope = [sample_chunk]" "height sample_rope = 0" by (simp_all add: sample_rope_def)
  have "wf_tree rope_ops sample_rope" using rope_chunks.add_zero_left by (simp add: sample_rope_def rope_ops_def sum_of_def TREE_BASE_def)
  with flat sample_facts show ok: "rope_ok sample_rope" by (auto simp: rope_ok_def chunks_ok_def sample_def)
  show "rope_str sample_rope = sample" using flat sample_facts by (simp add: rope_str_def)
  show "shallow sample_rope" using flat by (simp add: shallow_def STACK_CAPACITY_def)
  show "slices_fit sample_rope" using one_chunk_fits [OF ok] flat by simp
qed

lemma sample_split: "sample = [97, 10] @ [0x1F600] @ [98]" "str_len [97, 10] = 2" "str_len [97, 10, 0x1F600] = 6"
  by (simp_all add: sample_def len_utf8_def)

section \<open>Properties\<close>

text \<open>
  C10 Every rope that the constructors, \<open>push\<close>, \<open>append\<close> and \<open>push_front\<close> make keeps its invariant: a well-formed
  tree of non-empty chunks whose bitmaps describe their text, each but the last at most three bytes short of
  half full. None of them panics, and the text is the concatenation of the texts they are given. A rope that
  is walked with a cursor must be lower than the 16 entries of the cursor's stack.
\<close>

theorem rope_edits:
  assumes "rope_ok r" and "rope_ok u" and "shallow u"
  shows "holds (rope_push r s) (rope_str r @ s) \<and> holds (rope_append r u) (rope_str r @ rope_str u) \<and>
    holds (push_front u s) (s @ rope_str u) \<and> holds (rope_from s) s \<and> holds (rope_from_iter rope_new ss) (concat ss)"
  using rope_push_holds [OF assms(1), of s] rope_append_holds [OF assms] push_front_holds [OF assms(2,3), of s]
    rope_from_holds [of s] rope_from_iter_holds [OF rope_new_ok(1), of ss] by (simp add: rope_new_ok(2))

theorem rope_edits_witness: "holds (rope_append sample_rope sample_rope) [97, 10, 0x1F600, 98, 97, 10, 0x1F600, 98]"
  using rope_edits [OF sample_rope_facts(1,1,3)] sample_rope_facts(2) by (simp add: sample_def)

text \<open>
  C11 Replacing a range of a rope at character boundaries replaces exactly those bytes of the text, slicing
  returns exactly that part, by offsets and by rows, and the results keep the invariant of ropes.
\<close>

theorem rope_ranges:
  assumes "rope_ok r" and "slices_fit r" and "rope_str r = a @ m @ b"
  shows "holds (rope_replace r (str_len a, str_len (a @ m)) s) (a @ s @ b) \<and>
    holds (rope_slice r (str_len a, str_len (a @ m))) m \<and>
    ((a = [] \<or> last a = newline_char) \<and> (a @ m = [] \<or> last (a @ m) = newline_char) \<longrightarrow>
       holds (rope_slice_rows r (newlines_in a, newlines_in (a @ m))) m)"
  using rope_replace_holds [OF assms, of s] rope_slice_holds [OF assms] rope_slice_rows_holds [OF assms] by blast

theorem rope_ranges_witness: "holds (rope_replace sample_rope (2, 6) [99]) [97, 10, 99, 98]"
proof -
  have "rope_str sample_rope = [97, 10] @ [0x1F600] @ [98]" using sample_rope_facts(2) sample_split(1) by simp
  from rope_ranges [OF sample_rope_facts(1,4) this, of "[99]"] sample_split(2,3) show ?thesis by simp
qed

text \<open>
  C12 At every character boundary of a rope of less than 4 GiB, the conversions among byte offsets, UTF-16 offsets,
  points and UTF-16 points answer for the whole text: each takes the measure of the text before the boundary in one
  coordinate to its measure in another, so that any two of them undo each other. The points are machine points, whose
  32-bit rows and columns are those of the text before the boundary, read as numbers.
\<close>

theorem rope_positions:
  assumes "rope_ok r" and "shallow r" and "rope_str r = l @ q" and "str_len (rope_str r) < 2 ^ 32"
  defines "point \<equiv> point_nat (ts_lines (summary_from l :: u32 text_summary))"
    and "point16 \<equiv> point_utf16_nat (lines_utf16 (summary_from l :: u32 text_summary))"
    and "offset16 \<equiv> OffsetUtf16 (utf16_len l)"
  shows "rope_offset_to_offset_utf16 r (str_len l) = Some offset16 \<and> rope_offset_utf16_to_offset r offset16 = Some (str_len l) \<and>
    rope_offset_to_point r (str_len l) = Some point \<and> rope_point_to_offset r point = Some (str_len l) \<and>
    rope_offset_to_point_utf16 r (str_len l) = Some point16 \<and> rope_point_utf16_to_offset r point16 = Some (str_len l) \<and>
    rope_unclipped_point_utf16_to_offset r (Unclipped point16) = Some (str_len l) \<and>
    rope_point_to_point_utf16 r point = Some point16 \<and> rope_point_utf16_to_point r point16 = Some point \<and>
    rope_unclipped_point_utf16_to_point r (Unclipped point16) = Some point \<and>
    rope_point_to_offset_utf16 r point = Some offset16 \<and> rope_point_utf16_to_offset_utf16 r point16 = Some offset16"
proof -
  have "str_len l < 2 ^ 32" using assms(3,4) by simp
  from point_nat_from [OF this] show ?thesis
    unfolding point_def point16_def offset16_def rope_point_utf16_to_offset_def rope_unclipped_point_utf16_to_offset_def
      rope_point_utf16_to_offset_utf16_def unclipped.sel
    using rope_offset_to_offset_utf16_prefix [OF assms(1,3)] rope_offset_utf16_to_offset_prefix [OF assms(1,3)]
      rope_offset_to_point_prefix [OF assms(1,3)] rope_point_to_offset_prefix [OF assms(1,3)]
      rope_offset_to_point_utf16_prefix [OF assms(1,3)] rope_point_utf16_to_offset_impl_prefix [OF assms(1,3)]
      rope_point_to_point_utf16_prefix [OF assms(1,3)] rope_point_utf16_to_point_prefix [OF assms(1,3,2)]
      rope_unclipped_point_utf16_to_point_prefix [OF assms(1,3)] rope_point_to_offset_utf16_prefix [OF assms(1,3,2)]
      rope_point_utf16_to_offset_utf16_impl_prefix [OF assms(1,3,2)] by metis
qed

theorem rope_positions_witness: "rope_offset_to_offset_utf16 sample_rope 6 = Some (OffsetUtf16 4)"
proof -
  have "rope_str sample_rope = [97, 10, 0x1F600] @ [98]" using sample_rope_facts(2) sample_split(1) by simp
  moreover have "str_len (rope_str sample_rope) < 2 ^ 32" using sample_rope_facts(2) sample_facts(3) by simp
  ultimately have "rope_offset_to_offset_utf16 sample_rope (str_len [97, 10, 0x1F600]) = Some (OffsetUtf16 (utf16_len [97, 10, 0x1F600]))"
    using rope_positions [OF sample_rope_facts(1,3)] by blast
  then show ?thesis unfolding sample_split(3) by (simp add: utf16_len_def char_len_utf16_def)
qed



text \<open>
  C20 A cursor over a rope of less than 4 GiB that starts at a boundary measures the text up to a later boundary, in bytes, UTF-16
  code units, points, UTF-16 points, as a whole summary and in pairs of these; the cursor is then at that boundary. The
  points and the counters are those of the machine summary of that part of the text, read as numbers.
\<close>

theorem rope_cursor_measures:
  assumes "rope_ok r" and "shallow r" and "rope_str r = a @ m @ b" and "str_len (rope_str r) < 2 ^ 32"
  defines "s \<equiv> summary_from m :: u32 text_summary" and "e \<equiv> str_len (a @ m)"
  shows "\<exists>c. rope_cursor_new r (str_len a) = Some c \<and>
    (\<exists>c'. rope_cursor_summary len_dim len_from_chunk (+) c e = Some (c', str_len m) \<and> rope_cursor_ok r e c') \<and>
    (\<exists>c'. rope_cursor_summary len_utf16_dim len_utf16_from_chunk offset_utf16_add c e = Some (c', OffsetUtf16 (utf16_len m)) \<and> rope_cursor_ok r e c') \<and>
    (\<exists>c'. rope_cursor_summary lines_dim lines_from_chunk point_add_assign c e = Some (c', point_nat (ts_lines s)) \<and> rope_cursor_ok r e c') \<and>
    (\<exists>c'. rope_cursor_summary lines_utf16_dim lines_utf16_from_chunk point_utf16_add c e = Some (c', point_utf16_nat (lines_utf16 s)) \<and> rope_cursor_ok r e c') \<and>
    (\<exists>c'. rope_cursor_summary text_summary_dim text_summary_from_chunk summary_add c e = Some (c', text_nat s) \<and> rope_cursor_ok r e c') \<and>
    (\<exists>c'. rope_cursor_summary (pair_dim len_dim lines_dim) (pair_from_chunk len_from_chunk lines_from_chunk)
       (pair_add_assign (+) point_add_assign) c e = Some (c', DimensionPair (str_len m) (Some (point_nat (ts_lines s)))) \<and> rope_cursor_ok r e c')"
proof -
  obtain c where c: "rope_cursor_new r (str_len a) = Some c" "rope_cursor_ok r (str_len a) c"
    using rope_cursor_new_ok [OF assms(1,2), of "str_len a"] assms(3) by auto
  note measured = assms(1,2,3) c(2)
  have "str_len m < 2 ^ 32" using assms(3,4) by simp
  note machine = point_nat_from [OF this] text_nat_from [OF this]
  have "chunk_dimension (pair_dim len_dim lines_dim) (pair_from_text_summary ts_len ts_lines) (pair_add_assign (+) point_add_assign)
      (pair_from_chunk len_from_chunk lines_from_chunk)"
    by (rule pair_chunk_dimension) (rule len_chunk.chunk_dimension_axioms lines_chunk.chunk_dimension_axioms)+
  from chunk_dimension.rope_cursor_summary_ok [OF this measured]
    len_chunk.rope_cursor_summary_ok [OF measured] len_utf16_chunk.rope_cursor_summary_ok [OF measured]
    lines_chunk.rope_cursor_summary_ok [OF measured] lines_utf16_chunk.rope_cursor_summary_ok [OF measured]
    whole_chunk.rope_cursor_summary_ok [OF measured] c(1)
  show ?thesis by (simp add: s_def e_def measures pair_from_text_summary_def machine)
qed

theorem rope_cursor_measures_witness:
  "\<exists>c c'. rope_cursor_new sample_rope 2 = Some c \<and> rope_cursor_summary len_dim len_from_chunk (+) c 6 = Some (c', 4)"
proof -
  have "rope_str sample_rope = [97, 10] @ [0x1F600] @ [98]" using sample_rope_facts(2) sample_split(1) by simp
  moreover have "str_len (rope_str sample_rope) < 2 ^ 32" using sample_rope_facts(2) sample_facts(3) by simp
  ultimately obtain c c' where "rope_cursor_new sample_rope (str_len [97, 10]) = Some c"
      "rope_cursor_summary len_dim len_from_chunk (+) c (str_len ([97, 10] @ [0x1F600])) = Some (c', str_len [0x1F600])"
    using rope_cursor_measures [OF sample_rope_facts(1,3)] by blast
  moreover have "str_len [0x1F600] = 4" "str_len ([97, 10] @ [0x1F600]) = 6" by (simp_all add: str_len_def len_utf8_def)
  ultimately show ?thesis unfolding sample_split(2) by metis
qed



text \<open>
  C18 Every loop over an iterator of a rope ends without a panic, and what it yields makes up the range: the chunks of a
  range are non-empty pieces whose concatenation is the text of the range, in reverse their reversal; the lines, which
  the iterator assembles from pieces of chunks and seeks, are the lines of the range, in reverse order for a reversed iterator.
\<close>

theorem rope_iterators_end:
  assumes "rope_ok r" and "shallow r" and "rope_str r = a @ m @ b"
  shows "\<exists>it rit ps rps. rope_chunks_in_range r (str_len a, str_len (a @ m)) = Some it \<and>
    rope_reversed_chunks_in_range r (str_len a, str_len (a @ m)) = Some rit \<and>
    chunks_collect it = Some ps \<and> concat ps = m \<and> [] \<notin> set ps \<and>
    chunks_collect rit = Some rps \<and> concat (rev rps) = m \<and> [] \<notin> set rps \<and>
    lines_collect (chunks_lines it) = Some (split_lines m) \<and>
    lines_collect (chunks_lines rit) = Some (rev (split_lines m))"
proof -
  from rope_chunks_in_range_at [OF assms] obtain it where
    it: "rope_chunks_in_range r (str_len a, str_len (a @ m)) = Some it" "forward_at r a m it" by blast
  from rope_reversed_chunks_in_range_at [OF assms] obtain rit where
    rit: "rope_reversed_chunks_in_range r (str_len a, str_len (a @ m)) = Some rit" "backward_at r a m rit" by blast
  have "lines_collect (chunks_lines it) = Some (split_lines m)"
    using lines_collect_forward [OF assms(1,2), of a m "chunks_lines it"] it(2) by (simp add: chunks_lines_def forward_at_def)
  moreover have "lines_collect (chunks_lines rit) = Some (rev (split_lines m))"
    using lines_collect_backward [OF assms(1,2), of a m "chunks_lines rit"] rit(2) by (simp add: chunks_lines_def backward_at_def)
  ultimately show ?thesis
    using it(1) rit(1) forward_collect [OF assms(1,2) it(2)] backward_collect [OF assms(1,2) rit(2)] by blast
qed

theorem rope_iterators_end_witness:
  "\<exists>it. rope_chunks_in_range sample_rope (0, 7) = Some it \<and> lines_collect (chunks_lines it) = Some [[97], [0x1F600, 98]]"
proof -
  have "rope_str sample_rope = [] @ sample @ []" using sample_rope_facts(2) by simp
  moreover have "split_lines sample = [[97], [0x1F600, 98]]" by (simp add: sample_def newline_char_def)
  moreover from rope_iterators_end [OF sample_rope_facts(1,3) calculation(1)] obtain it where
    "rope_chunks_in_range sample_rope (0, 7) = Some it" "lines_collect (chunks_lines it) = Some (split_lines sample)"
    using sample_facts(3) by auto
  ultimately show ?thesis by simp
qed

text \<open>
  C21 Comparing a rope with a string without building its text gives the answer for the text: \<open>starts_with\<close>, \<open>ends_with\<close> and
  \<open>equals_str\<close> of the chunks of a range always return, also when pieces of the chunks and of the string do not line up
  at character boundaries; \<open>chars_at\<close> and \<open>reversed_chars_at\<close> read the text from a boundary on in either direction.
\<close>

theorem rope_comparisons:
  assumes "rope_ok r" and "shallow r" and "rope_str r = a @ m @ b"
  shows "rope_starts_with r pat = Some (\<exists>t. rope_str r = pat @ t) \<and> rope_ends_with r pat = Some (\<exists>t. rope_str r = t @ pat) \<and>
    (\<exists>it. rope_chunks_in_range r (str_len a, str_len (a @ m)) = Some it \<and> equals_str it pat = Some (m = pat)) \<and>
    (\<exists>it. rope_reversed_chunks_in_range r (str_len a, str_len (a @ m)) = Some it \<and> equals_str it pat = Some (m = pat)) \<and>
    rope_chars_at r (str_len a) = Some (m @ b) \<and> rope_reversed_chars_at r (str_len a) = Some (rev a)"
proof (intro conjI)
  obtain it where "rope_chunks_in_range r (str_len a, str_len (a @ m)) = Some it" "forward_at r a m it"
    using rope_chunks_in_range_at [OF assms] by blast
  then show "\<exists>it. rope_chunks_in_range r (str_len a, str_len (a @ m)) = Some it \<and> equals_str it pat = Some (m = pat)"
    using equals_str_correct [OF assms(1,2)] by blast
  obtain it where "rope_reversed_chunks_in_range r (str_len a, str_len (a @ m)) = Some it" "backward_at r a m it"
    using rope_reversed_chunks_in_range_at [OF assms] by blast
  then show "\<exists>it. rope_reversed_chunks_in_range r (str_len a, str_len (a @ m)) = Some it \<and> equals_str it pat = Some (m = pat)"
    using equals_str_correct [OF assms(1,2)] by blast
qed (use rope_starts_with_correct [OF assms(1,2)] rope_ends_with_correct [OF assms(1,2)] rope_chars_at_correct [OF assms]
  rope_reversed_chars_at_correct [OF assms] in \<open>simp_all add: str_starts_with_iff str_ends_with_iff\<close>)

theorem rope_comparisons_witness: "rope_ends_with sample_rope [0x1F600, 98] = Some True"
proof -
  have s: "rope_str sample_rope = [97, 10] @ [0x1F600, 98] @ []" using sample_rope_facts(2) by (simp add: sample_def)
  then have "\<exists>t. rope_str sample_rope = t @ [0x1F600, 98]" by auto
  with rope_comparisons [OF sample_rope_facts(1,3) s, of "[0x1F600, 98]"] show ?thesis by simp
qed

end
