(* ===== verification/History.thy ===== *)
theory History
  imports Rope Undo_Map
begin

text \<open>
  The crate \<open>text\<close>, file \<open>text.rs\<close>: the operations that replicas exchange and the history of a buffer, with
  its stacks of transactions to undo and redo. Points in time are natural numbers: the difference of
  two \<open>Instant\<close>s is zero when the second is later, as subtraction of natural numbers is.
\<close>

section \<open>Operations\<close>

text \<open>A \<open>FullOffset\<close> counts deleted text too.\<close>

datatype full_offset = FullOffset (full_value: nat)

instantiation full_offset :: linorder
begin

definition less_eq_full_offset :: "full_offset \<Rightarrow> full_offset \<Rightarrow> bool" where
  "less_eq_full_offset a b \<longleftrightarrow> full_value a \<le> full_value b"

definition less_full_offset :: "full_offset \<Rightarrow> full_offset \<Rightarrow> bool" where
  "less_full_offset a b \<longleftrightarrow> full_value a < full_value b"

instance
  by standard (auto simp: less_eq_full_offset_def less_full_offset_def full_offset.expand)

end

definition full_offset_add :: "full_offset \<Rightarrow> nat \<Rightarrow> full_offset" where
  "full_offset_add a n = FullOffset (full_value a + n)"

definition full_offset_sub :: "full_offset \<Rightarrow> full_offset \<Rightarrow> nat option" where
  "full_offset_sub a b = usize_sub (full_value a) (full_value b)"

record edit_operation =
  eo_timestamp :: lamport
  eo_version :: global
  eo_ranges :: "(full_offset \<times> full_offset) list"
  eo_new_text :: "str list"

datatype operation = EditOp edit_operation | UndoOp undo_operation

definition operation_timestamp :: "operation \<Rightarrow> lamport" where
  "operation_timestamp op = (case op of EditOp edit \<Rightarrow> eo_timestamp edit | UndoOp undo \<Rightarrow> undo_timestamp undo)"

definition operation_replica_id :: "operation \<Rightarrow> replica_id" where
  "operation_replica_id op = replica_id (operation_timestamp op)"

definition operation_version :: "operation \<Rightarrow> global" where
  "operation_version op = (case op of EditOp edit \<Rightarrow> eo_version edit | UndoOp undo \<Rightarrow> undo_version undo)"

definition as_edit :: "operation \<Rightarrow> edit_operation option" where
  "as_edit op = (case op of EditOp edit \<Rightarrow> Some edit | UndoOp _ \<Rightarrow> None)"

definition is_edit :: "operation \<Rightarrow> bool" where
  "is_edit op = (case op of EditOp _ \<Rightarrow> True | UndoOp _ \<Rightarrow> False)"

section \<open>Transactions\<close>

record transaction =
  tr_id :: lamport
  tr_edit_ids :: "lamport list"
  tr_start :: global

record history_entry =
  he_transaction :: transaction
  he_first_edit_at :: nat
  he_last_edit_at :: nat
  he_suppress_grouping :: bool

definition merge_in :: "transaction \<Rightarrow> transaction \<Rightarrow> transaction" where
  "merge_in self other = self\<lparr>tr_edit_ids := tr_edit_ids self @ tr_edit_ids other\<rparr>"

definition he_id :: "history_entry \<Rightarrow> lamport" where
  "he_id e = tr_id (he_transaction e)"

abbreviation he_edits :: "history_entry \<Rightarrow> lamport list" where
  "he_edits e \<equiv> tr_edit_ids (he_transaction e)"

definition he_extend :: "lamport list \<Rightarrow> history_entry \<Rightarrow> history_entry" where
  "he_extend ids e = e\<lparr>he_transaction := (he_transaction e)\<lparr>tr_edit_ids := tr_edit_ids (he_transaction e) @ ids\<rparr>\<rparr>"

text \<open>The stacks are vectors whose last element is the top.\<close>

record history =
  hi_base_text :: rope
  hi_operations :: "(lamport, operation) tree_map"
  hi_undo_stack :: "history_entry list"
  hi_redo_stack :: "history_entry list"
  hi_transaction_depth :: nat
  hi_group_interval :: nat

definition GROUP_INTERVAL :: nat where
  "GROUP_INTERVAL = 300"

definition history_new :: "rope \<Rightarrow> history" where
  "history_new base_text = \<lparr>hi_base_text = base_text, hi_operations = map_new, hi_undo_stack = [], hi_redo_stack = [],
     hi_transaction_depth = 0, hi_group_interval = GROUP_INTERVAL\<rparr>"

definition history_push :: "history \<Rightarrow> operation \<Rightarrow> history option" where
  "history_push h op = do {
     operations \<leftarrow> map_insert (hi_operations h) (operation_timestamp op) op;
     Some (h\<lparr>hi_operations := operations\<rparr>) }"

definition new_entry :: "transaction \<Rightarrow> nat \<Rightarrow> history_entry" where
  "new_entry t now = \<lparr>he_transaction = t, he_first_edit_at = now, he_last_edit_at = now, he_suppress_grouping = False\<rparr>"

text \<open>A method that is passed the clock returns it after the call.\<close>

definition start_transaction :: "history \<Rightarrow> global \<Rightarrow> nat \<Rightarrow> lamport \<Rightarrow> history \<times> lamport \<times> lamport option" where
  "start_transaction h start now clock =
     (let h = h\<lparr>hi_transaction_depth := hi_transaction_depth h + 1\<rparr> in
      if hi_transaction_depth h = 1
      then (case tick clock of (tid, clock) \<Rightarrow>
              (h\<lparr>hi_undo_stack := hi_undo_stack h @ [new_entry \<lparr>tr_id = tid, tr_edit_ids = [], tr_start = start\<rparr> now]\<rparr>, clock, Some tid))
      else (h, clock, None))"

definition end_transaction :: "history \<Rightarrow> nat \<Rightarrow> (history \<times> history_entry option) option" where
  "end_transaction h now = do {
     _ \<leftarrow> require (hi_transaction_depth h \<noteq> 0);
     let h = h\<lparr>hi_transaction_depth := hi_transaction_depth h - 1\<rparr>;
     if hi_transaction_depth h = 0
     then do {
       he \<leftarrow> last_opt (hi_undo_stack h);
       if he_edits he = [] then Some (h\<lparr>hi_undo_stack := butlast (hi_undo_stack h)\<rparr>, None)
       else (let he = he\<lparr>he_last_edit_at := now\<rparr>
             in Some (h\<lparr>hi_redo_stack := [], hi_undo_stack := butlast (hi_undo_stack h) @ [he]\<rparr>, Some he)) }
     else Some (h, None) }"

definition group_trailing :: "history \<Rightarrow> nat \<Rightarrow> (history \<times> lamport option) option" where
  "group_trailing h n = do {
     new_len \<leftarrow> usize_sub (length (hi_undo_stack h)) n;
     let entries_to_keep = take new_len (hi_undo_stack h);
     let entries_to_merge = drop new_len (hi_undo_stack h);
     let kept = (case rev entries_to_keep of
         [] \<Rightarrow> []
       | last_entry # before \<Rightarrow>
           (let last_entry = he_extend (concat (map he_edits entries_to_merge)) last_entry;
                last_entry = (if entries_to_merge = [] then last_entry
                              else last_entry\<lparr>he_last_edit_at := he_last_edit_at (last entries_to_merge)\<rparr>)
            in rev before @ [last_entry]));
     Some (h\<lparr>hi_undo_stack := kept\<rparr>, map_option he_id (last_opt kept)) }"

text \<open>How many of the entries below the top, from the top down, follow each other closely enough.\<close>

fun group_count :: "nat \<Rightarrow> history_entry \<Rightarrow> history_entry list \<Rightarrow> nat" where
  "group_count interval he [] = 0"
| "group_count interval he (prev_entry # entries) =
     (if \<not> he_suppress_grouping prev_entry \<and> he_first_edit_at he - he_last_edit_at prev_entry < interval
      then Suc (group_count interval prev_entry entries) else 0)"

definition history_group :: "history \<Rightarrow> (history \<times> lamport option) option" where
  "history_group h =
     group_trailing h (case rev (hi_undo_stack h) of [] \<Rightarrow> 0 | he # entries \<Rightarrow> group_count (hi_group_interval h) he entries)"

fun until_count :: "lamport \<Rightarrow> history_entry list \<Rightarrow> nat option" where
  "until_count transaction_id [] = None"
| "until_count transaction_id (he # entries) =
     (if he_id he = transaction_id then Some 0
      else if he_suppress_grouping he then None
      else map_option Suc (until_count transaction_id entries))"

definition group_until :: "history \<Rightarrow> lamport \<Rightarrow> history option" where
  "group_until h transaction_id =
     (case until_count transaction_id (rev (hi_undo_stack h)) of
        Some n \<Rightarrow> map_option fst (group_trailing h n)
      | None \<Rightarrow> Some h)"

definition finalize_last_transaction :: "history \<Rightarrow> history \<times> transaction option" where
  "finalize_last_transaction h =
     (case last_opt (hi_undo_stack h) of
        None \<Rightarrow> (h, None)
      | Some he \<Rightarrow>
          (h\<lparr>hi_undo_stack := butlast (hi_undo_stack h) @ [he\<lparr>he_suppress_grouping := True\<rparr>]\<rparr>, Some (he_transaction he)))"

definition push_transaction :: "history \<Rightarrow> transaction \<Rightarrow> nat \<Rightarrow> history option" where
  "push_transaction h t now = do {
     _ \<leftarrow> require (hi_transaction_depth h = 0);
     Some (h\<lparr>hi_undo_stack := hi_undo_stack h @ [new_entry t now]\<rparr>) }"

definition push_empty_transaction :: "history \<Rightarrow> global \<Rightarrow> nat \<Rightarrow> lamport \<Rightarrow> (history \<times> lamport \<times> lamport) option" where
  "push_empty_transaction h start now clock = do {
     _ \<leftarrow> require (hi_transaction_depth h = 0);
     let (tid, clock) = tick clock;
     Some (h\<lparr>hi_undo_stack := hi_undo_stack h @ [new_entry \<lparr>tr_id = tid, tr_edit_ids = [], tr_start = start\<rparr> now]\<rparr>, clock, tid) }"

definition push_undo :: "history \<Rightarrow> lamport \<Rightarrow> history option" where
  "push_undo h op_id = do {
     _ \<leftarrow> require (hi_transaction_depth h \<noteq> 0);
     case map_get (hi_operations h) op_id of
       Some (EditOp _) \<Rightarrow> do {
         he \<leftarrow> last_opt (hi_undo_stack h);
         Some (h\<lparr>hi_undo_stack := butlast (hi_undo_stack h) @ [he_extend [op_id] he]\<rparr>) }
     | _ \<Rightarrow> Some h }"

section \<open>Moving between the stacks\<close>

definition pop_undo :: "history \<Rightarrow> (history \<times> history_entry option) option" where
  "pop_undo h = do {
     _ \<leftarrow> require (hi_transaction_depth h = 0);
     Some (case last_opt (hi_undo_stack h) of
         None \<Rightarrow> (h, None)
       | Some he \<Rightarrow>
           (h\<lparr>hi_undo_stack := butlast (hi_undo_stack h), hi_redo_stack := hi_redo_stack h @ [he]\<rparr>, Some he)) }"

definition pop_redo :: "history \<Rightarrow> (history \<times> history_entry option) option" where
  "pop_redo h = do {
     _ \<leftarrow> require (hi_transaction_depth h = 0);
     Some (case last_opt (hi_redo_stack h) of
         None \<Rightarrow> (h, None)
       | Some he \<Rightarrow>
           (h\<lparr>hi_redo_stack := butlast (hi_redo_stack h), hi_undo_stack := hi_undo_stack h @ [he]\<rparr>, Some he)) }"

text \<open>\<open>rposition\<close>: the index of the last he with an identifier.\<close>

fun rposition :: "('a \<Rightarrow> bool) \<Rightarrow> 'a list \<Rightarrow> nat option" where
  "rposition P [] = None"
| "rposition P (x # xs) =
     (case rposition P xs of Some i \<Rightarrow> Some (Suc i) | None \<Rightarrow> if P x then Some 0 else None)"

definition entry_position :: "lamport \<Rightarrow> history_entry list \<Rightarrow> nat option" where
  "entry_position transaction_id stack = rposition (\<lambda>he. he_id he = transaction_id) stack"

definition vec_remove :: "nat \<Rightarrow> 'a list \<Rightarrow> 'a list" where
  "vec_remove i xs = take i xs @ drop (Suc i) xs"

definition remove_from_undo :: "history \<Rightarrow> lamport \<Rightarrow> (history \<times> history_entry option) option" where
  "remove_from_undo h transaction_id = do {
     _ \<leftarrow> require (hi_transaction_depth h = 0);
     Some (case entry_position transaction_id (hi_undo_stack h) of
         None \<Rightarrow> (h, None)
       | Some entry_ix \<Rightarrow>
           (let he = hi_undo_stack h ! entry_ix in
            (h\<lparr>hi_undo_stack := vec_remove entry_ix (hi_undo_stack h), hi_redo_stack := hi_redo_stack h @ [he]\<rparr>, Some he))) }"

definition remove_from_undo_until :: "history \<Rightarrow> lamport \<Rightarrow> (history \<times> history_entry list) option" where
  "remove_from_undo_until h transaction_id = do {
     _ \<leftarrow> require (hi_transaction_depth h = 0);
     Some (case entry_position transaction_id (hi_undo_stack h) of
         None \<Rightarrow> (h, [])
       | Some entry_ix \<Rightarrow>
           (let moved = rev (drop entry_ix (hi_undo_stack h)) in
            (h\<lparr>hi_undo_stack := take entry_ix (hi_undo_stack h), hi_redo_stack := hi_redo_stack h @ moved\<rparr>, moved))) }"

definition remove_from_redo :: "history \<Rightarrow> lamport \<Rightarrow> (history \<times> history_entry list) option" where
  "remove_from_redo h transaction_id = do {
     _ \<leftarrow> require (hi_transaction_depth h = 0);
     Some (case entry_position transaction_id (hi_redo_stack h) of
         None \<Rightarrow> (h, [])
       | Some entry_ix \<Rightarrow>
           (let moved = rev (drop entry_ix (hi_redo_stack h)) in
            (h\<lparr>hi_redo_stack := take entry_ix (hi_redo_stack h), hi_undo_stack := hi_undo_stack h @ moved\<rparr>, moved))) }"

definition history_forget :: "history \<Rightarrow> lamport \<Rightarrow> (history \<times> transaction option) option" where
  "history_forget h transaction_id = do {
     _ \<leftarrow> require (hi_transaction_depth h = 0);
     Some (case entry_position transaction_id (hi_undo_stack h) of
         Some entry_ix \<Rightarrow>
           (h\<lparr>hi_undo_stack := vec_remove entry_ix (hi_undo_stack h)\<rparr>, Some (he_transaction (hi_undo_stack h ! entry_ix)))
       | None \<Rightarrow>
           (case entry_position transaction_id (hi_redo_stack h) of
              Some entry_ix \<Rightarrow>
                (h\<lparr>hi_redo_stack := vec_remove entry_ix (hi_redo_stack h)\<rparr>, Some (he_transaction (hi_redo_stack h ! entry_ix)))
            | None \<Rightarrow> (h, None))) }"

definition history_transaction :: "history \<Rightarrow> lamport \<Rightarrow> transaction option" where
  "history_transaction h transaction_id =
     (case entry_position transaction_id (hi_undo_stack h) of
        Some i \<Rightarrow> Some (he_transaction (hi_undo_stack h ! i))
      | None \<Rightarrow> map_option (\<lambda>i. he_transaction (hi_redo_stack h ! i)) (entry_position transaction_id (hi_redo_stack h)))"

text \<open>\<open>transaction_mut\<close> hands out a reference; here the change is passed in.\<close>

definition transaction_mut :: "history \<Rightarrow> lamport \<Rightarrow> (history_entry \<Rightarrow> history_entry) \<Rightarrow> history" where
  "transaction_mut h transaction_id f =
     (case entry_position transaction_id (hi_undo_stack h) of
        Some i \<Rightarrow> h\<lparr>hi_undo_stack := (hi_undo_stack h)[i := f (hi_undo_stack h ! i)]\<rparr>
      | None \<Rightarrow>
          (case entry_position transaction_id (hi_redo_stack h) of
             Some i \<Rightarrow> h\<lparr>hi_redo_stack := (hi_redo_stack h)[i := f (hi_redo_stack h ! i)]\<rparr>
           | None \<Rightarrow> h))"

definition merge_transactions :: "history \<Rightarrow> lamport \<Rightarrow> lamport \<Rightarrow> history option" where
  "merge_transactions h transaction destination = do {
     (h, forgotten) \<leftarrow> history_forget h transaction;
     Some (case forgotten of
         None \<Rightarrow> h
       | Some t \<Rightarrow> transaction_mut h destination (he_extend (tr_edit_ids t))) }"

section \<open>The stacks as one sequence\<close>

text \<open>
  The entries to undo, oldest first, followed by the entries to redo, next one first: undo and redo move
  a boundary in this sequence.
\<close>

definition timeline :: "history \<Rightarrow> history_entry list" where
  "timeline h = hi_undo_stack h @ rev (hi_redo_stack h)"

lemma last_opt_None [simp]: "last_opt xs = None \<longleftrightarrow> xs = []" "last_opt [] = None"
  by (simp_all add: last_opt_def)

lemma last_opt_snoc [simp]: "last_opt (xs @ [x]) = Some x"
  by (simp add: last_opt_def)

lemma rposition_None: "rposition P xs = None \<longleftrightarrow> (\<forall>x \<in> set xs. \<not> P x)"
  by (induction xs) (auto split: option.splits)

lemma rposition_Some:
  "rposition P xs = Some i \<longleftrightarrow> i < length xs \<and> P (xs ! i) \<and> (\<forall>j < length xs. i < j \<longrightarrow> \<not> P (xs ! j))"
proof (induction xs arbitrary: i)
  case (Cons x xs)
  show ?case
  proof (cases "rposition P xs")
    case None
    then have "\<not> P (xs ! j)" if "j < length xs" for j using that by (auto simp: rposition_None)
    with None show ?thesis by (cases i) (auto simp: nth_Cons split: nat.splits)
  next
    case (Some k)
    with Cons.IH [of k] have k: "k < length xs" "P (xs ! k)" "\<forall>j < length xs. k < j \<longrightarrow> \<not> P (xs ! j)" by auto
    show ?thesis
    proof (cases i)
      case 0
      then show ?thesis using Some k(1,2) by force
    next
      case (Suc n)
      have "(\<forall>j < Suc (length xs). Suc n < j \<longrightarrow> \<not> P ((x # xs) ! j)) \<longleftrightarrow> (\<forall>j < length xs. n < j \<longrightarrow> \<not> P (xs ! j))"
        by (auto simp: nth_Cons split: nat.splits)
      then show ?thesis using Some Suc Cons.IH [of n] by simp
    qed
  qed
qed simp

text \<open>Where an identifier occurs once, its position is found from either end.\<close>

definition distinct_ids :: "history_entry list \<Rightarrow> bool" where
  "distinct_ids es \<longleftrightarrow> distinct (map he_id es)"

lemma entry_position_split:
  assumes "distinct_ids (a @ e # b)"
  shows "entry_position (he_id e) (a @ e # b) = Some (length a)"
proof -
  have "he_id ((a @ e # b) ! j) \<noteq> he_id e" if j: "j < length (a @ e # b)" "length a < j" for j
  proof -
    obtain m where m: "j = Suc (length a + m)" using j(2) less_iff_Suc_add by blast
    then have "he_id (b ! m) \<in> he_id ` set b" using j(1) by (intro imageI nth_mem) simp
    moreover have "(a @ e # b) ! j = b ! m" using m by (simp add: nth_append)
    ultimately show ?thesis using assms by (auto simp: distinct_ids_def)
  qed
  then show ?thesis unfolding entry_position_def rposition_Some by simp
qed

lemma pop_undo_step:
  assumes "hi_transaction_depth h = 0" and "hi_undo_stack h = es @ [e]"
  shows "pop_undo h = Some (h\<lparr>hi_undo_stack := es, hi_redo_stack := hi_redo_stack h @ [e]\<rparr>, Some e)"
  using assms by (simp add: pop_undo_def)

lemma pop_redo_step:
  assumes "hi_transaction_depth h = 0" and "hi_redo_stack h = es @ [e]"
  shows "pop_redo h = Some (h\<lparr>hi_redo_stack := es, hi_undo_stack := hi_undo_stack h @ [e]\<rparr>, Some e)"
  using assms by (simp add: pop_redo_def)

lemma undo_until_step:
  assumes "hi_transaction_depth h = 0" and "hi_undo_stack h = a @ e # b" and "distinct_ids (hi_undo_stack h)"
  shows "remove_from_undo_until h (he_id e) =
    Some (h\<lparr>hi_undo_stack := a, hi_redo_stack := hi_redo_stack h @ rev (e # b)\<rparr>, rev (e # b))"
  using assms entry_position_split [of a e b] by (simp add: remove_from_undo_until_def Let_def)

lemma redo_until_step:
  assumes "hi_transaction_depth h = 0" and "hi_redo_stack h = a @ e # b" and "distinct_ids (hi_redo_stack h)"
  shows "remove_from_redo h (he_id e) =
    Some (h\<lparr>hi_redo_stack := a, hi_undo_stack := hi_undo_stack h @ rev (e # b)\<rparr>, rev (e # b))"
  using assms entry_position_split [of a e b] by (simp add: remove_from_redo_def Let_def)

text \<open>Every move keeps the sequence.\<close>

lemma moves_keep_timeline:
  assumes "hi_transaction_depth h = 0"
  shows "\<exists>h' e. pop_undo h = Some (h', e) \<and> timeline h' = timeline h"
    and "\<exists>h' e. pop_redo h = Some (h', e) \<and> timeline h' = timeline h"
    and "\<exists>h' es. remove_from_undo_until h t = Some (h', es) \<and> timeline h' = timeline h"
    and "\<exists>h' es. remove_from_redo h t = Some (h', es) \<and> timeline h' = timeline h"
proof -
  show "\<exists>h' e. pop_undo h = Some (h', e) \<and> timeline h' = timeline h"
    using assms by (cases "hi_undo_stack h" rule: rev_cases) (auto simp: pop_undo_def timeline_def)
  show "\<exists>h' e. pop_redo h = Some (h', e) \<and> timeline h' = timeline h"
    using assms by (cases "hi_redo_stack h" rule: rev_cases) (auto simp: pop_redo_def timeline_def)
  show "\<exists>h' es. remove_from_undo_until h t = Some (h', es) \<and> timeline h' = timeline h"
    using assms by (auto simp: remove_from_undo_until_def timeline_def Let_def split: option.splits)
  show "\<exists>h' es. remove_from_redo h t = Some (h', es) \<and> timeline h' = timeline h"
  proof (cases "entry_position t (hi_redo_stack h)")
    case (Some i)
    have "rev (hi_redo_stack h) = rev (drop i (hi_redo_stack h)) @ rev (take i (hi_redo_stack h))"
      by (simp flip: rev_append)
    with assms Some show ?thesis by (simp add: remove_from_redo_def timeline_def Let_def)
  qed (use assms in \<open>simp add: remove_from_redo_def\<close>)
qed

text \<open>Undoing down to an entry and redoing up to the one that was on top restores the history.\<close>

lemma undo_redo_until:
  assumes "hi_transaction_depth h = 0" and "hi_undo_stack h = a @ b @ [newest]" and "distinct_ids (timeline h)"
    and "b @ [newest] = e # c"
  obtains h' where "remove_from_undo_until h (he_id e) = Some (h', newest # rev b)"
    and "remove_from_redo h' (he_id newest) = Some (h, b @ [newest])"
proof -
  let ?h = "h\<lparr>hi_undo_stack := a, hi_redo_stack := hi_redo_stack h @ newest # rev b\<rparr>"
  have dist: "distinct_ids (hi_undo_stack h)" "distinct_ids (hi_redo_stack h @ newest # rev b)"
    using assms(2,3) by (auto simp: distinct_ids_def timeline_def rev_map [symmetric])
  have "rev (e # c) = newest # rev b" using assms(4) by (metis rev_append rev_singleton_conv append_Cons append_Nil rev_rev_ident)
  then have "remove_from_undo_until h (he_id e) = Some (?h, newest # rev b)"
    using undo_until_step [OF assms(1) _ dist(1), of a e c] assms(2,4) by simp
  moreover have "remove_from_redo ?h (he_id newest) = Some (h, b @ [newest])"
    using redo_until_step [of ?h "hi_redo_stack h" newest "rev b"] assms(1,2) dist(2) by simp
  ultimately show ?thesis using that by blast
qed

section \<open>Grouping\<close>

definition stack_edits :: "history_entry list \<Rightarrow> lamport list" where
  "stack_edits es = concat (map he_edits es)"

lemma he_extend_simps [simp]: "he_edits (he_extend ids e) = he_edits e @ ids" "he_id (he_extend ids e) = he_id e"
  "he_first_edit_at (he_extend ids e) = he_first_edit_at e" "he_last_edit_at (he_extend ids e) = he_last_edit_at e"
  "he_suppress_grouping (he_extend ids e) = he_suppress_grouping e"
  by (simp_all add: he_extend_def he_id_def)

text \<open>The last entries become one, which has the identity of the first of them and the edits of all.\<close>

lemma group_trailing_correct:
  assumes "hi_undo_stack h = a @ e # b"
  obtains e' where "group_trailing h (length b) = Some (h\<lparr>hi_undo_stack := a @ [e']\<rparr>, Some (he_id e))"
    and "he_id e' = he_id e" and "he_edits e' = stack_edits (e # b)" and "he_first_edit_at e' = he_first_edit_at e"
    and "he_last_edit_at e' = he_last_edit_at (last (e # b))" and "he_suppress_grouping e' = he_suppress_grouping e"
proof -
  let ?e = "he_extend (stack_edits b) e"
  let ?e' = "if b = [] then ?e else ?e\<lparr>he_last_edit_at := he_last_edit_at (last b)\<rparr>"
  have "he_id ?e' = he_id e" "he_edits ?e' = stack_edits (e # b)" by (simp_all add: he_id_def stack_edits_def he_extend_def)
  moreover have "he_id (he_extend (stack_edits b) e\<lparr>he_last_edit_at := he_last_edit_at (last b)\<rparr>) = he_id e"
    by (simp add: he_id_def he_extend_def)
  moreover from this have "group_trailing h (length b) = Some (h\<lparr>hi_undo_stack := a @ [?e']\<rparr>, Some (he_id e))"
    using assms by (simp add: group_trailing_def usize_sub_def Let_def stack_edits_def)
  moreover have "he_first_edit_at ?e' = he_first_edit_at e" "he_last_edit_at ?e' = he_last_edit_at (last (e # b))"
      "he_suppress_grouping ?e' = he_suppress_grouping e" by simp_all
  ultimately show ?thesis using that by blast
qed

text \<open>Entries in a row, each close enough to the one before and that one not closed to grouping.\<close>

fun close_run :: "nat \<Rightarrow> history_entry list \<Rightarrow> bool" where
  "close_run interval (e1 # e2 # es) \<longleftrightarrow>
     \<not> he_suppress_grouping e1 \<and> he_first_edit_at e2 - he_last_edit_at e1 < interval \<and> close_run interval (e2 # es)"
| "close_run interval es \<longleftrightarrow> True"

lemma close_run_snoc:
  "close_run n (es @ [e1, e2]) \<longleftrightarrow> close_run n (es @ [e1]) \<and> \<not> he_suppress_grouping e1 \<and> he_first_edit_at e2 - he_last_edit_at e1 < n"
  by (induction n es rule: close_run.induct) (auto simp: Cons_eq_append_conv)

lemma group_count_run:
  obtains a b where "rev es = a @ b" and "length b = group_count n e es" and "close_run n (b @ [e])"
    and "a = [] \<or> \<not> close_run n (last a # b @ [e])"
proof (induction es arbitrary: e thesis)
  case Nil
  then show ?case by (auto intro: Nil [of "[]" "[]"])
next
  case (Cons p es)
  show ?case
  proof (cases "\<not> he_suppress_grouping p \<and> he_first_edit_at e - he_last_edit_at p < n")
    case True
    obtain a b where ab: "rev es = a @ b" "length b = group_count n p es" "close_run n (b @ [p])" "a = [] \<or> \<not> close_run n (last a # b @ [p])"
      using Cons.IH by blast
    then show ?thesis using True close_run_snoc [of n b p e] close_run_snoc [of n "last a # b" p e]
      by (intro Cons.prems [of a "b @ [p]"]) auto
  next
    case False
    then show ?thesis by (intro Cons.prems [of "rev es @ [p]" "[]"]) auto
  qed
qed

text \<open>Grouping merges the longest run of close entries at the top, and keeps the order of all edits.\<close>

theorem history_group_correct:
  assumes "hi_undo_stack h \<noteq> []"
  obtains a e b e' where "hi_undo_stack h = a @ e # b" and "history_group h = Some (h\<lparr>hi_undo_stack := a @ [e']\<rparr>, Some (he_id e))"
    and "he_id e' = he_id e" and "he_edits e' = stack_edits (e # b)" and "close_run (hi_group_interval h) (e # b)"
    and "a = [] \<or> \<not> close_run (hi_group_interval h) (last a # e # b)"
proof -
  obtain es l where stack: "hi_undo_stack h = es @ [l]" using assms by (cases "hi_undo_stack h" rule: rev_cases) auto
  obtain a b where ab: "rev (rev es) = a @ b" "length b = group_count (hi_group_interval h) l (rev es)"
      "close_run (hi_group_interval h) (b @ [l])" "a = [] \<or> \<not> close_run (hi_group_interval h) (last a # b @ [l])"
    by (rule group_count_run)
  obtain e c where c: "b @ [l] = e # c" by (cases b) auto
  then have "length c = length b" by (metis length_Cons length_append_singleton nat.inject)
  moreover ultimately have grp: "history_group h = group_trailing h (length c)" using stack ab(2) by (simp add: history_group_def stack)
  have st: "hi_undo_stack h = a @ e # c" using stack ab(1) c by simp
  from group_trailing_correct [OF st] obtain e' where e': "group_trailing h (length c) = Some (h\<lparr>hi_undo_stack := a @ [e']\<rparr>, Some (he_id e))"
      "he_id e' = he_id e" "he_edits e' = stack_edits (e # c)" by metis
  with that [OF st] grp ab(3,4) c show ?thesis by metis
qed

lemma until_count_less: "until_count t es = Some n \<Longrightarrow> n < length es"
  by (induction es arbitrary: n) (auto split: if_splits)

theorem group_until_correct:
  obtains h' where "group_until h t = Some h'" and "stack_edits (hi_undo_stack h') = stack_edits (hi_undo_stack h)"
    and "hi_redo_stack h' = hi_redo_stack h" and "hi_transaction_depth h' = hi_transaction_depth h"
proof (cases "until_count t (rev (hi_undo_stack h))")
  case None
  with that [of h] show ?thesis by (simp add: group_until_def)
next
  case (Some n)
  let ?us = "hi_undo_stack h" and ?i = "length (hi_undo_stack h) - Suc n"
  have n: "n < length ?us" using until_count_less [OF Some] by simp
  then have st: "?us = take ?i ?us @ ?us ! ?i # drop (Suc ?i) ?us" by (intro id_take_nth_drop) simp
  have len: "length (drop (Suc ?i) ?us) = n" using n by simp
  from group_trailing_correct [OF st] obtain e' where
    e': "group_trailing h n = Some (h\<lparr>hi_undo_stack := take ?i ?us @ [e']\<rparr>, Some (he_id (?us ! ?i)))"
      "he_edits e' = stack_edits (?us ! ?i # drop (Suc ?i) ?us)" unfolding len by metis
  have "stack_edits (take ?i ?us @ [e']) = stack_edits (take ?i ?us) @ stack_edits (?us ! ?i # drop (Suc ?i) ?us)"
    using e'(2) by (simp add: stack_edits_def)
  also have "\<dots> = stack_edits (take ?i ?us @ ?us ! ?i # drop (Suc ?i) ?us)" by (simp add: stack_edits_def)
  finally have "stack_edits (take ?i ?us @ [e']) = stack_edits ?us" using st by simp
  with that [of "h\<lparr>hi_undo_stack := take ?i ?us @ [e']\<rparr>"] e'(1) Some show ?thesis by (simp add: group_until_def)
qed

section \<open>Recording a transaction\<close>

fun push_undos :: "history \<Rightarrow> lamport list \<Rightarrow> history option" where
  "push_undos h [] = Some h"
| "push_undos h (op # ops) = do { h \<leftarrow> push_undo h op; push_undos h ops }"

definition recorded_edit :: "history \<Rightarrow> lamport \<Rightarrow> bool" where
  "recorded_edit h op \<longleftrightarrow> (\<exists>edit. map_get (hi_operations h) op = Some (EditOp edit))"

lemma push_undos_correct:
  assumes "hi_transaction_depth h \<noteq> 0" and "hi_undo_stack h = es @ [e]" and "\<forall>op \<in> set ops. recorded_edit h op"
  shows "push_undos h ops = Some (h\<lparr>hi_undo_stack := es @ [he_extend ops e]\<rparr>)"
  using assms
proof (induction ops arbitrary: h e)
  case Nil
  then show ?case by (simp add: he_extend_def)
next
  case (Cons op ops)
  let ?h = "h\<lparr>hi_undo_stack := es @ [he_extend [op] e]\<rparr>"
  have "push_undo h op = Some ?h" using Cons.prems by (auto simp: push_undo_def recorded_edit_def bind_require)
  moreover have "push_undos ?h ops = Some (?h\<lparr>hi_undo_stack := es @ [he_extend ops (he_extend [op] e)]\<rparr>)"
    using Cons.prems by (intro Cons.IH) (auto simp: recorded_edit_def)
  ultimately show ?case by (simp add: he_extend_def)
qed

text \<open>
  A transaction that records edits becomes the newest entry and clears the entries to redo; one that records
  nothing leaves no trace but the clock's tick. A transaction within another does nothing.
\<close>

theorem transaction_correct:
  assumes "hi_transaction_depth h = 0" and "\<forall>op \<in> set ops. recorded_edit h op"
  obtains h1 h2 clock' where "start_transaction h start now clock = (h1, clock', Some (fst (tick clock)))"
    and "clock' = snd (tick clock)" and "push_undos h1 ops = Some h2"
    and "ops = [] \<Longrightarrow> end_transaction h2 later = Some (h, None)"
    and "ops \<noteq> [] \<Longrightarrow> \<exists>e. end_transaction h2 later = Some (h\<lparr>hi_undo_stack := hi_undo_stack h @ [e], hi_redo_stack := []\<rparr>, Some e) \<and>
      he_id e = fst (tick clock) \<and> he_edits e = ops \<and> he_first_edit_at e = now \<and> he_last_edit_at e = later"
proof -
  let ?e = "new_entry \<lparr>tr_id = fst (tick clock), tr_edit_ids = [], tr_start = start\<rparr> now"
  let ?h1 = "h\<lparr>hi_transaction_depth := 1, hi_undo_stack := hi_undo_stack h @ [?e]\<rparr>"
  let ?h2 = "?h1\<lparr>hi_undo_stack := hi_undo_stack h @ [he_extend ops ?e]\<rparr>"
  have h1: "start_transaction h start now clock = (?h1, snd (tick clock), Some (fst (tick clock)))"
    using assms(1) by (simp add: start_transaction_def tick_def)
  have h2: "push_undos ?h1 ops = Some ?h2"
    using assms(2) by (intro push_undos_correct) (simp_all add: recorded_edit_def)
  have "end_transaction ?h2 later = Some (h, None)" if "ops = []"
    using that assms(1) by (simp add: end_transaction_def new_entry_def he_extend_def)
  moreover have "\<exists>e. end_transaction ?h2 later = Some (h\<lparr>hi_undo_stack := hi_undo_stack h @ [e], hi_redo_stack := []\<rparr>, Some e) \<and>
      he_id e = fst (tick clock) \<and> he_edits e = ops \<and> he_first_edit_at e = now \<and> he_last_edit_at e = later" if "ops \<noteq> []"
    using that assms(1) by (simp add: end_transaction_def new_entry_def he_extend_def he_id_def Let_def)
  ultimately show ?thesis using that h1 h2 by blast
qed

lemma nested_transaction:
  assumes "hi_transaction_depth h \<noteq> 0"
  shows "\<exists>h1. start_transaction h start now clock = (h1, clock, None) \<and> end_transaction h1 later = Some (h, None)"
  using assms by (auto simp: start_transaction_def end_transaction_def Let_def bind_require)

end
