(* ===== verification/Line_Ending.thy ===== *)
theory Line_Ending
  imports Rope_Chunks
begin

text \<open>
  The crate \<open>text\<close>, file \<open>text.rs\<close>: line endings. A buffer holds text with line feeds only; text is normalised on the
  way in and converted on the way out.
\<close>

definition carriage_return :: nat where
  "carriage_return = 13"

datatype line_ending = Unix | Windows

text \<open>The default of the platform; the model is of a Unix build.\<close>

definition default_line_ending :: line_ending where
  "default_line_ending = Unix"

definition line_ending_str :: "line_ending \<Rightarrow> str" where
  "line_ending_str e = (case e of Unix \<Rightarrow> [newline_char] | Windows \<Rightarrow> [carriage_return, newline_char])"

text \<open>The longest prefix of at most 1000 bytes decides: whether its first line feed follows a carriage return.\<close>

definition detect :: "str \<Rightarrow> line_ending option" where
  "detect cs = do {
     max_ix \<leftarrow> clip_loop (str_is_char_boundary cs) Left (min (str_len cs) 1000);
     head \<leftarrow> str_slice cs 0 max_ix;
     Some (case str_find_newline head of
         Some ix \<Rightarrow> (if 0 < ix \<and> as_bytes cs ! (ix - 1) = 13 then Windows else Unix)
       | None \<Rightarrow> default_line_ending) }"

text \<open>Replacing the matches of the pattern for a carriage return with or without a line feed.\<close>

fun normalize :: "str \<Rightarrow> str" where
  "normalize [] = []"
| "normalize [c] = [if c = carriage_return then newline_char else c]"
| "normalize (c # d # cs) =
     (if c = carriage_return \<and> d = newline_char then newline_char # normalize cs
      else (if c = carriage_return then newline_char else c) # normalize (d # cs))"

definition replace_newlines :: "str \<Rightarrow> str \<Rightarrow> str" where
  "replace_newlines s cs = concat (map (\<lambda>c. if c = newline_char then s else [c]) cs)"

definition line_ending_apply :: "line_ending \<Rightarrow> str \<Rightarrow> str option" where
  "line_ending_apply self cs = do {
     detected \<leftarrow> detect cs;
     Some (if detected = self then cs
           else if self = Windows then replace_newlines [carriage_return, newline_char] cs
           else normalize cs) }"

text \<open>
  The pieces of a text with another line ending: the lines of each chunk and the endings between them. \<open>str::lines\<close>
  drops a carriage return before a newline, and keeps one at the end of a last line that has no newline.
\<close>

definition str_lines :: "str \<Rightarrow> str list" where
  "str_lines cs =
     (let ls = split_lines cs
      in map (\<lambda>l. if l \<noteq> [] \<and> last l = carriage_return then butlast l else l) (butlast ls) @
         (if last ls = [] then [] else [last ls]))"

definition chunk_with_line_ending :: "line_ending \<Rightarrow> str \<Rightarrow> str list" where
  "chunk_with_line_ending e chunk =
     (case str_lines chunk of
        [] \<Rightarrow> []
      | line # lines \<Rightarrow> line # concat (map (\<lambda>l. [line_ending_str e, l]) lines)) @
     (if str_ends_with chunk [newline_char] then [line_ending_str e] else [])"

definition chunks_with_line_ending :: "rope \<Rightarrow> line_ending \<Rightarrow> str list option" where
  "chunks_with_line_ending r e = do {
     it \<leftarrow> rope_all_chunks r;
     chunks \<leftarrow> chunks_collect it;
     Some (concat (map (chunk_with_line_ending e) chunks)) }"

section \<open>Normal text\<close>

lemma carriage_newline [simp]: "carriage_return \<noteq> newline_char" "newline_char \<noteq> carriage_return"
  by (simp_all add: carriage_return_def newline_char_def)

lemma normalize_no_return: "carriage_return \<notin> set (normalize cs)"
  by (induction cs rule: normalize.induct) auto

lemma normalize_fix: "carriage_return \<notin> set cs \<Longrightarrow> normalize cs = cs"
  by (induction cs rule: normalize.induct) auto

lemma normalize_Cons: "c \<noteq> carriage_return \<Longrightarrow> normalize (c # cs) = c # normalize cs"
  by (cases cs) auto

lemma replace_newlines_simps [simp]: "replace_newlines s [] = []"
  "replace_newlines s (c # cs) = (if c = newline_char then s else [c]) @ replace_newlines s cs"
  "replace_newlines s (xs @ ys) = replace_newlines s xs @ replace_newlines s ys"
  by (simp_all add: replace_newlines_def)

lemma replace_newlines_same: "replace_newlines [newline_char] cs = cs"
  by (induction cs) auto

lemma normalize_replace:
  assumes "carriage_return \<notin> set cs"
  shows "normalize (replace_newlines [carriage_return, newline_char] cs) = cs"
  using assms by (induction cs) (auto simp: normalize_Cons)

lemma replace_newlines_plain: "newline_char \<notin> set cs \<Longrightarrow> replace_newlines s cs = cs"
  by (induction cs) auto

text \<open>The pieces of a chunk put together are the chunk with its line feeds replaced.\<close>

lemma join_lines_replace: "replace_newlines s cs =
    (case split_lines cs of [] \<Rightarrow> [] | l # ls \<Rightarrow> l @ concat (map (\<lambda>l. s @ l) ls))"
proof (induction "length cs" arbitrary: cs rule: less_induct)
  case less
  show ?case
  proof (cases "newline_char \<in> set cs")
    case True
    then obtain l r where cs: "cs = l @ newline_char # r" "newline_char \<notin> set l" by (metis split_list_first)
    have "split_lines r \<noteq> []" by (rule split_lines_nonempty)
    with less [of r] cs show ?thesis by (cases "split_lines r") (auto simp: split_lines_line replace_newlines_plain)
  next
    case False
    then show ?thesis by (simp add: split_lines_plain replace_newlines_plain)
  qed
qed

lemma concat_pieces: "concat (line # concat (map (\<lambda>l. [s, l]) ls)) = line @ concat (map (\<lambda>l. s @ l) ls)"
  by (induction ls) auto

lemma split_lines_snoc_newline: "split_lines (cs @ [newline_char]) = split_lines cs @ [[]]"
  using split_lines_before [of cs "[]"] by simp

lemma str_lines_plain:
  assumes "carriage_return \<notin> set cs"
  shows "str_lines cs = (if last (split_lines cs) = [] then butlast (split_lines cs) else split_lines cs)"
proof -
  have "\<forall>l \<in> set (split_lines cs). carriage_return \<notin> set l"
    using assms
  proof (induction "length cs" arbitrary: cs rule: less_induct)
    case less
    show ?case
    proof (cases "newline_char \<in> set cs")
      case True
      then obtain l1 r where cs: "cs = l1 @ newline_char # r" "newline_char \<notin> set l1" by (metis split_list_first)
      with less(1) [of r] less(2) show ?thesis by (auto simp: split_lines_line)
    qed (use less in \<open>auto simp: split_lines_plain\<close>)
  qed
  then have "map (\<lambda>l. if l \<noteq> [] \<and> last l = carriage_return then butlast l else l) (butlast (split_lines cs)) = butlast (split_lines cs)"
    by (intro map_idI) (auto dest!: in_set_butlastD last_in_set)
  then show ?thesis unfolding str_lines_def Let_def by simp
qed

lemma chunk_with_line_ending_correct:
  assumes "carriage_return \<notin> set cs" and "cs \<noteq> []"
  shows "concat (chunk_with_line_ending e cs) = replace_newlines (line_ending_str e) cs"
proof (cases "str_ends_with cs [newline_char]")
  case True
  then obtain t where t: "cs = t @ [newline_char]" by (auto simp: str_ends_with_iff)
  obtain l ls where ls: "split_lines t = l # ls" using split_lines_nonempty [of t] by (cases "split_lines t") auto
  have "str_lines cs = split_lines t" using assms(1) by (simp add: str_lines_plain t split_lines_snoc_newline)
  with True ls show ?thesis using concat_pieces [of l "line_ending_str e" ls] join_lines_replace [of "line_ending_str e" t]
    by (simp add: chunk_with_line_ending_def t)
next
  case False
  have "last (split_lines cs) \<noteq> []"
  proof
    assume "last (split_lines cs) = []"
    moreover obtain x where "x \<in> set cs" using assms(2) by (cases cs) auto
    ultimately have "newline_char \<in> set cs" using assms(2) by (cases "newline_char \<in> set cs") (auto simp: split_lines_plain)
    then obtain t r where "cs = t @ newline_char # r" "newline_char \<notin> set r" by (metis split_list_last)
    with \<open>last (split_lines cs) = []\<close> have "cs = t @ [newline_char]" by (simp add: split_lines_before split_lines_plain)
    with False show False by (auto simp: str_ends_with_iff)
  qed
  then have lines: "str_lines cs = split_lines cs" using assms(1) by (simp add: str_lines_plain)
  obtain l ls where ls: "split_lines cs = l # ls" using split_lines_nonempty [of cs] by (cases "split_lines cs") auto
  with False lines show ?thesis using concat_pieces [of l "line_ending_str e" ls] join_lines_replace [of "line_ending_str e" cs]
    by (simp add: chunk_with_line_ending_def)
qed

theorem chunks_with_line_ending_correct:
  assumes "rope_ok r" and "shallow r" and "carriage_return \<notin> set (rope_str r)"
  shows "\<exists>ps. chunks_with_line_ending r e = Some ps \<and> concat ps = replace_newlines (line_ending_str e) (rope_str r)"
proof -
  from rope_chunks_in_range_at [OF assms(1,2), of "[]" "rope_str r" "[]"] obtain it where
    it: "rope_all_chunks r = Some it" "forward_at r [] (rope_str r) it"
    using rope_measures(2) [OF assms(1)] by (auto simp: rope_all_chunks_def)
  from forward_collect [OF assms(1,2) it(2)] obtain ps where
    ps: "chunks_collect it = Some ps" "concat ps = rope_str r" "[] \<notin> set ps" by blast
  have "concat (concat (map (chunk_with_line_ending e) qs)) = replace_newlines (line_ending_str e) (concat qs)"
    if "carriage_return \<notin> set (concat qs)" "[] \<notin> set qs" for qs
    using that by (induction qs) (auto simp: chunk_with_line_ending_correct)
  from this [of ps] ps assms(3) it(1) show ?thesis by (simp add: chunks_with_line_ending_def)
qed

section \<open>Detection\<close>

lemma detect_head:
  obtains h t where "cs = h @ t" and "str_len h \<le> 1000" and
    "detect cs = Some (case str_find_newline h of
        Some ix \<Rightarrow> (if 0 < ix \<and> as_bytes cs ! (ix - 1) = 13 then Windows else Unix) | None \<Rightarrow> default_line_ending)"
proof -
  have "str_is_char_boundary cs 0" using str_split_at_append [of "[]" cs] by (simp add: str_is_char_boundary_def)
  from clip_loop_left [of "str_is_char_boundary cs", OF this, of "min (str_len cs) 1000"] obtain m where
    m: "m \<le> 1000" "clip_loop (str_is_char_boundary cs) Left (min (str_len cs) 1000) = Some m" "str_is_char_boundary cs m" by auto
  then obtain h t where "str_split_at m cs = Some (h, t)" by (auto simp: str_is_char_boundary_def)
  from str_split_at_Some [OF this] have ht: "cs = h @ t" "str_len h = m" by simp_all
  then have "str_slice cs 0 m = Some h" by (auto simp: str_slice_from_start)
  with that [OF ht(1)] ht(2) m show ?thesis by (simp add: detect_def)
qed

text \<open>Only the first thousand bytes are looked at.\<close>

lemma detect_far:
  assumes "newline_char \<notin> set l" and "1000 \<le> str_len l"
  shows "detect (l @ r) = Some default_line_ending"
proof -
  obtain h t where h: "l @ r = h @ t" "str_len h \<le> 1000" and d:
    "detect (l @ r) = Some (case str_find_newline h of
        Some ix \<Rightarrow> (if 0 < ix \<and> as_bytes (l @ r) ! (ix - 1) = 13 then Windows else Unix) | None \<Rightarrow> default_line_ending)"
    by (rule detect_head)
  from h assms(2) have "str_len h \<le> str_len l" by simp
  with h(1) obtain u where "l = h @ u" using prefix_by_len [of h t l r] by metis
  then have "str_find_newline h = None" using assms(1) by (simp add: str_find_newline_def)
  with d show ?thesis by simp
qed

text \<open>
  Text with carriage returns whose first line is longer is taken for Unix text, so converting it to
  what it is already doubles every carriage return.
\<close>

lemma apply_windows_far:
  assumes "newline_char \<notin> set l" and "carriage_return \<notin> set l" and "1000 \<le> str_len l"
  shows "line_ending_apply Windows (l @ [carriage_return, newline_char]) = Some (l @ [carriage_return, carriage_return, newline_char])"
  using detect_far [OF assms(1,3)] replace_newlines_plain [OF assms(1)]
  by (simp add: line_ending_apply_def default_line_ending_def)

lemma line_ending_apply_total: "\<exists>u. line_ending_apply e cs = Some u"
  by (rule detect_head [of cs]) (auto simp: line_ending_apply_def)

end
