(* ===== verification/Fragment.thy ===== *)
theory Fragment
  imports History Line_Ending Locator Patch
begin

text \<open>
  The crate \<open>text\<close>, file \<open>text.rs\<close>: the fragments of a buffer. A fragment is a run of text that one edit
  inserted, with the edits that deleted it; the tree of fragments holds all text that was ever
  inserted, in order. Fragments hold only lengths: the text itself is in two ropes, one for visible and
  one for deleted text. Also the two builders with which an edit makes the new tree and ropes.
\<close>

section \<open>32-bit offsets\<close>

text \<open>A cast to \<open>u32\<close>, and addition that panics on overflow.\<close>

definition as_u32 :: "nat \<Rightarrow> nat" where
  "as_u32 n = n mod 2 ^ 32"

definition u32_add :: "nat \<Rightarrow> nat \<Rightarrow> nat option" where
  "u32_add a b = (if a + b < 2 ^ 32 then Some (a + b) else None)"

definition MAX_INSERTION_LEN :: nat where
  "MAX_INSERTION_LEN = 2 ^ 32 - 1"

section \<open>Versions in summaries\<close>

text \<open>The version vectors that summaries hold are canonical, as every operation keeps them.\<close>

typedef version = "{g. canonical g}" morphisms version_global Abs_version
  by (intro exI [of _ global_new]) simp

setup_lifting type_definition_version

instantiation version :: equal
begin

definition equal_version :: "version \<Rightarrow> version \<Rightarrow> bool" where
  "equal_version a b \<longleftrightarrow> version_global a = version_global b"

instance by standard (simp add: equal_version_def version_global_inject)

end

lift_definition version_new :: version is global_new
  by simp

lift_definition version_observe :: "version \<Rightarrow> lamport \<Rightarrow> version" is observe
  by (rule canonical_observe)

lift_definition version_join :: "version \<Rightarrow> version \<Rightarrow> version" is join
  by (rule canonical_join)

lift_definition version_meet :: "version \<Rightarrow> version \<Rightarrow> version" is meet
  by (rule canonical_meet)

section \<open>Fragments\<close>

record fragment =
  fr_id :: locator
  fr_timestamp :: lamport
  fr_insertion_offset :: nat
  fr_len :: nat
  fr_visible :: bool
  fr_deletions :: "lamport list"
  fr_max_undos :: version

record fragment_text_summary =
  fts_visible :: nat
  fts_deleted :: nat

record fragment_summary =
  fs_text :: fragment_text_summary
  fs_max_id :: locator
  fs_max_version :: version
  fs_min_insertion_version :: version
  fs_max_insertion_version :: version

definition fragment_summary_default :: fragment_summary where
  "fragment_summary_default = \<lparr>fs_text = \<lparr>fts_visible = 0, fts_deleted = 0\<rparr>, fs_max_id = locator_min,
     fs_max_version = version_new, fs_min_insertion_version = version_new, fs_max_insertion_version = version_new\<rparr>"

definition text_summary_add :: "fragment_text_summary \<Rightarrow> fragment_text_summary \<Rightarrow> fragment_text_summary" where
  "text_summary_add a b = \<lparr>fts_visible = fts_visible a + fts_visible b, fts_deleted = fts_deleted a + fts_deleted b\<rparr>"

definition fragment_summary_add :: "fragment_summary \<Rightarrow> fragment_summary \<Rightarrow> fragment_summary" where
  "fragment_summary_add self other = \<lparr>fs_text = text_summary_add (fs_text self) (fs_text other), fs_max_id = fs_max_id other,
     fs_max_version = version_join (fs_max_version self) (fs_max_version other),
     fs_min_insertion_version = version_meet (fs_min_insertion_version self) (fs_min_insertion_version other),
     fs_max_insertion_version = version_join (fs_max_insertion_version self) (fs_max_insertion_version other)\<rparr>"

definition fragment_text :: "fragment \<Rightarrow> fragment_text_summary" where
  "fragment_text f = (if fr_visible f then \<lparr>fts_visible = fr_len f, fts_deleted = 0\<rparr>
     else \<lparr>fts_visible = 0, fts_deleted = fr_len f\<rparr>)"

definition fragment_summary_of :: "fragment \<Rightarrow> fragment_summary" where
  "fragment_summary_of f =
     (let max_version = foldl version_observe (version_observe version_new (fr_timestamp f)) (fr_deletions f);
          max_version = version_join max_version (fr_max_undos f);
          min_insertion_version = version_observe version_new (fr_timestamp f)
      in \<lparr>fs_text = fragment_text f, fs_max_id = fr_id f, fs_max_version = max_version,
          fs_min_insertion_version = min_insertion_version, fs_max_insertion_version = min_insertion_version\<rparr>)"

definition fragment_ops :: "(fragment, fragment_summary) item_ops" where
  "fragment_ops = \<lparr>szero = fragment_summary_default, sadd = fragment_summary_add, ssummary = fragment_summary_of\<rparr>"

type_synonym fragments = "(fragment, fragment_summary) node"

text \<open>Visibility now and in a version, by the counts of undo operations.\<close>

fun all_undone :: "undo_map \<Rightarrow> lamport list \<Rightarrow> bool option" where
  "all_undone undos [] = Some True"
| "all_undone undos (d # ds) = do { u \<leftarrow> is_undone undos d; if u then all_undone undos ds else Some False }"

definition is_visible :: "fragment \<Rightarrow> undo_map \<Rightarrow> bool option" where
  "is_visible f undos = do {
     undone \<leftarrow> is_undone undos (fr_timestamp f);
     if undone then Some False else all_undone undos (fr_deletions f) }"

fun all_were_undone :: "undo_map \<Rightarrow> global \<Rightarrow> lamport list \<Rightarrow> bool option" where
  "all_were_undone undos version [] = Some True"
| "all_were_undone undos version (d # ds) =
     (if \<not> observed version d then all_were_undone undos version ds
      else do { u \<leftarrow> was_undone undos d version; if u then all_were_undone undos version ds else Some False })"

definition was_visible :: "fragment \<Rightarrow> global \<Rightarrow> undo_map \<Rightarrow> bool option" where
  "was_visible f version undos =
     (if \<not> observed version (fr_timestamp f) then Some False
      else do {
        undone \<leftarrow> was_undone undos (fr_timestamp f) version;
        if undone then Some False else all_were_undone undos version (fr_deletions f) })"

section \<open>Dimensions\<close>

definition fragment_text_dim :: "(fragment_summary, fragment_text_summary) dim_ops" where
  "fragment_text_dim = \<lparr>dzero = \<lparr>fts_visible = 0, fts_deleted = 0\<rparr>, dadd = (\<lambda>d s. text_summary_add d (fs_text s))\<rparr>"

definition visible_dim :: "(fragment_summary, nat) dim_ops" where
  "visible_dim = \<lparr>dzero = 0, dadd = (\<lambda>d s. d + fts_visible (fs_text s))\<rparr>"

definition full_offset_dim :: "(fragment_summary, full_offset) dim_ops" where
  "full_offset_dim = \<lparr>dzero = FullOffset 0, dadd = (\<lambda>d s. full_offset_add d (fts_visible (fs_text s) + fts_deleted (fs_text s)))\<rparr>"

definition fragment_id_dim :: "(fragment_summary, locator option) dim_ops" where
  "fragment_id_dim = \<lparr>dzero = None, dadd = (\<lambda>_ s. Some (fs_max_id s))\<rparr>"

text \<open>A number as a target in a tree of fragments is an offset in the visible text.\<close>

definition visible_target :: "nat \<Rightarrow> fragment_text_summary \<Rightarrow> ordering" where
  "visible_target offset cursor_location = cmp offset (fts_visible cursor_location)"

section \<open>Insertions\<close>

text \<open>Where the part of an insertion from an offset on is, as a fragment's identifier.\<close>

record insertion_fragment =
  if_timestamp :: lamport
  if_split_offset :: nat
  if_fragment_id :: locator

type_synonym insertion_key = "lamport \<times> nat"

definition insertion_fragment_key :: "insertion_fragment \<Rightarrow> insertion_key" where
  "insertion_fragment_key i = (if_timestamp i, if_split_offset i)"

definition insertion_ops :: "(insertion_fragment, insertion_key) item_ops" where
  "insertion_ops = \<lparr>szero = (lamport_MIN, 0), sadd = (\<lambda>_ summary. summary), ssummary = insertion_fragment_key\<rparr>"

definition insertion_dim :: "(insertion_key, insertion_key) dim_ops" where
  "insertion_dim = summary_dim insertion_ops"

type_synonym insertions = "(insertion_fragment, insertion_key) node"

definition insertion_fragment_new :: "fragment \<Rightarrow> insertion_fragment" where
  "insertion_fragment_new f = \<lparr>if_timestamp = fr_timestamp f, if_split_offset = fr_insertion_offset f, if_fragment_id = fr_id f\<rparr>"

definition insert_new :: "fragment \<Rightarrow> (insertion_fragment, insertion_key) edit" where
  "insert_new f = Insert (insertion_fragment_new f)"

text \<open>The part of an insertion that an edit made or deleted, in the order of its fields.\<close>

datatype insertion_slice = InsertionSlice (sl_edit_id: lamport) (sl_insertion_id: lamport) (sl_start: nat) (sl_end: nat)

definition slice_key :: "insertion_slice \<Rightarrow> lamport \<times> lamport \<times> nat \<times> nat" where
  "slice_key s = (sl_edit_id s, sl_insertion_id s, sl_start s, sl_end s)"

instantiation insertion_slice :: linorder
begin

definition less_eq_insertion_slice :: "insertion_slice \<Rightarrow> insertion_slice \<Rightarrow> bool" where
  "less_eq_insertion_slice a b \<longleftrightarrow> slice_key a \<le> slice_key b"

definition less_insertion_slice :: "insertion_slice \<Rightarrow> insertion_slice \<Rightarrow> bool" where
  "less_insertion_slice a b \<longleftrightarrow> slice_key a < slice_key b"

instance
proof
  fix a b c :: insertion_slice
  show "(a < b) = (a \<le> b \<and> \<not> b \<le> a)"
    unfolding less_eq_insertion_slice_def less_insertion_slice_def by (rule less_le_not_le)
  show "a \<le> a"
    unfolding less_eq_insertion_slice_def by (rule order_refl)
  show "a \<le> b \<Longrightarrow> b \<le> c \<Longrightarrow> a \<le> c"
    unfolding less_eq_insertion_slice_def by (rule order_trans)
  show "a \<le> b \<or> b \<le> a"
    unfolding less_eq_insertion_slice_def by (rule linear)
  assume "a \<le> b" and "b \<le> a"
  then have "slice_key a = slice_key b"
    unfolding less_eq_insertion_slice_def by (rule order_antisym)
  then show "a = b" by (auto simp: slice_key_def intro: insertion_slice.expand)
qed

end

definition slice_from_fragment :: "lamport \<Rightarrow> fragment \<Rightarrow> insertion_slice option" where
  "slice_from_fragment edit_id f = do {
     e \<leftarrow> u32_add (fr_insertion_offset f) (fr_len f);
     Some (InsertionSlice edit_id (fr_timestamp f) (fr_insertion_offset f) e) }"

section \<open>The builder of the tree\<close>

datatype fragment_chunk = TreeChunk fragments | Loose "fragment list"

record fragment_builder =
  fb_chunks :: "fragment_chunk list"
  fb_summary :: fragment_summary

definition builder_new :: "fragments \<Rightarrow> fragment_builder" where
  "builder_new init = \<lparr>fb_chunks = (if is_empty init then [] else [TreeChunk init]), fb_summary = summary init\<rparr>"

definition builder_append :: "fragment_builder \<Rightarrow> fragments \<Rightarrow> fragment_builder" where
  "builder_append b its =
     (if is_empty its then b
      else b\<lparr>fb_summary := fragment_summary_add (fb_summary b) (summary its), fb_chunks := fb_chunks b @ [TreeChunk its]\<rparr>)"

definition builder_push :: "fragment_builder \<Rightarrow> fragment \<Rightarrow> fragment_builder" where
  "builder_push b f =
     b\<lparr>fb_summary := fragment_summary_add (fb_summary b) (fragment_summary_of f),
       fb_chunks := (case rev (fb_chunks b) of
           Loose fs # cs \<Rightarrow> rev cs @ [Loose (fs @ [f])]
         | _ \<Rightarrow> fb_chunks b @ [Loose [f]])\<rparr>"

fun build_chunks :: "fragments \<Rightarrow> fragment_chunk list \<Rightarrow> fragments option" where
  "build_chunks t [] = Some t"
| "build_chunks t (TreeChunk subtree # cs) = do { t \<leftarrow> tree_append fragment_ops t subtree; build_chunks t cs }"
| "build_chunks t (Loose fs # cs) = do {
     t \<leftarrow> tree_append fragment_ops t
            (if 1024 < length fs then tree_from_par_iter fragment_ops fs else tree_from_iter fragment_ops fs);
     build_chunks t cs }"

definition to_sum_tree :: "fragment_builder \<Rightarrow> fragments option" where
  "to_sum_tree b = build_chunks (tree_new fragment_ops) (fb_chunks b)"

section \<open>The builder of the ropes\<close>

record rope_builder =
  rb_visible_cursor :: rope_cursor
  rb_deleted_cursor :: rope_cursor
  rb_visible :: rope
  rb_deleted :: rope

definition rope_builder_new :: "rope_cursor \<Rightarrow> rope_cursor \<Rightarrow> rope_builder" where
  "rope_builder_new old_visible old_deleted =
     \<lparr>rb_visible_cursor = old_visible, rb_deleted_cursor = old_deleted, rb_visible = rope_new, rb_deleted = rope_new\<rparr>"

definition ropes_push :: "rope_builder \<Rightarrow> nat \<Rightarrow> bool \<Rightarrow> bool \<Rightarrow> rope_builder option" where
  "ropes_push rb len was_vis is_vis = do {
     (rb, text) \<leftarrow>
       (if was_vis then do {
          (c, text) \<leftarrow> rope_cursor_slice (rb_visible_cursor rb) (rc_offset (rb_visible_cursor rb) + len);
          Some (rb\<lparr>rb_visible_cursor := c\<rparr>, text) }
        else do {
          (c, text) \<leftarrow> rope_cursor_slice (rb_deleted_cursor rb) (rc_offset (rb_deleted_cursor rb) + len);
          Some (rb\<lparr>rb_deleted_cursor := c\<rparr>, text) });
     if is_vis then do { r \<leftarrow> rope_append (rb_visible rb) text; Some (rb\<lparr>rb_visible := r\<rparr>) }
     else do { r \<leftarrow> rope_append (rb_deleted rb) text; Some (rb\<lparr>rb_deleted := r\<rparr>) } }"

definition ropes_append :: "rope_builder \<Rightarrow> fragment_text_summary \<Rightarrow> rope_builder option" where
  "ropes_append rb len = do {
     rb \<leftarrow> ropes_push rb (fts_visible len) True True;
     ropes_push rb (fts_deleted len) False False }"

text \<open>A debug assertion wants the fragment non-empty.\<close>

definition ropes_push_fragment :: "rope_builder \<Rightarrow> fragment \<Rightarrow> bool \<Rightarrow> rope_builder option" where
  "ropes_push_fragment rb f was_vis = do {
     _ \<leftarrow> require (0 < fr_len f);
     ropes_push rb (fr_len f) was_vis (fr_visible f) }"

definition ropes_push_str :: "rope_builder \<Rightarrow> str \<Rightarrow> rope_builder option" where
  "ropes_push_str rb s = do { r \<leftarrow> rope_push (rb_visible rb) s; Some (rb\<lparr>rb_visible := r\<rparr>) }"

definition ropes_finish :: "rope_builder \<Rightarrow> (rope \<times> rope) option" where
  "ropes_finish rb = do {
     suffix \<leftarrow> rope_cursor_suffix (rb_visible_cursor rb);
     visible_text \<leftarrow> rope_append (rb_visible rb) suffix;
     suffix \<leftarrow> rope_cursor_suffix (rb_deleted_cursor rb);
     deleted_text \<leftarrow> rope_append (rb_deleted rb) suffix;
     Some (visible_text, deleted_text) }"

section \<open>Summaries of fragments\<close>

lemma version_eqI: "(\<And>r. get (version_global v) r = get (version_global w) r) \<Longrightarrow> v = w"
  using canonical_eqI [of "version_global v" "version_global w"] version_global [of v] version_global [of w]
  by (simp add: version_global_inject)

lemma version_get [simp]:
  "get (version_global version_new) r = 0"
  "get (version_global (version_join v w)) r = max (get (version_global v) r) (get (version_global w) r)"
  "get (version_global (version_meet v w)) r = meet_entry (get (version_global v) r) (get (version_global w) r)"
  by (simp_all add: version_new.rep_eq version_join.rep_eq version_meet.rep_eq get_join get_meet)

lemma meet_entry_assoc: "meet_entry (meet_entry a b) c = meet_entry a (meet_entry b c)"
  by (auto simp: meet_entry_def min_def)

lemma version_laws:
  "version_join (version_join a b) c = version_join a (version_join b c)" "version_join version_new a = a"
  "version_meet (version_meet a b) c = version_meet a (version_meet b c)" "version_meet version_new a = a"
  by (rule version_eqI, simp add: max.assoc)
    (rule version_eqI, simp,
     rule version_eqI, simp add: meet_entry_assoc,
     rule version_eqI, simp add: meet_entry_def)

lemma text_summary_add_assoc: "text_summary_add (text_summary_add a b) c = text_summary_add a (text_summary_add b c)"
  by (simp add: text_summary_add_def)

interpretation fragments: summary_laws fragment_ops
  by unfold_locales
    (simp_all add: fragment_ops_def fragment_summary_add_def fragment_summary_default_def text_summary_add_def version_laws)

interpretation fragment_text_laws: dimension_laws fragment_ops fragment_text_dim
  by unfold_locales
    (simp_all add: fragment_ops_def fragment_text_dim_def fragment_summary_add_def text_summary_add_assoc)

interpretation visible_laws: dimension_laws fragment_ops visible_dim
  by unfold_locales (simp_all add: fragment_ops_def visible_dim_def fragment_summary_add_def text_summary_add_def)

interpretation full_offset_laws: dimension_laws fragment_ops full_offset_dim
  by unfold_locales (simp_all add: fragment_ops_def full_offset_dim_def fragment_summary_add_def text_summary_add_def full_offset_add_def)

interpretation fragment_id_laws: dimension_laws fragment_ops fragment_id_dim
  by unfold_locales (simp_all add: fragment_ops_def fragment_id_dim_def fragment_summary_add_def)

end
