(* ===== verification/Buffer_Edit.thy ===== *)
theory Buffer_Edit
  imports Fragment
begin

text \<open>
  The crate \<open>text\<close>, file \<open>text.rs\<close>: the snapshot of a buffer and how a local edit changes it. An edit walks the old
  fragments once from left to right; it copies the fragments outside the edited ranges, splits those
  that a range begins or ends in, marks deleted text and inserts fragments for new text.
\<close>

section \<open>The snapshot\<close>

record buffer_snapshot =
  sn_visible_text :: rope
  sn_deleted_text :: rope
  sn_fragments :: fragments
  sn_insertions :: insertions
  sn_insertion_slices :: "insertion_slice tree_set"
  sn_undo_map :: undo_map
  sn_version :: global
  sn_remote_id :: u64
  sn_replica_id :: replica_id
  sn_line_ending :: line_ending

section \<open>Adding fragments\<close>

text \<open>The variables that hold the new fragments, insertions, slices and ropes while an edit is applied.\<close>

record splice_state =
  es_insertions :: "(insertion_fragment, insertion_key) edit list"
  es_insertion_offset :: nat
  es_slices :: "insertion_slice list"
  es_fragments :: fragment_builder
  es_ropes :: rope_builder

text \<open>The three calls with which a fragment is added and its insertion recorded, and the two that copy a tree.\<close>

definition emit_fragment :: "fragment \<Rightarrow> bool \<Rightarrow> 'z splice_state_scheme \<Rightarrow> 'z splice_state_scheme option" where
  "emit_fragment f was_vis s = do {
     new_ropes \<leftarrow> ropes_push_fragment (es_ropes s) f was_vis;
     Some (s\<lparr>es_insertions := es_insertions s @ [insert_new f], es_ropes := new_ropes,
             es_fragments := builder_push (es_fragments s) f\<rparr>) }"

definition emit_tree :: "fragments \<Rightarrow> 'z splice_state_scheme \<Rightarrow> 'z splice_state_scheme option" where
  "emit_tree t s = do {
     new_ropes \<leftarrow> ropes_append (es_ropes s) (fs_text (summary t));
     Some (s\<lparr>es_ropes := new_ropes, es_fragments := builder_append (es_fragments s) t\<rparr>) }"

abbreviation new_visible :: "'z splice_state_scheme \<Rightarrow> nat" where
  "new_visible s \<equiv> fts_visible (fs_text (fb_summary (es_fragments s)))"

abbreviation new_max_id :: "'z splice_state_scheme \<Rightarrow> locator" where
  "new_max_id s \<equiv> fs_max_id (fb_summary (es_fragments s))"

partial_function (option) push_fragments_loop ::
  "str \<Rightarrow> lamport \<Rightarrow> locator \<Rightarrow> lamport \<Rightarrow> nat \<Rightarrow> 'z splice_state_scheme \<Rightarrow> 'z splice_state_scheme option" where
  "push_fragments_loop new_text timestamp next_fragment_id edit_timestamp text_offset s =
     (if text_offset < str_len new_text
      then do {
        let target_end = min (str_len new_text) (text_offset + MAX_INSERTION_LEN);
        let chunk_end = (if target_end = str_len new_text then target_end
                         else str_floor_char_boundary new_text target_end);
        if chunk_end = text_offset then Some s
        else do {
          chunk_len \<leftarrow> usize_sub chunk_end text_offset;
          let f = \<lparr>fr_id = between (new_max_id s) next_fragment_id, fr_timestamp = timestamp,
                   fr_insertion_offset = es_insertion_offset s, fr_len = as_u32 chunk_len, fr_visible = True,
                   fr_deletions = [], fr_max_undos = version_new\<rparr>;
          slice \<leftarrow> slice_from_fragment edit_timestamp f;
          insertion_offset \<leftarrow> u32_add (es_insertion_offset s) (as_u32 chunk_len);
          push_fragments_loop new_text timestamp next_fragment_id edit_timestamp chunk_end
            (s\<lparr>es_slices := es_slices s @ [slice], es_insertions := es_insertions s @ [insert_new f],
               es_fragments := builder_push (es_fragments s) f, es_insertion_offset := insertion_offset\<rparr>) } }
      else Some s)"

definition push_fragments_for_insertion ::
  "str \<Rightarrow> lamport \<Rightarrow> locator \<Rightarrow> lamport \<Rightarrow> 'z splice_state_scheme \<Rightarrow> 'z splice_state_scheme option" where
  "push_fragments_for_insertion new_text timestamp next_fragment_id edit_timestamp s = do {
     s \<leftarrow> push_fragments_loop new_text timestamp next_fragment_id edit_timestamp 0 s;
     new_ropes \<leftarrow> ropes_push_str (es_ropes s) new_text;
     Some (s\<lparr>es_ropes := new_ropes\<rparr>) }"

section \<open>A local edit\<close>

record local_edit = splice_state +
  le_old :: "(fragment, fragment_summary, fragment_text_summary) cursor"
  le_start :: nat
  le_patch :: patch
  le_ranges :: "(full_offset \<times> full_offset) list"
  le_texts :: "str list"

abbreviation old_start :: "local_edit \<Rightarrow> fragment_text_summary" where
  "old_start s \<equiv> cu_position (le_old s)"

text \<open>
  The rest of a fragment that is partly copied: the code that stands before a jump to a later range and
  again after the last range.
\<close>

definition push_rest :: "local_edit \<Rightarrow> local_edit option" where
  "push_rest s =
     (if fts_visible (old_start s) < le_start s
      then do {
        e \<leftarrow> cursor_end fragment_text_dim (le_old s);
        s \<leftarrow> (if le_start s < fts_visible e
              then do {
                it \<leftarrow> cursor_item (le_old s); f \<leftarrow> it;
                len \<leftarrow> usize_sub (fts_visible e) (le_start s);
                skipped \<leftarrow> usize_sub (le_start s) (fts_visible (old_start s));
                offset \<leftarrow> u32_add (fr_insertion_offset f) (as_u32 skipped);
                let suffix = f\<lparr>fr_len := as_u32 len, fr_insertion_offset := offset\<rparr>;
                emit_fragment suffix (fr_visible suffix) s }
              else Some s);
        c \<leftarrow> cursor_next fragment_text_dim (le_old s);
        Some (s\<lparr>le_old := c\<rparr>) }
      else Some s)"

text \<open>Copying up to a later range, and the first part of the fragment it begins in.\<close>

definition skip_to :: "nat \<Rightarrow> local_edit \<Rightarrow> local_edit option" where
  "skip_to start s = do {
     e \<leftarrow> cursor_end fragment_text_dim (le_old s);
     if fts_visible e < start
     then do {
       s \<leftarrow> push_rest s;
       (c, slice) \<leftarrow> cursor_slice fragment_ops fragment_text_dim (visible_target start) Right (le_old s);
       s \<leftarrow> emit_tree slice s;
       Some (s\<lparr>le_old := c, le_start := fts_visible (cu_position c)\<rparr>) }
     else Some s }"

definition push_prefix :: "nat \<Rightarrow> local_edit \<Rightarrow> local_edit option" where
  "push_prefix start s =
     (if le_start s < start
      then do {
        it \<leftarrow> cursor_item (le_old s); f \<leftarrow> it;
        skipped \<leftarrow> usize_sub (le_start s) (fts_visible (old_start s));
        offset \<leftarrow> u32_add (fr_insertion_offset f) (as_u32 skipped);
        let prefix = f\<lparr>fr_len := as_u32 (start - le_start s), fr_insertion_offset := offset,
                       fr_id := between (new_max_id s) (fr_id f)\<rparr>;
        s \<leftarrow> emit_fragment prefix (fr_visible prefix) s;
        Some (s\<lparr>le_start := start\<rparr>) }
      else Some s)"

definition insert_text :: "lamport \<Rightarrow> str \<Rightarrow> local_edit \<Rightarrow> local_edit option" where
  "insert_text timestamp new_text s =
     (if new_text \<noteq> []
      then do {
        let new_start = new_visible s;
        it \<leftarrow> cursor_item (le_old s);
        let next_fragment_id = (case it of None \<Rightarrow> locator_max | Some old_fragment \<Rightarrow> fr_id old_fragment);
        s \<leftarrow> push_fragments_for_insertion new_text timestamp next_fragment_id timestamp s;
        Some (s\<lparr>le_patch := patch_push (le_patch s)
                  (make_edit (le_start s) (le_start s) new_start (new_start + str_len new_text))\<rparr>) }
      else Some s)"

text \<open>One round of the loop over the fragments of a deleted range.\<close>

definition intersect :: "lamport \<Rightarrow> nat \<Rightarrow> fragment \<Rightarrow> local_edit \<Rightarrow> fragment option" where
  "intersect timestamp intersection_end f s =
     (if fr_visible f
      then do {
        len \<leftarrow> usize_sub intersection_end (le_start s);
        skipped \<leftarrow> usize_sub (le_start s) (fts_visible (old_start s));
        offset \<leftarrow> u32_add (fr_insertion_offset f) (as_u32 skipped);
        Some (f\<lparr>fr_len := as_u32 len, fr_insertion_offset := offset, fr_id := between (new_max_id s) (fr_id f),
                fr_deletions := fr_deletions f @ [timestamp], fr_visible := False\<rparr>) }
      else Some f)"

definition push_intersection :: "lamport \<Rightarrow> nat \<Rightarrow> bool \<Rightarrow> fragment \<Rightarrow> local_edit \<Rightarrow> local_edit option" where
  "push_intersection timestamp intersection_end was_vis intersection s =
     (if 0 < fr_len intersection
      then do {
        s \<leftarrow> (if was_vis \<and> \<not> fr_visible intersection
              then do {
                let new_start = new_visible s;
                slice \<leftarrow> slice_from_fragment timestamp intersection;
                Some (s\<lparr>le_patch := patch_push (le_patch s) (make_edit (le_start s) intersection_end new_start new_start),
                        es_slices := es_slices s @ [slice]\<rparr>) }
              else Some s);
        s \<leftarrow> emit_fragment intersection was_vis s;
        Some (s\<lparr>le_start := intersection_end\<rparr>) }
      else Some s)"

partial_function (option) delete_loop :: "lamport \<Rightarrow> nat \<Rightarrow> local_edit \<Rightarrow> local_edit option" where
  "delete_loop timestamp range_end s =
     (if le_start s < range_end
      then do {
        it \<leftarrow> cursor_item (le_old s); f \<leftarrow> it;
        e \<leftarrow> cursor_end fragment_text_dim (le_old s);
        let intersection_end = min range_end (fts_visible e);
        intersection \<leftarrow> intersect timestamp intersection_end f s;
        s \<leftarrow> push_intersection timestamp intersection_end (fr_visible f) intersection s;
        s \<leftarrow> (if fts_visible e \<le> range_end
              then do { c \<leftarrow> cursor_next fragment_text_dim (le_old s); Some (s\<lparr>le_old := c\<rparr>) }
              else Some s);
        delete_loop timestamp range_end s }
      else Some s)"

definition apply_one_edit :: "lamport \<Rightarrow> (nat \<times> nat) \<times> str \<Rightarrow> local_edit \<Rightarrow> local_edit option" where
  "apply_one_edit timestamp e s = do {
     let new_text = normalize (snd e);
     s \<leftarrow> skip_to (fst (fst e)) s;
     let full_range_start = FullOffset (fst (fst e) + fts_deleted (old_start s));
     s \<leftarrow> push_prefix (fst (fst e)) s;
     s \<leftarrow> insert_text timestamp new_text s;
     s \<leftarrow> delete_loop timestamp (snd (fst e)) s;
     let full_range_end = FullOffset (snd (fst e) + fts_deleted (old_start s));
     Some (s\<lparr>le_ranges := le_ranges s @ [(full_range_start, full_range_end)], le_texts := le_texts s @ [new_text]\<rparr>) }"

fun apply_edits :: "lamport \<Rightarrow> ((nat \<times> nat) \<times> str) list \<Rightarrow> local_edit \<Rightarrow> local_edit option" where
  "apply_edits timestamp [] s = Some s"
| "apply_edits timestamp (e # es) s = do { s \<leftarrow> apply_one_edit timestamp e s; apply_edits timestamp es s }"

definition begin_edit :: "buffer_snapshot \<Rightarrow> nat \<Rightarrow> local_edit option" where
  "begin_edit self start = do {
     visible_cursor \<leftarrow> rope_cursor_new (sn_visible_text self) 0;
     deleted_cursor \<leftarrow> rope_cursor_new (sn_deleted_text self) 0;
     (c, slice) \<leftarrow> cursor_slice fragment_ops fragment_text_dim (visible_target start) Right
                     (cursor_new fragment_text_dim (sn_fragments self));
     let new_fragments = builder_new slice;
     new_ropes \<leftarrow> ropes_append (rope_builder_new visible_cursor deleted_cursor) (fs_text (fb_summary new_fragments));
     Some \<lparr>es_insertions = [], es_insertion_offset = 0, es_slices = [], es_fragments = new_fragments, es_ropes = new_ropes,
       le_old = c, le_start = fts_visible (cu_position c), le_patch = patch_empty, le_ranges = [], le_texts = []\<rparr> }"

definition finish_edit :: "buffer_snapshot \<Rightarrow> local_edit \<Rightarrow> buffer_snapshot option" where
  "finish_edit self s = do {
     (c, suffix) \<leftarrow> cursor_suffix fragment_ops fragment_text_dim (le_old s);
     s \<leftarrow> emit_tree suffix s;
     (visible_text, deleted_text) \<leftarrow> ropes_finish (es_ropes s);
     new_fragments \<leftarrow> to_sum_tree (es_fragments s);
     (insertions, _) \<leftarrow> tree_edit insertion_ops insertion_dim insertion_fragment_key (sn_insertions self) (es_insertions s);
     insertion_slices \<leftarrow> set_extend (sn_insertion_slices self) (es_slices s);
     Some (self\<lparr>sn_fragments := new_fragments, sn_insertions := insertions, sn_visible_text := visible_text,
       sn_deleted_text := deleted_text, sn_insertion_slices := insertion_slices\<rparr>) }"

definition apply_edit_internal ::
  "buffer_snapshot \<Rightarrow> ((nat \<times> nat) \<times> str) list \<Rightarrow> lamport \<Rightarrow> (buffer_snapshot \<times> edit_operation \<times> patch) option" where
  "apply_edit_internal self edits timestamp =
     (case edits of
        [] \<Rightarrow> Some (self, \<lparr>eo_timestamp = timestamp, eo_version = sn_version self, eo_ranges = [], eo_new_text = []\<rparr>, patch_empty)
      | e # _ \<Rightarrow> do {
          s \<leftarrow> begin_edit self (fst (fst e));
          s \<leftarrow> apply_edits timestamp edits s;
          s \<leftarrow> push_rest s;
          self' \<leftarrow> finish_edit self s;
          Some (self', \<lparr>eo_timestamp = timestamp, eo_version = sn_version self, eo_ranges = le_ranges s, eo_new_text = le_texts s\<rparr>,
            le_patch s) })"

end
