(* ===== verification/Buffer_Doc.thy ===== *)
theory Buffer_Doc
  imports Buffer_Edit "HOL-Library.Sublist"
begin

text \<open>
  What a buffer's fragments and ropes stand for: a document, the sequence of all characters that were ever
  inserted, each with the edit that inserted it, its offset in the text of that edit, and the edits that
  deleted it. The builders of \<open>text.rs\<close> are shown to act on this sequence.
\<close>

section \<open>Documents\<close>

record cell =
  cl_timestamp :: lamport
  cl_offset :: nat
  cl_char :: nat
  cl_visible :: bool
  cl_deletions :: "lamport list"
  cl_max_undos :: version

definition doc_visible :: "cell list \<Rightarrow> str" where
  "doc_visible d = map cl_char (filter cl_visible d)"

definition doc_deleted :: "cell list \<Rightarrow> str" where
  "doc_deleted d = map cl_char (filter (\<lambda>c. \<not> cl_visible c) d)"

definition doc_len :: "cell list \<Rightarrow> nat" where
  "doc_len d = str_len (map cl_char d)"

lemma doc_simps [simp]:
  "doc_visible [] = []" "doc_deleted [] = []" "doc_len [] = 0"
  "doc_visible (a @ b) = doc_visible a @ doc_visible b" "doc_deleted (a @ b) = doc_deleted a @ doc_deleted b"
  "doc_len (a @ b) = doc_len a + doc_len b"
  by (simp_all add: doc_visible_def doc_deleted_def doc_len_def)

lemma doc_len_split: "doc_len d = str_len (doc_visible d) + str_len (doc_deleted d)"
  by (induction d) (auto simp: doc_len_def doc_visible_def doc_deleted_def)

text \<open>The characters of a fragment whose text starts at an offset of its insertion.\<close>

fun cells :: "fragment \<Rightarrow> nat \<Rightarrow> str \<Rightarrow> cell list" where
  "cells f i [] = []"
| "cells f i (c # cs) =
     \<lparr>cl_timestamp = fr_timestamp f, cl_offset = i, cl_char = c, cl_visible = fr_visible f,
      cl_deletions = fr_deletions f, cl_max_undos = fr_max_undos f\<rparr> # cells f (i + len_utf8 c) cs"

lemma cells_append [simp]: "cells f i (a @ b) = cells f i a @ cells f (i + str_len a) b"
  by (induction a arbitrary: i) (simp_all add: add.assoc)

lemma cells_chars [simp]: "map cl_char (cells f i t) = t"
  by (induction t arbitrary: i) simp_all

lemma cells_eq_Nil [simp]: "cells f i t = [] \<longleftrightarrow> t = []"
  by (cases t) simp_all

lemma cells_fields: "c \<in> set (cells f i t) \<Longrightarrow> cl_timestamp c = fr_timestamp f \<and> cl_visible c = fr_visible f \<and>
    cl_deletions c = fr_deletions f \<and> cl_max_undos c = fr_max_undos f"
  by (induction t arbitrary: i) auto

lemma cells_cong:
  assumes "fr_timestamp f = fr_timestamp g" and "fr_visible f = fr_visible g" and "fr_deletions f = fr_deletions g"
    and "fr_max_undos f = fr_max_undos g"
  shows "cells f i t = cells g i t"
  using assms by (induction t arbitrary: i) simp_all

lemma cells_text [simp]:
  "doc_visible (cells f i t) = (if fr_visible f then t else [])" "doc_deleted (cells f i t) = (if fr_visible f then [] else t)"
  "doc_len (cells f i t) = str_len t"
  by (induction t arbitrary: i) (auto simp: doc_visible_def doc_deleted_def doc_len_def)

text \<open>A fragment with its text.\<close>

type_synonym piece = "fragment \<times> str"

definition piece_cells :: "piece \<Rightarrow> cell list" where
  "piece_cells p = cells (fst p) (fr_insertion_offset (fst p)) (snd p)"

definition piece_ok :: "piece \<Rightarrow> bool" where
  "piece_ok p \<longleftrightarrow> snd p \<noteq> [] \<and> fr_len (fst p) = str_len (snd p) \<and> fr_insertion_offset (fst p) + fr_len (fst p) < 2 ^ 32 \<and>
     last (fr_id (fst p)) \<noteq> 0"

definition doc_of :: "piece list \<Rightarrow> cell list" where
  "doc_of ps = concat (map piece_cells ps)"

abbreviation piece_id :: "piece \<Rightarrow> locator" where
  "piece_id p \<equiv> fr_id (fst p)"

lemma doc_of_simps [simp]: "doc_of [] = []" "doc_of (p # ps) = piece_cells p @ doc_of ps" "doc_of (ps @ qs) = doc_of ps @ doc_of qs"
  by (simp_all add: doc_of_def)

lemma piece_len_pos: "piece_ok p \<Longrightarrow> 0 < str_len (snd p)"
  by (auto simp: piece_ok_def)

lemma piece_text:
  assumes "piece_ok p"
  shows "fragment_text (fst p) = \<lparr>fts_visible = str_len (doc_visible (piece_cells p)), fts_deleted = str_len (doc_deleted (piece_cells p))\<rparr>"
  using assms by (simp add: fragment_text_def piece_cells_def piece_ok_def)

definition doc_text :: "cell list \<Rightarrow> fragment_text_summary" where
  "doc_text d = \<lparr>fts_visible = str_len (doc_visible d), fts_deleted = str_len (doc_deleted d)\<rparr>"

lemma doc_text_simps [simp]: "fts_visible (doc_text d) = str_len (doc_visible d)" "fts_deleted (doc_text d) = str_len (doc_deleted d)"
  by (simp_all add: doc_text_def)

lemma fragment_ops_simps:
  "fs_text (ssummary fragment_ops f) = fragment_text f" "fs_max_id (ssummary fragment_ops f) = fr_id f"
  "fs_text (sadd fragment_ops a b) = text_summary_add (fs_text a) (fs_text b)"
  "fs_max_id (sadd fragment_ops a b) = fs_max_id b" "fs_max_id (szero fragment_ops) = locator_min"
  "fs_text (szero fragment_ops) = doc_text []"
  by (simp_all add: fragment_ops_def fragment_summary_of_def fragment_summary_add_def fragment_summary_default_def Let_def doc_text_def)

lemma text_dim_pieces:
  assumes "\<forall>p \<in> set ps. piece_ok p"
  shows "foldl (dadd fragment_text_dim) (doc_text d) (map (ssummary fragment_ops) (map fst ps)) = doc_text (d @ doc_of ps)"
  using assms
proof (induction ps arbitrary: d)
  case (Cons p ps)
  have "dadd fragment_text_dim (doc_text d) (ssummary fragment_ops (fst p)) = doc_text (d @ piece_cells p)"
    using Cons.prems piece_text [of p]
    by (simp add: fragment_text_dim_def fragment_ops_simps text_summary_add_def doc_text_def)
  with Cons show ?case by simp
qed simp

lemma text_dim_zero: "dzero fragment_text_dim = doc_text []"
  by (simp add: fragment_text_dim_def doc_text_def)

lemma text_dim_position:
  assumes "\<forall>p \<in> set ps. piece_ok p"
  shows "position_of fragment_ops fragment_text_dim (take k (map fst ps)) = doc_text (doc_of (take k ps))"
  using text_dim_pieces [of "take k ps" "[]"] assms set_take_subset [of k ps]
  by (auto simp: position_of_def text_dim_zero take_map)

section \<open>Summaries of the builder\<close>

lemma sum_of_text:
  assumes "\<forall>p \<in> set ps. piece_ok p"
  shows "fs_text (foldl (sadd fragment_ops) s (map (ssummary fragment_ops) (map fst ps))) = text_summary_add (fs_text s) (doc_text (doc_of ps))"
  using assms
proof (induction ps arbitrary: s)
  case Nil
  then show ?case by (simp add: doc_text_def text_summary_add_def)
next
  case (Cons p ps)
  then show ?case using piece_text [of p]
    by (simp add: fragment_ops_simps text_summary_add_def doc_text_def)
qed

lemma sum_of_max_id:
  "fs_max_id (sum_of fragment_ops (map (ssummary fragment_ops) fs)) = (if fs = [] then locator_min else fr_id (last fs))"
  by (induction fs rule: rev_induct)
    (simp_all add: sum_of_def fragment_ops_simps)

fun chunk_fragments :: "fragment_chunk \<Rightarrow> fragment list" where
  "chunk_fragments (TreeChunk t) = flat t"
| "chunk_fragments (Loose fs) = fs"

definition builder_holds :: "fragment_builder \<Rightarrow> fragment list \<Rightarrow> bool" where
  "builder_holds b fs \<longleftrightarrow> concat (map chunk_fragments (fb_chunks b)) = fs \<and>
     (\<forall>t. TreeChunk t \<in> set (fb_chunks b) \<longrightarrow> wf_tree fragment_ops t) \<and>
     fb_summary b = sum_of fragment_ops (map (ssummary fragment_ops) fs)"

lemma builder_new_holds:
  assumes "wf_tree fragment_ops t"
  shows "builder_holds (builder_new t) (flat t)"
  using assms fragments.wf_summary [OF assms] is_empty_flat [OF assms]
  by (auto simp: builder_holds_def builder_new_def)

lemma builder_append_holds:
  assumes "builder_holds b fs" and "wf_tree fragment_ops t"
  shows "builder_holds (builder_append b t) (fs @ flat t)"
proof (cases "is_empty t")
  case False
  then have "map (ssummary fragment_ops) (flat t) \<noteq> []" using is_empty_flat [OF assms(2)] by simp
  from fragments.sum_of_append [OF this, of "map (ssummary fragment_ops) fs"]
  have "fragment_summary_add (fb_summary b) (summary t) = sum_of fragment_ops (map (ssummary fragment_ops) (fs @ flat t))"
    using assms(1) fragments.wf_summary [OF assms(2)] by (simp add: builder_holds_def) (simp add: fragment_ops_def)
  with False assms show ?thesis by (auto simp: builder_holds_def builder_append_def)
qed (use assms is_empty_flat [OF assms(2)] in \<open>simp add: builder_append_def\<close>)

lemma builder_push_holds:
  assumes "builder_holds b fs"
  shows "builder_holds (builder_push b f) (fs @ [f])"
proof -
  have s: "fragment_summary_add (fb_summary b) (fragment_summary_of f) = sum_of fragment_ops (map (ssummary fragment_ops) (fs @ [f]))"
    using assms by (simp add: builder_holds_def sum_of_def fragment_ops_def)
  show ?thesis
  proof (cases "fb_chunks b" rule: rev_cases)
    case Nil
    with assms s show ?thesis by (simp add: builder_holds_def builder_push_def)
  next
    case (snoc cs c)
    with assms s show ?thesis by (cases c) (auto simp: builder_holds_def builder_push_def)
  qed
qed

lemma build_chunks_ok:
  assumes "wf_tree fragment_ops t" and "\<forall>t. TreeChunk t \<in> set cs \<longrightarrow> wf_tree fragment_ops t"
  shows "\<exists>u. build_chunks t cs = Some u \<and> wf_tree fragment_ops u \<and> flat u = flat t @ concat (map chunk_fragments cs)"
  using assms
proof (induction cs arbitrary: t)
  case (Cons c cs)
  obtain u where u: "build_chunks t (c # cs) = build_chunks u cs" "wf_tree fragment_ops u" "flat u = flat t @ chunk_fragments c"
  proof (cases c)
    case (TreeChunk t')
    with fragments.tree_append_correct [OF Cons.prems(1), of t'] Cons.prems(2) that show ?thesis by auto
  next
    case (Loose fs)
    with fragments.tree_append_correct [OF Cons.prems(1), of "tree_from_iter fragment_ops fs"] fragments.tree_from_iter_correct [of fs] that
    show ?thesis by (auto simp: fragments.tree_from_par_iter_eq)
  qed
  with Cons.IH [of u] Cons.prems(2) show ?case by auto
qed simp

lemma to_sum_tree_ok:
  assumes "builder_holds b fs"
  shows "\<exists>u. to_sum_tree b = Some u \<and> wf_tree fragment_ops u \<and> flat u = fs"
  using build_chunks_ok [of "tree_new fragment_ops" "fb_chunks b"] assms
  by (auto simp: to_sum_tree_def builder_holds_def)

section \<open>The ropes\<close>

definition ropes_fit :: "rope \<Rightarrow> rope \<Rightarrow> bool" where
  "ropes_fit v d \<longleftrightarrow> rope_ok v \<and> slices_fit v \<and> rope_ok d \<and> slices_fit d"

text \<open>The builder has read the texts \<open>pv\<close> and \<open>pd\<close> off the old ropes and written \<open>nv\<close> and \<open>nd\<close> to the new ones.\<close>

definition ropes_at :: "rope \<Rightarrow> rope \<Rightarrow> rope_builder \<Rightarrow> str \<Rightarrow> str \<Rightarrow> str \<Rightarrow> str \<Rightarrow> bool" where
  "ropes_at v d rb pv pd nv nd \<longleftrightarrow>
     rope_cursor_ok v (str_len pv) (rb_visible_cursor rb) \<and> rope_cursor_ok d (str_len pd) (rb_deleted_cursor rb) \<and>
     rope_ok (rb_visible rb) \<and> rope_str (rb_visible rb) = nv \<and> rope_ok (rb_deleted rb) \<and> rope_str (rb_deleted rb) = nd"

lemma rope_cursor_ok_offset: "rope_cursor_ok r n c \<Longrightarrow> rc_offset c = n"
  by (simp add: rope_cursor_ok_def)

lemma ropes_push_ok:
  assumes fit: "ropes_fit v d" and at: "ropes_at v d rb pv pd nv nd"
    and src: "if was_vis then rope_str v = pv @ m @ rv else rope_str d = pd @ m @ rd"
  shows "\<exists>rb'. ropes_push rb (str_len m) was_vis is_vis = Some rb' \<and>
    ropes_at v d rb' (if was_vis then pv @ m else pv) (if was_vis then pd else pd @ m)
      (if is_vis then nv @ m else nv) (if is_vis then nd else nd @ m)"
proof -
  let ?r = "if was_vis then v else d" and ?p = "if was_vis then pv else pd"
  let ?c = "if was_vis then rb_visible_cursor rb else rb_deleted_cursor rb"
  have ok: "rope_ok ?r" "slices_fit ?r" and c: "rope_cursor_ok ?r (str_len ?p) ?c" and str: "rope_str ?r = ?p @ m @ (if was_vis then rv else rd)"
    using fit at src by (simp_all add: ropes_fit_def ropes_at_def)
  from rope_cursor_slice_ok [OF ok str c] obtain c' u where
    u: "rope_cursor_slice ?c (str_len ?p + str_len m) = Some (c', u)" "rope_cursor_ok ?r (str_len (?p @ m)) c'" "rope_ok u" "rope_str u = m"
    by auto
  have sh: "shallow u" using ok(2) c u(1) by (auto simp: slices_fit_def)
  have dst: "rope_ok (if is_vis then rb_visible rb else rb_deleted rb)"
      "rope_str (if is_vis then rb_visible rb else rb_deleted rb) = (if is_vis then nv else nd)"
    using at by (simp_all add: ropes_at_def)
  obtain n where n: "rope_append (if is_vis then rb_visible rb else rb_deleted rb) u = Some n" "rope_ok n"
      "rope_str n = (if is_vis then nv else nd) @ m"
    using rope_append_holds [OF dst(1) u(3) sh] unfolding dst(2) u(4) by (auto simp: holds_def)
  show ?thesis
    using u(1,2) n at rope_cursor_ok_offset [OF c]
    by (cases was_vis; cases is_vis) (auto simp: ropes_push_def ropes_at_def)
qed

lemma ropes_append_ok:
  assumes "ropes_fit v d" and "ropes_at v d rb (doc_visible p) (doc_deleted p) nv nd"
    and "rope_str v = doc_visible (p @ x) @ rv" and "rope_str d = doc_deleted (p @ x) @ rd"
  shows "\<exists>rb'. ropes_append rb (doc_text x) = Some rb' \<and>
    ropes_at v d rb' (doc_visible (p @ x)) (doc_deleted (p @ x)) (nv @ doc_visible x) (nd @ doc_deleted x)"
proof -
  have src: "if True then rope_str v = doc_visible p @ doc_visible x @ rv else rope_str d = doc_deleted p @ doc_visible x @ rv"
    using assms(3) by simp
  from ropes_push_ok [OF assms(1,2) src, of True] obtain rb1 where
    rb1: "ropes_push rb (str_len (doc_visible x)) True True = Some rb1"
      "ropes_at v d rb1 (doc_visible (p @ x)) (doc_deleted p) (nv @ doc_visible x) nd" by auto
  have "if False then rope_str v = doc_visible (p @ x) @ doc_deleted x @ rd else rope_str d = doc_deleted p @ doc_deleted x @ rd"
    using assms(4) by simp
  from ropes_push_ok [OF assms(1) rb1(2) this, of False] rb1(1) show ?thesis
    by (auto simp: ropes_append_def)
qed

lemma ropes_push_str_ok:
  assumes "ropes_at v d rb pv pd nv nd"
  shows "\<exists>rb'. ropes_push_str rb s = Some rb' \<and> ropes_at v d rb' pv pd (nv @ s) nd"
  using assms rope_push_holds [of "rb_visible rb" s] by (auto simp: ropes_push_str_def ropes_at_def holds_def)

lemma ropes_finish_ok:
  assumes "ropes_fit v d" and "ropes_at v d rb pv pd nv nd" and "rope_str v = pv" and "rope_str d = pd"
  shows "\<exists>nv' nd'. ropes_finish rb = Some (nv', nd') \<and> rope_ok nv' \<and> rope_str nv' = nv \<and> rope_ok nd' \<and> rope_str nd' = nd"
proof -
  have v: "rope_ok v" "slices_fit v" "rope_cursor_ok v (str_len pv) (rb_visible_cursor rb)"
    and d: "rope_ok d" "slices_fit d" "rope_cursor_ok d (str_len pd) (rb_deleted_cursor rb)"
    and n: "rope_ok (rb_visible rb)" "rope_str (rb_visible rb) = nv" "rope_ok (rb_deleted rb)" "rope_str (rb_deleted rb) = nd"
    using assms(1,2) by (simp_all add: ropes_fit_def ropes_at_def)
  obtain u where u: "rope_cursor_suffix (rb_visible_cursor rb) = Some u" "rope_ok u" "rope_str u = []" "shallow u"
    using rope_cursor_suffix_ok [OF v(1,2) _ v(3), of "[]"] assms(3) by auto
  obtain w where w: "rope_cursor_suffix (rb_deleted_cursor rb) = Some w" "rope_ok w" "rope_str w = []" "shallow w"
    using rope_cursor_suffix_ok [OF d(1,2) _ d(3), of "[]"] assms(4) by auto
  from rope_append_holds [OF n(1) u(2,4)] rope_append_holds [OF n(3) w(2,4)] u w n show ?thesis
    by (auto simp: ropes_finish_def holds_def)
qed

section \<open>Adding fragments\<close>

text \<open>
  The state of an edit when it has read the cells \<open>p\<close> of the old document and made the pieces \<open>qs\<close> of the new
  one; the fragments not recorded as new insertions are the old ones in \<open>o\<close>.
\<close>

definition edit_holds :: "rope \<Rightarrow> rope \<Rightarrow> fragment set \<Rightarrow> cell list \<Rightarrow> piece list \<Rightarrow> 'z splice_state_scheme \<Rightarrow> bool" where
  "edit_holds v d old p qs s \<longleftrightarrow>
     ropes_at v d (es_ropes s) (doc_visible p) (doc_deleted p) (doc_visible (doc_of qs)) (doc_deleted (doc_of qs)) \<and>
     builder_holds (es_fragments s) (map fst qs) \<and> (\<forall>q \<in> set qs. piece_ok q) \<and>
     sorted_wrt (<) (locator_min # map piece_id qs) \<and>
     (\<exists>rs. es_insertions s = map insert_new rs \<and> subseq rs (map fst qs) \<and> fst ` set qs \<subseteq> set rs \<union> old)"

lemma edit_holds_summary:
  assumes "edit_holds v d old p qs s"
  shows "new_visible s = str_len (doc_visible (doc_of qs))" "new_max_id s = last (locator_min # map piece_id qs)"
proof -
  have b: "fb_summary (es_fragments s) = sum_of fragment_ops (map (ssummary fragment_ops) (map fst qs))" "\<forall>q \<in> set qs. piece_ok q"
    using assms by (simp_all add: edit_holds_def builder_holds_def)
  from sum_of_text [OF b(2), of "szero fragment_ops"] show "new_visible s = str_len (doc_visible (doc_of qs))"
    unfolding b(1) by (simp add: sum_of_def fragment_ops_simps text_summary_add_def)
  from sum_of_max_id [of "map fst qs"] show "new_max_id s = last (locator_min # map piece_id qs)"
    unfolding b(1) by (simp add: last_map)
qed

lemma sorted_snoc:
  assumes "sorted_wrt (<) (a # xs)" and "last (a # xs) < (x :: 'a :: linorder)"
  shows "sorted_wrt (<) (a # xs @ [x])"
proof -
  obtain zs z where z: "a # xs = zs @ [z]" by (metis list.distinct(1) rev_exhaust)
  with assms have "sorted_wrt (<) zs" "\<forall>y \<in> set zs. y < z" "z < x" by (auto simp: sorted_wrt_append)
  then have "sorted_wrt (<) ((zs @ [z]) @ [x])" by (auto simp: sorted_wrt_append)
  then show ?thesis using z by (metis append_Cons)
qed

lemma emit_fragment_ok:
  assumes fit: "ropes_fit v d" and holds: "edit_holds v d old p qs s"
    and q: "piece_ok (f, t)" "last (locator_min # map piece_id qs) < fr_id f"
    and x: "doc_visible x = (if was_vis then t else [])" "doc_deleted x = (if was_vis then [] else t)"
    and v: "rope_str v = doc_visible (p @ x @ r)" and d: "rope_str d = doc_deleted (p @ x @ r)"
  shows "\<exists>ropes. emit_fragment f was_vis s = Some (s\<lparr>es_insertions := es_insertions s @ [insert_new f], es_ropes := ropes,
      es_fragments := builder_push (es_fragments s) f\<rparr>) \<and>
    edit_holds v d old (p @ x) (qs @ [(f, t)]) (s\<lparr>es_insertions := es_insertions s @ [insert_new f], es_ropes := ropes,
      es_fragments := builder_push (es_fragments s) f\<rparr>)"
proof -
  have h: "ropes_at v d (es_ropes s) (doc_visible p) (doc_deleted p) (doc_visible (doc_of qs)) (doc_deleted (doc_of qs))"
      "builder_holds (es_fragments s) (map fst qs)" "\<forall>q \<in> set qs. piece_ok q" "sorted_wrt (<) (locator_min # map piece_id qs)"
    using holds by (auto simp: edit_holds_def)
  from holds obtain rs where rs: "es_insertions s = map insert_new rs" "subseq rs (map fst qs)" "fst ` set qs \<subseteq> set rs \<union> old"
    by (auto simp: edit_holds_def)
  have len: "fr_len f = str_len t" "0 < fr_len f" using q(1) piece_len_pos [OF q(1)] by (auto simp: piece_ok_def)
  have "if was_vis then rope_str v = doc_visible p @ t @ doc_visible r else rope_str d = doc_deleted p @ t @ doc_deleted r"
    using v d x by simp
  from ropes_push_ok [OF fit h(1) this, of "fr_visible f"] obtain rb where
    rb: "ropes_push (es_ropes s) (str_len t) was_vis (fr_visible f) = Some rb"
      "ropes_at v d rb (doc_visible (p @ x)) (doc_deleted (p @ x)) (doc_visible (doc_of (qs @ [(f, t)]))) (doc_deleted (doc_of (qs @ [(f, t)])))"
    using x by (cases was_vis; cases "fr_visible f") (auto simp: piece_cells_def)
  have "\<exists>rs. es_insertions s @ [insert_new f] = map insert_new rs \<and> subseq rs (map fst (qs @ [(f, t)])) \<and> fst ` set (qs @ [(f, t)]) \<subseteq> set rs \<union> old"
    using rs by (intro exI [of _ "rs @ [f]"]) (auto simp: list_emb_append_mono)
  then show ?thesis
    using rb len h q sorted_snoc [OF h(4) q(2)] builder_push_holds [OF h(2), of f]
    by (auto simp: emit_fragment_def ropes_push_fragment_def bind_require edit_holds_def)
qed

lemma emit_tree_ok:
  assumes fit: "ropes_fit v d" and holds: "edit_holds v d old p qs s"
    and t: "wf_tree fragment_ops t" "flat t = map fst xs" "\<forall>x \<in> set xs. piece_ok x" "fst ` set xs \<subseteq> old"
    and ids: "sorted_wrt (<) (locator_min # map piece_id (qs @ xs))"
    and v: "rope_str v = doc_visible (p @ doc_of xs @ r)" and d: "rope_str d = doc_deleted (p @ doc_of xs @ r)"
  shows "\<exists>ropes. emit_tree t s = Some (s\<lparr>es_ropes := ropes, es_fragments := builder_append (es_fragments s) t\<rparr>) \<and>
    edit_holds v d old (p @ doc_of xs) (qs @ xs) (s\<lparr>es_ropes := ropes, es_fragments := builder_append (es_fragments s) t\<rparr>)"
proof -
  have h: "ropes_at v d (es_ropes s) (doc_visible p) (doc_deleted p) (doc_visible (doc_of qs)) (doc_deleted (doc_of qs))"
      "builder_holds (es_fragments s) (map fst qs)" "\<forall>q \<in> set qs. piece_ok q"
    using holds by (auto simp: edit_holds_def)
  from holds obtain rs where rs: "es_insertions s = map insert_new rs" "subseq rs (map fst qs)" "fst ` set qs \<subseteq> set rs \<union> old"
    by (auto simp: edit_holds_def)
  have "fs_text (summary t) = doc_text (doc_of xs)"
    using fragments.wf_summary [OF t(1)] sum_of_text [OF t(3), of "szero fragment_ops"]
    by (simp add: t(2) sum_of_def fragment_ops_simps text_summary_add_def doc_text_def)
  moreover obtain rb where "ropes_append (es_ropes s) (doc_text (doc_of xs)) = Some rb"
      "ropes_at v d rb (doc_visible (p @ doc_of xs)) (doc_deleted (p @ doc_of xs)) (doc_visible (doc_of (qs @ xs))) (doc_deleted (doc_of (qs @ xs)))"
    using ropes_append_ok [OF fit h(1), of "doc_of xs" "doc_visible r" "doc_deleted r"] v d by auto
  moreover have "\<exists>rs. es_insertions s = map insert_new rs \<and> subseq rs (map fst (qs @ xs)) \<and> fst ` set (qs @ xs) \<subseteq> set rs \<union> old"
    using rs t(4) subseq_rev_drop_many [OF rs(2), of "map fst xs"] by (intro exI [of _ rs]) auto
  ultimately show ?thesis
    using h t ids builder_append_holds [OF h(2) t(1)] by (auto simp: emit_tree_def edit_holds_def)
qed

text \<open>Text below 4 GiB becomes one fragment.\<close>

definition new_fragment :: "lamport \<Rightarrow> locator \<Rightarrow> str \<Rightarrow> 'z splice_state_scheme \<Rightarrow> fragment" where
  "new_fragment timestamp next_id cs s =
     \<lparr>fr_id = between (new_max_id s) next_id, fr_timestamp = timestamp, fr_insertion_offset = es_insertion_offset s,
      fr_len = str_len cs, fr_visible = True, fr_deletions = [], fr_max_undos = version_new\<rparr>"

lemma as_u32_id: "n < 2 ^ 32 \<Longrightarrow> as_u32 n = n"
  by (simp add: as_u32_def)

lemma u32_add_Some: "u32_add a b = Some c \<longleftrightarrow> a + b < 2 ^ 32 \<and> c = a + b"
  by (auto simp: u32_add_def)

definition slice_of :: "lamport \<Rightarrow> fragment \<Rightarrow> insertion_slice" where
  "slice_of edit_id f = InsertionSlice edit_id (fr_timestamp f) (fr_insertion_offset f) (fr_insertion_offset f + fr_len f)"

lemma slice_from_fragment_ok:
  "fr_insertion_offset f + fr_len f < 2 ^ 32 \<Longrightarrow> slice_from_fragment ts f = Some (slice_of ts f)"
  by (simp add: slice_from_fragment_def u32_add_def slice_of_def)

lemma push_fragments_one:
  fixes s :: "'z splice_state_scheme"
  assumes "cs \<noteq> []" and "es_insertion_offset s + str_len cs < 2 ^ 32"
    and f_def: "f = new_fragment ts next_id cs s"
  shows "push_fragments_loop cs ts next_id ets 0 s = Some (s\<lparr>es_slices := es_slices s @ [slice_of ets f],
      es_insertions := es_insertions s @ [insert_new f], es_fragments := builder_push (es_fragments s) f,
      es_insertion_offset := es_insertion_offset s + str_len cs\<rparr>)"
proof -
  have len: "0 < str_len cs" "str_len cs \<le> MAX_INSERTION_LEN" "str_len cs < 2 ^ 32"
    using assms(1,2) by (auto simp: MAX_INSERTION_LEN_def)
  have slice: "slice_from_fragment ets f = Some (slice_of ets f)"
    using assms(2) by (intro slice_from_fragment_ok) (simp add: f_def new_fragment_def)
  have stop: "push_fragments_loop cs ts next_id ets (str_len cs) u = Some u" for u :: "'z splice_state_scheme"
    by (subst push_fragments_loop.simps) simp
  show ?thesis
    using len slice assms(2) stop
    by (subst push_fragments_loop.simps) (simp add: usize_sub_def as_u32_id u32_add_def new_fragment_def f_def Let_def)
qed

lemma push_fragments_ok:
  assumes holds: "edit_holds v d old p qs s" and cs: "cs \<noteq> []" "es_insertion_offset s + str_len cs < 2 ^ 32"
    and bound: "last (locator_min # map piece_id qs) < next_id" "last next_id \<noteq> 0"
    and f_def: "f = new_fragment ts next_id cs s"
  shows "\<exists>ropes. push_fragments_for_insertion cs ts next_id ets s = Some (s\<lparr>es_slices := es_slices s @ [slice_of ets f],
      es_insertions := es_insertions s @ [insert_new f], es_fragments := builder_push (es_fragments s) f,
      es_insertion_offset := es_insertion_offset s + str_len cs, es_ropes := ropes\<rparr>) \<and>
    edit_holds v d old p (qs @ [(f, cs)]) (s\<lparr>es_slices := es_slices s @ [slice_of ets f],
      es_insertions := es_insertions s @ [insert_new f], es_fragments := builder_push (es_fragments s) f,
      es_insertion_offset := es_insertion_offset s + str_len cs, es_ropes := ropes\<rparr>) \<and>
    fr_id f < next_id"
proof -
  have h: "ropes_at v d (es_ropes s) (doc_visible p) (doc_deleted p) (doc_visible (doc_of qs)) (doc_deleted (doc_of qs))"
      "builder_holds (es_fragments s) (map fst qs)" "\<forall>q \<in> set qs. piece_ok q" "sorted_wrt (<) (locator_min # map piece_id qs)"
    using holds by (auto simp: edit_holds_def)
  from holds obtain rs where rs: "es_insertions s = map insert_new rs" "subseq rs (map fst qs)" "fst ` set qs \<subseteq> set rs \<union> old"
    by (auto simp: edit_holds_def)
  have id: "last (locator_min # map piece_id qs) < fr_id f" "fr_id f < next_id" "last (fr_id f) \<noteq> 0"
    using between_correct [OF bound] by (simp_all add: f_def new_fragment_def edit_holds_summary(2) [OF holds])
  have ok: "piece_ok (f, cs)" using cs id(3) by (simp add: piece_ok_def f_def new_fragment_def)
  have "fr_visible f" by (simp add: f_def new_fragment_def)
  then have pc: "doc_visible (piece_cells (f, cs)) = cs" "doc_deleted (piece_cells (f, cs)) = []" by (simp_all add: piece_cells_def)
  obtain rb where rb: "ropes_push_str (es_ropes s) cs = Some rb"
      "ropes_at v d rb (doc_visible p) (doc_deleted p) (doc_visible (doc_of (qs @ [(f, cs)]))) (doc_deleted (doc_of (qs @ [(f, cs)])))"
    using ropes_push_str_ok [OF h(1), of cs] pc by auto
  have "\<exists>rs. es_insertions s @ [insert_new f] = map insert_new rs \<and> subseq rs (map fst (qs @ [(f, cs)])) \<and> fst ` set (qs @ [(f, cs)]) \<subseteq> set rs \<union> old"
    using rs by (intro exI [of _ "rs @ [f]"]) (auto simp: list_emb_append_mono)
  then show ?thesis
    using rb ok h id sorted_snoc [OF h(4) id(1)] builder_push_holds [OF h(2), of f]
      push_fragments_one [OF cs f_def, of ets]
    by (auto simp: push_fragments_for_insertion_def edit_holds_def f_def)
qed

end
