(* ===== verification/Buffer_Local.thy ===== *)
theory Buffer_Local
  imports Buffer_Doc
begin

text \<open>
  A local edit on the document of a buffer: each step of \<open>apply_edit_internal\<close> reads a part of the old
  document and adds its image to the new one.
\<close>

section \<open>Positions in the old document\<close>

text \<open>The cells before and after a place inside the piece with an index.\<close>

definition consumed :: "piece list \<Rightarrow> nat \<Rightarrow> str \<Rightarrow> cell list" where
  "consumed ps k t =
     doc_of (take k ps) @ (if k < length ps then cells (fst (ps ! k)) (fr_insertion_offset (fst (ps ! k))) t else [])"

definition remaining :: "piece list \<Rightarrow> nat \<Rightarrow> str \<Rightarrow> cell list" where
  "remaining ps k t = (if k < length ps then
      cells (fst (ps ! k)) (fr_insertion_offset (fst (ps ! k)) + str_len t) (drop (length t) (snd (ps ! k))) @ doc_of (drop (Suc k) ps) else [])"

definition within :: "piece list \<Rightarrow> nat \<Rightarrow> str \<Rightarrow> bool" where
  "within ps k t \<longleftrightarrow> k \<le> length ps \<and>
     (if k < length ps then prefix t (snd (ps ! k)) \<and> (t \<noteq> [] \<longrightarrow> fr_visible (fst (ps ! k))) else t = [])"

lemma within_split:
  assumes "within ps k t"
  shows "consumed ps k t @ remaining ps k t = doc_of ps"
proof (cases "k < length ps")
  case True
  then obtain u where u: "snd (ps ! k) = t @ u" using assms by (auto simp: within_def prefix_def)
  have "ps = take k ps @ ps ! k # drop (Suc k) ps" using True by (rule id_take_nth_drop)
  then have "doc_of ps = doc_of (take k ps) @ piece_cells (ps ! k) @ doc_of (drop (Suc k) ps)"
    by (metis doc_of_simps(2,3))
  with True u show ?thesis by (simp add: consumed_def remaining_def piece_cells_def)
qed (use assms in \<open>auto simp: within_def consumed_def remaining_def\<close>)

lemma consumed_all:
  assumes "k < length ps"
  shows "consumed ps k (snd (ps ! k)) = consumed ps (Suc k) []"
  using assms by (simp add: consumed_def piece_cells_def take_Suc_conv_app_nth)

lemma consumed_start: "consumed ps k [] = doc_of (take k ps)"
  by (simp add: consumed_def)

lemma consumed_append:
  "k < length ps \<Longrightarrow> consumed ps k (t @ u) = consumed ps k t @ cells (fst (ps ! k)) (fr_insertion_offset (fst (ps ! k)) + str_len t) u"
  by (simp add: consumed_def)

lemma consumed_visible:
  "within ps k t \<Longrightarrow> str_len (doc_visible (consumed ps k t)) = str_len (doc_visible (doc_of (take k ps))) + str_len t"
  by (auto simp: consumed_def within_def)

lemma consumed_deleted: "within ps k t \<Longrightarrow> doc_deleted (consumed ps k t) = doc_deleted (doc_of (take k ps))"
  by (auto simp: consumed_def within_def)

lemma within_extend:
  "k < length ps \<Longrightarrow> snd (ps ! k) = t @ u @ r \<Longrightarrow> fr_visible (fst (ps ! k)) \<Longrightarrow> within ps k (t @ u)"
  by (auto simp: within_def)

lemma within_next: "k < length ps \<Longrightarrow> within ps (Suc k) []"
  by (auto simp: within_def)

section \<open>The state of an edit\<close>

text \<open>What is fixed while an edit is applied.\<close>

definition edit_base :: "buffer_snapshot \<Rightarrow> piece list \<Rightarrow> bool" where
  "edit_base sn ps \<longleftrightarrow>
     walkable fragment_ops (sn_fragments sn) \<and> flat (sn_fragments sn) = map fst ps \<and> (\<forall>p \<in> set ps. piece_ok p) \<and>
     ropes_fit (sn_visible_text sn) (sn_deleted_text sn) \<and>
     rope_str (sn_visible_text sn) = doc_visible (doc_of ps) \<and> rope_str (sn_deleted_text sn) = doc_deleted (doc_of ps)"

definition ids_bounded :: "piece list \<Rightarrow> piece list \<Rightarrow> bool" where
  "ids_bounded qs rest \<longleftrightarrow> sorted_wrt (<) (locator_min # map piece_id (qs @ rest) @ [locator_max])"

definition edit_at :: "buffer_snapshot \<Rightarrow> piece list \<Rightarrow> nat \<Rightarrow> str \<Rightarrow> piece list \<Rightarrow> local_edit \<Rightarrow> bool" where
  "edit_at sn ps k t qs s \<longleftrightarrow>
     cursor_at fragment_ops fragment_text_dim (sn_fragments sn) k (le_old s) \<and> within ps k t \<and>
     edit_holds (sn_visible_text sn) (sn_deleted_text sn) (fst ` set ps) (consumed ps k t) qs s \<and>
     ids_bounded qs (drop k ps)"

lemma edit_readings:
  assumes "edit_base sn ps" and "edit_at sn ps k t qs s"
  shows "cursor_item (le_old s) = Some (if k < length ps then Some (fst (ps ! k)) else None)"
    and "old_start s = doc_text (doc_of (take k ps))"
    and "cursor_end fragment_text_dim (le_old s) = Some (doc_text (doc_of (take (Suc k) ps)))"
    and "k \<le> length ps" and "new_visible s = str_len (doc_visible (doc_of qs))"
    and "new_max_id s = last (locator_min # map piece_id qs)"
proof -
  have b: "wf_tree fragment_ops (sn_fragments sn)" "flat (sn_fragments sn) = map fst ps" "\<forall>p \<in> set ps. piece_ok p"
    using assms(1) by (simp_all add: edit_base_def walkable_def)
  have c: "cursor_at fragment_ops fragment_text_dim (sn_fragments sn) k (le_old s)" "within ps k t"
      "edit_holds (sn_visible_text sn) (sn_deleted_text sn) (fst ` set ps) (consumed ps k t) qs s"
    using assms(2) by (simp_all add: edit_at_def)
  show "cursor_item (le_old s) = Some (if k < length ps then Some (fst (ps ! k)) else None)"
    using cursor_item_at [OF c(1) b(1)] b(2) by simp
  show "old_start s = doc_text (doc_of (take k ps))"
    using c(1) b(2) text_dim_position [OF b(3), of k] by (simp add: cursor_at_def)
  show "cursor_end fragment_text_dim (le_old s) = Some (doc_text (doc_of (take (Suc k) ps)))"
    using cursor_end_at [OF c(1) b(1)] b(2) text_dim_position [OF b(3), of "Suc k"] by simp
  show "k \<le> length ps" using c(2) by (simp add: within_def)
  show "new_visible s = str_len (doc_visible (doc_of qs))" "new_max_id s = last (locator_min # map piece_id qs)"
    using edit_holds_summary [OF c(3)] by simp_all
qed

lemma take_Suc_visible:
  "k < length ps \<Longrightarrow> doc_visible (doc_of (take (Suc k) ps)) =
    doc_visible (doc_of (take k ps)) @ (if fr_visible (fst (ps ! k)) then snd (ps ! k) else [])"
  by (simp add: take_Suc_conv_app_nth piece_cells_def)

text \<open>Stepping over a piece that has been read to its end.\<close>

lemma step_over:
  assumes base: "edit_base sn ps" and k: "k < length ps"
    and c: "cursor_at fragment_ops fragment_text_dim (sn_fragments sn) k (le_old s)"
    and h: "edit_holds (sn_visible_text sn) (sn_deleted_text sn) (fst ` set ps) (consumed ps (Suc k) []) qs s"
    and ids: "ids_bounded qs (drop (Suc k) ps)"
  shows "\<exists>c'. cursor_next fragment_text_dim (le_old s) = Some c' \<and> edit_at sn ps (Suc k) [] qs (s\<lparr>le_old := c'\<rparr>)"
proof -
  have b: "walkable fragment_ops (sn_fragments sn)" "flat (sn_fragments sn) = map fst ps"
    using base by (simp_all add: edit_base_def)
  have "forward_start fragment_ops fragment_text_dim (sn_fragments sn) (Suc k) (le_old s)"
    using c k b(2) by (auto simp: forward_start_def intro!: exI [of _ k])
  from fragment_text_laws.cursor_next_correct [OF this b(1)] obtain c' where
    "cursor_next fragment_text_dim (le_old s) = Some c'" "cursor_at fragment_ops fragment_text_dim (sn_fragments sn) (Suc k) c'" by blast
  with h ids within_next [OF k] show ?thesis by (auto simp: edit_at_def edit_holds_def)
qed

lemma ids_bounded_last: "ids_bounded qs (p # rest) \<Longrightarrow> last (locator_min # map piece_id qs) < piece_id p"
  by (cases qs rule: rev_cases) (auto simp: ids_bounded_def sorted_wrt_append)

lemma ids_bounded_insert:
  assumes "ids_bounded qs rest" and "last (locator_min # map piece_id qs) < piece_id q" and "\<forall>p \<in> set rest. piece_id q < piece_id p"
    and "piece_id q < locator_max"
  shows "ids_bounded (qs @ [q]) rest"
proof -
  have "sorted_wrt (<) (locator_min # map piece_id qs)" using assms(1) by (auto simp: ids_bounded_def sorted_wrt_append)
  from sorted_snoc [OF this assms(2)] assms show ?thesis
    by (auto simp: ids_bounded_def sorted_wrt_append)
qed

text \<open>Adding the image of a part of the piece the edit is in.\<close>

lemma emit_part:
  assumes base: "edit_base sn ps" and at: "edit_at sn ps k t qs s" and k: "k < length ps"
    and u: "snd (ps ! k) = t @ u @ r" "u \<noteq> []"
    and f: "fr_len f = str_len u" "fr_insertion_offset f = fr_insertion_offset (fst (ps ! k)) + str_len t"
    and id: "last (fr_id f) \<noteq> 0" "last (locator_min # map piece_id qs) < fr_id f"
  shows "\<exists>ropes. emit_fragment f (fr_visible (fst (ps ! k))) s = Some (s\<lparr>es_insertions := es_insertions s @ [insert_new f],
      es_ropes := ropes, es_fragments := builder_push (es_fragments s) f\<rparr>) \<and>
    edit_holds (sn_visible_text sn) (sn_deleted_text sn) (fst ` set ps) (consumed ps k (t @ u)) (qs @ [(f, u)])
      (s\<lparr>es_insertions := es_insertions s @ [insert_new f], es_ropes := ropes, es_fragments := builder_push (es_fragments s) f\<rparr>)"
proof -
  let ?f = "fst (ps ! k)" and ?i = "fr_insertion_offset (fst (ps ! k)) + str_len t"
  let ?x = "cells ?f ?i u" and ?r = "cells ?f (?i + str_len u) r @ doc_of (drop (Suc k) ps)"
  have h: "edit_holds (sn_visible_text sn) (sn_deleted_text sn) (fst ` set ps) (consumed ps k t) qs s" "within ps k t"
    using at by (simp_all add: edit_at_def)
  have "ps ! k \<in> set ps" using k by simp
  then have "piece_ok (ps ! k)" using base by (simp add: edit_base_def)
  then have ok: "piece_ok (f, u)" using f u id(1) by (simp add: piece_ok_def)
  have doc: "doc_of ps = consumed ps k t @ ?x @ ?r"
    using within_split [OF h(2)] k u(1) by (simp add: remaining_def)
  from base have fit: "ropes_fit (sn_visible_text sn) (sn_deleted_text sn)"
    and strs: "rope_str (sn_visible_text sn) = doc_visible (consumed ps k t @ ?x @ ?r)"
      "rope_str (sn_deleted_text sn) = doc_deleted (consumed ps k t @ ?x @ ?r)"
    by (simp_all only: edit_base_def doc)
  have "doc_visible ?x = (if fr_visible ?f then u else [])" "doc_deleted ?x = (if fr_visible ?f then [] else u)" by simp_all
  from emit_fragment_ok [OF fit h(1) ok id(2) this strs] show ?thesis
    using consumed_append [OF k, of t u] by simp
qed

section \<open>The document after an edit\<close>

text \<open>
  An edit in parts: text that is kept, text that is deleted, and new text inserted between the two.
\<close>

type_synonym part = "cell list \<times> cell list \<times> str"

fun before :: "part list \<Rightarrow> cell list" where
  "before [] = []"
| "before ((kept, removed, _) # parts) = kept @ removed @ before parts"

definition mark :: "lamport \<Rightarrow> cell \<Rightarrow> cell" where
  "mark ts c = (if cl_visible c then c\<lparr>cl_visible := False, cl_deletions := cl_deletions c @ [ts]\<rparr> else c)"

fun inserted :: "lamport \<Rightarrow> nat \<Rightarrow> str \<Rightarrow> cell list" where
  "inserted ts i [] = []"
| "inserted ts i (c # cs) =
     \<lparr>cl_timestamp = ts, cl_offset = i, cl_char = c, cl_visible = True, cl_deletions = [], cl_max_undos = version_new\<rparr> #
     inserted ts (i + len_utf8 c) cs"

fun after :: "lamport \<Rightarrow> nat \<Rightarrow> part list \<Rightarrow> cell list" where
  "after ts i [] = []"
| "after ts i ((kept, removed, new) # parts) =
     kept @ inserted ts i new @ map (mark ts) removed @ after ts (i + str_len new) parts"

definition inserted_len :: "part list \<Rightarrow> nat" where
  "inserted_len parts = (\<Sum>(_, _, new) \<leftarrow> parts. str_len new)"

lemma before_append [simp]: "before (xs @ ys) = before xs @ before ys"
  by (induction xs rule: before.induct) simp_all

lemma inserted_len_simps [simp]: "inserted_len [] = 0" "inserted_len (p # xs) = str_len (snd (snd p)) + inserted_len xs"
  "inserted_len (xs @ ys) = inserted_len xs + inserted_len ys"
  by (simp_all add: inserted_len_def split_beta)

lemma after_append: "after ts i (xs @ ys) = after ts i xs @ after ts (i + inserted_len xs) ys"
  by (induction ts i xs rule: after.induct) (simp_all add: add.assoc)

lemma inserted_cells:
  assumes "fr_timestamp f = ts" and "fr_visible f" and "fr_deletions f = []" and "fr_max_undos f = version_new"
  shows "cells f i cs = inserted ts i cs"
  using assms by (induction cs arbitrary: i) simp_all

lemma mark_cells:
  assumes "fr_timestamp g = fr_timestamp f" and "fr_max_undos g = fr_max_undos f" and "fr_visible f"
    and "fr_deletions g = fr_deletions f @ [ts]" and "\<not> fr_visible g"
  shows "map (mark ts) (cells f i cs) = cells g i cs"
  using assms by (induction cs arbitrary: i) (simp_all add: mark_def)

lemma mark_deleted_cells: "\<not> fr_visible f \<Longrightarrow> map (mark ts) (cells f i cs) = cells f i cs"
  by (induction cs arbitrary: i) (simp_all add: mark_def)

lemma mark_text [simp]: "doc_visible (map (mark ts) d) = []" "doc_len (map (mark ts) d) = doc_len d"
proof -
  show "doc_visible (map (mark ts) d) = []" by (induction d) (auto simp: doc_visible_def mark_def)
  have "cl_char (mark ts c) = cl_char c" for c by (simp add: mark_def)
  then show "doc_len (map (mark ts) d) = doc_len d" by (simp add: doc_len_def o_def)
qed

lemma inserted_text [simp]: "doc_visible (inserted ts i cs) = cs" "doc_deleted (inserted ts i cs) = []" "doc_len (inserted ts i cs) = str_len cs"
  by (induction cs arbitrary: i) (auto simp: doc_visible_def doc_deleted_def doc_len_def)

definition touched :: "lamport \<Rightarrow> fragment \<Rightarrow> bool" where
  "touched ts f \<longleftrightarrow> fr_timestamp f = ts \<or> ts \<in> set (fr_deletions f)"

lemma as_bytes_append [simp]: "as_bytes (a @ b) = as_bytes a @ as_bytes b" "as_bytes [] = []"
  by (simp_all add: as_bytes_def)

text \<open>The visible text of one document became that of another.\<close>

definition explained :: "patch \<Rightarrow> cell list \<Rightarrow> cell list \<Rightarrow> bool" where
  "explained e p q \<longleftrightarrow> explains e 0 0 (as_bytes (doc_visible p)) (as_bytes (doc_visible q))"

lemma explained_gap: "explained e p q \<Longrightarrow> explained e (p @ x) (q @ x)"
  using explains_gap [of e 0 0 "as_bytes (doc_visible p)" "as_bytes (doc_visible q)" "as_bytes (doc_visible x)"]
  by (simp add: explained_def)

lemma explained_step:
  assumes "explained e p q"
  shows "explained (patch_push e (make_edit (str_len (doc_visible p)) (str_len (doc_visible p) + str_len (doc_visible x))
      (str_len (doc_visible q)) (str_len (doc_visible q) + str_len (doc_visible y)))) (p @ x) (q @ y)"
  using explains_push [of e "as_bytes (doc_visible p)" "as_bytes (doc_visible q)" "as_bytes (doc_visible x)" "as_bytes (doc_visible y)"] assms
  by (simp add: explained_def length_as_bytes)

text \<open>The parts done so far and the cells copied since; the slices are those of the fragments touched.\<close>

definition doc_inv :: "lamport \<Rightarrow> part list \<Rightarrow> cell list \<Rightarrow> cell list \<Rightarrow> piece list \<Rightarrow> local_edit \<Rightarrow> bool" where
  "doc_inv ts parts gap p qs s \<longleftrightarrow>
     p = before parts @ gap \<and> doc_of qs = after ts 0 parts @ gap \<and> es_insertion_offset s = inserted_len parts \<and>
     es_slices s = map (slice_of ts) (filter (touched ts) (map fst qs)) \<and>
     explained (le_patch s) p (doc_of qs)"

lemma doc_inv_copy:
  assumes "doc_inv ts parts gap p qs s" and "\<forall>x \<in> set xs. \<not> touched ts (fst x)" and "doc_of xs = y"
    and "es_slices s' = es_slices s" and "es_insertion_offset s' = es_insertion_offset s" and "le_patch s' = le_patch s"
  shows "doc_inv ts parts (gap @ y) (p @ y) (qs @ xs) s'"
proof -
  have "filter (touched ts) (map fst xs) = []" using assms(2) by (auto simp: filter_empty_conv)
  moreover have "explained (le_patch s) (p @ y) (doc_of (qs @ xs))"
    using assms(1) explained_gap [of "le_patch s" p "doc_of qs" y] unfolding doc_inv_def doc_of_simps assms(3) by blast
  ultimately show ?thesis using assms by (auto simp: doc_inv_def)
qed

lemma doc_inv_begin: "doc_inv ts parts gap p qs s \<Longrightarrow> doc_inv ts (parts @ [(gap, [], [])]) [] p qs s"
  by (auto simp: doc_inv_def after_append)

lemma doc_inv_insert:
  assumes inv: "doc_inv ts parts gap p qs s"
    and f: "f = new_fragment ts next_id cs s" and s': "es_slices s' = es_slices s @ [slice_of ts f]"
      "es_insertion_offset s' = es_insertion_offset s + str_len cs"
      "le_patch s' = patch_push (le_patch s) (make_edit (str_len (doc_visible p)) (str_len (doc_visible p))
         (str_len (doc_visible (doc_of qs))) (str_len (doc_visible (doc_of qs)) + str_len cs))"
  shows "doc_inv ts (parts @ [(gap, [], cs)]) [] p (qs @ [(f, cs)]) s'"
proof -
  have i: "p = before parts @ gap" "doc_of qs = after ts 0 parts @ gap" "es_insertion_offset s = inserted_len parts"
      "es_slices s = map (slice_of ts) (filter (touched ts) (map fst qs))"
      "explained (le_patch s) p (doc_of qs)"
    using inv unfolding doc_inv_def append_Nil2 by blast+
  have cells: "piece_cells (f, cs) = inserted ts (inserted_len parts) cs" and t: "touched ts f"
    using inserted_cells [of f ts] f i(3) by (simp_all add: piece_cells_def new_fragment_def touched_def)
  have "explained (le_patch s') p (doc_of (qs @ [(f, cs)]))"
    using explained_step [OF i(5), of "[]" "piece_cells (f, cs)"] cells by (simp add: s'(3))
  moreover have "es_slices s' = map (slice_of ts) (filter (touched ts) (map fst (qs @ [(f, cs)])))" using t i(4) s'(1) by simp
  ultimately show ?thesis using i(1-3) s'(2) cells by (auto simp: doc_inv_def after_append)
qed

lemma doc_inv_delete:
  assumes inv: "doc_inv ts (parts @ [(g, m, n)]) [] p qs s" and q: "piece_cells (f, u) = map (mark ts) x" "touched ts f"
    and s': "es_slices s' = es_slices s @ [slice_of ts f]" "es_insertion_offset s' = es_insertion_offset s"
      "le_patch s' = patch_push (le_patch s) (make_edit (str_len (doc_visible p)) (str_len (doc_visible p) + str_len (doc_visible x))
         (str_len (doc_visible (doc_of qs))) (str_len (doc_visible (doc_of qs))))"
  shows "doc_inv ts (parts @ [(g, m @ x, n)]) [] (p @ x) (qs @ [(f, u)]) s'"
proof -
  have i: "p = before (parts @ [(g, m, n)])" "doc_of qs = after ts 0 (parts @ [(g, m, n)])" "es_insertion_offset s = inserted_len (parts @ [(g, m, n)])"
      "es_slices s = map (slice_of ts) (filter (touched ts) (map fst qs))"
      "explained (le_patch s) p (doc_of qs)"
    using inv unfolding doc_inv_def append_Nil2 by blast+
  have "explained (le_patch s') (p @ x) (doc_of (qs @ [(f, u)]))"
    using explained_step [OF i(5), of x "map (mark ts) x"] q(1) by (simp add: s'(3))
  moreover have "es_slices s' = map (slice_of ts) (filter (touched ts) (map fst (qs @ [(f, u)])))" using q(2) i(4) s'(1) by simp
  ultimately show ?thesis using i(1-3) s'(2) q(1) by (auto simp: doc_inv_def after_append)
qed

lemma doc_inv_pass:
  assumes inv: "doc_inv ts (parts @ [(g, m, n)]) [] p qs s" and q: "piece_cells q = x" "\<not> touched ts (fst q)" "map (mark ts) x = x"
    and s': "es_slices s' = es_slices s" "es_insertion_offset s' = es_insertion_offset s" "le_patch s' = le_patch s"
  shows "doc_inv ts (parts @ [(g, m @ x, n)]) [] (p @ x) (qs @ [q]) s'"
proof -
  have "doc_inv ts (parts @ [(g, m, n)]) ([] @ x) (p @ x) (qs @ [q]) s'"
    using doc_inv_copy [OF inv, of "[q]" x s'] q s' by simp
  then show ?thesis using q(3) by (auto simp: doc_inv_def after_append)
qed

text \<open>Where a fragment began, one begins still.\<close>

definition piece_key :: "piece \<Rightarrow> insertion_key" where
  "piece_key p = (fr_timestamp (fst p), fr_insertion_offset (fst p))"

definition keys_hold :: "piece list \<Rightarrow> nat \<Rightarrow> str \<Rightarrow> piece list \<Rightarrow> bool" where
  "keys_hold ps k t qs \<longleftrightarrow> (\<forall>p \<in> set (take k ps). piece_key p \<in> piece_key ` set qs) \<and>
     (t \<noteq> [] \<longrightarrow> k < length ps \<longrightarrow> piece_key (ps ! k) \<in> piece_key ` set qs)"

lemma keys_hold_more: "keys_hold ps k t qs \<Longrightarrow> keys_hold ps k t (qs @ xs)"
  by (auto simp: keys_hold_def)

lemma keys_hold_part:
  assumes "keys_hold ps k t qs" and "fr_timestamp f = fr_timestamp (fst (ps ! k))"
    and "fr_insertion_offset f = fr_insertion_offset (fst (ps ! k)) + str_len t"
  shows "keys_hold ps k (t @ u) (qs @ [(f, u)])"
  using assms by (cases "t = []") (auto simp: keys_hold_def piece_key_def)

lemma keys_hold_next: "keys_hold ps k t qs \<Longrightarrow> k < length ps \<Longrightarrow> t \<noteq> [] \<Longrightarrow> keys_hold ps (Suc k) [] qs"
  by (auto simp: keys_hold_def take_Suc_conv_app_nth)

lemma keys_hold_tree:
  assumes "keys_hold ps k [] qs"
  shows "keys_hold ps (k + j) [] (qs @ take j (drop k ps))"
  using assms by (auto simp: keys_hold_def take_add)

definition edit_inv :: "buffer_snapshot \<Rightarrow> piece list \<Rightarrow> lamport \<Rightarrow> part list \<Rightarrow> cell list \<Rightarrow> nat \<Rightarrow> str \<Rightarrow> piece list \<Rightarrow> local_edit \<Rightarrow> bool" where
  "edit_inv sn ps ts parts gap k t qs s \<longleftrightarrow>
     edit_at sn ps k t qs s \<and> doc_inv ts parts gap (consumed ps k t) qs s \<and> keys_hold ps k t qs"

definition start_at :: "piece list \<Rightarrow> nat \<Rightarrow> str \<Rightarrow> local_edit \<Rightarrow> bool" where
  "start_at ps k t s \<longleftrightarrow> le_start s = str_len (doc_visible (consumed ps k t))"

section \<open>The steps\<close>

definition fresh :: "lamport \<Rightarrow> piece list \<Rightarrow> bool" where
  "fresh ts ps \<longleftrightarrow> (\<forall>p \<in> set ps. \<not> touched ts (fst p))"

lemma piece_bounds:
  assumes "edit_base sn ps" and "k < length ps" and "snd (ps ! k) = t @ u"
  shows "fr_insertion_offset (fst (ps ! k)) + str_len t + str_len u < 2 ^ 32" and "fr_len (fst (ps ! k)) = str_len t + str_len u"
    and "last (piece_id (ps ! k)) \<noteq> 0" and "0 < str_len t + str_len u"
proof -
  have "ps ! k \<in> set ps" using assms(2) by simp
  then have "piece_ok (ps ! k)" using assms(1) by (simp add: edit_base_def)
  then show "fr_insertion_offset (fst (ps ! k)) + str_len t + str_len u < 2 ^ 32" "fr_len (fst (ps ! k)) = str_len t + str_len u"
      "last (piece_id (ps ! k)) \<noteq> 0" "0 < str_len t + str_len u"
    using assms(3) piece_len_pos [of "ps ! k"] by (simp_all add: piece_ok_def)
qed

lemma edit_inv_unfold:
  assumes "edit_inv sn ps ts parts gap k t qs s"
  shows "edit_at sn ps k t qs s" and "doc_inv ts parts gap (consumed ps k t) qs s" and "keys_hold ps k t qs"
    and "within ps k t" and "ids_bounded qs (drop k ps)"
    and "cursor_at fragment_ops fragment_text_dim (sn_fragments sn) k (le_old s)"
    and "edit_holds (sn_visible_text sn) (sn_deleted_text sn) (fst ` set ps) (consumed ps k t) qs s"
  using assms by (simp_all add: edit_inv_def edit_at_def)

lemma edit_inv_updates:
  "edit_inv sn ps ts parts gap k t qs (s\<lparr>le_start := v\<rparr>) = edit_inv sn ps ts parts gap k t qs s"
  "edit_inv sn ps ts parts gap k t qs (s\<lparr>le_ranges := rs, le_texts := ns\<rparr>) = edit_inv sn ps ts parts gap k t qs s"
  by (simp_all add: edit_inv_def edit_at_def edit_holds_def doc_inv_def)

text \<open>Stepping over a piece all of which has been read.\<close>

lemma edit_inv_next:
  assumes base: "edit_base sn ps" and inv: "edit_inv sn ps ts parts gap k (snd (ps ! k)) qs s" and k: "k < length ps"
  shows "\<exists>c. cursor_next fragment_text_dim (le_old s) = Some c \<and> edit_inv sn ps ts parts gap (Suc k) [] qs (s\<lparr>le_old := c\<rparr>)"
proof -
  note i = edit_inv_unfold [OF inv]
  have "ids_bounded qs (ps ! k # drop (Suc k) ps)" using i(5) k by (simp add: Cons_nth_drop_Suc)
  then have "ids_bounded qs (drop (Suc k) ps)" by (auto simp: ids_bounded_def sorted_wrt_append)
  from step_over [OF base k i(6) _ this] i(7) consumed_all [OF k] obtain c where
    c: "cursor_next fragment_text_dim (le_old s) = Some c" "edit_at sn ps (Suc k) [] qs (s\<lparr>le_old := c\<rparr>)" by auto
  have ne: "snd (ps ! k) \<noteq> []" using piece_bounds(4) [OF base k, of "[]" "snd (ps ! k)"] by auto
  have "doc_inv ts parts gap (consumed ps (Suc k) []) qs (s\<lparr>le_old := c\<rparr>)"
    using i(2) consumed_all [OF k] by (auto simp: doc_inv_def)
  with c keys_hold_next [OF i(3) k ne] show ?thesis by (auto simp: edit_inv_def)
qed

text \<open>A fragment that stands for a part of another.\<close>

definition part_of :: "fragment \<Rightarrow> fragment \<Rightarrow> str \<Rightarrow> str \<Rightarrow> bool" where
  "part_of f g t u \<longleftrightarrow> fr_len f = str_len u \<and> fr_insertion_offset f = fr_insertion_offset g + str_len t \<and>
     fr_timestamp f = fr_timestamp g \<and> fr_visible f = fr_visible g \<and> fr_deletions f = fr_deletions g \<and> fr_max_undos f = fr_max_undos g"

lemma copy_core:
  assumes base: "edit_base sn ps" and fresh: "fresh ts ps" and inv: "edit_inv sn ps ts parts gap k t qs s" and k: "k < length ps"
    and u: "snd (ps ! k) = t @ u @ r" "u \<noteq> []" and vis: "fr_visible (fst (ps ! k))"
    and f: "part_of f (fst (ps ! k)) t u" and i: "last (fr_id f) \<noteq> 0" "last (locator_min # map piece_id qs) < fr_id f"
  obtains s' gap' where "emit_fragment f True s = Some s'"
    and "edit_holds (sn_visible_text sn) (sn_deleted_text sn) (fst ` set ps) (consumed ps k (t @ u)) (qs @ [(f, u)]) s'"
    and "doc_inv ts parts gap' (consumed ps k (t @ u)) (qs @ [(f, u)]) s'" and "keys_hold ps k (t @ u) (qs @ [(f, u)])"
    and "le_old s' = le_old s" and "le_ranges s' = le_ranges s" and "le_texts s' = le_texts s"
proof -
  note j = edit_inv_unfold [OF inv]
  let ?f = "fst (ps ! k)" and ?s = "\<lambda>ropes. s\<lparr>es_insertions := es_insertions s @ [insert_new f],
      es_ropes := ropes, es_fragments := builder_push (es_fragments s) f\<rparr>"
  have len: "fr_len f = str_len u" "fr_insertion_offset f = fr_insertion_offset ?f + str_len t" "fr_timestamp f = fr_timestamp ?f"
    using f by (simp_all add: part_of_def)
  from emit_part [OF base j(1) k u len(1,2) i] vis obtain ropes where
    e: "emit_fragment f True s = Some (?s ropes)"
      "edit_holds (sn_visible_text sn) (sn_deleted_text sn) (fst ` set ps) (consumed ps k (t @ u)) (qs @ [(f, u)]) (?s ropes)" by auto
  let ?x = "cells ?f (fr_insertion_offset ?f + str_len t) u"
  have "cells f (fr_insertion_offset ?f + str_len t) u = ?x" using f by (intro cells_cong) (simp_all add: part_of_def)
  then have "doc_of [(f, u)] = ?x" by (simp add: piece_cells_def len(2))
  moreover have "\<not> touched ts f" using fresh k f by (auto simp: fresh_def touched_def part_of_def)
  ultimately have "doc_inv ts parts (gap @ ?x) (consumed ps k t @ ?x) (qs @ [(f, u)]) (?s ropes)"
    by (intro doc_inv_copy [OF j(2)]) simp_all
  then have d: "doc_inv ts parts (gap @ ?x) (consumed ps k (t @ u)) (qs @ [(f, u)]) (?s ropes)" using consumed_append [OF k] by simp
  show ?thesis by (rule that [OF e d keys_hold_part [OF j(3) len(3,2)]]) simp_all
qed

lemma copy_prefix:
  assumes base: "edit_base sn ps" and fresh: "fresh ts ps" and inv: "edit_inv sn ps ts parts gap k t qs s" and k: "k < length ps"
    and u: "snd (ps ! k) = t @ u @ r" "u \<noteq> []" and vis: "fr_visible (fst (ps ! k))"
    and f: "part_of f (fst (ps ! k)) t u" "fr_id f = between (new_max_id s) (piece_id (ps ! k))"
  obtains s' gap' where "emit_fragment f True s = Some s'" and "edit_inv sn ps ts parts gap' k (t @ u) (qs @ [(f, u)]) s'"
    and "le_ranges s' = le_ranges s" and "le_texts s' = le_texts s"
proof -
  note j = edit_inv_unfold [OF inv]
  have ids: "ids_bounded qs (ps ! k # drop (Suc k) ps)" using j(5) k by (simp add: Cons_nth_drop_Suc)
  have b: "last (locator_min # map piece_id qs) < fr_id f" "fr_id f < piece_id (ps ! k)" "last (fr_id f) \<noteq> 0"
    using between_correct [OF ids_bounded_last [OF ids] piece_bounds(3) [OF base k u(1)]] edit_readings(6) [OF base j(1)] f(2) by simp_all
  obtain s' gap' where s': "emit_fragment f True s = Some s'"
      "edit_holds (sn_visible_text sn) (sn_deleted_text sn) (fst ` set ps) (consumed ps k (t @ u)) (qs @ [(f, u)]) s'"
      "doc_inv ts parts gap' (consumed ps k (t @ u)) (qs @ [(f, u)]) s'" "keys_hold ps k (t @ u) (qs @ [(f, u)])"
      "le_old s' = le_old s" "le_ranges s' = le_ranges s" "le_texts s' = le_texts s"
    by (rule copy_core [OF base fresh inv k u vis f(1) b(3,1)])
  have "ids_bounded (qs @ [(f, u)]) (drop k ps)"
  proof (rule ids_bounded_insert [OF j(5)])
    show "last (locator_min # map piece_id qs) < piece_id (f, u)" using b(1) by simp
    have "\<forall>p \<in> set (drop (Suc k) ps). piece_id (ps ! k) < piece_id p" "piece_id (ps ! k) < locator_max"
      using ids by (auto simp: ids_bounded_def sorted_wrt_append)
    with b(2) k show "\<forall>p \<in> set (drop k ps). piece_id (f, u) < piece_id p" "piece_id (f, u) < locator_max"
      by (auto simp: Cons_nth_drop_Suc [symmetric])
  qed
  with s' j(6) within_extend [OF k u(1) vis] that show ?thesis by (auto simp: edit_inv_def edit_at_def)
qed

lemma copy_rest:
  assumes base: "edit_base sn ps" and fresh: "fresh ts ps" and inv: "edit_inv sn ps ts parts gap k t qs s" and k: "k < length ps"
    and u: "snd (ps ! k) = t @ u" "u \<noteq> []" and vis: "fr_visible (fst (ps ! k))"
    and f: "part_of f (fst (ps ! k)) t u" "fr_id f = piece_id (ps ! k)"
  obtains s' c gap' where "emit_fragment f True s = Some s'" and "cursor_next fragment_text_dim (le_old s') = Some c"
    and "edit_inv sn ps ts parts gap' (Suc k) [] (qs @ [(f, u)]) (s'\<lparr>le_old := c\<rparr>)"
    and "le_ranges s' = le_ranges s" and "le_texts s' = le_texts s"
proof -
  note j = edit_inv_unfold [OF inv]
  have ids: "ids_bounded qs (ps ! k # drop (Suc k) ps)" using j(5) k by (simp add: Cons_nth_drop_Suc)
  have u': "snd (ps ! k) = t @ u @ []" using u by simp
  have b: "last (locator_min # map piece_id qs) < fr_id f" "last (fr_id f) \<noteq> 0"
    using ids_bounded_last [OF ids] piece_bounds(3) [OF base k u(1)] f(2) by simp_all
  obtain s' gap' where s': "emit_fragment f True s = Some s'"
      "edit_holds (sn_visible_text sn) (sn_deleted_text sn) (fst ` set ps) (consumed ps k (t @ u)) (qs @ [(f, u)]) s'"
      "doc_inv ts parts gap' (consumed ps k (t @ u)) (qs @ [(f, u)]) s'" "keys_hold ps k (t @ u) (qs @ [(f, u)])"
      "le_old s' = le_old s" "le_ranges s' = le_ranges s" "le_texts s' = le_texts s"
    by (rule copy_core [OF base fresh inv k u' u(2) vis f(1) b(2,1)])
  have all: "consumed ps k (t @ u) = consumed ps (Suc k) []" using consumed_all [OF k] u(1) by simp
  have "ids_bounded (qs @ [(f, u)]) (drop (Suc k) ps)" using ids f(2) by (simp add: ids_bounded_def)
  from step_over [OF base k, of s'] this s' j(6) all obtain c where
    c: "cursor_next fragment_text_dim (le_old s') = Some c" "edit_at sn ps (Suc k) [] (qs @ [(f, u)]) (s'\<lparr>le_old := c\<rparr>)" by auto
  have "keys_hold ps (Suc k) [] (qs @ [(f, u)])" using keys_hold_next [OF s'(4) k] u(2) by simp
  moreover have "doc_inv ts parts gap' (consumed ps (Suc k) []) (qs @ [(f, u)]) (s'\<lparr>le_old := c\<rparr>)"
    using s'(3) all by (auto simp: doc_inv_def)
  ultimately show ?thesis using that [OF s'(1) c(1)] c(2) s'(6,7) by (auto simp: edit_inv_def)
qed

lemma inside_piece:
  assumes "within ps k t" and "t \<noteq> []"
  obtains u where "k < length ps" and "snd (ps ! k) = t @ u" and "fr_visible (fst (ps ! k))"
  using assms by (auto simp: within_def prefix_def split: if_splits)

lemma start_visible:
  assumes "within ps k t" and "start_at ps k t s"
  shows "le_start s = str_len (doc_visible (doc_of (take k ps))) + str_len t"
  using assms consumed_visible by (simp add: start_at_def)

lemma str_len_pos: "t \<noteq> [] \<Longrightarrow> 0 < str_len t"
  by simp

lemma push_rest_ok:
  assumes base: "edit_base sn ps" and fresh: "fresh ts ps" and inv: "edit_inv sn ps ts parts gap k t qs s" and start: "start_at ps k t s"
  obtains s' gap' qs' where "push_rest s = Some s'"
    and "edit_inv sn ps ts parts gap' (if t = [] then k else Suc k) [] qs' s'" and "le_ranges s' = le_ranges s" and "le_texts s' = le_texts s"
proof (cases "t = []")
  case True
  have "push_rest s = Some s"
    using start_visible [OF edit_inv_unfold(4) [OF inv] start] edit_readings(2) [OF base edit_inv_unfold(1) [OF inv]] True
    by (simp add: push_rest_def)
  with that inv True show ?thesis by simp
next
  case False
  note j = edit_inv_unfold [OF inv]
  note rd = edit_readings [OF base j(1)]
  from inside_piece [OF j(4) False] obtain u where k: "k < length ps" "snd (ps ! k) = t @ u" "fr_visible (fst (ps ! k))" .
  note b = piece_bounds [OF base k(1,2)]
  have st: "le_start s = str_len (doc_visible (doc_of (take k ps))) + str_len t" by (rule start_visible [OF j(4) start])
  have e: "fts_visible (doc_text (doc_of (take (Suc k) ps))) = le_start s + str_len u" using st k by (simp add: take_Suc_visible)
  have pos: "fts_visible (old_start s) < le_start s" using st rd(2) str_len_pos [OF False] by simp
  show ?thesis
  proof (cases "u = []")
    case True
    with inv k(2) have "edit_inv sn ps ts parts gap k (snd (ps ! k)) qs s" by simp
    from edit_inv_next [OF base this k(1)] obtain c where
      "cursor_next fragment_text_dim (le_old s) = Some c" "edit_inv sn ps ts parts gap (Suc k) [] qs (s\<lparr>le_old := c\<rparr>)" by blast
    with that [of "s\<lparr>le_old := c\<rparr>"] False pos e True rd(3) show ?thesis by (simp add: push_rest_def)
  next
    case ne: False
    let ?f = "(fst (ps ! k))\<lparr>fr_len := str_len u, fr_insertion_offset := fr_insertion_offset (fst (ps ! k)) + str_len t\<rparr>"
    have pf: "part_of ?f (fst (ps ! k)) t u" "fr_id ?f = piece_id (ps ! k)" by (simp_all add: part_of_def)
    obtain s' c gap' where s': "emit_fragment ?f True s = Some s'" "cursor_next fragment_text_dim (le_old s') = Some c"
        "edit_inv sn ps ts parts gap' (Suc k) [] (qs @ [(?f, u)]) (s'\<lparr>le_old := c\<rparr>)" "le_ranges s' = le_ranges s" "le_texts s' = le_texts s"
      by (rule copy_rest [OF base fresh inv k(1,2) ne k(3) pf])
    have "push_rest s = Some (s'\<lparr>le_old := c\<rparr>)"
      using pos e rd ne k s'(1,2) st b(1) str_len_pos [OF ne]
      by (simp add: push_rest_def usize_sub_def as_u32_id u32_add_def)
    with that [of "s'\<lparr>le_old := c\<rparr>"] s' False show ?thesis by simp
  qed
qed

text \<open>Slicing up to an offset in the visible text.\<close>

lemma doc_visible_mono: "i \<le> j \<Longrightarrow> str_len (doc_visible (doc_of (take i ps))) \<le> str_len (doc_visible (doc_of (take j ps)))"
  using take_add [of i "j - i" ps] by simp

lemma text_ends:
  assumes "\<forall>p \<in> set ps. piece_ok p" and "k + i < length ps"
  shows "ends fragment_text_dim (doc_text (doc_of (take k ps))) (map (ssummary fragment_ops) (drop k (map fst ps))) ! i =
    doc_text (doc_of (take (Suc (k + i)) ps))"
proof -
  have "\<forall>p \<in> set (take (Suc i) (drop k ps)). piece_ok p" using assms(1) by (meson in_set_dropD in_set_takeD)
  from text_dim_pieces [OF this, of "doc_of (take k ps)"] assms(2) take_add [of k "Suc i" ps] show ?thesis
    by (simp add: nth_ends take_map drop_map)
qed

lemma slice_visible:
  assumes base: "edit_base sn ps" and ready: "cursor_ready fragment_ops fragment_text_dim (sn_fragments sn) k c" and k: "k \<le> length ps"
    and start: "str_len (doc_visible (doc_of (take k ps))) \<le> start" "start \<le> str_len (doc_visible (doc_of ps))"
  obtains c' u n where "cursor_slice fragment_ops fragment_text_dim (visible_target start) Right c = Some (c', u)"
    and "cursor_at fragment_ops fragment_text_dim (sn_fragments sn) n c'" and "wf_tree fragment_ops u"
    and "flat u = map fst (take (n - k) (drop k ps))" and "k \<le> n" and "n \<le> length ps"
    and "str_len (doc_visible (doc_of (take n ps))) \<le> start"
    and "if n < length ps then start < str_len (doc_visible (doc_of (take (Suc n) ps))) else str_len (doc_visible (doc_of (take n ps))) = start"
    and "cu_position c' = doc_text (doc_of (take n ps))"
proof -
  have b: "walkable fragment_ops (sn_fragments sn)" "flat (sn_fragments sn) = map fst ps" "\<forall>p \<in> set ps. piece_ok p"
    using base by (simp_all add: edit_base_def)
  let ?D = fragment_text_dim and ?p = "doc_text (doc_of (take k ps))" and ?ss = "map (ssummary fragment_ops) (drop k (map fst ps))"
  let ?m = "seek_len ?D (visible_target start) Right ?p ?ss" and ?v = "\<lambda>i. str_len (doc_visible (doc_of (take i ps)))"
  have pos: "cu_position c = ?p" using cursor_ready_position [OF ready] b(2) text_dim_position [OF b(3)] by simp
  have past: "seek_past Right (visible_target start (ends ?D ?p ?ss ! i)) \<longleftrightarrow> ?v (Suc (k + i)) \<le> start" if "i < length ?ss" for i
  proof -
    have "k + i < length ps" using that by simp
    from text_ends [OF b(3) this] show ?thesis by (auto simp: visible_target_def seek_past_def cmp_def)
  qed
  have mono: "mono_target ?D (visible_target start) Right ?p ?ss"
    unfolding mono_target_def sorted_wrt_iff_nth_less
  proof (intro allI impI)
    fix i j assume ij: "i < j" "j < length (ends ?D ?p ?ss)" "seek_past Right (visible_target start (ends ?D ?p ?ss ! j))"
    have "?v (Suc (k + i)) \<le> ?v (Suc (k + j))" using ij(1) by (intro doc_visible_mono) simp
    with past [of i] past [of j] ij show "seek_past Right (visible_target start (ends ?D ?p ?ss ! i))" by simp
  qed
  have "visible_target start (cu_position c) \<noteq> Less" using start(1) pos by (simp add: visible_target_def)
  with fragment_text_laws.cursor_slice_correct [OF ready b(1), of "visible_target start" Right "k + ?m"] mono pos b(2) obtain c' u where
    c': "cursor_slice fragment_ops ?D (visible_target start) Right c = Some (c', u)" "cursor_at fragment_ops ?D (sn_fragments sn) (k + ?m) c'"
      "wf_tree fragment_ops u" "flat u = take ?m (drop k (map fst ps))" by auto
  have m: "?m \<le> length ?ss" by (rule seek_len_le)
  have "?v (k + ?m) \<le> start"
  proof (cases ?m)
    case (Suc i)
    then have "i < ?m" by simp
    from seek_len_past [OF this] past [of i] m Suc show ?thesis by simp
  qed (use start(1) in simp)
  moreover have "if k + ?m < length ps then start < ?v (Suc (k + ?m)) else ?v (k + ?m) = start"
  proof (cases "k + ?m < length ps")
    case True
    then have l: "?m < length ?ss" by simp
    from seek_len_stops [OF l] past [OF l] True show ?thesis by simp
  next
    case False
    with start(2) \<open>?v (k + ?m) \<le> start\<close> show ?thesis by simp
  qed
  moreover have "cu_position c' = doc_text (doc_of (take (k + ?m) ps))"
    using c'(2) b(2) text_dim_position [OF b(3), of "k + ?m"] by (simp add: cursor_at_def)
  ultimately show ?thesis using that [OF c'(1,2,3)] c'(4) m k by (simp add: take_map drop_map)
qed

lemma copy_tree:
  assumes base: "edit_base sn ps" and fresh: "fresh ts ps" and inv: "edit_inv sn ps ts parts gap k [] qs s"
    and u: "wf_tree fragment_ops u" "flat u = map fst (take (n - k) (drop k ps))" "k \<le> n" "n \<le> length ps"
    and c: "cursor_at fragment_ops fragment_text_dim (sn_fragments sn) n c"
  obtains s' gap' where "emit_tree u s = Some s'" and "le_ranges s' = le_ranges s" and "le_texts s' = le_texts s"
    and "\<And>v. edit_inv sn ps ts parts gap' n [] (qs @ take (n - k) (drop k ps)) (s'\<lparr>le_old := c, le_start := v\<rparr>)"
proof -
  note j = edit_inv_unfold [OF inv]
  let ?xs = "take (n - k) (drop k ps)"
  have n: "take n ps = take k ps @ ?xs" using u(3) take_add [of k "n - k" ps] by simp
  then have cn: "consumed ps n [] = consumed ps k [] @ doc_of ?xs" by (simp add: consumed_start)
  have xs: "set ?xs \<subseteq> set ps" by (meson set_drop_subset set_take_subset subset_trans)
  have rest: "drop k ps = ?xs @ drop n ps" using u(3) by (metis append_take_drop_id drop_drop le_add_diff_inverse2)
  have bounded: "ids_bounded qs (?xs @ drop n ps)" using j(5) by (simp only: rest [symmetric])
  have ids: "sorted_wrt (<) (locator_min # map piece_id (qs @ ?xs))" "ids_bounded (qs @ ?xs) (drop n ps)"
    using bounded by (auto simp: ids_bounded_def sorted_wrt_append)
  have ok: "\<forall>x \<in> set ?xs. piece_ok x" "fst ` set ?xs \<subseteq> fst ` set ps" and new: "\<forall>x \<in> set ?xs. \<not> touched ts (fst x)"
    using base fresh xs by (auto simp: edit_base_def fresh_def)
  have doc: "doc_of ps = consumed ps k [] @ doc_of ?xs @ doc_of (drop n ps)"
    using append_take_drop_id [of n ps] n by (metis append.assoc consumed_start doc_of_simps(3))
  have fit: "ropes_fit (sn_visible_text sn) (sn_deleted_text sn)"
    and strs: "rope_str (sn_visible_text sn) = doc_visible (doc_of ps)" "rope_str (sn_deleted_text sn) = doc_deleted (doc_of ps)"
    using base by (simp_all add: edit_base_def)
  let ?s = "\<lambda>ropes. s\<lparr>es_ropes := ropes, es_fragments := builder_append (es_fragments s) u\<rparr>"
  from emit_tree_ok [OF fit j(7) u(1,2) ok ids(1) strs [unfolded doc]] cn obtain ropes where
    e: "emit_tree u s = Some (?s ropes)" "edit_holds (sn_visible_text sn) (sn_deleted_text sn) (fst ` set ps) (consumed ps n []) (qs @ ?xs) (?s ropes)"
    by auto
  have "doc_inv ts parts (gap @ doc_of ?xs) (consumed ps n []) (qs @ ?xs) (?s ropes)"
    using doc_inv_copy [OF j(2) new refl, of "?s ropes"] cn by simp
  moreover have "keys_hold ps n [] (qs @ ?xs)" using keys_hold_tree [OF j(3), of "n - k"] u(3) by simp
  moreover have "within ps n []" using u(4) by (simp add: within_def)
  ultimately have all: "edit_inv sn ps ts parts (gap @ doc_of ?xs) n [] (qs @ ?xs) ((?s ropes)\<lparr>le_old := c, le_start := v\<rparr>)" for v
    using e(2) c ids(2) by (auto simp: edit_inv_def edit_at_def edit_holds_def doc_inv_def)
  show ?thesis by (rule that [OF e(1) _ _ all]) simp_all
qed

text \<open>Where a range of the visible text begins, or ends, relative to the piece the edit is in.\<close>

definition reached :: "piece list \<Rightarrow> nat \<Rightarrow> nat \<Rightarrow> local_edit \<Rightarrow> bool" where
  "reached ps k start s \<longleftrightarrow> le_start s \<le> start \<and>
     (if k < length ps then start \<le> str_len (doc_visible (doc_of (take (Suc k) ps))) else le_start s = start)"

lemma skip_to_ok:
  assumes base: "edit_base sn ps" and fresh: "fresh ts ps" and inv: "edit_inv sn ps ts parts gap k t qs s" and start: "start_at ps k t s"
    and le: "le_start s \<le> i" "i \<le> str_len (doc_visible (doc_of ps))"
  obtains s' gap' k' t' qs' where "skip_to i s = Some s'" and "edit_inv sn ps ts parts gap' k' t' qs' s'" and "start_at ps k' t' s'"
    and "reached ps k' i s'" and "le_ranges s' = le_ranges s" and "le_texts s' = le_texts s"
proof -
  note j = edit_inv_unfold [OF inv]
  note rd = edit_readings [OF base j(1)]
  let ?v = "\<lambda>n. str_len (doc_visible (doc_of (take n ps)))"
  show ?thesis
  proof (cases "?v (Suc k) < i")
    case False
    have "t = [] \<and> le_start s = ?v k" if "\<not> k < length ps" using that j(4) start_visible [OF j(4) start] by (simp add: within_def)
    with False le rd(4) have "reached ps k i s" by (auto simp: reached_def)
    with False that [OF _ inv start] rd(3) show ?thesis by (simp add: skip_to_def)
  next
    case True
    then have k: "k < length ps" using le(2) rd(4) by (cases "k < length ps") auto
    let ?k = "if t = [] then k else Suc k"
    obtain s1 gap1 qs1 where s1: "push_rest s = Some s1" "edit_inv sn ps ts parts gap1 ?k [] qs1 s1" "le_ranges s1 = le_ranges s" "le_texts s1 = le_texts s"
      by (rule push_rest_ok [OF base fresh inv start])
    have "?v ?k \<le> ?v (Suc k)" by (rule doc_visible_mono) simp
    then have vk: "?v ?k \<le> i" using True by simp
    have kl: "?k \<le> length ps" using k by simp
    have "cursor_ready fragment_ops fragment_text_dim (sn_fragments sn) ?k (le_old s1)"
      using edit_inv_unfold(6) [OF s1(2)] by (simp add: cursor_ready_def)
    then obtain c u n where c: "cursor_slice fragment_ops fragment_text_dim (visible_target i) Right (le_old s1) = Some (c, u)"
        "cursor_at fragment_ops fragment_text_dim (sn_fragments sn) n c" "wf_tree fragment_ops u"
        "flat u = map fst (take (n - ?k) (drop ?k ps))" "?k \<le> n" "n \<le> length ps" "?v n \<le> i"
        "if n < length ps then i < ?v (Suc n) else ?v n = i" "cu_position c = doc_text (doc_of (take n ps))"
      by (rule slice_visible [OF base _ kl vk le(2)])
    obtain s2 gap2 where s2: "emit_tree u s1 = Some s2" "le_ranges s2 = le_ranges s1" "le_texts s2 = le_texts s1"
        "\<And>v. edit_inv sn ps ts parts gap2 n [] (qs1 @ take (n - ?k) (drop ?k ps)) (s2\<lparr>le_old := c, le_start := v\<rparr>)"
      by (rule copy_tree [OF base fresh s1(2) c(3,4,5,6,2)]) blast
    let ?s = "s2\<lparr>le_old := c, le_start := ?v n\<rparr>"
    have "skip_to i s = Some ?s" using True rd(3) s1(1) c(1,9) s2(1) by (simp add: skip_to_def)
    moreover have "start_at ps n [] ?s" by (simp add: start_at_def consumed_start)
    moreover have "reached ps n i ?s" using c(7,8) by (auto simp: reached_def)
    ultimately show ?thesis using that [OF _ s2(4)] s1(3,4) s2(2,3) by simp
  qed
qed

text \<open>The text of a piece beyond the part that has been read.\<close>

lemma split_at:
  assumes within: "within ps k t" and k: "k < length ps" and u: "snd (ps ! k) = t @ w" and vis: "fr_visible (fst (ps ! k))"
    and doc: "doc_visible (doc_of ps) = a @ y"
    and le: "str_len (doc_visible (consumed ps k t)) \<le> str_len a" "str_len a \<le> str_len (doc_visible (consumed ps k t)) + str_len w"
  obtains g r where "w = g @ r" and "str_len g + str_len (doc_visible (consumed ps k t)) = str_len a"
proof -
  have "doc_visible (consumed ps k t) @ w @ doc_visible (doc_of (drop (Suc k) ps)) = a @ y"
    using doc [folded within_split [OF within]] k u vis by (simp add: remaining_def)
  from prefix_by_len [OF this le(1)] obtain g where g: "a = doc_visible (consumed ps k t) @ g" "w @ doc_visible (doc_of (drop (Suc k) ps)) = g @ y" .
  then have "str_len g \<le> str_len w" using le(2) by simp
  from prefix_by_len [OF g(2) [symmetric] this] obtain r where "w = g @ r" .
  with that g(1) show ?thesis by simp
qed

lemma push_prefix_ok:
  assumes base: "edit_base sn ps" and fresh: "fresh ts ps" and inv: "edit_inv sn ps ts parts gap k t qs s" and start: "start_at ps k t s"
    and reach: "reached ps k i s" and doc: "doc_visible (doc_of ps) = a @ y" "i = str_len a"
  obtains s' gap' t' qs' where "push_prefix i s = Some s'" and "edit_inv sn ps ts parts gap' k t' qs' s'" and "start_at ps k t' s'"
    and "le_start s' = i" and "le_ranges s' = le_ranges s" and "le_texts s' = le_texts s"
proof (cases "le_start s = i")
  case True
  with that inv start show ?thesis by (simp add: push_prefix_def)
next
  case False
  note j = edit_inv_unfold [OF inv]
  note rd = edit_readings [OF base j(1)]
  have st: "le_start s = str_len (doc_visible (doc_of (take k ps))) + str_len t" by (rule start_visible [OF j(4) start])
  have k: "k < length ps" and lt: "le_start s < i" and e: "i \<le> str_len (doc_visible (doc_of (take (Suc k) ps)))"
    using reach False by (auto simp: reached_def split: if_splits)
  obtain w where w: "snd (ps ! k) = t @ w" using j(4) k by (auto simp: within_def prefix_def)
  have vis: "fr_visible (fst (ps ! k))" using e lt st k by (cases "fr_visible (fst (ps ! k))") (auto simp: take_Suc_visible)
  have cv: "str_len (doc_visible (consumed ps k t)) = le_start s" using start by (simp add: start_at_def)
  have le: "str_len (doc_visible (consumed ps k t)) \<le> str_len a" "str_len a \<le> str_len (doc_visible (consumed ps k t)) + str_len w"
    using e lt st k w vis doc(2) cv by (simp_all add: take_Suc_visible)
  obtain u r where u: "w = u @ r" "str_len u + str_len (doc_visible (consumed ps k t)) = str_len a"
    by (rule split_at [OF j(4) k w vis doc(1) le])
  have ur: "snd (ps ! k) = t @ u @ r" and ne: "u \<noteq> []" and len: "i = le_start s + str_len u"
    using w u lt doc(2) cv by auto
  note b = piece_bounds [OF base k ur]
  let ?f = "(fst (ps ! k))\<lparr>fr_len := str_len u, fr_insertion_offset := fr_insertion_offset (fst (ps ! k)) + str_len t,
      fr_id := between (new_max_id s) (piece_id (ps ! k))\<rparr>"
  have pf: "part_of ?f (fst (ps ! k)) t u" "fr_id ?f = between (new_max_id s) (piece_id (ps ! k))" by (simp_all add: part_of_def)
  obtain s' gap' where s': "emit_fragment ?f True s = Some s'" "edit_inv sn ps ts parts gap' k (t @ u) (qs @ [(?f, u)]) s'"
      "le_ranges s' = le_ranges s" "le_texts s' = le_texts s"
    by (rule copy_prefix [OF base fresh inv k ur ne vis pf])
  let ?s = "s'\<lparr>le_start := i\<rparr>"
  have "push_prefix i s = Some ?s"
    using lt len rd k vis s'(1) b(1) st by (simp add: push_prefix_def usize_sub_def as_u32_id u32_add_def)
  moreover have "edit_inv sn ps ts parts gap' k (t @ u) (qs @ [(?f, u)]) ?s"
    using s'(2) by (simp only: edit_inv_updates)
  moreover have "start_at ps k (t @ u) ?s" using consumed_append [OF k, of t u] vis len cv by (simp add: start_at_def)
  ultimately show ?thesis using that s'(3,4) by simp
qed

lemma locator_max_last: "last locator_max \<noteq> 0"
  by code_simp

lemma insert_text_ok:
  assumes base: "edit_base sn ps" and inv: "edit_inv sn ps ts parts gap k t qs s" and start: "start_at ps k t s"
    and len: "inserted_len parts + str_len cs < 2 ^ 32"
  obtains s' qs' where "insert_text ts cs s = Some s'" and "edit_inv sn ps ts (parts @ [(gap, [], cs)]) [] k t qs' s'" and "start_at ps k t s'"
    and "le_start s' = le_start s" and "le_ranges s' = le_ranges s" and "le_texts s' = le_texts s"
proof (cases "cs = []")
  case True
  have "edit_inv sn ps ts (parts @ [(gap, [], cs)]) [] k t qs s"
    using inv doc_inv_begin True by (auto simp: edit_inv_def)
  with True that start show ?thesis by (simp add: insert_text_def)
next
  case False
  note j = edit_inv_unfold [OF inv]
  note rd = edit_readings [OF base j(1)]
  let ?id = "if k < length ps then piece_id (ps ! k) else locator_max"
  have off: "es_insertion_offset s + str_len cs < 2 ^ 32" using j(2) len by (simp add: doc_inv_def)
  have bound: "last (locator_min # map piece_id qs) < ?id" "last ?id \<noteq> 0" "\<forall>p \<in> set (drop k ps). ?id \<le> piece_id p" "?id \<le> locator_max"
  proof -
    show "last ?id \<noteq> 0" using piece_bounds(3) [OF base, of k "[]" "snd (ps ! k)"] locator_max_last by simp
    have b: "sorted_wrt (<) (locator_min # map piece_id qs @ map piece_id (drop k ps) @ [locator_max])" using j(5) by (simp add: ids_bounded_def)
    show "last (locator_min # map piece_id qs) < ?id"
    proof (cases "k < length ps")
      case True
      with j(5) ids_bounded_last [of qs "ps ! k" "drop (Suc k) ps"] show ?thesis by (simp add: Cons_nth_drop_Suc)
    next
      case False
      with b show ?thesis by (cases qs rule: rev_cases) (auto simp: sorted_wrt_append)
    qed
    show "\<forall>p \<in> set (drop k ps). ?id \<le> piece_id p"
      using b by (cases "k < length ps") (auto simp: sorted_wrt_append Cons_nth_drop_Suc [symmetric])
    show "?id \<le> locator_max"
      using b by (cases "k < length ps") (auto simp: sorted_wrt_append Cons_nth_drop_Suc [symmetric])
  qed
  let ?f = "new_fragment ts ?id cs s"
  let ?s = "\<lambda>ropes. s\<lparr>es_slices := es_slices s @ [slice_of ts ?f],
      es_insertions := es_insertions s @ [insert_new ?f], es_fragments := builder_push (es_fragments s) ?f,
      es_insertion_offset := es_insertion_offset s + str_len cs, es_ropes := ropes\<rparr>"
  from push_fragments_ok [OF j(7) False off bound(1,2) refl, of ts ts] obtain ropes where
    r: "push_fragments_for_insertion cs ts ?id ts s = Some (?s ropes)"
      "edit_holds (sn_visible_text sn) (sn_deleted_text sn) (fst ` set ps) (consumed ps k t) (qs @ [(?f, cs)]) (?s ropes)"
      "fr_id ?f < ?id" by blast
  let ?t = "(?s ropes)\<lparr>le_patch := patch_push (le_patch s) (make_edit (le_start s) (le_start s) (new_visible s) (new_visible s + str_len cs))\<rparr>"
  have "last (locator_min # map piece_id qs) < fr_id ?f"
    using between_correct [OF bound(1,2)] rd(6) by (simp add: new_fragment_def)
  then have ids: "ids_bounded (qs @ [(?f, cs)]) (drop k ps)"
    using r(3) bound(3,4) by (intro ids_bounded_insert [OF j(5)]) auto
  have "le_start s = str_len (doc_visible (consumed ps k t))" using start by (simp add: start_at_def)
  then have "doc_inv ts (parts @ [(gap, [], cs)]) [] (consumed ps k t) (qs @ [(?f, cs)]) ?t"
    using rd(5) by (intro doc_inv_insert [OF j(2) refl]) simp_all
  then have "edit_inv sn ps ts (parts @ [(gap, [], cs)]) [] k t (qs @ [(?f, cs)]) ?t"
    using r(2) j(4,6) ids keys_hold_more [OF j(3)] by (simp add: edit_inv_def edit_at_def edit_holds_def)
  moreover have "insert_text ts cs s = Some ?t"
    using False rd(1) r(1) by (cases "k < length ps") (simp_all add: insert_text_def Let_def)
  ultimately show ?thesis using that [of ?t] start by (simp add: start_at_def)
qed

text \<open>Deleting a part of a visible piece.\<close>

lemma delete_part:
  assumes base: "edit_base sn ps" and inv: "edit_inv sn ps ts (parts @ [(g, m, n)]) [] k t qs s" and start: "start_at ps k t s"
    and k: "k < length ps" and u: "snd (ps ! k) = t @ u @ r" "u \<noteq> []" and vis: "fr_visible (fst (ps ! k))" and e: "e = le_start s + str_len u"
  obtains s' f m' where "intersect ts e (fst (ps ! k)) s = Some f" and "push_intersection ts e True f s = Some s'"
    and "edit_inv sn ps ts (parts @ [(g, m', n)]) [] k (t @ u) (qs @ [(f, u)]) s'" and "start_at ps k (t @ u) s'" and "le_start s' = e"
    and "le_ranges s' = le_ranges s" and "le_texts s' = le_texts s"
proof -
  note j = edit_inv_unfold [OF inv]
  note rd = edit_readings [OF base j(1)]
  note b = piece_bounds [OF base k u(1)]
  let ?f = "fst (ps ! k)" and ?i = "fr_insertion_offset (fst (ps ! k)) + str_len t"
  define f where "f = ?f\<lparr>fr_len := str_len u, fr_insertion_offset := ?i, fr_id := between (new_max_id s) (fr_id ?f),
      fr_deletions := fr_deletions ?f @ [ts], fr_visible := False\<rparr>"
  have st: "le_start s = str_len (doc_visible (doc_of (take k ps))) + str_len t" by (rule start_visible [OF j(4) start])
  have isec: "intersect ts e ?f s = Some f"
    using vis e rd st b(1) by (simp add: intersect_def usize_sub_def as_u32_id u32_add_def f_def)
  have ids: "ids_bounded qs (ps ! k # drop (Suc k) ps)" using j(5) k by (simp add: Cons_nth_drop_Suc)
  have id: "last (locator_min # map piece_id qs) < fr_id f" "fr_id f < piece_id (ps ! k)" "last (fr_id f) \<noteq> 0"
    using between_correct [OF ids_bounded_last [OF ids] b(3)] rd(6) by (simp_all add: f_def)
  let ?s1 = "s\<lparr>le_patch := patch_push (le_patch s) (make_edit (le_start s) e (new_visible s) (new_visible s)), es_slices := es_slices s @ [slice_of ts f]\<rparr>"
  have "edit_at sn ps k t qs ?s1" using j(1) by (simp add: edit_at_def edit_holds_def)
  from emit_part [OF base this k u, of f] id(1,3) vis obtain ropes where
    em: "emit_fragment f True ?s1 = Some (?s1\<lparr>es_insertions := es_insertions s @ [insert_new f], es_ropes := ropes, es_fragments := builder_push (es_fragments s) f\<rparr>)"
      "edit_holds (sn_visible_text sn) (sn_deleted_text sn) (fst ` set ps) (consumed ps k (t @ u)) (qs @ [(f, u)])
        (?s1\<lparr>es_insertions := es_insertions s @ [insert_new f], es_ropes := ropes, es_fragments := builder_push (es_fragments s) f\<rparr>)"
    by (auto simp: f_def)
  let ?s = "?s1\<lparr>es_insertions := es_insertions s @ [insert_new f], es_ropes := ropes, es_fragments := builder_push (es_fragments s) f, le_start := e\<rparr>"
  have slice: "slice_from_fragment ts f = Some (slice_of ts f)" using b(1) by (intro slice_from_fragment_ok) (simp add: f_def)
  have fv: "\<not> fr_visible f" "fr_len f = str_len u" by (simp_all add: f_def)
  have "push_intersection ts e True f s = Some ?s"
    using slice em(1) str_len_pos [OF u(2)] fv by (simp add: push_intersection_def Let_def)
  moreover have inv': "edit_inv sn ps ts (parts @ [(g, m @ cells ?f ?i u, n)]) [] k (t @ u) (qs @ [(f, u)]) ?s"
  proof -
    have pc: "piece_cells (f, u) = map (mark ts) (cells ?f ?i u)"
      using mark_cells [of f ?f ts ?i u] vis by (simp add: piece_cells_def f_def)
    have "touched ts f" by (simp add: touched_def f_def)
    with pc have "doc_inv ts (parts @ [(g, m @ cells ?f ?i u, n)]) [] (consumed ps k t @ cells ?f ?i u) (qs @ [(f, u)]) ?s"
      using start rd(5) vis e by (intro doc_inv_delete [OF j(2)]) (simp_all add: start_at_def)
    then have d: "doc_inv ts (parts @ [(g, m @ cells ?f ?i u, n)]) [] (consumed ps k (t @ u)) (qs @ [(f, u)]) ?s"
      using consumed_append [OF k, of t u] by simp
    have "ids_bounded (qs @ [(f, u)]) (drop k ps)"
    proof (rule ids_bounded_insert [OF j(5)])
      show "last (locator_min # map piece_id qs) < piece_id (f, u)" using id(1) by simp
      have "\<forall>p \<in> set (drop (Suc k) ps). piece_id (ps ! k) < piece_id p" "piece_id (ps ! k) < locator_max"
        using ids by (auto simp: ids_bounded_def sorted_wrt_append)
      with id(2) k show "\<forall>p \<in> set (drop k ps). piece_id (f, u) < piece_id p" "piece_id (f, u) < locator_max"
        by (auto simp: Cons_nth_drop_Suc [symmetric])
    qed
    moreover have "keys_hold ps k (t @ u) (qs @ [(f, u)])" by (rule keys_hold_part [OF j(3)]) (simp_all add: f_def)
    ultimately show ?thesis
      using em(2) j(6) within_extend [OF k u(1) vis] d by (simp add: edit_inv_def edit_at_def edit_holds_def)
  qed
  moreover have "start_at ps k (t @ u) ?s" using consumed_append [OF k, of t u] vis e start by (simp add: start_at_def)
  ultimately show ?thesis using that isec by simp
qed

text \<open>Deleted pieces in the range are kept as they are.\<close>

lemma pass_deleted:
  assumes base: "edit_base sn ps" and fresh: "fresh ts ps" and inv: "edit_inv sn ps ts (parts @ [(g, m, n)]) [] k [] qs s"
    and start: "start_at ps k [] s" and k: "k < length ps" and vis: "\<not> fr_visible (fst (ps ! k))"
  obtains s' c m' where "push_intersection ts (le_start s) False (fst (ps ! k)) s = Some s'" and "cursor_next fragment_text_dim (le_old s') = Some c"
    and "edit_inv sn ps ts (parts @ [(g, m', n)]) [] (Suc k) [] (qs @ [ps ! k]) (s'\<lparr>le_old := c\<rparr>)"
    and "start_at ps (Suc k) [] s'" and "le_start s' = le_start s" and "le_ranges s' = le_ranges s" and "le_texts s' = le_texts s"
proof -
  note j = edit_inv_unfold [OF inv]
  let ?f = "fst (ps ! k)" and ?t = "snd (ps ! k)"
  have t: "snd (ps ! k) = [] @ ?t @ []" by simp
  note b = piece_bounds [OF base k, of "[]" ?t]
  have ne: "?t \<noteq> []" using b(4) by auto
  have ids: "ids_bounded qs (ps ! k # drop (Suc k) ps)" using j(5) k by (simp add: Cons_nth_drop_Suc)
  have fl: "fr_len ?f = str_len ?t" "fr_insertion_offset ?f = fr_insertion_offset ?f + str_len []" "last (fr_id ?f) \<noteq> 0"
    using b by simp_all
  from emit_part [OF base j(1) k t ne fl(1,2) fl(3) ids_bounded_last [OF ids]] vis obtain ropes where
    em: "emit_fragment ?f False s = Some (s\<lparr>es_insertions := es_insertions s @ [insert_new ?f], es_ropes := ropes, es_fragments := builder_push (es_fragments s) ?f\<rparr>)"
      "edit_holds (sn_visible_text sn) (sn_deleted_text sn) (fst ` set ps) (consumed ps k ?t) (qs @ [(?f, ?t)])
        (s\<lparr>es_insertions := es_insertions s @ [insert_new ?f], es_ropes := ropes, es_fragments := builder_push (es_fragments s) ?f\<rparr>)"
    by auto
  let ?s = "s\<lparr>es_insertions := es_insertions s @ [insert_new ?f], es_ropes := ropes, es_fragments := builder_push (es_fragments s) ?f\<rparr>"
  have push: "push_intersection ts (le_start s) False ?f s = Some (?s\<lparr>le_start := le_start s\<rparr>)"
    using em(1) fl(1) str_len_pos [OF ne] by (simp add: push_intersection_def)
  have all: "consumed ps k ?t = consumed ps (Suc k) []" by (rule consumed_all [OF k])
  have p: "(?f, ?t) = ps ! k" by simp
  have "ids_bounded (qs @ [ps ! k]) (drop (Suc k) ps)" using ids by (simp add: ids_bounded_def)
  from step_over [OF base k, of "?s\<lparr>le_start := le_start s\<rparr>" "qs @ [ps ! k]"] this em(2) j(6) obtain c where
    c: "cursor_next fragment_text_dim (le_old s) = Some c" "edit_at sn ps (Suc k) [] (qs @ [ps ! k]) (?s\<lparr>le_start := le_start s, le_old := c\<rparr>)"
    unfolding p all by (auto simp: edit_holds_def)
  let ?x = "piece_cells (ps ! k)"
  have x: "consumed ps (Suc k) [] = consumed ps k [] @ ?x" using k by (simp add: consumed_start take_Suc_conv_app_nth)
  have "\<not> touched ts ?f" using fresh k by (simp add: fresh_def)
  then have "doc_inv ts (parts @ [(g, m @ ?x, n)]) [] (consumed ps (Suc k) []) (qs @ [ps ! k]) (?s\<lparr>le_start := le_start s, le_old := c\<rparr>)"
    unfolding x using mark_deleted_cells [OF vis] by (intro doc_inv_pass [OF j(2)]) (simp_all add: piece_cells_def)
  moreover have "keys_hold ps (Suc k) [] (qs @ [ps ! k])"
    using j(3) k by (auto simp: keys_hold_def take_Suc_conv_app_nth)
  ultimately have "edit_inv sn ps ts (parts @ [(g, m @ ?x, n)]) [] (Suc k) [] (qs @ [ps ! k]) (?s\<lparr>le_start := le_start s, le_old := c\<rparr>)"
    using c(2) by (simp add: edit_inv_def)
  moreover have "start_at ps (Suc k) [] (?s\<lparr>le_start := le_start s\<rparr>)"
    using start x vis by (simp add: start_at_def piece_cells_def)
  ultimately show ?thesis using that push c(1) by simp
qed

lemma delete_loop_end: "\<not> le_start s < e \<Longrightarrow> delete_loop ts e s = Some s"
  by (subst delete_loop.simps) simp

text \<open>The outcome of a round: it ends the loop, or the next round is at the next piece.\<close>

definition deleted_to where
  "deleted_to sn ps ts parts g n e s s' k t \<longleftrightarrow>
     (\<exists>m qs. edit_inv sn ps ts (parts @ [(g, m, n)]) [] k t qs s') \<and> start_at ps k t s' \<and> le_start s' \<le> e \<and>
     le_ranges s' = le_ranges s \<and> le_texts s' = le_texts s"

lemma cut_piece:
  assumes within: "within ps k t" and start: "start_at ps k t s" and k: "k < length ps" and w: "snd (ps ! k) = t @ w"
    and vis: "fr_visible (fst (ps ! k))" and doc: "doc_visible (doc_of ps) = a @ y" "e = str_len a" and lt: "le_start s \<le> e"
  obtains u r where "w = u @ r" and "le_start s + str_len u = min e (str_len (doc_visible (doc_of (take (Suc k) ps))))"
proof (cases "le_start s + str_len w \<le> e")
  case True
  with that [of w "[]"] start_visible [OF within start] k w vis show ?thesis by (simp add: take_Suc_visible)
next
  case False
  then have le: "str_len (doc_visible (consumed ps k t)) \<le> str_len a" "str_len a \<le> str_len (doc_visible (consumed ps k t)) + str_len w"
    using lt doc(2) start by (simp_all add: start_at_def)
  obtain v r where "w = v @ r" "str_len v + str_len (doc_visible (consumed ps k t)) = str_len a"
    by (rule split_at [OF within k w vis doc(1) le])
  with that [of v r] False start_visible [OF within start] start doc(2) k w vis show ?thesis
    by (simp add: take_Suc_visible start_at_def)
qed

lemma delete_round_visible:
  assumes base: "edit_base sn ps" and inv: "edit_inv sn ps ts (parts @ [(g, m, n)]) [] k t qs s" and start: "start_at ps k t s"
    and lt: "le_start s < e" and doc: "doc_visible (doc_of ps) = a @ y" "e = str_len a" and k: "k < length ps" and vis: "fr_visible (fst (ps ! k))"
  shows "(\<exists>s' t'. delete_loop ts e s = Some s' \<and> deleted_to sn ps ts parts g n e s s' k t' \<and> le_start s' = e) \<or>
    (\<exists>s'. delete_loop ts e s = delete_loop ts e s' \<and> deleted_to sn ps ts parts g n e s s' (Suc k) [])"
proof -
  note j = edit_inv_unfold [OF inv]
  note rd = edit_readings [OF base j(1)]
  let ?e = "str_len (doc_visible (doc_of (take (Suc k) ps)))"
  have item: "cursor_item (le_old s) = Some (Some (fst (ps ! k)))" using rd(1) k by simp
  have st: "le_start s = str_len (doc_visible (doc_of (take k ps))) + str_len t" by (rule start_visible [OF j(4) start])
  obtain w where w: "snd (ps ! k) = t @ w" using j(4) k by (auto simp: within_def prefix_def)
  have e: "?e = le_start s + str_len w" using vis st k w by (simp add: take_Suc_visible)
  have over: "\<exists>c. cursor_next fragment_text_dim (le_old s') = Some c \<and> deleted_to sn ps ts parts g n e s (s'\<lparr>le_old := c\<rparr>) (Suc k) []"
    if "edit_inv sn ps ts (parts @ [(g, m', n)]) [] k (snd (ps ! k)) qs' s'" "start_at ps k (snd (ps ! k)) s'"
      "le_start s' \<le> e" "le_ranges s' = le_ranges s" "le_texts s' = le_texts s" for m' qs' s'
    using edit_inv_next [OF base that(1) k] that(2-5) consumed_all [OF k] by (auto simp: deleted_to_def start_at_def)
  obtain u r where u: "w = u @ r" "le_start s + str_len u = min e ?e"
    by (rule cut_piece [OF j(4) start k w vis doc less_imp_le [OF lt]])
  show ?thesis
  proof (cases "u = []")
    case True
    then have "w = []" using u lt e str_len_pos [of w] by (cases "w = []") (auto simp: min_def split: if_splits)
    then have "edit_inv sn ps ts (parts @ [(g, m, n)]) [] k (snd (ps ! k)) qs s" "start_at ps k (snd (ps ! k)) s" using inv start w by simp_all
    from over [OF this less_imp_le [OF lt] refl refl] obtain c where
      c: "cursor_next fragment_text_dim (le_old s) = Some c" "deleted_to sn ps ts parts g n e s (s\<lparr>le_old := c\<rparr>) (Suc k) []" by blast
    obtain f where "intersect ts (le_start s) (fst (ps ! k)) s = Some f" "fr_len f = 0"
      using vis rd(2) st piece_bounds(1) [OF base k w] by (auto simp: intersect_def usize_sub_def as_u32_id u32_add_def \<open>w = []\<close> as_u32_def)
    then have "delete_loop ts e s = delete_loop ts e (s\<lparr>le_old := c\<rparr>)"
      using lt item rd(3) e c(1) \<open>w = []\<close> by (subst delete_loop.simps) (simp add: push_intersection_def Let_def min_def)
    with c(2) show ?thesis by blast
  next
    case ne: False
    have wu: "snd (ps ! k) = t @ u @ r" using w u(1) by simp
    obtain s' f m' where s': "intersect ts (min e ?e) (fst (ps ! k)) s = Some f" "push_intersection ts (min e ?e) True f s = Some s'"
        "edit_inv sn ps ts (parts @ [(g, m', n)]) [] k (t @ u) (qs @ [(f, u)]) s'" "start_at ps k (t @ u) s'" "le_start s' = min e ?e"
        "le_ranges s' = le_ranges s" "le_texts s' = le_texts s"
      by (rule delete_part [OF base inv start k wu ne vis u(2) [symmetric]])
    show ?thesis
    proof (cases "?e \<le> e")
      case True
      then have "t @ u = snd (ps ! k)" using u e wu by simp
      with over s'(3-7) obtain c where
        c: "cursor_next fragment_text_dim (le_old s') = Some c" "deleted_to sn ps ts parts g n e s (s'\<lparr>le_old := c\<rparr>) (Suc k) []" by fastforce
      then have "delete_loop ts e s = delete_loop ts e (s'\<lparr>le_old := c\<rparr>)"
        using lt item rd(3) s'(1,2) vis True by (subst delete_loop.simps) (simp add: Let_def)
      with c(2) show ?thesis by blast
    next
      case False
      then have "delete_loop ts e s = delete_loop ts e s'"
        using lt item rd(3) s'(1,2) vis by (subst delete_loop.simps) (simp add: Let_def)
      moreover have "delete_loop ts e s' = Some s'" using s'(5) False by (intro delete_loop_end) (simp add: min_def)
      moreover have "deleted_to sn ps ts parts g n e s s' k (t @ u)" using s'(3-7) by (auto simp: deleted_to_def)
      ultimately show ?thesis using s'(5) False by (intro disjI1 exI) (auto simp: min_def)
    qed
  qed
qed

lemma delete_round:
  assumes base: "edit_base sn ps" and fresh: "fresh ts ps" and inv: "edit_inv sn ps ts (parts @ [(g, m, n)]) [] k t qs s"
    and start: "start_at ps k t s" and lt: "le_start s < e" and doc: "doc_visible (doc_of ps) = a @ y" "e = str_len a"
  shows "k < length ps" and "(\<exists>s' t'. delete_loop ts e s = Some s' \<and> deleted_to sn ps ts parts g n e s s' k t' \<and> le_start s' = e) \<or>
    (\<exists>s'. delete_loop ts e s = delete_loop ts e s' \<and> deleted_to sn ps ts parts g n e s s' (Suc k) [])"
proof -
  note j = edit_inv_unfold [OF inv]
  note rd = edit_readings [OF base j(1)]
  have st: "le_start s = str_len (doc_visible (doc_of (take k ps))) + str_len t" by (rule start_visible [OF j(4) start])
  show k: "k < length ps"
  proof (rule ccontr)
    assume "\<not> k < length ps"
    then have "le_start s = str_len (doc_visible (doc_of ps))" using st j(4) by (simp add: within_def)
    with lt doc show False by simp
  qed
  show "(\<exists>s' t'. delete_loop ts e s = Some s' \<and> deleted_to sn ps ts parts g n e s s' k t' \<and> le_start s' = e) \<or>
    (\<exists>s'. delete_loop ts e s = delete_loop ts e s' \<and> deleted_to sn ps ts parts g n e s s' (Suc k) [])"
  proof (cases "fr_visible (fst (ps ! k))")
    case True
    show ?thesis by (rule delete_round_visible [OF base inv start lt doc k True])
  next
    case False
    then have t: "t = []" using j(4) k by (auto simp: within_def)
    have e: "str_len (doc_visible (doc_of (take (Suc k) ps))) = le_start s" using False st t k by (simp add: take_Suc_visible)
    obtain s' c m' where s': "push_intersection ts (le_start s) False (fst (ps ! k)) s = Some s'" "cursor_next fragment_text_dim (le_old s') = Some c"
        "edit_inv sn ps ts (parts @ [(g, m', n)]) [] (Suc k) [] (qs @ [ps ! k]) (s'\<lparr>le_old := c\<rparr>)"
        "start_at ps (Suc k) [] s'" "le_start s' = le_start s" "le_ranges s' = le_ranges s" "le_texts s' = le_texts s"
      by (rule pass_deleted [OF base fresh inv [unfolded t] start [unfolded t] k False])
    have "delete_loop ts e s = delete_loop ts e (s'\<lparr>le_old := c\<rparr>)"
      using lt rd(1,3) k e s'(1,2) False by (subst delete_loop.simps) (simp add: intersect_def Let_def min_def)
    moreover have "deleted_to sn ps ts parts g n e s (s'\<lparr>le_old := c\<rparr>) (Suc k) []"
      using s'(3-7) lt by (auto simp: deleted_to_def start_at_def)
    ultimately show ?thesis by blast
  qed
qed

lemma delete_loop_ok:
  assumes base: "edit_base sn ps" and fresh: "fresh ts ps" and inv: "edit_inv sn ps ts (parts @ [(g, m, n)]) [] k t qs s"
    and start: "start_at ps k t s" and le: "le_start s \<le> e" and doc: "doc_visible (doc_of ps) = a @ y" "e = str_len a"
  shows "\<exists>s' k' t'. delete_loop ts e s = Some s' \<and> deleted_to sn ps ts parts g n e s s' k' t' \<and> le_start s' = e"
  using inv start le
proof (induction "length ps - k" arbitrary: k t m qs s rule: less_induct)
  case less
  show ?case
  proof (cases "le_start s = e")
    case True
    have "deleted_to sn ps ts parts g n e s s k t" using less.prems by (auto simp: deleted_to_def)
    with True show ?thesis by (intro exI) (auto simp: delete_loop_end)
  next
    case False
    then have lt: "le_start s < e" using less.prems(3) by simp
    note round = delete_round [OF base fresh less.prems(1,2) lt doc]
    show ?thesis
    proof (rule disjE [OF round(2)])
      assume "\<exists>s'. delete_loop ts e s = delete_loop ts e s' \<and> deleted_to sn ps ts parts g n e s s' (Suc k) []"
      then obtain s' m' qs' where s': "delete_loop ts e s = delete_loop ts e s'" "edit_inv sn ps ts (parts @ [(g, m', n)]) [] (Suc k) [] qs' s'"
          "start_at ps (Suc k) [] s'" "le_start s' \<le> e" "le_ranges s' = le_ranges s" "le_texts s' = le_texts s" by (auto simp: deleted_to_def)
      have "length ps - Suc k < length ps - k" using round(1) by simp
      from less.hyps [OF this s'(2-4)] s'(1,5,6) show ?thesis by (auto simp: deleted_to_def)
    qed blast
  qed
qed

end
