(* ===== verification/Buffer_Apply.thy ===== *)
theory Buffer_Apply
  imports Buffer_Local
begin

text \<open>
  A whole local edit: \<open>apply_edit_internal\<close> returns on every list of edits in order, and makes of the old
  document the one in which the texts are inserted and the ranges are marked deleted.
\<close>

section \<open>Edits and their parts\<close>

text \<open>Edits in order on the visible text that begins at an offset.\<close>

fun edits_on :: "nat \<Rightarrow> str \<Rightarrow> ((nat \<times> nat) \<times> str) list \<Rightarrow> bool" where
  "edits_on i v [] \<longleftrightarrow> True"
| "edits_on i v (((s, e), new) # es) \<longleftrightarrow>
     (\<exists>g x v'. v = g @ x @ v' \<and> s = i + str_len g \<and> e = s + str_len x \<and> edits_on e v' es)"

text \<open>The ranges of the parts in the visible text and in the whole text.\<close>

fun visible_ranges :: "nat \<Rightarrow> part list \<Rightarrow> ((nat \<times> nat) \<times> str) list" where
  "visible_ranges i [] = []"
| "visible_ranges i ((kept, removed, new) # parts) =
     (let s = i + str_len (doc_visible kept); e = s + str_len (doc_visible removed) in ((s, e), new) # visible_ranges e parts)"

fun full_ranges :: "nat \<Rightarrow> part list \<Rightarrow> (full_offset \<times> full_offset) list" where
  "full_ranges i [] = []"
| "full_ranges i ((kept, removed, new) # parts) =
     (let s = i + doc_len kept; e = s + doc_len removed in (FullOffset s, FullOffset e) # full_ranges e parts)"

lemma visible_ranges_snoc:
  "visible_ranges i (parts @ [(p, m, n)]) = visible_ranges i parts @
     [((i + str_len (doc_visible (before parts @ p)), i + str_len (doc_visible (before parts @ p @ m))), n)]"
  by (induction i parts rule: visible_ranges.induct) (simp_all add: Let_def add.assoc)

lemma full_ranges_snoc:
  "full_ranges i (parts @ [(p, m, n)]) = full_ranges i parts @
     [(FullOffset (i + doc_len (before parts @ p)), FullOffset (i + doc_len (before parts @ p @ m)))]"
  by (induction i parts rule: full_ranges.induct) (simp_all add: Let_def add.assoc)

text \<open>What the operation that an edit returns is made of.\<close>

definition op_recorded :: "local_edit \<Rightarrow> part list \<Rightarrow> bool" where
  "op_recorded s parts \<longleftrightarrow> le_ranges s = full_ranges 0 parts \<and> le_texts s = map (\<lambda>(_, _, new). new) parts"

lemma apply_one_edit_ok:
  assumes base: "edit_base sn ps" and fresh: "fresh ts ps" and inv: "edit_inv sn ps ts parts gap k t qs s" and start: "start_at ps k t s"
    and rec: "op_recorded s parts" and doc: "doc_visible (doc_of ps) = a @ x @ y" and le: "le_start s \<le> str_len a"
    and len: "inserted_len parts + str_len (normalize n) < 2 ^ 32"
  obtains s' p m k' t' qs' where "apply_one_edit ts ((str_len a, str_len (a @ x)), n) s = Some s'"
    and "edit_inv sn ps ts (parts @ [(p, m, normalize n)]) [] k' t' qs' s'" and "start_at ps k' t' s'" and "le_start s' = str_len (a @ x)"
    and "op_recorded s' (parts @ [(p, m, normalize n)])"
    and "visible_ranges 0 (parts @ [(p, m, normalize n)]) = visible_ranges 0 parts @ [((str_len a, str_len (a @ x)), normalize n)]"
proof -
  have total: "str_len a \<le> str_len (doc_visible (doc_of ps))" using doc by simp
  obtain s1 gap1 k1 t1 qs1 where s1: "skip_to (str_len a) s = Some s1" "edit_inv sn ps ts parts gap1 k1 t1 qs1 s1" "start_at ps k1 t1 s1"
      "reached ps k1 (str_len a) s1" "le_ranges s1 = le_ranges s" "le_texts s1 = le_texts s"
    by (rule skip_to_ok [OF base fresh inv start le total])
  obtain s2 p t2 qs2 where s2: "push_prefix (str_len a) s1 = Some s2" "edit_inv sn ps ts parts p k1 t2 qs2 s2" "start_at ps k1 t2 s2"
      "le_start s2 = str_len a" "le_ranges s2 = le_ranges s1" "le_texts s2 = le_texts s1"
    by (rule push_prefix_ok [OF base fresh s1(2,3,4) doc refl])
  obtain s3 qs3 where s3: "insert_text ts (normalize n) s2 = Some s3" "edit_inv sn ps ts (parts @ [(p, [], normalize n)]) [] k1 t2 qs3 s3"
      "start_at ps k1 t2 s3" "le_start s3 = le_start s2" "le_ranges s3 = le_ranges s2" "le_texts s3 = le_texts s2"
    by (rule insert_text_ok [OF base s2(2,3) len])
  have doc': "doc_visible (doc_of ps) = (a @ x) @ y" and le3: "le_start s3 \<le> str_len (a @ x)" using doc s3(4) s2(4) by simp_all
  from delete_loop_ok [OF base fresh s3(2,3) le3 doc' refl] obtain s4 k4 t4 m qs4 where
    s4: "delete_loop ts (str_len (a @ x)) s3 = Some s4" "edit_inv sn ps ts (parts @ [(p, m, normalize n)]) [] k4 t4 qs4 s4" "start_at ps k4 t4 s4"
      "le_start s4 = str_len (a @ x)" "le_ranges s4 = le_ranges s3" "le_texts s4 = le_texts s3"
    by (auto simp: deleted_to_def)
  have c2: "consumed ps k1 t2 = before parts @ p" and c4: "consumed ps k4 t4 = before parts @ p @ m"
    using edit_inv_unfold(2) [OF s2(2)] edit_inv_unfold(2) [OF s4(2)] by (simp_all add: doc_inv_def)
  have v2: "str_len (doc_visible (before parts @ p)) = str_len a" and v4: "str_len (doc_visible (before parts @ p @ m)) = str_len (a @ x)"
    using s2(3,4) s4(3,4) c2 c4 by (simp_all add: start_at_def)
  have f2: "str_len a + fts_deleted (old_start s1) = doc_len (before parts @ p)"
    using edit_readings(2) [OF base edit_inv_unfold(1) [OF s1(2)]] consumed_deleted [OF edit_inv_unfold(4) [OF s2(2)]] v2 c2
    by (simp only: doc_text_simps doc_len_split [of "before parts @ p"])
  have f4: "str_len (a @ x) + fts_deleted (old_start s4) = doc_len (before parts @ p @ m)"
    using edit_readings(2) [OF base edit_inv_unfold(1) [OF s4(2)]] consumed_deleted [OF edit_inv_unfold(4) [OF s4(2)]] v4 c4
    by (simp only: doc_text_simps doc_len_split [of "before parts @ p @ m"])
  let ?s = "s4\<lparr>le_ranges := le_ranges s4 @ [(FullOffset (doc_len (before parts @ p)), FullOffset (doc_len (before parts @ p @ m)))],
      le_texts := le_texts s4 @ [normalize n]\<rparr>"
  have "apply_one_edit ts ((str_len a, str_len (a @ x)), n) s = Some ?s"
    unfolding apply_one_edit_def Let_def fst_conv snd_conv using s1(1) s2(1) s3(1) s4(1) by (simp add: f2 f4 del: str_len_simps doc_simps)
  moreover have "edit_inv sn ps ts (parts @ [(p, m, normalize n)]) [] k4 t4 qs4 ?s" using s4(2) by (simp only: edit_inv_updates)
  moreover have "op_recorded ?s (parts @ [(p, m, normalize n)])"
    using rec s1(5,6) s2(5,6) s3(5,6) s4(5,6) by (simp add: op_recorded_def full_ranges_snoc)
  moreover have "visible_ranges 0 (parts @ [(p, m, normalize n)]) = visible_ranges 0 parts @ [((str_len a, str_len (a @ x)), normalize n)]"
    using v2 v4 by (simp only: visible_ranges_snoc add_0)
  moreover have "start_at ps k4 t4 ?s" using s4(3) by (simp add: start_at_def)
  ultimately show ?thesis using that s4(4) by simp
qed

definition normalized :: "((nat \<times> nat) \<times> str) list \<Rightarrow> ((nat \<times> nat) \<times> str) list" where
  "normalized edits = map (\<lambda>(r, new). (r, normalize new)) edits"

definition new_text_len :: "((nat \<times> nat) \<times> str) list \<Rightarrow> nat" where
  "new_text_len edits = (\<Sum>(_, new) \<leftarrow> edits. str_len (normalize new))"

lemma edits_simps [simp]: "normalized [] = []" "normalized ((r, n) # es) = (r, normalize n) # normalized es"
  "new_text_len [] = 0" "new_text_len ((r, n) # es) = str_len (normalize n) + new_text_len es"
  by (simp_all add: normalized_def new_text_len_def)

lemma apply_edits_ok:
  assumes base: "edit_base sn ps" and fresh: "fresh ts ps"
  shows "edit_inv sn ps ts parts gap k t qs s \<Longrightarrow> start_at ps k t s \<Longrightarrow> op_recorded s parts \<Longrightarrow>
    doc_visible (doc_of ps) = a @ v \<Longrightarrow> le_start s \<le> str_len a \<Longrightarrow> edits_on (str_len a) v edits \<Longrightarrow> inserted_len parts + new_text_len edits < 2 ^ 32 \<Longrightarrow>
    \<exists>s' parts' gap' k' t' qs'. apply_edits ts edits s = Some s' \<and> edit_inv sn ps ts parts' gap' k' t' qs' s' \<and> start_at ps k' t' s' \<and>
      op_recorded s' parts' \<and> visible_ranges 0 parts' = visible_ranges 0 parts @ normalized edits"
proof (induction edits arbitrary: parts gap k t qs s a v)
  case Nil
  then show ?case by (intro exI) auto
next
  case (Cons ed edits)
  obtain i j n where ed: "ed = ((i, j), n)" by (metis surj_pair)
  from Cons.prems(6) [unfolded ed] obtain g x y where r: "v = g @ x @ y" "i = str_len a + str_len g" "j = i + str_len x" "edits_on j y edits"
    unfolding edits_on.simps by blast
  then have e: "v = g @ x @ y" "i = str_len (a @ g)" "j = str_len ((a @ g) @ x)" "edits_on j y edits" by simp_all
  have doc: "doc_visible (doc_of ps) = (a @ g) @ x @ y" and le: "le_start s \<le> str_len (a @ g)" using Cons.prems(4,5) e(1) by simp_all
  have len: "inserted_len parts + str_len (normalize n) < 2 ^ 32" using Cons.prems(7) by (simp add: ed)
  obtain s' p m k' t' qs' where s': "apply_one_edit ts ((str_len (a @ g), str_len ((a @ g) @ x)), n) s = Some s'"
      "edit_inv sn ps ts (parts @ [(p, m, normalize n)]) [] k' t' qs' s'" "start_at ps k' t' s'" "le_start s' = str_len ((a @ g) @ x)"
      "op_recorded s' (parts @ [(p, m, normalize n)])"
      "visible_ranges 0 (parts @ [(p, m, normalize n)]) = visible_ranges 0 parts @ [((str_len (a @ g), str_len ((a @ g) @ x)), normalize n)]"
    by (rule apply_one_edit_ok [OF base fresh Cons.prems(1-3) doc le len])
  have "doc_visible (doc_of ps) = ((a @ g) @ x) @ y" using doc by simp
  from Cons.IH [OF s'(2,3,5) this] s'(1,4,6) e(4) Cons.prems(7) show ?case
    by (auto simp: ed e(2,3) simp del: str_len_simps(3))
qed

section \<open>The beginning\<close>

lemma begin_edit_ok:
  assumes base: "edit_base sn ps" and fresh: "fresh ts ps" and ids: "ids_bounded [] ps" and i: "i \<le> str_len (doc_visible (doc_of ps))"
  obtains s gap k qs where "begin_edit sn i = Some s" and "edit_inv sn ps ts [] gap k [] qs s" and "start_at ps k [] s"
    and "le_start s \<le> i" and "op_recorded s []"
proof -
  let ?v = "sn_visible_text sn" and ?d = "sn_deleted_text sn"
  have fit: "ropes_fit ?v ?d" and str: "rope_str ?v = doc_visible (doc_of ps)" "rope_str ?d = doc_deleted (doc_of ps)"
    and ok: "\<forall>p \<in> set ps. piece_ok p"
    using base by (simp_all add: edit_base_def)
  then have r: "rope_ok ?v" "shallow ?v" "rope_ok ?d" "shallow ?d" by (auto simp: ropes_fit_def slices_fit_def)
  obtain vc dc where c: "rope_cursor_new ?v 0 = Some vc" "rope_cursor_ok ?v 0 vc" "rope_cursor_new ?d 0 = Some dc" "rope_cursor_ok ?d 0 dc"
    using rope_cursor_new_ok [OF r(1,2), of 0] rope_cursor_new_ok [OF r(3,4), of 0] by auto
  have ready: "cursor_ready fragment_ops fragment_text_dim (sn_fragments sn) 0 (cursor_new fragment_text_dim (sn_fragments sn))"
    by (simp add: cursor_ready_def cursor_fresh_new)
  have zero: "0 \<le> length ps" "str_len (doc_visible (doc_of (take 0 ps))) \<le> i" by simp_all
  obtain oc u k where
    s: "cursor_slice fragment_ops fragment_text_dim (visible_target i) Right (cursor_new fragment_text_dim (sn_fragments sn)) = Some (oc, u)"
      "cursor_at fragment_ops fragment_text_dim (sn_fragments sn) k oc" "wf_tree fragment_ops u" and "flat u = map fst (take (k - 0) (drop 0 ps))"
      and k: "k \<le> length ps" "str_len (doc_visible (doc_of (take k ps))) \<le> i" "cu_position oc = doc_text (doc_of (take k ps))"
    by (rule slice_visible [OF base ready zero i]) blast
  then have flat: "flat u = map fst (take k ps)" by simp
  let ?qs = "take k ps" and ?b = "builder_new u"
  have okq: "\<forall>q \<in> set ?qs. piece_ok q" using ok by (meson in_set_takeD)
  have hold: "builder_holds ?b (map fst ?qs)" using builder_new_holds [OF s(3)] flat by simp
  have summ: "fs_text (fb_summary ?b) = doc_text (doc_of ?qs)"
    using hold sum_of_text [OF okq, of "szero fragment_ops"]
    by (simp add: builder_holds_def sum_of_def fragment_ops_simps text_summary_add_def doc_text_def)
  have "ropes_at ?v ?d (rope_builder_new vc dc) (doc_visible []) (doc_deleted []) [] []"
    using c(2,4) rope_new_ok by (simp add: ropes_at_def rope_builder_new_def)
  moreover have "rope_str ?v = doc_visible ([] @ doc_of ?qs) @ doc_visible (doc_of (drop k ps))" "rope_str ?d = doc_deleted ([] @ doc_of ?qs) @ doc_deleted (doc_of (drop k ps))"
    using str doc_of_simps(3) [of "take k ps" "drop k ps"] by simp_all
  ultimately obtain rb where rb: "ropes_append (rope_builder_new vc dc) (doc_text (doc_of ?qs)) = Some rb"
      "ropes_at ?v ?d rb (doc_visible (doc_of ?qs)) (doc_deleted (doc_of ?qs)) (doc_visible (doc_of ?qs)) (doc_deleted (doc_of ?qs))"
    using ropes_append_ok [OF fit, of "rope_builder_new vc dc" "[]" "[]" "[]" "doc_of ?qs"] by auto
  let ?s = "\<lparr>es_insertions = [], es_insertion_offset = 0, es_slices = [], es_fragments = ?b, es_ropes = rb,
       le_old = oc, le_start = fts_visible (cu_position oc), le_patch = patch_empty, le_ranges = [], le_texts = []\<rparr>"
  have "begin_edit sn i = Some ?s" using c(1,3) s(1) rb(1) summ by (simp add: begin_edit_def Let_def)
  moreover have "start_at ps k [] ?s" using k(3) by (simp add: start_at_def consumed_start)
  moreover have "edit_inv sn ps ts [] (doc_of ?qs) k [] ?qs ?s"
  proof -
    have ids': "ids_bounded ?qs (drop k ps)" "sorted_wrt (<) (locator_min # map piece_id ?qs)"
    proof -
      have "ids_bounded [] (?qs @ drop k ps)" using ids by simp
      then show "ids_bounded ?qs (drop k ps)" "sorted_wrt (<) (locator_min # map piece_id ?qs)"
        unfolding ids_bounded_def append_Nil map_append by (auto simp: sorted_wrt_append)
    qed
    have sub: "fst ` set ?qs \<subseteq> fst ` set ps" by (meson image_mono set_take_subset)
    have "edit_at sn ps k [] ?qs ?s"
      using s(2) k(1) rb(2) hold okq ids' sub by (simp add: edit_at_def within_def edit_holds_def consumed_start)
    moreover have "filter (touched ts) (map fst ?qs) = []"
      using fresh by (auto simp: filter_empty_conv fresh_def dest: in_set_takeD)
    then have "doc_inv ts [] (doc_of ?qs) (consumed ps k []) ?qs ?s"
      by (simp add: doc_inv_def consumed_start explained_def patch_empty_def)
    moreover have "keys_hold ps k [] ?qs" by (auto simp: keys_hold_def)
    ultimately show ?thesis by (simp add: edit_inv_def)
  qed
  ultimately show ?thesis using that k(2,3) by (simp add: op_recorded_def)
qed

end
