(* ===== verification/Buffer_Theorems.thy ===== *)
theory Buffer_Theorems
  imports Rope_Theorems Buffer_Apply
begin

text \<open>The main theorems on the parts of a buffer: its history and its line endings.\<close>

section \<open>History\<close>

definition sample_entry :: "nat \<Rightarrow> history_entry" where
  "sample_entry n = new_entry \<lparr>tr_id = Lamport (of_nat n) (ReplicaId 0), tr_edit_ids = [Lamport (of_nat n) (ReplicaId 1)], tr_start = global_new\<rparr> (1000 * n)"

definition sample_history :: history where
  "sample_history = (history_new rope_new)\<lparr>hi_undo_stack := [sample_entry 1, sample_entry 2, sample_entry 3]\<rparr>"

text \<open>
  C36 (invariant): outside a transaction the entries to undo followed by the entries to redo are one sequence,
  and undo, redo, undo to a transaction and redo to a transaction only move the boundary in it, so no
  entry is lost or reordered. Undoing down to an entry undoes the entries from the newest down to that
  one, and redoing to the newest redoes them in their order and restores the history.
\<close>

theorem history_timeline:
  assumes "hi_transaction_depth h = 0" and "hi_undo_stack h = a @ b @ [newest]" and "b @ [newest] = first # c"
    and "distinct_ids (timeline h)"
  shows "(\<exists>h'. pop_undo h = Some (h', Some newest) \<and> timeline h' = timeline h \<and> pop_redo h' = Some (h, Some newest)) \<and>
    (\<exists>h'. remove_from_undo_until h (he_id first) = Some (h', newest # rev b) \<and> timeline h' = timeline h \<and>
       remove_from_redo h' (he_id newest) = Some (h, b @ [newest])) \<and>
    (\<exists>h' es. remove_from_redo h t = Some (h', es) \<and> timeline h' = timeline h) \<and>
    (\<exists>h' e. pop_redo h = Some (h', e) \<and> timeline h' = timeline h)"
proof (intro conjI)
  have st: "hi_undo_stack h = (a @ b) @ [newest]" using assms(2) by simp
  let ?h = "h\<lparr>hi_undo_stack := a @ b, hi_redo_stack := hi_redo_stack h @ [newest]\<rparr>"
  have "pop_redo ?h = Some (h, Some newest)"
    using pop_redo_step [of ?h "hi_redo_stack h" newest] assms(1) st by simp
  moreover have "timeline ?h = timeline h" by (simp add: timeline_def st)
  ultimately show "\<exists>h'. pop_undo h = Some (h', Some newest) \<and> timeline h' = timeline h \<and> pop_redo h' = Some (h, Some newest)"
    using pop_undo_step [OF assms(1) st] by blast
  obtain h' where "remove_from_undo_until h (he_id first) = Some (h', newest # rev b)"
      "remove_from_redo h' (he_id newest) = Some (h, b @ [newest])"
    using undo_redo_until [OF assms(1,2,4,3)] by blast
  with moves_keep_timeline(3) [OF assms(1), of "he_id first"]
  show "\<exists>h'. remove_from_undo_until h (he_id first) = Some (h', newest # rev b) \<and> timeline h' = timeline h \<and>
      remove_from_redo h' (he_id newest) = Some (h, b @ [newest])" by auto
qed (use moves_keep_timeline(2,4) [OF assms(1)] in blast)+

theorem history_timeline_witness:
  "\<exists>h'. remove_from_undo_until sample_history (Lamport 2 (ReplicaId 0)) = Some (h', [sample_entry 3, sample_entry 2]) \<and>
     remove_from_redo h' (Lamport 3 (ReplicaId 0)) = Some (sample_history, [sample_entry 2, sample_entry 3])"
  using history_timeline [of sample_history "[sample_entry 1]" "[sample_entry 2]" "sample_entry 3" "sample_entry 2" "[sample_entry 3]"]
  by (auto simp: sample_history_def history_new_def distinct_ids_def timeline_def sample_entry_def new_entry_def he_id_def)

text \<open>
  C37 (functional): a transaction started outside another takes the next tick of the clock as its identifier. If
  edits are recorded in it, ending it makes one entry with exactly those edits, in order, on the stack
  of entries to undo and clears the entries to redo; if none are, ending it leaves the history as it
  was before. A transaction started within another changes nothing. Neither panics.
\<close>

theorem history_transactions:
  assumes "\<forall>op \<in> set ops. recorded_edit h op"
  shows "(if hi_transaction_depth h = 0
    then \<exists>h1 h2. start_transaction h start now clock = (h1, snd (tick clock), Some (fst (tick clock))) \<and> push_undos h1 ops = Some h2 \<and>
      (if ops = [] then end_transaction h2 later = Some (h, None)
       else \<exists>e. end_transaction h2 later = Some (h\<lparr>hi_undo_stack := hi_undo_stack h @ [e], hi_redo_stack := []\<rparr>, Some e) \<and>
         he_id e = fst (tick clock) \<and> he_edits e = ops \<and> he_first_edit_at e = now \<and> he_last_edit_at e = later)
    else \<exists>h1. start_transaction h start now clock = (h1, clock, None) \<and> end_transaction h1 later = Some (h, None))"
proof (cases "hi_transaction_depth h = 0")
  case True
  obtain h1 h2 clock' where t: "start_transaction h start now clock = (h1, clock', Some (fst (tick clock)))"
    "clock' = snd (tick clock)" "push_undos h1 ops = Some h2"
    "ops = [] \<Longrightarrow> end_transaction h2 later = Some (h, None)"
    "ops \<noteq> [] \<Longrightarrow> \<exists>e. end_transaction h2 later = Some (h\<lparr>hi_undo_stack := hi_undo_stack h @ [e], hi_redo_stack := []\<rparr>, Some e) \<and>
      he_id e = fst (tick clock) \<and> he_edits e = ops \<and> he_first_edit_at e = now \<and> he_last_edit_at e = later"
    using transaction_correct [OF True assms, where start = start and now = now and clock = clock and later = later] by metis
  show ?thesis by (cases "ops = []") (use True t in simp_all)
qed (use nested_transaction in simp)

definition sample_edit_op :: operation where
  "sample_edit_op = EditOp \<lparr>eo_timestamp = Lamport 4 (ReplicaId 1), eo_version = global_new, eo_ranges = [], eo_new_text = []\<rparr>"

definition sample_recorded :: history where
  "sample_recorded = the (history_push sample_history sample_edit_op)"

lemma sample_recorded_edit: "recorded_edit sample_recorded (Lamport 4 (ReplicaId 1))" "hi_transaction_depth sample_recorded = 0"
proof -
  have "shallow (map_new :: (lamport, operation) tree_map)" by (simp add: map_new_def shallow_def tree_new_def STACK_CAPACITY_def)
  from map_insert_correct [OF map_ok_new this, of "Lamport 4 (ReplicaId 1)" sample_edit_op] obtain m where
    m: "map_insert map_new (Lamport 4 (ReplicaId 1)) sample_edit_op = Some m" "map_ok m"
      "contents m (Lamport 4 (ReplicaId 1)) = Some sample_edit_op" by auto
  then have h: "sample_recorded = sample_history\<lparr>hi_operations := m\<rparr>"
    by (simp add: sample_recorded_def history_push_def sample_history_def history_new_def sample_edit_op_def operation_timestamp_def)
  from m show "recorded_edit sample_recorded (Lamport 4 (ReplicaId 1))"
    by (simp add: h recorded_edit_def map_get_correct sample_edit_op_def)
  show "hi_transaction_depth sample_recorded = 0" by (simp add: h sample_history_def history_new_def)
qed

theorem history_transactions_witness:
  "\<exists>h1 h2 e. start_transaction sample_recorded global_new 5000 (Lamport 9 (ReplicaId 0)) = (h1, Lamport 10 (ReplicaId 0), Some (Lamport 9 (ReplicaId 0))) \<and>
     push_undos h1 [Lamport 4 (ReplicaId 1)] = Some h2 \<and> map_option snd (end_transaction h2 5100) = Some (Some e) \<and> he_edits e = [Lamport 4 (ReplicaId 1)]"
  using history_transactions [of "[Lamport 4 (ReplicaId 1)]" sample_recorded global_new 5000 "Lamport 9 (ReplicaId 0)" 5100]
    sample_recorded_edit by (auto simp: tick_def)

text \<open>
  (functional): grouping merges the longest run of newest entries in which each starts within the group
  interval of the end of the one before, stopping at a finalised entry; the merged entry keeps the
  identity of the oldest of them and has the edits of all in order. Grouping down to a
  transaction never changes the sequence of edits to undo or the entries to redo.
\<close>

theorem history_grouping:
  assumes "hi_undo_stack h \<noteq> []"
  shows "(\<exists>a e b e'. hi_undo_stack h = a @ e # b \<and> history_group h = Some (h\<lparr>hi_undo_stack := a @ [e']\<rparr>, Some (he_id e)) \<and>
      he_id e' = he_id e \<and> he_edits e' = stack_edits (e # b) \<and> close_run (hi_group_interval h) (e # b) \<and>
      (a = [] \<or> \<not> close_run (hi_group_interval h) (last a # e # b))) \<and>
    (\<exists>h'. group_until h t = Some h' \<and> stack_edits (hi_undo_stack h') = stack_edits (hi_undo_stack h) \<and>
      hi_redo_stack h' = hi_redo_stack h)"
proof
  show "\<exists>a e b e'. hi_undo_stack h = a @ e # b \<and> history_group h = Some (h\<lparr>hi_undo_stack := a @ [e']\<rparr>, Some (he_id e)) \<and>
      he_id e' = he_id e \<and> he_edits e' = stack_edits (e # b) \<and> close_run (hi_group_interval h) (e # b) \<and>
      (a = [] \<or> \<not> close_run (hi_group_interval h) (last a # e # b))"
    by (rule history_group_correct [OF assms]) blast
  show "\<exists>h'. group_until h t = Some h' \<and> stack_edits (hi_undo_stack h') = stack_edits (hi_undo_stack h) \<and>
      hi_redo_stack h' = hi_redo_stack h"
    by (rule group_until_correct [of h t]) blast
qed

section \<open>Line endings\<close>

text \<open>
  C38 (roundtrip): normalised text has no carriage returns and normalising it again changes nothing. Reading
  the chunks of a rope of such text with a line ending returns, without a panic, the text with every line feed
  replaced by the ending, which normalises back to the text.
\<close>

theorem line_endings_convert:
  assumes "rope_ok r" and "shallow r" and "rope_str r = normalize cs"
  shows "carriage_return \<notin> set (normalize cs) \<and> normalize (normalize cs) = normalize cs \<and>
    (\<exists>ps. chunks_with_line_ending r e = Some ps \<and> concat ps = replace_newlines (line_ending_str e) (normalize cs) \<and>
       normalize (concat ps) = normalize cs)"
proof -
  note no = normalize_no_return [of cs]
  obtain ps where ps: "chunks_with_line_ending r e = Some ps" "concat ps = replace_newlines (line_ending_str e) (normalize cs)"
    using chunks_with_line_ending_correct [OF assms(1,2), of e] no by (auto simp: assms(3))
  moreover have "normalize (concat ps) = normalize cs"
    using ps(2) normalize_replace [OF no] normalize_fix [OF no]
    by (cases e) (simp_all add: line_ending_str_def replace_newlines_same)
  ultimately show ?thesis using no normalize_fix [OF no] by blast
qed

theorem line_endings_convert_witness:
  "\<exists>ps. chunks_with_line_ending sample_rope Windows = Some ps \<and> concat ps = [97, 13, 10, 0x1F600, 98]"
proof -
  have n: "normalize [97, 13, 0x1F600, 98] = sample" by (simp add: sample_def carriage_return_def newline_char_def)
  with line_endings_convert [OF sample_rope_facts(1,3), of "[97, 13, 0x1F600, 98]" Windows] sample_rope_facts(2) show ?thesis
    by (auto simp: sample_def newline_char_def carriage_return_def line_ending_str_def)
qed

end
