(* ===== verification/Buffer_State.thy ===== *)
theory Buffer_State
  imports Buffer_Apply
begin

text \<open>
  The invariant of a snapshot: its tree of fragments, its ropes, its index of insertions and its slices all
  describe one document. A local edit keeps it.
\<close>

section \<open>The bytes of a document\<close>

text \<open>A byte is known by the edit that inserted it and its offset in the text of that edit.\<close>

definition cell_bytes :: "cell \<Rightarrow> insertion_key list" where
  "cell_bytes c = map (Pair (cl_timestamp c)) [cl_offset c..<cl_offset c + len_utf8 (cl_char c)]"

definition doc_bytes :: "cell list \<Rightarrow> insertion_key list" where
  "doc_bytes d = concat (map cell_bytes d)"

lemma doc_bytes_simps [simp]:
  "doc_bytes [] = []" "doc_bytes (c # d) = cell_bytes c @ doc_bytes d" "doc_bytes (a @ b) = doc_bytes a @ doc_bytes b"
  by (simp_all add: doc_bytes_def)

lemma upt_split: "[i..<i + (a + b)] = [i..<i + a] @ [i + a..<i + a + b]"
  using upt_add_eq_append [of i "i + a" b] by (simp add: add.assoc)

lemma doc_bytes_cells [simp]: "doc_bytes (cells f i t) = map (Pair (fr_timestamp f)) [i..<i + str_len t]"
  by (induction t arbitrary: i) (simp_all add: cell_bytes_def upt_split)

lemma doc_bytes_inserted [simp]: "doc_bytes (inserted ts i cs) = map (Pair ts) [i..<i + str_len cs]"
  by (induction cs arbitrary: i) (simp_all add: cell_bytes_def upt_split)

lemma doc_bytes_mark [simp]: "cell_bytes (mark ts c) = cell_bytes c" "doc_bytes (map (mark ts) d) = doc_bytes d"
proof -
  show *: "cell_bytes (mark ts c) = cell_bytes c" for c by (simp add: cell_bytes_def mark_def)
  show "doc_bytes (map (mark ts) d) = doc_bytes d" by (induction d) (simp_all add: *)
qed

lemma doc_bytes_after:
  "mset (doc_bytes (after ts i parts)) = mset (doc_bytes (before parts)) + mset (map (Pair ts) [i..<i + inserted_len parts])"
proof (induction ts i parts rule: after.induct)
  case (2 ts i kept removed new parts)
  have "mset (map (Pair ts) [i..<i + inserted_len ((kept, removed, new) # parts)]) =
      mset (map (Pair ts) [i..<i + str_len new]) + mset (map (Pair ts) [i + str_len new..<i + str_len new + inserted_len parts])"
    by (simp only: inserted_len_simps snd_conv upt_split map_append mset_append)
  with 2 show ?case by (simp del: mset_map)
qed simp

lemma cell_byte: "0 < len_utf8 (cl_char c) \<Longrightarrow> (cl_timestamp c, cl_offset c) \<in> set (cell_bytes c)"
  by (auto simp: cell_bytes_def)

definition cell_key :: "cell \<Rightarrow> insertion_key" where
  "cell_key c = (cl_timestamp c, cl_offset c)"

lemma cell_key_byte: "cell_key c \<in> set (cell_bytes c)"
  using len_utf8_pos [of "cl_char c"] by (auto simp: cell_bytes_def cell_key_def)

lemma doc_bytes_timestamp: "b \<in> set (doc_bytes d) \<Longrightarrow> \<exists>c \<in> set d. fst b = cl_timestamp c"
  by (auto simp: doc_bytes_def cell_bytes_def)

lemma distinct_concat_keys:
  assumes "distinct (concat (map f xs))" and "\<forall>x \<in> set xs. g x \<in> set (f x)"
  shows "distinct (map g xs)"
  using assms by (induction xs) (auto, metis IntI UN_I empty_iff)

lemma piece_key_byte: "snd p \<noteq> [] \<Longrightarrow> piece_key p \<in> set (doc_bytes (piece_cells p))"
  using str_len_pos [of "snd p"] by (auto simp: piece_cells_def piece_key_def)

lemma doc_bytes_of: "doc_bytes (doc_of ps) = concat (map (doc_bytes \<circ> piece_cells) ps)"
  by (induction ps) simp_all

lemma distinct_piece_keys:
  assumes "distinct (doc_bytes (doc_of ps))" and "\<forall>p \<in> set ps. piece_ok p"
  shows "distinct (map piece_key ps)"
  using assms by (intro distinct_concat_keys [of "doc_bytes \<circ> piece_cells"]) (auto simp: doc_bytes_of piece_ok_def piece_key_byte)

text \<open>An edit with a new timestamp keeps the bytes apart.\<close>

lemma distinct_bytes_edit:
  assumes "distinct (doc_bytes (before parts @ gap))" and "\<forall>c \<in> set (before parts @ gap). cl_timestamp c \<noteq> ts"
  shows "distinct (doc_bytes (after ts 0 parts @ gap))"
proof -
  let ?new = "map (Pair ts) [0..<inserted_len parts]"
  have "mset (doc_bytes (after ts 0 parts @ gap)) = mset (doc_bytes (before parts @ gap) @ ?new)"
    using doc_bytes_after [of ts 0 parts] by simp
  moreover have "set (doc_bytes (before parts @ gap)) \<inter> set ?new = {}"
    using assms(2) doc_bytes_timestamp by fastforce
  then have "distinct (doc_bytes (before parts @ gap) @ ?new)"
    using assms(1) by (simp only: distinct_append distinct_map) (auto simp: inj_on_def)
  ultimately show ?thesis by (metis mset_eq_imp_distinct_iff)
qed

section \<open>The index of insertions\<close>

lemma insertion_key_least: "(lamport_MIN, 0) \<le> (k :: insertion_key)"
  using lamport_MIN_least by (cases k) (auto simp: less_eq_prod_def less_le)

interpretation ik: keyed_tree insertion_ops insertion_dim insertion_fragment_key
  by unfold_locales (simp_all add: insertion_ops_def insertion_dim_def summary_dim_def insertion_key_least)

definition insertions_hold :: "insertions \<Rightarrow> piece list \<Rightarrow> bool" where
  "insertions_hold t ps \<longleftrightarrow> wf_tree insertion_ops t \<and> keys_sorted insertion_fragment_key (flat t) \<and>
     set (flat t) = insertion_fragment_new ` fst ` set ps"

lemma insertion_key_new [simp]: "insertion_fragment_key (insertion_fragment_new f) = (fr_timestamp f, fr_insertion_offset f)"
  by (simp add: insertion_fragment_key_def insertion_fragment_new_def)

lemma piece_key_fragment: "piece_key p = (fr_timestamp (fst p), fr_insertion_offset (fst p))"
  by (simp add: piece_key_def)

lemma distinct_map_subseq: "subseq xs ys \<Longrightarrow> distinct (map g ys) \<Longrightarrow> distinct (map g xs)"
  by (auto simp: subseq_conv_nths nths_map [symmetric] intro: distinct_nthsI)

lemma keys_sorted_inj: "keys_sorted key xs \<Longrightarrow> x \<in> set xs \<Longrightarrow> y \<in> set xs \<Longrightarrow> key x = key y \<Longrightarrow> x = y"
  by (induction xs) (auto dest: less_imp_neq)

text \<open>New entries replace those of the old pieces at the same place.\<close>

lemma insertions_edit_ok:
  assumes old: "insertions_hold t ps" "shallow t" and dist: "distinct (map piece_key qs)"
    and rs: "subseq rs (map fst qs)" "fst ` set qs \<subseteq> set rs \<union> fst ` set ps"
    and keys: "piece_key ` set ps \<subseteq> piece_key ` set qs"
  shows "\<exists>t' removed. tree_edit insertion_ops insertion_dim insertion_fragment_key t (map insert_new rs) = Some (t', removed) \<and>
    insertions_hold t' qs"
proof -
  let ?k = "\<lambda>f. (fr_timestamp f, fr_insertion_offset f)"
  have wf: "wf_tree insertion_ops t" and srt: "keys_sorted insertion_fragment_key (flat t)"
    and entries: "set (flat t) = insertion_fragment_new ` fst ` set ps"
    using old(1) by (simp_all add: insertions_hold_def)
  have keyed: "ik.keyed t" using wf srt old(2) by (simp add: ik.keyed_def walkable_def keys_sorted_weak)
  have kq: "map piece_key qs = map ?k (map fst qs)" by (simp add: piece_key_def comp_def)
  have drs: "distinct (map ?k rs)" using distinct_map_subseq [OF rs(1)] dist unfolding kq by blast
  have injk: "inj_on ?k (fst ` set qs)" using dist unfolding kq distinct_map by simp
  have inj: "f = g" if "f \<in> fst ` set qs" "g \<in> fst ` set qs" "?k f = ?k g" for f g
    using inj_onD [OF injk that(3,1,2)] .
  have key_inj: "x = y" if "x \<in> set (flat t)" "y \<in> set (flat t)" "insertion_fragment_key x = insertion_fragment_key y" for x y
    using keys_sorted_inj [OF srt] that by blast
  have sub: "set rs \<subseteq> fst ` set qs" using rs(1) unfolding subseq_conv_nths by (metis set_map set_nths_subset)
  let ?es = "map insert_new rs"
  have ek: "map (edit_key insertion_fragment_key) ?es = map ?k rs" by (simp add: insert_new_def)
  have "distinct (map (edit_key insertion_fragment_key) ?es)" unfolding ek by (rule drs)
  note ses = distinct_sort_key_strict [OF this]
  have result: "{x \<in> set (flat t). insertion_fragment_key x \<notin> ?k ` set rs} \<union> insertion_fragment_new ` set rs = insertion_fragment_new ` fst ` set qs"
  proof (intro equalityI subsetI)
    fix x assume x: "x \<in> {x \<in> set (flat t). insertion_fragment_key x \<notin> ?k ` set rs} \<union> insertion_fragment_new ` set rs"
    show "x \<in> insertion_fragment_new ` fst ` set qs"
    proof (cases "x \<in> insertion_fragment_new ` set rs")
      case True
      then show ?thesis using sub by (auto simp: image_iff)
    next
      case False
      with x entries obtain p where p: "p \<in> set ps" "x = insertion_fragment_new (fst p)" "?k (fst p) \<notin> ?k ` set rs" by auto
      obtain q where q: "q \<in> set qs" "piece_key q = piece_key p" using imageI [OF p(1), of piece_key] keys by auto
      then have kk: "?k (fst q) = ?k (fst p)" by (simp add: piece_key_def)
      have "?k (fst q) \<in> ?k ` set rs" if "fst q \<in> set rs" using imageI [OF that, of ?k] .
      then have "fst q \<notin> set rs" using p(3) unfolding kk by blast
      with rs(2) q(1) have "fst q \<in> fst ` set ps" by auto
      then have "insertion_fragment_new (fst q) \<in> set (flat t)" unfolding entries by (rule imageI)
      moreover have "insertion_fragment_new (fst p) \<in> set (flat t)" using entries p(1) by auto
      ultimately have "insertion_fragment_new (fst q) = x"
        using kk p(2) by (intro key_inj) simp_all
      with q(1) show ?thesis by (auto simp: image_iff)
    qed
  next
    fix x assume "x \<in> insertion_fragment_new ` fst ` set qs"
    then obtain q where q: "q \<in> set qs" "x = insertion_fragment_new (fst q)" by auto
    show "x \<in> {x \<in> set (flat t). insertion_fragment_key x \<notin> ?k ` set rs} \<union> insertion_fragment_new ` set rs"
    proof (cases "fst q \<in> set rs")
      case False
      have "?k (fst q) \<notin> ?k ` set rs"
      proof
        assume "?k (fst q) \<in> ?k ` set rs"
        then obtain r where r: "r \<in> set rs" "?k (fst q) = ?k r" by auto
        with inj [of "fst q" r] sub q(1) False show False by auto
      qed
      moreover have "fst q \<in> fst ` set ps" using rs(2) q(1) False by auto
      ultimately show ?thesis using entries q(2) by auto
    qed (use q(2) in simp)
  qed
  show ?thesis
  proof (cases "rs = []")
    case True
    with result old wf srt show ?thesis by (simp add: tree_edit_def insertions_hold_def)
  next
    case False
    obtain t' where t': "tree_edit insertion_ops insertion_dim insertion_fragment_key t ?es =
          Some (t', list_edit_removed insertion_fragment_key (sort_key (edit_key insertion_fragment_key) ?es) (flat t))"
        "wf_tree insertion_ops t'" "flat t' = list_edit insertion_fragment_key (sort_key (edit_key insertion_fragment_key) ?es) (flat t)"
      using ik.tree_edit_correct [OF keyed, of ?es] False by auto
    have "edit_key insertion_fragment_key ` set ?es = ?k ` set rs" "{x. Insert x \<in> set ?es} = insertion_fragment_new ` set rs"
      by (auto simp: insert_new_def image_image)
    then have "set (flat t') = insertion_fragment_new ` fst ` set qs"
      unfolding t'(3) set_list_edit [OF srt ses] set_sort result [symmetric] by simp
    with t' list_edit_sorted [OF srt ses] show ?thesis by (simp add: insertions_hold_def)
  qed
qed

section \<open>The slices\<close>

definition covers :: "insertion_slice \<Rightarrow> insertion_key \<Rightarrow> bool" where
  "covers s k \<longleftrightarrow> sl_insertion_id s = fst k \<and> sl_start s \<le> snd k \<and> snd k < sl_end s"

definition cell_touched :: "lamport \<Rightarrow> cell \<Rightarrow> bool" where
  "cell_touched e c \<longleftrightarrow> cl_timestamp c = e \<or> e \<in> set (cl_deletions c)"

text \<open>
  Every part of the document that one of the edits inserted or deleted is in a slice, and a slice holds
  nothing else.
\<close>

definition slices_hold :: "lamport set \<Rightarrow> insertion_slice set \<Rightarrow> cell list \<Rightarrow> bool" where
  "slices_hold E S d \<longleftrightarrow>
     (\<forall>e \<in> E. \<forall>c \<in> set d. cell_touched e c \<longrightarrow> (\<exists>s \<in> S. sl_edit_id s = e \<and> covers s (cell_key c))) \<and>
     (\<forall>s \<in> S. (\<exists>c \<in> set d. covers s (cell_key c)) \<and> (\<forall>c \<in> set d. covers s (cell_key c) \<longrightarrow> cell_touched (sl_edit_id s) c))"

lemma cells_offset: "c \<in> set (cells f i t) \<Longrightarrow> i \<le> cl_offset c \<and> cl_offset c < i + str_len t"
proof (induction t arbitrary: i)
  case (Cons a t)
  then consider "cl_offset c = i" | "c \<in> set (cells f (i + len_utf8 a) t)" by auto
  then show ?case using len_utf8_pos [of a] Cons.IH [of "i + len_utf8 a"] by cases auto
qed simp

lemma piece_cell:
  assumes "c \<in> set (piece_cells q)" and "piece_ok q"
  shows "covers (slice_of ts (fst q)) (cell_key c)" and "cell_touched ts c \<longleftrightarrow> touched ts (fst q)"
  using assms cells_fields [of c] cells_offset [of c]
  by (auto simp: piece_cells_def covers_def slice_of_def cell_key_def piece_ok_def cell_touched_def touched_def)

lemma concat_one:
  assumes "distinct (concat (map f xs))" and "x \<in> set xs" and "y \<in> set xs" and "b \<in> set (f x)" and "b \<in> set (f y)"
  shows "x = y"
  using assms by (induction xs) auto

lemma covers_own:
  assumes "distinct (doc_bytes (doc_of qs))" and "q \<in> set qs" and "piece_ok q" and "c \<in> set (doc_of qs)"
    and "covers (slice_of ts (fst q)) (cell_key c)"
  shows "c \<in> set (piece_cells q)"
proof -
  obtain q' where q': "q' \<in> set qs" "c \<in> set (piece_cells q')" using assms(4) by (auto simp: doc_of_def)
  have "cell_key c \<in> set (doc_bytes (piece_cells q'))" using q'(2) cell_key_byte by (auto simp: doc_bytes_def)
  moreover have "cell_key c \<in> set (doc_bytes (piece_cells q))"
    using assms(3,5) by (cases "cell_key c") (auto simp: piece_cells_def covers_def slice_of_def piece_ok_def)
  ultimately have "q = q'" using concat_one [of "doc_bytes \<circ> piece_cells" qs q q'] assms(1,2) q'(1) by (simp add: doc_bytes_of)
  with q'(2) show ?thesis by simp
qed

text \<open>The cells of a document after an edit are those before it, or new.\<close>

lemma mark_fields [simp]: "cell_key (mark ts c) = cell_key c" "cl_timestamp (mark ts c) = cl_timestamp c"
  "e \<noteq> ts \<Longrightarrow> cell_touched e (mark ts c) \<longleftrightarrow> cell_touched e c" "cell_touched e c \<Longrightarrow> cell_touched e (mark ts c)"
  by (auto simp: mark_def cell_key_def cell_touched_def)

lemma inserted_fields: "c \<in> set (inserted ts i cs) \<Longrightarrow> cl_timestamp c = ts \<and> cl_deletions c = [] \<and> cl_visible c"
  by (induction cs arbitrary: i) auto

lemma after_cells:
  assumes "c \<in> set (after ts i parts)"
  obtains c' where "c' \<in> set (before parts)" and "c = c' \<or> c = mark ts c'"
    | "cl_timestamp c = ts" and "cl_deletions c = []" and "cl_visible c"
  using assms by (induction ts i parts arbitrary: thesis rule: after.induct) (auto dest: inserted_fields)

lemma after_keeps: "c \<in> set (before parts) \<Longrightarrow> \<exists>c' \<in> set (after ts i parts). cell_key c' = cell_key c"
proof (induction parts arbitrary: i rule: before.induct)
  case (2 kept removed new parts)
  then consider "c \<in> set kept" | "c \<in> set removed" | "c \<in> set (before parts)" by auto
  then show ?case
  proof cases
    case 2
    then have "mark ts c \<in> set (after ts i ((kept, removed, new) # parts))" by simp
    then show ?thesis by (rule bexI [rotated]) simp
  next
    case 3
    with "2.IH" [of "i + str_len new"] show ?thesis by auto
  qed auto
qed simp

lemma slices_edit_ok:
  assumes hold: "slices_hold E S (before parts @ gap)" and doc: "doc_of qs = after ts 0 parts @ gap"
    and fresh: "\<forall>c \<in> set (before parts @ gap). \<not> cell_touched ts c"
    and dist: "distinct (doc_bytes (doc_of qs))" and ok: "\<forall>q \<in> set qs. piece_ok q"
    and S': "S' = S \<union> slice_of ts ` {f \<in> fst ` set qs. touched ts f}"
  shows "slices_hold (insert ts E) S' (doc_of qs)"
proof -
  have from_old: "(\<exists>c' \<in> set (before parts @ gap). c = c' \<or> c = mark ts c') \<or> (cl_timestamp c = ts \<and> cl_deletions c = [])"
    if "c \<in> set (doc_of qs)" for c
    using that unfolding doc by (auto elim: after_cells)
  have a: "\<exists>s \<in> S'. sl_edit_id s = e \<and> covers s (cell_key c)" if e: "e \<in> insert ts E" and c: "c \<in> set (doc_of qs)" and t: "cell_touched e c" for e c
  proof (cases "e = ts")
    case True
    obtain q where q: "q \<in> set qs" "c \<in> set (piece_cells q)" using c by (auto simp: doc_of_def)
    with ok True t piece_cell [of c q ts] have "touched ts (fst q)" "covers (slice_of ts (fst q)) (cell_key c)" by auto
    moreover from this(1) q(1) have "slice_of ts (fst q) \<in> S'" by (simp add: S')
    ultimately show ?thesis using True by (intro bexI [of _ "slice_of ts (fst q)"]) (simp_all add: slice_of_def)
  next
    case False
    with t from_old [OF c] obtain c' where c': "c' \<in> set (before parts @ gap)" "c = c' \<or> c = mark ts c'"
      by (auto simp: cell_touched_def)
    then have "cell_touched e c'" "cell_key c = cell_key c'" using t False by auto
    moreover have "e \<in> E" using e False by simp
    ultimately obtain s where "s \<in> S" "sl_edit_id s = e" "covers s (cell_key c')" using hold c'(1) unfolding slices_hold_def by blast
    with \<open>cell_key c = cell_key c'\<close> show ?thesis by (auto simp: S')
  qed
  have b: "(\<exists>c \<in> set (doc_of qs). covers s (cell_key c)) \<and> (\<forall>c \<in> set (doc_of qs). covers s (cell_key c) \<longrightarrow> cell_touched (sl_edit_id s) c)"
    if s: "s \<in> S'" for s
  proof (cases "s \<in> S")
    case True
    then obtain c0 where c0: "c0 \<in> set (before parts @ gap)" "covers s (cell_key c0)"
      and own: "\<And>c. c \<in> set (before parts @ gap) \<Longrightarrow> covers s (cell_key c) \<Longrightarrow> cell_touched (sl_edit_id s) c"
      using hold unfolding slices_hold_def by blast
    obtain c1 where "c1 \<in> set (doc_of qs)" "cell_key c1 = cell_key c0"
      using c0(1) after_keeps [of c0 parts ts 0] unfolding doc by auto
    moreover have "cell_touched (sl_edit_id s) c" if "c \<in> set (doc_of qs)" "covers s (cell_key c)" for c
    proof -
      have "cl_timestamp c \<noteq> ts"
        using that(2) c0 fresh by (auto simp: covers_def cell_key_def cell_touched_def)
      with from_old [OF that(1)] obtain c' where "c' \<in> set (before parts @ gap)" "c = c' \<or> c = mark ts c'" by blast
      with own [of c'] that(2) show ?thesis by auto
    qed
    ultimately show ?thesis using c0(2) by (intro conjI bexI [of _ c1]) auto
  next
    case False
    then obtain q where q: "q \<in> set qs" "touched ts (fst q)" "s = slice_of ts (fst q)" using s by (auto simp: S')
    then have okq: "piece_ok q" using ok by blast
    have ne: "piece_cells q \<noteq> []" using okq by (simp add: piece_cells_def piece_ok_def)
    then have hd: "hd (piece_cells q) \<in> set (piece_cells q)" by simp
    then have "hd (piece_cells q) \<in> set (doc_of qs)" using q(1) by (auto simp: doc_of_def)
    moreover have "covers s (cell_key (hd (piece_cells q)))" using piece_cell(1) [OF hd okq] q(3) by simp
    moreover have "cell_touched (sl_edit_id s) c" if "c \<in> set (doc_of qs)" "covers s (cell_key c)" for c
      using covers_own [OF dist q(1) okq that(1)] that(2) q(2,3) piece_cell(2) [of c q ts] okq by (simp add: slice_of_def)
    ultimately show ?thesis by blast
  qed
  from a b show ?thesis unfolding slices_hold_def by blast
qed

section \<open>The invariant\<close>

definition slice_set :: "buffer_snapshot \<Rightarrow> insertion_slice set" where
  "slice_set sn = dom (contents (sn_insertion_slices sn))"

text \<open>The snapshot holds the pieces, and its slices those of the edits in a set.\<close>

definition snapshot_holds :: "lamport set \<Rightarrow> buffer_snapshot \<Rightarrow> piece list \<Rightarrow> bool" where
  "snapshot_holds E sn ps \<longleftrightarrow>
     wf_tree fragment_ops (sn_fragments sn) \<and> flat (sn_fragments sn) = map fst ps \<and> (\<forall>p \<in> set ps. piece_ok p) \<and>
     ids_bounded [] ps \<and> distinct (doc_bytes (doc_of ps)) \<and>
     rope_ok (sn_visible_text sn) \<and> rope_str (sn_visible_text sn) = doc_visible (doc_of ps) \<and>
     rope_ok (sn_deleted_text sn) \<and> rope_str (sn_deleted_text sn) = doc_deleted (doc_of ps) \<and>
     insertions_hold (sn_insertions sn) ps \<and> map_ok (sn_insertion_slices sn) \<and> slices_hold E (slice_set sn) (doc_of ps)"

text \<open>Its trees are within the height that cursors can walk.\<close>

definition snapshot_fits :: "buffer_snapshot \<Rightarrow> bool" where
  "snapshot_fits sn \<longleftrightarrow> shallow (sn_fragments sn) \<and> slices_fit (sn_visible_text sn) \<and> slices_fit (sn_deleted_text sn) \<and>
     shallow (sn_insertions sn) \<and> shallow (sn_insertion_slices sn)"

lemma snapshot_base: "snapshot_holds E sn ps \<Longrightarrow> snapshot_fits sn \<Longrightarrow> edit_base sn ps"
  by (simp add: snapshot_holds_def snapshot_fits_def edit_base_def walkable_def ropes_fit_def)

lemma fresh_cells:
  assumes "fresh ts ps" and "\<forall>p \<in> set ps. piece_ok p" and "c \<in> set (doc_of ps)"
  shows "\<not> cell_touched ts c" and "cl_timestamp c \<noteq> ts"
proof -
  obtain p where "p \<in> set ps" "c \<in> set (piece_cells p)" using assms(3) by (auto simp: doc_of_def)
  with assms(1,2) piece_cell(2) [of c p ts] show "\<not> cell_touched ts c" by (auto simp: fresh_def)
  then show "cl_timestamp c \<noteq> ts" by (simp add: cell_touched_def)
qed

lemma slices_extend_ok:
  assumes ok: "map_ok sl" and sh: "shallow sl" and dist: "distinct (map piece_key qs)"
    and ks: "ks = map (slice_of ts) (filter (touched ts) (map fst qs))"
  shows "\<exists>sl'. set_extend sl ks = Some sl' \<and> map_ok sl' \<and> dom (contents sl') = dom (contents sl) \<union> set ks"
proof (cases "ks = []")
  case True
  with ok show ?thesis by (simp add: set_extend_def map_extend_def tree_edit_def)
next
  case False
  have "distinct (map piece_key (filter (touched ts \<circ> fst) qs))" using dist by (rule distinct_map_filter)
  moreover have "ks = map (\<lambda>q. slice_of ts (fst q)) (filter (touched ts \<circ> fst) qs)" unfolding ks by (simp add: filter_map comp_def)
  ultimately have "distinct ks"
    by (auto simp: distinct_map inj_on_def slice_of_def piece_key_def)
  then have "distinct (map fst (map (\<lambda>k. (k, ())) ks))" by (simp add: comp_def)
  from map_extend_correct [OF ok sh this] False show ?thesis
    by (auto simp: set_extend_def dom_map_of_conv_image_fst image_image)
qed

lemma finish_edit_ok:
  assumes hold: "snapshot_holds E sn ps" and fits: "snapshot_fits sn" and fresh: "fresh ts ps"
    and inv: "edit_inv sn ps ts parts gap k [] qs s"
  obtains sn' qs' gap' where "finish_edit sn s = Some sn'" and "snapshot_holds (insert ts E) sn' qs'"
    and "doc_of ps = before parts @ gap'" and "doc_of qs' = after ts 0 parts @ gap'"
    and "explained (le_patch s) (doc_of ps) (doc_of qs')"
    and "sn_undo_map sn' = sn_undo_map sn" and "sn_version sn' = sn_version sn"
proof -
  note base = snapshot_base [OF hold fits]
  note h = hold [unfolded snapshot_holds_def] and f = fits [unfolded snapshot_fits_def]
  have k: "k \<le> length ps" using edit_inv_unfold(4) [OF inv] by (simp add: within_def)
  have walk: "walkable fragment_ops (sn_fragments sn)" using h f by (simp add: walkable_def)
  have ready: "cursor_ready fragment_ops fragment_text_dim (sn_fragments sn) k (le_old s)"
    using edit_inv_unfold(6) [OF inv] by (simp add: cursor_ready_def)
  obtain c u where c: "cursor_suffix fragment_ops fragment_text_dim (le_old s) = Some (c, u)"
      "cursor_at fragment_ops fragment_text_dim (sn_fragments sn) (length ps) c" "wf_tree fragment_ops u" "flat u = drop k (map fst ps)"
    using fragment_text_laws.cursor_suffix_correct [OF ready walk] h by auto
  have flat: "flat u = map fst (take (length ps - k) (drop k ps))" using c(4) by (simp add: drop_map)
  obtain s1 gap' where s1: "emit_tree u s = Some s1"
      and all: "\<And>v. edit_inv sn ps ts parts gap' (length ps) [] (qs @ take (length ps - k) (drop k ps)) (s1\<lparr>le_old := c, le_start := v\<rparr>)"
    by (rule copy_tree [OF base fresh inv c(3) flat k order_refl c(2)]) blast
  define qs' where "qs' = qs @ take (length ps - k) (drop k ps)"
  have patch: "le_patch s1 = le_patch s" using s1 by (auto simp: emit_tree_def split: bind_splits)
  note j = edit_inv_unfold [OF all [folded qs'_def]]
  have eh: "edit_holds (sn_visible_text sn) (sn_deleted_text sn) (fst ` set ps) (consumed ps (length ps) []) qs' s1"
    using j(7) by (simp add: edit_holds_def)
  have cons: "consumed ps (length ps) [] = doc_of ps" by (simp add: consumed_start)
  have "doc_inv ts parts gap' p q (s1\<lparr>le_old := c, le_start := v\<rparr>) = doc_inv ts parts gap' p q s1" for p q v
    by (simp add: doc_inv_def)
  then have "doc_inv ts parts gap' (doc_of ps) qs' s1" using j(2) unfolding cons by blast
  then have docs: "doc_of ps = before parts @ gap'" "doc_of qs' = after ts 0 parts @ gap'"
      "es_slices s1 = map (slice_of ts) (filter (touched ts) (map fst qs'))" "explained (le_patch s) (doc_of ps) (doc_of qs')"
    unfolding doc_inv_def patch by blast+
  have okq: "\<forall>q \<in> set qs'. piece_ok q" and ids: "ids_bounded [] qs'" using eh j(5) by (simp_all add: edit_holds_def ids_bounded_def)
  have fc: "\<forall>c \<in> set (before parts @ gap'). \<not> cell_touched ts c" "\<forall>c \<in> set (before parts @ gap'). cl_timestamp c \<noteq> ts"
    using fresh_cells [OF fresh] h unfolding docs(1) [symmetric] by blast+
  have dist: "distinct (doc_bytes (doc_of qs'))"
    unfolding docs(2) using h fc(2) unfolding docs(1) by (intro distinct_bytes_edit) blast+
  have keysd: "distinct (map piece_key qs')" by (rule distinct_piece_keys [OF dist okq])
  obtain rs where rs: "es_insertions s1 = map insert_new rs" "subseq rs (map fst qs')" "fst ` set qs' \<subseteq> set rs \<union> fst ` set ps"
    and ropes: "ropes_at (sn_visible_text sn) (sn_deleted_text sn) (es_ropes s1) (doc_visible (doc_of ps)) (doc_deleted (doc_of ps))
        (doc_visible (doc_of qs')) (doc_deleted (doc_of qs'))"
    and builder: "builder_holds (es_fragments s1) (map fst qs')"
    using eh unfolding edit_holds_def cons by blast
  have keys: "piece_key ` set ps \<subseteq> piece_key ` set qs'" using j(3) by (auto simp: keys_hold_def)
  obtain t where t: "to_sum_tree (es_fragments s1) = Some t" "wf_tree fragment_ops t" "flat t = map fst qs'"
    using to_sum_tree_ok [OF builder] by blast
  obtain nv nd where n: "ropes_finish (es_ropes s1) = Some (nv, nd)" "rope_ok nv" "rope_str nv = doc_visible (doc_of qs')"
      "rope_ok nd" "rope_str nd = doc_deleted (doc_of qs')"
    using ropes_finish_ok [OF _ ropes] base by (auto simp: edit_base_def)
  obtain ins removed where ins: "tree_edit insertion_ops insertion_dim insertion_fragment_key (sn_insertions sn) (es_insertions s1) = Some (ins, removed)"
      "insertions_hold ins qs'"
    using insertions_edit_ok [OF _ _ keysd rs(2,3) keys] h f unfolding rs(1) by blast
  obtain sl where sl: "set_extend (sn_insertion_slices sn) (es_slices s1) = Some sl" "map_ok sl"
      "dom (contents sl) = slice_set sn \<union> set (es_slices s1)"
    using slices_extend_ok [OF _ _ keysd docs(3)] h f unfolding slice_set_def by blast
  let ?sn = "sn\<lparr>sn_fragments := t, sn_insertions := ins, sn_visible_text := nv, sn_deleted_text := nd, sn_insertion_slices := sl\<rparr>"
  have "finish_edit sn s = Some ?sn" using c(1) s1 n(1) t(1) ins(1) sl(1) by (simp add: finish_edit_def)
  moreover have "slices_hold (insert ts E) (slice_set ?sn) (doc_of qs')"
  proof (rule slices_edit_ok [OF _ docs(2) fc(1) dist okq])
    show "slices_hold E (slice_set sn) (before parts @ gap')" using h unfolding docs(1) by blast
    show "slice_set ?sn = slice_set sn \<union> slice_of ts ` {f \<in> fst ` set qs'. touched ts f}"
      using sl(3) docs(3) by (auto simp: slice_set_def)
  qed
  then have "snapshot_holds (insert ts E) ?sn qs'"
    using t n ins(2) sl(2) okq ids dist by (simp add: snapshot_holds_def)
  ultimately show ?thesis using that docs by simp
qed

section \<open>A local edit\<close>

lemma snapshot_holds_more:
  assumes "snapshot_holds E sn ps" and "fresh ts ps"
  shows "snapshot_holds (insert ts E) sn ps"
proof -
  have "\<forall>c \<in> set (doc_of ps). \<not> cell_touched ts c"
    using fresh_cells(1) [OF assms(2)] assms(1) by (simp add: snapshot_holds_def)
  with assms(1) show ?thesis by (auto simp: snapshot_holds_def slices_hold_def)
qed

lemma apply_edit_ok:
  assumes hold: "snapshot_holds E sn ps" and fits: "snapshot_fits sn" and fresh: "fresh ts ps"
    and edits: "edits_on 0 (doc_visible (doc_of ps)) edits" and len: "new_text_len edits < 2 ^ 32"
  obtains sn' op patch qs parts rest where "apply_edit_internal sn edits ts = Some (sn', op, patch)"
    and "snapshot_holds (insert ts E) sn' qs" and "doc_of ps = before parts @ rest" and "doc_of qs = after ts 0 parts @ rest"
    and "visible_ranges 0 parts = normalized edits" and "op = \<lparr>eo_timestamp = ts, eo_version = sn_version sn,
      eo_ranges = full_ranges 0 parts, eo_new_text = map (normalize \<circ> snd) edits\<rparr>"
    and "explained patch (doc_of ps) (doc_of qs)" and "sn_undo_map sn' = sn_undo_map sn" and "sn_version sn' = sn_version sn"
proof (cases edits)
  case Nil
  show ?thesis
    using that [of sn _ patch_empty ps "[]" "doc_of ps"] Nil snapshot_holds_more [OF hold fresh]
    by (simp add: apply_edit_internal_def explained_def patch_empty_def)
next
  case (Cons e es)
  note base = snapshot_base [OF hold fits]
  have ids: "ids_bounded [] ps" using hold by (simp add: snapshot_holds_def)
  have i: "fst (fst e) \<le> str_len (doc_visible (doc_of ps))" using edits Cons by (cases e) auto
  obtain s gap k qs where s: "begin_edit sn (fst (fst e)) = Some s" "edit_inv sn ps ts [] gap k [] qs s" "start_at ps k [] s"
      "le_start s \<le> fst (fst e)" "op_recorded s []"
    by (rule begin_edit_ok [OF base fresh ids i])
  let ?a = "doc_visible (doc_of (take k ps))"
  obtain g x v' where gx: "doc_visible (doc_of ps) = g @ x @ v'" "fst (fst e) = str_len g" "snd (fst e) = str_len g + str_len x"
      "edits_on (snd (fst e)) v' es"
    using edits Cons by (cases e) auto
  have le: "le_start s = str_len ?a" using s(3) by (simp add: start_at_def consumed_start)
  have "?a @ doc_visible (doc_of (drop k ps)) = g @ x @ v'" and "str_len ?a \<le> str_len g"
    using gx(1,2) doc_of_simps(3) [of "take k ps" "drop k ps"] le s(4) by simp_all
  then obtain g' where g': "g = ?a @ g'" by (rule prefix_by_len)
  have start: "doc_visible (doc_of ps) = ?a @ g' @ x @ v'" "edits_on (str_len ?a) (g' @ x @ v') edits"
    using gx g' Cons by (cases e; force)+
  have "inserted_len [] + new_text_len edits < 2 ^ 32" using len by simp
  from apply_edits_ok [OF base fresh s(2,3,5) start(1) eq_refl [OF le] start(2) this]
  obtain s2 parts gap2 k2 t2 qs2 where s2: "apply_edits ts edits s = Some s2" "edit_inv sn ps ts parts gap2 k2 t2 qs2 s2"
      "start_at ps k2 t2 s2" "op_recorded s2 parts" "visible_ranges 0 parts = normalized edits" by auto
  obtain s3 gap3 qs3 where s3: "push_rest s2 = Some s3" "edit_inv sn ps ts parts gap3 (if t2 = [] then k2 else Suc k2) [] qs3 s3"
      "le_ranges s3 = le_ranges s2" "le_texts s3 = le_texts s2"
    by (rule push_rest_ok [OF base fresh s2(2,3)])
  obtain sn' qs' gap' where f: "finish_edit sn s3 = Some sn'" "snapshot_holds (insert ts E) sn' qs'"
      "doc_of ps = before parts @ gap'" "doc_of qs' = after ts 0 parts @ gap'" "explained (le_patch s3) (doc_of ps) (doc_of qs')"
      "sn_undo_map sn' = sn_undo_map sn" "sn_version sn' = sn_version sn"
    by (rule finish_edit_ok [OF hold fits fresh s3(2)])
  have news: "map (\<lambda>(_, _, new). new) parts = map snd (visible_ranges i parts)" for i
    by (induction i parts rule: visible_ranges.induct) (simp_all add: Let_def)
  have texts: "map (\<lambda>(_, _, new). new) parts = map (normalize \<circ> snd) edits"
    unfolding news [of 0] s2(5) by (simp add: normalized_def split_beta comp_def)
  have "apply_edit_internal sn edits ts = Some (sn', \<lparr>eo_timestamp = ts, eo_version = sn_version sn,
      eo_ranges = full_ranges 0 parts, eo_new_text = map (normalize \<circ> snd) edits\<rparr>, le_patch s3)"
    using s(1) s2(1,4) s3(1,3,4) f(1) texts Cons by (simp add: apply_edit_internal_def op_recorded_def del: apply_edits.simps)
  from that [OF this f(2-4) s2(5) refl f(5-7)] show ?thesis .
qed

text \<open>The text of the document: the ranges replaced one after another, as bytes.\<close>

fun splice_bytes :: "nat \<Rightarrow> nat list \<Rightarrow> ((nat \<times> nat) \<times> str) list \<Rightarrow> nat list" where
  "splice_bytes i b [] = b"
| "splice_bytes i b (((s, e), new) # es) = take (s - i) b @ as_bytes new @ splice_bytes e (drop (e - i) b) es"

lemma visible_after:
  "as_bytes (doc_visible (after ts j parts @ rest)) =
     splice_bytes i (as_bytes (doc_visible (before parts @ rest))) (visible_ranges i parts)"
  by (induction i parts arbitrary: j rule: visible_ranges.induct) (simp_all add: Let_def length_as_bytes)

section \<open>Undo operations and visibility\<close>

text \<open>A cell is visible where its insertion is not undone and all its deletions are.\<close>

definition undone_in :: "undo_map \<Rightarrow> lamport \<Rightarrow> bool" where
  "undone_in m e \<longleftrightarrow> Max (insert 0 (counts_for m e (\<lambda>_. True))) mod 2 = 1"

definition shown_in :: "undo_map \<Rightarrow> cell \<Rightarrow> bool" where
  "shown_in m c \<longleftrightarrow> \<not> undone_in m (cl_timestamp c) \<and> (\<forall>e \<in> set (cl_deletions c). undone_in m e)"

definition undo_holds :: "undo_map \<Rightarrow> cell list \<Rightarrow> bool" where
  "undo_holds m d \<longleftrightarrow> undo_ok m \<and> (\<forall>c \<in> set d. cl_visible c \<longleftrightarrow> shown_in m c)"

lemma undo_holds_edit:
  assumes "undo_holds m (before parts @ gap)" and "\<not> undone_in m ts"
  shows "undo_holds m (after ts i parts @ gap)"
proof -
  have marked: "cl_visible (mark ts c) \<longleftrightarrow> shown_in m (mark ts c)" if "cl_visible c \<longleftrightarrow> shown_in m c" for c
    using that assms(2) by (cases "cl_visible c") (simp_all add: mark_def shown_in_def)
  have "cl_visible c \<longleftrightarrow> shown_in m c" if "c \<in> set (after ts i parts)" for c
    using that
  proof (rule after_cells)
    fix c' assume c': "c' \<in> set (before parts)" "c = c' \<or> c = mark ts c'"
    then have "cl_visible c' \<longleftrightarrow> shown_in m c'" using assms(1) by (simp add: undo_holds_def)
    with c'(2) marked show ?thesis by blast
  next
    assume "cl_timestamp c = ts" "cl_deletions c = []" "cl_visible c"
    with assms(2) show ?thesis by (simp add: shown_in_def)
  qed
  with assms(1) show ?thesis by (auto simp: undo_holds_def)
qed

end
