(* ===== verification/Buffer_Undo.thy ===== *)
theory Buffer_Undo
  imports Buffer_State
begin

text \<open>
  The crate \<open>text\<close>, file \<open>text.rs\<close>: undoing edits. The slices of the edits lead to the entries of the index
  of insertions, these to the fragments; each of them becomes visible or deleted as the counts in the undo map
  say.
\<close>

section \<open>Finding the fragments\<close>

fun slices_for_edits :: "insertion_slice tree_set \<Rightarrow> lamport list \<Rightarrow> insertion_slice list option" where
  "slices_for_edits sls [] = Some []"
| "slices_for_edits sls (edit_id # edit_ids) = do {
     slices \<leftarrow> set_iter_from sls (InsertionSlice edit_id lamport_MIN 0 0);
     more \<leftarrow> slices_for_edits sls edit_ids;
     Some (takeWhile (\<lambda>slice. sl_edit_id slice = edit_id) slices @ more) }"

text \<open>The key slices are sorted by; \<open>Reverse\<close> is a negative number.\<close>

definition slice_order :: "insertion_slice \<Rightarrow> lamport \<times> nat \<times> int" where
  "slice_order s = (sl_insertion_id s, sl_start s, - int (sl_end s))"

partial_function (option) collect_ids ::
  "insertion_slice \<Rightarrow> (insertion_fragment, insertion_key, insertion_key) cursor \<Rightarrow> locator list \<Rightarrow>
   ((insertion_fragment, insertion_key, insertion_key) cursor \<times> locator list) option" where
  "collect_ids insertion_slice c fragment_ids = do {
     it \<leftarrow> cursor_item c;
     case it of
       None \<Rightarrow> Some (c, fragment_ids)
     | Some item \<Rightarrow>
         if if_timestamp item \<noteq> sl_insertion_id insertion_slice \<or> sl_end insertion_slice \<le> if_split_offset item
         then Some (c, fragment_ids)
         else do {
           c' \<leftarrow> cursor_next insertion_dim c;
           collect_ids insertion_slice c' (fragment_ids @ [if_fragment_id item]) } }"

declare collect_ids.simps [code]

fun slices_ids ::
  "insertion_slice list \<Rightarrow> (insertion_fragment, insertion_key, insertion_key) cursor \<Rightarrow> locator list \<Rightarrow> locator list option" where
  "slices_ids [] c fragment_ids = Some fragment_ids"
| "slices_ids (s # ss) c fragment_ids = do {
     c \<leftarrow> (if sl_insertion_id s \<noteq> fst (cu_position c) \<or> snd (cu_position c) < sl_start s
          then do { (c, _) \<leftarrow> cursor_seek_forward insertion_dim (key_target (sl_insertion_id s, sl_start s)) Left c; Some c }
          else Some c);
     (c, fragment_ids) \<leftarrow> collect_ids s c fragment_ids;
     slices_ids ss c fragment_ids }"

definition fragment_ids_for_edits :: "buffer_snapshot \<Rightarrow> lamport list \<Rightarrow> locator list option" where
  "fragment_ids_for_edits self edit_ids = do {
     insertion_slices \<leftarrow> slices_for_edits (sn_insertion_slices self) edit_ids;
     fragment_ids \<leftarrow> slices_ids (sort_key slice_order insertion_slices) (cursor_new insertion_dim (sn_insertions self)) [];
     Some (sort fragment_ids) }"

section \<open>Applying an undo operation\<close>

text \<open>\<open>Dimensions\<close>: two dimensions side by side; a target in the first is one in both.\<close>

definition both_dims :: "('s, 'a) dim_ops \<Rightarrow> ('s, 'b) dim_ops \<Rightarrow> ('s, 'a \<times> 'b) dim_ops" where
  "both_dims A B = \<lparr>dzero = (dzero A, dzero B), dadd = (\<lambda>(a, b) s. (dadd A a s, dadd B b s))\<rparr>"

definition first_target :: "('a \<Rightarrow> ordering) \<Rightarrow> 'a \<times> 'b \<Rightarrow> ordering" where
  "first_target tgt d = tgt (fst d)"

abbreviation undo_cursor_dim :: "(fragment_summary, locator option \<times> nat) dim_ops" where
  "undo_cursor_dim \<equiv> both_dims fragment_id_dim visible_dim"

record undo_state =
  us_old :: "(fragment, fragment_summary, locator option \<times> nat) cursor"
  us_fragments :: fragments
  us_ropes :: rope_builder
  us_patch :: patch

definition toggle :: "undo_map \<Rightarrow> lamport \<Rightarrow> fragment \<Rightarrow> fragment option" where
  "toggle undos timestamp f = do {
     v \<leftarrow> is_visible f undos;
     Some (f\<lparr>fr_visible := v, fr_max_undos := version_observe (fr_max_undos f) timestamp\<rparr>) }"

definition toggle_patch :: "nat \<Rightarrow> nat \<Rightarrow> bool \<Rightarrow> fragment \<Rightarrow> patch \<Rightarrow> patch" where
  "toggle_patch old_pos new_pos was_vis f p =
     (if was_vis \<and> \<not> fr_visible f then patch_push p (make_edit old_pos (old_pos + fr_len f) new_pos new_pos)
      else if \<not> was_vis \<and> fr_visible f then patch_push p (make_edit old_pos old_pos new_pos (new_pos + fr_len f))
      else p)"

definition undo_fragment :: "undo_map \<Rightarrow> lamport \<Rightarrow> locator \<Rightarrow> undo_state \<Rightarrow> undo_state option" where
  "undo_fragment undos timestamp fragment_id s = do {
     (c, preceding) \<leftarrow> cursor_slice fragment_ops undo_cursor_dim (first_target (key_target (Some fragment_id))) Left (us_old s);
     new_ropes \<leftarrow> ropes_append (us_ropes s) (fs_text (summary preceding));
     new_fragments \<leftarrow> tree_append fragment_ops (us_fragments s) preceding;
     it \<leftarrow> cursor_item c;
     case it of
       None \<Rightarrow> Some (s\<lparr>us_old := c, us_fragments := new_fragments, us_ropes := new_ropes\<rparr>)
     | Some f \<Rightarrow> do {
         f' \<leftarrow> toggle undos timestamp f;
         let new_start = fts_visible (fs_text (summary new_fragments));
         let edits = toggle_patch (snd (cu_position c)) new_start (fr_visible f) f' (us_patch s);
         new_ropes \<leftarrow> ropes_push_fragment new_ropes f' (fr_visible f);
         new_fragments \<leftarrow> tree_push fragment_ops new_fragments f';
         c \<leftarrow> cursor_next undo_cursor_dim c;
         Some \<lparr>us_old = c, us_fragments = new_fragments, us_ropes = new_ropes, us_patch = edits\<rparr> } }"

fun undo_fragments :: "undo_map \<Rightarrow> lamport \<Rightarrow> locator list \<Rightarrow> undo_state \<Rightarrow> undo_state option" where
  "undo_fragments undos timestamp [] s = Some s"
| "undo_fragments undos timestamp (fragment_id # fragment_ids) s = do {
     s \<leftarrow> undo_fragment undos timestamp fragment_id s;
     undo_fragments undos timestamp fragment_ids s }"

definition apply_undo :: "buffer_snapshot \<Rightarrow> undo_operation \<Rightarrow> (buffer_snapshot \<times> patch) option" where
  "apply_undo self undo = do {
     undos \<leftarrow> undo_map_insert (sn_undo_map self) undo;
     let self = self\<lparr>sn_undo_map := undos\<rparr>;
     visible_cursor \<leftarrow> rope_cursor_new (sn_visible_text self) 0;
     deleted_cursor \<leftarrow> rope_cursor_new (sn_deleted_text self) 0;
     fragment_ids \<leftarrow> fragment_ids_for_edits self (map fst (undo_counts undo));
     s \<leftarrow> undo_fragments undos (undo_timestamp undo) fragment_ids
            \<lparr>us_old = cursor_new undo_cursor_dim (sn_fragments self), us_fragments = tree_new fragment_ops,
              us_ropes = rope_builder_new visible_cursor deleted_cursor, us_patch = patch_empty\<rparr>;
     (_, suffix) \<leftarrow> cursor_suffix fragment_ops undo_cursor_dim (us_old s);
     new_ropes \<leftarrow> ropes_append (us_ropes s) (fs_text (summary suffix));
     new_fragments \<leftarrow> tree_append fragment_ops (us_fragments s) suffix;
     (visible_text, deleted_text) \<leftarrow> ropes_finish new_ropes;
     Some (self\<lparr>sn_fragments := new_fragments, sn_visible_text := visible_text, sn_deleted_text := deleted_text\<rparr>, us_patch s) }"

section \<open>The fragments that edits touched\<close>

text \<open>The slices of an edit are a run in the order of slices.\<close>

lemma slice_least: "sl_edit_id s = e \<Longrightarrow> InsertionSlice e lamport_MIN 0 0 \<le> s"
  using lamport_MIN_least [of "sl_insertion_id s"]
  unfolding less_eq_insertion_slice_def slice_key_def by simp

lemma slice_edit_mono: "a \<le> b \<Longrightarrow> sl_edit_id a \<le> sl_edit_id b" for a b :: insertion_slice
  unfolding less_eq_insertion_slice_def slice_key_def by (simp only: less_eq_prod_simp) (blast intro: less_imp_le)

lemma slices_for_edits_ok:
  assumes ok: "map_ok sls" and sh: "shallow sls"
  shows "\<exists>ss. slices_for_edits sls es = Some ss \<and> set ss = {s \<in> dom (contents sls). sl_edit_id s \<in> set es}"
proof (induction es)
  case (Cons e es)
  let ?xs = "filter (\<lambda>x. InsertionSlice e lamport_MIN 0 0 \<le> me_key x) (flat sls)"
  let ?ys = "map fst (map pair_of ?xs)"
  have iter: "set_iter_from sls (InsertionSlice e lamport_MIN 0 0) = Some ?ys"
    using map_iter_from_correct [OF ok sh, of "InsertionSlice e lamport_MIN 0 0"] by (simp add: set_iter_from_def)
  have "keys_sorted (\<lambda>k. k) ?ys"
    using map_ok_sorted [OF ok] unfolding entry_key_sorted by (simp add: sorted_wrt_map sorted_wrt_filter pair_of_def)
  have low: "e \<le> sl_edit_id y" if "y \<in> set ?ys" for y
    using that slice_edit_mono [of "InsertionSlice e lamport_MIN 0 0" y] by (auto simp: pair_of_def)
  have "takeWhile (\<lambda>y. sl_edit_id y = e) ?ys = takeWhile (\<lambda>y. sl_edit_id y \<le> e) ?ys"
    using low by (intro takeWhile_cong) (auto dest: order_antisym)
  also have "\<dots> = filter (\<lambda>y. sl_edit_id y \<le> e) ?ys"
    using \<open>keys_sorted (\<lambda>k. k) ?ys\<close> slice_edit_mono less_imp_le order_trans
    by (intro takeWhile_sorted_filter [where key = "\<lambda>k. k"]) blast+
  also have "\<dots> = filter (\<lambda>y. sl_edit_id y = e) ?ys"
    using low by (intro filter_cong) (auto dest: order_antisym)
  finally have run: "takeWhile (\<lambda>y. sl_edit_id y = e) ?ys = filter (\<lambda>y. sl_edit_id y = e) ?ys" .
  have dom: "k \<in> dom (contents sls) \<longleftrightarrow> k \<in> me_key ` set (flat sls)" for k
  proof -
    have "k \<in> dom (contents sls) \<longleftrightarrow> entry (k, ()) \<in> set (flat sls)" using contents_iff [OF ok, of k "()"] by auto
    moreover have "entry (me_key x, ()) = x" for x :: "(insertion_slice, unit) map_entry"
      using entry_pair [of x] by (simp add: pair_of_def)
    moreover have "me_key (entry (k, ())) = k" by simp
    ultimately show ?thesis by (metis (mono_tags, lifting) image_iff)
  qed
  have "set (filter (\<lambda>y. sl_edit_id y = e) ?ys) = {s \<in> dom (contents sls). sl_edit_id s = e}"
    using slice_least by (auto simp: dom pair_of_def)
  with Cons iter run show ?case by auto
qed simp

text \<open>Reading the entries of a slice from the cursor on.\<close>

definition in_slice :: "insertion_slice \<Rightarrow> insertion_fragment \<Rightarrow> bool" where
  "in_slice s i \<longleftrightarrow> if_timestamp i = sl_insertion_id s \<and> if_split_offset i < sl_end s"

lemma collect_ids_ok:
  assumes "cursor_at insertion_ops insertion_dim t j c" and "walkable insertion_ops t"
  shows "\<exists>c'. collect_ids s c ids = Some (c', ids @ map if_fragment_id (takeWhile (in_slice s) (drop j (flat t)))) \<and>
    cursor_at insertion_ops insertion_dim t (j + length (takeWhile (in_slice s) (drop j (flat t)))) c'"
  using assms(1)
proof (induction "length (flat t) - j" arbitrary: j c ids)
  case 0
  have "wf_tree insertion_ops t" using assms(2) by (simp add: walkable_def)
  with cursor_item_at [OF 0(2)] 0 show ?case by (subst collect_ids.simps) simp
next
  case (Suc k)
  have wf: "wf_tree insertion_ops t" using assms(2) by (simp add: walkable_def)
  from Suc(2) have lt: "j < length (flat t)" by simp
  have "forward_start insertion_ops insertion_dim t (Suc j) c" using Suc(3) lt by (auto simp: forward_start_def)
  then obtain c' where c': "cursor_next insertion_dim c = Some c'" "cursor_at insertion_ops insertion_dim t (Suc j) c'"
    using ik.cursor_next_correct [OF _ assms(2)] by blast
  let ?i = "flat t ! j"
  have run: "collect_ids s c ids = (if in_slice s ?i then collect_ids s c' (ids @ [if_fragment_id ?i]) else Some (c, ids))"
    using cursor_item_at [OF Suc(3) wf] lt c'(1) by (subst collect_ids.simps) (auto simp: in_slice_def)
  have "k = length (flat t) - Suc j" using Suc(2) by simp
  from Suc(1) [OF this c'(2), of "ids @ [if_fragment_id ?i]"] show ?case
    using lt Suc(3) by (cases "in_slice s ?i") (auto simp: run Cons_nth_drop_Suc [symmetric])
qed

abbreviation covered :: "insertion_slice set \<Rightarrow> insertion_fragment \<Rightarrow> bool" where
  "covered S i \<equiv> \<exists>s \<in> S. covers s (insertion_fragment_key i)"

abbreviation slice_begin :: "insertion_slice \<Rightarrow> insertion_key" where
  "slice_begin s \<equiv> (sl_insertion_id s, sl_start s)"

text \<open>
  The entries read belong to the slices that are done; those passed over begin before all slices that are left.
\<close>

definition walked :: "insertion_fragment list \<Rightarrow> insertion_slice set \<Rightarrow> insertion_slice list \<Rightarrow> nat \<Rightarrow> bool" where
  "walked xs P rest j \<longleftrightarrow>
     (\<forall>x \<in> set (take j xs). covered P x \<or> (\<forall>s \<in> set rest. insertion_fragment_key x < slice_begin s)) \<and>
     (\<forall>x \<in> set (drop j xs). \<not> covered P x) \<and> (\<forall>p \<in> P. \<forall>s \<in> set rest. sl_insertion_id p \<le> sl_insertion_id s)"

lemma covers_begin: "covers s k \<Longrightarrow> slice_begin s \<le> k"
  by (cases k) (auto simp: covers_def)

lemma run_of_slice:
  assumes srt: "keys_sorted insertion_fragment_key xs" and low: "\<forall>x \<in> set xs. slice_begin s \<le> insertion_fragment_key x"
  shows "takeWhile (in_slice s) xs = filter (\<lambda>x. covers s (insertion_fragment_key x)) xs"
proof -
  have same: "in_slice s x \<longleftrightarrow> covers s (insertion_fragment_key x)" "in_slice s x \<longleftrightarrow> insertion_fragment_key x < (sl_insertion_id s, sl_end s)"
    if "x \<in> set xs" for x
  proof -
    have low': "sl_insertion_id s < if_timestamp x \<or> sl_insertion_id s = if_timestamp x \<and> sl_start s \<le> if_split_offset x"
      using bspec [OF low that] by (auto simp: insertion_fragment_key_def)
    then show "in_slice s x \<longleftrightarrow> covers s (insertion_fragment_key x)"
      by (auto simp: in_slice_def covers_def insertion_fragment_key_def)
    from low' show "in_slice s x \<longleftrightarrow> insertion_fragment_key x < (sl_insertion_id s, sl_end s)"
      by (auto simp: in_slice_def insertion_fragment_key_def)
  qed
  have "takeWhile (in_slice s) xs = takeWhile (\<lambda>x. insertion_fragment_key x < (sl_insertion_id s, sl_end s)) xs"
    by (rule takeWhile_cong) (simp_all add: same(2))
  also have "\<dots> = filter (\<lambda>x. insertion_fragment_key x < (sl_insertion_id s, sl_end s)) xs"
    by (rule takeWhile_sorted_filter [OF srt]) (rule less_trans)
  also have "\<dots> = filter (\<lambda>x. covers s (insertion_fragment_key x)) xs"
    by (rule filter_cong) (simp_all add: same [symmetric])
  finally show ?thesis .
qed

abbreviation ikey :: "insertion_fragment \<Rightarrow> insertion_key" where
  "ikey \<equiv> insertion_fragment_key"

lemma reach_slice:
  assumes t: "wf_tree insertion_ops t" "shallow t" "keys_sorted ikey (flat t)"
    and ready: "cursor_ready insertion_ops insertion_dim t j c" and w: "walked (flat t) P (s # rest) j"
    and stamp: "sl_insertion_id s \<noteq> lamport_MIN"
  shows "\<exists>c'. (if sl_insertion_id s \<noteq> fst (cu_position c) \<or> snd (cu_position c) < sl_start s
        then do { (c, _) \<leftarrow> cursor_seek_forward insertion_dim (key_target (slice_begin s)) Left c; Some c } else Some c) = Some c' \<and>
      cursor_at insertion_ops insertion_dim t (j + length (keys_before ikey (slice_begin s) (drop j (flat t)))) c'"
proof -
  let ?xs = "flat t" and ?k = "slice_begin s" and ?p = "cu_position c"
  have walk: "walkable insertion_ops t" using t by (simp add: walkable_def)
  have srt: "sorted (map ikey ?xs)" by (rule keys_sorted_weak [OF t(3)])
  have pos: "?p = position_of insertion_ops insertion_dim (take j ?xs)" by (rule cursor_ready_position [OF ready])
  have "sorted (map ikey (take j ?xs))" using srt by (simp add: take_map [symmetric] sorted_wrt_take)
  from ik.position_keys [OF this] have p: "?p = (if take j ?xs = [] then (lamport_MIN, 0) else ikey (last (take j ?xs)))"
    unfolding pos by (simp add: insertion_dim_def insertion_ops_def summary_dim_def)
  show ?thesis
  proof (cases "sl_insertion_id s \<noteq> fst ?p \<or> snd ?p < sl_start s")
    case True
    have "?p \<le> ?k"
    proof (cases "take j ?xs = []")
      case False
      then have x: "last (take j ?xs) \<in> set (take j ?xs)" by simp
      show ?thesis
      proof (cases "covered P (last (take j ?xs))")
        case c: True
        then obtain q where q: "q \<in> P" "sl_insertion_id q = fst ?p" using False by (auto simp: covers_def p)
        with w have "fst ?p \<le> sl_insertion_id s" by (auto simp: walked_def)
        with True show ?thesis by (cases ?p) auto
      next
        case nc: False
        with x w have "ikey (last (take j ?xs)) < ?k" by (auto simp: walked_def)
        with False show ?thesis by (simp add: p)
      qed
    qed (simp add: p insertion_key_least)
    then have "key_target ?k ?p \<noteq> Less" by (simp add: key_target_def not_less)
    with ik.cursor_seek_forward_correct [OF ready walk, of "key_target ?k" Left] ik.key_mono_target [OF srt, of ?k Left j]
      ik.key_seek_len [OF srt, of ?k j] True
    show ?thesis by (auto simp: pos)
  next
    case False
    then have le: "?k \<le> ?p" by (cases ?p) auto
    have ne: "take j ?xs \<noteq> []"
    proof
      assume "take j ?xs = []"
      then have "?p = (lamport_MIN, 0)" using p by simp
      with False stamp show False by simp
    qed
    then have "0 < j" by (cases j) auto
    with ready have at: "cursor_at insertion_ops insertion_dim t j c" by (auto simp: cursor_ready_def)
    have "keys_sorted ikey (take j ?xs @ drop j ?xs)" using t(3) by simp
    then have "ikey (last (take j ?xs)) < ikey x" if "x \<in> set (drop j ?xs)" for x
      using that last_in_set [OF ne] unfolding sorted_wrt_append by blast
    moreover have "?k \<le> ikey (last (take j ?xs))" using le ne by (simp add: p)
    ultimately have low: "?k \<le> ikey x" if "x \<in> set (drop j ?xs)" for x
      using that by (meson le_less_trans less_imp_le)
    have "keys_before ikey ?k (drop j ?xs) = []"
      unfolding keys_before_def takeWhile_eq_Nil_iff using low [OF hd_in_set] leD by blast
    with at False show ?thesis by auto
  qed
qed

lemma walked_step:
  assumes srt: "keys_sorted ikey xs" and w: "walked xs P (s # rest) j" and order: "\<forall>r \<in> set rest. slice_begin s \<le> slice_begin r"
    and i: "i = j + length (keys_before ikey (slice_begin s) (drop j xs))" and ys: "ys = takeWhile (in_slice s) (drop i xs)"
  shows "walked xs (insert s P) rest (i + length ys)"
    and "filter (covered (insert s P)) (take (i + length ys) xs) = filter (covered P) (take j xs) @ ys"
proof -
  let ?k = "slice_begin s" and ?bs = "keys_before ikey (slice_begin s) (drop j xs)"
  have bs: "take (length ?bs) (drop j xs) = ?bs" unfolding keys_before_def by (rule takeWhile_eq_take [symmetric])
  have ti: "take i xs = take j xs @ ?bs" unfolding i take_add bs ..
  have di: "drop i xs = keys_from ikey ?k (drop j xs)"
    unfolding keys_from_drop i by (simp add: add.commute)
  have "keys_sorted ikey (drop j xs)" using srt by (rule sorted_wrt_drop)
  note before = keys_before_iff [OF this] and from_k = keys_from_iff [OF this]
  have sdi: "keys_sorted ikey (drop i xs)" using srt by (rule sorted_wrt_drop)
  have run: "ys = filter (\<lambda>x. covers s (ikey x)) (drop i xs)"
    unfolding ys by (rule run_of_slice [OF sdi]) (simp add: di from_k)
  have tys: "take (length ys) (drop i xs) = ys" unfolding ys by (rule takeWhile_eq_take [symmetric])
  have t2: "take (i + length ys) xs = take j xs @ ?bs @ ys" unfolding take_add tys ti by simp
  have d2: "set (drop (i + length ys) xs) \<subseteq> set (drop i xs)" by (simp add: set_drop_subset_set_drop)
  have not_s: "\<not> covers s (ikey x)" if "ikey x < ?k" for x using covers_begin [of s "ikey x"] that by (auto dest: leD)
  have early: "\<not> covers s (ikey x)" if "x \<in> set (take j xs)" "\<not> covered P x" for x
    using w that not_s by (auto simp: walked_def)
  have later: "\<not> covered P x" if "x \<in> set (drop j xs)" for x using w that by (simp add: walked_def)
  have dij: "set (drop i xs) \<subseteq> set (drop j xs)" unfolding i by (simp add: set_drop_subset_set_drop)
  have rest_drop: "\<not> covers s (ikey x)" if "x \<in> set (drop (i + length ys) xs)" for x
  proof
    assume c: "covers s (ikey x)"
    have "drop i xs = ys @ drop (i + length ys) xs" using append_take_drop_id [of "length ys" "drop i xs"] by (simp add: tys add.commute)
    then have "filter (\<lambda>x. covers s (ikey x)) (drop i xs) =
        filter (\<lambda>x. covers s (ikey x)) ys @ filter (\<lambda>x. covers s (ikey x)) (drop (i + length ys) xs)"
      by (metis filter_append)
    moreover have "filter (\<lambda>x. covers s (ikey x)) ys = ys" unfolding run by simp
    ultimately have "filter (\<lambda>x. covers s (ikey x)) (drop (i + length ys) xs) = []" using run by simp
    with that c show False by (simp add: filter_empty_conv)
  qed
  show "filter (covered (insert s P)) (take (i + length ys) xs) = filter (covered P) (take j xs) @ ys"
  proof -
    have "filter (covered (insert s P)) (take j xs) = filter (covered P) (take j xs)"
      using early by (intro filter_cong) auto
    moreover have "filter (covered (insert s P)) ?bs = []"
      using later not_s before by (auto simp: filter_empty_conv)
    moreover have "filter (covered (insert s P)) ys = ys" unfolding run filter_filter by (rule filter_cong) auto
    ultimately show ?thesis unfolding t2 by simp
  qed
  have "covered (insert s P) x \<or> (\<forall>r \<in> set rest. ikey x < slice_begin r)" if "x \<in> set (take (i + length ys) xs)" for x
  proof -
    from that consider "x \<in> set (take j xs)" | "x \<in> set ?bs" | "x \<in> set ys" unfolding t2 by auto
    then show ?thesis
    proof cases
      case 1
      with w show ?thesis by (auto simp: walked_def)
    next
      case 2
      then have "ikey x < ?k" using before by blast
      with order show ?thesis by (meson less_le_trans)
    next
      case 3
      then show ?thesis by (auto simp: run)
    qed
  qed
  moreover have "\<not> covered (insert s P) x" if "x \<in> set (drop (i + length ys) xs)" for x
    using rest_drop [OF that] later [of x] that d2 dij by auto
  moreover have "sl_insertion_id p \<le> sl_insertion_id r" if "p \<in> insert s P" "r \<in> set rest" for p r
    using that w order by (auto simp: walked_def)
  ultimately show "walked xs (insert s P) rest (i + length ys)" unfolding walked_def by blast
qed

lemma slices_ids_ok:
  assumes t: "wf_tree insertion_ops t" "shallow t" "keys_sorted ikey (flat t)"
  shows "cursor_ready insertion_ops insertion_dim t j c \<Longrightarrow> walked (flat t) P ss j \<Longrightarrow> sorted_wrt (\<lambda>a b. slice_begin a \<le> slice_begin b) ss \<Longrightarrow>
    \<forall>s \<in> set ss. sl_insertion_id s \<noteq> lamport_MIN \<Longrightarrow> ids = map if_fragment_id (filter (covered P) (take j (flat t))) \<Longrightarrow>
    slices_ids ss c ids = Some (map if_fragment_id (filter (covered (P \<union> set ss)) (flat t)))"
proof (induction ss arbitrary: j c P ids)
  case Nil
  have "filter (covered P) (drop j (flat t)) = []" using Nil.prems(2) by (simp add: walked_def filter_empty_conv)
  then have "filter (covered P) (take j (flat t)) = filter (covered P) (flat t)"
    using filter_append [of "covered P" "take j (flat t)" "drop j (flat t)"] by simp
  with Nil.prems(5) show ?case by simp
next
  case (Cons s ss)
  have walk: "walkable insertion_ops t" using t by (simp add: walkable_def)
  let ?i = "j + length (keys_before ikey (slice_begin s) (drop j (flat t)))"
  let ?ys = "takeWhile (in_slice s) (drop ?i (flat t))"
  have stamp: "sl_insertion_id s \<noteq> lamport_MIN" and order: "\<forall>r \<in> set ss. slice_begin s \<le> slice_begin r"
    using Cons.prems(3,4) by simp_all
  from reach_slice [OF t Cons.prems(1,2) stamp] obtain c1 where
    c1: "(if sl_insertion_id s \<noteq> fst (cu_position c) \<or> snd (cu_position c) < sl_start s
        then do { (c, _) \<leftarrow> cursor_seek_forward insertion_dim (key_target (slice_begin s)) Left c; Some c } else Some c) = Some c1"
      "cursor_at insertion_ops insertion_dim t ?i c1" by blast
  from collect_ids_ok [OF c1(2) walk, of s ids] obtain c2 where
    c2: "collect_ids s c1 ids = Some (c2, ids @ map if_fragment_id ?ys)" "cursor_at insertion_ops insertion_dim t (?i + length ?ys) c2" by blast
  note step = walked_step [OF t(3) Cons.prems(2) order refl refl]
  have "slices_ids ss c2 (ids @ map if_fragment_id ?ys) =
      Some (map if_fragment_id (filter (covered (insert s P \<union> set ss)) (flat t)))"
  proof (rule Cons.IH [OF _ step(1)])
    show "cursor_ready insertion_ops insertion_dim t (?i + length ?ys) c2" using c2(2) by (simp add: cursor_ready_def)
    show "ids @ map if_fragment_id ?ys = map if_fragment_id (filter (covered (insert s P)) (take (?i + length ?ys) (flat t)))"
      unfolding step(2) using Cons.prems(5) by simp
  qed (use Cons.prems(3,4) in auto)
  with c1(1) c2(1) show ?case by simp
qed

text \<open>Together they are the identifiers, in order, of the fragments that the edits inserted or deleted.\<close>

lemma piece_first_cell:
  assumes "piece_ok p"
  obtains c where "c \<in> set (piece_cells p)" and "cell_key c = piece_key p"
proof (cases "snd p")
  case (Cons a as)
  then show ?thesis using that [of "hd (piece_cells p)"] by (simp add: piece_cells_def cell_key_def piece_key_def)
qed (use assms in \<open>simp add: piece_ok_def\<close>)

lemma covered_touched:
  assumes hold: "snapshot_holds E sn ps" and es: "set es \<subseteq> E" and p: "p \<in> set ps"
  shows "covered {s \<in> slice_set sn. sl_edit_id s \<in> set es} (insertion_fragment_new (fst p)) \<longleftrightarrow> (\<exists>e \<in> set es. touched e (fst p))"
proof -
  have ok: "piece_ok p" and sl: "slices_hold E (slice_set sn) (doc_of ps)" using hold p by (simp_all add: snapshot_holds_def)
  obtain c where c: "c \<in> set (piece_cells p)" "cell_key c = piece_key p" by (rule piece_first_cell [OF ok])
  have cd: "c \<in> set (doc_of ps)" using c(1) p by (auto simp: doc_of_def)
  have key: "ikey (insertion_fragment_new (fst p)) = cell_key c" by (simp add: c(2) piece_key_def)
  show ?thesis unfolding key piece_cell(2) [OF c(1) ok, symmetric]
  proof
    assume "\<exists>s \<in> {s \<in> slice_set sn. sl_edit_id s \<in> set es}. covers s (cell_key c)"
    then obtain s where "s \<in> slice_set sn" "sl_edit_id s \<in> set es" "covers s (cell_key c)" by blast
    with sl cd show "\<exists>e \<in> set es. cell_touched e c" unfolding slices_hold_def by blast
  next
    assume "\<exists>e \<in> set es. cell_touched e c"
    then obtain e where e: "e \<in> set es" "e \<in> E" "cell_touched e c" using es by blast
    with sl cd obtain s where "s \<in> slice_set sn" "sl_edit_id s = e" "covers s (cell_key c)" unfolding slices_hold_def by blast
    with e(1) show "\<exists>s \<in> {s \<in> slice_set sn. sl_edit_id s \<in> set es}. covers s (cell_key c)" by blast
  qed
qed

lemma set_filter_image:
  assumes "set xs = g ` h ` set ps" and "\<And>p. p \<in> set ps \<Longrightarrow> C (g (h p)) \<longleftrightarrow> T p" and "\<And>a. f (g a) = k a"
  shows "set (map f (filter C xs)) = set (map (\<lambda>p. k (h p)) (filter T ps))"
proof -
  have "set (map f (filter C xs)) = f ` {x \<in> g ` h ` set ps. C x}" by (simp add: assms(1))
  also have "{x \<in> g ` h ` set ps. C x} = g ` h ` {p \<in> set ps. C (g (h p))}" by auto
  also have "f ` \<dots> = (\<lambda>p. k (h p)) ` {p \<in> set ps. C (g (h p))}" by (simp add: image_image assms(3))
  also have "{p \<in> set ps. C (g (h p))} = {p \<in> set ps. T p}" using assms(2) by blast
  finally show ?thesis by simp
qed

lemma slice_order_begin: "slice_order a \<le> slice_order b \<Longrightarrow> slice_begin a \<le> slice_begin b"
  by (auto simp: slice_order_def)

lemma slices_not_empty: "slices_hold E S d \<Longrightarrow> s \<in> S \<Longrightarrow> \<exists>c \<in> set d. covers s (cell_key c)"
  by (simp add: slices_hold_def)

lemma fragment_ids_ok:
  assumes hold: "snapshot_holds E sn ps" and fits: "snapshot_fits sn" and es: "set es \<subseteq> E"
    and stamps: "\<forall>p \<in> set ps. fr_timestamp (fst p) \<noteq> lamport_MIN"
  shows "fragment_ids_for_edits sn es = Some (map piece_id (filter (\<lambda>p. \<exists>e \<in> set es. touched e (fst p)) ps))"
proof -
  note h = hold [unfolded snapshot_holds_def] and f = fits [unfolded snapshot_fits_def]
  let ?t = "sn_insertions sn"
  have t: "wf_tree insertion_ops ?t" "shallow ?t" "keys_sorted ikey (flat ?t)" and entries: "set (flat ?t) = insertion_fragment_new ` fst ` set ps"
    using h f by (simp_all add: insertions_hold_def)
  have sl: "slices_hold E (slice_set sn) (doc_of ps)" using h by blast
  obtain ss where ss: "slices_for_edits (sn_insertion_slices sn) es = Some ss" "set ss = {s \<in> slice_set sn. sl_edit_id s \<in> set es}"
    using slices_for_edits_ok [of "sn_insertion_slices sn" es] h f unfolding slice_set_def by blast
  let ?ss = "sort_key slice_order ss"
  have "sorted (map slice_order ?ss)" by simp
  then have order: "sorted_wrt (\<lambda>a b. slice_begin a \<le> slice_begin b) ?ss"
    unfolding sorted_map by (rule sorted_wrt_mono_rel [rotated]) (rule slice_order_begin)
  have "sl_insertion_id s \<noteq> lamport_MIN" if s: "s \<in> set ss" for s
  proof -
    obtain c where c: "c \<in> set (doc_of ps)" "covers s (cell_key c)" using slices_not_empty [OF sl, of s] s ss(2) by auto
    then obtain p where p: "p \<in> set ps" "c \<in> set (piece_cells p)" by (auto simp: doc_of_def)
    from p(2) have "cl_timestamp c = fr_timestamp (fst p)" unfolding piece_cells_def using cells_fields by blast
    with stamps c(2) p(1) show ?thesis by (simp add: covers_def cell_key_def)
  qed
  then have "slices_ids ?ss (cursor_new insertion_dim ?t) [] = Some (map if_fragment_id (filter (covered ({} \<union> set ?ss)) (flat ?t)))"
    using order by (intro slices_ids_ok [OF t ik.cursor_new_ready]) (simp_all add: walked_def)
  then have ids: "slices_ids ?ss (cursor_new insertion_dim ?t) [] = Some (map if_fragment_id (filter (covered (set ss)) (flat ?t)))" by simp
  let ?T = "\<lambda>p. \<exists>e \<in> set es. touched e (fst p)"
  let ?is = "map if_fragment_id (filter (covered (set ss)) (flat ?t))" and ?js = "map piece_id (filter ?T ps)"
  have strict: "sorted_wrt (<) (map piece_id ps)" using h by (auto simp: ids_bounded_def sorted_wrt_append)
  then have js: "sorted_wrt (<) ?js" unfolding sorted_wrt_map by (rule sorted_wrt_filter)
  have inj: "inj_on piece_id (set ps)" using strict by (simp add: strict_sorted_iff distinct_map)
  have "distinct ?is"
  proof -
    have "distinct (map ikey (flat ?t))" using t(3) by (simp add: strict_sorted_iff flip: sorted_wrt_map)
    then have "distinct (flat ?t)" by (simp add: distinct_map)
    moreover have "inj_on if_fragment_id (set (flat ?t))"
      using inj unfolding entries by (force simp: inj_on_def insertion_fragment_new_def)
    ultimately show ?thesis by (simp add: distinct_map inj_on_def)
  qed
  moreover have "set ?is = set ?js"
    using covered_touched [OF hold es] unfolding ss(2) [symmetric]
    by (intro set_filter_image [OF entries]) (simp_all add: insertion_fragment_new_def)
  ultimately have "sort ?is = ?js"
    using js by (intro sorted_distinct_set_unique) (simp_all add: strict_sorted_iff)
  with ss(1) ids show ?thesis by (simp add: fragment_ids_for_edits_def)
qed

end
