(* ===== verification/Buffer_Toggle.thy ===== *)
theory Buffer_Toggle
  imports Buffer_Undo
begin

text \<open>
  An undo operation on the document of a buffer: the cells of the edits it counts are shown or hidden as the
  new counts say, and nothing else changes.
\<close>

section \<open>Visibility by the counts\<close>

lemma is_undone_ok: "undo_ok m \<Longrightarrow> shallow m \<Longrightarrow> is_undone m e = Some (undone_in m e)"
  by (simp add: is_undone_def undo_count_correct undone_in_def)

lemma all_undone_ok: "undo_ok m \<Longrightarrow> shallow m \<Longrightarrow> all_undone m ds = Some (\<forall>e \<in> set ds. undone_in m e)"
  by (induction ds) (simp_all add: is_undone_ok)

definition fragment_shown :: "undo_map \<Rightarrow> fragment \<Rightarrow> bool" where
  "fragment_shown m f \<longleftrightarrow> \<not> undone_in m (fr_timestamp f) \<and> (\<forall>e \<in> set (fr_deletions f). undone_in m e)"

lemma is_visible_ok: "undo_ok m \<Longrightarrow> shallow m \<Longrightarrow> is_visible f m = Some (fragment_shown m f)"
  by (simp add: is_visible_def is_undone_ok all_undone_ok fragment_shown_def)

definition toggled :: "undo_map \<Rightarrow> lamport \<Rightarrow> fragment \<Rightarrow> fragment" where
  "toggled m ts f = f\<lparr>fr_visible := fragment_shown m f, fr_max_undos := version_observe (fr_max_undos f) ts\<rparr>"

lemma toggle_ok: "undo_ok m \<Longrightarrow> shallow m \<Longrightarrow> toggle m ts f = Some (toggled m ts f)"
  by (simp add: toggle_def is_visible_ok toggled_def)

lemma toggled_fields [simp]:
  "fr_id (toggled m ts f) = fr_id f" "fr_timestamp (toggled m ts f) = fr_timestamp f" "fr_len (toggled m ts f) = fr_len f"
  "fr_insertion_offset (toggled m ts f) = fr_insertion_offset f" "fr_deletions (toggled m ts f) = fr_deletions f"
  "fr_visible (toggled m ts f) = fragment_shown m f"
  by (simp_all add: toggled_def)

text \<open>The pieces and the cells that edits touched, toggled.\<close>

definition touched_by :: "lamport list \<Rightarrow> fragment \<Rightarrow> bool" where
  "touched_by es f \<longleftrightarrow> (\<exists>e \<in> set es. touched e f)"

definition undo_piece :: "undo_map \<Rightarrow> lamport \<Rightarrow> lamport list \<Rightarrow> piece \<Rightarrow> piece" where
  "undo_piece m ts es p = (if touched_by es (fst p) then (toggled m ts (fst p), snd p) else p)"

definition undo_cell :: "undo_map \<Rightarrow> lamport \<Rightarrow> lamport list \<Rightarrow> cell \<Rightarrow> cell" where
  "undo_cell m ts es c = (if \<exists>e \<in> set es. cell_touched e c
     then c\<lparr>cl_visible := shown_in m c, cl_max_undos := version_observe (cl_max_undos c) ts\<rparr> else c)"

lemma undo_cells:
  "map (undo_cell m ts es) (cells f i t) = cells (if touched_by es f then toggled m ts f else f) i t"
  by (induction t arbitrary: i)
    (auto simp: undo_cell_def touched_by_def touched_def cell_touched_def toggled_def shown_in_def fragment_shown_def)

lemma undo_piece_cells: "piece_cells (undo_piece m ts es p) = map (undo_cell m ts es) (piece_cells p)"
  by (auto simp: piece_cells_def undo_cells undo_piece_def)

lemma undo_piece_doc: "doc_of (map (undo_piece m ts es) ps) = map (undo_cell m ts es) (doc_of ps)"
  by (induction ps) (simp_all add: undo_piece_cells)

lemma undo_piece_fields [simp]: "snd (undo_piece m ts es p) = snd p" "piece_id (undo_piece m ts es p) = piece_id p"
  "piece_ok (undo_piece m ts es p) = piece_ok p"
  "insertion_fragment_new (fst (undo_piece m ts es p)) = insertion_fragment_new (fst p)"
  by (simp_all add: undo_piece_def piece_ok_def insertion_fragment_new_def)

lemma undo_cell_fields [simp]: "cell_key (undo_cell m ts es c) = cell_key c" "cell_bytes (undo_cell m ts es c) = cell_bytes c"
  "cell_touched e (undo_cell m ts es c) = cell_touched e c" "cl_char (undo_cell m ts es c) = cl_char c"
  "shown_in m' (undo_cell m ts es c) = shown_in m' c"
  by (simp_all add: undo_cell_def cell_key_def cell_bytes_def cell_touched_def shown_in_def)

section \<open>The cursor\<close>

lemma both_dims_laws: "dimension_laws ops A \<Longrightarrow> dimension_laws ops B \<Longrightarrow> dimension_laws ops (both_dims A B)"
  by (simp add: dimension_laws_def dimension_laws_axioms_def both_dims_def split_beta)

interpretation undo_cursor_laws: dimension_laws fragment_ops undo_cursor_dim
  by (rule both_dims_laws [OF fragment_id_laws.dimension_laws_axioms visible_laws.dimension_laws_axioms])

definition undo_pos :: "piece list \<Rightarrow> locator option \<times> nat" where
  "undo_pos ps = (if ps = [] then None else Some (piece_id (last ps)), str_len (doc_visible (doc_of ps)))"

lemma undo_cursor_pos:
  assumes "\<forall>p \<in> set ps. piece_ok p"
  shows "foldl (dadd undo_cursor_dim) (dzero undo_cursor_dim) (map (ssummary fragment_ops) (map fst ps)) = undo_pos ps"
  using assms
proof (induction ps rule: rev_induct)
  case (snoc p ps)
  then show ?case using piece_text [of p]
    by (simp add: both_dims_def undo_pos_def fragment_id_dim_def visible_dim_def fragment_ops_simps)
qed (simp add: both_dims_def undo_pos_def fragment_id_dim_def visible_dim_def)

lemma undo_cursor_position:
  assumes "\<forall>p \<in> set ps. piece_ok p"
  shows "position_of fragment_ops undo_cursor_dim (take k (map fst ps)) = undo_pos (take k ps)"
  using undo_cursor_pos [of "take k ps"] assms set_take_subset [of k ps] by (auto simp: position_of_def take_map)

lemma undo_ends:
  assumes "\<forall>p \<in> set ps. piece_ok p" and "k + i < length ps"
  shows "ends undo_cursor_dim (undo_pos (take k ps)) (map (ssummary fragment_ops) (drop k (map fst ps))) ! i =
    undo_pos (take (Suc (k + i)) ps)"
proof -
  have ok: "\<forall>p \<in> set (take n ps). piece_ok p" for n using assms(1) by (meson in_set_takeD)
  from undo_cursor_pos [OF ok, of k] undo_cursor_pos [OF ok, of "Suc (k + i)"] assms(2) take_add [of k "Suc i" ps] show ?thesis
    by (simp add: nth_ends take_map drop_map)
qed

text \<open>A slice up to the identifier of a later piece takes the pieces before it.\<close>

lemma slice_to_id:
  assumes base: "edit_base sn ps" and ids: "sorted_wrt (<) (map piece_id ps)"
    and ready: "cursor_ready fragment_ops undo_cursor_dim (sn_fragments sn) k c" and ps: "drop k ps = as @ p # bs" and k: "k \<le> length ps"
  obtains c' u where "cursor_slice fragment_ops undo_cursor_dim (first_target (key_target (Some (piece_id p)))) Left c = Some (c', u)"
    and "cursor_at fragment_ops undo_cursor_dim (sn_fragments sn) (k + length as) c'" and "wf_tree fragment_ops u"
    and "flat u = map fst as" and "cu_position c' = undo_pos (take (k + length as) ps)"
proof -
  have b: "walkable fragment_ops (sn_fragments sn)" "flat (sn_fragments sn) = map fst ps" "\<forall>p \<in> set ps. piece_ok p"
    using base by (simp_all add: edit_base_def)
  let ?D = undo_cursor_dim and ?p = "undo_pos (take k ps)" and ?ss = "map (ssummary fragment_ops) (drop k (map fst ps))"
    and ?tgt = "first_target (key_target (Some (piece_id p))) :: locator option \<times> nat \<Rightarrow> ordering"
  let ?m = "seek_len ?D ?tgt Left ?p ?ss" and ?n = "k + length as"
  have pos: "cu_position c = ?p" using cursor_ready_position [OF ready] b(2) undo_cursor_position [OF b(3)] by simp
  have len: "length ps = ?n + Suc (length bs)" using ps k by (metis add.assoc append_take_drop_id length_append length_Cons length_take min.absorb2)
  have at: "ps ! ?n = p" using ps k by (metis add.commute nth_append_length nth_drop)
  have lt: "piece_id (ps ! i) < piece_id (ps ! j)" if "i < j" "j < length ps" for i j
    using ids that by (simp add: sorted_wrt_iff_nth_less)
  have less: "piece_id (ps ! i) < piece_id p \<longleftrightarrow> i < ?n" if "i < length ps" for i
    using lt [of i ?n] lt [of ?n i] at len that by (cases i ?n rule: linorder_cases) auto
  have past: "seek_past Left (?tgt (ends ?D ?p ?ss ! i)) \<longleftrightarrow> i < length as" if "i < length ?ss" for i
  proof -
    have i: "k + i < length ps" using that by simp
    have "last (take (Suc (k + i)) ps) = ps ! (k + i)" using i by (simp add: take_Suc_conv_app_nth)
    with undo_ends [OF b(3) i] less [OF i] i show ?thesis
      by (auto simp: first_target_def key_target_def cmp_def seek_past_def undo_pos_def)
  qed
  have mono: "mono_target ?D ?tgt Left ?p ?ss"
    unfolding mono_target_def sorted_wrt_iff_nth_less
    using past by (metis (no_types, lifting) length_ends less_trans)
  have "?tgt ?p \<noteq> Less"
  proof (cases "take k ps = []")
    case False
    then have "0 < k" "last (take k ps) = ps ! (k - 1)" using k by (auto simp: last_conv_nth min_def)
    moreover from this have "piece_id (ps ! (k - 1)) < piece_id p" using less [of "k - 1"] len by simp
    ultimately show ?thesis using False by (auto simp: first_target_def key_target_def cmp_def undo_pos_def dest: less_asym)
  qed (simp add: first_target_def key_target_def cmp_def undo_pos_def)
  moreover have m: "?m = length as"
  proof -
    have "\<not> ?m < length as" using seek_len_stops [of ?D ?tgt Left ?p ?ss] past [of ?m] len by force
    moreover have "\<not> length as < ?m"
      using seek_len_past [of "length as" ?D ?tgt Left ?p ?ss] past [of "length as"] seek_len_le [of ?D ?tgt Left ?p ?ss] by force
    ultimately show ?thesis by simp
  qed
  ultimately obtain c' u where c': "cursor_slice fragment_ops ?D ?tgt Left c = Some (c', u)" "cursor_at fragment_ops ?D (sn_fragments sn) ?n c'"
      "wf_tree fragment_ops u" "flat u = take (length as) (drop k (map fst ps))"
    using undo_cursor_laws.cursor_slice_correct [OF ready b(1), of ?tgt Left ?n] mono pos b(2) by auto
  have "cu_position c' = undo_pos (take ?n ps)" using c'(2) b(2) undo_cursor_position [OF b(3), of ?n] by (simp add: cursor_at_def)
  with that c' ps show ?thesis by (simp add: drop_map take_map)
qed

section \<open>The loop\<close>

lemma explained_same: "explained e p q \<Longrightarrow> doc_visible x = doc_visible y \<Longrightarrow> explained e (p @ x) (q @ y)"
  using explained_gap [of e p q x] by (simp add: explained_def)

lemma toggle_patch_ok:
  assumes "explained e p q" and "fr_len f = str_len t" and "fr_len g = str_len t"
  shows "explained (toggle_patch (str_len (doc_visible p)) (str_len (doc_visible q)) (fr_visible f) g e)
    (p @ piece_cells (f, t)) (q @ piece_cells (g, t))"
proof -
  have x: "doc_visible (piece_cells (f, t)) = (if fr_visible f then t else [])" "doc_visible (piece_cells (g, t)) = (if fr_visible g then t else [])"
    by (simp_all add: piece_cells_def)
  from explained_step [OF assms(1), of "piece_cells (f, t)" "piece_cells (g, t)"] explained_same [OF assms(1), of "piece_cells (f, t)" "piece_cells (g, t)"]
  show ?thesis by (cases "fr_visible f"; cases "fr_visible g") (simp_all add: toggle_patch_def assms x)
qed

definition undo_at :: "buffer_snapshot \<Rightarrow> piece list \<Rightarrow> nat \<Rightarrow> piece list \<Rightarrow> undo_state \<Rightarrow> bool" where
  "undo_at sn ps k qs s \<longleftrightarrow>
     cursor_ready fragment_ops undo_cursor_dim (sn_fragments sn) k (us_old s) \<and> k \<le> length ps \<and>
     wf_tree fragment_ops (us_fragments s) \<and> flat (us_fragments s) = map fst qs \<and> (\<forall>q \<in> set qs. piece_ok q) \<and>
     ropes_at (sn_visible_text sn) (sn_deleted_text sn) (us_ropes s) (doc_visible (doc_of (take k ps))) (doc_deleted (doc_of (take k ps)))
       (doc_visible (doc_of qs)) (doc_deleted (doc_of qs)) \<and>
     explained (us_patch s) (doc_of (take k ps)) (doc_of qs)"

lemma tree_text:
  assumes "wf_tree fragment_ops u" and "flat u = map fst xs" and "\<forall>x \<in> set xs. piece_ok x"
  shows "fs_text (summary u) = doc_text (doc_of xs)"
  using fragments.wf_summary [OF assms(1)] sum_of_text [OF assms(3), of "szero fragment_ops"]
  by (simp add: assms(2) sum_of_def fragment_ops_simps text_summary_add_def doc_text_def)

text \<open>Copying the pieces up to a later one: the tree and the ropes.\<close>

lemma undo_copy:
  assumes base: "edit_base sn ps" and at: "undo_at sn ps k qs s" and u: "wf_tree fragment_ops u" "flat u = map fst as"
    and ps: "drop k ps = as @ bs"
  obtains ropes t where "ropes_append (us_ropes s) (fs_text (summary u)) = Some ropes"
    and "tree_append fragment_ops (us_fragments s) u = Some t" and "wf_tree fragment_ops t" and "flat t = map fst (qs @ as)"
    and "\<forall>q \<in> set (qs @ as). piece_ok q" and "take (k + length as) ps = take k ps @ as"
    and "ropes_at (sn_visible_text sn) (sn_deleted_text sn) ropes (doc_visible (doc_of (take k ps @ as))) (doc_deleted (doc_of (take k ps @ as)))
       (doc_visible (doc_of (qs @ as))) (doc_deleted (doc_of (qs @ as)))"
    and "explained (us_patch s) (doc_of (take k ps @ as)) (doc_of (qs @ as))"
proof -
  note a = at [unfolded undo_at_def]
  have split: "ps = take k ps @ as @ bs" by (metis append_take_drop_id ps)
  then have "doc_of ps = doc_of (take k ps @ as) @ doc_of bs" by (metis append.assoc doc_of_simps(3))
  with base have fit: "ropes_fit (sn_visible_text sn) (sn_deleted_text sn)"
    and strs: "rope_str (sn_visible_text sn) = doc_visible (doc_of (take k ps) @ doc_of as) @ doc_visible (doc_of bs)"
      "rope_str (sn_deleted_text sn) = doc_deleted (doc_of (take k ps) @ doc_of as) @ doc_deleted (doc_of bs)"
    by (simp_all add: edit_base_def)
  have ok: "\<forall>x \<in> set as. piece_ok x" using base split by (metis Un_iff edit_base_def set_append)
  obtain ropes where r: "ropes_append (us_ropes s) (doc_text (doc_of as)) = Some ropes"
      "ropes_at (sn_visible_text sn) (sn_deleted_text sn) ropes (doc_visible (doc_of (take k ps) @ doc_of as)) (doc_deleted (doc_of (take k ps) @ doc_of as))
         (doc_visible (doc_of qs) @ doc_visible (doc_of as)) (doc_deleted (doc_of qs) @ doc_deleted (doc_of as))"
    using ropes_append_ok [OF fit _ strs] a by blast
  obtain t where t: "tree_append fragment_ops (us_fragments s) u = Some t" "wf_tree fragment_ops t" "flat t = map fst qs @ map fst as"
    using fragments.tree_append_correct [OF _ u(1), of "us_fragments s"] u(2) a by auto
  have "take (k + length as) ps = take k ps @ as" using ps by (simp add: take_add)
  moreover have "explained (us_patch s) (doc_of (take k ps @ as)) (doc_of (qs @ as))"
    using a explained_gap [of "us_patch s" "doc_of (take k ps)" "doc_of qs" "doc_of as"] by simp
  ultimately show ?thesis using that [of ropes t] r t tree_text [OF u ok] a ok by auto
qed

lemma undo_fragment_ok:
  assumes base: "edit_base sn ps" and ids: "sorted_wrt (<) (map piece_id ps)" and m: "undo_ok m" "shallow m"
    and at: "undo_at sn ps k qs s" and ps: "drop k ps = as @ p # bs"
  shows "\<exists>s'. undo_fragment m ts (piece_id p) s = Some s' \<and>
    undo_at sn ps (Suc (k + length as)) (qs @ as @ [(toggled m ts (fst p), snd p)]) s'"
proof -
  note a = at [unfolded undo_at_def]
  have b: "walkable fragment_ops (sn_fragments sn)" "wf_tree fragment_ops (sn_fragments sn)" "flat (sn_fragments sn) = map fst ps"
      "\<forall>p \<in> set ps. piece_ok p" "ropes_fit (sn_visible_text sn) (sn_deleted_text sn)"
    using base by (simp_all add: edit_base_def walkable_def)
  let ?n = "k + length as" and ?f = "fst p" and ?g = "toggled m ts (fst p)" and ?t = "snd p"
  obtain c u where c: "cursor_slice fragment_ops undo_cursor_dim (first_target (key_target (Some (piece_id p)))) Left (us_old s) = Some (c, u)"
      "cursor_at fragment_ops undo_cursor_dim (sn_fragments sn) ?n c" "wf_tree fragment_ops u" "flat u = map fst as" "cu_position c = undo_pos (take ?n ps)"
    using slice_to_id [OF base ids _ ps] a by blast
  obtain ropes t where t: "ropes_append (us_ropes s) (fs_text (summary u)) = Some ropes"
      "tree_append fragment_ops (us_fragments s) u = Some t" "wf_tree fragment_ops t" "flat t = map fst (qs @ as)"
      "\<forall>q \<in> set (qs @ as). piece_ok q" "take ?n ps = take k ps @ as"
      "ropes_at (sn_visible_text sn) (sn_deleted_text sn) ropes (doc_visible (doc_of (take k ps @ as))) (doc_deleted (doc_of (take k ps @ as)))
         (doc_visible (doc_of (qs @ as))) (doc_deleted (doc_of (qs @ as)))"
      "explained (us_patch s) (doc_of (take k ps @ as)) (doc_of (qs @ as))"
    by (rule undo_copy [OF base at c(3,4) ps])
  have split: "ps = (take k ps @ as) @ p # bs" using append_take_drop_id [of k ps] ps by simp
  have len: "length (take k ps @ as) = ?n" using a by simp
  have n: "?n < length ps" "ps ! ?n = p" "take (Suc ?n) ps = take k ps @ as @ [p]" "p \<in> set ps"
    using arg_cong [OF split, of length] len split by (simp, metis len nth_append_length split, metis append.assoc append_Cons
      append_Nil append_eq_conv_conj len length_append_singleton, metis in_set_conv_decomp)
  have okp: "piece_ok p" using b(4) n(4) by blast
  then have fl: "fr_len ?f = str_len ?t" "0 < fr_len ?f" "piece_ok (?g, ?t)" using piece_len_pos [of p] by (auto simp: piece_ok_def)
  have item: "cursor_item c = Some (Some ?f)" using cursor_item_at [OF c(2) b(2)] b(3) n by simp
  have start: "fts_visible (fs_text (summary t)) = str_len (doc_visible (doc_of (qs @ as)))" "snd (cu_position c) = str_len (doc_visible (doc_of (take k ps @ as)))"
    using tree_text [OF t(3,4,5)] c(5) t(6) by (simp_all add: undo_pos_def)
  have "doc_of ps = doc_of (take k ps @ as) @ piece_cells p @ doc_of bs" using arg_cong [OF split, of doc_of] by simp
  with base have strs: "rope_str (sn_visible_text sn) = doc_visible (doc_of (take k ps @ as)) @ doc_visible (piece_cells p) @ doc_visible (doc_of bs)"
      "rope_str (sn_deleted_text sn) = doc_deleted (doc_of (take k ps @ as)) @ doc_deleted (piece_cells p) @ doc_deleted (doc_of bs)"
    by (simp_all add: edit_base_def)
  have pv: "doc_visible (piece_cells p) = (if fr_visible ?f then ?t else [])" "doc_deleted (piece_cells p) = (if fr_visible ?f then [] else ?t)"
      "doc_visible (piece_cells (?g, ?t)) = (if fragment_shown m ?f then ?t else [])" "doc_deleted (piece_cells (?g, ?t)) = (if fragment_shown m ?f then [] else ?t)"
    by (simp_all add: piece_cells_def)
  have "if fr_visible ?f then rope_str (sn_visible_text sn) = doc_visible (doc_of (take k ps @ as)) @ ?t @ doc_visible (doc_of bs)
      else rope_str (sn_deleted_text sn) = doc_deleted (doc_of (take k ps @ as)) @ ?t @ doc_deleted (doc_of bs)"
    using strs pv by simp
  from ropes_push_ok [OF b(5) t(7) this, of "fragment_shown m ?f"] obtain ropes' where
    r: "ropes_push ropes (str_len ?t) (fr_visible ?f) (fragment_shown m ?f) = Some ropes'"
      "ropes_at (sn_visible_text sn) (sn_deleted_text sn) ropes' (doc_visible (doc_of (take k ps @ as @ [p]))) (doc_deleted (doc_of (take k ps @ as @ [p])))
         (doc_visible (doc_of (qs @ as @ [(?g, ?t)]))) (doc_deleted (doc_of (qs @ as @ [(?g, ?t)])))"
    using pv by (cases "fr_visible ?f"; cases "fragment_shown m ?f") auto
  obtain t' where t': "tree_push fragment_ops t ?g = Some t'" "wf_tree fragment_ops t'" "flat t' = map fst (qs @ as @ [(?g, ?t)])"
    using fragments.tree_push_correct [OF t(3), of ?g] t(4) by auto
  have "forward_start fragment_ops undo_cursor_dim (sn_fragments sn) (Suc ?n) c" using c(2) n(1) b(3) by (auto simp: forward_start_def intro!: exI [of _ ?n])
  then obtain c' where c': "cursor_next undo_cursor_dim c = Some c'" "cursor_at fragment_ops undo_cursor_dim (sn_fragments sn) (Suc ?n) c'"
    using undo_cursor_laws.cursor_next_correct [OF _ b(1)] by blast
  let ?e = "toggle_patch (str_len (doc_visible (doc_of (take k ps @ as)))) (str_len (doc_visible (doc_of (qs @ as)))) (fr_visible ?f) ?g (us_patch s)"
  have "explained ?e (doc_of (take k ps @ as) @ piece_cells (?f, ?t)) (doc_of (qs @ as) @ piece_cells (?g, ?t))"
    using toggle_patch_ok [OF t(8), of ?f ?t ?g] fl(1) by simp
  then have e: "explained ?e (doc_of (take (Suc ?n) ps)) (doc_of (qs @ as @ [(?g, ?t)]))" by (simp add: n(3))
  have "undo_fragment m ts (piece_id p) s = Some \<lparr>us_old = c', us_fragments = t', us_ropes = ropes', us_patch = ?e\<rparr>"
    using c(1) t(1,2) item toggle_ok [OF m, of ts ?f] start r(1) t'(1) c'(1) fl
    by (simp add: undo_fragment_def ropes_push_fragment_def bind_require Let_def)
  moreover have "undo_at sn ps (Suc ?n) (qs @ as @ [(?g, ?t)]) \<lparr>us_old = c', us_fragments = t', us_ropes = ropes', us_patch = ?e\<rparr>"
    using c'(2) n(1) t'(2,3) t(5) fl(3) r(2) e unfolding undo_at_def by (simp add: cursor_ready_def n(3) del: doc_of_simps doc_simps)
  ultimately show ?thesis by blast
qed

lemma undo_fragments_ok:
  assumes base: "edit_base sn ps" and ids: "sorted_wrt (<) (map piece_id ps)" and m: "undo_ok m" "shallow m"
  shows "undo_at sn ps k (map (undo_piece m ts es) (take k ps)) s \<Longrightarrow>
    \<exists>s' k'. undo_fragments m ts (map piece_id (filter (touched_by es \<circ> fst) (drop k ps))) s = Some s' \<and>
      undo_at sn ps k' (map (undo_piece m ts es) (take k' ps)) s' \<and> filter (touched_by es \<circ> fst) (drop k' ps) = []"
proof (induction "filter (touched_by es \<circ> fst) (drop k ps)" arbitrary: k s)
  case Nil
  then show ?case by (metis list.simps(8) undo_fragments.simps(1))
next
  case (Cons p rest)
  let ?g = "undo_piece m ts es"
  from filter_eq_ConsD [OF Cons.hyps(2) [symmetric]] obtain as bs where
    split: "drop k ps = as @ p # bs" "\<forall>a \<in> set as. \<not> touched_by es (fst a)" "touched_by es (fst p)" "rest = filter (touched_by es \<circ> fst) bs"
    by auto
  have k: "k \<le> length ps" using Cons.prems by (simp add: undo_at_def)
  let ?k = "Suc (k + length as)"
  have tk: "take ?k ps = take k ps @ as @ [p]" using split(1) take_add [of k "Suc (length as)" ps] by simp
  have dk: "drop ?k ps = bs" using split(1) drop_drop [of "Suc (length as)" k ps] by (simp add: add.commute)
  from undo_fragment_ok [OF base ids m Cons.prems split(1), of ts] obtain s1 where
    s1: "undo_fragment m ts (piece_id p) s = Some s1" "undo_at sn ps ?k (map ?g (take k ps) @ as @ [(toggled m ts (fst p), snd p)]) s1" by blast
  have "map ?g as = as" using split(2) by (simp add: map_idI undo_piece_def)
  then have "map ?g (take ?k ps) = map ?g (take k ps) @ as @ [(toggled m ts (fst p), snd p)]"
    using split(3) by (simp add: tk undo_piece_def)
  with s1(2) have "undo_at sn ps ?k (map ?g (take ?k ps)) s1" by simp
  from Cons.hyps(1) [OF _ this] split(4) dk obtain s' k' where
    "undo_fragments m ts (map piece_id rest) s1 = Some s'" "undo_at sn ps k' (map ?g (take k' ps)) s'"
    "filter (touched_by es \<circ> fst) (drop k' ps) = []" by metis
  then show ?case unfolding Cons.hyps(2) [symmetric] using s1(1) by auto
qed

text \<open>Counts of other edits are as before.\<close>

lemma undone_unchanged:
  assumes "recorded m' = recorded m ++ counts_of undo" and "e \<notin> fst ` set (undo_counts undo)"
  shows "undone_in m' e = undone_in m e"
proof -
  have "recorded m' (e, u) = recorded m (e, u)" for u
    using assms by (simp add: counts_of_def map_add_dom_app_simps(3) domIff map_of_eq_None_iff)
  then show ?thesis by (simp add: undone_in_def counts_for_def)
qed

lemma undo_holds_cells:
  assumes "undo_holds m d" and "undo_ok m'" and "recorded m' = recorded m ++ counts_of undo"
  shows "undo_holds m' (map (undo_cell m' ts (map fst (undo_counts undo))) d)"
proof -
  have "cl_visible (undo_cell m' ts (map fst (undo_counts undo)) c) \<longleftrightarrow> shown_in m' c" if "c \<in> set d" for c
  proof (cases "\<exists>e \<in> set (map fst (undo_counts undo)). cell_touched e c")
    case False
    then have "undone_in m' e = undone_in m e" if "e = cl_timestamp c \<or> e \<in> set (cl_deletions c)" for e
      using that by (intro undone_unchanged [OF assms(3)]) (auto simp: cell_touched_def)
    then have "shown_in m' c = shown_in m c" by (simp add: shown_in_def)
    with False assms(1) that show ?thesis by (simp add: undo_cell_def undo_holds_def)
  qed (simp add: undo_cell_def)
  with assms(2) show ?thesis by (auto simp: undo_holds_def)
qed

lemma doc_visible_cells: "\<forall>c \<in> set d. cl_visible c \<longleftrightarrow> P c \<Longrightarrow> doc_visible d = map cl_char (filter P d)"
  unfolding doc_visible_def by (metis (no_types, lifting) filter_cong)

section \<open>The operation\<close>

lemma undo_snapshot_holds:
  assumes hold: "snapshot_holds E sn ps" and qs: "qs = map (undo_piece m ts es) ps"
    and t: "wf_tree fragment_ops t" "flat t = map fst qs"
    and nv: "rope_ok nv" "rope_str nv = doc_visible (doc_of qs)" and nd: "rope_ok nd" "rope_str nd = doc_deleted (doc_of qs)"
  shows "snapshot_holds E (sn\<lparr>sn_undo_map := m, sn_fragments := t, sn_visible_text := nv, sn_deleted_text := nd\<rparr>) qs"
proof -
  note h = hold [unfolded snapshot_holds_def]
  have ids: "map piece_id qs = map piece_id ps" by (simp add: qs)
  have bytes: "doc_bytes (doc_of qs) = doc_bytes (doc_of ps)" by (simp add: qs undo_piece_doc doc_bytes_def comp_def)
  have "insertion_fragment_new ` fst ` set qs = insertion_fragment_new ` fst ` set ps" by (simp add: qs image_image)
  moreover have "slices_hold E (slice_set sn) (doc_of qs)"
    using h unfolding qs undo_piece_doc slices_hold_def by simp
  ultimately show ?thesis
    using h t nv nd by (simp add: snapshot_holds_def ids_bounded_def ids bytes insertions_hold_def slice_set_def) (simp add: qs)
qed

lemma apply_undo_ok:
  assumes hold: "snapshot_holds E sn ps" and fits: "snapshot_fits sn" and undo: "undo_holds (sn_undo_map sn) (doc_of ps)"
    and es: "fst ` set (undo_counts undo) \<subseteq> E" and dist: "distinct (map fst (undo_counts undo))"
    and stamps: "\<forall>p \<in> set ps. fr_timestamp (fst p) \<noteq> lamport_MIN"
    and m: "shallow (sn_undo_map sn)" "undo_map_insert (sn_undo_map sn) undo = Some m" "shallow m"
  obtains sn' patch qs where "apply_undo sn undo = Some (sn', patch)" and "snapshot_holds E sn' qs"
    and "qs = map (undo_piece m (undo_timestamp undo) (map fst (undo_counts undo))) ps"
    and "sn_undo_map sn' = m" and "undo_holds m (doc_of qs)" and "recorded m = recorded (sn_undo_map sn) ++ counts_of undo"
    and "doc_visible (doc_of qs) = map cl_char (filter (shown_in m) (doc_of ps))"
    and "explained patch (doc_of ps) (doc_of qs)"
proof -
  note base = snapshot_base [OF hold fits]
  note h = hold [unfolded snapshot_holds_def]
  let ?es = "map fst (undo_counts undo)" and ?ts = "undo_timestamp undo"
  let ?g = "undo_piece m ?ts ?es" and ?sn = "sn\<lparr>sn_undo_map := m\<rparr>"
  have um: "undo_ok (sn_undo_map sn)" using undo by (simp add: undo_holds_def)
  obtain m' where "undo_map_insert (sn_undo_map sn) undo = Some m'" "undo_ok m'" "recorded m' = recorded (sn_undo_map sn) ++ counts_of undo"
    using undo_map_insert_correct [OF um m(1) dist] by blast
  with m(2) have okm: "undo_ok m" and rec: "recorded m = recorded (sn_undo_map sn) ++ counts_of undo" by simp_all
  have strict: "sorted_wrt (<) (map piece_id ps)" using h by (auto simp: ids_bounded_def sorted_wrt_append)
  have b: "walkable fragment_ops (sn_fragments sn)" "flat (sn_fragments sn) = map fst ps" "ropes_fit (sn_visible_text sn) (sn_deleted_text sn)"
      "rope_str (sn_visible_text sn) = doc_visible (doc_of ps)" "rope_str (sn_deleted_text sn) = doc_deleted (doc_of ps)"
    using base by (simp_all add: edit_base_def)
  obtain vc dc where c: "rope_cursor_new (sn_visible_text sn) 0 = Some vc" "rope_cursor_ok (sn_visible_text sn) 0 vc"
      "rope_cursor_new (sn_deleted_text sn) 0 = Some dc" "rope_cursor_ok (sn_deleted_text sn) 0 dc"
    using rope_cursor_new_ok [of "sn_visible_text sn" 0] rope_cursor_new_ok [of "sn_deleted_text sn" 0] b(3)
    by (auto simp: ropes_fit_def slices_fit_def)
  have "snapshot_holds E ?sn ps" "snapshot_fits ?sn" using hold fits by (simp_all add: snapshot_holds_def snapshot_fits_def slice_set_def)
  from fragment_ids_ok [OF this, of ?es] es stamps have
    ids: "fragment_ids_for_edits ?sn ?es = Some (map piece_id (filter (touched_by ?es \<circ> fst) (drop 0 ps)))"
    by (simp add: touched_by_def comp_def)
  let ?s = "\<lparr>us_old = cursor_new undo_cursor_dim (sn_fragments sn), us_fragments = tree_new fragment_ops,
      us_ropes = rope_builder_new vc dc, us_patch = patch_empty\<rparr>"
  have "undo_at sn ps 0 (map ?g (take 0 ps)) ?s"
    using c(2,4) rope_new_ok by (simp add: undo_at_def cursor_ready_def cursor_fresh_new ropes_at_def rope_builder_new_def explained_def patch_empty_def)
  from undo_fragments_ok [OF base strict okm m(3) this] obtain s k where
    s: "undo_fragments m ?ts (map piece_id (filter (touched_by ?es \<circ> fst) (drop 0 ps))) ?s = Some s"
      "undo_at sn ps k (map ?g (take k ps)) s" "filter (touched_by ?es \<circ> fst) (drop k ps) = []" by blast
  have ready: "cursor_ready fragment_ops undo_cursor_dim (sn_fragments sn) k (us_old s)" using s(2) by (simp add: undo_at_def)
  obtain c' u where u: "cursor_suffix fragment_ops undo_cursor_dim (us_old s) = Some (c', u)" "wf_tree fragment_ops u" "flat u = map fst (drop k ps)"
    using undo_cursor_laws.cursor_suffix_correct [OF ready b(1)] b(2) by (auto simp: drop_map)
  obtain ropes t where t: "ropes_append (us_ropes s) (fs_text (summary u)) = Some ropes"
      "tree_append fragment_ops (us_fragments s) u = Some t" "wf_tree fragment_ops t" "flat t = map fst (map ?g (take k ps) @ drop k ps)"
      "\<forall>q \<in> set (map ?g (take k ps) @ drop k ps). piece_ok q" "take (k + length (drop k ps)) ps = take k ps @ drop k ps"
      "ropes_at (sn_visible_text sn) (sn_deleted_text sn) ropes (doc_visible (doc_of (take k ps @ drop k ps))) (doc_deleted (doc_of (take k ps @ drop k ps)))
         (doc_visible (doc_of (map ?g (take k ps) @ drop k ps))) (doc_deleted (doc_of (map ?g (take k ps) @ drop k ps)))"
      "explained (us_patch s) (doc_of (take k ps @ drop k ps)) (doc_of (map ?g (take k ps) @ drop k ps))"
    using undo_copy [OF base s(2) u(2,3), of "[]"] by (metis append_Nil2)
  define qs where "qs = map ?g ps"
  have "map ?g (drop k ps) = drop k ps" using s(3) by (simp add: map_idI undo_piece_def filter_empty_conv)
  then have qs: "map ?g (take k ps) @ drop k ps = qs" unfolding qs_def by (metis append_take_drop_id map_append)
  note t' = t [unfolded qs append_take_drop_id]
  obtain nv nd where n: "ropes_finish ropes = Some (nv, nd)" "rope_ok nv" "rope_str nv = doc_visible (doc_of qs)"
      "rope_ok nd" "rope_str nd = doc_deleted (doc_of qs)"
    using ropes_finish_ok [OF b(3) t'(7) b(4,5)] by blast
  let ?sn' = "sn\<lparr>sn_undo_map := m, sn_fragments := t, sn_visible_text := nv, sn_deleted_text := nd\<rparr>"
  have "apply_undo sn undo = Some (?sn', us_patch s)"
    using m(2) c(1,3) ids s(1) u(1) t'(1,2) n(1) by (simp add: apply_undo_def Let_def)
  moreover have "snapshot_holds E ?sn' qs" by (rule undo_snapshot_holds [OF hold qs_def t'(3,4) n(2-5)])
  moreover have uh: "undo_holds m (doc_of qs)"
    unfolding qs_def undo_piece_doc by (rule undo_holds_cells [OF undo okm rec])
  moreover have "doc_visible (doc_of qs) = map cl_char (filter (shown_in m) (doc_of ps))"
  proof -
    have "doc_visible (doc_of qs) = map cl_char (filter (shown_in m) (doc_of qs))"
      using uh by (intro doc_visible_cells) (simp add: undo_holds_def)
    then show ?thesis by (simp add: qs_def undo_piece_doc filter_map comp_def)
  qed
  ultimately show ?thesis using that [OF _ _ qs_def _ _ rec _ t'(8)] by simp
qed

end
