(* ===== verification/Text_Buffer.thy ===== *)
theory Text_Buffer
  imports Buffer_Toggle Operation_Queue "HOL-Library.AList"
begin

text \<open>
  The crate \<open>text\<close>, file \<open>text.rs\<close>: the buffer. It holds a snapshot, the history with its stacks of
  transactions, a clock and the topic its changes are published to, and composes the operations on them. The
  channels on which tasks wait for edits of other replicas are left out.
\<close>

section \<open>The buffer\<close>

record text_buffer =
  bf_snapshot :: buffer_snapshot
  bf_history :: history
  bf_deferred_ops :: "operation operation_queue"
  bf_deferred_replicas :: "replica_id set"
  bf_lamport_clock :: lamport
  bf_subscriptions :: topic_state

section \<open>A new buffer\<close>

record new_fragments =
  nf_fragments :: fragments
  nf_insertions :: insertions
  nf_insertion_offset :: nat
  nf_prev_locator :: locator

partial_function (option) new_fragments_loop :: "rope \<Rightarrow> lamport \<Rightarrow> nat \<Rightarrow> new_fragments \<Rightarrow> new_fragments option" where
  "new_fragments_loop visible_text insertion_timestamp text_offset s = do {
     let len = rope_len visible_text;
     if text_offset < len
     then do {
       let target_end = min len (text_offset + MAX_INSERTION_LEN);
       chunk_end \<leftarrow> (if target_end = len then Some target_end else rope_floor_char_boundary visible_text target_end);
       chunk_len \<leftarrow> usize_sub chunk_end text_offset;
       let fragment_id = between (nf_prev_locator s) locator_max;
       let f = \<lparr>fr_id = fragment_id, fr_timestamp = insertion_timestamp, fr_insertion_offset = nf_insertion_offset s,
                fr_len = as_u32 chunk_len, fr_visible = True, fr_deletions = [], fr_max_undos = version_new\<rparr>;
       insertions \<leftarrow> tree_push insertion_ops (nf_insertions s) (insertion_fragment_new f);
       fragments \<leftarrow> tree_push fragment_ops (nf_fragments s) f;
       insertion_offset \<leftarrow> u32_add (nf_insertion_offset s) (as_u32 chunk_len);
       new_fragments_loop visible_text insertion_timestamp chunk_end
         \<lparr>nf_fragments = fragments, nf_insertions = insertions, nf_insertion_offset = insertion_offset,
           nf_prev_locator = fragment_id\<rparr> }
     else Some s }"

definition buffer_new_normalized :: "replica_id \<Rightarrow> u64 \<Rightarrow> line_ending \<Rightarrow> rope \<Rightarrow> text_buffer option" where
  "buffer_new_normalized replica remote_id line_ending base = do {
     let history = history_new base;
     let visible_text = hi_base_text history;
     let s = \<lparr>nf_fragments = tree_new fragment_ops, nf_insertions = tree_new insertion_ops, nf_insertion_offset = 0,
              nf_prev_locator = locator_min\<rparr>;
     (lamport_clock, version, s) \<leftarrow>
       (if \<not> rope_is_empty visible_text
        then do {
          let insertion_timestamp = lamport_new LOCAL;
          s \<leftarrow> new_fragments_loop visible_text insertion_timestamp 0 s;
          Some (lamport_observe (lamport_new replica) insertion_timestamp, observe global_new insertion_timestamp, s) }
        else Some (lamport_new replica, global_new, s));
     Some \<lparr>bf_snapshot = \<lparr>sn_visible_text = visible_text, sn_deleted_text = rope_new, sn_fragments = nf_fragments s,
             sn_insertions = nf_insertions s, sn_insertion_slices = map_new, sn_undo_map = undo_map_new,
             sn_version = version, sn_remote_id = remote_id, sn_replica_id = replica, sn_line_ending = line_ending\<rparr>,
           bf_history = history, bf_deferred_ops = queue_new operation_timestamp, bf_deferred_replicas = {},
           bf_lamport_clock = lamport_clock, bf_subscriptions = topic_new\<rparr> }"

definition buffer_new :: "replica_id \<Rightarrow> u64 \<Rightarrow> str \<Rightarrow> text_buffer option" where
  "buffer_new replica remote_id base_text = do {
     line_ending \<leftarrow> detect base_text;
     base \<leftarrow> rope_from (normalize base_text);
     buffer_new_normalized replica remote_id line_ending base }"

definition buffer_branch :: "text_buffer \<Rightarrow> text_buffer" where
  "buffer_branch self =
     \<lparr>bf_snapshot = bf_snapshot self, bf_history = history_new (hi_base_text (bf_history self)),
       bf_deferred_ops = queue_new operation_timestamp, bf_deferred_replicas = {}, bf_lamport_clock = lamport_new LOCAL_BRANCH,
       bf_subscriptions = topic_new\<rparr>"

section \<open>Transactions\<close>

text \<open>The current time is an argument.\<close>

definition start_transaction_at :: "text_buffer \<Rightarrow> nat \<Rightarrow> text_buffer \<times> lamport option" where
  "start_transaction_at self now =
     (case start_transaction (bf_history self) (sn_version (bf_snapshot self)) now (bf_lamport_clock self) of
        (history, clock, tid) \<Rightarrow> (self\<lparr>bf_history := history, bf_lamport_clock := clock\<rparr>, tid))"

definition end_transaction_at :: "text_buffer \<Rightarrow> nat \<Rightarrow> (text_buffer \<times> (lamport \<times> global) option) option" where
  "end_transaction_at self now = do {
     (history, ended) \<leftarrow> end_transaction (bf_history self) now;
     case ended of
       Some he \<Rightarrow> do {
         let since = tr_start (he_transaction he);
         (history, group_id) \<leftarrow> history_group history;
         tid \<leftarrow> group_id;
         Some (self\<lparr>bf_history := history\<rparr>, Some (tid, since)) }
     | None \<Rightarrow> Some (self\<lparr>bf_history := history\<rparr>, None) }"

section \<open>Editing\<close>

text \<open>
  An offset that is not at the start of a character is logged and rounded down; with debug assertions it panics.
\<close>

definition usize_to_offset :: "buffer_snapshot \<Rightarrow> nat \<Rightarrow> nat option" where
  "usize_to_offset snapshot offset = do {
     ok \<leftarrow> rope_is_char_boundary (sn_visible_text snapshot) offset;
     if \<not> ok then rope_floor_char_boundary (sn_visible_text snapshot) offset else Some offset }"

fun edits_to_offsets :: "buffer_snapshot \<Rightarrow> ((nat \<times> nat) \<times> str) list \<Rightarrow> ((nat \<times> nat) \<times> str) list option" where
  "edits_to_offsets snapshot [] = Some []"
| "edits_to_offsets snapshot (((range_start, range_end), new_text) # edits) = do {
     s \<leftarrow> usize_to_offset snapshot range_start;
     e \<leftarrow> usize_to_offset snapshot range_end;
     edits \<leftarrow> edits_to_offsets snapshot edits;
     Some (((s, e), new_text) # edits) }"

definition apply_local_edit :: "text_buffer \<Rightarrow> ((nat \<times> nat) \<times> str) list \<Rightarrow> lamport \<Rightarrow> (text_buffer \<times> edit_operation) option" where
  "apply_local_edit self edits timestamp = do {
     edits \<leftarrow> edits_to_offsets (bf_snapshot self) edits;
     (snapshot, edit_op, edits_patch) \<leftarrow> apply_edit_internal (bf_snapshot self) edits timestamp;
     subscriptions \<leftarrow> publish edits_patch (bf_subscriptions self);
     Some (self\<lparr>bf_snapshot := snapshot, bf_subscriptions := subscriptions\<rparr>, edit_op) }"

definition buffer_edit ::
  "text_buffer \<Rightarrow> ((nat \<times> nat) \<times> str) list \<Rightarrow> nat \<Rightarrow> nat \<Rightarrow> (text_buffer \<times> operation) option" where
  "buffer_edit self edits started ended = do {
     let (self, _) = start_transaction_at self started;
     let (timestamp, clock) = tick (bf_lamport_clock self);
     (self, edit_op) \<leftarrow> apply_local_edit (self\<lparr>bf_lamport_clock := clock\<rparr>) edits timestamp;
     let op = EditOp edit_op;
     history \<leftarrow> history_push (bf_history self) op;
     history \<leftarrow> push_undo history (operation_timestamp op);
     let snapshot = bf_snapshot self;
     let snapshot = snapshot\<lparr>sn_version := observe (sn_version snapshot) (operation_timestamp op)\<rparr>;
     (self, _) \<leftarrow> end_transaction_at (self\<lparr>bf_history := history, bf_snapshot := snapshot\<rparr>) ended;
     Some (self, op) }"

definition set_line_ending :: "text_buffer \<Rightarrow> line_ending \<Rightarrow> text_buffer" where
  "set_line_ending self line_ending = self\<lparr>bf_snapshot := (bf_snapshot self)\<lparr>sn_line_ending := line_ending\<rparr>\<rparr>"

section \<open>Undo and redo\<close>

definition saturating_succ :: "u32 \<Rightarrow> u32" where
  "saturating_succ n = (if n = - 1 then n else n + 1)"

fun undo_counts_for :: "undo_map \<Rightarrow> lamport list \<Rightarrow> (lamport \<times> u32) list \<Rightarrow> (lamport \<times> u32) list option" where
  "undo_counts_for m [] counts = Some counts"
| "undo_counts_for m (edit_id # edit_ids) counts = do {
     n \<leftarrow> undo_count m edit_id;
     undo_counts_for m edit_ids (AList.update edit_id (saturating_succ n) counts) }"

definition undo_operations :: "text_buffer \<Rightarrow> (lamport \<times> u32) list \<Rightarrow> (text_buffer \<times> operation) option" where
  "undo_operations self counts = do {
     let (timestamp, clock) = tick (bf_lamport_clock self);
     let version = sn_version (bf_snapshot self);
     let snapshot = (bf_snapshot self)\<lparr>sn_version := observe version timestamp\<rparr>;
     let undo = \<lparr>undo_timestamp = timestamp, undo_version = version, undo_counts = counts\<rparr>;
     (snapshot, edits) \<leftarrow> apply_undo snapshot undo;
     subscriptions \<leftarrow> publish edits (bf_subscriptions self);
     Some (self\<lparr>bf_lamport_clock := clock, bf_snapshot := snapshot, bf_subscriptions := subscriptions\<rparr>, UndoOp undo) }"

definition undo_or_redo :: "text_buffer \<Rightarrow> transaction \<Rightarrow> (text_buffer \<times> operation) option" where
  "undo_or_redo self transaction = do {
     counts \<leftarrow> undo_counts_for (sn_undo_map (bf_snapshot self)) (tr_edit_ids transaction) [];
     (self, op) \<leftarrow> undo_operations self counts;
     history \<leftarrow> history_push (bf_history self) op;
     Some (self\<lparr>bf_history := history\<rparr>, op) }"

definition buffer_undo :: "text_buffer \<Rightarrow> (text_buffer \<times> (lamport \<times> operation) option) option" where
  "buffer_undo self = do {
     (history, popped) \<leftarrow> pop_undo (bf_history self);
     case popped of
       Some he \<Rightarrow> do {
         (self, op) \<leftarrow> undo_or_redo (self\<lparr>bf_history := history\<rparr>) (he_transaction he);
         Some (self, Some (he_id he, op)) }
     | None \<Rightarrow> Some (self\<lparr>bf_history := history\<rparr>, None) }"

definition buffer_redo :: "text_buffer \<Rightarrow> (text_buffer \<times> (lamport \<times> operation) option) option" where
  "buffer_redo self = do {
     (history, popped) \<leftarrow> pop_redo (bf_history self);
     case popped of
       Some he \<Rightarrow> do {
         (self, op) \<leftarrow> undo_or_redo (self\<lparr>bf_history := history\<rparr>) (he_transaction he);
         Some (self, Some (he_id he, op)) }
     | None \<Rightarrow> Some (self\<lparr>bf_history := history\<rparr>, None) }"

definition undo_transaction :: "text_buffer \<Rightarrow> lamport \<Rightarrow> (text_buffer \<times> operation option) option" where
  "undo_transaction self transaction_id = do {
     (history, removed) \<leftarrow> remove_from_undo (bf_history self) transaction_id;
     case removed of
       Some he \<Rightarrow> do {
         (self, op) \<leftarrow> undo_or_redo (self\<lparr>bf_history := history\<rparr>) (he_transaction he);
         Some (self, Some op) }
     | None \<Rightarrow> Some (self\<lparr>bf_history := history\<rparr>, None) }"

fun undo_or_redo_all :: "text_buffer \<Rightarrow> history_entry list \<Rightarrow> (text_buffer \<times> operation list) option" where
  "undo_or_redo_all self [] = Some (self, [])"
| "undo_or_redo_all self (he # entries) = do {
     (self, op) \<leftarrow> undo_or_redo self (he_transaction he);
     (self, ops) \<leftarrow> undo_or_redo_all self entries;
     Some (self, op # ops) }"

definition undo_to_transaction :: "text_buffer \<Rightarrow> lamport \<Rightarrow> (text_buffer \<times> operation list) option" where
  "undo_to_transaction self transaction_id = do {
     (history, entries) \<leftarrow> remove_from_undo_until (bf_history self) transaction_id;
     undo_or_redo_all (self\<lparr>bf_history := history\<rparr>) entries }"

definition redo_to_transaction :: "text_buffer \<Rightarrow> lamport \<Rightarrow> (text_buffer \<times> operation list) option" where
  "redo_to_transaction self transaction_id = do {
     (history, entries) \<leftarrow> remove_from_redo (bf_history self) transaction_id;
     undo_or_redo_all (self\<lparr>bf_history := history\<rparr>) entries }"

section \<open>Operations of other replicas\<close>

definition can_apply_op :: "text_buffer \<Rightarrow> operation \<Rightarrow> bool" where
  "can_apply_op self op \<longleftrightarrow>
     (if operation_replica_id op \<in> bf_deferred_replicas self then False
      else observed_all (sn_version (bf_snapshot self)) (operation_version op))"

section \<open>The invariant of a buffer\<close>

text \<open>The clock is past every edit and undo operation.\<close>

definition clock_past :: "lamport \<Rightarrow> piece list \<Rightarrow> undo_map \<Rightarrow> bool" where
  "clock_past clock ps m \<longleftrightarrow>
     (\<forall>p \<in> set ps. \<forall>e. touched e (fst p) \<longrightarrow> 0 < lvalue e \<and> lvalue e < lvalue clock) \<and>
     (\<forall>e u c. recorded m (e, u) = Some c \<longrightarrow> lvalue e < lvalue clock)"

lemma clock_past_later: "clock_past clock ps m \<Longrightarrow> lvalue clock \<le> lvalue clock' \<Longrightarrow> clock_past clock' ps m"
  unfolding clock_past_def by (meson less_le_trans)

lemma clock_past_fresh:
  assumes "clock_past clock ps m"
  shows "fresh clock ps" and "\<not> undone_in m clock" and "\<forall>p \<in> set ps. fr_timestamp (fst p) \<noteq> lamport_MIN"
proof -
  show "fresh clock ps" using assms unfolding clock_past_def fresh_def by blast
  have "counts_for m clock (\<lambda>_. True) = {}" using assms unfolding clock_past_def counts_for_def by blast
  then show "\<not> undone_in m clock" by (simp add: undone_in_def)
  show "\<forall>p \<in> set ps. fr_timestamp (fst p) \<noteq> lamport_MIN"
  proof
    fix p assume "p \<in> set ps"
    moreover have "touched (fr_timestamp (fst p)) (fst p)" by (simp add: touched_def)
    ultimately have "0 < lvalue (fr_timestamp (fst p))" using assms unfolding clock_past_def by blast
    then show "fr_timestamp (fst p) \<noteq> lamport_MIN" by (auto simp: lamport_MIN_def)
  qed
qed

text \<open>
  The edits that can be undone or redone are among those with slices, and every subscriber can follow from the
  text it last saw to the current one.
\<close>

definition buffer_ok :: "lamport set \<Rightarrow> (nat \<Rightarrow> nat list) \<Rightarrow> text_buffer \<Rightarrow> piece list \<Rightarrow> bool" where
  "buffer_ok E seen b ps \<longleftrightarrow>
     snapshot_holds E (bf_snapshot b) ps \<and> undo_holds (sn_undo_map (bf_snapshot b)) (doc_of ps) \<and>
     clock_past (bf_lamport_clock b) ps (sn_undo_map (bf_snapshot b)) \<and>
     (\<forall>e \<in> E. lvalue e < lvalue (bf_lamport_clock b)) \<and>
     map_ok (hi_operations (bf_history b)) \<and> (\<forall>he \<in> set (timeline (bf_history b)). set (he_edits he) \<subseteq> E) \<and>
     topic_inv seen (as_bytes (rope_str (sn_visible_text (bf_snapshot b)))) (bf_subscriptions b)"

abbreviation buffer_text :: "text_buffer \<Rightarrow> str" where
  "buffer_text b \<equiv> rope_str (sn_visible_text (bf_snapshot b))"

definition buffer_fits :: "text_buffer \<Rightarrow> bool" where
  "buffer_fits b \<longleftrightarrow> snapshot_fits (bf_snapshot b) \<and> shallow (sn_undo_map (bf_snapshot b)) \<and> shallow (hi_operations (bf_history b)) \<and>
     unat (lvalue (bf_lamport_clock b)) + 2 < 2 ^ 32"

section \<open>A new buffer satisfies it\<close>

definition first_fragment :: "str \<Rightarrow> fragment" where
  "first_fragment cs = \<lparr>fr_id = between locator_min locator_max, fr_timestamp = lamport_new LOCAL, fr_insertion_offset = 0,
     fr_len = str_len cs, fr_visible = True, fr_deletions = [], fr_max_undos = version_new\<rparr>"

lemma locator_min_less_max: "locator_min < locator_max"
  by code_simp

lemma first_id: "locator_min < between locator_min locator_max" "between locator_min locator_max < locator_max"
    "last (between locator_min locator_max) \<noteq> 0"
  using between_correct [OF locator_min_less_max locator_max_last] by simp_all

lemma new_fragments_one:
  assumes "rope_ok r" and "rope_str r = cs" and "cs \<noteq> []" and "str_len cs < 2 ^ 32"
  shows "\<exists>t u. new_fragments_loop r (lamport_new LOCAL) 0
      \<lparr>nf_fragments = tree_new fragment_ops, nf_insertions = tree_new insertion_ops, nf_insertion_offset = 0, nf_prev_locator = locator_min\<rparr> =
      Some \<lparr>nf_fragments = t, nf_insertions = u, nf_insertion_offset = str_len cs, nf_prev_locator = between locator_min locator_max\<rparr> \<and>
    wf_tree fragment_ops t \<and> flat t = [first_fragment cs] \<and> height t \<le> 1 \<and>
    wf_tree insertion_ops u \<and> flat u = [insertion_fragment_new (first_fragment cs)] \<and> height u \<le> 1"
proof -
  have len: "rope_len r = str_len cs" "0 < str_len cs" "min (str_len cs) MAX_INSERTION_LEN = str_len cs"
    using rope_measures(2) [OF assms(1)] assms(2-4) by (simp_all add: MAX_INSERTION_LEN_def)
  obtain t where t: "tree_push fragment_ops (tree_new fragment_ops) (first_fragment cs) = Some t" "wf_tree fragment_ops t"
      "flat t = [first_fragment cs]" "height t \<le> 1"
    using fragments.tree_push_correct [OF wf_new, of "first_fragment cs"] by (auto simp: tree_new_def)
  obtain u where u: "tree_push insertion_ops (tree_new insertion_ops) (insertion_fragment_new (first_fragment cs)) = Some u"
      "wf_tree insertion_ops u" "flat u = [insertion_fragment_new (first_fragment cs)]" "height u \<le> 1"
    using ik.tree_push_correct [OF wf_new, of "insertion_fragment_new (first_fragment cs)"] by (auto simp: tree_new_def)
  have stop: "new_fragments_loop r ts (str_len cs) s = Some s" for ts s
    using len by (subst new_fragments_loop.simps) (simp add: Let_def)
  show ?thesis
    using len t u stop assms(4)
    by (subst new_fragments_loop.simps) (simp add: Let_def first_fragment_def [symmetric] usize_sub_def as_u32_id u32_add_def)
qed

lemma undone_in_new [simp]: "\<not> undone_in undo_map_new e"
  by (simp add: undone_in_def counts_for_def recorded_new)

lemma first_piece:
  assumes "cs \<noteq> []" and "str_len cs < 2 ^ 32"
  shows "piece_ok (first_fragment cs, cs)" and "ids_bounded [] [(first_fragment cs, cs)]"
    and "doc_visible (doc_of [(first_fragment cs, cs)]) = cs" and "doc_deleted (doc_of [(first_fragment cs, cs)]) = []"
    and "distinct (doc_bytes (doc_of [(first_fragment cs, cs)]))"
    and "\<forall>c \<in> set (doc_of [(first_fragment cs, cs)]). cl_visible c \<and> cl_deletions c = []"
    and "touched e (first_fragment cs) \<longleftrightarrow> e = lamport_new LOCAL"
  using assms first_id cells_fields locator_min_less_max
  by (auto simp: piece_ok_def first_fragment_def ids_bounded_def piece_cells_def distinct_map inj_on_def touched_def)

lemma buffer_new_normalized_ok:
  assumes r: "rope_ok r" and len: "str_len (rope_str r) < 2 ^ 32"
  obtains b ps where "buffer_new_normalized replica remote_id le r = Some b" and "buffer_ok {} seen b ps"
    and "buffer_text b = rope_str r" and "sn_visible_text (bf_snapshot b) = r" and "sn_deleted_text (bf_snapshot b) = rope_new"
    and "bf_history b = history_new r" and "ps = (if rope_str r = [] then [] else [(first_fragment (rope_str r), rope_str r)])"
    and "bf_lamport_clock b = (if rope_str r = [] then lamport_new replica else lamport_observe (lamport_new replica) (lamport_new LOCAL))"
    and "height (sn_fragments (bf_snapshot b)) \<le> 1" and "height (sn_insertions (bf_snapshot b)) \<le> 1"
    and "sn_insertion_slices (bf_snapshot b) = map_new" and "sn_undo_map (bf_snapshot b) = undo_map_new"
    and "bf_subscriptions b = topic_new"
proof -
  let ?cs = "rope_str r" and ?ps = "if rope_str r = [] then [] else [(first_fragment (rope_str r), rope_str r)]"
  let ?clock = "if ?cs = [] then lamport_new replica else lamport_observe (lamport_new replica) (lamport_new LOCAL)"
  let ?b = "\<lambda>t u v. \<lparr>bf_snapshot = \<lparr>sn_visible_text = r, sn_deleted_text = rope_new, sn_fragments = t, sn_insertions = u,
      sn_insertion_slices = map_new, sn_undo_map = undo_map_new, sn_version = v, sn_remote_id = remote_id, sn_replica_id = replica,
      sn_line_ending = le\<rparr>, bf_history = history_new r, bf_deferred_ops = queue_new operation_timestamp, bf_deferred_replicas = {},
      bf_lamport_clock = ?clock, bf_subscriptions = topic_new\<rparr>"
  have empty: "rope_is_empty r \<longleftrightarrow> ?cs = []" using rope_measures(3) [OF r] .
  obtain t u v where b: "buffer_new_normalized replica remote_id le r = Some (?b t u v)"
      "wf_tree fragment_ops t" "flat t = map fst ?ps" "height t \<le> 1" "wf_tree insertion_ops u" "flat u = map insertion_fragment_new (flat t)" "height u \<le> 1"
  proof (cases "?cs = []")
    case True
    then show ?thesis
      using that [of "tree_new fragment_ops" "tree_new insertion_ops" global_new] empty
      by (simp add: buffer_new_normalized_def history_new_def Let_def) (simp add: tree_new_def)
  next
    case False
    from new_fragments_one [OF r refl False len] that empty False show ?thesis
      by (auto simp: buffer_new_normalized_def history_new_def Let_def)
  qed
  have ok: "\<forall>p \<in> set ?ps. piece_ok p" "ids_bounded [] ?ps" "doc_visible (doc_of ?ps) = ?cs" "doc_deleted (doc_of ?ps) = []"
      "distinct (doc_bytes (doc_of ?ps))" "\<forall>c \<in> set (doc_of ?ps). cl_visible c \<and> cl_deletions c = []"
    using first_piece(1-6) [OF _ len] locator_min_less_max by (auto simp: ids_bounded_def)
  have "insertions_hold u ?ps" using b(3,5,6) by (simp add: insertions_hold_def)
  moreover have "map_ok (map_new :: insertion_slice tree_set)" by (rule map_ok_new)
  moreover have "slices_hold {} (dom (contents (map_new :: insertion_slice tree_set))) (doc_of ?ps)"
    by (simp add: slices_hold_def contents_new)
  ultimately have "snapshot_holds {} (bf_snapshot (?b t u v)) ?ps"
    using b(2,3) ok r rope_new_ok by (simp add: snapshot_holds_def slice_set_def)
  moreover have "undo_holds undo_map_new (doc_of ?ps)" using ok(6) undo_ok_new by (simp add: undo_holds_def shown_in_def)
  moreover have "lvalue (lamport_new LOCAL) < lvalue (lamport_observe (lamport_new replica) (lamport_new LOCAL))" "0 < lvalue (lamport_new LOCAL)"
    by (simp_all add: lamport_new_def lamport_observe_def)
  then have "clock_past ?clock ?ps undo_map_new"
    using first_piece(7) [OF _ len] by (auto simp: clock_past_def recorded_new)
  ultimately have "buffer_ok {} seen (?b t u v) ?ps"
    by (simp add: buffer_ok_def history_new_def map_ok_new timeline_def topic_inv_def topic_new_def)
  with that [OF b(1)] b(4,7) show ?thesis by simp
qed

lemma buffer_new_ok:
  assumes len: "str_len (normalize base) < 2 ^ 32"
  obtains b ps where "buffer_new replica remote_id base = Some b" and "buffer_ok {} seen b ps" and "buffer_text b = normalize base"
proof -
  obtain le where le: "detect base = Some le" by (rule detect_head [of base]) auto
  obtain r where r: "rope_from (normalize base) = Some r" "rope_ok r" "rope_str r = normalize base"
    using rope_from_holds [of "normalize base"] by (auto simp: holds_def)
  obtain b ps where "buffer_new_normalized replica remote_id le r = Some b" "buffer_ok {} seen b ps" "buffer_text b = rope_str r"
    by (rule buffer_new_normalized_ok [OF r(2), of replica remote_id le seen]) (use len r(3) in auto)
  with that le r show ?thesis by (simp add: buffer_new_def)
qed

section \<open>Editing a buffer\<close>

text \<open>Offsets at character boundaries are as they are.\<close>

lemma usize_to_offset_boundary:
  assumes "rope_ok (sn_visible_text sn)" and "rope_str (sn_visible_text sn) = a @ b"
  shows "usize_to_offset sn (str_len a) = Some (str_len a)"
  using rope_is_char_boundary_correct [OF assms(1)] assms(2) by (simp add: usize_to_offset_def str_is_char_boundary_def)

lemma edits_to_offsets_same:
  assumes "rope_ok (sn_visible_text sn)"
  shows "rope_str (sn_visible_text sn) = a @ v \<Longrightarrow> edits_on (str_len a) v edits \<Longrightarrow> edits_to_offsets sn edits = Some edits"
proof (induction edits arbitrary: a v)
  case (Cons ed edits)
  obtain i j n where ed: "ed = ((i, j), n)" by (metis surj_pair)
  from Cons.prems(2) [unfolded ed] obtain g x y where e: "v = g @ x @ y" "i = str_len a + str_len g" "j = i + str_len x" "edits_on j y edits"
    unfolding edits_on.simps by blast
  from Cons.IH [of "a @ g @ x" y] Cons.prems(1) e have "edits_to_offsets sn edits = Some edits" by (simp add: add.assoc)
  with usize_to_offset_boundary [OF assms, of "a @ g" "x @ y"] usize_to_offset_boundary [OF assms, of "a @ g @ x" y] Cons.prems(1) e
  show ?case by (simp add: ed add.assoc)
qed simp

lemma touched_after:
  assumes "doc_of ps = before parts @ rest" and "doc_of qs = after ts 0 parts @ rest" and "\<forall>p \<in> set ps. piece_ok p"
    and "\<forall>q \<in> set qs. piece_ok q" and "q \<in> set qs" and "touched e (fst q)"
  shows "e = ts \<or> (\<exists>p \<in> set ps. touched e (fst p))"
proof (cases "e = ts")
  case ne: False
  have ok: "piece_ok q" using assms(4,5) by blast
  obtain c where c: "c \<in> set (piece_cells q)" by (rule piece_first_cell [OF ok])
  have t: "cell_touched e c" using piece_cell(2) [OF c ok] assms(6) by simp
  have "c \<in> set (after ts 0 parts @ rest)" using c assms(5) unfolding assms(2) [symmetric] by (auto simp: doc_of_def)
  then have "\<exists>c' \<in> set (before parts @ rest). cell_touched e c'"
  proof (cases "c \<in> set rest")
    case False
    with \<open>c \<in> set (after ts 0 parts @ rest)\<close> have "c \<in> set (after ts 0 parts)" by simp
    then show ?thesis
    proof (rule after_cells)
      fix c' assume "c' \<in> set (before parts)" "c = c' \<or> c = mark ts c'"
      with t ne show ?thesis by auto
    qed (use t ne in \<open>auto simp: cell_touched_def\<close>)
  qed (use t in auto)
  then obtain c' where "c' \<in> set (doc_of ps)" "cell_touched e c'" unfolding assms(1) by blast
  moreover from this(1) obtain p where "p \<in> set ps" "c' \<in> set (piece_cells p)" by (auto simp: doc_of_def)
  ultimately show ?thesis using piece_cell(2) assms(3) by blast
qed simp

lemma tick_values:
  assumes "unat (lvalue clock) + 2 < 2 ^ 32"
  shows "lvalue clock < lvalue clock + 1" and "lvalue clock + 1 < lvalue clock + 2" and "0 < lvalue clock + 1"
    and "lvalue clock < lvalue clock + 2"
proof -
  have u: "unat (lvalue clock + 1) = unat (lvalue clock) + 1" "unat (lvalue clock + 2) = unat (lvalue clock) + 2"
    using assms by (simp_all add: unat_word_ariths)
  then show "lvalue clock < lvalue clock + 1" "lvalue clock + 1 < lvalue clock + 2" "lvalue clock < lvalue clock + 2"
    by (simp_all add: word_less_nat_alt)
  show "0 < lvalue clock + 1" using u(1) by (simp add: word_less_nat_alt)
qed

text \<open>Recording one edit in a transaction of its own.\<close>

lemma history_edit_ok:
  assumes depth: "hi_transaction_depth h = 0" and ops: "map_ok (hi_operations h)" "shallow (hi_operations h)"
    and op: "is_edit op" "operation_timestamp op = ts"
  obtains h1 h2 h3 h4 he tid clock' where "start_transaction h start now clock = (h1, clock', Some (fst (tick clock)))"
    and "clock' = snd (tick clock)" and "history_push h1 op = Some h2" and "push_undo h2 ts = Some h3"
    and "end_transaction h3 later = Some (h4, Some he)"
    and "\<exists>h5. history_group h4 = Some (h5, Some tid) \<and> map_ok (hi_operations h5) \<and> contents (hi_operations h5) = (contents (hi_operations h))(ts \<mapsto> op) \<and>
      hi_transaction_depth h5 = 0 \<and> hi_redo_stack h5 = [] \<and> stack_edits (hi_undo_stack h5) = stack_edits (hi_undo_stack h) @ [ts] \<and>
      (\<forall>e \<in> set (hi_undo_stack h5). set (he_edits e) \<subseteq> set (stack_edits (hi_undo_stack h5)))"
proof -
  let ?e = "new_entry \<lparr>tr_id = fst (tick clock), tr_edit_ids = [], tr_start = start\<rparr> now"
  let ?h1 = "h\<lparr>hi_transaction_depth := 1, hi_undo_stack := hi_undo_stack h @ [?e]\<rparr>"
  obtain m where m: "map_insert (hi_operations h) ts op = Some m" "map_ok m" "contents m = (contents (hi_operations h))(ts \<mapsto> op)"
    using map_insert_correct [OF ops, of ts op] by blast
  let ?h2 = "?h1\<lparr>hi_operations := m\<rparr>"
  let ?h3 = "?h2\<lparr>hi_undo_stack := hi_undo_stack h @ [he_extend [ts] ?e]\<rparr>"
  let ?he = "(he_extend [ts] ?e)\<lparr>he_last_edit_at := later\<rparr>"
  let ?h4 = "?h3\<lparr>hi_transaction_depth := 0, hi_redo_stack := [], hi_undo_stack := hi_undo_stack h @ [?he]\<rparr>"
  have h1: "start_transaction h start now clock = (?h1, snd (tick clock), Some (fst (tick clock)))"
    using depth by (simp add: start_transaction_def tick_def)
  have h2: "history_push ?h1 op = Some ?h2" using m(1) op(2) by (simp add: history_push_def)
  have h3: "push_undo ?h2 ts = Some ?h3"
    using m(2,3) op(1) by (cases op) (simp_all add: push_undo_def map_get_correct is_edit_def bind_require)
  have h4: "end_transaction ?h3 later = Some (?h4, Some ?he)"
    by (simp add: end_transaction_def bind_require new_entry_def he_extend_def Let_def)
  have "hi_undo_stack ?h4 \<noteq> []" by simp
  from history_group_correct [OF this] obtain a e b e' where g: "hi_undo_stack ?h4 = a @ e # b"
      "history_group ?h4 = Some (?h4\<lparr>hi_undo_stack := a @ [e']\<rparr>, Some (he_id e))" "he_edits e' = stack_edits (e # b)" by metis
  have "he_edits ?he = [ts]" by (simp add: he_extend_def new_entry_def)
  then have "stack_edits (hi_undo_stack ?h4) = stack_edits (hi_undo_stack h) @ [ts]" by (simp add: stack_edits_def)
  moreover have "stack_edits (a @ [e']) = stack_edits (hi_undo_stack ?h4)" unfolding g(1) using g(3) by (simp add: stack_edits_def)
  ultimately have se: "stack_edits (a @ [e']) = stack_edits (hi_undo_stack h) @ [ts]" by simp
  have "\<forall>e \<in> set (a @ [e']). set (he_edits e) \<subseteq> set (stack_edits (a @ [e']))" by (auto simp: stack_edits_def)
  with that [OF h1 refl h2 h3 h4, of "he_id e"] g(2) m se show ?thesis by simp
qed

definition edit_stamp :: "text_buffer \<Rightarrow> lamport" where
  "edit_stamp b = Lamport (lvalue (bf_lamport_clock b) + 1) (replica_id (bf_lamport_clock b))"

lemma timeline_edits: "(\<forall>he \<in> set (timeline h). set (he_edits he) \<subseteq> E) \<longleftrightarrow>
    set (stack_edits (hi_undo_stack h)) \<subseteq> E \<and> set (stack_edits (hi_redo_stack h)) \<subseteq> E"
  by (auto simp: timeline_def stack_edits_def)

text \<open>The edit proper: it takes effect at a timestamp that is past all others, whatever the history and the clock become.\<close>

lemma local_edit_ok:
  assumes ok: "buffer_ok E seen b ps" and sfits: "snapshot_fits (bf_snapshot b)"
    and edits: "edits_on 0 (buffer_text b) edits" and len: "new_text_len edits < 2 ^ 32"
    and past': "clock_past ts ps (sn_undo_map (bf_snapshot b))" and pos: "0 < lvalue ts"
  obtains sn' op subs qs parts rest where
    "\<And>b0. bf_snapshot b0 = bf_snapshot b \<Longrightarrow> bf_subscriptions b0 = bf_subscriptions b \<Longrightarrow>
       apply_local_edit b0 edits ts = Some (b0\<lparr>bf_snapshot := sn', bf_subscriptions := subs\<rparr>, op)"
    and "sn_undo_map sn' = sn_undo_map (bf_snapshot b)" and "sn_version sn' = sn_version (bf_snapshot b)"
    and "doc_of ps = before parts @ rest" and "doc_of qs = after ts 0 parts @ rest"
    and "visible_ranges 0 parts = normalized edits"
    and "op = \<lparr>eo_timestamp = ts, eo_version = sn_version (bf_snapshot b), eo_ranges = full_ranges 0 parts,
      eo_new_text = map (normalize \<circ> snd) edits\<rparr>"
    and "\<And>h clock'. lvalue ts < lvalue clock' \<Longrightarrow> lvalue (bf_lamport_clock b) \<le> lvalue clock' \<Longrightarrow> map_ok (hi_operations h) \<Longrightarrow>
       \<forall>he \<in> set (timeline h). set (he_edits he) \<subseteq> insert ts E \<Longrightarrow>
       buffer_ok (insert ts E) seen
         (b\<lparr>bf_snapshot := sn'\<lparr>sn_version := observe (sn_version (bf_snapshot b)) ts\<rparr>, bf_subscriptions := subs,
            bf_lamport_clock := clock', bf_history := h\<rparr>) qs"
proof -
  let ?sn = "bf_snapshot b" and ?clock = "bf_lamport_clock b"
  note o = ok [unfolded buffer_ok_def]
  have hold: "snapshot_holds E ?sn ps" and undo: "undo_holds (sn_undo_map ?sn) (doc_of ps)"
    and past: "clock_past ?clock ps (sn_undo_map ?sn)" using o by blast+
  note h = hold [unfolded snapshot_holds_def]
  have vis: "buffer_text b = doc_visible (doc_of ps)" using h by blast
  have "rope_ok (sn_visible_text ?sn)" using h by blast
  then have offsets: "edits_to_offsets ?sn edits = Some edits"
    using edits_to_offsets_same [of ?sn "[]" "buffer_text b" edits] edits by simp
  obtain sn' op patch qs parts rest where e: "apply_edit_internal ?sn edits ts = Some (sn', op, patch)"
      "snapshot_holds (insert ts E) sn' qs" "doc_of ps = before parts @ rest" "doc_of qs = after ts 0 parts @ rest"
      "visible_ranges 0 parts = normalized edits" "op = \<lparr>eo_timestamp = ts, eo_version = sn_version ?sn,
        eo_ranges = full_ranges 0 parts, eo_new_text = map (normalize \<circ> snd) edits\<rparr>"
      "explained patch (doc_of ps) (doc_of qs)" "sn_undo_map sn' = sn_undo_map ?sn" "sn_version sn' = sn_version ?sn"
    by (rule apply_edit_ok [OF hold sfits clock_past_fresh(1) [OF past'] edits [unfolded vis] len])
  have vis': "rope_str (sn_visible_text sn') = doc_visible (doc_of qs)" using e(2) by (simp add: snapshot_holds_def)
  have "topic_inv seen (as_bytes (doc_visible (doc_of ps))) (bf_subscriptions b)" using o vis by simp
  from publish_correct [OF this, of patch] e(7) obtain subs where subs: "publish patch (bf_subscriptions b) = Some subs"
      "topic_inv seen (as_bytes (doc_visible (doc_of qs))) subs" unfolding explained_def by blast
  have applied: "apply_local_edit b0 edits ts = Some (b0\<lparr>bf_snapshot := sn', bf_subscriptions := subs\<rparr>, op)"
    if "bf_snapshot b0 = ?sn" "bf_subscriptions b0 = bf_subscriptions b" for b0
    using that offsets e(1) subs(1) by (simp add: apply_local_edit_def)
  have "buffer_ok (insert ts E) seen (b\<lparr>bf_snapshot := sn'\<lparr>sn_version := observe (sn_version ?sn) ts\<rparr>,
      bf_subscriptions := subs, bf_lamport_clock := clock', bf_history := h'\<rparr>) qs"
    if c: "lvalue ts < lvalue clock'" "lvalue ?clock \<le> lvalue clock'" and h': "map_ok (hi_operations h')"
      "\<forall>he \<in> set (timeline h'). set (he_edits he) \<subseteq> insert ts E" for clock' h'
  proof -
    let ?b' = "b\<lparr>bf_snapshot := sn'\<lparr>sn_version := observe (sn_version ?sn) ts\<rparr>, bf_subscriptions := subs, bf_lamport_clock := clock', bf_history := h'\<rparr>"
    have "snapshot_holds (insert ts E) (bf_snapshot ?b') qs" using e(2) by (simp add: snapshot_holds_def slice_set_def)
    moreover have "undo_holds (sn_undo_map ?sn) (doc_of qs)"
      unfolding e(4) using undo_holds_edit [OF undo [unfolded e(3)] clock_past_fresh(2) [OF past']] .
    moreover have "clock_past clock' qs (sn_undo_map ?sn)"
    proof -
      have pl: "clock_past clock' ps (sn_undo_map ?sn)" by (rule clock_past_later [OF past c(2)])
      have okp: "\<forall>p \<in> set ps. piece_ok p" "\<forall>q \<in> set qs. piece_ok q" using h e(2) by (auto simp: snapshot_holds_def)
      have "0 < lvalue x \<and> lvalue x < lvalue clock'" if "q \<in> set qs" "touched x (fst q)" for q x
      proof (cases "x = ts")
        case False
        with touched_after [OF e(3,4) okp that] obtain p where "p \<in> set ps" "touched x (fst p)" by blast
        with pl show ?thesis unfolding clock_past_def by blast
      qed (use pos c(1) in simp)
      moreover have "lvalue x < lvalue clock'" if "recorded (sn_undo_map ?sn) (x, u) = Some n" for x u n
        using pl that unfolding clock_past_def by blast
      ultimately show ?thesis by (simp add: clock_past_def)
    qed
    moreover have "\<forall>x \<in> insert ts E. lvalue x < lvalue clock'"
    proof -
      have "\<forall>x \<in> E. lvalue x < lvalue ?clock" using o by blast
      with c show ?thesis by (auto intro: less_le_trans)
    qed
    ultimately show ?thesis using h' subs(2) vis' e(8) by (simp add: buffer_ok_def)
  qed
  from that [OF applied e(8,9,3-6) this] show ?thesis by blast
qed

lemma buffer_edit_ok:
  assumes ok: "buffer_ok E seen b ps" and fits: "buffer_fits b" and depth: "hi_transaction_depth (bf_history b) = 0"
    and edits: "edits_on 0 (buffer_text b) edits" and len: "new_text_len edits < 2 ^ 32"
  obtains b' op qs parts rest where "buffer_edit b edits started ended = Some (b', EditOp op)"
    and "buffer_ok (insert (edit_stamp b) E) seen b' qs"
    and "doc_of ps = before parts @ rest" and "doc_of qs = after (edit_stamp b) 0 parts @ rest"
    and "visible_ranges 0 parts = normalized edits"
    and "op = \<lparr>eo_timestamp = edit_stamp b, eo_version = sn_version (bf_snapshot b), eo_ranges = full_ranges 0 parts,
      eo_new_text = map (normalize \<circ> snd) edits\<rparr>"
    and "sn_version (bf_snapshot b') = observe (sn_version (bf_snapshot b)) (edit_stamp b)"
    and "sn_undo_map (bf_snapshot b') = sn_undo_map (bf_snapshot b)"
    and "bf_lamport_clock b' = Lamport (lvalue (bf_lamport_clock b) + 2) (replica_id (bf_lamport_clock b))"
    and "hi_transaction_depth (bf_history b') = 0" and "hi_redo_stack (bf_history b') = []"
    and "stack_edits (hi_undo_stack (bf_history b')) = stack_edits (hi_undo_stack (bf_history b)) @ [edit_stamp b]"
proof -
  let ?sn = "bf_snapshot b" and ?clock = "bf_lamport_clock b" and ?h = "bf_history b" and ?ts = "edit_stamp b"
  note o = ok [unfolded buffer_ok_def]
  have f: "snapshot_fits ?sn" "shallow (hi_operations ?h)" "unat (lvalue ?clock) + 2 < 2 ^ 32" using fits by (simp_all add: buffer_fits_def)
  note tv = tick_values [OF f(3)]
  have past: "clock_past ?clock ps (sn_undo_map ?sn)" using o by blast
  have past': "clock_past ?ts ps (sn_undo_map ?sn)"
    using clock_past_later [OF past, of ?ts] tv(1) by (simp add: edit_stamp_def)
  have pos: "0 < lvalue ?ts" using tv(3) by (simp add: edit_stamp_def)
  obtain sn' op subs qs parts rest where
    e: "\<And>b0. bf_snapshot b0 = ?sn \<Longrightarrow> bf_subscriptions b0 = bf_subscriptions b \<Longrightarrow>
        apply_local_edit b0 edits ?ts = Some (b0\<lparr>bf_snapshot := sn', bf_subscriptions := subs\<rparr>, op)"
      "sn_undo_map sn' = sn_undo_map ?sn" "sn_version sn' = sn_version ?sn"
      "doc_of ps = before parts @ rest" "doc_of qs = after ?ts 0 parts @ rest" "visible_ranges 0 parts = normalized edits"
      "op = \<lparr>eo_timestamp = ?ts, eo_version = sn_version ?sn, eo_ranges = full_ranges 0 parts, eo_new_text = map (normalize \<circ> snd) edits\<rparr>"
    and kept: "\<And>h clock'. lvalue ?ts < lvalue clock' \<Longrightarrow> lvalue ?clock \<le> lvalue clock' \<Longrightarrow> map_ok (hi_operations h) \<Longrightarrow>
       \<forall>he \<in> set (timeline h). set (he_edits he) \<subseteq> insert ?ts E \<Longrightarrow> buffer_ok (insert ?ts E) seen
         (b\<lparr>bf_snapshot := sn'\<lparr>sn_version := observe (sn_version ?sn) ?ts\<rparr>, bf_subscriptions := subs, bf_lamport_clock := clock', bf_history := h\<rparr>) qs"
    by (rule local_edit_ok [OF ok f(1) edits len past' pos]) (rule that)
  let ?op = "EditOp op"
  have opf: "is_edit ?op" "operation_timestamp ?op = ?ts" using e(7) by (simp_all add: is_edit_def operation_timestamp_def)
  have mok: "map_ok (hi_operations ?h)" using o by blast
  obtain h1 h2 h3 h4 he tid clock1 where
    u: "start_transaction ?h (sn_version ?sn) started ?clock = (h1, clock1, Some (fst (tick ?clock)))" "clock1 = snd (tick ?clock)"
      "history_push h1 ?op = Some h2" "push_undo h2 ?ts = Some h3" "end_transaction h3 ended = Some (h4, Some he)"
      "\<exists>h5. history_group h4 = Some (h5, Some tid) \<and> map_ok (hi_operations h5) \<and> contents (hi_operations h5) = (contents (hi_operations ?h))(?ts \<mapsto> ?op) \<and>
        hi_transaction_depth h5 = 0 \<and> hi_redo_stack h5 = [] \<and> stack_edits (hi_undo_stack h5) = stack_edits (hi_undo_stack ?h) @ [?ts] \<and>
        (\<forall>e \<in> set (hi_undo_stack h5). set (he_edits e) \<subseteq> set (stack_edits (hi_undo_stack h5)))"
    by (rule history_edit_ok [OF depth mok f(2) opf])
  then obtain h5 where t: "start_transaction ?h (sn_version ?sn) started ?clock = (h1, snd (tick ?clock), Some (fst (tick ?clock)))"
      "history_push h1 ?op = Some h2" "push_undo h2 ?ts = Some h3" "end_transaction h3 ended = Some (h4, Some he)"
      "history_group h4 = Some (h5, Some tid)" "map_ok (hi_operations h5)" "hi_transaction_depth h5 = 0" "hi_redo_stack h5 = []"
      "stack_edits (hi_undo_stack h5) = stack_edits (hi_undo_stack ?h) @ [?ts]" by blast
  let ?clock' = "Lamport (lvalue ?clock + 2) (replica_id ?clock)"
  let ?b' = "b\<lparr>bf_snapshot := sn'\<lparr>sn_version := observe (sn_version ?sn) ?ts\<rparr>, bf_subscriptions := subs, bf_lamport_clock := ?clock', bf_history := h5\<rparr>"
  have tick2: "tick (snd (tick ?clock)) = (?ts, ?clock')" by (simp add: tick_def edit_stamp_def)
  have "buffer_edit b edits started ended = Some (?b', ?op)"
    using t(1-5) e(1,3) opf(2) tick2
    by (simp add: buffer_edit_def start_transaction_at_def end_transaction_at_def Let_def)
  moreover have "\<forall>he \<in> set (timeline h5). set (he_edits he) \<subseteq> insert ?ts E"
    using o t(8,9) unfolding timeline_edits by (auto simp: stack_edits_def)
  then have "buffer_ok (insert ?ts E) seen ?b' qs" using kept [of ?clock' h5] t(6) tv(2,4) by (simp add: edit_stamp_def less_imp_le)
  ultimately show ?thesis using that e(2,4-7) t(7-9) by simp
qed

section \<open>Undo and redo\<close>

definition undo_number :: "undo_map \<Rightarrow> lamport \<Rightarrow> u32" where
  "undo_number m e = Max (insert 0 (counts_for m e (\<lambda>_. True)))"

lemma undone_odd: "undone_in m e \<longleftrightarrow> odd (undo_number m e)"
  by (simp add: undone_in_def undo_number_def odd_iff_mod_2_eq_one)

lemma undo_counts_for_ok:
  assumes "undo_ok m" and "shallow m"
  shows "distinct (map fst counts) \<Longrightarrow> \<exists>c. undo_counts_for m es counts = Some c \<and> distinct (map fst c) \<and>
    fst ` set c = set es \<union> fst ` set counts \<and>
    (\<forall>e. map_of c e = (if e \<in> set es then Some (saturating_succ (undo_number m e)) else map_of counts e))"
proof (induction es arbitrary: counts)
  case (Cons e es)
  let ?c = "AList.update e (saturating_succ (undo_number m e)) counts"
  have "distinct (map fst ?c)" by (rule distinct_update [OF Cons.prems])
  from Cons.IH [OF this] show ?case
    using undo_count_correct [OF assms, of e] by (auto simp: undo_number_def [symmetric] dom_update update_conv')
qed simp

lemma finite_counts: "finite (counts_for m e keep)"
proof -
  have "counts_for m e keep \<subseteq> Some -` range (recorded m)" by (auto simp: counts_for_def) (metis rangeI)
  moreover have "finite (Some -` range (recorded m))"
    unfolding recorded_def by (intro finite_vimageI finite_range_map_of) (simp add: inj_def)
  ultimately show ?thesis by (rule finite_subset)
qed

text \<open>Counting once more flips what is undone.\<close>

lemma undo_number_next:
  assumes "recorded m' = recorded m ++ counts_of undo" and "map_of (undo_counts undo) e = Some (saturating_succ (undo_number m e))"
    and "undo_number m e \<noteq> - 1"
  shows "undo_number m' e = undo_number m e + 1"
proof -
  let ?n = "undo_number m e" and ?C = "counts_for m e (\<lambda>_. True)" and ?C' = "counts_for m' e (\<lambda>_. True)"
  have rec: "recorded m' (e, u) = (if u = undo_timestamp undo then Some (?n + 1) else recorded m (e, u))" for u
    using assms by (simp add: counts_of_def map_add_def saturating_succ_def split: option.splits)
  have le: "c \<le> ?n" if "c \<in> insert 0 ?C" for c using that finite_counts [of m e] unfolding undo_number_def by (intro Max_ge) auto
  have lt: "?n < ?n + 1" using assms(3) by (simp add: word_Suc_greater)
  show ?thesis unfolding undo_number_def [of m' e]
  proof (rule Max_eqI)
    show "finite (insert 0 ?C')" using finite_counts by simp
    show "y \<le> ?n + 1" if "y \<in> insert 0 ?C'" for y
    proof (cases "y \<in> insert 0 ?C")
      case True
      with le [OF True] lt show ?thesis by simp
    next
      case False
      with that show ?thesis by (auto simp: counts_for_def rec split: if_splits)
    qed
    show "?n + 1 \<in> insert 0 ?C'" by (auto simp: counts_for_def rec)
  qed
qed

lemma undone_flipped:
  assumes "recorded m' = recorded m ++ counts_of undo"
    and "\<forall>e. map_of (undo_counts undo) e = (if e \<in> set es then Some (saturating_succ (undo_number m e)) else None)"
    and "\<forall>e \<in> set es. undo_number m e \<noteq> - 1"
  shows "undone_in m' e \<longleftrightarrow> (if e \<in> set es then \<not> undone_in m e else undone_in m e)"
proof (cases "e \<in> set es")
  case True
  with undo_number_next [OF assms(1)] assms(2,3) show ?thesis by (simp add: undone_odd)
next
  case False
  then have "e \<notin> fst ` set (undo_counts undo)" using assms(2) by (metis map_of_eq_None_iff)
  with undone_unchanged [OF assms(1)] False show ?thesis by simp
qed

text \<open>The undo map after a transaction is undone or redone is within the height cursors can walk.\<close>

definition undo_fits :: "text_buffer \<Rightarrow> transaction \<Rightarrow> bool" where
  "undo_fits b t \<longleftrightarrow> (\<forall>counts m. undo_counts_for (sn_undo_map (bf_snapshot b)) (tr_edit_ids t) [] = Some counts \<longrightarrow>
     undo_map_insert (sn_undo_map (bf_snapshot b)) \<lparr>undo_timestamp = bf_lamport_clock b,
       undo_version = sn_version (bf_snapshot b), undo_counts = counts\<rparr> = Some m \<longrightarrow> shallow m)"

lemma touched_undo_piece: "touched e (fst (undo_piece m ts es p)) = touched e (fst p)"
  by (simp add: undo_piece_def touched_def)

lemma clock_past_undo:
  assumes "clock_past clock ps m" and "recorded m' = recorded m ++ counts_of undo"
    and "\<forall>e \<in> fst ` set (undo_counts undo). lvalue e < lvalue clock"
  shows "clock_past clock (map (undo_piece m' ts es) ps) m'"
proof -
  have "lvalue e < lvalue clock" if "recorded m' (e, u) = Some c" for e u c
  proof -
    from that have "counts_of undo (e, u) = Some c \<or> recorded m (e, u) = Some c" unfolding assms(2) map_add_Some_iff by blast
    then show ?thesis
    proof
      assume "counts_of undo (e, u) = Some c"
      then have "(e, c) \<in> set (undo_counts undo)" by (auto simp: counts_of_def split: if_splits dest: map_of_SomeD)
      with assms(3) show ?thesis by force
    next
      assume "recorded m (e, u) = Some c"
      with assms(1) show ?thesis unfolding clock_past_def by blast
    qed
  qed
  with assms(1) show ?thesis by (auto simp: clock_past_def touched_undo_piece)
qed

lemma undo_or_redo_ok:
  assumes ok: "buffer_ok E seen b ps" and fits: "buffer_fits b" "undo_fits b t" and ids: "set (tr_edit_ids t) \<subseteq> E"
    and room: "\<forall>e \<in> set (tr_edit_ids t). undo_number (sn_undo_map (bf_snapshot b)) e \<noteq> - 1"
  obtains b' undo qs where "undo_or_redo b t = Some (b', UndoOp undo)" and "buffer_ok E seen b' qs"
    and "undo_timestamp undo = bf_lamport_clock b" and "undo_version undo = sn_version (bf_snapshot b)"
    and "\<And>e. undone_in (sn_undo_map (bf_snapshot b')) e \<longleftrightarrow>
      (if e \<in> set (tr_edit_ids t) then \<not> undone_in (sn_undo_map (bf_snapshot b)) e else undone_in (sn_undo_map (bf_snapshot b)) e)"
    and "doc_of qs = map (undo_cell (sn_undo_map (bf_snapshot b')) (undo_timestamp undo) (map fst (undo_counts undo))) (doc_of ps)"
    and "buffer_text b' = map cl_char (filter (shown_in (sn_undo_map (bf_snapshot b'))) (doc_of ps))"
    and "hi_undo_stack (bf_history b') = hi_undo_stack (bf_history b)" and "hi_redo_stack (bf_history b') = hi_redo_stack (bf_history b)"
    and "hi_transaction_depth (bf_history b') = hi_transaction_depth (bf_history b)"
    and "bf_lamport_clock b' = Lamport (lvalue (bf_lamport_clock b) + 1) (replica_id (bf_lamport_clock b))"
    and "sn_version (bf_snapshot b') = observe (sn_version (bf_snapshot b)) (bf_lamport_clock b)"
    and "fst ` set (undo_counts undo) = set (tr_edit_ids t)"
    and "\<forall>e \<in> set (tr_edit_ids t). undo_number (sn_undo_map (bf_snapshot b')) e = undo_number (sn_undo_map (bf_snapshot b)) e + 1"
proof -
  let ?clock = "bf_lamport_clock b" and ?h = "bf_history b" and ?m = "sn_undo_map (bf_snapshot b)"
  let ?sn = "(bf_snapshot b)\<lparr>sn_version := observe (sn_version (bf_snapshot b)) ?clock\<rparr>"
  note o = ok [unfolded buffer_ok_def]
  have hold: "snapshot_holds E ?sn ps" and undo: "undo_holds (sn_undo_map ?sn) (doc_of ps)"
    and past: "clock_past ?clock ps ?m" using o by (simp_all add: snapshot_holds_def slice_set_def)
  have f: "snapshot_fits ?sn" "shallow ?m" "shallow (hi_operations ?h)" "unat (lvalue ?clock) + 2 < 2 ^ 32"
    using fits(1) by (simp_all add: buffer_fits_def snapshot_fits_def)
  have um: "undo_ok ?m" using undo by (simp add: undo_holds_def)
  obtain counts where c: "undo_counts_for ?m (tr_edit_ids t) [] = Some counts" "distinct (map fst counts)" "fst ` set counts = set (tr_edit_ids t)"
      "\<forall>e. map_of counts e = (if e \<in> set (tr_edit_ids t) then Some (saturating_succ (undo_number ?m e)) else None)"
    using undo_counts_for_ok [OF um f(2), of "[]" "tr_edit_ids t"] by auto
  define u where "u = \<lparr>undo_timestamp = ?clock, undo_version = sn_version (bf_snapshot b), undo_counts = counts\<rparr>"
  have uf: "undo_timestamp u = ?clock" "undo_version u = sn_version (bf_snapshot b)" "undo_counts u = counts" by (simp_all add: u_def)
  obtain m where m: "undo_map_insert ?m u = Some m" "recorded m = recorded ?m ++ counts_of u"
    using undo_map_insert_correct [OF um f(2), of u] c(2) uf(3) by auto
  have shm: "shallow m" using fits(2) c(1) m(1) unfolding undo_fits_def u_def by blast
  have counted: "fst ` set (undo_counts u) \<subseteq> E" "distinct (map fst (undo_counts u))" using c(2,3) ids uf(3) by simp_all
  have m': "undo_map_insert (sn_undo_map ?sn) u = Some m" "shallow (sn_undo_map ?sn)" using m(1) f(2) by simp_all
  obtain sn' patch qs where a: "apply_undo ?sn u = Some (sn', patch)" "snapshot_holds E sn' qs"
      "qs = map (undo_piece m (undo_timestamp u) (map fst (undo_counts u))) ps" "sn_undo_map sn' = m" "undo_holds m (doc_of qs)"
      "doc_visible (doc_of qs) = map cl_char (filter (shown_in m) (doc_of ps))" "explained patch (doc_of ps) (doc_of qs)"
    by (rule apply_undo_ok [OF hold f(1) undo counted clock_past_fresh(3) [OF past] m'(2,1) shm]) blast
  have ver: "sn_version sn' = sn_version ?sn" using a(1) by (auto simp: apply_undo_def Let_def split: bind_splits prod.splits)
  have vis: "buffer_text b = doc_visible (doc_of ps)" "rope_str (sn_visible_text sn') = doc_visible (doc_of qs)"
    using o a(2) by (simp_all add: snapshot_holds_def)
  have "topic_inv seen (as_bytes (doc_visible (doc_of ps))) (bf_subscriptions b)" using o vis by simp
  from publish_correct [OF this, of patch] a(7) obtain subs where subs: "publish patch (bf_subscriptions b) = Some subs"
      "topic_inv seen (as_bytes (doc_visible (doc_of qs))) subs" unfolding explained_def by blast
  have mok: "map_ok (hi_operations ?h)" using o by blast
  obtain ops where ops: "history_push ?h (UndoOp u) = Some (?h\<lparr>hi_operations := ops\<rparr>)" "map_ok ops"
    using map_insert_correct [OF mok f(3), of ?clock "UndoOp u"] uf(1) by (auto simp: history_push_def operation_timestamp_def)
  let ?clock' = "Lamport (lvalue ?clock + 1) (replica_id ?clock)"
  let ?b' = "b\<lparr>bf_lamport_clock := ?clock', bf_snapshot := sn', bf_subscriptions := subs, bf_history := ?h\<lparr>hi_operations := ops\<rparr>\<rparr>"
  have "undo_or_redo b t = Some (?b', UndoOp u)"
    using c(1) a(1) subs(1) ops(1) by (simp add: undo_or_redo_def undo_operations_def tick_def u_def Let_def)
  moreover have "buffer_ok E seen ?b' qs"
  proof -
    have lt: "lvalue ?clock \<le> lvalue ?clock'" using tick_values(1) [OF f(4)] by simp
    have E: "\<forall>e \<in> E. lvalue e < lvalue ?clock" using o by blast
    then have "clock_past ?clock qs m"
      unfolding a(3) using counted(1) by (intro clock_past_undo [OF past m(2)]) blast
    from clock_past_later [OF this lt] have "clock_past ?clock' qs m" .
    moreover have "\<forall>e \<in> E. lvalue e < lvalue ?clock'" using E lt by (meson less_le_trans)
    moreover have "\<forall>he \<in> set (timeline ?h). set (he_edits he) \<subseteq> E" using o by blast
    ultimately show ?thesis using a(2,4,5) ops(2) subs(2) vis(2) by (simp add: buffer_ok_def timeline_def)
  qed
  moreover have "undone_in m e \<longleftrightarrow> (if e \<in> set (tr_edit_ids t) then \<not> undone_in ?m e else undone_in ?m e)" for e
    using undone_flipped [OF m(2) _ room] c(4) uf(3) by simp
  moreover have "doc_of qs = map (undo_cell m (undo_timestamp u) (map fst (undo_counts u))) (doc_of ps)"
    unfolding a(3) by (rule undo_piece_doc)
  moreover have "\<forall>e \<in> set (tr_edit_ids t). undo_number m e = undo_number ?m e + 1"
    using undo_number_next [OF m(2)] c(4) uf(3) room by simp
  ultimately show ?thesis using that [of ?b' u qs] a(4,6) vis(2) uf ver c(3) by simp
qed

lemma buffer_undo_ok:
  assumes ok: "buffer_ok E seen b ps" and fits: "buffer_fits b" "undo_fits b (he_transaction he)"
    and depth: "hi_transaction_depth (bf_history b) = 0" and stack: "hi_undo_stack (bf_history b) = hs @ [he]"
    and room: "\<forall>e \<in> set (he_edits he). undo_number (sn_undo_map (bf_snapshot b)) e \<noteq> - 1"
  obtains b' undo qs where "buffer_undo b = Some (b', Some (he_id he, UndoOp undo))" and "buffer_ok E seen b' qs"
    and "\<And>e. undone_in (sn_undo_map (bf_snapshot b')) e \<longleftrightarrow>
      (if e \<in> set (he_edits he) then \<not> undone_in (sn_undo_map (bf_snapshot b)) e else undone_in (sn_undo_map (bf_snapshot b)) e)"
    and "doc_of qs = map (undo_cell (sn_undo_map (bf_snapshot b')) (undo_timestamp undo) (map fst (undo_counts undo))) (doc_of ps)"
    and "buffer_text b' = map cl_char (filter (shown_in (sn_undo_map (bf_snapshot b'))) (doc_of ps))"
    and "hi_undo_stack (bf_history b') = hs" and "hi_redo_stack (bf_history b') = hi_redo_stack (bf_history b) @ [he]"
    and "hi_transaction_depth (bf_history b') = 0" and "fst ` set (undo_counts undo) = set (he_edits he)"
    and "\<forall>e \<in> set (he_edits he). undo_number (sn_undo_map (bf_snapshot b')) e = undo_number (sn_undo_map (bf_snapshot b)) e + 1"
proof -
  let ?h = "(bf_history b)\<lparr>hi_undo_stack := hs, hi_redo_stack := hi_redo_stack (bf_history b) @ [he]\<rparr>"
  let ?b = "b\<lparr>bf_history := ?h\<rparr>"
  have pop: "pop_undo (bf_history b) = Some (?h, Some he)" using pop_undo_step [OF depth stack] .
  have same: "timeline ?h = timeline (bf_history b)" by (simp add: timeline_def stack)
  have "buffer_ok E seen ?b ps" "buffer_fits ?b" "undo_fits ?b (he_transaction he)"
    using ok fits same by (simp_all add: buffer_ok_def buffer_fits_def undo_fits_def)
  moreover have "set (he_edits he) \<subseteq> E" using ok stack unfolding buffer_ok_def timeline_def by auto
  ultimately show ?thesis
    by (rule undo_or_redo_ok) (use room that pop depth in \<open>auto simp: buffer_undo_def\<close>)
qed

lemma buffer_redo_ok:
  assumes ok: "buffer_ok E seen b ps" and fits: "buffer_fits b" "undo_fits b (he_transaction he)"
    and depth: "hi_transaction_depth (bf_history b) = 0" and stack: "hi_redo_stack (bf_history b) = hs @ [he]"
    and room: "\<forall>e \<in> set (he_edits he). undo_number (sn_undo_map (bf_snapshot b)) e \<noteq> - 1"
  obtains b' undo qs where "buffer_redo b = Some (b', Some (he_id he, UndoOp undo))" and "buffer_ok E seen b' qs"
    and "\<And>e. undone_in (sn_undo_map (bf_snapshot b')) e \<longleftrightarrow>
      (if e \<in> set (he_edits he) then \<not> undone_in (sn_undo_map (bf_snapshot b)) e else undone_in (sn_undo_map (bf_snapshot b)) e)"
    and "doc_of qs = map (undo_cell (sn_undo_map (bf_snapshot b')) (undo_timestamp undo) (map fst (undo_counts undo))) (doc_of ps)"
    and "buffer_text b' = map cl_char (filter (shown_in (sn_undo_map (bf_snapshot b'))) (doc_of ps))"
    and "hi_redo_stack (bf_history b') = hs" and "hi_undo_stack (bf_history b') = hi_undo_stack (bf_history b) @ [he]"
    and "hi_transaction_depth (bf_history b') = 0" and "fst ` set (undo_counts undo) = set (he_edits he)"
    and "\<forall>e \<in> set (he_edits he). undo_number (sn_undo_map (bf_snapshot b')) e = undo_number (sn_undo_map (bf_snapshot b)) e + 1"
proof -
  let ?h = "(bf_history b)\<lparr>hi_redo_stack := hs, hi_undo_stack := hi_undo_stack (bf_history b) @ [he]\<rparr>"
  let ?b = "b\<lparr>bf_history := ?h\<rparr>"
  have pop: "pop_redo (bf_history b) = Some (?h, Some he)" using pop_redo_step [OF depth stack] .
  have same: "timeline ?h = timeline (bf_history b)" by (simp add: timeline_def stack)
  have "buffer_ok E seen ?b ps" "buffer_fits ?b" "undo_fits ?b (he_transaction he)"
    using ok fits same by (simp_all add: buffer_ok_def buffer_fits_def undo_fits_def)
  moreover have "set (he_edits he) \<subseteq> E" using ok stack unfolding buffer_ok_def timeline_def by auto
  ultimately show ?thesis
    by (rule undo_or_redo_ok) (use room that pop depth in \<open>auto simp: buffer_redo_def\<close>)
qed

end
