(* ===== verification/Buffer_Trips.thy ===== *)
theory Buffer_Trips
  imports Text_Buffer
begin

text \<open>
  Sequences of operations on a buffer: edits followed by undoing their transaction, and undoing a transaction
  followed by redoing it, show the text there was before.
\<close>

section \<open>Undoing edits\<close>

text \<open>Under an undo map that counts an edit as undone, a document shows what it showed before the edit.\<close>

lemma shown_mark: "undone_in m ts \<Longrightarrow> shown_in m (mark ts c) = shown_in m c"
  by (simp add: mark_def shown_in_def)

lemma mark_char: "cl_char (mark ts c) = cl_char c"
  by (simp add: mark_def)

lemma inserted_hidden: "undone_in m ts \<Longrightarrow> filter (shown_in m) (inserted ts i cs) = []"
  by (induction cs arbitrary: i) (simp_all add: shown_in_def)

lemma hidden_edit:
  "undone_in m ts \<Longrightarrow> map cl_char (filter (shown_in m) (after ts i parts)) = map cl_char (filter (shown_in m) (before parts))"
  by (induction ts i parts rule: after.induct) (simp_all add: inserted_hidden filter_map comp_def shown_mark mark_char)

section \<open>Transactions begun and ended explicitly\<close>

text \<open>An edit within a transaction that is open joins it: the clock ticks once, and the history is not grouped.\<close>

lemma buffer_edit_open_ok:
  assumes ok: "buffer_ok E seen b ps" and fits: "buffer_fits b" and depth: "hi_transaction_depth (bf_history b) \<noteq> 0"
    and open': "hi_undo_stack (bf_history b) \<noteq> []" and pos: "0 < lvalue (bf_lamport_clock b)"
    and edits: "edits_on 0 (buffer_text b) edits" and len: "new_text_len edits < 2 ^ 32"
  obtains b' op qs parts rest where "buffer_edit b edits started ended = Some (b', EditOp op)"
    and "eo_timestamp op = bf_lamport_clock b" and "buffer_ok (insert (bf_lamport_clock b) E) seen b' qs"
    and "doc_of ps = before parts @ rest" and "doc_of qs = after (bf_lamport_clock b) 0 parts @ rest"
    and "sn_undo_map (bf_snapshot b') = sn_undo_map (bf_snapshot b)"
    and "lvalue (bf_lamport_clock b') = lvalue (bf_lamport_clock b) + 1"
    and "hi_transaction_depth (bf_history b') = hi_transaction_depth (bf_history b)" and "hi_undo_stack (bf_history b') \<noteq> []"
proof -
  let ?sn = "bf_snapshot b" and ?h = "bf_history b" and ?ts = "bf_lamport_clock b"
  note o = ok [unfolded buffer_ok_def]
  have f: "snapshot_fits ?sn" "shallow (hi_operations ?h)" "unat (lvalue ?ts) + 2 < 2 ^ 32" using fits by (simp_all add: buffer_fits_def)
  have past: "clock_past ?ts ps (sn_undo_map ?sn)" using o by blast
  obtain sn' op subs qs parts rest where
    e: "\<And>b0. bf_snapshot b0 = ?sn \<Longrightarrow> bf_subscriptions b0 = bf_subscriptions b \<Longrightarrow>
        apply_local_edit b0 edits ?ts = Some (b0\<lparr>bf_snapshot := sn', bf_subscriptions := subs\<rparr>, op)"
      "sn_undo_map sn' = sn_undo_map ?sn" "sn_version sn' = sn_version ?sn"
      "doc_of ps = before parts @ rest" "doc_of qs = after ?ts 0 parts @ rest" "visible_ranges 0 parts = normalized edits"
      "op = \<lparr>eo_timestamp = ?ts, eo_version = sn_version ?sn, eo_ranges = full_ranges 0 parts, eo_new_text = map (normalize \<circ> snd) edits\<rparr>"
    and kept: "\<And>h clock'. lvalue ?ts < lvalue clock' \<Longrightarrow> lvalue ?ts \<le> lvalue clock' \<Longrightarrow> map_ok (hi_operations h) \<Longrightarrow>
       \<forall>he \<in> set (timeline h). set (he_edits he) \<subseteq> insert ?ts E \<Longrightarrow> buffer_ok (insert ?ts E) seen
         (b\<lparr>bf_snapshot := sn'\<lparr>sn_version := observe (sn_version ?sn) ?ts\<rparr>, bf_subscriptions := subs, bf_lamport_clock := clock', bf_history := h\<rparr>) qs"
    by (rule local_edit_ok [OF ok f(1) edits len past pos]) (rule that)
  let ?op = "EditOp op" and ?d = "hi_transaction_depth ?h" and ?us = "hi_undo_stack ?h"
  have opts: "operation_timestamp ?op = ?ts" using e(7) by (simp add: operation_timestamp_def)
  have mok: "map_ok (hi_operations ?h)" using o by blast
  obtain m where m: "map_insert (hi_operations ?h) ?ts ?op = Some m" "map_ok m" "contents m = (contents (hi_operations ?h))(?ts \<mapsto> ?op)"
    using map_insert_correct [OF mok f(2), of ?ts ?op] by blast
  let ?h5 = "?h\<lparr>hi_operations := m, hi_undo_stack := butlast ?us @ [he_extend [?ts] (last ?us)]\<rparr>"
  let ?clock' = "Lamport (lvalue ?ts + 1) (replica_id ?ts)"
  let ?b' = "b\<lparr>bf_snapshot := sn'\<lparr>sn_version := observe (sn_version ?sn) ?ts\<rparr>, bf_subscriptions := subs, bf_lamport_clock := ?clock', bf_history := ?h5\<rparr>"
  have started: "start_transaction ?h (sn_version ?sn) started ?ts = (?h\<lparr>hi_transaction_depth := ?d + 1\<rparr>, ?ts, None)"
    using depth by (simp add: start_transaction_def)
  have pushed: "history_push (?h\<lparr>hi_transaction_depth := ?d + 1\<rparr>) ?op = Some (?h\<lparr>hi_transaction_depth := ?d + 1, hi_operations := m\<rparr>)"
    using m(1) opts by (simp add: history_push_def)
  have recorded: "push_undo (?h\<lparr>hi_transaction_depth := ?d + 1, hi_operations := m\<rparr>) ?ts =
      Some (?h\<lparr>hi_transaction_depth := ?d + 1, hi_operations := m, hi_undo_stack := butlast ?us @ [he_extend [?ts] (last ?us)]\<rparr>)"
    using m(2,3) open' by (simp add: push_undo_def map_get_correct bind_require last_opt_def)
  have ended: "end_transaction (?h\<lparr>hi_transaction_depth := ?d + 1, hi_operations := m, hi_undo_stack := butlast ?us @ [he_extend [?ts] (last ?us)]\<rparr>) ended =
      Some (?h5, None)"
    using depth by (simp add: end_transaction_def bind_require)
  have tick1: "tick ?ts = (?ts, ?clock')" by (simp add: tick_def)
  have run: "buffer_edit b edits started ended = Some (?b', ?op)"
    using started pushed recorded ended e(1,3) opts tick1
    by (simp add: buffer_edit_def start_transaction_at_def end_transaction_at_def Let_def)
  have us: "?us = butlast ?us @ [last ?us]" using open' by simp
  have "stack_edits ?us = stack_edits (butlast ?us) @ he_edits (last ?us)" by (subst us) (simp add: stack_edits_def)
  then have "\<forall>he \<in> set (timeline ?h5). set (he_edits he) \<subseteq> insert ?ts E"
    using o unfolding timeline_edits by (auto simp: stack_edits_def)
  moreover have "lvalue ?ts < lvalue ?clock'" using tick_values(1) [OF f(3)] by simp
  ultimately have "buffer_ok (insert ?ts E) seen ?b' qs" using kept [of ?clock' ?h5] m(2) by simp
  with that run e(2,4,5,7) show ?thesis by simp
qed

text \<open>Starting a transaction makes an empty entry, ending one may group entries and forget what was undone.\<close>

lemma start_transaction_at_ok:
  assumes "buffer_ok E seen b ps" and "buffer_fits b" and "start_transaction_at b now = (b', tid)"
    and "hi_transaction_depth (bf_history b) \<noteq> 0 \<longrightarrow> hi_undo_stack (bf_history b) \<noteq> [] \<and> 0 < lvalue (bf_lamport_clock b)"
  shows "buffer_ok E seen b' ps" and "bf_snapshot b' = bf_snapshot b" and "lvalue (bf_lamport_clock b) \<le> lvalue (bf_lamport_clock b')"
    and "hi_undo_stack (bf_history b') \<noteq> [] \<and> 0 < lvalue (bf_lamport_clock b')"
proof -
  let ?h = "bf_history b" and ?clock = "bf_lamport_clock b"
  let ?e = "new_entry \<lparr>tr_id = ?clock, tr_edit_ids = [], tr_start = sn_version (bf_snapshot b)\<rparr> now"
  have "unat (lvalue ?clock) + 2 < 2 ^ 32" using assms(2) by (simp add: buffer_fits_def)
  note tv = tick_values [OF this]
  note o = assms(1) [unfolded buffer_ok_def]
  have past: "clock_past c ps (sn_undo_map (bf_snapshot b))" if "lvalue ?clock \<le> lvalue c" for c
    using o that by (blast intro: clock_past_later)
  have E: "\<forall>e \<in> E. lvalue e < lvalue c" if "lvalue ?clock \<le> lvalue c" for c using o that by (blast intro: less_le_trans)
  show "bf_snapshot b' = bf_snapshot b" using assms(3) by (auto simp: start_transaction_at_def split: prod.splits)
  have cases: "bf_lamport_clock b' = ?clock \<and> bf_history b' = ?h\<lparr>hi_transaction_depth := hi_transaction_depth ?h + 1\<rparr> \<and> hi_transaction_depth ?h \<noteq> 0 \<or>
      bf_lamport_clock b' = Lamport (lvalue ?clock + 1) (replica_id ?clock) \<and>
      bf_history b' = ?h\<lparr>hi_transaction_depth := hi_transaction_depth ?h + 1, hi_undo_stack := hi_undo_stack ?h @ [?e]\<rparr>"
    and rest: "b' = b\<lparr>bf_history := bf_history b', bf_lamport_clock := bf_lamport_clock b'\<rparr>"
    using assms(3) by (auto simp: start_transaction_at_def start_transaction_def tick_def Let_def split: if_splits)
  have le: "lvalue ?clock \<le> lvalue (bf_lamport_clock b')" using cases tv(1) by auto
  then show "lvalue ?clock \<le> lvalue (bf_lamport_clock b')" .
  show "hi_undo_stack (bf_history b') \<noteq> [] \<and> 0 < lvalue (bf_lamport_clock b')" using cases assms(4) tv(3) by auto
  have "hi_operations (bf_history b') = hi_operations ?h" "stack_edits (hi_undo_stack (bf_history b')) = stack_edits (hi_undo_stack ?h)"
      "hi_redo_stack (bf_history b') = hi_redo_stack ?h" using cases by (auto simp: stack_edits_def new_entry_def)
  then have "buffer_ok E seen (b\<lparr>bf_history := bf_history b', bf_lamport_clock := bf_lamport_clock b'\<rparr>) ps"
    using o past [OF le] E [OF le] by (simp add: buffer_ok_def timeline_edits)
  with rest show "buffer_ok E seen b' ps" by metis
qed

lemma end_transaction_keeps:
  assumes "end_transaction h now = Some (h', ended)"
  shows "hi_operations h' = hi_operations h" and "stack_edits (hi_undo_stack h') = stack_edits (hi_undo_stack h)"
    and "hi_redo_stack h' = hi_redo_stack h \<or> hi_redo_stack h' = []" and "hi_transaction_depth h \<noteq> 0"
    and "hi_transaction_depth h' \<noteq> 0 \<Longrightarrow> hi_undo_stack h' = hi_undo_stack h"
    and "ended \<noteq> None \<Longrightarrow> hi_undo_stack h' \<noteq> [] \<and> hi_transaction_depth h' = 0"
proof -
  let ?us = "hi_undo_stack h"
  have d: "hi_transaction_depth h \<noteq> 0" using assms by (auto simp: end_transaction_def require_def split: if_splits)
  then show "hi_transaction_depth h \<noteq> 0" .
  have "hi_operations h' = hi_operations h \<and> stack_edits (hi_undo_stack h') = stack_edits ?us \<and>
    (hi_redo_stack h' = hi_redo_stack h \<or> hi_redo_stack h' = []) \<and> (hi_transaction_depth h' \<noteq> 0 \<longrightarrow> hi_undo_stack h' = ?us) \<and>
    (ended \<noteq> None \<longrightarrow> hi_undo_stack h' \<noteq> [] \<and> hi_transaction_depth h' = 0)"
  proof (cases "hi_transaction_depth h - 1 = 0")
    case True
    with assms d have "?us \<noteq> []" by (auto simp: end_transaction_def bind_require last_opt_def split: if_splits)
    then obtain es e where us: "?us = es @ [e]" by (cases ?us rule: rev_cases) auto
    with True d assms show ?thesis
      by (cases "he_edits e = []") (auto simp: end_transaction_def bind_require last_opt_def Let_def stack_edits_def)
  next
    case False
    with assms d show ?thesis by (auto simp: end_transaction_def bind_require)
  qed
  then show "hi_operations h' = hi_operations h" "stack_edits (hi_undo_stack h') = stack_edits ?us"
    "hi_redo_stack h' = hi_redo_stack h \<or> hi_redo_stack h' = []" "hi_transaction_depth h' \<noteq> 0 \<Longrightarrow> hi_undo_stack h' = ?us"
    "ended \<noteq> None \<Longrightarrow> hi_undo_stack h' \<noteq> [] \<and> hi_transaction_depth h' = 0" by blast+
qed

lemma end_transaction_at_ok:
  assumes "buffer_ok E seen b ps" and "end_transaction_at b now = Some (b', r)"
  shows "buffer_ok E seen b' ps" and "bf_snapshot b' = bf_snapshot b" and "bf_lamport_clock b' = bf_lamport_clock b"
    and "hi_transaction_depth (bf_history b') \<noteq> 0 \<Longrightarrow> hi_undo_stack (bf_history b') = hi_undo_stack (bf_history b)"
    and "hi_transaction_depth (bf_history b') \<noteq> 0 \<Longrightarrow> hi_transaction_depth (bf_history b) \<noteq> 0"
proof -
  obtain h ended where e: "end_transaction (bf_history b) now = Some (h, ended)" using assms(2) by (auto simp: end_transaction_at_def split: bind_splits)
  note h = end_transaction_keeps [OF e]
  have b': "b' = b\<lparr>bf_history := bf_history b'\<rparr> \<and> hi_operations (bf_history b') = hi_operations h \<and>
      stack_edits (hi_undo_stack (bf_history b')) = stack_edits (hi_undo_stack h) \<and> hi_redo_stack (bf_history b') = hi_redo_stack h \<and>
      hi_transaction_depth (bf_history b') = hi_transaction_depth h \<and> (hi_transaction_depth h \<noteq> 0 \<longrightarrow> hi_undo_stack (bf_history b') = hi_undo_stack h)"
  proof (cases ended)
    case None
    with e assms(2) show ?thesis by (auto simp: end_transaction_at_def)
  next
    case (Some he)
    with h have closed: "hi_undo_stack h \<noteq> []" "hi_transaction_depth h = 0" by auto
    from history_group_correct [OF closed(1)] obtain a e1 c e' where
      g: "hi_undo_stack h = a @ e1 # c" "history_group h = Some (h\<lparr>hi_undo_stack := a @ [e']\<rparr>, Some (he_id e1))"
        "he_edits e' = stack_edits (e1 # c)" by metis
    have "stack_edits (a @ [e']) = stack_edits (hi_undo_stack h)" unfolding g(1) using g(3) by (simp add: stack_edits_def)
    with e assms(2) Some g(2) closed(2) show ?thesis by (auto simp: end_transaction_at_def Let_def)
  qed
  then have rest: "b' = b\<lparr>bf_history := bf_history b'\<rparr>" by blast
  show "bf_snapshot b' = bf_snapshot b" "bf_lamport_clock b' = bf_lamport_clock b"
    using arg_cong [OF rest, of bf_snapshot] arg_cong [OF rest, of bf_lamport_clock] by simp_all
  show "hi_transaction_depth (bf_history b') \<noteq> 0 \<Longrightarrow> hi_undo_stack (bf_history b') = hi_undo_stack (bf_history b)"
    "hi_transaction_depth (bf_history b') \<noteq> 0 \<Longrightarrow> hi_transaction_depth (bf_history b) \<noteq> 0" using b' h by auto
  have "set (stack_edits (hi_redo_stack (bf_history b'))) \<subseteq> set (stack_edits (hi_redo_stack (bf_history b)))"
    using b' h(3) by (auto simp: stack_edits_def)
  then have "buffer_ok E seen (b\<lparr>bf_history := bf_history b'\<rparr>) ps"
    using assms(1) b' [THEN conjunct2] h(1,2) by (simp add: buffer_ok_def timeline_edits) blast
  with rest show "buffer_ok E seen b' ps" by metis
qed

text \<open>
  A buffer in which edits were made, each by itself or within transactions that are started and ended, also nested,
  and the timestamps of the edits.
\<close>

inductive edit_run :: "text_buffer \<Rightarrow> lamport list \<Rightarrow> text_buffer \<Rightarrow> bool" where
  edit_run_none: "edit_run b [] b"
| edit_run_more: "\<lbrakk>edit_run b tss b1; buffer_fits b1; edits_on 0 (buffer_text b1) edits; new_text_len edits < 2 ^ 32;
    buffer_edit b1 edits started ended = Some (b2, EditOp op)\<rbrakk> \<Longrightarrow> edit_run b (tss @ [eo_timestamp op]) b2"
| edit_run_start: "\<lbrakk>edit_run b tss b1; buffer_fits b1; start_transaction_at b1 now = (b2, tid)\<rbrakk> \<Longrightarrow> edit_run b tss b2"
| edit_run_end: "\<lbrakk>edit_run b tss b1; end_transaction_at b1 now = Some (b2, r)\<rbrakk> \<Longrightarrow> edit_run b tss b2"

text \<open>What a run from \<open>b\<close> keeps, for the buffer reached, its document and the timestamps of the edits.\<close>

definition run_holds :: "(nat \<Rightarrow> nat list) \<Rightarrow> text_buffer \<Rightarrow> piece list \<Rightarrow> lamport list \<Rightarrow> lamport set \<Rightarrow> text_buffer \<Rightarrow> piece list \<Rightarrow> bool" where
  "run_holds seen b ps tss E b1 qs \<longleftrightarrow> buffer_ok E seen b1 qs \<and>
     (hi_transaction_depth (bf_history b1) \<noteq> 0 \<longrightarrow> hi_undo_stack (bf_history b1) \<noteq> [] \<and> 0 < lvalue (bf_lamport_clock b1)) \<and>
     sn_undo_map (bf_snapshot b1) = sn_undo_map (bf_snapshot b) \<and>
     lvalue (bf_lamport_clock b) \<le> lvalue (bf_lamport_clock b1) \<and> (\<forall>ts \<in> set tss. lvalue (bf_lamport_clock b) \<le> lvalue ts) \<and>
     (\<forall>m. (\<forall>ts \<in> set tss. undone_in m ts) \<longrightarrow>
        map cl_char (filter (shown_in m) (doc_of qs)) = map cl_char (filter (shown_in m) (doc_of ps)))"

lemma run_edit:
  assumes run: "run_holds seen b ps tss E b1 qs" and fits: "buffer_fits b1" and edits: "edits_on 0 (buffer_text b1) edits"
    and len: "new_text_len edits < 2 ^ 32" and step: "buffer_edit b1 edits started ended = Some (b2, EditOp op)"
  shows "\<exists>E' qs'. run_holds seen b ps (tss @ [eo_timestamp op]) E' b2 qs'"
proof -
  note a = run [unfolded run_holds_def]
  have ok: "buffer_ok E seen b1 qs" using a by blast
  have "unat (lvalue (bf_lamport_clock b1)) + 2 < 2 ^ 32" using fits by (simp add: buffer_fits_def)
  note tv = tick_values [OF this]
  obtain E' qs' parts rest where e: "buffer_ok E' seen b2 qs'" "doc_of qs = before parts @ rest"
      "doc_of qs' = after (eo_timestamp op) 0 parts @ rest" "sn_undo_map (bf_snapshot b2) = sn_undo_map (bf_snapshot b1)"
      "lvalue (bf_lamport_clock b1) \<le> lvalue (bf_lamport_clock b2)" "lvalue (bf_lamport_clock b1) \<le> lvalue (eo_timestamp op)"
      "hi_transaction_depth (bf_history b2) \<noteq> 0 \<longrightarrow> hi_undo_stack (bf_history b2) \<noteq> [] \<and> 0 < lvalue (bf_lamport_clock b2)"
  proof (cases "hi_transaction_depth (bf_history b1) = 0")
    case True
    obtain b' op' qs' parts rest where s: "buffer_edit b1 edits started ended = Some (b', EditOp op')"
        "buffer_ok (insert (edit_stamp b1) E) seen b' qs'" "doc_of qs = before parts @ rest"
        "doc_of qs' = after (edit_stamp b1) 0 parts @ rest" "eo_timestamp op' = edit_stamp b1"
        "sn_undo_map (bf_snapshot b') = sn_undo_map (bf_snapshot b1)"
        "bf_lamport_clock b' = Lamport (lvalue (bf_lamport_clock b1) + 2) (replica_id (bf_lamport_clock b1))"
        "hi_transaction_depth (bf_history b') = 0"
      by (rule buffer_edit_ok [OF ok fits True edits len, of started ended]) simp
    from s(1) step have "b' = b2" "op' = op" by simp_all
    with that [of _ qs' parts rest] s tv show ?thesis by (simp add: edit_stamp_def less_imp_le)
  next
    case False
    with a have "hi_undo_stack (bf_history b1) \<noteq> []" "0 < lvalue (bf_lamport_clock b1)" by blast+
    from buffer_edit_open_ok [OF ok fits False this edits len, of started ended] obtain b' op' qs' parts rest where
      s: "buffer_edit b1 edits started ended = Some (b', EditOp op')" "eo_timestamp op' = bf_lamport_clock b1"
        "buffer_ok (insert (bf_lamport_clock b1) E) seen b' qs'" "doc_of qs = before parts @ rest"
        "doc_of qs' = after (bf_lamport_clock b1) 0 parts @ rest" "sn_undo_map (bf_snapshot b') = sn_undo_map (bf_snapshot b1)"
        "lvalue (bf_lamport_clock b') = lvalue (bf_lamport_clock b1) + 1" "hi_undo_stack (bf_history b') \<noteq> []" by metis
    from s(1) step have "b' = b2" "op' = op" by simp_all
    with that [of _ qs' parts rest] s tv show ?thesis by (simp add: less_imp_le)
  qed
  have "map cl_char (filter (shown_in m) (doc_of qs')) = map cl_char (filter (shown_in m) (doc_of ps))"
    if "\<forall>ts \<in> set (tss @ [eo_timestamp op]). undone_in m ts" for m
  proof -
    have "map cl_char (filter (shown_in m) (doc_of qs')) = map cl_char (filter (shown_in m) (doc_of qs))"
      using that e(2,3) by (simp add: hidden_edit)
    with a that show ?thesis by simp
  qed
  with a e(1,4-7) have "run_holds seen b ps (tss @ [eo_timestamp op]) E' b2 qs'"
    unfolding run_holds_def by (auto intro: order_trans)
  then show ?thesis by blast
qed

lemma edit_run_ok:
  assumes "edit_run b tss b1" and "buffer_ok E seen b ps" and "hi_transaction_depth (bf_history b) = 0"
  shows "\<exists>E' qs. run_holds seen b ps tss E' b1 qs"
  using assms
proof (induction rule: edit_run.induct)
  case (edit_run_none b)
  then show ?case by (auto simp: run_holds_def)
next
  case (edit_run_more b tss b1 edits started ended b2 op)
  then show ?case using run_edit by blast
next
  case (edit_run_start b tss b1 now b2 tid)
  then obtain E' qs where a: "run_holds seen b ps tss E' b1 qs" by blast
  then have "buffer_ok E' seen b1 qs" by (simp add: run_holds_def)
  from start_transaction_at_ok [OF this edit_run_start.hyps(2,3)] a have "run_holds seen b ps tss E' b2 qs"
    unfolding run_holds_def by (auto intro: order_trans)
  then show ?case by blast
next
  case (edit_run_end b tss b1 now b2 r)
  then obtain E' qs where a: "run_holds seen b ps tss E' b1 qs" by blast
  then have "buffer_ok E' seen b1 qs" by (simp add: run_holds_def)
  from end_transaction_at_ok [OF this edit_run_end.hyps(2)] a have "run_holds seen b ps tss E' b2 qs"
    unfolding run_holds_def by auto
  then show ?case by blast
qed

text \<open>An edit by itself is the same as a transaction that is started, filled with that edit and ended.\<close>

lemma apply_local_edit_history:
  "apply_local_edit (self\<lparr>bf_history := h\<rparr>) edits ts = map_option (\<lambda>(s, e). (s\<lparr>bf_history := h\<rparr>, e)) (apply_local_edit self edits ts)"
  by (cases self) (auto simp: apply_local_edit_def map_conv_bind_option split: Option.bind_splits)

lemma apply_local_edit_keeps:
  "apply_local_edit self edits ts = Some (s, e) \<Longrightarrow> bf_history s = bf_history self \<and> bf_lamport_clock s = bf_lamport_clock self"
  by (auto simp: apply_local_edit_def bind_eq_Some_conv)

lemma edit_in_transaction:
  assumes edit: "buffer_edit b edits s e = Some (b3, op)" and depth: "hi_transaction_depth (bf_history b) = 0"
  shows "\<exists>b1 b2 tid r. start_transaction_at b s = (b1, tid) \<and> buffer_edit b1 edits t u = Some (b2, op) \<and> end_transaction_at b2 e = Some (b3, r)"
proof -
  obtain b1 tid where b1: "start_transaction_at b s = (b1, tid)" by (cases "start_transaction_at b s")
  let ?h = "bf_history b1" and ?ts = "fst (tick (bf_lamport_clock b1))" and ?clock = "snd (tick (bf_lamport_clock b1))"
  have d: "hi_transaction_depth ?h = 1" using b1 depth by (auto simp: start_transaction_at_def start_transaction_def Let_def tick_def)
  let ?b2 = "\<lambda>bA h op. bA\<lparr>bf_history := h, bf_snapshot := (bf_snapshot bA)\<lparr>sn_version := observe (sn_version (bf_snapshot bA)) (operation_timestamp op)\<rparr>\<rparr>"
  have run: "apply_local_edit (b1\<lparr>bf_lamport_clock := ?clock\<rparr>) edits ?ts \<bind> (\<lambda>(bA, eo).
      history_push (bf_history bA) (EditOp eo) \<bind> (\<lambda>h2. push_undo h2 (operation_timestamp (EditOp eo)) \<bind> (\<lambda>h3.
      end_transaction_at (?b2 bA h3 (EditOp eo)) e \<bind> (\<lambda>(b4, _). Some (b4, EditOp eo))))) = Some (b3, op)"
    using edit by (simp add: buffer_edit_def b1 Let_def split_def)
  then obtain bA eo where a1: "apply_local_edit (b1\<lparr>bf_lamport_clock := ?clock\<rparr>) edits ?ts = Some (bA, eo)"
    by (cases "apply_local_edit (b1\<lparr>bf_lamport_clock := ?clock\<rparr>) edits ?ts") auto
  have hA: "bf_history bA = ?h" using apply_local_edit_keeps [OF a1] by simp
  from run a1 hA obtain h2 where h2: "history_push ?h (EditOp eo) = Some h2" by (cases "history_push ?h (EditOp eo)") auto
  with run a1 hA obtain h3 where h3: "push_undo h2 (operation_timestamp (EditOp eo)) = Some h3"
    by (cases "push_undo h2 (operation_timestamp (EditOp eo))") auto
  with run a1 hA h2 obtain r where r: "end_transaction_at (?b2 bA h3 (EditOp eo)) e = Some (b3, r)" "op = EditOp eo"
    by (cases "end_transaction_at (?b2 bA h3 (EditOp eo)) e") auto
  have a: "history_push ?h op = Some h2" "push_undo h2 (operation_timestamp op) = Some h3" "end_transaction_at (?b2 bA h3 op) e = Some (b3, r)"
    using h2 h3 r by simp_all
  have d2: "hi_transaction_depth h2 = 1" using a(1) d by (auto simp: history_push_def bind_eq_Some_conv)
  have d3: "hi_transaction_depth h3 = 1" using a(2) d2 by (auto simp: push_undo_def bind_eq_Some_conv require_def split: option.splits operation.splits if_splits)
  let ?up = "hi_transaction_depth_update (\<lambda>_. 2)"
  have start: "start_transaction_at b1 t = (b1\<lparr>bf_history := ?up ?h\<rparr>, None)"
    using d by (cases b1) (simp add: start_transaction_at_def start_transaction_def)
  have push: "history_push (?up ?h) op = Some (?up h2)" using a(1) by (auto simp: history_push_def bind_eq_Some_conv)
  have undo: "push_undo (?up h2) (operation_timestamp op) = Some (?up h3)"
    using a(2) d2 by (auto simp: push_undo_def bind_eq_Some_conv require_def split: option.splits operation.splits if_splits)
  have "(?up h3)\<lparr>hi_transaction_depth := 1\<rparr> = h3" using d3 by (cases h3) simp
  with d3 have done': "end_transaction (?up h3) u = Some (h3, None)" by (simp add: end_transaction_def bind_require)
  have swap: "b1\<lparr>bf_history := ?up ?h, bf_lamport_clock := ?clock\<rparr> = b1\<lparr>bf_lamport_clock := ?clock, bf_history := ?up ?h\<rparr>" by (cases b1) simp
  have "apply_local_edit (b1\<lparr>bf_history := ?up ?h, bf_lamport_clock := ?clock\<rparr>) edits ?ts = Some (bA\<lparr>bf_history := ?up ?h\<rparr>, eo)"
    unfolding swap using apply_local_edit_history [where self = "b1\<lparr>bf_lamport_clock := ?clock\<rparr>" and h = "?up ?h" and edits = edits and ts = ?ts] a1 by simp
  then have "buffer_edit b1 edits t u = Some (?b2 bA h3 op, op)"
    using push undo done' r(2) by (simp add: buffer_edit_def start Let_def end_transaction_at_def split_def)
  with b1 a(3) show ?thesis by blast
qed

section \<open>What is shown\<close>

lemma buffer_shown:
  assumes "buffer_ok E seen b ps"
  shows "buffer_text b = map cl_char (filter (shown_in (sn_undo_map (bf_snapshot b))) (doc_of ps))"
proof -
  have "buffer_text b = doc_visible (doc_of ps)" "\<forall>c \<in> set (doc_of ps). cl_visible c \<longleftrightarrow> shown_in (sn_undo_map (bf_snapshot b)) c"
    using assms by (simp_all add: buffer_ok_def snapshot_holds_def undo_holds_def)
  with doc_visible_cells show ?thesis by metis
qed

lemma unseen_edit:
  assumes "clock_past clock ps m" and "lvalue clock \<le> lvalue e"
  shows "undo_number m e = 0" and "\<not> undone_in m e"
proof -
  have "counts_for m e (\<lambda>_. True) = {}" using assms unfolding clock_past_def counts_for_def by (blast dest: leD)
  then show "undo_number m e = 0" by (simp add: undo_number_def)
  then show "\<not> undone_in m e" by (simp add: undone_odd)
qed

lemma unseen_cell:
  assumes "buffer_ok E seen b ps" and "\<forall>e \<in> S. lvalue (bf_lamport_clock b) \<le> lvalue e"
    and "\<And>e. undone_in m e \<longleftrightarrow> (if e \<in> S then x e else undone_in (sn_undo_map (bf_snapshot b)) e)" and "c \<in> set (doc_of ps)"
  shows "shown_in m c \<longleftrightarrow> shown_in (sn_undo_map (bf_snapshot b)) c"
proof -
  obtain p where p: "p \<in> set ps" "c \<in> set (piece_cells p)" "piece_ok p"
    using assms(1,4) by (auto simp: doc_of_def buffer_ok_def snapshot_holds_def)
  have "e \<notin> S" if "cell_touched e c" for e
  proof -
    have "touched e (fst p)" using piece_cell(2) [OF p(2,3)] that by simp
    with assms(1) p(1) have "lvalue e < lvalue (bf_lamport_clock b)" by (auto simp: buffer_ok_def clock_past_def)
    with assms(2) show ?thesis by (auto dest: leD)
  qed
  then have "cl_timestamp c \<notin> S" "\<forall>e \<in> set (cl_deletions c). e \<notin> S" by (auto simp: cell_touched_def)
  with assms(3) show ?thesis by (simp add: shown_in_def)
qed

lemma edit_run_undo:
  assumes ok: "buffer_ok E seen b ps" and depth: "hi_transaction_depth (bf_history b) = 0" and run: "edit_run b tss b1"
    and depth1: "hi_transaction_depth (bf_history b1) = 0"
    and stack: "hi_undo_stack (bf_history b1) = hs @ [he]" and mine: "set (he_edits he) = set tss"
    and fits: "buffer_fits b1" "undo_fits b1 (he_transaction he)"
  shows "\<exists>b2 op E' qs. buffer_undo b1 = Some (b2, Some (he_id he, op)) \<and> buffer_text b2 = buffer_text b \<and> buffer_ok E' seen b2 qs \<and>
    hi_undo_stack (bf_history b2) = hs \<and> hi_redo_stack (bf_history b2) = hi_redo_stack (bf_history b1) @ [he]"
proof -
  let ?m = "sn_undo_map (bf_snapshot b)"
  obtain E' qs where "run_holds seen b ps tss E' b1 qs" using edit_run_ok [OF run ok depth] by blast
  then have r: "buffer_ok E' seen b1 qs" "hi_transaction_depth (bf_history b1) = 0" "sn_undo_map (bf_snapshot b1) = ?m"
      "\<forall>ts \<in> set tss. lvalue (bf_lamport_clock b) \<le> lvalue ts"
      "\<And>m. \<forall>ts \<in> set tss. undone_in m ts \<Longrightarrow> map cl_char (filter (shown_in m) (doc_of qs)) = map cl_char (filter (shown_in m) (doc_of ps))"
    using depth1 unfolding run_holds_def by blast+
  have past: "clock_past (bf_lamport_clock b) ps ?m" using ok by (simp add: buffer_ok_def)
  note new = unseen_edit [OF past]
  have room: "\<forall>e \<in> set (he_edits he). undo_number (sn_undo_map (bf_snapshot b1)) e \<noteq> - 1"
    using new(1) r(3,4) mine by simp
  obtain b2 u qs2 where u: "buffer_undo b1 = Some (b2, Some (he_id he, UndoOp u))" "buffer_ok E' seen b2 qs2"
      "\<And>e. undone_in (sn_undo_map (bf_snapshot b2)) e \<longleftrightarrow>
        (if e \<in> set (he_edits he) then \<not> undone_in (sn_undo_map (bf_snapshot b1)) e else undone_in (sn_undo_map (bf_snapshot b1)) e)"
      "buffer_text b2 = map cl_char (filter (shown_in (sn_undo_map (bf_snapshot b2))) (doc_of qs))"
      "hi_undo_stack (bf_history b2) = hs" "hi_redo_stack (bf_history b2) = hi_redo_stack (bf_history b1) @ [he]"
    by (rule buffer_undo_ok [OF r(1) fits r(2) stack room]) blast
  let ?m2 = "sn_undo_map (bf_snapshot b2)"
  have flip: "undone_in ?m2 e \<longleftrightarrow> (if e \<in> set tss then \<not> undone_in ?m e else undone_in ?m e)" for e
    using u(3) by (simp add: r(3) mine)
  have "\<forall>ts \<in> set tss. undone_in ?m2 ts" using flip new(2) r(4) by simp
  from u(4) r(5) [OF this] have "buffer_text b2 = map cl_char (filter (shown_in ?m2) (doc_of ps))" by simp
  also have "filter (shown_in ?m2) (doc_of ps) = filter (shown_in ?m) (doc_of ps)"
    using unseen_cell [OF ok r(4) flip] by (intro filter_cong) auto
  finally have "buffer_text b2 = buffer_text b" using buffer_shown [OF ok] by simp
  with u show ?thesis by blast
qed

lemma undo_then_redo:
  assumes ok: "buffer_ok E seen b ps" and fits: "buffer_fits b" "undo_fits b (he_transaction he)"
    and depth: "hi_transaction_depth (bf_history b) = 0" and stack: "hi_undo_stack (bf_history b) = hs @ [he]"
    and room: "\<forall>e \<in> set (he_edits he). undo_number (sn_undo_map (bf_snapshot b)) e < - 2"
    and undo: "buffer_undo b = Some (b1, r)" and fits1: "buffer_fits b1" "undo_fits b1 (he_transaction he)"
  shows "\<exists>b2 op qs. buffer_redo b1 = Some (b2, Some (he_id he, op)) \<and> buffer_text b2 = buffer_text b \<and> buffer_ok E seen b2 qs \<and>
    hi_undo_stack (bf_history b2) = hi_undo_stack (bf_history b) \<and> hi_redo_stack (bf_history b2) = hi_redo_stack (bf_history b)"
proof -
  let ?m = "sn_undo_map (bf_snapshot b)"
  have room1: "\<forall>e \<in> set (he_edits he). undo_number ?m e \<noteq> - 1"
    using room by (auto dest: order.asym)
  obtain b' u qs where u: "buffer_undo b = Some (b', Some (he_id he, UndoOp u))" "buffer_ok E seen b' qs"
      "\<And>e. undone_in (sn_undo_map (bf_snapshot b')) e \<longleftrightarrow> (if e \<in> set (he_edits he) then \<not> undone_in ?m e else undone_in ?m e)"
      "doc_of qs = map (undo_cell (sn_undo_map (bf_snapshot b')) (undo_timestamp u) (map fst (undo_counts u))) (doc_of ps)"
      "hi_undo_stack (bf_history b') = hs" "hi_redo_stack (bf_history b') = hi_redo_stack (bf_history b) @ [he]"
      "hi_transaction_depth (bf_history b') = 0"
      "\<forall>e \<in> set (he_edits he). undo_number (sn_undo_map (bf_snapshot b')) e = undo_number ?m e + 1"
    by (rule buffer_undo_ok [OF ok fits depth stack room1]) blast
  have b1: "b' = b1" using u(1) undo by simp
  have room2: "\<forall>e \<in> set (he_edits he). undo_number (sn_undo_map (bf_snapshot b1)) e \<noteq> - 1"
    using room u(8) unfolding b1 by (smt (verit) add_diff_cancel less_irrefl one_add_one diff_minus_eq_add minus_diff_eq)
  obtain b2 u2 qs2 where w: "buffer_redo b1 = Some (b2, Some (he_id he, UndoOp u2))" "buffer_ok E seen b2 qs2"
      "\<And>e. undone_in (sn_undo_map (bf_snapshot b2)) e \<longleftrightarrow>
        (if e \<in> set (he_edits he) then \<not> undone_in (sn_undo_map (bf_snapshot b1)) e else undone_in (sn_undo_map (bf_snapshot b1)) e)"
      "buffer_text b2 = map cl_char (filter (shown_in (sn_undo_map (bf_snapshot b2))) (doc_of qs))"
      "hi_redo_stack (bf_history b2) = hi_redo_stack (bf_history b)" "hi_undo_stack (bf_history b2) = hs @ [he]"
    by (rule buffer_redo_ok [OF u(2) [unfolded b1] fits1 u(7,6) [unfolded b1] room2]) (use u(5) b1 in auto)
  have "undone_in (sn_undo_map (bf_snapshot b2)) e = undone_in ?m e" for e using w(3) u(3) unfolding b1 by simp
  then have "shown_in (sn_undo_map (bf_snapshot b2)) = shown_in ?m" by (auto simp: shown_in_def fun_eq_iff)
  with w(4) u(4) buffer_shown [OF ok] have "buffer_text b2 = buffer_text b" by (simp add: filter_map comp_def)
  with w stack show ?thesis by auto
qed

end
