(* ===== verification/Buffer_Samples.thy ===== *)
theory Buffer_Samples
  imports Buffer_Trips Rope_Theorems
begin

text \<open>
  How high the trees of a small buffer become: the conditions of the theorems on a buffer hold again after one
  of its operations. The examples of the main theorems rest on this.
\<close>

section \<open>Ropes\<close>

lemma update_last_height: "update_last_recursive ops f t = Some (t', r) \<Longrightarrow> height t' = height t"
  by (induction ops f t arbitrary: t' r rule: update_last_recursive.induct)
    (auto simp: Let_def bind_eq_Some_conv split: if_splits prod.splits)

lemma push_chunk_height:
  assumes "rope_ok r" and "push_chunk r c = Some v"
  shows "height v \<le> Suc (height r)"
proof -
  have wf: "wf_tree rope_ops r" using assms(1) by (simp add: rope_ok_def)
  have push: "height v \<le> Suc (height t)" if "wf_tree rope_ops t" "tree_push rope_ops t x = Some v" for t x
    using rope_chunks.tree_push_correct [OF that(1), of x] that(2) by auto
  have same: "height t = height r \<and> wf_tree rope_ops t" if "update_last rope_ops f r = Some t" for f t
    using that update_last_height [of rope_ops f r] update_last_correct [OF wf, of f] by (auto simp: update_last_def)
  show ?thesis
    using assms(2) push same [of "\<lambda>_. x" for x] wf
    by (fastforce simp: push_chunk_def bind_eq_Some_conv split: option.splits prod.splits if_splits)
qed

lemma rope_append_height:
  assumes "rope_ok r" and "rope_ok u" and "height u = 0" and "length (flat u) \<le> 1" and "rope_append r u = Some v"
  shows "height v \<le> Suc (Suc (height r))"
proof -
  have wf: "wf_tree rope_ops r" "wf_tree rope_ops u" and sh: "shallow u"
    using assms(1-3) by (simp_all add: rope_ok_def shallow_def STACK_CAPACITY_def)
  have app: "height v \<le> Suc (height t)" if "wf_tree rope_ops t" "wf_tree rope_ops w" "height w = 0" "tree_append rope_ops t w = Some v" for t w
    using rope_chunks.tree_append_correct [OF that(1,2)] that(3,4) by auto
  show ?thesis
  proof (cases "flat u")
    case Nil
    with assms(5) app [OF wf assms(3)] tree_first_correct [OF wf(2)] tree_last_correct [OF wf(1)] show ?thesis
      by (auto simp: rope_append_def first_opt_def)
  next
    case (Cons c cs)
    then have cs: "cs = []" using assms(4) by simp
    obtain r' where r': "push_chunk r c = Some r'" "rope_ok r'"
      using push_chunk_holds [OF assms(1), of c] assms(2) Cons by (auto simp: rope_ok_def chunks_ok_def)
    obtain c1 c2 c3 w where w: "cursor_next unit_dim (cursor_new unit_dim u) = Some c1" "cursor_next unit_dim c1 = Some c2"
        "cursor_suffix rope_ops unit_dim c2 = Some (c3, w)" "wf_tree rope_ops w" "flat w = []"
      using skip_first_chunk [OF wf(2) sh Cons] cs by blast
    have "height w = 0" using is_empty_flat [OF w(4)] w(5) by (cases w) auto
    then have "height v \<le> Suc (height r')" if "tree_append rope_ops r' w = Some v"
      using app [OF _ w(4) _ that] r'(2) by (simp add: rope_ok_def)
    with push_chunk_height [OF assms(1) r'(1)] app [OF wf assms(3)] assms(5) w(1-3) r'(1) Cons
        tree_first_correct [OF wf(2)] tree_last_correct [OF wf(1)] show ?thesis
      by (auto simp: rope_append_def first_opt_def split: if_splits)
  qed
qed

lemma short_one_chunk:
  assumes "rope_ok r" and "str_len (rope_str r) < 61"
  shows "length (flat r) \<le> 1"
proof (rule ccontr)
  assume "\<not> ?thesis"
  then obtain a b cs where f: "flat r = a # b # cs"
    by (cases "flat r"; cases "tl (flat r)") auto
  then have "61 \<le> str_len (ck_text a)" using assms(1) by (simp add: rope_ok_def chunks_ok_def MIN_BASE_def MAX_BASE_def)
  moreover have "rope_str r = ck_text a @ concat (map ck_text (b # cs))" using f by (simp add: rope_str_def)
  ultimately show False using assms(2) by simp
qed

section \<open>Building ropes from short ones\<close>

definition low :: "nat \<Rightarrow> rope_builder \<Rightarrow> bool" where
  "low n rb \<longleftrightarrow> height (rb_visible rb) \<le> n \<and> height (rb_deleted rb) \<le> n"

definition short_ropes :: "rope \<Rightarrow> rope \<Rightarrow> bool" where
  "short_ropes v d \<longleftrightarrow> ropes_fit v d \<and> str_len (rope_str v) < 61 \<and> str_len (rope_str d) < 61"

lemma short_slice:
  assumes "rope_ok r" and "slices_fit r" and "str_len (rope_str r) < 61" and "rope_str r = a @ m @ b"
    and "rope_cursor_ok r (str_len a) c" and "rope_cursor_slice c (str_len (a @ m)) = Some (c', u)"
  shows "rope_ok u \<and> height u = 0 \<and> length (flat u) \<le> 1"
proof -
  have "rope_ok u" "rope_str u = m" using rope_cursor_slice_ok [OF assms(1,2,4,5)] assms(6) by auto
  moreover from this(2) have "str_len (rope_str u) < 61" using assms(3,4) by simp
  ultimately show ?thesis
    using short_one_chunk [of u] one_chunk_slice [OF assms(1) short_one_chunk [OF assms(1,3)] assms(5,6)] by blast
qed

lemma ropes_push_low:
  assumes short: "short_ropes v d" and at: "ropes_at v d rb pv pd nv nd"
    and src: "if was_vis then rope_str v = pv @ m @ rv else rope_str d = pd @ m @ rd"
    and push: "ropes_push rb (str_len m) was_vis is_vis = Some rb'" and n: "low n rb"
  shows "low (n + 2) rb'"
proof -
  let ?r = "if was_vis then v else d" and ?p = "if was_vis then pv else pd"
  let ?c = "if was_vis then rb_visible_cursor rb else rb_deleted_cursor rb"
  have small: "str_len (rope_str ?r) < 61" using short by (simp add: short_ropes_def)
  have ok: "rope_ok ?r" "slices_fit ?r" and c: "rope_cursor_ok ?r (str_len ?p) ?c"
    and str: "rope_str ?r = ?p @ m @ (if was_vis then rv else rd)"
    using short at src by (simp_all add: short_ropes_def ropes_fit_def ropes_at_def)
  obtain c' u where u: "rope_cursor_slice ?c (str_len (?p @ m)) = Some (c', u)"
    using rope_cursor_slice_ok [OF ok str c] by auto
  from short_slice [OF ok small str c u] have uo: "rope_ok u" "height u = 0" "length (flat u) \<le> 1" by simp_all
  have dst: "rope_ok (rb_visible rb)" "rope_ok (rb_deleted rb)" using at by (simp_all add: ropes_at_def)
  note up = rope_append_height [OF dst(1) uo] rope_append_height [OF dst(2) uo]
  show ?thesis
    using push u up n rope_cursor_ok_offset [OF c]
    by (cases was_vis; cases is_vis) (fastforce simp: ropes_push_def low_def bind_eq_Some_conv)+
qed

lemma ropes_append_low:
  assumes short: "short_ropes v d" and at: "ropes_at v d rb (doc_visible p) (doc_deleted p) nv nd"
    and v: "rope_str v = doc_visible (p @ x) @ rv" and d: "rope_str d = doc_deleted (p @ x) @ rd"
    and app: "ropes_append rb (doc_text x) = Some rb'" and n: "low n rb"
  shows "low (n + 4) rb'"
proof -
  have fit: "ropes_fit v d" using short by (simp add: short_ropes_def)
  have src: "if True then rope_str v = doc_visible p @ doc_visible x @ rv else rope_str d = doc_deleted p @ doc_visible x @ rv"
    using v by simp
  from ropes_push_ok [OF fit at src, of True] obtain rb1 where
    rb1: "ropes_push rb (str_len (doc_visible x)) True True = Some rb1"
      "ropes_at v d rb1 (doc_visible (p @ x)) (doc_deleted p) (nv @ doc_visible x) nd" by auto
  have src': "if False then rope_str v = doc_visible (p @ x) @ doc_deleted x @ rd else rope_str d = doc_deleted p @ doc_deleted x @ rd"
    using d by simp
  have "low (n + 2) rb1" by (rule ropes_push_low [OF short at src rb1(1) n])
  from ropes_push_low [OF short rb1(2) src' _ this, of False rb'] app rb1(1) show ?thesis
    by (simp add: ropes_append_def numeral_eq_Suc)
qed

lemma ropes_finish_low:
  assumes short: "short_ropes v d" and at: "ropes_at v d rb pv pd nv nd" and "rope_str v = pv" and "rope_str d = pd"
    and fin: "ropes_finish rb = Some (nv', nd')" and n: "low n rb"
  shows "height nv' \<le> n + 2 \<and> height nd' \<le> n + 2"
proof -
  have v: "rope_ok v" "slices_fit v" "str_len (rope_str v) < 61" "rope_str v = pv @ [] @ []" "rope_cursor_ok v (str_len pv) (rb_visible_cursor rb)"
    and d: "rope_ok d" "slices_fit d" "str_len (rope_str d) < 61" "rope_str d = pd @ [] @ []" "rope_cursor_ok d (str_len pd) (rb_deleted_cursor rb)"
    and ok: "rope_ok (rb_visible rb)" "rope_ok (rb_deleted rb)"
    using short at assms(3,4) by (simp_all add: short_ropes_def ropes_fit_def ropes_at_def)
  have last: "rope_ok u \<and> height u = 0 \<and> length (flat u) \<le> 1"
    if r: "rope_ok r" "slices_fit r" "str_len (rope_str r) < 61" "rope_str r = a @ [] @ []" "rope_cursor_ok r (str_len a) c"
      and u: "rope_cursor_suffix c = Some u" for r a c u
  proof -
    have "rc_rope c = r" using r(5) by (simp add: rope_cursor_ok_def)
    then have "extent len_dim (rc_rope c) = str_len (a @ [])"
      using rope_measures(2) [OF r(1)] r(4) by (simp add: rope_len_def)
    with u obtain c' where "rope_cursor_slice c (str_len (a @ [])) = Some (c', u)" by (auto simp: rope_cursor_suffix_def)
    from short_slice [OF r this] show ?thesis .
  qed
  obtain u w where u: "rope_cursor_suffix (rb_visible_cursor rb) = Some u" "rope_append (rb_visible rb) u = Some nv'"
      "rope_cursor_suffix (rb_deleted_cursor rb) = Some w" "rope_append (rb_deleted rb) w = Some nd'"
    using fin by (auto simp: ropes_finish_def bind_eq_Some_conv)
  from last [OF v u(1)] rope_append_height [OF ok(1) _ _ _ u(2)] last [OF d u(3)] rope_append_height [OF ok(2) _ _ _ u(4)] n
  show ?thesis by (auto simp: low_def)
qed

lemma empty_height: "wf_tree ops t \<Longrightarrow> flat t = [] \<Longrightarrow> height t = 0"
  using is_empty_flat [of ops t] by (cases t) auto

text \<open>A short text that no edit split, while the edit that inserted it is undone or redone.\<close>

lemma undo_one_fits:
  assumes hold: "snapshot_holds E sn [p]" and fits: "snapshot_fits sn" and undo: "undo_holds (sn_undo_map sn) (doc_of [p])"
    and es: "fst ` set (undo_counts undo) \<subseteq> E" and dist: "distinct (map fst (undo_counts undo))"
    and stamps: "fr_timestamp (fst p) \<noteq> lamport_MIN" and mine: "touched_by (map fst (undo_counts undo)) (fst p)"
    and m: "shallow (sn_undo_map sn)" "undo_map_insert (sn_undo_map sn) undo = Some m" "shallow m"
    and short: "str_len (snd p) < 61" and app: "apply_undo sn undo = Some (sn', patch)"
  shows "snapshot_fits sn'"
proof -
  note base = snapshot_base [OF hold fits]
  note h = hold [unfolded snapshot_holds_def]
  let ?ps = "[p]" and ?es = "map fst (undo_counts undo)" and ?ts = "undo_timestamp undo"
  let ?sn = "sn\<lparr>sn_undo_map := m\<rparr>" and ?v = "sn_visible_text sn" and ?d = "sn_deleted_text sn"
  have um: "undo_ok (sn_undo_map sn)" using undo by (simp add: undo_holds_def)
  with undo_map_insert_correct [OF um m(1) dist] m(2) have okm: "undo_ok m" by auto
  have b: "walkable fragment_ops (sn_fragments sn)" "flat (sn_fragments sn) = map fst ?ps" "ropes_fit ?v ?d"
      "rope_str ?v = doc_visible (doc_of ?ps)" "rope_str ?d = doc_deleted (doc_of ?ps)"
    using base by (simp_all add: edit_base_def)
  have "str_len (doc_visible (piece_cells p)) \<le> str_len (snd p)" "str_len (doc_deleted (piece_cells p)) \<le> str_len (snd p)"
    by (simp_all add: piece_cells_def)
  with b(3-5) short have sr: "short_ropes ?v ?d" by (simp add: short_ropes_def)
  obtain vc dc where c: "rope_cursor_new ?v 0 = Some vc" "rope_cursor_ok ?v 0 vc" "rope_cursor_new ?d 0 = Some dc" "rope_cursor_ok ?d 0 dc"
    using rope_cursor_new_ok [of ?v 0] rope_cursor_new_ok [of ?d 0] b(3) by (auto simp: ropes_fit_def slices_fit_def)
  have "snapshot_holds E ?sn ?ps" "snapshot_fits ?sn" using hold fits by (simp_all add: snapshot_holds_def snapshot_fits_def slice_set_def)
  from fragment_ids_ok [OF this, of ?es] es stamps mine have ids: "fragment_ids_for_edits ?sn ?es = Some [piece_id p]"
    by (simp add: touched_by_def comp_def)
  define s where "s = \<lparr>us_old = cursor_new undo_cursor_dim (sn_fragments sn), us_fragments = tree_new fragment_ops,
      us_ropes = rope_builder_new vc dc, us_patch = patch_empty\<rparr>"
  have at: "undo_at sn ?ps 0 [] s"
    using c(2,4) rope_new_ok
    by (simp add: s_def undo_at_def cursor_ready_def cursor_fresh_new ropes_at_def rope_builder_new_def explained_def patch_empty_def)
  have low0: "low 0 (us_ropes s)" by (simp add: s_def low_def rope_builder_new_def rope_new_def tree_new_def)
  have dr: "drop 0 ?ps = [] @ p # []" by simp
  have srt: "sorted_wrt (<) (map piece_id ?ps)" by simp
  from undo_fragment_ok [OF base srt okm m(3) at dr, of ?ts] obtain s1 where
    s1: "undo_fragment m ?ts (piece_id p) s = Some s1" "undo_at sn ?ps 1 [(toggled m ?ts (fst p), snd p)] s1" by auto
  obtain c1 u where u: "cursor_slice fragment_ops undo_cursor_dim (first_target (key_target (Some (piece_id p)))) Left (us_old s) = Some (c1, u)"
      "wf_tree fragment_ops u" "flat u = map fst ([] :: piece list)" "cursor_at fragment_ops undo_cursor_dim (sn_fragments sn) (0 + length ([] :: piece list)) c1"
    using slice_to_id [OF base srt _ dr] at unfolding undo_at_def by blast
  obtain ropes t where t: "ropes_append (us_ropes s) (fs_text (summary u)) = Some ropes" "tree_append fragment_ops (us_fragments s) u = Some t"
      "wf_tree fragment_ops t" "ropes_at ?v ?d ropes (doc_visible (doc_of (take 0 ?ps @ []))) (doc_deleted (doc_of (take 0 ?ps @ [])))
         (doc_visible (doc_of ([] @ []))) (doc_deleted (doc_of ([] @ [])))"
    using undo_copy [OF base at u(2,3) dr] by blast
  have frs: "height t \<le> 1" "height (us_fragments s) = 0"
    using fragments.tree_append_correct [OF _ u(2), of "us_fragments s"] empty_height [OF u(2)] u(3) t(2) at
    by (auto simp: undo_at_def s_def tree_new_def)
  have at0: "ropes_at ?v ?d (us_ropes s) (doc_visible []) (doc_deleted []) [] []" using at by (simp add: undo_at_def)
  have "fs_text (summary u) = doc_text []" using tree_text [OF u(2,3)] by simp
  with ropes_append_low [OF sr at0, of "[]" "rope_str ?v" "rope_str ?d" ropes 0] t(1) low0 have low4: "low 4 ropes" by simp
  have okp: "piece_ok p" using h by simp
  then have fl: "fr_len (fst p) = str_len (snd p)" "0 < fr_len (fst p)" using piece_len_pos [of p] by (auto simp: piece_ok_def)
  have item: "cursor_item c1 = Some (Some (fst p))" using cursor_item_at [OF u(4)] h b(2) by simp
  let ?g = "toggled m ?ts (fst p)"
  obtain ropes1 t1 where r1: "ropes_push ropes (str_len (snd p)) (fr_visible (fst p)) (fr_visible ?g) = Some ropes1" "us_ropes s1 = ropes1"
      "tree_push fragment_ops t ?g = Some t1" "us_fragments s1 = t1"
    using s1(1) u(1) t(1,2) item toggle_ok [OF okm m(3), of ?ts "fst p"] fl
    by (auto simp: undo_fragment_def ropes_push_fragment_def bind_require Let_def bind_eq_Some_conv)
  have "if fr_visible (fst p) then rope_str ?v = [] @ snd p @ [] else rope_str ?d = [] @ snd p @ []"
    using b(4,5) by (simp add: piece_cells_def)
  moreover have "ropes_at ?v ?d ropes [] [] [] []" using t(4) by simp
  ultimately have low6: "low 6 ropes1" using ropes_push_low [OF sr _ _ r1(1) low4, of "[]" "[]" "[]" "[]" "[]" "[]"] by simp
  have t1: "height t1 \<le> 2" using fragments.tree_push_correct [OF t(3), of ?g] r1(3) frs(1) by auto
  have ready1: "cursor_ready fragment_ops undo_cursor_dim (sn_fragments sn) 1 (us_old s1)" using s1(2) by (simp add: undo_at_def)
  obtain c2 w where w: "cursor_suffix fragment_ops undo_cursor_dim (us_old s1) = Some (c2, w)" "wf_tree fragment_ops w" "flat w = map fst ([] :: piece list)"
    using undo_cursor_laws.cursor_suffix_correct [OF ready1 b(1)] b(2) by auto
  obtain ropes2 t2 where t2: "ropes_append ropes1 (fs_text (summary w)) = Some ropes2" "tree_append fragment_ops t1 w = Some t2"
      "ropes_at ?v ?d ropes2 (doc_visible (doc_of ?ps)) (doc_deleted (doc_of ?ps))
         (doc_visible (doc_of [(?g, snd p)])) (doc_deleted (doc_of [(?g, snd p)]))"
    by (rule undo_copy [OF base s1(2) w(2,3), of "[]"]) (simp, simp add: r1(2,4) that)
  have at1: "ropes_at ?v ?d ropes1 (doc_visible (doc_of ?ps)) (doc_deleted (doc_of ?ps)) (doc_visible (doc_of [(?g, snd p)])) (doc_deleted (doc_of [(?g, snd p)]))"
    using s1(2) r1(2) by (simp add: undo_at_def)
  have "fs_text (summary w) = doc_text []" using tree_text [OF w(2,3)] by simp
  with ropes_append_low [OF sr at1, of "[]" "[]" "[]" ropes2 6] t2(1) low6 b(4,5) have low10: "low 10 ropes2" by simp
  obtain nv nd where n: "ropes_finish ropes2 = Some (nv, nd)" "rope_ok nv" "rope_str nv = doc_visible (doc_of [(?g, snd p)])"
      "rope_ok nd" "rope_str nd = doc_deleted (doc_of [(?g, snd p)])"
    using ropes_finish_ok [OF b(3) t2(3) b(4,5)] by blast
  have "height t2 \<le> 3" using fragments.tree_append_correct [OF _ w(2), of t1] empty_height [OF w(2)] w(3) t1 t2(2) s1(2) r1(4)
    by (auto simp: undo_at_def)
  moreover have "height nv \<le> 12" "height nd \<le> 12" using ropes_finish_low [OF sr t2(3) b(4,5) n(1) low10] by simp_all
  moreover have "str_len (rope_str nv) < 61" "str_len (rope_str nd) < 61" using n(3,5) short by (simp_all add: piece_cells_def)
  moreover have "sn' = sn\<lparr>sn_undo_map := m, sn_fragments := t2, sn_visible_text := nv, sn_deleted_text := nd\<rparr>"
    using app m(2) c(1,3) ids s1(1) w(1) t2(1,2) n(1) r1(2,4)
    by (simp add: apply_undo_def Let_def s_def [symmetric])
  ultimately show ?thesis
    using one_chunk_fits [OF n(2) _ short_one_chunk [OF n(2)]] one_chunk_fits [OF n(4) _ short_one_chunk [OF n(4)]] fits
    by (simp add: snapshot_fits_def shallow_def STACK_CAPACITY_def)
qed

section \<open>Examples\<close>

text \<open>A buffer on the sample rope whose text can be undone as one transaction.\<close>


lemma first_operation: "map_option height (map_insert map_new (Lamport 2 LOCAL) (v :: operation)) = Some 0"
  by code_simp

definition base_edit :: lamport where
  "base_edit = lamport_new LOCAL"

definition base_entry :: history_entry where
  "base_entry = new_entry \<lparr>tr_id = Lamport 1 (ReplicaId 9), tr_edit_ids = [base_edit], tr_start = global_new\<rparr> 0"

definition sample_buffer :: text_buffer where
  "sample_buffer = (let b = the (buffer_new_normalized LOCAL 1 Unix sample_rope) in
     b\<lparr>bf_snapshot := (bf_snapshot b)\<lparr>sn_insertion_slices := set_from_ordered_entries [InsertionSlice base_edit base_edit 0 7]\<rparr>,
       bf_history := (bf_history b)\<lparr>hi_undo_stack := [base_entry]\<rparr>\<rparr>)"

lemma sample_slices: "slices_hold {base_edit} {InsertionSlice base_edit base_edit 0 7} (doc_of [(first_fragment sample, sample)])"
proof -
  have len: "str_len sample = 7" by (simp add: sample_def len_utf8_def)
  have "cl_timestamp c = base_edit \<and> cl_deletions c = [] \<and> cl_offset c < 7" if "c \<in> set (doc_of [(first_fragment sample, sample)])" for c
    using that cells_fields [of c "first_fragment sample" 0 sample] cells_offset [of c "first_fragment sample" 0 sample] len
    by (auto simp: piece_cells_def first_fragment_def base_edit_def)
  moreover have "\<exists>c. c \<in> set (doc_of [(first_fragment sample, sample)])" by (auto simp: piece_cells_def sample_def)
  ultimately show ?thesis by (auto simp: slices_hold_def covers_def cell_key_def cell_touched_def)
qed

lemma first_undo_counts: "undo_counts_for undo_map_new [base_edit] [] = Some [(base_edit, 1)]"
  unfolding base_edit_def by code_simp

definition undone_map :: undo_map where
  "undone_map = Leaf (base_edit, Lamport 2 LOCAL) [\<lparr>um_key = (base_edit, Lamport 2 LOCAL), um_undo_count = 1\<rparr>] [(base_edit, Lamport 2 LOCAL)]"

lemma first_undo_map: "undo_map_insert undo_map_new \<lparr>undo_timestamp = Lamport 2 LOCAL, undo_version = v, undo_counts = [(base_edit, 1)]\<rparr> = Some undone_map"
  unfolding undone_map_def base_edit_def by code_simp

lemma second_undo_counts: "undo_counts_for undone_map [base_edit] [] = Some [(base_edit, 2)]"
  unfolding undone_map_def base_edit_def by code_simp

lemma second_undo_map: "map_option height (undo_map_insert undone_map \<lparr>undo_timestamp = Lamport 3 LOCAL, undo_version = v, undo_counts = [(base_edit, 2)]\<rparr>) = Some 0"
  unfolding undone_map_def base_edit_def by code_simp

lemma sample_slice_set:
  "map_ok (set_from_ordered_entries [InsertionSlice base_edit base_edit 0 7])"
  "dom (contents (set_from_ordered_entries [InsertionSlice base_edit base_edit 0 7])) = {InsertionSlice base_edit base_edit 0 7}"
  "shallow (set_from_ordered_entries [InsertionSlice base_edit base_edit 0 7])"
proof -
  show "shallow (set_from_ordered_entries [InsertionSlice base_edit base_edit 0 7])" unfolding base_edit_def by code_simp
qed (use from_ordered_entries_correct [of "[(InsertionSlice base_edit base_edit 0 7, ())]"] in \<open>simp_all add: set_from_ordered_entries_def\<close>)

lemma sample_new_buffer:
  obtains b where "buffer_new_normalized LOCAL 1 Unix sample_rope = Some b" and "buffer_ok {} seen b [(first_fragment sample, sample)]"
    and "buffer_text b = sample" and "buffer_fits b" and "bf_history b = history_new sample_rope"
    and "bf_lamport_clock b = Lamport 2 LOCAL" and "sn_undo_map (bf_snapshot b) = undo_map_new"
proof -
  have s: "rope_ok sample_rope" "rope_str sample_rope = sample" "slices_fit sample_rope" by (rule sample_rope_facts)+
  have len: "str_len (rope_str sample_rope) < 2 ^ 32" by (simp add: s(2) sample_def len_utf8_def)
  obtain b ps where b: "buffer_new_normalized LOCAL 1 Unix sample_rope = Some b" "buffer_ok {} seen b ps"
      "buffer_text b = rope_str sample_rope" "sn_visible_text (bf_snapshot b) = sample_rope" "sn_deleted_text (bf_snapshot b) = rope_new"
      "bf_history b = history_new sample_rope"
      "ps = (if rope_str sample_rope = [] then [] else [(first_fragment (rope_str sample_rope), rope_str sample_rope)])"
      "bf_lamport_clock b = (if rope_str sample_rope = [] then lamport_new LOCAL else lamport_observe (lamport_new LOCAL) (lamport_new LOCAL))"
      "height (sn_fragments (bf_snapshot b)) \<le> 1" "height (sn_insertions (bf_snapshot b)) \<le> 1"
      "sn_insertion_slices (bf_snapshot b) = map_new" "sn_undo_map (bf_snapshot b) = undo_map_new"
    by (rule buffer_new_normalized_ok [OF s(1) len, of LOCAL 1 Unix seen])
  have ne: "sample \<noteq> []" by (simp add: sample_def)
  have clock: "bf_lamport_clock b = Lamport 2 LOCAL" using b(8) ne by (simp add: s(2) lamport_observe_def lamport_new_def)
  have "slices_fit rope_new" using one_chunk_fits [OF rope_new_ok(1)] by (simp add: rope_new_def tree_new_def)
  then have "buffer_fits b"
    using b(4-6,9-12) s(3) clock
    by (simp add: buffer_fits_def snapshot_fits_def shallow_def STACK_CAPACITY_def history_new_def) (simp add: map_new_def undo_map_new_def tree_new_def)
  with that b ne clock s(2) show ?thesis by simp
qed

lemma sample_buffer_facts:
  "buffer_ok {base_edit} seen sample_buffer [(first_fragment sample, sample)]" "buffer_fits sample_buffer"
  "hi_undo_stack (bf_history sample_buffer) = [] @ [base_entry]" "hi_redo_stack (bf_history sample_buffer) = []"
  "hi_transaction_depth (bf_history sample_buffer) = 0" "hi_operations (bf_history sample_buffer) = map_new"
  "bf_lamport_clock sample_buffer = Lamport 2 LOCAL" "sn_undo_map (bf_snapshot sample_buffer) = undo_map_new" "buffer_text sample_buffer = sample"
proof -
  obtain b where b: "buffer_new_normalized LOCAL 1 Unix sample_rope = Some b" "buffer_ok {} seen b [(first_fragment sample, sample)]"
      "buffer_text b = sample" "buffer_fits b" "bf_history b = history_new sample_rope" "bf_lamport_clock b = Lamport 2 LOCAL"
      "sn_undo_map (bf_snapshot b) = undo_map_new"
    by (rule sample_new_buffer)
  have sb: "sample_buffer = b\<lparr>bf_snapshot := (bf_snapshot b)\<lparr>sn_insertion_slices := set_from_ordered_entries [InsertionSlice base_edit base_edit 0 7]\<rparr>,
       bf_history := (history_new sample_rope)\<lparr>hi_undo_stack := [base_entry]\<rparr>\<rparr>"
    using b(1,5) by (simp add: sample_buffer_def)
  have "topic_inv seen (as_bytes (buffer_text b)) (bf_subscriptions b)" using b(2) by (simp add: buffer_ok_def)
  then have topic: "topic_inv seen (as_bytes (buffer_text sample_buffer)) (bf_subscriptions sample_buffer)" by (simp add: sb)
  have snap: "snapshot_holds {base_edit} (bf_snapshot sample_buffer) [(first_fragment sample, sample)]"
    using b(2) sample_slice_set sample_slices by (simp add: sb buffer_ok_def snapshot_holds_def slice_set_def)
  show "buffer_ok {base_edit} seen sample_buffer [(first_fragment sample, sample)]"
    using b(2,5,6) snap topic unfolding buffer_ok_def
    by (simp add: sb timeline_def history_new_def base_entry_def new_entry_def base_edit_def lamport_new_def)
  show "buffer_fits sample_buffer"
    using b(4,5) sample_slice_set(3) by (simp add: sb buffer_fits_def snapshot_fits_def history_new_def)
  show "hi_undo_stack (bf_history sample_buffer) = [] @ [base_entry]" "hi_redo_stack (bf_history sample_buffer) = []"
    "hi_transaction_depth (bf_history sample_buffer) = 0" "hi_operations (bf_history sample_buffer) = map_new"
    "bf_lamport_clock sample_buffer = Lamport 2 LOCAL" "sn_undo_map (bf_snapshot sample_buffer) = undo_map_new" "buffer_text sample_buffer = sample"
    using b by (simp_all add: sb history_new_def)
qed

lemma undo_one_buffer_fits:
  assumes ok: "buffer_ok E seen b [p]" and fits: "buffer_fits b" "undo_fits b t" and ids: "set (tr_edit_ids t) \<subseteq> E"
    and mine: "e \<in> set (tr_edit_ids t)" "touched e (fst p)" and short: "str_len (snd p) < 61"
    and ops: "\<And>op. \<exists>u. map_insert (hi_operations (bf_history b)) (bf_lamport_clock b) op = Some u \<and> shallow u"
    and clock: "unat (lvalue (bf_lamport_clock b)) + 3 < 2 ^ 32" and run: "undo_or_redo b t = Some (b', op)"
  shows "buffer_fits b'" and "\<exists>counts. undo_counts_for (sn_undo_map (bf_snapshot b)) (tr_edit_ids t) [] = Some counts \<and>
      undo_map_insert (sn_undo_map (bf_snapshot b)) \<lparr>undo_timestamp = bf_lamport_clock b, undo_version = sn_version (bf_snapshot b),
        undo_counts = counts\<rparr> = Some (sn_undo_map (bf_snapshot b'))"
    and "bf_lamport_clock b' = Lamport (lvalue (bf_lamport_clock b) + 1) (replica_id (bf_lamport_clock b))"
proof -
  let ?clock = "bf_lamport_clock b" and ?h = "bf_history b" and ?m = "sn_undo_map (bf_snapshot b)"
  let ?sn = "(bf_snapshot b)\<lparr>sn_version := observe (sn_version (bf_snapshot b)) ?clock\<rparr>"
  note o = ok [unfolded buffer_ok_def]
  have hold: "snapshot_holds E ?sn [p]" and undo: "undo_holds (sn_undo_map ?sn) (doc_of [p])" and past: "clock_past ?clock [p] ?m"
    using o by (simp_all add: snapshot_holds_def slice_set_def)
  have f: "snapshot_fits ?sn" "shallow ?m" using fits(1) by (simp_all add: buffer_fits_def snapshot_fits_def)
  have um: "undo_ok ?m" using undo by (simp add: undo_holds_def)
  obtain counts where c: "undo_counts_for ?m (tr_edit_ids t) [] = Some counts" "distinct (map fst counts)" "fst ` set counts = set (tr_edit_ids t)"
    using undo_counts_for_ok [OF um f(2), of "[]" "tr_edit_ids t"] by auto
  define u where "u = \<lparr>undo_timestamp = ?clock, undo_version = sn_version (bf_snapshot b), undo_counts = counts\<rparr>"
  have uf: "undo_timestamp u = ?clock" "undo_counts u = counts" by (simp_all add: u_def)
  obtain m where m: "undo_map_insert ?m u = Some m" using undo_map_insert_correct [OF um f(2), of u] c(2) uf(2) by auto
  have shm: "shallow m" using fits(2) c(1) m unfolding undo_fits_def u_def by blast
  obtain sn' patch subs ops' where r: "apply_undo ?sn u = Some (sn', patch)" "map_insert (hi_operations ?h) ?clock (UndoOp u) = Some ops'"
      "b' = b\<lparr>bf_lamport_clock := snd (tick ?clock), bf_snapshot := sn', bf_subscriptions := subs, bf_history := ?h\<lparr>hi_operations := ops'\<rparr>\<rparr>"
    using run c(1) by (auto simp: undo_or_redo_def undo_operations_def history_push_def operation_timestamp_def u_def tick_def Let_def bind_eq_Some_conv)
  have es: "fst ` set (undo_counts u) \<subseteq> E" "distinct (map fst (undo_counts u))" "touched_by (map fst (undo_counts u)) (fst p)"
    using c(2,3) ids mine uf(2) by (auto simp: touched_by_def)
  have ts: "fr_timestamp (fst p) \<noteq> lamport_MIN" using clock_past_fresh(3) [OF past] by simp
  have m': "shallow (sn_undo_map ?sn)" "undo_map_insert (sn_undo_map ?sn) u = Some m" using f(2) m by simp_all
  have "snapshot_fits sn'" by (rule undo_one_fits [OF hold f(1) undo es(1,2) ts es(3) m' shm short r(1)])
  moreover have map_kept: "sn_undo_map sn' = m"
    by (rule apply_undo_ok [OF hold f(1) undo es(1,2) _ m' shm]) (use ts r(1) in auto)
  moreover have "shallow ops'" using ops [of "UndoOp u"] r(2) by auto
  moreover have "unat (lvalue ?clock + 1) = unat (lvalue ?clock) + 1" using clock by (simp add: unat_word_ariths)
  ultimately show "buffer_fits b'" using r(1,3) shm clock by (simp add: buffer_fits_def tick_def)
  show "\<exists>counts. undo_counts_for ?m (tr_edit_ids t) [] = Some counts \<and> undo_map_insert ?m \<lparr>undo_timestamp = ?clock,
      undo_version = sn_version (bf_snapshot b), undo_counts = counts\<rparr> = Some (sn_undo_map (bf_snapshot b'))"
    using c(1) m r(1,3) map_kept by (auto simp: u_def)
  show "bf_lamport_clock b' = Lamport (lvalue ?clock + 1) (replica_id ?clock)" using r(3) by (simp add: tick_def)
qed

lemma sample_undo_fits: "undo_fits sample_buffer (he_transaction base_entry)"
  using first_undo_counts first_undo_map [of "sn_version (bf_snapshot sample_buffer)"]
  by (auto simp: undo_fits_def sample_buffer_facts(7,8) base_entry_def new_entry_def undone_map_def shallow_def STACK_CAPACITY_def)

lemma sample_room: "\<forall>e \<in> set (he_edits base_entry). undo_number (sn_undo_map (bf_snapshot sample_buffer)) e = 0"
  by (simp add: undo_number_def counts_for_def recorded_new sample_buffer_facts(8))

lemma sample_undone:
  obtains b1 r where "buffer_undo sample_buffer = Some (b1, r)" and "buffer_fits b1" and "undo_fits b1 (he_transaction base_entry)"
proof -
  note s = sample_buffer_facts
  have room: "\<forall>e \<in> set (he_edits base_entry). undo_number (sn_undo_map (bf_snapshot sample_buffer)) e \<noteq> - 1"
    using sample_room by simp
  obtain b1 r where b1: "buffer_undo sample_buffer = Some (b1, r)"
    by (rule buffer_undo_ok [OF s(1,2) sample_undo_fits s(5,3) room])
  let ?h = "(bf_history sample_buffer)\<lparr>hi_undo_stack := [], hi_redo_stack := hi_redo_stack (bf_history sample_buffer) @ [base_entry]\<rparr>"
  let ?b = "sample_buffer\<lparr>bf_history := ?h\<rparr>"
  have pop: "pop_undo (bf_history sample_buffer) = Some (?h, Some base_entry)" using pop_undo_step [OF s(5,3)] .
  obtain op where run: "undo_or_redo ?b (he_transaction base_entry) = Some (b1, op)"
    using b1 pop by (auto simp: buffer_undo_def bind_eq_Some_conv)
  have "timeline ?h = timeline (bf_history sample_buffer)" by (simp add: timeline_def s(3))
  then have ok: "buffer_ok {base_edit} seen ?b [(first_fragment sample, sample)]" "buffer_fits ?b" "undo_fits ?b (he_transaction base_entry)" for seen
    using s(1,2) sample_undo_fits by (simp_all add: buffer_ok_def buffer_fits_def undo_fits_def)
  have ids: "set (tr_edit_ids (he_transaction base_entry)) \<subseteq> {base_edit}" "base_edit \<in> set (tr_edit_ids (he_transaction base_entry))"
    by (simp_all add: base_entry_def new_entry_def)
  have mine: "touched base_edit (fst (first_fragment sample, sample))" by (simp add: touched_def first_fragment_def base_edit_def)
  have short: "str_len (snd (first_fragment sample, sample)) < 61" by (simp add: sample_def len_utf8_def)
  have ops: "\<exists>u. map_insert (hi_operations (bf_history ?b)) (bf_lamport_clock ?b) op = Some u \<and> shallow u" for op
    using first_operation [of op] by (auto simp: s(6,7) shallow_def STACK_CAPACITY_def)
  have clock: "unat (lvalue (bf_lamport_clock ?b)) + 3 < 2 ^ 32" by (simp add: s(7))
  note f = undo_one_buffer_fits [OF ok ids(1,2) mine short ops clock run]
  have m: "sn_undo_map (bf_snapshot b1) = undone_map"
    using f(2) first_undo_counts first_undo_map by (auto simp: s(7,8) base_entry_def new_entry_def)
  have "undo_fits b1 (he_transaction base_entry)"
    using second_undo_counts second_undo_map [of "sn_version (bf_snapshot b1)"] f(3)
    by (auto simp: undo_fits_def m s(7) base_entry_def new_entry_def shallow_def STACK_CAPACITY_def)
  with that b1 f(1) show ?thesis by blast
qed

end
