(* ===== verification/Buffer_Typing.thy ===== *)
theory Buffer_Typing
  imports Buffer_Samples
begin

text \<open>
  An example of typing: a character is inserted into an empty buffer. The operation is followed through to show
  that the buffer it leaves is one on which the theorems apply again.
\<close>

section \<open>Small trees\<close>

lemma one_item_height: "length xs \<le> 1 \<Longrightarrow> height (tree_from_iter ops xs) = 0"
  by (cases xs) (simp_all add: tree_from_iter_def levels_loop.simps [of _ _ "[]"] levels_loop.simps [of _ _ "[_]"] tree_new_def)

lemma push_to_empty_height:
  assumes r: "rope_ok r" "rope_str r = []" and push: "rope_push r s = Some v" and s: "str_len s < 61"
  shows "height v \<le> Suc 0"
proof -
  have wf: "wf_tree rope_ops r" and flat: "flat r = []"
    using r by (auto simp: rope_ok_def rope_str_def chunks_ok_def)
  have h: "height r = 0" by (rule empty_height [OF wf flat])
  have last: "tree_last r = Some None" using tree_last_correct [OF wf] flat by (simp add: last_opt_def)
  show ?thesis
  proof (cases "s = []")
    case False
    have "\<not> NUM_CHUNKS * MAX_BASE - NUM_CHUNKS * 4 < str_len s" using s by (simp add: NUM_CHUNKS_def MAX_BASE_def)
    then obtain cs where cs: "tree_append rope_ops r (tree_from_iter rope_ops cs) = Some v"
      using push last False by (auto simp: rope_push_def tree_extend_def bind_eq_Some_conv split: if_splits)
    have "rope_ok v" "rope_str v = s" using rope_push_holds [OF r(1), of s] push r(2) by (auto simp: holds_def)
    with short_one_chunk [of v] s have "length (flat v) \<le> 1" by simp
    moreover have "flat v = cs"
      using rope_chunks.tree_append_correct [OF wf, of "tree_from_iter rope_ops cs"] rope_chunks.tree_from_iter_correct [of cs] cs flat by auto
    ultimately have "height (tree_from_iter rope_ops cs) = 0" using one_item_height by simp
    with rope_chunks.tree_append_correct [OF wf, of "tree_from_iter rope_ops cs"] rope_chunks.tree_from_iter_correct [of cs] cs h
    show ?thesis by auto
  qed (use push last h in \<open>auto simp: rope_push_def\<close>)
qed

definition empty_cursor :: "(fragment, fragment_summary, fragment_text_summary) cursor" where
  "empty_cursor = \<lparr>cu_tree = tree_new fragment_ops, cu_stack = [], cu_position = doc_text [], cu_did_seek = True, cu_at_end = True\<rparr>"

lemma slice_empty:
  "cursor_slice fragment_ops fragment_text_dim (visible_target 0) Right (cursor_new fragment_text_dim (tree_new fragment_ops)) =
     Some (empty_cursor, tree_new fragment_ops)"
  "cursor_suffix fragment_ops fragment_text_dim empty_cursor = Some (empty_cursor, tree_new fragment_ops)"
  "cursor_item empty_cursor = Some None" "cursor_end fragment_text_dim empty_cursor = Some (doc_text [])"
  by code_simp+

section \<open>The first insertion into an empty buffer\<close>

definition first_stamp :: lamport where
  "first_stamp = Lamport 2 LOCAL"

definition empty_snapshot :: buffer_snapshot where
  "empty_snapshot = \<lparr>sn_visible_text = rope_new, sn_deleted_text = rope_new, sn_fragments = tree_new fragment_ops,
     sn_insertions = tree_new insertion_ops, sn_insertion_slices = map_new, sn_undo_map = undo_map_new, sn_version = global_new,
     sn_remote_id = 1, sn_replica_id = LOCAL, sn_line_ending = Unix\<rparr>"

definition typed_fragment :: fragment where
  "typed_fragment = \<lparr>fr_id = between locator_min locator_max, fr_timestamp = first_stamp, fr_insertion_offset = 0, fr_len = 1,
     fr_visible = True, fr_deletions = [], fr_max_undos = version_new\<rparr>"

lemma first_indexes:
  "map_option (height \<circ> fst) (tree_edit insertion_ops insertion_dim insertion_fragment_key (tree_new insertion_ops) [insert_new typed_fragment]) = Some 0"
  "map_option height (set_extend map_new [InsertionSlice first_stamp first_stamp 0 1]) = Some 0"
  unfolding typed_fragment_def first_stamp_def by code_simp+

lemma first_slice: "slice_from_fragment first_stamp typed_fragment = Some (InsertionSlice first_stamp first_stamp 0 1)"
  by (simp add: slice_from_fragment_def typed_fragment_def u32_add_def)

lemma empty_builder: "builder_new (tree_new fragment_ops) = \<lparr>fb_chunks = [], fb_summary = fragment_summary_default\<rparr>"
  by (simp add: builder_new_def) (simp add: tree_new_def fragment_ops_def)

lemma first_loop:
  assumes "new_max_id s = locator_min" and "es_insertion_offset s = 0"
  shows "push_fragments_loop [97] first_stamp locator_max first_stamp 0 s =
    Some (s\<lparr>es_slices := es_slices s @ [InsertionSlice first_stamp first_stamp 0 1], es_insertions := es_insertions s @ [insert_new typed_fragment],
      es_fragments := builder_push (es_fragments s) typed_fragment, es_insertion_offset := 1\<rparr>)"
proof -
  have f: "\<lparr>fr_id = between (new_max_id s) locator_max, fr_timestamp = first_stamp, fr_insertion_offset = 0,
      fr_len = Suc 0, fr_visible = True, fr_deletions = [], fr_max_undos = version_new\<rparr> = typed_fragment"
    using assms by (simp add: typed_fragment_def)
  have stop: "push_fragments_loop [97] first_stamp locator_max first_stamp (Suc 0) t = Some t" for t :: "'z splice_state_scheme"
    by (subst push_fragments_loop.simps) (simp add: len_utf8_def)
  have m: "Suc 0 \<le> MAX_INSERTION_LEN" "min (Suc 0) MAX_INSERTION_LEN = Suc 0" by (simp_all add: MAX_INSERTION_LEN_def)
  show ?thesis
    using stop assms(2) first_slice
    by (subst push_fragments_loop.simps) (simp add: Let_def len_utf8_def m usize_sub_def f u32_add_def as_u32_def)
qed

lemma first_edit_fits:
  assumes edit: "apply_edit_internal empty_snapshot [((0, 0), [97])] first_stamp = Some (sn', op, patch)"
  shows "snapshot_fits sn'"
proof -
  have new: "rope_ok rope_new" "rope_str rope_new = []" "slices_fit rope_new" "shallow rope_new"
    using rope_new_ok one_chunk_fits [OF rope_new_ok(1)]
    by (simp_all add: rope_new_def tree_new_def shallow_def STACK_CAPACITY_def)
  have sr: "short_ropes rope_new rope_new" using new by (simp add: short_ropes_def ropes_fit_def)
  then have fit: "ropes_fit rope_new rope_new" by (simp add: short_ropes_def)
  obtain c where c: "rope_cursor_new rope_new 0 = Some c" "rope_cursor_ok rope_new 0 c"
    using rope_cursor_new_ok [OF new(1,4), of 0] by auto
  have at: "ropes_at rope_new rope_new (rope_builder_new c c) (doc_visible []) (doc_deleted []) [] []"
    using c new by (simp add: ropes_at_def rope_builder_new_def)
  have strs: "rope_str rope_new = doc_visible ([] @ []) @ []" "rope_str rope_new = doc_deleted ([] @ []) @ []" by (simp_all add: new)
  obtain r0 where r0: "ropes_append (rope_builder_new c c) (doc_text []) = Some r0" "ropes_at rope_new rope_new r0 [] [] [] []"
    using ropes_append_ok [OF fit at strs] by auto
  have low0: "low 0 (rope_builder_new c c)" by (simp add: low_def rope_builder_new_def rope_new_def tree_new_def)
  have low4: "low 4 r0" using ropes_append_low [OF sr at strs r0(1) low0] by simp
  obtain r1 where r1: "ropes_push_str r0 [97] = Some r1" "ropes_at rope_new rope_new r1 [] [] [97] []"
    using ropes_push_str_ok [OF r0(2), of "[97]"] by auto
  have "rope_ok (rb_visible r0)" "rope_str (rb_visible r0) = []" using r0(2) by (simp_all add: ropes_at_def)
  from push_to_empty_height [OF this, of "[97]" "rb_visible r1"] r1(1) low4 have low4': "low 4 r1"
    by (auto simp: ropes_push_str_def low_def len_utf8_def bind_eq_Some_conv)
  have at1: "ropes_at rope_new rope_new r1 (doc_visible []) (doc_deleted []) [97] []" using r1(2) by simp
  obtain r2 where r2: "ropes_append r1 (doc_text []) = Some r2" "ropes_at rope_new rope_new r2 [] [] [97] []"
    using ropes_append_ok [OF fit at1 strs] by auto
  have low8: "low 8 r2" using ropes_append_low [OF sr at1 strs r2(1) low4'] by simp
  obtain nv nd where n: "ropes_finish r2 = Some (nv, nd)" "rope_ok nv" "rope_str nv = [97]" "rope_ok nd" "rope_str nd = []"
    using ropes_finish_ok [OF fit r2(2)] new(2) by auto
  have "height nv \<le> 10" "height nd \<le> 10" using ropes_finish_low [OF sr r2(2) new(2,2) n(1) low8] by simp_all
  moreover have "length (flat nv) \<le> 1" "length (flat nd) \<le> 1"
    using short_one_chunk [OF n(2)] short_one_chunk [OF n(4)] n(3,5) by (simp_all add: len_utf8_def)
  ultimately have ropes: "slices_fit nv" "slices_fit nd" using one_chunk_fits [OF n(2)] one_chunk_fits [OF n(4)] by simp_all
  have d: "fs_text fragment_summary_default = doc_text []" "fs_max_id fragment_summary_default = locator_min"
    by (simp_all add: fragment_summary_default_def doc_text_def)
  have sum0: "fs_text (summary (tree_new fragment_ops)) = doc_text []" "is_empty (tree_new fragment_ops)"
    by (simp_all add: tree_new_def fragment_ops_simps)
  let ?s0 = "\<lparr>es_insertions = [], es_insertion_offset = 0, es_slices = [], es_fragments = \<lparr>fb_chunks = [], fb_summary = fragment_summary_default\<rparr>,
      es_ropes = r0, le_old = empty_cursor, le_start = 0, le_patch = patch_empty, le_ranges = [], le_texts = []\<rparr>"
  have cu: "cu_position empty_cursor = doc_text []" by (simp add: empty_cursor_def)
  have begin0: "begin_edit empty_snapshot 0 = Some ?s0"
    using c(1) r0(1) by (simp add: begin_edit_def empty_snapshot_def slice_empty empty_builder d cu Let_def)
  have norm: "normalize [97] = [97]" by (simp add: carriage_return_def)
  let ?b = "builder_push \<lparr>fb_chunks = [], fb_summary = fragment_summary_default\<rparr> typed_fragment"
  have stop: "delete_loop first_stamp 0 s = Some s" if "le_start s = 0" for s
    using that by (subst delete_loop.simps) simp
  obtain s1 where s1: "apply_one_edit first_stamp ((0, 0), [97]) ?s0 = Some s1" "es_insertions s1 = [insert_new typed_fragment]"
      "es_slices s1 = [InsertionSlice first_stamp first_stamp 0 1]" "es_fragments s1 = ?b" "es_ropes s1 = r1" "le_old s1 = empty_cursor" "le_start s1 = 0"
    using r1(1) first_loop [of ?s0]
    by (simp add: apply_one_edit_def norm skip_to_def push_prefix_def insert_text_def push_fragments_for_insertion_def slice_empty cu d stop Let_def
        del: normalize.simps)
  have rest: "push_rest s1 = Some s1" using s1(6,7) by (simp add: push_rest_def cu)
  let ?leaf = "tree_from_iter fragment_ops [typed_fragment]"
  obtain t where t: "to_sum_tree ?b = Some t" "height t \<le> 1"
    using fragments.tree_append_correct [OF wf_new, of ?leaf] fragments.tree_from_iter_correct [of "[typed_fragment]"] one_item_height [of "[typed_fragment]" fragment_ops]
    by (auto simp: to_sum_tree_def builder_push_def tree_new_def)
  obtain ins found where ins: "tree_edit insertion_ops insertion_dim insertion_fragment_key (tree_new insertion_ops) [insert_new typed_fragment] = Some (ins, found)" "height ins = 0"
    using first_indexes(1) by auto
  obtain sls where sls: "set_extend map_new [InsertionSlice first_stamp first_stamp 0 1] = Some sls" "height sls = 0"
    using first_indexes(2) by auto
  have "finish_edit empty_snapshot s1 = Some (empty_snapshot\<lparr>sn_fragments := t, sn_insertions := ins, sn_visible_text := nv,
      sn_deleted_text := nd, sn_insertion_slices := sls\<rparr>)"
    using s1 r2(1) n(1) t(1) ins(1) sls(1)
    by (simp add: finish_edit_def slice_empty emit_tree_def sum0 builder_append_def) (simp add: empty_snapshot_def)
  then have "sn' = empty_snapshot\<lparr>sn_fragments := t, sn_insertions := ins, sn_visible_text := nv, sn_deleted_text := nd, sn_insertion_slices := sls\<rparr>"
    using edit begin0 s1(1) rest by (simp add: apply_edit_internal_def)
  then show ?thesis using ropes t(2) ins(2) sls(2) by (simp add: snapshot_fits_def shallow_def STACK_CAPACITY_def)
qed

definition empty_buffer :: text_buffer where
  "empty_buffer = \<lparr>bf_snapshot = empty_snapshot, bf_history = history_new rope_new, bf_deferred_ops = queue_new operation_timestamp,
     bf_deferred_replicas = {}, bf_lamport_clock = lamport_new LOCAL, bf_subscriptions = topic_new\<rparr>"

lemma empty_buffer_facts:
  "buffer_new_normalized LOCAL 1 Unix rope_new = Some empty_buffer" "buffer_ok {} seen empty_buffer []" "buffer_fits empty_buffer"
  "buffer_text empty_buffer = []" "hi_transaction_depth (bf_history empty_buffer) = 0" "edit_stamp empty_buffer = first_stamp"
proof -
  have "rope_is_empty rope_new" using rope_measures(3) [OF rope_new_ok(1)] rope_new_ok(2) by simp
  then show b: "buffer_new_normalized LOCAL 1 Unix rope_new = Some empty_buffer"
    by (simp add: buffer_new_normalized_def history_new_def empty_buffer_def empty_snapshot_def Let_def)
  have "str_len (rope_str rope_new) < 2 ^ 32" by (simp add: rope_new_ok(2))
  from buffer_new_normalized_ok [OF rope_new_ok(1) this, of LOCAL 1 Unix seen] b rope_new_ok(2)
  show "buffer_ok {} seen empty_buffer []" by auto
  have "slices_fit rope_new" using one_chunk_fits [OF rope_new_ok(1)] by (simp add: rope_new_def tree_new_def)
  then show "buffer_fits empty_buffer"
    by (simp add: empty_buffer_def empty_snapshot_def buffer_fits_def snapshot_fits_def shallow_def STACK_CAPACITY_def history_new_def lamport_new_def)
      (simp add: map_new_def undo_map_new_def tree_new_def)
  show "buffer_text empty_buffer = []" by (simp add: empty_buffer_def empty_snapshot_def rope_new_ok(2))
  show "hi_transaction_depth (bf_history empty_buffer) = 0" by (simp add: empty_buffer_def history_new_def)
  show "edit_stamp empty_buffer = first_stamp" by (simp add: empty_buffer_def edit_stamp_def first_stamp_def lamport_new_def)
qed

lemma typing_counts: "undo_counts_for undo_map_new [first_stamp] [] = Some [(first_stamp, 1)]"
  unfolding first_stamp_def by code_simp

lemma typing_undo_map: "map_option height (undo_map_insert undo_map_new \<lparr>undo_timestamp = Lamport 3 LOCAL, undo_version = v, undo_counts = [(first_stamp, 1)]\<rparr>) = Some 0"
  unfolding first_stamp_def by code_simp

section \<open>The buffer\<close>

definition typed_entry :: history_entry where
  "typed_entry = (new_entry \<lparr>tr_id = Lamport 1 LOCAL, tr_edit_ids = [first_stamp], tr_start = global_new\<rparr> 0)\<lparr>he_last_edit_at := 1\<rparr>"

lemma typed_history:
  assumes op: "operation_timestamp op = first_stamp" "is_edit op"
  obtains h1 h2 h3 h4 g where "start_transaction (history_new rope_new) global_new 0 (lamport_new LOCAL) = (h1, Lamport 2 LOCAL, Some (Lamport 1 LOCAL))"
    and "history_push h1 op = Some h2" and "push_undo h2 first_stamp = Some h3" and "end_transaction h3 1 = Some (h4, Some typed_entry)"
    and "history_group h4 = Some (h4, Some g)" and "hi_undo_stack h4 = [] @ [typed_entry]" and "shallow (hi_operations h4)"
proof -
  have "shallow map_new" by (simp add: map_new_def tree_new_def shallow_def STACK_CAPACITY_def)
  from map_insert_correct [OF map_ok_new this, of first_stamp op] obtain m where
    m: "map_insert map_new first_stamp op = Some m" "map_ok m" "contents m = [first_stamp \<mapsto> op]" by (auto simp: contents_new)
  have sh: "height m = 0" using m(1) first_operation [of op] by (simp add: first_stamp_def)
  obtain e where e: "op = EditOp e" using op(2) by (cases op) (simp_all add: is_edit_def)
  have get: "map_get m first_stamp = Some (EditOp e)"
    using map_get_correct [OF m(2), of first_stamp] m(3) sh e by (simp add: shallow_def STACK_CAPACITY_def)
  let ?e0 = "new_entry \<lparr>tr_id = Lamport 1 LOCAL, tr_edit_ids = [], tr_start = global_new\<rparr> 0"
  let ?h1 = "(history_new rope_new)\<lparr>hi_transaction_depth := 1, hi_undo_stack := [?e0]\<rparr>"
  let ?h2 = "?h1\<lparr>hi_operations := m\<rparr>"
  let ?h3 = "?h2\<lparr>hi_undo_stack := [he_extend [first_stamp] ?e0]\<rparr>"
  let ?h4 = "?h3\<lparr>hi_transaction_depth := 0, hi_redo_stack := [], hi_undo_stack := [typed_entry]\<rparr>"
  have "start_transaction (history_new rope_new) global_new 0 (lamport_new LOCAL) = (?h1, Lamport 2 LOCAL, Some (Lamport 1 LOCAL))"
    by (simp add: start_transaction_def history_new_def tick_def lamport_new_def Let_def)
  moreover have "history_push ?h1 op = Some ?h2" using m(1) op(1) by (simp add: history_push_def history_new_def)
  moreover have "push_undo ?h2 first_stamp = Some ?h3" using get by (simp add: push_undo_def bind_require last_opt_def)
  moreover have "end_transaction ?h3 1 = Some (?h4, Some typed_entry)"
    by (simp add: end_transaction_def bind_require last_opt_def Let_def typed_entry_def new_entry_def he_extend_def merge_in_def)
  moreover have "\<exists>g. history_group ?h4 = Some (?h4, Some g)"
    by (simp add: history_group_def group_trailing_def usize_sub_def last_opt_def he_extend_def Let_def)
  moreover have "shallow (hi_operations ?h4)" using sh by (simp add: shallow_def STACK_CAPACITY_def)
  ultimately show ?thesis using that [of ?h1 ?h2 ?h3 ?h4] by fastforce
qed

lemma typed_buffer:
  obtains b op where "buffer_edit empty_buffer [((0, 0), [97])] 0 1 = Some (b, EditOp op)" and "buffer_fits b"
    and "hi_undo_stack (bf_history b) = [] @ [typed_entry]" and "undo_fits b (he_transaction typed_entry)" and "buffer_text b = [97]"
    and "hi_transaction_depth (bf_history b) = 0" and "eo_timestamp op = edit_stamp empty_buffer"
proof -
  note f = empty_buffer_facts
  have on: "edits_on 0 (buffer_text empty_buffer) [((0, 0), [97])]" by (simp add: f(4))
  have len: "new_text_len [((0, 0), [97])] < 2 ^ 32" by (simp add: len_utf8_def carriage_return_def)
  obtain b op qs parts rest where b: "buffer_edit empty_buffer [((0, 0), [97])] 0 1 = Some (b, EditOp op)"
      "buffer_ok (insert (edit_stamp empty_buffer) {}) (\<lambda>_. []) b qs" "doc_of [] = before parts @ rest"
      "doc_of qs = after (edit_stamp empty_buffer) 0 parts @ rest" "visible_ranges 0 parts = normalized [((0, 0), [97])]"
      "op = \<lparr>eo_timestamp = edit_stamp empty_buffer, eo_version = sn_version (bf_snapshot empty_buffer), eo_ranges = full_ranges 0 parts,
        eo_new_text = map (normalize \<circ> snd) [((0 :: nat, 0 :: nat), [97])]\<rparr>"
      "sn_version (bf_snapshot b) = observe (sn_version (bf_snapshot empty_buffer)) (edit_stamp empty_buffer)"
      "sn_undo_map (bf_snapshot b) = sn_undo_map (bf_snapshot empty_buffer)"
      "bf_lamport_clock b = Lamport (lvalue (bf_lamport_clock empty_buffer) + 2) (replica_id (bf_lamport_clock empty_buffer))"
      "hi_transaction_depth (bf_history b) = 0" "hi_redo_stack (bf_history b) = []"
      "stack_edits (hi_undo_stack (bf_history b)) = stack_edits (hi_undo_stack (bf_history empty_buffer)) @ [edit_stamp empty_buffer]"
    by (rule buffer_edit_ok [OF f(2) [of "\<lambda>_. []"] f(3,5) on len, of 0 1])
  have m: "sn_undo_map (bf_snapshot b) = undo_map_new" and clock: "bf_lamport_clock b = Lamport 3 LOCAL"
    using b(8,9) by (simp_all add: empty_buffer_def empty_snapshot_def lamport_new_def)
  have stamp: "operation_timestamp (EditOp op) = first_stamp" "is_edit (EditOp op)"
    using b(6) f(6) by (simp_all add: operation_timestamp_def is_edit_def)
  obtain h1 h2 h3 h4 g where h: "start_transaction (history_new rope_new) global_new 0 (lamport_new LOCAL) = (h1, Lamport 2 LOCAL, Some (Lamport 1 LOCAL))"
      "history_push h1 (EditOp op) = Some h2" "push_undo h2 first_stamp = Some h3" "end_transaction h3 1 = Some (h4, Some typed_entry)"
      "history_group h4 = Some (h4, Some g)" "hi_undo_stack h4 = [] @ [typed_entry]" "shallow (hi_operations h4)"
    by (rule typed_history [OF stamp])
  have offsets: "edits_to_offsets empty_snapshot [((0, 0), [97])] = Some [((0, 0), [97])]"
    using edits_to_offsets_same [of empty_snapshot "[]" "[]" "[((0, 0), [97])]"] rope_new_ok
    by (simp add: empty_snapshot_def)
  have t: "tick (Lamport 2 LOCAL) = (first_stamp, Lamport 3 LOCAL)" by (simp add: tick_def first_stamp_def)
  obtain sn' patch subs where a: "apply_edit_internal empty_snapshot [((0, 0), [97])] first_stamp = Some (sn', op, patch)"
      "b = empty_buffer\<lparr>bf_snapshot := sn'\<lparr>sn_version := observe (sn_version sn') first_stamp\<rparr>, bf_subscriptions := subs,
        bf_lamport_clock := Lamport 3 LOCAL, bf_history := h4\<rparr>"
    using b(1) h(1-5) stamp t offsets
    by (auto simp: buffer_edit_def start_transaction_at_def apply_local_edit_def end_transaction_at_def empty_buffer_def empty_snapshot_def Let_def bind_eq_Some_conv)
  have sn': "snapshot_fits sn'" by (rule first_edit_fits [OF a(1)])
  have "snapshot_fits (sn'\<lparr>sn_version := v\<rparr>)" for v using sn' by (simp add: snapshot_fits_def)
  moreover have "sn_undo_map sn' = undo_map_new" using m a(2) by simp
  moreover have "shallow undo_map_new" by (simp add: undo_map_new_def tree_new_def shallow_def STACK_CAPACITY_def)
  ultimately have fits: "buffer_fits b" using h(7) by (simp add: a(2) buffer_fits_def)
  have "undo_fits b (he_transaction typed_entry)"
    using typing_counts typing_undo_map [of "sn_version (bf_snapshot b)"] clock
    by (auto simp: undo_fits_def m typed_entry_def new_entry_def shallow_def STACK_CAPACITY_def)
  moreover have "buffer_text b = [97]"
  proof -
    have "buffer_text b = doc_visible (doc_of qs)" using b(2) by (simp add: buffer_ok_def snapshot_holds_def)
    moreover have "before parts = []" "rest = []" using b(3) by simp_all
    moreover from this(1) b(5) have "parts = [([], [], [97])]"
      by (cases parts rule: before.cases; cases "tl parts") (auto simp: Let_def carriage_return_def split: prod.splits)
    ultimately show ?thesis using b(4) by (simp add: doc_visible_def)
  qed
  ultimately show ?thesis using that b(1,6,10) fits h(6) a(2) by simp
qed

end
