(* ===== verification/Buffer_Claims.thy ===== *)
theory Buffer_Claims
  imports Buffer_Typing
begin

text \<open>
  The main theorems on buffers: new buffers, local edits, and undo and redo, over the invariant \<open>buffer_ok\<close>.
\<close>

section \<open>The characters of a document\<close>

text \<open>Every character with the edit that inserted it and its offset in the text of that edit.\<close>

abbreviation contents_of :: "piece list \<Rightarrow> (insertion_key \<times> nat) list" where
  "contents_of ps \<equiv> map (\<lambda>c. (cell_key c, cl_char c)) (doc_of ps)"

lemma after_keeps_order: "subseq (map (\<lambda>c. (cell_key c, cl_char c)) (before parts)) (map (\<lambda>c. (cell_key c, cl_char c)) (after ts i parts))"
proof (induction ts i parts rule: after.induct)
  case (2 ts i kept removed new parts)
  let ?k = "map (\<lambda>c. (cell_key c, cl_char c))"
  have same: "?k (map (mark ts) removed) = ?k removed" by (simp add: mark_def cell_key_def)
  have "subseq (?k removed @ ?k (before parts)) (?k removed @ ?k (after ts (i + str_len new) parts))"
    by (rule list_emb_append_mono [OF subseq_order.refl 2])
  from list_emb_append_mono [OF subseq_order.refl list_emb_append2 [OF this], of "?k kept" "?k (inserted ts i new)"]
  show ?case unfolding before.simps after.simps map_append same .
qed simp

section \<open>New buffers and edits\<close>

text \<open>
  C5 A new buffer satisfies the invariant: its text is the given one with normalised line endings, it remembers the line
  ending found in it, and there is nothing to undo or redo.
\<close>

theorem buffer_new_wellformed:
  assumes "str_len (normalize base) < 2 ^ 32"
  shows "\<exists>b ps. buffer_new replica remote base = Some b \<and> buffer_ok {} seen b ps \<and> buffer_text b = normalize base \<and>
    detect base = Some (sn_line_ending (bf_snapshot b)) \<and> sn_replica_id (bf_snapshot b) = replica \<and>
    timeline (bf_history b) = []"
proof -
  obtain b ps where b: "buffer_new replica remote base = Some b" "buffer_ok {} seen b ps" "buffer_text b = normalize base"
    by (rule buffer_new_ok [OF assms])
  have f: "detect base = Some (sn_line_ending (bf_snapshot b))" "sn_replica_id (bf_snapshot b) = replica" "timeline (bf_history b) = []"
    using b(1) by (auto simp: buffer_new_def buffer_new_normalized_def Let_def bind_eq_Some_conv history_new_def timeline_def split: if_splits)
  with b show ?thesis by blast
qed

theorem buffer_new_wellformed_witness:
  "\<exists>b. buffer_new LOCAL 7 [97, 13, 10, 98] = Some b \<and> buffer_text b = [97, 10, 98] \<and> sn_line_ending (bf_snapshot b) = Windows"
proof -
  have n: "normalize [97, 13, 10, 98] = [97, 10, 98]" "detect [97, 13, 10, 98] = Some Windows" by code_simp+
  have "str_len (normalize [97, 13, 10, 98]) < 2 ^ 32" unfolding n(1) by (simp add: len_utf8_def)
  from buffer_new_wellformed [OF this, of LOCAL 7 "\<lambda>_. []"] n show ?thesis by (metis option.inject)
qed

text \<open>
  C1 A local edit of a buffer never panics. The bytes of the text are those before with the given ranges replaced by
  the new texts, their line endings normalised. The edit keeps the invariant of the buffer (its fragments, index of
  insertions, slices, ropes and undo map describe one document, and every subscriber can follow the change);
  no character is lost or moved: those of the old document remain, in their order, also where they are deleted.
  The operation carries the next tick of the clock, the version before it and the new texts; the buffer has
  observed it, it can be undone, and nothing can be redone. The trees must be low enough for the cursors to walk.
\<close>

theorem buffer_edit_splices:
  assumes "buffer_ok E seen b ps" and "buffer_fits b" and "hi_transaction_depth (bf_history b) = 0"
    and "edits_on 0 (buffer_text b) edits" and "new_text_len edits < 2 ^ 32"
  shows "\<exists>b' op qs. buffer_edit b edits started ended = Some (b', EditOp op) \<and> buffer_ok (insert (edit_stamp b) E) seen b' qs \<and>
    as_bytes (buffer_text b') = splice_bytes 0 (as_bytes (buffer_text b)) (normalized edits) \<and>
    subseq (contents_of ps) (contents_of qs) \<and>
    eo_timestamp op = edit_stamp b \<and> eo_version op = sn_version (bf_snapshot b) \<and> eo_new_text op = map (normalize \<circ> snd) edits \<and>
    sn_version (bf_snapshot b') = observe (sn_version (bf_snapshot b)) (edit_stamp b) \<and> hi_redo_stack (bf_history b') = [] \<and>
    stack_edits (hi_undo_stack (bf_history b')) = stack_edits (hi_undo_stack (bf_history b)) @ [edit_stamp b]"
proof -
  obtain b' op qs parts rest where e: "buffer_edit b edits started ended = Some (b', EditOp op)"
      "buffer_ok (insert (edit_stamp b) E) seen b' qs" "doc_of ps = before parts @ rest" "doc_of qs = after (edit_stamp b) 0 parts @ rest"
      "visible_ranges 0 parts = normalized edits" "op = \<lparr>eo_timestamp = edit_stamp b, eo_version = sn_version (bf_snapshot b),
        eo_ranges = full_ranges 0 parts, eo_new_text = map (normalize \<circ> snd) edits\<rparr>"
      "sn_version (bf_snapshot b') = observe (sn_version (bf_snapshot b)) (edit_stamp b)" "hi_redo_stack (bf_history b') = []"
      "stack_edits (hi_undo_stack (bf_history b')) = stack_edits (hi_undo_stack (bf_history b)) @ [edit_stamp b]"
    by (rule buffer_edit_ok [OF assms])
  have "buffer_text b = doc_visible (before parts @ rest)" "buffer_text b' = doc_visible (after (edit_stamp b) 0 parts @ rest)"
    using assms(1) e(2-4) by (simp_all add: buffer_ok_def snapshot_holds_def)
  then have "as_bytes (buffer_text b') = splice_bytes 0 (as_bytes (buffer_text b)) (normalized edits)"
    using visible_after [of "edit_stamp b" 0 parts rest 0] by (simp add: e(5))
  moreover have "subseq (contents_of ps) (contents_of qs)"
    unfolding e(3,4) map_append by (intro list_emb_append_mono after_keeps_order subseq_order.refl)
  ultimately show ?thesis
    using e(1,2,6-9) by (intro exI [of _ b'] exI [of _ op] exI [of _ qs]) simp
qed

theorem buffer_edit_splices_witness:
  "\<exists>b b' op. buffer_new_normalized LOCAL 1 Unix sample_rope = Some b \<and> buffer_edit b [((2, 6), [99])] 0 1 = Some (b', EditOp op) \<and>
     as_bytes (buffer_text b') = [97, 10, 99, 98] \<and> eo_timestamp op = Lamport 3 LOCAL"
proof -
  obtain b where b: "buffer_new_normalized LOCAL 1 Unix sample_rope = Some b" "\<And>seen. buffer_ok {} seen b [(first_fragment sample, sample)]"
      "buffer_text b = sample" "buffer_fits b" "bf_history b = history_new sample_rope" "bf_lamport_clock b = Lamport 2 LOCAL"
    by (metis option.inject sample_new_buffer)
  have on: "edits_on 0 (buffer_text b) [((2, 6), [99])]"
    unfolding b(3) edits_on.simps
    by (rule exI [of _ "[97, 10]"], rule exI [of _ "[0x1F600]"], rule exI [of _ "[98]"]) (simp add: sample_def len_utf8_def)
  have len: "new_text_len [((2, 6), [99])] < 2 ^ 32" by (simp add: len_utf8_def carriage_return_def)
  have depth: "hi_transaction_depth (bf_history b) = 0" by (simp add: b(5) history_new_def)
  have "normalized [((2, 6), [99])] = [((2, 6), [99])]" by (simp add: carriage_return_def)
  then obtain b' op where
    "buffer_edit b [((2, 6), [99])] 0 1 = Some (b', EditOp op)" "eo_timestamp op = edit_stamp b"
    "as_bytes (buffer_text b') = splice_bytes 0 (as_bytes sample) [((2, 6), [99])]"
    using buffer_edit_splices [OF b(2) [of "\<lambda>_. []"] b(4) depth on len, of 0 1] b(3) by auto
  moreover have "splice_bytes 0 (as_bytes sample) [((2, 6), [99])] = [97, 10, 99, 98]"
    by (simp add: sample_def as_bytes_def utf8_def)
  ultimately show ?thesis using b(1,6) by (intro exI [of _ b] exI [of _ b'] exI [of _ op]) (simp add: edit_stamp_def)
qed

section \<open>Undo and redo\<close>

text \<open>
  C2 Undoing the newest transaction of a buffer never panics and keeps the invariant. Exactly the edits of the transaction
  change between done and undone, the document keeps its characters, and the text is made of exactly those
  whose insertion is not undone and whose deletions all are; the transaction moves to those that can be redone.
  No count may have reached the maximum of 32 bits.
\<close>

theorem undo_shows:
  assumes "buffer_ok E seen b ps" and "buffer_fits b" and "undo_fits b (he_transaction he)"
    and "hi_transaction_depth (bf_history b) = 0" and "hi_undo_stack (bf_history b) = hs @ [he]"
    and "\<forall>e \<in> set (he_edits he). undo_number (sn_undo_map (bf_snapshot b)) e \<noteq> - 1"
  shows "\<exists>b' op qs. buffer_undo b = Some (b', Some (he_id he, UndoOp op)) \<and> buffer_ok E seen b' qs \<and>
    fst ` set (undo_counts op) = set (he_edits he) \<and>
    (\<forall>e. undone_in (sn_undo_map (bf_snapshot b')) e \<longleftrightarrow> undone_in (sn_undo_map (bf_snapshot b)) e \<noteq> (e \<in> set (he_edits he))) \<and>
    contents_of qs = contents_of ps \<and>
    buffer_text b' = map cl_char (filter (shown_in (sn_undo_map (bf_snapshot b'))) (doc_of ps)) \<and>
    hi_undo_stack (bf_history b') = hs \<and> hi_redo_stack (bf_history b') = hi_redo_stack (bf_history b) @ [he]"
proof -
  obtain b' op qs where u: "buffer_undo b = Some (b', Some (he_id he, UndoOp op))" "buffer_ok E seen b' qs"
      "\<And>e. undone_in (sn_undo_map (bf_snapshot b')) e \<longleftrightarrow>
        (if e \<in> set (he_edits he) then \<not> undone_in (sn_undo_map (bf_snapshot b)) e else undone_in (sn_undo_map (bf_snapshot b)) e)"
      "doc_of qs = map (undo_cell (sn_undo_map (bf_snapshot b')) (undo_timestamp op) (map fst (undo_counts op))) (doc_of ps)"
      "buffer_text b' = map cl_char (filter (shown_in (sn_undo_map (bf_snapshot b'))) (doc_of ps))"
      "hi_undo_stack (bf_history b') = hs" "hi_redo_stack (bf_history b') = hi_redo_stack (bf_history b) @ [he]"
      "fst ` set (undo_counts op) = set (he_edits he)"
    by (rule buffer_undo_ok [OF assms]) blast
  have "contents_of qs = contents_of ps" unfolding u(4) by simp
  with u(1-3,5-8) show ?thesis by (intro exI [of _ b'] exI [of _ op] exI [of _ qs]) simp
qed

theorem undo_shows_witness:
  "\<exists>b op. buffer_undo sample_buffer = Some (b, Some (Lamport 1 (ReplicaId 9), op)) \<and> buffer_text b = []"
proof -
  note s = sample_buffer_facts
  have room: "\<forall>e \<in> set (he_edits base_entry). undo_number (sn_undo_map (bf_snapshot sample_buffer)) e \<noteq> - 1"
    using sample_room by simp
  obtain b op where b: "buffer_undo sample_buffer = Some (b, Some (he_id base_entry, UndoOp op))"
      "\<forall>e. undone_in (sn_undo_map (bf_snapshot b)) e \<longleftrightarrow> undone_in (sn_undo_map (bf_snapshot sample_buffer)) e \<noteq> (e \<in> set (he_edits base_entry))"
      "buffer_text b = map cl_char (filter (shown_in (sn_undo_map (bf_snapshot b))) (doc_of [(first_fragment sample, sample)]))"
    using undo_shows [OF s(1) [of "\<lambda>_. []"] s(2) sample_undo_fits s(5,3) room] by blast
  have "undone_in (sn_undo_map (bf_snapshot b)) base_edit" using b(2) by (simp add: s(8) base_entry_def new_entry_def)
  moreover have "cl_timestamp c = base_edit" if "c \<in> set (doc_of [(first_fragment sample, sample)])" for c
    using that cells_fields [of c "first_fragment sample" _ sample] by (auto simp: piece_cells_def first_fragment_def base_edit_def)
  ultimately have "filter (shown_in (sn_undo_map (bf_snapshot b))) (doc_of [(first_fragment sample, sample)]) = []"
    by (auto simp: filter_empty_conv shown_in_def)
  with b(1,3) show ?thesis by (auto simp: he_id_def base_entry_def new_entry_def)
qed

text \<open>
  C3 Undoing a transaction restores the text from before its first edit. In any run of a buffer that edits it and
  starts and ends transactions, also nested ones, the edits of the run that ended up in one entry of the history, by
  grouping in time or by an explicit transaction around them, are taken back together: when the entry holds all
  edits of the run, \<open>undo\<close> returns and shows exactly the text there was before the run, whatever the edits inserted,
  replaced and deleted.
\<close>

theorem undo_restores:
  assumes "buffer_ok E seen b ps" and "hi_transaction_depth (bf_history b) = 0" and "edit_run b tss b1"
    and "hi_transaction_depth (bf_history b1) = 0"
    and "hi_undo_stack (bf_history b1) = hs @ [he]" and "set (he_edits he) = set tss"
    and "buffer_fits b1" and "undo_fits b1 (he_transaction he)"
  shows "\<exists>b2 op E' qs. buffer_undo b1 = Some (b2, Some (he_id he, op)) \<and> buffer_text b2 = buffer_text b \<and> buffer_ok E' seen b2 qs \<and>
    hi_undo_stack (bf_history b2) = hs \<and> hi_redo_stack (bf_history b2) = hi_redo_stack (bf_history b1) @ [he]"
  using edit_run_undo [OF assms] .

theorem undo_restores_witness:
  "\<exists>b1 tid b2 op b3 t b4 r. start_transaction_at empty_buffer 0 = (b1, tid) \<and> buffer_edit b1 [((0, 0), [97])] 0 0 = Some (b2, op) \<and>
     end_transaction_at b2 1 = Some (b3, t) \<and> buffer_text b3 = [97] \<and> buffer_undo b3 = Some (b4, r) \<and> buffer_text b4 = []"
proof -
  note e = empty_buffer_facts
  obtain b3 eo where b3: "buffer_edit empty_buffer [((0, 0), [97])] 0 1 = Some (b3, EditOp eo)" "buffer_fits b3"
      "hi_undo_stack (bf_history b3) = [] @ [typed_entry]" "undo_fits b3 (he_transaction typed_entry)" "buffer_text b3 = [97]"
      "hi_transaction_depth (bf_history b3) = 0" "eo_timestamp eo = edit_stamp empty_buffer"
    by (rule typed_buffer)
  obtain b1 b2 tid t where s: "start_transaction_at empty_buffer 0 = (b1, tid)" "buffer_edit b1 [((0, 0), [97])] 0 0 = Some (b2, EditOp eo)"
      "end_transaction_at b2 1 = Some (b3, t)" using edit_in_transaction [OF b3(1) e(5), of 0 0] by blast
  have same: "buffer_text b1 = []" "buffer_fits b1"
    using s(1) e(3,4) by (auto simp: start_transaction_at_def start_transaction_def buffer_fits_def tick_def Let_def empty_buffer_def
        history_new_def lamport_new_def)
  have "edit_run empty_buffer [] b1" by (rule edit_run_start [OF edit_run_none e(3) s(1)])
  moreover have "edits_on 0 (buffer_text b1) [((0, 0), [97])]" by (simp add: same(1))
  moreover have "new_text_len [((0, 0), [97])] < 2 ^ 32" by (simp add: len_utf8_def carriage_return_def)
  ultimately have "edit_run empty_buffer ([] @ [eo_timestamp eo]) b2" using s(2) same(2) by (intro edit_run_more)
  then have run: "edit_run empty_buffer ([] @ [eo_timestamp eo]) b3" by (rule edit_run_end [OF _ s(3)])
  have "set (he_edits typed_entry) = set ([] @ [eo_timestamp eo])" by (simp add: b3(7) e(6) typed_entry_def new_entry_def)
  from undo_restores [OF e(2) [of "\<lambda>_. []"] e(5) run b3(6,3) this b3(2,4)] s b3(5) e(4) show ?thesis by auto
qed

text \<open>
  C4 Redoing what was just undone restores the text and both stacks, whatever other edits and undone transactions
  the buffer holds.
\<close>

theorem undo_then_redo_restores:
  assumes "buffer_ok E seen b ps" and "buffer_fits b" and "undo_fits b (he_transaction he)"
    and "hi_transaction_depth (bf_history b) = 0" and "hi_undo_stack (bf_history b) = hs @ [he]"
    and "\<forall>e \<in> set (he_edits he). undo_number (sn_undo_map (bf_snapshot b)) e < - 2"
    and "buffer_undo b = Some (b1, r)" and "buffer_fits b1" and "undo_fits b1 (he_transaction he)"
  shows "\<exists>b2 op qs. buffer_redo b1 = Some (b2, Some (he_id he, op)) \<and> buffer_text b2 = buffer_text b \<and> buffer_ok E seen b2 qs \<and>
    hi_undo_stack (bf_history b2) = hi_undo_stack (bf_history b) \<and> hi_redo_stack (bf_history b2) = hi_redo_stack (bf_history b)"
  using undo_then_redo [OF assms] by blast

theorem undo_then_redo_restores_witness:
  "\<exists>b1 b2 r op. buffer_undo sample_buffer = Some (b1, r) \<and> buffer_redo b1 = Some (b2, Some (Lamport 1 (ReplicaId 9), op)) \<and>
     buffer_text b2 = [97, 10, 0x1F600, 98]"
proof -
  note s = sample_buffer_facts
  obtain b1 r where b1: "buffer_undo sample_buffer = Some (b1, r)" "buffer_fits b1" "undo_fits b1 (he_transaction base_entry)"
    by (rule sample_undone)
  have room: "\<forall>e \<in> set (he_edits base_entry). undo_number (sn_undo_map (bf_snapshot sample_buffer)) e < - 2"
    using sample_room by (simp add: word_less_nat_alt)
  from undo_then_redo_restores [OF s(1) [of "\<lambda>_. []"] s(2) sample_undo_fits s(5,3) room b1] b1(1) s(9) show ?thesis
    by (auto simp: he_id_def base_entry_def new_entry_def sample_def)
qed

end
