(* ===== verification/Spec2Isabelle.thy ===== *)
theory Spec2Isabelle
  imports Prelude Clock Sum_Tree_Theorems Text_Theorems Patch Selection Chunk_Theorems Rope_Theorems Buffer_Theorems
    Buffer_Claims
begin

text \<open>
  A verification of the text core of zdbt, the dbt development environment built on the Zed
  editor. Everything the editor shows and every edit that replicas exchange rests on five
  crates: \<open>clock\<close> (logical time), \<open>sum_tree\<close> (a B+ tree with cached summaries and cursors), \<open>rope\<close>
  (text as a tree of chunks), \<open>text\<close> (the replicated buffer) and the small types around them. The
  development follows these crates file by file, from the bottom up; names of definitions are
  those of the source where Isabelle allows it.

  \<^bold>\<open>Conventions.\<close> A Rust panic (an assertion, an index out of range, an \<open>unwrap\<close> of \<open>None\<close>, a full
  \<open>ArrayVec\<close>, an unsigned subtraction below zero or an overlong shift in a build with checks) is
  \<open>None\<close> of an option result; operations that mutate return the new value. A loop without an
  obvious bound is a \<open>partial_function\<close> in the option monad, and each such loop is shown to return
  on the states that occur. Machine integers are words where wrap-around matters (timestamps,
  locators, bitmaps, points) and natural numbers for sizes in memory and heights of trees. The counters of rows, columns and
  line lengths are 32-bit in the source; the dimensions of a rope compute them as natural numbers, which are the machine's
  below 4 GiB of text, and the properties that show them (positions, clipping, measures) ask for that and relate machine points
  through \<open>point_nat\<close>, \<open>point_utf16_nat\<close> and \<open>text_nat\<close>. \<open>Arc\<close> sharing and the
  mutexes around single operations are not visible in the model.

  \<^bold>\<open>Theories.\<close>
  \<^item> \<open>Prelude\<close>: orderings, machine integers, checked operations, shared facts on lists and words.
  \<^item> \<open>Clock\<close> (\<open>crates/clock/src/clock.rs\<close>): Lamport timestamps and the version vector \<open>Global\<close>. The
    vectors stay canonical, \<open>join\<close> is a least upper bound, comparisons mean what they say of every
    replica, ticks respect causality, and the packed form of a timestamp keeps the order.
  \<^item> \<open>Sum_Tree\<close>, \<open>Sum_Tree_Append\<close>, \<open>Sum_Tree_Access\<close> (\<open>crates/sum_tree/src/sum_tree.rs\<close>): the tree with
    its construction, \<open>push\<close>, \<open>append\<close> for trees of any heights, updates and \<open>find\<close>. The invariant
    \<open>wf_tree\<close> is balance, capacity and exact cached summaries; the locale \<open>summary_laws\<close> states what
    an item's summary has to satisfy, and every client interprets it.
  \<^item> \<open>Cursor\<close>, \<open>Cursor_Seek\<close>, \<open>Cursor_Step\<close>, \<open>Cursor_Iter\<close> (\<open>crates/sum_tree/src/cursor.rs\<close>): cursors as an
    explicit stack of at most 16 entries, with seeking, slicing, stepping both ways, filtering and
    iteration. On a tree lower than the stack (\<open>shallow\<close>) they never exceed it.
  \<^item> \<open>Keyed_Tree\<close>, \<open>Tree_Map\<close> (\<open>sum_tree.rs\<close>, \<open>tree_map.rs\<close>): keyed edits, and \<open>TreeMap\<close> and \<open>TreeSet\<close> as
    refinements of finite maps and sets.
  \<^item> \<open>Sum_Tree_Theorems\<close>: the properties of the tree, its cursors and maps.
  \<^item> \<open>Locator\<close>, \<open>Undo_Map\<close>, \<open>Operation_Queue\<close> (files of the same names under \<open>crates/text/src\<close>): positions
    between positions, undo counts, and deferred operations, all on the tree. Adding the summaries of a queue is total here; the
    two assertions of the source are predicates beside it.
  \<^item> \<open>Rope_Points\<close>, \<open>Text_Summary\<close>, \<open>Text_Dimension\<close> (\<open>point.rs\<close>, \<open>point_utf16.rs\<close>, \<open>offset_utf16.rs\<close>,
    \<open>unclipped.rs\<close> and the summaries of \<open>rope.rs\<close> under \<open>crates/rope/src\<close>): positions in a text, the
    summary of a text with its addition, both on natural numbers and on \<open>u32\<close>, and the dimensions
    by which a tree of chunks is searched.
  \<^item> \<open>Text_Theorems\<close>: the properties of these.
  \<^item> \<open>Bitmap\<close>, \<open>Chunk\<close>, \<open>Chunk_Convert\<close>, \<open>Chunk_Theorems\<close> (\<open>crates/rope/src/chunk.rs\<close>): up to 128 bytes of text
    with bitmaps of 128 bits. A bitmap is read as the list of its bits; the theories show that the
    bitmaps always describe the text, that every measure and conversion computed by masking and
    counting bits is that of the text, and that the branch-free selection of the n-th set bit is
    right.
  \<^item> \<open>Rope\<close>, \<open>Rope_Convert\<close>, \<open>Rope_Clip\<close>, \<open>Rope_Cursor\<close>, \<open>Rope_Chunks\<close> (\<open>crates/rope/src/rope.rs\<close>): the rope as a tree of chunks.
    \<open>rope_ok\<close> is its invariant and \<open>rope_str\<close> its text; \<open>holds\<close> says that an operation returns a rope with
    the invariant and a given text. Editing, conversions between positions, clipping, cursors that
    slice and measure, and the iterators over chunks and lines are shown to act on the text. \<open>Rope_Clip\<close> says which valid
    position clipping finds: the closest one on the side of the bias.
    Where an operation walks a rope with a cursor, \<open>shallow\<close> asks that the rope be lower than the
    cursor's stack; the crate keeps no minimum fill in the nodes of slices, so \<open>slices_fit\<close> asks the
    same of the slices of a rope; it is discharged for ropes of one chunk.
  \<^item> \<open>Rope_Theorems\<close>: the properties of ropes.
  \<^item> \<open>Patch\<close> (\<open>patch.rs\<close>, \<open>subscription.rs\<close> and the type \<open>Edit\<close> of \<open>text.rs\<close>): lists of edits, their
    composition, inversion and position lookup, and the topics that compose edits for their
    subscribers. A patch \<open>explains\<close> how one text became another; composing explanations gives an
    explanation. \<open>topic_reachable\<close> is what the calls on a topic can lead to, in any order.
  \<^item> \<open>Selection\<close> (\<open>selection.rs\<close>): selections with head and tail.

  \<^item> \<open>History\<close>, \<open>Line_Ending\<close>, \<open>Fragment\<close> (\<open>text.rs\<close>): the operations that replicas exchange and the history with its
    stacks of transactions; the conversion of line endings; the fragments of a buffer with their
    summaries and the builders of the tree of fragments and of the ropes.
  \<^item> \<open>Buffer_Theorems\<close>: the properties of these.
  \<^item> \<open>Buffer_Edit\<close> (\<open>text.rs\<close>, \<open>apply_edit_internal\<close> and \<open>push_fragments_for_insertion\<close>): the snapshot and its local
    edits, one definition per step of the walk over the old fragments.
  \<^item> \<open>Buffer_Doc\<close>, \<open>Buffer_Local\<close>, \<open>Buffer_Apply\<close>, \<open>Buffer_State\<close>: what a snapshot stands for is a document, the sequence of all
    characters ever inserted with the edit and offset that name each and the edits that deleted it.
    \<open>snapshot_holds\<close> relates fragments, ropes, index of insertions and slices to it; a local edit is shown
    to take the document apart and insert and mark the right characters (\<open>before\<close> and \<open>after\<close>).
  \<^item> \<open>Buffer_Undo\<close>, \<open>Buffer_Toggle\<close> (\<open>fragment_ids_for_edits\<close>, \<open>apply_undo\<close>): the fragments that edits touched are found
    through their slices, and each is shown or hidden as the undo map says.
  \<^item> \<open>Text_Buffer\<close> (\<open>Buffer\<close>): new buffers, transactions, \<open>edit\<close>, \<open>undo\<close>, \<open>redo\<close> and their variants, with the invariant
    \<open>buffer_ok\<close>: snapshot, undo map, clock, history and subscriptions agree. \<open>buffer_fits\<close> and \<open>undo_fits\<close> ask that
    the trees before an operation be low enough for the cursors, and that the clock not be at its end.
  \<^item> \<open>Buffer_Trips\<close>: edits followed by undo, and undo followed by redo; a run of edits (\<open>edit_run\<close>) is joined into one transaction
    by time or by starting and ending one explicitly. \<open>Buffer_Samples\<close>, \<open>Buffer_Typing\<close>:
    bounds on the heights of the trees of a small buffer, and the buffers of the examples. \<open>Buffer_Claims\<close>: the properties of buffers.

  \<^bold>\<open>Interactions.\<close> The tree is generic in the item and its summary, a record of operations that
  the locale \<open>summary_laws\<close> constrains; maps, undo maps, operation queues, locators and chunks of
  text are its instances, so their properties rest on the cursor's. Dimensions of a text
  interpret the locale \<open>text_dimension\<close>; those that order the prefixes of a text extend it to
  \<open>text_position\<close>, on which the searches of a rope rest, and those that a chunk can compute to
  \<open>chunk_dimension\<close>, on which the measures of a rope's cursor rest. The filtered cursors and keyed
  trees have locales of their own.

  \<^bold>\<open>Not modelled.\<close> Of \<open>text.rs\<close>: applying edits of other replicas and deferring operations that are not yet
  applicable, anchors, queries on older versions, and the channels on which tasks wait for edits. A new text
  of 4 GiB or more overflows the 32-bit offsets of insertions and is outside the theorems.
  Floating-point code (\<open>streaming_diff\<close>, the scores of \<open>fuzzy\<close>), user interface, rendering, language
  servers, asynchronous I/O and clients of external services are outside: they are glue around
  libraries that the sources only call.
\<close>

end
